(* ===== verification/Prelude.thy ===== *)
theory Prelude
  imports Main "HOL-Library.Word"
begin

text \<open>
  Types, the fallible state-passing combinators and the generic lemmas that the component
  theories share. A C function that works on a cursor or a buffer through a pointer and
  returns 0 or 1 is an \<open>op\<close>: it takes the object behind the pointer and returns the
  result (\<open>None\<close> for a return of 0) together with the object as the call leaves it,
  also when the call fails. \<open>op_bind\<close> is sequencing with an early \<open>return 0\<close>.
\<close>

unbundle bit_operations_syntax

section \<open>Types\<close>

type_synonym u8 = "8 word"
type_synonym u16 = "16 word"
type_synonym u32 = "32 word"
type_synonym u64 = "64 word"
type_synonym byte = "8 word"

type_synonym ('s, 'a) op = "'s \<Rightarrow> 'a option \<times> 's"

text \<open>\<open>size_t\<close> is 64 bits wide on the platforms the application ships for.\<close>

abbreviation SIZE_MAX :: nat where
  "SIZE_MAX \<equiv> 2 ^ 64 - 1"

named_theorems op_defs \<open>definitions of operations, unfolded when one call is evaluated\<close>
named_theorems der_simps \<open>facts on the DER octets of tags and lengths\<close>

section \<open>Fallible operations on a state\<close>

definition op_return :: "'a \<Rightarrow> ('s, 'a) op" where
  "op_return a = (\<lambda>s. (Some a, s))"

definition op_fail :: "('s, 'a) op" where
  "op_fail = (\<lambda>s. (None, s))"

definition op_bind :: "('s, 'a) op \<Rightarrow> ('a \<Rightarrow> ('s, 'b) op) \<Rightarrow> ('s, 'b) op" where
  "op_bind m f = (\<lambda>s. case m s of (None, s') \<Rightarrow> (None, s') | (Some a, s') \<Rightarrow> f a s')"

definition op_guard :: "bool \<Rightarrow> ('s, unit) op" where
  "op_guard b = (if b then op_return () else op_fail)"

definition op_map :: "('a \<Rightarrow> 'b) \<Rightarrow> ('s, 'a) op \<Rightarrow> ('s, 'b) op" where
  "op_map f m = op_bind m (\<lambda>a. op_return (f a))"

lemma op_return_apply [simp]: "op_return a s = (Some a, s)"
  by (simp add: op_return_def)

lemma op_fail_apply [simp]: "op_fail s = (None, s)"
  by (simp add: op_fail_def)

lemma op_guard_apply [simp]: "op_guard b s = (if b then Some () else None, s)"
  by (simp add: op_guard_def)

lemma op_bind_apply: "op_bind m f s = (case m s of (None, s') \<Rightarrow> (None, s') | (Some a, s') \<Rightarrow> f a s')"
  by (simp add: op_bind_def)

lemma op_bind_Some [simp]: "m s = (Some a, s') \<Longrightarrow> op_bind m f s = f a s'"
  by (simp add: op_bind_def)

lemma op_bind_None [simp]: "m s = (None, s') \<Longrightarrow> op_bind m f s = (None, s')"
  by (simp add: op_bind_def)

lemma op_bind_eq_Some:
  "op_bind m f s = (Some b, t) \<longleftrightarrow> (\<exists>a s'. m s = (Some a, s') \<and> f a s' = (Some b, t))"
  by (auto simp: op_bind_def split: prod.splits option.splits)

lemma op_map_eq_Some:
  "op_map g m s = (Some b, t) \<longleftrightarrow> (\<exists>a. m s = (Some a, t) \<and> b = g a)"
  by (auto simp: op_map_def op_bind_eq_Some)

lemma op_bind_guard: "op_bind (op_guard b) f s = (if b then f () s else (None, s))"
  by (simp add: op_bind_def op_guard_def)

lemmas op_apply = op_bind_apply op_bind_guard op_map_def

section \<open>Machine words\<close>

lemma unat_push_bit_lt:
  fixes v :: "'a::len word"
  assumes "unat v * 2 ^ k < 2 ^ LENGTH('a)"
  shows "unat (push_bit k v) = unat v * 2 ^ k"
  unfolding unsigned_push_bit_eq
  using assms by (simp add: push_bit_eq_mult take_bit_nat_eq_self_iff)

text \<open>The recurring C idiom \<open>(v << k) | w\<close> for a \<open>w\<close> of at most \<open>k\<close> bits.\<close>

lemma push_bit_or_eq_add:
  fixes v w :: "'a::len word"
  assumes "unat w < 2 ^ k"
  shows "push_bit k v OR w = push_bit k v + w"
proof (rule disjunctive_add_eq_or [symmetric])
  have "\<not> bit w n" if "k \<le> n" for n
  proof -
    have "unat w < 2 ^ n"
      using assms that by (meson less_le_trans one_le_numeral power_increasing)
    then have "\<not> bit (unat w) n"
      by (metis bit_take_bit_iff less_irrefl take_bit_nat_eq_self)
    then show ?thesis by (simp add: bit_unsigned_iff)
  qed
  then show "push_bit k v AND w = 0"
    by (auto simp: bit_eq_iff bit_simps)
qed

lemma unat_push_bit_or:
  fixes v w :: "'a::len word"
  assumes w: "unat w < 2 ^ k" and v: "unat v * 2 ^ k + unat w < 2 ^ LENGTH('a)"
  shows "unat (push_bit k v OR w) = unat v * 2 ^ k + unat w"
proof -
  have "unat v * 2 ^ k < 2 ^ LENGTH('a)" using v by simp
  then have "unat (push_bit k v) = unat v * 2 ^ k" by (rule unat_push_bit_lt)
  moreover have "unat (push_bit k v + w) = unat (push_bit k v) + unat w"
    using v calculation by (simp add: unat_word_ariths)
  ultimately show ?thesis using push_bit_or_eq_add [OF w, of v] by simp
qed

lemma unat_and_mask: "unat (w AND mask n) = unat (w :: 'a::len word) mod 2 ^ n"
  unfolding take_bit_eq_mask [symmetric] unsigned_take_bit_eq by (simp add: take_bit_eq_mod)

lemma unat_drop_bit: "unat (drop_bit n (w :: 'a::len word)) = unat w div 2 ^ n"
  unfolding unat_drop_bit_eq by (simp add: drop_bit_eq_div)

lemma unat_ucast_up:
  fixes w :: "'a::len word"
  assumes "LENGTH('a) \<le> LENGTH('b::len)"
  shows "unat (ucast w :: 'b word) = unat w"
  using assms by (simp add: unsigned_ucast_eq take_bit_nat_eq_self_iff)
    (metis unsigned_less order_less_le_trans one_le_numeral power_increasing)

lemma unat_ucast_mod: "unat (ucast (w :: 'a::len word) :: 'b::len word) = unat w mod 2 ^ LENGTH('b)"
  by (simp add: unsigned_ucast_eq take_bit_eq_mod)

lemma unat_eq_of_nat: "unat w = n \<Longrightarrow> w = of_nat n" for w :: "'a::len word"
  by (metis of_nat_unat ucast_id)

lemma unat_of_nat_small: "n < 2 ^ LENGTH('a) \<Longrightarrow> unat (of_nat n :: 'a::len word) = n"
  by (simp add: unat_of_nat take_bit_nat_eq_self_iff)

lemma word_unat_lt: "unat (v :: 'a::len word) < 2 ^ LENGTH('a)"
  by (rule unsigned_less)

lemma unat_lt8 [simp]: "unat (b :: u8) < 256"
  using unsigned_less [of b, where 'a = nat] by simp

lemma unat_le8 [simp]: "unat (b :: u8) \<le> 255"
  using unat_lt8 [of b] by linarith

lemma byte_and_7f: "unat ((b :: u8) AND 0x7f) = unat b mod 128"
  using unat_and_mask [of b 7] by (simp add: mask_eq_exp_minus_1)

lemma byte_high: "128 \<le> unat (b :: u8) \<Longrightarrow> unat b mod 128 = unat b - 128"
proof -
  assume b: "128 \<le> unat b"
  have "unat b - 128 < 128" using unat_lt8 [of b] by linarith
  with b show ?thesis by (simp add: le_mod_geq)
qed

text \<open>A fact about all bytes can be checked on the 256 values.\<close>

lemma byte_check:
  assumes "list_all (\<lambda>n. P (word_of_nat n)) [0..<256]"
  shows "P (b :: u8)"
proof -
  have "unat b \<in> set [0..<256]" by simp
  with assms have "P (word_of_nat (unat b))" unfolding list_all_iff by blast
  then show ?thesis by simp
qed

lemma byte_and_80: "(b :: u8) AND 0x80 = 0 \<longleftrightarrow> unat b < 128"
  by (rule byte_check [where P = "\<lambda>b. b AND 0x80 = 0 \<longleftrightarrow> unat b < 128"]) code_simp

lemma byte_and_1f: "unat ((b :: u8) AND 0x1f) = unat b mod 32"
  using unat_and_mask [of b 5] by (simp add: mask_eq_exp_minus_1)

lemma byte_and_e0: "unat ((b :: u8) AND 0xe0) = 32 * (unat b div 32)"
proof -
  have "unat (b AND 0xe0) = unat b - unat b mod 32"
    by (rule byte_check [where P = "\<lambda>b. unat (b AND 0xe0) = unat b - unat b mod 32"]) (simp add: upt_rec)
  then show ?thesis by (simp add: minus_mod_eq_mult_div)
qed

section \<open>Splitting byte strings\<close>

lemma append_eq_split:
  assumes "pre @ ys = e @ rest"
  shows "length e = length pre + k \<longleftrightarrow> (\<exists>c. length c = k \<and> ys = c @ rest)"
proof
  assume len: "length e = length pre + k"
  have "ys = drop (length pre) (pre @ ys)" by simp
  also have "\<dots> = drop (length pre) e @ rest" using len by (simp only: assms) simp
  finally show "\<exists>c. length c = k \<and> ys = c @ rest"
    using len by (intro exI [of _ "drop (length pre) e"]) simp
next
  assume "\<exists>c. length c = k \<and> ys = c @ rest"
  with arg_cong [OF assms, of length] show "length e = length pre + k" by auto
qed

section \<open>Big-endian values of byte strings\<close>

text \<open>The value of a big-endian byte string, and the big-endian string of \<open>n\<close> bytes of a value.\<close>

primrec be_val_acc :: "nat \<Rightarrow> byte list \<Rightarrow> nat" where
  "be_val_acc v [] = v"
| "be_val_acc v (b # bs) = be_val_acc (v * 256 + unat b) bs"

abbreviation be_val :: "byte list \<Rightarrow> nat" where
  "be_val \<equiv> be_val_acc 0"

primrec be_bytes :: "nat \<Rightarrow> nat \<Rightarrow> byte list" where
  "be_bytes 0 v = []"
| "be_bytes (Suc n) v = be_bytes n (v div 256) @ [of_nat v]"

lemma length_be_bytes [simp]: "length (be_bytes n v) = n"
  by (induction n arbitrary: v) auto

lemma be_val_acc_append: "be_val_acc v (xs @ ys) = be_val_acc (be_val_acc v xs) ys"
  by (induction xs arbitrary: v) auto

lemma be_val_acc_eq: "be_val_acc v bs = v * 256 ^ length bs + be_val bs"
proof (induction bs arbitrary: v)
  case (Cons b bs)
  show ?case using Cons [of "v * 256 + unat b"] Cons [of "unat b"]
    by (simp add: algebra_simps)
qed simp

lemma be_val_Cons: "be_val (b # bs) = unat b * 256 ^ length bs + be_val bs"
  using be_val_acc_eq [of "unat b" bs] by simp

lemma be_val_less: "be_val bs < 256 ^ length bs"
proof (induction bs)
  case (Cons b bs)
  have "unat b * 256 ^ length bs + be_val bs < (unat b + 1) * 256 ^ length bs"
    using Cons by simp
  also have "\<dots> \<le> 256 * 256 ^ length bs"
    using unat_lt8 [of b] by (intro mult_le_mono1) simp
  finally show ?case by (simp add: be_val_Cons del: be_val_acc.simps)
qed simp

lemma unat_of_nat_u8 [simp]: "unat (of_nat v :: u8) = v mod 256"
  by (simp add: unat_of_nat take_bit_eq_mod)

lemma be_val_be_bytes: "be_val (be_bytes n v) = v mod 256 ^ n"
proof (induction n arbitrary: v)
  case (Suc n)
  have "(v div 256 mod 256 ^ n) * 256 + v mod 256 = v mod (256 * 256 ^ n)"
    by (metis add.commute mod_mult2_eq mult.commute)
  with Suc show ?case by (simp add: be_val_acc_append)
qed simp

lemma be_bytes_be_val: "be_bytes (length bs) (be_val bs) = bs"
proof (induction bs rule: rev_induct)
  case (snoc b bs)
  have "(be_val bs * 256 + unat b) div 256 = be_val bs"
    using unat_lt8 [of b] by simp
  moreover have "(of_nat (be_val bs * 256 + unat b) :: u8) = b"
    by (simp only: word_unat_eq_iff unat_of_nat_u8) (simp add: mod_less)
  ultimately show ?case using snoc by (simp add: be_val_acc_append del: of_nat_add of_nat_mult)
qed simp

lemma be_val_inj: "length xs = length ys \<Longrightarrow> be_val xs = be_val ys \<Longrightarrow> xs = ys"
  by (metis be_bytes_be_val)

end
