(* ===== verification/Mem.thy ===== *)
theory Mem
  imports Prelude
begin

text \<open>
  The memory and C-string helpers of \<open>crypto/mem.c\<close>. A pointer to bytes is the list of
  the bytes of the object from there on; a read outside the object has no meaning in C and
  is the result \<open>None\<close>. Allocation is the environment's: \<open>alloc n\<close> says whether a request
  for \<open>n\<close> bytes succeeds.
\<close>

section \<open>Comparison and hashing\<close>

primrec CRYPTO_memcmp_loop :: "u8 \<Rightarrow> (byte \<times> byte) list \<Rightarrow> u8" where
  "CRYPTO_memcmp_loop x [] = x"
| "CRYPTO_memcmp_loop x (p # ps) = CRYPTO_memcmp_loop (x OR (fst p XOR snd p)) ps"

definition CRYPTO_memcmp :: "byte list \<Rightarrow> byte list \<Rightarrow> nat \<Rightarrow> u8" where
  "CRYPTO_memcmp a b len = CRYPTO_memcmp_loop 0 (zip (take len a) (take len b))"

primrec OPENSSL_hash32_loop :: "u32 \<Rightarrow> byte list \<Rightarrow> u32" where
  "OPENSSL_hash32_loop h [] = h"
| "OPENSSL_hash32_loop h (b # bs) = OPENSSL_hash32_loop ((h XOR ucast b) * 16777619) bs"

definition OPENSSL_hash32 :: "byte list \<Rightarrow> nat \<Rightarrow> u32" where
  "OPENSSL_hash32 ptr len = OPENSSL_hash32_loop 2166136261 (take len ptr)"

section \<open>C strings\<close>

fun strlen :: "byte list \<Rightarrow> nat option" where
  "strlen [] = None"
| "strlen (c # s) = (if c = 0 then Some 0 else map_option Suc (strlen s))"

fun OPENSSL_strnlen :: "byte list \<Rightarrow> nat \<Rightarrow> nat option" where
  "OPENSSL_strnlen s 0 = Some 0"
| "OPENSSL_strnlen [] (Suc len) = None"
| "OPENSSL_strnlen (c # s) (Suc len) =
     (if c = 0 then Some 0 else map_option Suc (OPENSSL_strnlen s len))"

definition OPENSSL_strndup :: "(nat \<Rightarrow> bool) \<Rightarrow> byte list \<Rightarrow> nat \<Rightarrow> byte list option" where
  "OPENSSL_strndup alloc str n =
     (case OPENSSL_strnlen str n of
        None \<Rightarrow> None
      | Some n \<Rightarrow>
          let alloc_size = (n + 1) mod 2 ^ 64 in
          if alloc_size < n then None
          else if \<not> alloc alloc_size then None
          else Some (take n str @ [0]))"

definition OPENSSL_memdup :: "(nat \<Rightarrow> bool) \<Rightarrow> byte list \<Rightarrow> nat \<Rightarrow> byte list option" where
  "OPENSSL_memdup alloc data n =
     (if n = 0 then None else if \<not> alloc n then None else Some (take n data))"

text \<open>
  \<open>OPENSSL_strlcpy\<close> gives the bytes written to \<open>dst\<close> and the return value. The loop runs
  while more than one byte of room is left and the source has not ended.
\<close>

fun OPENSSL_strlcpy_loop :: "byte list \<Rightarrow> nat \<Rightarrow> (byte list \<times> byte list \<times> nat) option" where
  "OPENSSL_strlcpy_loop src dst_size =
     (if dst_size \<le> 1 then Some ([], src, dst_size)
      else case src of
        [] \<Rightarrow> None
      | c # src' \<Rightarrow>
          if c = 0 then Some ([], src, dst_size)
          else map_option (\<lambda>(w, s, n). (c # w, s, n)) (OPENSSL_strlcpy_loop src' (dst_size - 1)))"

declare OPENSSL_strlcpy_loop.simps [simp del]

definition OPENSSL_strlcpy :: "byte list \<Rightarrow> nat \<Rightarrow> (byte list \<times> nat) option" where
  "OPENSSL_strlcpy src dst_size =
     (case OPENSSL_strlcpy_loop src dst_size of
        None \<Rightarrow> None
      | Some (written, rest, room) \<Rightarrow>
          map_option (\<lambda>k. (if room \<noteq> 0 then written @ [0] else written, length written + k))
            (strlen rest))"

text \<open>
  \<open>OPENSSL_strlcat\<close> skips the string already in \<open>dst\<close>; the result is \<open>dst\<close> as a whole and
  the return value.
\<close>

fun OPENSSL_strlcat_skip :: "byte list \<Rightarrow> nat \<Rightarrow> (nat \<times> nat) option" where
  "OPENSSL_strlcat_skip dst 0 = Some (0, 0)"
| "OPENSSL_strlcat_skip [] (Suc n) = None"
| "OPENSSL_strlcat_skip (c # dst) (Suc n) =
     (if c = 0 then Some (0, Suc n)
      else map_option (\<lambda>(l, m). (Suc l, m)) (OPENSSL_strlcat_skip dst n))"

definition OPENSSL_strlcat :: "byte list \<Rightarrow> byte list \<Rightarrow> nat \<Rightarrow> (byte list \<times> nat) option" where
  "OPENSSL_strlcat dst src dst_size =
     (case OPENSSL_strlcat_skip dst dst_size of
        None \<Rightarrow> None
      | Some (l, room) \<Rightarrow>
          map_option (\<lambda>(w, k). (take l dst @ w @ drop (l + length w) dst, l + k))
            (OPENSSL_strlcpy src room))"

definition OPENSSL_tolower :: "int \<Rightarrow> int" where
  "OPENSSL_tolower c = (if c \<ge> 65 \<and> c \<le> 90 then c + (97 - 65) else c)"

text \<open>\<open>char\<close> is signed on the platforms of the application: \<open>a[i]\<close> widens by sign extension.\<close>

fun OPENSSL_strcasecmp :: "byte list \<Rightarrow> byte list \<Rightarrow> int option" where
  "OPENSSL_strcasecmp (a # as) (b # bs) =
     (let aa = OPENSSL_tolower (sint a); bb = OPENSSL_tolower (sint b) in
      if aa < bb then Some (- 1)
      else if aa > bb then Some 1
      else if aa = 0 then Some 0
      else OPENSSL_strcasecmp as bs)"
| "OPENSSL_strcasecmp _ _ = None"

fun OPENSSL_strncasecmp :: "byte list \<Rightarrow> byte list \<Rightarrow> nat \<Rightarrow> int option" where
  "OPENSSL_strncasecmp as bs 0 = Some 0"
| "OPENSSL_strncasecmp (a # as) (b # bs) (Suc n) =
     (let aa = OPENSSL_tolower (sint a); bb = OPENSSL_tolower (sint b) in
      if aa < bb then Some (- 1)
      else if aa > bb then Some 1
      else if aa = 0 then Some 0
      else OPENSSL_strncasecmp as bs n)"
| "OPENSSL_strncasecmp _ _ (Suc n) = None"

section \<open>Facts\<close>

lemma CRYPTO_memcmp_loop_zero:
  "CRYPTO_memcmp_loop x ps = 0 \<longleftrightarrow> x = 0 \<and> (\<forall>(a, b) \<in> set ps. a = b)"
proof (induction ps arbitrary: x)
  case (Cons p ps)
  have "x OR (fst p XOR snd p) = 0 \<longleftrightarrow> x = 0 \<and> fst p = snd p"
    by (auto simp: bit_eq_iff bit_simps)
  with Cons show ?case by (auto simp: case_prod_beta)
qed simp

lemma CRYPTO_memcmp_eq_zero:
  assumes "len \<le> length a" and "len \<le> length b"
  shows "CRYPTO_memcmp a b len = 0 \<longleftrightarrow> take len a = take len b"
proof -
  have len: "length (take len a) = length (take len b)" using assms by simp
  show ?thesis
    unfolding CRYPTO_memcmp_def CRYPTO_memcmp_loop_zero
    using len by (auto simp: list_eq_iff_zip_eq)
qed

lemma strlen_Some: "strlen s = Some n \<longleftrightarrow> n < length s \<and> s ! n = 0 \<and> (\<forall>i<n. s ! i \<noteq> 0)"
proof (induction s arbitrary: n)
  case (Cons c s)
  show ?case
    by (cases n) (auto simp: Cons less_Suc_eq_0_disj)
qed simp

lemma strlen_append_zero: "0 \<notin> set s \<Longrightarrow> strlen (s @ 0 # t) = Some (length s)"
  by (induction s) auto

lemma OPENSSL_strnlen_eq:
  "n \<le> length s \<Longrightarrow> OPENSSL_strnlen s n = Some (length (takeWhile (\<lambda>c. c \<noteq> 0) (take n s)))"
  by (induction s n rule: OPENSSL_strnlen.induct) auto

lemma OPENSSL_strlcpy_loop_eq:
  assumes "0 \<notin> set s"
  shows "OPENSSL_strlcpy_loop (s @ 0 # t) n =
    Some (take (n - 1) s, drop (n - 1) s @ 0 # t, n - min (n - 1) (length s))"
  using assms
proof (induction s arbitrary: n)
  case Nil
  then show ?case by (simp add: OPENSSL_strlcpy_loop.simps)
next
  case (Cons c s)
  show ?case
  proof (cases "n \<le> 1")
    case True
    then show ?thesis by (simp add: OPENSSL_strlcpy_loop.simps)
  next
    case False
    then obtain m where "n = Suc (Suc m)" by (metis One_nat_def Suc_le_mono not_less_eq_eq not0_implies_Suc le0)
    then show ?thesis using Cons by (simp add: OPENSSL_strlcpy_loop.simps [of "c # _"])
  qed
qed

lemma OPENSSL_strlcpy_eq:
  assumes "0 \<notin> set s" and "0 < n"
  shows "OPENSSL_strlcpy (s @ 0 # t) n = Some (take (n - 1) s @ [0], length s)"
proof -
  have "0 \<notin> set (drop (n - 1) s)" using assms(1) by (meson in_set_dropD)
  with assms show ?thesis
    by (auto simp: OPENSSL_strlcpy_def OPENSSL_strlcpy_loop_eq strlen_append_zero min_def)
qed

end
