(* ===== verification/Bytestring_CBS.thy ===== *)
theory Bytestring_CBS
  imports Mem
begin

text \<open>
  The parsing half of BoringSSL's bytestring module (\<open>crypto/bytestring/cbs.c\<close>).
  A \<open>CBS\<close> is a pointer and a length into memory that the module only reads, so it is
  modelled by the bytes it views. The functions that move the cursor are operations on
  it; a returned \<open>CBS\<close> (the \<open>out\<close> parameters) is the list of bytes it views. The
  out-parameters a function leaves behind when it fails are not modelled, the cursor
  it leaves behind is.
\<close>

type_synonym CBS = "byte list"

section \<open>Cursor operations\<close>

definition CBS_init :: "byte list \<Rightarrow> nat \<Rightarrow> CBS" where
  "CBS_init data len = take len data"

definition cbs_get :: "nat \<Rightarrow> (CBS, byte list) op" where
  "cbs_get n = (\<lambda>cbs. if length cbs < n then (None, cbs) else (Some (take n cbs), drop n cbs))"

definition CBS_skip :: "nat \<Rightarrow> (CBS, unit) op" where
  "CBS_skip n = op_map (\<lambda>_. ()) (cbs_get n)"

definition CBS_data :: "CBS \<Rightarrow> byte list" where
  "CBS_data cbs = cbs"

definition CBS_len :: "CBS \<Rightarrow> nat" where
  "CBS_len cbs = length cbs"

text \<open>
  \<open>CBS_stow\<close> and \<open>CBS_strdup\<close> copy to the heap; \<open>alloc n\<close> says whether an allocation
  of \<open>n\<close> bytes succeeds. \<open>CBS_stow\<close> gives the new buffer (\<open>None\<close> for \<open>NULL\<close>) and its
  length, \<open>CBS_strdup\<close> a string that ends at the first zero byte.
\<close>

definition CBS_stow :: "(nat \<Rightarrow> bool) \<Rightarrow> CBS \<Rightarrow> bool \<times> byte list option \<times> nat" where
  "CBS_stow alloc cbs =
     (if length cbs = 0 then (True, None, 0)
      else case OPENSSL_memdup alloc cbs (length cbs) of
        None \<Rightarrow> (False, None, 0)
      | Some out \<Rightarrow> (True, Some out, length cbs))"

definition CBS_strdup :: "(nat \<Rightarrow> bool) \<Rightarrow> CBS \<Rightarrow> byte list option" where
  "CBS_strdup alloc cbs = OPENSSL_strndup alloc cbs (length cbs)"

definition CBS_contains_zero_byte :: "CBS \<Rightarrow> bool" where
  "CBS_contains_zero_byte cbs = list_ex (\<lambda>b. b = 0) cbs"

definition CBS_mem_equal :: "CBS \<Rightarrow> byte list \<Rightarrow> nat \<Rightarrow> bool" where
  "CBS_mem_equal cbs data len =
     (if len \<noteq> length cbs then False else CRYPTO_memcmp cbs data len = 0)"

section \<open>Integers\<close>

primrec cbs_get_u_loop :: "u64 \<Rightarrow> byte list \<Rightarrow> u64" where
  "cbs_get_u_loop result [] = result"
| "cbs_get_u_loop result (b # data) = cbs_get_u_loop (push_bit 8 result OR ucast b) data"

definition cbs_get_u :: "nat \<Rightarrow> (CBS, u64) op" where
  "cbs_get_u len = op_map (cbs_get_u_loop 0) (cbs_get len)"

definition CBS_get_u8 :: "(CBS, u8) op" where
  "CBS_get_u8 = op_map hd (cbs_get 1)"

definition CBS_get_u16 :: "(CBS, u16) op" where
  "CBS_get_u16 = op_map ucast (cbs_get_u 2)"

text \<open>\<open>CRYPTO_bswap2\<close>, \<open>CRYPTO_bswap4\<close> and \<open>CRYPTO_bswap8\<close>, as the portable code writes them.\<close>

definition CRYPTO_bswap2 :: "u16 \<Rightarrow> u16" where
  "CRYPTO_bswap2 x = drop_bit 8 x OR push_bit 8 x"

definition CRYPTO_bswap4 :: "u32 \<Rightarrow> u32" where
  "CRYPTO_bswap4 x =
     (let x = drop_bit 16 x OR push_bit 16 x
      in drop_bit 8 (x AND 0xff00ff00) OR push_bit 8 (x AND 0x00ff00ff))"

definition CRYPTO_bswap8 :: "u64 \<Rightarrow> u64" where
  "CRYPTO_bswap8 x =
     ucast (CRYPTO_bswap4 (ucast (drop_bit 32 x))) OR push_bit 32 (ucast (CRYPTO_bswap4 (ucast x)))"

definition CBS_get_u16le :: "(CBS, u16) op" where
  "CBS_get_u16le = op_map CRYPTO_bswap2 CBS_get_u16"

definition CBS_get_u24 :: "(CBS, u32) op" where
  "CBS_get_u24 = op_map ucast (cbs_get_u 3)"

definition CBS_get_u32 :: "(CBS, u32) op" where
  "CBS_get_u32 = op_map ucast (cbs_get_u 4)"

definition CBS_get_u32le :: "(CBS, u32) op" where
  "CBS_get_u32le = op_map CRYPTO_bswap4 CBS_get_u32"

definition CBS_get_u64 :: "(CBS, u64) op" where
  "CBS_get_u64 = cbs_get_u 8"

definition CBS_get_u64le :: "(CBS, u64) op" where
  "CBS_get_u64le = op_map CRYPTO_bswap8 (cbs_get_u 8)"

definition CBS_get_last_u8 :: "(CBS, u8) op" where
  "CBS_get_last_u8 = (\<lambda>cbs. if length cbs = 0 then (None, cbs) else (Some (last cbs), butlast cbs))"

section \<open>Byte strings\<close>

definition CBS_get_bytes :: "nat \<Rightarrow> (CBS, CBS) op" where
  "CBS_get_bytes len = op_map (\<lambda>v. CBS_init v len) (cbs_get len)"

definition CBS_copy_bytes :: "nat \<Rightarrow> (CBS, byte list) op" where
  "CBS_copy_bytes len = cbs_get len"

definition cbs_get_length_prefixed :: "nat \<Rightarrow> (CBS, CBS) op" where
  "cbs_get_length_prefixed len_len = op_bind (cbs_get_u len_len) (\<lambda>len. CBS_get_bytes (unat len))"

definition CBS_get_u8_length_prefixed :: "(CBS, CBS) op" where
  "CBS_get_u8_length_prefixed = cbs_get_length_prefixed 1"

definition CBS_get_u16_length_prefixed :: "(CBS, CBS) op" where
  "CBS_get_u16_length_prefixed = cbs_get_length_prefixed 2"

definition CBS_get_u24_length_prefixed :: "(CBS, CBS) op" where
  "CBS_get_u24_length_prefixed = cbs_get_length_prefixed 3"

text \<open>\<open>memchr\<close>: the offset of the first occurrence.\<close>

primrec memchr_offset :: "byte \<Rightarrow> byte list \<Rightarrow> nat option" where
  "memchr_offset c [] = None"
| "memchr_offset c (b # bs) = (if b = c then Some 0 else map_option Suc (memchr_offset c bs))"

definition CBS_get_until_first :: "byte \<Rightarrow> (CBS, CBS) op" where
  "CBS_get_until_first c = (\<lambda>cbs.
     case memchr_offset c cbs of None \<Rightarrow> (None, cbs) | Some split \<Rightarrow> CBS_get_bytes split cbs)"

section \<open>ASN.1 tags and elements\<close>

definition CBS_ASN1_TAG_SHIFT :: nat where "CBS_ASN1_TAG_SHIFT = 24"
definition CBS_ASN1_CONSTRUCTED :: u32 where "CBS_ASN1_CONSTRUCTED = 0x20000000"
definition CBS_ASN1_TAG_NUMBER_MASK :: u32 where "CBS_ASN1_TAG_NUMBER_MASK = 0x1fffffff"
definition CBS_ASN1_BOOLEAN :: u32 where "CBS_ASN1_BOOLEAN = 0x1"
definition CBS_ASN1_INTEGER :: u32 where "CBS_ASN1_INTEGER = 0x2"
definition CBS_ASN1_OCTETSTRING :: u32 where "CBS_ASN1_OCTETSTRING = 0x4"

text \<open>The \<open>do\<close> loop of \<open>parse_base128_integer\<close>, from the read of the next octet on.\<close>

fun parse_base128_loop :: "u64 \<Rightarrow> (CBS, u64) op" where
  "parse_base128_loop v [] = (None, [])"
| "parse_base128_loop v (b # cbs) =
     (if drop_bit (64 - 7) v \<noteq> 0 then (None, cbs)
      else if v = 0 \<and> b = 0x80 then (None, cbs)
      else let v = push_bit 7 v OR ucast (b AND 0x7f) in
        if b AND 0x80 \<noteq> 0 then parse_base128_loop v cbs else (Some v, cbs))"

definition parse_base128_integer :: "(CBS, u64) op" where
  "parse_base128_integer = parse_base128_loop 0"

definition parse_asn1_tag :: "(CBS, u32) op" where
  "parse_asn1_tag = op_bind CBS_get_u8 (\<lambda>tag_byte.
     let tag = push_bit CBS_ASN1_TAG_SHIFT (ucast tag_byte AND 0xe0);
         tag_number = ucast (tag_byte AND 0x1f) in
     if tag_number = 0x1f then
       op_bind parse_base128_integer (\<lambda>v.
         if v > ucast CBS_ASN1_TAG_NUMBER_MASK \<or> v < 0x1f then op_fail
         else op_return (tag OR ucast v))
     else op_return (tag OR tag_number))"

text \<open>
  The result of \<open>cbs_get_any_asn1_element\<close>: the element with its header, the tag, the
  length of the header and \<open>*out_ber_found\<close>. The header is parsed from a copy of the
  cursor, which itself only moves when the whole element is there. \<open>len\<close> is a
  \<open>size_t\<close>, its overflow check included.
\<close>

type_synonym asn1_element = "CBS \<times> u32 \<times> nat \<times> bool"

definition cbs_get_any_asn1_element :: "bool \<Rightarrow> (CBS, asn1_element) op" where
  "cbs_get_any_asn1_element ber_ok cbs =
    (case parse_asn1_tag cbs of (None, _) \<Rightarrow> (None, cbs) | (Some tag, header) \<Rightarrow>
     case CBS_get_u8 header of (None, _) \<Rightarrow> (None, cbs) | (Some length_byte, header) \<Rightarrow>
     let header_len = CBS_len cbs - CBS_len header;
         get = (\<lambda>len header_len ber_found.
                  op_map (\<lambda>out. (out, tag, header_len, ber_found)) (CBS_get_bytes len) cbs)
     in
     if length_byte AND 0x80 = 0 then get (unat length_byte + header_len) header_len False
     else let num_bytes = unat (length_byte AND 0x7f) in
       if ber_ok \<and> tag AND CBS_ASN1_CONSTRUCTED \<noteq> 0 \<and> num_bytes = 0
       then get header_len header_len True
       else if num_bytes = 0 \<or> num_bytes > 4 then (None, cbs)
       else case cbs_get_u num_bytes header of (None, _) \<Rightarrow> (None, cbs) | (Some len64, _) \<Rightarrow>
         if len64 < 128 \<and> \<not> ber_ok then (None, cbs)
         else if drop_bit ((num_bytes - 1) * 8) len64 = 0 \<and> \<not> ber_ok then (None, cbs)
         else
           let ber_found = (len64 < 128 \<or> drop_bit ((num_bytes - 1) * 8) len64 = 0);
               len = len64;
               total = len + of_nat header_len + of_nat num_bytes :: u64
           in if total < len then (None, cbs)
              else get (unat total) (header_len + num_bytes) ber_found)"

definition CBS_get_any_asn1_element :: "(CBS, CBS \<times> u32 \<times> nat) op" where
  "CBS_get_any_asn1_element =
     op_map (\<lambda>(out, tag, header_len, _). (out, tag, header_len)) (cbs_get_any_asn1_element False)"

definition CBS_get_any_ber_asn1_element :: "(CBS, asn1_element) op" where
  "CBS_get_any_ber_asn1_element = cbs_get_any_asn1_element True"

text \<open>A step on a second cursor: it runs, and what it leaves of that cursor is the result.\<close>

definition CBS_get_any_asn1 :: "(CBS, CBS \<times> u32) op" where
  "CBS_get_any_asn1 = op_bind CBS_get_any_asn1_element (\<lambda>(out, tag, header_len).
     case CBS_skip header_len out of (None, _) \<Rightarrow> op_fail | (Some _, out) \<Rightarrow> op_return (out, tag))"

definition cbs_get_asn1 :: "u32 \<Rightarrow> bool \<Rightarrow> (CBS, CBS) op" where
  "cbs_get_asn1 tag_value skip_header =
     op_bind CBS_get_any_asn1_element (\<lambda>(out, tag, header_len).
       if tag \<noteq> tag_value then op_fail
       else if skip_header then
         (case CBS_skip header_len out of (None, _) \<Rightarrow> op_fail | (Some _, out) \<Rightarrow> op_return out)
       else op_return out)"

definition CBS_get_asn1 :: "u32 \<Rightarrow> (CBS, CBS) op" where
  "CBS_get_asn1 tag_value = cbs_get_asn1 tag_value True"

definition CBS_get_asn1_element :: "u32 \<Rightarrow> (CBS, CBS) op" where
  "CBS_get_asn1_element tag_value = cbs_get_asn1 tag_value False"

definition CBS_peek_asn1_tag :: "CBS \<Rightarrow> u32 \<Rightarrow> bool" where
  "CBS_peek_asn1_tag cbs tag_value =
     (if CBS_len cbs < 1 then False
      else case parse_asn1_tag cbs of (None, _) \<Rightarrow> False | (Some actual_tag, _) \<Rightarrow> tag_value = actual_tag)"

section \<open>ASN.1 INTEGER, BOOLEAN and BIT STRING\<close>

definition CBS_is_valid_asn1_integer :: "CBS \<Rightarrow> bool \<times> bool" where
  \<comment> \<open>the return value and \<open>*out_is_negative\<close>\<close>
  "CBS_is_valid_asn1_integer cbs =
     (case CBS_get_u8 cbs of (None, _) \<Rightarrow> (False, False) | (Some first_byte, copy) \<Rightarrow>
      let is_negative = (first_byte AND 0x80 \<noteq> 0) in
      case CBS_get_u8 copy of (None, _) \<Rightarrow> (True, is_negative) | (Some second_byte, _) \<Rightarrow>
      if (first_byte = 0x00 \<and> second_byte AND 0x80 = 0) \<or>
         (first_byte = 0xff \<and> second_byte AND 0x80 \<noteq> 0)
      then (False, is_negative) else (True, is_negative))"

definition CBS_is_unsigned_asn1_integer :: "CBS \<Rightarrow> bool" where
  "CBS_is_unsigned_asn1_integer cbs =
     (let (valid, is_negative) = CBS_is_valid_asn1_integer cbs in valid \<and> \<not> is_negative)"

primrec CBS_get_asn1_uint64_loop :: "u64 \<Rightarrow> byte list \<Rightarrow> u64 option" where
  "CBS_get_asn1_uint64_loop out [] = Some out"
| "CBS_get_asn1_uint64_loop out (b # data) =
     (if drop_bit 56 out \<noteq> 0 then None
      else CBS_get_asn1_uint64_loop (push_bit 8 out OR ucast b) data)"

definition CBS_get_asn1_uint64 :: "(CBS, u64) op" where
  "CBS_get_asn1_uint64 = op_bind (CBS_get_asn1 CBS_ASN1_INTEGER) (\<lambda>bytes.
     if \<not> CBS_is_unsigned_asn1_integer bytes then op_fail
     else case CBS_get_asn1_uint64_loop 0 bytes of None \<Rightarrow> op_fail | Some out \<Rightarrow> op_return out)"

text \<open>
  \<open>CBS_get_asn1_int64\<close> fills the bytes of an \<open>int64_t\<close> in memory order on a
  little-endian machine; \<open>sint\<close> of the resulting word is the number.
\<close>

definition word_of_le_bytes :: "byte list \<Rightarrow> u64" where
  "word_of_le_bytes bytes = of_nat (be_val (rev bytes))"

definition CBS_get_asn1_int64 :: "(CBS, u64) op" where
  "CBS_get_asn1_int64 = op_bind (CBS_get_asn1 CBS_ASN1_INTEGER) (\<lambda>bytes.
     let (valid, is_negative) = CBS_is_valid_asn1_integer bytes; len = CBS_len bytes in
     if \<not> valid then op_fail
     else if len > 8 then op_fail
     else op_return (word_of_le_bytes (rev bytes @ replicate (8 - len) (if is_negative then 0xff else 0))))"

definition CBS_get_asn1_bool :: "(CBS, bool) op" where
  "CBS_get_asn1_bool = op_bind (CBS_get_asn1 CBS_ASN1_BOOLEAN) (\<lambda>bytes.
     if CBS_len bytes \<noteq> 1 then op_fail
     else let value = bytes ! 0 in
       if value \<noteq> 0 \<and> value \<noteq> 0xff then op_fail else op_return (value \<noteq> 0))"

definition CBS_get_optional_asn1 :: "u32 \<Rightarrow> (CBS, CBS option) op" where
  \<comment> \<open>\<open>None\<close> when the element is not present\<close>
  "CBS_get_optional_asn1 tag = (\<lambda>cbs.
     if CBS_peek_asn1_tag cbs tag then op_map Some (CBS_get_asn1 tag) cbs else (Some None, cbs))"

definition CBS_get_optional_asn1_octet_string :: "u32 \<Rightarrow> (CBS, CBS \<times> bool) op" where
  "CBS_get_optional_asn1_octet_string tag = op_bind (CBS_get_optional_asn1 tag) (\<lambda>child.
     case child of
       None \<Rightarrow> op_return ([], False)
     | Some child \<Rightarrow>
         (case CBS_get_asn1 CBS_ASN1_OCTETSTRING child of
            (None, _) \<Rightarrow> op_fail
          | (Some out, child) \<Rightarrow> if CBS_len child \<noteq> 0 then op_fail else op_return (out, True)))"

definition CBS_get_optional_asn1_uint64 :: "u32 \<Rightarrow> u64 \<Rightarrow> (CBS, u64) op" where
  "CBS_get_optional_asn1_uint64 tag default_value = op_bind (CBS_get_optional_asn1 tag) (\<lambda>child.
     case child of
       None \<Rightarrow> op_return default_value
     | Some child \<Rightarrow>
         (case CBS_get_asn1_uint64 child of
            (None, _) \<Rightarrow> op_fail
          | (Some out, child) \<Rightarrow> if CBS_len child \<noteq> 0 then op_fail else op_return out))"

definition CBS_get_optional_asn1_bool :: "u32 \<Rightarrow> bool \<Rightarrow> (CBS, bool) op" where
  "CBS_get_optional_asn1_bool tag default_value = op_bind (CBS_get_optional_asn1 tag) (\<lambda>child.
     case child of
       None \<Rightarrow> op_return default_value
     | Some child \<Rightarrow>
         (case CBS_get_asn1 CBS_ASN1_BOOLEAN child of
            (None, _) \<Rightarrow> op_fail
          | (Some child2, child) \<Rightarrow>
              if CBS_len child2 \<noteq> 1 \<or> CBS_len child \<noteq> 0 then op_fail
              else let boolean = child2 ! 0 in
                if boolean = 0 then op_return False
                else if boolean = 0xff then op_return True
                else op_fail))"

definition CBS_is_valid_asn1_bitstring :: "CBS \<Rightarrow> bool" where
  "CBS_is_valid_asn1_bitstring cbs =
     (case CBS_get_u8 cbs of (None, _) \<Rightarrow> False | (Some num_unused_bits, rest) \<Rightarrow>
      if num_unused_bits > 7 then False
      else if num_unused_bits = 0 then True
      else case CBS_get_last_u8 rest of (None, _) \<Rightarrow> False | (Some last_byte, _) \<Rightarrow>
        last_byte AND (push_bit (unat num_unused_bits) 1 - 1) = 0)"

definition CBS_asn1_bitstring_has_bit :: "CBS \<Rightarrow> u32 \<Rightarrow> bool" where
  "CBS_asn1_bitstring_has_bit cbs bit_index =
     (if \<not> CBS_is_valid_asn1_bitstring cbs then False
      else let byte_num = unat (drop_bit 3 bit_index + 1 :: u32);
               bit_num = unat (7 - (bit_index AND 7) :: u32) in
        byte_num < CBS_len cbs \<and> cbs ! byte_num AND push_bit bit_num 1 \<noteq> 0)"

section \<open>Evaluation\<close>

lemma cbs_get_eq_Some: "cbs_get n bs = (Some v, rest) \<longleftrightarrow> length v = n \<and> bs = v @ rest"
  by (auto simp: cbs_get_def min_def)

lemma cbs_get_append [simp]: "length xs = n \<Longrightarrow> cbs_get n (xs @ rest) = (Some xs, rest)"
  by (simp add: cbs_get_def)

lemma CBS_skip_append [simp]: "length xs = n \<Longrightarrow> CBS_skip n (xs @ rest) = (Some (), rest)"
  by (simp add: CBS_skip_def op_map_def)

lemma CBS_get_bytes_eq_Some:
  "CBS_get_bytes n bs = (Some v, rest) \<longleftrightarrow> length v = n \<and> bs = v @ rest"
  by (auto simp: CBS_get_bytes_def op_map_eq_Some cbs_get_eq_Some CBS_init_def)

lemma CBS_get_bytes_append [simp]: "length xs = n \<Longrightarrow> CBS_get_bytes n (xs @ rest) = (Some xs, rest)"
  by (simp add: CBS_get_bytes_eq_Some)

lemma CBS_get_bytes_short: "length bs < n \<Longrightarrow> CBS_get_bytes n bs = (None, bs)"
  by (simp add: CBS_get_bytes_def op_map_def cbs_get_def)

lemma CBS_get_u8_Nil [simp]: "CBS_get_u8 [] = (None, [])"
  by (simp add: CBS_get_u8_def op_map_def cbs_get_def)

lemma CBS_get_u8_Cons [simp]: "CBS_get_u8 (b # bs) = (Some b, bs)"
  by (simp add: CBS_get_u8_def op_map_def cbs_get_def)

lemma CBS_get_u8_eq_Some: "CBS_get_u8 bs = (Some b, rest) \<longleftrightarrow> bs = b # rest"
  by (cases bs) auto

lemma CBS_get_u8_eq_None: "CBS_get_u8 bs = (None, rest) \<longleftrightarrow> bs = [] \<and> rest = []"
  by (cases bs) auto

lemma unat_cbs_get_u_loop:
  assumes "unat r * 256 ^ length bs + be_val bs < 2 ^ 64"
  shows "unat (cbs_get_u_loop r bs) = be_val_acc (unat r) bs"
  using assms
proof (induction bs arbitrary: r)
  case (Cons b bs)
  have bound: "(unat r * 256 + unat b) * 256 ^ length bs + be_val bs < 2 ^ 64"
    using Cons.prems by (simp add: be_val_Cons algebra_simps del: be_val_acc.simps)
  have "unat r * 256 + unat b \<le> (unat r * 256 + unat b) * 256 ^ length bs" by simp
  with bound have "unat r * 256 + unat b < 2 ^ 64" by linarith
  then have "unat r * 2 ^ 8 + unat b < 2 ^ LENGTH(64)" by simp
  then have "unat (push_bit 8 r OR (ucast b :: u64)) = unat r * 256 + unat b"
    by (subst unat_push_bit_or) (simp_all add: unat_ucast_up)
  with Cons.IH [of "push_bit 8 r OR ucast b"] bound show ?case by simp
qed simp

lemma cbs_get_u_loop_eq:
  assumes "length bs \<le> 8"
  shows "cbs_get_u_loop 0 bs = of_nat (be_val bs)"
proof (rule word_unat_eq_iff [THEN iffD2])
  have "be_val bs < 256 ^ length bs" by (rule be_val_less)
  also have "\<dots> \<le> 256 ^ 8" using assms by (intro power_increasing) auto
  finally have small: "be_val bs < 2 ^ 64" by simp
  then show "unat (cbs_get_u_loop 0 bs) = unat (of_nat (be_val bs) :: u64)"
    by (simp add: unat_cbs_get_u_loop unat_of_nat take_bit_nat_eq_self_iff)
qed

lemma cbs_get_u_eq_Some:
  assumes "n \<le> 8"
  shows "cbs_get_u n bs = (Some v, rest) \<longleftrightarrow>
    (\<exists>xs. length xs = n \<and> bs = xs @ rest \<and> v = of_nat (be_val xs))"
  using assms by (auto simp: cbs_get_u_def op_map_eq_Some cbs_get_eq_Some cbs_get_u_loop_eq)

lemma cbs_get_u_append:
  "length xs = n \<Longrightarrow> n \<le> 8 \<Longrightarrow> cbs_get_u n (xs @ rest) = (Some (of_nat (be_val xs)), rest)"
  by (simp add: cbs_get_u_eq_Some)

section \<open>Readers\<close>

text \<open>
  What every forward-moving parser of the module promises: it never moves the cursor
  outside the bytes it was given, and a success does not depend on what follows.
\<close>

locale byte_reader =
  fixes p :: "(CBS, 'a) op"
  assumes suffix: "p bs = (r, rest) \<Longrightarrow> \<exists>used. bs = used @ rest"
    and extend: "p bs = (Some v, rest) \<Longrightarrow> p (bs @ ext) = (Some v, rest @ ext)"
begin

lemma never_grows: "p bs = (r, rest) \<Longrightarrow> length rest \<le> length bs"
  using suffix by fastforce

text \<open>An encoding that is read to its end is not a proper prefix of another one.\<close>

lemma prefix_free:
  assumes "p a = (Some v, [])" and "p (a @ b) = (Some w, [])"
  shows "b = []"
  using extend [OF assms(1), of b] assms(2) by simp

lemma deterministic_prefix:
  assumes "p a = (Some v, [])" and "p (a @ b) = (r, rest)"
  shows "r = Some v \<and> rest = b"
  using extend [OF assms(1), of b] assms(2) by simp

end

lemma byte_reader_cbs_get: "byte_reader (cbs_get n)"
proof
  fix bs :: CBS and r rest
  assume "cbs_get n bs = (r, rest)"
  then show "\<exists>used. bs = used @ rest"
    by (auto simp: cbs_get_def split: if_splits intro: exI [of _ "[]"] exI [of _ "take n bs"])
next
  fix bs rest ext :: CBS and v
  assume "cbs_get n bs = (Some v, rest)"
  then show "cbs_get n (bs @ ext) = (Some v, rest @ ext)"
    by (simp add: cbs_get_eq_Some)
qed

lemma byte_reader_return: "byte_reader (op_return a)"
  by unfold_locales (auto intro: exI [of _ "[]"])

lemma byte_reader_fail: "byte_reader op_fail"
  by unfold_locales (auto intro: exI [of _ "[]"])

lemma byte_reader_guard: "byte_reader (op_guard b)"
  by unfold_locales (auto intro: exI [of _ "[]"])

lemma byte_reader_bind:
  assumes "byte_reader m" and "\<And>a. byte_reader (f a)"
  shows "byte_reader (op_bind m f)"
proof
  fix bs rest :: CBS and r
  assume eq: "op_bind m f bs = (r, rest)"
  obtain a mid where m: "m bs = (a, mid)" by fastforce
  obtain u where u: "bs = u @ mid" using byte_reader.suffix [OF assms(1) m] by blast
  show "\<exists>used. bs = used @ rest"
  proof (cases a)
    case None
    then show ?thesis using eq m u by simp
  next
    case (Some x)
    then obtain u' where "mid = u' @ rest"
      using eq m byte_reader.suffix [OF assms(2) [of x], of mid] by auto
    then show ?thesis using u by (intro exI [of _ "u @ u'"]) simp
  qed
next
  fix bs rest ext :: CBS and v
  assume "op_bind m f bs = (Some v, rest)"
  then show "op_bind m f (bs @ ext) = (Some v, rest @ ext)"
    using byte_reader.extend [OF assms(1)] byte_reader.extend [OF assms(2)]
    by (fastforce simp: op_bind_eq_Some)
qed

lemma byte_reader_map: "byte_reader m \<Longrightarrow> byte_reader (op_map g m)"
  unfolding op_map_def by (intro byte_reader_bind byte_reader_return)

lemmas byte_reader_intros =
  byte_reader_cbs_get byte_reader_return byte_reader_fail byte_reader_guard
  byte_reader_bind byte_reader_map

interpretation get_u8: byte_reader CBS_get_u8
  unfolding CBS_get_u8_def by (intro byte_reader_intros)

interpretation get_u16: byte_reader CBS_get_u16
  unfolding CBS_get_u16_def cbs_get_u_def by (intro byte_reader_intros)

interpretation get_u32: byte_reader CBS_get_u32
  unfolding CBS_get_u32_def cbs_get_u_def by (intro byte_reader_intros)

interpretation get_length_prefixed: byte_reader "cbs_get_length_prefixed n"
  unfolding cbs_get_length_prefixed_def cbs_get_u_def CBS_get_bytes_def
  by (intro byte_reader_intros)

end
