(* ===== verification/DER.thy ===== *)
theory DER
  imports Bytestring_CBS
begin

text \<open>
  The specification the two halves of the module are measured against: the DER octets of a
  tag, of a length and of an element (ITU-T X.690), and the proof that the parsers of
  \<open>cbs.c\<close> accept exactly these octets.
\<close>

section \<open>Base-128 integers\<close>

text \<open>\<open>Suc k\<close> base-128 digits of \<open>x\<close>, most significant first, with the continuation bit.\<close>

primrec b128_digits :: "nat \<Rightarrow> nat \<Rightarrow> byte list" where
  "b128_digits 0 x = [of_nat (x mod 128)]"
| "b128_digits (Suc k) x = of_nat (128 + x div 128 ^ Suc k mod 128) # b128_digits k x"

text \<open>The number of base-128 digits after the first.\<close>

fun b128_more :: "nat \<Rightarrow> nat" where
  "b128_more x = (if x < 128 then 0 else Suc (b128_more (x div 128)))"

declare b128_more.simps [simp del]

definition b128 :: "nat \<Rightarrow> byte list" where
  "b128 x = b128_digits (b128_more x) x"

lemma length_b128_digits [simp]: "length (b128_digits k x) = Suc k"
  by (induction k) auto

lemma div_128_Suc: "x div 128 ^ Suc k = (x div 128) div 128 ^ k" for x :: nat
  by (simp only: power_Suc div_mult2_eq)

lemma div_128_mono: "x div 128 ^ k = 0 \<Longrightarrow> k \<le> l \<Longrightarrow> x div 128 ^ l = 0" for x :: nat
  by (metis div_eq_0_iff less_le_trans power_increasing one_le_numeral power_not_zero
      zero_neq_numeral)

lemma b128_more_upper: "x div 128 ^ Suc (b128_more x) = 0"
proof (induction x rule: b128_more.induct)
  case (1 x)
  show ?case
  proof (cases "x < 128")
    case True
    then show ?thesis by (simp add: b128_more.simps [of x])
  next
    case False
    then show ?thesis
      using 1 [OF False] by (simp only: b128_more.simps [of x] if_False div_128_Suc [of x])
  qed
qed

lemma b128_more_lower: "b128_more x = 0 \<or> x div 128 ^ b128_more x mod 128 \<noteq> 0"
proof (induction x rule: b128_more.induct)
  case (1 x)
  show ?case
  proof (cases "x < 128")
    case True
    then show ?thesis by (simp add: b128_more.simps [of x])
  next
    case False
    show ?thesis
    proof (cases "b128_more (x div 128) = 0")
      case True
      then have "x div 128 < 128" using b128_more.simps [of "x div 128"] by (simp split: if_splits)
      then show ?thesis using False True by (simp add: b128_more.simps [of x])
    next
      case more: False
      with 1 False have "x div 128 div 128 ^ b128_more (x div 128) mod 128 \<noteq> 0" by blast
      then show ?thesis
        using False by (simp only: b128_more.simps [of x] if_False div_128_Suc simp_thms)
    qed
  qed
qed

lemma b128_more_unique:
  assumes "x div 128 ^ Suc k = 0" and "k = 0 \<or> x div 128 ^ k mod 128 \<noteq> 0"
  shows "k = b128_more x"
proof (rule ccontr)
  assume "k \<noteq> b128_more x"
  then consider "Suc k \<le> b128_more x" | "Suc (b128_more x) \<le> k" by linarith
  then show False
  proof cases
    case 1
    then have "x div 128 ^ b128_more x = 0" using assms(1) div_128_mono by blast
    then show False using 1 b128_more_lower [of x] by simp
  next
    case 2
    then have "x div 128 ^ k = 0" using b128_more_upper div_128_mono by blast
    then show False using 2 assms(2) by simp
  qed
qed

lemma unat_base128_step:
  fixes v :: u64
  assumes "drop_bit (64 - 7) v = 0"
  shows "unat (push_bit 7 v OR ucast ((b :: u8) AND 0x7f)) = unat v * 128 + unat b mod 128"
proof -
  have "unat v div 2 ^ 57 = 0"
    using assms unat_drop_bit [of 57 v] by simp
  then have v: "unat v < 2 ^ 57" by (simp add: div_eq_0_iff)
  have b: "unat (ucast (b AND 0x7f) :: u64) = unat b mod 128"
    by (simp add: unat_ucast_up byte_and_7f)
  have "unat v * 2 ^ 7 + unat b mod 128 < 2 ^ 64"
    using v mod_less_divisor [of 128 "unat b"] by simp
  with b show ?thesis by (subst unat_push_bit_or) simp_all
qed

lemma drop_bit_57_eq_0: "drop_bit 57 (v :: u64) = 0 \<longleftrightarrow> unat v < 2 ^ 57"
proof -
  have "drop_bit 57 v = 0 \<longleftrightarrow> unat (drop_bit 57 v) = 0" by (simp add: unat_eq_0)
  then show ?thesis by (simp add: unat_drop_bit div_eq_0_iff)
qed

lemma byte_eq_80: "(b :: u8) = 0x80 \<longleftrightarrow> unat b = 128"
  by (simp add: word_unat_eq_iff)

declare parse_base128_loop.simps(2) [simp del]

text \<open>One octet of the loop, on the numbers: \<open>v\<close> becomes \<open>v * 128 + d\<close>.\<close>

lemma parse_base128_octet:
  fixes v :: u64
  assumes v: "unat v < 2 ^ 57" and d: "d < 128" and nz: "v = 0 \<longrightarrow> d \<noteq> 0 \<or> \<not> more"
  shows "parse_base128_loop v (of_nat (if more then 128 + d else d) # bs) =
    (if more then parse_base128_loop (of_nat (unat v * 128 + d)) bs
     else (Some (of_nat (unat v * 128 + d)), bs))"
proof -
  define b :: u8 where "b = of_nat (if more then 128 + d else d)"
  have b: "unat b = (if more then 128 + d else d)" using d by (simp add: b_def)
  have "unat (push_bit 7 v OR ucast (b AND 0x7f)) = unat v * 128 + d"
    using unat_base128_step [of v b] v b d by (cases more) (simp_all add: drop_bit_57_eq_0)
  then have step: "push_bit 7 v OR ucast (b AND 0x7f) = of_nat (unat v * 128 + d)"
    by (rule unat_eq_of_nat)
  have high: "b AND 0x80 \<noteq> 0 \<longleftrightarrow> more" using b d by (simp add: byte_and_80)
  have "\<not> (v = 0 \<and> b = 0x80)" using nz b d by (auto simp: byte_eq_80)
  with v step high show ?thesis
    unfolding b_def [symmetric] by (auto simp: parse_base128_loop.simps(2) drop_bit_57_eq_0 Let_def simp del: of_nat_add of_nat_mult)
qed

lemma parse_base128_loop_digits:
  assumes x: "x < 2 ^ 64" and "unat v = x div 128 ^ Suc k"
    and "v = 0 \<longrightarrow> k = 0 \<or> x div 128 ^ k mod 128 \<noteq> 0"
  shows "parse_base128_loop v (b128_digits k x @ rest) = (Some (of_nat x), rest)"
  using assms(2,3)
proof (induction k arbitrary: v)
  case 0
  have "unat v < 2 ^ 57" using 0 x by simp
  then show ?case
    using parse_base128_octet [of v "x mod 128" False rest] 0 by simp
next
  case (Suc k)
  let ?d = "x div 128 ^ Suc k mod 128"
  have v: "unat v = x div 128 ^ Suc k div 128"
    using Suc.prems(1) by (simp only: power_Suc2 [of _ "Suc k"] div_mult2_eq)
  have "x div 128 ^ Suc k < 2 ^ 64" using x div_le_dividend le_less_trans by blast
  then have "x div 128 ^ Suc k < 2 ^ 57 * 128" by simp
  then have v57: "unat v < 2 ^ 57" unfolding v by (rule less_mult_imp_div_less)
  have next_v: "unat v * 128 + ?d = x div 128 ^ Suc k" unfolding v by simp
  have small: "x div 128 ^ Suc k < 2 ^ 64" using x div_le_dividend le_less_trans by blast
  have "parse_base128_loop (of_nat (x div 128 ^ Suc k)) (b128_digits k x @ rest) = (Some (of_nat x), rest)"
  proof (rule Suc.IH)
    show "unat (of_nat (x div 128 ^ Suc k) :: u64) = x div 128 ^ Suc k"
      using small by (simp only: unat_of_nat take_bit_nat_eq_self_iff) simp
    show "(of_nat (x div 128 ^ Suc k) :: u64) = 0 \<longrightarrow> k = 0 \<or> x div 128 ^ k mod 128 \<noteq> 0"
    proof
      assume "(of_nat (x div 128 ^ Suc k) :: u64) = 0"
      then have "unat (of_nat (x div 128 ^ Suc k) :: u64) = 0" by simp
      then have "x div 128 ^ Suc k = 0"
        using small by (simp only: unat_of_nat take_bit_nat_eq_self_iff) (simp add: take_bit_nat_eq_self)
      then show "k = 0 \<or> x div 128 ^ k mod 128 \<noteq> 0"
        using v Suc.prems(2) by (simp add: unat_eq_0)
    qed
  qed
  then show ?case
    using parse_base128_octet [of v ?d True "b128_digits k x @ rest"] Suc.prems(2) v57 next_v
    by (simp del: of_nat_add of_nat_mult)
qed

text \<open>Conversely, whatever the loop accepts is a run of digits without a leading zero digit.\<close>

lemma parse_base128_loop_sound:
  assumes "parse_base128_loop v bs = (Some w, rest)"
  shows "\<exists>k. bs = b128_digits k (unat w) @ rest \<and> unat w div 128 ^ Suc k = unat v \<and>
    (v = 0 \<longrightarrow> k = 0 \<or> unat w div 128 ^ k mod 128 \<noteq> 0)"
  using assms
proof (induction v bs rule: parse_base128_loop.induct)
  case (1 v)
  then show ?case by simp
next
  case (2 v b cbs)
  let ?v = "push_bit 7 v OR ucast (b AND 0x7f)"
  from "2.prems" have v: "drop_bit (64 - 7) v = 0" and nz: "\<not> (v = 0 \<and> b = 0x80)"
    by (auto simp: parse_base128_loop.simps(2) split: if_splits)
  have step: "unat ?v = unat v * 128 + unat b mod 128" by (rule unat_base128_step [OF v])
  then have div: "unat ?v div 128 = unat v" and mod: "unat ?v mod 128 = unat b mod 128" by simp_all
  show ?case
  proof (cases "b AND 0x80 \<noteq> 0")
    case False
    then have w: "w = ?v" and rest: "cbs = rest"
      using "2.prems" v nz by (auto simp: parse_base128_loop.simps(2) Let_def split: if_splits)
    have "unat b < 128" using False by (simp add: byte_and_80)
    then have b: "b = of_nat (unat w mod 128)"
      unfolding w mod by (intro unat_eq_of_nat) simp
    have "b # cbs = b128_digits 0 (unat w) @ rest" by (simp only: b [symmetric] rest b128_digits.simps append.simps)
    moreover have "unat w div 128 ^ Suc 0 = unat v" using div unfolding w by simp
    ultimately show ?thesis by blast
  next
    case True
    then have "parse_base128_loop ?v cbs = (Some w, rest)"
      using "2.prems" v nz by (auto simp: parse_base128_loop.simps(2) Let_def split: if_splits)
    with "2.IH" v nz True obtain k where k: "cbs = b128_digits k (unat w) @ rest"
      "unat w div 128 ^ Suc k = unat ?v" by (auto simp: Let_def)
    have "128 \<le> unat b" using True by (simp add: byte_and_80 not_less)
    then have "unat b = 128 + unat b mod 128"
      by (simp add: byte_high)
    then have "b = of_nat (128 + unat w div 128 ^ Suc k mod 128)"
      unfolding k(2) mod by (rule unat_eq_of_nat)
    moreover have "unat w div 128 ^ Suc (Suc k) = unat v"
      using div k(2) by (simp only: power_Suc2 [of _ "Suc k"] div_mult2_eq)
    moreover have "v = 0 \<longrightarrow> unat w div 128 ^ Suc k mod 128 \<noteq> 0"
    proof
      assume "v = 0"
      with nz have "unat b \<noteq> 128" by (simp add: byte_eq_80)
      with \<open>unat b = 128 + unat b mod 128\<close>
      show "unat w div 128 ^ Suc k mod 128 \<noteq> 0" unfolding k(2) mod by linarith
    qed
    ultimately show ?thesis using k(1) by (intro exI [of _ "Suc k"]) (simp del: of_nat_add)
  qed
qed

lemma parse_base128_integer_iff:
  "parse_base128_integer bs = (Some w, rest) \<longleftrightarrow> bs = b128 (unat w) @ rest"
proof
  assume "parse_base128_integer bs = (Some w, rest)"
  then obtain k where k: "bs = b128_digits k (unat w) @ rest" "unat w div 128 ^ Suc k = unat (0 :: u64)"
    "k = 0 \<or> unat w div 128 ^ k mod 128 \<noteq> 0"
    unfolding parse_base128_integer_def using parse_base128_loop_sound by blast
  from b128_more_unique [OF k(2) [unfolded unsigned_0] k(3)] k(1) show "bs = b128 (unat w) @ rest"
    by (simp add: b128_def)
next
  have w: "unat w < 2 ^ 64" using unsigned_less [of w, where 'a = nat] by simp
  have "parse_base128_loop 0 (b128_digits (b128_more (unat w)) (unat w) @ rest) = (Some (of_nat (unat w)), rest)"
    using b128_more_upper b128_more_lower by (intro parse_base128_loop_digits [OF w]) auto
  moreover assume "bs = b128 (unat w) @ rest"
  ultimately show "parse_base128_integer bs = (Some w, rest)"
    by (simp add: parse_base128_integer_def b128_def)
qed

section \<open>Tags\<close>

text \<open>
  A tag in memory: the class and the constructed bit in the top three bits, the tag number
  in the low 29 bits.
\<close>

definition der_tag :: "u32 \<Rightarrow> byte list" where
  "der_tag tag =
     (let top = unat tag div 2 ^ 29; number = unat tag mod 2 ^ 29 in
      if number < 31 then [of_nat (32 * top + number)]
      else of_nat (32 * top + 31) # b128 number)"

lemma unat_and_e0: "unat ((ucast (b :: u8) :: u32) AND 0xe0) = 32 * (unat b div 32)"
proof -
  have "(ucast b :: u32) AND 0xe0 = ucast (b AND 0xe0)" by (simp add: unsigned_and_eq)
  then show ?thesis by (simp add: unat_ucast_up byte_and_e0)
qed

lemma tag_word:
  assumes "unat n < 2 ^ 29"
  shows "unat (push_bit 24 (ucast (b :: u8) AND 0xe0) OR n :: u32) = unat b div 32 * 2 ^ 29 + unat n"
proof -
  have t: "unat b div 32 < 8" using unat_lt8 [of b] by (simp add: less_mult_imp_div_less)
  then have top: "unat (of_nat (unat b div 32) :: u32) = unat b div 32"
    by (intro unat_of_nat_small) simp
  have "push_bit 24 (ucast b AND 0xe0 :: u32) = push_bit 29 (of_nat (unat b div 32))"
  proof (rule word_unat_eq_iff [THEN iffD2])
    have "unat (push_bit 24 (ucast b AND 0xe0 :: u32)) = 32 * (unat b div 32) * 2 ^ 24"
      using t by (subst unat_push_bit_lt) (simp_all add: unat_and_e0)
    moreover have "unat (push_bit 29 (of_nat (unat b div 32) :: u32)) = unat b div 32 * 2 ^ 29"
      using t by (subst unat_push_bit_lt) (simp_all add: top)
    ultimately show "unat (push_bit 24 (ucast b AND 0xe0 :: u32)) = unat (push_bit 29 (of_nat (unat b div 32) :: u32))"
      by simp
  qed
  moreover have "unat (push_bit 29 (of_nat (unat b div 32) :: u32) OR n) = unat b div 32 * 2 ^ 29 + unat n"
    using assms t by (subst unat_push_bit_or) (simp_all add: top)
  ultimately show ?thesis by simp
qed

lemma of_nat_eq_byte: "n < 256 \<Longrightarrow> of_nat n = (b :: u8) \<longleftrightarrow> unat b = n"
  by (auto simp: word_unat_eq_iff)

lemma tag_top_less: "unat (tag :: u32) div 2 ^ 29 < 8"
  using unsigned_less [of tag, where 'a = nat] by (simp add: less_mult_imp_div_less)

text \<open>The first octet of a tag holds the top bits and either the number or 31.\<close>

lemma der_tag_Cons:
  "b # cs = der_tag tag @ rest \<longleftrightarrow>
    unat b div 32 = unat tag div 2 ^ 29 \<and>
    (if unat b mod 32 < 31 then unat tag mod 2 ^ 29 = unat b mod 32 \<and> cs = rest
     else 31 \<le> unat tag mod 2 ^ 29 \<and> cs = b128 (unat tag mod 2 ^ 29) @ rest)"
proof -
  define top where "top = unat tag div 2 ^ 29"
  define m where "m = unat tag mod 2 ^ 29"
  have top: "top < 8" unfolding top_def by (rule tag_top_less)
  have first: "of_nat (32 * top + x) = b \<longleftrightarrow> unat b div 32 = top \<and> unat b mod 32 = x" if "x < 32" for x
    using of_nat_eq_byte [of "32 * top + x" b] that top by auto
  have "unat b mod 32 < 32" by simp
  then have not31: "\<not> unat b mod 32 < 31 \<longleftrightarrow> unat b mod 32 = 31" by linarith
  show ?thesis
    unfolding der_tag_def Let_def top_def [symmetric] m_def [symmetric] not31
    using first [of m] first [of 31] by (auto simp del: of_nat_add of_nat_mult)
qed

lemma parse_asn1_tag_iff: "parse_asn1_tag bs = (Some tag, rest) \<longleftrightarrow> bs = der_tag tag @ rest"
proof (cases bs)
  case Nil
  then show ?thesis by (simp add: parse_asn1_tag_def der_tag_def Let_def op_bind_def)
next
  case (Cons b cs)
  have number: "ucast (b AND 0x1f) = (0x1f :: u32) \<longleftrightarrow> unat b mod 32 = 31"
    by (simp add: word_unat_eq_iff unat_ucast_up byte_and_1f)
  show ?thesis
  proof (cases "unat b mod 32 = 31")
    case False
    let ?tag = "push_bit 24 (ucast b AND 0xe0) OR ucast (b AND 0x1f) :: u32"
    have low: "unat b mod 32 < 31" using False mod_less_divisor [of 32 "unat b"] by linarith
    have "unat ?tag = unat b div 32 * 2 ^ 29 + unat b mod 32"
      using low by (subst tag_word) (simp_all add: unat_ucast_up byte_and_1f)
    then have "?tag = tag \<longleftrightarrow> unat tag = unat b div 32 * 2 ^ 29 + unat b mod 32"
      by (auto simp: word_unat_eq_iff)
    also have "\<dots> \<longleftrightarrow> unat b div 32 = unat tag div 2 ^ 29 \<and> unat tag mod 2 ^ 29 = unat b mod 32"
      using low by auto (metis mult.commute div_mult_mod_eq)
    finally show ?thesis
      using Cons False low number
      by (auto simp: parse_asn1_tag_def der_tag_Cons CBS_ASN1_TAG_SHIFT_def op_bind_def)
  next
    case True
    have bounds: "\<not> (v > ucast CBS_ASN1_TAG_NUMBER_MASK \<or> v < 0x1f) \<longleftrightarrow> 31 \<le> unat v \<and> unat v < 2 ^ 29"
      for v :: u64
      by (auto simp: word_less_nat_alt CBS_ASN1_TAG_NUMBER_MASK_def not_less)
    have word: "tag = push_bit 24 (ucast b AND 0xe0) OR ucast v \<longleftrightarrow>
        unat b div 32 = unat tag div 2 ^ 29 \<and> unat tag mod 2 ^ 29 = unat v"
      if "unat v < 2 ^ 29" for v :: u64
    proof -
      have v: "unat (ucast v :: u32) = unat v" using that by (simp add: unat_ucast_mod)
      then have "unat (push_bit 24 (ucast b AND 0xe0) OR ucast v :: u32) = unat b div 32 * 2 ^ 29 + unat v"
        using that by (subst tag_word) simp_all
      then show ?thesis using that unfolding word_unat_eq_iff
        by auto (metis mult.commute div_mult_mod_eq)
    qed
    have "parse_asn1_tag bs = (Some tag, rest) \<longleftrightarrow>
      (\<exists>v :: u64. cs = b128 (unat v) @ rest \<and> 31 \<le> unat v \<and> unat v < 2 ^ 29 \<and>
        tag = push_bit 24 (ucast b AND 0xe0) OR ucast v)"
      using Cons number True bounds
      by (auto simp: parse_asn1_tag_def op_bind_eq_Some CBS_get_u8_eq_Some parse_base128_integer_iff
          CBS_ASN1_TAG_SHIFT_def split: if_splits)
    also have "\<dots> \<longleftrightarrow> (\<exists>v :: u64. cs = b128 (unat v) @ rest \<and> 31 \<le> unat v \<and> unat v < 2 ^ 29 \<and>
        unat b div 32 = unat tag div 2 ^ 29 \<and> unat tag mod 2 ^ 29 = unat v)"
      using word by blast
    also have "\<dots> \<longleftrightarrow> bs = der_tag tag @ rest"
    proof -
      have "unat (of_nat (unat tag mod 2 ^ 29) :: u64) = unat tag mod 2 ^ 29"
        by (rule unat_of_nat_small) (rule less_trans [OF mod_less_divisor], simp_all)
      moreover have "unat tag mod 2 ^ 29 < 2 ^ 29" by simp
      ultimately show ?thesis
        unfolding Cons der_tag_Cons using True by (auto intro!: exI [of _ "of_nat (unat tag mod 2 ^ 29)"])
    qed
    finally show ?thesis .
  qed
qed

section \<open>Lengths\<close>

fun be_size :: "nat \<Rightarrow> nat" where
  "be_size n = (if n < 256 then 1 else Suc (be_size (n div 256)))"

declare be_size.simps [simp del]

definition der_len :: "nat \<Rightarrow> byte list" where
  "der_len n = (if n < 128 then [of_nat n] else of_nat (128 + be_size n) # be_bytes (be_size n) n)"

lemma be_size_pos: "1 \<le> be_size n"
  by (subst be_size.simps) simp

lemma be_size_upper: "n < 256 ^ be_size n"
proof (induction n rule: be_size.induct)
  case (1 n)
  show ?case
  proof (cases "n < 256")
    case True
    then show ?thesis by (simp add: be_size.simps [of n])
  next
    case False
    then have "n div 256 < 256 ^ be_size (n div 256)" by (rule "1.IH")
    then have "n < 256 * 256 ^ be_size (n div 256)" by (simp add: less_mult_imp_div_less div_less_iff_less_mult mult.commute)
    with False show ?thesis by (simp add: be_size.simps [of n])
  qed
qed

lemma be_size_lower: "be_size n = 1 \<or> 256 ^ (be_size n - 1) \<le> n"
proof (induction n rule: be_size.induct)
  case (1 n)
  show ?case
  proof (cases "n < 256")
    case True
    then show ?thesis by (simp add: be_size.simps [of n])
  next
    case False
    obtain k where k: "be_size (n div 256) = Suc k" using be_size_pos [of "n div 256"] by (metis Suc_le_D One_nat_def)
    have "256 ^ k \<le> n div 256"
      using "1.IH" [OF False] k False by (cases k) (auto simp: less_eq_div_iff_mult_less_eq)
    then have "256 ^ Suc k \<le> n" by (simp add: less_eq_div_iff_mult_less_eq mult.commute)
    with False k show ?thesis by (simp add: be_size.simps [of n])
  qed
qed

lemma be_size_unique:
  assumes "1 \<le> k" and "n < 256 ^ k" and "k = 1 \<or> 256 ^ (k - 1) \<le> n"
  shows "be_size n = k"
proof (rule ccontr)
  assume "be_size n \<noteq> k"
  then consider "be_size n \<le> k - 1" | "k \<le> be_size n - 1" by linarith
  then show False
  proof cases
    case 1
    then have "(256 :: nat) ^ be_size n \<le> 256 ^ (k - 1)" by (intro power_increasing) auto
    moreover have "256 ^ (k - 1) \<le> n" using 1 assms(3) be_size_pos [of n] by auto
    ultimately show False using be_size_upper [of n] by linarith
  next
    case 2
    then have "(256 :: nat) ^ k \<le> 256 ^ (be_size n - 1)" by (intro power_increasing) auto
    moreover have "256 ^ (be_size n - 1) \<le> n" using 2 assms(1) be_size_lower [of n] by auto
    ultimately show False using assms(2) by linarith
  qed
qed

lemma be_size_le: "n < 256 ^ k \<Longrightarrow> 1 \<le> k \<Longrightarrow> be_size n \<le> k"
proof (rule ccontr)
  assume n: "n < 256 ^ k" and k: "1 \<le> k" and "\<not> be_size n \<le> k"
  then have "k \<le> be_size n - 1" by simp
  then have "(256 :: nat) ^ k \<le> 256 ^ (be_size n - 1)" by (intro power_increasing) auto
  moreover have "256 ^ (be_size n - 1) \<le> n"
    using k \<open>\<not> be_size n \<le> k\<close> be_size_lower [of n] by auto
  ultimately show False using n by linarith
qed

text \<open>Splitting off the first octet of a length.\<close>

lemma der_len_Cons:
  assumes n: "n < 2 ^ 32"
  shows "b # cs = der_len n @ rest \<longleftrightarrow>
    (if unat b < 128 then n = unat b \<and> cs = rest
     else 128 \<le> n \<and> unat b - 128 = be_size n \<and> cs = be_bytes (be_size n) n @ rest)"
proof -
  have "be_size n \<le> 4" using n by (intro be_size_le) simp_all
  then have long: "of_nat (128 + be_size n) = b \<longleftrightarrow> unat b = 128 + be_size n"
    by (intro of_nat_eq_byte) simp
  have short: "n < 128 \<Longrightarrow> of_nat n = b \<longleftrightarrow> unat b = n" by (intro of_nat_eq_byte) simp
  show ?thesis
    unfolding der_len_def using long short by (auto simp del: of_nat_add)
qed

section \<open>Elements\<close>

definition der_header :: "u32 \<Rightarrow> nat \<Rightarrow> byte list" where
  "der_header tag n = der_tag tag @ der_len n"

definition der_elem :: "u32 \<Rightarrow> byte list \<Rightarrow> byte list" where
  "der_elem tag contents = der_header tag (length contents) @ contents"

lemma length_der_tag: "1 \<le> length (der_tag tag) \<and> length (der_tag tag) \<le> 6"
proof -
  have "b128_more (unat tag mod 2 ^ 29) \<le> 4"
  proof (rule ccontr)
    let ?x = "unat tag mod 2 ^ 29"
    assume "\<not> b128_more ?x \<le> 4"
    then have "5 \<le> b128_more ?x" by simp
    moreover have "?x div 128 ^ 5 = 0"
      using mod_less_divisor [of "2 ^ 29" "unat tag"] by (simp add: div_eq_0_iff)
    ultimately have "?x div 128 ^ b128_more ?x = 0" using div_128_mono by blast
    then show False using b128_more_lower [of ?x] \<open>5 \<le> b128_more ?x\<close> by simp
  qed
  then show ?thesis by (simp add: der_tag_def Let_def b128_def)
qed

text \<open>The contents of an element once its tag and length octet are split off.\<close>

lemma element_short:
  assumes "bs = der_tag tag @ lb # cs" and lb: "unat lb < 128"
  shows "cbs_get_any_asn1_element ber_ok bs =
    op_map (\<lambda>out. (out, tag, length (der_tag tag) + 1, False))
      (CBS_get_bytes (unat lb + (length (der_tag tag) + 1))) bs"
proof -
  have "parse_asn1_tag bs = (Some tag, lb # cs)"
    using assms(1) by (simp add: parse_asn1_tag_iff)
  moreover have "CBS_len bs - CBS_len cs = length (der_tag tag) + 1"
    using assms(1) by (simp add: CBS_len_def)
  moreover have "lb AND 0x80 = 0" using lb by (simp add: byte_and_80)
  ultimately show ?thesis by (simp add: cbs_get_any_asn1_element_def Let_def)
qed

lemma element_long:
  assumes bs: "bs = der_tag tag @ lb # xs @ cs" and lb: "128 \<le> unat lb"
    and xs: "length xs = unat lb - 128" "1 \<le> length xs" "length xs \<le> 4"
  defines "n \<equiv> be_val xs"
  shows "cbs_get_any_asn1_element False bs =
    (if 128 \<le> n \<and> be_size n = length xs
     then op_map (\<lambda>out. (out, tag, length (der_tag tag) + 1 + length xs, False))
       (CBS_get_bytes (n + (length (der_tag tag) + 1) + length xs)) bs
     else (None, bs))"
proof -
  define hl where "hl = length (der_tag tag) + 1"
  define m where "m = length xs"
  have parse: "parse_asn1_tag bs = (Some tag, lb # xs @ cs)"
    using bs by (simp add: parse_asn1_tag_iff)
  have hl: "CBS_len bs - CBS_len (xs @ cs) = hl"
    using bs by (simp add: CBS_len_def hl_def)
  have high: "lb AND 0x80 \<noteq> 0" using lb by (simp add: byte_and_80)
  have nb: "unat (lb AND 0x7f) = m"
    using lb xs by (simp add: byte_and_7f byte_high m_def)
  have n32: "n < 2 ^ 32"
  proof -
    have "n < 256 ^ length xs" unfolding n_def by (rule be_val_less)
    also have "\<dots> \<le> 256 ^ 4" using xs(3) by (intro power_increasing) auto
    finally show ?thesis by simp
  qed
  then have un: "unat (of_nat n :: u64) = n" by (intro unat_of_nat_small) simp
  have get: "cbs_get_u m (xs @ cs) = (Some (of_nat n), cs)"
    using xs unfolding n_def m_def by (intro cbs_get_u_append) simp_all
  have lt128: "(of_nat n :: u64) < 128 \<longleftrightarrow> n < 128"
    using un by (simp add: word_less_nat_alt)
  have lower: "drop_bit ((m - 1) * 8) (of_nat n :: u64) = 0 \<longleftrightarrow> n < 256 ^ (m - 1)"
  proof -
    have "(2 :: nat) ^ ((m - 1) * 8) = 256 ^ (m - 1)"
      by (simp add: power_mult [symmetric] mult.commute [of _ 8] power_mult)
    then show ?thesis
      using un by (simp add: unat_eq_0 [symmetric] unat_drop_bit div_eq_0_iff del: unat_eq_0)
  qed
  have m: "1 \<le> m" "m \<le> 4" using xs by (simp_all add: m_def)
  have size: "be_size n = m \<longleftrightarrow> m = 1 \<or> \<not> n < 256 ^ (m - 1)"
    using be_size_unique [of m n] be_size_lower [of n] be_val_less [of xs] m
    unfolding n_def m_def by auto
  have small: "m = 1 \<Longrightarrow> n < 256 ^ (m - 1) \<Longrightarrow> n < 128" by simp
  have total: "unat (of_nat n + of_nat hl + of_nat m :: u64) = n + hl + m"
  proof -
    have "n + hl + m < 2 ^ 64" using n32 length_der_tag [of tag] m by (simp add: hl_def)
    then have "unat (of_nat (n + hl + m) :: u64) = n + hl + m"
      by (intro unat_of_nat_small) simp
    then show ?thesis by (simp only: of_nat_add)
  qed
  then have no_wrap: "\<not> (of_nat n + of_nat hl + of_nat m :: u64) < of_nat n"
    using un by (simp add: word_less_nat_alt)
  have tail: "n + (length (der_tag tag) + 1) + length xs = n + hl + m"
    "length (der_tag tag) + 1 + length xs = hl + m" by (simp_all add: hl_def m_def)
  show ?thesis
    unfolding tail unfolding cbs_get_any_asn1_element_def parse prod.case option.case CBS_get_u8_Cons hl Let_def nb get
      lt128 lower total m_def [symmetric]
    using high size small no_wrap m by auto
qed

lemma length_der_len: "n < 2 ^ 32 \<Longrightarrow> length (der_len n) = (if n < 128 then 1 else 1 + be_size n)"
  by (simp add: der_len_def)

text \<open>
  The DER parser accepts an element exactly when it is the canonical encoding of its tag
  and contents, and then returns that element, the tag and the length of the header.
\<close>

lemma cbs_get_any_asn1_element_iff:
  "cbs_get_any_asn1_element False bs = (Some (e, tag, h, ber), rest) \<longleftrightarrow>
    \<not> ber \<and> bs = e @ rest \<and>
    (\<exists>c. length c < 2 ^ 32 \<and> e = der_elem tag c \<and> h = length (der_header tag (length c)))"
  (is "?parse \<longleftrightarrow> ?enc")
proof (cases "\<exists>tag0 lb cs. bs = der_tag tag0 @ lb # cs")
  case False
  have "\<exists>lb cs. der_len n = lb # cs" for n by (simp add: der_len_def)
  then have "\<not> ?enc" using False unfolding der_elem_def der_header_def
    by (metis append_Cons append_assoc)
  moreover have "\<not> ?parse"
  proof
    assume ?parse
    then obtain t hd lb cs where "parse_asn1_tag bs = (Some t, hd)" "CBS_get_u8 hd = (Some lb, cs)"
      by (auto simp: cbs_get_any_asn1_element_def split: option.splits prod.splits)
    then show False using False by (auto simp: parse_asn1_tag_iff CBS_get_u8_eq_Some)
  qed
  ultimately show ?thesis by simp
next
  case True
  then obtain tag0 lb cs where bs: "bs = der_tag tag0 @ lb # cs" by blast
  have tag_unique: "tag = tag0 \<and> lb # cs = der_len n @ c @ rest"
    if "bs = der_elem tag c @ rest" "n = length c" for c n
  proof -
    have "parse_asn1_tag bs = (Some tag, der_len n @ c @ rest)"
      using that by (simp add: parse_asn1_tag_iff der_elem_def der_header_def)
    moreover have "parse_asn1_tag bs = (Some tag0, lb # cs)"
      using bs by (simp add: parse_asn1_tag_iff)
    ultimately show ?thesis by simp
  qed
  have enc: "?enc \<longleftrightarrow> \<not> ber \<and> tag = tag0 \<and> bs = e @ rest \<and> (\<exists>c. length c < 2 ^ 32 \<and>
      lb # cs = der_len (length c) @ c @ rest \<and> h = length (der_tag tag) + length (der_len (length c)))"
    using tag_unique bs by (auto simp: der_elem_def der_header_def)
  show ?thesis
  proof (cases "unat lb < 128")
    case True
    have split: "bs = e @ rest \<and> length e = unat lb + (length (der_tag tag0) + 1) \<longleftrightarrow>
        bs = e @ rest \<and> (\<exists>c. length c = unat lb \<and> cs = c @ rest)"
      using append_eq_split [of "der_tag tag0 @ [lb]" cs e rest "unat lb"] bs by (auto simp: add.commute)
    have "?parse \<longleftrightarrow> \<not> ber \<and> tag = tag0 \<and> h = length (der_tag tag) + 1 \<and> bs = e @ rest \<and>
        length e = unat lb + (length (der_tag tag0) + 1)"
      unfolding element_short [OF bs True] op_map_eq_Some CBS_get_bytes_eq_Some by auto
    also have "\<dots> \<longleftrightarrow> ?enc"
    proof -
      have "length c < 2 ^ 32 \<and> lb # cs = der_len (length c) @ c @ rest \<and>
          h = length (der_tag tag) + length (der_len (length c)) \<longleftrightarrow>
        h = length (der_tag tag) + 1 \<and> length c = unat lb \<and> cs = c @ rest" for c
        using True by (auto simp: der_len_Cons length_der_len)
      then show ?thesis unfolding split enc by blast
    qed
    finally show ?thesis .
  next
    case False
    let ?m = "unat lb - 128"
    have long: "lb # cs = der_len (length c) @ c @ rest \<longleftrightarrow>
        128 \<le> length c \<and> ?m = be_size (length c) \<and> cs = be_bytes ?m (length c) @ c @ rest"
      if "length c < 2 ^ 32" for c
      using der_len_Cons [OF that] False by auto
    show ?thesis
    proof (cases "1 \<le> ?m \<and> ?m \<le> 4 \<and> ?m \<le> length cs")
      case bad: False
      have "parse_asn1_tag bs = (Some tag0, lb # cs)" using bs by (simp add: parse_asn1_tag_iff)
      moreover have "unat (lb AND 0x7f) = ?m" "lb AND 0x80 \<noteq> 0"
        using False unat_lt8 [of lb] by (simp_all add: byte_and_7f byte_and_80 byte_high)
      ultimately have "\<not> ?parse"
        using bad by (auto simp: cbs_get_any_asn1_element_def cbs_get_u_def op_map_def cbs_get_def op_bind_def Let_def
            split: if_splits)
      moreover have "\<not> ?enc"
      proof
        assume ?enc
        then obtain c where c: "length c < 2 ^ 32" "lb # cs = der_len (length c) @ c @ rest"
          unfolding enc by blast
        have "be_size (length c) \<le> 4" using c(1) by (intro be_size_le) simp_all
        then show False using long [OF c(1)] c(2) bad be_size_pos [of "length c"] by auto
      qed
      ultimately show ?thesis by simp
    next
      case True
      define xs where "xs = take ?m cs"
      define cs' where "cs' = drop ?m cs"
      define n where "n = be_val xs"
      have bs': "bs = der_tag tag0 @ lb # xs @ cs'" using bs by (simp add: xs_def cs'_def)
      have len: "length xs = ?m" using True by (simp add: xs_def)
      have n: "n < 256 ^ ?m" using be_val_less [of xs] len by (simp add: n_def)
      also have "(256 :: nat) ^ ?m \<le> 256 ^ 4" using True by (intro power_increasing) auto
      finally have n32: "n < 2 ^ 32" by simp
      have "?parse \<longleftrightarrow> 128 \<le> n \<and> be_size n = ?m \<and> \<not> ber \<and> tag = tag0 \<and>
          h = length (der_tag tag0) + 1 + ?m \<and> bs = e @ rest \<and> length e = n + (length (der_tag tag0) + 1) + ?m"
        using element_long [OF bs', folded n_def] False True len
        by (auto simp: op_map_eq_Some CBS_get_bytes_eq_Some)
      also have "\<dots> \<longleftrightarrow> 128 \<le> n \<and> be_size n = ?m \<and> \<not> ber \<and> tag = tag0 \<and>
          h = length (der_tag tag0) + 1 + ?m \<and> bs = e @ rest \<and> (\<exists>c. length c = n \<and> cs' = c @ rest)"
        using append_eq_split [of "der_tag tag0 @ lb # xs" cs' e rest n] bs' len
        by (auto simp: add.commute add.left_commute)
      also have "\<dots> \<longleftrightarrow> ?enc"
      proof -
        have "lb # cs = der_len (length c) @ c @ rest \<and> length c < 2 ^ 32 \<longleftrightarrow>
            128 \<le> n \<and> be_size n = ?m \<and> length c = n \<and> cs' = c @ rest" for c
        proof (cases "length c < 2 ^ 32")
          case True
          have "cs = be_bytes ?m (length c) @ c @ rest \<longleftrightarrow> xs = be_bytes ?m (length c) \<and> cs' = c @ rest"
            using len by (metis append_eq_append_conv append_take_drop_id cs'_def length_be_bytes xs_def)
          moreover have "xs = be_bytes ?m (length c) \<longleftrightarrow> length c = n" if "be_size (length c) = ?m"
            using len be_size_upper [of "length c"] that
            by (metis be_bytes_be_val be_val_be_bytes mod_less n_def)
          ultimately show ?thesis using long [OF True] True by auto
        next
          case False
          then show ?thesis using n32 by auto
        qed
        moreover have "length (der_len n) = 1 + ?m" if "128 \<le> n" "be_size n = ?m"
          using that by (simp add: der_len_def)
        ultimately show ?thesis unfolding enc
          by (metis (no_types, lifting) add.assoc)
      qed
      finally show ?thesis .
    qed
  qed
qed

section \<open>The parsers of elements\<close>

lemma CBS_get_any_asn1_element_iff:
  "CBS_get_any_asn1_element bs = (Some (e, tag, h), rest) \<longleftrightarrow>
    bs = e @ rest \<and>
    (\<exists>c. length c < 2 ^ 32 \<and> e = der_elem tag c \<and> h = length (der_header tag (length c)))"
  unfolding CBS_get_any_asn1_element_def op_map_eq_Some
  by (auto simp: cbs_get_any_asn1_element_iff)

lemma cbs_get_any_asn1_element_None:
  "cbs_get_any_asn1_element ber_ok bs = (None, rest) \<Longrightarrow> rest = bs"
  by (auto simp: cbs_get_any_asn1_element_def op_map_def op_bind_def CBS_get_bytes_def cbs_get_def Let_def
      split: option.splits prod.splits if_splits)

lemma CBS_get_any_asn1_element_None:
  "CBS_get_any_asn1_element bs = (None, rest) \<Longrightarrow> rest = bs"
  by (auto simp: CBS_get_any_asn1_element_def op_map_def op_bind_def
      dest: cbs_get_any_asn1_element_None split: option.splits prod.splits)

interpretation get_element: byte_reader CBS_get_any_asn1_element
proof
  fix bs rest :: CBS and r
  assume eq: "CBS_get_any_asn1_element bs = (r, rest)"
  show "\<exists>used. bs = used @ rest"
  proof (cases r)
    case None
    then show ?thesis using eq CBS_get_any_asn1_element_None by blast
  next
    case (Some x)
    then show ?thesis using eq by (cases x) (auto simp: CBS_get_any_asn1_element_iff)
  qed
next
  fix bs rest ext :: CBS and x
  assume "CBS_get_any_asn1_element bs = (Some x, rest)"
  then show "CBS_get_any_asn1_element (bs @ ext) = (Some x, rest @ ext)"
    by (cases x) (auto simp: CBS_get_any_asn1_element_iff)
qed

lemma CBS_skip_header: "CBS_skip (length (der_header tag (length c))) (der_elem tag c) = (Some (), c)"
  by (simp add: der_elem_def)

lemma CBS_get_any_asn1_element_elem [simp]:
  "length c < 2 ^ 32 \<Longrightarrow> CBS_get_any_asn1_element (der_elem tag c @ rest) =
    (Some (der_elem tag c, tag, length (der_header tag (length c))), rest)"
  by (auto simp: CBS_get_any_asn1_element_iff)

lemma CBS_get_any_asn1_iff:
  "CBS_get_any_asn1 bs = (Some (c, tag), rest) \<longleftrightarrow> length c < 2 ^ 32 \<and> bs = der_elem tag c @ rest"
proof
  assume "CBS_get_any_asn1 bs = (Some (c, tag), rest)"
  then show "length c < 2 ^ 32 \<and> bs = der_elem tag c @ rest"
    by (auto simp: CBS_get_any_asn1_def op_bind_eq_Some CBS_get_any_asn1_element_iff CBS_skip_header)
qed (simp add: CBS_get_any_asn1_def CBS_skip_header)

lemma CBS_get_asn1_iff:
  "CBS_get_asn1 tag bs = (Some c, rest) \<longleftrightarrow> length c < 2 ^ 32 \<and> bs = der_elem tag c @ rest"
proof
  assume "CBS_get_asn1 tag bs = (Some c, rest)"
  then show "length c < 2 ^ 32 \<and> bs = der_elem tag c @ rest"
    by (auto simp: CBS_get_asn1_def cbs_get_asn1_def op_bind_eq_Some CBS_get_any_asn1_element_iff
        CBS_skip_header split: if_splits)
qed (simp add: CBS_get_asn1_def cbs_get_asn1_def CBS_skip_header)

lemma CBS_get_asn1_element_iff:
  "CBS_get_asn1_element tag bs = (Some e, rest) \<longleftrightarrow>
    bs = e @ rest \<and> (\<exists>c. length c < 2 ^ 32 \<and> e = der_elem tag c)"
  by (auto simp: CBS_get_asn1_element_def cbs_get_asn1_def op_bind_eq_Some CBS_get_any_asn1_element_iff
      split: if_splits)

lemma CBS_get_asn1_elem [simp]:
  "length c < 2 ^ 32 \<Longrightarrow> CBS_get_asn1 tag (der_elem tag c @ rest) = (Some c, rest)"
  by (simp add: CBS_get_asn1_iff)

lemma der_elem_inject:
  assumes "der_elem tag c @ r = der_elem tag' c' @ r'" and "length c < 2 ^ 32" and "length c' < 2 ^ 32"
  shows "tag = tag' \<and> c = c' \<and> r = r'"
  using CBS_get_any_asn1_iff [of "der_elem tag c @ r"] assms
  by (metis old.prod.inject option.inject)

lemma CBS_peek_asn1_tag_iff:
  "CBS_peek_asn1_tag bs tag \<longleftrightarrow> (\<exists>rest. bs = der_tag tag @ rest)"
proof (cases "parse_asn1_tag bs")
  case (Pair r rest)
  have ne: "bs = der_tag tag @ rest' \<Longrightarrow> \<not> CBS_len bs < 1" for rest'
    using length_der_tag [of tag] by (cases "der_tag tag") (simp_all add: CBS_len_def)
  show ?thesis
  proof (cases r)
    case None
    then have "\<nexists>rest. bs = der_tag tag @ rest"
      using Pair parse_asn1_tag_iff [of bs tag] by auto
    then show ?thesis using Pair None by (simp add: CBS_peek_asn1_tag_def)
  next
    case (Some t)
    then have bs: "bs = der_tag t @ rest" using Pair by (simp add: parse_asn1_tag_iff)
    then have "(\<exists>rest. bs = der_tag tag @ rest) \<longleftrightarrow> t = tag"
      using parse_asn1_tag_iff [of bs tag] Pair Some by auto
    then show ?thesis using Pair Some ne [of rest] bs by (auto simp: CBS_peek_asn1_tag_def)
  qed
qed

end
