(* ===== verification/Bytestring_CBB.thy ===== *)
theory Bytestring_CBB
  imports DER
begin

text \<open>
  The building half of the module (\<open>crypto/bytestring/cbb.c\<close>). A \<open>CBB\<close> tree shares one
  buffer. A \<open>CBB\<close> has at most one open child, so the open objects form a chain and a
  client's handle is its depth: 0 for the root, \<open>h\<close> for the \<open>h\<close>-th open child. The state
  holds the buffer (\<open>None\<close> for a \<open>NULL\<close> base) and the open children, outermost first. A
  handle deeper than the chain is an object that was flushed, whose \<open>base\<close> is \<open>NULL\<close>.

  \<open>bb_buf\<close> is the written part of the buffer, so \<open>base->len\<close> is its length. Memory the
  buffer grows into is undefined in C until it is written; the model fills it with zeros,
  and every operation that grows the buffer overwrites what it added. Sizes are \<open>size_t\<close>,
  the wrap-around written out. \<open>bb_alloc n\<close> says whether the allocator grants \<open>n\<close> bytes.
\<close>

section \<open>State\<close>

record cbb_buffer =
  bb_buf :: "byte list"
  bb_cap :: nat
  bb_can_resize :: bool
  bb_error :: bool
  bb_alloc :: "nat \<Rightarrow> bool"

record cbb_child =
  ch_offset :: nat
  ch_pending_len_len :: nat
  ch_pending_is_asn1 :: bool

record CBB =
  cbb_base :: "cbb_buffer option"
  cbb_children :: "cbb_child list"

definition CBB_zero :: CBB where
  "CBB_zero = \<lparr>cbb_base = None, cbb_children = []\<rparr>"

text \<open>\<open>sizeof(struct cbb_buffer_st)\<close> and \<open>sizeof(CBS)\<close> with 8-byte pointers.\<close>

definition sizeof_cbb_buffer :: nat where "sizeof_cbb_buffer = 32"
definition sizeof_CBS :: nat where "sizeof_CBS = 16"

definition cbb_init :: "(nat \<Rightarrow> bool) \<Rightarrow> nat \<Rightarrow> CBB \<Rightarrow> bool \<times> CBB" where
  "cbb_init alloc cap cbb =
     (if \<not> alloc sizeof_cbb_buffer then (False, cbb)
      else (True, cbb\<lparr>cbb_base := Some \<lparr>bb_buf = [], bb_cap = cap, bb_can_resize = True,
                                      bb_error = False, bb_alloc = alloc\<rparr>\<rparr>))"

definition CBB_init :: "(nat \<Rightarrow> bool) \<Rightarrow> nat \<Rightarrow> bool \<times> CBB" where
  "CBB_init alloc initial_capacity =
     (if initial_capacity > 0 \<and> \<not> alloc initial_capacity then (False, CBB_zero)
      else cbb_init alloc initial_capacity CBB_zero)"

definition CBB_init_fixed :: "(nat \<Rightarrow> bool) \<Rightarrow> nat \<Rightarrow> bool \<times> CBB" where
  "CBB_init_fixed alloc len =
     (case cbb_init alloc len CBB_zero of
        (False, cbb) \<Rightarrow> (False, cbb)
      | (True, cbb) \<Rightarrow> (True, cbb\<lparr>cbb_base := map_option (\<lambda>b. b\<lparr>bb_can_resize := False\<rparr>) (cbb_base cbb)\<rparr>))"

definition CBB_cleanup :: "CBB \<Rightarrow> CBB" where
  "CBB_cleanup cbb = cbb\<lparr>cbb_base := None\<rparr>"

section \<open>The buffer\<close>

definition cbb_error :: "cbb_buffer \<Rightarrow> 'a option \<times> cbb_buffer" where
  "cbb_error base = (None, base\<lparr>bb_error := True\<rparr>)"

text \<open>The result is the offset \<open>*out\<close> points at.\<close>

definition cbb_buffer_reserve :: "nat \<Rightarrow> (cbb_buffer, nat) op" where
  "cbb_buffer_reserve n base =
     (let len = length (bb_buf base); newlen = (len + n) mod 2 ^ 64 in
      if newlen < len then cbb_error base
      else if newlen > bb_cap base then
        let newcap = bb_cap base * 2 mod 2 ^ 64 in
        if \<not> bb_can_resize base then cbb_error base
        else
          let newcap = (if newcap < bb_cap base \<or> newcap < newlen then newlen else newcap) in
          if \<not> bb_alloc base newcap then cbb_error base
          else (Some len, base\<lparr>bb_cap := newcap\<rparr>)
      else (Some len, base))"

definition cbb_buffer_add :: "nat \<Rightarrow> (cbb_buffer, nat) op" where
  "cbb_buffer_add n = op_bind (cbb_buffer_reserve n) (\<lambda>out base.
     (Some out, base\<lparr>bb_buf := bb_buf base @ replicate n 0\<rparr>))"

text \<open>
  The loop that stores the low bytes of \<open>v\<close> big-endian at \<open>off\<close>, last byte first; what is
  left of \<open>v\<close> is returned as well. \<open>cbb_buffer_add_u\<close> and \<open>CBB_flush\<close> both contain it.
\<close>

primrec store_be :: "nat \<Rightarrow> nat \<Rightarrow> u64 \<Rightarrow> byte list \<Rightarrow> byte list \<times> u64" where
  "store_be off 0 v bytes = (bytes, v)"
| "store_be off (Suc i) v bytes = store_be off i (drop_bit 8 v) (bytes[off + i := ucast v])"

definition cbb_buffer_add_u :: "u64 \<Rightarrow> nat \<Rightarrow> (cbb_buffer, unit) op" where
  "cbb_buffer_add_u v len_len =
     (if len_len = 0 then op_return ()
      else op_bind (cbb_buffer_add len_len) (\<lambda>off base.
        let (bytes, v) = store_be off len_len v (bb_buf base);
            base = base\<lparr>bb_buf := bytes\<rparr>
        in if v \<noteq> 0 then cbb_error base else (Some (), base)))"

definition memmove :: "'a list \<Rightarrow> nat \<Rightarrow> nat \<Rightarrow> nat \<Rightarrow> 'a list" where
  "memmove bytes dst src n = take dst bytes @ take n (drop src bytes) @ drop (dst + n) bytes"

section \<open>Flushing\<close>

text \<open>The length octets of an ASN.1 child: \<open>len_len\<close>, the first octet and what is left to store.\<close>

definition cbb_asn1_length :: "nat \<Rightarrow> (nat \<times> u8 \<times> nat) option" where
  "cbb_asn1_length len =
     (if len > 0xfffffffe then None
      else if len > 0xffffff then Some (5, 0x80 OR 4, len)
      else if len > 0xffff then Some (4, 0x80 OR 3, len)
      else if len > 0xff then Some (3, 0x80 OR 2, len)
      else if len > 0x7f then Some (2, 0x80 OR 1, len)
      else Some (1, of_nat len, 0))"

text \<open>What \<open>CBB_flush\<close> does to the child once the child's own children are flushed.\<close>

definition cbb_patch_child :: "cbb_child \<Rightarrow> cbb_buffer \<Rightarrow> bool \<times> cbb_child \<times> cbb_buffer" where
  "cbb_patch_child child base =
     (let err = (\<lambda>child base. (False, child, base\<lparr>bb_error := True\<rparr>));
          child_start = (ch_offset child + ch_pending_len_len child) mod 2 ^ 64;
          store = (\<lambda>child base len.
            let (bytes, len) = store_be (ch_offset child) (ch_pending_len_len child) (of_nat len) (bb_buf base);
                base = base\<lparr>bb_buf := bytes\<rparr>
            in if len \<noteq> 0 then err child base else (True, child, base))
      in
      if child_start < ch_offset child \<or> length (bb_buf base) < child_start then err child base
      else
        let len = length (bb_buf base) - child_start in
        if ch_pending_is_asn1 child then
          (case cbb_asn1_length len of
             None \<Rightarrow> err child base
           | Some (len_len, initial_length_byte, len') \<Rightarrow>
               let extra_bytes = len_len - 1;
                   make_space = (if len_len = 1 then op_return ()
                     else op_bind (cbb_buffer_add extra_bytes) (\<lambda>_ base.
                       (Some (), base\<lparr>bb_buf :=
                          memmove (bb_buf base) (child_start + extra_bytes) child_start len\<rparr>)))
               in case make_space base of
                 (None, base) \<Rightarrow> err child base
               | (Some _, base) \<Rightarrow>
                   let base = base\<lparr>bb_buf := (bb_buf base)[ch_offset child := initial_length_byte]\<rparr>;
                       child = child\<lparr>ch_offset := ch_offset child + 1, ch_pending_len_len := len_len - 1\<rparr>
                   in store child base len')
        else store child base len)"

fun CBB_flush_chain :: "cbb_child list \<Rightarrow> cbb_buffer \<Rightarrow> bool \<times> cbb_child list \<times> cbb_buffer" where
  "CBB_flush_chain [] base = (\<not> bb_error base, [], base)"
| "CBB_flush_chain (child # children) base =
     (if bb_error base then (False, child # children, base)
      else if ch_pending_len_len child = 0 then (True, child # children, base)
      else case CBB_flush_chain children base of
        (False, children, base) \<Rightarrow> (False, child # children, base\<lparr>bb_error := True\<rparr>)
      | (True, children, base) \<Rightarrow>
          (case cbb_patch_child child base of
             (False, child, base) \<Rightarrow> (False, child # children, base)
           | (True, child, base) \<Rightarrow> (True, [], base)))"

definition CBB_flush :: "nat \<Rightarrow> (CBB, unit) op" where
  "CBB_flush h cbb =
     (case cbb_base cbb of
        None \<Rightarrow> (None, cbb)
      | Some base \<Rightarrow>
          if h > length (cbb_children cbb) then (None, cbb)
          else case CBB_flush_chain (drop h (cbb_children cbb)) base of (ok, children, base) \<Rightarrow>
            (if ok then Some () else None,
             cbb\<lparr>cbb_base := Some base, cbb_children := take h (cbb_children cbb) @ children\<rparr>))"

text \<open>An operation on the buffer behind \<open>cbb->base\<close>; a \<open>NULL\<close> base fails.\<close>

definition on_base :: "(cbb_buffer, 'a) op \<Rightarrow> (CBB, 'a) op" where
  "on_base m cbb =
     (case cbb_base cbb of
        None \<Rightarrow> (None, cbb)
      | Some base \<Rightarrow> (case m base of (r, base) \<Rightarrow> (r, cbb\<lparr>cbb_base := Some base\<rparr>)))"

definition CBB_finish :: "nat \<Rightarrow> bool \<Rightarrow> bool \<Rightarrow> (CBB, byte list) op" where
  \<comment> \<open>\<open>out_data\<close> and \<open>out_len\<close> say whether the caller passes the two out-pointers\<close>
  "CBB_finish h out_data out_len =
     (if h > 0 then op_fail
      else op_bind (CBB_flush h) (\<lambda>_ cbb.
        case cbb_base cbb of
          None \<Rightarrow> (None, cbb)
        | Some base \<Rightarrow>
            if bb_can_resize base \<and> (\<not> out_data \<or> \<not> out_len) then (None, cbb)
            else (Some (bb_buf base), CBB_cleanup cbb)))"

text \<open>The first byte of the contents of a handle, past its pending length prefix.\<close>

definition cbb_contents_start :: "nat \<Rightarrow> CBB \<Rightarrow> nat" where
  "cbb_contents_start h cbb =
     (if h = 0 then 0
      else let c = cbb_children cbb ! (h - 1) in ch_offset c + ch_pending_len_len c)"

definition CBB_data :: "nat \<Rightarrow> CBB \<Rightarrow> byte list" where
  "CBB_data h cbb =
     (case cbb_base cbb of None \<Rightarrow> [] | Some base \<Rightarrow> drop (cbb_contents_start h cbb) (bb_buf base))"

definition CBB_len :: "nat \<Rightarrow> CBB \<Rightarrow> nat" where
  "CBB_len h cbb =
     (case cbb_base cbb of None \<Rightarrow> 0 | Some base \<Rightarrow> length (bb_buf base) - cbb_contents_start h cbb)"

section \<open>Adding\<close>

definition cbb_open_child :: "nat \<Rightarrow> cbb_child \<Rightarrow> (CBB, unit) op" where
  "cbb_open_child h child cbb = (Some (), cbb\<lparr>cbb_children := take h (cbb_children cbb) @ [child]\<rparr>)"

definition cbb_base_len :: "(CBB, nat) op" where
  "cbb_base_len cbb =
     (case cbb_base cbb of None \<Rightarrow> (None, cbb) | Some base \<Rightarrow> (Some (length (bb_buf base)), cbb))"

definition cbb_add_length_prefixed :: "nat \<Rightarrow> nat \<Rightarrow> (CBB, unit) op" where
  "cbb_add_length_prefixed h len_len =
     op_bind (CBB_flush h) (\<lambda>_.
     op_bind cbb_base_len (\<lambda>offset.
     op_bind (on_base (op_bind (cbb_buffer_add len_len) (\<lambda>off base.
       (Some (), base\<lparr>bb_buf := take off (bb_buf base) @ replicate len_len 0\<rparr>)))) (\<lambda>_.
     cbb_open_child h \<lparr>ch_offset = offset, ch_pending_len_len = len_len, ch_pending_is_asn1 = False\<rparr>)))"

definition CBB_add_u8_length_prefixed :: "nat \<Rightarrow> (CBB, unit) op" where
  "CBB_add_u8_length_prefixed h = cbb_add_length_prefixed h 1"

definition CBB_add_u16_length_prefixed :: "nat \<Rightarrow> (CBB, unit) op" where
  "CBB_add_u16_length_prefixed h = cbb_add_length_prefixed h 2"

definition CBB_add_u24_length_prefixed :: "nat \<Rightarrow> (CBB, unit) op" where
  "CBB_add_u24_length_prefixed h = cbb_add_length_prefixed h 3"

definition cbb_add_u :: "nat \<Rightarrow> u64 \<Rightarrow> nat \<Rightarrow> (CBB, unit) op" where
  "cbb_add_u h v len_len = op_bind (CBB_flush h) (\<lambda>_. on_base (cbb_buffer_add_u v len_len))"

definition CBB_add_u8 :: "nat \<Rightarrow> u8 \<Rightarrow> (CBB, unit) op" where
  "CBB_add_u8 h v = cbb_add_u h (ucast v) 1"

definition CBB_add_u16 :: "nat \<Rightarrow> u16 \<Rightarrow> (CBB, unit) op" where
  "CBB_add_u16 h v = cbb_add_u h (ucast v) 2"

definition CBB_add_u16le :: "nat \<Rightarrow> u16 \<Rightarrow> (CBB, unit) op" where
  "CBB_add_u16le h v = CBB_add_u16 h (CRYPTO_bswap2 v)"

definition CBB_add_u24 :: "nat \<Rightarrow> u32 \<Rightarrow> (CBB, unit) op" where
  "CBB_add_u24 h v = cbb_add_u h (ucast v) 3"

definition CBB_add_u32 :: "nat \<Rightarrow> u32 \<Rightarrow> (CBB, unit) op" where
  "CBB_add_u32 h v = cbb_add_u h (ucast v) 4"

definition CBB_add_u32le :: "nat \<Rightarrow> u32 \<Rightarrow> (CBB, unit) op" where
  "CBB_add_u32le h v = CBB_add_u32 h (CRYPTO_bswap4 v)"

definition CBB_add_u64 :: "nat \<Rightarrow> u64 \<Rightarrow> (CBB, unit) op" where
  "CBB_add_u64 h v = cbb_add_u h v 8"

definition CBB_add_u64le :: "nat \<Rightarrow> u64 \<Rightarrow> (CBB, unit) op" where
  "CBB_add_u64le h v = CBB_add_u64 h (CRYPTO_bswap8 v)"

text \<open>The bytes \<open>CBB_add_space\<close> hands out are filled by the caller with \<open>fill\<close>.\<close>

definition CBB_add_space :: "nat \<Rightarrow> byte list \<Rightarrow> (CBB, unit) op" where
  "CBB_add_space h fill = op_bind (CBB_flush h) (\<lambda>_.
     on_base (op_bind (cbb_buffer_add (length fill)) (\<lambda>off base.
       (Some (), base\<lparr>bb_buf := take off (bb_buf base) @ fill\<rparr>))))"

definition CBB_add_bytes :: "nat \<Rightarrow> byte list \<Rightarrow> (CBB, unit) op" where
  "CBB_add_bytes h data = op_bind (CBB_flush h) (\<lambda>_.
     on_base (op_bind (cbb_buffer_add (length data)) (\<lambda>dest base.
       (Some (), base\<lparr>bb_buf := take dest (bb_buf base) @ data\<rparr>))))"

definition CBB_add_zeros :: "nat \<Rightarrow> nat \<Rightarrow> (CBB, unit) op" where
  "CBB_add_zeros h n = CBB_add_space h (replicate n 0)"

definition CBB_reserve :: "nat \<Rightarrow> nat \<Rightarrow> (CBB, nat) op" where
  "CBB_reserve h n = op_bind (CBB_flush h) (\<lambda>_. on_base (cbb_buffer_reserve n))"

text \<open>\<open>written\<close> is what the caller put into the bytes it had reserved.\<close>

definition CBB_did_write :: "nat \<Rightarrow> byte list \<Rightarrow> (CBB, unit) op" where
  "CBB_did_write h written cbb =
     on_base (\<lambda>base.
       let len = length (bb_buf base); newlen = (len + length written) mod 2 ^ 64 in
       if length (cbb_children cbb) > h \<or> newlen < len \<or> newlen > bb_cap base then (None, base)
       else (Some (), base\<lparr>bb_buf := bb_buf base @ written\<rparr>)) cbb"

definition CBB_discard_child :: "nat \<Rightarrow> CBB \<Rightarrow> CBB" where
  "CBB_discard_child h cbb =
     (if length (cbb_children cbb) \<le> h then cbb
      else cbb\<lparr>cbb_base := map_option (\<lambda>base. base\<lparr>bb_buf :=
                  take (ch_offset (cbb_children cbb ! h)) (bb_buf base)\<rparr>) (cbb_base cbb),
               cbb_children := take h (cbb_children cbb)\<rparr>)"

section \<open>ASN.1\<close>

function base128_len_len :: "u64 \<Rightarrow> nat" where
  "base128_len_len copy = (if copy > 0 then Suc (base128_len_len (drop_bit 7 copy)) else 0)"
  by pat_completeness auto

termination
proof (relation "measure unat")
  fix copy :: u64
  assume "copy > 0"
  then have "0 < unat copy" by (simp add: word_less_nat_alt)
  then show "(drop_bit 7 copy, copy) \<in> measure unat" by (simp add: unat_drop_bit)
qed simp

declare base128_len_len.simps [simp del]

primrec add_base128_loop :: "nat \<Rightarrow> nat \<Rightarrow> u64 \<Rightarrow> (CBB, unit) op" where
  "add_base128_loop h 0 v = op_return ()"
| "add_base128_loop h (Suc i) v =
     (let byte = ucast (drop_bit (7 * i) v) AND 0x7f;
          byte = (if i \<noteq> 0 then byte OR 0x80 else byte)
      in op_bind (CBB_add_u8 h byte) (\<lambda>_. add_base128_loop h i v))"

definition add_base128_integer :: "nat \<Rightarrow> u64 \<Rightarrow> (CBB, unit) op" where
  "add_base128_integer h v =
     (let len_len = base128_len_len v; len_len = (if len_len = 0 then 1 else len_len)
      in add_base128_loop h len_len v)"

definition CBB_add_asn1 :: "nat \<Rightarrow> u32 \<Rightarrow> (CBB, unit) op" where
  "CBB_add_asn1 h tag =
     op_bind (CBB_flush h) (\<lambda>_.
     let tag_bits = ucast (drop_bit CBS_ASN1_TAG_SHIFT tag AND 0xe0) :: u8;
         tag_number = tag AND CBS_ASN1_TAG_NUMBER_MASK
     in
     op_bind (if tag_number \<ge> 0x1f
              then op_bind (CBB_add_u8 h (tag_bits OR 0x1f)) (\<lambda>_. add_base128_integer h (ucast tag_number))
              else CBB_add_u8 h (tag_bits OR ucast tag_number)) (\<lambda>_.
     op_bind cbb_base_len (\<lambda>offset.
     op_bind (CBB_add_u8 h 0) (\<lambda>_.
     cbb_open_child h \<lparr>ch_offset = offset, ch_pending_len_len = 1, ch_pending_is_asn1 = True\<rparr>))))"

text \<open>The loop over the eight bytes of the value; \<open>child\<close> is the open INTEGER.\<close>

primrec add_asn1_uint64_loop :: "nat \<Rightarrow> u64 \<Rightarrow> nat list \<Rightarrow> bool \<Rightarrow> (CBB, bool) op" where
  "add_asn1_uint64_loop child v [] started = op_return started"
| "add_asn1_uint64_loop child v (i # is) started =
     (let byte = ucast (drop_bit (8 * (7 - i)) v AND 0xff) :: u8 in
      if \<not> started \<and> byte = 0 then add_asn1_uint64_loop child v is started
      else op_bind (if \<not> started \<and> byte AND 0x80 \<noteq> 0 then CBB_add_u8 child 0 else op_return ()) (\<lambda>_.
           op_bind (CBB_add_u8 child byte) (\<lambda>_. add_asn1_uint64_loop child v is True)))"

definition CBB_add_asn1_uint64 :: "nat \<Rightarrow> u64 \<Rightarrow> (CBB, unit) op" where
  "CBB_add_asn1_uint64 h v =
     op_bind (CBB_add_asn1 h CBS_ASN1_INTEGER) (\<lambda>_.
     op_bind (add_asn1_uint64_loop (h + 1) v [0..<8] False) (\<lambda>started.
     op_bind (if \<not> started then CBB_add_u8 (h + 1) 0 else op_return ()) (\<lambda>_.
     CBB_flush h)))"

text \<open>\<open>u.bytes\<close>: the bytes of an \<open>int64_t\<close> in memory order on a little-endian machine.\<close>

definition le_bytes_of_word :: "u64 \<Rightarrow> byte list" where
  "le_bytes_of_word v = rev (be_bytes 8 (unat v))"

fun int64_start :: "byte list \<Rightarrow> nat \<Rightarrow> nat" where
  "int64_start bytes 0 = 0"
| "int64_start bytes (Suc start) =
     (if bytes ! Suc start = 0xff \<and> bytes ! start AND 0x80 \<noteq> 0 then int64_start bytes start
      else Suc start)"

primrec add_bytes_down :: "nat \<Rightarrow> byte list \<Rightarrow> nat \<Rightarrow> (CBB, unit) op" where
  "add_bytes_down child bytes 0 = CBB_add_u8 child (bytes ! 0)"
| "add_bytes_down child bytes (Suc i) =
     op_bind (CBB_add_u8 child (bytes ! Suc i)) (\<lambda>_. add_bytes_down child bytes i)"

definition CBB_add_asn1_int64 :: "nat \<Rightarrow> u64 \<Rightarrow> (CBB, unit) op" where
  "CBB_add_asn1_int64 h v =
     (if sint v \<ge> 0 then CBB_add_asn1_uint64 h v
      else
        let bytes = le_bytes_of_word v; start = int64_start bytes 7 in
        op_bind (CBB_add_asn1 h CBS_ASN1_INTEGER) (\<lambda>_.
        op_bind (add_bytes_down (h + 1) bytes start) (\<lambda>_.
        CBB_flush h)))"

definition CBB_add_asn1_octet_string :: "nat \<Rightarrow> byte list \<Rightarrow> (CBB, unit) op" where
  "CBB_add_asn1_octet_string h data =
     op_bind (CBB_add_asn1 h CBS_ASN1_OCTETSTRING) (\<lambda>_.
     op_bind (CBB_add_bytes (h + 1) data) (\<lambda>_.
     CBB_flush h))"

definition CBB_add_asn1_bool :: "nat \<Rightarrow> bool \<Rightarrow> (CBB, unit) op" where
  "CBB_add_asn1_bool h v =
     op_bind (CBB_add_asn1 h CBS_ASN1_BOOLEAN) (\<lambda>_.
     op_bind (CBB_add_u8 (h + 1) (if v then 0xff else 0)) (\<lambda>_.
     CBB_flush h))"

end
