(* ===== verification/CBB_Refine.thy ===== *)
theory CBB_Refine
  imports Bytestring_CBB
begin

text \<open>
  The contract of a \<open>CBB\<close>. Abstractly a builder is a stack of frames: the bytes written to
  the root, and for every open child its kind and the bytes written to it so far. Closing a
  frame puts the encoded length in front of its contents. The concrete state keeps
  placeholders of guessed size in one buffer and moves contents when the guess was wrong;
  the relation \<open>cbb_rep\<close> connects the two, and the lemmas show that flushing and adding
  refine closing and appending.
\<close>

section \<open>Frames\<close>

datatype frame_kind = Len_Frame nat | Asn1_Frame

type_synonym frame = "frame_kind \<times> byte list"

fun hole :: "frame_kind \<Rightarrow> nat" where
  "hole (Len_Frame n) = n"
| "hole Asn1_Frame = 1"

text \<open>The encoding of the contents of a closed frame, and whether the length is encodable.\<close>

fun frame_bytes :: "frame_kind \<Rightarrow> byte list \<Rightarrow> byte list option" where
  "frame_bytes (Len_Frame n) c =
     (if length c < 256 ^ n then Some (be_bytes n (length c) @ c) else None)"
| "frame_bytes Asn1_Frame c =
     (if length c \<le> 0xfffffffe then Some (der_len (length c) @ c) else None)"

fun close_frames :: "frame list \<Rightarrow> byte list option" where
  "close_frames [] = Some []"
| "close_frames ((k, c) # fs) = Option.bind (close_frames fs) (\<lambda>d. frame_bytes k (c @ d))"

text \<open>The buffer while the frames are open, and the children that describe it.\<close>

fun layout :: "frame list \<Rightarrow> byte list" where
  "layout [] = []"
| "layout ((k, c) # fs) = replicate (hole k) 0 @ c @ layout fs"

fun kids :: "nat \<Rightarrow> frame list \<Rightarrow> cbb_child list" where
  "kids off [] = []"
| "kids off ((k, c) # fs) =
     \<lparr>ch_offset = off, ch_pending_len_len = hole k, ch_pending_is_asn1 = (k = Asn1_Frame)\<rparr>
       # kids (off + hole k + length c) fs"

definition frame_ok :: "frame \<Rightarrow> bool" where
  "frame_ok f = (case fst f of Len_Frame n \<Rightarrow> 1 \<le> n \<and> n \<le> 3 | Asn1_Frame \<Rightarrow> True)"

lemma length_kids [simp]: "length (kids off fs) = length fs"
  by (induction off fs rule: kids.induct) auto

lemma kids_append: "kids off (fs @ gs) = kids off fs @ kids (off + length (layout fs)) gs"
  by (induction off fs rule: kids.induct) (auto simp: add.assoc)

lemma layout_append: "layout (fs @ gs) = layout fs @ layout gs"
  by (induction fs rule: layout.induct) auto

section \<open>Storing lengths\<close>

lemma store_be_eq:
  assumes "length old = n"
  shows "store_be (length pre) n v (pre @ old @ post) =
      (pre @ be_bytes n (unat v) @ post, of_nat (unat v div 256 ^ n))"
  using assms
proof (induction n arbitrary: v old post)
  case 0
  then show ?case by simp
next
  case (Suc n)
  obtain xs x where old: "old = xs @ [x]" "length xs = n"
    using Suc.prems(1) by (metis length_Suc_conv_rev)
  have upd: "(pre @ old @ post)[length pre + n := ucast v] = pre @ xs @ (ucast v # post)"
    using old by (simp add: list_update_append)
  have "unat v div 256 div 256 ^ n = unat v div 256 ^ Suc n" by (simp only: power_Suc div_mult2_eq)
  then have "store_be (length pre) n (drop_bit 8 v) (pre @ xs @ ucast v # post) =
      (pre @ be_bytes n (unat v div 256) @ ucast v # post, of_nat (unat v div 256 ^ Suc n))"
    using Suc.IH [of xs "drop_bit 8 v" "ucast v # post"] old by (simp add: unat_drop_bit del: of_nat_unat)
  moreover have "store_be (length pre) (Suc n) v (pre @ old @ post) =
      store_be (length pre) n (drop_bit 8 v) (pre @ xs @ ucast v # post)"
    by (simp add: upd)
  ultimately show ?case by simp
qed

section \<open>Growing the buffer\<close>

text \<open>Two buffers in the same environment, and a buffer that the allocator never refuses.\<close>

definition same_env :: "cbb_buffer \<Rightarrow> cbb_buffer \<Rightarrow> bool" where
  "same_env b b' \<longleftrightarrow> bb_can_resize b' = bb_can_resize b \<and> bb_alloc b' = bb_alloc b"

definition growable :: "cbb_buffer \<Rightarrow> bool" where
  "growable b \<longleftrightarrow> bb_can_resize b \<and> (\<forall>n. bb_alloc b n)"

definition buffer_ok :: "cbb_buffer \<Rightarrow> bool" where
  "buffer_ok b \<longleftrightarrow> length (bb_buf b) \<le> bb_cap b \<and> bb_cap b < 2 ^ 64"

lemma same_env_refl [simp]: "same_env b b"
  by (simp add: same_env_def)

lemma same_env_trans [trans]: "same_env a b \<Longrightarrow> same_env b c \<Longrightarrow> same_env a c"
  by (simp add: same_env_def)

lemma same_env_growable: "same_env b b' \<Longrightarrow> growable b' = growable b"
  by (simp add: same_env_def growable_def)

lemma same_env_update [simp]:
  "same_env b (b'\<lparr>bb_buf := x\<rparr>) = same_env b b'" "same_env b (b'\<lparr>bb_cap := n\<rparr>) = same_env b b'"
  "same_env b (b'\<lparr>bb_error := e\<rparr>) = same_env b b'"
  by (simp_all add: same_env_def)

lemma cbb_buffer_add_Some:
  assumes "cbb_buffer_add n b = (Some off, b')"
  shows "off = length (bb_buf b) \<and> bb_buf b' = bb_buf b @ replicate n 0 \<and> bb_error b' = bb_error b \<and> same_env b b'"
  using assms
  by (auto simp: cbb_buffer_add_def cbb_buffer_reserve_def op_bind_eq_Some cbb_error_def Let_def
      split: if_splits)

lemma cbb_buffer_add_None:
  assumes "cbb_buffer_add n b = (None, b')"
  shows "b' = b\<lparr>bb_error := True\<rparr>"
  using assms
  by (auto simp: cbb_buffer_add_def cbb_buffer_reserve_def op_bind_def cbb_error_def Let_def
      split: if_splits prod.splits option.splits)

lemma cbb_buffer_add_ok:
  assumes "buffer_ok b" and "cbb_buffer_add n b = (r, b')" and "n < 2 ^ 64"
  shows "buffer_ok b'"
proof -
  have len: "length (bb_buf b) < 2 ^ 64" using assms(1) by (simp add: buffer_ok_def)
  have wrap: "\<not> (length (bb_buf b) + n) mod 2 ^ 64 < length (bb_buf b) \<Longrightarrow>
      (length (bb_buf b) + n) mod 2 ^ 64 = length (bb_buf b) + n"
    using len assms(3) by (cases "length (bb_buf b) + n < 2 ^ 64") (simp_all add: not_less le_mod_geq)
  show ?thesis
    using assms(1,2) wrap len
    by (auto simp: cbb_buffer_add_def cbb_buffer_reserve_def op_bind_def cbb_error_def Let_def buffer_ok_def
        not_less split: if_splits prod.splits option.splits)
qed

lemma cbb_buffer_add_growable:
  assumes "growable b" and "length (bb_buf b) + n < 2 ^ 64"
  shows "\<exists>b'. cbb_buffer_add n b = (Some (length (bb_buf b)), b')"
proof -
  have "(length (bb_buf b) + n) mod 2 ^ 64 = length (bb_buf b) + n" using assms(2) by simp
  then show ?thesis
    using assms(1) by (auto simp: cbb_buffer_add_def cbb_buffer_reserve_def op_bind_def growable_def Let_def)
qed

section \<open>Closing one frame\<close>

lemma be_size_cases:
  "n < 2 ^ 32 \<Longrightarrow> be_size n =
    (if n > 0xffffff then 4 else if n > 0xffff then 3 else if n > 0xff then 2 else 1)"
  by (rule be_size_unique) auto

lemma cbb_asn1_length_eq:
  "cbb_asn1_length n =
    (if n > 0xfffffffe then None
     else Some (length (der_len n), hd (der_len n), if n < 128 then 0 else n))"
  using be_size_cases [of n] by (auto simp: cbb_asn1_length_def der_len_def)

lemma store_be_length:
  assumes "length old = n" and "len < 2 ^ 64"
  shows "store_be (length pre) n (of_nat len) (pre @ old @ post) =
    (pre @ be_bytes n len @ post, of_nat (len div 256 ^ n))"
proof -
  have "unat (of_nat len :: u64) = len" using assms(2) by (intro unat_of_nat_small) simp
  then show ?thesis using store_be_eq [OF assms(1), of pre "of_nat len" post] by simp
qed

lemma of_nat_u64_eq_0:
  assumes "n < 2 ^ 64"
  shows "(of_nat n :: u64) = 0 \<longleftrightarrow> n = 0"
proof -
  have n: "unat (of_nat n :: u64) = n" using assms by (intro unat_of_nat_small) simp
  show ?thesis
  proof
    assume "(of_nat n :: u64) = 0"
    then have "unat (of_nat n :: u64) = unat (0 :: u64)" by (rule arg_cong)
    then show "n = 0" unfolding n by simp
  qed simp
qed

text \<open>What is put in front of the contents of a closed frame.\<close>

lemma frame_bytes_length: "frame_bytes k c = Some x \<Longrightarrow> hole k + length c \<le> length x"
  by (cases k) (auto simp: der_len_def split: if_splits)

lemma patch_len_frame:
  assumes buf: "bb_buf b = pre @ replicate n 0 @ c" and len: "length (bb_buf b) < 2 ^ 64"
    and err: "\<not> bb_error b"
  defines "ch \<equiv> \<lparr>ch_offset = length pre, ch_pending_len_len = n, ch_pending_is_asn1 = False\<rparr>"
  shows "\<exists>b'. same_env b b' \<and> bb_cap b' = bb_cap b \<and>
    cbb_patch_child ch b = (length c < 256 ^ n, ch, b') \<and>
    (if length c < 256 ^ n then \<not> bb_error b' \<and> bb_buf b' = pre @ be_bytes n (length c) @ c
     else bb_error b') \<and> length (bb_buf b') = length (bb_buf b)"
proof -
  have start: "(length pre + n) mod 2 ^ 64 = length pre + n" using buf len by simp
  have c: "length c < 2 ^ 64" using buf len by simp
  have st: "store_be (length pre) n (of_nat (length c)) (pre @ replicate n 0 @ c) =
      (pre @ be_bytes n (length c) @ c, of_nat (length c div 256 ^ n))"
    using c by (intro store_be_length) simp_all
  have "length c div 256 ^ n < 2 ^ 64" using c div_le_dividend le_less_trans by blast
  then have z: "(of_nat (length c div 256 ^ n) :: u64) = 0 \<longleftrightarrow> length c < 256 ^ n"
    by (simp only: of_nat_u64_eq_0) (simp add: div_eq_0_iff)
  show ?thesis
    using start st z err
    by (auto simp: cbb_patch_child_def ch_def Let_def buf)
qed

lemma memmove_gap:
  "memmove (pre @ c @ replicate n x) (length pre + n) (length pre) (length c) =
    pre @ take n (c @ replicate n x) @ c"
  by (simp add: memmove_def)

lemma patch_asn1_frame:
  assumes buf: "bb_buf b = pre @ [0] @ c" and ok: "buffer_ok b" and err: "\<not> bb_error b"
    and patch: "cbb_patch_child \<lparr>ch_offset = length pre, ch_pending_len_len = 1, ch_pending_is_asn1 = True\<rparr> b
      = (r, ch', b')"
  shows "same_env b b' \<and> buffer_ok b' \<and>
    (if r then \<not> bb_error b' \<and> length c \<le> 0xfffffffe \<and> bb_buf b' = pre @ der_len (length c) @ c
     else bb_error b') \<and>
    (growable b \<longrightarrow> length c \<le> 0xfffffffe \<longrightarrow> length (pre @ der_len (length c) @ c) < 2 ^ 64 \<longrightarrow> r)"
proof -
  let ?n = "length c"
  have len: "length pre + 1 + ?n < 2 ^ 64" using buf ok by (simp add: buffer_ok_def)
  have start: "(length pre + 1) mod 2 ^ 64 = length pre + 1" using len by simp
  have upd: "(pre @ (0 :: byte) # xs)[length pre := v] = pre @ v # xs" for xs v by simp
  consider (large) "?n > 0xfffffffe" | (short) "?n < 128" | (long) "128 \<le> ?n" "?n \<le> 0xfffffffe" by linarith
  then show ?thesis
  proof cases
    case large
    then show ?thesis using patch start len ok
      by (auto simp: cbb_patch_child_def cbb_asn1_length_eq buf Let_def buffer_ok_def)
  next
    case short
    then show ?thesis using patch start len ok err
      by (auto simp: cbb_patch_child_def cbb_asn1_length_eq buf Let_def buffer_ok_def der_len_def)
  next
    case long
    define k where "k = be_size ?n"
    have k: "1 \<le> k" using be_size_pos by (simp only: k_def)
    have dl: "der_len ?n = of_nat (128 + k) # be_bytes k ?n" "length (der_len ?n) = Suc k"
      "hd (der_len ?n) = of_nat (128 + k)"
      using long by (simp_all add: der_len_def k_def)
    have alen: "cbb_asn1_length ?n = Some (Suc k, of_nat (128 + k), ?n)"
      using long dl by (simp add: cbb_asn1_length_eq)
    let ?ch = "\<lparr>ch_offset = length pre, ch_pending_len_len = 1, ch_pending_is_asn1 = True\<rparr>"
    obtain out b1 where add: "cbb_buffer_add k b = (out, b1)" by fastforce
    have b1: "buffer_ok b1" "same_env b b1"
      using cbb_buffer_add_ok [OF ok add] k be_size_le [of ?n 4] long len
        cbb_buffer_add_Some cbb_buffer_add_None add
      by (cases out; force simp: k_def)+
    have split: "length (bb_buf b) = length pre + 1 + ?n" using buf by simp
    show ?thesis
    proof (cases out)
      case None
      have "cbb_patch_child ?ch b = (False, ?ch, b1\<lparr>bb_error := True\<rparr>)"
        using start len k add None
        by (simp add: cbb_patch_child_def alen split Let_def op_bind_def)
      moreover have "\<not> (growable b \<and> length (pre @ der_len ?n @ c) < 2 ^ 64)"
        using cbb_buffer_add_growable [of b k] add None dl split by auto
      ultimately show ?thesis using patch b1 by (auto simp: buffer_ok_def)
    next
      case (Some off)
      then have b1_buf: "bb_buf b1 = pre @ [0] @ c @ replicate k 0" and e1: "\<not> bb_error b1"
        using cbb_buffer_add_Some [of k b off b1] add buf err by simp_all
      define g where "g = take k (c @ replicate k 0)"
      have g: "length g = k" by (simp add: g_def)
      have move: "memmove (bb_buf b1) (length pre + 1 + k) (length pre + 1) ?n = pre @ [0] @ g @ c"
        using memmove_gap [of "pre @ [0]" c k 0] by (simp add: b1_buf g_def)
      have st: "store_be (Suc (length pre)) k (of_nat ?n) (pre @ of_nat (128 + k) # g @ c) =
          (pre @ der_len ?n @ c, of_nat (?n div 256 ^ k))"
        using store_be_length [OF g, of ?n "pre @ [of_nat (128 + k)]" c] len dl by simp
      have z: "?n div 256 ^ k = 0" using be_size_upper [of ?n] by (simp add: k_def div_eq_0_iff)
      have eval: "cbb_patch_child ?ch b = (True, ?ch\<lparr>ch_offset := length pre + 1, ch_pending_len_len := k\<rparr>,
          b1\<lparr>bb_buf := pre @ der_len ?n @ c\<rparr>)"
        using start len k add Some move st z
        by (simp add: cbb_patch_child_def alen split Let_def op_bind_def upd)
      have "length (pre @ der_len ?n @ c) = length (bb_buf b1)"
        using dl by (simp add: b1_buf)
      then show ?thesis using eval patch b1 e1 long by (auto simp: buffer_ok_def)
    qed
  qed
qed

section \<open>Closing all open frames\<close>

text \<open>
  One frame of either kind: the patched buffer holds the encoded frame, or the length was not
  encodable (or memory ran out) and the error flag is set.
\<close>

lemma patch_frame:
  assumes buf: "bb_buf b = pre @ replicate (hole k) 0 @ c" and ok: "buffer_ok b" and err: "\<not> bb_error b"
    and patch: "cbb_patch_child \<lparr>ch_offset = length pre, ch_pending_len_len = hole k,
        ch_pending_is_asn1 = (k = Asn1_Frame)\<rparr> b = (r, ch', b')"
  shows "same_env b b' \<and> buffer_ok b' \<and>
    (if r then \<not> bb_error b' \<and> (\<exists>x. frame_bytes k c = Some x \<and> bb_buf b' = pre @ x) else bb_error b') \<and>
    (growable b \<longrightarrow> (\<exists>x. frame_bytes k c = Some x \<and> length (pre @ x) < 2 ^ 64) \<longrightarrow> r)"
proof (cases k)
  case (Len_Frame n)
  have "length (bb_buf b) < 2 ^ 64" using ok by (simp add: buffer_ok_def)
  then show ?thesis
    using patch_len_frame [of b pre n c] Len_Frame buf err patch ok
    by (auto simp: buffer_ok_def split: if_splits)
next
  case Asn1_Frame
  then show ?thesis
    using patch_asn1_frame [of b pre c r ch' b'] buf ok err patch
    by (auto split: if_splits)
qed

lemma flush_chain_frames:
  assumes "bb_buf b = pre @ layout fs" and "buffer_ok b" and "\<not> bb_error b" and "list_all frame_ok fs"
    and "CBB_flush_chain (kids (length pre) fs) b = (r, cs, b')"
  shows "same_env b b' \<and> buffer_ok b' \<and>
    (if r then \<not> bb_error b' \<and> cs = [] \<and> (\<exists>d. close_frames fs = Some d \<and> bb_buf b' = pre @ d)
     else bb_error b') \<and>
    (growable b \<longrightarrow> (\<exists>d. close_frames fs = Some d \<and> length (pre @ d) < 2 ^ 64) \<longrightarrow> r)"
  using assms
proof (induction fs arbitrary: pre b r cs b')
  case Nil
  then show ?case by auto
next
  case (Cons f fs)
  obtain k c where f: "f = (k, c)" by fastforce
  have hole: "hole k \<noteq> 0" using Cons.prems(4) f by (cases k) (auto simp: frame_ok_def)
  let ?pre = "pre @ replicate (hole k) 0 @ c"
  let ?ch = "\<lparr>ch_offset = length pre, ch_pending_len_len = hole k, ch_pending_is_asn1 = (k = Asn1_Frame)\<rparr>"
  obtain r1 cs1 b1 where inner: "CBB_flush_chain (kids (length ?pre) fs) b = (r1, cs1, b1)"
    by (metis prod_cases3)
  note IH = Cons.IH [OF _ Cons.prems(2,3) _ inner]
  have IH: "same_env b b1 \<and> buffer_ok b1 \<and>
    (if r1 then \<not> bb_error b1 \<and> cs1 = [] \<and> (\<exists>d. close_frames fs = Some d \<and> bb_buf b1 = ?pre @ d)
     else bb_error b1) \<and>
    (growable b \<longrightarrow> (\<exists>d. close_frames fs = Some d \<and> length (?pre @ d) < 2 ^ 64) \<longrightarrow> r1)"
    using Cons.prems(1,4) f by (intro IH) simp_all
  have step: "CBB_flush_chain (kids (length pre) (f # fs)) b =
      (if r1 then (case cbb_patch_child ?ch b1 of
         (False, child, base) \<Rightarrow> (False, child # cs1, base) | (True, child, base) \<Rightarrow> (True, [], base))
       else (False, ?ch # cs1, b1\<lparr>bb_error := True\<rparr>))"
    using inner Cons.prems(3) hole by (simp add: f add.assoc)
  have grow: "length (?pre @ d) \<le> length (pre @ x)" if "frame_bytes k (c @ d) = Some x" for d x
    using frame_bytes_length [OF that] by simp
  show ?case
  proof (cases r1)
    case False
    then have "\<not> (growable b \<and> (\<exists>x. close_frames (f # fs) = Some x \<and> length (pre @ x) < 2 ^ 64))"
      using IH grow by (fastforce simp: f Option.bind_eq_Some_conv)
    then show ?thesis
      using IH False step Cons.prems(5) by (auto simp: buffer_ok_def)
  next
    case True
    then obtain d where d: "close_frames fs = Some d" "bb_buf b1 = ?pre @ d" using IH by auto
    obtain r2 ch2 b2 where patch: "cbb_patch_child ?ch b1 = (r2, ch2, b2)" by (metis prod_cases3)
    have P: "same_env b1 b2 \<and> buffer_ok b2 \<and>
      (if r2 then \<not> bb_error b2 \<and> (\<exists>x. frame_bytes k (c @ d) = Some x \<and> bb_buf b2 = pre @ x) else bb_error b2) \<and>
      (growable b1 \<longrightarrow> (\<exists>x. frame_bytes k (c @ d) = Some x \<and> length (pre @ x) < 2 ^ 64) \<longrightarrow> r2)"
      using d IH True by (intro patch_frame [OF _ _ _ patch]) auto
    have "growable b1 = growable b" using IH by (auto simp: same_env_growable)
    then show ?thesis
      using P IH d True step patch Cons.prems(5) by (auto simp: f same_env_def split: bool.splits if_splits)
  qed
qed

section \<open>The abstract builder\<close>

text \<open>The bytes of the root and the stack of open frames.\<close>

type_synonym cbb_abs = "byte list \<times> frame list"

type_synonym 'a abs_op = "cbb_abs \<Rightarrow> ('a \<times> cbb_abs) option"

definition abs_len :: "cbb_abs \<Rightarrow> nat" where
  "abs_len A = length (fst A) + length (layout (snd A))"

text \<open>Bytes are appended to the innermost frame.\<close>

definition append_top :: "byte list \<Rightarrow> cbb_abs \<Rightarrow> cbb_abs" where
  "append_top d A =
     (case A of (root, fs) \<Rightarrow>
        if fs = [] then (root @ d, []) else (root, butlast fs @ [(fst (last fs), snd (last fs) @ d)]))"

definition abs_return :: "'a \<Rightarrow> 'a abs_op" where
  "abs_return a = (\<lambda>A. Some (a, A))"

definition abs_bind :: "'a abs_op \<Rightarrow> ('a \<Rightarrow> 'b abs_op) \<Rightarrow> 'b abs_op" where
  "abs_bind f g = (\<lambda>A. Option.bind (f A) (\<lambda>(a, A'). g a A'))"

definition abs_flush :: "nat \<Rightarrow> unit abs_op" where
  "abs_flush h = (\<lambda>(root, fs).
     if h > length fs then None
     else map_option (\<lambda>d. ((), append_top d (root, take h fs))) (close_frames (drop h fs)))"

definition abs_append :: "byte list \<Rightarrow> unit abs_op" where
  "abs_append d = (\<lambda>A. Some ((), append_top d A))"

definition abs_open :: "frame_kind \<Rightarrow> unit abs_op" where
  "abs_open k = (\<lambda>(root, fs). Some ((), (root, fs @ [(k, [])])))"

definition abs_add :: "nat \<Rightarrow> byte list \<Rightarrow> unit abs_op" where
  "abs_add h d = abs_bind (abs_flush h) (\<lambda>_. abs_append d)"

section \<open>Representation\<close>

definition cbb_rep :: "CBB \<Rightarrow> cbb_buffer \<Rightarrow> cbb_abs \<Rightarrow> bool" where
  "cbb_rep cbb b A \<longleftrightarrow>
     cbb_base cbb = Some b \<and> \<not> bb_error b \<and> buffer_ok b \<and>
     bb_buf b = fst A @ layout (snd A) \<and> cbb_children cbb = kids (length (fst A)) (snd A) \<and>
     list_all frame_ok (snd A)"

lemma append_top_simps [simp]:
  "append_top d (root, []) = (root @ d, [])"
  "append_top d (root, fs @ [(k, c)]) = (root, fs @ [(k, c @ d)])"
  by (simp_all add: append_top_def)

lemma append_top_append [simp]: "append_top e (append_top d A) = append_top (d @ e) A"
  by (cases A; cases "snd A" rule: rev_cases) (auto simp: append_top_def)

lemma append_top_Nil [simp]: "append_top [] A = A"
  by (cases A; cases "snd A" rule: rev_cases) (auto simp: append_top_def)

lemma length_snd_append_top [simp]: "length (snd (append_top d A)) = length (snd A)"
  by (cases A; cases "snd A" rule: rev_cases) (auto simp: append_top_def)

text \<open>Appending to the innermost frame is appending to the buffer; the children stay.\<close>

lemma append_top_layout: "fst (append_top d A) @ layout (snd (append_top d A)) = fst A @ layout (snd A) @ d"
  by (cases A; cases "snd A" rule: rev_cases) (auto simp: append_top_def layout_append)

lemma append_top_kids: "kids (length (fst (append_top d A))) (snd (append_top d A)) = kids (length (fst A)) (snd A)"
  by (cases A; cases "snd A" rule: rev_cases) (auto simp: append_top_def kids_append)

lemma append_top_frame_ok: "list_all frame_ok (snd (append_top d A)) = list_all frame_ok (snd A)"
  by (cases A; cases "snd A" rule: rev_cases) (auto simp: append_top_def frame_ok_def)

lemma abs_len_append_top: "abs_len (append_top d A) = abs_len A + length d"
  using arg_cong [OF append_top_layout [of d A], of length] by (simp add: abs_len_def)

lemma cbb_rep_append_top:
  assumes "cbb_rep cbb b A" and "bb_buf b' = bb_buf b @ d" and "buffer_ok b'" and "\<not> bb_error b'"
    and "cbb_base cbb' = Some b'" and "cbb_children cbb' = cbb_children cbb"
  shows "cbb_rep cbb' b' (append_top d A)"
  using assms unfolding cbb_rep_def
  by (simp only: append_top_layout append_top_kids append_top_frame_ok append_assoc) simp

lemma kids_take: "h \<le> length fs \<Longrightarrow> take h (kids off fs) = kids off (take h fs)"
  using kids_append [of off "take h fs" "drop h fs"] by simp

lemma kids_drop: "h \<le> length fs \<Longrightarrow>
    drop h (kids off fs) = kids (off + length (layout (take h fs))) (drop h fs)"
  using kids_append [of off "take h fs" "drop h fs"] by simp

section \<open>Refinement of one operation\<close>

text \<open>
  The contract between an operation of the code and an abstract one: a success of the code
  is the abstract step; with memory to spare the code succeeds whenever the abstract step
  is defined; and the buffer never shrinks.
\<close>

locale cbb_op =
  fixes m :: "(CBB, 'a) op" and f :: "'a abs_op"
  assumes sound: "cbb_rep cbb b A \<Longrightarrow> m cbb = (Some a, cbb') \<Longrightarrow>
      \<exists>b' A'. f A = Some (a, A') \<and> cbb_rep cbb' b' A' \<and> same_env b b'"
    and total: "cbb_rep cbb b A \<Longrightarrow> growable b \<Longrightarrow> f A = Some (a, A') \<Longrightarrow> abs_len A' < 2 ^ 64 \<Longrightarrow>
      \<exists>cbb'. m cbb = (Some a, cbb')"
    and mono: "f A = Some (a, A') \<Longrightarrow> abs_len A \<le> abs_len A'"
begin

text \<open>With memory to spare, the code computes the abstract result.\<close>

lemma computes:
  assumes "cbb_rep cbb b A" and "growable b" and "f A = Some (a, A')" and "abs_len A' < 2 ^ 64"
  shows "\<exists>cbb' b'. m cbb = (Some a, cbb') \<and> cbb_rep cbb' b' A' \<and> same_env b b'"
proof -
  obtain cbb' where "m cbb = (Some a, cbb')" using total assms by blast
  then show ?thesis using sound [OF assms(1)] assms(3) by fastforce
qed

end

lemma cbb_op_return: "cbb_op (op_return a) (abs_return a)"
  by unfold_locales (auto simp: abs_return_def same_env_def)

lemma cbb_op_fail: "cbb_op op_fail (\<lambda>_. None)"
  by unfold_locales auto

lemma cbb_op_bind:
  assumes m: "cbb_op m f" and n: "\<And>a. cbb_op (n a) (g a)"
  shows "cbb_op (op_bind m n) (abs_bind f g)"
proof
  fix cbb b A a cbb'
  assume rep: "cbb_rep cbb b A" and "op_bind m n cbb = (Some a, cbb')"
  then obtain x c where "m cbb = (Some x, c)" "n x c = (Some a, cbb')" by (auto simp: op_bind_eq_Some)
  then show "\<exists>b' A'. abs_bind f g A = Some (a, A') \<and> cbb_rep cbb' b' A' \<and> same_env b b'"
    using cbb_op.sound [OF m rep] cbb_op.sound [OF n] unfolding abs_bind_def
    by (fastforce intro: same_env_trans)
next
  fix cbb b A a A'
  assume rep: "cbb_rep cbb b A" and grow: "growable b" and "abs_bind f g A = Some (a, A')"
    and len: "abs_len A' < 2 ^ 64"
  then obtain x A1 where f: "f A = Some (x, A1)" and g: "g x A1 = Some (a, A')"
    by (auto simp: abs_bind_def Option.bind_eq_Some_conv)
  have "abs_len A1 < 2 ^ 64" using cbb_op.mono [OF n g] len by simp
  then obtain c b1 where c: "m cbb = (Some x, c)" "cbb_rep c b1 A1" "same_env b b1"
    using cbb_op.computes [OF m rep grow f] by blast
  have "growable b1" using grow c(3) by (simp add: same_env_growable)
  then obtain cbb' where "n x c = (Some a, cbb')"
    using cbb_op.computes [OF n c(2) _ g len] by blast
  then show "\<exists>cbb'. op_bind m n cbb = (Some a, cbb')" using c(1) by auto
next
  fix A a A'
  assume "abs_bind f g A = Some (a, A')"
  then obtain x A1 where f: "f A = Some (x, A1)" and g: "g x A1 = Some (a, A')"
    by (auto simp: abs_bind_def Option.bind_eq_Some_conv)
  show "abs_len A \<le> abs_len A'" using cbb_op.mono [OF m f] cbb_op.mono [OF n g] by simp
qed

section \<open>Flushing and appending\<close>

lemma close_frames_length: "close_frames fs = Some d \<Longrightarrow> length (layout fs) \<le> length d"
proof (induction fs arbitrary: d rule: close_frames.induct)
  case (2 k c fs)
  then obtain e where "close_frames fs = Some e" "frame_bytes k (c @ e) = Some d"
    by (auto simp: Option.bind_eq_Some_conv)
  then show ?case using "2.IH" frame_bytes_length [of k "c @ e" d] by fastforce
qed simp

lemma CBB_flush_rep:
  assumes rep: "cbb_rep cbb b (root, fs)" and h: "h \<le> length fs"
    and flush: "CBB_flush_chain (drop h (cbb_children cbb)) b = (r, cs, b')"
  shows "same_env b b' \<and>
    (if r then \<exists>d. close_frames (drop h fs) = Some d \<and> cs = [] \<and>
       cbb_rep (cbb\<lparr>cbb_base := Some b', cbb_children := take h (cbb_children cbb)\<rparr>) b' (append_top d (root, take h fs))
     else bb_error b') \<and>
    (growable b \<longrightarrow> (\<exists>d. close_frames (drop h fs) = Some d \<and> length (root @ layout (take h fs) @ d) < 2 ^ 64) \<longrightarrow> r)"
proof -
  let ?pre = "root @ layout (take h fs)"
  have buf: "bb_buf b = ?pre @ layout (drop h fs)"
    using rep layout_append [of "take h fs" "drop h fs"] by (simp add: cbb_rep_def)
  have ok: "list_all frame_ok (take h fs)" "list_all frame_ok (drop h fs)"
    using rep list_all_append [of frame_ok "take h fs" "drop h fs"] by (simp_all add: cbb_rep_def)
  have kids: "cbb_children cbb = kids (length root) fs" using rep by (simp add: cbb_rep_def)
  have chain: "CBB_flush_chain (kids (length ?pre) (drop h fs)) b = (r, cs, b')"
    using flush h unfolding kids by (simp add: kids_drop)
  have F: "same_env b b' \<and> buffer_ok b' \<and>
    (if r then \<not> bb_error b' \<and> cs = [] \<and> (\<exists>d. close_frames (drop h fs) = Some d \<and> bb_buf b' = ?pre @ d)
     else bb_error b') \<and>
    (growable b \<longrightarrow> (\<exists>d. close_frames (drop h fs) = Some d \<and> length (?pre @ d) < 2 ^ 64) \<longrightarrow> r)"
    using rep ok(2) chain by (intro flush_chain_frames [OF buf]) (simp_all add: cbb_rep_def)
  have "cbb_rep (cbb\<lparr>cbb_base := Some b', cbb_children := take h (cbb_children cbb)\<rparr>) b' (append_top d (root, take h fs))"
    if r "bb_buf b' = ?pre @ d" for d
    using F that ok(1) h unfolding cbb_rep_def kids
    by (simp only: append_top_layout append_top_kids append_top_frame_ok) (simp add: kids_take)
  with F show ?thesis by auto
qed

interpretation flush: cbb_op "CBB_flush h" "abs_flush h"
proof
  fix cbb b A a cbb'
  assume rep: "cbb_rep cbb b A" and run: "CBB_flush h cbb = (Some a, cbb')"
  obtain root fs where A: "A = (root, fs)" by fastforce
  obtain r cs b' where flush: "CBB_flush_chain (drop h (cbb_children cbb)) b = (r, cs, b')"
    by (metis prod_cases3)
  have base: "cbb_base cbb = Some b" "length (cbb_children cbb) = length fs"
    using rep A by (simp_all add: cbb_rep_def)
  then have h: "h \<le> length fs" and r: "r" and cbb': "cbb' = cbb\<lparr>cbb_base := Some b', cbb_children := take h (cbb_children cbb) @ cs\<rparr>"
    using run flush by (auto simp: CBB_flush_def split: if_splits)
  from CBB_flush_rep [OF rep [unfolded A] h flush] r
  obtain d where d: "close_frames (drop h fs) = Some d" and cs: "cs = []" and env: "same_env b b'"
    and rep': "cbb_rep (cbb\<lparr>cbb_base := Some b', cbb_children := take h (cbb_children cbb)\<rparr>) b' (append_top d (root, take h fs))"
    by auto
  have "abs_flush h A = Some (a, append_top d (root, take h fs))"
    using h d by (simp add: abs_flush_def A)
  moreover have "cbb_rep cbb' b' (append_top d (root, take h fs))" using rep' by (simp add: cbb' cs)
  ultimately show "\<exists>b' A'. abs_flush h A = Some (a, A') \<and> cbb_rep cbb' b' A' \<and> same_env b b'"
    using env by blast
next
  fix cbb b A a A'
  assume rep: "cbb_rep cbb b A" and grow: "growable b" and f: "abs_flush h A = Some (a, A')"
    and len: "abs_len A' < 2 ^ 64"
  obtain root fs where A: "A = (root, fs)" by fastforce
  obtain r cs b' where flush: "CBB_flush_chain (drop h (cbb_children cbb)) b = (r, cs, b')"
    by (metis prod_cases3)
  have base: "cbb_base cbb = Some b" "length (cbb_children cbb) = length fs"
    using rep A by (simp_all add: cbb_rep_def)
  from f A obtain d where h: "h \<le> length fs" and d: "close_frames (drop h fs) = Some d"
    and A': "A' = append_top d (root, take h fs)"
    by (auto simp: abs_flush_def split: if_splits)
  have "length (root @ layout (take h fs) @ d) < 2 ^ 64"
    using len unfolding A' abs_len_append_top by (simp add: abs_len_def)
  with CBB_flush_rep [OF rep [unfolded A] h flush] grow d have r by auto
  with flush base h show "\<exists>cbb'. CBB_flush h cbb = (Some a, cbb')"
    by (simp add: CBB_flush_def)
next
  fix A a A'
  assume "abs_flush h A = Some (a, A')"
  then obtain root fs d where A: "A = (root, fs)" and h: "h \<le> length fs"
    and d: "close_frames (drop h fs) = Some d" and A': "A' = append_top d (root, take h fs)"
    by (cases A) (auto simp: abs_flush_def split: if_splits)
  have "layout fs = layout (take h fs) @ layout (drop h fs)"
    by (metis append_take_drop_id layout_append)
  then show "abs_len A \<le> abs_len A'"
    using close_frames_length [OF d] unfolding A' abs_len_append_top by (simp add: A abs_len_def)
qed

text \<open>An operation on the buffer that appends \<open>d\<close>.\<close>

lemma cbb_op_on_base_append:
  assumes some: "\<And>b b' a. m b = (Some a, b') \<Longrightarrow> \<not> bb_error b \<Longrightarrow> buffer_ok b \<Longrightarrow>
      bb_buf b' = bb_buf b @ d \<and> \<not> bb_error b' \<and> buffer_ok b' \<and> same_env b b'"
    and total: "\<And>b. growable b \<Longrightarrow> \<not> bb_error b \<Longrightarrow> length (bb_buf b) + length d < 2 ^ 64 \<Longrightarrow> \<exists>b'. m b = (Some (), b')"
  shows "cbb_op (on_base m) (abs_append d)"
proof
  fix cbb b A cbb' and a :: unit
  assume rep: "cbb_rep cbb b A" and run: "on_base m cbb = (Some a, cbb')"
  then obtain b' where m: "m b = (Some a, b')" and cbb': "cbb' = cbb\<lparr>cbb_base := Some b'\<rparr>"
    by (auto simp: on_base_def cbb_rep_def split: prod.splits)
  have "bb_buf b' = bb_buf b @ d \<and> \<not> bb_error b' \<and> buffer_ok b' \<and> same_env b b'"
    using rep by (intro some [OF m]) (simp_all add: cbb_rep_def)
  then show "\<exists>b' A'. abs_append d A = Some (a, A') \<and> cbb_rep cbb' b' A' \<and> same_env b b'"
    using cbb_rep_append_top [OF rep, of b' d cbb'] by (auto simp: abs_append_def cbb')
next
  fix cbb b A A' and a :: unit
  assume rep: "cbb_rep cbb b A" and grow: "growable b" and "abs_append d A = Some (a, A')"
    and len: "abs_len A' < 2 ^ 64"
  then have "A' = append_top d A" by (simp add: abs_append_def)
  then have "abs_len A + length d < 2 ^ 64" using len by (simp only: abs_len_append_top)
  moreover have "abs_len A = length (bb_buf b)" using rep by (simp add: cbb_rep_def abs_len_def)
  ultimately have fits: "length (bb_buf b) + length d < 2 ^ 64" by linarith
  have "\<not> bb_error b" using rep by (simp add: cbb_rep_def)
  from total [OF grow this fits] obtain b' where "m b = (Some (), b')" by blast
  then show "\<exists>cbb'. on_base m cbb = (Some a, cbb')"
    using rep by (auto simp: on_base_def cbb_rep_def)
next
  fix A A' and a :: unit
  assume "abs_append d A = Some (a, A')"
  then have "A' = append_top d A" by (simp add: abs_append_def)
  then show "abs_len A \<le> abs_len A'" by (simp add: abs_len_append_top)
qed

lemma cbb_op_on_base_bytes:
  assumes "length d < 2 ^ 64"
  shows "cbb_op (on_base (op_bind (cbb_buffer_add (length d)) (\<lambda>off base.
     (Some (), base\<lparr>bb_buf := take off (bb_buf base) @ d\<rparr>)))) (abs_append d)"
proof (rule cbb_op_on_base_append)
  fix b b' and a :: unit
  assume run: "op_bind (cbb_buffer_add (length d)) (\<lambda>off base.
     (Some (), base\<lparr>bb_buf := take off (bb_buf base) @ d\<rparr>)) b = (Some a, b')"
    and "\<not> bb_error b" and ok: "buffer_ok b"
  then obtain off b1 where add: "cbb_buffer_add (length d) b = (Some off, b1)"
    and b': "b' = b1\<lparr>bb_buf := take off (bb_buf b1) @ d\<rparr>" by (auto simp: op_bind_eq_Some)
  have "buffer_ok b1" using cbb_buffer_add_ok [OF ok add] assms by blast
  then show "bb_buf b' = bb_buf b @ d \<and> \<not> bb_error b' \<and> buffer_ok b' \<and> same_env b b'"
    using cbb_buffer_add_Some [OF add] \<open>\<not> bb_error b\<close> by (auto simp: b' buffer_ok_def)
next
  fix b
  assume "growable b" and "length (bb_buf b) + length d < 2 ^ 64"
  then show "\<exists>b'. op_bind (cbb_buffer_add (length d)) (\<lambda>off base.
     (Some (), base\<lparr>bb_buf := take off (bb_buf base) @ d\<rparr>)) b = (Some (), b')"
    using cbb_buffer_add_growable by fastforce
qed

end
