(* ===== verification/CBB_Ops.thy ===== *)
theory CBB_Ops
  imports CBB_Refine
begin

text \<open>
  Every adding operation of \<open>cbb.c\<close> refines its abstract counterpart: appending bytes to a
  frame, or opening a frame. The ASN.1 operations are built from these, so their contracts
  follow by composition.
\<close>

section \<open>Bytes and integers\<close>

lemma cbb_op_add_u:
  assumes n: "0 < n" "n \<le> 8"
  shows "cbb_op (on_base (cbb_buffer_add_u v n)) (if unat v < 256 ^ n then abs_append (be_bytes n (unat v)) else (\<lambda>_. None))"
proof -
  have st: "store_be (length (bb_buf b)) n v (bb_buf b @ replicate n 0) =
      (bb_buf b @ be_bytes n (unat v), of_nat (unat v div 256 ^ n))" for b
    using store_be_eq [of "replicate n 0" n "bb_buf b" v "[]"] by simp
  have "unat v div 256 ^ n < 2 ^ 64" using word_unat_lt [of v] div_le_dividend le_less_trans by (simp, blast)
  then have z: "(of_nat (unat v div 256 ^ n) :: u64) = 0 \<longleftrightarrow> unat v < 256 ^ n"
    by (simp only: of_nat_u64_eq_0) (simp add: div_eq_0_iff)
  show ?thesis
  proof (cases "unat v < 256 ^ n")
    case True
    have "cbb_op (on_base (cbb_buffer_add_u v n)) (abs_append (be_bytes n (unat v)))"
    proof (rule cbb_op_on_base_append)
      fix b b' and a :: unit
      assume run: "cbb_buffer_add_u v n b = (Some a, b')" and err: "\<not> bb_error b" and ok: "buffer_ok b"
      then obtain off b1 where add: "cbb_buffer_add n b = (Some off, b1)"
        using n by (auto simp: cbb_buffer_add_u_def op_bind_eq_Some)
      note b1 = cbb_buffer_add_Some [OF add]
      have "buffer_ok b1" using cbb_buffer_add_ok [OF ok add] n by simp
      moreover have "b' = b1\<lparr>bb_buf := bb_buf b @ be_bytes n (unat v)\<rparr>"
        using run n add st [of b] z True b1 by (simp add: cbb_buffer_add_u_def op_bind_def split: prod.splits)
      ultimately show "bb_buf b' = bb_buf b @ be_bytes n (unat v) \<and> \<not> bb_error b' \<and> buffer_ok b' \<and> same_env b b'"
        using b1 err by (simp add: buffer_ok_def)
    next
      fix b assume grow: "growable b" and "length (bb_buf b) + length (be_bytes n (unat v)) < 2 ^ 64"
      then obtain b1 where add: "cbb_buffer_add n b = (Some (length (bb_buf b)), b1)"
        using cbb_buffer_add_growable [OF grow] by auto
      show "\<exists>b'. cbb_buffer_add_u v n b = (Some (), b')"
        using add cbb_buffer_add_Some [OF add] st [of b] z True
        by (auto simp: cbb_buffer_add_u_def op_bind_def)
    qed
    then show ?thesis using True by simp
  next
    case False
    have no: "fst (cbb_buffer_add_u v n b) = None" for b
    proof (cases "cbb_buffer_add n b")
      case (Pair r b1)
      show ?thesis
      proof (cases r)
        case None then show ?thesis using Pair n by (simp add: cbb_buffer_add_u_def op_bind_def)
      next
        case (Some off)
        then show ?thesis using Pair cbb_buffer_add_Some [of n b off b1] st [of b] z False n
          by (simp add: cbb_buffer_add_u_def op_bind_def cbb_error_def)
      qed
    qed
    show ?thesis
      by unfold_locales (use no False in \<open>auto simp: on_base_def cbb_rep_def split: prod.splits;
        metis fst_conv option.distinct(1)\<close>)+
  qed
qed

lemma cbb_op_add_u_flush:
  "0 < n \<Longrightarrow> n \<le> 8 \<Longrightarrow> cbb_op (cbb_add_u h v n)
     (if unat v < 256 ^ n then abs_add h (be_bytes n (unat v)) else abs_bind (abs_flush h) (\<lambda>_ _. None))"
  using cbb_op_bind [OF flush.cbb_op_axioms cbb_op_add_u [of n v], of h]
  by (auto simp: cbb_add_u_def abs_add_def)

interpretation add_u8: cbb_op "CBB_add_u8 h v" "abs_add h [v]"
  using cbb_op_add_u_flush [of 1 h "ucast v"] word_unat_lt [of v]
  by (simp add: CBB_add_u8_def unat_ucast_up)

interpretation add_u16: cbb_op "CBB_add_u16 h v" "abs_add h (be_bytes 2 (unat v))"
  using cbb_op_add_u_flush [of 2 h "ucast v"] word_unat_lt [of v]
  by (simp add: CBB_add_u16_def unat_ucast_up)

interpretation add_u32: cbb_op "CBB_add_u32 h v" "abs_add h (be_bytes 4 (unat v))"
  using cbb_op_add_u_flush [of 4 h "ucast v"] word_unat_lt [of v]
  by (simp add: CBB_add_u32_def unat_ucast_up)

interpretation add_u64: cbb_op "CBB_add_u64 h v" "abs_add h (be_bytes 8 (unat v))"
  using cbb_op_add_u_flush [of 8 h "v"] word_unat_lt [of v]
  by (simp add: CBB_add_u64_def)

lemma cbb_op_add_u24:
  "unat v < 2 ^ 24 \<Longrightarrow> cbb_op (CBB_add_u24 h v) (abs_add h (be_bytes 3 (unat v)))"
  using cbb_op_add_u_flush [of 3 h "ucast v"]
  by (simp add: CBB_add_u24_def unat_ucast_up)

lemma cbb_op_add_bytes:
  "length d < 2 ^ 64 \<Longrightarrow> cbb_op (CBB_add_bytes h d) (abs_add h d)"
  using cbb_op_bind [OF flush.cbb_op_axioms cbb_op_on_base_bytes [of d]]
  by (simp add: CBB_add_bytes_def abs_add_def)

lemma cbb_op_add_space:
  "length d < 2 ^ 64 \<Longrightarrow> cbb_op (CBB_add_space h d) (abs_add h d)"
  using cbb_op_bind [OF flush.cbb_op_axioms cbb_op_on_base_bytes [of d]]
  by (simp add: CBB_add_space_def abs_add_def)

section \<open>Opening a child\<close>

text \<open>Steps that run right after \<open>CBB_flush h\<close> only meet states with \<open>h\<close> open frames, so their
  contract is needed there only.\<close>

lemma abs_flush_depth: "abs_flush h A = Some (a, A') \<Longrightarrow> length (snd A') = h"
  by (cases A) (auto simp: abs_flush_def split: if_splits)

lemma cbb_op_bind_at:
  assumes m: "cbb_op m f" and depth: "\<And>A a A'. f A = Some (a, A') \<Longrightarrow> length (snd A') = h"
    and sound: "\<And>cbb b A a cbb'. cbb_rep cbb b A \<Longrightarrow> length (snd A) = h \<Longrightarrow> n cbb = (Some a, cbb') \<Longrightarrow>
      \<exists>b' A'. g A = Some (a, A') \<and> cbb_rep cbb' b' A' \<and> same_env b b'"
    and total: "\<And>cbb b A a A'. cbb_rep cbb b A \<Longrightarrow> length (snd A) = h \<Longrightarrow> growable b \<Longrightarrow> g A = Some (a, A') \<Longrightarrow>
      abs_len A' < 2 ^ 64 \<Longrightarrow> \<exists>cbb'. n cbb = (Some a, cbb')"
    and mono: "\<And>A a A'. length (snd A) = h \<Longrightarrow> g A = Some (a, A') \<Longrightarrow> abs_len A \<le> abs_len A'"
  shows "cbb_op (op_bind m (\<lambda>_. n)) (abs_bind f (\<lambda>_. g))"
proof
  fix cbb b A a cbb'
  assume rep: "cbb_rep cbb b A" and "op_bind m (\<lambda>_. n) cbb = (Some a, cbb')"
  then obtain x c where run: "m cbb = (Some x, c)" "n c = (Some a, cbb')"
    by (auto simp: op_bind_eq_Some)
  obtain b1 A1 where 1: "f A = Some (x, A1)" "cbb_rep c b1 A1" "same_env b b1"
    using cbb_op.sound [OF m rep run(1)] by blast
  obtain b2 A2 where 2: "g A1 = Some (a, A2)" "cbb_rep cbb' b2 A2" "same_env b1 b2"
    using sound [OF 1(2) depth [OF 1(1)] run(2)] by blast
  show "\<exists>b' A'. abs_bind f (\<lambda>_. g) A = Some (a, A') \<and> cbb_rep cbb' b' A' \<and> same_env b b'"
    using 1 2 same_env_trans by (fastforce simp: abs_bind_def)
next
  fix cbb b A a A'
  assume rep: "cbb_rep cbb b A" and grow: "growable b" and "abs_bind f (\<lambda>_. g) A = Some (a, A')"
    and len: "abs_len A' < 2 ^ 64"
  then obtain x A1 where f: "f A = Some (x, A1)" and g: "g A1 = Some (a, A')"
    by (auto simp: abs_bind_def Option.bind_eq_Some_conv)
  note at = depth [OF f]
  have "abs_len A1 < 2 ^ 64" using mono [OF at g] len by simp
  then obtain c b1 where c: "m cbb = (Some x, c)" "cbb_rep c b1 A1" "same_env b b1"
    using cbb_op.computes [OF m rep grow f] by blast
  have "growable b1" using grow c(3) by (simp add: same_env_growable)
  then obtain cbb' where "n c = (Some a, cbb')" using total [OF c(2) at _ g len] by blast
  then show "\<exists>cbb'. op_bind m (\<lambda>_. n) cbb = (Some a, cbb')" using c(1) by auto
next
  fix A a A'
  assume "abs_bind f (\<lambda>_. g) A = Some (a, A')"
  then obtain x A1 where f: "f A = Some (x, A1)" and g: "g A1 = Some (a, A')"
    by (auto simp: abs_bind_def Option.bind_eq_Some_conv)
  show "abs_len A \<le> abs_len A'" using cbb_op.mono [OF m f] mono [OF depth [OF f] g] by simp
qed

text \<open>Writing the placeholder of \<open>k\<close> and recording the child opens a frame.\<close>

definition open_at :: "frame_kind \<Rightarrow> nat \<Rightarrow> nat \<Rightarrow> (CBB, unit) op" where
  "open_at k h off = op_bind (on_base (op_bind (cbb_buffer_add (hole k)) (\<lambda>off base.
       (Some (), base\<lparr>bb_buf := take off (bb_buf base) @ replicate (hole k) 0\<rparr>)))) (\<lambda>_.
     cbb_open_child h \<lparr>ch_offset = off, ch_pending_len_len = hole k, ch_pending_is_asn1 = (k = Asn1_Frame)\<rparr>)"

lemma frame_ok_hole: "frame_ok (k, c) \<Longrightarrow> hole k < 2 ^ 64"
  by (cases k) (auto simp: frame_ok_def)

lemma cbb_rep_open:
  assumes rep: "cbb_rep cbb b (root, fs)" and k: "frame_ok (k, [])"
    and b': "bb_buf b' = bb_buf b @ replicate (hole k) 0" "buffer_ok b'" "\<not> bb_error b'"
  shows "cbb_rep (cbb\<lparr>cbb_base := Some b', cbb_children := cbb_children cbb @
      [\<lparr>ch_offset = length (bb_buf b), ch_pending_len_len = hole k, ch_pending_is_asn1 = (k = Asn1_Frame)\<rparr>]\<rparr>)
    b' (root, fs @ [(k, [])])"
  using assms by (simp add: cbb_rep_def kids_append layout_append)

lemma open_at_sound:
  assumes rep: "cbb_rep cbb b (root, fs)" and h: "length fs = h" and k: "frame_ok (k, [])"
    and run: "open_at k h (length (bb_buf b)) cbb = (Some a, cbb')"
  shows "\<exists>b'. cbb_rep cbb' b' (root, fs @ [(k, [])]) \<and> same_env b b'"
proof -
  have base: "cbb_base cbb = Some b" "length (cbb_children cbb) = h" and ok: "buffer_ok b" and err: "\<not> bb_error b"
    using rep h by (simp_all add: cbb_rep_def)
  from run base obtain off b1 where add: "cbb_buffer_add (hole k) b = (Some off, b1)"
    and cbb': "cbb' = cbb\<lparr>cbb_base := Some (b1\<lparr>bb_buf := take off (bb_buf b1) @ replicate (hole k) 0\<rparr>),
      cbb_children := cbb_children cbb @ [\<lparr>ch_offset = length (bb_buf b), ch_pending_len_len = hole k,
        ch_pending_is_asn1 = (k = Asn1_Frame)\<rparr>]\<rparr>"
    by (auto simp: open_at_def op_bind_eq_Some on_base_def cbb_open_child_def split: prod.splits)
  note b1 = cbb_buffer_add_Some [OF add]
  have "buffer_ok b1" using cbb_buffer_add_ok [OF ok add] frame_ok_hole [OF k] by blast
  then show ?thesis
    using b1 err cbb_rep_open [OF rep k, of "b1\<lparr>bb_buf := bb_buf b @ replicate (hole k) 0\<rparr>"]
    by (intro exI [of _ "b1\<lparr>bb_buf := bb_buf b @ replicate (hole k) 0\<rparr>"]) (simp add: cbb' buffer_ok_def)
qed

lemma open_at_total:
  assumes rep: "cbb_rep cbb b (root, fs)" and grow: "growable b"
    and len: "abs_len (root, fs @ [(k, [])]) < 2 ^ 64"
  shows "\<exists>cbb'. open_at k h (length (bb_buf b)) cbb = (Some a, cbb')"
proof -
  have "length (bb_buf b) + hole k < 2 ^ 64" using rep len by (simp add: cbb_rep_def abs_len_def layout_append)
  then obtain b1 where "cbb_buffer_add (hole k) b = (Some (length (bb_buf b)), b1)"
    using cbb_buffer_add_growable [OF grow] by blast
  then show ?thesis
    using rep by (simp add: open_at_def op_bind_def on_base_def cbb_open_child_def cbb_rep_def)
qed

lemma abs_len_open: "abs_len (root, fs) \<le> abs_len (root, fs @ [(k, [])])"
  by (simp add: abs_len_def layout_append)

lemma cbb_base_len_rep: "cbb_rep cbb b A \<Longrightarrow> cbb_base_len cbb = (Some (length (bb_buf b)), cbb)"
  by (simp add: cbb_base_len_def cbb_rep_def)

lemma cbb_op_open:
  assumes k: "frame_ok (k, [])"
  shows "cbb_op (op_bind (CBB_flush h) (\<lambda>_. op_bind cbb_base_len (open_at k h)))
    (abs_bind (abs_flush h) (\<lambda>_. abs_open k))"
proof (rule cbb_op_bind_at [OF flush.cbb_op_axioms abs_flush_depth])
  fix cbb b A a cbb'
  assume rep: "cbb_rep cbb b A" and h: "length (snd A) = h"
    and run: "op_bind cbb_base_len (open_at k h) cbb = (Some a, cbb')"
  obtain root fs where A: "A = (root, fs)" by fastforce
  show "\<exists>b' A'. abs_open k A = Some (a, A') \<and> cbb_rep cbb' b' A' \<and> same_env b b'"
    using open_at_sound [OF rep [unfolded A] _ k] h run
    by (simp add: A abs_open_def op_bind_def cbb_base_len_rep [OF rep])
next
  fix cbb b A a A'
  assume rep: "cbb_rep cbb b A" and "length (snd A) = h" and grow: "growable b"
    and f: "abs_open k A = Some (a, A')" and len: "abs_len A' < 2 ^ 64"
  obtain root fs where A: "A = (root, fs)" by fastforce
  show "\<exists>cbb'. op_bind cbb_base_len (open_at k h) cbb = (Some a, cbb')"
    using open_at_total [OF rep [unfolded A] grow, of k h a] f len
    by (simp add: A abs_open_def op_bind_def cbb_base_len_rep [OF rep])
next
  fix A a A'
  assume "abs_open k A = Some (a, A')"
  then show "abs_len A \<le> abs_len A'"
    using abs_len_open [of "fst A" "snd A"] by (auto simp: abs_open_def split: prod.splits)
qed

lemma cbb_op_length_prefixed:
  "1 \<le> n \<Longrightarrow> n \<le> 3 \<Longrightarrow>
   cbb_op (cbb_add_length_prefixed h n) (abs_bind (abs_flush h) (\<lambda>_. abs_open (Len_Frame n)))"
  using cbb_op_open [of "Len_Frame n" h] by (simp add: cbb_add_length_prefixed_def open_at_def [abs_def] frame_ok_def)

section \<open>Tags and lengths of ASN.1 elements\<close>

text \<open>Bytes added one at a time.\<close>

primrec abs_adds :: "nat \<Rightarrow> byte list \<Rightarrow> unit abs_op" where
  "abs_adds h [] = abs_return ()"
| "abs_adds h (x # xs) = abs_bind (abs_add h [x]) (\<lambda>_. abs_adds h xs)"

lemma abs_flush_at: "length (snd A) = h \<Longrightarrow> abs_flush h A = Some ((), A)"
  by (cases A) (simp add: abs_flush_def)

lemma abs_bind_flush_flush: "abs_bind (abs_flush h) (\<lambda>_. abs_bind (abs_flush h) g) = abs_bind (abs_flush h) g"
proof
  fix A
  show "abs_bind (abs_flush h) (\<lambda>_. abs_bind (abs_flush h) g) A = abs_bind (abs_flush h) g A"
    by (cases "abs_flush h A") (auto simp: abs_bind_def abs_flush_at dest: abs_flush_depth)
qed

lemma abs_bind_assoc: "abs_bind (abs_bind f g) k = abs_bind f (\<lambda>a. abs_bind (g a) k)"
  by (rule ext) (auto simp: abs_bind_def split: option.splits Option.bind_splits)

lemma abs_bind_return [simp]: "abs_bind (abs_return a) g = g a"
  by (rule ext) (simp add: abs_bind_def abs_return_def)

lemma abs_add_depth: "abs_add h d A = Some (a, A') \<Longrightarrow> length (snd A') = h"
  by (auto simp: abs_add_def abs_bind_def abs_append_def Option.bind_eq_Some_conv dest: abs_flush_depth)

lemma abs_add_at: "length (snd A) = h \<Longrightarrow> abs_add h d A = Some ((), append_top d A)"
  by (simp add: abs_add_def abs_bind_def abs_flush_at abs_append_def)

lemma abs_add_add: "abs_bind (abs_add h d) (\<lambda>_. abs_add h e) = abs_add h (d @ e)"
proof
  fix A
  show "abs_bind (abs_add h d) (\<lambda>_. abs_add h e) A = abs_add h (d @ e) A"
  proof (cases "abs_flush h A")
    case None
    then show ?thesis by (simp add: abs_add_def abs_bind_def)
  next
    case (Some p)
    obtain a A1 where p: "p = (a, A1)" by (cases p)
    have "length (snd A1) = h" using Some p abs_flush_depth by blast
    then show ?thesis using Some by (simp add: p abs_add_def abs_bind_def abs_append_def abs_flush_at)
  qed
qed

lemma abs_bind_return_unit: "abs_bind f (\<lambda>_. abs_return ()) = f"
  by (rule ext) (auto simp: abs_bind_def abs_return_def split: Option.bind_splits)

lemma abs_adds_eq: "xs \<noteq> [] \<Longrightarrow> abs_adds h xs = abs_add h xs"
proof (induction xs)
  case (Cons x xs)
  then show ?case
    using abs_add_add [of h "[x]" xs] by (cases "xs = []") (simp_all only: abs_adds.simps abs_bind_return_unit append.simps not_False_eq_True)
qed simp

text \<open>The octets of the base-128 form.\<close>

lemma unat_octet7: "unat ((ucast (drop_bit (7 * i) (v :: u64)) :: u8) AND 0x7f) = unat v div 128 ^ i mod 128"
proof -
  have "(2 :: nat) ^ (7 * i) = 128 ^ i" by (simp add: power_mult)
  moreover have "n mod 256 mod 128 = n mod 128" for n :: nat by (simp add: mod_mod_cancel)
  ultimately show ?thesis by (simp add: byte_and_7f unat_ucast_mod unat_drop_bit)
qed

lemma octet7_or_80: "(b :: u8) AND 0x7f OR 0x80 = of_nat (128 + unat b mod 128)"
proof -
  have "unat (push_bit 7 1 OR (b AND 0x7f)) = 128 + unat b mod 128"
    by (subst unat_push_bit_or) (simp_all add: byte_and_7f)
  then have "unat (b AND 0x7f OR 0x80) = 128 + unat b mod 128" by (simp add: or.commute)
  then show ?thesis by (rule unat_eq_of_nat)
qed

lemma cbb_op_base128_loop: "cbb_op (add_base128_loop h (Suc i) v) (abs_add h (b128_digits i (unat v)))"
proof (induction i)
  case 0
  have "ucast v AND (0x7f :: u8) = of_nat (unat v mod 128)"
    using unat_octet7 [of 0 v] by (intro unat_eq_of_nat) simp
  then have "add_base128_loop h (Suc 0) v = op_bind (CBB_add_u8 h (of_nat (unat v mod 128))) (\<lambda>_. op_return ())"
    by simp
  then show ?case
    using cbb_op_bind [OF add_u8.cbb_op_axioms cbb_op_return, of h "of_nat (unat v mod 128)" "\<lambda>_. ()"]
    by (simp only: abs_bind_return_unit b128_digits.simps)
next
  case (Suc i)
  let ?x = "of_nat (128 + unat v div 128 ^ Suc i mod 128) :: u8"
  have "unat v div 128 ^ Suc i mod 128 = unat (ucast (drop_bit (7 * Suc i) v) AND 0x7f :: u8)"
    by (simp only: unat_octet7)
  also have "\<dots> = unat (ucast (drop_bit (7 * Suc i) v) :: u8) mod 128" by (rule byte_and_7f)
  finally have x: "ucast (drop_bit (7 * Suc i) v) AND 0x7f OR 0x80 = ?x" using octet7_or_80 by simp
  have "add_base128_loop h (Suc (Suc i)) v = op_bind (CBB_add_u8 h ?x) (\<lambda>_. add_base128_loop h (Suc i) v)"
    by (subst add_base128_loop.simps(2)) (simp only: x Let_def nat.distinct simp_thms if_True)
  moreover have "abs_add h (b128_digits (Suc i) (unat v)) = abs_bind (abs_add h [?x]) (\<lambda>_. abs_add h (b128_digits i (unat v)))"
    by (simp only: abs_add_add b128_digits.simps append.simps)
  ultimately show ?case using cbb_op_bind [OF add_u8.cbb_op_axioms Suc.IH] by simp
qed

lemma base128_len_len_eq: "base128_len_len v = (if v = 0 then 0 else Suc (b128_more (unat v)))"
proof (induction v rule: base128_len_len.induct)
  case (1 copy)
  show ?case
  proof (cases "copy = 0")
    case False
    then have pos: "copy > 0" by (simp add: word_gt_0)
    have d: "unat (drop_bit 7 copy) = unat copy div 128" by (simp add: unat_drop_bit)
    then have "drop_bit 7 copy = 0 \<longleftrightarrow> unat copy < 128"
      by (simp add: unat_eq_0 [symmetric] div_eq_0_iff)
    moreover have "base128_len_len copy = Suc (base128_len_len (drop_bit 7 copy))"
      using pos by (simp add: base128_len_len.simps [of copy])
    moreover have "b128_more (unat copy) = (if unat copy < 128 then 0 else Suc (b128_more (unat copy div 128)))"
      by (rule b128_more.simps)
    ultimately show ?thesis
      using False by (simp only: 1 [OF pos] d if_False simp_thms split: if_splits)
  qed (simp add: base128_len_len.simps)
qed

lemma cbb_op_base128: "cbb_op (add_base128_integer h v) (abs_add h (b128 (unat v)))"
proof -
  have "b128_more 0 = 0" by (simp add: b128_more.simps [of 0])
  then show ?thesis
    using cbb_op_base128_loop [of h "b128_more (unat v)" v]
    by (cases "v = 0") (simp_all add: add_base128_integer_def base128_len_len_eq b128_def del: b128_digits.simps add_base128_loop.simps)
qed

text \<open>The identifier octets written by \<open>CBB_add_asn1\<close> are those of the tag.\<close>

lemma unat_tag_bits: "unat (ucast (drop_bit 24 tag AND 0xe0 :: u32) :: u8) = 32 * (unat tag div 2 ^ 29)"
proof -
  have "unat tag div 2 ^ 24 < 256" using unsigned_less [of tag, where 'a = nat] by (simp add: less_mult_imp_div_less)
  then have b: "unat (ucast (drop_bit 24 tag) :: u8) = unat tag div 2 ^ 24"
    by (simp add: unat_ucast_mod unat_drop_bit)
  have "(ucast (drop_bit 24 tag AND 0xe0 :: u32) :: u8) = ucast (drop_bit 24 tag) AND 0xe0"
    by (simp add: unsigned_and_eq)
  then show ?thesis by (simp only: byte_and_e0 b) (simp add: div_mult2_eq [symmetric])
qed

lemma tag_bits_or:
  assumes t: "unat (b :: u8) = 32 * m" and n: "unat (n :: u8) < 32"
  shows "b OR n = of_nat (32 * m + unat n)"
proof -
  have m: "m < 8" using unat_lt8 [of b] t by simp
  then have um: "unat (of_nat m :: u8) = m" by (intro unat_of_nat_small) simp
  have "unat (push_bit 5 (of_nat m) :: u8) = unat b" using m t by (subst unat_push_bit_lt) (simp_all add: um)
  then have "b = push_bit 5 (of_nat m)" by (simp add: word_unat_eq_iff)
  moreover have "unat (push_bit 5 (of_nat m) OR n) = m * 2 ^ 5 + unat n"
    using m n by (subst unat_push_bit_or) (simp_all add: um)
  ultimately have "unat (b OR n) = 32 * m + unat n" by simp
  then show ?thesis by (rule unat_eq_of_nat)
qed

lemma cbb_op_tag:
  fixes tag :: u32
  defines "tag_bits \<equiv> ucast (drop_bit 24 tag AND 0xe0) :: u8" and "tag_number \<equiv> tag AND 0x1fffffff"
  shows "cbb_op (if tag_number \<ge> 0x1f
      then op_bind (CBB_add_u8 h (tag_bits OR 0x1f)) (\<lambda>_. add_base128_integer h (ucast tag_number))
      else CBB_add_u8 h (tag_bits OR ucast tag_number)) (abs_add h (der_tag tag))"
proof -
  have num: "unat tag_number = unat tag mod 2 ^ 29"
    using unat_and_mask [of tag 29] by (simp add: tag_number_def mask_eq_exp_minus_1)
  show ?thesis
  proof (cases "tag_number \<ge> 0x1f")
    case True
    then have large: "\<not> unat tag mod 2 ^ 29 < 31" by (simp add: word_le_nat_alt num)
    have "tag_bits OR 0x1f = of_nat (32 * (unat tag div 2 ^ 29) + 31)"
      using tag_bits_or [of tag_bits _ "0x1f"] unat_tag_bits [of tag] by (simp add: tag_bits_def)
    moreover have "unat (ucast tag_number :: u64) = unat tag mod 2 ^ 29" by (simp add: unat_ucast_up num)
    moreover have "abs_add h (der_tag tag) =
        abs_bind (abs_add h [of_nat (32 * (unat tag div 2 ^ 29) + 31)]) (\<lambda>_. abs_add h (b128 (unat tag mod 2 ^ 29)))"
      unfolding abs_add_add der_tag_def Let_def using large by simp
    ultimately show ?thesis
      using True cbb_op_bind [OF add_u8.cbb_op_axioms [of h "of_nat (32 * (unat tag div 2 ^ 29) + 31)"]
          cbb_op_base128 [of h "ucast tag_number"]]
      by (simp only: if_True)
  next
    case False
    then have small: "unat tag mod 2 ^ 29 < 31" by (simp add: word_le_nat_alt num)
    then have n: "unat (ucast tag_number :: u8) = unat tag mod 2 ^ 29"
      by (simp add: unat_ucast_mod num)
    have "tag_bits OR ucast tag_number = of_nat (32 * (unat tag div 2 ^ 29) + unat tag mod 2 ^ 29)"
      using tag_bits_or [of tag_bits _ "ucast tag_number"] unat_tag_bits [of tag] small
      unfolding n tag_bits_def by simp
    then show ?thesis
      using False add_u8.cbb_op_axioms small by (simp only: if_False der_tag_def Let_def if_True)
  qed
qed

definition abs_asn1 :: "nat \<Rightarrow> u32 \<Rightarrow> unit abs_op" where
  "abs_asn1 h tag = abs_bind (abs_add h (der_tag tag)) (\<lambda>_. abs_open Asn1_Frame)"

lemma add_u8_open:
  assumes rep: "cbb_rep cbb b A" and h: "length (snd A) = h"
  shows "op_bind cbb_base_len (\<lambda>offset. op_bind (CBB_add_u8 h 0) (\<lambda>_.
      cbb_open_child h \<lparr>ch_offset = offset, ch_pending_len_len = 1, ch_pending_is_asn1 = True\<rparr>)) cbb =
    open_at Asn1_Frame h (length (bb_buf b)) cbb"
proof -
  have base: "cbb_base cbb = Some b" "length (cbb_children cbb) = h" "\<not> bb_error b"
    using rep h by (simp_all add: cbb_rep_def)
  then have flush: "CBB_flush h cbb = (Some (), cbb)" by (simp add: CBB_flush_def)
  have zero: "store_be off 1 0 (xs @ [0]) = (xs @ [0], 0)" if "off = length xs" for off xs
    using that by simp
  have "cbb_buffer_add_u 0 1 b = op_bind (cbb_buffer_add 1) (\<lambda>off base.
      (Some (), base\<lparr>bb_buf := take off (bb_buf base) @ replicate 1 0\<rparr>)) b"
  proof (cases "cbb_buffer_add 1 b")
    case (Pair r b1)
    then show ?thesis using cbb_buffer_add_Some [of 1 b _ b1]
      by (cases r) (auto simp: cbb_buffer_add_u_def op_bind_def)
  qed
  then show ?thesis
    by (simp add: op_bind_def cbb_base_len_rep [OF rep] open_at_def CBB_add_u8_def cbb_add_u_def flush on_base_def base)
qed

lemma cbb_op_asn1: "cbb_op (CBB_add_asn1 h tag) (abs_bind (abs_flush h) (\<lambda>_. abs_asn1 h tag))"
proof -
  define rest where "rest = op_bind cbb_base_len (\<lambda>offset. op_bind (CBB_add_u8 h 0) (\<lambda>_.
      cbb_open_child h \<lparr>ch_offset = offset, ch_pending_len_len = 1, ch_pending_is_asn1 = True\<rparr>))"
  have ok: "frame_ok (Asn1_Frame, [])" by (simp add: frame_ok_def)
  have "cbb_op (op_bind (if tag AND 0x1fffffff \<ge> 0x1f
      then op_bind (CBB_add_u8 h (ucast (drop_bit 24 tag AND 0xe0) OR 0x1f)) (\<lambda>_. add_base128_integer h (ucast (tag AND 0x1fffffff)))
      else CBB_add_u8 h (ucast (drop_bit 24 tag AND 0xe0) OR ucast (tag AND 0x1fffffff))) (\<lambda>_. rest)) (abs_asn1 h tag)"
    unfolding abs_asn1_def
  proof (rule cbb_op_bind_at [OF cbb_op_tag abs_add_depth])
    fix cbb b A a cbb'
    assume rep: "cbb_rep cbb b A" and h: "length (snd A) = h" and run: "rest cbb = (Some a, cbb')"
    obtain root fs where A: "A = (root, fs)" by fastforce
    show "\<exists>b' A'. abs_open Asn1_Frame A = Some (a, A') \<and> cbb_rep cbb' b' A' \<and> same_env b b'"
      using open_at_sound [OF rep [unfolded A] _ ok] h run add_u8_open [OF rep h]
      by (simp add: A abs_open_def rest_def)
  next
    fix cbb b A a A'
    assume rep: "cbb_rep cbb b A" and h: "length (snd A) = h" and grow: "growable b"
      and f: "abs_open Asn1_Frame A = Some (a, A')" and len: "abs_len A' < 2 ^ 64"
    obtain root fs where A: "A = (root, fs)" by fastforce
    show "\<exists>cbb'. rest cbb = (Some a, cbb')"
      using open_at_total [OF rep [unfolded A] grow, of Asn1_Frame h a] f len add_u8_open [OF rep h]
      by (simp add: A abs_open_def rest_def)
  next
    fix A a A'
    assume "abs_open Asn1_Frame A = Some (a, A')"
    then show "abs_len A \<le> abs_len A'"
      using abs_len_open [of "fst A" "snd A"] by (auto simp: abs_open_def split: prod.splits)
  qed
  then show ?thesis
    unfolding CBB_add_asn1_def CBS_ASN1_TAG_SHIFT_def CBS_ASN1_TAG_NUMBER_MASK_def Let_def rest_def
    by (rule cbb_op_bind [OF flush.cbb_op_axioms])
qed

text \<open>The flush inside the first addition makes the leading one redundant.\<close>

interpretation add_asn1: cbb_op "CBB_add_asn1 h tag" "abs_asn1 h tag"
proof -
  have "abs_bind (abs_flush h) (\<lambda>_. abs_asn1 h tag) = abs_asn1 h tag"
    by (simp add: abs_asn1_def abs_add_def abs_bind_assoc abs_bind_flush_flush)
  then show "cbb_op (CBB_add_asn1 h tag) (abs_asn1 h tag)" using cbb_op_asn1 [of h tag] by (simp only:)
qed

section \<open>Whole elements\<close>

text \<open>Opening an element, adding its contents and flushing appends the DER encoding.\<close>

lemma abs_asn1_contents:
  assumes "length c \<le> 0xfffffffe"
  shows "abs_bind (abs_asn1 h tag) (\<lambda>_. abs_bind (abs_add (h + 1) c) (\<lambda>_. abs_flush h)) = abs_add h (der_elem tag c)"
proof
  fix A
  show "abs_bind (abs_asn1 h tag) (\<lambda>_. abs_bind (abs_add (h + 1) c) (\<lambda>_. abs_flush h)) A = abs_add h (der_elem tag c) A"
  proof (cases "abs_flush h A")
    case None
    then show ?thesis by (simp add: abs_asn1_def abs_add_def abs_bind_def)
  next
    case (Some p)
    obtain a A1 where p: "p = (a, A1)" by (cases p)
    obtain root fs where A1: "append_top (der_tag tag) A1 = (root, fs)" by (cases "append_top (der_tag tag) A1")
    have depth: "length (snd A1) = h" using Some p abs_flush_depth by blast
    then have fs: "length fs = h" using length_snd_append_top [of "der_tag tag" A1] A1 by simp
    have "append_top (der_elem tag c) A1 = append_top (der_len (length c) @ c) (root, fs)"
      by (simp add: A1 [symmetric] der_elem_def der_header_def)
    moreover have "abs_asn1 h tag A = Some ((), (root, fs @ [(Asn1_Frame, [])]))"
      using Some A1 by (simp add: p abs_asn1_def abs_add_def abs_bind_def abs_append_def abs_open_def)
    moreover have "abs_add (h + 1) c (root, fs @ [(Asn1_Frame, [])]) = Some ((), (root, fs @ [(Asn1_Frame, c)]))"
      using fs by (subst abs_add_at) simp_all
    moreover have "abs_flush h (root, fs @ [(Asn1_Frame, c)]) = Some ((), append_top (der_len (length c) @ c) (root, fs))"
      using fs assms by (simp add: abs_flush_def)
    moreover have "abs_add h (der_elem tag c) A = Some ((), append_top (der_elem tag c) A1)"
      using Some by (simp add: p abs_add_def abs_bind_def abs_append_def)
    ultimately show ?thesis by (simp add: abs_bind_def)
  qed
qed

lemma cbb_op_contents:
  assumes "cbb_op m (abs_add (h + 1) c)" and "length c \<le> 0xfffffffe"
  shows "cbb_op (op_bind (CBB_add_asn1 h tag) (\<lambda>_. op_bind m (\<lambda>_. CBB_flush h))) (abs_add h (der_elem tag c))"
  using cbb_op_bind [OF add_asn1.cbb_op_axioms cbb_op_bind [OF assms(1) flush.cbb_op_axioms]]
  unfolding abs_asn1_contents [OF assms(2), symmetric] .

lemma cbb_op_octet_string:
  "length d \<le> 0xfffffffe \<Longrightarrow> cbb_op (CBB_add_asn1_octet_string h d) (abs_add h (der_elem CBS_ASN1_OCTETSTRING d))"
  unfolding CBB_add_asn1_octet_string_def by (intro cbb_op_contents cbb_op_add_bytes) simp_all

lemma cbb_op_bool:
  "cbb_op (CBB_add_asn1_bool h v) (abs_add h (der_elem CBS_ASN1_BOOLEAN [if v then 0xff else 0]))"
  unfolding CBB_add_asn1_bool_def by (intro cbb_op_contents add_u8.cbb_op_axioms) simp

section \<open>Starting and finishing\<close>

lemma CBB_init_rep:
  assumes "CBB_init alloc cap = (True, cbb)" and "cap < 2 ^ 64"
  shows "\<exists>b. cbb_rep cbb b ([], []) \<and> bb_alloc b = alloc \<and> bb_can_resize b"
  using assms
  by (auto simp: CBB_init_def cbb_init_def CBB_zero_def cbb_rep_def buffer_ok_def split: if_splits)

lemma CBB_init_growable:
  assumes "\<forall>n. alloc n" and "cap < 2 ^ 64"
  shows "\<exists>cbb b. CBB_init alloc cap = (True, cbb) \<and> cbb_rep cbb b ([], []) \<and> growable b"
  using assms
  by (auto simp: CBB_init_def cbb_init_def CBB_zero_def cbb_rep_def buffer_ok_def growable_def)

text \<open>What is added to the root of a builder without open children.\<close>

lemma abs_add_root: "abs_add 0 d (root, []) = Some ((), (root @ d, []))"
  by (simp add: abs_add_at)

lemma abs_adds_root: "abs_adds 0 d (root, []) = Some ((), (root @ d, []))"
  by (cases "d = []") (simp_all add: abs_return_def abs_adds_eq abs_add_root)

text \<open>\<open>CBB_finish\<close> hands out the root bytes and the closed children.\<close>

lemma CBB_finish_sound:
  assumes rep: "cbb_rep cbb b (root, fs)" and "CBB_finish 0 out_data out_len cbb = (Some bytes, cbb')"
  shows "\<exists>d. close_frames fs = Some d \<and> bytes = root @ d"
proof -
  from assms obtain c base where flush: "CBB_flush 0 cbb = (Some (), c)" and base: "cbb_base c = Some base"
    and bytes: "bytes = bb_buf base"
    by (auto simp: CBB_finish_def op_bind_eq_Some split: if_splits option.splits)
  obtain b' A' where f: "abs_flush 0 (root, fs) = Some ((), A')" and rep': "cbb_rep c b' A'"
    using flush.sound [OF rep flush] by blast
  from f obtain d where d: "close_frames fs = Some d" "A' = (root @ d, [])" by (auto simp: abs_flush_def)
  then show ?thesis using rep' base bytes by (auto simp: cbb_rep_def)
qed

lemma CBB_finish_total:
  assumes rep: "cbb_rep cbb b (root, fs)" and grow: "growable b" and "close_frames fs = Some d"
    and "length (root @ d) < 2 ^ 64"
  shows "fst (CBB_finish 0 True True cbb) = Some (root @ d)"
proof -
  have f: "abs_flush 0 (root, fs) = Some ((), (root @ d, []))" using assms(3) by (simp add: abs_flush_def)
  obtain c b' where "CBB_flush 0 cbb = (Some (), c)" "cbb_rep c b' (root @ d, [])"
    using flush.computes [OF rep grow f] assms(4) by (auto simp: abs_len_def)
  then show ?thesis by (simp add: CBB_finish_def op_bind_def cbb_rep_def)
qed

end
