(* ===== verification/Bytestring_SetOf.thy ===== *)
theory Bytestring_SetOf
  imports CBB_Ops "HOL-Library.List_Lexorder" "HOL-Library.Multiset"
begin

text \<open>
  \<open>CBB_flush_asn1_set_of\<close>: the elements written to a SET OF are sorted by their encodings.
  The comparison of \<open>cbb.c\<close> is shown to be the lexicographic order, so the result does not
  depend on the sorting algorithm of the C library nor on the order the elements were added.
\<close>

section \<open>The code\<close>

text \<open>\<open>memcmp\<close> on strings of the same length; only the sign of its result is specified.\<close>

fun memcmp :: "byte list \<Rightarrow> byte list \<Rightarrow> int" where
  "memcmp (x # xs) (y # ys) = (if x < y then -1 else if x > y then 1 else memcmp xs ys)"
| "memcmp _ _ = 0"

definition compare_set_of_element :: "CBS \<Rightarrow> CBS \<Rightarrow> int" where
  "compare_set_of_element a b =
     (let a_len = CBS_len a; b_len = CBS_len b;
          min_len = (if a_len < b_len then a_len else b_len);
          ret = memcmp (take min_len a) (take min_len b)
      in if ret \<noteq> 0 then ret else if a_len = b_len then 0 else if a_len < b_len then -1 else 1)"

text \<open>\<open>qsort\<close> of the C library: a list sorted for the comparison function.\<close>

primrec insert_by :: "('a \<Rightarrow> 'a \<Rightarrow> int) \<Rightarrow> 'a \<Rightarrow> 'a list \<Rightarrow> 'a list" where
  "insert_by cmp x [] = [x]"
| "insert_by cmp x (y # ys) = (if cmp x y \<le> 0 then x # y # ys else y # insert_by cmp x ys)"

definition qsort :: "('a \<Rightarrow> 'a \<Rightarrow> int) \<Rightarrow> 'a list \<Rightarrow> 'a list" where
  "qsort cmp xs = foldr (insert_by cmp) xs []"

text \<open>The first pass counts the elements, the second collects them.\<close>

function count_elements :: "CBS \<Rightarrow> nat \<Rightarrow> nat option" where
  "count_elements cbs num_children =
     (if CBS_len cbs \<noteq> 0 then
        (case CBS_get_any_asn1_element cbs of
           (None, _) \<Rightarrow> None
         | (Some _, cbs') \<Rightarrow> count_elements cbs' (num_children + 1))
      else Some num_children)"
  by pat_completeness auto

termination
proof (relation "measure (\<lambda>(cbs, n). length cbs)")
  fix cbs cbs' :: CBS and n r and e
  assume "(r, cbs') = CBS_get_any_asn1_element cbs" and "r = Some e"
  then have "CBS_get_any_asn1_element cbs = (Some e, cbs')" by simp
  then have "length cbs' < length cbs"
    by (cases e) (auto simp: CBS_get_any_asn1_element_iff der_elem_def der_header_def der_len_def)
  then show "((cbs', n + 1), (cbs, n)) \<in> measure (\<lambda>(cbs, n). length cbs)" by simp
qed simp

declare count_elements.simps [simp del]

primrec split_elements :: "nat \<Rightarrow> CBS \<Rightarrow> CBS list option" where
  "split_elements 0 cbs = Some []"
| "split_elements (Suc n) cbs =
     (case CBS_get_any_asn1_element cbs of
        (None, _) \<Rightarrow> None
      | (Some (child, _), cbs') \<Rightarrow> map_option ((#) child) (split_elements n cbs'))"

primrec add_children :: "nat \<Rightarrow> CBS list \<Rightarrow> (CBB, unit) op" where
  "add_children h [] = op_return ()"
| "add_children h (c # cs) = op_bind (CBB_add_bytes h c) (\<lambda>_. add_children h cs)"

text \<open>\<open>cbb->base->len = cbb->offset + cbb->pending_len_len\<close>\<close>

definition rewind :: "nat \<Rightarrow> CBB \<Rightarrow> CBB" where
  "rewind h cbb = cbb\<lparr>cbb_base := map_option (\<lambda>base.
     base\<lparr>bb_buf := take (cbb_contents_start h cbb) (bb_buf base)\<rparr>) (cbb_base cbb)\<rparr>"

definition set_of_children :: "nat \<Rightarrow> (CBB, unit) op" where
  "set_of_children h cbb =
     (case count_elements (CBB_data h cbb) 0 of
        None \<Rightarrow> (None, cbb)
      | Some num_children \<Rightarrow>
          if num_children < 2 then (Some (), cbb)
          else if num_children > SIZE_MAX div sizeof_CBS then (None, cbb)
          else
            let alloc = (case cbb_base cbb of None \<Rightarrow> (\<lambda>_. False) | Some base \<Rightarrow> bb_alloc base);
                buf_len = CBB_len h cbb
            in case OPENSSL_memdup alloc (CBB_data h cbb) buf_len of
              None \<Rightarrow> (None, cbb)
            | Some buf \<Rightarrow>
                if \<not> alloc (num_children * sizeof_CBS) then (None, cbb)
                else case split_elements num_children buf of
                  None \<Rightarrow> (None, cbb)
                | Some children \<Rightarrow> add_children h (qsort compare_set_of_element children) (rewind h cbb))"

definition CBB_flush_asn1_set_of :: "nat \<Rightarrow> (CBB, unit) op" where
  "CBB_flush_asn1_set_of h = op_bind (CBB_flush h) (\<lambda>_. set_of_children h)"

section \<open>The order\<close>

lemma compare_set_of_element_eq:
  "compare_set_of_element a b = (if a < b then -1 else if a = b then 0 else 1)"
proof (induction a arbitrary: b)
  case Nil
  show ?case by (cases b) (auto simp: compare_set_of_element_def CBS_len_def Let_def)
next
  case (Cons x xs)
  show ?case
  proof (cases b)
    case Nil
    then show ?thesis by (auto simp: compare_set_of_element_def CBS_len_def Let_def)
  next
    case b: (Cons y ys)
    have "compare_set_of_element (x # xs) (y # ys) =
        (if x < y then -1 else if x > y then 1 else compare_set_of_element xs ys)"
      by (simp add: compare_set_of_element_def CBS_len_def Let_def)
    then show ?thesis using Cons [of ys] b by auto
  qed
qed

lemma insert_by_compare: "insert_by compare_set_of_element x xs = insort x xs"
  by (induction xs) (auto simp: compare_set_of_element_eq)

lemma qsort_compare: "qsort compare_set_of_element xs = sort xs"
  by (induction xs) (simp_all add: qsort_def insert_by_compare)

section \<open>Splitting the contents into elements\<close>

definition is_element :: "CBS \<Rightarrow> bool" where
  "is_element e \<longleftrightarrow> (\<exists>tag c. length c < 2 ^ 32 \<and> e = der_elem tag c)"

lemma CBS_get_any_asn1_element_is:
  "is_element e \<Longrightarrow> \<exists>x. CBS_get_any_asn1_element (e @ rest) = (Some (e, x), rest)"
  by (auto simp: is_element_def)

lemma is_element_ne: "is_element e \<Longrightarrow> e \<noteq> []"
  by (auto simp: is_element_def der_elem_def der_header_def der_len_def)

lemma count_elements_concat:
  "list_all is_element es \<Longrightarrow> count_elements (concat es) n = Some (n + length es)"
proof (induction es arbitrary: n)
  case Nil
  then show ?case by (simp add: count_elements.simps CBS_len_def)
next
  case (Cons e es)
  then obtain x where "CBS_get_any_asn1_element (e @ concat es) = (Some (e, x), concat es)"
    using CBS_get_any_asn1_element_is by fastforce
  then show ?case
    using Cons is_element_ne [of e] by (simp add: count_elements.simps [of "e @ concat es"] CBS_len_def)
qed

lemma count_elements_Some:
  "count_elements c n = Some m \<Longrightarrow> \<exists>es. list_all is_element es \<and> c = concat es \<and> m = n + length es"
proof (induction c n rule: count_elements.induct)
  case (1 c n)
  show ?case
  proof (cases "CBS_len c \<noteq> 0")
    case False
    then show ?thesis using "1.prems" by (intro exI [of _ "[]"]) (simp add: count_elements.simps CBS_len_def)
  next
    case True
    then obtain e tag hl c' where get: "CBS_get_any_asn1_element c = (Some (e, tag, hl), c')"
      and "count_elements c' (n + 1) = Some m"
      using "1.prems" by (subst (asm) count_elements.simps) (auto split: prod.splits option.splits)
    then obtain es where "list_all is_element es" "c' = concat es" "m = n + 1 + length es"
      using "1.IH" [OF True] by fastforce
    moreover have "is_element e" "c = e @ c'" using get by (auto simp: CBS_get_any_asn1_element_iff is_element_def)
    ultimately show ?thesis by (intro exI [of _ "e # es"]) simp
  qed
qed

lemma split_elements_concat:
  "list_all is_element es \<Longrightarrow> split_elements (length es) (concat es @ rest) = Some es"
proof (induction es)
  case (Cons e es)
  then obtain x where "CBS_get_any_asn1_element (e @ concat es @ rest) = (Some (e, x), concat es @ rest)"
    using CBS_get_any_asn1_element_is by fastforce
  then show ?case using Cons by (cases x) simp
qed simp

section \<open>Refinement\<close>

text \<open>The contents of the innermost frame.\<close>

definition top_contents :: "cbb_abs \<Rightarrow> byte list" where
  "top_contents A = (if snd A = [] then fst A else snd (last (snd A)))"

definition set_top :: "byte list \<Rightarrow> cbb_abs \<Rightarrow> cbb_abs" where
  "set_top d A = (if snd A = [] then (d, []) else (fst A, butlast (snd A) @ [(fst (last (snd A)), d)]))"

definition sort_top :: "unit abs_op" where
  "sort_top A =
     (case count_elements (top_contents A) 0 of
        None \<Rightarrow> None
      | Some n \<Rightarrow>
          if n < 2 then Some ((), A)
          else if n > SIZE_MAX div sizeof_CBS then None
          else map_option (\<lambda>es. ((), set_top (concat (sort es)) A)) (split_elements n (top_contents A)))"

lemma CBB_data_top:
  assumes "cbb_rep cbb b A" and "length (snd A) = h"
  shows "CBB_data h cbb = top_contents A" and "CBB_len h cbb = length (top_contents A)"
proof -
  obtain root fs where A: "A = (root, fs)" by fastforce
  have "CBB_data h cbb = top_contents A \<and> CBB_len h cbb = length (top_contents A)"
  proof (cases fs rule: rev_cases)
    case Nil
    then show ?thesis using assms
      by (simp add: A cbb_rep_def CBB_data_def CBB_len_def cbb_contents_start_def top_contents_def)
  next
    case (snoc gs f)
    obtain k c where f: "f = (k, c)" by fastforce
    have "h - 1 = length gs" "h \<noteq> 0" using assms(2) snoc by (simp_all add: A)
    then show ?thesis using assms(1)
      by (simp add: A snoc f cbb_rep_def CBB_data_def CBB_len_def cbb_contents_start_def top_contents_def Let_def
          kids_append layout_append nth_append)
  qed
  then show "CBB_data h cbb = top_contents A" "CBB_len h cbb = length (top_contents A)" by auto
qed

lemma rewind_rep:
  assumes "cbb_rep cbb b A" and "length (snd A) = h"
  shows "\<exists>b'. cbb_rep (rewind h cbb) b' (set_top [] A) \<and> same_env b b'"
proof -
  obtain root fs where A: "A = (root, fs)" by fastforce
  show ?thesis
  proof (cases fs rule: rev_cases)
    case Nil
    then show ?thesis using assms
      by (auto simp: A cbb_rep_def rewind_def cbb_contents_start_def set_top_def buffer_ok_def same_env_def)
  next
    case (snoc gs f)
    obtain k c where f: "f = (k, c)" by fastforce
    have "h - 1 = length gs" "h \<noteq> 0" using assms(2) snoc by (simp_all add: A)
    then show ?thesis using assms(1)
      by (auto simp: A snoc f cbb_rep_def rewind_def cbb_contents_start_def set_top_def buffer_ok_def Let_def
          kids_append layout_append nth_append same_env_def frame_ok_def)
  qed
qed

lemma cbb_op_add_children:
  "\<forall>c \<in> set cs. length c < 2 ^ 64 \<Longrightarrow> cs \<noteq> [] \<Longrightarrow> cbb_op (add_children h cs) (abs_add h (concat cs))"
proof (induction cs)
  case (Cons c cs)
  have c: "cbb_op (CBB_add_bytes h c) (abs_add h c)" using Cons.prems by (intro cbb_op_add_bytes) simp
  show ?case
  proof (cases "cs = []")
    case True
    then show ?thesis
      using cbb_op_bind [OF c cbb_op_return [of "()"]]
      by (simp only: add_children.simps concat.simps append_Nil2 abs_bind_return_unit)
  next
    case False
    then have "cbb_op (add_children h cs) (abs_add h (concat cs))" using Cons by simp
    from cbb_op_bind [OF c this] show ?thesis by (simp only: add_children.simps abs_add_add concat.simps)
  qed
qed simp

lemma append_top_set_top: "append_top d (set_top e A) = set_top (e @ d) A"
  by (cases A; cases "snd A" rule: rev_cases) (auto simp: append_top_def set_top_def)

lemma length_set_top [simp]: "length (snd (set_top d A)) = length (snd A)"
  by (cases A; cases "snd A" rule: rev_cases) (auto simp: set_top_def)

lemma abs_len_set_top: "abs_len (set_top d A) + length (top_contents A) = abs_len A + length d"
  by (cases A; cases "snd A" rule: rev_cases) (auto simp: set_top_def top_contents_def abs_len_def layout_append)

lemma abs_len_rep: "cbb_rep cbb b A \<Longrightarrow> abs_len A < 2 ^ 64"
proof -
  assume rep: "cbb_rep cbb b A"
  then have "abs_len A = length (bb_buf b)" by (simp add: cbb_rep_def abs_len_def)
  moreover have "length (bb_buf b) < 2 ^ 64"
    using rep unfolding cbb_rep_def buffer_ok_def by (elim conjE) linarith
  ultimately show ?thesis by simp
qed

lemma length_top_le: "length (top_contents A) \<le> abs_len A"
  by (cases A; cases "snd A" rule: rev_cases) (auto simp: top_contents_def abs_len_def layout_append)

text \<open>The case that sorts: more than one element.\<close>

lemma sort_top_split:
  assumes "sort_top A = Some (a, A')"
  obtains es where "list_all is_element es" "top_contents A = concat es" "length es \<le> SIZE_MAX div sizeof_CBS \<or> length es < 2"
    "A' = (if length es < 2 then A else set_top (concat (sort es)) A)"
proof -
  from assms obtain n where n: "count_elements (top_contents A) 0 = Some n"
    by (auto simp: sort_top_def split: option.splits)
  from count_elements_Some [OF n] obtain es where es: "list_all is_element es" "top_contents A = concat es" "n = length es"
    by auto
  have "split_elements n (top_contents A) = Some es" using split_elements_concat [OF es(1), of "[]"] es by simp
  then show thesis using assms n es by (intro that [OF es(1,2)]) (auto simp: sort_top_def split: if_splits)
qed

lemma length_concat_sort: "length (concat (sort es)) = length (concat (es :: CBS list))"
proof -
  have "length (concat (insort x xs)) = length x + length (concat xs)" for x :: CBS and xs
    by (induction xs) auto
  then show ?thesis by (induction es) simp_all
qed

lemma length_le_concat: "c \<in> set es \<Longrightarrow> length c \<le> length (concat es)"
  by (induction es) auto

lemma set_of_children_eval:
  assumes rep: "cbb_rep cbb b A" and h: "length (snd A) = h" and es: "list_all is_element es" "top_contents A = concat es"
  shows "set_of_children h cbb =
    (if length es < 2 then (Some (), cbb)
     else if length es > SIZE_MAX div sizeof_CBS \<or> \<not> bb_alloc b (length (concat es)) \<or> \<not> bb_alloc b (length es * sizeof_CBS)
     then (None, cbb)
     else add_children h (sort es) (rewind h cbb))"
proof -
  have base: "cbb_base cbb = Some b" using rep by (simp add: cbb_rep_def)
  have ne: "concat es \<noteq> []" if "\<not> length es < 2"
    using that es(1) is_element_ne by (cases es) auto
  have split: "split_elements (length es) (concat es) = Some es" using split_elements_concat [OF es(1), of "[]"] by simp
  show ?thesis
    using ne count_elements_concat [OF es(1), of 0] split
    by (auto simp: set_of_children_def CBB_data_top [OF rep h] es(2) base OPENSSL_memdup_def qsort_compare Let_def)
qed

interpretation set_of: cbb_op "CBB_flush_asn1_set_of h" "abs_bind (abs_flush h) (\<lambda>_. sort_top)"
  unfolding CBB_flush_asn1_set_of_def
proof (rule cbb_op_bind_at [OF flush.cbb_op_axioms abs_flush_depth])
  fix cbb b A a cbb'
  assume rep: "cbb_rep cbb b A" and h: "length (snd A) = h" and run: "set_of_children h cbb = (Some a, cbb')"
  from run obtain n where "count_elements (top_contents A) 0 = Some n"
    by (auto simp: set_of_children_def CBB_data_top [OF rep h] split: option.splits)
  from count_elements_Some [OF this] obtain es where es: "list_all is_element es" "top_contents A = concat es" by auto
  have abs: "sort_top A = (if length es < 2 then Some ((), A) else if length es > SIZE_MAX div sizeof_CBS then None
      else Some ((), set_top (concat (sort es)) A))"
    using es count_elements_concat [OF es(1), of 0] split_elements_concat [OF es(1), of "[]"] by (simp add: sort_top_def)
  show "\<exists>b' A'. sort_top A = Some (a, A') \<and> cbb_rep cbb' b' A' \<and> same_env b b'"
  proof (cases "length es < 2")
    case True
    then show ?thesis using run rep unfolding set_of_children_eval [OF rep h es] abs by auto
  next
    case False
    then have "sort es \<noteq> []" by (metis length_sort list.size(3) numeral_2_eq_2 zero_less_Suc)
    have "length (concat es) < 2 ^ 64"
      using abs_len_rep [OF rep] length_top_le [of A] unfolding es by linarith
    then have "\<forall>c \<in> set (sort es). length c < 2 ^ 64" using length_le_concat by fastforce
    note op = cbb_op_add_children [OF this \<open>sort es \<noteq> []\<close>, of h]
    have ok: "\<not> length es > SIZE_MAX div sizeof_CBS" and go: "add_children h (sort es) (rewind h cbb) = (Some a, cbb')"
      using run False unfolding set_of_children_eval [OF rep h es] by (auto split: if_splits)
    obtain b1 where b1: "cbb_rep (rewind h cbb) b1 (set_top [] A)" "same_env b b1" using rewind_rep [OF rep h] by blast
    have "abs_add h (concat (sort es)) (set_top [] A) = Some ((), set_top (concat (sort es)) A)"
      using h by (simp add: abs_add_at append_top_set_top)
    then show ?thesis
      using cbb_op.sound [OF op b1(1) go] b1(2) False ok same_env_trans unfolding abs by fastforce
  qed
next
  fix cbb b A a A'
  assume rep: "cbb_rep cbb b A" and h: "length (snd A) = h" and grow: "growable b" and f: "sort_top A = Some (a, A')"
    and len: "abs_len A' < 2 ^ 64"
  obtain es where es: "list_all is_element es" "top_contents A = concat es"
    and small: "length es \<le> SIZE_MAX div sizeof_CBS \<or> length es < 2"
    and A': "A' = (if length es < 2 then A else set_top (concat (sort es)) A)"
    using f by (rule sort_top_split)
  show "\<exists>cbb'. set_of_children h cbb = (Some a, cbb')"
  proof (cases "length es < 2")
    case True
    then show ?thesis unfolding set_of_children_eval [OF rep h es] by simp
  next
    case False
    then have ne: "sort es \<noteq> []" by (metis length_sort list.size(3) numeral_2_eq_2 zero_less_Suc)
    have "length (concat es) < 2 ^ 64"
      using abs_len_rep [OF rep] length_top_le [of A] unfolding es by linarith
    then have "\<forall>c \<in> set (sort es). length c < 2 ^ 64" using length_le_concat by fastforce
    note op = cbb_op_add_children [OF this ne, of h]
    obtain b1 where b1: "cbb_rep (rewind h cbb) b1 (set_top [] A)" "same_env b b1" using rewind_rep [OF rep h] by blast
    have "abs_add h (concat (sort es)) (set_top [] A) = Some (a, A')"
      using h False by (simp add: abs_add_at append_top_set_top A')
    moreover have "growable b1" using b1(2) grow by (simp add: same_env_growable)
    ultimately obtain c where "add_children h (sort es) (rewind h cbb) = (Some a, c)"
      using cbb_op.total [OF op b1(1)] len by blast
    then show ?thesis
      using False small grow unfolding set_of_children_eval [OF rep h es] by (auto simp: growable_def)
  qed
next
  fix A a A'
  assume f: "sort_top A = Some (a, A')"
  show "abs_len A \<le> abs_len A'"
  proof (rule sort_top_split [OF f])
    fix es
    assume "top_contents A = concat es" and "A' = (if length es < 2 then A else set_top (concat (sort es)) A)"
    then show "abs_len A \<le> abs_len A'"
      using abs_len_set_top [of "concat (sort es)" A] length_concat_sort [of es] by (simp split: if_splits)
  qed
qed

end
