(* ===== verification/DER_Integer.thy ===== *)
theory DER_Integer
  imports CBB_Ops
begin

text \<open>
  INTEGER contents. The reference is the shortest two's complement big-endian form of an
  integer. The validity check of \<open>cbs.c\<close> accepts exactly these strings, both readers return
  the integer, and both writers of \<open>cbb.c\<close> produce the string.
\<close>

section \<open>Two's complement byte strings\<close>

definition be_int :: "byte list \<Rightarrow> int" where
  "be_int bs = int (be_val bs) - (if bs \<noteq> [] \<and> 128 \<le> unat (hd bs) then 256 ^ length bs else 0)"

function int_octets :: "int \<Rightarrow> byte list" where
  "int_octets i = (if -128 \<le> i \<and> i < 128 then [of_int i] else int_octets (i div 256) @ [of_int (i mod 256)])"
  by pat_completeness auto

termination by (relation "measure (\<lambda>i. nat \<bar>i\<bar>)") auto

declare int_octets.simps [simp del]

lemma int_octets_step:
  "\<not> (-128 \<le> i \<and> i < 128) \<Longrightarrow> int_octets i = int_octets (i div 256) @ [of_int (i mod 256)]"
  by (subst int_octets.simps) (simp only: if_False)

text \<open>No octet can be dropped.\<close>

fun minimal_int :: "byte list \<Rightarrow> bool" where
  "minimal_int [] = False"
| "minimal_int [a] = True"
| "minimal_int (a # b # bs) = (\<not> (unat a = 0 \<and> unat b < 128) \<and> \<not> (unat a = 255 \<and> 128 \<le> unat b))"

lemma be_int_Nil [simp]: "be_int [] = 0"
  by (simp add: be_int_def)

lemma be_int_single: "be_int [b] = (if unat b < 128 then int (unat b) else int (unat b) - 256)"
  by (simp add: be_int_def)

lemma be_int_snoc: "bs \<noteq> [] \<Longrightarrow> be_int (bs @ [b]) = 256 * be_int bs + int (unat b)"
  by (simp add: be_int_def be_val_acc_append)

lemma be_int_Cons: "be_int (a # bs) = be_int [a] * 256 ^ length bs + int (be_val bs)"
  by (simp add: be_int_def be_val_Cons left_diff_distrib del: be_val_acc.simps) simp

lemma be_int_sign: "bs \<noteq> [] \<Longrightarrow> be_int bs < 0 \<longleftrightarrow> 128 \<le> unat (hd bs)"
proof -
  assume "bs \<noteq> []"
  then obtain a cs where bs: "bs = a # cs" by (cases bs) auto
  have v: "int (be_val cs) < 256 ^ length cs" using be_val_less [of cs] by (metis of_nat_less_iff of_nat_numeral of_nat_power)
  have val: "be_int bs = be_int [a] * 256 ^ length cs + int (be_val cs)" unfolding bs by (rule be_int_Cons)
  show ?thesis
  proof (cases "unat a < 128")
    case True
    then have "0 \<le> be_int [a] * 256 ^ length cs" by (simp add: be_int_single del: of_nat_unat)
    then show ?thesis using val True by (simp add: bs)
  next
    case False
    then have "be_int [a] \<le> - 1" using unat_lt8 [of a] by (simp add: be_int_single del: of_nat_unat unat_lt8)
    then have "be_int [a] * 256 ^ length cs \<le> - 1 * 256 ^ length cs" by (intro mult_right_mono) simp_all
    then have "be_int bs < 0" using val v by linarith
    then show ?thesis using False by (simp add: bs)
  qed
qed

text \<open>A minimal string of two or more octets is outside the range of one octet.\<close>

lemma minimal_outside:
  assumes "minimal_int (a # b # bs)"
  shows "\<not> (-128 \<le> be_int (a # b # bs) \<and> be_int (a # b # bs) < 128)"
proof -
  define P where "P = (256 :: int) ^ length bs"
  have P: "1 \<le> P" by (simp add: P_def)
  define w where "w = int (be_val bs)"
  have w: "0 \<le> w" "w < P" using be_val_less [of bs] unfolding w_def P_def
    by (simp, metis of_nat_less_iff of_nat_numeral of_nat_power)
  have val: "be_int (a # b # bs) = be_int [a] * (256 * P) + int (unat b) * P + w"
    unfolding be_int_Cons [of a "b # bs"] be_val_Cons [of b bs] by (simp add: P_def w_def)
  have a: "unat a < 256" and b: "unat b < 256" by (simp_all add: unat_lt8)
  consider "be_int [a] = 0" | "be_int [a] = -1" | "1 \<le> be_int [a]" | "be_int [a] \<le> -2" by linarith
  then show ?thesis
  proof cases
    case 1
    then have "unat a = 0" using a be_int_single [of a] by (simp del: of_nat_unat unat_lt8 split: if_splits)
    then have "128 \<le> int (unat b)" using assms by (simp del: of_nat_unat)
    then have "128 * P \<le> int (unat b) * P" using P by (intro mult_right_mono) simp_all
    then show ?thesis using 1 val w P by (simp only: mult_zero_left) linarith
  next
    case 2
    then have "int (unat b) \<le> 127" using assms a be_int_single [of a] by (auto simp del: of_nat_unat split: if_splits)
    then have "int (unat b) * P \<le> 127 * P" using P by (intro mult_right_mono) simp_all
    then show ?thesis using val w P unfolding 2 by linarith
  next
    case 3
    then have "1 * (256 * P) \<le> be_int [a] * (256 * P)" using P by (intro mult_right_mono) simp_all
    moreover have "0 \<le> int (unat b) * P" using P by simp
    ultimately show ?thesis using val w P by linarith
  next
    case 4
    then have "be_int [a] * (256 * P) \<le> -2 * (256 * P)" using P by (intro mult_right_mono) simp_all
    moreover have "int (unat b) * P \<le> 255 * P" using P b by (intro mult_right_mono) (simp_all del: of_nat_unat)
    ultimately show ?thesis using val w P by linarith
  qed
qed

lemma minimal_snoc:
  "2 \<le> length bs \<Longrightarrow> minimal_int (bs @ [b]) = minimal_int bs"
  by (cases bs rule: minimal_int.cases) auto

lemma minimal_two:
  "minimal_int [a, b] \<longleftrightarrow> \<not> (-128 \<le> be_int [a, b] \<and> be_int [a, b] < 128)"
proof
  show "minimal_int [a, b] \<Longrightarrow> \<not> (-128 \<le> be_int [a, b] \<and> be_int [a, b] < 128)"
    by (rule minimal_outside)
  have "be_int [a, b] = 256 * be_int [a] + int (unat b)" using be_int_snoc [of "[a]" b] by simp
  then show "\<not> (-128 \<le> be_int [a, b] \<and> be_int [a, b] < 128) \<Longrightarrow> minimal_int [a, b]"
    using be_int_single [of a] unat_lt8 [of b] unat_lt8 [of a] by (auto simp del: of_nat_unat unat_lt8 split: if_splits)
qed

lemma int_octets_be_int: "minimal_int bs \<Longrightarrow> int_octets (be_int bs) = bs"
proof (induction bs rule: rev_induct)
  case (snoc b bs)
  show ?case
  proof (cases bs)
    case Nil
    have "of_int (be_int [b]) = b"
    proof (cases "unat b < 128")
      case False
      have "(of_int (int (unat b) - 256) :: u8) = of_int (int (unat b)) - of_int 256" by (rule of_int_diff)
      then show ?thesis using False by (simp add: be_int_single del: of_int_diff)
    qed (simp add: be_int_single)
    moreover have "-128 \<le> be_int [b] \<and> be_int [b] < 128" using unat_lt8 [of b] by (simp add: be_int_single del: of_nat_unat unat_lt8)
    ultimately show ?thesis by (simp add: Nil int_octets.simps)
  next
    case (Cons a cs)
    then obtain x xs where "bs @ [b] = a # x # xs" by (cases cs) auto
    then have out: "\<not> (-128 \<le> be_int (bs @ [b]) \<and> be_int (bs @ [b]) < 128)"
      using minimal_outside snoc.prems by metis
    have "minimal_int bs"
      using snoc.prems minimal_snoc [of bs b] Cons by (cases cs) auto
    then have "int_octets (be_int bs) = bs" using snoc.IH by blast
    moreover have "be_int (bs @ [b]) div 256 = be_int bs" "be_int (bs @ [b]) mod 256 = int (unat b)"
      using unat_lt8 [of b] be_int_snoc [of bs b] Cons by (simp_all del: of_nat_unat)
    moreover have "(of_int (int (unat b)) :: u8) = b" by simp
    ultimately show ?thesis using int_octets_step [OF out] by (simp del: of_int_of_nat_eq of_nat_unat)
  qed
qed simp

lemma be_int_int_octets: "be_int (int_octets i) = i \<and> minimal_int (int_octets i)"
proof (induction i rule: int_octets.induct)
  case (1 i)
  show ?case
  proof (cases "-128 \<le> i \<and> i < 128")
    case True
    have "int (unat (of_int i :: u8)) = i mod 256" by (simp add: unsigned_of_int take_bit_eq_mod)
    moreover have "i mod 256 = (if 0 \<le> i then i else i + 256)" using True mod_pos_pos_trivial [of i 256] mod_pos_pos_trivial [of "i + 256" 256] by simp
    ultimately have "be_int [of_int i] = i" using True unfolding be_int_single by (auto simp del: of_nat_unat split: if_splits)
    then show ?thesis using True by (simp add: int_octets.simps)
  next
    case False
    define bs where "bs = int_octets (i div 256)"
    have IH: "be_int bs = i div 256" "minimal_int bs" using 1 [OF False] by (simp_all add: bs_def)
    then have ne: "bs \<noteq> []" by auto
    have b: "int (unat (of_int (i mod 256) :: u8)) = i mod 256" by (simp add: unsigned_of_int take_bit_eq_mod)
    have oct: "int_octets i = bs @ [of_int (i mod 256)]" using int_octets_step [OF False] by (simp only: bs_def)
    have val: "be_int (int_octets i) = i" using be_int_snoc [OF ne, of "of_int (i mod 256)"] unfolding oct b IH by simp
    have "minimal_int (int_octets i)"
    proof (cases "length bs = 1")
      case single: True
      then obtain a where "bs = [a]" by (auto simp: length_Suc_conv)
      then have "int_octets i = [a, of_int (i mod 256)]" using oct by simp
      moreover from this have "minimal_int [a, of_int (i mod 256)]"
        using val False minimal_two [of a "of_int (i mod 256)"] by metis
      ultimately show ?thesis by metis
    next
      case long: False
      then have "2 \<le> length bs" using ne by (cases bs) (auto simp: Suc_le_eq)
      then show ?thesis using IH(2) unfolding oct by (simp add: minimal_snoc)
    qed
    then show ?thesis using val by simp
  qed
qed

lemma int_octets_iff: "bs = int_octets i \<longleftrightarrow> minimal_int bs \<and> be_int bs = i"
  using be_int_int_octets int_octets_be_int by metis

section \<open>The readers\<close>

lemma CBS_is_valid_asn1_integer_eq:
  "CBS_is_valid_asn1_integer bs = (minimal_int bs, bs \<noteq> [] \<and> 128 \<le> unat (hd bs))"
proof (cases bs rule: minimal_int.cases)
  case 1
  then show ?thesis by (simp add: CBS_is_valid_asn1_integer_def)
next
  case (2 a)
  then show ?thesis by (simp add: CBS_is_valid_asn1_integer_def byte_and_80 Let_def not_less)
next
  case (3 a b cs)
  have "a = 0 \<longleftrightarrow> unat a = 0" "a = 0xff \<longleftrightarrow> unat a = 255" by (simp_all add: word_unat_eq_iff)
  then show ?thesis
    by (simp only: 3 CBS_is_valid_asn1_integer_def Let_def byte_and_80 minimal_int.simps not_less)
      (auto simp: byte_and_80)
qed

lemma CBS_is_valid_asn1_integer_iff:
  "CBS_is_valid_asn1_integer bs = (True, neg) \<longleftrightarrow> (\<exists>i. bs = int_octets i \<and> neg = (i < 0))"
proof -
  have "minimal_int bs \<Longrightarrow> (be_int bs < 0) = (bs \<noteq> [] \<and> 128 \<le> unat (hd bs))"
    using be_int_sign [of bs] by (cases bs) auto
  then show ?thesis
    unfolding CBS_is_valid_asn1_integer_eq int_octets_iff by auto
qed

lemma CBS_get_asn1_uint64_loop_eq:
  "CBS_get_asn1_uint64_loop out data =
    (if be_val_acc (unat out) data < 2 ^ 64 then Some (of_nat (be_val_acc (unat out) data)) else None)"
proof (induction data arbitrary: out)
  case Nil
  then show ?case using unsigned_less [of out, where 'a = nat] by simp
next
  case (Cons b data)
  have "drop_bit 56 out = 0 \<longleftrightarrow> unat out < 2 ^ 56"
    by (simp add: unat_eq_0 [symmetric] unat_drop_bit div_eq_0_iff)
  moreover have "2 ^ 64 \<le> be_val_acc (unat out * 256 + unat b) data" if "2 ^ 56 \<le> unat out"
  proof -
    have "(2 ^ 64 :: nat) * 1 \<le> (unat out * 256 + unat b) * 256 ^ length data"
      using that by (intro mult_le_mono) simp_all
    then show ?thesis using be_val_acc_eq [of "unat out * 256 + unat b" data] by linarith
  qed
  moreover have "unat (push_bit 8 out OR ucast b) = unat out * 256 + unat b" if "unat out < 2 ^ 56"
  proof -
    have "unat out * 256 + unat b < 2 ^ 64" using that unat_lt8 [of b] by (simp del: unat_lt8)
    then show ?thesis by (subst unat_push_bit_or) (simp_all add: unat_ucast_up)
  qed
  ultimately show ?case
    by (cases "unat out < 2 ^ 56") (simp_all add: Cons.IH)
qed

lemma be_int_nonneg: "bs \<noteq> [] \<Longrightarrow> 0 \<le> be_int bs \<Longrightarrow> be_int bs = int (be_val bs)"
  using be_int_sign [of bs] by (simp add: be_int_def)

lemma length_int_octets_le: "length (int_octets i) \<le> n" if "-(2 ^ (8 * n - 1)) \<le> i" "i < 2 ^ (8 * n - 1)" "1 \<le> n" for i :: int
  using that
proof (induction n arbitrary: i)
  case (Suc n)
  show ?case
  proof (cases "-128 \<le> i \<and> i < 128")
    case True
    then show ?thesis by (simp add: int_octets.simps)
  next
    case False
    then have n: "1 \<le> n" using Suc.prems by (cases n) auto
    define P where "P = (2 :: int) ^ (8 * n - 1)"
    have "8 * Suc n - 1 = 8 + (8 * n - 1)" using n by simp
    then have "(2 :: int) ^ (8 * Suc n - 1) = 256 * P" unfolding P_def by (simp only: power_add) simp
    then have "-P \<le> i div 256 \<and> i div 256 < P" using Suc.prems(1,2) by linarith
    then show ?thesis using Suc.IH [of "i div 256"] n int_octets_step [OF False] by (simp add: P_def)
  qed
qed simp

lemma length_uint64_octets: "length (int_octets (uint (v :: u64))) \<le> 9"
proof (rule length_int_octets_le)
  have range: "0 \<le> uint v" "uint v < 2 ^ 64" using uint_lt2p [of v] by simp_all
  show "- (2 ^ (8 * 9 - 1)) \<le> uint v" using range(1) by (rule order_trans [rotated]) simp
  show "uint v < 2 ^ (8 * 9 - 1)" using range(2) by (rule order_less_le_trans) simp
qed simp

lemma CBS_get_asn1_uint64_exact:
  "CBS_get_asn1_uint64 bs = (Some v, rest) \<longleftrightarrow> bs = der_elem CBS_ASN1_INTEGER (int_octets (uint v)) @ rest"
proof
  assume "CBS_get_asn1_uint64 bs = (Some v, rest)"
  then obtain c where c: "bs = der_elem CBS_ASN1_INTEGER c @ rest" "CBS_is_unsigned_asn1_integer c"
    "CBS_get_asn1_uint64_loop 0 c = Some v"
    by (auto simp: CBS_get_asn1_uint64_def op_bind_eq_Some CBS_get_asn1_iff split: if_splits option.splits)
  from c(2) obtain i where i: "c = int_octets i" "0 \<le> i"
    using CBS_is_valid_asn1_integer_iff [of c False]
    by (auto simp: CBS_is_unsigned_asn1_integer_def not_less split: prod.splits)
  have "int_octets i \<noteq> []" using be_int_int_octets [of i] by auto
  then have "i = int (be_val c)" using be_int_nonneg [of c] be_int_int_octets [of i] i by auto
  moreover have "be_val c < 2 ^ 64" "v = of_nat (be_val c)"
    using c(3) by (simp_all add: CBS_get_asn1_uint64_loop_eq split: if_splits)
  ultimately have "unat v = be_val c" by (simp add: unat_of_nat_small)
  with \<open>i = int (be_val c)\<close> have "i = uint v" by (metis of_nat_unat)
  then show "bs = der_elem CBS_ASN1_INTEGER (int_octets (uint v)) @ rest" using c i by simp
next
  assume bs: "bs = der_elem CBS_ASN1_INTEGER (int_octets (uint v)) @ rest"
  let ?c = "int_octets (uint v)"
  have ne: "?c \<noteq> []" using be_int_int_octets [of "uint v"] by auto
  have len: "length ?c < 2 ^ 32" using length_uint64_octets [of v] by simp
  have "int (be_val ?c) = uint v"
    using be_int_nonneg [OF ne] be_int_int_octets [of "uint v"] by simp
  then have "int (be_val ?c) = int (unat v)" by (simp only: of_nat_unat)
  then have val: "be_val ?c = unat v" by (simp only: of_nat_eq_iff)
  have "CBS_is_unsigned_asn1_integer ?c"
    using CBS_is_valid_asn1_integer_iff [of ?c False] by (auto simp: CBS_is_unsigned_asn1_integer_def)
  moreover have "CBS_get_asn1_uint64_loop 0 ?c = Some v"
    using val unsigned_less [of v, where 'a = nat] by (simp add: CBS_get_asn1_uint64_loop_eq)
  ultimately show "CBS_get_asn1_uint64 bs = (Some v, rest)"
    using len by (simp add: CBS_get_asn1_uint64_def op_bind_def bs op_return_def)
qed

text \<open>The signed reader: eight octets after sign extension, read as a signed word.\<close>

lemma int_be_val_less: "int (be_val bs) < 256 ^ length bs"
  using be_val_less [of bs] by (metis of_nat_less_iff of_nat_numeral of_nat_power)

lemma be_int_cases: "be_int bs = int (be_val bs) \<or> be_int bs = int (be_val bs) - 256 ^ length bs"
  by (auto simp: be_int_def)

lemma be_int_less: "be_int bs < 256 ^ length bs \<and> - (256 ^ length bs) \<le> be_int bs"
proof -
  have "(0 :: int) < 256 ^ length bs" by simp
  with int_be_val_less [of bs] be_int_cases [of bs] show ?thesis by linarith
qed

lemma be_int_extend:
  assumes "bs \<noteq> []"
  shows "be_int (replicate k (if be_int bs < 0 then 0xff else 0) @ bs) = be_int bs"
proof (induction k)
  case (Suc k)
  define ext where "ext = replicate k (if be_int bs < 0 then 0xff else 0 :: byte) @ bs"
  have ne: "ext \<noteq> []" using assms by (simp add: ext_def)
  have IH: "be_int ext = be_int bs" using Suc by (simp add: ext_def)
  have sgn: "128 \<le> unat (hd ext) \<longleftrightarrow> be_int bs < 0" using be_int_sign [OF ne] IH by simp
  have "be_int (x # ext) = be_int ext" if x: "x = (if be_int bs < 0 then 0xff else 0)" for x :: byte
  proof (cases "be_int bs < 0")
    case True
    then have "be_int [x] = -1" using x by (simp add: be_int_single)
    then show ?thesis using be_int_Cons [of x ext] True sgn ne unfolding be_int_def [of ext] by simp
  next
    case False
    then have "be_int [x] = 0" using x by (simp add: be_int_single)
    then show ?thesis using be_int_Cons [of x ext] False sgn ne unfolding be_int_def [of ext] by simp
  qed
  then show ?case using IH unfolding ext_def by simp
qed simp

lemma sint_be_val: "length bs = 8 \<Longrightarrow> sint (of_nat (be_val bs) :: u64) = be_int bs"
proof -
  assume len: "length bs = 8"
  then obtain a cs where bs: "bs = a # cs" "length cs = 7" by (cases bs) auto
  have v: "be_val bs < 2 ^ 64" using be_val_less [of bs] len by simp
  have "unat (of_nat (be_val bs) :: u64) = be_val bs" using v by (intro unat_of_nat_small) simp
  from arg_cong [OF this, of int] have u: "uint (of_nat (be_val bs) :: u64) = int (be_val bs)"
    by (simp only: of_nat_unat)
  have val: "be_val bs = unat a * 2 ^ 56 + be_val cs" using bs be_val_Cons [of a cs] by simp
  have cs: "be_val cs < 2 ^ 56" using be_val_less [of cs] bs(2) by simp
  have s: "sint (of_nat (be_val bs) :: u64) =
      (if int (be_val bs) < 2 ^ 63 then int (be_val bs) else int (be_val bs) - 2 ^ 64)"
  proof -
    have "bit (int (be_val bs)) 63 \<longleftrightarrow> odd (int (be_val bs) div 2 ^ 63)" by (rule bit_iff_odd)
    moreover have "int (be_val bs) div 2 ^ 63 = (if int (be_val bs) < 2 ^ 63 then 0 else 1)"
      using v by (auto intro!: div_pos_pos_trivial int_div_pos_eq [where r = "int (be_val bs) - 2 ^ 63"])
    ultimately have b: "bit (int (be_val bs)) 63 \<longleftrightarrow> \<not> int (be_val bs) < 2 ^ 63" by simp
    have "take_bit (Suc 63) (int (be_val bs)) = int (be_val bs)"
      using v by (simp add: take_bit_eq_mod)
    moreover have "sint (of_nat (be_val bs) :: u64) = signed_take_bit 63 (int (be_val bs))"
      unfolding sint_uint u by simp
    ultimately show ?thesis unfolding signed_take_bit_eq_take_bit_minus b by simp
  qed
  have "128 \<le> unat a \<longleftrightarrow> 2 ^ 63 \<le> be_val bs" using val cs by auto
  then show ?thesis unfolding s be_int_def using bs len by (auto simp del: be_val_acc.simps)
qed

lemma CBS_get_asn1_int64_exact:
  "CBS_get_asn1_int64 bs = (Some v, rest) \<longleftrightarrow> bs = der_elem CBS_ASN1_INTEGER (int_octets (sint v)) @ rest"
proof
  assume "CBS_get_asn1_int64 bs = (Some v, rest)"
  then obtain c s' where get: "CBS_get_asn1 CBS_ASN1_INTEGER bs = (Some c, s')"
    and body: "(let (valid, is_negative) = CBS_is_valid_asn1_integer c; len = CBS_len c in
     if \<not> valid then op_fail else if len > 8 then op_fail
     else op_return (word_of_le_bytes (rev c @ replicate (8 - len) (if is_negative then 0xff else 0)))) s' = (Some v, rest)"
    unfolding CBS_get_asn1_int64_def op_bind_eq_Some by (elim exE conjE)
  obtain valid neg where vn: "CBS_is_valid_asn1_integer c = (valid, neg)" by fastforce
  from body have c: "CBS_is_valid_asn1_integer c = (True, neg)" "length c \<le> 8" "s' = rest"
    "v = word_of_le_bytes (rev c @ replicate (8 - length c) (if neg then 0xff else 0))"
    unfolding vn Let_def CBS_len_def by (simp_all split: if_splits)
  from c(1) obtain i where i: "c = int_octets i" "neg = (i < 0)"
    unfolding CBS_is_valid_asn1_integer_iff by (elim exE conjE)
  have ci: "be_int c = i" "c \<noteq> []" using be_int_int_octets [of i] i by auto
  let ?ext = "replicate (8 - length c) (if be_int c < 0 then 0xff else 0) @ c"
  have "v = of_nat (be_val ?ext)" using c(4) i ci by (simp add: word_of_le_bytes_def)
  then have "sint v = be_int ?ext" using c(2) sint_be_val [of ?ext] by simp
  then have "sint v = i" using be_int_extend [OF ci(2)] ci(1) by simp
  then show "bs = der_elem CBS_ASN1_INTEGER (int_octets (sint v)) @ rest"
    using get c(3) i(1) by (simp add: CBS_get_asn1_iff)
next
  assume bs: "bs = der_elem CBS_ASN1_INTEGER (int_octets (sint v)) @ rest"
  let ?c = "int_octets (sint v)"
  have ne: "?c \<noteq> []" and ci: "be_int ?c = sint v" using be_int_int_octets [of "sint v"] by auto
  have range: "- (2 ^ 63) \<le> sint v" "sint v < 2 ^ 63" using sint_range_size [of v] by (simp_all add: word_size)
  have len: "length ?c \<le> 8" by (rule length_int_octets_le) (use range in simp_all)
  have valid: "CBS_is_valid_asn1_integer ?c = (True, sint v < 0)" using CBS_is_valid_asn1_integer_iff by blast
  let ?ext = "replicate (8 - length ?c) (if sint v < 0 then 0xff else 0) @ ?c"
  have "sint (of_nat (be_val ?ext) :: u64) = sint v"
    using sint_be_val [of ?ext] be_int_extend [OF ne, of "8 - length ?c"] len unfolding ci by simp
  then have "(of_nat (be_val ?ext) :: u64) = v" by (rule signed_word_eqI)
  then have "word_of_le_bytes (rev ?c @ replicate (8 - length ?c) (if sint v < 0 then 0xff else 0)) = v"
    by (simp add: word_of_le_bytes_def)
  then show "CBS_get_asn1_int64 bs = (Some v, rest)"
    using len valid by (simp add: CBS_get_asn1_int64_def op_bind_def bs CBS_len_def Let_def op_return_def)
qed

section \<open>The writers\<close>

text \<open>The loop skips leading zero octets and writes a zero in front of a set sign bit.\<close>

fun emit_octets :: "bool \<Rightarrow> byte list \<Rightarrow> byte list" where
  "emit_octets started [] = []"
| "emit_octets started (b # bs) =
     (if \<not> started \<and> b = 0 then emit_octets False bs
      else (if \<not> started \<and> 128 \<le> unat b then [0] else []) @ b # emit_octets True bs)"

lemma emit_octets_started [simp]: "emit_octets True bs = bs"
  by (induction bs) auto

lemma abs_bind_return_eta: "abs_bind f abs_return = f"
  by (rule ext) (auto simp: abs_bind_def abs_return_def split: Option.bind_splits)

lemma cbb_op_uint64_loop:
  "cbb_op (add_asn1_uint64_loop child v is started)
    (abs_bind (abs_adds child (emit_octets started (map (\<lambda>i. ucast (drop_bit (8 * (7 - i)) v AND 0xff)) is)))
      (\<lambda>_. abs_return (started \<or> (\<exists>i \<in> set is. ucast (drop_bit (8 * (7 - i)) v AND 0xff) \<noteq> (0 :: u8)))))"
proof (induction "is" arbitrary: started)
  case Nil
  show ?case
    by (simp only: add_asn1_uint64_loop.simps list.map emit_octets.simps abs_adds.simps abs_bind_return
      list.set bex_empty simp_thms cbb_op_return)
next
  case (Cons i "is")
  define byte where "byte = (ucast (drop_bit (8 * (7 - i)) v AND 0xff) :: u8)"
  show ?case
  proof (cases "\<not> started \<and> byte = 0")
    case True
    then show ?thesis using Cons [of False] by (simp add: byte_def [symmetric])
  next
    case False
    let ?rest = "map (\<lambda>i. ucast (drop_bit (8 * (7 - i)) v AND 0xff)) is"
    have tail: "cbb_op (op_bind (CBB_add_u8 child byte) (\<lambda>_. add_asn1_uint64_loop child v is True))
        (abs_bind (abs_adds child (byte # ?rest)) (\<lambda>_. abs_return True))"
      using cbb_op_bind [OF add_u8.cbb_op_axioms [of child byte] Cons [of True]]
      by (simp add: abs_bind_assoc)
    have lead: "cbb_op (if \<not> started \<and> byte AND 0x80 \<noteq> 0 then CBB_add_u8 child 0 else op_return ())
        (abs_adds child (if \<not> started \<and> 128 \<le> unat byte then [0] else []))"
      using add_u8.cbb_op_axioms [of child 0] cbb_op_return [of "()"]
      by (auto simp: byte_and_80 abs_bind_return_eta not_less)
    have adds: "abs_bind (abs_adds child xs) (\<lambda>_. abs_bind (abs_adds child ys) g) = abs_bind (abs_adds child (xs @ ys)) g"
      for xs ys and g :: "unit \<Rightarrow> bool abs_op"
      by (induction xs) (simp_all add: abs_bind_assoc)
    have "cbb_op (op_bind (if \<not> started \<and> byte AND 0x80 \<noteq> 0 then CBB_add_u8 child 0 else op_return ())
          (\<lambda>_. op_bind (CBB_add_u8 child byte) (\<lambda>_. add_asn1_uint64_loop child v is True)))
        (abs_bind (abs_adds child ((if \<not> started \<and> 128 \<le> unat byte then [0] else []) @ byte # ?rest)) (\<lambda>_. abs_return True))"
      using cbb_op_bind [OF lead tail] unfolding adds .
    moreover have "add_asn1_uint64_loop child v (i # is) started =
        op_bind (if \<not> started \<and> byte AND 0x80 \<noteq> 0 then CBB_add_u8 child 0 else op_return ())
          (\<lambda>_. op_bind (CBB_add_u8 child byte) (\<lambda>_. add_asn1_uint64_loop child v is True))"
      by (subst add_asn1_uint64_loop.simps(2)) (simp only: Let_def byte_def [symmetric] False if_False)
    moreover have "(started \<or> (\<exists>i \<in> set (i # is). ucast (drop_bit (8 * (7 - i)) v AND 0xff) \<noteq> (0 :: u8))) = True"
      using False by (auto simp: byte_def)
    moreover have "emit_octets started (byte # ?rest) = (if \<not> started \<and> 128 \<le> unat byte then [0] else []) @ byte # ?rest"
      using False by auto
    ultimately show ?thesis by (simp only: list.map byte_def [symmetric])
  qed
qed

lemma be_bytes_map: "be_bytes (Suc k) n = map (\<lambda>i. of_nat (n div 256 ^ (k - i))) [0..<Suc k]"
proof (induction k arbitrary: n)
  case (Suc k)
  have "map (\<lambda>i. of_nat (n div 256 div 256 ^ (k - i))) [0..<Suc k] = map (\<lambda>i. of_nat (n div 256 ^ (Suc k - i)) :: byte) [0..<Suc k]"
    by (intro map_cong refl) (auto simp add: Suc_diff_le le_simps div_mult2_eq [symmetric])
  with Suc [of "n div 256"] show ?case by (subst be_bytes.simps(2)) simp
qed simp

lemma uint64_octets: "map (\<lambda>i. ucast (drop_bit (8 * (7 - i)) v AND 0xff)) [0..<8] = be_bytes 8 (unat v)"
proof -
  have "ucast (drop_bit (8 * k) v AND 0xff) = (of_nat (unat v div 256 ^ k) :: u8)" for k
  proof -
    have "(2 :: nat) ^ (8 * k) = 256 ^ k" by (simp add: power_mult)
    then have "unat (drop_bit (8 * k) v AND 0xff) = unat v div 256 ^ k mod 256"
      using unat_and_mask [of "drop_bit (8 * k) v" 8] by (simp add: mask_eq_exp_minus_1 unat_drop_bit)
    then show ?thesis by (simp add: word_unat_eq_iff unat_ucast_mod)
  qed
  note B = this
  have "be_bytes (Suc 7) (unat v) = map (\<lambda>i. of_nat (unat v div 256 ^ (7 - i))) [0..<Suc 7]"
    by (rule be_bytes_map)
  moreover have "Suc 7 = 8" by simp
  ultimately show ?thesis by (simp only: B)
qed

lemma emit_zeros: "\<forall>b \<in> set bs. b = 0 \<Longrightarrow> emit_octets False bs = []"
  by (induction bs) auto

lemma emit_minimal:
  assumes "\<exists>b \<in> set bs. b \<noteq> 0"
  shows "minimal_int (emit_octets False bs) \<and> be_int (emit_octets False bs) = int (be_val bs)"
  using assms
proof (induction bs)
  case (Cons b bs)
  show ?case
  proof (cases "b = 0")
    case True
    then show ?thesis using Cons by (simp add: be_val_Cons)
  next
    case False
    then have pos: "unat b \<noteq> 0" by (simp add: unat_eq_0)
    have "minimal_int (b # bs)" if "unat b < 128"
      using that pos by (cases bs) auto
    then show ?thesis using False pos
      by (auto simp: be_int_def be_val_Cons simp del: be_val_acc.simps of_nat_unat)
  qed
qed simp

lemma be_val_eq_0: "be_val bs = 0 \<longleftrightarrow> (\<forall>b \<in> set bs. b = 0)"
  by (induction bs) (auto simp: be_val_Cons unat_eq_0 simp del: be_val_acc.simps(2))

lemma be_val_be_bytes8: "be_val (be_bytes 8 (unat (v :: u64))) = unat v"
proof -
  have "unat v < 256 ^ 8" by (rule order_less_le_trans [OF unsigned_less]) simp
  then show ?thesis unfolding be_val_be_bytes by (rule mod_less)
qed

lemma be_bytes8_nonzero: "(\<exists>b \<in> set (be_bytes 8 (unat (v :: u64))). b \<noteq> 0) \<longleftrightarrow> v \<noteq> 0"
  using be_val_eq_0 [of "be_bytes 8 (unat v)"] unfolding be_val_be_bytes8 by (auto simp: unat_eq_0)

lemma uint64_contents:
  "int_octets (uint (v :: u64)) = (if v = 0 then [0] else emit_octets False (be_bytes 8 (unat v)))"
proof (cases "v = 0")
  case True
  then show ?thesis by (simp add: int_octets.simps)
next
  case False
  let ?c = "emit_octets False (be_bytes 8 (unat v))"
  have "minimal_int ?c \<and> be_int ?c = int (unat v)"
    using emit_minimal [of "be_bytes 8 (unat v)"] False unfolding be_bytes8_nonzero be_val_be_bytes8 by blast
  then have "?c = int_octets (uint v)" unfolding int_octets_iff by simp
  then show ?thesis using False by simp
qed

lemma cbb_op_uint64: "cbb_op (CBB_add_asn1_uint64 h v) (abs_add h (der_elem CBS_ASN1_INTEGER (int_octets (uint v))))"
proof -
  let ?bytes = "be_bytes 8 (unat v)"
  let ?started = "\<exists>i \<in> set [0..<8]. ucast (drop_bit (8 * (7 - i)) v AND 0xff) \<noteq> (0 :: u8)"
  define fin where "fin = (\<lambda>started. op_bind (if \<not> started then CBB_add_u8 (h + 1) 0 else op_return ()) (\<lambda>_. CBB_flush h))"
  define fin_abs where "fin_abs = (\<lambda>started. abs_bind (abs_adds (h + 1) (if \<not> started then [0] else [])) (\<lambda>_. abs_flush h))"
  have loop: "cbb_op (add_asn1_uint64_loop (h + 1) v [0..<8] False)
      (abs_bind (abs_adds (h + 1) (emit_octets False ?bytes)) (\<lambda>_. abs_return ?started))"
    using cbb_op_uint64_loop [of "h + 1" v "[0..<8]" False] unfolding uint64_octets by (simp only: simp_thms)
  have fin: "cbb_op (fin started) (fin_abs started)" for started
  proof -
    have "cbb_op (if \<not> started then CBB_add_u8 (h + 1) 0 else op_return ()) (abs_adds (h + 1) (if \<not> started then [0] else []))"
      using add_u8.cbb_op_axioms [of "h + 1" 0] cbb_op_return [of "()"] by (auto simp: abs_bind_return_eta)
    then show ?thesis unfolding fin_def fin_abs_def by (rule cbb_op_bind [OF _ flush.cbb_op_axioms])
  qed
  have "?started \<longleftrightarrow> (\<exists>b \<in> set ?bytes. b \<noteq> 0)" unfolding uint64_octets [symmetric] by simp
  also have "\<dots> \<longleftrightarrow> v \<noteq> 0" by (rule be_bytes8_nonzero)
  finally have started: "?started = (v \<noteq> 0)" .
  have adds: "abs_bind (abs_adds (h + 1) xs) (\<lambda>_. abs_bind (abs_adds (h + 1) ys) g) = abs_bind (abs_adds (h + 1) (xs @ ys)) g"
    for xs ys and g :: "unit \<Rightarrow> unit abs_op"
    by (induction xs) (simp_all add: abs_bind_assoc)
  have out: "emit_octets False ?bytes @ (if \<not> v \<noteq> 0 then [0] else []) = int_octets (uint v)"
  proof (cases "v = 0")
    case True
    then have "\<forall>b \<in> set ?bytes. b = 0" using be_bytes8_nonzero [of v] by blast
    then have "emit_octets False ?bytes = []" by (rule emit_zeros)
    then show ?thesis using True by (simp only: uint64_contents if_True if_False simp_thms append_Nil)
  qed (simp only: uint64_contents if_True if_False simp_thms append_Nil2)
  have ne: "int_octets (uint v) \<noteq> []" using be_int_int_octets [of "uint v"] by auto
  have "cbb_op (op_bind (CBB_add_asn1 h CBS_ASN1_INTEGER) (\<lambda>_. op_bind (add_asn1_uint64_loop (h + 1) v [0..<8] False) fin))
      (abs_bind (abs_asn1 h CBS_ASN1_INTEGER) (\<lambda>_. abs_bind (abs_bind (abs_adds (h + 1) (emit_octets False ?bytes)) (\<lambda>_. abs_return ?started)) fin_abs))"
    by (rule cbb_op_bind [OF add_asn1.cbb_op_axioms cbb_op_bind [OF loop fin]])
  also have "abs_bind (abs_bind (abs_adds (h + 1) (emit_octets False ?bytes)) (\<lambda>_. abs_return ?started)) fin_abs =
      abs_bind (abs_add (h + 1) (int_octets (uint v))) (\<lambda>_. abs_flush h)"
    unfolding abs_bind_assoc abs_bind_return started fin_abs_def adds out abs_adds_eq [OF ne] ..
  also have "abs_bind (abs_asn1 h CBS_ASN1_INTEGER) (\<lambda>_. abs_bind (abs_add (h + 1) (int_octets (uint v))) (\<lambda>_. abs_flush h)) =
      abs_add h (der_elem CBS_ASN1_INTEGER (int_octets (uint v)))"
    using length_uint64_octets [of v] by (intro abs_asn1_contents) simp
  finally show ?thesis unfolding CBB_add_asn1_uint64_def fin_def .
qed

text \<open>Negative integers: the loop drops sign octets from the top.\<close>

lemma rev_take_Suc: "Suc s < length bytes \<Longrightarrow> rev (take (Suc (Suc s)) bytes) = bytes ! Suc s # rev (take (Suc s) bytes)"
  by (subst take_Suc_conv_app_nth) simp_all

lemma cbb_op_bytes_down:
  "s < length bytes \<Longrightarrow> cbb_op (add_bytes_down child bytes s) (abs_adds child (rev (take (Suc s) bytes)))"
proof (induction s)
  case 0
  then have "rev (take (Suc 0) bytes) = [bytes ! 0]" by (cases bytes) auto
  then show ?case using add_u8.cbb_op_axioms [of child "bytes ! 0"] by (simp add: abs_bind_return_eta)
next
  case (Suc s)
  have "cbb_op (add_bytes_down child bytes (Suc s)) (abs_bind (abs_add child [bytes ! Suc s]) (\<lambda>_. abs_adds child (rev (take (Suc s) bytes))))"
    using cbb_op_bind [OF add_u8.cbb_op_axioms Suc.IH] Suc.prems by simp
  then show ?case by (simp only: rev_take_Suc [OF Suc.prems] abs_adds.simps)
qed

lemma int64_start_le: "int64_start bytes s \<le> s"
  by (induction bytes s rule: int64_start.induct) auto

lemma int64_start_minimal:
  assumes "s < length bytes" and "be_int (rev (take (Suc s) bytes)) < 0"
  shows "minimal_int (rev (take (Suc (int64_start bytes s)) bytes)) \<and>
    be_int (rev (take (Suc (int64_start bytes s)) bytes)) = be_int (rev (take (Suc s) bytes))"
  using assms
proof (induction s)
  case 0
  then show ?case by (cases bytes) auto
next
  case (Suc s)
  define c where "c = rev (take s bytes)"
  have c: "rev (take (Suc s) bytes) = bytes ! s # c"
    using Suc.prems(1) by (subst take_Suc_conv_app_nth) (simp_all add: c_def)
  note top = rev_take_Suc [OF Suc.prems(1)]
  show ?case
  proof (cases "bytes ! Suc s = 0xff \<and> bytes ! s AND 0x80 \<noteq> 0")
    case True
    then have "128 \<le> unat (hd (bytes ! s # c))" by (simp add: byte_and_80)
    then have neg: "be_int (bytes ! s # c) < 0" using be_int_sign [of "bytes ! s # c"] by simp
    have "be_int (0xff # bytes ! s # c) = be_int (bytes ! s # c)"
      using be_int_extend [of "bytes ! s # c" 1] neg by simp
    then have "be_int (rev (take (Suc (Suc s)) bytes)) = be_int (rev (take (Suc s) bytes))"
      using True unfolding top c by simp
    moreover have "int64_start bytes (Suc s) = int64_start bytes s" using True by simp
    ultimately show ?thesis using Suc.IH Suc.prems neg unfolding c by simp
  next
    case False
    have "128 \<le> unat (bytes ! Suc s)"
      using Suc.prems(2) be_int_sign [of "bytes ! Suc s # bytes ! s # c"] unfolding top c by simp
    moreover have "unat (bytes ! Suc s) = 255 \<longleftrightarrow> bytes ! Suc s = 0xff" by (simp add: word_unat_eq_iff)
    ultimately have "minimal_int (bytes ! Suc s # bytes ! s # c)"
      using False by (auto simp: byte_and_80)
    moreover have "int64_start bytes (Suc s) = Suc s" using False by auto
    ultimately show ?thesis unfolding top c by (simp only: top c)
  qed
qed

lemma int64_contents:
  assumes "sint (v :: u64) < 0"
  shows "rev (take (Suc (int64_start (le_bytes_of_word v) 7)) (le_bytes_of_word v)) = int_octets (sint v)"
proof -
  let ?b = "le_bytes_of_word v"
  have len: "length ?b = 8" by (simp add: le_bytes_of_word_def)
  have "rev (take (Suc 7) ?b) = be_bytes 8 (unat v)" by (simp add: le_bytes_of_word_def)
  moreover have "be_int (be_bytes 8 (unat v)) = sint v"
    using sint_be_val [of "be_bytes 8 (unat v)"] unfolding be_val_be_bytes8 by simp
  ultimately have "be_int (rev (take (Suc 7) ?b)) = sint v" by simp
  then show ?thesis
    using int64_start_minimal [of 7 ?b] len assms unfolding int_octets_iff by simp
qed

lemma length_int64_octets: "length (int_octets (sint (v :: u64))) \<le> 8"
proof (rule length_int_octets_le)
  have "- (2 ^ 63) \<le> sint v" "sint v < 2 ^ 63" using sint_range_size [of v] by (simp_all add: word_size)
  then show "- (2 ^ (8 * 8 - 1)) \<le> sint v" "sint v < 2 ^ (8 * 8 - 1)" by simp_all
qed simp

lemma cbb_op_int64: "cbb_op (CBB_add_asn1_int64 h v) (abs_add h (der_elem CBS_ASN1_INTEGER (int_octets (sint v))))"
proof (cases "sint v \<ge> 0")
  case True
  then have "sint v = uint v"
    using sint_range_size [of v] by (simp add: uint_sint take_bit_eq_mod word_size)
  then show ?thesis using True cbb_op_uint64 [of h v] by (simp add: CBB_add_asn1_int64_def)
next
  case False
  define bytes where "bytes = le_bytes_of_word v"
  define start where "start = int64_start bytes 7"
  have c: "rev (take (Suc start) bytes) = int_octets (sint v)"
    using int64_contents [of v] False unfolding start_def bytes_def by simp
  have "start < length bytes"
    using int64_start_le [of bytes 7] by (simp add: start_def bytes_def le_bytes_of_word_def)
  from cbb_op_bytes_down [OF this, of "h + 1"] 
  have "cbb_op (add_bytes_down (h + 1) bytes start) (abs_adds (h + 1) (int_octets (sint v)))" unfolding c .
  moreover have "int_octets (sint v) \<noteq> []" using be_int_int_octets [of "sint v"] by auto
  ultimately have "cbb_op (add_bytes_down (h + 1) bytes start) (abs_add (h + 1) (int_octets (sint v)))"
    using abs_adds_eq by simp
  then have "cbb_op (op_bind (CBB_add_asn1 h CBS_ASN1_INTEGER) (\<lambda>_. op_bind (add_bytes_down (h + 1) bytes start) (\<lambda>_. CBB_flush h)))
      (abs_add h (der_elem CBS_ASN1_INTEGER (int_octets (sint v))))"
    using length_int64_octets [of v] by (intro cbb_op_contents) simp_all
  then show ?thesis using False unfolding CBB_add_asn1_int64_def Let_def bytes_def start_def by simp
qed

end
