(* ===== verification/Bytestring_OID.thy ===== *)
theory Bytestring_OID
  imports DER_Integer
begin

text \<open>
  Object identifiers in dotted decimal: \<open>CBB_add_asn1_oid_from_text\<close> of \<open>cbb.c\<close> and
  \<open>CBS_asn1_oid_to_text\<close> of \<open>cbs.c\<close>. Text is a byte string; \<open>0x2e\<close> is the dot and
  \<open>0x30\<close> the digit zero. The two conversions are proved inverse to each other.
\<close>

section \<open>The code\<close>

definition UINT64_MAX :: u64 where "UINT64_MAX = 0xffffffffffffffff"

text \<open>The loop of \<open>parse_dotted_decimal\<close>; \<open>out\<close> is \<open>*out\<close>.\<close>

fun parse_dotted_decimal_loop :: "u64 \<Rightarrow> bool \<Rightarrow> CBS \<Rightarrow> u64 option \<times> CBS" where
  "parse_dotted_decimal_loop out seen_digit [] = (if seen_digit then Some out else None, [])"
| "parse_dotted_decimal_loop out seen_digit (u # cbs) =
     (if u = 0x2e \<and> CBS_len cbs > 0 then (if seen_digit then Some out else None, cbs)
      else if u < 0x30 \<or> u > 0x39 \<or> (seen_digit \<and> out = 0) \<or> out > UINT64_MAX div 10 \<or>
        out * 10 > UINT64_MAX - (ucast u - 0x30)
      then (None, cbs)
      else parse_dotted_decimal_loop (out * 10 + (ucast u - 0x30)) True cbs)"

definition parse_dotted_decimal :: "(CBS, u64) op" where
  "parse_dotted_decimal = parse_dotted_decimal_loop 0 False"

lemma parse_dotted_decimal_loop_shrinks:
  "parse_dotted_decimal_loop out seen cbs = (r, cbs') \<Longrightarrow> length cbs' \<le> length cbs"
  by (induction out seen cbs rule: parse_dotted_decimal_loop.induct)
    (auto simp: Let_def simp del: One_nat_def split: if_splits)

lemma parse_dotted_decimal_shrinks:
  "parse_dotted_decimal cbs = (r, cbs') \<Longrightarrow> cbs \<noteq> [] \<Longrightarrow> length cbs' < length cbs"
  by (cases cbs) (auto simp: parse_dotted_decimal_def le_imp_less_Suc split: if_splits
    dest: parse_dotted_decimal_loop_shrinks)

text \<open>The remaining components, encoded unmodified.\<close>

function add_oid_components :: "nat \<Rightarrow> CBS \<Rightarrow> (CBB, unit) op" where
  "add_oid_components h cbs =
     (if CBS_len cbs > 0 then
        (case parse_dotted_decimal cbs of
           (None, _) \<Rightarrow> op_fail
         | (Some a, cbs') \<Rightarrow> op_bind (add_base128_integer h a) (\<lambda>_. add_oid_components h cbs'))
      else op_return ())"
  by pat_completeness auto

termination
proof (relation "measure (\<lambda>(h, cbs). length cbs)")
  fix h :: nat and cbs cbs' :: CBS and r and a :: u64
  assume "0 < CBS_len cbs" and "(r, cbs') = parse_dotted_decimal cbs"
  then show "((h, cbs'), (h, cbs)) \<in> measure (\<lambda>(h, cbs). length cbs)"
    using parse_dotted_decimal_shrinks [of cbs r cbs'] by (simp add: CBS_len_def)
qed simp

declare add_oid_components.simps [simp del]

definition CBB_add_asn1_oid_from_text :: "nat \<Rightarrow> byte list \<Rightarrow> (CBB, unit) op" where
  "CBB_add_asn1_oid_from_text h txt =
     op_bind (CBB_flush h) (\<lambda>_.
       case parse_dotted_decimal txt of
         (None, _) \<Rightarrow> op_fail
       | (Some a, cbs) \<Rightarrow>
         (case parse_dotted_decimal cbs of
            (None, _) \<Rightarrow> op_fail
          | (Some b, cbs) \<Rightarrow>
              if a > 2 \<or> (a < 2 \<and> b > 39) \<or> b > UINT64_MAX - 80 then op_fail
              else op_bind (add_base128_integer h (40 * a + b)) (\<lambda>_. add_oid_components h cbs)))"

text \<open>\<open>snprintf\<close> with \<open>PRIu64\<close>: the decimal digits without leading zeros.\<close>

fun decimal :: "nat \<Rightarrow> byte list" where
  "decimal n = (if n < 10 then [of_nat (48 + n)] else decimal (n div 10) @ [of_nat (48 + n mod 10)])"

declare decimal.simps [simp del]

definition add_decimal :: "u64 \<Rightarrow> (CBB, unit) op" where
  "add_decimal v = CBB_add_bytes 0 (decimal (unat v))"

function add_oid_text :: "CBS \<Rightarrow> (CBB, unit) op" where
  "add_oid_text copy =
     (if CBS_len copy \<noteq> 0 then
        (case parse_base128_integer copy of
           (None, _) \<Rightarrow> op_fail
         | (Some v, copy') \<Rightarrow>
             op_bind (CBB_add_u8 0 0x2e) (\<lambda>_.
             op_bind (add_decimal v) (\<lambda>_. add_oid_text copy')))
      else op_return ())"
  by pat_completeness auto

termination
proof (relation "measure length")
  fix copy copy' :: CBS and r and v :: u64
  assume "(r, copy') = parse_base128_integer copy" and "r = Some v"
  then have "copy = b128 (unat v) @ copy'" using parse_base128_integer_iff by metis
  then show "(copy', copy) \<in> measure length" by (simp add: b128_def)
qed simp

declare add_oid_text.simps [simp del]

text \<open>The result is the malloced string with its NUL.\<close>

definition CBS_asn1_oid_to_text :: "(nat \<Rightarrow> bool) \<Rightarrow> CBS \<Rightarrow> byte list option" where
  "CBS_asn1_oid_to_text alloc cbs =
     (case CBB_init alloc 32 of
        (False, cbb) \<Rightarrow> None
      | (True, cbb) \<Rightarrow>
          (case parse_base128_integer cbs of
             (None, _) \<Rightarrow> None
           | (Some v, copy) \<Rightarrow>
               fst (op_bind
                 (if v \<ge> 80 then op_bind (CBB_add_bytes 0 [0x32, 0x2e]) (\<lambda>_. add_decimal (v - 80))
                  else op_bind (add_decimal (v div 40)) (\<lambda>_.
                       op_bind (CBB_add_u8 0 0x2e) (\<lambda>_. add_decimal (v mod 40)))) (\<lambda>_.
                 op_bind (add_oid_text copy) (\<lambda>_.
                 op_bind (CBB_add_u8 0 0) (\<lambda>_. CBB_finish 0 True True))) cbb)))"

section \<open>Decimal numerals\<close>

definition digit :: "byte \<Rightarrow> bool" where
  "digit b \<longleftrightarrow> 48 \<le> unat b \<and> unat b \<le> 57"

primrec dec_acc :: "nat \<Rightarrow> byte list \<Rightarrow> nat" where
  "dec_acc v [] = v"
| "dec_acc v (b # bs) = dec_acc (v * 10 + (unat b - 48)) bs"

text \<open>Digits, not empty, without stray leading zeros.\<close>

definition numeral_text :: "byte list \<Rightarrow> bool" where
  "numeral_text ds \<longleftrightarrow> ds \<noteq> [] \<and> list_all digit ds \<and> (unat (hd ds) = 48 \<longrightarrow> length ds = 1)"

lemma dec_acc_append: "dec_acc v (xs @ ys) = dec_acc (dec_acc v xs) ys"
  by (induction xs arbitrary: v) auto

lemma dec_acc_ge: "v \<le> dec_acc v ds"
proof (induction ds arbitrary: v)
  case (Cons d ds)
  show ?case using Cons [of "v * 10 + (unat d - 48)"] by simp
qed simp

lemma dec_acc_pos: "ds \<noteq> [] \<Longrightarrow> list_all digit ds \<Longrightarrow> unat (hd ds) \<noteq> 48 \<Longrightarrow> 0 < dec_acc 0 ds"
proof (cases ds)
  case (Cons d ds')
  assume "list_all digit ds" "unat (hd ds) \<noteq> 48"
  then have "0 < unat d - 48" by (simp add: Cons digit_def)
  then show ?thesis using dec_acc_ge [of "unat d - 48" ds'] by (simp add: Cons)
qed simp

lemma decimal_dec_acc: "numeral_text ds \<Longrightarrow> decimal (dec_acc 0 ds) = ds"
proof (induction ds rule: rev_induct)
  case (snoc d ds)
  have d: "digit d" using snoc.prems by (simp add: numeral_text_def)
  then have b: "(of_nat (48 + (unat d - 48)) :: byte) = d" "unat d - 48 < 10"
    unfolding digit_def by (simp, linarith)
  show ?case
  proof (cases "ds = []")
    case True
    then show ?thesis using b by (simp add: decimal.simps del: of_nat_add)
  next
    case False
    then have hd: "unat (hd ds) \<noteq> 48" and ds: "list_all digit ds"
      using snoc.prems by (auto simp: numeral_text_def)
    then have "numeral_text ds" using False by (simp add: numeral_text_def)
    then have IH: "decimal (dec_acc 0 ds) = ds" by (rule snoc.IH)
    have pos: "0 < dec_acc 0 ds" using dec_acc_pos [OF False ds hd] .
    have "decimal (dec_acc 0 ds * 10 + (unat d - 48)) = decimal (dec_acc 0 ds) @ [of_nat (48 + (unat d - 48))]"
      using pos b(2) by (subst decimal.simps) (simp del: of_nat_add)
    then show ?thesis using IH b(1) by (simp add: dec_acc_append del: of_nat_add)
  qed
qed (simp add: numeral_text_def)

lemma numeral_text_decimal: "numeral_text (decimal n) \<and> dec_acc 0 (decimal n) = n"
proof (induction n rule: decimal.induct)
  case (1 n)
  have d: "unat (of_nat (48 + n mod 10) :: byte) = 48 + n mod 10" for n
    by (intro unat_of_nat_small) simp
  show ?case
  proof (cases "n < 10")
    case True
    then show ?thesis using d [of n] by (simp add: decimal.simps [of n] numeral_text_def digit_def del: of_nat_add unat_of_nat_u8)
  next
    case False
    note IH = 1 [OF False]
    have "unat (hd (decimal (n div 10))) \<noteq> 48"
    proof
      assume z: "unat (hd (decimal (n div 10))) = 48"
      then obtain x where "decimal (n div 10) = [x]" "unat x = 48"
        using IH by (auto simp: numeral_text_def length_Suc_conv)
      then have "n div 10 = 0" using IH by simp
      then show False using False by (simp add: div_eq_0_iff)
    qed
    then show ?thesis using IH d [of n] False
      by (auto simp: decimal.simps [of n] numeral_text_def digit_def dec_acc_append simp del: of_nat_add unat_of_nat_u8)
  qed
qed

lemma length_decimal: "length (decimal n) \<le> max 1 n"
proof (induction n rule: decimal.induct)
  case (1 n)
  show ?case
  proof (cases "n < 10")
    case False
    then have "1 \<le> n div 10" "n div 10 + 1 \<le> n" by simp_all
    then show ?thesis using 1 [OF False] False by (simp add: decimal.simps [of n])
  qed (simp add: decimal.simps)
qed

lemma decimal_iff: "ds = decimal n \<longleftrightarrow> numeral_text ds \<and> dec_acc 0 ds = n"
  using decimal_dec_acc numeral_text_decimal by metis

section \<open>Parsing a component\<close>

text \<open>A component ends at the end of the string or at a dot that something follows.\<close>

definition component :: "byte list \<Rightarrow> byte list \<Rightarrow> CBS \<Rightarrow> bool" where
  "component ds bs rest \<longleftrightarrow> (bs = ds \<and> rest = []) \<or> (bs = ds @ 0x2e # rest \<and> rest \<noteq> [])"

lemma not_digit_dot: "\<not> digit 0x2e"
  by (simp add: digit_def)

lemma component_Nil: "component [] bs rest \<longleftrightarrow> (bs = [] \<and> rest = []) \<or> (bs = 0x2e # rest \<and> rest \<noteq> [])"
  by (simp add: component_def)

lemma component_Cons: "component (d # ds) (u # bs) rest \<longleftrightarrow> d = u \<and> component ds bs rest"
  by (auto simp: component_def)

lemma digit_range: "\<not> (u < 0x30 \<or> u > 0x39) \<longleftrightarrow> digit u"
  by (auto simp: digit_def word_less_nat_alt not_less)

text \<open>The overflow checks are exact.\<close>

lemma next_value:
  assumes "digit u"
  shows "\<not> (out > UINT64_MAX div 10 \<or> out * 10 > UINT64_MAX - (ucast u - 0x30)) \<longleftrightarrow>
      unat out * 10 + (unat u - 48) < 2 ^ 64"
    and "unat out * 10 + (unat u - 48) < 2 ^ 64 \<Longrightarrow>
      unat (out * 10 + (ucast u - 0x30)) = unat out * 10 + (unat u - 48)"
proof -
  define d where "d = unat u - 48"
  have d: "d < 10" using assms unfolding d_def digit_def by linarith
  have le: "(0x30 :: u64) \<le> ucast u"
    using assms by (simp add: word_le_nat_alt unat_ucast_up digit_def)
  have u: "unat (ucast u - 0x30 :: u64) = d"
    using unat_sub [OF le] by (simp add: unat_ucast_up d_def)
  have "(ucast u - 0x30 :: u64) \<le> UINT64_MAX" by (simp add: word_le_nat_alt u UINT64_MAX_def) (use d in linarith)
  then have m: "unat (UINT64_MAX - (ucast u - 0x30)) = 18446744073709551615 - d"
    using unat_sub [of "ucast u - 0x30" UINT64_MAX] by (simp add: u UINT64_MAX_def)
  have div: "unat (UINT64_MAX div 10) = 1844674407370955161" by (simp add: UINT64_MAX_def unat_div)
  have mul: "unat (out * 10) = unat out * 10" if "unat out \<le> 1844674407370955161"
    using that unat_mult_lem [of out 10] by simp
  show *: "\<not> (out > UINT64_MAX div 10 \<or> out * 10 > UINT64_MAX - (ucast u - 0x30)) \<longleftrightarrow>
      unat out * 10 + (unat u - 48) < 2 ^ 64"
  proof (cases "unat out \<le> 1844674407370955161")
    case True
    then show ?thesis using d by (simp add: word_less_nat_alt div m mul d_def [symmetric]) linarith
  next
    case False
    then show ?thesis by (simp add: word_less_nat_alt div)
  qed
  assume lt: "unat out * 10 + (unat u - 48) < 2 ^ 64"
  then have "unat out \<le> 1844674407370955161" by simp
  then have "unat (out * 10) + unat (ucast u - 0x30 :: u64) < 2 ^ LENGTH(64)"
    using lt by (simp add: u mul d_def)
  then show "unat (out * 10 + (ucast u - 0x30)) = unat out * 10 + (unat u - 48)"
    using unat_add_lem [of "out * 10" "ucast u - 0x30"] \<open>unat out \<le> 1844674407370955161\<close>
    by (simp add: u mul d_def)
qed

lemma parse_loop_iff:
  assumes "seen" and "out \<noteq> 0"
  shows "parse_dotted_decimal_loop out seen bs = (Some v, rest) \<longleftrightarrow>
    (\<exists>ds. list_all digit ds \<and> component ds bs rest \<and> dec_acc (unat out) ds = unat v)"
  using assms
proof (induction out seen bs rule: parse_dotted_decimal_loop.induct)
  case (1 out seen)
  have "(\<exists>ds. list_all digit ds \<and> component ds [] rest \<and> dec_acc (unat out) ds = unat v) \<longleftrightarrow> rest = [] \<and> out = v"
    by (auto simp: component_def word_unat_eq_iff)
  then show ?case using 1 by auto
next
  case (2 out seen u cbs)
  have rhs: "(\<exists>ds. list_all digit ds \<and> component ds (u # cbs) rest \<and> dec_acc (unat out) ds = unat v) \<longleftrightarrow>
      (u = 0x2e \<and> cbs = rest \<and> rest \<noteq> [] \<and> out = v) \<or>
      (digit u \<and> (\<exists>ds. list_all digit ds \<and> component ds cbs rest \<and> dec_acc (unat out * 10 + (unat u - 48)) ds = unat v))"
    (is "(\<exists>ds. ?P ds) \<longleftrightarrow> ?dot \<or> ?digit")
  proof
    assume "\<exists>ds. ?P ds"
    then obtain ds where ds: "?P ds" by blast
    show "?dot \<or> ?digit"
    proof (cases ds)
      case Nil
      then show ?thesis using ds by (auto simp: component_Nil word_unat_eq_iff)
    next
      case (Cons d ds')
      then show ?thesis using ds by (auto simp: component_Cons)
    qed
  next
    assume "?dot \<or> ?digit"
    then show "\<exists>ds. ?P ds"
    proof
      assume ?dot
      then show ?thesis by (intro exI [of _ "[]"]) (simp add: component_Nil)
    next
      assume ?digit
      then obtain ds where "digit u \<and> list_all digit ds \<and> component ds cbs rest \<and> dec_acc (unat out * 10 + (unat u - 48)) ds = unat v"
        by blast
      then show ?thesis by (intro exI [of _ "u # ds"]) (simp add: component_Cons)
    qed
  qed
  consider (dot) "u = 0x2e \<and> CBS_len cbs > 0" | (bad) "\<not> (u = 0x2e \<and> CBS_len cbs > 0)" "\<not> digit u"
    | (over) "\<not> (u = 0x2e \<and> CBS_len cbs > 0)" "digit u" "\<not> unat out * 10 + (unat u - 48) < 2 ^ 64"
    | (go) "\<not> (u = 0x2e \<and> CBS_len cbs > 0)" "digit u" "unat out * 10 + (unat u - 48) < 2 ^ 64" by blast
  then show ?case
  proof cases
    case dot
    then show ?thesis unfolding rhs using 2 not_digit_dot by (auto simp: CBS_len_def)
  next
    case bad
    then have "parse_dotted_decimal_loop out seen (u # cbs) = (None, cbs)"
      using digit_range [of u] by (subst parse_dotted_decimal_loop.simps) (simp only: if_False, metis)
    then show ?thesis unfolding rhs using bad by (auto simp: CBS_len_def)
  next
    case over
    then have fail: "parse_dotted_decimal_loop out seen (u # cbs) = (None, cbs)"
      using next_value(1) [OF over(2), of out] by (subst parse_dotted_decimal_loop.simps) (simp only: if_False, metis)
    have "2 ^ 64 \<le> dec_acc (unat out * 10 + (unat u - 48)) ds" for ds
      using over(3) dec_acc_ge le_trans not_less by blast
    moreover have "unat v < 2 ^ 64" by (rule order_less_le_trans [OF unsigned_less]) simp
    ultimately have "dec_acc (unat out * 10 + (unat u - 48)) ds \<noteq> unat v" for ds
      by (metis leD)
    then show ?thesis unfolding rhs fail using over not_digit_dot by auto
  next
    case go
    let ?out = "out * 10 + (ucast u - 0x30)"
    have step: "parse_dotted_decimal_loop out seen (u # cbs) = parse_dotted_decimal_loop ?out True cbs"
      using go 2(2,3) next_value(1) [OF go(2), of out] digit_range [of u]
      by (subst parse_dotted_decimal_loop.simps) (simp only: if_False simp_thms)
    have val: "unat ?out = unat out * 10 + (unat u - 48)" using next_value(2) [OF go(2,3)] .
    have "unat out \<noteq> 0" using 2(3) by (simp add: unat_eq_0)
    then have "?out \<noteq> 0" using val unat_eq_0 [of ?out] by simp
    have IH: "parse_dotted_decimal_loop ?out True cbs = (Some v, rest) \<longleftrightarrow>
        (\<exists>ds. list_all digit ds \<and> component ds cbs rest \<and> dec_acc (unat out * 10 + (unat u - 48)) ds = unat v)"
      unfolding val [symmetric] using go 2(2,3) next_value(1) [OF go(2), of out] digit_range [of u] \<open>?out \<noteq> 0\<close>
      by (intro 2(1)) auto
    have "u \<noteq> 0x2e" using go(2) not_digit_dot by auto
    then show ?thesis unfolding rhs step IH using go(2) by simp
  qed
qed

lemma parse_loop_zero:
  "parse_dotted_decimal_loop 0 True bs = (Some v, rest) \<longleftrightarrow> component [] bs rest \<and> v = 0"
  by (cases bs) (auto simp: component_Nil CBS_len_def)

lemma parse_dotted_decimal_iff:
  "parse_dotted_decimal bs = (Some v, rest) \<longleftrightarrow> component (decimal (unat v)) bs rest"
proof -
  have rhs: "component (decimal (unat v)) bs rest \<longleftrightarrow>
      (\<exists>ds. numeral_text ds \<and> component ds bs rest \<and> dec_acc 0 ds = unat v)"
    using decimal_iff by metis
  show ?thesis
  proof (cases bs)
    case Nil
    then show ?thesis unfolding rhs by (auto simp: parse_dotted_decimal_def component_def numeral_text_def)
  next
    case (Cons u cbs)
    have ex: "(\<exists>ds. numeral_text ds \<and> component ds bs rest \<and> dec_acc 0 ds = unat v) \<longleftrightarrow>
        digit u \<and> (\<exists>ds. list_all digit ds \<and> (unat u = 48 \<longrightarrow> ds = []) \<and> component ds cbs rest \<and>
          dec_acc (unat u - 48) ds = unat v)" (is "(\<exists>ds. ?P ds) \<longleftrightarrow> ?Q")
    proof
      assume "\<exists>ds. ?P ds"
      then obtain ds where ds: "?P ds" by blast
      then obtain d ds' where "ds = d # ds'" by (cases ds) (auto simp: numeral_text_def)
      then show ?Q using ds by (auto simp: Cons component_Cons numeral_text_def)
    next
      assume ?Q
      then obtain ds where "digit u" "list_all digit ds" "unat u = 48 \<longrightarrow> ds = []" "component ds cbs rest"
        "dec_acc (unat u - 48) ds = unat v" by blast
      then show "\<exists>ds. ?P ds" by (intro exI [of _ "u # ds"]) (simp add: Cons component_Cons numeral_text_def)
    qed
    show ?thesis
    proof (cases "digit u")
      case False
      then show ?thesis
        unfolding rhs ex using digit_range [of u] by (auto simp: parse_dotted_decimal_def Cons)
    next
      case True
      then have "u \<noteq> 0x2e" using not_digit_dot by auto
      have "unat u - 48 < 256" using unat_lt8 [of u] by linarith
      then have lt: "unat (0 :: u64) * 10 + (unat u - 48) < 2 ^ 64" by simp
      note nv = next_value(1) [OF True, of 0] next_value(2) [OF True lt]
      define out where "out = (ucast u - 0x30 :: u64)"
      have val: "unat out = unat u - 48" using nv(2) by (simp add: out_def)
      have step: "parse_dotted_decimal bs = parse_dotted_decimal_loop out True cbs"
        using \<open>u \<noteq> 0x2e\<close> digit_range [of u] True nv(1) lt by (simp add: parse_dotted_decimal_def Cons out_def)
      show ?thesis
      proof (cases "out = 0")
        case z: True
        then have "unat u = 48" using val True by (simp add: digit_def)
        then show ?thesis unfolding rhs ex step z using True
          by (auto simp: parse_loop_zero word_unat_eq_iff)
      next
        case nz: False
        then have "unat u \<noteq> 48" using val by (auto simp: unat_eq_0 [symmetric])
        then show ?thesis unfolding rhs ex step parse_loop_iff [OF TrueI nz] val using True by simp
      qed
    qed
  qed
qed

section \<open>The two conversions\<close>

text \<open>The arcs named by the first component of the encoding and by the rest.\<close>

definition first_arcs :: "nat \<Rightarrow> nat list" where
  "first_arcs v = (if v \<ge> 80 then [2, v - 80] else [v div 40, v mod 40])"

definition oid_arcs :: "u64 list \<Rightarrow> nat list" where
  "oid_arcs vs = (case vs of [] \<Rightarrow> [] | v # vs \<Rightarrow> first_arcs (unat v) @ map unat vs)"

definition oid_contents :: "u64 list \<Rightarrow> byte list" where
  "oid_contents vs = concat (map (\<lambda>v. b128 (unat v)) vs)"

fun dotted :: "nat list \<Rightarrow> byte list" where
  "dotted [] = []"
| "dotted [n] = decimal n"
| "dotted (n # ns) = decimal n @ 0x2e # dotted ns"

lemma decimal_ne [simp]: "decimal n \<noteq> []"
  using numeral_text_decimal [of n] by (auto simp: numeral_text_def)

lemma dotted_Cons: "ns \<noteq> [] \<Longrightarrow> dotted (n # ns) = decimal n @ 0x2e # dotted ns"
  by (cases ns) auto

lemma dotted_ne: "ns \<noteq> [] \<Longrightarrow> dotted ns \<noteq> []"
  by (cases ns rule: dotted.cases) auto

lemma parse_dotted_decimal_dotted:
  "n < 2 ^ 64 \<Longrightarrow> parse_dotted_decimal (dotted (n # ns)) = (Some (of_nat n), dotted ns)"
  unfolding parse_dotted_decimal_iff
  by (cases ns) (auto simp: component_def unat_of_nat_small dotted_ne)

lemma abs_adds_append: "abs_adds h (xs @ ys) = abs_bind (abs_adds h xs) (\<lambda>_. abs_adds h ys)"
  by (induction xs) (simp_all add: abs_bind_assoc)

lemma b128_ne [simp]: "b128 n \<noteq> []"
  by (metis b128_def length_b128_digits list.size(3) nat.distinct(1))

lemma cbb_op_oid_components: "cbb_op (add_oid_components h (dotted (map unat vs))) (abs_adds h (oid_contents vs))"
proof (induction vs)
  case Nil
  have "add_oid_components h [] = op_return ()"
    by (subst add_oid_components.simps) (simp only: CBS_len_def list.size less_irrefl if_False)
  then show ?case by (simp only: oid_contents_def list.map dotted.simps concat.simps abs_adds.simps cbb_op_return)
next
  case (Cons v vs)
  have "unat v < 2 ^ 64" by (rule order_less_le_trans [OF unsigned_less]) simp
  then have parse: "parse_dotted_decimal (dotted (unat v # map unat vs)) = (Some v, dotted (map unat vs))"
    by (simp add: parse_dotted_decimal_dotted)
  have "add_oid_components h (dotted (unat v # map unat vs)) =
      op_bind (add_base128_integer h v) (\<lambda>_. add_oid_components h (dotted (map unat vs)))"
    using dotted_ne [of "unat v # map unat vs"]
    by (subst add_oid_components.simps) (simp only: parse prod.case option.case CBS_len_def length_greater_0_conv list.discI not_False_eq_True if_True simp_thms)
  moreover have "abs_adds h (oid_contents (v # vs)) = abs_bind (abs_add h (b128 (unat v))) (\<lambda>_. abs_adds h (oid_contents vs))"
    by (simp add: oid_contents_def abs_adds_append abs_adds_eq)
  ultimately show ?case using cbb_op_bind [OF cbb_op_base128 Cons] by simp
qed

lemma add_oid_components_Some:
  "add_oid_components h cbs s = (Some x, s') \<Longrightarrow> \<exists>vs :: u64 list. cbs = dotted (map unat vs)"
proof (induction h cbs arbitrary: s x rule: add_oid_components.induct)
  case (1 h cbs)
  show ?case
  proof (cases "CBS_len cbs > 0")
    case False
    then show ?thesis by (intro exI [of _ "[]"]) (simp add: CBS_len_def)
  next
    case True
    then obtain a cbs' s1 where parse: "parse_dotted_decimal cbs = (Some a, cbs')"
      and rest: "add_oid_components h cbs' s1 = (Some x, s')"
      using "1.prems" by (subst (asm) add_oid_components.simps) (auto simp: op_bind_eq_Some split: prod.splits option.splits)
    obtain vs :: "u64 list" where vs: "cbs' = dotted (map unat vs)" using "1.IH" [OF True _ _ rest] parse by fastforce
    have comp: "component (decimal (unat a)) cbs cbs'" using parse by (simp only: parse_dotted_decimal_iff)
    have "cbs = dotted (map unat (a # vs))"
      using comp vs dotted_ne [of "map unat vs"] by (cases vs) (auto simp: component_def dotted_Cons)
    then show ?thesis by blast
  qed
qed

lemma first_arcs_value:
  assumes "unat a \<le> 2" and "unat a < 2 \<longrightarrow> unat b \<le> 39" and "unat (b :: u64) \<le> 2 ^ 64 - 81"
  shows "unat (40 * a + b) = 40 * unat a + unat b" and "first_arcs (unat (40 * a + b)) = [unat a, unat b]"
proof -
  have "unat (40 :: u64) * unat a < 2 ^ LENGTH(64)" using assms(1) by simp
  from unat_mult_lem [THEN iffD1, OF this] have m: "unat (40 * a) = 40 * unat a" by simp
  have "unat (40 * a) + unat b < 2 ^ LENGTH(64)" unfolding m using assms(1,3) by simp
  from unat_add_lem [THEN iffD1, OF this] show v: "unat (40 * a + b) = 40 * unat a + unat b" by (simp only: m)
  consider "unat a = 2" | "unat a = 1" "unat b \<le> 39" | "unat a = 0" "unat b \<le> 39" using assms by linarith
  then show "first_arcs (unat (40 * a + b)) = [unat a, unat b]"
    unfolding v by cases (simp_all add: first_arcs_def)
qed

lemma arc_checks:
  "\<not> (a > 2 \<or> (a < 2 \<and> b > 39) \<or> b > UINT64_MAX - 80) \<longleftrightarrow>
    unat a \<le> 2 \<and> (unat a < 2 \<longrightarrow> unat (b :: u64) \<le> 39) \<and> unat b \<le> 2 ^ 64 - 81" for a :: u64
  by (auto simp: word_less_nat_alt UINT64_MAX_def not_less)

lemma cbb_op_oid_from_text:
  assumes "vs \<noteq> []"
  shows "cbb_op (CBB_add_asn1_oid_from_text h (dotted (oid_arcs vs))) (abs_add h (oid_contents vs))"
proof -
  obtain v ws where vs: "vs = v # ws" using assms by (cases vs) auto
  have v: "unat v < 2 ^ 64" by (rule order_less_le_trans [OF unsigned_less]) simp
  define a b :: u64 where "a = of_nat (first_arcs (unat v) ! 0)" and "b = of_nat (first_arcs (unat v) ! 1)"
  have "first_arcs (unat v) ! 0 < 2 ^ 64" "first_arcs (unat v) ! 1 < 2 ^ 64"
    using v by (auto simp: first_arcs_def div_less_iff_less_mult)
  then have ab: "unat a = first_arcs (unat v) ! 0" "unat b = first_arcs (unat v) ! 1"
    by (simp_all add: a_def b_def unat_of_nat_small)
  then have arcs: "oid_arcs vs = unat a # unat b # map unat ws"
    by (simp add: oid_arcs_def vs first_arcs_def)
  have range: "unat a \<le> 2 \<and> (unat a < 2 \<longrightarrow> unat b \<le> 39) \<and> unat b \<le> 2 ^ 64 - 81"
  proof (cases "80 \<le> unat v")
    case True
    then show ?thesis using v unfolding ab by (simp add: first_arcs_def)
  next
    case False
    then have "unat v div 40 < 2" by (intro less_mult_imp_div_less) simp
    moreover have "unat v mod 40 < 40" by (rule mod_less_divisor) simp
    ultimately have "unat v div 40 \<le> 1 \<and> unat v mod 40 \<le> 39" by linarith
    then show ?thesis using False unfolding ab by (simp add: first_arcs_def)
  qed
  have "unat (40 * a + b) = unat v"
    using first_arcs_value(1) [of a b] range unfolding ab by (simp add: first_arcs_def split: if_splits)
  then have val: "40 * a + b = v" by (simp add: word_unat_eq_iff)
  have parse: "parse_dotted_decimal (dotted (unat w # ns)) = (Some w, dotted ns)" for w :: u64 and ns
  proof -
    have "unat w < 2 ^ 64" by (rule order_less_le_trans [OF unsigned_less]) simp
    then show ?thesis by (simp add: parse_dotted_decimal_dotted)
  qed
  have eq: "CBB_add_asn1_oid_from_text h (dotted (oid_arcs vs)) =
      op_bind (CBB_flush h) (\<lambda>_. op_bind (add_base128_integer h v) (\<lambda>_. add_oid_components h (dotted (map unat ws))))"
  proof -
    have "\<not> (a > 2 \<or> (a < 2 \<and> b > 39) \<or> b > UINT64_MAX - 80)" 
      using range unfolding arc_checks .
    then show ?thesis
      by (simp only: CBB_add_asn1_oid_from_text_def arcs parse prod.case option.case val if_False)
  qed
  have "abs_bind (abs_flush h) (\<lambda>_. abs_bind (abs_add h (b128 (unat v))) (\<lambda>_. abs_adds h (oid_contents ws))) =
      abs_adds h (oid_contents vs)"
    by (simp add: vs oid_contents_def abs_adds_append abs_adds_eq abs_add_def abs_bind_assoc abs_bind_flush_flush)
  moreover have "oid_contents vs \<noteq> []" by (simp add: vs oid_contents_def)
  ultimately show ?thesis unfolding eq
    using cbb_op_bind [OF flush.cbb_op_axioms [of h] cbb_op_bind [OF cbb_op_base128 [of h v] cbb_op_oid_components [of h ws]]]
    by (simp add: abs_adds_eq)
qed

lemma CBB_add_asn1_oid_from_text_Some:
  assumes "CBB_add_asn1_oid_from_text h txt cbb = (Some x, cbb')"
  shows "\<exists>vs :: u64 list. vs \<noteq> [] \<and> txt = dotted (oid_arcs vs)"
proof -
  from assms obtain a b r1 r2 s1 where a: "parse_dotted_decimal txt = (Some a, r1)"
    and b: "parse_dotted_decimal r1 = (Some b, r2)"
    and check: "\<not> (a > 2 \<or> (a < 2 \<and> b > 39) \<or> b > UINT64_MAX - 80)"
    and rest: "add_oid_components h r2 s1 = (Some x, cbb')"
    by (auto simp: CBB_add_asn1_oid_from_text_def op_bind_eq_Some split: prod.splits option.splits if_splits)
  obtain ws :: "u64 list" where ws: "r2 = dotted (map unat ws)" using add_oid_components_Some [OF rest] by blast
  have "r1 \<noteq> []" using b by (auto simp: parse_dotted_decimal_def)
  then have "txt = decimal (unat a) @ 0x2e # r1" using a by (auto simp: parse_dotted_decimal_iff component_def)
  moreover have "r1 = dotted (unat b # map unat ws)"
    using b ws dotted_ne [of "map unat ws"] unfolding parse_dotted_decimal_iff
    by (cases ws) (auto simp: component_def dotted_Cons)
  moreover have "first_arcs (unat (40 * a + b)) = [unat a, unat b]"
    using check unfolding arc_checks by (intro first_arcs_value(2)) simp_all
  ultimately have "txt = dotted (oid_arcs ((40 * a + b) # ws))"
    by (simp only: oid_arcs_def list.case) simp
  then show ?thesis by blast
qed

text \<open>Text from contents.\<close>

lemma cbb_op_add_decimal: "cbb_op (add_decimal v) (abs_add 0 (decimal (unat v)))"
proof -
  have "unat v < 2 ^ 64" by (rule order_less_le_trans [OF unsigned_less]) simp
  then have "length (decimal (unat v)) < 2 ^ 64" using length_decimal [of "unat v"] by simp
  then show ?thesis unfolding add_decimal_def by (rule cbb_op_add_bytes)
qed

definition arcs_text :: "u64 list \<Rightarrow> byte list" where
  "arcs_text vs = concat (map (\<lambda>v. 0x2e # decimal (unat v)) vs)"

lemma dotted_append_arcs: "ns \<noteq> [] \<Longrightarrow> dotted (ns @ map unat vs) = dotted ns @ arcs_text vs"
proof (induction ns rule: dotted.induct)
  case (2 n)
  have "dotted (m # map unat vs) = decimal m @ arcs_text vs" for m
    by (induction vs arbitrary: m) (simp_all add: arcs_text_def)
  then show ?case by simp
qed simp_all

lemma cbb_op_oid_text: "cbb_op (add_oid_text (oid_contents vs)) (abs_adds 0 (arcs_text vs))"
proof (induction vs)
  case Nil
  have "add_oid_text [] = op_return ()"
    by (subst add_oid_text.simps) (simp only: CBS_len_def list.size simp_thms if_False)
  then show ?case by (simp only: oid_contents_def arcs_text_def list.map concat.simps abs_adds.simps cbb_op_return)
next
  case (Cons v vs)
  have parse: "parse_base128_integer (oid_contents (v # vs)) = (Some v, oid_contents vs)"
    by (simp add: parse_base128_integer_iff oid_contents_def)
  have ne: "CBS_len (oid_contents (v # vs)) \<noteq> 0" by (simp add: CBS_len_def oid_contents_def)
  have "add_oid_text (oid_contents (v # vs)) =
      op_bind (CBB_add_u8 0 0x2e) (\<lambda>_. op_bind (add_decimal v) (\<lambda>_. add_oid_text (oid_contents vs)))"
    by (subst add_oid_text.simps) (simp only: parse ne prod.case option.case if_True not_False_eq_True)
  moreover have "abs_adds 0 (arcs_text (v # vs)) =
      abs_bind (abs_add 0 [0x2e]) (\<lambda>_. abs_bind (abs_add 0 (decimal (unat v))) (\<lambda>_. abs_adds 0 (arcs_text vs)))"
    by (simp add: arcs_text_def abs_adds_append abs_adds_eq)
  ultimately show ?case
    using cbb_op_bind [OF add_u8.cbb_op_axioms cbb_op_bind [OF cbb_op_add_decimal Cons]] by simp
qed

lemma add_oid_text_Some: "add_oid_text c s = (Some x, s') \<Longrightarrow> \<exists>vs. c = oid_contents vs"
proof (induction c arbitrary: s x rule: add_oid_text.induct)
  case (1 c)
  show ?case
  proof (cases "CBS_len c \<noteq> 0")
    case False
    then show ?thesis by (intro exI [of _ "[]"]) (simp add: CBS_len_def oid_contents_def)
  next
    case True
    then obtain v c' s1 where parse: "parse_base128_integer c = (Some v, c')"
      and rest: "add_oid_text c' s1 = (Some x, s')"
      using "1.prems" by (subst (asm) add_oid_text.simps) (auto simp: op_bind_eq_Some split: prod.splits option.splits)
    obtain vs where "c' = oid_contents vs" using "1.IH" [OF True _ _ rest] parse by fastforce
    then have "c = oid_contents (v # vs)" using parse by (simp add: parse_base128_integer_iff oid_contents_def)
    then show ?thesis by blast
  qed
qed

text \<open>The first component splits into two arcs.\<close>

definition first_text :: "u64 \<Rightarrow> (CBB, unit) op" where
  "first_text v =
     (if v \<ge> 80 then op_bind (CBB_add_bytes 0 [0x32, 0x2e]) (\<lambda>_. add_decimal (v - 80))
      else op_bind (add_decimal (v div 40)) (\<lambda>_.
           op_bind (CBB_add_u8 0 0x2e) (\<lambda>_. add_decimal (v mod 40))))"

lemma cbb_op_first_text: "cbb_op (first_text v) (abs_add 0 (dotted (first_arcs (unat v))))"
proof (cases "v \<ge> 80")
  case True
  then have "unat (v - 80) = unat v - 80" using unat_sub by fastforce
  moreover have "80 \<le> unat v" using True by (simp add: word_le_nat_alt)
  moreover have "decimal 2 = [0x32]" by (simp add: decimal.simps)
  ultimately have "abs_add 0 (dotted (first_arcs (unat v))) =
      abs_bind (abs_add 0 [0x32, 0x2e]) (\<lambda>_. abs_add 0 (decimal (unat (v - 80))))"
    by (simp add: first_arcs_def abs_add_add)
  then show ?thesis
    using True cbb_op_bind [OF cbb_op_add_bytes cbb_op_add_decimal, of "[0x32, 0x2e]" 0 "\<lambda>_. v - 80"]
    by (simp add: first_text_def)
next
  case False
  then have "\<not> 80 \<le> unat v" by (simp add: word_le_nat_alt)
  then have "abs_add 0 (dotted (first_arcs (unat v))) =
      abs_bind (abs_add 0 (decimal (unat (v div 40)))) (\<lambda>_. abs_bind (abs_add 0 [0x2e]) (\<lambda>_. abs_add 0 (decimal (unat (v mod 40)))))"
    by (simp add: first_arcs_def abs_add_add unat_div unat_mod)
  then show ?thesis
    using False cbb_op_bind [OF cbb_op_add_decimal cbb_op_bind [OF add_u8.cbb_op_axioms cbb_op_add_decimal]]
    by (simp add: first_text_def)
qed

section \<open>Whole strings\<close>

lemma CBS_asn1_oid_to_text_Some:
  assumes "CBS_asn1_oid_to_text alloc c = Some txt"
  shows "\<exists>vs. vs \<noteq> [] \<and> c = oid_contents vs \<and> txt = dotted (oid_arcs vs) @ [0]"
proof -
  from assms obtain cbb v copy where init: "CBB_init alloc 32 = (True, cbb)"
    and parse: "parse_base128_integer c = (Some v, copy)"
    and run: "fst (op_bind (first_text v) (\<lambda>_. op_bind (add_oid_text copy) (\<lambda>_. op_bind (CBB_add_u8 0 0)
        (\<lambda>_. CBB_finish 0 True True))) cbb) = Some txt"
    by (auto simp: CBS_asn1_oid_to_text_def first_text_def [symmetric] split: prod.splits bool.splits option.splits)
  from run obtain s1 s2 s3 s4 where first: "first_text v cbb = (Some (), s1)"
    and rest: "add_oid_text copy s1 = (Some (), s2)"
    and nul: "CBB_add_u8 0 0 s2 = (Some (), s3)" and fin: "CBB_finish 0 True True s3 = (Some txt, s4)"
    by (auto simp: op_bind_def split: prod.splits option.splits) (metis prod.collapse)
  obtain ws where ws: "copy = oid_contents ws" using add_oid_text_Some [OF rest] by blast
  have c: "c = oid_contents (v # ws)" using parse by (simp add: parse_base128_integer_iff oid_contents_def ws)
  obtain b0 where rep0: "cbb_rep cbb b0 ([], [])" using CBB_init_rep [OF init] by auto
  obtain b1 where "cbb_rep s1 b1 (dotted (first_arcs (unat v)), [])"
    using cbb_op.sound [OF cbb_op_first_text rep0 first] by (auto simp: abs_add_root)
  then obtain b2 where "cbb_rep s2 b2 (dotted (first_arcs (unat v)) @ arcs_text ws, [])"
    using cbb_op.sound [OF cbb_op_oid_text _ rest [unfolded ws]] by (fastforce simp: abs_adds_root)
  then obtain b3 where "cbb_rep s3 b3 (dotted (first_arcs (unat v)) @ arcs_text ws @ [0], [])"
    using add_u8.sound [OF _ nul] by (fastforce simp: abs_add_root)
  then have "txt = dotted (first_arcs (unat v)) @ arcs_text ws @ [0]"
    using CBB_finish_sound [OF _ fin] by fastforce
  then have "txt = dotted (oid_arcs (v # ws)) @ [0]"
    using dotted_append_arcs [of "first_arcs (unat v)" ws] by (simp add: oid_arcs_def first_arcs_def)
  then show ?thesis using c by blast
qed

lemma CBS_asn1_oid_to_text_total:
  assumes "\<forall>n. alloc n" and "vs \<noteq> []" and len: "length (dotted (oid_arcs vs)) + 1 < 2 ^ 64"
  shows "CBS_asn1_oid_to_text alloc (oid_contents vs) = Some (dotted (oid_arcs vs) @ [0])"
proof -
  obtain v ws where vs: "vs = v # ws" using assms by (cases vs) auto
  have parse: "parse_base128_integer (oid_contents vs) = (Some v, oid_contents ws)"
    by (simp add: parse_base128_integer_iff oid_contents_def vs)
  obtain cbb b0 where init: "CBB_init alloc 32 = (True, cbb)" and rep0: "cbb_rep cbb b0 ([], [])" and g0: "growable b0"
    using CBB_init_growable [OF assms(1), of 32] by auto
  have dot_split: "dotted (oid_arcs vs) = dotted (first_arcs (unat v)) @ arcs_text ws"
    using dotted_append_arcs [of "first_arcs (unat v)" ws] by (simp add: vs oid_arcs_def first_arcs_def)
  have bound: "length (dotted (first_arcs (unat v))) + (length (arcs_text ws) + 1) < 2 ^ 64"
    using len by (simp add: dot_split)
  obtain s1 b1 where 1: "first_text v cbb = (Some (), s1)" "cbb_rep s1 b1 (dotted (first_arcs (unat v)), [])" "same_env b0 b1"
    using cbb_op.computes [OF cbb_op_first_text [of v] rep0 g0, where a = "()" and A' = "(dotted (first_arcs (unat v)), [])"] bound
    by (auto simp: abs_add_root abs_len_def)
  have g1: "growable b1" using 1(3) g0 by (simp add: same_env_growable)
  obtain s2 b2 where 2: "add_oid_text (oid_contents ws) s1 = (Some (), s2)"
      "cbb_rep s2 b2 (dotted (first_arcs (unat v)) @ arcs_text ws, [])" "same_env b1 b2"
    using cbb_op.computes [OF cbb_op_oid_text [of ws] 1(2) g1, where a = "()" and A' = "(dotted (first_arcs (unat v)) @ arcs_text ws, [])"] bound
    by (auto simp: abs_adds_root abs_len_def)
  have g2: "growable b2" using 2(3) g1 by (simp add: same_env_growable)
  obtain s3 b3 where 3: "CBB_add_u8 0 0 s2 = (Some (), s3)"
      "cbb_rep s3 b3 (dotted (first_arcs (unat v)) @ arcs_text ws @ [0], [])" "same_env b2 b3"
    using add_u8.computes [OF 2(2) g2, where h = 0 and v = 0 and a = "()" and A' = "(dotted (first_arcs (unat v)) @ arcs_text ws @ [0], [])"] bound
    by (auto simp: abs_add_root abs_len_def)
  have g3: "growable b3" using 3(3) g2 by (simp add: same_env_growable)
  have "fst (CBB_finish 0 True True s3) = Some (dotted (oid_arcs vs) @ [0])"
    using CBB_finish_total [OF 3(2) g3, of "[]"] bound by (auto simp: dot_split)
  then show ?thesis
    using 1(1) 2(1) 3(1) by (simp add: CBS_asn1_oid_to_text_def init parse first_text_def [symmetric] op_bind_def)
qed

end
