(* ===== verification/CBB_Safe.thy ===== *)
theory CBB_Safe
  imports Bytestring_SetOf Bytestring_OID
begin

text \<open>
  What every operation of a \<open>CBB\<close> keeps, on success and on failure: the buffer stays within
  its capacity, the capacity of a fixed buffer never changes, and an error is never cleared.
  After an error every adding operation fails.
\<close>

section \<open>How one operation may change the buffer\<close>

definition evolves :: "cbb_buffer \<Rightarrow> cbb_buffer \<Rightarrow> bool" where
  "evolves b b' \<longleftrightarrow> same_env b b' \<and> (\<not> bb_can_resize b \<longrightarrow> bb_cap b' = bb_cap b) \<and>
     (buffer_ok b \<longrightarrow> buffer_ok b') \<and> (bb_error b \<longrightarrow> bb_error b')"

lemma evolves_refl [simp]: "evolves b b"
  by (simp add: evolves_def)

lemma evolves_trans: "evolves a b \<Longrightarrow> evolves b c \<Longrightarrow> evolves a c"
  by (auto simp: evolves_def same_env_def)

lemma evolves_error [simp]: "evolves b (b\<lparr>bb_error := True\<rparr>)"
  by (simp add: evolves_def buffer_ok_def)

lemma evolves_buf: "length xs \<le> length (bb_buf b) \<Longrightarrow> evolves b (b\<lparr>bb_buf := xs\<rparr>)"
  by (simp add: evolves_def buffer_ok_def)

definition cbb_evolves :: "CBB \<Rightarrow> CBB \<Rightarrow> bool" where
  "cbb_evolves cbb cbb' \<longleftrightarrow>
     (case (cbb_base cbb, cbb_base cbb') of
        (None, None) \<Rightarrow> True | (Some b, Some b') \<Rightarrow> evolves b b' | (None, Some _) \<Rightarrow> False | (Some _, None) \<Rightarrow> False)"

lemma cbb_evolves_refl [simp]: "cbb_evolves c c"
  by (simp add: cbb_evolves_def split: option.splits)

lemma cbb_evolves_trans: "cbb_evolves a b \<Longrightarrow> cbb_evolves b c \<Longrightarrow> cbb_evolves a c"
  by (auto simp: cbb_evolves_def split: option.splits intro: evolves_trans)

lemma cbb_evolves_children [simp]: "cbb_evolves c (c'\<lparr>cbb_children := xs\<rparr>) = cbb_evolves c c'"
  by (simp add: cbb_evolves_def)

text \<open>The interface every operation satisfies, and its closure properties.\<close>

definition cbb_ok :: "CBB \<Rightarrow> bool" where
  "cbb_ok cbb \<longleftrightarrow> (case cbb_base cbb of None \<Rightarrow> True | Some b \<Rightarrow> buffer_ok b)"

lemma cbb_evolves_ok: "cbb_evolves c c' \<Longrightarrow> cbb_ok c \<Longrightarrow> cbb_ok c'"
  by (auto simp: cbb_evolves_def cbb_ok_def evolves_def split: option.splits)

locale safe_op =
  fixes m :: "(CBB, 'a) op"
  assumes safe: "cbb_ok cbb \<Longrightarrow> cbb_evolves cbb (snd (m cbb))"

locale buffer_op =
  fixes m :: "(cbb_buffer, 'a) op"
  assumes evolve: "evolves b (snd (m b))"

context safe_op
begin

text \<open>An error stays set.\<close>

lemma keeps_error:
  assumes "cbb_base cbb = Some b" and "buffer_ok b" and "bb_error b"
  shows "\<exists>b'. cbb_base (snd (m cbb)) = Some b' \<and> buffer_ok b' \<and> bb_error b'"
  using safe [of cbb] assms by (auto simp: cbb_ok_def cbb_evolves_def evolves_def split: option.splits)

text \<open>A buffer within its capacity stays so, and a fixed capacity is kept.\<close>

lemma keeps_capacity:
  assumes "cbb_base cbb = Some b" and "buffer_ok b" and "\<not> bb_can_resize b"
  shows "\<exists>b'. cbb_base (snd (m cbb)) = Some b' \<and> buffer_ok b' \<and> \<not> bb_can_resize b' \<and> bb_cap b' = bb_cap b"
  using safe [of cbb] assms by (auto simp: cbb_ok_def cbb_evolves_def evolves_def same_env_def split: option.splits)

end

lemma safe_return: "safe_op (op_return a)"
  by unfold_locales simp

lemma safe_fail: "safe_op op_fail"
  by unfold_locales simp

lemma safe_bind:
  assumes m: "safe_op m" and n: "\<And>a. safe_op (n a)"
  shows "safe_op (op_bind m n)"
proof
  fix cbb
  assume ok: "cbb_ok cbb"
  show "cbb_evolves cbb (snd (op_bind m n cbb))"
  proof (cases "m cbb")
    case (Pair r c)
    have c: "cbb_evolves cbb c" using safe_op.safe [OF m ok] Pair by simp
    then show ?thesis
      using safe_op.safe [OF n cbb_evolves_ok [OF c ok]] cbb_evolves_trans Pair
      by (cases r) (auto simp: op_bind_def)
  qed
qed

lemma safe_on_base: "buffer_op m \<Longrightarrow> safe_op (on_base m)"
  using buffer_op.evolve [of m]
  by (intro safe_op.intro) (auto simp: on_base_def cbb_evolves_def split: option.splits prod.splits, metis snd_conv)

lemma buffer_bind:
  assumes m: "buffer_op m" and n: "\<And>a. buffer_op (n a)"
  shows "buffer_op (op_bind m n)"
proof
  fix b :: cbb_buffer
  show "evolves b (snd (op_bind m n b))"
  proof (cases "m b")
    case (Pair r c)
    then show ?thesis
      using buffer_op.evolve [OF m, of b] buffer_op.evolve [OF n, of c] evolves_trans
      by (cases r) (auto simp: op_bind_def)
  qed
qed

section \<open>The operations on the buffer\<close>

lemma buffer_reserve:
  assumes n: "n < 2 ^ 64"
  shows "buffer_op (cbb_buffer_reserve n)"
proof
  fix b :: cbb_buffer
  have "(length (bb_buf b) + n) mod 2 ^ 64 = length (bb_buf b) + n"
    if "length (bb_buf b) < 2 ^ 64" "\<not> (length (bb_buf b) + n) mod 2 ^ 64 < length (bb_buf b)"
    using that n by (cases "length (bb_buf b) + n < 2 ^ 64") (simp_all add: not_less le_mod_geq)
  then show "evolves b (snd (cbb_buffer_reserve n b))"
    by (auto simp: cbb_buffer_reserve_def cbb_error_def Let_def evolves_def same_env_def buffer_ok_def)
qed

lemma buffer_add:
  assumes n: "n < 2 ^ 64"
  shows "buffer_op (cbb_buffer_add n)"
proof
  fix b :: cbb_buffer
  obtain r b' where add: "cbb_buffer_add n b = (r, b')" by fastforce
  have cap: "\<not> bb_can_resize b \<longrightarrow> bb_cap b' = bb_cap b"
    using add by (auto simp: cbb_buffer_add_def cbb_buffer_reserve_def op_bind_def cbb_error_def Let_def
        split: if_splits prod.splits option.splits)
  show "evolves b (snd (cbb_buffer_add n b))"
    using cbb_buffer_add_ok [OF _ add n] cbb_buffer_add_Some [of n b _ b'] cbb_buffer_add_None [of n b b'] add cap
    by (cases r) (auto simp: evolves_def)
qed

interpretation buffer_add_one: buffer_op "cbb_buffer_add 1"
  by (rule buffer_add) simp

text \<open>Overwriting what was just added.\<close>

lemma buffer_add_write:
  assumes n: "n < 2 ^ 64" and d: "length d = n"
  shows "buffer_op (op_bind (cbb_buffer_add n) (\<lambda>off base. (Some (), base\<lparr>bb_buf := take off (bb_buf base) @ d\<rparr>)))"
proof
  fix b :: cbb_buffer
  obtain r b' where add: "cbb_buffer_add n b = (r, b')" by fastforce
  show "evolves b (snd (op_bind (cbb_buffer_add n) (\<lambda>off base. (Some (), base\<lparr>bb_buf := take off (bb_buf base) @ d\<rparr>)) b))"
    using buffer_op.evolve [OF buffer_add [OF n], of b] cbb_buffer_add_Some [of n b _ b'] add d
    by (cases r) (auto simp: op_bind_def evolves_def buffer_ok_def)
qed

lemma length_store_be [simp]: "length (fst (store_be off n v xs)) = length xs"
  by (induction n arbitrary: v xs) simp_all

lemma buffer_add_u:
  assumes n: "n < 2 ^ 64"
  shows "buffer_op (cbb_buffer_add_u v n)"
  unfolding cbb_buffer_add_u_def
proof (cases "n = 0")
  case True
  then show "buffer_op (if n = 0 then op_return () else op_bind (cbb_buffer_add n) (\<lambda>off base.
        let (bytes, v) = store_be off n v (bb_buf base); base = base\<lparr>bb_buf := bytes\<rparr>
        in if v \<noteq> 0 then cbb_error base else (Some (), base)))"
    by (simp add: buffer_op_def)
next
  case False
  have "buffer_op (\<lambda>base. let (bytes, v) = store_be off n v (bb_buf base); base = base\<lparr>bb_buf := bytes\<rparr>
        in if v \<noteq> 0 then cbb_error base else (Some (), base))" for off
  proof
    fix b :: cbb_buffer
    obtain bytes v' where st: "store_be off n v (bb_buf b) = (bytes, v')" by fastforce
    then have "length bytes = length (bb_buf b)" using length_store_be [of off n v "bb_buf b"] by simp
    then show "evolves b (snd (let (bytes, v) = store_be off n v (bb_buf b); base = b\<lparr>bb_buf := bytes\<rparr>
        in if v \<noteq> 0 then cbb_error base else (Some (), base)))"
      by (auto simp: st cbb_error_def evolves_def buffer_ok_def Let_def)
  qed
  then show "buffer_op (if n = 0 then op_return () else op_bind (cbb_buffer_add n) (\<lambda>off base.
        let (bytes, v) = store_be off n v (bb_buf base); base = base\<lparr>bb_buf := bytes\<rparr>
        in if v \<noteq> 0 then cbb_error base else (Some (), base)))"
    unfolding if_not_P [OF False] by (rule buffer_bind [OF buffer_add [OF n]])
qed

text \<open>Patching a length, and with it the whole chain.\<close>

lemma length_memmove: "dst + n \<le> length xs \<Longrightarrow> length (memmove xs dst src n) \<le> length xs"
  by (simp add: memmove_def)

lemma evolves_buf_le: "evolves b b1 \<Longrightarrow> length xs \<le> length (bb_buf b1) \<Longrightarrow> evolves b (b1\<lparr>bb_buf := xs\<rparr>)"
  by (rule evolves_trans [OF _ evolves_buf])

lemma evolves_set_error: "evolves b b1 \<Longrightarrow> evolves b (b1\<lparr>bb_error := True\<rparr>)"
  by (rule evolves_trans [OF _ evolves_error])

lemma evolves_patch:
  assumes patch: "cbb_patch_child ch b = (r, ch', b')"
  shows "evolves b b'"
proof -
  define store where "store = (\<lambda>(child :: cbb_child) (base :: cbb_buffer) len.
      let (bytes, len) = store_be (ch_offset child) (ch_pending_len_len child) (of_nat len) (bb_buf base);
          base = base\<lparr>bb_buf := bytes\<rparr>
      in if len \<noteq> 0 then (False, child, base\<lparr>bb_error := True\<rparr>) else (True, child, base))"
  have st: "evolves b (snd (snd (store child base len)))" if "evolves b base" for child base and len :: nat
  proof -
    obtain bytes v where *: "store_be (ch_offset child) (ch_pending_len_len child) (of_nat len) (bb_buf base) = (bytes, v)"
      by fastforce
    then have "length bytes = length (bb_buf base)"
      using length_store_be [of "ch_offset child" "ch_pending_len_len child" "of_nat len" "bb_buf base"] by simp
    then have "evolves b (base\<lparr>bb_buf := bytes\<rparr>)" using evolves_buf_le [OF that, of bytes] by simp
    then show ?thesis using evolves_set_error by (auto simp: store_def * Let_def)
  qed
  let ?start = "(ch_offset ch + ch_pending_len_len ch) mod 2 ^ 64"
  let ?len = "length (bb_buf b) - ?start"
  have "evolves b (snd (snd (cbb_patch_child ch b)))"
  proof (cases "?start < ch_offset ch \<or> length (bb_buf b) < ?start")
    case True
    then show ?thesis by (simp add: cbb_patch_child_def Let_def)
  next
    case in_range: False
    show ?thesis
    proof (cases "ch_pending_is_asn1 ch")
      case False
      then have "cbb_patch_child ch b = store ch b ?len"
        using in_range by (simp add: cbb_patch_child_def Let_def store_def)
      then show ?thesis using st [of b ch ?len] by simp
    next
      case True
      show ?thesis
      proof (cases "cbb_asn1_length ?len")
        case None
        then show ?thesis using True in_range by (simp add: cbb_patch_child_def Let_def)
      next
        case (Some x)
        obtain n lb len' where x: "x = (n, lb, len')" by (metis prod_cases3)
        have n: "n - 1 < 2 ^ 64" using Some x by (auto simp: cbb_asn1_length_def split: if_splits)
        define mk where "mk = (if n = 1 then op_return () else op_bind (cbb_buffer_add (n - 1)) (\<lambda>_ base.
            (Some (), base\<lparr>bb_buf := memmove (bb_buf base) (?start + (n - 1)) ?start ?len\<rparr>)))"
        obtain m b1 where mk_b: "mk b = (m, b1)" by fastforce
        have b1: "evolves b b1"
        proof (cases "n = 1")
          case False
          obtain q b2 where add: "cbb_buffer_add (n - 1) b = (q, b2)" by fastforce
          have b2: "evolves b b2" using buffer_op.evolve [OF buffer_add [OF n], of b] add by simp
          show ?thesis
          proof (cases q)
            case (Some off)
            then have "length (bb_buf b2) = length (bb_buf b) + (n - 1)" using cbb_buffer_add_Some add by fastforce
            then have "length (memmove (bb_buf b2) (?start + (n - 1)) ?start ?len) \<le> length (bb_buf b2)"
              using in_range by (intro length_memmove) simp
            from evolves_buf_le [OF b2 this] show ?thesis
              using mk_b False add Some by (simp add: mk_def op_bind_def)
          qed (use mk_b False add b2 in \<open>simp add: mk_def op_bind_def\<close>)
        qed (use mk_b in \<open>simp add: mk_def\<close>)
        define b3 where "b3 = b1\<lparr>bb_buf := (bb_buf b1)[ch_offset ch := lb]\<rparr>"
        have b3: "evolves b b3" unfolding b3_def by (intro evolves_buf_le [OF b1]) simp
        let ?ch = "ch\<lparr>ch_offset := ch_offset ch + 1, ch_pending_len_len := n - 1\<rparr>"
        have eval: "cbb_patch_child ch b = (case m of None \<Rightarrow> (False, ch, b1\<lparr>bb_error := True\<rparr>) | Some _ \<Rightarrow> store ?ch b3 len')"
          by (cases m) (simp_all only: cbb_patch_child_def Let_def Some x True if_not_P [OF in_range] if_True
            option.case prod.case mk_b [unfolded mk_def] store_def b3_def)
        show ?thesis unfolding eval using evolves_set_error [OF b1] st [OF b3, of ?ch len'] by (auto split: option.splits)
      qed
    qed
  qed
  then show ?thesis using patch by simp
qed

lemma evolves_chain: "CBB_flush_chain cs b = (r, cs', b') \<Longrightarrow> evolves b b'"
proof (induction cs arbitrary: b r cs' b')
  case (Cons c cs)
  obtain r1 cs1 b1 where inner: "CBB_flush_chain cs b = (r1, cs1, b1)" by (metis prod_cases3)
  obtain r2 c2 b2 where patch: "cbb_patch_child c b1 = (r2, c2, b2)" by (metis prod_cases3)
  have "evolves b b1" using Cons.IH [OF inner] .
  moreover have "evolves b1 b2" using evolves_patch [OF patch] .
  ultimately show ?case
    using Cons.prems inner patch by (auto split: if_splits bool.splits intro: evolves_trans evolves_set_error)
qed simp

lemma safe_flush: "safe_op (CBB_flush h)"
  by unfold_locales
    (auto simp: CBB_flush_def cbb_evolves_def split: option.splits prod.splits dest: evolves_chain)

section \<open>Every operation of the interface\<close>

lemma safe_add_u: "n < 2 ^ 64 \<Longrightarrow> safe_op (cbb_add_u h v n)"
  unfolding cbb_add_u_def by (intro safe_bind safe_flush safe_on_base buffer_add_u)

interpretation safe_u8: safe_op "CBB_add_u8 h v"
  unfolding CBB_add_u8_def by (rule safe_add_u) simp

lemma safe_open_child: "safe_op (cbb_open_child h ch)"
  by unfold_locales (simp add: cbb_open_child_def)

lemma safe_base_len: "safe_op cbb_base_len"
  by unfold_locales (simp add: cbb_base_len_def split: option.splits)

lemma safe_write: "length d < 2 ^ 64 \<Longrightarrow> safe_op (on_base (op_bind (cbb_buffer_add (length d)) (\<lambda>off base.
    (Some (), base\<lparr>bb_buf := take off (bb_buf base) @ d\<rparr>))))"
  by (intro safe_on_base buffer_add_write) simp_all

lemma safe_length_prefixed: "n < 2 ^ 64 \<Longrightarrow> safe_op (cbb_add_length_prefixed h n)"
  unfolding cbb_add_length_prefixed_def
  using safe_write [of "replicate n 0"]
  by (intro safe_bind safe_flush safe_base_len safe_open_child) simp

lemma safe_add_bytes: "length d < 2 ^ 64 \<Longrightarrow> safe_op (CBB_add_bytes h d)"
  unfolding CBB_add_bytes_def by (intro safe_bind safe_flush safe_write)

lemma safe_add_space: "length d < 2 ^ 64 \<Longrightarrow> safe_op (CBB_add_space h d)"
  unfolding CBB_add_space_def by (intro safe_bind safe_flush safe_write)

lemma safe_base128_loop: "safe_op (add_base128_loop h n v)"
  by (induction n) (simp_all only: add_base128_loop.simps Let_def safe_return safe_bind safe_u8.safe_op_axioms)

lemma safe_base128: "safe_op (add_base128_integer h v)"
  unfolding add_base128_integer_def Let_def by (rule safe_base128_loop)

lemma safe_asn1: "safe_op (CBB_add_asn1 h tag)"
  unfolding CBB_add_asn1_def Let_def
  by (intro safe_bind safe_flush safe_base_len safe_open_child safe_u8.safe_op_axioms)
    (simp add: safe_bind safe_base128 safe_u8.safe_op_axioms)

lemma safe_uint64_loop: "safe_op (add_asn1_uint64_loop c v is started)"
proof (induction "is" arbitrary: started)
  case (Cons i "is")
  show ?case
    by (auto simp: Let_def simp del: op_return_apply
      intro!: safe_bind safe_u8.safe_op_axioms safe_return Cons.IH)
qed (simp only: add_asn1_uint64_loop.simps safe_return)

lemma safe_uint64: "safe_op (CBB_add_asn1_uint64 h v)"
proof -
  have "safe_op (if P then CBB_add_u8 (h + 1) 0 else op_return ())" for P
    by (cases P) (simp_all only: if_True if_False safe_u8.safe_op_axioms safe_return)
  then show ?thesis
    unfolding CBB_add_asn1_uint64_def by (intro safe_bind safe_asn1 safe_uint64_loop safe_flush)
qed

lemma safe_bytes_down: "safe_op (add_bytes_down c bytes n)"
  by (induction n) (simp_all only: add_bytes_down.simps safe_bind safe_u8.safe_op_axioms)

lemma safe_int64: "safe_op (CBB_add_asn1_int64 h v)"
proof (cases "sint v \<ge> 0")
  case True
  then show ?thesis by (simp add: CBB_add_asn1_int64_def safe_uint64)
next
  case False
  then show ?thesis
    unfolding CBB_add_asn1_int64_def Let_def if_not_P [OF False]
    by (intro safe_bind safe_asn1 safe_bytes_down safe_flush)
qed

lemma safe_oid_components: "safe_op (add_oid_components h cbs)"
proof (induction h cbs rule: add_oid_components.induct)
  case (1 h cbs)
  show ?case
    by (subst add_oid_components.simps) (auto simp del: op_return_apply split: prod.splits option.splits
      intro!: safe_bind safe_base128 safe_return safe_fail 1)
qed

lemma safe_oid: "safe_op (CBB_add_asn1_oid_from_text h txt)"
  unfolding CBB_add_asn1_oid_from_text_def
  by (intro safe_bind safe_flush)
    (auto split: prod.splits option.splits intro!: safe_bind safe_base128 safe_oid_components safe_fail)

lemma safe_add_children: "\<forall>c \<in> set cs. length c < 2 ^ 64 \<Longrightarrow> safe_op (add_children h cs)"
  by (induction cs) (auto simp del: op_return_apply intro!: safe_return safe_bind safe_add_bytes)

lemma split_elements_concat_le:
  "split_elements n c = Some es \<Longrightarrow> length (concat es) \<le> length c"
proof (induction n arbitrary: c es)
  case (Suc n)
  then obtain e x c' es' where get: "CBS_get_any_asn1_element c = (Some (e, x), c')"
    and "split_elements n c' = Some es'" "es = e # es'"
    by (auto split: prod.splits option.splits)
  moreover from get have "c = e @ c'" by (cases x) (auto simp: CBS_get_any_asn1_element_iff)
  ultimately show ?case using Suc.IH by fastforce
qed simp

lemma evolves_rewind: "cbb_evolves c (rewind h c)"
  by (auto simp: cbb_evolves_def rewind_def split: option.splits intro: evolves_buf)

lemma safe_set_of: "safe_op (CBB_flush_asn1_set_of h)"
  unfolding CBB_flush_asn1_set_of_def
proof (rule safe_bind [OF safe_flush])
  show "safe_op (set_of_children h)"
  proof
    fix cbb
    assume ok: "cbb_ok cbb"
    show "cbb_evolves cbb (snd (set_of_children h cbb))"
    proof (cases "\<exists>children. set_of_children h cbb = add_children h (sort children) (rewind h cbb) \<and>
        (\<forall>c \<in> set children. length c < 2 ^ 64)")
      case True
      then obtain children where go: "set_of_children h cbb = add_children h (sort children) (rewind h cbb)"
        and "\<forall>c \<in> set children. length c < 2 ^ 64" by blast
      then have "safe_op (add_children h (sort children))" by (intro safe_add_children) simp
      from safe_op.safe [OF this cbb_evolves_ok [OF evolves_rewind ok]] show ?thesis
        unfolding go by (rule cbb_evolves_trans [OF evolves_rewind])
    next
      case False
      have small: "length c < 2 ^ 64"
        if buf: "OPENSSL_memdup alloc (CBB_data h cbb) (CBB_len h cbb) = Some buf"
          and split: "split_elements n buf = Some children" and c: "c \<in> set children" for alloc buf n children c
      proof -
        obtain b where b: "cbb_base cbb = Some b" using buf by (auto simp: OPENSSL_memdup_def CBB_len_def split: if_splits option.splits)
        have "length buf \<le> length (bb_buf b)"
          using buf by (auto simp: OPENSSL_memdup_def CBB_data_def b split: if_splits)
        moreover have "length (bb_buf b) < 2 ^ 64" using ok b by (auto simp: cbb_ok_def buffer_ok_def)
        ultimately show ?thesis using split_elements_concat_le [OF split] length_le_concat [OF c] by linarith
      qed
      have "snd (set_of_children h cbb) = cbb"
        using False small unfolding set_of_children_def qsort_compare Let_def
        by (auto split: option.splits if_splits)
      then show ?thesis by simp
    qed
  qed
qed

lemma safe_reserve: "n < 2 ^ 64 \<Longrightarrow> safe_op (CBB_reserve h n)"
  unfolding CBB_reserve_def by (intro safe_bind safe_flush safe_on_base buffer_reserve)

lemma safe_octet_string: "length d < 2 ^ 64 \<Longrightarrow> safe_op (CBB_add_asn1_octet_string h d)"
  unfolding CBB_add_asn1_octet_string_def by (intro safe_bind safe_asn1 safe_add_bytes safe_flush)

lemma safe_bool: "safe_op (CBB_add_asn1_bool h v)"
  unfolding CBB_add_asn1_bool_def by (intro safe_bind safe_asn1 safe_u8.safe_op_axioms safe_flush)

lemma safe_did_write: "length d < 2 ^ 64 \<Longrightarrow> safe_op (CBB_did_write h d)"
proof
  fix cbb :: CBB assume d: "length d < 2 ^ 64"
  have "evolves b (snd (let len = length (bb_buf b); newlen = (len + length d) mod 2 ^ 64 in
       if length (cbb_children cbb) > h \<or> newlen < len \<or> newlen > bb_cap b then (None, b)
       else (Some (), b\<lparr>bb_buf := bb_buf b @ d\<rparr>)))" for b :: cbb_buffer
  proof -
    have "(length (bb_buf b) + length d) mod 2 ^ 64 = length (bb_buf b) + length d"
      if "length (bb_buf b) < 2 ^ 64" "\<not> (length (bb_buf b) + length d) mod 2 ^ 64 < length (bb_buf b)"
      using that d by (cases "length (bb_buf b) + length d < 2 ^ 64") (simp_all add: not_less le_mod_geq)
    then show ?thesis by (auto simp: Let_def evolves_def buffer_ok_def)
  qed
  then have "buffer_op (\<lambda>base. let len = length (bb_buf base); newlen = (len + length d) mod 2 ^ 64 in
       if length (cbb_children cbb) > h \<or> newlen < len \<or> newlen > bb_cap base then (None, base)
       else (Some (), base\<lparr>bb_buf := bb_buf base @ d\<rparr>))" by unfold_locales
  from safe_op.safe [OF safe_on_base [OF this]] show "cbb_ok cbb \<Longrightarrow> cbb_evolves cbb (snd (CBB_did_write h d cbb))"
    unfolding CBB_did_write_def by blast
qed

interpretation safe_flush: safe_op "CBB_flush h"
  by (rule safe_flush)

interpretation safe_asn1: safe_op "CBB_add_asn1 h tag"
  by (rule safe_asn1)

interpretation safe_set_of: safe_op "CBB_flush_asn1_set_of h"
  by (rule safe_set_of)

lemma safe_discard: "safe_op (\<lambda>cbb. (Some (), CBB_discard_child h cbb))"
proof
  fix cbb
  assume "cbb_ok cbb"
  show "cbb_evolves cbb (snd (Some (), CBB_discard_child h cbb))"
    by (auto simp: CBB_discard_child_def cbb_evolves_def intro!: evolves_buf split: option.splits)
qed

lemma did_write_succeeds:
  assumes "cbb_base cbb = Some b" and "buffer_ok b" and "length written < 2 ^ 64"
  shows "fst (CBB_did_write h written cbb) = Some () \<longleftrightarrow>
    length (cbb_children cbb) \<le> h \<and> length (bb_buf b) + length written \<le> bb_cap b"
proof -
  have len: "length (bb_buf b) < 2 ^ 64" "bb_cap b < 2 ^ 64" using assms(2) by (auto simp: buffer_ok_def)
  show ?thesis
  proof (cases "length (bb_buf b) + length written < 2 ^ 64")
    case True
    then show ?thesis using assms(1) by (auto simp: CBB_did_write_def on_base_def Let_def split: prod.splits)
  next
    case False
    then have "(length (bb_buf b) + length written) mod 2 ^ 64 = length (bb_buf b) + length written - 2 ^ 64"
      using len assms(3) by (simp add: le_mod_geq)
    then show ?thesis using assms(1,3) len False by (auto simp: CBB_did_write_def on_base_def Let_def split: prod.splits)
  qed
qed

section \<open>Sequences of calls\<close>

text \<open>The calls of a client on a builder that it has initialised, and whether one reports success.\<close>

datatype cbb_call =
    Flush nat | Length_prefixed nat nat | Add_bytes nat "byte list" | Add_space nat "byte list"
  | Add_uint nat u64 nat | Add_asn1 nat u32 | Add_asn1_uint64 nat u64 | Add_asn1_int64 nat u64
  | Add_asn1_octet_string nat "byte list" | Add_asn1_bool nat bool | Add_oid nat "byte list"
  | Flush_set_of nat | Reserve nat nat | Did_write nat "byte list" | Discard_child nat

fun run_call :: "cbb_call \<Rightarrow> (CBB, unit) op" where
  "run_call (Flush h) = CBB_flush h"
| "run_call (Length_prefixed h n) = cbb_add_length_prefixed h n"
| "run_call (Add_bytes h d) = CBB_add_bytes h d"
| "run_call (Add_space h d) = CBB_add_space h d"
| "run_call (Add_uint h v n) = cbb_add_u h v n"
| "run_call (Add_asn1 h tag) = CBB_add_asn1 h tag"
| "run_call (Add_asn1_uint64 h v) = CBB_add_asn1_uint64 h v"
| "run_call (Add_asn1_int64 h v) = CBB_add_asn1_int64 h v"
| "run_call (Add_asn1_octet_string h d) = CBB_add_asn1_octet_string h d"
| "run_call (Add_asn1_bool h v) = CBB_add_asn1_bool h v"
| "run_call (Add_oid h t) = CBB_add_asn1_oid_from_text h t"
| "run_call (Flush_set_of h) = CBB_flush_asn1_set_of h"
| "run_call (Reserve h n) = op_map (\<lambda>_. ()) (CBB_reserve h n)"
| "run_call (Did_write h d) = CBB_did_write h d"
| "run_call (Discard_child h) = (\<lambda>cbb. (Some (), CBB_discard_child h cbb))"

text \<open>Arguments that fit their C types.\<close>

fun call_fits :: "cbb_call \<Rightarrow> bool" where
  "call_fits (Add_bytes h d) = (length d < 2 ^ 64)"
| "call_fits (Add_space h d) = (length d < 2 ^ 64)"
| "call_fits (Add_asn1_octet_string h d) = (length d < 2 ^ 64)"
| "call_fits (Length_prefixed h n) = (n < 2 ^ 64)"
| "call_fits (Add_uint h v n) = (n < 2 ^ 64)"
| "call_fits (Reserve h n) = (n < 2 ^ 64)"
| "call_fits (Did_write h d) = (length d < 2 ^ 64)"
| "call_fits _ = True"

lemma safe_run_call: "call_fits c \<Longrightarrow> safe_op (run_call c)"
proof (induction c rule: call_fits.induct)
  case (6 h n)
  then show ?case
    by (simp add: op_map_def del: op_return_apply) (intro safe_bind safe_reserve safe_return; simp)
qed (simp_all add: safe_flush safe_length_prefixed safe_add_bytes safe_add_space safe_add_u safe_asn1 safe_uint64
    safe_int64 safe_octet_string safe_bool safe_oid safe_set_of safe_did_write safe_discard)

text \<open>
  The calls that add something start with \<open>CBB_flush\<close>, which refuses once the error is set. \<open>CBB_did_write\<close> and
  \<open>CBB_discard_child\<close> do not look at the flag.
\<close>

fun call_adds :: "cbb_call \<Rightarrow> bool" where
  "call_adds (Did_write h d) = False"
| "call_adds (Discard_child h) = False"
| "call_adds _ = True"

lemma flush_refuses: "cbb_base cbb = Some b \<Longrightarrow> bb_error b \<Longrightarrow> fst (CBB_flush h cbb) = None"
proof -
  assume "cbb_base cbb = Some b" "bb_error b"
  moreover from this have "\<not> fst (CBB_flush_chain cs b)" for cs by (cases cs) simp_all
  ultimately show ?thesis by (auto simp: CBB_flush_def split: prod.splits) (metis fst_conv)
qed

lemma bind_refuses: "fst (m s) = None \<Longrightarrow> fst (op_bind m n s) = None"
  by (auto simp: op_bind_def split: prod.splits option.splits)

lemma run_call_refuses:
  assumes "cbb_base cbb = Some b" and "bb_error b" and "call_adds c"
  shows "fst (run_call c cbb) = None"
proof -
  note f = flush_refuses [OF assms(1,2)]
  have asn1: "fst (CBB_add_asn1 h tag cbb) = None" for h tag
    unfolding CBB_add_asn1_def by (rule bind_refuses) (rule f)
  show ?thesis
    using assms(3) by (cases c) (auto simp: f asn1 cbb_add_length_prefixed_def CBB_add_bytes_def CBB_add_space_def cbb_add_u_def
        CBB_add_asn1_uint64_def CBB_add_asn1_int64_def CBB_add_asn1_octet_string_def CBB_add_asn1_bool_def
        CBB_add_asn1_oid_from_text_def CBB_flush_asn1_set_of_def CBB_reserve_def op_map_def Let_def
        intro!: bind_refuses)
qed

primrec run_calls :: "cbb_call list \<Rightarrow> CBB \<Rightarrow> CBB" where
  "run_calls [] cbb = cbb"
| "run_calls (c # cs) cbb = run_calls cs (snd (run_call c cbb))"

lemma run_calls_error:
  assumes "list_all call_fits cs" and "cbb_base cbb = Some b" and "buffer_ok b" and "bb_error b"
  shows "\<exists>b'. cbb_base (run_calls cs cbb) = Some b' \<and> buffer_ok b' \<and> bb_error b'"
  using assms
proof (induction cs arbitrary: cbb b)
  case (Cons c cs)
  then have "safe_op (run_call c)" by (simp add: safe_run_call)
  from safe_op.keeps_error [OF this Cons.prems(2-4)] Cons show ?case by auto
qed auto

lemma run_calls_fixed:
  assumes "list_all call_fits cs" and "cbb_base cbb = Some b" and "buffer_ok b" and "\<not> bb_can_resize b"
  shows "\<exists>b'. cbb_base (run_calls cs cbb) = Some b' \<and> buffer_ok b' \<and> bb_cap b' = bb_cap b"
  using assms
proof (induction cs arbitrary: cbb b)
  case (Cons c cs)
  then have "safe_op (run_call c)" by (simp add: safe_run_call)
  from safe_op.keeps_capacity [OF this Cons.prems(2-4)] Cons show ?case by fastforce
qed auto

end
