(* ===== verification/Bytestring_Roundtrip.thy ===== *)
theory Bytestring_Roundtrip
  imports CBB_Safe
begin

text \<open>
  Whole programs over the two halves of the module: a fresh builder, one operation or a tree of
  nested elements, \<open>CBB_finish\<close>, and the readers of \<open>cbs.c\<close> on the result.
\<close>

section \<open>Running a builder from start to finish\<close>

definition built :: "(CBB, unit) op \<Rightarrow> byte list option" where
  "built m = fst (op_bind m (\<lambda>_. CBB_finish 0 True True) (snd (CBB_init (\<lambda>_. True) 0)))"

lemma built_eq:
  assumes m: "cbb_op m f" and f: "f ([], []) = Some ((), (root, fs))" and close: "close_frames fs = Some d"
    and len: "length (root @ d) < 2 ^ 64"
  shows "built m = Some (root @ d)"
proof -
  obtain cbb b where init: "CBB_init (\<lambda>_. True) 0 = (True, cbb)" and rep: "cbb_rep cbb b ([], [])" and grow: "growable b"
    using CBB_init_growable [of "\<lambda>_. True" 0] by auto
  have "abs_len (root, fs) < 2 ^ 64"
    using close_frames_length [OF close] len by (simp add: abs_len_def)
  then obtain c b' where run: "m cbb = (Some (), c)" "cbb_rep c b' (root, fs)" "same_env b b'"
    using cbb_op.computes [OF m rep grow f] by blast
  have "growable b'" using grow run(3) by (simp add: same_env_growable)
  from CBB_finish_total [OF run(2) this close len] show ?thesis
    by (simp add: built_def init op_bind_def run(1))
qed

lemma built_add:
  "cbb_op m (abs_add 0 d) \<Longrightarrow> length d < 2 ^ 64 \<Longrightarrow> built m = Some d"
  using built_eq [of m "abs_add 0 d" d "[]" "[]"] by (simp add: abs_add_root)

section \<open>Byte order\<close>

lemma CRYPTO_bswap2_bswap2 [simp]: "CRYPTO_bswap2 (CRYPTO_bswap2 v) = v"
proof (rule bit_word_eqI)
  fix n
  assume n: "n < LENGTH(16)"
  have out: "bit v k = False" if "16 \<le> k" for k
    using that bit_imp_le_length [of v k] by auto
  from n have "n \<in> set [0..<16]" by simp
  moreover have "list_all (\<lambda>n. bit (CRYPTO_bswap2 (CRYPTO_bswap2 v)) n = bit v n) [0..<16]"
    by (simp add: upt_rec CRYPTO_bswap2_def Let_def bit_simps out) (simp add: out eval_nat_numeral)
  ultimately show "bit (CRYPTO_bswap2 (CRYPTO_bswap2 v)) n = bit v n" unfolding list_all_iff by blast
qed

lemma CRYPTO_bswap4_bswap4 [simp]: "CRYPTO_bswap4 (CRYPTO_bswap4 v) = v"
proof (rule bit_word_eqI)
  fix n
  assume n: "n < LENGTH(32)"
  have out: "bit v k = False" if "32 \<le> k" for k
    using that bit_imp_le_length [of v k] by auto
  from n have "n \<in> set [0..<32]" by simp
  moreover have "list_all (\<lambda>n. bit (CRYPTO_bswap4 (CRYPTO_bswap4 v)) n = bit v n) [0..<32]"
    by (simp add: upt_rec CRYPTO_bswap4_def Let_def bit_simps out) (simp add: out eval_nat_numeral)
  ultimately show "bit (CRYPTO_bswap4 (CRYPTO_bswap4 v)) n = bit v n" unfolding list_all_iff by blast
qed

section \<open>Trees of elements\<close>

text \<open>A client that writes nested elements, the encoding it should produce, and a client that reads it.\<close>

datatype der_tree = Leaf u32 "byte list" | Node u32 "der_tree list"

fun build_tree :: "nat \<Rightarrow> der_tree \<Rightarrow> (CBB, unit) op" and build_trees :: "nat \<Rightarrow> der_tree list \<Rightarrow> (CBB, unit) op" where
  "build_tree h (Leaf tag c) =
     op_bind (CBB_add_asn1 h tag) (\<lambda>_. op_bind (CBB_add_bytes (h + 1) c) (\<lambda>_. CBB_flush h))"
| "build_tree h (Node tag ts) =
     op_bind (CBB_add_asn1 h tag) (\<lambda>_. op_bind (build_trees (h + 1) ts) (\<lambda>_. CBB_flush h))"
| "build_trees h [] = op_return ()"
| "build_trees h (t # ts) = op_bind (build_tree h t) (\<lambda>_. build_trees h ts)"

fun der_encode :: "der_tree \<Rightarrow> byte list" where
  "der_encode (Leaf tag c) = der_elem tag c"
| "der_encode (Node tag ts) = der_elem tag (concat (map der_encode ts))"

text \<open>Every length fits the four length octets the builder can write.\<close>

fun tree_fits :: "der_tree \<Rightarrow> bool" where
  "tree_fits (Leaf tag c) = (length c \<le> 0xfffffffe)"
| "tree_fits (Node tag ts) = (length (concat (map der_encode ts)) \<le> 0xfffffffe \<and> list_all tree_fits ts)"

fun read_tree :: "der_tree \<Rightarrow> CBS \<Rightarrow> CBS option" and read_trees :: "der_tree list \<Rightarrow> CBS \<Rightarrow> CBS option" where
  "read_tree (Leaf tag c) cbs =
     (case CBS_get_asn1 tag cbs of (Some c', cbs) \<Rightarrow> if c' = c then Some cbs else None | (None, _) \<Rightarrow> None)"
| "read_tree (Node tag ts) cbs =
     (case CBS_get_asn1 tag cbs of
        (Some c', cbs) \<Rightarrow> if read_trees ts c' = Some [] then Some cbs else None
      | (None, _) \<Rightarrow> None)"
| "read_trees [] cbs = Some cbs"
| "read_trees (t # ts) cbs = Option.bind (read_tree t cbs) (read_trees ts)"

lemma der_encode_ne [simp]: "der_encode t \<noteq> []"
  by (cases t) (simp_all add: der_elem_def der_header_def der_len_def)

lemma abs_asn1_adds:
  assumes "length c \<le> 0xfffffffe"
  shows "abs_bind (abs_asn1 h tag) (\<lambda>_. abs_bind (abs_adds (h + 1) c) (\<lambda>_. abs_flush h)) = abs_add h (der_elem tag c)"
proof (cases "c = []")
  case True
  have "abs_bind (abs_asn1 h tag) (\<lambda>_. abs_bind (abs_add (h + 1) []) (\<lambda>_. abs_flush h)) =
      abs_bind (abs_asn1 h tag) (\<lambda>_. abs_flush h)"
  proof
    fix A
    show "abs_bind (abs_asn1 h tag) (\<lambda>_. abs_bind (abs_add (h + 1) []) (\<lambda>_. abs_flush h)) A =
        abs_bind (abs_asn1 h tag) (\<lambda>_. abs_flush h) A"
    proof (cases "abs_asn1 h tag A")
      case (Some p)
      then obtain a A' where "p = (a, A')" "length (snd A') = h + 1"
        using abs_add_depth [of h "der_tag tag" A]
        by (fastforce simp: abs_asn1_def abs_bind_def abs_open_def Option.bind_eq_Some_conv)
      then show ?thesis using Some by (simp add: abs_bind_def abs_add_at)
    qed (simp add: abs_bind_def)
  qed
  then show ?thesis using abs_asn1_contents [OF assms, of h tag] True by simp
next
  case False
  then show ?thesis using abs_asn1_contents [OF assms] by (simp only: abs_adds_eq not_False_eq_True)
qed

lemma cbb_op_build:
  "tree_fits t \<Longrightarrow> cbb_op (build_tree h t) (abs_add h (der_encode t))"
  "list_all tree_fits ts \<Longrightarrow> cbb_op (build_trees h ts) (abs_adds h (concat (map der_encode ts)))"
proof (induction h t and h ts rule: build_tree_build_trees.induct)
  case (1 h tag c)
  then show ?case by (simp only: build_tree.simps der_encode.simps tree_fits.simps) (intro cbb_op_contents cbb_op_add_bytes; simp)
next
  case (2 h tag ts)
  then have inner: "cbb_op (build_trees (h + 1) ts) (abs_adds (h + 1) (concat (map der_encode ts)))"
    and len: "length (concat (map der_encode ts)) \<le> 0xfffffffe" by simp_all
  from cbb_op_bind [OF add_asn1.cbb_op_axioms [of h tag] cbb_op_bind [OF inner flush.cbb_op_axioms [of h]]]
  show ?case unfolding abs_asn1_adds [OF len] by (simp only: build_tree.simps der_encode.simps)
next
  case (3 h)
  show ?case by (simp only: build_trees.simps list.map concat.simps abs_adds.simps cbb_op_return)
next
  case (4 h t ts)
  then have "cbb_op (build_tree h t) (abs_add h (der_encode t))"
    "cbb_op (build_trees h ts) (abs_adds h (concat (map der_encode ts)))" by simp_all
  from cbb_op_bind [OF this] show ?case
    by (simp only: build_trees.simps list.map concat.simps abs_adds_append abs_adds_eq [OF der_encode_ne])
qed

lemma read_trees_encode:
  "(\<And>t rest. t \<in> set ts \<Longrightarrow> read_tree t (der_encode t @ rest) = Some rest) \<Longrightarrow>
    read_trees ts (concat (map der_encode ts) @ rest) = Some rest"
  by (induction ts) simp_all

lemma read_tree_encode: "tree_fits t \<Longrightarrow> read_tree t (der_encode t @ rest) = Some rest"
proof (induction t arbitrary: rest)
  case (Node tag ts)
  then have "read_trees ts (concat (map der_encode ts) @ []) = Some []"
    by (intro read_trees_encode) (simp add: list_all_iff)
  then show ?case using Node.prems by simp
qed simp

lemma built_tree:
  assumes "tree_fits t" and "length (der_encode t) < 2 ^ 64"
  shows "built (build_tree 0 t) = Some (der_encode t)"
  using built_add [OF cbb_op_build(1) [OF assms(1)] assms(2)] .

end
