(* ===== verification/Bytestring_Properties.thy ===== *)
theory Bytestring_Properties
  imports Bytestring_Roundtrip
begin

text \<open>
  The properties of \<open>crypto/mem.c\<close> and \<open>crypto/bytestring\<close>, stated over the definitions of
  the component theories, with an evaluated instance for every property that has hypotheses.
\<close>

lemma ucast_back: "LENGTH('a) \<le> LENGTH('b) \<Longrightarrow> ucast (ucast (x :: 'a::len word) :: 'b::len word) = x"
proof -
  assume "LENGTH('a) \<le> LENGTH('b)"
  then have "unat (ucast (ucast x :: 'b word) :: 'a word) = unat x mod 2 ^ LENGTH('a)"
    by (simp only: unat_ucast_mod [of "ucast x :: 'b word"] unat_ucast_up)
  then show ?thesis by (simp add: word_unat_eq_iff mod_less [OF word_unat_lt])
qed

section \<open>Reading\<close>

text \<open>C1. The DER element parser of \<open>cbs.c\<close> accepts exactly the DER encodings: it succeeds if and
only if the input starts with a tag in minimal form, a minimal definite length and that many bytes
of contents, and it returns that element, its tag, its header length and what follows.\<close>

theorem element_parser_exact:
  "CBS_get_any_asn1_element bs = (Some (e, tag, header_len), rest) \<longleftrightarrow>
     bs = e @ rest \<and>
     (\<exists>contents. length contents < 2 ^ 32 \<and> e = der_elem tag contents \<and>
        header_len = length (der_header tag (length contents)))"
  by (rule CBS_get_any_asn1_element_iff)

text \<open>The base-128 reader accepts exactly the minimal encodings of 64-bit values.\<close>

theorem base128_reader_exact:
  "parse_base128_integer bs = (Some v, rest) \<longleftrightarrow> bs = b128 (unat v) @ rest"
  by (rule parse_base128_integer_iff)

text \<open>\<open>CBS_get_asn1_uint64\<close> accepts exactly an INTEGER whose contents are the shortest two's
complement form of a value below \<open>2 ^ 64\<close>, and returns that value.\<close>

theorem uint64_reader_exact:
  "CBS_get_asn1_uint64 bs = (Some v, rest) \<longleftrightarrow> bs = der_elem CBS_ASN1_INTEGER (int_octets (uint v)) @ rest"
  by (rule CBS_get_asn1_uint64_exact)

text \<open>\<open>CBS_get_asn1_int64\<close> accepts exactly an INTEGER whose contents are the shortest two's
complement form of a signed 64-bit value, and returns that value.\<close>

theorem int64_reader_exact:
  "CBS_get_asn1_int64 bs = (Some v, rest) \<longleftrightarrow> bs = der_elem CBS_ASN1_INTEGER (int_octets (sint v)) @ rest"
  by (rule CBS_get_asn1_int64_exact)

text \<open>\<open>CBS_is_valid_asn1_integer\<close> holds exactly for the shortest two's complement forms, and its
sign output is the sign of the integer.\<close>

theorem valid_integer_exact:
  "CBS_is_valid_asn1_integer bs = (True, neg) \<longleftrightarrow> (\<exists>i. bs = int_octets i \<and> neg = (i < 0))"
  by (rule CBS_is_valid_asn1_integer_iff)

section \<open>Writing\<close>

text \<open>C4. The integer writers of \<open>cbb.c\<close> and the integer readers of \<open>cbs.c\<close> are inverse: what a
fresh builder produces for a value is read back as that value with nothing left over.\<close>

theorem integer_roundtrip:
  "(\<exists>bytes. built (CBB_add_asn1_uint64 0 v) = Some bytes \<and> CBS_get_asn1_uint64 bytes = (Some v, [])) \<and>
   (\<exists>bytes. built (CBB_add_asn1_int64 0 v) = Some bytes \<and> CBS_get_asn1_int64 bytes = (Some v, []))"
proof (intro conjI)
  have der_len: "length (der_elem CBS_ASN1_INTEGER c) < 2 ^ 64" if "length c \<le> 9" for c
    using that length_der_tag [of CBS_ASN1_INTEGER] by (simp add: der_elem_def der_header_def der_len_def)
  show "\<exists>bytes. built (CBB_add_asn1_uint64 0 v) = Some bytes \<and> CBS_get_asn1_uint64 bytes = (Some v, [])"
    using built_add [OF cbb_op_uint64 der_len [OF length_uint64_octets]]
    by (auto simp: CBS_get_asn1_uint64_exact)
  have "length (int_octets (sint v)) \<le> 9" using length_int64_octets [of v] by simp
  then show "\<exists>bytes. built (CBB_add_asn1_int64 0 v) = Some bytes \<and> CBS_get_asn1_int64 bytes = (Some v, [])"
    using built_add [OF cbb_op_int64 der_len] by (auto simp: CBS_get_asn1_int64_exact)
qed

text \<open>The fixed-width writers and readers agree, big-endian and little-endian.\<close>

theorem uint_roundtrip:
  "(\<exists>bytes. built (CBB_add_u8 0 a) = Some bytes \<and> CBS_get_u8 bytes = (Some a, [])) \<and>
   (\<exists>bytes. built (CBB_add_u16 0 b) = Some bytes \<and> CBS_get_u16 bytes = (Some b, [])) \<and>
   (\<exists>bytes. built (CBB_add_u16le 0 b) = Some bytes \<and> CBS_get_u16le bytes = (Some b, [])) \<and>
   (\<exists>bytes. built (CBB_add_u32 0 c) = Some bytes \<and> CBS_get_u32 bytes = (Some c, [])) \<and>
   (\<exists>bytes. built (CBB_add_u32le 0 c) = Some bytes \<and> CBS_get_u32le bytes = (Some c, [])) \<and>
   (\<exists>bytes. built (CBB_add_u64 0 d) = Some bytes \<and> CBS_get_u64 bytes = (Some d, []))"
proof (intro conjI)
  have get: "cbs_get_u n (be_bytes n v) = (Some (of_nat v), [])" if "v < 256 ^ n" "n \<le> 8" for n v
    using cbs_get_u_append [of "be_bytes n v" n "[]"] that by (simp add: be_val_be_bytes)
  show "\<exists>bytes. built (CBB_add_u8 0 a) = Some bytes \<and> CBS_get_u8 bytes = (Some a, [])"
    using built_add [OF add_u8.cbb_op_axioms, of a] by simp
  have 2: "CBS_get_u16 (be_bytes 2 (unat x)) = (Some x, [])" for x
    using get [of "unat x" 2] word_unat_lt [of x] by (simp add: CBS_get_u16_def op_map_def op_bind_def ucast_back)
  then show "\<exists>bytes. built (CBB_add_u16 0 b) = Some bytes \<and> CBS_get_u16 bytes = (Some b, [])"
    using built_add [OF add_u16.cbb_op_axioms, of b] by simp
  show "\<exists>bytes. built (CBB_add_u16le 0 b) = Some bytes \<and> CBS_get_u16le bytes = (Some b, [])"
    using built_add [OF add_u16.cbb_op_axioms, of "CRYPTO_bswap2 b"] 2 [of "CRYPTO_bswap2 b"]
    by (simp add: CBB_add_u16le_def CBS_get_u16le_def op_map_def op_bind_def)
  have 4: "CBS_get_u32 (be_bytes 4 (unat x)) = (Some x, [])" for x
    using get [of "unat x" 4] word_unat_lt [of x] by (simp add: CBS_get_u32_def op_map_def op_bind_def ucast_back)
  then show "\<exists>bytes. built (CBB_add_u32 0 c) = Some bytes \<and> CBS_get_u32 bytes = (Some c, [])"
    using built_add [OF add_u32.cbb_op_axioms, of c] by simp
  show "\<exists>bytes. built (CBB_add_u32le 0 c) = Some bytes \<and> CBS_get_u32le bytes = (Some c, [])"
    using built_add [OF add_u32.cbb_op_axioms, of "CRYPTO_bswap4 c"] 4 [of "CRYPTO_bswap4 c"]
    by (simp add: CBB_add_u32le_def CBS_get_u32le_def op_map_def op_bind_def)
  show "\<exists>bytes. built (CBB_add_u64 0 d) = Some bytes \<and> CBS_get_u64 bytes = (Some d, [])"
    using built_add [OF add_u64.cbb_op_axioms, of d] get [of "unat d" 8] word_unat_lt [of d]
    by (simp add: CBS_get_u64_def)
qed

text \<open>C2. A client that writes a tree of nested elements gets the DER encoding of the tree, and a
client that reads the result with \<open>CBS_get_asn1\<close> gets every element of the tree back.\<close>

theorem tree_roundtrip:
  assumes "tree_fits t" and "length (der_encode t) < 2 ^ 64"
  shows "built (build_tree 0 t) = Some (der_encode t) \<and> read_tree t (der_encode t) = Some []"
  using built_tree [OF assms] read_tree_encode [OF assms(1), of "[]"] by simp

theorem tree_roundtrip_witness:
  "built (build_tree 0 (Node 0x20000010 [Leaf 2 [5], Leaf 0x80000001 [7, 8]])) =
     Some (der_encode (Node 0x20000010 [Leaf 2 [5], Leaf 0x80000001 [7, 8]])) \<and>
   read_tree (Node 0x20000010 [Leaf 2 [5], Leaf 0x80000001 [7, 8]])
     (der_encode (Node 0x20000010 [Leaf 2 [5], Leaf 0x80000001 [7, 8]])) = Some []"
  by (rule tree_roundtrip) (simp_all add: der_elem_def der_header_def der_len_def der_tag_def Let_def)

text \<open>C3. \<open>CBB_flush\<close> refines closing the open frames: from a builder that represents a root and a
stack of open frames, a successful flush of handle \<open>h\<close> gives a builder that represents the outer
\<open>h\<close> frames with the encodings of the inner ones appended, lengths patched and contents moved; and
with memory to spare it succeeds whenever every length is encodable.\<close>

theorem flush_refines:
  assumes "cbb_rep cbb b (root, fs)" and "h \<le> length fs"
  shows "(\<forall>cbb'. CBB_flush h cbb = (Some (), cbb') \<longrightarrow>
      (\<exists>b' d. close_frames (drop h fs) = Some d \<and> cbb_rep cbb' b' (append_top d (root, take h fs)))) \<and>
    (\<forall>d. growable b \<longrightarrow> close_frames (drop h fs) = Some d \<longrightarrow>
      abs_len (append_top d (root, take h fs)) < 2 ^ 64 \<longrightarrow> (\<exists>cbb'. CBB_flush h cbb = (Some (), cbb')))"
proof (intro conjI allI impI)
  fix cbb'
  assume "CBB_flush h cbb = (Some (), cbb')"
  from flush.sound [OF assms(1) this]
  show "\<exists>b' d. close_frames (drop h fs) = Some d \<and> cbb_rep cbb' b' (append_top d (root, take h fs))"
    by (auto simp: abs_flush_def simp del: append_top_simps split: if_splits)
next
  fix d
  assume "growable b" and "close_frames (drop h fs) = Some d" and "abs_len (append_top d (root, take h fs)) < 2 ^ 64"
  then show "\<exists>cbb'. CBB_flush h cbb = (Some (), cbb')"
    using flush.total [OF assms(1), of h "()"] assms(2) by (simp add: abs_flush_def)
qed

definition open_frames_example :: CBB where
  "open_frames_example =
     \<lparr>cbb_base = Some \<lparr>bb_buf = [1, 0, 9, 48, 0, 5], bb_cap = 6, bb_can_resize = True, bb_error = False, bb_alloc = (\<lambda>_. True)\<rparr>,
      cbb_children = [\<lparr>ch_offset = 1, ch_pending_len_len = 1, ch_pending_is_asn1 = False\<rparr>,
                      \<lparr>ch_offset = 4, ch_pending_len_len = 1, ch_pending_is_asn1 = True\<rparr>]\<rparr>"

theorem flush_refines_witness:
  "\<exists>cbb'. CBB_flush 0 open_frames_example = (Some (), cbb')"
proof -
  define b :: cbb_buffer where
    "b = \<lparr>bb_buf = [1, 0, 9, 48, 0, 5], bb_cap = 6, bb_can_resize = True, bb_error = False, bb_alloc = (\<lambda>_. True)\<rparr>"
  have rep: "cbb_rep open_frames_example b ([1], [(Len_Frame 1, [9, 48]), (Asn1_Frame, [5])])"
    by (simp add: open_frames_example_def b_def cbb_rep_def buffer_ok_def frame_ok_def)
  have "growable b" by (simp add: b_def growable_def)
  moreover have "close_frames (drop 0 [(Len_Frame 1, [9, 48]), (Asn1_Frame, [5])]) = Some [4, 9, 48, 1, 5]"
    by (simp add: der_len_def)
  moreover have "abs_len (append_top [4, 9, 48, 1, 5] ([1], take 0 [(Len_Frame 1, [9, 48]), (Asn1_Frame, [5])])) < 2 ^ 64"
    by (simp add: abs_len_def)
  ultimately show ?thesis using flush_refines [OF rep, of 0] by blast
qed

section \<open>Object identifiers\<close>

text \<open>\<open>CBB_add_asn1_oid_from_text\<close> on a fresh builder succeeds with contents \<open>c\<close> if and only if
the text is the dotted decimal form, without stray zeros, signs or a trailing dot, of arcs whose
encoding is \<open>c\<close> (and the encoding fits in memory).\<close>

theorem oid_from_text_exact:
  "built (CBB_add_asn1_oid_from_text 0 txt) = Some c \<longleftrightarrow>
     (\<exists>vs. vs \<noteq> [] \<and> txt = dotted (oid_arcs vs) \<and> c = oid_contents vs \<and> length c < 2 ^ 64)"
proof
  assume run: "built (CBB_add_asn1_oid_from_text 0 txt) = Some c"
  obtain cbb b where init: "CBB_init (\<lambda>_. True) 0 = (True, cbb)" and rep: "cbb_rep cbb b ([], [])"
    using CBB_init_growable [of "\<lambda>_. True" 0] by auto
  from run obtain s1 where m: "CBB_add_asn1_oid_from_text 0 txt cbb = (Some (), s1)"
    and fin: "fst (CBB_finish 0 True True s1) = Some c"
    by (auto simp: built_def init op_bind_def split: prod.splits option.splits)
  obtain vs where vs: "vs \<noteq> []" "txt = dotted (oid_arcs vs)" using CBB_add_asn1_oid_from_text_Some [OF m] by blast
  obtain b1 where rep1: "cbb_rep s1 b1 (oid_contents vs, [])"
    using cbb_op.sound [OF cbb_op_oid_from_text [OF vs(1)] rep m [unfolded vs(2)]] by (auto simp: abs_add_root)
  obtain s2 where "CBB_finish 0 True True s1 = (Some c, s2)" using fin by (metis prod.collapse)
  then have "c = oid_contents vs" using CBB_finish_sound [OF rep1] by fastforce
  moreover have "abs_len (oid_contents vs, []) < 2 ^ 64" by (rule abs_len_rep [OF rep1])
  ultimately show "\<exists>vs. vs \<noteq> [] \<and> txt = dotted (oid_arcs vs) \<and> c = oid_contents vs \<and> length c < 2 ^ 64"
    using vs by (auto simp: abs_len_def)
next
  assume "\<exists>vs. vs \<noteq> [] \<and> txt = dotted (oid_arcs vs) \<and> c = oid_contents vs \<and> length c < 2 ^ 64"
  then show "built (CBB_add_asn1_oid_from_text 0 txt) = Some c"
    using built_add cbb_op_oid_from_text by blast
qed

text \<open>C23. Converting an object identifier to text and back gives the same contents: whenever
\<open>CBS_asn1_oid_to_text\<close> returns a string, the string is NUL-terminated and
\<open>CBB_add_asn1_oid_from_text\<close> on it writes the contents it was made from.\<close>

theorem oid_text_roundtrip:
  assumes "length c < 2 ^ 64" and "CBS_asn1_oid_to_text alloc c = Some txt"
  shows "built (CBB_add_asn1_oid_from_text 0 (butlast txt)) = Some c \<and> last txt = 0"
proof -
  obtain vs where vs: "vs \<noteq> []" "c = oid_contents vs" "txt = dotted (oid_arcs vs) @ [0]"
    using CBS_asn1_oid_to_text_Some [OF assms(2)] by blast
  have "built (CBB_add_asn1_oid_from_text 0 (dotted (oid_arcs vs))) = Some (oid_contents vs)"
    using built_add [OF cbb_op_oid_from_text [OF vs(1)]] assms(1) vs(2) by simp
  then show ?thesis using vs by simp
qed

lemma dotted_example: "dotted (oid_arcs [42, 840]) = [49, 46, 50, 46, 56, 52, 48]"
  by (simp add: oid_arcs_def first_arcs_def decimal.simps)

lemma oid_contents_example: "oid_contents [42, 840] = [42, 0x86, 0x48]"
  by (simp add: oid_contents_def b128_def b128_more.simps [of 42] b128_more.simps [of 840] b128_more.simps [of 6])

theorem oid_text_roundtrip_witness:
  "built (CBB_add_asn1_oid_from_text 0 [49, 46, 50, 46, 56, 52, 48]) = Some [42, 0x86, 0x48]"
proof -
  have "CBS_asn1_oid_to_text (\<lambda>_. True) [42, 0x86, 0x48] = Some ([49, 46, 50, 46, 56, 52, 48] @ [0])"
    using CBS_asn1_oid_to_text_total [of "\<lambda>_. True" "[42, 840]"] unfolding dotted_example oid_contents_example by simp
  from oid_text_roundtrip [OF _ this] show ?thesis by simp
qed

text \<open>With memory to spare \<open>CBS_asn1_oid_to_text\<close> succeeds on every sequence of minimal base-128
components and gives the dotted decimal form, the first component split into its two arcs.\<close>

theorem oid_to_text_total:
  assumes "\<forall>n. alloc n" and "vs \<noteq> []" and "length (dotted (oid_arcs vs)) + 1 < 2 ^ 64"
  shows "CBS_asn1_oid_to_text alloc (oid_contents vs) = Some (dotted (oid_arcs vs) @ [0])"
  using assms by (rule CBS_asn1_oid_to_text_total)

theorem oid_to_text_total_witness:
  "CBS_asn1_oid_to_text (\<lambda>_. True) [42, 0x86, 0x48] = Some [49, 46, 50, 46, 56, 52, 48, 0]"
  using oid_to_text_total [of "\<lambda>_. True" "[42, 840]"] unfolding dotted_example oid_contents_example by simp

section \<open>SET OF\<close>

text \<open>A client that writes a SET OF with the given elements.\<close>

definition build_set_of :: "CBS list \<Rightarrow> (CBB, unit) op" where
  "build_set_of es = op_bind (CBB_add_asn1 0 0x20000011) (\<lambda>_. op_bind (add_children 1 es) (\<lambda>_.
     CBB_flush_asn1_set_of 1))"

lemma length_concat_elements: "list_all is_element es \<Longrightarrow> length es \<le> length (concat es)"
proof (induction es)
  case (Cons e es)
  then have "0 < length e" using is_element_ne [of e] by simp
  moreover have "length es \<le> length (concat es)" using Cons by simp
  ultimately show ?case by (simp only: concat.simps length_append list.size)
qed simp

lemma build_set_of_sorted:
  assumes es: "list_all is_element es" and ne: "es \<noteq> []" and len: "length (concat es) \<le> 0xfffffffe"
  shows "built (build_set_of es) = Some (der_elem 0x20000011 (concat (sort es)))"
proof -
  let ?tag = "0x20000011 :: u32"
  have "\<forall>c \<in> set es. length c < 2 ^ 64" using length_le_concat [of _ es] len by fastforce
  from cbb_op_bind [OF add_asn1.cbb_op_axioms cbb_op_bind [OF cbb_op_add_children [OF this ne] set_of.cbb_op_axioms]]
  have op: "cbb_op (build_set_of es) (abs_bind (abs_asn1 0 ?tag) (\<lambda>_. abs_bind (abs_add 1 (concat es)) (\<lambda>_.
      abs_bind (abs_flush 1) (\<lambda>_. sort_top))))"
    unfolding build_set_of_def .
  have count: "count_elements (concat es) 0 = Some (length es)" using count_elements_concat [OF es] by simp
  have split: "split_elements (length es) (concat es) = Some es" using split_elements_concat [OF es, of "[]"] by simp
  have small: "\<not> length es > SIZE_MAX div sizeof_CBS"
    using length_concat_elements [OF es] len by (simp add: sizeof_CBS_def)
  have one: "concat (sort es) = concat es" if "length es < 2"
    using that by (cases es; cases "tl es") auto
  have sort: "sort_top (root, [(k, concat es)]) = Some ((), (root, [(k, concat (sort es))]))" for root k
    using count split small one by (auto simp: sort_top_def top_contents_def set_top_def)
  have abs: "abs_bind (abs_asn1 0 ?tag) (\<lambda>_. abs_bind (abs_add 1 (concat es)) (\<lambda>_. abs_bind (abs_flush 1) (\<lambda>_. sort_top))) ([], []) =
      Some ((), (der_tag ?tag, [(Asn1_Frame, concat (sort es))]))"
    by (simp add: abs_bind_def abs_asn1_def abs_add_root abs_open_def abs_add_at abs_flush_at sort append_top_def)
  have clen: "length (concat (sort es)) \<le> 0xfffffffe" using len length_concat_sort [of es] by simp
  have close: "close_frames [(Asn1_Frame, concat (sort es))] = Some (der_len (length (concat (sort es))) @ concat (sort es))"
    using clen by simp
  have "length (der_tag ?tag @ der_len (length (concat (sort es))) @ concat (sort es)) < 2 ^ 64"
    using clen length_der_tag [of ?tag] be_size_le [of "length (concat (sort es))" 4] by (simp add: der_len_def)
  from built_eq [OF op abs close this] show ?thesis by (simp add: der_elem_def der_header_def)
qed

text \<open>C22. A SET OF is canonical: whatever the order in which the elements are added,
\<open>CBB_flush_asn1_set_of\<close> leaves them sorted by their encodings, so the same elements always give the
same bytes.\<close>

theorem set_of_canonical:
  assumes "list_all is_element es" and "es \<noteq> []" and "length (concat es) \<le> 0xfffffffe" and "mset fs = mset es"
  shows "built (build_set_of es) = Some (der_elem 0x20000011 (concat (sort es))) \<and>
    built (build_set_of fs) = built (build_set_of es)"
proof -
  have "sort fs = sort es" using assms(4) by (metis mset_sort properties_for_sort sorted_sort)
  moreover have "list_all is_element fs" "fs \<noteq> []" using assms(1,2,4)
    by (metis list_all_iff set_mset_mset, metis mset_zero_iff)
  moreover have "length (concat fs) = length (concat es)"
    using length_concat_sort [of fs] length_concat_sort [of es] calculation(1) by simp
  ultimately show ?thesis using build_set_of_sorted [of es] build_set_of_sorted [of fs] assms by simp
qed

theorem set_of_canonical_witness:
  "built (build_set_of [[2, 1, 9], [2, 1, 5]]) = Some (der_elem 0x20000011 [2, 1, 5, 2, 1, 9])"
proof -
  have "[2, 1, x] = der_elem 2 [x]" for x
    by (simp add: der_elem_def der_header_def der_len_def der_tag_def)
  then have "is_element [2, 1, x]" for x unfolding is_element_def by (intro exI [of _ 2] exI [of _ "[x]"]) simp
  then have "list_all is_element [[2, 1, 9], [2, 1, 5]]" by simp
  from set_of_canonical [OF this, of "[[2, 1, 5], [2, 1, 9]]"] show ?thesis by simp
qed

text \<open>The tie-break of \<open>compare_set_of_element\<close> is unreachable, as its comment says: of two
different elements neither encoding is a prefix of the other, so the common prefix already differs.\<close>

theorem no_element_is_a_prefix:
  assumes "is_element a" and "is_element b" and "a \<noteq> b"
  shows "memcmp (take (min (CBS_len a) (CBS_len b)) a) (take (min (CBS_len a) (CBS_len b)) b) \<noteq> 0"
proof
  have memcmp: "memcmp xs ys = 0 \<longleftrightarrow> xs = ys" if "length xs = length ys" for xs ys
    using that by (induction xs ys rule: list_induct2) auto
  have prefix: False if p: "is_element x" "is_element y" "x \<noteq> y" "take (length x) y = x" for x y
  proof -
    obtain r where y: "y = x @ r" using p(4) by (metis append_take_drop_id)
    obtain tag c tag' c' where "x = der_elem tag c" "length c < 2 ^ 32" "y = der_elem tag' c'" "length c' < 2 ^ 32"
      using p by (auto simp: is_element_def)
    then have "r = []" using der_elem_inject [of tag c r tag' c' "[]"] y by simp
    then show False using y p(3) by simp
  qed
  assume "memcmp (take (min (CBS_len a) (CBS_len b)) a) (take (min (CBS_len a) (CBS_len b)) b) = 0"
  then have "take (min (length a) (length b)) a = take (min (length a) (length b)) b"
    by (simp add: memcmp CBS_len_def)
  then show False
    using prefix [OF assms] prefix [OF assms(2,1)] assms(3) by (cases "length a \<le> length b") (auto simp: min_def)
qed

theorem no_element_is_a_prefix_witness: "memcmp [2, 1] [2, 2] \<noteq> 0"
proof -
  have "is_element [2, 1, 9]" unfolding is_element_def
    by (intro exI [of _ 2] exI [of _ "[9]"]) (simp add: der_elem_def der_header_def der_len_def der_tag_def)
  moreover have "is_element [2, 2, 9, 9]" unfolding is_element_def
    by (intro exI [of _ 2] exI [of _ "[9, 9]"]) (simp add: der_elem_def der_header_def der_len_def der_tag_def)
  ultimately show ?thesis using no_element_is_a_prefix [of "[2, 1, 9]" "[2, 2, 9, 9]"] by simp
qed

section \<open>Errors and bounds\<close>

text \<open>C24. An error is final: once the error flag of a builder is set, no sequence of calls clears it, every
call that adds something or makes room for it fails, and so does \<open>CBB_finish\<close>. \<open>CBB_did_write\<close> does not look at the
flag: it still succeeds exactly when no child is pending and the bytes fit.\<close>

theorem error_is_final:
  assumes "list_all call_fits cs" and "cbb_base cbb = Some b" and "buffer_ok b" and "bb_error b" and "length written < 2 ^ 64"
  shows "\<exists>b'. cbb_base (run_calls cs cbb) = Some b' \<and> bb_error b' \<and>
    (\<forall>c. call_adds c \<longrightarrow> fst (run_call c (run_calls cs cbb)) = None) \<and>
    fst (CBB_finish h out_data out_len (run_calls cs cbb)) = None \<and>
    (fst (CBB_did_write h written (run_calls cs cbb)) = Some () \<longleftrightarrow>
      length (cbb_children (run_calls cs cbb)) \<le> h \<and> length (bb_buf b') + length written \<le> bb_cap b')"
proof -
  obtain b' where b': "cbb_base (run_calls cs cbb) = Some b'" "buffer_ok b'" "bb_error b'" using run_calls_error [OF assms(1-4)] by blast
  have "fst (CBB_finish h out_data out_len (run_calls cs cbb)) = None"
  proof (cases "h > 0")
    case False
    then show ?thesis unfolding CBB_finish_def if_not_P [OF False] by (intro bind_refuses flush_refuses [OF b'(1,3)])
  qed (simp add: CBB_finish_def)
  then show ?thesis using run_call_refuses [OF b'(1,3)] did_write_succeeds [OF b'(1,2) assms(5)] b' by blast
qed

theorem error_is_final_witness:
  "fst (run_call (Add_asn1_bool 0 True) (run_calls [Add_uint 0 7 1, Did_write 0 [5], Flush 0]
    \<lparr>cbb_base = Some \<lparr>bb_buf = [1], bb_cap = 3, bb_can_resize = False, bb_error = True, bb_alloc = (\<lambda>_. True)\<rparr>, cbb_children = []\<rparr>)) = None"
proof -
  define b :: cbb_buffer where
    "b = \<lparr>bb_buf = [1], bb_cap = 3, bb_can_resize = False, bb_error = True, bb_alloc = (\<lambda>_. True)\<rparr>"
  have "list_all call_fits [Add_uint 0 7 1, Did_write 0 [5], Flush 0]" "buffer_ok b" "bb_error b" "length [6 :: byte] < 2 ^ 64"
    by (simp_all add: b_def buffer_ok_def)
  from error_is_final [OF this(1) _ this(2-4), of "\<lparr>cbb_base = Some b, cbb_children = []\<rparr>"]
  have "call_adds c \<Longrightarrow> fst (run_call c (run_calls [Add_uint 0 7 1, Did_write 0 [5], Flush 0] \<lparr>cbb_base = Some b, cbb_children = []\<rparr>)) = None" for c
    by auto
  from this [of "Add_asn1_bool 0 True"] show ?thesis unfolding b_def by simp
qed

text \<open>C25. A builder over a fixed buffer of \<open>len\<close> bytes never holds more than \<open>len\<close> bytes, whatever
calls are made on it, \<open>CBB_did_write\<close> and \<open>CBB_discard_child\<close> included, and whether they succeed or fail.\<close>

theorem fixed_buffer_bound:
  assumes "CBB_init_fixed alloc len = (True, cbb)" and "len < 2 ^ 64" and "list_all call_fits cs"
  shows "\<exists>b. cbb_base (run_calls cs cbb) = Some b \<and> length (bb_buf b) \<le> len"
proof -
  obtain b where b: "cbb_base cbb = Some b" "buffer_ok b" "\<not> bb_can_resize b" "bb_cap b = len"
    using assms(1,2) by (auto simp: CBB_init_fixed_def cbb_init_def CBB_zero_def buffer_ok_def split: if_splits)
  from run_calls_fixed [OF assms(3) b(1-3)] b(4) show ?thesis by (auto simp: buffer_ok_def)
qed

theorem fixed_buffer_bound_witness:
  "\<exists>cbb b. CBB_init_fixed (\<lambda>_. True) 3 = (True, cbb) \<and>
    cbb_base (run_calls [Add_uint 0 7 2, Did_write 0 [1, 2], Did_write 0 [3]] cbb) = Some b \<and> length (bb_buf b) \<le> 3"
proof -
  obtain cbb where cbb: "CBB_init_fixed (\<lambda>_. True) 3 = (True, cbb)"
    by (simp add: CBB_init_fixed_def cbb_init_def CBB_zero_def)
  from fixed_buffer_bound [OF cbb, of "[Add_uint 0 7 2, Did_write 0 [1, 2], Did_write 0 [3]]"] show ?thesis using cbb by simp
qed

section \<open>Memory\<close>

text \<open>\<open>CRYPTO_memcmp\<close> returns zero exactly when the first \<open>len\<close> bytes agree.\<close>

theorem memcmp_zero_iff:
  assumes "len \<le> length a" and "len \<le> length b"
  shows "CRYPTO_memcmp a b len = 0 \<longleftrightarrow> take len a = take len b"
  using assms by (rule CRYPTO_memcmp_eq_zero)

theorem memcmp_zero_iff_witness: "CRYPTO_memcmp [1, 2, 3] [1, 2, 4] 2 = 0"
  using memcmp_zero_iff [of 2 "[1, 2, 3]" "[1, 2, 4]"] by simp

text \<open>\<open>OPENSSL_strlcpy\<close> copies as much of the string as fits, always terminates the copy, never
writes more than the size of the destination, and returns the length of the source.\<close>

theorem strlcpy_result:
  assumes "0 \<notin> set s" and "0 < dst_size"
  shows "\<exists>dst. OPENSSL_strlcpy (s @ 0 # t) dst_size = Some (dst, length s) \<and>
    dst = take (dst_size - 1) s @ [0] \<and> length dst \<le> dst_size"
  using OPENSSL_strlcpy_eq [OF assms] assms(2) by (auto simp: min_def)

theorem strlcpy_result_witness: "OPENSSL_strlcpy [104, 105, 33, 0] 3 = Some ([104, 105, 0], 3)"
  using strlcpy_result [of "[104, 105, 33]" 3 "[]"] by (simp add: take_Cons')

end
