(* ===== verification/Unicode.thy ===== *)
theory Unicode
  imports Bytestring_Roundtrip
begin

text \<open>
  Code points in byte strings (\<open>crypto/bytestring/unicode.c\<close>): UTF-8, Latin-1, UCS-2 and
  UTF-32. The reference encoding of UTF-8 is written with arithmetic on numbers; the reader is
  shown to accept exactly the reference encodings of valid code points, and the writer to
  append them.
\<close>

section \<open>The code\<close>

definition is_valid_code_point :: "u32 \<Rightarrow> bool" where
  "is_valid_code_point v =
     (if v > 0x10ffff \<or> v AND 0xfffe = 0xfffe \<or> (v \<ge> 0xfdd0 \<and> v \<le> 0xfdef) \<or> (v \<ge> 0xd800 \<and> v \<le> 0xdfff)
      then False else True)"

definition BOTTOM_BITS :: "nat \<Rightarrow> u8" where
  "BOTTOM_BITS n = ucast (push_bit n (1 :: u32) - 1)"

definition TOP_BITS :: "nat \<Rightarrow> u8" where
  "TOP_BITS n = NOT (BOTTOM_BITS (8 - n))"

primrec cbs_get_utf8_loop :: "nat \<Rightarrow> u32 \<Rightarrow> (CBS, u32) op" where
  "cbs_get_utf8_loop 0 v = op_return v"
| "cbs_get_utf8_loop (Suc i) v = op_bind CBS_get_u8 (\<lambda>c.
     if c AND TOP_BITS 2 \<noteq> TOP_BITS 1 then op_fail
     else cbs_get_utf8_loop i (push_bit 6 v OR ucast (c AND BOTTOM_BITS 6)))"

definition cbs_get_utf8 :: "(CBS, u32) op" where
  "cbs_get_utf8 = op_bind CBS_get_u8 (\<lambda>c.
     if c \<le> 0x7f then op_return (ucast c)
     else
       let continue = (\<lambda>v len lower_bound. op_bind (cbs_get_utf8_loop len v) (\<lambda>v.
         if \<not> is_valid_code_point v \<or> v < lower_bound then op_fail else op_return v))
       in if c AND TOP_BITS 3 = TOP_BITS 2 then continue (ucast (c AND BOTTOM_BITS 5)) 1 0x80
          else if c AND TOP_BITS 4 = TOP_BITS 3 then continue (ucast (c AND BOTTOM_BITS 4)) 2 0x800
          else if c AND TOP_BITS 5 = TOP_BITS 4 then continue (ucast (c AND BOTTOM_BITS 3)) 3 0x10000
          else op_fail)"

definition cbs_get_latin1 :: "(CBS, u32) op" where
  "cbs_get_latin1 = op_map ucast CBS_get_u8"

definition cbs_get_ucs2_be :: "(CBS, u32) op" where
  "cbs_get_ucs2_be = op_bind CBS_get_u16 (\<lambda>c.
     if \<not> is_valid_code_point (ucast c) then op_fail else op_return (ucast c))"

definition cbs_get_utf32_be :: "(CBS, u32) op" where
  "cbs_get_utf32_be = op_bind CBS_get_u32 (\<lambda>c. if is_valid_code_point c then op_return c else op_fail)"

definition cbb_get_utf8_len :: "u32 \<Rightarrow> nat" where
  "cbb_get_utf8_len u = (if u \<le> 0x7f then 1 else if u \<le> 0x7ff then 2 else if u \<le> 0xffff then 3 else 4)"

definition cbb_add_utf8 :: "nat \<Rightarrow> u32 \<Rightarrow> (CBB, unit) op" where
  "cbb_add_utf8 h u =
     (if \<not> is_valid_code_point u then op_fail
      else if u \<le> 0x7f then CBB_add_u8 h (ucast u)
      else if u \<le> 0x7ff then
        op_bind (CBB_add_u8 h (ucast (ucast (TOP_BITS 2) OR drop_bit 6 u))) (\<lambda>_.
          CBB_add_u8 h (ucast (ucast (TOP_BITS 1) OR u AND ucast (BOTTOM_BITS 6))))
      else if u \<le> 0xffff then
        op_bind (CBB_add_u8 h (ucast (ucast (TOP_BITS 3) OR drop_bit 12 u))) (\<lambda>_.
        op_bind (CBB_add_u8 h (ucast (ucast (TOP_BITS 1) OR drop_bit 6 u AND ucast (BOTTOM_BITS 6)))) (\<lambda>_.
          CBB_add_u8 h (ucast (ucast (TOP_BITS 1) OR u AND ucast (BOTTOM_BITS 6)))))
      else if u \<le> 0x10ffff then
        op_bind (CBB_add_u8 h (ucast (ucast (TOP_BITS 4) OR drop_bit 18 u))) (\<lambda>_.
        op_bind (CBB_add_u8 h (ucast (ucast (TOP_BITS 1) OR drop_bit 12 u AND ucast (BOTTOM_BITS 6)))) (\<lambda>_.
        op_bind (CBB_add_u8 h (ucast (ucast (TOP_BITS 1) OR drop_bit 6 u AND ucast (BOTTOM_BITS 6)))) (\<lambda>_.
          CBB_add_u8 h (ucast (ucast (TOP_BITS 1) OR u AND ucast (BOTTOM_BITS 6))))))
      else op_fail)"

definition cbb_add_latin1 :: "nat \<Rightarrow> u32 \<Rightarrow> (CBB, unit) op" where
  "cbb_add_latin1 h u = (if u \<le> 0xff then CBB_add_u8 h (ucast u) else op_fail)"

definition cbb_add_ucs2_be :: "nat \<Rightarrow> u32 \<Rightarrow> (CBB, unit) op" where
  "cbb_add_ucs2_be h u = (if u \<le> 0xffff \<and> is_valid_code_point u then CBB_add_u16 h (ucast u) else op_fail)"

definition cbb_add_utf32_be :: "nat \<Rightarrow> u32 \<Rightarrow> (CBB, unit) op" where
  "cbb_add_utf32_be h u = (if is_valid_code_point u then CBB_add_u32 h u else op_fail)"

section \<open>The reference encoding\<close>

definition utf8 :: "nat \<Rightarrow> byte list" where
  "utf8 n =
     (if n < 0x80 then [of_nat n]
      else if n < 0x800 then [of_nat (192 + n div 64), of_nat (128 + n mod 64)]
      else if n < 0x10000 then
        [of_nat (224 + n div 4096), of_nat (128 + n div 64 mod 64), of_nat (128 + n mod 64)]
      else [of_nat (240 + n div 262144), of_nat (128 + n div 4096 mod 64), of_nat (128 + n div 64 mod 64),
            of_nat (128 + n mod 64)])"

text \<open>The masks.\<close>

lemma bits_consts:
  "TOP_BITS 1 = 0x80" "TOP_BITS 2 = 0xc0" "TOP_BITS 3 = 0xe0" "TOP_BITS 4 = 0xf0" "TOP_BITS 5 = 0xf8"
  "BOTTOM_BITS 3 = 0x07" "BOTTOM_BITS 4 = 0x0f" "BOTTOM_BITS 5 = 0x1f" "BOTTOM_BITS 6 = 0x3f"
  by (simp_all add: TOP_BITS_def BOTTOM_BITS_def)

lemma unat_and_not_mask: "unat ((c :: u8) AND NOT (mask n)) = unat c div 2 ^ n * 2 ^ n"
proof -
  have "c AND NOT (mask n) = push_bit n (drop_bit n c)"
    by (rule bit_word_eqI) (auto simp: bit_simps)
  moreover have "unat (drop_bit n c) * 2 ^ n \<le> unat c" by (simp add: unat_drop_bit)
  then have "unat (drop_bit n c) * 2 ^ n < 2 ^ LENGTH(8)" using word_unat_lt [of c] by linarith
  ultimately show ?thesis by (simp add: unat_push_bit_lt unat_drop_bit)
qed

lemma and_high:
  assumes "m = NOT (mask n)" and "unat t = k * 2 ^ n"
  shows "(c :: u8) AND m = t \<longleftrightarrow> k * 2 ^ n \<le> unat c \<and> unat c < Suc k * 2 ^ n"
proof -
  have "c AND m = t \<longleftrightarrow> unat c div 2 ^ n * 2 ^ n = k * 2 ^ n"
    by (simp only: word_unat_eq_iff assms unat_and_not_mask)
  also have "\<dots> \<longleftrightarrow> unat c div 2 ^ n = k" by simp
  also have "\<dots> \<longleftrightarrow> k * 2 ^ n \<le> unat c \<and> unat c < Suc k * 2 ^ n"
  proof
    assume "unat c div 2 ^ n = k"
    then show "k * 2 ^ n \<le> unat c \<and> unat c < Suc k * 2 ^ n"
      using div_times_less_eq_dividend [of "unat c" "2 ^ n"] dividend_less_div_times [of "2 ^ n" "unat c"] by simp
  next
    assume "k * 2 ^ n \<le> unat c \<and> unat c < Suc k * 2 ^ n"
    then show "unat c div 2 ^ n = k" by (intro div_nat_eqI) (simp_all add: mult.commute)
  qed
  finally show ?thesis .
qed

lemma lead_bytes:
  "(c :: u8) AND 0xc0 = 0x80 \<longleftrightarrow> 128 \<le> unat c \<and> unat c < 192"
  "c AND 0xe0 = 0xc0 \<longleftrightarrow> 192 \<le> unat c \<and> unat c < 224"
  "c AND 0xf0 = 0xe0 \<longleftrightarrow> 224 \<le> unat c \<and> unat c < 240"
  "c AND 0xf8 = 0xf0 \<longleftrightarrow> 240 \<le> unat c \<and> unat c < 248"
  using and_high [of "0xc0" 6 "0x80" 2 c] and_high [of "0xe0" 5 "0xc0" 6 c]
    and_high [of "0xf0" 4 "0xe0" 14 c] and_high [of "0xf8" 3 "0xf0" 30 c]
  by (simp_all add: mask_eq_exp_minus_1)

lemma low_bits: "unat ((c :: u8) AND 0x3f) = unat c mod 64" "unat (c AND 0x1f) = unat c mod 32"
  "unat (c AND 0x0f) = unat c mod 16" "unat (c AND 0x07) = unat c mod 8"
  using unat_and_mask [of c 6] unat_and_mask [of c 5] unat_and_mask [of c 4] unat_and_mask [of c 3]
  by (simp_all add: mask_eq_exp_minus_1)

section \<open>Reading UTF-8\<close>

definition continuation :: "byte \<Rightarrow> bool" where
  "continuation c \<longleftrightarrow> 128 \<le> unat c \<and> unat c < 192"

primrec utf8_tail :: "nat \<Rightarrow> byte list \<Rightarrow> nat" where
  "utf8_tail v [] = v"
| "utf8_tail v (c # cs) = utf8_tail (v * 64 + (unat c - 128)) cs"

lemma cbs_get_utf8_loop_iff:
  "unat v < 2 ^ (32 - 6 * n) \<Longrightarrow> n \<le> 3 \<Longrightarrow>
    cbs_get_utf8_loop n v bs = (Some w, rest) \<longleftrightarrow>
      (\<exists>cs. length cs = n \<and> list_all continuation cs \<and> bs = cs @ rest \<and> unat w = utf8_tail (unat v) cs)"
proof (induction n arbitrary: v bs)
  case 0
  then show ?case by (auto simp: word_unat_eq_iff)
next
  case (Suc n)
  show ?case
  proof (cases bs)
    case Nil
    then show ?thesis by (auto simp: op_bind_def)
  next
    case (Cons c cs)
    show ?thesis
    proof (cases "continuation c")
      case False
      then have "c AND TOP_BITS 2 \<noteq> TOP_BITS 1" unfolding continuation_def bits_consts lead_bytes .
      then show ?thesis using False by (auto simp: Cons op_bind_def length_Suc_conv)
    next
      case True
      define w' where "w' = push_bit 6 v OR ucast (c AND BOTTOM_BITS 6)"
      have "unat c - 128 < 64" using True unfolding continuation_def by linarith
      then have "unat c mod 64 = unat c - 128"
        using True mod_mult_self2 [of "unat c - 128" 64 2] by (simp add: continuation_def)
      then have low: "unat (ucast (c AND BOTTOM_BITS 6) :: u32) = unat c - 128"
        by (simp add: unat_ucast_up bits_consts low_bits)
      have "unat c - 128 < 64" using True unfolding continuation_def by linarith
      moreover have "unat v * 64 + 64 \<le> 2 ^ (32 - 6 * n)"
      proof -
        have "(2 :: nat) ^ (32 - 6 * n) = 64 * 2 ^ (32 - 6 * Suc n)"
        proof -
          have "32 - 6 * n = 6 + (32 - 6 * Suc n)" using Suc.prems(2) by simp
          then show ?thesis by (simp only: power_add) simp
        qed
        then show ?thesis using Suc.prems(1) by simp
      qed
      moreover have "(2 :: nat) ^ (32 - 6 * n) \<le> 2 ^ 32" by (intro power_increasing) simp_all
      ultimately have w': "unat w' = unat v * 64 + (unat c - 128)" "unat w' < 2 ^ (32 - 6 * n)"
        unfolding w'_def using low by (subst unat_push_bit_or; simp)+
      have "c AND TOP_BITS 2 = TOP_BITS 1" using True unfolding continuation_def bits_consts lead_bytes .
      then have "cbs_get_utf8_loop (Suc n) v bs = cbs_get_utf8_loop n w' cs"
        by (simp add: Cons op_bind_def w'_def)
      then show ?thesis using Suc.IH [OF w'(2), of cs] Suc.prems(2) True w'(1)
        by (auto simp: Cons length_Suc_conv)
    qed
  qed
qed

lemma is_valid_code_point_le: "is_valid_code_point v \<Longrightarrow> unat v \<le> 0x10ffff"
  by (auto simp: is_valid_code_point_def word_less_nat_alt not_less split: if_splits)

lemma is_valid_code_point_ascii: "unat v < 128 \<Longrightarrow> is_valid_code_point v"
proof -
  assume v: "unat v < 128"
  have "v AND 0xfffe \<noteq> 0xfffe"
  proof
    assume *: "v AND 0xfffe = 0xfffe"
    have "v AND 0xfffe \<le> v" by (rule word_and_le2)
    then have "unat (0xfffe :: u32) \<le> unat v" unfolding * word_le_nat_alt .
    then show False using v by simp
  qed
  then show ?thesis using v by (simp add: is_valid_code_point_def word_less_nat_alt word_le_nat_alt)
qed

text \<open>The lead byte and the length class of the reference encoding.\<close>

lemma utf8_cases:
  assumes "n \<le> 0x10ffff"
  obtains (1) "n < 0x80" "utf8 n = [of_nat n]"
  | (2) "0x80 \<le> n" "n < 0x800" "utf8 n = [of_nat (192 + n div 64), of_nat (128 + n mod 64)]" "n div 64 < 32"
  | (3) "0x800 \<le> n" "n < 0x10000" "n div 4096 < 16"
      "utf8 n = [of_nat (224 + n div 4096), of_nat (128 + n div 64 mod 64), of_nat (128 + n mod 64)]"
  | (4) "0x10000 \<le> n" "n div 262144 < 5"
      "utf8 n = [of_nat (240 + n div 262144), of_nat (128 + n div 4096 mod 64), of_nat (128 + n div 64 mod 64), of_nat (128 + n mod 64)]"
proof -
  consider "n < 0x80" | "0x80 \<le> n" "n < 0x800" | "0x800 \<le> n" "n < 0x10000" | "0x10000 \<le> n" by linarith
  then show thesis
  proof cases
    case 1 then show thesis by (intro that(1)) (simp_all add: utf8_def)
  next
    case 2 then show thesis by (intro that(2)) (simp_all add: utf8_def less_mult_imp_div_less)
  next
    case 3 then show thesis by (intro that(3)) (simp_all add: utf8_def less_mult_imp_div_less)
  next
    case 4 then show thesis using assms by (intro that(4)) (simp_all add: utf8_def less_mult_imp_div_less)
  qed
qed

lemma of_nat_byte: "k < 256 \<Longrightarrow> unat (of_nat k :: byte) = k"
  by simp

lemma continuation_of_nat: "k < 64 \<Longrightarrow> continuation (of_nat (128 + k)) \<and> unat (of_nat (128 + k) :: byte) = 128 + k"
  by (simp add: continuation_def of_nat_byte del: of_nat_add)

lemma byte_of_unat: "unat (c :: byte) = k \<Longrightarrow> c = of_nat k"
  by (rule unat_eq_of_nat)

lemma word_le_small: "(v :: u32) < 0x80 \<longleftrightarrow> unat v < 0x80" "v < 0x800 \<longleftrightarrow> unat v < 0x800" "v < 0x10000 \<longleftrightarrow> unat v < 0x10000"
  by (simp_all add: word_less_nat_alt)

text \<open>One class of lead bytes: the loop over the continuation bytes and the two checks.\<close>

definition utf8_rest :: "u32 \<Rightarrow> nat \<Rightarrow> u32 \<Rightarrow> (CBS, u32) op" where
  "utf8_rest v len lower_bound = op_bind (cbs_get_utf8_loop len v) (\<lambda>v.
     if \<not> is_valid_code_point v \<or> v < lower_bound then op_fail else op_return v)"

lemma utf8_rest_iff:
  assumes "unat v < 2 ^ (32 - 6 * n)" and "n \<le> 3"
  shows "utf8_rest v n lb bs = (Some w, rest) \<longleftrightarrow>
    (\<exists>cs. length cs = n \<and> list_all continuation cs \<and> bs = cs @ rest \<and> unat w = utf8_tail (unat v) cs) \<and>
    is_valid_code_point w \<and> unat lb \<le> unat w"
proof -
  have "utf8_rest v n lb bs = (Some w, rest) \<longleftrightarrow>
      cbs_get_utf8_loop n v bs = (Some w, rest) \<and> is_valid_code_point w \<and> unat lb \<le> unat w"
    by (auto simp: utf8_rest_def op_bind_eq_Some word_less_nat_alt not_less split: if_splits)
  then show ?thesis unfolding cbs_get_utf8_loop_iff [OF assms] by simp
qed

lemma cbs_get_utf8_Cons:
  "cbs_get_utf8 (c # cs) =
    (if unat c < 128 then (Some (ucast c), cs)
     else if unat c < 192 then (None, cs)
     else if unat c < 224 then utf8_rest (of_nat (unat c - 192)) 1 0x80 cs
     else if unat c < 240 then utf8_rest (of_nat (unat c - 224)) 2 0x800 cs
     else if unat c < 248 then utf8_rest (of_nat (unat c - 240)) 3 0x10000 cs
     else (None, cs))"
proof -
  have m: "unat c mod 32 = unat c - 192" if "192 \<le> unat c" "unat c < 224"
    using that mod_mult_self2 [of "unat c - 192" 32 6] by simp
  have m4: "unat c mod 16 = unat c - 224" if "224 \<le> unat c" "unat c < 240"
    using that mod_mult_self2 [of "unat c - 224" 16 14] by simp
  have m5: "unat c mod 8 = unat c - 240" if "240 \<le> unat c" "unat c < 248"
    using that mod_mult_self2 [of "unat c - 240" 8 30] by simp
  have w: "(ucast (c AND b) :: u32) = of_nat k" if "unat (c AND b) = k" for b k
    by (rule unat_eq_of_nat) (simp add: unat_ucast_up that)
  have le: "c \<le> 0x7f \<longleftrightarrow> unat c < 128" by (auto simp: word_le_nat_alt)
  consider "unat c < 128" | "128 \<le> unat c" "unat c < 192" | "192 \<le> unat c" "unat c < 224"
    | "224 \<le> unat c" "unat c < 240" | "240 \<le> unat c" "unat c < 248" | "248 \<le> unat c" by linarith
  then show ?thesis
    by cases (simp_all add: cbs_get_utf8_def op_bind_def bits_consts lead_bytes le w low_bits m m4 m5 utf8_rest_def Let_def)
qed

lemma length_1_2_3:
  "(\<exists>cs. length cs = 1 \<and> P cs) \<longleftrightarrow> (\<exists>a. P [a])"
  "(\<exists>cs. length cs = 2 \<and> P cs) \<longleftrightarrow> (\<exists>a b. P [a, b])"
  "(\<exists>cs. length cs = 3 \<and> P cs) \<longleftrightarrow> (\<exists>a b c. P [a, b, c])"
    apply (auto simp: length_Suc_conv numeral_eq_Suc)[2]
  apply (auto simp: length_Suc_conv numeral_eq_Suc)
  apply blast
  done

lemma div_mod_64: "q < 64 \<Longrightarrow> (p * 64 + q) div 64 = p" "q < 64 \<Longrightarrow> (p * 64 + q) mod 64 = q" for p q :: nat
  by simp_all

text \<open>Every decoded string is the reference encoding of its value.\<close>

lemma cbs_get_utf8_sound:
  assumes "cbs_get_utf8 bs = (Some v, rest)"
  shows "is_valid_code_point v \<and> bs = utf8 (unat v) @ rest"
proof (cases bs)
  case Nil
  then show ?thesis using assms by (simp add: cbs_get_utf8_def op_bind_def)
next
  case (Cons c cs)
  have lead: "unat (of_nat (unat c - k) :: u32) = unat c - k" for k
  proof -
    have "unat c - k < 256" using unat_lt8 [of c] by linarith
    then show ?thesis by (intro unat_of_nat_small) simp
  qed
  consider "unat c < 128" | "192 \<le> unat c" "unat c < 224" | "224 \<le> unat c" "unat c < 240" | "240 \<le> unat c" "unat c < 248"
    using assms by (auto simp: Cons cbs_get_utf8_Cons split: if_splits)
  then show ?thesis
  proof cases
    case 1
    then have "v = ucast c" "rest = cs" using assms by (simp_all add: Cons cbs_get_utf8_Cons)
    then show ?thesis using 1 by (simp add: Cons is_valid_code_point_ascii unat_ucast_up utf8_def)
  next
    case 2
    then have get: "utf8_rest (of_nat (unat c - 192)) 1 0x80 cs = (Some v, rest)"
      using assms by (simp add: Cons cbs_get_utf8_Cons)
    have "unat (of_nat (unat c - 192) :: u32) < 2 ^ (32 - 6 * 1)" unfolding lead using 2 by simp
    from utf8_rest_iff [OF this, of "0x80" cs v rest] get obtain a where a: "continuation a" "cs = a # rest"
      "unat v = (unat c - 192) * 64 + (unat a - 128)" "is_valid_code_point v" "0x80 \<le> unat v"
      unfolding lead length_1_2_3 by auto
    have "unat a - 128 < 64" "128 \<le> unat a" using a(1) unfolding continuation_def by linarith+
    then have "unat v div 64 = unat c - 192" "unat v mod 64 = unat a - 128"
      unfolding a(3) by (simp_all only: div_mod_64)
    moreover have "unat v < 0x800" using a(3) 2 \<open>unat a - 128 < 64\<close> by linarith
    ultimately have "utf8 (unat v) = [c, a]" using a(5) 2 \<open>128 \<le> unat a\<close> by (simp add: utf8_def del: of_nat_add)
    then show ?thesis using a by (simp add: Cons)
  next
    case 3
    then have get: "utf8_rest (of_nat (unat c - 224)) 2 0x800 cs = (Some v, rest)"
      using assms by (simp add: Cons cbs_get_utf8_Cons)
    have "unat (of_nat (unat c - 224) :: u32) < 2 ^ (32 - 6 * 2)" unfolding lead using 3 by simp
    from utf8_rest_iff [OF this, of "0x800" cs v rest] get obtain a b where a: "continuation a" "continuation b" "cs = a # b # rest"
      "unat v = ((unat c - 224) * 64 + (unat a - 128)) * 64 + (unat b - 128)" "is_valid_code_point v" "0x800 \<le> unat v"
      unfolding lead length_1_2_3 by auto
    have r: "unat a - 128 < 64" "128 \<le> unat a" "unat b - 128 < 64" "128 \<le> unat b" using a(1,2) unfolding continuation_def by linarith+
    have q: "unat v div 64 = (unat c - 224) * 64 + (unat a - 128)" "unat v mod 64 = unat b - 128"
      unfolding a(4) by (simp_all only: div_mod_64 r)
    have "unat v div 4096 = unat v div 64 div 64" by (simp add: div_mult2_eq [symmetric])
    then have q2: "unat v div 4096 = unat c - 224" "unat v div 64 mod 64 = unat a - 128"
      unfolding q(1) by (simp_all only: div_mod_64 r)
    have "unat c - 224 \<le> 15" "unat a - 128 \<le> 63" "unat b - 128 \<le> 63" using r 3 by linarith+
    moreover have "(p * 64 + q) * 64 + s < 0x10000" if "p \<le> 15" "q \<le> 63" "s \<le> 63" for p q s :: nat
      using that by simp
    ultimately have "unat v < 0x10000" unfolding a(4) by blast
    then have "utf8 (unat v) = [c, a, b]" using a(6) q(2) q2 3 r by (simp add: utf8_def del: of_nat_add)
    then show ?thesis using a by (simp add: Cons)
  next
    case 4
    then have get: "utf8_rest (of_nat (unat c - 240)) 3 0x10000 cs = (Some v, rest)"
      using assms by (simp add: Cons cbs_get_utf8_Cons)
    have "unat (of_nat (unat c - 240) :: u32) < 2 ^ (32 - 6 * 3)" unfolding lead using 4 by simp
    from utf8_rest_iff [OF this, of "0x10000" cs v rest] get obtain a b d where a: "continuation a" "continuation b" "continuation d" "cs = a # b # d # rest"
      "unat v = (((unat c - 240) * 64 + (unat a - 128)) * 64 + (unat b - 128)) * 64 + (unat d - 128)" "is_valid_code_point v" "0x10000 \<le> unat v"
      unfolding lead length_1_2_3 by auto
    have r: "unat a - 128 < 64" "128 \<le> unat a" "unat b - 128 < 64" "128 \<le> unat b" "unat d - 128 < 64" "128 \<le> unat d"
      using a(1-3) unfolding continuation_def by linarith+
    have q: "unat v div 64 = ((unat c - 240) * 64 + (unat a - 128)) * 64 + (unat b - 128)" "unat v mod 64 = unat d - 128"
      unfolding a(5) by (simp_all only: div_mod_64 r)
    have "unat v div 4096 = unat v div 64 div 64" by (simp add: div_mult2_eq [symmetric])
    then have q2: "unat v div 4096 = (unat c - 240) * 64 + (unat a - 128)" "unat v div 64 mod 64 = unat b - 128"
      unfolding q(1) by (simp_all only: div_mod_64 r)
    have "unat v div 262144 = unat v div 4096 div 64" by (simp add: div_mult2_eq [symmetric])
    then have "unat v div 262144 = unat c - 240" "unat v div 4096 mod 64 = unat a - 128"
      unfolding q2(1) by (simp_all only: div_mod_64 r)
    then have "utf8 (unat v) = [c, a, b, d]" using a(7) q(2) q2(2) 4 r by (simp add: utf8_def del: of_nat_add)
    then show ?thesis using a by (simp add: Cons)
  qed
qed

text \<open>Every valid code point is decoded from its reference encoding.\<close>

lemma cbs_get_utf8_complete:
  assumes "is_valid_code_point v"
  shows "cbs_get_utf8 (utf8 (unat v) @ rest) = (Some v, rest)"
proof -
  have c: "continuation (of_nat (128 + k mod 64))" "unat (of_nat (128 + k mod 64) :: byte) = 128 + k mod 64" for k
    using continuation_of_nat [of "k mod 64"] by simp_all
  show ?thesis
  using is_valid_code_point_le [OF assms]
  proof (cases rule: utf8_cases)
    case 1
    then have "unat (of_nat (unat v) :: byte) = unat v" by (intro of_nat_byte) simp
    moreover from this have "(ucast (of_nat (unat v) :: byte) :: u32) = v" by (simp add: word_unat_eq_iff unat_ucast_up)
    ultimately show ?thesis using 1 by (simp add: cbs_get_utf8_Cons)
  next
    case 2
    define n where "n = unat v"
    have l: "unat (of_nat (192 + n div 64) :: byte) = 192 + n div 64" using 2 by (intro of_nat_byte) (simp add: n_def)
    have k: "unat (of_nat (n div 64) :: u32) = n div 64" using 2 by (intro unat_of_nat_small) (simp add: n_def)
    have "utf8_rest (of_nat (n div 64)) 1 0x80 (of_nat (128 + n mod 64) # rest) = (Some v, rest)"
      using 2 assms c [of n] by (subst utf8_rest_iff) (simp_all add: k n_def [symmetric] length_1_2_3 del: of_nat_add)
    then show ?thesis using 2 l by (simp add: n_def [symmetric] cbs_get_utf8_Cons del: of_nat_add)
  next
    case 3
    define n where "n = unat v"
    have l: "unat (of_nat (224 + n div 4096) :: byte) = 224 + n div 4096" using 3 by (intro of_nat_byte) (simp add: n_def)
    have k: "unat (of_nat (n div 4096) :: u32) = n div 4096" using 3 by (intro unat_of_nat_small) (simp add: n_def)
    have "n div 4096 = n div 64 div 64" by (simp add: div_mult2_eq [symmetric])
    then have val: "(n div 4096 * 64 + n div 64 mod 64) * 64 + n mod 64 = n" by simp
    have "utf8_rest (of_nat (n div 4096)) 2 0x800 (of_nat (128 + n div 64 mod 64) # of_nat (128 + n mod 64) # rest) = (Some v, rest)"
      using 3 assms c val by (subst utf8_rest_iff) (simp_all add: k n_def [symmetric] length_1_2_3 del: of_nat_add)
    then show ?thesis using 3 l by (simp add: n_def [symmetric] cbs_get_utf8_Cons del: of_nat_add)
  next
    case 4
    define n where "n = unat v"
    have l: "unat (of_nat (240 + n div 262144) :: byte) = 240 + n div 262144" using 4 by (intro of_nat_byte) (simp add: n_def)
    have k: "unat (of_nat (n div 262144) :: u32) = n div 262144" using 4 by (intro unat_of_nat_small) (simp add: n_def)
    have "n div 4096 = n div 64 div 64" "n div 262144 = n div 4096 div 64" by (simp_all add: div_mult2_eq [symmetric])
    then have val: "((n div 262144 * 64 + n div 4096 mod 64) * 64 + n div 64 mod 64) * 64 + n mod 64 = n" by simp
    have "utf8_rest (of_nat (n div 262144)) 3 0x10000
        (of_nat (128 + n div 4096 mod 64) # of_nat (128 + n div 64 mod 64) # of_nat (128 + n mod 64) # rest) = (Some v, rest)"
      using 4 assms c val by (subst utf8_rest_iff) (simp_all add: k n_def [symmetric] length_1_2_3 del: of_nat_add)
    then show ?thesis using 4 l by (simp add: n_def [symmetric] cbs_get_utf8_Cons del: of_nat_add)
  qed
qed

lemma cbs_get_utf8_iff:
  "cbs_get_utf8 bs = (Some v, rest) \<longleftrightarrow> is_valid_code_point v \<and> bs = utf8 (unat v) @ rest"
  using cbs_get_utf8_sound cbs_get_utf8_complete by blast

interpretation get_utf8: byte_reader cbs_get_utf8
proof
  fix bs rest :: CBS and r
  assume eq: "cbs_get_utf8 bs = (r, rest)"
  have loop: "\<exists>used. bs = used @ rest" if "cbs_get_utf8_loop n v bs = (r, rest)" for n v bs and r :: "u32 option" and rest :: CBS
    using that
  proof (induction n arbitrary: v bs)
    case (Suc n)
    show ?case
    proof (cases bs)
      case Nil
      then show ?thesis using Suc.prems by (simp add: op_bind_def)
    next
      case (Cons c cs)
      have "\<exists>used. cs = used @ rest"
        using Suc.prems Suc.IH [of _ cs] by (auto simp: Cons op_bind_def split: if_splits)
      then show ?thesis unfolding Cons by (metis append_Cons)
    qed
  qed simp
  have rest: "\<exists>used. bs = used @ rest" if "utf8_rest v n lb bs = (r, rest)" for n v lb bs and r :: "u32 option" and rest :: CBS
    using that loop by (auto simp: utf8_rest_def op_bind_def split: prod.splits option.splits if_splits)
  show "\<exists>used. bs = used @ rest"
  proof (cases bs)
    case Nil
    then show ?thesis using eq by (simp add: cbs_get_utf8_def op_bind_def)
  next
    case (Cons c cs)
    then have "rest = cs \<or> (\<exists>v n lb. utf8_rest v n lb cs = (r, rest))"
      using eq by (auto simp: cbs_get_utf8_Cons split: if_splits)
    then show ?thesis using rest Cons by (metis append_Cons append_Nil)
  qed
next
  fix bs rest ext :: CBS and x
  assume "cbs_get_utf8 bs = (Some x, rest)"
  then show "cbs_get_utf8 (bs @ ext) = (Some x, rest @ ext)" by (simp add: cbs_get_utf8_iff)
qed

section \<open>Writing UTF-8\<close>

lemma or_byte:
  fixes x :: u32
  assumes "unat x < 2 ^ k" and "t * 2 ^ k + unat x < 256" and "tp = push_bit k (of_nat t)" and "t < 256"
  shows "(ucast (tp OR x) :: u8) = of_nat (t * 2 ^ k + unat x)"
proof -
  have t: "unat (of_nat t :: u32) = t" using assms(4) by (intro unat_of_nat_small) simp
  have "unat (push_bit k (of_nat t) OR x) = t * 2 ^ k + unat x"
    using assms(1,2) t by (subst unat_push_bit_or) simp_all
  then show ?thesis using assms(2) by (simp add: assms(3) word_unat_eq_iff unat_ucast_mod del: of_nat_add of_nat_mult of_nat_power)
qed

lemma tail_byte: "(ucast (ucast (TOP_BITS 1) OR (x AND ucast (BOTTOM_BITS 6))) :: u8) = of_nat (128 + unat (x :: u32) mod 64)"
proof -
  have "unat (x AND 0x3f) = unat x mod 64" using unat_and_mask [of x 6] by (simp add: mask_eq_exp_minus_1)
  then show ?thesis using or_byte [of "x AND 0x3f" 7 1 "0x80"] unfolding bits_consts by simp
qed

lemma lead_byte:
  "unat (u :: u32) < 0x800 \<Longrightarrow> (ucast (ucast (TOP_BITS 2) OR drop_bit 6 u) :: u8) = of_nat (192 + unat u div 64)"
  "unat u < 0x10000 \<Longrightarrow> (ucast (ucast (TOP_BITS 3) OR drop_bit 12 u) :: u8) = of_nat (224 + unat u div 4096)"
  "unat u < 0x200000 \<Longrightarrow> (ucast (ucast (TOP_BITS 4) OR drop_bit 18 u) :: u8) = of_nat (240 + unat u div 262144)"
proof -
  show "(ucast (ucast (TOP_BITS 2) OR drop_bit 6 u) :: u8) = of_nat (192 + unat u div 64)" if "unat u < 0x800"
    using that or_byte [of "drop_bit 6 u" 6 3 "0xc0"] less_mult_imp_div_less [of "unat u" 32 64]
    by (simp add: bits_consts unat_drop_bit)
  show "(ucast (ucast (TOP_BITS 3) OR drop_bit 12 u) :: u8) = of_nat (224 + unat u div 4096)" if "unat u < 0x10000"
    using that or_byte [of "drop_bit 12 u" 5 7 "0xe0"] less_mult_imp_div_less [of "unat u" 16 4096]
    by (simp add: bits_consts unat_drop_bit)
  show "(ucast (ucast (TOP_BITS 4) OR drop_bit 18 u) :: u8) = of_nat (240 + unat u div 262144)" if "unat u < 0x200000"
    using that or_byte [of "drop_bit 18 u" 4 15 "0xf0"] less_mult_imp_div_less [of "unat u" 8 262144]
    by (simp add: bits_consts unat_drop_bit)
qed

text \<open>The writer appends the reference encoding.\<close>

lemma cbb_op_utf8:
  assumes valid: "is_valid_code_point u"
  shows "cbb_op (cbb_add_utf8 h u) (abs_add h (utf8 (unat u)))"
proof -
  have le: "u \<le> 0x7f \<longleftrightarrow> unat u < 0x80" "u \<le> 0x7ff \<longleftrightarrow> unat u < 0x800" "u \<le> 0xffff \<longleftrightarrow> unat u < 0x10000"
    "u \<le> 0x10ffff \<longleftrightarrow> unat u \<le> 0x10ffff" by (auto simp: word_le_nat_alt)
  have adds2: "cbb_op (op_bind (CBB_add_u8 h a) (\<lambda>_. CBB_add_u8 h b)) (abs_add h [a, b])" for a b
    using cbb_op_bind [OF add_u8.cbb_op_axioms [of h a] add_u8.cbb_op_axioms [of h b]] by (simp add: abs_add_add)
  have adds3: "cbb_op (op_bind (CBB_add_u8 h a) (\<lambda>_. op_bind (CBB_add_u8 h b) (\<lambda>_. CBB_add_u8 h c))) (abs_add h [a, b, c])" for a b c
    using cbb_op_bind [OF add_u8.cbb_op_axioms [of h a] adds2 [of b c]] by (simp add: abs_add_add)
  have adds4: "cbb_op (op_bind (CBB_add_u8 h a) (\<lambda>_. op_bind (CBB_add_u8 h b) (\<lambda>_. op_bind (CBB_add_u8 h c) (\<lambda>_. CBB_add_u8 h d))))
      (abs_add h [a, b, c, d])" for a b c d
    using cbb_op_bind [OF add_u8.cbb_op_axioms [of h a] adds3 [of b c d]] by (simp add: abs_add_add)
  have d: "unat (drop_bit 6 u) = unat u div 64" "unat (drop_bit 12 u) = unat u div 4096" by (simp_all add: unat_drop_bit)
  show ?thesis
  using is_valid_code_point_le [OF valid]
  proof (cases rule: utf8_cases)
    case 1
    then have "(ucast u :: u8) = of_nat (unat u)" by (simp add: word_unat_eq_iff unat_ucast_mod)
    then show ?thesis using 1 valid le add_u8.cbb_op_axioms [of h "ucast u"] by (simp add: cbb_add_utf8_def)
  next
    case 2
    then show ?thesis using valid le adds2
      by (simp add: cbb_add_utf8_def tail_byte lead_byte del: of_nat_add One_nat_def)
  next
    case 3
    then show ?thesis using valid le adds3
      by (simp add: cbb_add_utf8_def tail_byte lead_byte d del: of_nat_add One_nat_def)
  next
    case 4
    then show ?thesis using valid le adds4 is_valid_code_point_le [OF valid]
      by (simp add: cbb_add_utf8_def tail_byte lead_byte d del: of_nat_add One_nat_def)
  qed
qed

lemma cbb_get_utf8_len_eq: "is_valid_code_point u \<Longrightarrow> cbb_get_utf8_len u = length (utf8 (unat u))"
  by (auto simp: cbb_get_utf8_len_def utf8_def word_le_nat_alt)


section \<open>Properties\<close>

text \<open>C27. The UTF-8 reader accepts exactly the shortest encodings of valid code points: no overlong
  forms, surrogates, noncharacters or values above \<open>0x10ffff\<close>, and it consumes exactly the encoding.\<close>

theorem utf8_reader_exact:
  "cbs_get_utf8 bs = (Some v, rest) \<longleftrightarrow> is_valid_code_point v \<and> bs = utf8 (unat v) @ rest"
  by (rule cbs_get_utf8_iff)

text \<open>The UTF-8 writer on a fresh builder produces that encoding, of the length that
  \<open>cbb_get_utf8_len\<close> announces, and refuses every other value.\<close>

theorem utf8_writer_exact:
  "built (cbb_add_utf8 0 u) = (if is_valid_code_point u then Some (utf8 (unat u)) else None) \<and>
   (is_valid_code_point u \<longrightarrow> cbb_get_utf8_len u = length (utf8 (unat u)))"
proof (cases "is_valid_code_point u")
  case True
  have "length (utf8 (unat u)) < 2 ^ 64" by (simp add: utf8_def)
  then show ?thesis using True built_add [OF cbb_op_utf8 [OF True]] cbb_get_utf8_len_eq [OF True] by simp
next
  case False
  then show ?thesis by (simp add: built_def cbb_add_utf8_def op_bind_def)
qed

lemma utf8_writer_exact_witness:
  "built (cbb_add_utf8 0 0x20ac) = Some [0xe2, 0x82, 0xac] \<and> cbb_get_utf8_len 0x20ac = 3"
proof -
  have "is_valid_code_point 0x20ac" by (simp add: is_valid_code_point_def)
  moreover have "utf8 (unat (0x20ac :: u32)) = [0xe2, 0x82, 0xac]" by (simp add: utf8_def)
  ultimately show ?thesis using utf8_writer_exact [of "0x20ac"] by simp
qed

end
