(* ===== verification/Ber.thy ===== *)
theory Ber
  imports Unicode
begin

text \<open>
  BER input (\<open>crypto/bytestring/ber.c\<close>): the search for constructs that DER does not have, the
  conversion to DER, and implicitly tagged strings. The conversion writes to a \<open>CBB\<close>; it is
  shown to write the bytes of a pure function of its input.
\<close>

section \<open>The code\<close>

definition kMaxDepth :: nat where "kMaxDepth = 2048"

definition is_string_type :: "u32 \<Rightarrow> bool" where
  "is_string_type tag =
     (tag AND NOT CBS_ASN1_CONSTRUCTED \<in>
       {0x4, 0xc, 0x12, 0x13, 0x14, 0x15, 0x16, 0x19, 0x1a, 0x1b, 0x1c, 0x1e})"

text \<open>Elements are at least as long as their headers, and headers have at least two octets.\<close>

lemma ber_element:
  assumes "cbs_get_any_asn1_element ber_ok bs = (Some (out, tag, hl, ber), rest)"
  shows "bs = out @ rest \<and> 2 \<le> hl \<and> hl \<le> length out"
proof -
  from assms obtain header lb cs where tag: "parse_asn1_tag bs = (Some tag, header)" and lb: "CBS_get_u8 header = (Some lb, cs)"
    by (auto simp: cbs_get_any_asn1_element_def op_map_eq_Some Let_def split: option.splits prod.splits if_splits)
  have bs: "bs = der_tag tag @ lb # cs" using tag lb by (simp add: parse_asn1_tag_iff CBS_get_u8_eq_Some)
  define h where "h = length (der_tag tag) + 1"
  have h: "CBS_len bs - CBS_len cs = h" using bs by (simp add: CBS_len_def h_def)
  have h2: "2 \<le> h" "h \<le> 7" using length_der_tag [of tag] by (simp_all add: h_def)
  define nb where "nb = unat (lb AND 0x7f)"
  have total: "unat (w + of_nat h + of_nat nb :: u64) = unat w + h + nb"
    if "cbs_get_u nb cs = (Some w, r)" "nb \<le> 4" for w r
  proof -
    from that obtain xs where xs: "length xs = nb" "w = of_nat (be_val xs)" by (auto simp: cbs_get_u_eq_Some)
    have less: "be_val xs < 256 ^ nb" using be_val_less [of xs] xs(1) by simp
    also have "(256 :: nat) ^ nb \<le> 256 ^ 4" using that(2) by (intro power_increasing) auto
    finally have "unat w = be_val xs" using xs(2) by (simp add: unat_of_nat_small)
    then have "unat w < 256 ^ nb" using less by simp
    also have "(256 :: nat) ^ nb \<le> 256 ^ 4" using that(2) by (intro power_increasing) auto
    finally have "unat w + h + nb < 2 ^ 64" using h2 that(2) by simp
    then have "unat (of_nat (unat w + h + nb) :: u64) = unat w + h + nb" by (intro unat_of_nat_small) simp
    then show ?thesis by simp
  qed
  show ?thesis
    using assms h2 unfolding cbs_get_any_asn1_element_def tag lb h Let_def nb_def [symmetric] prod.case option.case
    by (auto simp: op_map_eq_Some CBS_get_bytes_eq_Some dest: total split: if_splits option.splits prod.splits)
qed

lemma ber_element_shorter:
  "CBS_get_any_ber_asn1_element bs = (Some (out, tag, hl, ber), rest) \<Longrightarrow> length rest < length bs"
  using ber_element [of True bs] by (fastforce simp: CBS_get_any_ber_asn1_element_def)

lemma ber_contents_shorter:
  "CBS_get_any_ber_asn1_element bs = (Some (out, tag, hl, ber), rest) \<Longrightarrow> CBS_skip hl out = (Some u, c) \<Longrightarrow>
   length c < length bs"
  using ber_element [of True bs] by (fastforce simp: CBS_get_any_ber_asn1_element_def CBS_skip_def op_map_eq_Some cbs_get_eq_Some)

text \<open>
  \<open>cbs_find_ber\<close>: \<open>None\<close> is the failure, otherwise the value of \<open>*ber_found\<close>. Every call of
  \<open>CBS_get_any_ber_asn1_element\<close> in the loop assigns \<open>*ber_found\<close>.
\<close>

function cbs_find_ber_loop :: "CBS \<Rightarrow> bool \<Rightarrow> nat \<Rightarrow> bool option" where
  "cbs_find_ber_loop inp ber_found depth =
     (if CBS_len inp = 0 then Some ber_found
      else case CBS_get_any_ber_asn1_element inp of
        (None, _) \<Rightarrow> None
      | (Some (contents, tag, header_len, ber_found), inp) \<Rightarrow>
          if ber_found then Some True
          else if tag AND CBS_ASN1_CONSTRUCTED \<noteq> 0 then
            if is_string_type tag then Some True
            else (case CBS_skip header_len contents of
              (None, _) \<Rightarrow> None
            | (Some _, contents) \<Rightarrow>
                (case if depth + 1 > kMaxDepth then None else cbs_find_ber_loop contents False (depth + 1) of
                   None \<Rightarrow> None
                 | Some ber_found \<Rightarrow> cbs_find_ber_loop inp ber_found depth))
          else cbs_find_ber_loop inp ber_found depth)"
  by pat_completeness auto
termination
  by (relation "measure (\<lambda>(inp, _, _). length inp)")
    (auto simp: eq_commute [of _ "CBS_get_any_ber_asn1_element i" for i] eq_commute [of _ "CBS_skip n i" for n i]
      intro: ber_element_shorter ber_contents_shorter)


declare cbs_find_ber_loop.simps [simp del]

definition cbs_find_ber :: "CBS \<Rightarrow> nat \<Rightarrow> bool option" where
  "cbs_find_ber orig_in depth = (if depth > kMaxDepth then None else cbs_find_ber_loop orig_in False depth)"

definition is_eoc :: "nat \<Rightarrow> CBS \<Rightarrow> bool" where
  "is_eoc header_len contents \<longleftrightarrow> header_len = 2 \<and> CBS_len contents = 2 \<and> contents = [0, 0]"

text \<open>
  The recursion of \<open>cbs_convert_ber\<close> may consume part of its input and hands the rest back, so
  it carries fuel and does \<open>stuck\<close> when there is none left; \<open>convert_ber_fuel\<close> shows that one more than the length of the
  input is enough, so that \<open>stuck\<close> is never run. The first argument of \<open>cbs_convert_ber\<close> is \<open>in\<close>, the result what is left of it; \<open>out\<close>
  is the handle of the builder's innermost open child. \<open>out_contents\<close> and \<open>child_string_tag\<close>
  are picked by \<open>cbs_convert_ber_out\<close>.
\<close>

definition cbs_convert_ber_out :: "nat \<Rightarrow> u32 \<Rightarrow> u32 \<Rightarrow> (CBB, nat \<times> u32) op" where
  "cbs_convert_ber_out out string_tag tag =
     (if string_tag \<noteq> 0 then
        if tag AND NOT CBS_ASN1_CONSTRUCTED \<noteq> string_tag then op_fail else op_return (out, string_tag)
      else
        let string = (tag AND CBS_ASN1_CONSTRUCTED \<noteq> 0 \<and> is_string_type tag);
            out_tag = (if string then tag AND NOT CBS_ASN1_CONSTRUCTED else tag);
            child_string_tag = (if string then out_tag else string_tag)
        in op_bind (CBB_add_asn1 out out_tag) (\<lambda>_. op_return (out + 1, child_string_tag)))"

fun cbs_convert_ber_loop :: "(CBB, CBS) op \<Rightarrow> nat \<Rightarrow> CBS \<Rightarrow> nat \<Rightarrow> u32 \<Rightarrow> bool \<Rightarrow> nat \<Rightarrow> (CBB, CBS) op" where
  "cbs_convert_ber_loop stuck 0 inp out string_tag looking_for_eoc depth = stuck"
| "cbs_convert_ber_loop stuck (Suc fuel) inp out string_tag looking_for_eoc depth =
     (if CBS_len inp = 0 then if looking_for_eoc then op_fail else op_return inp
      else case CBS_get_any_ber_asn1_element inp of
        (None, _) \<Rightarrow> op_fail
      | (Some (contents, tag, header_len, _), inp) \<Rightarrow>
          if is_eoc header_len contents then if looking_for_eoc then op_return inp else op_fail
          else op_bind (cbs_convert_ber_out out string_tag tag) (\<lambda>(out_contents, child_string_tag).
            if CBS_len contents = header_len \<and> header_len > 0 \<and> CBS_data contents ! (header_len - 1) = 0x80 then
              op_bind (if depth + 1 > kMaxDepth then op_fail
                       else cbs_convert_ber_loop stuck fuel inp out_contents child_string_tag True (depth + 1)) (\<lambda>inp.
              op_bind (CBB_flush out) (\<lambda>_.
              cbs_convert_ber_loop stuck fuel inp out string_tag looking_for_eoc depth))
            else case CBS_skip header_len contents of
              (None, _) \<Rightarrow> op_fail
            | (Some _, contents) \<Rightarrow>
                op_bind (if tag AND CBS_ASN1_CONSTRUCTED \<noteq> 0 then
                    op_map (\<lambda>_. ()) (if depth + 1 > kMaxDepth then op_fail
                      else cbs_convert_ber_loop stuck fuel contents out_contents child_string_tag False (depth + 1))
                  else CBB_add_bytes out_contents contents) (\<lambda>_.
                op_bind (CBB_flush out) (\<lambda>_.
                cbs_convert_ber_loop stuck fuel inp out string_tag looking_for_eoc depth))))"

definition cbs_convert_ber :: "CBS \<Rightarrow> nat \<Rightarrow> u32 \<Rightarrow> bool \<Rightarrow> nat \<Rightarrow> (CBB, CBS) op" where
  "cbs_convert_ber inp out string_tag looking_for_eoc depth =
     (if depth > kMaxDepth then op_fail
      else cbs_convert_ber_loop op_fail (Suc (CBS_len inp)) inp out string_tag looking_for_eoc depth)"

text \<open>
  The result of \<open>CBS_asn1_ber_to_der\<close>: \<open>out\<close>, and whether \<open>*out_storage\<close> is a new buffer. The
  state is \<open>in\<close>. \<open>alloc\<close> is the allocator.
\<close>

definition CBS_asn1_ber_to_der :: "(nat \<Rightarrow> bool) \<Rightarrow> (CBS, CBS \<times> bool) op" where
  "CBS_asn1_ber_to_der alloc inp =
     (case cbs_find_ber inp 0 of
        None \<Rightarrow> (None, inp)
      | Some False \<Rightarrow> op_map (\<lambda>(out, _, _). (out, False)) CBS_get_any_asn1_element inp
      | Some True \<Rightarrow>
          (case CBB_init alloc (CBS_len inp) of
             (False, _) \<Rightarrow> (None, inp)
           | (True, cbb) \<Rightarrow>
             (case cbs_convert_ber inp 0 0 False 0 cbb of
                (None, _) \<Rightarrow> (None, inp)
              | (Some inp', cbb) \<Rightarrow>
                (case CBB_finish 0 True True cbb of
                   (None, _) \<Rightarrow> (None, inp')
                 | (Some bytes, _) \<Rightarrow> (Some (bytes, True), inp')))))"

primrec implicit_string_chunks :: "nat \<Rightarrow> u32 \<Rightarrow> CBS \<Rightarrow> (CBB, unit) op" where
  "implicit_string_chunks 0 inner_tag child = op_fail"
| "implicit_string_chunks (Suc fuel) inner_tag child =
     (if CBS_len child = 0 then op_return ()
      else case CBS_get_asn1 inner_tag child of
        (None, _) \<Rightarrow> op_fail
      | (Some chunk, child) \<Rightarrow>
          op_bind (CBB_add_bytes 0 chunk) (\<lambda>_. implicit_string_chunks fuel inner_tag child))"

definition CBS_get_asn1_implicit_string :: "(nat \<Rightarrow> bool) \<Rightarrow> u32 \<Rightarrow> u32 \<Rightarrow> (CBS, CBS \<times> bool) op" where
  "CBS_get_asn1_implicit_string alloc outer_tag inner_tag inp =
     (if CBS_peek_asn1_tag inp outer_tag then op_map (\<lambda>out. (out, False)) (CBS_get_asn1 outer_tag) inp
      else case CBB_init alloc (CBS_len inp) of
        (False, _) \<Rightarrow> (None, inp)
      | (True, result) \<Rightarrow>
        (case CBS_get_asn1 (outer_tag OR CBS_ASN1_CONSTRUCTED) inp of
           (None, inp) \<Rightarrow> (None, inp)
         | (Some child, inp) \<Rightarrow>
           (case op_bind (implicit_string_chunks (Suc (CBS_len child)) inner_tag child)
                   (\<lambda>_. CBB_finish 0 True True) result of
              (None, _) \<Rightarrow> (None, inp)
            | (Some bytes, _) \<Rightarrow> (Some (bytes, True), inp))))"


section \<open>Operations that write known bytes\<close>

text \<open>
  \<open>writes h m r\<close>: run with \<open>h\<close> open children, \<open>m\<close> appends the bytes of \<open>r\<close> to the innermost
  one and returns its value; it fails when \<open>r\<close> is \<open>None\<close>, and with memory to spare only then.
\<close>

definition writes :: "nat \<Rightarrow> (CBB, 'a) op \<Rightarrow> (byte list \<times> 'a) option \<Rightarrow> bool" where
  "writes h m r \<longleftrightarrow> (\<forall>cbb b A. cbb_rep cbb b A \<longrightarrow> length (snd A) = h \<longrightarrow>
     (\<forall>a cbb'. m cbb = (Some a, cbb') \<longrightarrow> (\<exists>d b'. r = Some (d, a) \<and> cbb_rep cbb' b' (append_top d A) \<and> same_env b b')) \<and>
     (\<forall>d a. growable b \<longrightarrow> r = Some (d, a) \<longrightarrow> abs_len A + length d < 2 ^ 64 \<longrightarrow> (\<exists>cbb'. m cbb = (Some a, cbb'))))"

definition writes_seq :: "(byte list \<times> 'a) option \<Rightarrow> ('a \<Rightarrow> (byte list \<times> 'b) option) \<Rightarrow> (byte list \<times> 'b) option" where
  "writes_seq r s = Option.bind r (\<lambda>(d, a). map_option (apfst ((@) d)) (s a))"

lemma writesD:
  assumes "writes h m r" and "cbb_rep cbb b A" and "length (snd A) = h" and "m cbb = (Some a, cbb')"
  shows "\<exists>d b'. r = Some (d, a) \<and> cbb_rep cbb' b' (append_top d A) \<and> same_env b b'"
  using assms unfolding writes_def by blast

lemma writes_total:
  assumes w: "writes h m r" and rep: "cbb_rep cbb b A" and h: "length (snd A) = h" and "growable b" and r: "r = Some (d, a)"
    and "abs_len A + length d < 2 ^ 64"
  shows "\<exists>cbb' b'. m cbb = (Some a, cbb') \<and> cbb_rep cbb' b' (append_top d A) \<and> same_env b b'"
proof -
  obtain cbb' where run: "m cbb = (Some a, cbb')" using assms unfolding writes_def by blast
  from writesD [OF w rep h run] r run show ?thesis by auto
qed

lemma writes_fail [simp]: "writes h op_fail None"
  by (simp add: writes_def)

lemma writes_return [simp]: "writes h (op_return a) (Some ([], a))"
  by (auto simp: writes_def)

lemma writes_bind:
  assumes m: "writes h m r" and n: "\<And>d a. r = Some (d, a) \<Longrightarrow> writes h (n a) (s a)"
  shows "writes h (op_bind m n) (writes_seq r s)"
  unfolding writes_def
proof (intro allI impI conjI)
  fix cbb b A a cbb'
  assume rep: "cbb_rep cbb b A" and h: "length (snd A) = h" and "op_bind m n cbb = (Some a, cbb')"
  then obtain x c where 1: "m cbb = (Some x, c)" and 2: "n x c = (Some a, cbb')" by (auto simp: op_bind_eq_Some)
  obtain d b1 where d: "r = Some (d, x)" "cbb_rep c b1 (append_top d A)" "same_env b b1"
    using writesD [OF m rep h 1] by blast
  obtain e b2 where e: "s x = Some (e, a)" "cbb_rep cbb' b2 (append_top e (append_top d A))" "same_env b1 b2"
    using writesD [OF n [OF d(1)] d(2) _ 2] h by auto
  show "\<exists>d b'. writes_seq r s = Some (d, a) \<and> cbb_rep cbb' b' (append_top d A) \<and> same_env b b'"
    using d e same_env_trans by (auto simp: writes_seq_def)
next
  fix cbb b A d a
  assume rep: "cbb_rep cbb b A" and h: "length (snd A) = h" and grow: "growable b" and "writes_seq r s = Some (d, a)"
    and len: "abs_len A + length d < 2 ^ 64"
  then obtain d1 x d2 where r: "r = Some (d1, x)" and s: "s x = Some (d2, a)" and d: "d = d1 @ d2"
    by (auto simp: writes_seq_def Option.bind_eq_Some_conv)
  obtain c b1 where c: "m cbb = (Some x, c)" "cbb_rep c b1 (append_top d1 A)" "same_env b b1"
    using writes_total [OF m rep h grow r] len d by auto
  have "growable b1" using grow c(3) by (simp add: same_env_growable)
  then show "\<exists>cbb'. op_bind m n cbb = (Some a, cbb')"
    using writes_total [OF n [OF r] c(2) _ _ s] len d h c(1) by (auto simp: abs_len_append_top)
qed

lemma writes_cbb_op:
  assumes m: "cbb_op m (abs_add h d)"
  shows "writes h m (Some (d, ()))"
  unfolding writes_def
proof (intro allI impI conjI)
  fix cbb b A cbb' and a :: unit
  assume "cbb_rep cbb b A" and "length (snd A) = h" and "m cbb = (Some a, cbb')"
  then show "\<exists>d' b'. Some (d, ()) = Some (d', a) \<and> cbb_rep cbb' b' (append_top d' A) \<and> same_env b b'"
    using cbb_op.sound [OF m] by (fastforce simp: abs_add_at)
next
  fix cbb b A d' and a :: unit
  assume "cbb_rep cbb b A" and "length (snd A) = h" and "growable b" and "Some (d, ()) = Some (d', a)"
    and "abs_len A + length d' < 2 ^ 64"
  then show "\<exists>cbb'. m cbb = (Some a, cbb')"
    using cbb_op.total [OF m, of cbb b A "()" "append_top d A"] by (simp add: abs_add_at abs_len_append_top)
qed

lemma writes_flush: "writes h (CBB_flush h) (Some ([], ()))"
  unfolding writes_def
proof (intro allI impI conjI)
  fix cbb b A cbb' and a :: unit
  assume "cbb_rep cbb b A" and "length (snd A) = h" and "CBB_flush h cbb = (Some a, cbb')"
  then show "\<exists>d' b'. Some ([], ()) = Some (d', a) \<and> cbb_rep cbb' b' (append_top d' A) \<and> same_env b b'"
    using flush.sound [of cbb b A h a cbb'] by (fastforce simp: abs_flush_at)
next
  fix cbb b A d' and a :: unit
  assume "cbb_rep cbb b A" and "length (snd A) = h" and "growable b" and "Some ([], ()) = Some (d', a)"
    and "abs_len A + length d' < 2 ^ 64"
  then show "\<exists>cbb'. CBB_flush h cbb = (Some a, cbb')"
    using flush.total [of cbb b A h "()" A] by (simp add: abs_flush_at)
qed

text \<open>An element around the bytes written one level deeper.\<close>

definition writes_elem :: "u32 \<Rightarrow> (byte list \<times> 'a) option \<Rightarrow> (byte list \<times> 'a) option" where
  "writes_elem tag r = Option.bind r (\<lambda>(d, a). if length d \<le> 0xfffffffe then Some (der_elem tag d, a) else None)"

lemma abs_asn1_at:
  assumes "length (snd A) = h"
  shows "\<exists>root fs. append_top (der_tag tag) A = (root, fs) \<and> length fs = h \<and>
    abs_asn1 h tag A = Some ((), (root, fs @ [(Asn1_Frame, [])]))"
proof -
  obtain root fs where A: "append_top (der_tag tag) A = (root, fs)" by fastforce
  have "length fs = h" using assms length_snd_append_top [of "der_tag tag" A] A by simp
  moreover have "abs_asn1 h tag A = Some ((), (root, fs @ [(Asn1_Frame, [])]))"
    using assms by (simp add: abs_asn1_def abs_add_at abs_bind_def abs_open_def A)
  ultimately show ?thesis using A by blast
qed

lemma writes_elem_bind:
  assumes m: "writes (h + 1) m r"
  shows "writes h (op_bind (CBB_add_asn1 h tag) (\<lambda>_. op_bind m (\<lambda>a. op_bind (CBB_flush h) (\<lambda>_. op_return a)))) (writes_elem tag r)"
  unfolding writes_def
proof (intro allI impI conjI)
  fix cbb b A a cbb'
  assume rep: "cbb_rep cbb b A" and h: "length (snd A) = h"
    and "op_bind (CBB_add_asn1 h tag) (\<lambda>_. op_bind m (\<lambda>a. op_bind (CBB_flush h) (\<lambda>_. op_return a))) cbb = (Some a, cbb')"
  then obtain c1 c2 where 1: "CBB_add_asn1 h tag cbb = (Some (), c1)" and 2: "m c1 = (Some a, c2)"
    and 3: "CBB_flush h c2 = (Some (), cbb')" by (auto simp: op_bind_eq_Some)
  obtain root fs where A: "append_top (der_tag tag) A = (root, fs)" "length fs = h"
    and asn1: "abs_asn1 h tag A = Some ((), (root, fs @ [(Asn1_Frame, [])]))" using abs_asn1_at [OF h] by blast
  obtain b1 where b1: "cbb_rep c1 b1 (root, fs @ [(Asn1_Frame, [])])" "same_env b b1"
    using add_asn1.sound [OF rep 1] asn1 by auto
  obtain d b2 where d: "r = Some (d, a)" "cbb_rep c2 b2 (root, fs @ [(Asn1_Frame, d)])" "same_env b1 b2"
    using writesD [OF m b1(1) _ 2] A(2) by auto
  obtain b3 A3 where 4: "abs_flush h (root, fs @ [(Asn1_Frame, d)]) = Some ((), A3)" "cbb_rep cbb' b3 A3" "same_env b2 b3"
    using flush.sound [OF d(2) 3] by auto
  then have len: "length d \<le> 0xfffffffe" and A3: "A3 = append_top (der_len (length d) @ d) (root, fs)"
    using A(2) by (auto simp: abs_flush_def split: if_splits)
  have "A3 = append_top (der_elem tag d) A"
    unfolding A3 A(1) [symmetric] by (simp add: der_elem_def der_header_def)
  moreover have "writes_elem tag r = Some (der_elem tag d, a)" using d(1) len by (simp add: writes_elem_def)
  moreover have "same_env b b3" using same_env_trans [OF same_env_trans [OF b1(2) d(3)] 4(3)] .
  ultimately show "\<exists>d b'. writes_elem tag r = Some (d, a) \<and> cbb_rep cbb' b' (append_top d A) \<and> same_env b b'"
    using 4(2) by blast
next
  fix cbb b A e a
  assume rep: "cbb_rep cbb b A" and h: "length (snd A) = h" and grow: "growable b" and "writes_elem tag r = Some (e, a)"
    and len: "abs_len A + length e < 2 ^ 64"
  then obtain d where d: "r = Some (d, a)" "length d \<le> 0xfffffffe" "e = der_elem tag d"
    by (auto simp: writes_elem_def Option.bind_eq_Some_conv split: if_splits)
  obtain root fs where A: "append_top (der_tag tag) A = (root, fs)" "length fs = h"
    and asn1: "abs_asn1 h tag A = Some ((), (root, fs @ [(Asn1_Frame, [])]))" using abs_asn1_at [OF h] by blast
  have al: "abs_len (root, fs) = abs_len A + length (der_tag tag)" using A(1) abs_len_append_top [of "der_tag tag" A] by simp
  have fin: "abs_flush h (root, fs @ [(Asn1_Frame, d)]) = Some ((), append_top (der_len (length d) @ d) (root, fs))"
    using A(2) d(2) by (simp add: abs_flush_def)
  have "1 \<le> length (der_len (length d))" by (simp add: der_len_def)
  moreover have "abs_len (root, fs) + length (der_len (length d)) + length d < 2 ^ 64"
    using len d(3) al by (simp add: der_elem_def der_header_def)
  ultimately have lens: "abs_len (root, fs @ [(Asn1_Frame, [])]) + length d < 2 ^ 64"
    "abs_len (append_top (der_len (length d) @ d) (root, fs)) < 2 ^ 64"
    unfolding abs_len_append_top by (simp_all add: abs_len_def layout_append)
  obtain c1 b1 where c1: "CBB_add_asn1 h tag cbb = (Some (), c1)" "cbb_rep c1 b1 (root, fs @ [(Asn1_Frame, [])])" "same_env b b1"
    using add_asn1.computes [OF rep grow asn1] lens by auto
  have g1: "growable b1" using grow c1(3) by (simp add: same_env_growable)
  obtain c2 b2 where c2: "m c1 = (Some a, c2)" "cbb_rep c2 b2 (root, fs @ [(Asn1_Frame, d)])" "same_env b1 b2"
    using writes_total [OF m c1(2) _ g1 d(1)] lens A(2) by auto
  have "growable b2" using g1 c2(3) by (simp add: same_env_growable)
  then obtain c3 where "CBB_flush h c2 = (Some (), c3)"
    using flush.computes [OF c2(2) _ fin] lens by auto
  then show "\<exists>cbb'. op_bind (CBB_add_asn1 h tag) (\<lambda>_. op_bind m (\<lambda>a. op_bind (CBB_flush h) (\<lambda>_. op_return a))) cbb = (Some a, cbb')"
    using c1 c2 by (simp add: op_bind_def)
qed


section \<open>The conversion as a function of its input\<close>

fun ber_out :: "nat \<Rightarrow> CBS \<Rightarrow> u32 \<Rightarrow> bool \<Rightarrow> nat \<Rightarrow> (byte list \<times> CBS) option" where
  "ber_out 0 inp string_tag eoc depth = None"
| "ber_out (Suc fuel) inp string_tag eoc depth =
     (if inp = [] then if eoc then None else Some ([], [])
      else case CBS_get_any_ber_asn1_element inp of
        (None, _) \<Rightarrow> None
      | (Some (contents, tag, header_len, _), inp) \<Rightarrow>
          if is_eoc header_len contents then if eoc then Some ([], inp) else None
          else
            let string = (tag AND CBS_ASN1_CONSTRUCTED \<noteq> 0 \<and> is_string_type tag);
                out_tag = (if string then tag AND NOT CBS_ASN1_CONSTRUCTED else tag);
                child_tag = (if string then out_tag else string_tag);
                wrap = (\<lambda>child. writes_seq
                  (if string_tag = 0 then writes_elem out_tag (child child_tag)
                   else if tag AND NOT CBS_ASN1_CONSTRUCTED = string_tag then child string_tag else None)
                  (\<lambda>inp. ber_out fuel inp string_tag eoc depth))
            in if length contents = header_len \<and> contents ! (header_len - 1) = 0x80 then
                 wrap (\<lambda>t. if depth + 1 > kMaxDepth then None else ber_out fuel inp t True (depth + 1))
               else wrap (\<lambda>t. if tag AND CBS_ASN1_CONSTRUCTED \<noteq> 0 then
                   if depth + 1 > kMaxDepth then None
                   else map_option (\<lambda>(d, _). (d, inp)) (ber_out fuel (drop header_len contents) t False (depth + 1))
                 else Some (drop header_len contents, inp)))"

lemma op_bind_assoc: "op_bind (op_bind m f) g = op_bind m (\<lambda>a. op_bind (f a) g)"
  by (rule ext) (simp add: op_bind_def split: prod.splits option.splits)

lemma op_bind_fail [simp]: "op_bind op_fail f = op_fail"
  by (rule ext) (simp add: op_bind_def)

lemma op_bind_return [simp]: "op_bind (op_return a) f = f a"
  by (rule ext) (simp add: op_bind_def del: op_return_apply add: op_return_def)

lemma writes_seq_None [simp]: "writes_seq None s = None"
  by (simp add: writes_seq_def)

lemma writes_map: "writes h m r \<Longrightarrow> writes h (op_map g m) (map_option (\<lambda>(d, a). (d, g a)) r)"
proof -
  assume "writes h m r"
  then have "writes h (op_bind m (\<lambda>a. op_return (g a))) (writes_seq r (\<lambda>a. Some ([], g a)))"
    by (intro writes_bind) simp_all
  moreover have "writes_seq r (\<lambda>a. Some ([], g a)) = map_option (\<lambda>(d, a). (d, g a)) r"
    by (cases r) (auto simp: writes_seq_def apfst_def)
  ultimately show ?thesis by (simp add: op_map_def)
qed

text \<open>The child of one element: written in place inside a constructed string, wrapped in an element otherwise.\<close>

lemma writes_child:
  assumes m: "\<And>h t. writes h (m h t) (r t)" and n: "\<And>t d a. r t = Some (d, a) \<Longrightarrow> writes h (n a) (s a)"
  shows "writes h
    (op_bind (cbs_convert_ber_out h string_tag tag) (\<lambda>(h', t). op_bind (m h' t) (\<lambda>a. op_bind (CBB_flush h) (\<lambda>_. n a))))
    (let string = (tag AND CBS_ASN1_CONSTRUCTED \<noteq> 0 \<and> is_string_type tag);
         out_tag = (if string then tag AND NOT CBS_ASN1_CONSTRUCTED else tag);
         child_tag = (if string then out_tag else string_tag)
     in writes_seq
       (if string_tag = 0 then writes_elem out_tag (r child_tag)
        else if tag AND NOT CBS_ASN1_CONSTRUCTED = string_tag then r string_tag else None) s)"
proof -
  define out_tag where "out_tag = (if tag AND CBS_ASN1_CONSTRUCTED \<noteq> 0 \<and> is_string_type tag then tag AND NOT CBS_ASN1_CONSTRUCTED else tag)"
  define t where "t = (if tag AND CBS_ASN1_CONSTRUCTED \<noteq> 0 \<and> is_string_type tag then out_tag else string_tag)"
  have assoc: "op_bind x (\<lambda>a. op_bind (CBB_flush h) (\<lambda>_. n a)) = op_bind (op_bind x (\<lambda>a. op_bind (CBB_flush h) (\<lambda>_. op_return a))) n" for x
    by (simp add: op_bind_assoc)
  consider "string_tag = 0" | "string_tag \<noteq> 0" "tag AND NOT CBS_ASN1_CONSTRUCTED = string_tag"
    | "string_tag \<noteq> 0" "tag AND NOT CBS_ASN1_CONSTRUCTED \<noteq> string_tag" by blast
  then show ?thesis
  proof cases
    case 1
    have "writes h (op_bind (op_bind (CBB_add_asn1 h out_tag) (\<lambda>_. op_bind (m (h + 1) t) (\<lambda>a. op_bind (CBB_flush h) (\<lambda>_. op_return a)))) n)
       (writes_seq (writes_elem out_tag (r t)) s)"
    proof (rule writes_bind [OF writes_elem_bind [OF m]])
      fix d a
      assume "writes_elem out_tag (r t) = Some (d, a)"
      then obtain d' where "r t = Some (d', a)" by (auto simp: writes_elem_def Option.bind_eq_Some_conv split: if_splits)
      then show "writes h (n a) (s a)" by (rule n)
    qed
    with 1 show ?thesis
      by (cases "tag AND CBS_ASN1_CONSTRUCTED \<noteq> 0 \<and> is_string_type tag")
        (auto simp: cbs_convert_ber_out_def op_bind_assoc t_def out_tag_def Let_def simp del: op_fail_apply op_return_apply)
  next
    case 2
    have W: "writes h (op_bind (m h string_tag) (\<lambda>a. op_bind (CBB_flush h) (\<lambda>_. op_return a)))
        (writes_seq (r string_tag) (\<lambda>a. writes_seq (Some ([], ())) (\<lambda>_. Some ([], a))))"
      by (intro writes_bind writes_flush m writes_return)
    have eq: "writes_seq (r string_tag) (\<lambda>a. writes_seq (Some ([], ())) (\<lambda>_. Some ([], a))) = r string_tag"
      by (cases "r string_tag") (auto simp: writes_seq_def apfst_def)
    note flushed = W [unfolded eq]
    have "writes h (op_bind (op_bind (m h string_tag) (\<lambda>a. op_bind (CBB_flush h) (\<lambda>_. op_return a))) n)
       (writes_seq (r string_tag) s)"
      by (rule writes_bind [OF flushed]) (rule n)
    with 2 show ?thesis
      by (simp add: cbs_convert_ber_out_def op_bind_assoc del: op_fail_apply op_return_apply)
  next
    case 3
    then show ?thesis by (simp add: cbs_convert_ber_out_def Let_def del: op_fail_apply op_return_apply)
  qed
qed

lemma CBS_skip_element:
  assumes "CBS_get_any_ber_asn1_element inp = (Some (contents, tag, hl, ber), rest)"
  shows "CBS_skip hl contents = (Some (), drop hl contents)" and "hl > 0" and "length contents \<le> length inp"
  using ber_element [of True inp] assms
  by (auto simp: CBS_get_any_ber_asn1_element_def CBS_skip_def op_map_def op_bind_def cbs_get_def)


text \<open>What is handed back is a shorter input.\<close>

lemma writes_seq_eq_Some:
  "writes_seq r s = Some (d, b) \<longleftrightarrow> (\<exists>d1 a d2. r = Some (d1, a) \<and> s a = Some (d2, b) \<and> d = d1 @ d2)"
  by (auto simp: writes_seq_def Option.bind_eq_Some_conv)

lemma writes_elem_eq_Some:
  "writes_elem tag r = Some (e, a) \<longleftrightarrow> (\<exists>d. r = Some (d, a) \<and> length d \<le> 0xfffffffe \<and> e = der_elem tag d)"
  by (auto simp: writes_elem_def Option.bind_eq_Some_conv split: if_splits)

lemma ber_out_rest: "ber_out fuel inp string_tag eoc depth = Some (d, rest) \<Longrightarrow> length rest \<le> length inp"
proof (induction fuel arbitrary: inp string_tag eoc depth d rest)
  case (Suc fuel)
  show ?case
  proof (cases "CBS_get_any_ber_asn1_element inp")
    case (Pair e mid)
    show ?thesis
    proof (cases e)
      case None
      then show ?thesis using Suc.prems Pair by (simp split: if_splits)
    next
      case (Some x)
      then obtain contents tag hl ber where get: "CBS_get_any_ber_asn1_element inp = (Some (contents, tag, hl, ber), mid)"
        using Pair by (cases x) auto
      have "length mid \<le> length inp" using ber_element_shorter [OF get] by simp
      then show ?thesis
        using Suc.prems get
        by (auto simp: writes_seq_eq_Some writes_elem_eq_Some Let_def split: if_splits dest!: Suc.IH)
    qed
  qed
qed simp

lemma writes_convert:
  "length inp < 2 ^ 64 \<Longrightarrow> writes h (cbs_convert_ber_loop op_fail fuel inp h string_tag eoc depth) (ber_out fuel inp string_tag eoc depth)"
proof (induction fuel arbitrary: inp h string_tag eoc depth)
  case 0
  then show ?case by (simp del: op_fail_apply)
next
  case (Suc fuel)
  show ?case
  proof (cases "inp = []")
    case True
    then show ?thesis by (simp add: CBS_len_def del: op_fail_apply op_return_apply)
  next
    case False
    obtain e rest where get: "CBS_get_any_ber_asn1_element inp = (e, rest)" by fastforce
    show ?thesis
    proof (cases e)
      case None
      then show ?thesis using get False by (simp add: CBS_len_def del: op_fail_apply)
    next
      case (Some x)
      then obtain contents tag hl ber where e: "CBS_get_any_ber_asn1_element inp = (Some (contents, tag, hl, ber), rest)"
        using get by (cases x) auto
      note skip = CBS_skip_element [OF e]
      have short: "length rest < 2 ^ 64" "length (drop hl contents) < 2 ^ 64"
        using ber_element_shorter [OF e] skip(3) Suc.prems by simp_all
      define inner where "inner = (\<lambda>fuel inp h t eoc. if depth + 1 > kMaxDepth then op_fail
        else cbs_convert_ber_loop op_fail fuel inp h t eoc (depth + 1))"
      define inner_out where "inner_out = (\<lambda>fuel inp t eoc. if depth + 1 > kMaxDepth then None
        else ber_out fuel inp t eoc (depth + 1))"
      have inner: "writes h' (inner fuel c h' t eoc') (inner_out fuel c t eoc')" if "length c < 2 ^ 64" for c h' t eoc'
        using Suc.IH [OF that] by (simp add: inner_def inner_out_def del: op_fail_apply)
      have inner_rest: "length r \<le> length c" if "inner_out fuel c t eoc' = Some (d, r)" for c t eoc' d r
        using that ber_out_rest [of fuel c t eoc' "depth + 1" d r] by (simp add: inner_out_def split: if_splits)
      define m where "m = (\<lambda>h' t. if tag AND CBS_ASN1_CONSTRUCTED \<noteq> 0
        then op_map (\<lambda>_. rest) (inner fuel (drop hl contents) h' t False)
        else op_bind (CBB_add_bytes h' (drop hl contents)) (\<lambda>_. op_return rest))"
      define r where "r = (\<lambda>t. if tag AND CBS_ASN1_CONSTRUCTED \<noteq> 0
        then map_option (\<lambda>(d, _). (d, rest)) (inner_out fuel (drop hl contents) t False)
        else Some (drop hl contents, rest))"
      have m: "writes h' (m h' t) (r t)" for h' t
      proof (cases "tag AND CBS_ASN1_CONSTRUCTED = 0")
        case True
        have "writes h' (op_bind (CBB_add_bytes h' (drop hl contents)) (\<lambda>_. op_return rest))
            (writes_seq (Some (drop hl contents, ())) (\<lambda>_. Some ([], rest)))"
          by (intro writes_bind writes_cbb_op cbb_op_add_bytes short(2) writes_return)
        then show ?thesis using True by (simp add: m_def r_def writes_seq_def)
      next
        case False
        then show ?thesis using writes_map [OF inner [OF short(2)], of h' "\<lambda>_. rest" t False] by (simp add: m_def r_def)
      qed
      note next_indef = writes_child [where m = "\<lambda>h' t. inner fuel rest h' t True" and r = "\<lambda>t. inner_out fuel rest t True"
          and n = "\<lambda>inp. cbs_convert_ber_loop op_fail fuel inp h string_tag eoc depth" and s = "\<lambda>inp. ber_out fuel inp string_tag eoc depth"
          and h = h and tag = tag and string_tag = string_tag]
      note next_def = writes_child [where m = m and r = r
          and n = "\<lambda>inp. cbs_convert_ber_loop op_fail fuel inp h string_tag eoc depth" and s = "\<lambda>inp. ber_out fuel inp string_tag eoc depth"
          and h = h and tag = tag and string_tag = string_tag]
      show ?thesis
      proof (cases "is_eoc hl contents")
        case True
        then show ?thesis using False e by (simp add: CBS_len_def del: op_fail_apply op_return_apply)
      next
        case not_eoc: False
        show ?thesis
        proof (cases "length contents = hl \<and> contents ! (hl - 1) = 0x80")
          case True
          have "ber_out (Suc fuel) inp string_tag eoc depth =
            (let string = (tag AND CBS_ASN1_CONSTRUCTED \<noteq> 0 \<and> is_string_type tag);
                 out_tag = (if string then tag AND NOT CBS_ASN1_CONSTRUCTED else tag);
                 child_tag = (if string then out_tag else string_tag)
             in writes_seq
               (if string_tag = 0 then writes_elem out_tag (inner_out fuel rest child_tag True)
                else if tag AND NOT CBS_ASN1_CONSTRUCTED = string_tag then inner_out fuel rest string_tag True else None)
               (\<lambda>inp. ber_out fuel inp string_tag eoc depth))"
            using False e not_eoc True by (auto simp: Let_def inner_out_def)
          moreover have "cbs_convert_ber_loop op_fail (Suc fuel) inp h string_tag eoc depth =
            op_bind (cbs_convert_ber_out h string_tag tag) (\<lambda>(h', t). op_bind (inner fuel rest h' t True)
              (\<lambda>inp. op_bind (CBB_flush h) (\<lambda>_. cbs_convert_ber_loop op_fail fuel inp h string_tag eoc depth)))"
            using False e not_eoc True skip(2) by (simp add: CBS_len_def CBS_data_def inner_def del: op_fail_apply)
          ultimately show ?thesis
            using next_indef [OF inner [OF short(1)]] Suc.IH inner_rest short(1) order_le_less_trans by metis
        next
          case not_indef: False
          have "ber_out (Suc fuel) inp string_tag eoc depth =
            (let string = (tag AND CBS_ASN1_CONSTRUCTED \<noteq> 0 \<and> is_string_type tag);
                 out_tag = (if string then tag AND NOT CBS_ASN1_CONSTRUCTED else tag);
                 child_tag = (if string then out_tag else string_tag)
             in writes_seq
               (if string_tag = 0 then writes_elem out_tag (r child_tag)
                else if tag AND NOT CBS_ASN1_CONSTRUCTED = string_tag then r string_tag else None)
               (\<lambda>inp. ber_out fuel inp string_tag eoc depth))"
            using False e not_eoc not_indef by (auto simp: Let_def r_def inner_out_def)
          moreover have "cbs_convert_ber_loop op_fail (Suc fuel) inp h string_tag eoc depth =
            op_bind (cbs_convert_ber_out h string_tag tag) (\<lambda>(h', t). op_bind (m h' t)
              (\<lambda>inp. op_bind (CBB_flush h) (\<lambda>_. cbs_convert_ber_loop op_fail fuel inp h string_tag eoc depth)))"
            using False e not_eoc not_indef skip
            by (cases "tag AND CBS_ASN1_CONSTRUCTED = 0")
              (auto simp: CBS_len_def CBS_data_def m_def inner_def op_map_def op_bind_assoc simp del: op_fail_apply op_return_apply)
          moreover have "r t = Some (d, a) \<Longrightarrow> a = rest" for t d a by (auto simp: r_def split: if_splits)
          ultimately show ?thesis
            using next_def [OF m] Suc.IH short(1) by metis
        qed
      qed
    qed
  qed
qed


section \<open>Enough fuel\<close>

text \<open>The converter returns no more input than it was given, whatever the builder does.\<close>

lemma fail_not_Some: "op_fail s \<noteq> (Some a, t)"
  by simp

lemma convert_ber_rest:
  "cbs_convert_ber_loop op_fail fuel inp h string_tag eoc depth cbb = (Some rest, cbb') \<Longrightarrow> length rest \<le> length inp"
proof (induction fuel arbitrary: inp h string_tag eoc depth cbb rest cbb')
  case (Suc fuel)
  show ?case
  proof (cases "CBS_get_any_ber_asn1_element inp")
    case (Pair e mid)
    show ?thesis
    proof (cases e)
      case None
      then show ?thesis using Suc.prems Pair by (simp add: fail_not_Some del: op_fail_apply split: if_splits)
    next
      case (Some x)
      then obtain contents tag hl ber where get: "CBS_get_any_ber_asn1_element inp = (Some (contents, tag, hl, ber), mid)"
        using Pair by (cases x) auto
      have "length mid \<le> length inp" using ber_element_shorter [OF get] by simp
      then show ?thesis
        using Suc.prems get CBS_skip_element [OF get]
        by (auto simp: op_bind_eq_Some fail_not_Some simp del: op_fail_apply split: if_splits dest!: Suc.IH)
    qed
  qed
qed (simp add: fail_not_Some del: op_fail_apply)

lemma op_bind_cong_result:
  assumes "\<And>s a s'. m s = (Some a, s') \<Longrightarrow> f a = g a"
  shows "op_bind m f = op_bind m g"
proof
  fix s
  show "op_bind m f s = op_bind m g s"
    using assms [of s] by (cases "m s"; cases "fst (m s)") (auto simp: op_bind_def)
qed

lemma convert_ber_fuel:
  "length inp < n \<Longrightarrow> length inp < k \<Longrightarrow>
   cbs_convert_ber_loop stuck n inp h string_tag eoc depth = cbs_convert_ber_loop op_fail k inp h string_tag eoc depth"
proof (induction n arbitrary: k inp h string_tag eoc depth)
  case (Suc n)
  from Suc.prems(2) obtain j where k: "k = Suc j" by (cases k) auto
  show ?case
  proof (cases "CBS_get_any_ber_asn1_element inp")
    case (Pair e mid)
    show ?thesis
    proof (cases e)
      case None
      then show ?thesis using Pair by (simp add: k del: op_fail_apply)
    next
      case (Some x)
      then obtain contents tag hl ber where get: "CBS_get_any_ber_asn1_element inp = (Some (contents, tag, hl, ber), mid)"
        using Pair by (cases x) auto
      have mid: "length mid < n" "length mid < j" using ber_element_shorter [OF get] Suc.prems by (simp_all add: k)
      have sub: "length (drop hl contents) < n" "length (drop hl contents) < j"
        using CBS_skip_element [OF get] Suc.prems ber_element [of True inp contents tag hl ber mid] get
        by (auto simp: k CBS_get_any_ber_asn1_element_def)
      have later: "cbs_convert_ber_loop stuck n r h string_tag eoc depth = cbs_convert_ber_loop op_fail j r h string_tag eoc depth"
        if "length r \<le> length mid" for r
        using that mid by (intro Suc.IH) simp_all
      have IH: "cbs_convert_ber_loop stuck n mid h' t e' d = cbs_convert_ber_loop op_fail j mid h' t e' d"
        "cbs_convert_ber_loop stuck n (drop hl contents) h' t e' d = cbs_convert_ber_loop op_fail j (drop hl contents) h' t e' d" for h' t e' d
        using Suc.IH mid sub by blast+
      have seq: "op_bind (if b then op_fail else cbs_convert_ber_loop op_fail j mid h' t e' d) (\<lambda>r. op_bind (CBB_flush h) (\<lambda>_. cbs_convert_ber_loop stuck n r h string_tag eoc depth)) =
        op_bind (if b then op_fail else cbs_convert_ber_loop op_fail j mid h' t e' d) (\<lambda>r. op_bind (CBB_flush h) (\<lambda>_. cbs_convert_ber_loop op_fail j r h string_tag eoc depth))" for b h' t e' d
        by (rule op_bind_cong_result) (auto simp: later split: if_splits dest: convert_ber_rest)
      show ?thesis
        using get CBS_skip_element [OF get] by (simp add: k IH seq later del: op_fail_apply op_return_apply cong: if_cong)
    qed
  qed
qed simp


section \<open>BER as data\<close>

text \<open>
  The forms of a length: form 0 is one octet, and form \<open>w\<close> up to 4, the most the parser reads, an octet that says how many follow
  and then \<open>w\<close> octets, of which the first may be zeros.
\<close>

definition ber_len :: "nat \<Rightarrow> nat \<Rightarrow> byte list" where
  "ber_len w n = (if w = 0 then [of_nat n] else of_nat (128 + w) # be_bytes w n)"

definition form_ok :: "nat \<Rightarrow> nat \<Rightarrow> bool" where
  "form_ok w n \<longleftrightarrow> (if w = 0 then n < 128 else w \<le> 4 \<and> n < 256 ^ w)"

definition ber_header :: "u32 \<Rightarrow> nat \<Rightarrow> nat \<Rightarrow> byte list" where
  "ber_header t w n = der_tag t @ ber_len w n"

definition ber_elem :: "u32 \<Rightarrow> nat \<Rightarrow> byte list \<Rightarrow> byte list" where
  "ber_elem t w c = ber_header t w (length c) @ c"

text \<open>
  A value with its BER encoding: primitive or constructed with a definite length in any form, or constructed
  with an indefinite length. \<open>ber_conv s\<close> is its DER form, or inside a constructed string
  (\<open>s \<noteq> 0\<close>) the bytes it contributes.
\<close>

datatype ber = Prim u32 nat "byte list" | Definite u32 nat "ber list" | Indefinite u32 "ber list"

fun ber_enc :: "ber \<Rightarrow> byte list" where
  "ber_enc (Prim t w c) = ber_elem t w c"
| "ber_enc (Definite t w ts) = ber_elem t w (concat (map ber_enc ts))"
| "ber_enc (Indefinite t ts) = der_tag t @ 0x80 # concat (map ber_enc ts) @ [0, 0]"

definition primitive_tag :: "u32 \<Rightarrow> u32" where
  "primitive_tag t = (if is_string_type t then t AND NOT CBS_ASN1_CONSTRUCTED else t)"

definition child_tag :: "u32 \<Rightarrow> u32 \<Rightarrow> u32" where
  "child_tag s t = (if s = 0 \<and> is_string_type t then t AND NOT CBS_ASN1_CONSTRUCTED else s)"

definition ber_wrap :: "u32 \<Rightarrow> u32 \<Rightarrow> byte list \<Rightarrow> byte list" where
  "ber_wrap s t c = (if s \<noteq> 0 then c else der_elem t c)"

fun ber_conv :: "u32 \<Rightarrow> ber \<Rightarrow> byte list" where
  "ber_conv s (Prim t w c) = ber_wrap s t c"
| "ber_conv s (Definite t w ts) = ber_wrap s (primitive_tag t) (concat (map (ber_conv (child_tag s t)) ts))"
| "ber_conv s (Indefinite t ts) = ber_wrap s (primitive_tag t) (concat (map (ber_conv (child_tag s t)) ts))"

text \<open>Tags fit the constructor and the surrounding string, lengths fit four octets, and the nesting is bounded.\<close>

definition ber_node_ok :: "u32 \<Rightarrow> nat \<Rightarrow> u32 \<Rightarrow> bool" where
  "ber_node_ok s d t \<longleftrightarrow> t AND CBS_ASN1_CONSTRUCTED \<noteq> 0 \<and> d < kMaxDepth \<and> (s \<noteq> 0 \<longrightarrow> t AND NOT CBS_ASN1_CONSTRUCTED = s)"

fun ber_ok :: "u32 \<Rightarrow> nat \<Rightarrow> ber \<Rightarrow> bool" where
  "ber_ok s d (Prim t w c) \<longleftrightarrow> form_ok w (length c) \<and> t AND CBS_ASN1_CONSTRUCTED = 0 \<and> (s \<noteq> 0 \<longrightarrow> t = s) \<and> \<not> (t = 0 \<and> w = 0 \<and> c = []) \<and> length c \<le> 0xfffffffe"
| "ber_ok s d (Definite t w ts) \<longleftrightarrow> ber_node_ok s d t \<and> form_ok w (length (concat (map ber_enc ts))) \<and>
     (s = 0 \<longrightarrow> length (concat (map (ber_conv (child_tag s t)) ts)) \<le> 0xfffffffe) \<and> list_all (ber_ok (child_tag s t) (Suc d)) ts"
| "ber_ok s d (Indefinite t ts) \<longleftrightarrow> ber_node_ok s d t \<and>
     (s = 0 \<longrightarrow> length (concat (map (ber_conv (child_tag s t)) ts)) \<le> 0xfffffffe) \<and> list_all (ber_ok (child_tag s t) (Suc d)) ts"

lemma ber_element_of_der:
  assumes "cbs_get_any_asn1_element False bs = (Some (e, t, h, b), r)"
  shows "cbs_get_any_asn1_element True bs = (Some (e, t, h, False), r)"
proof -
  from assms obtain header lb cs where tag: "parse_asn1_tag bs = (Some t, header)" and lb: "CBS_get_u8 header = (Some lb, cs)"
    by (auto simp: cbs_get_any_asn1_element_def op_map_eq_Some Let_def split: option.splits prod.splits if_splits)
  show ?thesis
    using assms unfolding cbs_get_any_asn1_element_def tag lb Let_def prod.case option.case
    by (auto simp: op_map_eq_Some op_map_def op_bind_def split: if_splits option.splits prod.splits)
qed

lemma ber_get_elem:
  "length c < 2 ^ 32 \<Longrightarrow> CBS_get_any_ber_asn1_element (der_elem t c @ rest) =
    (Some (der_elem t c, t, length (der_header t (length c)), False), rest)"
  unfolding CBS_get_any_ber_asn1_element_def
  by (rule ber_element_of_der) (auto simp: cbs_get_any_asn1_element_iff)

lemma form_less: "form_ok w n \<Longrightarrow> n < 2 ^ 32"
proof -
  have "(256 :: nat) ^ w \<le> 256 ^ 4" if "w \<le> 4" using that by (intro power_increasing) auto
  then show "form_ok w n \<Longrightarrow> n < 2 ^ 32" by (fastforce simp: form_ok_def split: if_splits)
qed

lemma ber_get_form:
  assumes "form_ok w (length c)"
  shows "\<exists>b. CBS_get_any_ber_asn1_element (ber_elem t w c @ rest) = (Some (ber_elem t w c, t, length (ber_header t w (length c)), b), rest)"
proof -
  define n where "n = length c"
  define hl where "hl = length (der_tag t) + 1"
  have n32: "n < 2 ^ 32" using form_less [OF assms] by (simp add: n_def)
  define bs where "bs = ber_elem t w c @ rest"
  show ?thesis
  proof (cases "w = 0")
    case True
    define lb where "lb = (of_nat n :: byte)"
    have n: "n < 128" using assms True by (simp add: form_ok_def n_def)
    then have lb: "unat lb = n" by (simp add: lb_def unat_of_nat_small)
    have bs: "bs = der_tag t @ lb # c @ rest" using True by (simp add: bs_def ber_elem_def ber_header_def ber_len_def lb_def n_def)
    have parse: "parse_asn1_tag bs = (Some t, lb # c @ rest)" using bs by (simp add: parse_asn1_tag_iff)
    have hl: "CBS_len bs - CBS_len (c @ rest) = hl" using bs by (simp add: CBS_len_def hl_def)
    have low: "lb AND 0x80 = 0" using n lb by (simp add: byte_and_80)
    have "CBS_get_bytes (n + hl) bs = (Some (ber_elem t w c), rest)"
      using True by (simp add: CBS_get_bytes_eq_Some bs_def ber_elem_def ber_header_def ber_len_def hl_def n_def)
    then have "cbs_get_any_asn1_element True bs = (Some (ber_elem t w c, t, hl, False), rest)"
      unfolding cbs_get_any_asn1_element_def parse prod.case option.case CBS_get_u8_Cons hl Let_def lb
      using low by (simp add: op_map_def op_bind_def)
    then show ?thesis using True by (auto simp: CBS_get_any_ber_asn1_element_def bs_def hl_def ber_header_def ber_len_def)
  next
    case False
    define lb where "lb = (of_nat (128 + w) :: byte)"
    define xs where "xs = be_bytes w n"
    have w: "1 \<le> w" "w \<le> 4" "n < 256 ^ w" using assms False by (simp_all add: form_ok_def n_def)
    then have lb: "unat lb = 128 + w" unfolding lb_def by (intro unat_of_nat_small) simp
    have bs: "bs = der_tag t @ lb # xs @ c @ rest" using False by (simp add: bs_def ber_elem_def ber_header_def ber_len_def lb_def xs_def n_def)
    have parse: "parse_asn1_tag bs = (Some t, lb # xs @ c @ rest)" using bs by (simp add: parse_asn1_tag_iff)
    have hl: "CBS_len bs - CBS_len (xs @ c @ rest) = hl" using bs by (simp add: CBS_len_def hl_def)
    have high: "lb AND 0x80 \<noteq> 0" using lb by (simp add: byte_and_80)
    have nb: "unat (lb AND 0x7f) = w" using lb w(2) by (simp add: byte_and_7f byte_high)
    have val: "be_val xs = n" using w by (simp add: xs_def be_val_be_bytes)
    have get: "cbs_get_u w (xs @ c @ rest) = (Some (of_nat n), c @ rest)"
      using cbs_get_u_append [of xs w "c @ rest"] w val by (simp add: xs_def)
    have un: "unat (of_nat n :: u64) = n" using n32 by (intro unat_of_nat_small) simp
    have total: "unat (of_nat n + of_nat hl + of_nat w :: u64) = n + hl + w"
    proof -
      have "n + hl + w < 2 ^ 64" using n32 length_der_tag [of t] w by (simp add: hl_def)
      then have "unat (of_nat (n + hl + w) :: u64) = n + hl + w" by (intro unat_of_nat_small) simp
      then show ?thesis by (simp only: of_nat_add)
    qed
    then have no_wrap: "\<not> (of_nat n + of_nat hl + of_nat w :: u64) < of_nat n" using un by (simp add: word_less_nat_alt)
    have bytes: "CBS_get_bytes (n + hl + w) bs = (Some (ber_elem t w c), rest)"
      using False by (simp add: CBS_get_bytes_eq_Some bs_def ber_elem_def ber_header_def ber_len_def hl_def n_def)
    have "\<exists>b. cbs_get_any_asn1_element True bs = (Some (ber_elem t w c, t, hl + w, b), rest)"
      unfolding cbs_get_any_asn1_element_def parse prod.case option.case CBS_get_u8_Cons hl Let_def nb get total
      using high w no_wrap bytes by (simp add: op_map_def op_bind_def)
    then show ?thesis using False by (auto simp: CBS_get_any_ber_asn1_element_def bs_def hl_def ber_header_def ber_len_def)
  qed
qed

lemma ber_get_indefinite:
  assumes "t AND CBS_ASN1_CONSTRUCTED \<noteq> 0"
  shows "CBS_get_any_ber_asn1_element (der_tag t @ 0x80 # rest) = (Some (der_tag t @ [0x80], t, length (der_tag t) + 1, True), rest)"
proof -
  have "parse_asn1_tag (der_tag t @ 0x80 # rest) = (Some t, 0x80 # rest)" by (simp add: parse_asn1_tag_iff)
  moreover have "CBS_get_bytes (Suc (length (der_tag t))) (der_tag t @ 0x80 # rest) = (Some (der_tag t @ [0x80]), rest)"
    by (simp add: CBS_get_bytes_eq_Some)
  ultimately show ?thesis
    using assms by (simp add: CBS_get_any_ber_asn1_element_def cbs_get_any_asn1_element_def CBS_len_def op_map_def op_bind_def)
qed

lemma is_eoc_elem: "is_eoc (length (ber_header t w (length c))) (ber_elem t w c) \<longleftrightarrow> t = 0 \<and> w = 0 \<and> c = []"
proof
  assume eoc: "is_eoc (length (ber_header t w (length c))) (ber_elem t w c)"
  then have "length (ber_header t w (length c)) = 2" "length (ber_header t w (length c)) + length c = 2"
    unfolding is_eoc_def ber_elem_def CBS_len_def length_append by blast+
  then have c: "c = []" by (metis add_cancel_right_right length_0_conv)
  have "1 \<le> length (der_tag t)" using length_der_tag [of t] by simp
  then have w: "w = 0" using eoc by (simp add: is_eoc_def ber_header_def ber_len_def split: if_splits)
  have "der_elem t [] = der_elem 0 []" using eoc c w by (simp add: is_eoc_def ber_elem_def ber_header_def ber_len_def der_elem_def der_header_def der_tag_def der_len_def)
  then show "t = 0 \<and> w = 0 \<and> c = []" using der_elem_inject [of t "[]" "[]" 0 "[]" "[]"] c w by simp
qed (simp add: is_eoc_def ber_elem_def ber_header_def ber_len_def der_tag_def CBS_len_def)

lemma not_indefinite_elem:
  "\<not> (length (ber_elem t w c) = length (ber_header t w (length c)) \<and> ber_elem t w c ! (length (ber_header t w (length c)) - 1) = 0x80)"
proof
  assume *: "length (ber_elem t w c) = length (ber_header t w (length c)) \<and> ber_elem t w c ! (length (ber_header t w (length c)) - 1) = 0x80"
  then have c: "c = []" by (simp add: ber_elem_def)
  have "ber_len w 0 \<noteq> [] \<and> last (ber_len w 0) = 0" by (cases w) (simp_all add: ber_len_def)
  then have "ber_header t w 0 \<noteq> []" "last (ber_header t w 0) = 0" by (simp_all add: ber_header_def)
  then have "ber_header t w 0 ! (length (ber_header t w 0) - 1) = 0" by (simp add: last_conv_nth)
  then show False using * c by (simp add: ber_elem_def)
qed

lemma drop_ber_header [simp]: "drop (length (ber_header t w (length c))) (ber_elem t w c) = c"
  by (simp add: ber_elem_def)

lemma ber_out_wrap:
  assumes "s \<noteq> 0 \<Longrightarrow> t AND NOT CBS_ASN1_CONSTRUCTED = s" and "s = 0 \<Longrightarrow> length c \<le> 0xfffffffe"
  shows "(if s = 0 then writes_elem out_tag (Some (c, rest))
          else if t AND NOT CBS_ASN1_CONSTRUCTED = s then Some (c, rest) else None) = Some (ber_wrap s out_tag c, rest)"
  using assms by (simp add: ber_wrap_def writes_elem_def)

lemma and_not_same: "t AND C = 0 \<Longrightarrow> t AND NOT C = t" for t :: u32
proof (rule bit_word_eqI)
  fix n
  assume "t AND C = 0"
  then have "\<not> bit (t AND C) n" by simp
  then show "bit (t AND NOT C) n = bit t n" by (auto simp: bit_simps dest: bit_imp_le_length)
qed

lemma ber_enc_nonempty: "ber_enc t \<noteq> []"
proof -
  have "der_tag u \<noteq> []" for u using length_der_tag [of u] by auto
  then show ?thesis by (cases t) (simp_all add: ber_elem_def ber_header_def)
qed

lemma ber_out_elem:
  assumes "form_ok w (length c)" and "\<not> (t = 0 \<and> w = 0 \<and> c = [])"
  shows "ber_out (Suc fuel) (ber_elem t w c @ tail) s eoc d =
    (let string = (t AND CBS_ASN1_CONSTRUCTED \<noteq> 0 \<and> is_string_type t);
         out_tag = (if string then t AND NOT CBS_ASN1_CONSTRUCTED else t);
         child = (\<lambda>t'. if t AND CBS_ASN1_CONSTRUCTED \<noteq> 0 then
             if d + 1 > kMaxDepth then None else map_option (\<lambda>(d, _). (d, tail)) (ber_out fuel c t' False (d + 1))
           else Some (c, tail))
     in writes_seq
       (if s = 0 then writes_elem out_tag (child (if string then out_tag else s))
        else if t AND NOT CBS_ASN1_CONSTRUCTED = s then child s else None)
       (\<lambda>inp. ber_out fuel inp s eoc d))"
proof -
  obtain b where get: "CBS_get_any_ber_asn1_element (ber_elem t w c @ tail) =
      (Some (ber_elem t w c, t, length (ber_header t w (length c)), b), tail)"
    using ber_get_form [OF assms(1)] by blast
  have "ber_elem t w c @ tail \<noteq> []" using ber_enc_nonempty [of "Prim t w c"] by simp
  then show ?thesis
    using assms(2) not_indefinite_elem [of t w c]
    by (simp only: ber_out.simps(2) if_False get prod.case option.case is_eoc_elem drop_ber_header)
      (simp add: Let_def cong: conj_cong)
qed

lemma ber_out_enc:
  assumes "list_all (ber_ok s d) ts" and "length (concat (map ber_enc ts) @ (if eoc then [0, 0] @ rest else [])) < fuel"
    and "\<not> eoc \<Longrightarrow> rest = []"
  shows "ber_out fuel (concat (map ber_enc ts) @ (if eoc then [0, 0] @ rest else [])) s eoc d =
    Some (concat (map (ber_conv s) ts), rest)"
  using assms
proof (induction fuel arbitrary: s d ts eoc rest)
  case (Suc fuel)
  show ?case
  proof (cases ts)
    case Nil
    have "\<exists>b. CBS_get_any_ber_asn1_element (0 # 0 # rest) = (Some ([0, 0], 0, 2, b), rest)"
      using ber_get_form [of 0 "[]" 0 rest] by (simp add: form_ok_def ber_elem_def ber_header_def ber_len_def der_tag_def numeral_2_eq_2)
    then show ?thesis using Nil Suc.prems(3) by (auto simp: is_eoc_def CBS_len_def)
  next
    case (Cons t ts')
    define tail where "tail = concat (map ber_enc ts') @ (if eoc then [0, 0] @ rest else [])"
    have inp: "concat (map ber_enc ts) @ (if eoc then [0, 0] @ rest else []) = ber_enc t @ tail"
      by (simp add: Cons tail_def)
    have pos: "0 < length (ber_enc t)" using ber_enc_nonempty by simp
    have ok: "ber_ok s d t" using Suc.prems Cons by simp
    have fuel: "length (ber_enc t @ tail) < Suc fuel" using Suc.prems(2) unfolding inp .
    then have tail_fuel: "length tail < fuel" using pos by (simp del: length_greater_0_conv)
    have later: "ber_out fuel tail s eoc d = Some (concat (map (ber_conv s) ts'), rest)"
      using tail_fuel Suc.prems(1,3) Cons unfolding tail_def by (intro Suc.IH) auto
    have seq: "writes_seq (Some (c, tail)) (\<lambda>inp. ber_out fuel inp s eoc d) = Some (c @ concat (map (ber_conv s) ts'), rest)" for c
      by (simp add: writes_seq_def later)
    have "ber_out (Suc fuel) (ber_enc t @ tail) s eoc d = Some (ber_conv s t @ concat (map (ber_conv s) ts'), rest)"
    proof (cases t)
      case (Prim u w c)
      have len: "form_ok w (length c)" using ok Prim by simp
      have u: "u AND CBS_ASN1_CONSTRUCTED = 0" "s \<noteq> 0 \<Longrightarrow> u AND NOT CBS_ASN1_CONSTRUCTED = s" "s = 0 \<Longrightarrow> length c \<le> 0xfffffffe"
        "\<not> (u = 0 \<and> w = 0 \<and> c = [])"
        using ok Prim and_not_same [of u CBS_ASN1_CONSTRUCTED] by auto
      have "ber_out (Suc fuel) (ber_enc t @ tail) s eoc d = writes_seq (Some (ber_wrap s u c, tail)) (\<lambda>inp. ber_out fuel inp s eoc d)"
        using ber_out_elem [OF len u(4)] u(1,2) ber_out_wrap [OF u(2,3), of u tail]
        by (cases "s = 0") (simp_all add: Prim Let_def del: ber_out.simps)
      then show ?thesis using seq by (simp add: Prim)
    next
      case (Definite u w us)
      let ?c = "concat (map ber_enc us)"
      let ?d = "concat (map (ber_conv (child_tag s u)) us)"
      have len: "form_ok w (length ?c)" using ok Definite by simp
      have u: "u AND CBS_ASN1_CONSTRUCTED \<noteq> 0" "s \<noteq> 0 \<Longrightarrow> u AND NOT CBS_ASN1_CONSTRUCTED = s" "s = 0 \<Longrightarrow> length ?d \<le> 0xfffffffe"
        "\<not> (u = 0 \<and> w = 0 \<and> ?c = [])" "\<not> kMaxDepth < Suc d"
        using ok Definite by (auto simp: ber_node_ok_def)
      have "1 \<le> length (der_tag u)" using length_der_tag [of u] by simp
      then have "length ?c < fuel" using fuel by (simp add: Definite ber_elem_def ber_header_def)
      then have inner: "ber_out fuel ?c (child_tag s u) False (Suc d) = Some (?d, [])"
        using Suc.IH [of "child_tag s u" "Suc d" us False "[]"] ok Definite by simp
      have "ber_out (Suc fuel) (ber_enc t @ tail) s eoc d = writes_seq (Some (ber_wrap s (primitive_tag u) ?d, tail)) (\<lambda>inp. ber_out fuel inp s eoc d)"
        using ber_out_elem [OF len u(4)] u(1,2,5) ber_out_wrap [OF u(2,3), of "primitive_tag u" tail] inner
        by (cases "s = 0"; cases "is_string_type u") (simp_all add: Definite Let_def child_tag_def primitive_tag_def del: ber_out.simps)
      then show ?thesis using seq by (simp add: Definite)
    next
      case (Indefinite u us)
      let ?c = "concat (map ber_enc us)"
      let ?d = "concat (map (ber_conv (child_tag s u)) us)"
      have u: "u AND CBS_ASN1_CONSTRUCTED \<noteq> 0" "s \<noteq> 0 \<Longrightarrow> u AND NOT CBS_ASN1_CONSTRUCTED = s" "s = 0 \<Longrightarrow> length ?d \<le> 0xfffffffe"
        "\<not> kMaxDepth < Suc d"
        using ok Indefinite by (auto simp: ber_node_ok_def)
      have "der_tag u \<noteq> []" using length_der_tag [of u] by auto
      then have "length (?c @ [0, 0] @ tail) < fuel" using fuel by (cases "der_tag u") (simp_all add: Indefinite)
      then have inner: "ber_out fuel (?c @ 0 # 0 # tail) (child_tag s u) True (Suc d) = Some (?d, tail)"
        using Suc.IH [of "child_tag s u" "Suc d" us True tail] ok Indefinite by simp
      have eoc: "\<not> is_eoc (length (der_tag u) + 1) (der_tag u @ [0x80])"
        by (auto simp: is_eoc_def append_eq_Cons_conv)
      have "ber_out (Suc fuel) (ber_enc t @ tail) s eoc d = writes_seq (Some (ber_wrap s (primitive_tag u) ?d, tail)) (\<lambda>inp. ber_out fuel inp s eoc d)"
        using ber_enc_nonempty [of t] ber_get_indefinite [OF u(1), of "?c @ 0 # 0 # tail"] eoc u
          ber_out_wrap [OF u(2,3), of "primitive_tag u" tail] inner
        by (cases "s = 0"; cases "is_string_type u") (simp_all add: Indefinite Let_def child_tag_def primitive_tag_def)
      then show ?thesis using seq by (simp add: Indefinite)
    qed
    then show ?thesis unfolding inp by (simp only: Cons list.map concat.simps)
  qed
qed simp


section \<open>The whole conversion\<close>

lemma append_top_root: "append_top d ([], []) = (d, [])"
  by (simp add: append_top_def)

lemma ber_to_der_sound:
  assumes run: "CBS_asn1_ber_to_der alloc inp = (Some (out, True), rest)" and len: "length inp < 2 ^ 64"
  shows "cbs_find_ber inp 0 = Some True \<and> ber_out (Suc (length inp)) inp 0 False 0 = Some (out, rest)"
proof -
  have find: "cbs_find_ber inp 0 = Some True"
    using run by (auto simp: CBS_asn1_ber_to_der_def op_map_eq_Some split: option.splits if_splits bool.splits)
  obtain cbb c c' where init: "CBB_init alloc (length inp) = (True, cbb)"
    and conv: "cbs_convert_ber inp 0 0 False 0 cbb = (Some rest, c)" and fin: "CBB_finish 0 True True c = (Some out, c')"
    using run find by (auto simp: CBS_asn1_ber_to_der_def CBS_len_def split: option.splits prod.splits bool.splits)
  obtain b where rep: "cbb_rep cbb b ([], [])" using CBB_init_rep [OF init len] by blast
  have "cbs_convert_ber_loop op_fail (Suc (length inp)) inp 0 0 False 0 cbb = (Some rest, c)"
    using conv by (simp add: cbs_convert_ber_def CBS_len_def del: cbs_convert_ber_loop.simps split: if_splits)
  from writesD [OF writes_convert [OF len] rep _ this] obtain d b'
    where d: "ber_out (Suc (length inp)) inp 0 False 0 = Some (d, rest)" "cbb_rep c b' (append_top d ([], []))"
    by auto
  from CBB_finish_sound [OF d(2) [unfolded append_top_root] fin] have "out = d" by simp
  with d find show ?thesis by simp
qed

lemma ber_to_der_total:
  assumes find: "cbs_find_ber inp 0 = Some True" and out: "ber_out (Suc (length inp)) inp 0 False 0 = Some (out, rest)"
    and alloc: "\<forall>n. alloc n" and len: "length inp < 2 ^ 64" "length out < 2 ^ 64"
  shows "CBS_asn1_ber_to_der alloc inp = (Some (out, True), rest)"
proof -
  obtain cbb b where init: "CBB_init alloc (length inp) = (True, cbb)" and rep: "cbb_rep cbb b ([], [])" and grow: "growable b"
    using CBB_init_growable [OF alloc len(1)] by blast
  obtain c b' where c: "cbs_convert_ber_loop op_fail (Suc (length inp)) inp 0 0 False 0 cbb = (Some rest, c)"
    "cbb_rep c b' (append_top out ([], []))" "same_env b b'"
    using writes_total [OF writes_convert [OF len(1)] rep _ grow out] len(2) by (auto simp: abs_len_def)
  have "fst (CBB_finish 0 True True c) = Some out"
    using CBB_finish_total [OF c(2) [unfolded append_top_root]] grow c(3) len(2) by (simp add: same_env_growable)
  then obtain c' where "CBB_finish 0 True True c = (Some out, c')" by (cases "CBB_finish 0 True True c") auto
  then show ?thesis
    using find init c(1) by (simp add: CBS_asn1_ber_to_der_def CBS_len_def cbs_convert_ber_def kMaxDepth_def del: cbs_convert_ber_loop.simps)
qed

text \<open>Sequences of elements without indefinite lengths and constructed strings, nested no deeper than allowed.\<close>

inductive der_only :: "nat \<Rightarrow> byte list \<Rightarrow> bool" where
  nil: "der_only d []"
| prim: "t AND CBS_ASN1_CONSTRUCTED = 0 \<Longrightarrow> length c \<le> 0xfffffffe \<Longrightarrow> der_only d rest \<Longrightarrow> der_only d (der_elem t c @ rest)"
| nested: "t AND CBS_ASN1_CONSTRUCTED \<noteq> 0 \<Longrightarrow> \<not> is_string_type t \<Longrightarrow> length c \<le> 0xfffffffe \<Longrightarrow> d < kMaxDepth \<Longrightarrow>
    der_only (Suc d) c \<Longrightarrow> der_only d rest \<Longrightarrow> der_only d (der_elem t c @ rest)"

text \<open>One iteration of the search, on a DER element.\<close>

lemma find_ber_element:
  assumes "length c < 2 ^ 32"
  shows "cbs_find_ber_loop (der_elem t c @ rest) b d =
    (if t AND CBS_ASN1_CONSTRUCTED = 0 then cbs_find_ber_loop rest False d
     else if is_string_type t then Some True
     else case if d + 1 > kMaxDepth then None else cbs_find_ber_loop c False (d + 1) of
       None \<Rightarrow> None | Some ber_found \<Rightarrow> cbs_find_ber_loop rest ber_found d)"
proof -
  have "der_elem t c \<noteq> []" using length_der_tag [of t] by (auto simp: der_elem_def der_header_def)
  then show ?thesis
    using ber_get_elem [OF assms, of t rest]
    by (simp add: cbs_find_ber_loop.simps [of "der_elem t c @ rest"] CBS_len_def CBS_skip_header)
qed

lemma find_ber_Nil: "cbs_find_ber_loop [] b d = Some b"
  by (simp add: cbs_find_ber_loop.simps [of "[]"] CBS_len_def)

lemma find_ber_der_only: "der_only d bs \<Longrightarrow> cbs_find_ber_loop bs False d = Some False"
  by (induction rule: der_only.induct) (simp_all add: find_ber_Nil find_ber_element)

lemma primitive_tag_not_constructed: "is_string_type t \<Longrightarrow> (t AND NOT CBS_ASN1_CONSTRUCTED) AND CBS_ASN1_CONSTRUCTED = 0"
  by (simp add: and.assoc)

lemma string_tag_nonzero: "is_string_type t \<Longrightarrow> t AND NOT CBS_ASN1_CONSTRUCTED \<noteq> 0"
  by (auto simp: is_string_type_def)

lemma ber_out_der_only: "ber_out fuel inp 0 eoc d = Some (out, rest) \<Longrightarrow> der_only d out"
proof (induction fuel arbitrary: inp eoc d out rest)
  case (Suc fuel)
  show ?case
  proof (cases "CBS_get_any_ber_asn1_element inp")
    case (Pair e mid)
    show ?thesis
    proof (cases e)
      case None
      then show ?thesis using Suc.prems Pair by (auto split: if_splits intro: der_only.nil)
    next
      case (Some x)
      then obtain contents tag hl ber where get: "CBS_get_any_ber_asn1_element inp = (Some (contents, tag, hl, ber), mid)"
        using Pair by (cases x) auto
      show ?thesis
      proof (cases "tag AND CBS_ASN1_CONSTRUCTED \<noteq> 0 \<and> is_string_type tag")
        case True
        then show ?thesis
          using Suc.prems get primitive_tag_not_constructed [of tag] string_tag_nonzero [of tag]
          by (auto simp: writes_seq_eq_Some writes_elem_eq_Some Let_def split: if_splits intro!: der_only.nil intro: der_only.prim Suc.IH)
      next
        case False
        then show ?thesis
          using Suc.prems get
          by (cases "tag AND CBS_ASN1_CONSTRUCTED = 0")
            (auto simp: writes_seq_eq_Some writes_elem_eq_Some Let_def split: if_splits
              intro!: der_only.nil intro: der_only.prim der_only.nested Suc.IH)
      qed
    qed
  qed
qed simp


lemma find_ber_indefinite:
  assumes "t AND CBS_ASN1_CONSTRUCTED \<noteq> 0"
  shows "cbs_find_ber (ber_enc (Indefinite t ts) @ rest) 0 = Some True"
proof -
  define x where "x = ber_enc (Indefinite t ts) @ rest"
  have "x \<noteq> []" by (simp add: x_def ber_enc_nonempty del: ber_enc.simps)
  moreover have "CBS_get_any_ber_asn1_element x = (Some (der_tag t @ [0x80], t, length (der_tag t) + 1, True), concat (map ber_enc ts) @ [0, 0] @ rest)"
    using ber_get_indefinite [OF assms, of "concat (map ber_enc ts) @ [0, 0] @ rest"] by (simp add: x_def)
  ultimately show ?thesis
    unfolding x_def [symmetric] by (simp add: cbs_find_ber_def kMaxDepth_def cbs_find_ber_loop.simps [of x] CBS_len_def)
qed

section \<open>Properties\<close>

text \<open>C26. The converter writes the DER form of its input: for every sequence of BER values with lengths of at most four octets,
  minimal or not, and within the limit of depth, in which \<open>cbs_find_ber\<close> sees something to convert, \<open>CBS_asn1_ber_to_der\<close>
  consumes the whole sequence, not only its first value, and returns the DER forms of all values, with fragments of constructed
  strings joined.\<close>

theorem ber_to_der_converts:
  assumes "list_all (ber_ok 0 0) ts" and "cbs_find_ber (concat (map ber_enc ts)) 0 = Some True"
    and "\<forall>n. alloc n" and "length (concat (map ber_enc ts)) < 2 ^ 64" and "length (concat (map (ber_conv 0) ts)) < 2 ^ 64"
  shows "CBS_asn1_ber_to_der alloc (concat (map ber_enc ts)) = (Some (concat (map (ber_conv 0) ts), True), [])"
  using assms ber_out_enc [OF assms(1), of False "[]" "Suc (length (concat (map ber_enc ts)))"]
  by (intro ber_to_der_total) (simp_all del: ber_out.simps)

lemmas der_bytes = der_elem_def der_header_def der_tag_def der_len_def Let_def

lemma sample_tags:
  "is_string_type 0x20000004" "\<not> is_string_type 0x20000010" "(0x20000004 :: u32) AND CBS_ASN1_CONSTRUCTED \<noteq> 0"
  "(0x20000010 :: u32) AND CBS_ASN1_CONSTRUCTED \<noteq> 0" "(2 :: u32) AND CBS_ASN1_CONSTRUCTED = 0" "(4 :: u32) AND CBS_ASN1_CONSTRUCTED = 0"
  "child_tag 0 0x20000004 = 4" "child_tag 0 0x20000010 = 0" "primitive_tag 0x20000004 = 4" "primitive_tag 0x20000010 = 0x20000010"
  by (simp_all add: is_string_type_def CBS_ASN1_CONSTRUCTED_def child_tag_def primitive_tag_def)

lemma sample_elems:
  "der_elem 4 [0xaa] = [4, 1, 0xaa]" "der_elem 4 [0xbb] = [4, 1, 0xbb]" "der_elem 4 [0xaa, 0xbb] = [4, 2, 0xaa, 0xbb]"
  "der_elem 0x20000004 [4, 2, 0xaa, 0xbb] = [0x24, 4, 4, 2, 0xaa, 0xbb]" "der_elem 2 [5] = [2, 1, 5]"
  "der_elem 0x20000004 [4, 1, 0xaa, 4, 1, 0xbb] = [0x24, 6, 4, 1, 0xaa, 4, 1, 0xbb]"
  "der_elem 0x20000010 [0x24, 4, 4, 2, 0xaa, 0xbb] = [0x30, 6, 0x24, 4, 4, 2, 0xaa, 0xbb]"
  "der_elem 0x20000010 [0x30, 6, 0x24, 4, 4, 2, 0xaa, 0xbb, 2, 1, 5] = [0x30, 11, 0x30, 6, 0x24, 4, 4, 2, 0xaa, 0xbb, 2, 1, 5]"
  "der_elem 0x20000010 [4, 2, 0xaa, 0xbb] = [0x30, 4, 4, 2, 0xaa, 0xbb]"
  "der_elem 0x20000010 [0x30, 4, 4, 2, 0xaa, 0xbb, 2, 1, 5] = [0x30, 9, 0x30, 4, 4, 2, 0xaa, 0xbb, 2, 1, 5]"
  "der_tag 0x20000010 = [0x30]"
  by (simp_all add: der_bytes)

lemma be_two: "be_bytes 2 1 = [0, 1]"
  by (simp only: numeral_2_eq_2) simp

lemma sample_bytes: "der_tag 4 = [4]" "der_tag 0x20000004 = [0x24]"
  by (simp_all add: der_bytes)

lemma sample_forms:
  "ber_elem 4 0 [0xaa] = [4, 1, 0xaa]" "ber_elem 4 2 [0xbb] = [4, 0x82, 0, 1, 0xbb]"
  "ber_elem 0x20000004 0 [4, 1, 0xaa, 4, 0x82, 0, 1, 0xbb] = [0x24, 8, 4, 1, 0xaa, 4, 0x82, 0, 1, 0xbb]"
  using be_two by (simp_all add: ber_elem_def ber_header_def ber_len_def sample_bytes)

lemmas sample_simps = sample_tags sample_elems sample_forms form_ok_def ber_node_ok_def kMaxDepth_def ber_wrap_def

text \<open>An octet string in two fragments, one with a length of three octets, inside a sequence of indefinite length.\<close>

definition ber_sample :: ber where
  "ber_sample = Indefinite 0x20000010 [Definite 0x20000004 0 [Prim 4 0 [0xaa], Prim 4 2 [0xbb]]]"

lemma ber_sample:
  "ber_ok 0 0 ber_sample" "cbs_find_ber (ber_enc ber_sample) 0 = Some True"
  "ber_enc ber_sample = [0x30, 0x80, 0x24, 8, 4, 1, 0xaa, 4, 0x82, 0, 1, 0xbb, 0, 0]"
  "ber_conv 0 ber_sample = [0x30, 4, 4, 2, 0xaa, 0xbb]"
proof -
  show "ber_ok 0 0 ber_sample"
    by (simp add: ber_sample_def sample_simps)
  show enc: "ber_enc ber_sample = [0x30, 0x80, 0x24, 8, 4, 1, 0xaa, 4, 0x82, 0, 1, 0xbb, 0, 0]"
    by (simp add: ber_sample_def sample_simps)
  show "ber_conv 0 ber_sample = [0x30, 4, 4, 2, 0xaa, 0xbb]" by (simp add: ber_sample_def sample_simps)
  show "cbs_find_ber (ber_enc ber_sample) 0 = Some True"
    using find_ber_indefinite [of "0x20000010" _ "[]"] by (simp add: ber_sample_def CBS_ASN1_CONSTRUCTED_def del: ber_enc.simps)
qed

lemma ber_to_der_converts_witness:
  "CBS_asn1_ber_to_der (\<lambda>_. True) [0x30, 0x80, 0x24, 8, 4, 1, 0xaa, 4, 0x82, 0, 1, 0xbb, 0, 0] = (Some ([0x30, 4, 4, 2, 0xaa, 0xbb], True), [])"
  using ber_to_der_converts [of "[ber_sample]" "\<lambda>_. True"] ber_sample by simp

text \<open>C28. Whatever a conversion returns is DER as far as this file is concerned: \<open>cbs_find_ber\<close> on
  the output succeeds and finds nothing.\<close>

theorem ber_to_der_output_is_der:
  assumes "CBS_asn1_ber_to_der alloc inp = (Some (out, True), rest)" and "length inp < 2 ^ 64"
  shows "cbs_find_ber out 0 = Some False"
proof -
  have "ber_out (Suc (length inp)) inp 0 False 0 = Some (out, rest)" using ber_to_der_sound [OF assms] by blast
  then show ?thesis by (simp only: cbs_find_ber_def find_ber_der_only [OF ber_out_der_only] kMaxDepth_def if_False) simp
qed

lemma ber_to_der_output_is_der_witness: "cbs_find_ber [0x30, 4, 4, 2, 0xaa, 0xbb] 0 = Some False"
proof (rule ber_to_der_output_is_der)
  show "CBS_asn1_ber_to_der (\<lambda>_. True) (ber_enc ber_sample) = (Some ([0x30, 4, 4, 2, 0xaa, 0xbb], True), [])"
    using ber_out_enc [of 0 0 "[ber_sample]" False "[]" "Suc (length (ber_enc ber_sample))"] ber_sample
    by (intro ber_to_der_total) (simp_all del: ber_out.simps)
  show "length (ber_enc ber_sample) < 2 ^ 64" by (simp add: ber_sample)
qed

text \<open>C29. The converter ends: with more steps allowed than the input has octets, it never runs out of them, whatever the
  builder does. \<open>stuck\<close>, which stands for running out, is arbitrary here and makes no difference.\<close>

theorem convert_ber_terminates:
  assumes "CBS_len inp < n" and "depth \<le> kMaxDepth"
  shows "cbs_convert_ber_loop stuck n inp out string_tag looking_for_eoc depth = cbs_convert_ber inp out string_tag looking_for_eoc depth"
proof -
  have "cbs_convert_ber_loop stuck n inp out string_tag looking_for_eoc depth =
      cbs_convert_ber_loop op_fail (Suc (length inp)) inp out string_tag looking_for_eoc depth"
    using assms(1) by (intro convert_ber_fuel) (simp_all add: CBS_len_def)
  also have "\<dots> = cbs_convert_ber inp out string_tag looking_for_eoc depth"
    using assms(2) by (simp add: cbs_convert_ber_def CBS_len_def del: cbs_convert_ber_loop.simps)
  finally show ?thesis .
qed

lemma convert_ber_terminates_witness:
  "cbs_convert_ber_loop (op_return [0xff]) 100 [0x24, 3, 4, 1, 0xaa] 0 0 False 0 = cbs_convert_ber [0x24, 3, 4, 1, 0xaa] 0 0 False 0"
  by (rule convert_ber_terminates) (simp_all add: CBS_len_def kMaxDepth_def)

text \<open>C30. \<open>cbs_find_ber\<close> misses what it has found: when the inner call finds something to convert in a constructed element, a
  primitive element that follows resets \<open>*ber_found\<close>. \<open>CBS_asn1_ber_to_der\<close> then returns the enclosing element as it is,
  whatever the inner one contains, although that is not DER.\<close>

theorem ber_to_der_misses_nested:
  assumes "cbs_find_ber c 2 = Some True"
    and "t AND CBS_ASN1_CONSTRUCTED \<noteq> 0" and "\<not> is_string_type t" and "u AND CBS_ASN1_CONSTRUCTED \<noteq> 0" and "\<not> is_string_type u"
    and "p AND CBS_ASN1_CONSTRUCTED = 0" and "length (der_elem u (der_elem t c @ der_elem p e)) < 2 ^ 32"
  shows "CBS_asn1_ber_to_der alloc (der_elem u (der_elem t c @ der_elem p e)) = (Some (der_elem u (der_elem t c @ der_elem p e), False), [])"
proof -
  have len: "length c < 2 ^ 32" "length e < 2 ^ 32" "length (der_elem t c @ der_elem p e) < 2 ^ 32"
    using assms(7) by (simp_all add: der_elem_def)
  have two: "Suc (Suc 0) = 2" by simp
  have "cbs_find_ber_loop c False 2 = Some True" using assms(1) by (simp add: cbs_find_ber_def kMaxDepth_def)
  moreover have "cbs_find_ber_loop (der_elem p e) b 1 = Some False" for b
    using find_ber_element [OF len(2), of p "[]" b 1] assms(6) by (simp add: find_ber_Nil)
  ultimately have "cbs_find_ber_loop (der_elem t c @ der_elem p e) False 1 = Some False"
    using find_ber_element [OF len(1), of t "der_elem p e" False 1] assms(2,3) by (simp add: kMaxDepth_def two)
  then have "cbs_find_ber (der_elem u (der_elem t c @ der_elem p e)) 0 = Some False"
    using find_ber_element [OF len(3), of u "[]" False 0] assms(4,5) by (simp add: cbs_find_ber_def kMaxDepth_def find_ber_Nil)
  then show ?thesis
    using CBS_get_any_asn1_element_elem [OF len(3), of u "[]"] by (simp add: CBS_asn1_ber_to_der_def op_map_def op_bind_def)
qed

lemma ber_to_der_misses_nested_witness:
  "CBS_asn1_ber_to_der (\<lambda>_. True) [0x30, 11, 0x30, 6, 0x24, 4, 4, 2, 0xaa, 0xbb, 2, 1, 5] =
    (Some ([0x30, 11, 0x30, 6, 0x24, 4, 4, 2, 0xaa, 0xbb, 2, 1, 5], False), [])"
proof -
  have "cbs_find_ber [0x24, 4, 4, 2, 0xaa, 0xbb] 2 = Some True"
    using find_ber_element [of "[4, 2, 0xaa, 0xbb]" "0x20000004" "[]" False 2] by (simp add: cbs_find_ber_def sample_simps)
  from ber_to_der_misses_nested [OF this, of "0x20000010" "0x20000010" 2 "[5]" "\<lambda>_. True"] show ?thesis by (simp add: sample_simps)
qed

end
