(* ===== verification/Base64.thy ===== *)
theory Base64
  imports Constant_Time
begin

text \<open>
  Base64 (\<open>crypto/base64/base64.c\<close>): the block encoder and decoder, and the streaming ones with
  their context. Characters are bytes. Output buffers are the list of the bytes written; every
  write of the code goes to the position after the previous ones, and a trailing zero byte is
  overwritten by what follows it.
\<close>

section \<open>Characters\<close>

definition constant_time_lt_args_8 :: "u8 \<Rightarrow> u8 \<Rightarrow> u8" where
  "constant_time_lt_args_8 a b = ucast (constant_time_msb_w (ucast a - ucast b))"

definition constant_time_in_range_8 :: "u8 \<Rightarrow> u8 \<Rightarrow> u8 \<Rightarrow> u8" where
  "constant_time_in_range_8 a lo hi = constant_time_lt_args_8 (a - lo) (hi - lo + 1)"

text \<open>The character constants: \<open>+ / 0 9 A Z a z =\<close> and white space.\<close>

definition conv_bin2ascii :: "u8 \<Rightarrow> u8" where
  "conv_bin2ascii a =
     (let a = a AND 0x3f;
          ret = constant_time_select_8 (constant_time_eq_8 (ucast a) 62) 0x2b 0x2f;
          ret = constant_time_select_8 (constant_time_lt_args_8 a 62) (a - 52 + 0x30) ret;
          ret = constant_time_select_8 (constant_time_lt_args_8 a 52) (a - 26 + 0x61) ret;
          ret = constant_time_select_8 (constant_time_lt_args_8 a 26) (a + 0x41) ret
      in ret)"

definition base64_ascii_to_bin :: "u8 \<Rightarrow> u8" where
  "base64_ascii_to_bin a =
     (let is_upper = constant_time_in_range_8 a 0x41 0x5a;
          is_lower = constant_time_in_range_8 a 0x61 0x7a;
          is_digit = constant_time_in_range_8 a 0x30 0x39;
          is_plus = constant_time_eq_8 (ucast a) 0x2b;
          is_slash = constant_time_eq_8 (ucast a) 0x2f;
          is_equals = constant_time_eq_8 (ucast a) 0x3d;
          ret = 0;
          ret = ret OR (is_upper AND (a - 0x41));
          ret = ret OR (is_lower AND (a - 0x61 + 26));
          ret = ret OR (is_digit AND (a - 0x30 + 52));
          ret = ret OR (is_plus AND 62);
          ret = ret OR (is_slash AND 63);
          is_valid = is_upper OR is_lower OR is_digit OR is_plus OR is_slash OR is_equals
      in ret OR NOT is_valid)"

section \<open>Encoding\<close>

definition EVP_EncodedLength :: "u64 \<Rightarrow> u64 option" where
  "EVP_EncodedLength len =
     (if len + 2 < len then None
      else let len = (len + 2) div 3 in
        if drop_bit 2 (push_bit 2 len) \<noteq> len then None
        else let len = push_bit 2 len in
          if len + 1 < len then None else Some (len + 1))"

text \<open>The loop of \<open>EVP_EncodeBlock\<close>; \<open>ret\<close> is \<open>size_t\<close>.\<close>

fun EVP_EncodeBlock_loop :: "byte list \<Rightarrow> u64 \<Rightarrow> byte list \<times> u64" where
  "EVP_EncodeBlock_loop [] ret = ([], ret)"
| "EVP_EncodeBlock_loop [s0] ret =
     (let l = push_bit 16 (ucast s0 :: u32)
      in ([conv_bin2ascii (ucast (drop_bit 18 l)), conv_bin2ascii (ucast (drop_bit 12 l)), 0x3d, 0x3d], ret + 4))"
| "EVP_EncodeBlock_loop [s0, s1] ret =
     (let l = push_bit 16 (ucast s0 :: u32) OR push_bit 8 (ucast s1)
      in ([conv_bin2ascii (ucast (drop_bit 18 l)), conv_bin2ascii (ucast (drop_bit 12 l)),
           conv_bin2ascii (ucast (drop_bit 6 l)), 0x3d], ret + 4))"
| "EVP_EncodeBlock_loop (s0 # s1 # s2 # src) ret =
     (let l = push_bit 16 (ucast s0 :: u32) OR push_bit 8 (ucast s1) OR ucast s2;
          (dst, ret) = EVP_EncodeBlock_loop src (ret + 4)
      in (conv_bin2ascii (ucast (drop_bit 18 l)) # conv_bin2ascii (ucast (drop_bit 12 l)) #
          conv_bin2ascii (ucast (drop_bit 6 l)) # conv_bin2ascii (ucast l) # dst, ret))"

text \<open>What is written to \<open>dst\<close>, with the terminating zero byte, and the return value.\<close>

definition EVP_EncodeBlock :: "byte list \<Rightarrow> byte list \<times> u64" where
  "EVP_EncodeBlock src = (let (dst, ret) = EVP_EncodeBlock_loop src 0 in (dst @ [0], ret))"

record EVP_ENCODE_CTX =
  data_used :: nat
  data :: "byte list"
  eof_seen :: bool
  error_encountered :: bool

text \<open>\<open>EVP_EncodeInit\<close>, \<open>EVP_DecodeInit\<close> and \<open>EVP_ENCODE_CTX_new\<close> clear the whole structure.\<close>

definition EVP_EncodeInit :: EVP_ENCODE_CTX where
  "EVP_EncodeInit = \<lparr>data_used = 0, data = replicate 48 0, eof_seen = False, error_encountered = False\<rparr>"

definition EVP_DecodeInit :: EVP_ENCODE_CTX where
  "EVP_DecodeInit = \<lparr>data_used = 0, data = replicate 48 0, eof_seen = False, error_encountered = False\<rparr>"

definition EVP_ENCODE_CTX_new :: "bool \<Rightarrow> EVP_ENCODE_CTX option" where
  \<comment> \<open>the argument says whether the allocation succeeds\<close>
  "EVP_ENCODE_CTX_new ok =
     (if ok then Some \<lparr>data_used = 0, data = replicate 48 0, eof_seen = False, error_encountered = False\<rparr> else None)"

text \<open>\<open>OPENSSL_memcpy (&ctx->data[off], in, n)\<close>\<close>

definition copy_data :: "nat \<Rightarrow> byte list \<Rightarrow> byte list \<Rightarrow> byte list" where
  "copy_data off src dat = take off dat @ src @ drop (off + length src) dat"

text \<open>
  The loop over whole lines of 48 bytes: the text written so far without its terminator, the
  running total, and the rest of the input. The first result is false for the return on
  overflow of \<open>total\<close>.
\<close>

function encode_lines :: "byte list \<Rightarrow> byte list \<Rightarrow> u64 \<Rightarrow> bool \<times> byte list \<times> u64 \<times> byte list" where
  "encode_lines inp out tot =
     (if length inp \<ge> 48 then
        let (dst, encoded) = EVP_EncodeBlock (take 48 inp);
            out = out @ take (unat encoded) dst @ [0x0a]
        in if tot + encoded + 1 < tot then (False, out, tot, drop 48 inp)
           else encode_lines (drop 48 inp) out (tot + encoded + 1)
      else (True, out, tot, inp))"
  by pat_completeness auto
termination
  by (relation "measure (\<lambda>(inp, _, _). length inp)") auto

declare encode_lines.simps [simp del]

definition INT_MAX :: u64 where "INT_MAX = 0x7fffffff"

text \<open>The loop of \<open>EVP_EncodeUpdate\<close> and what follows it.\<close>

definition encode_rest :: "byte list \<Rightarrow> byte list \<Rightarrow> u64 \<Rightarrow> EVP_ENCODE_CTX \<Rightarrow> (byte list \<times> nat) \<times> EVP_ENCODE_CTX" where
  "encode_rest inp out tot ctx =
     (case encode_lines inp out tot of
        (False, out, _, _) \<Rightarrow> ((out, 0), ctx)
      | (True, out, t, inp) \<Rightarrow>
          let ctx = ctx\<lparr>data := (if length inp \<noteq> 0 then copy_data 0 inp (data ctx) else data ctx), data_used := length inp\<rparr>;
              t = (if t > INT_MAX then 0 else t)
          in ((out, unat t), ctx))"

text \<open>
  \<open>EVP_EncodeUpdate\<close>: the text written to \<open>out\<close> without its terminator, and \<open>*out_len\<close>. The text
  is empty exactly when nothing, not even a terminator, is written.
\<close>

definition EVP_EncodeUpdate :: "byte list \<Rightarrow> EVP_ENCODE_CTX \<Rightarrow> (byte list \<times> nat) \<times> EVP_ENCODE_CTX" where
  "EVP_EncodeUpdate inp ctx =
     (if length inp = 0 then (([], 0), ctx)
      else if 48 - data_used ctx > length inp then
        (([], 0), ctx\<lparr>data := copy_data (data_used ctx) inp (data ctx), data_used := data_used ctx + length inp\<rparr>)
      else
        let (out, ttl, inp, ctx) =
          (if data_used ctx \<noteq> 0 then
             let todo = 48 - data_used ctx;
                 dat = copy_data (data_used ctx) (take todo inp) (data ctx);
                 (dst, encoded) = EVP_EncodeBlock dat
             in (take (unat encoded) dst @ [0x0a], encoded + 1, drop todo inp, ctx\<lparr>data := dat, data_used := 0\<rparr>)
           else ([], 0, inp, ctx))
        in encode_rest inp out ttl ctx)"

definition EVP_EncodeFinal :: "EVP_ENCODE_CTX \<Rightarrow> (byte list \<times> nat) \<times> EVP_ENCODE_CTX" where
  "EVP_EncodeFinal ctx =
     (if data_used ctx = 0 then (([], 0), ctx)
      else let (dst, encoded) = EVP_EncodeBlock (take (data_used ctx) (data ctx))
           in ((take (unat encoded) dst @ [0x0a], unat encoded + 1), ctx\<lparr>data_used := 0\<rparr>))"

section \<open>Decoding\<close>

definition EVP_DecodedLength :: "u64 \<Rightarrow> u64 option" where
  "EVP_DecodedLength len = (if len mod 4 \<noteq> 0 then None else Some (len div 4 * 3))"

definition base64_decode_quad :: "byte list \<Rightarrow> byte list option" where
  "base64_decode_quad inp =
     (let a = base64_ascii_to_bin (inp ! 0); b = base64_ascii_to_bin (inp ! 1);
          c = base64_ascii_to_bin (inp ! 2); d = base64_ascii_to_bin (inp ! 3)
      in if a = 0xff \<or> b = 0xff \<or> c = 0xff \<or> d = 0xff then None
         else
           let v = push_bit 18 (ucast a :: u32) OR push_bit 12 (ucast b) OR push_bit 6 (ucast c) OR ucast d;
               padding_pattern = push_bit 3 (of_bool (inp ! 0 = 0x3d)) OR push_bit 2 (of_bool (inp ! 1 = 0x3d)) OR
                 push_bit 1 (of_bool (inp ! 2 = 0x3d)) OR of_bool (inp ! 3 = 0x3d) :: u32
           in if padding_pattern = 0 then Some [ucast (drop_bit 16 v), ucast (drop_bit 8 v), ucast v]
              else if padding_pattern = 1 then Some [ucast (drop_bit 16 v), ucast (drop_bit 8 v)]
              else if padding_pattern = 3 then Some [ucast (drop_bit 16 v)]
              else None)"

text \<open>
  The loop of \<open>EVP_DecodeUpdate\<close>: the bytes written to \<open>out\<close>, and whether it ran to the end of
  the input.
\<close>

fun EVP_DecodeUpdate_loop :: "EVP_ENCODE_CTX \<Rightarrow> byte list \<Rightarrow> byte list \<Rightarrow> byte list \<times> bool \<times> EVP_ENCODE_CTX" where
  "EVP_DecodeUpdate_loop ctx out [] = (out, True, ctx)"
| "EVP_DecodeUpdate_loop ctx out (c # inp) =
     (if c \<in> {0x20, 0x09, 0x0d, 0x0a} then EVP_DecodeUpdate_loop ctx out inp
      else if eof_seen ctx then (out, False, ctx\<lparr>error_encountered := True\<rparr>)
      else
        let ctx = ctx\<lparr>data := (data ctx)[data_used ctx := c], data_used := data_used ctx + 1\<rparr>
        in if data_used ctx = 4 then
             case base64_decode_quad (data ctx) of
               None \<Rightarrow> (out, False, ctx\<lparr>error_encountered := True\<rparr>)
             | Some bytes \<Rightarrow>
                 let ctx = ctx\<lparr>data_used := 0\<rparr>;
                     ctx = (if length bytes < 3 then ctx\<lparr>eof_seen := True\<rparr> else ctx)
                 in EVP_DecodeUpdate_loop ctx (out @ bytes) inp
           else EVP_DecodeUpdate_loop ctx out inp)"

text \<open>The return value, the bytes written and \<open>*out_len\<close>.\<close>

definition EVP_DecodeUpdate :: "byte list \<Rightarrow> EVP_ENCODE_CTX \<Rightarrow> (int \<times> byte list \<times> nat) \<times> EVP_ENCODE_CTX" where
  "EVP_DecodeUpdate inp ctx =
     (if error_encountered ctx then ((-1, [], 0), ctx)
      else case EVP_DecodeUpdate_loop ctx [] inp of
        (out, False, ctx) \<Rightarrow> ((-1, out, 0), ctx)
      | (out, True, ctx) \<Rightarrow>
          if length out > unat INT_MAX then ((-1, out, 0), ctx\<lparr>error_encountered := True\<rparr>)
          else ((if eof_seen ctx then 0 else 1, out, length out), ctx))"

definition EVP_DecodeFinal :: "EVP_ENCODE_CTX \<Rightarrow> int \<times> nat" where
  "EVP_DecodeFinal ctx = (if error_encountered ctx \<or> data_used ctx \<noteq> 0 then (-1, 0) else (1, 0))"

fun EVP_DecodeBase64_loop :: "byte list \<Rightarrow> byte list \<Rightarrow> byte list option" where
  "EVP_DecodeBase64_loop (c0 # c1 # c2 # c3 # inp) out =
     (case base64_decode_quad [c0, c1, c2, c3] of
        None \<Rightarrow> None
      | Some bytes \<Rightarrow>
          if length bytes \<noteq> 3 \<and> inp \<noteq> [] then None
          else EVP_DecodeBase64_loop inp (out @ bytes))"
| "EVP_DecodeBase64_loop _ out = Some out"

text \<open>The bytes written, \<open>None\<close> for a failure. \<open>*out_len\<close> is their number.\<close>

definition EVP_DecodeBase64 :: "u64 \<Rightarrow> byte list \<Rightarrow> byte list option" where
  "EVP_DecodeBase64 max_out inp =
     (if length inp mod 4 \<noteq> 0 then None
      else case EVP_DecodedLength (of_nat (length inp)) of
        None \<Rightarrow> None
      | Some max_len \<Rightarrow> if max_out < max_len then None else EVP_DecodeBase64_loop inp [])"

text \<open>The bytes written to \<open>dst\<close>, \<open>None\<close> for the return value -1.\<close>

definition EVP_DecodeBlock :: "byte list \<Rightarrow> byte list option" where
  "EVP_DecodeBlock src =
     (let src = dropWhile (\<lambda>c. c = 0x20 \<or> c = 0x09) src;
          src = rev (dropWhile (\<lambda>c. c \<in> {0x20, 0x09, 0x0d, 0x0a}) (rev src))
      in case EVP_DecodedLength (of_nat (length src)) of
           None \<Rightarrow> None
         | Some dst_len \<Rightarrow>
             if dst_len > INT_MAX then None
             else map_option (\<lambda>dst. dst @ replicate ((3 - length dst mod 3) mod 3) 0) (EVP_DecodeBase64 dst_len src))"


section \<open>The alphabet\<close>

definition b64_alphabet :: "byte list" where
  "b64_alphabet = map of_nat ([65..<91] @ [97..<123] @ [48..<58] @ [43, 47])"

lemma constant_time_lt_args_8_eq: "constant_time_lt_args_8 a b = (if a < b then 0xff else 0)"
proof -
  have "bit (ucast a - ucast b :: u64) 63 \<longleftrightarrow> a < b"
  proof -
    define x y where "x = unat a" and "y = unat b"
    have "x < 256" "y < 256" by (simp_all add: x_def y_def)
    then show ?thesis
      by (auto simp: bit_63 unat_minus word_less_nat_alt unat_ucast_up x_def [symmetric] y_def [symmetric])
  qed
  then show ?thesis by (simp only: constant_time_lt_args_8_def constant_time_msb_w_eq ucast_mask)
qed

lemma constant_time_eq_8_eq: "constant_time_eq_8 (ucast (a :: u8)) b = (if (ucast a :: u64) = b then 0xff else 0)"
  by (simp only: constant_time_eq_8_def constant_time_eq_w_eq ucast_mask)

lemma bit_ff: "bit (255 :: int) n \<longleftrightarrow> n < 8"
  using bit_mask_iff [of 8 n, where 'a = int] by (auto simp: mask_eq_exp_minus_1)

lemma mask_and_byte: "(255 :: u8) AND x = x" "(- 256 :: u8) = 0"
proof -
  show "(255 :: u8) AND x = x" by (rule bit_word_eqI) (auto simp: bit_simps bit_ff)
qed simp

lemma constant_time_select_8_eq: "constant_time_select_8 (if p then 0xff else 0) a b = (if p then a else b)"
proof -
  have "(ucast (ucast c :: u64) :: u8) = c" for c :: u8 by (rule bit_word_eqI) (auto simp: bit_simps)
  moreover have ff: "bit (255 :: int) n \<longleftrightarrow> n < 8" for n by (rule bit_ff)
  have "(ucast ((0xff AND ucast a) OR (NOT 0xff AND ucast b) :: u64) :: u8) = a"
    by (rule bit_word_eqI) (auto simp: bit_simps ff)
  ultimately show ?thesis
    by (simp add: constant_time_select_8_def constant_time_select_w_def value_barrier_w_def)
qed


text \<open>Indexing the alphabet by six bits.\<close>

lemma b64_alphabet_nth:
  "i < 64 \<Longrightarrow> b64_alphabet ! i =
     (if i < 26 then of_nat (65 + i) else if i < 52 then of_nat (97 + (i - 26)) else if i < 62 then of_nat (48 + (i - 52))
      else if i = 62 then 43 else 47)"
  by (auto simp: b64_alphabet_def nth_append not_less less_Suc_eq simp del: upt_rec_numeral)

lemma unat_b64_alphabet:
  "i < 64 \<Longrightarrow> unat (b64_alphabet ! i) =
    (if i < 26 then 65 + i else if i < 52 then 71 + i else if i < 62 then i - 4 else if i = 62 then 43 else 47)"
proof -
  assume i: "i < 64"
  have "unat (of_nat k :: byte) = k" if "k < 256" for k using that by simp
  moreover have "of_nat (48 + (i - 52)) = (of_nat (i - 4) :: byte)" if "52 \<le> i" using that by (intro arg_cong [of _ _ of_nat]) simp
  ultimately show ?thesis using i by (simp add: b64_alphabet_nth del: of_nat_add of_nat_diff)
qed

lemma length_b64_alphabet [simp]: "length b64_alphabet = 64"
  by (simp add: b64_alphabet_def)

lemma conv_bin2ascii_eq: "conv_bin2ascii a = b64_alphabet ! (unat a mod 64)"
proof -
  define b where "b = a AND 0x3f"
  have b: "unat b = unat a mod 64"
    using unat_and_mask [of a 6] by (simp add: b_def mask_eq_exp_minus_1)
  have lt: "unat b < 64" by (simp add: b)
  have eq: "(ucast b :: u64) = 62 \<longleftrightarrow> unat b = 62" by (simp add: word_unat_eq_iff unat_ucast_up)
  have "conv_bin2ascii a =
    (if b < 26 then b + 0x41 else if b < 52 then b - 26 + 0x61 else if b < 62 then b - 52 + 0x30
     else if unat b = 62 then 0x2b else 0x2f)"
    by (simp only: conv_bin2ascii_def Let_def b_def [symmetric] constant_time_lt_args_8_eq constant_time_eq_8_eq
        constant_time_select_8_eq eq)
  also have "\<dots> = b64_alphabet ! unat b"
    using lt by (auto simp: b64_alphabet_nth word_unat_eq_iff word_less_nat_alt unat_word_ariths unat_sub_if_size word_size)
  finally show ?thesis by (simp only: b)
qed


text \<open>The value of a character of the alphabet.\<close>

definition b64_value :: "byte \<Rightarrow> nat option" where
  "b64_value c =
     (if 65 \<le> unat c \<and> unat c < 91 then Some (unat c - 65)
      else if 97 \<le> unat c \<and> unat c < 123 then Some (unat c - 97 + 26)
      else if 48 \<le> unat c \<and> unat c < 58 then Some (unat c - 48 + 52)
      else if unat c = 43 then Some 62 else if unat c = 47 then Some 63 else None)"

lemma b64_value_iff: "b64_value c = Some i \<longleftrightarrow> i < 64 \<and> b64_alphabet ! i = c"
proof
  assume "b64_value c = Some i"
  then show "i < 64 \<and> b64_alphabet ! i = c"
    using unat_lt8 [of c] by (auto simp: b64_value_def b64_alphabet_nth word_unat_eq_iff split: if_splits)
next
  assume i: "i < 64 \<and> b64_alphabet ! i = c"
  then have "unat c = (if i < 26 then 65 + i else if i < 52 then 71 + i else if i < 62 then i - 4 else if i = 62 then 43 else 47)"
    using unat_b64_alphabet by blast
  then show "b64_value c = Some i"
    using i by (auto simp: b64_value_def split: if_splits)
qed

lemma b64_value_less: "b64_value c = Some i \<Longrightarrow> i < 64"
  by (simp add: b64_value_iff)

lemma constant_time_in_range_8_eq:
  assumes "unat lo \<le> unat hi" "unat hi < 255"
  shows "constant_time_in_range_8 a lo hi = (if unat lo \<le> unat a \<and> unat a \<le> unat hi then 0xff else 0)"
proof -
  have "unat (hi - lo + 1) = unat hi - unat lo + 1"
    using assms by (simp add: unat_word_ariths unat_sub_if_size word_size)
  then have "a - lo < hi - lo + 1 \<longleftrightarrow> unat lo \<le> unat a \<and> unat a \<le> unat hi"
    using assms by (auto simp: word_less_nat_alt unat_sub_if_size word_size)
  then show ?thesis by (simp add: constant_time_in_range_8_def constant_time_lt_args_8_eq)
qed

lemma base64_ascii_to_bin_eq:
  "base64_ascii_to_bin c = (case b64_value c of Some i \<Rightarrow> of_nat i | None \<Rightarrow> if c = 0x3d then 0 else 0xff)"
proof -
  define x where "x = unat c"
  have x: "x < 256" by (simp add: x_def)
  have c: "c = of_nat x" by (simp add: x_def)
  have eq: "(ucast c :: u64) = k \<longleftrightarrow> x = unat k" for k by (simp add: word_unat_eq_iff unat_ucast_up x_def)
  have "base64_ascii_to_bin c =
    (if 65 \<le> x \<and> x \<le> 90 then c - 0x41 else if 97 \<le> x \<and> x \<le> 122 then c - 0x61 + 26
     else if 48 \<le> x \<and> x \<le> 57 then c - 0x30 + 52 else if x = 43 then 62 else if x = 47 then 63
     else if x = 61 then 0 else 0xff)"
    by (auto simp: base64_ascii_to_bin_def Let_def constant_time_in_range_8_eq constant_time_eq_8_eq eq x_def [symmetric] mask_and_byte)
  also have "\<dots> = (case b64_value c of Some i \<Rightarrow> of_nat i | None \<Rightarrow> if c = 0x3d then 0 else 0xff)"
    using x by (auto simp: b64_value_def x_def [symmetric] c word_unat_eq_iff unat_word_ariths unat_sub_if_size word_size split: option.splits if_splits)
  finally show ?thesis .
qed


section \<open>Reference encoding\<close>

text \<open>The four sextets of 24 bits.\<close>

definition sextet :: "nat \<Rightarrow> nat \<Rightarrow> byte" where
  "sextet n i = b64_alphabet ! (n div 64 ^ i mod 64)"

fun b64_text :: "byte list \<Rightarrow> byte list" where
  "b64_text [] = []"
| "b64_text [x] = (let n = unat x * 65536 in [sextet n 3, sextet n 2, 0x3d, 0x3d])"
| "b64_text [x, y] = (let n = unat x * 65536 + unat y * 256 in [sextet n 3, sextet n 2, sextet n 1, 0x3d])"
| "b64_text (x # y # z # bs) =
     (let n = unat x * 65536 + unat y * 256 + unat z in sextet n 3 # sextet n 2 # sextet n 1 # sextet n 0 # b64_text bs)"

lemma conv_sextet:
  "conv_bin2ascii (ucast (drop_bit 18 (l :: u32))) = sextet (unat l) 3" "conv_bin2ascii (ucast (drop_bit 12 l)) = sextet (unat l) 2"
  "conv_bin2ascii (ucast (drop_bit 6 l)) = sextet (unat l) 1" "conv_bin2ascii (ucast l) = sextet (unat l) 0"
  by (simp_all add: conv_bin2ascii_eq sextet_def unat_ucast_mod unat_drop_bit mod_mod_cancel)

lemma unat_24:
  "unat (push_bit 16 (ucast (x :: u8)) OR push_bit 8 (ucast (y :: u8)) OR ucast (z :: u8) :: u32) = unat x * 65536 + unat y * 256 + unat z"
proof -
  have "push_bit 16 (ucast x) OR push_bit 8 (ucast y) = push_bit 8 (push_bit 8 (ucast x) OR ucast y :: u32)"
    by (rule bit_word_eqI) (auto simp: bit_simps)
  moreover have xy: "unat (push_bit 8 (ucast x) OR ucast y :: u32) = unat x * 256 + unat y"
    using unat_lt8 [of x] unat_lt8 [of y] by (subst unat_push_bit_or) (simp_all add: unat_ucast_up del: unat_lt8)
  ultimately show ?thesis
    using unat_lt8 [of x] unat_lt8 [of y] unat_lt8 [of z] by (simp add: unat_push_bit_or unat_ucast_up xy del: unat_lt8)
qed

lemma EVP_EncodeBlock_loop_eq:
  "EVP_EncodeBlock_loop src ret = (b64_text src, ret + of_nat (length (b64_text src)))"
proof (induction src arbitrary: ret rule: b64_text.induct)
  case (2 x)
  then show ?case
    using unat_24 [of x 0 0] by (simp only: EVP_EncodeBlock_loop.simps Let_def conv_sextet(1-3)) (simp add: Let_def)
next
  case (3 x y)
  then show ?case
    using unat_24 [of x y 0] by (simp only: EVP_EncodeBlock_loop.simps Let_def conv_sextet(1-3)) (simp add: Let_def)
next
  case (4 x y z bs)
  then show ?case
    using unat_24 [of x y z]
    by (simp only: EVP_EncodeBlock_loop.simps Let_def conv_sextet(1-3)) (simp add: conv_sextet(4) Let_def)
qed simp

lemma EVP_EncodeBlock_eq: "EVP_EncodeBlock src = (b64_text src @ [0], of_nat (length (b64_text src)))"
  by (simp add: EVP_EncodeBlock_def EVP_EncodeBlock_loop_eq)

lemma length_b64_text: "length (b64_text bs) = (length bs + 2) div 3 * 4"
proof (induction bs rule: b64_text.induct)
  case (4 x y z bs)
  have "(length bs + 5) div 3 = Suc ((length bs + 2) div 3)" by presburger
  then show ?case using 4 by (simp add: Let_def add.commute)
qed (simp_all add: Let_def)

section \<open>Decoding four characters\<close>

definition quad_bytes :: "nat \<Rightarrow> nat \<Rightarrow> nat \<Rightarrow> nat \<Rightarrow> byte list" where
  "quad_bytes i j k l =
     (let n = ((i * 64 + j) * 64 + k) * 64 + l in [of_nat (n div 65536), of_nat (n div 256), of_nat n])"

definition quad_spec :: "byte \<Rightarrow> byte \<Rightarrow> byte \<Rightarrow> byte \<Rightarrow> byte list option" where
  "quad_spec c0 c1 c2 c3 =
     (case (b64_value c0, b64_value c1, b64_value c2, b64_value c3) of
        (Some i, Some j, Some k, Some l) \<Rightarrow> Some (quad_bytes i j k l)
      | (Some i, Some j, Some k, None) \<Rightarrow> if c3 = 0x3d then Some (take 2 (quad_bytes i j k 0)) else None
      | (Some i, Some j, None, None) \<Rightarrow> if c2 = 0x3d \<and> c3 = 0x3d then Some (take 1 (quad_bytes i j 0 0)) else None
      | _ \<Rightarrow> None)"

lemma unat_sextets:
  assumes "unat a < 64" "unat b < 64" "unat c < 64" "unat d < 64"
  shows "unat (push_bit 18 (ucast (a :: u8)) OR push_bit 12 (ucast (b :: u8)) OR push_bit 6 (ucast (c :: u8)) OR ucast (d :: u8) :: u32) =
    ((unat a * 64 + unat b) * 64 + unat c) * 64 + unat d"
proof -
  define x :: u32 where "x = push_bit 6 (ucast a) OR ucast b"
  define y :: u32 where "y = push_bit 6 x OR ucast c"
  have eq: "push_bit 18 (ucast a) OR push_bit 12 (ucast b) OR push_bit 6 (ucast c) OR ucast d = push_bit 6 y OR (ucast d :: u32)"
    unfolding y_def x_def by (rule bit_word_eqI) (auto simp: bit_simps)
  have x: "unat x = unat a * 64 + unat b"
    unfolding x_def using assms by (subst unat_push_bit_or) (simp_all add: unat_ucast_up)
  have y: "unat y = (unat a * 64 + unat b) * 64 + unat c"
    unfolding y_def using assms by (subst unat_push_bit_or) (simp_all add: unat_ucast_up x)
  show ?thesis
    unfolding eq using assms by (subst unat_push_bit_or) (simp_all add: unat_ucast_up y)
qed

lemma b64_value_equals: "b64_value 0x3d = None"
  by (simp add: b64_value_def)

text \<open>Which characters the decoder takes, and what they are worth.\<close>

definition sym_value :: "byte \<Rightarrow> nat option" where
  "sym_value c = (if c = 0x3d then Some 0 else b64_value c)"

lemma base64_ascii_to_bin_sym:
  "(base64_ascii_to_bin c = 0xff \<longleftrightarrow> sym_value c = None) \<and>
   (\<forall>i. sym_value c = Some i \<longrightarrow> unat (base64_ascii_to_bin c) = i \<and> i < 64)"
proof (cases "b64_value c")
  case (Some i)
  then have "i < 64" by (rule b64_value_less)
  then have "unat (of_nat i :: byte) = i" by simp
  moreover have "c \<noteq> 0x3d" using Some by (auto simp: b64_value_equals)
  moreover have "of_nat i \<noteq> (0xff :: byte)" using \<open>i < 64\<close> by (simp add: word_unat_eq_iff)
  ultimately show ?thesis using Some \<open>i < 64\<close> by (auto simp: sym_value_def base64_ascii_to_bin_eq)
qed (simp add: sym_value_def base64_ascii_to_bin_eq)

lemma quad_bytes_word:
  assumes "unat v = ((i * 64 + j) * 64 + k) * 64 + l"
  shows "[ucast (drop_bit 16 (v :: u32)), ucast (drop_bit 8 v), ucast v] = quad_bytes i j k l"
  using assms by (simp add: quad_bytes_def Let_def word_unat_eq_iff unat_ucast_mod unat_drop_bit del: of_nat_add of_nat_mult)

lemma base64_decode_quad_eq: "base64_decode_quad [c0, c1, c2, c3] = quad_spec c0 c1 c2 c3"
proof (cases "sym_value c0 = None \<or> sym_value c1 = None \<or> sym_value c2 = None \<or> sym_value c3 = None")
  case True
  then have "base64_decode_quad [c0, c1, c2, c3] = None"
    using base64_ascii_to_bin_sym by (auto simp: base64_decode_quad_def Let_def eval_nat_numeral)
  moreover have "quad_spec c0 c1 c2 c3 = None"
    using True by (auto simp: quad_spec_def sym_value_def b64_value_equals split: if_splits option.splits)
  ultimately show ?thesis by simp
next
  case False
  then obtain i j k l where v: "sym_value c0 = Some i" "sym_value c1 = Some j" "sym_value c2 = Some k" "sym_value c3 = Some l" by auto
  define w where "w = push_bit 18 (ucast (base64_ascii_to_bin c0) :: u32) OR push_bit 12 (ucast (base64_ascii_to_bin c1)) OR
    push_bit 6 (ucast (base64_ascii_to_bin c2)) OR ucast (base64_ascii_to_bin c3)"
  have "unat w = ((i * 64 + j) * 64 + k) * 64 + l"
    unfolding w_def using unat_sextets base64_ascii_to_bin_sym v by simp
  note bytes = quad_bytes_word [OF this]
  have ok: "base64_ascii_to_bin c0 \<noteq> 0xff" "base64_ascii_to_bin c1 \<noteq> 0xff" "base64_ascii_to_bin c2 \<noteq> 0xff" "base64_ascii_to_bin c3 \<noteq> 0xff"
    using base64_ascii_to_bin_sym v by auto
  have eq: "base64_decode_quad [c0, c1, c2, c3] =
    (let p = push_bit 3 (of_bool (c0 = 0x3d)) OR push_bit 2 (of_bool (c1 = 0x3d)) OR push_bit 1 (of_bool (c2 = 0x3d)) OR of_bool (c3 = 0x3d) :: u32
     in if p = 0 then Some (quad_bytes i j k l) else if p = 1 then Some (take 2 (quad_bytes i j k l))
        else if p = 3 then Some (take 1 (quad_bytes i j k l)) else None)"
    unfolding bytes [symmetric] using ok
    by (simp add: base64_decode_quad_def Let_def w_def eval_nat_numeral)
  show ?thesis unfolding eq using v
    by (auto simp: quad_spec_def sym_value_def b64_value_equals split: if_splits)
qed


section \<open>Round trip of blocks\<close>

lemma b64_value_sextet [simp]: "b64_value (sextet n i) = Some (n div 64 ^ i mod 64)"
  by (simp add: sextet_def b64_value_iff)

lemma sextet_not_equals [simp]: "sextet n i \<noteq> 0x3d" "0x3d \<noteq> sextet n i"
  using b64_value_sextet [of n i] b64_value_equals by (metis option.distinct(1))+

lemma sextets_recompose:
  "n < 2 ^ 24 \<Longrightarrow> ((n div 64 ^ 3 mod 64 * 64 + n div 64 ^ 2 mod 64) * 64 + n div 64 ^ 1 mod 64) * 64 + n div 64 ^ 0 mod 64 = n"
  for n :: nat
proof -
  assume "n < 2 ^ 24"
  then have "n div 64 div 64 div 64 < 64" by (simp add: div_mult2_eq [symmetric] less_mult_imp_div_less)
  then have "n div 64 div 64 div 64 mod 64 = n div 64 div 64 div 64" by simp
  moreover have "n div 64 ^ 3 = n div 64 div 64 div 64" "n div 64 ^ 2 = n div 64 div 64"
    by (simp_all add: div_mult2_eq [symmetric])
  ultimately show ?thesis by simp
qed

lemma quad_bytes_sextets:
  assumes "n < 2 ^ 24"
  shows "quad_bytes (n div 64 ^ 3 mod 64) (n div 64 ^ 2 mod 64) (n div 64 ^ 1 mod 64) (n div 64 ^ 0 mod 64) =
    [of_nat (n div 65536), of_nat (n div 256), of_nat n]"
  unfolding quad_bytes_def sextets_recompose [OF assms] by simp

lemma bytes_24:
  fixes x y z :: byte
  defines "n \<equiv> \<lambda>(x :: byte) (y :: byte) (z :: byte). unat x * 65536 + unat y * 256 + unat z"
  shows "n x y z < 2 ^ 24" "of_nat (n x y z div 65536) = x" "of_nat (n x y z div 256) = y" "of_nat (n x y z) = z"
    "n x y 0 div 64 ^ 0 mod 64 = 0" "n x 0 0 div 64 ^ 1 mod 64 = 0" "n x 0 0 div 64 ^ 0 mod 64 = 0"
proof -
  define a b c where abc: "a = unat x" "b = unat y" "c = unat z"
  have lt: "a < 256" "b < 256" "c < 256" unfolding abc by (rule unat_lt8)+
  show "n x y z < 2 ^ 24" using lt by (simp add: n_def abc [symmetric])
  have 1: "(a * 65536 + b * 256 + c) div 65536 = a" using lt by (intro div_nat_eqI) simp_all
  have 2: "(a * 65536 + b * 256 + c) div 256 = a * 256 + b" using lt by (intro div_nat_eqI) simp_all
  show "of_nat (n x y z div 65536) = x" by (simp only: n_def abc [symmetric] 1) (simp add: abc)
  show "of_nat (n x y z div 256) = y"
    using lt by (simp only: n_def abc [symmetric] 2) (simp add: word_unat_eq_iff abc [symmetric] del: of_nat_add of_nat_mult)
  show "of_nat (n x y z) = z"
  proof -
    have "a * 65536 + b * 256 + c = c + (a * 256 + b) * 256" by simp
    then have "(a * 65536 + b * 256 + c) mod 256 = c" using lt by (simp only: mod_mult_self1 mod_less)
    then show ?thesis by (simp add: n_def abc [symmetric] word_unat_eq_iff del: of_nat_add of_nat_mult)
  qed
  show "n x y 0 div 64 ^ 0 mod 64 = 0" "n x 0 0 div 64 ^ 1 mod 64 = 0" "n x 0 0 div 64 ^ 0 mod 64 = 0"
    by (simp_all add: n_def)
qed

lemma quad_spec_text:
  "quad_spec (sextet (unat x * 65536 + unat y * 256 + unat z) 3) (sextet (unat x * 65536 + unat y * 256 + unat z) 2)
     (sextet (unat x * 65536 + unat y * 256 + unat z) 1) (sextet (unat x * 65536 + unat y * 256 + unat z) 0) = Some [x, y, z]"
  "quad_spec (sextet (unat x * 65536 + unat y * 256) 3) (sextet (unat x * 65536 + unat y * 256) 2)
     (sextet (unat x * 65536 + unat y * 256) 1) 0x3d = Some [x, y]"
  "quad_spec (sextet (unat x * 65536) 3) (sextet (unat x * 65536) 2) 0x3d 0x3d = Some [x]"
  using quad_bytes_sextets [OF bytes_24(1) [of x y z]] quad_bytes_sextets [OF bytes_24(1) [of x y 0]] quad_bytes_sextets [OF bytes_24(1) [of x 0 0]]
    bytes_24(2-4) [of x y z] bytes_24(2-3) [of x y 0] bytes_24(2) [of x 0 0] bytes_24(5) [of x y] bytes_24(6,7) [of x]
  by (simp_all add: quad_spec_def b64_value_equals take_Cons' del: of_nat_add of_nat_mult One_nat_def power_one_right)

lemma decode_loop_text: "EVP_DecodeBase64_loop (b64_text bs) out = Some (out @ bs)"
  by (induction bs arbitrary: out rule: b64_text.induct) (simp_all add: Let_def base64_decode_quad_eq quad_spec_text del: One_nat_def)


lemma EVP_DecodedLength_eq:
  "length inp < 2 ^ 64 \<Longrightarrow> length inp mod 4 = 0 \<Longrightarrow> EVP_DecodedLength (of_nat (length inp)) = Some (of_nat (length inp div 4 * 3))"
proof -
  assume len: "length inp < 2 ^ 64" and m: "length inp mod 4 = 0"
  have u: "unat (of_nat (length inp) :: u64) = length inp" using len by (intro unat_of_nat_small) simp
  have "(of_nat (length inp) :: u64) mod 4 = 0" by (simp add: word_unat_eq_iff unat_mod u m)
  moreover have "(of_nat (length inp) :: u64) div 4 = of_nat (length inp div 4)"
  proof -
    have "length inp div 4 < 2 ^ LENGTH(64)" using le_less_trans [OF div_le_dividend len] by simp
    then have "unat (of_nat (length inp div 4) :: u64) = length inp div 4" by (rule unat_of_nat_small)
    then show ?thesis by (simp add: word_unat_eq_iff unat_div u)
  qed
  ultimately show ?thesis by (simp add: EVP_DecodedLength_def)
qed

section \<open>Streams\<close>

text \<open>The text of a stream: lines of 48 bytes, each ended by a newline.\<close>

function b64_lines :: "byte list \<Rightarrow> byte list" where
  "b64_lines bs = (if bs = [] then [] else b64_text (take 48 bs) @ 0x0a # b64_lines (drop 48 bs))"
  by pat_completeness auto
termination
  by (relation "measure length") auto

declare b64_lines.simps [simp del]

lemma b64_lines_Nil [simp]: "b64_lines [] = []"
  by (simp add: b64_lines.simps)

lemma b64_lines_48: "length xs = 48 \<Longrightarrow> b64_lines (xs @ ys) = b64_text xs @ 0x0a # b64_lines ys"
  by (subst b64_lines.simps) auto

lemma b64_lines_whole: "48 dvd length xs \<Longrightarrow> b64_lines (xs @ ys) = b64_lines xs @ b64_lines ys"
proof (induction xs rule: b64_lines.induct)
  case (1 xs)
  show ?case
  proof (cases "xs = []")
    case False
    then have len: "48 \<le> length xs" using 1(2) by (auto dest: dvd_imp_le)
    have "48 dvd length (drop 48 xs)" using 1(2) len by (simp add: dvd_diff_nat)
    then have IH: "b64_lines (drop 48 xs @ ys) = b64_lines (drop 48 xs) @ b64_lines ys" by (rule 1(1) [OF False])
    have "b64_lines (xs @ ys) = b64_lines (take 48 xs @ drop 48 xs @ ys)"
      by (simp only: append_assoc [symmetric] append_take_drop_id)
    also have "\<dots> = b64_text (take 48 xs) @ 0x0a # b64_lines (drop 48 xs @ ys)" using len by (intro b64_lines_48) simp
    also have "\<dots> = b64_lines xs @ b64_lines ys" using False by (simp add: IH b64_lines.simps [of xs])
    finally show ?thesis .
  qed simp
qed

text \<open>The bytes a context holds back.\<close>

definition enc_rep :: "EVP_ENCODE_CTX \<Rightarrow> byte list \<Rightarrow> bool" where
  "enc_rep ctx p \<longleftrightarrow> length (data ctx) = 48 \<and> data_used ctx = length p \<and> length p < 48 \<and> take (length p) (data ctx) = p"

lemma enc_rep_init: "enc_rep EVP_EncodeInit []"
  by (simp add: enc_rep_def EVP_EncodeInit_def)

text \<open>Whole lines of some input, and what is left of it.\<close>

definition whole :: "byte list \<Rightarrow> nat" where
  "whole bs = length bs div 48 * 48"

lemma encode_lines_eq:
  "unat tot + 2 * length inp + 2 < 2 ^ 64 \<Longrightarrow>
   encode_lines inp out tot =
     (True, out @ b64_lines (take (whole inp) inp), tot + of_nat (length (b64_lines (take (whole inp) inp))), drop (whole inp) inp)"
proof (induction inp out tot rule: encode_lines.induct)
  case (1 inp out tot)
  show ?case
  proof (cases "length inp \<ge> 48")
    case False
    then show ?thesis by (simp add: encode_lines.simps whole_def)
  next
    case True
    define line where "line = b64_text (take 48 inp)"
    have len: "length line = 64" using True by (simp add: line_def length_b64_text)
    have enc: "EVP_EncodeBlock (take 48 inp) = (line @ [0], 64)" using len by (simp add: EVP_EncodeBlock_eq line_def [symmetric])
    have tot: "unat (tot + 64 + 1) = unat tot + 65" using 1(2) True by (simp add: unat_word_ariths)
    then have no: "\<not> tot + 64 + 1 < tot" by (simp add: word_less_nat_alt)
    have w: "whole inp = 48 + whole (drop 48 inp)"
      using True by (simp add: whole_def) (metis add.commute add_mult_distrib div_add_self2 le_add_diff_inverse2 mult_1 numeral_neq_zero zero_neq_numeral)
    have lines: "b64_lines (take (whole inp) inp) = line @ 0x0a # b64_lines (take (whole (drop 48 inp)) (drop 48 inp))"
      using True unfolding w take_add line_def by (intro b64_lines_48) simp
    have rest: "drop (whole inp) inp = drop (whole (drop 48 inp)) (drop 48 inp)" by (simp add: w add.commute)
    have IH: "encode_lines (drop 48 inp) (out @ line @ [0x0a]) (tot + 64 + 1) = (True,
       (out @ line @ [0x0a]) @ b64_lines (take (whole (drop 48 inp)) (drop 48 inp)),
       tot + 64 + 1 + of_nat (length (b64_lines (take (whole (drop 48 inp)) (drop 48 inp)))), drop (whole (drop 48 inp)) (drop 48 inp))"
      using 1(1) [OF True _ refl _ no] enc len tot 1(2) True by simp
    have "encode_lines inp out tot = encode_lines (drop 48 inp) (out @ line @ [0x0a]) (tot + 64 + 1)"
      using True no by (simp add: encode_lines.simps [of inp] enc len)
    then show ?thesis unfolding IH lines rest using len by simp
  qed
qed


lemma whole_line: "length xs = 48 \<Longrightarrow> whole (xs @ ys) = 48 + whole ys"
proof -
  assume "length xs = 48"
  then have "length (xs @ ys) div 48 = Suc (length ys div 48)" by simp
  then show ?thesis by (simp only: whole_def mult_Suc)
qed

lemma take_whole_line:
  "length xs = 48 \<Longrightarrow> b64_lines (take (whole (xs @ ys)) (xs @ ys)) = b64_text xs @ 0x0a # b64_lines (take (whole ys) ys)"
  by (simp add: whole_line b64_lines_48)

lemma whole_short: "length xs < 48 \<Longrightarrow> whole xs = 0"
  by (simp add: whole_def)

lemma length_drop_whole: "length (drop (whole xs) xs) < 48"
  by (simp add: whole_def minus_div_mult_eq_mod)

lemma enc_rep_store:
  assumes "length dat = 48" and "length r < 48"
  shows "enc_rep (ctx\<lparr>data := (if length r \<noteq> 0 then copy_data 0 r dat else dat), data_used := length r\<rparr>) r"
  using assms by (auto simp: enc_rep_def copy_data_def)

lemma length_b64_lines_le: "length (b64_lines bs) \<le> 5 * length bs"
proof (induction bs rule: b64_lines.induct)
  case (1 bs)
  show ?case
  proof (cases "bs = []")
    case False
    have "length (b64_text (take 48 bs)) + 1 \<le> 5 * length (take 48 bs)"
      using False length_b64_text [of "take 48 bs"] by (cases bs) (auto simp: min_def)
    then show ?thesis using 1 [OF False] False by (simp add: b64_lines.simps [of bs])
  qed simp
qed

lemma encode_rest_eq:
  assumes dat: "length (data ctx) = 48" and tot: "tot = of_nat (length out)" and len: "length out \<le> 65" "length inp < 2 ^ 60"
  defines "txt \<equiv> out @ b64_lines (take (whole inp) inp)"
  shows "\<exists>ctx' n. encode_rest inp out tot ctx = ((txt, n), ctx') \<and>
    enc_rep ctx' (drop (whole inp) inp) \<and> n = (if length txt \<le> unat INT_MAX then length txt else 0)"
proof -
  have ut: "unat tot = length out" unfolding tot using len(1) by (intro unat_of_nat_small) simp
  have "unat tot + 2 * length inp + 2 < 2 ^ 64" using ut len by simp
  note enc = encode_lines_eq [OF this, of out]
  have "length (b64_lines (take (whole inp) inp)) \<le> 5 * length inp"
    using length_b64_lines_le [of "take (whole inp) inp"] by (rule order_trans) simp
  then have "length txt < 2 ^ 64" using len by (simp add: txt_def)
  then have u: "unat (of_nat (length txt) :: u64) = length txt" by (intro unat_of_nat_small) simp
  have ttl: "tot + of_nat (length (b64_lines (take (whole inp) inp))) = of_nat (length txt)" by (simp add: tot txt_def)
  show ?thesis
    unfolding encode_rest_def enc ttl txt_def [symmetric]
    using enc_rep_store [OF dat length_drop_whole, of inp ctx] u
    by (auto simp: Let_def word_less_nat_alt)
qed

lemma encode_update:
  assumes rep: "enc_rep ctx p" and len: "length inp < 2 ^ 60"
  shows "\<exists>ctx' n. EVP_EncodeUpdate inp ctx = ((b64_lines (take (whole (p @ inp)) (p @ inp)), n), ctx') \<and>
    enc_rep ctx' (drop (whole (p @ inp)) (p @ inp)) \<and>
    n = (if length (b64_lines (take (whole (p @ inp)) (p @ inp))) \<le> unat INT_MAX
         then length (b64_lines (take (whole (p @ inp)) (p @ inp))) else 0)"
proof -
  have p: "data_used ctx = length p" "length p < 48" "take (length p) (data ctx) = p" "length (data ctx) = 48"
    using rep by (simp_all add: enc_rep_def)
  consider (none) "inp = []" | (short) "inp \<noteq> []" "length (p @ inp) < 48" | (long) "inp \<noteq> []" "48 \<le> length (p @ inp)" by linarith
  then show ?thesis
  proof cases
    case none
    then show ?thesis using p rep by (simp add: EVP_EncodeUpdate_def whole_short)
  next
    case short
    have "copy_data (length p) inp (data ctx) = p @ inp @ drop (length p + length inp) (data ctx)"
      using p by (simp add: copy_data_def)
    then show ?thesis using p short by (auto simp: EVP_EncodeUpdate_def whole_short enc_rep_def)
  next
    case long
    show ?thesis
    proof (cases "p = []")
      case True
      then show ?thesis
        using long p encode_rest_eq [of ctx 0 "[]" inp] len by (auto simp: EVP_EncodeUpdate_def split: if_splits)
    next
      case False
      define dat where "dat = p @ take (48 - length p) inp"
      define r where "r = drop (48 - length p) inp"
      have dat: "length dat = 48" using long p by (simp add: dat_def)
      have split: "p @ inp = dat @ r" by (simp add: dat_def r_def)
      have copy: "copy_data (length p) (take (48 - length p) inp) (data ctx) = dat"
        using p long by (simp add: copy_data_def dat_def)
      have b64: "length (b64_text dat) = 64" by (simp add: length_b64_text dat)
      have "EVP_EncodeUpdate inp ctx = encode_rest r (b64_text dat @ [0x0a]) 65 (ctx\<lparr>data := dat, data_used := 0\<rparr>)"
      proof -
        have "\<not> length inp < 48 - length p" using long by simp
        then show ?thesis using False long p by (simp add: EVP_EncodeUpdate_def Let_def copy EVP_EncodeBlock_eq b64 r_def)
      qed
      moreover have "length r < 2 ^ 60" using len by (simp add: r_def)
      ultimately show ?thesis
        using encode_rest_eq [of "ctx\<lparr>data := dat, data_used := 0\<rparr>" 65 "b64_text dat @ [0x0a]" r] dat b64
        unfolding split take_whole_line [OF dat] whole_line [OF dat]
        by (cases "65 + length (b64_lines (take (whole r) r)) \<le> unat INT_MAX") (simp_all add: b64_lines_48 [OF dat])
    qed
  qed
qed


text \<open>A client: any number of updates, then the final call. The result is the text it has written.\<close>

fun encode_stream :: "byte list list \<Rightarrow> EVP_ENCODE_CTX \<Rightarrow> byte list" where
  "encode_stream [] ctx = (let ((out, _), _) = EVP_EncodeFinal ctx in out)"
| "encode_stream (c # cs) ctx = (let ((out, _), ctx) = EVP_EncodeUpdate c ctx in out @ encode_stream cs ctx)"

lemma encode_stream_rep:
  "enc_rep ctx p \<Longrightarrow> list_all (\<lambda>c. length c < 2 ^ 60) cs \<Longrightarrow> encode_stream cs ctx = b64_lines (p @ concat cs)"
proof (induction cs arbitrary: ctx p)
  case Nil
  then have p: "data_used ctx = length p" "length p < 48" "take (length p) (data ctx) = p" by (simp_all add: enc_rep_def)
  have "length (b64_text p) \<le> 64" using p(2) by (simp add: length_b64_text)
  then have "unat (of_nat (length (b64_text p)) :: u64) = length (b64_text p)" by (intro unat_of_nat_small) simp
  then show ?case
    using p by (auto simp: EVP_EncodeFinal_def EVP_EncodeBlock_eq b64_lines.simps [of p] Let_def)
next
  case (Cons c cs)
  define bs where "bs = p @ c"
  obtain ctx' n where step: "EVP_EncodeUpdate c ctx = ((b64_lines (take (whole bs) bs), n), ctx')" and rep: "enc_rep ctx' (drop (whole bs) bs)"
    using encode_update [OF Cons.prems(1), of c] Cons.prems(2) by (auto simp: bs_def)
  have "length (take (whole bs) bs) = whole bs" by (simp add: whole_def)
  then have "48 dvd length (take (whole bs) bs)" by (simp only: whole_def dvd_triv_right)
  then have "b64_lines (take (whole bs) bs @ drop (whole bs) bs @ concat cs) = b64_lines (take (whole bs) bs) @ b64_lines (drop (whole bs) bs @ concat cs)"
    by (rule b64_lines_whole)
  moreover have "encode_stream cs ctx' = b64_lines (drop (whole bs) bs @ concat cs)"
    using Cons.IH [OF rep] Cons.prems(2) by simp
  moreover have "take (whole bs) bs @ drop (whole bs) bs @ concat cs = p @ concat (c # cs)"
    by (simp only: append_assoc [symmetric] append_take_drop_id) (simp add: bs_def)
  ultimately show ?case by (simp add: step del: append_take_drop_id)
qed

section \<open>Decoding streams\<close>

abbreviation space :: "byte \<Rightarrow> bool" where
  "space c \<equiv> c \<in> {0x20, 0x09, 0x0d, 0x0a}"

lemma decode_loop_spaces:
  "EVP_DecodeUpdate_loop ctx out inp = EVP_DecodeUpdate_loop ctx out (filter (\<lambda>c. \<not> space c) inp)"
  by (induction inp arbitrary: ctx out) (auto simp: Let_def split: option.splits)

lemma sextet_not_space: "\<not> space (sextet n i)"
proof -
  have "b64_value c = None" if "space c" for c using that by (auto simp: b64_value_def)
  then show ?thesis using b64_value_sextet [of n i] by (metis option.distinct(1))
qed

lemmas sextet_not_space_simps [simp] = sextet_not_space [simplified]

definition dec_ready :: "EVP_ENCODE_CTX \<Rightarrow> bool" where
  "dec_ready ctx \<longleftrightarrow> data_used ctx = 0 \<and> length (data ctx) = 48 \<and> \<not> eof_seen ctx \<and> \<not> error_encountered ctx"

lemma length_4: "length xs = 4 \<Longrightarrow> \<exists>a b c d. xs = [a, b, c, d]"
  by (auto simp: length_Suc_conv eval_nat_numeral)

lemma decode_update_quad:
  assumes ready: "dec_ready ctx" and ns: "\<not> space c0" "\<not> space c1" "\<not> space c2" "\<not> space c3"
    and quad: "quad_spec c0 c1 c2 c3 = Some bytes"
  shows "\<exists>ctx'. EVP_DecodeUpdate_loop ctx out (c0 # c1 # c2 # c3 # inp) = EVP_DecodeUpdate_loop ctx' (out @ bytes) inp \<and>
    data_used ctx' = 0 \<and> length (data ctx') = 48 \<and> eof_seen ctx' = (length bytes < 3) \<and> \<not> error_encountered ctx'"
proof -
  define ds where "ds = drop 4 (data ctx)"
  have "data ctx = take 4 (data ctx) @ ds" by (simp add: ds_def)
  moreover have "length (take 4 (data ctx)) = 4" using ready by (simp add: dec_ready_def)
  then obtain d0 d1 d2 d3 where "take 4 (data ctx) = [d0, d1, d2, d3]" using length_4 by blast
  ultimately have data: "data ctx = d0 # d1 # d2 # d3 # ds" by simp
  have ds: "length ds = 44" using ready by (simp add: dec_ready_def ds_def)
  have "base64_decode_quad (c0 # c1 # c2 # c3 # ds) = base64_decode_quad [c0, c1, c2, c3]"
    by (simp add: base64_decode_quad_def)
  then have "base64_decode_quad (c0 # c1 # c2 # c3 # ds) = Some bytes" using quad by (simp only: base64_decode_quad_eq)
  then show ?thesis
    using ready ns ds unfolding dec_ready_def
    by (intro exI [of _ "if length bytes < 3
        then ctx\<lparr>data := c0 # c1 # c2 # c3 # ds, data_used := 0, eof_seen := True\<rparr>
        else ctx\<lparr>data := c0 # c1 # c2 # c3 # ds, data_used := 0\<rparr>"])
      (auto simp: data Let_def eval_nat_numeral)
qed

lemma decode_update_text:
  "dec_ready ctx \<Longrightarrow> \<exists>ctx'. EVP_DecodeUpdate_loop ctx out (b64_text bs) = (out @ bs, True, ctx') \<and>
     data_used ctx' = 0 \<and> eof_seen ctx' = (length bs mod 3 \<noteq> 0) \<and> \<not> error_encountered ctx'"
proof (induction bs arbitrary: ctx out rule: b64_text.induct)
  case 1
  then show ?case by (auto simp: dec_ready_def)
next
  case (2 x)
  then show ?case
    using decode_update_quad [OF 2 _ _ _ _ quad_spec_text(3) [of x], of out "[]"]
    by (auto simp: Let_def simp del: EVP_DecodeUpdate_loop.simps(2))
next
  case (3 x y)
  then show ?case
    using decode_update_quad [OF 3 _ _ _ _ quad_spec_text(2) [of x y], of out "[]"]
    by (auto simp: Let_def simp del: EVP_DecodeUpdate_loop.simps(2))
next
  case (4 x y z bs)
  obtain ctx' where step: "EVP_DecodeUpdate_loop ctx out (b64_text (x # y # z # bs)) = EVP_DecodeUpdate_loop ctx' (out @ [x, y, z]) (b64_text bs)"
    "dec_ready ctx'"
    using decode_update_quad [OF 4(2) _ _ _ _ quad_spec_text(1) [of x y z], of out "b64_text bs"]
    by (auto simp: Let_def dec_ready_def simp del: EVP_DecodeUpdate_loop.simps(2))
  have "length (x # y # z # bs) mod 3 = length bs mod 3" by simp
  then show ?case using 4(1) [OF refl step(2), of "out @ [x, y, z]"] step(1) by (simp del: b64_text.simps)
qed


text \<open>The newlines of a stream are skipped, and its lines hold whole groups of three bytes.\<close>

lemma b64_text_append: "3 dvd length xs \<Longrightarrow> b64_text (xs @ ys) = b64_text xs @ b64_text ys"
proof (induction xs rule: b64_text.induct)
  case (4 x y z bs)
  then have "3 dvd length bs" using dvd_diff_nat [of 3 "length (x # y # z # bs)" 3] by simp
  then show ?case using 4 by (simp add: Let_def)
qed (auto dest: dvd_imp_le)

lemma filter_text: "filter (\<lambda>c. \<not> space c) (b64_text bs) = b64_text bs"
  using sextet_not_space by (induction bs rule: b64_text.induct) (auto simp: Let_def)

lemma filter_lines: "filter (\<lambda>c. \<not> space c) (b64_lines bs) = b64_text bs"
proof (induction bs rule: b64_lines.induct)
  case (1 bs)
  show ?case
  proof (cases "bs = []")
    case False
    have "b64_text (take 48 bs @ drop 48 bs) = b64_text (take 48 bs) @ b64_text (drop 48 bs)"
    proof (cases "length bs < 48")
      case False
      then show ?thesis by (intro b64_text_append) simp
    qed simp
    then show ?thesis using 1 [OF False] False filter_text [of "take 48 bs"] by (simp add: b64_lines.simps [of bs])
  qed simp
qed


section \<open>Properties\<close>

text \<open>The branch-free conversions agree with the alphabet: \<open>conv_bin2ascii\<close> is the lookup of the low
  six bits, \<open>base64_ascii_to_bin\<close> its inverse, and exactly the characters outside the alphabet,
  padding excepted, are reported as invalid.\<close>

theorem base64_chars_exact:
  "conv_bin2ascii a = b64_alphabet ! (unat a mod 64) \<and>
   (\<forall>i < 64. base64_ascii_to_bin (b64_alphabet ! i) = of_nat i) \<and>
   (base64_ascii_to_bin a = 0xff \<longleftrightarrow> a \<notin> set b64_alphabet \<and> a \<noteq> 0x3d)"
proof (intro conjI allI impI)
  show "conv_bin2ascii a = b64_alphabet ! (unat a mod 64)" by (rule conv_bin2ascii_eq)
  show "base64_ascii_to_bin (b64_alphabet ! i) = of_nat i" if "i < 64" for i
  proof -
    have "b64_value (b64_alphabet ! i) = Some i" using that by (simp add: b64_value_iff)
    then show ?thesis by (simp add: base64_ascii_to_bin_eq)
  qed
  have "b64_value a = None \<longleftrightarrow> a \<notin> set b64_alphabet"
    using b64_value_iff [of a] unfolding in_set_conv_nth length_b64_alphabet by (metis not_None_eq)
  then show "base64_ascii_to_bin a = 0xff \<longleftrightarrow> a \<notin> set b64_alphabet \<and> a \<noteq> 0x3d"
    using base64_ascii_to_bin_sym [of a] by (auto simp: sym_value_def)
qed

lemma base64_chars_exact_witness: "base64_ascii_to_bin (b64_alphabet ! 27) = 27"
  using base64_chars_exact [of 0] by simp

text \<open>Decoding what \<open>EVP_EncodeBlock\<close> wrote gives the input back, for every buffer that has room for
  whole groups of three bytes.\<close>

theorem base64_block_roundtrip:
  assumes "length bs < 2 ^ 60" and "(length bs + 2) div 3 * 3 \<le> unat max_out" and "EVP_EncodeBlock bs = (dst, ret)"
  shows "EVP_DecodeBase64 max_out (take (unat ret) dst) = Some bs"
proof -
  have len: "length (b64_text bs) < 2 ^ 64" using assms(1) by (simp add: length_b64_text)
  then have "unat ret = length (b64_text bs)"
    using assms(3) by (auto simp: EVP_EncodeBlock_eq intro!: unat_of_nat_small)
  then have "take (unat ret) dst = b64_text bs" using assms(3) by (auto simp: EVP_EncodeBlock_eq)
  moreover have "length (b64_text bs) mod 4 = 0" by (simp add: length_b64_text)
  moreover have "unat (of_nat (length (b64_text bs) div 4 * 3) :: u64) = (length bs + 2) div 3 * 3"
    using assms(1) by (subst unat_of_nat_small) (simp_all add: length_b64_text)
  ultimately show ?thesis
    using assms(2) len by (simp add: EVP_DecodeBase64_def EVP_DecodedLength_eq decode_loop_text word_less_nat_alt del: of_nat_mult)
qed

lemma base64_block_roundtrip_witness: "EVP_DecodeBase64 6 [0x51, 0x55, 0x4a, 0x44, 0x52, 0x41, 0x3d, 0x3d] = Some [0x41, 0x42, 0x43, 0x44]"
proof -
  have "EVP_EncodeBlock [0x41, 0x42, 0x43, 0x44] = ([0x51, 0x55, 0x4a, 0x44, 0x52, 0x41, 0x3d, 0x3d, 0], 8)"
    by (simp add: EVP_EncodeBlock_eq Let_def sextet_def b64_alphabet_nth)
  from base64_block_roundtrip [OF _ _ this, of 6] show ?thesis by simp
qed

text \<open>\<open>EVP_EncodedLength\<close> is the number of bytes \<open>EVP_EncodeBlock\<close> writes, its terminator included,
  and fails exactly when that does not fit a \<open>size_t\<close>.\<close>

theorem encoded_length_exact:
  assumes "length bs < 2 ^ 64"
  shows "EVP_EncodedLength (of_nat (length bs)) =
    (if length (fst (EVP_EncodeBlock bs)) < 2 ^ 64 then Some (of_nat (length (fst (EVP_EncodeBlock bs)))) else None)"
proof -
  define n where "n = length bs"
  define q where "q = (n + 2) div 3"
  define w :: u64 where "w = of_nat n"
  have w: "unat w = n" unfolding w_def using assms by (intro unat_of_nat_small) (simp add: n_def)
  have written: "length (fst (EVP_EncodeBlock bs)) = 4 * q + 1" by (simp add: EVP_EncodeBlock_eq length_b64_text q_def n_def)
  have "EVP_EncodedLength w = (if 4 * q + 1 < 2 ^ 64 then Some (of_nat (4 * q + 1)) else None)"
  proof (cases "n + 2 < 2 ^ 64")
    case False
    then have "w + 2 < w" using assms w by (auto simp: word_less_nat_alt unat_word_ariths n_def mod_if)
    moreover have "\<not> 4 * q + 1 < 2 ^ 64" 
    proof -
      have "2 ^ 64 div 3 \<le> q" unfolding q_def using False by (intro div_le_mono) simp
      then show ?thesis by simp
    qed
    ultimately show ?thesis by (simp add: EVP_EncodedLength_def)
  next
    case True
    then have w2: "unat (w + 2) = n + 2" using w by (simp add: unat_word_ariths)
    then have no: "\<not> w + 2 < w" by (simp add: word_less_nat_alt w)
    define v where "v = (w + 2) div 3"
    have v: "unat v = q" by (simp add: v_def unat_div w2 q_def)
    have fits: "drop_bit 2 (push_bit 2 v) = v \<longleftrightarrow> q < 2 ^ 62"
    proof
      assume "drop_bit 2 (push_bit 2 v) = v"
      then have "q = unat (push_bit 2 v) div 4" using v unat_drop_bit [of 2 "push_bit 2 v"] by simp
      moreover have "unat (push_bit 2 v) < 2 ^ 64" using word_unat_lt [of "push_bit 2 v"] by simp
      ultimately show "q < 2 ^ 62" by (simp add: less_mult_imp_div_less)
    next
      assume "q < 2 ^ 62"
      then have "unat (push_bit 2 v) = q * 4" using v by (subst unat_push_bit_lt) simp_all
      then show "drop_bit 2 (push_bit 2 v) = v" by (simp add: word_unat_eq_iff unat_drop_bit v)
    qed
    show ?thesis
    proof (cases "q < 2 ^ 62")
      case True
      then have p: "unat (push_bit 2 v) = q * 4" using v by (subst unat_push_bit_lt) simp_all
      have "unat (push_bit 2 v + 1) = 4 * q + 1" using True p by (simp add: unat_word_ariths)
      then have "push_bit 2 v + 1 = of_nat (4 * q + 1)" by (rule unat_eq_of_nat)
      moreover have "\<not> push_bit 2 v + 1 < push_bit 2 v"
        using p \<open>unat (push_bit 2 v + 1) = 4 * q + 1\<close> by (simp add: word_less_nat_alt)
      ultimately show ?thesis using True fits no by (simp add: EVP_EncodedLength_def Let_def v_def [symmetric])
    next
      case False
      then show ?thesis using fits no by (simp add: EVP_EncodedLength_def Let_def v_def [symmetric])
    qed
  qed
  then show ?thesis by (simp only: written w_def n_def)
qed

lemma encoded_length_exact_witness: "EVP_EncodedLength 4 = Some 9"
  using encoded_length_exact [of "[0, 0, 0, 0]"] by (simp add: EVP_EncodeBlock_eq length_b64_text)

text \<open>The streaming encoder does not depend on how its input is cut: the text written over any
  number of updates and the final call is the concatenation of the lines of the whole input.\<close>

theorem base64_stream_exact:
  assumes "list_all (\<lambda>c. length c < 2 ^ 60) cs"
  shows "encode_stream cs EVP_EncodeInit = b64_lines (concat cs)"
  using encode_stream_rep [OF enc_rep_init assms] by simp

lemma base64_stream_exact_witness: "encode_stream [[0x41], [], [0x42, 0x43]] EVP_EncodeInit = [0x51, 0x55, 0x4a, 0x44, 0x0a]"
  using base64_stream_exact [of "[[0x41], [], [0x42, 0x43]]"]
  by (simp add: b64_lines.simps [of "[0x41, 0x42, 0x43]"] Let_def sextet_def b64_alphabet_nth)

text \<open>C31. Streams round-trip: decoding the text of any sequence of updates returns the concatenated input,
  reports whether the last line was short, and the final call accepts.\<close>

theorem base64_stream_roundtrip:
  assumes "list_all (\<lambda>c. length c < 2 ^ 60) cs" and "length (concat cs) \<le> unat INT_MAX"
  shows "\<exists>ctx. EVP_DecodeUpdate (encode_stream cs EVP_EncodeInit) EVP_DecodeInit =
      ((if length (concat cs) mod 3 = 0 then 1 else 0, concat cs, length (concat cs)), ctx) \<and> EVP_DecodeFinal ctx = (1, 0)"
proof -
  have ready: "dec_ready EVP_DecodeInit" by (simp add: dec_ready_def EVP_DecodeInit_def)
  obtain ctx where "EVP_DecodeUpdate_loop EVP_DecodeInit [] (b64_text (concat cs)) = ([] @ concat cs, True, ctx)"
    "data_used ctx = 0" "eof_seen ctx = (length (concat cs) mod 3 \<noteq> 0)" "\<not> error_encountered ctx"
    using decode_update_text [OF ready] by blast
  moreover have "EVP_DecodeUpdate_loop EVP_DecodeInit [] (encode_stream cs EVP_EncodeInit) = EVP_DecodeUpdate_loop EVP_DecodeInit [] (b64_text (concat cs))"
    using encode_stream_rep [OF enc_rep_init assms(1)] decode_loop_spaces filter_lines by (metis append_Nil)
  ultimately show ?thesis
    using assms(2) ready by (auto simp: EVP_DecodeUpdate_def EVP_DecodeFinal_def dec_ready_def)
qed

lemma base64_stream_roundtrip_witness:
  "\<exists>ctx. EVP_DecodeUpdate (encode_stream [[0x41], [], [0x42, 0x43, 0x44]] EVP_EncodeInit) EVP_DecodeInit =
     ((0, [0x41, 0x42, 0x43, 0x44], 4), ctx) \<and> EVP_DecodeFinal ctx = (1, 0)"
proof -
  define cs :: "byte list list" where "cs = [[0x41], [], [0x42, 0x43, 0x44]]"
  have "list_all (\<lambda>c. length c < 2 ^ 60) cs" "concat cs = [0x41, 0x42, 0x43, 0x44]" by (simp_all add: cs_def)
  moreover have "length [0x41, 0x42, 0x43, 0x44 :: byte] = 4" by simp
  moreover have "unat INT_MAX = 0x7fffffff" by (simp add: INT_MAX_def)
  ultimately show ?thesis
    using base64_stream_roundtrip [of cs] unfolding cs_def [symmetric] by (simp only:) simp
qed

end
