(* ===== verification/Stack.thy ===== *)
theory Stack
  imports Bytestring_SetOf
begin

text \<open>
  Stacks of pointers (\<open>crypto/stack/stack.c\<close>). A pointer is \<open>'a option\<close> with \<open>None\<close> for \<open>NULL\<close>,
  a stack pointer likewise. A comparison function is an opaque \<open>'f\<close> that \<open>call_cmp_func\<close> runs on
  two elements. The array \<open>data\<close> is the whole allocation; slots that were allocated and not yet
  written hold \<open>None\<close> in the model and are never read. \<open>alloc n\<close> says whether an allocation of
  \<open>n\<close> bytes succeeds; sizes are \<open>size_t\<close>.
\<close>

section \<open>The code\<close>

record ('a, 'f) STACK =
  sk_num_elems :: nat
  sk_data :: "'a option list"
  sk_sorted :: bool
  sk_num_alloc :: nat
  sk_comp :: "'f option"

definition kMinSize :: nat where "kMinSize = 4"

text \<open>\<open>sizeof(_STACK)\<close> and \<open>sizeof(void *)\<close>\<close>

definition sizeof_STACK :: nat where "sizeof_STACK = 40"
definition sizeof_ptr :: nat where "sizeof_ptr = 8"

definition sk_new :: "(nat \<Rightarrow> bool) \<Rightarrow> 'f option \<Rightarrow> ('a, 'f) STACK option" where
  "sk_new alloc cmpf =
     (if \<not> alloc sizeof_STACK then None
      else if \<not> alloc (sizeof_ptr * kMinSize) then None
      else Some \<lparr>sk_num_elems = 0, sk_data = replicate kMinSize None, sk_sorted = False, sk_num_alloc = kMinSize, sk_comp = cmpf\<rparr>)"

definition sk_new_null :: "(nat \<Rightarrow> bool) \<Rightarrow> ('a, 'f) STACK option" where
  "sk_new_null alloc = sk_new alloc None"

definition sk_num :: "('a, 'f) STACK option \<Rightarrow> nat" where
  "sk_num sk = (case sk of None \<Rightarrow> 0 | Some sk \<Rightarrow> sk_num_elems sk)"

definition sk_zero :: "('a, 'f) STACK option \<Rightarrow> ('a, 'f) STACK option" where
  "sk_zero sk = (case sk of None \<Rightarrow> None | Some s \<Rightarrow>
     if sk_num_elems s = 0 then Some s
     else Some (s\<lparr>sk_data := replicate (sk_num_elems s) None @ drop (sk_num_elems s) (sk_data s),
                  sk_num_elems := 0, sk_sorted := False\<rparr>))"

definition sk_value :: "('a, 'f) STACK option \<Rightarrow> nat \<Rightarrow> 'a option" where
  "sk_value sk i = (case sk of None \<Rightarrow> None | Some s \<Rightarrow> if i \<ge> sk_num_elems s then None else sk_data s ! i)"

definition sk_set :: "('a, 'f) STACK option \<Rightarrow> nat \<Rightarrow> 'a option \<Rightarrow> 'a option \<times> ('a, 'f) STACK option" where
  "sk_set sk i p = (case sk of None \<Rightarrow> (None, None) | Some s \<Rightarrow>
     if i \<ge> sk_num_elems s then (None, Some s) else (p, Some (s\<lparr>sk_data := (sk_data s)[i := p]\<rparr>)))"

text \<open>The pointers \<open>sk_pop_free_ex\<close> hands to the free function, in order.\<close>

definition sk_pop_free_ex :: "('a, 'f) STACK option \<Rightarrow> 'a list" where
  "sk_pop_free_ex sk = (case sk of None \<Rightarrow> [] | Some s \<Rightarrow> List.map_filter id (take (sk_num_elems s) (sk_data s)))"

definition sk_grow :: "(nat \<Rightarrow> bool) \<Rightarrow> ('a, 'f) STACK \<Rightarrow> ('a, 'f) STACK option" where
  "sk_grow alloc sk =
     (if sk_num_alloc sk \<le> sk_num_elems sk + 1 then
        let new_alloc = sk_num_alloc sk * 2 mod 2 ^ 64;
            alloc_size = new_alloc * sizeof_ptr mod 2 ^ 64;
            overflow = (new_alloc < sk_num_alloc sk \<or> alloc_size div sizeof_ptr \<noteq> new_alloc);
            new_alloc = (if overflow then (sk_num_alloc sk + 1) mod 2 ^ 64 else new_alloc);
            alloc_size = (if overflow then new_alloc * sizeof_ptr mod 2 ^ 64 else alloc_size)
        in if new_alloc < sk_num_alloc sk \<or> alloc_size div sizeof_ptr \<noteq> new_alloc then None
           else if \<not> alloc alloc_size then None
           else Some (sk\<lparr>sk_data := take new_alloc (sk_data sk) @ replicate (new_alloc - length (sk_data sk)) None,
                         sk_num_alloc := new_alloc\<rparr>)
      else Some sk)"

definition sk_insert :: "(nat \<Rightarrow> bool) \<Rightarrow> ('a, 'f) STACK option \<Rightarrow> 'a option \<Rightarrow> nat \<Rightarrow> nat \<times> ('a, 'f) STACK option" where
  "sk_insert alloc sk p pos = (case sk of None \<Rightarrow> (0, None) | Some s \<Rightarrow>
     (case sk_grow alloc s of None \<Rightarrow> (0, Some s) | Some s \<Rightarrow>
      let num = sk_num_elems s;
          dat = (if pos \<ge> num then (sk_data s)[num := p]
                 else (memmove (sk_data s) (pos + 1) pos (num - pos))[pos := p])
      in (num + 1, Some (s\<lparr>sk_data := dat, sk_num_elems := num + 1, sk_sorted := False\<rparr>))))"

definition sk_delete :: "('a, 'f) STACK option \<Rightarrow> nat \<Rightarrow> 'a option \<times> ('a, 'f) STACK option" where
  "sk_delete sk pos = (case sk of None \<Rightarrow> (None, None) | Some s \<Rightarrow>
     let num = sk_num_elems s in
     if pos \<ge> num then (None, Some s)
     else
       let ret = sk_data s ! pos;
           dat = (if pos \<noteq> num - 1 then memmove (sk_data s) pos (pos + 1) (num - pos - 1) else sk_data s)
       in (ret, Some (s\<lparr>sk_data := dat, sk_num_elems := num - 1\<rparr>)))"

text \<open>The loops over \<open>data\<close> that stop at the first element that satisfies a condition, from index \<open>i\<close> on.\<close>

primrec find_index :: "('b \<Rightarrow> bool) \<Rightarrow> nat \<Rightarrow> 'b list \<Rightarrow> nat option" where
  "find_index P i [] = None"
| "find_index P i (x # xs) = (if P x then Some i else find_index P (Suc i) xs)"

definition sk_delete_ptr :: "('a, 'f) STACK option \<Rightarrow> 'a option \<Rightarrow> 'a option \<times> ('a, 'f) STACK option" where
  "sk_delete_ptr sk p = (case sk of None \<Rightarrow> (None, None) | Some s \<Rightarrow>
     (case find_index (\<lambda>x. x = p) 0 (take (sk_num_elems s) (sk_data s)) of
        None \<Rightarrow> (None, sk) | Some i \<Rightarrow> sk_delete sk i))"

definition sk_is_sorted :: "('a, 'f) STACK option \<Rightarrow> bool" where
  "sk_is_sorted sk = (case sk of None \<Rightarrow> True | Some s \<Rightarrow> sk_sorted s)"

text \<open>The binary search; \<open>cmp\<close> is \<open>call_cmp_func(sk->comp, &p, _)\<close>.\<close>

function sk_find_loop :: "('a option \<Rightarrow> int) \<Rightarrow> 'a option list \<Rightarrow> nat \<Rightarrow> nat \<Rightarrow> nat option" where
  "sk_find_loop cmp dat lo hi =
     (if lo < hi then
        let mid = lo + (hi - lo - 1) div 2;
            r = cmp (dat ! mid)
        in if r > 0 then sk_find_loop cmp dat (mid + 1) hi
           else if r < 0 then sk_find_loop cmp dat lo mid
           else if hi - lo = 1 then Some mid
           else sk_find_loop cmp dat lo (mid + 1)
      else None)"
  by pat_completeness auto
termination
  by (relation "measure (\<lambda>(_, _, lo, hi). hi - lo)") auto

declare sk_find_loop.simps [simp del]

definition sk_find :: "('f \<Rightarrow> 'a option \<Rightarrow> 'a option \<Rightarrow> int) \<Rightarrow> ('a, 'f) STACK option \<Rightarrow> 'a option \<Rightarrow> nat option" where
  "sk_find call_cmp_func sk p = (case sk of None \<Rightarrow> None | Some s \<Rightarrow>
     (case sk_comp s of
        None \<Rightarrow> find_index (\<lambda>x. x = p) 0 (take (sk_num_elems s) (sk_data s))
      | Some cmpf \<Rightarrow>
          if p = None then None
          else if \<not> sk_is_sorted sk then find_index (\<lambda>elem. call_cmp_func cmpf p elem = 0) 0 (take (sk_num_elems s) (sk_data s))
          else sk_find_loop (call_cmp_func cmpf p) (sk_data s) 0 (sk_num_elems s)))"

definition sk_shift :: "('a, 'f) STACK option \<Rightarrow> 'a option \<times> ('a, 'f) STACK option" where
  "sk_shift sk = (case sk of None \<Rightarrow> (None, None) | Some s \<Rightarrow>
     if sk_num_elems s = 0 then (None, sk) else sk_delete sk 0)"

definition sk_push :: "(nat \<Rightarrow> bool) \<Rightarrow> ('a, 'f) STACK option \<Rightarrow> 'a option \<Rightarrow> nat \<times> ('a, 'f) STACK option" where
  "sk_push alloc sk p = sk_insert alloc sk p (sk_num sk)"

definition sk_pop :: "('a, 'f) STACK option \<Rightarrow> 'a option \<times> ('a, 'f) STACK option" where
  "sk_pop sk = (case sk of None \<Rightarrow> (None, None) | Some s \<Rightarrow>
     if sk_num_elems s = 0 then (None, sk) else sk_delete sk (sk_num_elems s - 1))"

definition sk_dup :: "(nat \<Rightarrow> bool) \<Rightarrow> ('a, 'f) STACK option \<Rightarrow> ('a, 'f) STACK option" where
  "sk_dup alloc sk = (case sk of None \<Rightarrow> None | Some s \<Rightarrow>
     if \<not> alloc sizeof_STACK then None
     else if \<not> alloc (sizeof_ptr * sk_num_alloc s mod 2 ^ 64) then None
     else Some \<lparr>sk_num_elems = sk_num_elems s,
                sk_data = take (sk_num_elems s) (sk_data s) @ replicate (sk_num_alloc s - sk_num_elems s) None,
                sk_sorted = sk_sorted s, sk_num_alloc = sk_num_alloc s, sk_comp = sk_comp s\<rparr>)"

text \<open>\<open>qsort\<close> of the C library is a parameter: it leaves the order of equal elements open.\<close>

definition sk_sort :: "(('a option \<Rightarrow> 'a option \<Rightarrow> int) \<Rightarrow> 'a option list \<Rightarrow> 'a option list) \<Rightarrow>
    ('f \<Rightarrow> 'a option \<Rightarrow> 'a option \<Rightarrow> int) \<Rightarrow> ('a, 'f) STACK option \<Rightarrow> ('a, 'f) STACK option" where
  "sk_sort sort_fn call_cmp_func sk = (case sk of None \<Rightarrow> None | Some s \<Rightarrow>
     (case sk_comp s of None \<Rightarrow> sk | Some cmpf \<Rightarrow>
      if sk_sorted s then sk
      else let n = sk_num_elems s;
               dat = (if n \<ge> 2 then sort_fn (call_cmp_func cmpf) (take n (sk_data s)) @ drop n (sk_data s) else sk_data s)
           in Some (s\<lparr>sk_data := dat, sk_sorted := True\<rparr>)))"

definition sk_set_cmp_func :: "('a, 'f) STACK \<Rightarrow> 'f option \<Rightarrow> 'f option \<times> ('a, 'f) STACK" where
  "sk_set_cmp_func sk cmpf =
     (let old = sk_comp sk; sk = (if sk_comp sk \<noteq> cmpf then sk\<lparr>sk_sorted := False\<rparr> else sk)
      in (old, sk\<lparr>sk_comp := cmpf\<rparr>))"

text \<open>
  The loop of \<open>sk_deep_copy\<close> over the elements from the current one on; \<open>acc\<close> are the copies made
  so far. \<open>None\<close> when a copy failed, together with the pointers that were freed.
\<close>

primrec deep_copy_loop :: "('a \<Rightarrow> 'a option) \<Rightarrow> 'a option list \<Rightarrow> 'a option list \<Rightarrow> 'a option list option \<times> 'a list" where
  "deep_copy_loop copy acc [] = (Some acc, [])"
| "deep_copy_loop copy acc (x # xs) =
     (case x of None \<Rightarrow> deep_copy_loop copy (acc @ [None]) xs
      | Some a \<Rightarrow> (case copy a of None \<Rightarrow> (None, List.map_filter id acc)
                  | Some b \<Rightarrow> deep_copy_loop copy (acc @ [Some b]) xs))"

definition sk_deep_copy :: "(nat \<Rightarrow> bool) \<Rightarrow> ('a \<Rightarrow> 'a option) \<Rightarrow> ('a, 'f) STACK option \<Rightarrow> ('a, 'f) STACK option \<times> 'a list" where
  "sk_deep_copy alloc copy sk = (case sk_dup alloc sk of None \<Rightarrow> (None, []) | Some ret \<Rightarrow>
     (case deep_copy_loop copy [] (take (sk_num_elems ret) (sk_data ret)) of
        (None, freed) \<Rightarrow> (None, freed)
      | (Some copies, _) \<Rightarrow> (Some (ret\<lparr>sk_data := copies @ drop (sk_num_elems ret) (sk_data ret)\<rparr>), [])))"


section \<open>The array and its elements\<close>

definition stack_ok :: "('a, 'f) STACK \<Rightarrow> bool" where
  "stack_ok s \<longleftrightarrow> length (sk_data s) = sk_num_alloc s \<and> sk_num_elems s < sk_num_alloc s \<and> sk_num_alloc s * sizeof_ptr < 2 ^ 64"

definition elems :: "('a, 'f) STACK \<Rightarrow> 'a option list" where
  "elems s = take (sk_num_elems s) (sk_data s)"

lemma length_elems: "stack_ok s \<Longrightarrow> length (elems s) = sk_num_elems s"
  by (simp add: stack_ok_def elems_def)

lemma sk_new_ok: "sk_new alloc f = Some s \<Longrightarrow> stack_ok s \<and> elems s = [] \<and> \<not> sk_sorted s"
  by (auto simp: sk_new_def stack_ok_def elems_def kMinSize_def sizeof_ptr_def split: if_splits)

lemma sk_grow_ok:
  assumes "stack_ok s" and "sk_grow alloc s = Some s'"
  shows "stack_ok s' \<and> elems s' = elems s \<and> sk_num_elems s' = sk_num_elems s \<and> sk_sorted s' = sk_sorted s \<and> sk_comp s' = sk_comp s \<and>
    sk_num_elems s + 1 < sk_num_alloc s'"
proof (cases "sk_num_alloc s \<le> sk_num_elems s + 1")
  case False
  then show ?thesis using assms by (simp add: sk_grow_def)
next
  case True
  define a where "a = sk_num_alloc s"
  have a: "a = sk_num_elems s + 1" "a * 8 < 2 ^ 64" using assms(1) True by (simp_all add: stack_ok_def a_def sizeof_ptr_def)
  have dbl: "a * 2 mod 2 ^ 64 = a * 2" "(a + 1) mod 2 ^ 64 = a + 1" using a(2) by simp_all
  define ov where "ov \<longleftrightarrow> a * 2 < a \<or> a * 2 * 8 mod 2 ^ 64 div 8 \<noteq> a * 2"
  define n where "n = (if ov then a + 1 else a * 2)"
  have grow: "sk_grow alloc s =
    (if n < a \<or> n * 8 mod 2 ^ 64 div 8 \<noteq> n then None else if \<not> alloc (n * 8 mod 2 ^ 64) then None
     else Some (s\<lparr>sk_data := take n (sk_data s) @ replicate (n - length (sk_data s)) None, sk_num_alloc := n\<rparr>))"
    unfolding sk_grow_def a_def [symmetric] Let_def dbl sizeof_ptr_def ov_def [symmetric]
    using True unfolding a_def [symmetric] by (cases ov) (simp_all only: n_def if_True if_False)
  have "a < n" using a(1) by (simp add: n_def)
  have "\<not> (n < a \<or> n * 8 mod 2 ^ 64 div 8 \<noteq> n) \<and> s' = s\<lparr>sk_data := take n (sk_data s) @ replicate (n - length (sk_data s)) None, sk_num_alloc := n\<rparr>"
    using assms(2) unfolding grow by (simp only: split: if_splits) simp_all
  with \<open>a < n\<close> have n: "a < n" "n * 8 mod 2 ^ 64 div 8 = n"
    and s': "s' = s\<lparr>sk_data := take n (sk_data s) @ replicate (n - length (sk_data s)) None, sk_num_alloc := n\<rparr>"
    by simp_all
  have "n * 8 < 2 ^ 64"
  proof (rule ccontr)
    assume "\<not> n * 8 < 2 ^ 64"
    moreover have "n * 8 mod 2 ^ 64 div 8 < 2 ^ 61" by (simp add: less_mult_imp_div_less)
    ultimately show False using n(2) by simp
  qed
  then show ?thesis using assms(1) n(1) a unfolding s'
    by (auto simp: stack_ok_def elems_def a_def sizeof_ptr_def)
qed

lemma sk_grow_total:
  "stack_ok s \<Longrightarrow> (\<forall>n. alloc n) \<Longrightarrow> sk_num_alloc s * 16 < 2 ^ 64 \<Longrightarrow> \<exists>s'. sk_grow alloc s = Some s'"
  by (auto simp: sk_grow_def stack_ok_def sizeof_ptr_def Let_def)

lemma sk_insert_ok:
  assumes ok: "stack_ok s" and run: "sk_insert alloc (Some s) p pos = (n, s')"
  shows "n = 0 \<and> s' = Some s \<or>
    (\<exists>t. s' = Some t \<and> n = sk_num_elems t \<and> stack_ok t \<and> elems t = take pos (elems s) @ p # drop pos (elems s) \<and>
      \<not> sk_sorted t \<and> sk_comp t = sk_comp s \<and> sk_num_elems t = sk_num_elems s + 1)"
proof (cases "sk_grow alloc s")
  case None
  then show ?thesis using run by (simp add: sk_insert_def)
next
  case (Some g)
  note g = sk_grow_ok [OF ok Some]
  have len: "length (sk_data g) = sk_num_alloc g" "sk_num_elems s + 1 < sk_num_alloc g" using g by (simp_all add: stack_ok_def)
  define d where "d = sk_data g"
  define k where "k = sk_num_elems s"
  have ld: "k + 1 < length d" using len by (simp add: d_def k_def)
  have e: "elems s = take k d" using g unfolding elems_def d_def k_def by metis
  have "pos \<ge> k \<Longrightarrow> take (Suc k) (d[k := p]) = take pos (take k d) @ p # drop pos (take k d)"
    using ld by (simp add: take_Suc_conv_app_nth)
  moreover have "pos < k \<Longrightarrow> take (Suc k) ((memmove d (pos + 1) pos (k - pos))[pos := p]) = take pos (take k d) @ p # drop pos (take k d)"
  proof -
    assume pos: "pos < k"
    have "take (pos + 1) d = take pos d @ [d ! pos]" using pos ld by (simp add: take_Suc_conv_app_nth)
    then have "(memmove d (pos + 1) pos (k - pos))[pos := p] = take pos d @ p # take (k - pos) (drop pos d) @ drop (k + 1) d"
      using pos ld by (simp add: memmove_def list_update_append)
    then show ?thesis using pos ld by (simp add: drop_take Suc_diff_le)
  qed
  moreover have "length ((memmove d (pos + 1) pos (k - pos))[pos := p]) = length d" if "pos < k"
    using that ld by (simp add: memmove_def)
  ultimately show ?thesis
    using run g Some ld e
    by (auto simp: sk_insert_def Let_def stack_ok_def elems_def d_def [symmetric] k_def [symmetric] split: if_splits)
qed

lemma sk_insert_total:
  "stack_ok s \<Longrightarrow> (\<forall>n. alloc n) \<Longrightarrow> sk_num_alloc s * 16 < 2 ^ 64 \<Longrightarrow> fst (sk_insert alloc (Some s) p pos) \<noteq> 0"
  using sk_grow_total [of s alloc] by (auto simp: sk_insert_def Let_def)

lemma sk_delete_ok:
  assumes ok: "stack_ok s" and pos: "pos < sk_num_elems s"
  shows "\<exists>t. sk_delete (Some s) pos = (elems s ! pos, Some t) \<and> stack_ok t \<and> elems t = take pos (elems s) @ drop (Suc pos) (elems s) \<and>
    sk_sorted t = sk_sorted s \<and> sk_comp t = sk_comp s \<and> Suc (sk_num_elems t) = sk_num_elems s"
proof -
  define d where "d = sk_data s"
  define k where "k = sk_num_elems s"
  have ld: "k < length d" "pos < k" using ok pos by (simp_all add: stack_ok_def d_def k_def)
  have "take (k - 1) (if pos \<noteq> k - 1 then memmove d pos (pos + 1) (k - pos - 1) else d) = take pos (take k d) @ drop (Suc pos) (take k d)"
    using ld by (auto simp: memmove_def drop_take)
  moreover have "length (if pos \<noteq> k - 1 then memmove d pos (pos + 1) (k - pos - 1) else d) = length d"
    using ld by (auto simp: memmove_def)
  ultimately show ?thesis
    using ok ld by (auto simp: sk_delete_def Let_def stack_ok_def elems_def d_def [symmetric] k_def [symmetric])
qed


section \<open>Searching\<close>

lemma find_index_append:
  "find_index P i (xs @ ys) = (case find_index P i xs of Some k \<Rightarrow> Some k | None \<Rightarrow> find_index P (i + length xs) ys)"
  by (induction xs arbitrary: i) (simp_all split: option.splits)

lemma find_index_None: "find_index P i xs = None \<longleftrightarrow> (\<forall>x \<in> set xs. \<not> P x)"
  by (induction xs arbitrary: i) auto

lemma find_index_Some:
  "find_index P i xs = Some k \<Longrightarrow> i \<le> k \<and> k - i < length xs \<and> P (xs ! (k - i)) \<and> (\<forall>j < k - i. \<not> P (xs ! j))"
proof (induction xs arbitrary: i)
  case (Cons x xs)
  show ?case
  proof (cases "P x")
    case False
    then have "find_index P (Suc i) xs = Some k" using Cons.prems by simp
    from Cons.IH [OF this] obtain j where "k = Suc i + j" "j < length xs" "P (xs ! j)" "\<forall>j' < j. \<not> P (xs ! j')"
      by (auto simp: le_iff_add)
    then show ?thesis using False by (auto simp: nth_Cons' less_Suc_eq_0_disj)
  qed (use Cons.prems in auto)
qed simp

text \<open>What a comparison function has to satisfy for sorting and searching to make sense.\<close>

locale comparator =
  fixes cmp :: "'e \<Rightarrow> 'e \<Rightarrow> int"
  assumes flip: "cmp x y < 0 \<longleftrightarrow> cmp y x > 0"
    and trans: "cmp x y \<le> 0 \<Longrightarrow> cmp y z \<le> 0 \<Longrightarrow> cmp x z \<le> 0"
begin

lemma above: "cmp x y \<le> 0 \<Longrightarrow> cmp p x < 0 \<Longrightarrow> cmp p y < 0"
  by (meson flip not_less trans)

lemma below: "cmp x y \<le> 0 \<Longrightarrow> cmp p y > 0 \<Longrightarrow> cmp p x > 0"
  by (meson flip not_less trans)

end

interpretation set_of_order: comparator compare_set_of_element
  by unfold_locales (auto simp: compare_set_of_element_eq split: if_splits)

text \<open>The slice of \<open>data\<close> between two indices.\<close>

abbreviation slice :: "'b list \<Rightarrow> nat \<Rightarrow> nat \<Rightarrow> 'b list" where
  "slice dat lo hi \<equiv> take (hi - lo) (drop lo dat)"

lemma slice_split: "lo \<le> mid \<Longrightarrow> mid \<le> hi \<Longrightarrow> slice dat lo hi = slice dat lo mid @ slice dat mid hi"
proof -
  assume le: "lo \<le> mid" "mid \<le> hi"
  then have "hi - lo = (mid - lo) + (hi - mid)" by simp
  then have "slice dat lo hi = take (mid - lo) (drop lo dat) @ take (hi - mid) (drop (mid - lo) (drop lo dat))" by (simp only: take_add)
  then show ?thesis using le by simp
qed

lemma sk_find_loop_eq:
  assumes hi: "hi \<le> length dat" and lo: "lo \<le> hi"
    and up: "\<And>i j. i < j \<Longrightarrow> j < hi \<Longrightarrow> cmp (dat ! i) < 0 \<Longrightarrow> cmp (dat ! j) < 0"
    and down: "\<And>i j. i < j \<Longrightarrow> j < hi \<Longrightarrow> cmp (dat ! j) > 0 \<Longrightarrow> cmp (dat ! i) > 0"
  shows "sk_find_loop cmp dat lo hi = find_index (\<lambda>x. cmp x = 0) lo (slice dat lo hi)"
  using assms
proof (induction "hi - lo" arbitrary: lo hi rule: less_induct)
  case less
  show ?case
  proof (cases "lo < hi")
    case False
    then show ?thesis by (simp add: sk_find_loop.simps [of cmp dat lo hi])
  next
    case True
    define mid where "mid = lo + (hi - lo - 1) div 2"
    have mid: "lo \<le> mid" "mid < hi" "hi - lo \<noteq> 1 \<Longrightarrow> mid + 1 < hi" using True by (simp_all add: mid_def)
    have at: "slice dat lo hi = slice dat lo mid @ dat ! mid # slice dat (mid + 1) hi"
      using slice_split [of lo mid hi dat] slice_split [of mid "mid + 1" hi dat] mid less.prems(1)
      by (simp add: take_Suc_conv_app_nth Cons_nth_drop_Suc [symmetric])
    have mem: "\<exists>i. a \<le> i \<and> i < b \<and> x = dat ! i" if b: "b \<le> hi" and x: "x \<in> set (slice dat a b)" for x a b
    proof -
      obtain n where "n < b - a" "a + n < length dat" "x = dat ! (a + n)"
        using x less.prems(1) b by (auto simp: in_set_conv_nth)
      then show ?thesis by (intro exI [of _ "a + n"]) simp
    qed
    have step: "sk_find_loop cmp dat lo hi =
      (if cmp (dat ! mid) > 0 then sk_find_loop cmp dat (mid + 1) hi
       else if cmp (dat ! mid) < 0 then sk_find_loop cmp dat lo mid
       else if hi - lo = 1 then Some mid else sk_find_loop cmp dat lo (mid + 1))"
      using True by (subst sk_find_loop.simps) (simp add: Let_def mid_def)
    consider (gt) "cmp (dat ! mid) > 0" | (lt) "cmp (dat ! mid) < 0" | (eq) "cmp (dat ! mid) = 0" by linarith
    then show ?thesis
    proof cases
      case gt
      have "find_index (\<lambda>x. cmp x = 0) lo (slice dat lo mid) = None"
        unfolding find_index_None
      proof
        fix x
        assume "x \<in> set (slice dat lo mid)"
        then obtain i where "i < mid" "x = dat ! i" using mem [of mid x lo] mid(2) by auto
        then show "cmp x \<noteq> 0" using less.prems(4) [of i mid] mid(2) gt by simp
      qed
      moreover have "sk_find_loop cmp dat (mid + 1) hi = find_index (\<lambda>x. cmp x = 0) (mid + 1) (slice dat (mid + 1) hi)"
        using mid less.prems by (intro less.hyps) auto
      ultimately show ?thesis
        using gt mid less.prems(1) unfolding step at find_index_append by simp
    next
      case lt
      have "find_index (\<lambda>x. cmp x = 0) k (dat ! mid # slice dat (mid + 1) hi) = None" for k
        unfolding find_index_None
      proof
        fix x
        assume "x \<in> set (dat ! mid # slice dat (mid + 1) hi)"
        then have "x = dat ! mid \<or> (\<exists>i. mid < i \<and> i < hi \<and> x = dat ! i)" using mem [of hi x "mid + 1"] by (auto simp: Suc_le_eq)
        then show "cmp x \<noteq> 0" using less.prems(3) [of mid] lt by force
      qed
      moreover have "sk_find_loop cmp dat lo mid = find_index (\<lambda>x. cmp x = 0) lo (slice dat lo mid)"
        using mid less.prems by (intro less.hyps) auto
      ultimately show ?thesis
        using lt unfolding step at find_index_append by (simp split: option.splits)
    next
      case eq
      have half: "slice dat lo (mid + 1) = slice dat lo mid @ [dat ! mid]"
        using slice_split [of lo mid "mid + 1" dat] mid less.prems(1) by (simp add: take_Suc_conv_app_nth Cons_nth_drop_Suc [symmetric])
      show ?thesis
      proof (cases "hi - lo = 1")
        case True
        then have "mid = lo" by (simp add: mid_def)
        then show ?thesis using eq True unfolding step at by simp
      next
        case False
        have "sk_find_loop cmp dat lo (mid + 1) = find_index (\<lambda>x. cmp x = 0) lo (slice dat lo (mid + 1))"
          using mid(1) mid(3) [OF False] less.prems by (intro less.hyps) auto
        then show ?thesis
          using eq False unfolding step at half find_index_append by (simp split: option.splits)
      qed
    qed
  qed
qed


lemma sorted_search:
  assumes "comparator cmp" and sorted: "sorted_wrt (\<lambda>x y. cmp x y \<le> 0) (take n dat)" and n: "n \<le> length dat"
  shows "sk_find_loop (cmp p) dat 0 n = find_index (\<lambda>x. cmp p x = 0) 0 (take n dat)"
proof -
  have le: "cmp (dat ! i) (dat ! j) \<le> 0" if "i < j" "j < n" for i j
    using sorted that n by (simp add: sorted_wrt_iff_nth_less)
  have "sk_find_loop (cmp p) dat 0 n = find_index (\<lambda>x. cmp p x = 0) 0 (slice dat 0 n)"
    using n comparator.above [OF assms(1) le] comparator.below [OF assms(1) le] by (intro sk_find_loop_eq) auto
  then show ?thesis by simp
qed

section \<open>Clients\<close>

text \<open>The calls that change a stack, and the stack after one.\<close>

datatype ('a, 'f) sk_call =
  Push "'a option" | Insert "'a option" nat | Delete nat | Delete_ptr "'a option" | Pop | Shift | Zero | Sort
  | Set nat "'a option" | Set_cmp "'f option"

fun sk_do :: "(nat \<Rightarrow> bool) \<Rightarrow> (('a option \<Rightarrow> 'a option \<Rightarrow> int) \<Rightarrow> 'a option list \<Rightarrow> 'a option list) \<Rightarrow>
    ('f \<Rightarrow> 'a option \<Rightarrow> 'a option \<Rightarrow> int) \<Rightarrow> ('a, 'f) sk_call \<Rightarrow> ('a, 'f) STACK \<Rightarrow> ('a, 'f) STACK option" where
  "sk_do alloc sort_fn ccf (Push p) s = snd (sk_push alloc (Some s) p)"
| "sk_do alloc sort_fn ccf (Insert p i) s = snd (sk_insert alloc (Some s) p i)"
| "sk_do alloc sort_fn ccf (Delete i) s = snd (sk_delete (Some s) i)"
| "sk_do alloc sort_fn ccf (Delete_ptr p) s = snd (sk_delete_ptr (Some s) p)"
| "sk_do alloc sort_fn ccf Pop s = snd (sk_pop (Some s))"
| "sk_do alloc sort_fn ccf Shift s = snd (sk_shift (Some s))"
| "sk_do alloc sort_fn ccf Zero s = sk_zero (Some s)"
| "sk_do alloc sort_fn ccf Sort s = sk_sort sort_fn ccf (Some s)"
| "sk_do alloc sort_fn ccf (Set i p) s = snd (sk_set (Some s) i p)"
| "sk_do alloc sort_fn ccf (Set_cmp f) s = Some (snd (sk_set_cmp_func s f))"

text \<open>The same on the list of elements, the sorted flag and the comparison function.\<close>

type_synonym ('a, 'f) stack_abs = "'a option list \<times> bool \<times> 'f option"

definition stack_abs :: "('a, 'f) STACK \<Rightarrow> ('a, 'f) stack_abs" where
  "stack_abs s = (elems s, sk_sorted s, sk_comp s)"

fun abs_do :: "(('a option \<Rightarrow> 'a option \<Rightarrow> int) \<Rightarrow> 'a option list \<Rightarrow> 'a option list) \<Rightarrow>
    ('f \<Rightarrow> 'a option \<Rightarrow> 'a option \<Rightarrow> int) \<Rightarrow> ('a, 'f) sk_call \<Rightarrow> ('a, 'f) stack_abs \<Rightarrow> ('a, 'f) stack_abs" where
  "abs_do sort_fn ccf (Push p) (xs, b, f) = (xs @ [p], False, f)"
| "abs_do sort_fn ccf (Insert p i) (xs, b, f) = (take i xs @ p # drop i xs, False, f)"
| "abs_do sort_fn ccf (Delete i) (xs, b, f) = (take i xs @ drop (Suc i) xs, b, f)"
| "abs_do sort_fn ccf (Delete_ptr p) (xs, b, f) = (remove1 p xs, b, f)"
| "abs_do sort_fn ccf Pop (xs, b, f) = (butlast xs, b, f)"
| "abs_do sort_fn ccf Shift (xs, b, f) = (tl xs, b, f)"
| "abs_do sort_fn ccf Zero (xs, b, f) = ([], b \<and> xs = [], f)"
| "abs_do sort_fn ccf Sort (xs, b, f) =
     (case f of None \<Rightarrow> (xs, b, f) | Some g \<Rightarrow> if b \<or> length xs < 2 then (xs, True, f) else (sort_fn (ccf g) xs, True, f))"
| "abs_do sort_fn ccf (Set i p) (xs, b, f) = (xs[i := p], b, f)"
| "abs_do sort_fn ccf (Set_cmp g) (xs, b, f) = (xs, b \<and> f = g, g)"

text \<open>A refused allocation leaves the stack as it was; nothing else can go wrong.\<close>

definition qsort_ok :: "(('a option \<Rightarrow> 'a option \<Rightarrow> int) \<Rightarrow> 'a option list \<Rightarrow> 'a option list) \<Rightarrow> bool" where
  "qsort_ok sort_fn \<longleftrightarrow> (\<forall>cmp xs. comparator cmp \<longrightarrow> mset (sort_fn cmp xs) = mset xs \<and> sorted_wrt (\<lambda>x y. cmp x y \<le> 0) (sort_fn cmp xs))"

lemma find_index_remove1:
  "(case find_index (\<lambda>x. x = p) i xs of None \<Rightarrow> xs | Some k \<Rightarrow> take (k - i) xs @ drop (Suc (k - i)) xs) = remove1 p xs"
proof (induction xs arbitrary: i)
  case (Cons x xs)
  show ?case
  proof (cases "x = p")
    case False
    show ?thesis
    proof (cases "find_index (\<lambda>x. x = p) (Suc i) xs")
      case None
      then show ?thesis using Cons [of "Suc i"] False by simp
    next
      case (Some k)
      then obtain j where k: "k = Suc i + j" using find_index_Some le_Suc_ex by blast
      then have "take j xs @ drop (Suc j) xs = remove1 p xs" using Cons [of "Suc i"] Some by simp
      then show ?thesis using Some False by (simp add: k Suc_diff_le)
    qed
  qed simp
qed simp


lemma sk_zero_ok: "stack_ok s \<Longrightarrow> \<exists>t. sk_zero (Some s) = Some t \<and> stack_ok t \<and> stack_abs t = abs_do sort_fn ccf Zero (stack_abs s)"
  by (auto simp: sk_zero_def stack_ok_def stack_abs_def elems_def)

lemma sk_set_ok: "stack_ok s \<Longrightarrow> \<exists>t. snd (sk_set (Some s) i p) = Some t \<and> stack_ok t \<and> stack_abs t = abs_do sort_fn ccf (Set i p) (stack_abs s)"
  by (auto simp: sk_set_def stack_ok_def stack_abs_def elems_def take_update_swap list_update_beyond)

lemma sk_set_cmp_func_ok: "stack_ok s \<Longrightarrow> \<exists>t. snd (sk_set_cmp_func s f) = t \<and> stack_ok t \<and> stack_abs t = abs_do sort_fn ccf (Set_cmp f) (stack_abs s)"
  by (auto simp: sk_set_cmp_func_def stack_ok_def stack_abs_def elems_def)

lemma sk_sort_ok:
  assumes "stack_ok s" and "\<And>f. comparator (ccf f)" and "qsort_ok sort_fn"
  shows "\<exists>t. sk_sort sort_fn ccf (Some s) = Some t \<and> stack_ok t \<and> stack_abs t = abs_do sort_fn ccf Sort (stack_abs s)"
proof -
  have "length (sort_fn (ccf f) xs) = length xs" for f xs
    using assms(2,3) unfolding qsort_ok_def by (metis mset_eq_length)
  then show ?thesis
    using assms(1) length_elems [OF assms(1)]
    by (auto simp: sk_sort_def stack_ok_def stack_abs_def elems_def Let_def split: option.splits)
qed

lemma sk_delete_abs:
  assumes "stack_ok s"
  shows "\<exists>t. snd (sk_delete (Some s) i) = Some t \<and> stack_ok t \<and> stack_abs t = abs_do sort_fn ccf (Delete i) (stack_abs s)"
proof (cases "i < sk_num_elems s")
  case True
  then show ?thesis using sk_delete_ok [OF assms True] by (auto simp: stack_abs_def)
next
  case False
  then have "take i (elems s) @ drop (Suc i) (elems s) = elems s" using length_elems [OF assms] by simp
  then show ?thesis using assms False by (simp add: sk_delete_def stack_abs_def)
qed

lemma sk_delete_ptr_abs:
  assumes "stack_ok s"
  shows "\<exists>t. snd (sk_delete_ptr (Some s) p) = Some t \<and> stack_ok t \<and> stack_abs t = abs_do sort_fn ccf (Delete_ptr p) (stack_abs s)"
proof (cases "find_index (\<lambda>x. x = p) 0 (elems s)")
  case None
  then show ?thesis using assms find_index_remove1 [where p = p and i = 0 and xs = "elems s"] by (simp add: sk_delete_ptr_def stack_abs_def elems_def)
next
  case (Some k)
  then show ?thesis
    using sk_delete_abs [OF assms, of k] find_index_remove1 [where p = p and i = 0 and xs = "elems s"]
    by (simp add: sk_delete_ptr_def stack_abs_def elems_def)
qed

lemma sk_pop_shift_abs:
  assumes "stack_ok s"
  shows "\<exists>t. snd (sk_pop (Some s)) = Some t \<and> stack_ok t \<and> stack_abs t = abs_do sort_fn ccf Pop (stack_abs s)"
    and "\<exists>t. snd (sk_shift (Some s)) = Some t \<and> stack_ok t \<and> stack_abs t = abs_do sort_fn ccf Shift (stack_abs s)"
proof -
  have len: "length (elems s) = sk_num_elems s" by (rule length_elems [OF assms])
  then have "take (sk_num_elems s - 1) (elems s) @ drop (Suc (sk_num_elems s - 1)) (elems s) = butlast (elems s)"
    by (simp add: butlast_conv_take)
  then show "\<exists>t. snd (sk_pop (Some s)) = Some t \<and> stack_ok t \<and> stack_abs t = abs_do sort_fn ccf Pop (stack_abs s)"
    using sk_delete_abs [OF assms, of "sk_num_elems s - 1"] assms len by (auto simp: sk_pop_def stack_abs_def)
  show "\<exists>t. snd (sk_shift (Some s)) = Some t \<and> stack_ok t \<and> stack_abs t = abs_do sort_fn ccf Shift (stack_abs s)"
    using sk_delete_abs [OF assms, of 0] assms len by (auto simp: sk_shift_def stack_abs_def drop_Suc)
qed

fun adds :: "('a, 'f) sk_call \<Rightarrow> bool" where
  "adds (Push p) = True"
| "adds (Insert p i) = True"
| "adds _ = False"

lemma sk_insert_abs:
  assumes ok: "stack_ok s"
  shows "\<exists>t. snd (sk_insert alloc (Some s) p i) = Some t \<and> stack_ok t \<and>
    (stack_abs t = abs_do sort_fn ccf (Insert p i) (stack_abs s) \<or> t = s \<and> ((\<exists>n. \<not> alloc n) \<or> 2 ^ 64 \<le> sk_num_alloc s * 16))"
proof -
  obtain n s' where run: "sk_insert alloc (Some s) p i = (n, s')" by fastforce
  have "n \<noteq> 0" if "\<forall>n. alloc n" "sk_num_alloc s * 16 < 2 ^ 64"
    using sk_insert_total [OF ok that, of p i] run by simp
  then show ?thesis
    using sk_insert_ok [OF ok run] run ok by (auto simp: stack_abs_def not_less)
qed

lemma sk_do_step:
  assumes ok: "stack_ok s" and cmp: "\<And>f. comparator (ccf f)" and sort: "qsort_ok sort_fn"
  shows "\<exists>t. sk_do alloc sort_fn ccf c s = Some t \<and> stack_ok t \<and>
    (stack_abs t = abs_do sort_fn ccf c (stack_abs s) \<or>
     t = s \<and> adds c \<and> ((\<exists>n. \<not> alloc n) \<or> 2 ^ 64 \<le> sk_num_alloc s * 16))"
proof (cases c)
  case (Push p)
  have "abs_do sort_fn ccf (Push p) (stack_abs s) = abs_do sort_fn ccf (Insert p (sk_num_elems s)) (stack_abs s)"
    using length_elems [OF ok] by (simp add: stack_abs_def)
  then show ?thesis
    using sk_insert_abs [OF ok, of alloc p "sk_num_elems s" sort_fn ccf] by (auto simp: Push sk_push_def sk_num_def)
qed (use sk_insert_abs [OF ok, of alloc _ _ sort_fn ccf] sk_delete_abs [OF ok] sk_delete_ptr_abs [OF ok] sk_pop_shift_abs [OF ok] sk_zero_ok [OF ok]
      sk_set_ok [OF ok] sk_set_cmp_func_ok [OF ok] sk_sort_ok [OF ok cmp sort] in \<open>fastforce+\<close>)


section \<open>The sorted flag\<close>

primrec sk_run :: "(nat \<Rightarrow> bool) \<Rightarrow> (('a option \<Rightarrow> 'a option \<Rightarrow> int) \<Rightarrow> 'a option list \<Rightarrow> 'a option list) \<Rightarrow>
    ('f \<Rightarrow> 'a option \<Rightarrow> 'a option \<Rightarrow> int) \<Rightarrow> ('a, 'f) sk_call list \<Rightarrow> ('a, 'f) STACK \<Rightarrow> ('a, 'f) STACK option" where
  "sk_run alloc sort_fn ccf [] s = Some s"
| "sk_run alloc sort_fn ccf (c # cs) s = Option.bind (sk_do alloc sort_fn ccf c s) (sk_run alloc sort_fn ccf cs)"

fun is_set :: "('a, 'f) sk_call \<Rightarrow> bool" where
  "is_set (Set i p) = True"
| "is_set _ = False"

text \<open>What \<open>stack.h\<close> says the flag means.\<close>

definition flag_ok :: "('f \<Rightarrow> 'a option \<Rightarrow> 'a option \<Rightarrow> int) \<Rightarrow> ('a, 'f) stack_abs \<Rightarrow> bool" where
  "flag_ok ccf A = (case A of (xs, b, f) \<Rightarrow> b \<longrightarrow> (case f of None \<Rightarrow> False | Some g \<Rightarrow> sorted_wrt (\<lambda>x y. ccf g x y \<le> 0) xs))"

lemma sorted_wrt_delete: "sorted_wrt P xs \<Longrightarrow> sorted_wrt P (take i xs @ drop (Suc i) xs)"
proof -
  assume "sorted_wrt P xs"
  then have "sorted_wrt P (take i xs @ drop i xs)" by simp
  moreover have "drop (Suc i) xs = drop 1 (drop i xs)" by simp
  ultimately show ?thesis by (auto simp only: sorted_wrt_append intro: sorted_wrt_drop dest: in_set_dropD)
qed

lemma sorted_wrt_remove1: "sorted_wrt P xs \<Longrightarrow> sorted_wrt P (remove1 x xs)"
  by (induction xs) (auto dest: set_remove1_subset [THEN subsetD])

lemma sorted_wrt_butlast: "sorted_wrt P xs \<Longrightarrow> sorted_wrt P (butlast xs)"
  by (simp add: butlast_conv_take sorted_wrt_take)

lemma sorted_wrt_tl: "sorted_wrt P xs \<Longrightarrow> sorted_wrt P (tl xs)"
  by (cases xs) simp_all

lemma sorted_wrt_short: "length xs < 2 \<Longrightarrow> sorted_wrt P xs"
  by (cases xs) auto

lemma abs_do_flag:
  assumes "flag_ok ccf A" and "\<not> is_set c" and "\<And>f. comparator (ccf f)" and "qsort_ok sort_fn"
  shows "flag_ok ccf (abs_do sort_fn ccf c A)"
proof -
  obtain xs b f where A: "A = (xs, b, f)" by (cases A)
  have "sorted_wrt (\<lambda>x y. ccf g x y \<le> 0) (sort_fn (ccf g) ys)" for g ys
    using assms(3,4) unfolding qsort_ok_def by blast
  then show ?thesis
    using assms(1,2) unfolding A
    by (cases c)
      (auto simp: flag_ok_def sorted_wrt_delete sorted_wrt_remove1 sorted_wrt_butlast sorted_wrt_tl sorted_wrt_short split: option.splits)
qed

lemma sk_run_inv:
  assumes "\<And>f. comparator (ccf f)" and "qsort_ok sort_fn"
  shows "stack_ok s \<Longrightarrow> \<exists>t. sk_run alloc sort_fn ccf cs s = Some t \<and> stack_ok t \<and>
    (list_all (\<lambda>c. \<not> is_set c) cs \<longrightarrow> flag_ok ccf (stack_abs s) \<longrightarrow> flag_ok ccf (stack_abs t))"
proof (induction cs arbitrary: s)
  case (Cons c cs)
  obtain s1 where s1: "sk_do alloc sort_fn ccf c s = Some s1" "stack_ok s1"
    "stack_abs s1 = abs_do sort_fn ccf c (stack_abs s) \<or> s1 = s"
    using sk_do_step [where ccf = ccf and sort_fn = sort_fn and alloc = alloc and c = c, OF Cons.prems assms] by blast
  then have "\<not> is_set c \<longrightarrow> flag_ok ccf (stack_abs s) \<longrightarrow> flag_ok ccf (stack_abs s1)"
    using abs_do_flag [where ccf = ccf and A = "stack_abs s" and c = c and sort_fn = sort_fn, OF _ _ assms] by auto
  then show ?case using Cons.IH [OF s1(2)] s1(1) by auto
qed simp

lemma sk_find_flag:
  assumes ok: "stack_ok s" and flag: "flag_ok ccf (stack_abs s)" and f: "sk_comp s = Some g" and p: "p \<noteq> None"
    and cmp: "comparator (ccf g)"
  shows "sk_find ccf (Some s) p = find_index (\<lambda>e. ccf g p e = 0) 0 (elems s)"
proof (cases "sk_sorted s")
  case True
  then have "sorted_wrt (\<lambda>x y. ccf g x y \<le> 0) (take (sk_num_elems s) (sk_data s))"
    using flag f by (simp add: flag_ok_def stack_abs_def elems_def)
  moreover have "sk_num_elems s \<le> length (sk_data s)" using ok by (simp add: stack_ok_def)
  ultimately have "sk_find_loop (ccf g p) (sk_data s) 0 (sk_num_elems s) = find_index (\<lambda>x. ccf g p x = 0) 0 (take (sk_num_elems s) (sk_data s))"
    by (rule sorted_search [OF cmp])
  then show ?thesis using True f p by (auto simp: sk_find_def sk_is_sorted_def elems_def)
qed (use f p in \<open>auto simp: sk_find_def sk_is_sorted_def elems_def\<close>)

section \<open>Properties\<close>

text \<open>C32. Every call on a stack refines the list operation it stands for: inserting at an index or at
  the end, deleting by index or by pointer, popping, shifting, clearing, sorting and setting. Only
  an insertion can fail, for want of memory or of address space, and it then changes nothing; the
  array always has a slot to spare.\<close>

theorem sk_do_refines:
  assumes "stack_ok s" and "\<forall>f. comparator (ccf f)" and "qsort_ok sort_fn"
  shows "\<exists>t. sk_do alloc sort_fn ccf c s = Some t \<and> stack_ok t \<and>
    (stack_abs t = abs_do sort_fn ccf c (stack_abs s) \<or>
     t = s \<and> adds c \<and> ((\<exists>n. \<not> alloc n) \<or> 2 ^ 64 \<le> sk_num_alloc s * 16))"
  using sk_do_step assms by blast

text \<open>C33. Whatever sequence of calls leads to a stack, \<open>sk_set\<close> excepted, a lookup with a comparison
  function returns the index of the first equal element, whether it runs the binary search or not:
  the sorted flag is only ever set when the elements are in order.\<close>

theorem sk_find_exact:
  assumes "sk_new alloc f = Some s" and "sk_run alloc sort_fn ccf cs s = Some t" and "list_all (\<lambda>c. \<not> is_set c) cs"
    and "\<forall>f. comparator (ccf f)" and "qsort_ok sort_fn" and "sk_comp t = Some g" and "p \<noteq> None"
  shows "sk_find ccf (Some t) p = find_index (\<lambda>e. ccf g p e = 0) 0 (elems t)"
proof -
  have new: "stack_ok s" "flag_ok ccf (stack_abs s)" using sk_new_ok [OF assms(1)] by (simp_all add: flag_ok_def stack_abs_def)
  have cmp: "comparator (ccf h)" for h using assms(4) by blast
  have "stack_ok t \<and> flag_ok ccf (stack_abs t)"
    using sk_run_inv [of ccf, OF cmp assms(5) new(1), of alloc cs] new(2) assms(2,3) by simp
  then show ?thesis using sk_find_flag [of t ccf g p, OF _ _ assms(6,7) cmp] by blast
qed

text \<open>Elements of \<open>SET OF\<close> values as a stack, \<open>NULL\<close> first.\<close>

definition ptr_cmp :: "unit \<Rightarrow> CBS option \<Rightarrow> CBS option \<Rightarrow> int" where
  "ptr_cmp u x y = (case (x, y) of (Some a, Some b) \<Rightarrow> compare_set_of_element a b | (None, None) \<Rightarrow> 0 | (None, _) \<Rightarrow> -1 | _ \<Rightarrow> 1)"

interpretation ptr_order: comparator "ptr_cmp u"
proof
  show "ptr_cmp u x y < 0 \<longleftrightarrow> ptr_cmp u y x > 0" for x y
    using set_of_order.flip by (cases x; cases y) (simp_all add: ptr_cmp_def)
  show "ptr_cmp u x z \<le> 0" if "ptr_cmp u x y \<le> 0" "ptr_cmp u y z \<le> 0" for x y z
    using that by (cases x; cases y; cases z) (simp_all add: ptr_cmp_def set_of_order.trans)
qed

lemma insert_by_set: "set (insert_by cmp x xs) = insert x (set xs)" "mset (insert_by cmp x xs) = add_mset x (mset xs)"
  by (induction xs) auto

lemma qsort_qsort_ok: "qsort_ok (qsort :: ('a option \<Rightarrow> 'a option \<Rightarrow> int) \<Rightarrow> 'a option list \<Rightarrow> 'a option list)"
proof -
  have "sorted_wrt (\<lambda>x y. cmp x y \<le> 0) (insert_by cmp x xs)" if cmp: "comparator cmp" and "sorted_wrt (\<lambda>x y. cmp x y \<le> 0) xs"
    for cmp :: "'a option \<Rightarrow> 'a option \<Rightarrow> int" and x xs
    using that(2)
  proof (induction xs)
    case (Cons y ys)
    have "cmp y x \<le> 0" if "\<not> cmp x y \<le> 0" using comparator.flip [OF cmp, of y x] that by simp
    then show ?case using Cons comparator.trans [OF cmp] by (auto simp: insert_by_set)
  qed simp
  then have "sorted_wrt (\<lambda>x y. cmp x y \<le> 0) (qsort cmp xs)" if "comparator cmp" for cmp :: "'a option \<Rightarrow> 'a option \<Rightarrow> int" and xs
    using that by (induction xs) (simp_all add: qsort_def)
  moreover have "mset (qsort cmp xs) = mset xs" for cmp :: "'a option \<Rightarrow> 'a option \<Rightarrow> int" and xs
    by (induction xs) (simp_all add: qsort_def insert_by_set)
  ultimately show ?thesis by (simp add: qsort_ok_def)
qed

definition sample_stack :: "(CBS, unit) STACK" where
  "sample_stack = \<lparr>sk_num_elems = 0, sk_data = replicate 4 None, sk_sorted = False, sk_num_alloc = 4, sk_comp = Some ()\<rparr>"

lemma replicate_4: "replicate 4 x = [x, x, x, x]"
  by (simp add: eval_nat_numeral)

lemmas sample_simps = sample_stack_def sk_push_def sk_num_def sk_insert_def sk_grow_def sk_sort_def qsort_def ptr_cmp_def
  compare_set_of_element_eq Let_def replicate_4

lemma sk_do_refines_witness:
  "\<exists>t. sk_do (\<lambda>_. True) qsort ptr_cmp (Push (Some [7])) sample_stack = Some t \<and> stack_abs t = ([Some [7]], False, Some ())"
proof -
  have "stack_ok sample_stack" by (simp add: sample_stack_def stack_ok_def sizeof_ptr_def)
  moreover have "\<forall>u. comparator (ptr_cmp u)" using ptr_order.comparator_axioms by blast
  ultimately have "\<exists>t. sk_do (\<lambda>_. True) qsort ptr_cmp (Push (Some [7])) sample_stack = Some t \<and> stack_ok t \<and>
    (stack_abs t = abs_do qsort ptr_cmp (Push (Some [7])) (stack_abs sample_stack) \<or>
     t = sample_stack \<and> adds (Push (Some [7]) :: (CBS, unit) sk_call) \<and> ((\<exists>n :: nat. \<not> True) \<or> 2 ^ 64 \<le> sk_num_alloc sample_stack * 16))"
    by (rule sk_do_refines [OF _ _ qsort_qsort_ok])
  then show ?thesis by (simp add: sample_stack_def stack_abs_def elems_def) blast
qed

lemma sk_find_exact_witness:
  "sk_find ptr_cmp (sk_run (\<lambda>_. True) qsort ptr_cmp [Push (Some [3]), Push (Some [1]), Sort] sample_stack) (Some [3]) = Some 1"
proof -
  have new: "sk_new (\<lambda>_. True) (Some ()) = Some sample_stack" by (simp add: sk_new_def sample_stack_def kMinSize_def)
  define t :: "(CBS, unit) STACK" where "t = \<lparr>sk_num_elems = 2, sk_data = [Some [1], Some [3], None, None], sk_sorted = True, sk_num_alloc = 4, sk_comp = Some ()\<rparr>"
  have run: "sk_run (\<lambda>_. True) qsort ptr_cmp [Push (Some [3]), Push (Some [1]), Sort] sample_stack = Some t"
    by (simp add: sample_simps t_def)
  have "sk_find ptr_cmp (Some t) (Some [3]) = find_index (\<lambda>e. ptr_cmp () (Some [3]) e = 0) 0 (elems t)"
    using ptr_order.comparator_axioms by (intro sk_find_exact [OF new run _ _ qsort_qsort_ok]) (simp_all add: t_def)
  then show ?thesis unfolding run by (simp add: t_def elems_def ptr_cmp_def compare_set_of_element_eq)
qed

lemma search_above: "(\<And>i. lo \<le> i \<Longrightarrow> i < hi \<Longrightarrow> cmp (dat ! i) > 0) \<Longrightarrow> sk_find_loop cmp dat lo hi = None"
proof (induction cmp dat lo hi rule: sk_find_loop.induct)
  case (1 cmp dat lo hi)
  show ?case
  proof (cases "lo < hi")
    case True
    define mid where "mid = lo + (hi - lo - 1) div 2"
    have mid: "lo \<le> mid" "mid < hi" using True by (simp_all add: mid_def)
    then have up: "cmp (dat ! mid) > 0" using "1.prems" by simp
    have "sk_find_loop cmp dat (mid + 1) hi = None"
      by (rule "1.IH"(1) [OF True mid_def refl up]) (use "1.prems" mid in simp)
    then show ?thesis using True up by (subst sk_find_loop.simps) (simp add: Let_def mid_def)
  qed (subst sk_find_loop.simps, simp)
qed

text \<open>C34. \<open>sk_set\<close> leaves the sorted flag as it is: when the first of three or more elements of a sorted stack is replaced by one
  greater than all the others, the stack claims to be sorted while it is not, and \<open>sk_find\<close> misses the element that \<open>sk_value\<close>
  returns.\<close>

theorem sk_set_breaks_find:
  assumes "stack_ok s" and "sk_sorted s" and "sk_comp s = Some g" and "3 \<le> sk_num_elems s" and "p \<noteq> None"
    and "\<forall>i\<in>{1..<sk_num_elems s}. ccf g p (sk_data s ! i) > 0"
  shows "\<exists>t. sk_set (Some s) 0 p = (p, Some t) \<and> sk_is_sorted (Some t) \<and> sk_value (Some t) 0 = p \<and> sk_find ccf (Some t) p = None"
proof -
  define n where "n = sk_num_elems s"
  define dat where "dat = (sk_data s)[0 := p]"
  have n: "3 \<le> n" "n \<le> length (sk_data s)" using assms(1,4) by (simp_all add: n_def stack_ok_def)
  define mid where "mid = (n - 1) div 2"
  have mid: "1 \<le> mid" "mid < n" using n(1) by (simp_all add: mid_def)
  have up: "ccf g p (dat ! i) > 0" if "1 \<le> i" "i < n" for i using that assms(6) by (simp add: dat_def n_def)
  have "sk_find_loop (ccf g p) dat (mid + 1) n = None" by (rule search_above) (use up in simp)
  then have "sk_find_loop (ccf g p) dat 0 n = None"
    using up [OF mid] n(1) by (subst sk_find_loop.simps) (simp add: Let_def mid_def)
  moreover have "dat ! 0 = p" using n unfolding dat_def by (intro nth_list_update_eq) linarith
  ultimately show ?thesis
    using assms(2,3,5) n by (auto simp: sk_set_def sk_is_sorted_def sk_value_def sk_find_def n_def dat_def)
qed

lemma sk_set_breaks_find_witness:
  "\<exists>s t. sk_run (\<lambda>_. True) qsort ptr_cmp [Push (Some [1]), Push (Some [4]), Push (Some [3]), Sort] sample_stack = Some s \<and>
    sk_set (Some s) 0 (Some [5]) = (Some [5], Some t) \<and> sk_value (Some t) 0 = Some [5] \<and> sk_find ptr_cmp (Some t) (Some [5]) = None"
proof -
  define s :: "(CBS, unit) STACK" where "s = \<lparr>sk_num_elems = 3, sk_data = [Some [1], Some [3], Some [4], None], sk_sorted = True, sk_num_alloc = 4, sk_comp = Some ()\<rparr>"
  have run: "sk_run (\<lambda>_. True) qsort ptr_cmp [Push (Some [1]), Push (Some [4]), Push (Some [3]), Sort] sample_stack = Some s"
    by (simp add: sample_simps s_def)
  have "stack_ok s" by (simp add: s_def stack_ok_def sizeof_ptr_def)
  moreover have "{1..<3 :: nat} = {1, 2}" by auto
  then have "\<forall>i\<in>{1..<sk_num_elems s}. ptr_cmp () (Some [5]) (sk_data s ! i) > 0"
    by (simp add: s_def ptr_cmp_def compare_set_of_element_eq)
  ultimately have "\<exists>t. sk_set (Some s) 0 (Some [5]) = (Some [5], Some t) \<and> sk_is_sorted (Some t) \<and> sk_value (Some t) 0 = Some [5] \<and>
      sk_find ptr_cmp (Some t) (Some [5]) = None"
    by (intro sk_set_breaks_find) (simp_all add: s_def)
  then show ?thesis using run by blast
qed

end
