(* ===== verification/UV_Heap.thy ===== *)
theory UV_Heap
  imports Prelude
begin

text \<open>
  The intrusive binary min heap of libuv (\<open>Libuv-gRPC/src/heap-inl.h\<close>) on its pointers. \<open>'p\<close> is the
  type of node addresses; a pointer is \<open>'p option\<close> with \<open>None\<close> for \<open>NULL\<close>. The record \<open>heap\<close> holds
  the two fields of \<open>struct heap\<close> and, as \<open>node_at\<close>, the memory its nodes live in. An operation
  returns \<open>None\<close> when the code would dereference \<open>NULL\<close> or run forever. The second half relates
  the pointers to a numbering of the nodes, node \<open>i\<close> having the children \<open>2 * i\<close> and \<open>2 * i + 1\<close>.
\<close>

section \<open>The code\<close>

record 'p heap_node =
  hn_left :: "'p option"
  hn_right :: "'p option"
  hn_parent :: "'p option"

record 'p heap =
  hmin :: "'p option"
  nelts :: u32
  node_at :: "'p \<Rightarrow> 'p heap_node"

definition heap_init :: "'p heap \<Rightarrow> 'p heap" where
  "heap_init h = h\<lparr>hmin := None, nelts := 0\<rparr>"

definition heap_min :: "'p heap \<Rightarrow> 'p option" where
  "heap_min h = hmin h"

text \<open>Assignments through a pointer\<close>

definition set_node :: "'p \<Rightarrow> 'p heap_node \<Rightarrow> 'p heap \<Rightarrow> 'p heap" where
  "set_node p nd h = h\<lparr>node_at := (node_at h)(p := nd)\<rparr>"

definition set_left :: "'p \<Rightarrow> 'p option \<Rightarrow> 'p heap \<Rightarrow> 'p heap" where
  "set_left p v h = set_node p (node_at h p\<lparr>hn_left := v\<rparr>) h"

definition set_right :: "'p \<Rightarrow> 'p option \<Rightarrow> 'p heap \<Rightarrow> 'p heap" where
  "set_right p v h = set_node p (node_at h p\<lparr>hn_right := v\<rparr>) h"

definition set_parent :: "'p \<Rightarrow> 'p option \<Rightarrow> 'p heap \<Rightarrow> 'p heap" where
  "set_parent p v h = set_node p (node_at h p\<lparr>hn_parent := v\<rparr>) h"

text \<open>\<open>if (p != NULL) p->parent = v;\<close>\<close>

definition set_parent_of :: "'p option \<Rightarrow> 'p option \<Rightarrow> 'p heap \<Rightarrow> 'p heap" where
  "set_parent_of p v h = (case p of None \<Rightarrow> h | Some p \<Rightarrow> set_parent p v h)"

text \<open>Where \<open>parent\<close> hung in the tree, \<open>child\<close> hangs from now on; \<open>up\<close> is the node above.\<close>

definition relink :: "'p option \<Rightarrow> 'p \<Rightarrow> 'p \<Rightarrow> 'p heap \<Rightarrow> 'p heap" where
  "relink up parent child h = (case up of
     None \<Rightarrow> h\<lparr>hmin := Some child\<rparr>
   | Some g \<Rightarrow> if hn_left (node_at h g) = Some parent then set_left g (Some child) h
               else set_right g (Some child) h)"

definition heap_node_swap :: "'p \<Rightarrow> 'p \<Rightarrow> 'p heap \<Rightarrow> 'p heap" where
  "heap_node_swap parent child h =
     (let t = node_at h parent;
          h = set_node parent (node_at h child) h;
          h = set_node child t h;
          h = set_parent parent (Some child) h;
          (h, sibling) =
            (if hn_left (node_at h child) = Some child
             then (let h = set_left child (Some parent) h in (h, hn_right (node_at h child)))
             else (let h = set_right child (Some parent) h in (h, hn_left (node_at h child))));
          h = set_parent_of sibling (Some child) h;
          h = set_parent_of (hn_left (node_at h parent)) (Some parent) h;
          h = set_parent_of (hn_right (node_at h parent)) (Some parent) h
      in relink (hn_parent (node_at h child)) parent child h)"

text \<open>The path from the root to node number \<open>n\<close>: the bits of \<open>n\<close> below its leading one, the first step lowest.\<close>

function heap_path :: "u32 \<Rightarrow> nat \<Rightarrow> u32 \<Rightarrow> u32 \<times> nat" where
  "heap_path path k n = (if n \<ge> 2 then heap_path (push_bit 1 path OR (n AND 1)) (k + 1) (n div 2) else (path, k))"
  by pat_completeness auto
termination
  by (relation "measure (\<lambda>(_, _, n). unat n)") (auto simp: word_le_nat_alt word_less_nat_alt unat_div)

declare heap_path.simps [simp del]

text \<open>A \<open>struct heap_node **\<close>: the address of the root pointer or of a child pointer of a node.\<close>

datatype 'p slot = RootSlot | LeftOf 'p | RightOf 'p

fun slot_get :: "'p heap \<Rightarrow> 'p slot \<Rightarrow> 'p option" where
  "slot_get h RootSlot = hmin h"
| "slot_get h (LeftOf p) = hn_left (node_at h p)"
| "slot_get h (RightOf p) = hn_right (node_at h p)"

fun slot_set :: "'p slot \<Rightarrow> 'p option \<Rightarrow> 'p heap \<Rightarrow> 'p heap" where
  "slot_set RootSlot v h = h\<lparr>hmin := v\<rparr>"
| "slot_set (LeftOf p) v h = set_left p v h"
| "slot_set (RightOf p) v h = set_right p v h"

text \<open>The traversal loops; \<open>heap_remove\<close> keeps the second component only.\<close>

fun heap_descend :: "'p heap \<Rightarrow> 'p slot \<times> 'p slot \<Rightarrow> u32 \<Rightarrow> nat \<Rightarrow> ('p slot \<times> 'p slot) option" where
  "heap_descend h (parent, child) path 0 = Some (parent, child)"
| "heap_descend h (parent, child) path (Suc k) =
     (case slot_get h child of None \<Rightarrow> None
      | Some q \<Rightarrow> heap_descend h (child, if path AND 1 \<noteq> 0 then RightOf q else LeftOf q) (drop_bit 1 path) k)"

partial_function (option) heap_up :: "('p \<Rightarrow> 'p \<Rightarrow> bool) \<Rightarrow> 'p \<Rightarrow> 'p heap \<Rightarrow> 'p heap option" where
  "heap_up lt x h = (case hn_parent (node_at h x) of None \<Rightarrow> Some h
     | Some p \<Rightarrow> if lt x p then heap_up lt x (heap_node_swap p x h) else Some h)"

definition heap_insert :: "('p \<Rightarrow> 'p \<Rightarrow> bool) \<Rightarrow> 'p \<Rightarrow> 'p heap \<Rightarrow> 'p heap option" where
  "heap_insert lt newnode h =
     (let h = set_node newnode \<lparr>hn_left = None, hn_right = None, hn_parent = None\<rparr> h;
          (path, k) = heap_path 0 0 (1 + nelts h)
      in case heap_descend h (RootSlot, RootSlot) path k of None \<Rightarrow> None
         | Some (parent, child) \<Rightarrow>
             let h = set_parent newnode (slot_get h parent) h;
                 h = slot_set child (Some newnode) h;
                 h = h\<lparr>nelts := nelts h + 1\<rparr>
             in heap_up lt newnode h)"

definition smallest_child :: "('p \<Rightarrow> 'p \<Rightarrow> bool) \<Rightarrow> 'p \<Rightarrow> 'p heap \<Rightarrow> 'p" where
  "smallest_child lt child h =
     (let smallest = child;
          smallest = (case hn_left (node_at h child) of None \<Rightarrow> smallest | Some l \<Rightarrow> if lt l smallest then l else smallest)
      in case hn_right (node_at h child) of None \<Rightarrow> smallest | Some r \<Rightarrow> if lt r smallest then r else smallest)"

partial_function (option) heap_down :: "('p \<Rightarrow> 'p \<Rightarrow> bool) \<Rightarrow> 'p \<Rightarrow> 'p heap \<Rightarrow> 'p heap option" where
  "heap_down lt child h =
     (let smallest = smallest_child lt child h
      in if smallest = child then Some h else heap_down lt child (heap_node_swap child smallest h))"

definition heap_remove :: "('p \<Rightarrow> 'p \<Rightarrow> bool) \<Rightarrow> 'p \<Rightarrow> 'p heap \<Rightarrow> 'p heap option" where
  "heap_remove lt node h =
     (if nelts h = 0 then Some h
      else
        let (path, k) = heap_path 0 0 (nelts h)
        in case heap_descend h (RootSlot, RootSlot) path k of None \<Rightarrow> None
           | Some (_, mx) \<Rightarrow>
               let h = h\<lparr>nelts := nelts h - 1\<rparr>; child = slot_get h mx; h = slot_set mx None h
               in if child = Some node then Some (if child = hmin h then h\<lparr>hmin := None\<rparr> else h)
                  else case child of None \<Rightarrow> None
                  | Some child \<Rightarrow>
                      let h = set_left child (hn_left (node_at h node)) h;
                          h = set_right child (hn_right (node_at h node)) h;
                          h = set_parent child (hn_parent (node_at h node)) h;
                          h = set_parent_of (hn_left (node_at h child)) (Some child) h;
                          h = set_parent_of (hn_right (node_at h child)) (Some child) h;
                          h = relink (hn_parent (node_at h node)) node child h
                      in case heap_down lt child h of None \<Rightarrow> None
                         | Some h \<Rightarrow> heap_up lt child h)"

text \<open>\<open>heap->min\<close> is passed on as it is; on an empty heap the callee returns before it looks at it.\<close>

definition heap_dequeue :: "('p \<Rightarrow> 'p \<Rightarrow> bool) \<Rightarrow> 'p heap \<Rightarrow> 'p heap option" where
  "heap_dequeue lt h =
     (case hmin h of None \<Rightarrow> if nelts h = 0 then Some h else None | Some m \<Rightarrow> heap_remove lt m h)"

section \<open>Fields after assignments\<close>

lemma set_simps [simp]:
  "node_at (set_node p nd h) = (node_at h)(p := nd)" "hmin (set_node p nd h) = hmin h" "nelts (set_node p nd h) = nelts h"
  "hmin (set_left p v h) = hmin h" "nelts (set_left p v h) = nelts h"
  "hmin (set_right p v h) = hmin h" "nelts (set_right p v h) = nelts h"
  "hmin (set_parent p v h) = hmin h" "nelts (set_parent p v h) = nelts h"
  "hmin (set_parent_of q v h) = hmin h" "nelts (set_parent_of q v h) = nelts h"
  by (auto simp: set_node_def set_left_def set_right_def set_parent_def set_parent_of_def split: option.split)

lemma set_left_fields [simp]:
  "hn_left (node_at (set_left p v h) q) = (if q = p then v else hn_left (node_at h q))"
  "hn_right (node_at (set_left p v h) q) = hn_right (node_at h q)"
  "hn_parent (node_at (set_left p v h) q) = hn_parent (node_at h q)"
  by (simp_all add: set_left_def)

lemma set_right_fields [simp]:
  "hn_left (node_at (set_right p v h) q) = hn_left (node_at h q)"
  "hn_right (node_at (set_right p v h) q) = (if q = p then v else hn_right (node_at h q))"
  "hn_parent (node_at (set_right p v h) q) = hn_parent (node_at h q)"
  by (simp_all add: set_right_def)

lemma set_parent_fields [simp]:
  "hn_left (node_at (set_parent p v h) q) = hn_left (node_at h q)"
  "hn_right (node_at (set_parent p v h) q) = hn_right (node_at h q)"
  "hn_parent (node_at (set_parent p v h) q) = (if q = p then v else hn_parent (node_at h q))"
  by (simp_all add: set_parent_def)

lemma set_parent_of_fields [simp]:
  "hn_left (node_at (set_parent_of o' v h) q) = hn_left (node_at h q)"
  "hn_right (node_at (set_parent_of o' v h) q) = hn_right (node_at h q)"
  "hn_parent (node_at (set_parent_of o' v h) q) = (if o' = Some q then v else hn_parent (node_at h q))"
  by (auto simp: set_parent_of_def split: option.split)

lemma relink_fields [simp]:
  "hn_left (node_at (relink up p c h) q) = (if up = Some q \<and> hn_left (node_at h q) = Some p then Some c else hn_left (node_at h q))"
  "hn_right (node_at (relink up p c h) q) = (if up = Some q \<and> hn_left (node_at h q) \<noteq> Some p then Some c else hn_right (node_at h q))"
  "hn_parent (node_at (relink up p c h) q) = hn_parent (node_at h q)"
  "hmin (relink up p c h) = (if up = None then Some c else hmin h)"
  "nelts (relink up p c h) = nelts h"
  by (auto simp: relink_def split: option.split)

lemma swap_fields:
  assumes "P \<noteq> C" and "sib = (if hn_left (node_at h P) = Some C then hn_right (node_at h P) else hn_left (node_at h P))"
    and "\<forall>q. sib = Some q \<or> hn_left (node_at h C) = Some q \<or> hn_right (node_at h C) = Some q \<or> hn_parent (node_at h P) = Some q \<longrightarrow> q \<noteq> P \<and> q \<noteq> C"
  shows "hn_left (node_at (heap_node_swap P C h) q) =
      (if q = C then if hn_left (node_at h P) = Some C then Some P else hn_left (node_at h P)
       else if q = P then hn_left (node_at h C)
       else if hn_parent (node_at h P) = Some q \<and> hn_left (node_at h q) = Some P then Some C else hn_left (node_at h q))"
    and "hn_right (node_at (heap_node_swap P C h) q) =
      (if q = C then if hn_left (node_at h P) = Some C then hn_right (node_at h P) else Some P
       else if q = P then hn_right (node_at h C)
       else if hn_parent (node_at h P) = Some q \<and> hn_left (node_at h q) \<noteq> Some P then Some C else hn_right (node_at h q))"
    and "hn_parent (node_at (heap_node_swap P C h) q) =
      (if q = C then hn_parent (node_at h P) else if q = P then Some C
       else if hn_left (node_at h C) = Some q \<or> hn_right (node_at h C) = Some q then Some P
       else if sib = Some q then Some C else hn_parent (node_at h q))"
    and "hmin (heap_node_swap P C h) = (if hn_parent (node_at h P) = None then Some C else hmin h)"
    and "nelts (heap_node_swap P C h) = nelts h"
proof -
  define g1 where "g1 = set_parent P (Some C) (set_node C (node_at h P) (set_node P (node_at h C) h))"
  define is_left where "is_left \<longleftrightarrow> hn_left (node_at h P) = Some C"
  define g2 where "g2 = (if is_left then set_left C (Some P) g1 else set_right C (Some P) g1)"
  define g3 where "g3 = set_parent_of (hn_right (node_at h C)) (Some P) (set_parent_of (hn_left (node_at h C)) (Some P) (set_parent_of sib (Some C) g2))"
  have g1: "hn_left (node_at g1 q) = (if q = C then hn_left (node_at h P) else if q = P then hn_left (node_at h C) else hn_left (node_at h q))"
    "hn_right (node_at g1 q) = (if q = C then hn_right (node_at h P) else if q = P then hn_right (node_at h C) else hn_right (node_at h q))"
    "hn_parent (node_at g1 q) = (if q = C then hn_parent (node_at h P) else if q = P then Some C else hn_parent (node_at h q))"
    "hmin g1 = hmin h" "nelts g1 = nelts h" for q
    using assms(1) by (simp_all add: g1_def)
  have g2: "hn_left (node_at g2 q) = (if q = C \<and> is_left then Some P else hn_left (node_at g1 q))"
    "hn_right (node_at g2 q) = (if q = C \<and> \<not> is_left then Some P else hn_right (node_at g1 q))"
    "hn_parent (node_at g2 q) = hn_parent (node_at g1 q)" "hmin g2 = hmin h" "nelts g2 = nelts h" for q
    by (simp_all add: g2_def g1)
  have g3: "hn_left (node_at g3 q) = hn_left (node_at g2 q)" "hn_right (node_at g3 q) = hn_right (node_at g2 q)"
    "hn_parent (node_at g3 q) = (if hn_right (node_at h C) = Some q \<or> hn_left (node_at h C) = Some q then Some P
       else if sib = Some q then Some C else hn_parent (node_at g1 q))" "hmin g3 = hmin h" "nelts g3 = nelts h" for q
    by (simp_all add: g3_def g2)
  have parent_C: "hn_parent (node_at g3 C) = hn_parent (node_at h P)" using assms(3) by (auto simp: g3 g1)
  have at_P: "hn_left (node_at g2 P) = hn_left (node_at h C)" "hn_right (node_at g2 P) = hn_right (node_at h C)"
    using assms(1) by (simp_all add: g2 g1)
  have eq: "heap_node_swap P C h = relink (hn_parent (node_at h P)) P C g3"
  proof (cases is_left)
    case True
    then have g2_eq: "g2 = set_left C (Some P) g1" and cond: "hn_left (node_at g1 C) = Some C" and sib: "hn_right (node_at g2 C) = sib"
      using assms(1,2) by (simp_all add: g2_def g1 is_left_def)
    show ?thesis
      unfolding heap_node_swap_def Let_def g1_def [symmetric] if_P [OF cond] prod.case g2_eq [symmetric] sib
        set_parent_of_fields(1,2) at_P g3_def [symmetric] parent_C ..
  next
    case False
    then have g2_eq: "g2 = set_right C (Some P) g1" and cond: "hn_left (node_at g1 C) \<noteq> Some C" and sib: "hn_left (node_at g2 C) = sib"
      using assms(1,2) by (simp_all add: g2_def g1 is_left_def)
    show ?thesis
      unfolding heap_node_swap_def Let_def g1_def [symmetric] if_not_P [OF cond] prod.case g2_eq [symmetric] sib
        set_parent_of_fields(1,2) at_P g3_def [symmetric] parent_C ..
  qed
  have up: "hn_parent (node_at h P) \<noteq> Some P" "hn_parent (node_at h P) \<noteq> Some C" using assms(3) by blast+
  have down: "hn_left (node_at h C) \<noteq> Some P" "hn_left (node_at h C) \<noteq> Some C" "hn_right (node_at h C) \<noteq> Some P"
    "hn_right (node_at h C) \<noteq> Some C" "sib \<noteq> Some P" "sib \<noteq> Some C" using assms(3) by blast+
  show "hn_left (node_at (heap_node_swap P C h) q) =
      (if q = C then if hn_left (node_at h P) = Some C then Some P else hn_left (node_at h P)
       else if q = P then hn_left (node_at h C)
       else if hn_parent (node_at h P) = Some q \<and> hn_left (node_at h q) = Some P then Some C else hn_left (node_at h q))"
    using up assms(1) by (simp add: eq g3 g2 g1 is_left_def)
  show "hn_right (node_at (heap_node_swap P C h) q) =
      (if q = C then if hn_left (node_at h P) = Some C then hn_right (node_at h P) else Some P
       else if q = P then hn_right (node_at h C)
       else if hn_parent (node_at h P) = Some q \<and> hn_left (node_at h q) \<noteq> Some P then Some C else hn_right (node_at h q))"
    using up assms(1) by (simp add: eq g3 g2 g1 is_left_def)
  show "hn_parent (node_at (heap_node_swap P C h) q) =
      (if q = C then hn_parent (node_at h P) else if q = P then Some C
       else if hn_left (node_at h C) = Some q \<or> hn_right (node_at h C) = Some q then Some P
       else if sib = Some q then Some C else hn_parent (node_at h q))"
    using down assms(1) by (auto simp: eq g3 g1)
  show "hmin (heap_node_swap P C h) = (if hn_parent (node_at h P) = None then Some C else hmin h)"
    "nelts (heap_node_swap P C h) = nelts h"
    by (simp_all add: eq g3)
qed

section \<open>Nodes by number\<close>

text \<open>
  \<open>f i\<close> is node number \<open>i\<close>, counted from 1 row by row. The predicate says that the pointers of the
  heap form the complete binary tree of the nodes \<open>f 1\<close> to \<open>f n\<close>.
\<close>

definition link :: "(nat \<Rightarrow> 'p) \<Rightarrow> nat \<Rightarrow> nat \<Rightarrow> 'p option" where
  "link f n j = (if j \<le> n then Some (f j) else None)"

definition heap_rep :: "'p heap \<Rightarrow> nat \<Rightarrow> (nat \<Rightarrow> 'p) \<Rightarrow> bool" where
  "heap_rep h n f \<longleftrightarrow> unat (nelts h) = n \<and> inj_on f {1..n} \<and> hmin h = link f n 1 \<and>
     (\<forall>i \<in> {1..n}. hn_left (node_at h (f i)) = link f n (2 * i) \<and> hn_right (node_at h (f i)) = link f n (2 * i + 1) \<and>
        hn_parent (node_at h (f i)) = (if i = 1 then None else Some (f (i div 2))))"

definition swap :: "nat \<Rightarrow> nat \<Rightarrow> (nat \<Rightarrow> 'p) \<Rightarrow> nat \<Rightarrow> 'p" where
  "swap i j f = f(i := f j, j := f i)"

lemma heap_rep_node:
  assumes "heap_rep h n f" and "1 \<le> i" and "i \<le> n"
  shows "hn_left (node_at h (f i)) = link f n (2 * i)" "hn_right (node_at h (f i)) = link f n (2 * i + 1)"
    "hn_parent (node_at h (f i)) = (if i = 1 then None else Some (f (i div 2)))"
  using assms by (auto simp: heap_rep_def)

lemma link_eq_Some:
  "inj_on f {1..n} \<Longrightarrow> 1 \<le> a \<Longrightarrow> 1 \<le> b \<Longrightarrow> b \<le> n \<Longrightarrow> link f n a = Some (f b) \<longleftrightarrow> a = b"
  unfolding link_def by (auto simp only: inj_on_eq_iff atLeastAtMost_iff option.inject option.distinct if_True if_False split: if_splits)

lemma swap_apply [simp]: "swap i j f k = (if k = j then f i else if k = i then f j else f k)"
  by (simp add: swap_def)

lemma swap_inj:
  assumes "inj_on f {1..n}" and "i \<in> {1..n}" and "j \<in> {1..n}"
  shows "inj_on (swap i j f) {1..n}"
proof (rule inj_onI)
  fix x y assume "x \<in> {1..n}" "y \<in> {1..n}" "swap i j f x = swap i j f y"
  then show "x = y"
    using assms(2,3) by (simp only: swap_apply inj_on_eq_iff [OF assms(1)] split: if_splits)
qed

lemma swap_image: "i \<in> {1..n} \<Longrightarrow> j \<in> {1..n} \<Longrightarrow> swap i j f ` {1..n} = f ` {1..n}"
  by (auto simp: image_def)

lemma heap_rep_swap:
  assumes rep: "heap_rep h n f" and j: "2 \<le> j" "j \<le> n"
  shows "heap_rep (heap_node_swap (f (j div 2)) (f j) h) n (swap (j div 2) j f)"
proof -
  define i where "i = j div 2"
  define s where "s = (if even j then j + 1 else j - 1)"
  define h' where "h' = heap_node_swap (f i) (f j) h"
  define f' where "f' = swap i j f"
  have i: "1 \<le> i" "i \<le> n" "i < j" "j = 2 * i \<or> j = 2 * i + 1" using j by (auto simp: i_def)
  have inj: "inj_on f {1..n}" using rep by (simp add: heap_rep_def)
  have eq: "f a = f b \<longleftrightarrow> a = b" if "1 \<le> a" "a \<le> n" "1 \<le> b" "b \<le> n" for a b
    by (rule inj_on_eq_iff [OF inj]) (use that in simp_all)
  note nd = heap_rep_node [OF rep]
  have ni: "hn_left (node_at h (f i)) = link f n (2 * i)" "hn_right (node_at h (f i)) = link f n (2 * i + 1)"
    "hn_parent (node_at h (f i)) = (if i = 1 then None else Some (f (i div 2)))" using nd i(1,2) by simp_all
  have nj: "hn_left (node_at h (f j)) = link f n (2 * j)" "hn_right (node_at h (f j)) = link f n (2 * j + 1)"
    using nd j by simp_all
  have is_left: "hn_left (node_at h (f i)) = Some (f j) \<longleftrightarrow> j = 2 * i"
    unfolding ni using link_eq_Some [OF inj, of "2 * i" j] i(1) j by auto
  have sib: "link f n s = (if hn_left (node_at h (f i)) = Some (f j) then hn_right (node_at h (f i)) else hn_left (node_at h (f i)))"
    unfolding is_left unfolding ni using i(4) by (auto simp: s_def)
  have s: "1 \<le> s" "s \<noteq> i" "s \<noteq> j" "s div 2 = i" using i(4) i(1) unfolding s_def by auto
  have ne: "f i \<noteq> f j" using eq [of i j] i j by simp
  have far: "q \<noteq> f i \<and> q \<noteq> f j"
    if "link f n s = Some q \<or> hn_left (node_at h (f j)) = Some q \<or> hn_right (node_at h (f j)) = Some q \<or> hn_parent (node_at h (f i)) = Some q" for q
  proof -
    have "link f n s = Some q \<or> link f n (2 * j) = Some q \<or> link f n (2 * j + 1) = Some q \<or> i \<noteq> 1 \<and> q = f (i div 2)"
      using that unfolding nj ni by (auto split: if_splits)
    then have "\<exists>a \<in> {s, 2 * j, 2 * j + 1, i div 2}. q = f a \<and> 1 \<le> a \<and> a \<le> n"
      using i(1,2) j s(1) by (elim disjE) (auto simp: link_def split: if_splits)
    then obtain a where "q = f a" "1 \<le> a" "a \<le> n" "a \<noteq> i" "a \<noteq> j"
      using s(2,3) i(1,3) j(1) by auto
    then show ?thesis using eq [of a i] eq [of a j] i(1,2) j by simp
  qed
  then have "\<forall>q. link f n s = Some q \<or> hn_left (node_at h (f j)) = Some q \<or> hn_right (node_at h (f j)) = Some q \<or>
      hn_parent (node_at h (f i)) = Some q \<longrightarrow> q \<noteq> f i \<and> q \<noteq> f j" by blast
  note fields = swap_fields [OF ne sib this, folded h'_def, unfolded is_left, unfolded nj ni]
  have "hn_left (node_at h' (f' k)) = link f' n (2 * k) \<and> hn_right (node_at h' (f' k)) = link f' n (2 * k + 1) \<and>
      hn_parent (node_at h' (f' k)) = (if k = 1 then None else Some (f' (k div 2)))" if k: "k \<in> {1..n}" for k
  proof -
    consider "k = i" | "k = j" | "k \<noteq> i" "k \<noteq> j" by blast
    then show ?thesis
    proof cases
      case 1
      have "f' i = f j" "f' (i div 2) = f (i div 2)" if "i \<noteq> 1" using i(1,3) that by (auto simp: f'_def)
      with 1 i(4) show ?thesis using i(1,3) j ne by (elim disjE) (simp_all add: f'_def fields link_def)
    next
      case 2
      have "f' j = f i" "f' (2 * j) = f (2 * j)" "f' (2 * j + 1) = f (2 * j + 1)" "f' i = f j" using i(1,3) j by (auto simp: f'_def)
      with 2 show ?thesis using i(1,3) j ne unfolding fields link_def by (simp add: i_def [symmetric])
    next
      case 3
      have k1: "1 \<le> k" "k \<le> n" using k by auto
      have sub: "2 * k \<noteq> j" "2 * k + 1 \<noteq> j" using 3 i by auto
      have fk: "f' k = f k" "f k \<noteq> f i" "f k \<noteq> f j" using 3 eq k1 i j by (auto simp: f'_def)
      have up: "(if i = 1 then None else Some (f (i div 2))) = Some (f k) \<longleftrightarrow> i = 2 * k \<or> i = 2 * k + 1"
        using eq [of "i div 2" k] i k1 by auto
      have left: "hn_left (node_at h (f k)) = Some (f i) \<longleftrightarrow> i = 2 * k"
        unfolding nd [OF k1] using link_eq_Some [OF inj, of "2 * k" i] i k1 by auto
      have kids: "link f n (2 * j) = Some (f k) \<longleftrightarrow> k = 2 * j" "link f n (2 * j + 1) = Some (f k) \<longleftrightarrow> k = 2 * j + 1"
        "link f n s = Some (f k) \<longleftrightarrow> k = s"
        using link_eq_Some [OF inj, of "2 * j" k] link_eq_Some [OF inj, of "2 * j + 1" k] link_eq_Some [OF inj, of s k] k1 j s by auto
      have "hn_left (node_at h' (f' k)) = link f' n (2 * k)"
        unfolding fk fields up left using fk sub i nd(1) [OF k1] by (auto simp: link_def f'_def)
      moreover have "hn_right (node_at h' (f' k)) = link f' n (2 * k + 1)"
        unfolding fk fields up left using fk sub i nd(2) [OF k1] by (auto simp: link_def f'_def)
      moreover have "hn_parent (node_at h' (f' k)) = (if k = 1 then None else Some (f' (k div 2)))"
      proof -
        have f': "f' i = f j" "f' j = f i" "a \<noteq> i \<Longrightarrow> a \<noteq> j \<Longrightarrow> f' a = f a" for a using i(3) by (auto simp: f'_def)
        note field = fields(3) [of "f k", unfolded kids, folded fk(1)]
        have third: "k = s \<or> k div 2 \<noteq> i" using 3(2) i(4) by (auto simp: s_def)
        consider "k div 2 = j" | "k = s" | "k div 2 \<noteq> j" "k \<noteq> s" by blast
        then show ?thesis
        proof cases
          case 1
          then have "k = 2 * j \<or> k = 2 * j + 1" "k \<noteq> 1" using j by auto
          then show ?thesis using field fk f' 1 by simp
        next
          case 2
          then have "k \<noteq> 2 * j" "k \<noteq> 2 * j + 1" "k \<noteq> 1" "k div 2 = i" using s(4) i(1,3) by auto
          then show ?thesis using field fk f' 2 by simp
        next
          case 3
          then have "k \<noteq> 2 * j" "k \<noteq> 2 * j + 1" by auto
          then show ?thesis using field fk f' 3 third nd(3) [OF k1] by simp
        qed
      qed
      ultimately show ?thesis by blast
    qed
  qed
  moreover have "hmin h' = link f' n 1"
    using rep i j unfolding fields by (auto simp: heap_rep_def link_def f'_def)
  moreover have "unat (nelts h') = n" using rep unfolding fields by (simp add: heap_rep_def)
  moreover have "inj_on f' {1..n}" unfolding f'_def using swap_inj [OF inj] i j by simp
  ultimately have "heap_rep h' n f'" unfolding heap_rep_def by blast
  then show ?thesis by (simp only: h'_def f'_def i_def)
qed

section \<open>Finding a node by its number\<close>

fun pos :: "nat \<Rightarrow> nat \<Rightarrow> nat \<Rightarrow> nat" where
  "pos p path 0 = p"
| "pos p path (Suc k) = pos (2 * p + path mod 2) (path div 2) k"

lemma pos_ge: "1 \<le> p \<Longrightarrow> p \<le> pos p path k"
proof (induction k arbitrary: p path)
  case (Suc k)
  have "2 * p + path mod 2 \<le> pos p path (Suc k)" using Suc.IH [of "2 * p + path mod 2" "path div 2"] Suc.prems by simp
  then show ?case by linarith
qed simp

lemma pos_parent: "1 \<le> p \<Longrightarrow> p \<le> pos p path (Suc k) div 2"
  using pos_ge [of "2 * p + path mod 2" "path div 2" k] by simp

lemma path_step:
  assumes "unat path < 2 ^ k" and "2 \<le> unat n" and "unat n * 2 ^ k < 2 ^ 32"
  shows "unat (push_bit 1 path OR (n AND 1) :: u32) = 2 * unat path + unat n mod 2"
proof -
  have "2 * 2 ^ k \<le> unat n * 2 ^ k" using assms(2) by simp
  then have small: "2 * unat path + 1 < 2 ^ 32" using assms(1,3) by linarith
  have "unat (push_bit 1 path) = 2 * unat path" using small by (simp add: push_bit_eq_mult unat_word_ariths)
  moreover have "unat (n AND 1) = unat n mod 2" by (simp add: and_one_eq unat_mod)
  moreover have "push_bit 1 path AND (n AND 1) = 0" 
    by (rule bit_word_eqI) (auto simp only: bit_and_iff bit_push_bit_iff bit_1_iff bit_0_eq bot_apply bot_bool_def)
  ultimately show ?thesis
    using small by (simp add: disjunctive_add_eq_or [symmetric] unat_word_ariths del: One_nat_def)
qed

lemma heap_path_pos:
  assumes "1 \<le> unat n" and "unat path < 2 ^ k" and "unat n * 2 ^ k < 2 ^ 32" and "heap_path path k n = (path', k')"
  shows "pos 1 (unat path') k' = pos (unat n) (unat path) k"
  using assms
proof (induction path k n rule: heap_path.induct)
  case (1 path k n)
  show ?case
  proof (cases "n \<ge> 2")
    case True
    then have n2: "2 \<le> unat n" by (simp add: word_le_nat_alt)
    note step = path_step [OF "1.prems"(2) n2 "1.prems"(3)]
    have half: "unat (n div 2) = unat n div 2" by (simp add: unat_div)
    have "unat n div 2 * 2 ^ (k + 1) = unat n div 2 * 2 * 2 ^ k" by simp
    also have "\<dots> \<le> unat n * 2 ^ k" by (rule mult_right_mono) simp_all
    finally have "unat n div 2 * 2 ^ (k + 1) < 2 ^ 32" using "1.prems"(3) by linarith
    moreover have "heap_path (push_bit 1 path OR (n AND 1)) (k + 1) (n div 2) = (path', k')"
      using "1.prems"(4) True by (simp add: heap_path.simps [of path k n])
    moreover have "unat (push_bit 1 path OR (n AND 1)) < 2 ^ (k + 1)" using step "1.prems"(2) by simp
    ultimately have "pos 1 (unat path') k' = pos (unat n div 2) (2 * unat path + unat n mod 2) (k + 1)"
      using "1.IH" [OF True] n2 unfolding step half by simp
    then show ?thesis by simp
  next
    case False
    then have "unat n = 1" using "1.prems"(1) by (simp add: word_le_nat_alt)
    then show ?thesis using "1.prems"(4) False by (simp add: heap_path.simps [of path k n])
  qed
qed

definition slot_of :: "(nat \<Rightarrow> 'p) \<Rightarrow> nat \<Rightarrow> 'p slot" where
  "slot_of f m = (if m \<le> 1 then RootSlot else if even m then LeftOf (f (m div 2)) else RightOf (f (m div 2)))"

lemma slot_get_slot_of:
  assumes "heap_rep h n f" and "1 \<le> m" and "m div 2 \<le> n"
  shows "slot_get h (slot_of f m) = link f n m"
proof (cases "m = 1")
  case True
  then show ?thesis using assms(1) by (simp add: slot_of_def heap_rep_def)
next
  case False
  then have m: "1 \<le> m div 2" "m = 2 * (m div 2) \<or> m = 2 * (m div 2) + 1" using assms(2) by auto
  then show ?thesis
    using False heap_rep_node [OF assms(1) m(1) assms(3)] by (auto simp: slot_of_def)
qed

lemma heap_descend_pos:
  assumes "heap_rep h n f" and "1 \<le> p" and "pos p (unat path) k div 2 \<le> n"
  shows "heap_descend h (slot_of f (p div 2), slot_of f p) path k =
    Some (slot_of f (pos p (unat path) k div 2), slot_of f (pos p (unat path) k))"
  using assms
proof (induction k arbitrary: p path)
  case (Suc k)
  define b where "b = unat path mod 2"
  have p: "p \<le> n" using pos_parent [OF Suc.prems(2), of "unat path" k] Suc.prems(3) by linarith
  have "slot_get h (slot_of f p) = Some (f p)"
    using slot_get_slot_of [OF Suc.prems(1,2)] p by (simp add: link_def)
  moreover have "(if path AND 1 \<noteq> 0 then RightOf (f p) else LeftOf (f p)) = slot_of f (2 * p + b)"
  proof -
    have "unat (path AND 1) = b" by (simp add: b_def and_one_eq unat_mod)
    then have "path AND 1 \<noteq> 0 \<longleftrightarrow> b \<noteq> 0" using unat_eq_zero [of "path AND 1"] by simp
    then show ?thesis using Suc.prems(2) by (auto simp: slot_of_def b_def)
  qed
  moreover have "unat (drop_bit 1 path) = unat path div 2" by (simp add: drop_bit_eq_div unat_div)
  moreover have "(2 * p + b) div 2 = p" by (simp add: b_def)
  ultimately show ?case
    using Suc.IH [of "2 * p + b" "drop_bit 1 path"] Suc.prems by (simp add: b_def)
qed simp

end
