(* ===== verification/UV_Heap_Order.thy ===== *)
theory UV_Heap_Order
  imports UV_Heap
begin

text \<open>
  What the heap of \<open>UV_Heap\<close> promises, for a comparison that is a strict weak order: the operations
  return, keep the tree complete and ordered, and add or remove exactly the node they are given.
\<close>

section \<open>The order\<close>

locale strict_weak_order =
  fixes lt :: "'p \<Rightarrow> 'p \<Rightarrow> bool"
  assumes asym: "lt a b \<Longrightarrow> \<not> lt b a"
    and neg_trans: "\<not> lt b a \<Longrightarrow> \<not> lt c b \<Longrightarrow> \<not> lt c a"

definition heap_ordered :: "('p \<Rightarrow> 'p \<Rightarrow> bool) \<Rightarrow> (nat \<Rightarrow> 'p) \<Rightarrow> nat \<Rightarrow> bool" where
  "heap_ordered lt f n \<longleftrightarrow> (\<forall>i \<in> {2..n}. \<not> lt (f i) (f (i div 2)))"

text \<open>In order but for node \<open>p\<close> and its parent, respectively but for \<open>p\<close> and its neighbours.\<close>

definition up_to_parent :: "('p \<Rightarrow> 'p \<Rightarrow> bool) \<Rightarrow> (nat \<Rightarrow> 'p) \<Rightarrow> nat \<Rightarrow> nat \<Rightarrow> bool" where
  "up_to_parent lt f n p \<longleftrightarrow> (\<forall>i \<in> {2..n}. i \<noteq> p \<longrightarrow> \<not> lt (f i) (f (i div 2))) \<and>
     (\<forall>c \<in> {2..n}. 2 \<le> p \<longrightarrow> c div 2 = p \<longrightarrow> \<not> lt (f c) (f (p div 2)))"

definition up_to_children :: "('p \<Rightarrow> 'p \<Rightarrow> bool) \<Rightarrow> (nat \<Rightarrow> 'p) \<Rightarrow> nat \<Rightarrow> nat \<Rightarrow> bool" where
  "up_to_children lt f n p \<longleftrightarrow> (\<forall>i \<in> {2..n}. i \<noteq> p \<longrightarrow> i div 2 \<noteq> p \<longrightarrow> \<not> lt (f i) (f (i div 2))) \<and>
     (\<forall>c \<in> {2..n}. 2 \<le> p \<longrightarrow> c div 2 = p \<longrightarrow> \<not> lt (f c) (f (p div 2)))"

lemma up_to_parent_parent: "up_to_parent lt f n p \<Longrightarrow> 2 \<le> i \<Longrightarrow> i \<le> n \<Longrightarrow> i \<noteq> p \<Longrightarrow> \<not> lt (f i) (f (i div 2))"
  by (simp add: up_to_parent_def)

lemma up_to_parent_child: "up_to_parent lt f n p \<Longrightarrow> 2 \<le> c \<Longrightarrow> c \<le> n \<Longrightarrow> 2 \<le> p \<Longrightarrow> c div 2 = p \<Longrightarrow> \<not> lt (f c) (f (p div 2))"
  by (simp add: up_to_parent_def)

lemma up_to_children_parent:
  "up_to_children lt f n p \<Longrightarrow> 2 \<le> i \<Longrightarrow> i \<le> n \<Longrightarrow> i \<noteq> p \<Longrightarrow> i div 2 \<noteq> p \<Longrightarrow> \<not> lt (f i) (f (i div 2))"
  by (simp add: up_to_children_def)

lemma up_to_children_child: "up_to_children lt f n p \<Longrightarrow> 2 \<le> c \<Longrightarrow> c \<le> n \<Longrightarrow> 2 \<le> p \<Longrightarrow> c div 2 = p \<Longrightarrow> \<not> lt (f c) (f (p div 2))"
  by (simp add: up_to_children_def)

lemma heap_orderedD: "heap_ordered lt f n \<Longrightarrow> 2 \<le> i \<Longrightarrow> i \<le> n \<Longrightarrow> \<not> lt (f i) (f (i div 2))"
  by (simp add: heap_ordered_def)

lemma heap_ordered_up: "up_to_parent lt f n p \<Longrightarrow> (2 \<le> p \<Longrightarrow> \<not> lt (f p) (f (p div 2))) \<Longrightarrow> heap_ordered lt f n"
  by (auto simp: up_to_parent_def heap_ordered_def)

context strict_weak_order
begin

lemma irrefl: "\<not> lt a a"
  using asym by blast

lemma ordered_up_to_parent: "heap_ordered lt f n \<Longrightarrow> p \<le> n \<Longrightarrow> up_to_parent lt f n p"
  unfolding up_to_parent_def using heap_orderedD neg_trans [of "f p" "f (p div 2)"] by (metis atLeastAtMost_iff)

text \<open>The root is a minimum.\<close>

lemma root_min: "heap_ordered lt f n \<Longrightarrow> 1 \<le> i \<Longrightarrow> i \<le> n \<Longrightarrow> \<not> lt (f i) (f 1)"
proof (induction i rule: less_induct)
  case (less i)
  show ?case
  proof (cases "i = 1")
    case False
    then have "\<not> lt (f (i div 2)) (f 1)" using less by (intro less.IH) auto
    moreover have "\<not> lt (f i) (f (i div 2))" using heap_orderedD [OF less.prems(1)] False less.prems by simp
    ultimately show ?thesis using neg_trans by blast
  qed (simp add: irrefl)
qed

section \<open>Sifting\<close>

lemma up_to_parent_swap:
  assumes up: "up_to_parent lt f n p" and p: "2 \<le> p" "p \<le> n" and lt: "lt (f p) (f (p div 2))"
  shows "up_to_parent lt (swap (p div 2) p f) n (p div 2)"
proof -
  define q where "q = p div 2"
  have q: "1 \<le> q" "q < p" using p by (auto simp: q_def)
  have pq: "\<not> lt (f q) (f p)" using asym lt by (simp add: q_def)
  note par = up_to_parent_parent [OF up] and kid = up_to_parent_child [OF up]
  have "\<not> lt (swap q p f i) (swap q p f (i div 2))" if i: "2 \<le> i" "i \<le> n" "i \<noteq> q" for i
  proof -
    consider "i = p" | "i \<noteq> p" "i div 2 = q" | "i div 2 = p" | "i \<noteq> p" "i div 2 \<noteq> q" "i div 2 \<noteq> p" by blast
    then show ?thesis
    proof cases
      case 1
      then show ?thesis using pq q by (simp add: q_def [symmetric])
    next
      case 2
      then have "\<not> lt (f i) (f q)" using par [OF i(1,2)] by simp
      then show ?thesis using 2 i(3) q neg_trans [OF pq] by simp
    next
      case 3
      then have "i \<noteq> p" using p by auto
      then show ?thesis using 3 i(3) q kid [OF i(1,2) p(1)] by (simp add: q_def [symmetric])
    next
      case 4
      then show ?thesis using par [OF i(1,2)] i(3) by simp
    qed
  qed
  moreover have "\<not> lt (swap q p f c) (swap q p f (q div 2))" if c: "2 \<le> c" "c \<le> n" "2 \<le> q" "c div 2 = q" for c
  proof -
    have "\<not> lt (f q) (f (q div 2))" using par [of q] q p c(3) by simp
    moreover have "\<not> lt (f c) (f q)" if "c \<noteq> p" using par [OF c(1,2) that] c(4) by simp
    moreover have "swap q p f (q div 2) = f (q div 2)" "swap q p f c = (if c = p then f q else f c)"
      using q c by auto
    ultimately show ?thesis using neg_trans by metis
  qed
  ultimately show ?thesis unfolding up_to_parent_def q_def [symmetric] by simp
qed

lemma heap_up_ok:
  "heap_rep h n f \<Longrightarrow> up_to_parent lt f n p \<Longrightarrow> 1 \<le> p \<Longrightarrow> p \<le> n \<Longrightarrow>
   \<exists>h' f'. heap_up lt (f p) h = Some h' \<and> heap_rep h' n f' \<and> heap_ordered lt f' n \<and> f' ` {1..n} = f ` {1..n}"
proof (induction p arbitrary: h f rule: less_induct)
  case (less p)
  have parent: "hn_parent (node_at h (f p)) = (if p = 1 then None else Some (f (p div 2)))"
    using heap_rep_node(3) less.prems by blast
  show ?case
  proof (cases "2 \<le> p \<and> lt (f p) (f (p div 2))")
    case True
    define g where "g = swap (p div 2) p f"
    have q: "p div 2 < p" "1 \<le> p div 2" "p div 2 \<le> n" using True less.prems by auto
    have "heap_rep (heap_node_swap (f (p div 2)) (f p) h) n g"
      unfolding g_def using heap_rep_swap less.prems True by blast
    moreover have "up_to_parent lt g n (p div 2)" unfolding g_def using up_to_parent_swap less.prems True by blast
    moreover have "g (p div 2) = f p" using q by (simp add: g_def)
    moreover have "g ` {1..n} = f ` {1..n}" unfolding g_def using q less.prems by (intro swap_image) auto
    moreover have "heap_up lt (f p) h = heap_up lt (f p) (heap_node_swap (f (p div 2)) (f p) h)"
      using True parent by (subst heap_up.simps) simp
    ultimately show ?thesis using less.IH [OF q(1), of _ g] q by metis
  next
    case False
    then have "heap_up lt (f p) h = Some h" using parent less.prems(3) by (subst heap_up.simps) auto
    moreover have "heap_ordered lt f n" using heap_ordered_up [OF less.prems(2)] False by blast
    ultimately show ?thesis using less.prems by blast
  qed
qed

lemma smallest_child_ok:
  assumes rep: "heap_rep h n f" and p: "1 \<le> p" "p \<le> n"
  obtains s where "smallest_child lt (f p) h = f s" and "s \<le> n"
    and "s = p \<or> s div 2 = p \<and> 2 \<le> s \<and> lt (f s) (f p)"
    and "\<And>c. 2 \<le> c \<Longrightarrow> c \<le> n \<Longrightarrow> c div 2 = p \<Longrightarrow> \<not> lt (f c) (f s)"
proof -
  define l where "l = (if 2 * p \<le> n \<and> lt (f (2 * p)) (f p) then 2 * p else p)"
  define s where "s = (if 2 * p + 1 \<le> n \<and> lt (f (2 * p + 1)) (f l) then 2 * p + 1 else l)"
  have small: "smallest_child lt (f p) h = f s"
    by (simp add: smallest_child_def heap_rep_node [OF rep p] link_def s_def l_def)
  have l: "\<not> lt (f p) (f l)" using asym irrefl by (simp add: l_def)
  have s_l: "\<not> lt (f l) (f s)" using asym irrefl by (simp add: s_def)
  have left: "\<not> lt (f (2 * p)) (f l)" if "2 * p \<le> n" using that irrefl by (auto simp: l_def)
  have min: "\<not> lt (f c) (f s)" if "2 \<le> c" "c \<le> n" "c div 2 = p" for c
  proof -
    have "c = 2 * p \<or> c = 2 * p + 1" using that(3) by auto
    then consider "c = 2 * p" | "c = 2 * p + 1" by blast
    then show ?thesis
    proof cases
      case 1
      then show ?thesis using neg_trans [OF s_l] left that by simp
    next
      case 2
      then show ?thesis using irrefl that by (auto simp: s_def)
    qed
  qed
  have "s \<le> n" using p by (auto simp: s_def l_def)
  moreover have "s = p \<or> s div 2 = p \<and> 2 \<le> s \<and> lt (f s) (f p)"
  proof (cases "s = p")
    case False
    then have "lt (f s) (f p)" using neg_trans [OF l, of "f (2 * p + 1)"] by (auto simp: s_def l_def split: if_splits)
    moreover have "s div 2 = p" "2 \<le> s" using False p by (auto simp: s_def l_def split: if_splits)
    ultimately show ?thesis by blast
  qed simp
  ultimately show thesis using that [OF small] min by blast
qed

lemma up_to_children_swap:
  assumes up: "up_to_children lt f n p" and p: "1 \<le> p" and s: "2 \<le> s" "s \<le> n" "s div 2 = p"
    and lt: "lt (f s) (f p)" and min: "\<And>c. 2 \<le> c \<Longrightarrow> c \<le> n \<Longrightarrow> c div 2 = p \<Longrightarrow> \<not> lt (f c) (f s)"
  shows "up_to_children lt (swap p s f) n s"
proof -
  have ps: "p < s" using s p by auto
  note par = up_to_children_parent [OF up] and kid = up_to_children_child [OF up]
  have "\<not> lt (swap p s f i) (swap p s f (i div 2))" if i: "2 \<le> i" "i \<le> n" "i \<noteq> s" "i div 2 \<noteq> s" for i
  proof -
    consider "i = p" | "i \<noteq> p" "i div 2 = p" | "i \<noteq> p" "i div 2 \<noteq> p" by blast
    then show ?thesis
    proof cases
      case 1
      then have "\<not> lt (f s) (f (p div 2))" using kid [OF s(1,2) _ s(3)] i(1) by simp
      then show ?thesis using 1 ps i(1) by auto
    next
      case 2
      then show ?thesis using min [OF i(1,2)] i ps by simp
    next
      case 3
      then show ?thesis using par [OF i(1,2)] i by simp
    qed
  qed
  moreover have "\<not> lt (swap p s f c) (swap p s f (s div 2))" if c: "2 \<le> c" "c \<le> n" "c div 2 = s" for c
  proof -
    have "c \<noteq> p" "c \<noteq> s" using c ps by auto
    then show ?thesis using par [OF c(1,2)] c(3) s(3) ps by simp
  qed
  ultimately show ?thesis unfolding up_to_children_def by simp
qed

text \<open>Sinking the node at \<open>p\<close> leaves it at some number \<open>q\<close>, where only the order to its parent is open.\<close>

lemma heap_down_ok:
  "heap_rep h n f \<Longrightarrow> up_to_children lt f n p \<Longrightarrow> 1 \<le> p \<Longrightarrow> p \<le> n \<Longrightarrow>
   \<exists>h' f' q. heap_down lt (f p) h = Some h' \<and> heap_rep h' n f' \<and> up_to_parent lt f' n q \<and> 1 \<le> q \<and> q \<le> n \<and>
     f' q = f p \<and> f' ` {1..n} = f ` {1..n}"
proof (induction "n - p" arbitrary: p h f rule: less_induct)
  case less
  obtain s where small: "smallest_child lt (f p) h = f s" and s: "s \<le> n" "s = p \<or> s div 2 = p \<and> 2 \<le> s \<and> lt (f s) (f p)"
    and min: "\<And>c. 2 \<le> c \<Longrightarrow> c \<le> n \<Longrightarrow> c div 2 = p \<Longrightarrow> \<not> lt (f c) (f s)"
    using smallest_child_ok [OF less.prems(1,3,4)] by blast
  show ?case
  proof (cases "s = p")
    case True
    then have "heap_down lt (f p) h = Some h" using small by (subst heap_down.simps) (simp add: Let_def)
    moreover have "\<not> lt (f i) (f (i div 2))" if "2 \<le> i" "i \<le> n" "i \<noteq> p" for i
      using up_to_children_parent [OF less.prems(2) that] min [OF that(1,2)] True by (cases "i div 2 = p") simp_all
    then have "up_to_parent lt f n p"
      using up_to_children_child [OF less.prems(2)] by (simp add: up_to_parent_def)
    ultimately show ?thesis using less.prems by blast
  next
    case False
    then have child: "s div 2 = p" "2 \<le> s" "lt (f s) (f p)" using s(2) by simp_all
    define g where "g = swap p s f"
    have down: "heap_down lt (f p) h = heap_down lt (f p) (heap_node_swap (f p) (f s) h)"
      using small child(3) irrefl by (subst heap_down.simps) (auto simp: Let_def)
    have swap: "heap_rep (heap_node_swap (f p) (f s) h) n g"
      unfolding g_def using heap_rep_swap [OF less.prems(1) child(2) s(1)] child(1) by simp
    have up: "up_to_children lt g n s"
      unfolding g_def using up_to_children_swap [OF less.prems(2,3) child(2) s(1) child(1) child(3) min] by blast
    have ps: "n - s < n - p" "1 \<le> s" using child less.prems(3) s(1) by auto
    have gs: "g s = f p" by (simp add: g_def)
    have "g ` {1..n} = f ` {1..n}" unfolding g_def using s(1) ps less.prems by (intro swap_image) auto
    then show ?thesis
      using less.hyps [OF ps(1) swap up ps(2) s(1)] unfolding gs down by metis
  qed
qed

end

section \<open>Adding and removing the last node\<close>

lemma heap_rep_inj: "heap_rep h n f \<Longrightarrow> inj_on f {1..n}"
  by (simp add: heap_rep_def)

lemma heap_rep_intro:
  assumes "unat (nelts h) = n" and "inj_on f {1..n}" and "hmin h = link f n 1"
    and "\<And>i. 1 \<le> i \<Longrightarrow> i \<le> n \<Longrightarrow> hn_left (node_at h (f i)) = link f n (2 * i) \<and> hn_right (node_at h (f i)) = link f n (2 * i + 1) \<and>
      hn_parent (node_at h (f i)) = (if i = 1 then None else Some (f (i div 2)))"
  shows "heap_rep h n f"
  unfolding heap_rep_def using assms by simp

lemma heap_rep_fresh:
  assumes "heap_rep h n f" and "x \<notin> f ` {1..n}"
  shows "heap_rep (set_node x nd h) n f"
proof -
  have "f i \<noteq> x" if "1 \<le> i" "i \<le> n" for i using assms(2) that by auto
  then show ?thesis using assms(1) by (simp add: heap_rep_def)
qed

lemma slot_get_nelts: "slot_get (h\<lparr>nelts := m\<rparr>) sl = slot_get h sl"
  by (cases sl) simp_all

lemma slot_set_fields:
  "hn_left (node_at (slot_set sl v h) q) = (if sl = LeftOf q then v else hn_left (node_at h q))"
  "hn_right (node_at (slot_set sl v h) q) = (if sl = RightOf q then v else hn_right (node_at h q))"
  "hn_parent (node_at (slot_set sl v h) q) = hn_parent (node_at h q)"
  "hmin (slot_set sl v h) = (if sl = RootSlot then v else hmin h)"
  "nelts (slot_set sl v h) = nelts h"
  by (cases sl; auto)+

lemma slot_of_eq:
  assumes "inj_on f {1..n}" and "1 \<le> i" and "i \<le> n" and "m div 2 \<le> n"
  shows "slot_of f m = LeftOf (f i) \<longleftrightarrow> m = 2 * i" and "slot_of f m = RightOf (f i) \<longleftrightarrow> m = 2 * i + 1"
    and "slot_of f m = RootSlot \<longleftrightarrow> m \<le> 1"
proof -
  have "f (m div 2) = f i \<longleftrightarrow> m div 2 = i" if "2 \<le> m"
    by (rule inj_on_eq_iff [OF assms(1)]) (use assms that in auto)
  then show "slot_of f m = LeftOf (f i) \<longleftrightarrow> m = 2 * i" and "slot_of f m = RightOf (f i) \<longleftrightarrow> m = 2 * i + 1"
    and "slot_of f m = RootSlot \<longleftrightarrow> m \<le> 1"
    using assms(2) by (auto simp: slot_of_def)
qed

lemma heap_rep_attach:
  assumes rep: "heap_rep h n f" and fresh: "x \<notin> f ` {1..n}" and leaf: "hn_left (node_at h x) = None" "hn_right (node_at h x) = None"
    and N: "N = Suc n" and room: "N < 2 ^ 32"
    and h': "h' = (let g = slot_set (slot_of f N) (Some x) (set_parent x (slot_get h (slot_of f (N div 2))) h)
                  in g\<lparr>nelts := nelts g + 1\<rparr>)"
  shows "heap_rep h' N (f(N := x))"
proof -
  define f' where "f' = f(N := x)"
  note inj = heap_rep_inj [OF rep]
  have ne: "f i \<noteq> x" if "1 \<le> i" "i \<le> n" for i using fresh that by auto
  have half: "N div 2 \<le> n" if "1 \<le> n" using that by (simp add: N)
  have up: "slot_get h (slot_of f (N div 2)) = (if n = 0 then None else Some (f (N div 2)))"
  proof (cases "n = 0")
    case True
    then show ?thesis using rep by (simp add: slot_of_def heap_rep_def link_def N)
  next
    case False
    then have m: "1 \<le> N div 2" "N div 2 \<le> n" by (auto simp: N)
    then show ?thesis using False slot_get_slot_of [OF rep m(1)] by (simp add: link_def)
  qed
  have no_x: "slot_of f N \<noteq> LeftOf x" "slot_of f N \<noteq> RightOf x" "slot_of f N = RootSlot \<longleftrightarrow> n = 0"
  proof -
    define m where "m = N div 2"
    have "f m \<noteq> x" if "1 \<le> n" using ne [OF _ half [OF that]] that by (simp add: m_def N)
    then show "slot_of f N \<noteq> LeftOf x" "slot_of f N \<noteq> RightOf x" "slot_of f N = RootSlot \<longleftrightarrow> n = 0"
      unfolding slot_of_def m_def [symmetric] using N by auto
  qed
  note fields = slot_set_fields up leaf no_x
  show ?thesis unfolding f'_def [symmetric]
  proof (rule heap_rep_intro)
    show "unat (nelts h') = N"
      using rep room by (simp add: h' Let_def slot_set_fields heap_rep_def unat_word_ariths N)
    show "inj_on f' {1..N}"
      using inj fresh by (simp add: f'_def N atLeastAtMostSuc_conv inj_on_fun_updI image_iff)
    show "hmin h' = link f' N 1"
    proof -
      have "hmin h = link f n 1" using rep by (simp add: heap_rep_def)
      then have "hmin h' = (if n = 0 then Some x else link f n 1)" by (simp add: h' Let_def slot_set_fields no_x(3))
      then show ?thesis by (auto simp: link_def f'_def N)
    qed
    fix i assume i: "1 \<le> i" "i \<le> N"
    show "hn_left (node_at h' (f' i)) = link f' N (2 * i) \<and> hn_right (node_at h' (f' i)) = link f' N (2 * i + 1) \<and>
        hn_parent (node_at h' (f' i)) = (if i = 1 then None else Some (f' (i div 2)))"
    proof (cases "i = N")
      case True
      have at_x: "hn_left (node_at h' x) = None" "hn_right (node_at h' x) = None"
        "hn_parent (node_at h' x) = (if n = 0 then None else Some (f (N div 2)))"
        by (simp_all add: h' Let_def fields)
      have "f' i = x" "f' (i div 2) = f (N div 2)" "i = 1 \<longleftrightarrow> n = 0" using True by (auto simp: f'_def N)
      then show ?thesis using True at_x i(1) by (simp add: link_def)
    next
      case False
      then have i': "i \<le> n" using i N by simp
      have "f' i = f i" "f' (i div 2) = f (i div 2)" using i' N by (auto simp: f'_def)
      moreover have "slot_of f N = LeftOf (f i) \<longleftrightarrow> N = 2 * i" "slot_of f N = RightOf (f i) \<longleftrightarrow> N = 2 * i + 1"
        using slot_of_eq [OF inj i(1) i', of "N"] half i i' by auto
      ultimately show ?thesis
        using heap_rep_node [OF rep i(1) i'] ne [OF i(1) i']
        N by (auto simp: h' Let_def slot_set_fields link_def f'_def)
    qed
  qed
qed

lemma heap_rep_detach:
  assumes rep: "heap_rep h n f" and n: "1 \<le> n"
    and h': "h' = slot_set (slot_of f n) None (h\<lparr>nelts := nelts h - 1\<rparr>)"
  shows "heap_rep h' (n - 1) f"
proof (rule heap_rep_intro)
  note inj = heap_rep_inj [OF rep]
  show "unat (nelts h') = n - 1"
  proof -
    have "unat (nelts h) = n" using rep by (simp add: heap_rep_def)
    moreover from this have "nelts h \<noteq> 0" using n by auto
    ultimately show ?thesis by (simp add: h' slot_set_fields unat_minus_one)
  qed
  show "inj_on f {1..n - 1}" using inj by (rule inj_on_subset) auto
  show "hmin h' = link f (n - 1) 1"
    using rep n slot_of_eq(3) [OF inj n, of n] by (auto simp: h' slot_set_fields heap_rep_def link_def)
  fix i assume i: "1 \<le> i" "i \<le> n - 1"
  then have i': "i \<le> n" by simp
  have "slot_of f n = LeftOf (f i) \<longleftrightarrow> n = 2 * i" "slot_of f n = RightOf (f i) \<longleftrightarrow> n = 2 * i + 1"
    using slot_of_eq [OF inj i(1) i', of n] by auto
  then show "hn_left (node_at h' (f i)) = link f (n - 1) (2 * i) \<and> hn_right (node_at h' (f i)) = link f (n - 1) (2 * i + 1) \<and>
      hn_parent (node_at h' (f i)) = (if i = 1 then None else Some (f (i div 2)))"
    using heap_rep_node [OF rep i(1) i'] i by (auto simp: h' slot_set_fields link_def)
qed

lemma heap_rep_replace:
  assumes rep: "heap_rep h n f" and p: "1 \<le> p" "p \<le> n" and fresh: "x \<notin> f ` {1..n}"
    and h': "h' = (let h = set_left x (hn_left (node_at h (f p))) h;
                       h = set_right x (hn_right (node_at h (f p))) h;
                       h = set_parent x (hn_parent (node_at h (f p))) h;
                       h = set_parent_of (hn_left (node_at h x)) (Some x) h;
                       h = set_parent_of (hn_right (node_at h x)) (Some x) h
                   in relink (hn_parent (node_at h (f p))) (f p) x h)"
  shows "heap_rep h' n (f(p := x))"
proof -
  define f' where "f' = f(p := x)"
  note inj = heap_rep_inj [OF rep]
  note np = heap_rep_node [OF rep p]
  have ne: "f i \<noteq> x" if "1 \<le> i" "i \<le> n" for i using fresh that by auto
  have eq: "f a = f b \<longleftrightarrow> a = b" if "1 \<le> a" "a \<le> n" "1 \<le> b" "b \<le> n" for a b
    by (rule inj_on_eq_iff [OF inj]) (use that in simp_all)
  have not_x: "link f n a \<noteq> Some x" if "1 \<le> a" for a using ne that by (auto simp: link_def)
  have not_p: "link f n a = Some (f b) \<longleftrightarrow> a = b" if "1 \<le> a" "1 \<le> b" "b \<le> n" for a b
    using link_eq_Some [OF inj that] .
  have apart: "link f n (2 * p) \<noteq> Some (f p)" "link f n (2 * p + 1) \<noteq> Some (f p)" "f p \<noteq> x" "x \<noteq> f p"
    "link f n (2 * p) \<noteq> Some x" "link f n (2 * p + 1) \<noteq> Some x"
    using not_p [of "2 * p" p] not_p [of "2 * p + 1" p] ne [OF p] not_x [of "2 * p"] not_x [of "2 * p + 1"] p by auto
  define up where "up = (if p = 1 then None else Some (f (p div 2)))"
  note np = np [folded up_def]
  have up_x: "up \<noteq> Some x" using ne [of "p div 2"] p by (auto simp: up_def)
  have at_x: "hn_left (node_at h' x) = link f n (2 * p)" "hn_right (node_at h' x) = link f n (2 * p + 1)" "hn_parent (node_at h' x) = up"
    using apart up_x by (simp_all add: h' Let_def np)
  have off_x: "hn_left (node_at h' q) = (if up = Some q \<and> hn_left (node_at h q) = Some (f p) then Some x else hn_left (node_at h q))"
    "hn_right (node_at h' q) = (if up = Some q \<and> hn_left (node_at h q) \<noteq> Some (f p) then Some x else hn_right (node_at h q))"
    "hn_parent (node_at h' q) = (if link f n (2 * p) = Some q \<or> link f n (2 * p + 1) = Some q then Some x else hn_parent (node_at h q))"
    if "q \<noteq> x" for q
    using apart that by (simp_all add: h' Let_def np)
  have glob: "hmin h' = (if up = None then Some x else hmin h)" "nelts h' = nelts h"
    using apart by (simp_all add: h' Let_def np)
  show ?thesis unfolding f'_def [symmetric]
  proof (rule heap_rep_intro)
    show "unat (nelts h') = n" using rep by (simp add: glob heap_rep_def)
    show "inj_on f' {1..n}" unfolding f'_def by (rule inj_on_fun_updI [OF inj]) (use fresh in auto)
    show "hmin h' = link f' n 1"
      using rep p by (auto simp: glob up_def link_def f'_def heap_rep_def)
    fix i assume i: "1 \<le> i" "i \<le> n"
    show "hn_left (node_at h' (f' i)) = link f' n (2 * i) \<and> hn_right (node_at h' (f' i)) = link f' n (2 * i + 1) \<and>
        hn_parent (node_at h' (f' i)) = (if i = 1 then None else Some (f' (i div 2)))"
    proof (cases "i = p")
      case True
      have "f' p = x" "f' (2 * p) = f (2 * p)" "f' (2 * p + 1) = f (2 * p + 1)" "p = 1 \<or> f' (p div 2) = f (p div 2)"
        using p by (auto simp: f'_def)
      then show ?thesis using True at_x by (auto simp: link_def up_def)
    next
      case False
      note ni = heap_rep_node [OF rep i]
      have fi: "f' i = f i" "f i \<noteq> x" using False ne [OF i] by (simp_all add: f'_def)
      have above: "up = Some (f i) \<longleftrightarrow> p = 2 * i \<or> p = 2 * i + 1"
        using eq [of "p div 2" i] p i by (auto simp: up_def)
      have left: "link f n (2 * i) = Some (f p) \<longleftrightarrow> p = 2 * i" using not_p [of "2 * i" p] p i by auto
      have kids: "link f n (2 * p) = Some (f i) \<or> link f n (2 * p + 1) = Some (f i) \<longleftrightarrow> i div 2 = p \<and> i \<noteq> 1"
        using not_p [of "2 * p" i] not_p [of "2 * p + 1" i] p i by auto
      have f': "f' j = (if j = p then x else f j)" for j by (simp add: f'_def)
      have "hn_left (node_at h' (f' i)) = link f' n (2 * i)"
        unfolding fi(1) off_x [OF fi(2)] above ni left using p by (auto simp: link_def f'_def)
      moreover have "hn_right (node_at h' (f' i)) = link f' n (2 * i + 1)"
        unfolding fi(1) off_x [OF fi(2)] above ni left using p by (auto simp: link_def f'_def)
      moreover have "hn_parent (node_at h' (f' i)) = (if i = 1 then None else Some (f' (i div 2)))"
        unfolding fi(1) off_x [OF fi(2)] kids ni using f' p by auto
      ultimately show ?thesis by blast
    qed
  qed
qed

section \<open>Insertion and removal\<close>

text \<open>The heap \<open>h\<close> is well formed and holds the nodes \<open>S\<close>.\<close>

definition heap_inv :: "('p \<Rightarrow> 'p \<Rightarrow> bool) \<Rightarrow> 'p heap \<Rightarrow> 'p set \<Rightarrow> bool" where
  "heap_inv lt h S \<longleftrightarrow> (\<exists>n f. heap_rep h n f \<and> heap_ordered lt f n \<and> f ` {1..n} = S)"

lemma heap_path_from_root:
  assumes "1 \<le> unat n"
  shows "\<exists>path k. heap_path 0 0 n = (path, k) \<and> pos 1 (unat path) k = unat n"
proof -
  obtain path k where "heap_path 0 0 n = (path, k)" by fastforce
  moreover have "unat n * 2 ^ 0 < 2 ^ 32" using word_unat_lt [of n] by simp
  ultimately show ?thesis using heap_path_pos [OF assms, of 0 0] by auto
qed

lemma root_slots: "slot_of f (1 div 2) = RootSlot" "slot_of f 1 = RootSlot"
  by (simp_all add: slot_of_def)

context strict_weak_order
begin

lemma insert_inv:
  assumes inv: "heap_inv lt h S" and fresh: "x \<notin> S" and room: "unat (nelts h) + 1 < 2 ^ 32"
  shows "\<exists>h'. heap_insert lt x h = Some h' \<and> heap_inv lt h' (insert x S)"
proof -
  obtain n f where rep: "heap_rep h n f" and ord: "heap_ordered lt f n" and S: "f ` {1..n} = S"
    using inv by (auto simp: heap_inv_def)
  have n: "unat (nelts h) = n" using rep by (simp add: heap_rep_def)
  define N where "N = Suc n"
  define h1 where "h1 = set_node x \<lparr>hn_left = None, hn_right = None, hn_parent = None\<rparr> h"
  define h2 where "h2 = (let g = slot_set (slot_of f N) (Some x) (set_parent x (slot_get h1 (slot_of f (N div 2))) h1)
      in g\<lparr>nelts := nelts g + 1\<rparr>)"
  have N: "unat (1 + nelts h1) = N" using room n by (simp add: h1_def N_def unat_word_ariths)
  obtain path k where path: "heap_path 0 0 (1 + nelts h1) = (path, k)" "pos 1 (unat path) k = N"
    using heap_path_from_root [of "1 + nelts h1"] N N_def by auto
  have rep1: "heap_rep h1 n f" unfolding h1_def using heap_rep_fresh [OF rep] fresh S by blast
  have "N div 2 \<le> n" by (cases n) (simp_all add: N_def)
  then have "heap_descend h1 (slot_of f (1 div 2), slot_of f 1) path k = Some (slot_of f (N div 2), slot_of f N)"
    using heap_descend_pos [OF rep1, of 1 path k] path(2) by simp
  then have "heap_insert lt x h = heap_up lt x h2"
    unfolding heap_insert_def h1_def [symmetric] path Let_def prod.case root_slots by (simp add: h2_def Let_def)
  moreover have "heap_rep h2 N (f(N := x))"
    by (rule heap_rep_attach [OF rep1 _ _ _ N_def _ h2_def]) (use fresh S room n in \<open>auto simp: h1_def N_def\<close>)
  moreover have "up_to_parent lt (f(N := x)) N N"
    using heap_orderedD [OF ord] by (auto simp: up_to_parent_def N_def)
  ultimately obtain h' f' where "heap_insert lt x h = Some h'" "heap_rep h' N f'" "heap_ordered lt f' N"
    "f' ` {1..N} = (f(N := x)) ` {1..N}"
    using heap_up_ok [of h2 N "f(N := x)" N] by (auto simp: N_def)
  moreover have "(f(N := x)) ` {1..N} = insert x S"
    unfolding S [symmetric] by (auto simp: N_def atLeastAtMostSuc_conv)
  ultimately show ?thesis unfolding heap_inv_def by metis
qed

lemma remove_inv:
  assumes inv: "heap_inv lt h S" and x: "x \<in> S"
  shows "\<exists>h'. heap_remove lt x h = Some h' \<and> heap_inv lt h' (S - {x}) \<and> unat (nelts h') < unat (nelts h)"
proof -
  obtain n f where rep: "heap_rep h n f" and ord: "heap_ordered lt f n" and S: "f ` {1..n} = S"
    using inv by (auto simp: heap_inv_def)
  have n: "unat (nelts h) = n" using rep by (simp add: heap_rep_def)
  obtain p where p: "1 \<le> p" "p \<le> n" and xp: "x = f p" using x S by auto
  then have n1: "1 \<le> n" by simp
  note inj = heap_rep_inj [OF rep]
  obtain path k where path: "heap_path 0 0 (nelts h) = (path, k)" "pos 1 (unat path) k = n"
    using heap_path_from_root [of "nelts h"] n n1 by auto
  have descend: "heap_descend h (slot_of f (1 div 2), slot_of f 1) path k = Some (slot_of f (n div 2), slot_of f n)"
    using heap_descend_pos [OF rep, of 1 path k] path(2) by simp
  define h1 where "h1 = slot_set (slot_of f n) None (h\<lparr>nelts := nelts h - 1\<rparr>)"
  have rep1: "heap_rep h1 (n - 1) f" by (rule heap_rep_detach [OF rep n1 h1_def])
  have sub: "{1..n} = insert n {1..n - 1}" using n1 by auto
  have ord1: "heap_ordered lt f (n - 1)" using ord by (auto simp: heap_ordered_def)
  have nz: "nelts h \<noteq> 0" using n n1 by auto
  have last: "slot_get (h\<lparr>nelts := nelts h - 1\<rparr>) (slot_of f n) = Some (f n)"
    using slot_get_slot_of [OF rep n1] by (simp add: link_def slot_get_nelts)
  have fn: "f n \<notin> f ` {1..n - 1}" using inj n1 unfolding sub by simp
  note unfold = heap_remove_def path Let_def prod.case if_not_P [OF nz] descend [unfolded root_slots] option.case last h1_def [symmetric]
  show ?thesis
  proof (cases "p = n")
    case True
    have "hmin h1 = link f (n - 1) 1" using rep1 by (simp add: heap_rep_def)
    moreover have "f 1 \<noteq> f n" if "1 \<le> n - 1" using fn that by (metis atLeastAtMost_iff imageI order_refl)
    ultimately have "hmin h1 \<noteq> Some (f n)" by (simp add: link_def)
    then have "heap_remove lt x h = Some h1" unfolding unfold by (simp add: xp True)
    moreover have "f ` {1..n - 1} = S - {x}" using fn unfolding S [symmetric] sub xp True by auto
    ultimately show ?thesis using rep1 ord1 n n1 unfolding heap_inv_def by (auto simp: heap_rep_def)
  next
    case False
    then have p': "p \<le> n - 1" using p by simp
    have ne: "f n \<noteq> f p" using fn p(1) p' by auto
    define h2 where "h2 = (let h = set_left (f n) (hn_left (node_at h1 (f p))) h1;
                       h = set_right (f n) (hn_right (node_at h (f p))) h;
                       h = set_parent (f n) (hn_parent (node_at h (f p))) h;
                       h = set_parent_of (hn_left (node_at h (f n))) (Some (f n)) h;
                       h = set_parent_of (hn_right (node_at h (f n))) (Some (f n)) h
                   in relink (hn_parent (node_at h (f p))) (f p) (f n) h)"
    define g where "g = f(p := f n)"
    have remove: "heap_remove lt x h = (case heap_down lt (f n) h2 of None \<Rightarrow> None | Some h \<Rightarrow> heap_up lt (f n) h)"
      unfolding unfold xp option.inject if_not_P [OF ne] h2_def Let_def ..
    have rep2: "heap_rep h2 (n - 1) g"
      unfolding g_def by (rule heap_rep_replace [OF rep1 p(1) p' fn h2_def])
    have "\<not> lt (g i) (g (i div 2))" if "2 \<le> i" "i \<le> n - 1" "i \<noteq> p" "i div 2 \<noteq> p" for i
      using heap_orderedD [OF ord1 that(1,2)] that by (simp add: g_def)
    moreover have "\<not> lt (g c) (g (p div 2))" if "2 \<le> c" "c \<le> n - 1" "2 \<le> p" "c div 2 = p" for c
    proof -
      have "g c = f c" "g (p div 2) = f (p div 2)" using that by (auto simp: g_def)
      then show ?thesis
        using neg_trans [OF heap_orderedD [OF ord1 that(3) p'], of "f c"] heap_orderedD [OF ord1 that(1,2)] that(4) by simp
    qed
    ultimately have "up_to_children lt g (n - 1) p" unfolding up_to_children_def by simp
    from heap_down_ok [OF rep2 this p(1) p'] obtain h3 f3 q where down: "heap_down lt (f n) h2 = Some h3"
      and rep3: "heap_rep h3 (n - 1) f3" and up3: "up_to_parent lt f3 (n - 1) q" and q: "1 \<le> q" "q \<le> n - 1" "f3 q = f n"
      and S3: "f3 ` {1..n - 1} = g ` {1..n - 1}" by (auto simp: g_def)
    from heap_up_ok [OF rep3 up3 q(1,2)] obtain h4 f4 where up: "heap_up lt (f n) h3 = Some h4"
      and res: "heap_rep h4 (n - 1) f4" "heap_ordered lt f4 (n - 1)" "f4 ` {1..n - 1} = g ` {1..n - 1}"
      unfolding q(3) S3 by blast
    have "g ` {1..n - 1} = S - {x}"
    proof -
      define B where "B = f ` ({1..n - 1} - {p})"
      have "f p \<notin> B"
        unfolding B_def by (subst inj_on_image_mem_iff [OF inj]) (use p p' in auto)
      moreover have "g ` {1..n - 1} = insert (f n) B" using p(1) p' by (auto simp: g_def B_def)
      moreover have "S = insert (f n) (insert (f p) B)"
        unfolding S [symmetric] sub B_def using p(1) p' by auto
      ultimately show ?thesis using ne by (simp add: xp insert_Diff_if)
    qed
    then show ?thesis
      unfolding remove down option.case up heap_inv_def using res n n1 by (auto simp: heap_rep_def)
  qed
qed

lemma min_inv:
  assumes inv: "heap_inv lt h S"
  shows "case heap_min h of None \<Rightarrow> S = {} | Some m \<Rightarrow> m \<in> S \<and> (\<forall>x \<in> S. \<not> lt x m)"
proof -
  obtain n f where rep: "heap_rep h n f" and ord: "heap_ordered lt f n" and S: "f ` {1..n} = S"
    using inv by (auto simp: heap_inv_def)
  have "heap_min h = link f n 1" using rep by (simp add: heap_rep_def heap_min_def)
  then show ?thesis using root_min [OF ord] by (auto simp: link_def S [symmetric])
qed

end

lemma heap_inv_card: "heap_inv lt h S \<Longrightarrow> finite S \<and> card S = unat (nelts h)"
  by (auto simp: heap_inv_def heap_rep_def card_image)

lemma heap_inv_init: "heap_inv lt (heap_init h) {}"
  by (auto simp: heap_inv_def heap_rep_def heap_init_def heap_ordered_def link_def)

section \<open>The contract of a priority queue\<close>

text \<open>
  What a client such as the timers relies on: \<open>inv q S\<close> says that \<open>q\<close> is well formed and holds the
  elements \<open>S\<close>.
\<close>

fun drain :: "('q \<Rightarrow> 'p option) \<Rightarrow> ('p \<Rightarrow> 'q \<Rightarrow> 'q option) \<Rightarrow> nat \<Rightarrow> 'q \<Rightarrow> 'p list option" where
  "drain minimum rem 0 q = Some []"
| "drain minimum rem (Suc n) q = (case minimum q of None \<Rightarrow> Some []
     | Some m \<Rightarrow> (case rem m q of None \<Rightarrow> None | Some q' \<Rightarrow> map_option ((#) m) (drain minimum rem n q')))"

locale priority_queue = strict_weak_order lt for lt :: "'p \<Rightarrow> 'p \<Rightarrow> bool" +
  fixes inv :: "'q \<Rightarrow> 'p set \<Rightarrow> bool" and ins :: "'p \<Rightarrow> 'q \<Rightarrow> 'q option" and rem :: "'p \<Rightarrow> 'q \<Rightarrow> 'q option"
    and minimum :: "'q \<Rightarrow> 'p option" and room :: "'q \<Rightarrow> bool"
  assumes finite: "inv q S \<Longrightarrow> finite S"
    and insert: "inv q S \<Longrightarrow> x \<notin> S \<Longrightarrow> room q \<Longrightarrow> \<exists>q'. ins x q = Some q' \<and> inv q' (insert x S)"
    and remove: "inv q S \<Longrightarrow> x \<in> S \<Longrightarrow> \<exists>q'. rem x q = Some q' \<and> inv q' (S - {x})"
    and minimum: "inv q S \<Longrightarrow> (case minimum q of None \<Rightarrow> S = {} | Some m \<Rightarrow> m \<in> S \<and> (\<forall>x \<in> S. \<not> lt x m))"
begin

lemma minimum_None: "inv q S \<Longrightarrow> minimum q = None \<longleftrightarrow> S = {}"
  using minimum [of q S] by (auto split: option.splits)

lemma minimum_Some: "inv q S \<Longrightarrow> minimum q = Some m \<Longrightarrow> m \<in> S \<and> (\<forall>x \<in> S. \<not> lt x m)"
  using minimum [of q S] by simp

text \<open>Taking the minimum until nothing is left gives the elements in order.\<close>

lemma drain_sorted:
  "inv q S \<Longrightarrow> card S = n \<Longrightarrow>
   \<exists>xs. drain minimum rem n q = Some xs \<and> distinct xs \<and> set xs = S \<and> sorted_wrt (\<lambda>a b. \<not> lt b a) xs"
proof (induction n arbitrary: q S)
  case 0
  then show ?case using finite [OF 0(1)] by simp
next
  case (Suc n)
  then have "S \<noteq> {}" by auto
  then obtain m where m: "minimum q = Some m" using minimum_None [OF Suc.prems(1)] by blast
  note least = minimum_Some [OF Suc.prems(1) m]
  obtain q' where q': "rem m q = Some q'" "inv q' (S - {m})" using remove [OF Suc.prems(1)] least by blast
  have "card (S - {m}) = n" using Suc.prems(2) least by simp
  then obtain xs where "drain minimum rem n q' = Some xs" "distinct xs" "set xs = S - {m}" "sorted_wrt (\<lambda>a b. \<not> lt b a) xs"
    using Suc.IH [OF q'(2)] by blast
  then show ?case using m q' least by (intro exI [of _ "m # xs"]) auto
qed

end

text \<open>The heap of libuv keeps it, whatever the order.\<close>

lemma heap_is_priority_queue:
  assumes "strict_weak_order lt"
  shows "priority_queue lt (heap_inv lt) (heap_insert lt) (heap_remove lt) heap_min (\<lambda>h. unat (nelts h) + 1 < 2 ^ 32)"
proof (intro priority_queue.intro priority_queue_axioms.intro)
  show "strict_weak_order lt" by (rule assms)
  show "finite S" if "heap_inv lt q S" for q S using heap_inv_card [OF that] by blast
  show "\<exists>q'. heap_insert lt x q = Some q' \<and> heap_inv lt q' (insert x S)"
    if "heap_inv lt q S" "x \<notin> S" "unat (nelts q) + 1 < 2 ^ 32" for q S x
    using strict_weak_order.insert_inv [OF assms that] .
  show "\<exists>q'. heap_remove lt x q = Some q' \<and> heap_inv lt q' (S - {x})" if "heap_inv lt q S" "x \<in> S" for q S x
    using strict_weak_order.remove_inv [OF assms that] by blast
  show "case heap_min q of None \<Rightarrow> S = {} | Some m \<Rightarrow> m \<in> S \<and> (\<forall>x \<in> S. \<not> lt x m)" if "heap_inv lt q S" for q S
    using strict_weak_order.min_inv [OF assms that] .
qed

text \<open>The order of the elements only matters on the nodes of the heap.\<close>

lemma heap_inv_cong:
  assumes "heap_inv lt h S" and "\<And>a b. a \<in> S \<Longrightarrow> b \<in> S \<Longrightarrow> lt' a b = lt a b"
  shows "heap_inv lt' h S"
proof -
  obtain n f where f: "heap_rep h n f" "heap_ordered lt f n" "f ` {1..n} = S" using assms(1) by (auto simp: heap_inv_def)
  have "f i \<in> S" if "1 \<le> i" "i \<le> n" for i using f(3) that by auto
  then have "heap_ordered lt' f n" using f(2) assms(2) by (auto simp: heap_ordered_def)
  then show ?thesis using f unfolding heap_inv_def by blast
qed

lemma dequeue_eq: "heap_inv lt h S \<Longrightarrow> heap_dequeue lt h = (case heap_min h of None \<Rightarrow> Some h | Some m \<Rightarrow> heap_remove lt m h)"
  by (auto simp: heap_dequeue_def heap_min_def heap_inv_def heap_rep_def link_def not_less_eq_eq unat_eq_zero split: option.split if_splits)

end
