(* ===== verification/UV_Timer.thy ===== *)
theory UV_Timer
  imports UV_Heap_Order
begin

unbundle bit_operations_syntax

text \<open>
  The timers of libuv (\<open>Libuv-gRPC/src/timer.c\<close> and the handle macros of \<open>uv-common.h\<close>) over the heap
  of \<open>UV_Heap\<close>. There is one loop; \<open>'p\<close> names its timers, and \<open>container_of\<close> is the identity. A
  timer record holds the fields of \<open>uv_timer_t\<close> but for the heap node, which lives in the memory of
  the heap, and the \<open>loop\<close> and \<open>type\<close> fields, which are constant; \<open>closing_handles\<close> is the list that
  starts at the field of this name and follows \<open>next_closing\<close>. A callback is an opaque \<open>'cb\<close>; what it
  does to the loop is a parameter of \<open>uv__run_timers\<close>. \<open>None\<close> stands for a crash or a loop that never
  ends.
\<close>

section \<open>Handles\<close>

definition UV_HANDLE_CLOSING :: u32 where "UV_HANDLE_CLOSING = 1"
definition UV_HANDLE_CLOSED :: u32 where "UV_HANDLE_CLOSED = 2"
definition UV_HANDLE_ACTIVE :: u32 where "UV_HANDLE_ACTIVE = 4"
definition UV_HANDLE_REF :: u32 where "UV_HANDLE_REF = 8"

definition UV_EINVAL :: int where "UV_EINVAL = - 22"

record 'cb uv_timer =
  handle_flags :: u32
  close_cb :: "'cb option"
  timer_cb :: "'cb option"
  tm_timeout :: u64
  tm_repeat :: u64
  start_id :: u64

record ('p, 'cb) uv_loop =
  loop_time :: u64
  timer_counter :: u64
  active_handles :: u32
  handle_queue :: "'p list"
  closing_handles :: "'p list"
  timer_heap :: "'p heap"
  timer_at :: "'p \<Rightarrow> 'cb uv_timer"

definition set_timer :: "'p \<Rightarrow> 'cb uv_timer \<Rightarrow> ('p, 'cb) uv_loop \<Rightarrow> ('p, 'cb) uv_loop" where
  "set_timer p t L = L\<lparr>timer_at := (timer_at L)(p := t)\<rparr>"

definition set_flags :: "'p \<Rightarrow> u32 \<Rightarrow> ('p, 'cb) uv_loop \<Rightarrow> ('p, 'cb) uv_loop" where
  "set_flags p fl L = set_timer p (timer_at L p\<lparr>handle_flags := fl\<rparr>) L"

definition uv__is_active :: "('p, 'cb) uv_loop \<Rightarrow> 'p \<Rightarrow> bool" where
  "uv__is_active L p \<longleftrightarrow> handle_flags (timer_at L p) AND UV_HANDLE_ACTIVE \<noteq> 0"

definition uv__is_closing :: "('p, 'cb) uv_loop \<Rightarrow> 'p \<Rightarrow> bool" where
  "uv__is_closing L p \<longleftrightarrow> handle_flags (timer_at L p) AND (UV_HANDLE_CLOSING OR UV_HANDLE_CLOSED) \<noteq> 0"

definition uv__has_ref :: "('p, 'cb) uv_loop \<Rightarrow> 'p \<Rightarrow> bool" where
  "uv__has_ref L p \<longleftrightarrow> handle_flags (timer_at L p) AND UV_HANDLE_REF \<noteq> 0"

definition uv__has_active_handles :: "('p, 'cb) uv_loop \<Rightarrow> bool" where
  "uv__has_active_handles L \<longleftrightarrow> active_handles L > 0"

definition uv__active_handle_add :: "('p, 'cb) uv_loop \<Rightarrow> ('p, 'cb) uv_loop" where
  "uv__active_handle_add L = L\<lparr>active_handles := active_handles L + 1\<rparr>"

definition uv__active_handle_rm :: "('p, 'cb) uv_loop \<Rightarrow> ('p, 'cb) uv_loop" where
  "uv__active_handle_rm L = L\<lparr>active_handles := active_handles L - 1\<rparr>"

definition uv__handle_start :: "'p \<Rightarrow> ('p, 'cb) uv_loop \<Rightarrow> ('p, 'cb) uv_loop" where
  "uv__handle_start p L =
     (if handle_flags (timer_at L p) AND UV_HANDLE_ACTIVE \<noteq> 0 then L
      else let L = set_flags p (handle_flags (timer_at L p) OR UV_HANDLE_ACTIVE) L
           in if handle_flags (timer_at L p) AND UV_HANDLE_REF \<noteq> 0 then uv__active_handle_add L else L)"

definition uv__handle_stop :: "'p \<Rightarrow> ('p, 'cb) uv_loop \<Rightarrow> ('p, 'cb) uv_loop" where
  "uv__handle_stop p L =
     (if handle_flags (timer_at L p) AND UV_HANDLE_ACTIVE = 0 then L
      else let L = set_flags p (handle_flags (timer_at L p) AND NOT UV_HANDLE_ACTIVE) L
           in if handle_flags (timer_at L p) AND UV_HANDLE_REF \<noteq> 0 then uv__active_handle_rm L else L)"

definition uv__handle_ref :: "'p \<Rightarrow> ('p, 'cb) uv_loop \<Rightarrow> ('p, 'cb) uv_loop" where
  "uv__handle_ref p L =
     (if handle_flags (timer_at L p) AND UV_HANDLE_REF \<noteq> 0 then L
      else let L = set_flags p (handle_flags (timer_at L p) OR UV_HANDLE_REF) L
           in if handle_flags (timer_at L p) AND UV_HANDLE_CLOSING \<noteq> 0 then L
              else if handle_flags (timer_at L p) AND UV_HANDLE_ACTIVE \<noteq> 0 then uv__active_handle_add L else L)"

definition uv__handle_unref :: "'p \<Rightarrow> ('p, 'cb) uv_loop \<Rightarrow> ('p, 'cb) uv_loop" where
  "uv__handle_unref p L =
     (if handle_flags (timer_at L p) AND UV_HANDLE_REF = 0 then L
      else let L = set_flags p (handle_flags (timer_at L p) AND NOT UV_HANDLE_REF) L
           in if handle_flags (timer_at L p) AND UV_HANDLE_CLOSING \<noteq> 0 then L
              else if handle_flags (timer_at L p) AND UV_HANDLE_ACTIVE \<noteq> 0 then uv__active_handle_rm L else L)"

text \<open>The fields \<open>loop\<close> and \<open>type\<close> and the platform's \<open>next_closing\<close> are not modelled.\<close>

definition uv__handle_init :: "'p \<Rightarrow> ('p, 'cb) uv_loop \<Rightarrow> ('p, 'cb) uv_loop" where
  "uv__handle_init p L = (let L = set_flags p UV_HANDLE_REF L in L\<lparr>handle_queue := handle_queue L @ [p]\<rparr>)"


section \<open>Timers\<close>

definition timer_less_than :: "('p \<Rightarrow> 'cb uv_timer) \<Rightarrow> 'p \<Rightarrow> 'p \<Rightarrow> bool" where
  "timer_less_than tms a b =
     (if tm_timeout (tms a) < tm_timeout (tms b) then True
      else if tm_timeout (tms b) < tm_timeout (tms a) then False
      else start_id (tms a) < start_id (tms b))"

definition uv_timer_init :: "'p \<Rightarrow> ('p, 'cb) uv_loop \<Rightarrow> int \<times> ('p, 'cb) uv_loop" where
  "uv_timer_init p L =
     (let L = uv__handle_init p L
      in (0, set_timer p (timer_at L p\<lparr>timer_cb := None, tm_repeat := 0\<rparr>) L))"

definition uv_timer_stop :: "'p \<Rightarrow> ('p, 'cb) uv_loop \<Rightarrow> (int \<times> ('p, 'cb) uv_loop) option" where
  "uv_timer_stop p L =
     (if \<not> uv__is_active L p then Some (0, L)
      else case heap_remove (timer_less_than (timer_at L)) p (timer_heap L) of None \<Rightarrow> None
           | Some h \<Rightarrow> Some (0, uv__handle_stop p (L\<lparr>timer_heap := h\<rparr>)))"

definition clamp_timeout :: "u64 \<Rightarrow> u64 \<Rightarrow> u64" where
  "clamp_timeout now timeout = (let clamped_timeout = now + timeout in if clamped_timeout < timeout then - 1 else clamped_timeout)"

definition uv_timer_start :: "'p \<Rightarrow> 'cb option \<Rightarrow> u64 \<Rightarrow> u64 \<Rightarrow> ('p, 'cb) uv_loop \<Rightarrow> (int \<times> ('p, 'cb) uv_loop) option" where
  "uv_timer_start p cb timeout repeat L =
     (if uv__is_closing L p \<or> cb = None then Some (UV_EINVAL, L)
      else case (if uv__is_active L p then uv_timer_stop p L else Some (0, L)) of None \<Rightarrow> None
      | Some (_, L) \<Rightarrow>
          let clamped_timeout = clamp_timeout (loop_time L) timeout;
              L = set_timer p (timer_at L p\<lparr>timer_cb := cb, tm_timeout := clamped_timeout, tm_repeat := repeat,
                                            start_id := timer_counter L\<rparr>) L;
              L = L\<lparr>timer_counter := timer_counter L + 1\<rparr>
          in case heap_insert (timer_less_than (timer_at L)) p (timer_heap L) of None \<Rightarrow> None
             | Some h \<Rightarrow> Some (0, uv__handle_start p (L\<lparr>timer_heap := h\<rparr>)))"

definition uv_timer_again :: "'p \<Rightarrow> ('p, 'cb) uv_loop \<Rightarrow> (int \<times> ('p, 'cb) uv_loop) option" where
  "uv_timer_again p L =
     (if timer_cb (timer_at L p) = None then Some (UV_EINVAL, L)
      else if tm_repeat (timer_at L p) \<noteq> 0 then
        (case uv_timer_stop p L of None \<Rightarrow> None
         | Some (_, L) \<Rightarrow>
           (case uv_timer_start p (timer_cb (timer_at L p)) (tm_repeat (timer_at L p)) (tm_repeat (timer_at L p)) L of
              None \<Rightarrow> None | Some (_, L) \<Rightarrow> Some (0, L)))
      else Some (0, L))"

definition uv_timer_set_repeat :: "'p \<Rightarrow> u64 \<Rightarrow> ('p, 'cb) uv_loop \<Rightarrow> ('p, 'cb) uv_loop" where
  "uv_timer_set_repeat p repeat L = set_timer p (timer_at L p\<lparr>tm_repeat := repeat\<rparr>) L"

definition uv_timer_get_repeat :: "'p \<Rightarrow> ('p, 'cb) uv_loop \<Rightarrow> u64" where
  "uv_timer_get_repeat p L = tm_repeat (timer_at L p)"

text \<open>\<open>0x7fffffff\<close> is \<open>INT_MAX\<close>.\<close>

definition uv__next_timeout :: "('p, 'cb) uv_loop \<Rightarrow> int" where
  "uv__next_timeout L = (case heap_min (timer_heap L) of None \<Rightarrow> - 1
     | Some p \<Rightarrow>
         if tm_timeout (timer_at L p) \<le> loop_time L then 0
         else let diff = tm_timeout (timer_at L p) - loop_time L;
                  diff = (if diff > 0x7fffffff then 0x7fffffff else diff)
              in uint diff)"

text \<open>
  \<open>call cb p L\<close> is the loop after \<open>cb(handle)\<close>. Besides the loop, the model returns the timers whose
  callbacks ran, in order.
\<close>

partial_function (option) uv__run_timers ::
    "('cb \<Rightarrow> 'p \<Rightarrow> ('p, 'cb) uv_loop \<Rightarrow> ('p, 'cb) uv_loop option) \<Rightarrow> ('p, 'cb) uv_loop \<Rightarrow> ('p list \<times> ('p, 'cb) uv_loop) option" where
  "uv__run_timers call L = (case heap_min (timer_heap L) of None \<Rightarrow> Some ([], L)
     | Some p \<Rightarrow>
         if tm_timeout (timer_at L p) > loop_time L then Some ([], L)
         else Option.bind (uv_timer_stop p L) (\<lambda>(_, L).
              Option.bind (uv_timer_again p L) (\<lambda>(_, L).
              Option.bind (timer_cb (timer_at L p)) (\<lambda>cb.
              Option.bind (call cb p L) (\<lambda>L.
              Option.bind (uv__run_timers call L) (\<lambda>(ps, L). Some (p # ps, L)))))))"

definition uv__timer_close :: "'p \<Rightarrow> ('p, 'cb) uv_loop \<Rightarrow> ('p, 'cb) uv_loop option" where
  "uv__timer_close p L = map_option snd (uv_timer_stop p L)"

section \<open>Flags and fields\<close>

lemma bit_flag: "fl AND UV_HANDLE_ACTIVE \<noteq> 0 \<longleftrightarrow> bit fl 2" "fl AND UV_HANDLE_REF \<noteq> 0 \<longleftrightarrow> bit fl 3"
  "fl AND UV_HANDLE_CLOSING \<noteq> 0 \<longleftrightarrow> bit fl 0" "fl AND (UV_HANDLE_CLOSING OR UV_HANDLE_CLOSED) \<noteq> 0 \<longleftrightarrow> bit fl 0 \<or> bit fl 1"
proof -
  have one: "fl AND 2 ^ n \<noteq> 0 \<longleftrightarrow> bit fl n" for n by (simp add: and_exp_eq_0_iff_not_bit)
  show "fl AND UV_HANDLE_ACTIVE \<noteq> 0 \<longleftrightarrow> bit fl 2" using one [of 2] by (simp add: UV_HANDLE_ACTIVE_def)
  show "fl AND UV_HANDLE_REF \<noteq> 0 \<longleftrightarrow> bit fl 3" using one [of 3] by (simp add: UV_HANDLE_REF_def)
  show "fl AND UV_HANDLE_CLOSING \<noteq> 0 \<longleftrightarrow> bit fl 0" using one [of 0] by (simp add: UV_HANDLE_CLOSING_def)
  have "fl AND (1 OR 2) = (fl AND 1) OR (fl AND 2)" by (simp only: bit.conj_disj_distrib)
  then show "fl AND (UV_HANDLE_CLOSING OR UV_HANDLE_CLOSED) \<noteq> 0 \<longleftrightarrow> bit fl 0 \<or> bit fl 1"
    unfolding UV_HANDLE_CLOSING_def UV_HANDLE_CLOSED_def using one [of 0] one [of 1] by (simp add: or_eq_0_iff)
qed

lemma bit_no_flag: "fl AND UV_HANDLE_ACTIVE = 0 \<longleftrightarrow> \<not> bit fl 2" "fl AND UV_HANDLE_REF = 0 \<longleftrightarrow> \<not> bit fl 3"
  using bit_flag(1,2) [of fl] by blast+

definition flag_on :: "nat \<Rightarrow> u32 \<Rightarrow> u32" where "flag_on n fl = fl OR 2 ^ n"
definition flag_off :: "nat \<Rightarrow> u32 \<Rightarrow> u32" where "flag_off n fl = fl AND NOT (2 ^ n)"

lemma flag_eqs: "fl OR UV_HANDLE_ACTIVE = flag_on 2 fl" "fl AND NOT UV_HANDLE_ACTIVE = flag_off 2 fl"
  "fl OR UV_HANDLE_REF = flag_on 3 fl" "fl AND NOT UV_HANDLE_REF = flag_off 3 fl"
  by (simp_all add: flag_on_def flag_off_def UV_HANDLE_ACTIVE_def UV_HANDLE_REF_def)

lemma bit_flag_on [simp]: "m < 32 \<Longrightarrow> bit (flag_on n fl) m \<longleftrightarrow> bit fl m \<or> m = n"
  by (auto simp: flag_on_def bit_or_iff bit_exp_iff)

lemma bit_flag_off [simp]: "m < 32 \<Longrightarrow> bit (flag_off n fl) m \<longleftrightarrow> bit fl m \<and> m \<noteq> n"
  by (auto simp: flag_off_def bit_and_iff bit_not_iff bit_exp_iff)

lemma flag_off_id: "\<not> bit fl n \<Longrightarrow> flag_off n fl = fl"
  by (rule bit_word_eqI) auto

lemma flag_on_id: "bit fl n \<Longrightarrow> flag_on n fl = fl"
  by (rule bit_word_eqI) auto

abbreviation flags_of :: "('p, 'cb) uv_loop \<Rightarrow> 'p \<Rightarrow> u32" where "flags_of L p \<equiv> handle_flags (timer_at L p)"

lemma handle_bits: "uv__is_active L p \<longleftrightarrow> bit (flags_of L p) 2" "uv__has_ref L p \<longleftrightarrow> bit (flags_of L p) 3"
  "uv__is_closing L p \<longleftrightarrow> bit (flags_of L p) 0 \<or> bit (flags_of L p) 1"
  by (simp_all add: uv__is_active_def uv__has_ref_def uv__is_closing_def bit_flag)

lemma set_timer_simps [simp]:
  "timer_at (set_timer p t L) = (timer_at L)(p := t)" "loop_time (set_timer p t L) = loop_time L"
  "timer_counter (set_timer p t L) = timer_counter L" "active_handles (set_timer p t L) = active_handles L"
  "handle_queue (set_timer p t L) = handle_queue L" "closing_handles (set_timer p t L) = closing_handles L" "timer_heap (set_timer p t L) = timer_heap L"
  by (simp_all add: set_timer_def)

lemma uv__handle_start_eq:
  "uv__handle_start p L = L\<lparr>timer_at := (timer_at L)(p := timer_at L p\<lparr>handle_flags := flag_on 2 (flags_of L p)\<rparr>),
     active_handles := active_handles L + (if bit (flags_of L p) 3 then 1 else 0)\<rparr>" if "\<not> bit (flags_of L p) 2"
  using that by (simp add: uv__handle_start_def bit_flag flag_eqs Let_def set_flags_def set_timer_def uv__active_handle_add_def)

lemma uv__handle_stop_eq:
  "uv__handle_stop p L = L\<lparr>timer_at := (timer_at L)(p := timer_at L p\<lparr>handle_flags := flag_off 2 (flags_of L p)\<rparr>),
     active_handles := active_handles L - (if bit (flags_of L p) 3 then 1 else 0)\<rparr>" if "bit (flags_of L p) 2"
  using that by (simp add: uv__handle_stop_def bit_flag bit_no_flag flag_eqs Let_def set_flags_def set_timer_def uv__active_handle_rm_def)


section \<open>The invariant of the timers\<close>

text \<open>
  \<open>A\<close> are the active timers: the heap holds exactly them, ordered by their timeout and start; the
  count of active handles counts those of them that keep the loop alive, \<open>others\<close> being the share of
  the handles of other kinds.
\<close>

definition timers_inv :: "u32 \<Rightarrow> ('p, 'cb) uv_loop \<Rightarrow> 'p set \<Rightarrow> bool" where
  "timers_inv others L A \<longleftrightarrow> heap_inv (timer_less_than (timer_at L)) (timer_heap L) A \<and> A \<subseteq> set (handle_queue L) \<and>
     (\<forall>p \<in> set (handle_queue L). uv__is_active L p \<longleftrightarrow> p \<in> A) \<and> (\<forall>p \<in> A. timer_cb (timer_at L p) \<noteq> None) \<and>
     active_handles L = others + of_nat (card {p \<in> A. uv__has_ref L p})"

interpretation timer_order: strict_weak_order "timer_less_than tms" for tms
  by unfold_locales (auto simp: timer_less_than_def not_less split: if_splits)

interpretation timer_queue: priority_queue "timer_less_than tms" "heap_inv (timer_less_than tms)"
  "heap_insert (timer_less_than tms)" "heap_remove (timer_less_than tms)" heap_min "\<lambda>h. unat (nelts h) + 1 < 2 ^ 32" for tms
  by (rule heap_is_priority_queue) (rule timer_order.strict_weak_order_axioms)

lemma timers_invD:
  assumes "timers_inv others L A"
  shows "heap_inv (timer_less_than (timer_at L)) (timer_heap L) A" and "finite A" and "A \<subseteq> set (handle_queue L)"
    and "p \<in> set (handle_queue L) \<Longrightarrow> bit (flags_of L p) 2 \<longleftrightarrow> p \<in> A" and "p \<in> A \<Longrightarrow> bit (flags_of L p) 2"
    and "p \<in> A \<Longrightarrow> timer_cb (timer_at L p) \<noteq> None"
    and "active_handles L = others + of_nat (card {p \<in> A. bit (flags_of L p) 3})"
  using assms timer_queue.finite [of "timer_at L" "timer_heap L" A] by (auto simp: timers_inv_def handle_bits)

lemma timers_invI:
  assumes "heap_inv (timer_less_than (timer_at L)) (timer_heap L) A" and "A \<subseteq> set (handle_queue L)"
    and "\<And>p. p \<in> set (handle_queue L) \<Longrightarrow> bit (flags_of L p) 2 \<longleftrightarrow> p \<in> A" and "\<And>p. p \<in> A \<Longrightarrow> timer_cb (timer_at L p) \<noteq> None"
    and "active_handles L = others + of_nat (card {p \<in> A. bit (flags_of L p) 3})"
  shows "timers_inv others L A"
  using assms by (simp add: timers_inv_def handle_bits)

text \<open>The order of the heap only depends on timeouts and start numbers.\<close>

lemma timer_heap_cong:
  assumes "heap_inv (timer_less_than tms) h A" and "\<And>q. q \<in> A \<Longrightarrow> tm_timeout (tms' q) = tm_timeout (tms q) \<and> start_id (tms' q) = start_id (tms q)"
  shows "heap_inv (timer_less_than tms') h A"
  by (rule heap_inv_cong [OF assms(1)]) (simp add: timer_less_than_def assms(2))

lemma stop_ok:
  assumes inv: "timers_inv others L A" and p: "p \<in> set (handle_queue L)"
  shows "\<exists>L'. uv_timer_stop p L = Some (0, L') \<and> timers_inv others L' (A - {p}) \<and>
    timer_at L' = (timer_at L)(p := timer_at L p\<lparr>handle_flags := flag_off 2 (flags_of L p)\<rparr>) \<and>
    loop_time L' = loop_time L \<and> timer_counter L' = timer_counter L \<and> handle_queue L' = handle_queue L"
proof (cases "p \<in> A")
  case False
  then have "\<not> bit (flags_of L p) 2" using timers_invD(4) [OF inv p] by simp
  then show ?thesis using inv False by (intro exI [of _ L]) (simp add: uv_timer_stop_def handle_bits flag_off_id)
next
  case True
  note D = timers_invD [OF inv]
  obtain h where h: "heap_remove (timer_less_than (timer_at L)) p (timer_heap L) = Some h"
    "heap_inv (timer_less_than (timer_at L)) h (A - {p})" using timer_queue.remove [OF D(1) True] by blast
  define L' where "L' = uv__handle_stop p (L\<lparr>timer_heap := h\<rparr>)"
  have act: "bit (flags_of L p) 2" using D(5) [OF True] .
  have L': "L' = L\<lparr>timer_heap := h, timer_at := (timer_at L)(p := timer_at L p\<lparr>handle_flags := flag_off 2 (flags_of L p)\<rparr>),
     active_handles := active_handles L - (if bit (flags_of L p) 3 then 1 else 0)\<rparr>"
    using act by (simp add: L'_def uv__handle_stop_eq)
  have "timers_inv others L' (A - {p})"
  proof (rule timers_invI)
    show "heap_inv (timer_less_than (timer_at L')) (timer_heap L') (A - {p})"
      by (rule timer_heap_cong) (use h(2) in \<open>auto simp: L'\<close>)
    show "A - {p} \<subseteq> set (handle_queue L')" using D(3) by (auto simp: L')
    show "bit (flags_of L' q) 2 \<longleftrightarrow> q \<in> A - {p}" if "q \<in> set (handle_queue L')" for q
      using that D(4) by (simp add: L')
    show "timer_cb (timer_at L' q) \<noteq> None" if "q \<in> A - {p}" for q using that D(6) by (simp add: L')
    have "{q \<in> A. bit (flags_of L q) 3} = {q \<in> A - {p}. bit (flags_of L' q) 3} \<union> (if bit (flags_of L p) 3 then {p} else {})"
      using True by (auto simp: L')
    then have "card {q \<in> A. bit (flags_of L q) 3} = card {q \<in> A - {p}. bit (flags_of L' q) 3} + (if bit (flags_of L p) 3 then 1 else 0)"
      using D(2) by (simp add: card_insert_if)
    then show "active_handles L' = others + of_nat (card {q \<in> A - {p}. bit (flags_of L' q) 3})"
      using D(7) by (simp add: L')
  qed
  then show ?thesis using act h(1) by (intro exI [of _ L']) (simp add: uv_timer_stop_def handle_bits L'_def [symmetric], simp add: L')
qed

text \<open>Starting a timer that is not active\<close>

lemma start_inactive_ok:
  assumes inv: "timers_inv others L A" and p: "p \<in> set (handle_queue L)" "p \<notin> A" and room: "card A + 1 < 2 ^ 32" and cb: "cb \<noteq> None"
    and t: "t = timer_at L p\<lparr>handle_flags := flag_on 2 (flags_of L p), timer_cb := cb, tm_timeout := timeout, tm_repeat := repeat, start_id := timer_counter L\<rparr>"
  shows "\<exists>h. heap_insert (timer_less_than ((timer_at L)(p := t))) p (timer_heap L) = Some h \<and>
    timers_inv others (L\<lparr>timer_heap := h, timer_counter := n, timer_at := (timer_at L)(p := t),
      active_handles := active_handles L + (if bit (flags_of L p) 3 then 1 else 0)\<rparr>) (insert p A)"
proof -
  note D = timers_invD [OF inv]
  have "heap_inv (timer_less_than ((timer_at L)(p := t))) (timer_heap L) A"
    by (rule timer_heap_cong [OF D(1)]) (use p in auto)
  then obtain h where h: "heap_insert (timer_less_than ((timer_at L)(p := t))) p (timer_heap L) = Some h"
    "heap_inv (timer_less_than ((timer_at L)(p := t))) h (insert p A)"
    using timer_queue.insert [of "(timer_at L)(p := t)" "timer_heap L" A p] p heap_inv_card [OF D(1)] room by auto
  define L' where "L' = L\<lparr>timer_heap := h, timer_counter := n, timer_at := (timer_at L)(p := t),
      active_handles := active_handles L + (if bit (flags_of L p) 3 then 1 else 0)\<rparr>"
  have "timers_inv others L' (insert p A)"
  proof (rule timers_invI)
    show "heap_inv (timer_less_than (timer_at L')) (timer_heap L') (insert p A)" using h(2) by (simp add: L'_def)
    show "insert p A \<subseteq> set (handle_queue L')" using D(3) p by (simp add: L'_def)
    show "bit (flags_of L' q) 2 \<longleftrightarrow> q \<in> insert p A" if "q \<in> set (handle_queue L')" for q
      using that D(4) by (simp add: L'_def t)
    show "timer_cb (timer_at L' q) \<noteq> None" if "q \<in> insert p A" for q using that D(6) cb by (auto simp: L'_def t)
    have "{q \<in> insert p A. bit (flags_of L' q) 3} = {q \<in> A. bit (flags_of L q) 3} \<union> (if bit (flags_of L p) 3 then {p} else {})"
      using p(2) by (auto simp: L'_def t)
    then have "card {q \<in> insert p A. bit (flags_of L' q) 3} = card {q \<in> A. bit (flags_of L q) 3} + (if bit (flags_of L p) 3 then 1 else 0)"
      using D(2) p(2) by (simp add: card_insert_if)
    then show "active_handles L' = others + of_nat (card {q \<in> insert p A. bit (flags_of L' q) 3})"
      using D(7) by (simp add: L'_def)
  qed
  then show ?thesis using h(1) L'_def by blast
qed

lemma start_ok:
  assumes inv: "timers_inv others L A" and p: "p \<in> set (handle_queue L)" "\<not> uv__is_closing L p"
    and room: "card (A - {p}) + 1 < 2 ^ 32" and cb: "cb \<noteq> None"
  shows "\<exists>L'. uv_timer_start p cb timeout repeat L = Some (0, L') \<and> timers_inv others L' (insert p A) \<and>
    timer_at L' = (timer_at L)(p := timer_at L p\<lparr>handle_flags := flag_on 2 (flags_of L p), timer_cb := cb,
      tm_timeout := clamp_timeout (loop_time L) timeout, tm_repeat := repeat, start_id := timer_counter L\<rparr>) \<and>
    loop_time L' = loop_time L \<and> timer_counter L' = timer_counter L + 1 \<and> handle_queue L' = handle_queue L"
proof -
  obtain L1 where L1: "(if uv__is_active L p then uv_timer_stop p L else Some (0, L)) = Some (0, L1)"
    and inv1: "timers_inv others L1 (A - {p})"
    and at1: "timer_at L1 = (timer_at L)(p := timer_at L p\<lparr>handle_flags := flag_off 2 (flags_of L p)\<rparr>)"
    and same: "loop_time L1 = loop_time L" "timer_counter L1 = timer_counter L" "handle_queue L1 = handle_queue L"
  proof (cases "uv__is_active L p")
    case True
    then show thesis using stop_ok [OF inv p(1)] that by auto
  next
    case False
    then have "\<not> bit (flags_of L p) 2" "p \<notin> A" using timers_invD(4) [OF inv p(1)] by (simp_all add: handle_bits)
    then show thesis using False inv by (intro that [of L]) (simp_all add: flag_off_id)
  qed
  define t where "t = timer_at L1 p\<lparr>handle_flags := flag_on 2 (flags_of L1 p), timer_cb := cb, tm_timeout := clamp_timeout (loop_time L1) timeout,
    tm_repeat := repeat, start_id := timer_counter L1\<rparr>"
  have flags: "flag_on 2 (flags_of L1 p) = flag_on 2 (flags_of L p)"
    unfolding at1 by (rule bit_word_eqI) (auto simp: )
  define u where "u = timer_at L1 p\<lparr>timer_cb := cb, tm_timeout := clamp_timeout (loop_time L1) timeout, tm_repeat := repeat,
      start_id := timer_counter L1\<rparr>"
  have less: "timer_less_than ((timer_at L1)(p := u)) = timer_less_than ((timer_at L1)(p := t))"
    by (auto simp: timer_less_than_def fun_eq_iff u_def t_def)
  obtain h where h: "heap_insert (timer_less_than ((timer_at L1)(p := t))) p (timer_heap L1) = Some h"
    and inv2: "timers_inv others (L1\<lparr>timer_heap := h, timer_counter := timer_counter L1 + 1, timer_at := (timer_at L1)(p := t),
      active_handles := active_handles L1 + (if bit (flags_of L1 p) 3 then 1 else 0)\<rparr>) (insert p (A - {p}))"
    using start_inactive_ok [OF inv1 _ _ room cb t_def] p(1) same by auto
  define L2 where "L2 = L1\<lparr>timer_heap := h, timer_counter := timer_counter L1 + 1, timer_at := (timer_at L1)(p := t),
      active_handles := active_handles L1 + (if bit (flags_of L1 p) 3 then 1 else 0)\<rparr>"
  have ut: "u\<lparr>handle_flags := flag_on 2 (flags_of L1 p)\<rparr> = t" by (simp add: u_def t_def)
  define M where "M = set_timer p u L1\<lparr>timer_counter := timer_counter (set_timer p u L1) + 1\<rparr>"
  have "flags_of (M\<lparr>timer_heap := h\<rparr>) p = flags_of L1 p" "\<not> bit (flags_of L1 p) 2" by (simp_all add: M_def u_def at1)
  then have start: "uv__handle_start p (M\<lparr>timer_heap := h\<rparr>) = L2"
    using ut by (subst uv__handle_start_eq) (simp_all add: L2_def M_def set_timer_def)
  have "heap_insert (timer_less_than (timer_at M)) p (timer_heap M) = Some h" using h by (simp add: M_def less)
  then have "uv_timer_start p cb timeout repeat L = Some (0, L2)"
    using p(2) cb unfolding uv_timer_start_def L1 option.case prod.case Let_def u_def [symmetric] M_def [symmetric]
    by (auto simp: start)
  moreover have "timer_at L2 = (timer_at L)(p := timer_at L p\<lparr>handle_flags := flag_on 2 (flags_of L p), timer_cb := cb,
      tm_timeout := clamp_timeout (loop_time L) timeout, tm_repeat := repeat, start_id := timer_counter L\<rparr>)"
    unfolding L2_def by (simp add: t_def flags same) (simp add: at1)
  moreover have "timers_inv others L2 (insert p A)" using inv2 by (simp add: L2_def insert_absorb)
  ultimately show ?thesis by (intro exI [of _ L2]) (simp add: L2_def same)
qed

lemma heap_room: "timers_inv others L A \<Longrightarrow> p \<in> A \<Longrightarrow> card (A - {p}) + 1 < 2 ^ 32"
  using heap_inv_card [OF timers_invD(1)] word_unat_lt [of "nelts (timer_heap L)"] card_Diff1_less [of A p] timers_invD(2)
  by fastforce

text \<open>Re-arming a stopped timer whose interval is not zero, respectively leaving a one-shot timer alone\<close>

lemma again_ok:
  assumes inv: "timers_inv others L A" and p: "p \<in> set (handle_queue L)" "\<not> uv__is_closing L p"
    and room: "card (A - {p}) + 1 < 2 ^ 32" and cb: "timer_cb (timer_at L p) \<noteq> None"
  shows "\<exists>L'. uv_timer_again p L = Some (0, L') \<and> timers_inv others L' (if tm_repeat (timer_at L p) \<noteq> 0 then insert p A else A) \<and>
    (\<forall>q. q \<noteq> p \<longrightarrow> timer_at L' q = timer_at L q) \<and> uv__is_closing L' p = uv__is_closing L p \<and>
    timer_cb (timer_at L' p) = timer_cb (timer_at L p) \<and> tm_repeat (timer_at L' p) = tm_repeat (timer_at L p) \<and>
    tm_timeout (timer_at L' p) = (if tm_repeat (timer_at L p) \<noteq> 0
      then clamp_timeout (loop_time L) (tm_repeat (timer_at L p)) else tm_timeout (timer_at L p)) \<and>
    loop_time L' = loop_time L \<and> handle_queue L' = handle_queue L"
proof (cases "tm_repeat (timer_at L p) \<noteq> 0")
  case False
  then show ?thesis using inv cb by (intro exI [of _ L]) (auto simp: uv_timer_again_def)
next
  case True
  obtain L1 where L1: "uv_timer_stop p L = Some (0, L1)" "timers_inv others L1 (A - {p})"
    "timer_at L1 = (timer_at L)(p := timer_at L p\<lparr>handle_flags := flag_off 2 (flags_of L p)\<rparr>)"
    "loop_time L1 = loop_time L" "handle_queue L1 = handle_queue L"
    using stop_ok [OF inv p(1)] by blast
  have closing: "\<not> uv__is_closing L1 p" using p(2) by (simp add: handle_bits L1(3))
  obtain L2 where L2: "uv_timer_start p (timer_cb (timer_at L1 p)) (tm_repeat (timer_at L1 p)) (tm_repeat (timer_at L1 p)) L1 = Some (0, L2)"
    "timers_inv others L2 (insert p (A - {p}))"
    "timer_at L2 = (timer_at L1)(p := timer_at L1 p\<lparr>handle_flags := flag_on 2 (flags_of L1 p), timer_cb := timer_cb (timer_at L1 p),
      tm_timeout := clamp_timeout (loop_time L1) (tm_repeat (timer_at L1 p)), tm_repeat := tm_repeat (timer_at L1 p), start_id := timer_counter L1\<rparr>)"
    "loop_time L2 = loop_time L1" "handle_queue L2 = handle_queue L1"
    using start_ok [OF L1(2) _ closing, of "timer_cb (timer_at L1 p)" "tm_repeat (timer_at L1 p)" "tm_repeat (timer_at L1 p)"] p(1) L1(3,5) cb room
    by auto
  have "uv_timer_again p L = Some (0, L2)" using True cb L1(1) L2(1) by (auto simp: uv_timer_again_def)
  then show ?thesis
    using True L2(2) by (intro exI [of _ L2]) (auto simp: L2(3-5) L1(3-5) handle_bits)
qed


section \<open>Running the timers\<close>

definition due :: "('p, 'cb) uv_loop \<Rightarrow> 'p set \<Rightarrow> 'p set" where
  "due L A = {p \<in> A. tm_timeout (timer_at L p) \<le> loop_time L}"

definition live :: "('p, 'cb) uv_loop \<Rightarrow> 'p set \<Rightarrow> bool" where
  "live L A \<longleftrightarrow> (\<forall>p \<in> A. \<not> uv__is_closing L p)"

lemma clamp_later: "now < - 1 \<Longrightarrow> d \<noteq> 0 \<Longrightarrow> now < clamp_timeout now d"
proof -
  assume now: "now < - 1" and d: "d \<noteq> 0"
  show "now < clamp_timeout now d"
  proof (cases "now + d < d")
    case True
    then show ?thesis using now by (simp add: clamp_timeout_def)
  next
    case False
    have sum: "unat (now + d) = (unat now + unat d) mod 2 ^ 64" by (simp add: unat_word_ariths)
    have le: "unat d \<le> unat (now + d)" using False by (simp add: word_le_nat_alt [symmetric] not_less)
    have lt: "unat now < 2 ^ 64" "unat d < 2 ^ 64" using word_unat_lt [of now] word_unat_lt [of d] by simp_all
    have "unat now + unat d < 2 ^ 64"
    proof (rule ccontr)
      assume over: "\<not> unat now + unat d < 2 ^ 64"
      then have "(unat now + unat d) mod 2 ^ 64 = unat now + unat d - 2 ^ 64" using lt by (simp add: le_mod_geq)
      then show False using le lt over unfolding sum by linarith
    qed
    then have "unat now < unat (now + d)" using d unfolding sum by (simp add: unat_gt_0)
    then show ?thesis using False by (simp add: clamp_timeout_def word_less_nat_alt)
  qed
qed

lemma timer_step:
  assumes inv: "timers_inv others L A" and live: "live L A" and min: "heap_min (timer_heap L) = Some p"
    and due_p: "tm_timeout (timer_at L p) \<le> loop_time L" and now: "loop_time L < - 1"
  shows "\<exists>L1 L2 cb A2. uv_timer_stop p L = Some (0, L1) \<and> uv_timer_again p L1 = Some (0, L2) \<and> timer_cb (timer_at L2 p) = Some cb \<and>
    timers_inv others L2 A2 \<and> live L2 A2 \<and> A2 = (if tm_repeat (timer_at L p) \<noteq> 0 then A else A - {p}) \<and>
    due L2 A2 = due L A - {p} \<and> p \<in> due L A \<and> (\<forall>q. q \<noteq> p \<longrightarrow> timer_at L2 q = timer_at L q) \<and>
    timer_cb (timer_at L p) = Some cb \<and> tm_repeat (timer_at L2 p) = tm_repeat (timer_at L p) \<and> \<not> uv__is_closing L2 p \<and>
    loop_time L2 = loop_time L \<and> handle_queue L2 = handle_queue L"
proof -
  note D = timers_invD [OF inv]
  have p: "p \<in> A" using timer_queue.minimum_Some [OF D(1) min] by blast
  then have q: "p \<in> set (handle_queue L)" using D(3) by blast
  obtain L1 where L1: "uv_timer_stop p L = Some (0, L1)" "timers_inv others L1 (A - {p})"
    "timer_at L1 = (timer_at L)(p := timer_at L p\<lparr>handle_flags := flag_off 2 (flags_of L p)\<rparr>)"
    "loop_time L1 = loop_time L" "handle_queue L1 = handle_queue L"
    using stop_ok [OF inv q] by blast
  have closing: "\<not> uv__is_closing L1 p" using live p by (simp add: live_def handle_bits L1(3))
  have room: "card (A - {p} - {p}) + 1 < 2 ^ 32" using heap_room [OF inv p] by simp
  have cb: "timer_cb (timer_at L1 p) \<noteq> None" using D(6) [OF p] by (simp add: L1(3))
  define A2 where "A2 = (if tm_repeat (timer_at L p) \<noteq> 0 then A else A - {p})"
  have p1: "p \<in> set (handle_queue L1)" using q L1(5) by simp
  obtain L2 where L2: "uv_timer_again p L1 = Some (0, L2)"
    "timers_inv others L2 (if tm_repeat (timer_at L1 p) \<noteq> 0 then insert p (A - {p}) else A - {p})"
    "\<forall>q. q \<noteq> p \<longrightarrow> timer_at L2 q = timer_at L1 q" "\<not> uv__is_closing L2 p"
    "timer_cb (timer_at L2 p) = timer_cb (timer_at L1 p)" "tm_repeat (timer_at L2 p) = tm_repeat (timer_at L1 p)"
    "tm_timeout (timer_at L2 p) = (if tm_repeat (timer_at L1 p) \<noteq> 0
      then clamp_timeout (loop_time L1) (tm_repeat (timer_at L1 p)) else tm_timeout (timer_at L1 p))"
    "loop_time L2 = loop_time L1" "handle_queue L2 = handle_queue L1"
    using again_ok [OF L1(2) p1 closing room cb] closing by blast
  have at_p: "tm_repeat (timer_at L1 p) = tm_repeat (timer_at L p)" "timer_cb (timer_at L1 p) = timer_cb (timer_at L p)"
    by (simp_all add: L1(3))
  have other: "timer_at L2 q = timer_at L q" if "q \<noteq> p" for q using L2(3) that by (simp add: L1(3))
  have A2: "timers_inv others L2 A2" using L2(2) unfolding A2_def at_p insert_Diff [OF p] .
  have "live L2 A2"
    using live L2(4) other by (auto simp: live_def A2_def handle_bits split: if_splits) metis+
  moreover have "due L2 A2 = due L A - {p}"
  proof -
    have "q \<in> due L2 A2 \<longleftrightarrow> q \<in> due L A - {p}" for q
    proof (cases "q = p")
      case True
      then show ?thesis using clamp_later [OF now] by (auto simp: due_def A2_def L2(7,8) L1(4) at_p not_le)
    next
      case False
      then show ?thesis using other by (auto simp: due_def A2_def L2(8) L1(4))
    qed
    then show ?thesis by blast
  qed
  moreover have "p \<in> due L A" using p due_p by (simp add: due_def)
  moreover obtain cb' where "timer_cb (timer_at L p) = Some cb'" using D(6) [OF p] by blast
  ultimately show ?thesis
    using L1(1) L2(1,4,5,6) A2 other at_p L2(8,9) L1(4,5) A2_def by (intro exI [of _ L1] exI [of _ L2] exI [of _ cb'] exI [of _ A2]) simp
qed

lemma run_nothing_due:
  assumes "timers_inv others L A" and "heap_min (timer_heap L) = None \<or> (\<exists>p. heap_min (timer_heap L) = Some p \<and> loop_time L < tm_timeout (timer_at L p))"
  shows "uv__run_timers call L = Some ([], L)" and "due L A = {}"
proof -
  note D = timers_invD [OF assms(1)]
  show "uv__run_timers call L = Some ([], L)" using assms(2) by (subst uv__run_timers.simps) auto
  show "due L A = {}"
  proof (cases "heap_min (timer_heap L)")
    case None
    then show ?thesis using timer_queue.minimum_None [OF D(1)] by (simp add: due_def)
  next
    case (Some p)
    then have "\<forall>x \<in> A. \<not> timer_less_than (timer_at L) x p" using timer_queue.minimum_Some [OF D(1)] by blast
    then have "tm_timeout (timer_at L p) \<le> tm_timeout (timer_at L x)" if "x \<in> A" for x
      using that by (auto simp: timer_less_than_def not_less split: if_splits)
    then show ?thesis using assms(2) Some by (fastforce simp: due_def not_le)
  qed
qed

lemma run_step:
  assumes "timers_inv others L A" and "live L A" and "loop_time L < - 1" and "due L A \<noteq> {}"
  obtains p L2 cb where "heap_min (timer_heap L) = Some p"
    and "uv__run_timers call L = Option.bind (call cb p L2) (\<lambda>L. Option.bind (uv__run_timers call L) (\<lambda>(ps, L). Some (p # ps, L)))"
    and "timers_inv others L2 (if tm_repeat (timer_at L p) \<noteq> 0 then A else A - {p})" and "live L2 (if tm_repeat (timer_at L p) \<noteq> 0 then A else A - {p})"
    and "due L2 (if tm_repeat (timer_at L p) \<noteq> 0 then A else A - {p}) = due L A - {p}" and "p \<in> due L A"
    and "\<And>q. q \<noteq> p \<Longrightarrow> timer_at L2 q = timer_at L q" and "timer_cb (timer_at L p) = Some cb" and "tm_repeat (timer_at L2 p) = tm_repeat (timer_at L p)"
    and "\<not> uv__is_closing L2 p" and "loop_time L2 = loop_time L" and "handle_queue L2 = handle_queue L"
proof -
  obtain p where p: "heap_min (timer_heap L) = Some p" "tm_timeout (timer_at L p) \<le> loop_time L"
    using run_nothing_due(2) [OF assms(1)] assms(4) by (metis not_le not_None_eq)
  obtain L1 L2 cb A2 where s: "uv_timer_stop p L = Some (0, L1)" "uv_timer_again p L1 = Some (0, L2)" "timer_cb (timer_at L2 p) = Some cb"
    "timers_inv others L2 A2" "live L2 A2" "A2 = (if tm_repeat (timer_at L p) \<noteq> 0 then A else A - {p})"
    "due L2 A2 = due L A - {p}" "p \<in> due L A" "\<forall>q. q \<noteq> p \<longrightarrow> timer_at L2 q = timer_at L q"
    "timer_cb (timer_at L p) = Some cb" "tm_repeat (timer_at L2 p) = tm_repeat (timer_at L p)" "\<not> uv__is_closing L2 p"
    "loop_time L2 = loop_time L" "handle_queue L2 = handle_queue L"
    using timer_step [OF assms(1,2) p assms(3)] by blast
  have "uv__run_timers call L = Option.bind (call cb p L2) (\<lambda>L. Option.bind (uv__run_timers call L) (\<lambda>(ps, L). Some (p # ps, L)))"
    using p s(1-3) by (subst uv__run_timers.simps) (simp add: leD)
  then show thesis using that [OF p(1) _ s(4) [unfolded s(6)] s(5) [unfolded s(6)] s(7) [unfolded s(6)] s(8)] s by blast
qed

text \<open>What a well-behaved callback may do: anything but making further timers due at once.\<close>

definition tame :: "u32 \<Rightarrow> ('cb \<Rightarrow> 'p \<Rightarrow> ('p, 'cb) uv_loop \<Rightarrow> ('p, 'cb) uv_loop option) \<Rightarrow> bool" where
  "tame others call \<longleftrightarrow> (\<forall>cb p L A. timers_inv others L A \<and> live L A \<and> p \<in> set (handle_queue L) \<longrightarrow>
     (\<exists>L' A'. call cb p L = Some L' \<and> timers_inv others L' A' \<and> live L' A' \<and> loop_time L' = loop_time L \<and> due L' A' \<subseteq> due L A))"

lemma finite_due: "timers_inv others L A \<Longrightarrow> finite (due L A)"
  by (simp add: due_def timers_invD(2) [of others L A])

lemma run_tame:
  assumes "tame others call"
  shows "timers_inv others L A \<Longrightarrow> live L A \<Longrightarrow> loop_time L < - 1 \<Longrightarrow>
    \<exists>ps L' A'. uv__run_timers call L = Some (ps, L') \<and> timers_inv others L' A' \<and> live L' A' \<and> due L' A' = {} \<and>
      loop_time L' = loop_time L \<and> distinct ps \<and> set ps \<subseteq> due L A"
proof (induction "card (due L A)" arbitrary: L A rule: less_induct)
  case less
  show ?case
  proof (cases "due L A = {}")
    case True
    have "heap_min (timer_heap L) = None \<or> (\<exists>p. heap_min (timer_heap L) = Some p \<and> loop_time L < tm_timeout (timer_at L p))"
    proof (cases "heap_min (timer_heap L)")
      case (Some p)
      then have "p \<in> A" using timer_queue.minimum_Some [OF timers_invD(1) [OF less.prems(1)]] by blast
      then show ?thesis using True Some by (auto simp: due_def not_le)
    qed simp
    then show ?thesis using run_nothing_due [OF less.prems(1)] less.prems True by auto
  next
    case False
    obtain p L2 cb where run: "uv__run_timers call L = Option.bind (call cb p L2) (\<lambda>L. Option.bind (uv__run_timers call L) (\<lambda>(ps, L). Some (p # ps, L)))"
      and inv2: "timers_inv others L2 (if tm_repeat (timer_at L p) \<noteq> 0 then A else A - {p})" "live L2 (if tm_repeat (timer_at L p) \<noteq> 0 then A else A - {p})"
      and due2: "due L2 (if tm_repeat (timer_at L p) \<noteq> 0 then A else A - {p}) = due L A - {p}" "p \<in> due L A"
      and same: "loop_time L2 = loop_time L" "handle_queue L2 = handle_queue L"
      by (rule run_step [OF less.prems False, of call]) (rule that, assumption+)
    have "p \<in> set (handle_queue L2)" using due2(2) timers_invD(3) [OF less.prems(1)] same(2) by (auto simp: due_def)
    then obtain L3 A3 where L3: "call cb p L2 = Some L3" "timers_inv others L3 A3" "live L3 A3" "loop_time L3 = loop_time L"
      "due L3 A3 \<subseteq> due L A - {p}"
      using assms inv2 same due2(1) unfolding tame_def by metis
    have "card (due L3 A3) < card (due L A)"
      using L3(5) due2(2) finite_due [OF less.prems(1)] by (intro psubset_card_mono) auto
    then obtain ps L' A' where "uv__run_timers call L3 = Some (ps, L')" "timers_inv others L' A'" "live L' A'" "due L' A' = {}"
      "loop_time L' = loop_time L" "distinct ps" "set ps \<subseteq> due L3 A3"
      using less.hyps [OF _ L3(2,3)] less.prems(3) L3(4) by metis
    then show ?thesis using L3(1,5) due2(2) by (intro exI [of _ "p # ps"] exI [of _ L'] exI [of _ A']) (auto simp: run)
  qed
qed

text \<open>Callbacks that leave the loop alone: each due timer fires once, in order.\<close>

lemma run_quiet:
  "timers_inv others L A \<Longrightarrow> live L A \<Longrightarrow> loop_time L < - 1 \<Longrightarrow>
    \<exists>ps L'. uv__run_timers (\<lambda>_ _ L. Some L) L = Some (ps, L') \<and>
      timers_inv others L' {p \<in> A. p \<notin> due L A \<or> tm_repeat (timer_at L p) \<noteq> 0} \<and>
      distinct ps \<and> set ps = due L A \<and> sorted_wrt (\<lambda>a b. \<not> timer_less_than (timer_at L) b a) ps"
proof (induction "card (due L A)" arbitrary: L A rule: less_induct)
  case less
  show ?case
  proof (cases "due L A = {}")
    case True
    have "tame others (\<lambda>_ _ L. Some L)" by (auto simp: tame_def)
    then obtain ps L' where "uv__run_timers (\<lambda>_ _ L. Some L) L = Some (ps, L')" "set ps \<subseteq> {}"
      using run_tame [OF _ less.prems] True by metis
    moreover have "uv__run_timers (\<lambda>_ _ L. Some L) L = Some ([], L)"
    proof (rule run_nothing_due(1) [OF less.prems(1)])
      show "heap_min (timer_heap L) = None \<or> (\<exists>p. heap_min (timer_heap L) = Some p \<and> loop_time L < tm_timeout (timer_at L p))"
      proof (cases "heap_min (timer_heap L)")
        case (Some p)
        then have "p \<in> A" using timer_queue.minimum_Some [OF timers_invD(1) [OF less.prems(1)]] by blast
        then show ?thesis using True Some by (auto simp: due_def not_le)
      qed simp
    qed
    ultimately show ?thesis using less.prems(1) True by simp
  next
    case False
    obtain p L2 where min: "heap_min (timer_heap L) = Some p"
      and run: "uv__run_timers (\<lambda>_ _ L. Some L) L = Option.bind (Some L2) (\<lambda>L. Option.bind (uv__run_timers (\<lambda>_ _ L. Some L) L) (\<lambda>(ps, L). Some (p # ps, L)))"
      and inv2: "timers_inv others L2 (if tm_repeat (timer_at L p) \<noteq> 0 then A else A - {p})" "live L2 (if tm_repeat (timer_at L p) \<noteq> 0 then A else A - {p})"
      and due2: "due L2 (if tm_repeat (timer_at L p) \<noteq> 0 then A else A - {p}) = due L A - {p}" "p \<in> due L A"
      and same: "\<And>q. q \<noteq> p \<Longrightarrow> timer_at L2 q = timer_at L q" "tm_repeat (timer_at L2 p) = tm_repeat (timer_at L p)" "loop_time L2 = loop_time L"
      by (rule run_step [OF less.prems False, of "\<lambda>_ _ L. Some L"]) (rule that, assumption+)
    define A2 where "A2 = (if tm_repeat (timer_at L p) \<noteq> 0 then A else A - {p})"
    note inv2 = inv2 [folded A2_def] and due2 = due2 [folded A2_def]
    have "card (due L2 A2) < card (due L A)"
      using due2 finite_due [OF less.prems(1)] by (intro psubset_card_mono) auto
    then obtain ps L' where IH: "uv__run_timers (\<lambda>_ _ L. Some L) L2 = Some (ps, L')"
      "timers_inv others L' {q \<in> A2. q \<notin> due L2 A2 \<or> tm_repeat (timer_at L2 q) \<noteq> 0}" "distinct ps" "set ps = due L A - {p}"
      "sorted_wrt (\<lambda>a b. \<not> timer_less_than (timer_at L2) b a) ps"
      using less.hyps [OF _ inv2] less.prems(3) same(3) due2(1) by metis
    have "p \<in> A" using due2(2) by (simp add: due_def)
    have "{q \<in> A2. q \<notin> due L2 A2 \<or> tm_repeat (timer_at L2 q) \<noteq> 0} = {q \<in> A. q \<notin> due L A \<or> tm_repeat (timer_at L q) \<noteq> 0}"
    proof (intro Collect_cong)
      fix q
      show "q \<in> A2 \<and> (q \<notin> due L2 A2 \<or> tm_repeat (timer_at L2 q) \<noteq> 0) \<longleftrightarrow> q \<in> A \<and> (q \<notin> due L A \<or> tm_repeat (timer_at L q) \<noteq> 0)"
        using same(1) [of q] same(2) due2 \<open>p \<in> A\<close> by (cases "q = p") (simp_all add: A2_def)
    qed
    moreover have "timer_less_than (timer_at L2) b a = timer_less_than (timer_at L) b a" if "a \<in> set ps" "b \<in> set ps" for a b
      using that same(1) unfolding IH(4) by (simp add: timer_less_than_def)
    then have "sorted_wrt (\<lambda>a b. \<not> timer_less_than (timer_at L) b a) ps"
      by (intro sorted_wrt_mono_rel [OF _ IH(5)]) simp
    moreover have "\<forall>x \<in> A. \<not> timer_less_than (timer_at L) x p"
      using timer_queue.minimum_Some [OF timers_invD(1) [OF less.prems(1)] min] by blast
    ultimately show ?thesis
      using IH(1-4) due2(2) by (intro exI [of _ "p # ps"] exI [of _ L']) (auto simp: run due_def)
  qed
qed

text \<open>A callback that re-arms its timer for now\<close>

definition rearm_now :: "'cb \<Rightarrow> 'p \<Rightarrow> ('p, 'cb) uv_loop \<Rightarrow> ('p, 'cb) uv_loop option" where
  "rearm_now cb p L = map_option snd (uv_timer_start p (Some cb) 0 0 L)"

lemma rearm_now_ok:
  assumes "timers_inv others L A" and "p \<in> set (handle_queue L)" and "\<not> uv__is_closing L p" and "card (A - {p}) + 1 < 2 ^ 32" and "live L A"
  shows "\<exists>L'. rearm_now cb p L = Some L' \<and> timers_inv others L' (insert p A) \<and> live L' (insert p A) \<and> p \<in> due L' (insert p A) \<and>
    loop_time L' = loop_time L"
proof -
  obtain L' where "uv_timer_start p (Some cb) 0 0 L = Some (0, L')" "timers_inv others L' (insert p A)"
    "timer_at L' = (timer_at L)(p := timer_at L p\<lparr>handle_flags := flag_on 2 (flags_of L p), timer_cb := Some cb,
      tm_timeout := clamp_timeout (loop_time L) 0, tm_repeat := 0, start_id := timer_counter L\<rparr>)" "loop_time L' = loop_time L"
    using start_ok [OF assms(1-4), of "Some cb" 0 0] by auto
  then show ?thesis
    using assms(3,5) by (intro exI [of _ L']) (auto simp: rearm_now_def live_def due_def handle_bits clamp_timeout_def)
qed

lemma run_rearm_now:
  "uv__run_timers rearm_now L = Some (ps, L') \<Longrightarrow> timers_inv others L A \<Longrightarrow> live L A \<Longrightarrow> loop_time L < - 1 \<Longrightarrow> due L A = {}"
proof (induction ps arbitrary: L A)
  case (Cons q ps)
  show ?case
  proof (rule ccontr)
    assume some: "due L A \<noteq> {}"
    obtain p L2 cb where run: "uv__run_timers rearm_now L = Option.bind (rearm_now cb p L2) (\<lambda>L. Option.bind (uv__run_timers rearm_now L) (\<lambda>(ps, L). Some (p # ps, L)))"
      and inv2: "timers_inv others L2 (if tm_repeat (timer_at L p) \<noteq> 0 then A else A - {p})" "live L2 (if tm_repeat (timer_at L p) \<noteq> 0 then A else A - {p})"
      and p: "p \<in> due L A" "\<not> uv__is_closing L2 p" and same: "loop_time L2 = loop_time L" "handle_queue L2 = handle_queue L"
      by (rule run_step [OF Cons.prems(2-4) some, of rearm_now]) (rule that, assumption+)
    have pA: "p \<in> A" using p(1) by (simp add: due_def)
    then have "p \<in> set (handle_queue L2)" using timers_invD(3) [OF Cons.prems(2)] same(2) by auto
    moreover have "card ((if tm_repeat (timer_at L p) \<noteq> 0 then A else A - {p}) - {p}) + 1 < 2 ^ 32"
      using heap_room [OF Cons.prems(2) pA] by simp
    ultimately obtain L3 A3 where L3: "rearm_now cb p L2 = Some L3" "timers_inv others L3 A3" "live L3 A3" "p \<in> due L3 A3" "loop_time L3 = loop_time L"
      using rearm_now_ok [OF inv2(1) _ p(2) _ inv2(2)] same by metis
    then have "uv__run_timers rearm_now L3 = Some (ps, L')"
      using Cons.prems(1) run by (auto simp: bind_eq_Some_conv)
    then show False using Cons.IH [OF _ L3(2,3)] L3(4,5) Cons.prems(4) by auto
  qed
next
  case Nil
  show ?case
  proof (rule ccontr)
    assume some: "due L A \<noteq> {}"
    obtain p L2 cb where run: "uv__run_timers rearm_now L = Option.bind (rearm_now cb p L2) (\<lambda>L. Option.bind (uv__run_timers rearm_now L) (\<lambda>(ps, L). Some (p # ps, L)))"
      by (rule run_step [OF Nil.prems(2-4) some, of rearm_now]) (rule that, assumption+)
    show False using Nil.prems(1) unfolding run by (auto simp: bind_eq_Some_conv)
  qed
qed

section \<open>The other operations\<close>

lemma init_ok:
  assumes inv: "timers_inv others L A" and p: "p \<notin> set (handle_queue L)"
  shows "uv_timer_init p L = (0, snd (uv_timer_init p L)) \<and> timers_inv others (snd (uv_timer_init p L)) A \<and>
    set (handle_queue (snd (uv_timer_init p L))) = insert p (set (handle_queue L)) \<and>
    \<not> uv__is_active (snd (uv_timer_init p L)) p \<and> \<not> uv__is_closing (snd (uv_timer_init p L)) p"
proof -
  define L' where "L' = snd (uv_timer_init p L)"
  note D = timers_invD [OF inv]
  have L': "L' = L\<lparr>timer_at := (timer_at L)(p := timer_at L p\<lparr>handle_flags := UV_HANDLE_REF, timer_cb := None, tm_repeat := 0\<rparr>),
      handle_queue := handle_queue L @ [p]\<rparr>"
    by (simp add: L'_def uv_timer_init_def uv__handle_init_def Let_def set_flags_def set_timer_def)
  have ref: "\<not> bit UV_HANDLE_REF 0" "\<not> bit UV_HANDLE_REF 1" "\<not> bit UV_HANDLE_REF 2"
    by (simp_all add: UV_HANDLE_REF_def bit_iff_odd)
  have pA: "p \<notin> A" using D(3) p by blast
  have "timers_inv others L' A"
  proof (rule timers_invI)
    show "heap_inv (timer_less_than (timer_at L')) (timer_heap L') A"
    proof -
      have "timer_heap L' = timer_heap L" by (simp add: L')
      moreover have "tm_timeout (timer_at L' q) = tm_timeout (timer_at L q) \<and> start_id (timer_at L' q) = start_id (timer_at L q)" for q
        by (simp add: L')
      ultimately show ?thesis using timer_heap_cong [OF D(1), of "timer_at L'"] by simp
    qed
    show "A \<subseteq> set (handle_queue L')" using D(3) by (auto simp: L')
    show "bit (flags_of L' q) 2 \<longleftrightarrow> q \<in> A" if "q \<in> set (handle_queue L')" for q
      using that D(4) pA ref by (auto simp: L')
    show "timer_cb (timer_at L' q) \<noteq> None" if "q \<in> A" for q using that D(6) pA by (auto simp: L')
    have "{q \<in> A. bit (flags_of L' q) 3} = {q \<in> A. bit (flags_of L q) 3}" using pA by (auto simp: L')
    then show "active_handles L' = others + of_nat (card {q \<in> A. bit (flags_of L' q) 3})" using D(7) by (simp add: L')
  qed
  moreover have "fst (uv_timer_init p L) = 0" by (simp add: uv_timer_init_def Let_def)
  ultimately show ?thesis
    using ref unfolding L'_def [symmetric] by (auto simp: L' handle_bits prod_eq_iff) (simp_all add: L'_def [symmetric] L')
qed

text \<open>Setting fields of one timer that neither the order nor the activity depends on\<close>

lemma timers_inv_update:
  assumes inv: "timers_inv others L A"
    and L': "timer_heap L' = timer_heap L" "handle_queue L' = handle_queue L" "timer_at L' = (timer_at L)(p := t)"
    and t: "tm_timeout t = tm_timeout (timer_at L p)" "start_id t = start_id (timer_at L p)" "timer_cb t = timer_cb (timer_at L p)"
      "bit (handle_flags t) 2 = bit (flags_of L p) 2"
    and count: "active_handles L' + (if p \<in> A \<and> bit (flags_of L p) 3 then 1 else 0) =
      active_handles L + (if p \<in> A \<and> bit (handle_flags t) 3 then 1 else 0)"
  shows "timers_inv others L' A"
proof (rule timers_invI)
  note D = timers_invD [OF inv]
  show "heap_inv (timer_less_than (timer_at L')) (timer_heap L') A"
    unfolding L'(1) by (rule timer_heap_cong [OF D(1)]) (simp add: L'(3) t)
  show "A \<subseteq> set (handle_queue L')" using D(3) by (simp add: L')
  show "bit (flags_of L' q) 2 \<longleftrightarrow> q \<in> A" if "q \<in> set (handle_queue L')" for q
    using that D(4) [of q] t(4) by (cases "q = p") (simp_all add: L')
  show "timer_cb (timer_at L' q) \<noteq> None" if "q \<in> A" for q using that D(6) [OF that] t(3) by (auto simp: L')
  have "{q \<in> A. bit (flags_of L q) 3} = {q \<in> A - {p}. bit (flags_of L q) 3} \<union> (if p \<in> A \<and> bit (flags_of L p) 3 then {p} else {})" by auto
  then have 1: "card {q \<in> A. bit (flags_of L q) 3} = card {q \<in> A - {p}. bit (flags_of L q) 3} + (if p \<in> A \<and> bit (flags_of L p) 3 then 1 else 0)"
    using D(2) by (simp add: card_insert_if)
  have "{q \<in> A. bit (flags_of L' q) 3} = {q \<in> A - {p}. bit (flags_of L q) 3} \<union> (if p \<in> A \<and> bit (handle_flags t) 3 then {p} else {})"
    by (auto simp: L')
  then have 2: "card {q \<in> A. bit (flags_of L' q) 3} = card {q \<in> A - {p}. bit (flags_of L q) 3} + (if p \<in> A \<and> bit (handle_flags t) 3 then 1 else 0)"
    using D(2) by (simp add: card_insert_if)
  show "active_handles L' = others + of_nat (card {q \<in> A. bit (flags_of L' q) 3})"
    using count D(7) unfolding 1 2 by (auto split: if_splits)
qed

lemma set_repeat_ok: "timers_inv others L A \<Longrightarrow> timers_inv others (uv_timer_set_repeat p r L) A"
  by (erule timers_inv_update [of _ _ _ _ p "timer_at L p\<lparr>tm_repeat := r\<rparr>"]) (simp_all add: uv_timer_set_repeat_def)

lemma ref_ok:
  assumes inv: "timers_inv others L A" and live: "live L A" and p: "p \<in> set (handle_queue L)"
  shows "timers_inv others (uv__handle_ref p L) A \<and> uv__has_ref (uv__handle_ref p L) p"
    and "timers_inv others (uv__handle_unref p L) A \<and> \<not> uv__has_ref (uv__handle_unref p L) p"
proof -
  note act = timers_invD(4) [OF inv p]
  have open_p: "p \<in> A \<Longrightarrow> \<not> bit (flags_of L p) 0" using live by (auto simp: live_def handle_bits)
  define L' where "L' = uv__handle_ref p L"
  have at1: "timer_at L' = (timer_at L)(p := timer_at L p\<lparr>handle_flags := flag_on 3 (flags_of L p)\<rparr>)"
    and other1: "timer_heap L' = timer_heap L" "handle_queue L' = handle_queue L"
    and count1: "active_handles L' = active_handles L + (if p \<in> A \<and> \<not> bit (flags_of L p) 3 then 1 else 0)"
    using act open_p flag_on_id [of "flags_of L p" 3]
    by (auto simp: L'_def uv__handle_ref_def bit_flag flag_eqs Let_def set_flags_def uv__active_handle_add_def)
  have "timers_inv others L' A"
    by (rule timers_inv_update [OF inv other1 at1]) (simp_all add: count1)
  then show "timers_inv others (uv__handle_ref p L) A \<and> uv__has_ref (uv__handle_ref p L) p"
    unfolding L'_def [symmetric] by (simp add: handle_bits at1)
  define L'' where "L'' = uv__handle_unref p L"
  have at2: "timer_at L'' = (timer_at L)(p := timer_at L p\<lparr>handle_flags := flag_off 3 (flags_of L p)\<rparr>)"
    and other2: "timer_heap L'' = timer_heap L" "handle_queue L'' = handle_queue L"
    and count2: "active_handles L'' = active_handles L - (if p \<in> A \<and> bit (flags_of L p) 3 then 1 else 0)"
    using act open_p flag_off_id [of "flags_of L p" 3]
    by (auto simp: L''_def uv__handle_unref_def bit_flag bit_no_flag flag_eqs Let_def set_flags_def uv__active_handle_rm_def)
  have "timers_inv others L'' A"
    by (rule timers_inv_update [OF inv other2 at2]) (simp_all add: count2)
  then show "timers_inv others (uv__handle_unref p L) A \<and> \<not> uv__has_ref (uv__handle_unref p L) p"
    unfolding L''_def [symmetric] by (simp add: handle_bits at2)
qed

lemma next_timeout_eq:
  assumes inv: "timers_inv others L A"
  shows "uv__next_timeout L = (if A = {} then - 1
    else int (min 0x7fffffff (Min ((\<lambda>p. unat (tm_timeout (timer_at L p)) - unat (loop_time L)) ` A))))"
proof (cases "heap_min (timer_heap L)")
  case None
  then show ?thesis using timer_queue.minimum_None [OF timers_invD(1) [OF inv]] by (simp add: uv__next_timeout_def)
next
  case (Some p)
  have p: "p \<in> A" "\<forall>x \<in> A. \<not> timer_less_than (timer_at L) x p"
    using timer_queue.minimum_Some [OF timers_invD(1) [OF inv] Some] by blast+
  then have le: "unat (tm_timeout (timer_at L p)) \<le> unat (tm_timeout (timer_at L x))" if "x \<in> A" for x
    using p(2) that by (auto simp: timer_less_than_def not_less word_le_nat_alt split: if_splits)
  define d where "d x = unat (tm_timeout (timer_at L x)) - unat (loop_time L)" for x
  have "Min (d ` A) = d p"
    using p(1) le timers_invD(2) [OF inv] by (intro Min_eqI) (auto simp: d_def intro: diff_le_mono)
  moreover have "uv__next_timeout L = int (min 0x7fffffff (d p))"
  proof (cases "tm_timeout (timer_at L p) \<le> loop_time L")
    case True
    then show ?thesis using Some by (simp add: uv__next_timeout_def d_def word_le_nat_alt)
  next
    case False
    then have "unat (tm_timeout (timer_at L p) - loop_time L) = d p" by (simp add: d_def unat_sub)
    then have "uint (tm_timeout (timer_at L p) - loop_time L) = int (d p)" by (metis uint_nat)
    moreover from this have "tm_timeout (timer_at L p) - loop_time L > 0x7fffffff \<longleftrightarrow> d p > 0x7fffffff"
      by (simp add: word_less_def)
    ultimately show ?thesis using Some False by (simp add: uv__next_timeout_def Let_def)
  qed
  ultimately show ?thesis using p(1) by (auto simp: d_def)
qed

section \<open>Properties\<close>

text \<open>C19. Every operation on the heap keeps it a complete ordered tree of exactly the nodes it should hold: an
  insertion adds its node, a removal takes its node away wherever it is, neither crashes nor runs
  forever, and \<open>heap_min\<close> is a least node.\<close>

theorem heap_ops_keep_invariant:
  assumes "strict_weak_order lt" and "heap_inv lt h S"
  shows "(x \<notin> S \<longrightarrow> unat (nelts h) + 1 < 2 ^ 32 \<longrightarrow> (\<exists>h'. heap_insert lt x h = Some h' \<and> heap_inv lt h' (insert x S))) \<and>
    (x \<in> S \<longrightarrow> (\<exists>h'. heap_remove lt x h = Some h' \<and> heap_inv lt h' (S - {x}))) \<and>
    (case heap_min h of None \<Rightarrow> S = {} | Some m \<Rightarrow> m \<in> S \<and> (\<forall>y \<in> S. \<not> lt y m))"
  using strict_weak_order.insert_inv [OF assms] strict_weak_order.remove_inv [OF assms] strict_weak_order.min_inv [OF assms]
  by blast

definition empty_heap :: "'p heap" where
  "empty_heap = heap_init \<lparr>hmin = None, nelts = 0, node_at = (\<lambda>_. \<lparr>hn_left = None, hn_right = None, hn_parent = None\<rparr>)\<rparr>"

lemma nat_order: "strict_weak_order ((<) :: nat \<Rightarrow> nat \<Rightarrow> bool)"
  by unfold_locales auto

lemma heap_ops_keep_invariant_witness: "\<exists>h. heap_insert (<) (5 :: nat) empty_heap = Some h \<and> heap_inv (<) h {5}"
  using heap_ops_keep_invariant [OF nat_order heap_inv_init, of 5 "\<lparr>hmin = None, nelts = 0, node_at = (\<lambda>_. \<lparr>hn_left = None, hn_right = None, hn_parent = None\<rparr>)\<rparr>"]
  by (simp add: empty_heap_def [symmetric]) (simp add: empty_heap_def heap_init_def)

text \<open>Taking the minimum out until nothing is left gives the nodes of a heap, each once, in order.\<close>

theorem heap_drains_sorted:
  assumes "strict_weak_order lt" and "heap_inv lt h S"
  shows "\<exists>xs. drain heap_min (heap_remove lt) (card S) h = Some xs \<and> distinct xs \<and> set xs = S \<and> sorted_wrt (\<lambda>a b. \<not> lt b a) xs"
  using priority_queue.drain_sorted [OF heap_is_priority_queue [OF assms(1)] assms(2) refl] .

lemma heap_drains_sorted_witness:
  "\<exists>h xs. heap_insert (<) (5 :: nat) empty_heap = Some h \<and> drain heap_min (heap_remove (<)) 1 h = Some xs \<and> set xs = {5}"
proof -
  obtain h where h: "heap_insert (<) (5 :: nat) empty_heap = Some h" "heap_inv (<) h {5}"
    using strict_weak_order.insert_inv [OF nat_order heap_inv_init, of 5 "\<lparr>hmin = None, nelts = 0, node_at = (\<lambda>_. \<lparr>hn_left = None, hn_right = None, hn_parent = None\<rparr>)\<rparr>"]
    by (simp add: empty_heap_def [symmetric]) (auto simp: empty_heap_def heap_init_def)
  then show ?thesis using heap_drains_sorted [OF nat_order h(2)] by auto
qed

text \<open>A loop with one initialised timer, the number 1\<close>

definition empty_loop :: "(nat, unit) uv_loop" where
  "empty_loop = \<lparr>loop_time = 0, timer_counter = 0, active_handles = 0, handle_queue = [], closing_handles = [], timer_heap = empty_heap,
     timer_at = (\<lambda>_. \<lparr>handle_flags = 0, close_cb = None, timer_cb = None, tm_timeout = 0, tm_repeat = 0, start_id = 0\<rparr>)\<rparr>"

definition one_timer :: "(nat, unit) uv_loop" where "one_timer = snd (uv_timer_init 1 empty_loop)"

lemma one_timer_ok: "timers_inv 0 one_timer {}" "live one_timer {}" "1 \<in> set (handle_queue one_timer)" "\<not> uv__is_closing one_timer 1"
  "loop_time one_timer = 0"
proof -
  have "timers_inv 0 empty_loop {}"
    by (rule timers_invI) (simp_all add: empty_loop_def empty_heap_def heap_inv_init)
  then show "timers_inv 0 one_timer {}" "1 \<in> set (handle_queue one_timer)" "\<not> uv__is_closing one_timer 1"
    using init_ok [of 0 empty_loop "{}" 1] by (simp_all add: one_timer_def empty_loop_def)
  show "live one_timer {}" by (simp add: live_def)
  show "loop_time one_timer = 0" by (simp add: one_timer_def uv_timer_init_def uv__handle_init_def set_flags_def Let_def empty_loop_def)
qed

lemma one_started:
  obtains L where "uv_timer_start 1 (Some ()) 0 0 one_timer = Some (0, L)" and "timers_inv 0 L {1}" and "live L {1}"
    and "due L {1} = {1}" and "loop_time L < - 1"
proof -
  obtain L where "uv_timer_start 1 (Some ()) 0 0 one_timer = Some (0, L)" "timers_inv 0 L {1}"
    "timer_at L = (timer_at one_timer)(1 := timer_at one_timer 1\<lparr>handle_flags := flag_on 2 (flags_of one_timer 1), timer_cb := Some (),
      tm_timeout := clamp_timeout 0 0, tm_repeat := 0, start_id := timer_counter one_timer\<rparr>)" "loop_time L = 0"
    using start_ok [OF one_timer_ok(1,3,4), of "Some ()" 0 0] one_timer_ok(5) by auto
  then show thesis
    using one_timer_ok(4) by (intro that [of L]) (auto simp: live_def due_def handle_bits clamp_timeout_def word_gt_0)
qed

text \<open>C6. \<open>uv__run_timers\<close> returns, and when it does no active timer is due any more; only timers that were due
  have fired, none of them twice. The callbacks may do to the loop what they like as long as they
  keep the invariant and make no further timer due, and the clock is not at its last value.\<close>

theorem run_timers_fires_all_due:
  assumes "timers_inv others L A" and "live L A" and "loop_time L < - 1" and "tame others call"
  shows "\<exists>ps L' A'. uv__run_timers call L = Some (ps, L') \<and> timers_inv others L' A' \<and> due L' A' = {} \<and>
    loop_time L' = loop_time L \<and> distinct ps \<and> set ps \<subseteq> due L A"
  using run_tame [OF assms(4,1-3)] by blast

lemma tame_quiet: "tame others (\<lambda>_ _ L. Some L)"
  by (auto simp: tame_def)

lemma run_timers_fires_all_due_witness:
  "\<exists>L ps L' A'. uv_timer_start 1 (Some ()) 0 0 one_timer = Some (0, L) \<and> uv__run_timers (\<lambda>_ _ L. Some L) L = Some (ps, L') \<and>
    timers_inv 0 L' A' \<and> due L' A' = {} \<and> set ps \<subseteq> {1}"
proof (rule one_started)
  fix L assume L: "uv_timer_start 1 (Some ()) 0 0 one_timer = Some (0, L)" "timers_inv 0 L {1}" "live L {1}" "due L {1} = {1}" "loop_time L < - 1"
  show ?thesis
    using run_timers_fires_all_due [OF L(2,3,5) tame_quiet] L(1) unfolding L(4) by blast
qed

text \<open>C20. When the callbacks leave the loop alone, each due timer fires exactly once, in the order of the
  timeouts and, at equal timeouts, of the starts; the others stay, and of those that fired the ones
  with an interval are active again.\<close>

theorem run_timers_in_order:
  assumes "timers_inv others L A" and "live L A" and "loop_time L < - 1"
  shows "\<exists>ps L'. uv__run_timers (\<lambda>_ _ L. Some L) L = Some (ps, L') \<and>
    timers_inv others L' {p \<in> A. p \<notin> due L A \<or> uv_timer_get_repeat p L \<noteq> 0} \<and>
    distinct ps \<and> set ps = due L A \<and> sorted_wrt (\<lambda>a b. \<not> timer_less_than (timer_at L) b a) ps"
  using run_quiet [OF assms] unfolding uv_timer_get_repeat_def .

lemma run_timers_in_order_witness:
  "\<exists>L ps L'. uv_timer_start 1 (Some ()) 0 0 one_timer = Some (0, L) \<and> uv__run_timers (\<lambda>_ _ L. Some L) L = Some (ps, L') \<and> set ps = {1}"
proof (rule one_started)
  fix L assume L: "uv_timer_start 1 (Some ()) 0 0 one_timer = Some (0, L)" "timers_inv 0 L {1}" "live L {1}" "due L {1} = {1}" "loop_time L < - 1"
  obtain ps L' where "uv__run_timers (\<lambda>_ _ L. Some L) L = Some (ps, L')" "set ps = {1}"
    using run_timers_in_order [OF L(2,3,5)] unfolding L(4) by blast
  then show ?thesis using L(1) by blast
qed

text \<open>A callback that starts its timer again with a timeout of zero keeps \<open>uv__run_timers\<close> from ever
  returning: the timer is due again at once, before the loop updates its clock.\<close>

theorem run_timers_may_starve:
  assumes "timers_inv others L A" and "live L A" and "loop_time L < - 1" and "due L A \<noteq> {}"
  shows "uv__run_timers rearm_now L = None"
proof (cases "uv__run_timers rearm_now L")
  case (Some r)
  obtain ps L' where "r = (ps, L')" by (cases r)
  then show ?thesis using run_rearm_now [OF _ assms(1-3), of ps L'] Some assms(4) by simp
qed

lemma run_timers_may_starve_witness:
  "\<exists>L. uv_timer_start 1 (Some ()) 0 0 one_timer = Some (0, L) \<and> uv__run_timers rearm_now L = None"
proof (rule one_started)
  fix L assume L: "uv_timer_start 1 (Some ()) 0 0 one_timer = Some (0, L)" "timers_inv 0 L {1}" "live L {1}" "due L {1} = {1}" "loop_time L < - 1"
  show ?thesis using run_timers_may_starve [OF L(2,3,5)] L(1,4) by (intro exI [of _ L]) simp
qed

text \<open>\<open>uv__next_timeout\<close> is the time until the first active timer is due, 0 when one is due already, cut at
  \<open>INT_MAX\<close>, and -1 when no timer is active.\<close>

theorem next_timeout_exact:
  assumes "timers_inv others L A"
  shows "uv__next_timeout L = (if A = {} then - 1
    else int (min 0x7fffffff (Min ((\<lambda>p. unat (tm_timeout (timer_at L p)) - unat (loop_time L)) ` A))))"
  by (rule next_timeout_eq [OF assms])

lemma next_timeout_exact_witness: "uv__next_timeout one_timer = - 1"
  using next_timeout_exact [OF one_timer_ok(1)] by simp

end
