(* ===== verification/UV_Close.thy ===== *)
theory UV_Close
  imports UV_Timer
begin

text \<open>
  Closing timers (\<open>Libuv-gRPC/src/unix/core.c\<close>): \<open>uv_close\<close> marks a handle, stops it and puts it aside, and
  \<open>uv__run_closing_handles\<close> takes the handles put aside out of the loop. Only the case \<open>UV_TIMER\<close> of their switches is
  modelled. \<open>None\<close> is a failed assertion. With them, what all operations on timers keep.
\<close>

section \<open>Closing a timer\<close>

definition uv__make_close_pending :: "'p \<Rightarrow> ('p, 'cb) uv_loop \<Rightarrow> ('p, 'cb) uv_loop option" where
  "uv__make_close_pending p L =
     (if handle_flags (timer_at L p) AND UV_HANDLE_CLOSING = 0 then None
      else if handle_flags (timer_at L p) AND UV_HANDLE_CLOSED \<noteq> 0 then None
      else Some (L\<lparr>closing_handles := p # closing_handles L\<rparr>))"

definition uv_close :: "'p \<Rightarrow> 'cb option \<Rightarrow> ('p, 'cb) uv_loop \<Rightarrow> ('p, 'cb) uv_loop option" where
  "uv_close p cb L =
     (if uv__is_closing L p then None
      else let L = set_flags p (handle_flags (timer_at L p) OR UV_HANDLE_CLOSING) L;
               L = set_timer p (timer_at L p\<lparr>close_cb := cb\<rparr>) L
           in Option.bind (uv__timer_close p L) (uv__make_close_pending p))"

text \<open>\<open>QUEUE_REMOVE\<close> takes the handle out of the queue that it is in.\<close>

definition uv__finish_close :: "('cb \<Rightarrow> 'p \<Rightarrow> ('p, 'cb) uv_loop \<Rightarrow> ('p, 'cb) uv_loop option) \<Rightarrow> 'p \<Rightarrow> ('p, 'cb) uv_loop \<Rightarrow> ('p, 'cb) uv_loop option" where
  "uv__finish_close call p L =
     (if handle_flags (timer_at L p) AND UV_HANDLE_CLOSING = 0 then None
      else if handle_flags (timer_at L p) AND UV_HANDLE_CLOSED \<noteq> 0 then None
      else let L = set_flags p (handle_flags (timer_at L p) OR UV_HANDLE_CLOSED) L;
               L = uv__handle_unref p L;
               L = L\<lparr>handle_queue := remove1 p (handle_queue L)\<rparr>
           in case close_cb (timer_at L p) of None \<Rightarrow> Some L | Some cb \<Rightarrow> call cb p L)"

text \<open>The list is taken from the loop before the first handle is finished, and the link to the next one is read before each.\<close>

fun finish_all :: "('cb \<Rightarrow> 'p \<Rightarrow> ('p, 'cb) uv_loop \<Rightarrow> ('p, 'cb) uv_loop option) \<Rightarrow> 'p list \<Rightarrow> ('p, 'cb) uv_loop \<Rightarrow> ('p, 'cb) uv_loop option" where
  "finish_all call [] L = Some L"
| "finish_all call (p # ps) L = Option.bind (uv__finish_close call p L) (finish_all call ps)"

definition uv__run_closing_handles :: "('cb \<Rightarrow> 'p \<Rightarrow> ('p, 'cb) uv_loop \<Rightarrow> ('p, 'cb) uv_loop option) \<Rightarrow> ('p, 'cb) uv_loop \<Rightarrow> ('p, 'cb) uv_loop option" where
  "uv__run_closing_handles call L = finish_all call (closing_handles L) (L\<lparr>closing_handles := []\<rparr>)"

section \<open>The invariant of the loop\<close>

text \<open>No active timer is closing, and the handles \<open>ps\<close> that wait to be finished are stopped, marked and not yet closed.\<close>

definition waiting :: "'p list \<Rightarrow> ('p, 'cb) uv_loop \<Rightarrow> 'p set \<Rightarrow> bool" where
  "waiting ps L A \<longleftrightarrow> distinct ps \<and>
     (\<forall>p \<in> set ps. p \<in> set (handle_queue L) \<and> p \<notin> A \<and> bit (flags_of L p) 0 \<and> \<not> bit (flags_of L p) 1)"

definition loop_inv :: "u32 \<Rightarrow> ('p, 'cb) uv_loop \<Rightarrow> 'p set \<Rightarrow> bool" where
  "loop_inv others L A \<longleftrightarrow> timers_inv others L A \<and> live L A \<and> waiting (closing_handles L) L A"

lemma waitingI:
  assumes "waiting ps L A" and "\<And>p. p \<in> set ps \<Longrightarrow> p \<in> set (handle_queue L') \<and> p \<notin> A' \<and> (bit (flags_of L' p) 0 \<longleftrightarrow> bit (flags_of L p) 0) \<and> (bit (flags_of L' p) 1 \<longleftrightarrow> bit (flags_of L p) 1)"
  shows "waiting ps L' A'"
  using assms by (auto simp: waiting_def)

lemma closed_flag: "fl AND UV_HANDLE_CLOSED \<noteq> 0 \<longleftrightarrow> bit fl 1" "fl OR UV_HANDLE_CLOSING = flag_on 0 fl" "fl OR UV_HANDLE_CLOSED = flag_on 1 fl"
proof -
  have "fl AND 2 ^ 1 \<noteq> 0 \<longleftrightarrow> bit fl 1" by (simp only: and_exp_eq_0_iff_not_bit not_not)
  then show "fl AND UV_HANDLE_CLOSED \<noteq> 0 \<longleftrightarrow> bit fl 1" by (simp add: UV_HANDLE_CLOSED_def)
qed (simp_all add: flag_on_def UV_HANDLE_CLOSING_def UV_HANDLE_CLOSED_def)

lemma same_closing_handles:
  "closing_handles (uv__handle_start p L) = closing_handles L" "closing_handles (uv__handle_stop p L) = closing_handles L"
  "closing_handles (uv__handle_ref p L) = closing_handles L" "closing_handles (uv__handle_unref p L) = closing_handles L"
  "closing_handles (uv_timer_set_repeat p n L) = closing_handles L" "closing_handles (snd (uv_timer_init p L)) = closing_handles L"
  by (simp_all add: uv__handle_start_def uv__handle_stop_def uv__handle_ref_def uv__handle_unref_def uv_timer_set_repeat_def
      uv_timer_init_def uv__handle_init_def set_flags_def uv__active_handle_add_def uv__active_handle_rm_def Let_def)

lemma stop_closing_handles: "uv_timer_stop p L = Some (r, L') \<Longrightarrow> closing_handles L' = closing_handles L"
  by (auto simp: uv_timer_stop_def same_closing_handles split: if_splits option.splits)

lemma start_closing_handles: "uv_timer_start p cb t n L = Some (r, L') \<Longrightarrow> closing_handles L' = closing_handles L"
  by (auto simp: uv_timer_start_def same_closing_handles Let_def split: if_splits option.splits prod.splits dest!: stop_closing_handles)

lemma again_closing_handles: "uv_timer_again p L = Some (r, L') \<Longrightarrow> closing_handles L' = closing_handles L"
proof -
  assume a: "uv_timer_again p L = Some (r, L')"
  show ?thesis
  proof (cases "timer_cb (timer_at L p) = None \<or> tm_repeat (timer_at L p) = 0")
    case True
    then show ?thesis using a by (auto simp: uv_timer_again_def split: if_splits)
  next
    case False
    then obtain k K m M where "uv_timer_stop p L = Some (k, K)"
      "uv_timer_start p (timer_cb (timer_at K p)) (tm_repeat (timer_at K p)) (tm_repeat (timer_at K p)) K = Some (m, M)" "L' = M"
      using a by (simp add: uv_timer_again_def split: option.splits prod.splits)
    then show ?thesis using stop_closing_handles start_closing_handles by metis
  qed
qed

section \<open>Every operation keeps it\<close>

lemma stop_loop:
  assumes inv: "loop_inv others L A" and p: "p \<in> set (handle_queue L)"
  shows "\<exists>L'. uv_timer_stop p L = Some (0, L') \<and> loop_inv others L' (A - {p})"
proof -
  have w: "timers_inv others L A" "live L A" "waiting (closing_handles L) L A" using inv by (simp_all add: loop_inv_def)
  obtain L' where L': "uv_timer_stop p L = Some (0, L')" "timers_inv others L' (A - {p})"
    "timer_at L' = (timer_at L)(p := timer_at L p\<lparr>handle_flags := flag_off 2 (flags_of L p)\<rparr>)" "handle_queue L' = handle_queue L"
    using stop_ok [OF w(1) p] by blast
  have "waiting (closing_handles L') L' (A - {p})"
    unfolding stop_closing_handles [OF L'(1)] using w(3) by (intro waitingI [OF w(3)]) (auto simp: L'(3,4) waiting_def)
  moreover have "live L' (A - {p})" using w(2) by (auto simp: live_def handle_bits L'(3))
  ultimately show ?thesis using L' by (auto simp: loop_inv_def)
qed

lemma start_loop:
  assumes inv: "loop_inv others L A" and p: "p \<in> set (handle_queue L)" "\<not> uv__is_closing L p" and room: "card A + 1 < 2 ^ 32"
  shows "\<exists>L'. uv_timer_start p (Some cb) timeout repeat L = Some (0, L') \<and> loop_inv others L' (insert p A)"
proof -
  have w: "timers_inv others L A" "live L A" "waiting (closing_handles L) L A" using inv by (simp_all add: loop_inv_def)
  have "card (A - {p}) + 1 < 2 ^ 32" using room card_Diff1_le [of A p] by linarith
  then obtain L' where L': "uv_timer_start p (Some cb) timeout repeat L = Some (0, L')" "timers_inv others L' (insert p A)"
    "timer_at L' = (timer_at L)(p := timer_at L p\<lparr>handle_flags := flag_on 2 (flags_of L p), timer_cb := Some cb,
      tm_timeout := clamp_timeout (loop_time L) timeout, tm_repeat := repeat, start_id := timer_counter L\<rparr>)" "handle_queue L' = handle_queue L"
    using start_ok [OF w(1) p, of "Some cb" timeout repeat] by auto
  have "waiting (closing_handles L') L' (insert p A)"
    unfolding start_closing_handles [OF L'(1)]
  proof (rule waitingI [OF w(3)])
    fix q assume "q \<in> set (closing_handles L)"
    then have q: "q \<in> set (handle_queue L)" "q \<notin> A" "uv__is_closing L q" using w(3) by (auto simp: waiting_def handle_bits)
    then have "q \<noteq> p" using p(2) by auto
    then show "q \<in> set (handle_queue L') \<and> q \<notin> insert p A \<and> (bit (flags_of L' q) 0 \<longleftrightarrow> bit (flags_of L q) 0) \<and> (bit (flags_of L' q) 1 \<longleftrightarrow> bit (flags_of L q) 1)"
      using q L'(3,4) by simp
  qed
  moreover have "live L' (insert p A)" using w(2) p(2) by (auto simp: live_def handle_bits L'(3))
  ultimately show ?thesis using L' by (auto simp: loop_inv_def)
qed

lemma again_loop:
  assumes inv: "loop_inv others L A" and p: "p \<in> set (handle_queue L)" and room: "card A + 1 < 2 ^ 32" and cb: "timer_cb (timer_at L p) \<noteq> None"
  shows "\<exists>L'. uv_timer_again p L = Some (0, L') \<and>
    loop_inv others L' (if uv_timer_get_repeat p L \<noteq> 0 \<and> \<not> uv__is_closing L p then insert p A else A)"
proof (cases "uv__is_closing L p")
  case True
  then have "p \<notin> A" using inv by (auto simp: loop_inv_def live_def)
  then have "\<not> uv__is_active L p" using timers_invD(4) [of others L A p] inv p by (simp add: loop_inv_def handle_bits)
  then have "uv_timer_again p L = Some (0, L)" using cb True by (auto simp: uv_timer_again_def uv_timer_stop_def uv_timer_start_def)
  then show ?thesis using inv True by simp
next
  case False
  have "card (A - {p}) + 1 < 2 ^ 32" using room card_Diff1_le [of A p] by linarith
  then obtain L' where L': "uv_timer_again p L = Some (0, L')" "timers_inv others L' (if tm_repeat (timer_at L p) \<noteq> 0 then insert p A else A)"
    "\<forall>q. q \<noteq> p \<longrightarrow> timer_at L' q = timer_at L q" "uv__is_closing L' p = uv__is_closing L p" "handle_queue L' = handle_queue L"
    using again_ok [of others L A p] inv p False cb unfolding loop_inv_def by blast
  have "waiting (closing_handles L') L' (if tm_repeat (timer_at L p) \<noteq> 0 then insert p A else A)"
    unfolding again_closing_handles [OF L'(1)]
  proof (rule waitingI)
    show "waiting (closing_handles L) L A" using inv by (simp add: loop_inv_def)
    fix q assume q: "q \<in> set (closing_handles L)"
    have w: "q \<in> set (handle_queue L)" "q \<notin> A" "uv__is_closing L q" using inv q by (auto simp: loop_inv_def waiting_def handle_bits)
    then have "q \<noteq> p" using False by auto
    then show "q \<in> set (handle_queue L') \<and> q \<notin> (if tm_repeat (timer_at L p) \<noteq> 0 then insert p A else A) \<and>
      (bit (flags_of L' q) 0 \<longleftrightarrow> bit (flags_of L q) 0) \<and> (bit (flags_of L' q) 1 \<longleftrightarrow> bit (flags_of L q) 1)"
      using w L'(3,5) by simp
  qed
  moreover have "live L' (if tm_repeat (timer_at L p) \<noteq> 0 then insert p A else A)"
  proof -
    have "\<not> uv__is_closing L' q" if "q \<in> insert p A" for q
      using that inv L'(3,4) False by (cases "q = p") (auto simp: live_def loop_inv_def handle_bits)
    then show ?thesis by (auto simp: live_def)
  qed
  ultimately show ?thesis using L' False by (auto simp: loop_inv_def uv_timer_get_repeat_def)
qed

lemma ref_flags:
  "timer_at (uv__handle_ref p L) = (timer_at L)(p := timer_at L p\<lparr>handle_flags := flag_on 3 (flags_of L p)\<rparr>)" "handle_queue (uv__handle_ref p L) = handle_queue L"
  "timer_at (uv__handle_unref p L) = (timer_at L)(p := timer_at L p\<lparr>handle_flags := flag_off 3 (flags_of L p)\<rparr>)" "handle_queue (uv__handle_unref p L) = handle_queue L"
  using flag_on_id [of "flags_of L p" 3] flag_off_id [of "flags_of L p" 3]
  by (auto simp: uv__handle_ref_def uv__handle_unref_def bit_flag bit_no_flag flag_eqs Let_def set_flags_def uv__active_handle_add_def uv__active_handle_rm_def)

lemma ref_loop:
  assumes inv: "loop_inv others L A" and p: "p \<in> set (handle_queue L)"
  shows "loop_inv others (uv__handle_ref p L) A" "loop_inv others (uv__handle_unref p L) A" "loop_inv others (uv_timer_set_repeat p n L) A"
proof -
  have w: "timers_inv others L A" "live L A" "waiting (closing_handles L) L A" using inv by (simp_all add: loop_inv_def)
  have "waiting (closing_handles L) (uv__handle_ref p L) A" "waiting (closing_handles L) (uv__handle_unref p L) A"
    "waiting (closing_handles L) (uv_timer_set_repeat p n L) A"
    by (rule waitingI [OF w(3)]; use w(3) in \<open>auto simp: ref_flags waiting_def uv_timer_set_repeat_def\<close>)+
  moreover have "live (uv__handle_ref p L) A" "live (uv__handle_unref p L) A" "live (uv_timer_set_repeat p n L) A"
    using w(2) by (auto simp: live_def handle_bits ref_flags uv_timer_set_repeat_def)
  ultimately show "loop_inv others (uv__handle_ref p L) A" "loop_inv others (uv__handle_unref p L) A" "loop_inv others (uv_timer_set_repeat p n L) A"
    using ref_ok [OF w(1,2) p] set_repeat_ok [OF w(1), of p n] by (simp_all add: loop_inv_def same_closing_handles)
qed

lemma init_loop:
  assumes inv: "loop_inv others L A" and p: "p \<notin> set (handle_queue L)"
  shows "loop_inv others (snd (uv_timer_init p L)) A"
proof -
  have w: "timers_inv others L A" "live L A" "waiting (closing_handles L) L A" using inv by (simp_all add: loop_inv_def)
  have at: "timer_at (snd (uv_timer_init p L)) q = timer_at L q" if "q \<noteq> p" for q
    using that by (simp add: uv_timer_init_def uv__handle_init_def Let_def set_flags_def)
  have ok: "timers_inv others (snd (uv_timer_init p L)) A" "set (handle_queue (snd (uv_timer_init p L))) = insert p (set (handle_queue L))"
    using init_ok [OF w(1) p] by blast+
  have "p \<notin> A" using timers_invD(3) [OF w(1)] p by blast
  then have "live (snd (uv_timer_init p L)) A" using w(2) at by (force simp: live_def handle_bits)
  moreover have "waiting (closing_handles L) (snd (uv_timer_init p L)) A"
  proof (rule waitingI [OF w(3)])
    fix q assume "q \<in> set (closing_handles L)"
    then have "q \<in> set (handle_queue L)" "q \<notin> A" using w(3) by (auto simp: waiting_def)
    moreover from this have "q \<noteq> p" using p by auto
    ultimately show "q \<in> set (handle_queue (snd (uv_timer_init p L))) \<and> q \<notin> A \<and>
      (bit (flags_of (snd (uv_timer_init p L)) q) 0 \<longleftrightarrow> bit (flags_of L q) 0) \<and> (bit (flags_of (snd (uv_timer_init p L)) q) 1 \<longleftrightarrow> bit (flags_of L q) 1)"
      using at ok by simp
  qed
  ultimately show ?thesis using ok by (simp add: loop_inv_def same_closing_handles)
qed

lemma close_loop:
  assumes inv: "loop_inv others L A" and p: "p \<in> set (handle_queue L)" "\<not> uv__is_closing L p"
  shows "\<exists>L'. uv_close p cb L = Some L' \<and> loop_inv others L' (A - {p}) \<and> closing_handles L' = p # closing_handles L \<and>
    uv__is_closing L' p \<and> handle_queue L' = handle_queue L"
proof -
  have w: "timers_inv others L A" "live L A" "waiting (closing_handles L) L A" using inv by (simp_all add: loop_inv_def)
  define M where "M = set_timer p (timer_at L p\<lparr>handle_flags := flag_on 0 (flags_of L p), close_cb := cb\<rparr>) L"
  have M: "set_timer p (timer_at (set_flags p (flags_of L p OR UV_HANDLE_CLOSING) L) p\<lparr>close_cb := cb\<rparr>) (set_flags p (flags_of L p OR UV_HANDLE_CLOSING) L) = M"
    by (simp add: M_def closed_flag set_flags_def set_timer_def)
  have "timers_inv others M A"
    by (rule timers_inv_update [OF w(1), of _ p "timer_at L p\<lparr>handle_flags := flag_on 0 (flags_of L p), close_cb := cb\<rparr>"]) (simp_all add: M_def)
  then obtain K where K: "uv_timer_stop p M = Some (0, K)" "timers_inv others K (A - {p})"
    "timer_at K = (timer_at M)(p := timer_at M p\<lparr>handle_flags := flag_off 2 (flags_of M p)\<rparr>)" "handle_queue K = handle_queue M"
    using stop_ok [of others M A p] p by (auto simp: M_def)
  have fl: "bit (flags_of K p) 0" "\<not> bit (flags_of K p) 1" using p(2) by (simp_all add: K(3) M_def handle_bits)
  define L' where "L' = K\<lparr>closing_handles := p # closing_handles K\<rparr>"
  have "closing_handles K = closing_handles L" using stop_closing_handles [OF K(1)] by (simp add: M_def)
  then have cl: "closing_handles L' = p # closing_handles L" by (simp add: L'_def)
  have "uv_close p cb L = Some L'"
    using p(2) K(1) fl closed_flag(1) [of "flags_of K p"] bit_flag(3) [of "flags_of K p"]
    by (simp add: uv_close_def Let_def M uv__timer_close_def uv__make_close_pending_def L'_def)
  moreover have "timers_inv others L' (A - {p})" using K(2) by (simp add: timers_inv_def L'_def uv__is_active_def uv__has_ref_def)
  moreover have "live L' (A - {p})" using w(2) by (auto simp: live_def L'_def K(3) M_def handle_bits)
  moreover have "waiting (p # closing_handles L) L' (A - {p})"
  proof -
    have "p \<notin> set (closing_handles L)" using w(3) p(2) by (auto simp: waiting_def handle_bits)
    moreover have "waiting (closing_handles L) L' (A - {p})"
    proof (rule waitingI [OF w(3)])
      fix q assume "q \<in> set (closing_handles L)"
      moreover from this have "q \<noteq> p" using \<open>p \<notin> set (closing_handles L)\<close> by auto
      ultimately show "q \<in> set (handle_queue L') \<and> q \<notin> A - {p} \<and> (bit (flags_of L' q) 0 \<longleftrightarrow> bit (flags_of L q) 0) \<and> (bit (flags_of L' q) 1 \<longleftrightarrow> bit (flags_of L q) 1)"
        using w(3) by (auto simp: waiting_def L'_def K(3,4) M_def)
    qed
    ultimately show ?thesis using fl p(1) by (simp add: waiting_def L'_def K(4) M_def)
  qed
  ultimately show ?thesis using cl fl by (intro exI [of _ L']) (simp add: loop_inv_def handle_bits L'_def K(4) M_def)
qed

section \<open>Handles put aside\<close>

text \<open>\<open>finished L p\<close> is the timer after \<open>uv__finish_close\<close>.\<close>

definition finished :: "('p, 'cb) uv_loop \<Rightarrow> 'p \<Rightarrow> 'cb uv_timer" where
  "finished L p = timer_at L p\<lparr>handle_flags := flag_off 3 (flag_on 1 (flags_of L p))\<rparr>"

lemma finish_one:
  assumes inv: "timers_inv others L A" "live L A" "waiting (p # ps) L A" and queue: "distinct (handle_queue L)"
  shows "\<exists>L'. uv__finish_close (\<lambda>_ _ L. Some L) p L = Some L' \<and> timers_inv others L' A \<and> live L' A \<and> waiting ps L' A \<and>
    timer_at L' = (timer_at L)(p := finished L p) \<and> handle_queue L' = remove1 p (handle_queue L) \<and> closing_handles L' = closing_handles L"
proof -
  have p: "p \<in> set (handle_queue L)" "p \<notin> A" "bit (flags_of L p) 0" "\<not> bit (flags_of L p) 1" "p \<notin> set ps"
    using inv(3) by (simp_all add: waiting_def)
  define M where "M = set_flags p (flags_of L p OR UV_HANDLE_CLOSED) L"
  have M: "timer_at M = (timer_at L)(p := timer_at L p\<lparr>handle_flags := flag_on 1 (flags_of L p)\<rparr>)" "handle_queue M = handle_queue L" "closing_handles M = closing_handles L"
    by (simp_all add: M_def set_flags_def closed_flag)
  have M_inv: "timers_inv others M A"
    by (rule timers_inv_update [OF inv(1), of _ p "timer_at L p\<lparr>handle_flags := flag_on 1 (flags_of L p)\<rparr>"]) (simp_all add: M_def set_flags_def closed_flag)
  have "live M A" using inv(2) p(2) by (auto simp: live_def handle_bits M)
  then have K: "timers_inv others (uv__handle_unref p M) A" using ref_ok(2) [OF M_inv _, of p] p(1) by (simp add: M)
  define L' where "L' = (uv__handle_unref p M)\<lparr>handle_queue := remove1 p (handle_queue (uv__handle_unref p M))\<rparr>"
  have L': "timer_at L' = (timer_at L)(p := finished L p)" "handle_queue L' = remove1 p (handle_queue L)" "closing_handles L' = closing_handles L"
    by (simp_all add: L'_def ref_flags M finished_def same_closing_handles)
  have run: "uv__finish_close (\<lambda>_ _ L. Some L) p L = Some L'"
    using p(3,4) bit_flag(3) [of "flags_of L p"] closed_flag(1) [of "flags_of L p"]
    unfolding uv__finish_close_def Let_def M_def [symmetric] L'_def [symmetric] by (simp split: option.split)
  have set': "set (remove1 p (handle_queue L)) = set (handle_queue L) - {p}" using queue by (rule set_remove1_eq)
  note D = timers_invD [OF K]
  have "timers_inv others L' A"
  proof (rule timers_invI)
    show "heap_inv (timer_less_than (timer_at L')) (timer_heap L') A" using D(1) by (simp add: L'_def)
    show "A \<subseteq> set (handle_queue L')" using D(3) p(2) unfolding L'(2) set' by (auto simp: ref_flags M)
    show "bit (flags_of L' q) 2 \<longleftrightarrow> q \<in> A" if "q \<in> set (handle_queue L')" for q
    proof -
      have "q \<in> set (handle_queue (uv__handle_unref p M))" using that unfolding L'(2) set' by (simp add: ref_flags M)
      then show ?thesis using D(4) [of q] by (simp add: L'_def)
    qed
    show "timer_cb (timer_at L' q) \<noteq> None" if "q \<in> A" for q using D(6) [OF that] by (simp add: L'_def)
    show "active_handles L' = others + of_nat (card {q \<in> A. bit (flags_of L' q) 3})" using D(7) by (simp add: L'_def)
  qed
  moreover have "live L' A" using inv(2) p(2) by (auto simp: live_def handle_bits L')
  moreover have "waiting ps L' A"
  proof (rule waitingI)
    show "waiting ps L A" using inv(3) by (simp add: waiting_def)
    fix q assume q: "q \<in> set ps"
    then have "q \<noteq> p" using p(5) by auto
    then show "q \<in> set (handle_queue L') \<and> q \<notin> A \<and> (bit (flags_of L' q) 0 \<longleftrightarrow> bit (flags_of L q) 0) \<and> (bit (flags_of L' q) 1 \<longleftrightarrow> bit (flags_of L q) 1)"
      using q inv(3) by (auto simp: waiting_def L' set')
  qed
  ultimately show ?thesis using run L' by blast
qed

lemma finish_all_ok:
  "timers_inv others L A \<Longrightarrow> live L A \<Longrightarrow> waiting ps L A \<Longrightarrow> distinct (handle_queue L) \<Longrightarrow>
    \<exists>L'. finish_all (\<lambda>_ _ L. Some L) ps L = Some L' \<and> timers_inv others L' A \<and> live L' A \<and>
      handle_queue L' = filter (\<lambda>q. q \<notin> set ps) (handle_queue L) \<and> closing_handles L' = closing_handles L \<and>
      (\<forall>q. timer_at L' q = (if q \<in> set ps then finished L q else timer_at L q))"
proof (induction ps arbitrary: L)
  case (Cons p ps)
  obtain M where M: "uv__finish_close (\<lambda>_ _ L. Some L) p L = Some M" "timers_inv others M A" "live M A" "waiting ps M A"
    "timer_at M = (timer_at L)(p := finished L p)" "handle_queue M = remove1 p (handle_queue L)" "closing_handles M = closing_handles L"
    using finish_one [OF Cons.prems] by blast
  have "distinct (handle_queue M)" using Cons.prems(4) by (simp add: M(6))
  then obtain L' where L': "finish_all (\<lambda>_ _ L. Some L) ps M = Some L'" "timers_inv others L' A" "live L' A"
    "handle_queue L' = filter (\<lambda>q. q \<notin> set ps) (handle_queue M)" "closing_handles L' = closing_handles M"
    "\<forall>q. timer_at L' q = (if q \<in> set ps then finished M q else timer_at M q)"
    using Cons.IH [OF M(2-4)] by blast
  have "p \<notin> set ps" using Cons.prems(3) by (simp add: waiting_def)
  moreover have "filter (\<lambda>q. q \<notin> set ps) (remove1 p (handle_queue L)) = filter (\<lambda>q. q \<notin> set (p # ps)) (handle_queue L)"
    using Cons.prems(4) by (simp add: distinct_remove1_removeAll removeAll_filter_not_eq) (metis (mono_tags, lifting))
  ultimately show ?case using M L' by (intro exI [of _ L']) (auto simp: finished_def)
qed simp

section \<open>Properties\<close>

text \<open>C5. The operations on timers keep the invariant of the loop: the active timers are the ones in the heap, the heap is
  ordered by timeout and start, the loop counts exactly the active timers that are referenced, no active timer is closing,
  and the handles put aside are stopped, closing and not yet closed. Starting, stopping, re-arming, referencing,
  unreferencing and closing a timer and changing its interval do so for every handle of the loop, closing or not, and
  change the set of active timers as they say; a closing timer is not started, and closing it again fails the assertion.\<close>

theorem timer_ops_keep_invariant:
  assumes "loop_inv others L A" and "p \<in> set (handle_queue L)" and "card A + 1 < 2 ^ 32"
  shows "(if uv__is_closing L p then uv_timer_start p (Some cb) timeout repeat L = Some (UV_EINVAL, L)
      else \<exists>L'. uv_timer_start p (Some cb) timeout repeat L = Some (0, L') \<and> loop_inv others L' (insert p A)) \<and>
    (\<exists>L'. uv_timer_stop p L = Some (0, L') \<and> loop_inv others L' (A - {p})) \<and>
    (if timer_cb (timer_at L p) = None then uv_timer_again p L = Some (UV_EINVAL, L)
      else \<exists>L'. uv_timer_again p L = Some (0, L') \<and>
        loop_inv others L' (if uv_timer_get_repeat p L \<noteq> 0 \<and> \<not> uv__is_closing L p then insert p A else A)) \<and>
    (if uv__is_closing L p then uv_close p ccb L = None
      else \<exists>L'. uv_close p ccb L = Some L' \<and> loop_inv others L' (A - {p}) \<and> closing_handles L' = p # closing_handles L) \<and>
    loop_inv others (uv_timer_set_repeat p repeat L) A \<and>
    loop_inv others (uv__handle_ref p L) A \<and> loop_inv others (uv__handle_unref p L) A \<and>
    (q \<in> set (handle_queue L) \<or> loop_inv others (snd (uv_timer_init q L)) A)"
proof (intro conjI)
  show "if uv__is_closing L p then uv_timer_start p (Some cb) timeout repeat L = Some (UV_EINVAL, L)
      else \<exists>L'. uv_timer_start p (Some cb) timeout repeat L = Some (0, L') \<and> loop_inv others L' (insert p A)"
    using start_loop [OF assms(1,2) _ assms(3)] by (simp add: uv_timer_start_def)
  show "if timer_cb (timer_at L p) = None then uv_timer_again p L = Some (UV_EINVAL, L)
      else \<exists>L'. uv_timer_again p L = Some (0, L') \<and>
        loop_inv others L' (if uv_timer_get_repeat p L \<noteq> 0 \<and> \<not> uv__is_closing L p then insert p A else A)"
    using again_loop [OF assms] by (simp add: uv_timer_again_def)
  show "if uv__is_closing L p then uv_close p ccb L = None
      else \<exists>L'. uv_close p ccb L = Some L' \<and> loop_inv others L' (A - {p}) \<and> closing_handles L' = p # closing_handles L"
    using close_loop [OF assms(1,2), of ccb] by (auto simp: uv_close_def)
qed (use stop_loop [OF assms(1,2)] ref_loop [OF assms(1,2)] init_loop [OF assms(1), of q] in blast)+

lemma one_timer_loop: "loop_inv 0 one_timer {}" "distinct (handle_queue one_timer)"
  using one_timer_ok by (simp_all add: loop_inv_def waiting_def one_timer_def uv_timer_init_def uv__handle_init_def set_flags_def Let_def empty_loop_def)

lemma timer_ops_keep_invariant_witness:
  "\<exists>L L'. uv_timer_start 1 (Some ()) 10 5 one_timer = Some (0, L) \<and> uv_close 1 None L = Some L' \<and> active_handles L' = 0 \<and>
    uv_timer_start 1 (Some ()) 10 5 L' = Some (UV_EINVAL, L')"
proof -
  have one: "1 \<in> set (handle_queue one_timer)" "\<not> uv__is_closing one_timer 1" using one_timer_ok by simp_all
  obtain L where L: "uv_timer_start 1 (Some ()) 10 5 one_timer = Some (0, L)" "loop_inv 0 L {1}"
    using timer_ops_keep_invariant [OF one_timer_loop(1) one(1), of "()" 10 5 None undefined] one(2) by auto
  have q: "1 \<in> set (handle_queue L)" "\<not> uv__is_closing L 1"
    using L(2) timers_invD(3) [of 0 L "{1}"] by (auto simp: loop_inv_def live_def)
  obtain L' where L': "uv_close 1 None L = Some L'" "loop_inv 0 L' {}" "closing_handles L' = 1 # closing_handles L"
    using timer_ops_keep_invariant [OF L(2) q(1), of "()" 10 5 None undefined] q(2) by auto
  then have "1 \<in> set (handle_queue L')" "uv__is_closing L' 1" by (auto simp: loop_inv_def waiting_def handle_bits)
  then have "uv_timer_start 1 (Some ()) 10 5 L' = Some (UV_EINVAL, L')"
    using timer_ops_keep_invariant [OF L'(2), of 1 "()" 10 5 None undefined] by simp
  moreover have "active_handles L' = 0" using timers_invD(7) [of 0 L' "{}"] L'(2) by (simp add: loop_inv_def)
  ultimately show ?thesis using L(1) L'(1) by blast
qed

text \<open>C21. Finishing the handles put aside takes exactly them out of the loop, marks them closed and unreferenced, leaves every
  other timer as it is and keeps the invariant; no assertion fails. The close callbacks leave the loop alone.\<close>

theorem closing_handles_finished:
  assumes "loop_inv others L A" and "distinct (handle_queue L)"
  shows "\<exists>L'. uv__run_closing_handles (\<lambda>_ _ L. Some L) L = Some L' \<and> loop_inv others L' A \<and> closing_handles L' = [] \<and>
    handle_queue L' = filter (\<lambda>q. q \<notin> set (closing_handles L)) (handle_queue L) \<and>
    (\<forall>q. if q \<in> set (closing_handles L)
      then flags_of L' q AND UV_HANDLE_CLOSED \<noteq> 0 \<and> \<not> uv__has_ref L' q \<and> \<not> uv__is_active L' q
      else timer_at L' q = timer_at L q)"
proof -
  let ?M = "L\<lparr>closing_handles := []\<rparr>"
  have inv: "timers_inv others L A" "live L A" "waiting (closing_handles L) L A" using assms(1) by (simp_all add: loop_inv_def)
  have M: "timers_inv others ?M A" "live ?M A" "waiting (closing_handles L) ?M A" "distinct (handle_queue ?M)"
    using inv assms(2) by (simp_all add: timers_inv_def live_def waiting_def uv__is_active_def uv__has_ref_def uv__is_closing_def)
  obtain L' where L': "finish_all (\<lambda>_ _ L. Some L) (closing_handles L) ?M = Some L'" "timers_inv others L' A" "live L' A"
    "handle_queue L' = filter (\<lambda>q. q \<notin> set (closing_handles L)) (handle_queue L)" "closing_handles L' = []"
    "\<forall>q. timer_at L' q = (if q \<in> set (closing_handles L) then finished ?M q else timer_at L q)"
    using finish_all_ok [OF M] by auto
  have "if q \<in> set (closing_handles L)
      then flags_of L' q AND UV_HANDLE_CLOSED \<noteq> 0 \<and> \<not> uv__has_ref L' q \<and> \<not> uv__is_active L' q
      else timer_at L' q = timer_at L q" for q
  proof (cases "q \<in> set (closing_handles L)")
    case True
    then have "\<not> bit (flags_of L q) 2" using inv(3) timers_invD(4) [OF inv(1), of q] by (auto simp: waiting_def)
    then show ?thesis using True L'(6) by (simp add: handle_bits closed_flag finished_def)
  qed (use L'(6) in simp)
  moreover have "loop_inv others L' A" using L'(2,3,5) by (simp add: loop_inv_def waiting_def)
  ultimately show ?thesis using L'(1,4,5) unfolding uv__run_closing_handles_def by blast
qed

lemma closing_handles_finished_witness:
  "\<exists>L L'. uv_close 1 (Some ()) one_timer = Some L \<and> uv__run_closing_handles (\<lambda>_ _ L. Some L) L = Some L' \<and> handle_queue L' = []"
proof -
  obtain L where L: "uv_close 1 (Some ()) one_timer = Some L" "loop_inv 0 L {}" "closing_handles L = 1 # closing_handles one_timer"
    "handle_queue L = handle_queue one_timer"
    using close_loop [OF one_timer_loop(1) one_timer_ok(3,4)] by auto
  have "handle_queue one_timer = [1]"
    by (simp add: one_timer_def uv_timer_init_def uv__handle_init_def set_flags_def Let_def empty_loop_def)
  then show ?thesis using closing_handles_finished [OF L(2)] L by auto
qed

end
