(* ===== verification/UV_Inet.thy ===== *)
theory UV_Inet
  imports Bytestring_OID
begin

text \<open>
  Printing and parsing of network addresses (\<open>Libuv-gRPC/src/inet.c\<close>) and the string copy they use
  (\<open>strscpy.c\<close>). A C string is the list of the bytes before its terminator; a buffer is the list of
  its bytes. Error codes are those of the platforms of the application. \<open>%u\<close> and \<open>%x\<close> of the C
  library print as \<open>decimal\<close> and \<open>hexadecimal\<close>. A source is \<open>None\<close> when it is NULL; a destination is never NULL.
\<close>

section \<open>The code\<close>

definition UV_E2BIG :: int where "UV_E2BIG = - 7"
definition UV_ENOSPC :: int where "UV_ENOSPC = - 28"
definition UV_EINVAL :: int where "UV_EINVAL = - 22"
definition UV_EAFNOSUPPORT :: int where "UV_EAFNOSUPPORT = - 47"
definition AF_INET :: int where "AF_INET = 2"
definition AF_INET6 :: int where "AF_INET6 = 30"
definition SSIZE_MAX :: nat where "SSIZE_MAX = 2 ^ 63 - 1"
definition UV__INET_ADDRSTRLEN :: nat where "UV__INET_ADDRSTRLEN = 16"
definition UV__INET6_ADDRSTRLEN :: nat where "UV__INET6_ADDRSTRLEN = 46"

text \<open>\<open>s[i]\<close> of a terminated string, and the string in a buffer\<close>

definition str_at :: "byte list \<Rightarrow> nat \<Rightarrow> byte" where
  "str_at s i = (if i < length s then s ! i else 0)"

definition c_string :: "byte list \<Rightarrow> byte list" where
  "c_string d = takeWhile (\<lambda>b. b \<noteq> 0) d"

function strscpy_loop :: "byte list \<Rightarrow> nat \<Rightarrow> nat \<Rightarrow> byte list \<Rightarrow> nat option \<times> byte list" where
  "strscpy_loop s n i d =
     (if i < n then
        let d = d[i := str_at s i] in if str_at s i = 0 then (Some i, d) else strscpy_loop s n (i + 1) d
      else (None, d))"
  by pat_completeness auto
termination by (relation "measure (\<lambda>(_, n, i, _). n - i)") auto

declare strscpy_loop.simps [simp del]

definition uv__strscpy :: "byte list \<Rightarrow> byte list \<Rightarrow> nat \<Rightarrow> int \<times> byte list" where
  "uv__strscpy d s n = (case strscpy_loop s n 0 d of
     (Some i, d) \<Rightarrow> (if i > SSIZE_MAX then UV_E2BIG else int i, d)
   | (None, d) \<Rightarrow> if n = 0 then (0, d) else (UV_E2BIG, d[n - 1 := 0]))"

definition xdigits_l :: "byte list" where
  "xdigits_l = [0x30, 0x31, 0x32, 0x33, 0x34, 0x35, 0x36, 0x37, 0x38, 0x39, 0x61, 0x62, 0x63, 0x64, 0x65, 0x66]"

definition xdigits_u :: "byte list" where
  "xdigits_u = [0x30, 0x31, 0x32, 0x33, 0x34, 0x35, 0x36, 0x37, 0x38, 0x39, 0x41, 0x42, 0x43, 0x44, 0x45, 0x46]"

fun hexadecimal :: "nat \<Rightarrow> byte list" where
  "hexadecimal n = (if n < 16 then [xdigits_l ! n] else hexadecimal (n div 16) @ [xdigits_l ! (n mod 16)])"

declare hexadecimal.simps [simp del]

text \<open>\<open>strchr(s, c) - s\<close>\<close>

primrec strchr_index :: "byte list \<Rightarrow> byte \<Rightarrow> nat option" where
  "strchr_index [] c = None"
| "strchr_index (x # s) c = (if x = c then Some 0 else map_option Suc (strchr_index s c))"

definition inet_ntop4 :: "byte list \<Rightarrow> byte list \<Rightarrow> nat \<Rightarrow> int \<times> byte list" where
  "inet_ntop4 src dst sz =
     (let tmp = decimal (unat (src ! 0)) @ 0x2e # decimal (unat (src ! 1)) @ 0x2e # decimal (unat (src ! 2)) @ 0x2e # decimal (unat (src ! 3));
          l = length tmp
      in if l = 0 \<or> l \<ge> sz then (UV_ENOSPC, dst)
         else (0, snd (uv__strscpy dst tmp sz)))"

text \<open>The runs of zero words; a base of -1 is \<open>None\<close>.\<close>

record zero_run =
  run_base :: "nat option"
  run_len :: nat

definition better_run :: "zero_run \<Rightarrow> zero_run \<Rightarrow> zero_run" where
  "better_run best cur =
     (if run_base cur \<noteq> None then
        if run_base best = None \<or> run_len cur > run_len best then cur else best
      else best)"

fun find_runs :: "nat \<Rightarrow> nat list \<Rightarrow> zero_run \<Rightarrow> zero_run \<Rightarrow> zero_run \<times> zero_run" where
  "find_runs i [] best cur = (best, cur)"
| "find_runs i (w # ws) best cur =
     (if w = 0 then
        find_runs (i + 1) ws best
          (if run_base cur = None then \<lparr>run_base = Some i, run_len = 1\<rparr> else cur\<lparr>run_len := run_len cur + 1\<rparr>)
      else if run_base cur \<noteq> None then find_runs (i + 1) ws (better_run best cur) (cur\<lparr>run_base := None\<rparr>)
      else find_runs (i + 1) ws best cur)"

definition best_run :: "nat list \<Rightarrow> zero_run" where
  "best_run ws =
     (let (best, cur) = find_runs 0 ws \<lparr>run_base = None, run_len = 0\<rparr> \<lparr>run_base = None, run_len = 0\<rparr>;
          best = better_run best cur
      in if run_base best \<noteq> None \<and> run_len best < 2 then best\<lparr>run_base := None\<rparr> else best)"

definition words_of :: "byte list \<Rightarrow> nat list" where
  "words_of src = map (\<lambda>i. unat ((push_bit 8 (ucast (src ! (2 * i))) OR ucast (src ! (2 * i + 1))) :: u32)) [0..<8]"

text \<open>The formatting loop from word \<open>i\<close> on; \<open>tp\<close> is the text so far.\<close>

function ntop6_loop :: "byte list \<Rightarrow> nat list \<Rightarrow> zero_run \<Rightarrow> nat \<Rightarrow> byte list \<Rightarrow> int + byte list" where
  "ntop6_loop src words best i tp =
     (if i \<ge> 8 then Inr tp
      else case run_base best of
        Some b \<Rightarrow>
          if i \<ge> b \<and> i < b + run_len best then ntop6_loop src words best (i + 1) (if i = b then tp @ [0x3a] else tp)
          else
            let tp = (if i \<noteq> 0 then tp @ [0x3a] else tp)
            in if i = 6 \<and> b = 0 \<and> (run_len best = 6 \<or> (run_len best = 7 \<and> words ! 7 \<noteq> 1) \<or> (run_len best = 5 \<and> words ! 5 = 0xffff)) then
                 (let room = UV__INET6_ADDRSTRLEN - length tp;
                      (err, d) = inet_ntop4 (drop 12 src) (replicate room 0) room
                  in if err \<noteq> 0 then Inl err else Inr (tp @ c_string d))
               else ntop6_loop src words best (i + 1) (tp @ hexadecimal (words ! i))
      | None \<Rightarrow>
          let tp = (if i \<noteq> 0 then tp @ [0x3a] else tp)
          in ntop6_loop src words best (i + 1) (tp @ hexadecimal (words ! i)))"
  by pat_completeness auto
termination by (relation "measure (\<lambda>(_, _, _, i, _). 8 - i)") auto

declare ntop6_loop.simps [simp del]

definition inet_ntop6 :: "byte list \<Rightarrow> byte list \<Rightarrow> nat \<Rightarrow> int \<times> byte list" where
  "inet_ntop6 src dst sz =
     (let words = words_of src; best = best_run words
      in case ntop6_loop src words best 0 [] of
           Inl err \<Rightarrow> (err, dst)
         | Inr tp \<Rightarrow>
             let tp = (if run_base best \<noteq> None \<and> the (run_base best) + run_len best = 8 then tp @ [0x3a] else tp);
                 (r, dst) = uv__strscpy dst tp sz
             in if r = UV_E2BIG then (UV_ENOSPC, dst) else (0, dst))"

definition uv_inet_ntop :: "int \<Rightarrow> byte list \<Rightarrow> byte list \<Rightarrow> nat \<Rightarrow> int \<times> byte list" where
  "uv_inet_ntop af src dst sz =
     (if af = AF_INET then inet_ntop4 src dst sz
      else if af = AF_INET6 then inet_ntop6 src dst sz
      else (UV_EAFNOSUPPORT, dst))"

text \<open>
  Parsing. The bytes of \<open>tmp\<close> that are not initialised in the code are 0 in the model of \<open>inet_pton4\<close>;
  they are never read. \<open>None\<close> is \<open>UV_EINVAL\<close>.
\<close>

fun inet_pton4_loop :: "byte list \<Rightarrow> bool \<Rightarrow> nat \<Rightarrow> nat \<Rightarrow> byte list \<Rightarrow> byte list option" where
  "inet_pton4_loop [] saw_digit octets tp tmp = (if octets < 4 then None else Some tmp)"
| "inet_pton4_loop (ch # src) saw_digit octets tp tmp =
     (case strchr_index (take 10 xdigits_l) ch of
        Some k \<Rightarrow>
          let nw = unat (tmp ! tp) * 10 + k
          in if saw_digit \<and> tmp ! tp = 0 then None
             else if nw > 255 then None
             else let tmp = tmp[tp := of_nat nw]
                  in if \<not> saw_digit then (if octets + 1 > 4 then None else inet_pton4_loop src True (octets + 1) tp tmp)
                     else inet_pton4_loop src saw_digit octets tp tmp
      | None \<Rightarrow>
          if ch = 0x2e \<and> saw_digit then
            (if octets = 4 then None else inet_pton4_loop src False octets (tp + 1) (tmp[tp + 1 := 0]))
          else None)"

definition inet_pton4 :: "byte list \<Rightarrow> byte list option" where
  "inet_pton4 src = inet_pton4_loop src False 0 0 (replicate 4 0)"

text \<open>\<open>*tp++\<close> of the two bytes of \<open>val\<close>\<close>

definition put_word :: "u32 \<Rightarrow> nat \<Rightarrow> byte list \<Rightarrow> byte list" where
  "put_word val tp tmp = tmp[tp := ucast (drop_bit 8 val), tp + 1 := ucast val]"

fun inet_pton6_loop :: "byte list \<Rightarrow> byte list \<Rightarrow> nat \<Rightarrow> u32 \<Rightarrow> byte list \<Rightarrow> nat \<Rightarrow> nat option \<Rightarrow> (nat \<times> u32 \<times> byte list \<times> nat \<times> nat option) option" where
  "inet_pton6_loop [] curtok seen val tmp tp colonp = Some (seen, val, tmp, tp, colonp)"
| "inet_pton6_loop (ch # src) curtok seen val tmp tp colonp =
     (let pch = (case strchr_index xdigits_l ch of Some k \<Rightarrow> Some k | None \<Rightarrow> strchr_index xdigits_u ch)
      in case pch of
        Some k \<Rightarrow>
          let val = push_bit 4 val OR of_nat k
          in if seen + 1 > 4 then None else inet_pton6_loop src curtok (seen + 1) val tmp tp colonp
      | None \<Rightarrow>
          if ch = 0x3a then
            if seen = 0 then
              (if colonp \<noteq> None then None else inet_pton6_loop src src seen val tmp tp (Some tp))
            else if src = [] then None
            else if tp + 2 > 16 then None
            else inet_pton6_loop src src 0 0 (put_word val tp tmp) (tp + 2) colonp
          else if ch = 0x2e \<and> tp + 4 \<le> 16 then
            (case inet_pton4 curtok of
               Some quad \<Rightarrow> Some (0, val, take tp tmp @ quad @ drop (tp + 4) tmp, tp + 4, colonp)
             | None \<Rightarrow> None)
          else None)"

text \<open>The shift of the \<open>n\<close> bytes from \<open>colonp\<close> on to the end, from step \<open>i\<close> on\<close>

function shift_to_end :: "nat \<Rightarrow> nat \<Rightarrow> nat \<Rightarrow> byte list \<Rightarrow> byte list" where
  "shift_to_end colonp n i tmp =
     (if i \<le> n then shift_to_end colonp n (i + 1) (tmp[16 - i := tmp ! (colonp + n - i), colonp + n - i := 0]) else tmp)"
  by pat_completeness auto
termination by (relation "measure (\<lambda>(_, n, i, _). Suc n - i)") auto

declare shift_to_end.simps [simp del]

definition inet_pton6 :: "byte list \<Rightarrow> byte list option" where
  "inet_pton6 src =
     (let start = (if str_at src 0 = 0x3a then if str_at src 1 \<noteq> 0x3a then None else Some (drop 1 src) else Some src)
      in case start of None \<Rightarrow> None
      | Some src \<Rightarrow>
        (case inet_pton6_loop src src 0 0 (replicate 16 0) 0 None of None \<Rightarrow> None
         | Some (seen, val, tmp, tp, colonp) \<Rightarrow>
             if seen \<noteq> 0 \<and> tp + 2 > 16 then None
             else
               let (tmp, tp) = (if seen \<noteq> 0 then (put_word val tp tmp, tp + 2) else (tmp, tp))
               in case colonp of
                    None \<Rightarrow> if tp \<noteq> 16 then None else Some tmp
                  | Some c \<Rightarrow> if tp = 16 then None else Some (shift_to_end c (tp - c) 1 tmp)))"

definition uv_inet_pton :: "int \<Rightarrow> byte list option \<Rightarrow> int + byte list" where
  "uv_inet_pton af src = (case src of None \<Rightarrow> Inl UV_EINVAL
     | Some src \<Rightarrow>
         if af = AF_INET then (case inet_pton4 src of None \<Rightarrow> Inl UV_EINVAL | Some a \<Rightarrow> Inr a)
         else if af = AF_INET6 then
           (let p = strchr_index src 0x25
            in if p \<noteq> None \<and> the p > UV__INET6_ADDRSTRLEN - 1 then Inl UV_EINVAL
               else case inet_pton6 (case p of None \<Rightarrow> src | Some len \<Rightarrow> take len src) of None \<Rightarrow> Inl UV_EINVAL | Some a \<Rightarrow> Inr a)
         else Inl UV_EAFNOSUPPORT)"

section \<open>Copying strings\<close>

lemma strscpy_loop_eq:
  assumes "list_all (\<lambda>b. b \<noteq> 0) s" and "n \<le> length d" and "i \<le> n" and "i \<le> length s" and "take i d = take i s"
  shows "strscpy_loop s n i d = (if length s < n then (Some (length s), s @ 0 # drop (Suc (length s)) d) else (None, take n s @ drop n d))"
  using assms
proof (induction s n i d rule: strscpy_loop.induct)
  case (1 s n i d)
  consider "i = n" | "i < n" "i = length s" | "i < n" "i < length s" using "1.prems"(3,4) by linarith
  then show ?case
  proof cases
    case 1
    then show ?thesis using "1.prems"(4,5) append_take_drop_id [of n d] by (subst strscpy_loop.simps) simp
  next
    case 2
    then have "d[i := 0] = s @ 0 # drop (Suc i) d" using "1.prems"(2,5) by (simp add: upd_conv_take_nth_drop)
    then show ?thesis using 2 by (subst strscpy_loop.simps) (simp add: str_at_def Let_def)
  next
    case 3
    have nz: "s ! i \<noteq> 0" using "1.prems"(1) 3(2) by (simp add: list_all_length)
    have "take (i + 1) (d[i := s ! i]) = take (i + 1) s" using "1.prems"(2,5) 3 by (simp add: take_Suc_conv_app_nth)
    then have "strscpy_loop s n (i + 1) (d[i := s ! i]) =
        (if length s < n then (Some (length s), s @ 0 # drop (Suc (length s)) (d[i := s ! i])) else (None, take n s @ drop n (d[i := s ! i])))"
      using "1.IH" [of "d[i := s ! i]"] "1.prems" 3 nz by (simp add: str_at_def)
    then show ?thesis using 3 nz by (subst strscpy_loop.simps) (simp add: str_at_def Let_def)
  qed
qed

lemma strscpy_eq:
  assumes "list_all (\<lambda>b. b \<noteq> 0) s" and "n \<le> length d" and "length s < 2 ^ 63"
  shows "uv__strscpy d s n = (if length s < n then (int (length s), s @ 0 # drop (Suc (length s)) d)
    else if n = 0 then (0, d) else (UV_E2BIG, (take n s @ drop n d)[n - 1 := 0]))"
  using strscpy_loop_eq [OF assms(1,2), of 0] assms(3) by (auto simp: uv__strscpy_def SSIZE_MAX_def)

lemma c_string_copy: "list_all (\<lambda>b. b \<noteq> 0) s \<Longrightarrow> c_string (s @ 0 # d) = s"
  by (induction s) (simp_all add: c_string_def)


section \<open>Dotted quads\<close>

lemma digit_index: "strchr_index (take 10 xdigits_l) ch = (if digit ch then Some (unat ch - 48) else None)"
proof -
  have "ch = 0x30 \<longleftrightarrow> unat ch = 48" "ch = 0x31 \<longleftrightarrow> unat ch = 49" "ch = 0x32 \<longleftrightarrow> unat ch = 50" "ch = 0x33 \<longleftrightarrow> unat ch = 51"
    "ch = 0x34 \<longleftrightarrow> unat ch = 52" "ch = 0x35 \<longleftrightarrow> unat ch = 53" "ch = 0x36 \<longleftrightarrow> unat ch = 54" "ch = 0x37 \<longleftrightarrow> unat ch = 55"
    "ch = 0x38 \<longleftrightarrow> unat ch = 56" "ch = 0x39 \<longleftrightarrow> unat ch = 57"
    by (simp_all add: word_unat_eq_iff)
  note eqs = this
  have numeral_57: "m < 58 \<longleftrightarrow> \<not> 57 < m" for m :: nat by linarith
  have "[48..<58] = [48, 49, 50, 51, 52, 53, 54, 55, 56, 57 :: nat]" by (simp add: upt_rec_numeral)
  then have "unat ch < 48 \<or> 57 < unat ch \<or> unat ch \<in> set [48, 49, 50, 51, 52, 53, 54, 55, 56, 57]"
    by (metis atLeastLessThan_iff linorder_not_less set_upt numeral_57)
  then have "unat ch < 48 \<or> 57 < unat ch \<or> unat ch \<in> {48, 49, 50, 51, 52, 53, 54, 55, 56, 57}" by simp
  then show ?thesis
    by (elim disjE insertE emptyE) (simp_all add: xdigits_l_def digit_def eq_commute [of _ ch] eqs)
qed

lemma digit_not_dot: "digit ch \<Longrightarrow> ch \<noteq> 0x2e"
  by (auto simp: digit_def)

definition quad_text :: "byte list \<Rightarrow> byte list" where
  "quad_text a = decimal (unat (a ! 0)) @ 0x2e # decimal (unat (a ! 1)) @ 0x2e # decimal (unat (a ! 2)) @ 0x2e # decimal (unat (a ! 3))"

definition pton4_end :: "byte list \<Rightarrow> nat \<Rightarrow> byte list \<Rightarrow> byte list option" where
  "pton4_end rest tp tmp = (if tp = 3 then if rest = [] then Some tmp else None
     else case rest of [] \<Rightarrow> None | c # rest \<Rightarrow> if c = 0x2e then inet_pton4_loop rest False (tp + 1) (tp + 1) (tmp[tp + 1 := 0]) else None)"

lemma pton4_end_Some: "pton4_end rest tp tmp = Some r \<longleftrightarrow> (if tp = 3 then rest = [] \<and> r = tmp
    else \<exists>rest'. rest = 0x2e # rest' \<and> inet_pton4_loop rest' False (tp + 1) (tp + 1) (tmp[tp + 1 := 0]) = Some r)"
  by (auto simp: pton4_end_def split: list.split)

lemma pton4_end_digit: "digit ch \<Longrightarrow> pton4_end (ch # src) tp tmp = None"
  using digit_not_dot [of ch] by (simp add: pton4_end_def)

text \<open>After the first digit of an octet\<close>

lemma pton4_loop_saw:
  "length tmp = 4 \<Longrightarrow> tp < 4 \<Longrightarrow> inet_pton4_loop src True (tp + 1) tp tmp = Some r \<longleftrightarrow>
    (\<exists>ds rest. src = ds @ rest \<and> list_all digit ds \<and> (unat (tmp ! tp) = 0 \<longrightarrow> ds = []) \<and> dec_acc (unat (tmp ! tp)) ds \<le> 255 \<and>
       pton4_end rest tp (tmp[tp := of_nat (dec_acc (unat (tmp ! tp)) ds)]) = Some r)"
proof (induction src arbitrary: tmp)
  case Nil
  have "unat (tmp ! tp) \<le> 255" using word_unat_lt [of "tmp ! tp"] by simp
  then show ?case using Nil by (auto simp: pton4_end_Some)
next
  case (Cons ch src)
  define c where "c = unat (tmp ! tp)"
  have c: "c \<le> 255" using word_unat_lt [of "tmp ! tp"] by (simp add: c_def)
  have self: "tmp[tp := of_nat c] = tmp" by (simp add: c_def)
  show ?case
  proof (cases "digit ch")
    case True
    define nw where "nw = c * 10 + (unat ch - 48)"
    define t where "t = tmp[tp := of_nat nw]"
    have "(\<exists>ds rest. ch # src = ds @ rest \<and> list_all digit ds \<and> (c = 0 \<longrightarrow> ds = []) \<and> dec_acc c ds \<le> 255 \<and>
         pton4_end rest tp (tmp[tp := of_nat (dec_acc c ds)]) = Some r) \<longleftrightarrow>
       c \<noteq> 0 \<and> (\<exists>ds rest. src = ds @ rest \<and> list_all digit ds \<and> dec_acc nw ds \<le> 255 \<and> pton4_end rest tp (tmp[tp := of_nat (dec_acc nw ds)]) = Some r)"
      (is "?L \<longleftrightarrow> ?R")
    proof
      assume ?L
      then obtain ds rest where d: "ch # src = ds @ rest" "list_all digit ds" "c = 0 \<longrightarrow> ds = []" "dec_acc c ds \<le> 255"
        "pton4_end rest tp (tmp[tp := of_nat (dec_acc c ds)]) = Some r" by blast
      have "ds \<noteq> []" using d(1,5) pton4_end_digit [OF True] by auto
      then obtain ds' where "ds = ch # ds'" "src = ds' @ rest" using d(1) by (cases ds) auto
      then show ?R using d by (auto simp: nw_def)
    next
      assume ?R
      then obtain ds rest where "c \<noteq> 0" "src = ds @ rest" "list_all digit ds" "dec_acc nw ds \<le> 255"
        "pton4_end rest tp (tmp[tp := of_nat (dec_acc nw ds)]) = Some r" by blast
      then show ?L using True by (intro exI [of _ "ch # ds"] exI [of _ rest]) (simp add: nw_def)
    qed
    moreover have "inet_pton4_loop (ch # src) True (tp + 1) tp tmp = Some r \<longleftrightarrow> c \<noteq> 0 \<and> nw \<le> 255 \<and> inet_pton4_loop src True (tp + 1) tp t = Some r"
      using True by (auto simp: digit_index Let_def c_def [symmetric] nw_def [symmetric] t_def unat_eq_0 [symmetric] simp flip: c_def)
    moreover have "inet_pton4_loop src True (tp + 1) tp t = Some r \<longleftrightarrow> (\<exists>ds rest. src = ds @ rest \<and> list_all digit ds \<and> dec_acc nw ds \<le> 255 \<and>
        pton4_end rest tp (tmp[tp := of_nat (dec_acc nw ds)]) = Some r)" if "c \<noteq> 0" "nw \<le> 255"
    proof -
      have "unat (t ! tp) = nw" using Cons.prems that(2) by (simp add: t_def unat_of_nat_small)
      moreover have "nw \<noteq> 0" using that(1) by (simp add: nw_def)
      ultimately show ?thesis using Cons.IH [of t] Cons.prems by (simp add: t_def)
    qed
    moreover have "nw \<le> 255" if "dec_acc nw ds \<le> 255" for ds using that dec_acc_ge [of nw ds] by linarith
    ultimately show ?thesis unfolding c_def [symmetric] by blast
  next
    case False
    have "ds = []" if "ch # src = ds @ rest" "list_all digit ds" for ds rest using that False by (cases ds) auto
    then have "(\<exists>ds rest. ch # src = ds @ rest \<and> list_all digit ds \<and> (c = 0 \<longrightarrow> ds = []) \<and> dec_acc c ds \<le> 255 \<and>
         pton4_end rest tp (tmp[tp := of_nat (dec_acc c ds)]) = Some r) \<longleftrightarrow> pton4_end (ch # src) tp tmp = Some r"
      using c self by (metis append_Nil dec_acc.simps(1) list.pred_inject(1))
    moreover have "inet_pton4_loop (ch # src) True (tp + 1) tp tmp = pton4_end (ch # src) tp tmp"
      using False Cons.prems(2) by (simp add: digit_index pton4_end_def)
    ultimately show ?thesis unfolding c_def [symmetric] by simp
  qed
qed

text \<open>At the start of an octet\<close>

lemma pton4_loop_fresh:
  assumes "length tmp = 4" and "tp < 4" and "tmp ! tp = 0"
  shows "inet_pton4_loop src False tp tp tmp = Some r \<longleftrightarrow>
    (\<exists>v rest. v \<le> 255 \<and> src = decimal v @ rest \<and> pton4_end rest tp (tmp[tp := of_nat v]) = Some r)"
proof (cases src)
  case Nil
  have "decimal v \<noteq> []" for v using numeral_text_decimal [of v] by (auto simp: numeral_text_def)
  then show ?thesis using Nil assms(2) by simp
next
  case (Cons ch src')
  show ?thesis
  proof (cases "digit ch")
    case True
    define k where "k = unat ch - 48"
    have k: "k \<le> 9" "unat (hd (ch # ds)) = 48 \<longleftrightarrow> k = 0" for ds using True by (auto simp: k_def digit_def)
    define t where "t = tmp[tp := of_nat k]"
    have tk: "unat (t ! tp) = k" "length t = 4" using assms k(1) by (simp_all add: t_def unat_of_nat_small)
    have "inet_pton4_loop src False tp tp tmp = inet_pton4_loop src' True (tp + 1) tp t"
      using True k(1) assms by (simp add: Cons digit_index k_def [symmetric] t_def)
    moreover have "inet_pton4_loop src' True (tp + 1) tp t = Some r \<longleftrightarrow> (\<exists>ds rest. src' = ds @ rest \<and> list_all digit ds \<and>
        (k = 0 \<longrightarrow> ds = []) \<and> dec_acc k ds \<le> 255 \<and> pton4_end rest tp (tmp[tp := of_nat (dec_acc k ds)]) = Some r)"
      using pton4_loop_saw [OF tk(2) assms(2)] by (simp add: tk(1)) (simp add: t_def)
    moreover have "(\<exists>v rest. v \<le> 255 \<and> src = decimal v @ rest \<and> pton4_end rest tp (tmp[tp := of_nat v]) = Some r) \<longleftrightarrow>
        (\<exists>ds rest. src' = ds @ rest \<and> list_all digit ds \<and> (k = 0 \<longrightarrow> ds = []) \<and> dec_acc k ds \<le> 255 \<and>
          pton4_end rest tp (tmp[tp := of_nat (dec_acc k ds)]) = Some r)" (is "?L \<longleftrightarrow> ?R")
    proof
      assume ?L
      then obtain v rest where v: "v \<le> 255" "src = decimal v @ rest" "pton4_end rest tp (tmp[tp := of_nat v]) = Some r" by blast
      obtain ds where ds: "decimal v = ch # ds" "src' = ds @ rest"
        using v(2) numeral_text_decimal [of v] unfolding Cons numeral_text_def by (cases "decimal v") auto
      then have "numeral_text (ch # ds)" "dec_acc k ds = v" using numeral_text_decimal [of v] by (auto simp: k_def)
      then show ?R using v ds(2) k(2) [of ds] by (intro exI [of _ ds] exI [of _ rest]) (auto simp: numeral_text_def)
    next
      assume ?R
      then obtain ds rest where d: "src' = ds @ rest" "list_all digit ds" "k = 0 \<longrightarrow> ds = []" "dec_acc k ds \<le> 255"
        "pton4_end rest tp (tmp[tp := of_nat (dec_acc k ds)]) = Some r" by blast
      have "numeral_text (ch # ds)" using d(2,3) True k(2) [of ds] by (auto simp: numeral_text_def)
      then have "decimal (dec_acc k ds) = ch # ds" using decimal_dec_acc [of "ch # ds"] by (simp add: k_def)
      then show ?L using d by (intro exI [of _ "dec_acc k ds"] exI [of _ rest]) (simp add: Cons)
    qed
    ultimately show ?thesis by simp
  next
    case False
    have "ch # src' \<noteq> decimal v @ rest" for v rest
      using numeral_text_decimal [of v] False by (cases "decimal v") (auto simp: numeral_text_def)
    then show ?thesis using False by (simp add: Cons digit_index)
  qed
qed

lemma list_4: "length xs = 4 \<Longrightarrow> \<exists>a b c d. xs = [a, b, c, d]"
  by (auto simp: numeral_eq_Suc length_Suc_conv)

lemma pton4_chain:
  "inet_pton4_loop s False 0 0 [0, 0, 0, 0] = Some r \<longleftrightarrow>
    (\<exists>v rest. v \<le> 255 \<and> s = decimal v @ 0x2e # rest \<and> inet_pton4_loop rest False 1 1 [of_nat v, 0, 0, 0] = Some r)"
  "inet_pton4_loop s False 1 1 [a, 0, 0, 0] = Some r \<longleftrightarrow>
    (\<exists>v rest. v \<le> 255 \<and> s = decimal v @ 0x2e # rest \<and> inet_pton4_loop rest False 2 2 [a, of_nat v, 0, 0] = Some r)"
  "inet_pton4_loop s False 2 2 [a, b, 0, 0] = Some r \<longleftrightarrow>
    (\<exists>v rest. v \<le> 255 \<and> s = decimal v @ 0x2e # rest \<and> inet_pton4_loop rest False 3 3 [a, b, of_nat v, 0] = Some r)"
  "inet_pton4_loop s False 3 3 [a, b, c, 0] = Some r \<longleftrightarrow> (\<exists>v. v \<le> 255 \<and> s = decimal v \<and> r = [a, b, c, of_nat v])"
  subgoal using pton4_loop_fresh [of "[0, 0, 0, 0]" 0 s r] by (fastforce simp: pton4_end_Some)
  subgoal using pton4_loop_fresh [of "[a, 0, 0, 0]" 1 s r] by (fastforce simp: pton4_end_Some numeral_2_eq_2)
  subgoal using pton4_loop_fresh [of "[a, b, 0, 0]" 2 s r] by (fastforce simp: pton4_end_Some numeral_2_eq_2 numeral_3_eq_3)
  subgoal using pton4_loop_fresh [of "[a, b, c, 0]" 3 s r] by (fastforce simp: pton4_end_Some numeral_3_eq_3)
  done

lemma pton4_iff: "inet_pton4 s = Some r \<longleftrightarrow> length r = 4 \<and> s = quad_text r"
proof -
  have rep4: "replicate 4 0 = [0, 0, 0, 0 :: byte]" by (simp add: numeral_eq_Suc)
  have "inet_pton4 s = Some r \<longleftrightarrow> (\<exists>v0 v1 v2 v3. v0 \<le> 255 \<and> v1 \<le> 255 \<and> v2 \<le> 255 \<and> v3 \<le> 255 \<and>
      s = decimal v0 @ 0x2e # decimal v1 @ 0x2e # decimal v2 @ 0x2e # decimal v3 \<and> r = [of_nat v0, of_nat v1, of_nat v2, of_nat v3])"
    unfolding inet_pton4_def rep4 pton4_chain by blast
  also have "\<dots> \<longleftrightarrow> length r = 4 \<and> s = quad_text r"
  proof safe
    fix v0 v1 v2 v3 :: nat assume "v0 \<le> 255" "v1 \<le> 255" "v2 \<le> 255" "v3 \<le> 255"
    then show "decimal v0 @ 0x2e # decimal v1 @ 0x2e # decimal v2 @ 0x2e # decimal v3 = quad_text [of_nat v0, of_nat v1, of_nat v2, of_nat v3]"
      by (simp add: quad_text_def unat_of_nat_small numeral_2_eq_2 numeral_3_eq_3)
  next
    assume "length r = 4"
    then obtain a b c d where r: "r = [a, b, c, d]" using list_4 by blast
    have "unat x \<le> 255" for x :: byte using word_unat_lt [of x] by simp
    then show "\<exists>v0 v1 v2 v3. v0 \<le> 255 \<and> v1 \<le> 255 \<and> v2 \<le> 255 \<and> v3 \<le> 255 \<and>
        quad_text r = decimal v0 @ 0x2e # decimal v1 @ 0x2e # decimal v2 @ 0x2e # decimal v3 \<and> r = [of_nat v0, of_nat v1, of_nat v2, of_nat v3]"
      by (intro exI [of _ "unat a"] exI [of _ "unat b"] exI [of _ "unat c"] exI [of _ "unat d"])
         (simp add: r quad_text_def numeral_2_eq_2 numeral_3_eq_3)
  qed simp_all
  finally show ?thesis .
qed

lemma length_decimal_byte: "n < 256 \<Longrightarrow> 1 \<le> length (decimal n) \<and> length (decimal n) \<le> 3"
proof -
  assume n: "n < 256"
  have one: "length (decimal m) = 1" if "m < 10" for m using that by (simp add: decimal.simps [of m])
  have two: "length (decimal m) \<le> 2" if "m < 100" for m
    using that one [of "m div 10"] one [of m] by (cases "m < 10") (simp_all add: decimal.simps [of m])
  have "length (decimal n) \<le> 3" using n two [of "n div 10"] by (subst decimal.simps) simp
  moreover have "decimal n \<noteq> []" using numeral_text_decimal [of n] by (auto simp: numeral_text_def)
  ultimately show ?thesis by (simp add: Suc_le_eq)
qed

lemma decimal_digits: "list_all digit (decimal n)"
  using numeral_text_decimal [of n] by (simp add: numeral_text_def)

text \<open>The characters of a printed address\<close>

definition addr_char :: "byte \<Rightarrow> bool" where
  "addr_char b \<longleftrightarrow> b \<in> set xdigits_l \<or> b = 0x2e \<or> b = 0x3a"

lemma addr_char_not: "addr_char b \<Longrightarrow> b \<noteq> 0 \<and> b \<noteq> 0x25"
  by (auto simp: addr_char_def xdigits_l_def)

lemma strchr_index_Some: "strchr_index xs c = Some k \<Longrightarrow> k < length xs \<and> xs ! k = c"
  by (induction xs arbitrary: k) (auto split: if_splits)

lemma strchr_index_nth: "distinct xs \<Longrightarrow> i < length xs \<Longrightarrow> strchr_index xs (xs ! i) = Some i"
proof (induction xs arbitrary: i)
  case (Cons x xs)
  then show ?case by (cases i) auto
qed simp

lemma strchr_index_None: "strchr_index xs c = None \<longleftrightarrow> c \<notin> set xs"
  by (induction xs) auto

lemma xdigits_distinct: "distinct xdigits_l" "length xdigits_l = 16"
  by (simp_all add: xdigits_l_def)

lemma digit_hex: "digit ch \<Longrightarrow> \<exists>k < 10. ch = xdigits_l ! k"
proof -
  assume "digit ch"
  then have "strchr_index (take 10 xdigits_l) ch = Some (unat ch - 48)" by (simp add: digit_index)
  from strchr_index_Some [OF this] show ?thesis by (auto simp: xdigits_distinct)
qed

lemma digit_addr_char: "digit ch \<Longrightarrow> addr_char ch"
  using digit_hex [of ch] by (auto simp: addr_char_def xdigits_distinct intro!: nth_mem)

lemma quad_text_chars: "list_all addr_char (quad_text a)"
  using decimal_digits by (auto simp: quad_text_def list_all_iff addr_char_def [of "0x2e"] intro: digit_addr_char)

lemma addr_chars_nonzero: "list_all addr_char s \<Longrightarrow> list_all (\<lambda>b. b \<noteq> 0) s"
  using addr_char_not by (auto simp: list_all_iff)

lemma length_quad_text: "7 \<le> length (quad_text a) \<and> length (quad_text a) \<le> 15"
  using length_decimal_byte [of "unat (a ! 0)"] length_decimal_byte [of "unat (a ! 1)"] length_decimal_byte [of "unat (a ! 2)"]
    length_decimal_byte [of "unat (a ! 3)"] by (simp add: quad_text_def)

lemma ntop4_eq:
  assumes "sz \<le> length dst"
  shows "inet_ntop4 a dst sz = (if length (quad_text a) < sz then (0, quad_text a @ 0 # drop (Suc (length (quad_text a))) dst) else (UV_ENOSPC, dst))"
proof -
  have "quad_text a \<noteq> []" using length_quad_text [of a] by auto
  then show ?thesis
    using strscpy_eq [OF addr_chars_nonzero [OF quad_text_chars] assms, of a] length_quad_text [of a]
    unfolding inet_ntop4_def Let_def quad_text_def [symmetric] by (auto simp: not_le)
qed


section \<open>Groups of hexadecimal digits\<close>

lemma length_hexadecimal: "n < 16 ^ Suc k \<Longrightarrow> length (hexadecimal n) \<le> Suc k"
proof (induction k arbitrary: n)
  case 0
  then show ?case by (simp add: hexadecimal.simps [of n])
next
  case (Suc k)
  show ?case
  proof (cases "n < 16")
    case False
    have "n div 16 < 16 ^ Suc k" using Suc.prems by (simp add: less_mult_imp_div_less)
    then show ?thesis using Suc.IH [of "n div 16"] False by (simp add: hexadecimal.simps [of n])
  qed (simp add: hexadecimal.simps [of n])
qed

lemma hexadecimal_chars: "list_all addr_char (hexadecimal n) \<and> hexadecimal n \<noteq> [] \<and> hd (hexadecimal n) \<in> set xdigits_l"
proof (induction n rule: hexadecimal.induct)
  case (1 n)
  have "xdigits_l ! (n mod 16) \<in> set xdigits_l" for n by (rule nth_mem) (simp add: xdigits_distinct)
  moreover from this [of n] have "n < 16 \<Longrightarrow> xdigits_l ! n \<in> set xdigits_l" by simp
  ultimately show ?case
    using 1 by (cases "n < 16") (auto simp: hexadecimal.simps [of n] addr_char_def)
qed

lemma pton6_digit:
  assumes "k < 16"
  shows "inet_pton6_loop (xdigits_l ! k # src) cur seen val tmp tp c =
    (if seen + 1 > 4 then None else inet_pton6_loop src cur (seen + 1) (push_bit 4 val OR of_nat k) tmp tp c)"
  using strchr_index_nth [OF xdigits_distinct(1), of k] assms by (simp add: xdigits_distinct Let_def)

declare inet_pton6_loop.simps(2) [simp del]

lemma shift_in_digit: "v < 2 ^ 28 \<Longrightarrow> k < 16 \<Longrightarrow> push_bit 4 (of_nat v :: u32) OR of_nat k = of_nat (v * 16 + k)"
proof -
  assume v: "v < 2 ^ 28" and k: "k < 16"
  have uv: "unat (of_nat v :: u32) = v" by (rule unat_of_nat_small) (use v in simp)
  have uk: "unat (of_nat k :: u32) = k" by (rule unat_of_nat_small) (use k in simp)
  have "unat (push_bit 4 (of_nat v :: u32) OR of_nat k) = v * 16 + k"
    using unat_push_bit_or [of "of_nat k :: u32" 4 "of_nat v"] v k unfolding uv uk by simp
  then show ?thesis by (rule unat_eq_of_nat)
qed

text \<open>A printed group is read back.\<close>

lemma pton6_hexadecimal:
  "n < 65536 \<Longrightarrow> inet_pton6_loop (hexadecimal n @ src) cur 0 0 tmp tp c =
    inet_pton6_loop src cur (length (hexadecimal n)) (of_nat n) tmp tp c"
proof (induction n arbitrary: src rule: hexadecimal.induct)
  case (1 n)
  show ?case
  proof (cases "n < 16")
    case True
    then show ?thesis using shift_in_digit [of 0 n] by (simp add: hexadecimal.simps [of n] pton6_digit)
  next
    case False
    have n: "n div 16 < 65536" "n div 16 < 2 ^ 28" using "1.prems" by simp_all
    have len: "length (hexadecimal (n div 16)) \<le> 3" using length_hexadecimal [of "n div 16" 2] "1.prems" by simp
    have "inet_pton6_loop (hexadecimal n @ src) cur 0 0 tmp tp c =
        inet_pton6_loop (xdigits_l ! (n mod 16) # src) cur (length (hexadecimal (n div 16))) (of_nat (n div 16)) tmp tp c"
      using "1.IH" [OF False n(1)] False by (simp add: hexadecimal.simps [of n])
    then show ?thesis
      using len shift_in_digit [OF n(2), of "n mod 16"] False by (simp add: pton6_digit hexadecimal.simps [of n] del: of_nat_add of_nat_mult)
  qed
qed

lemma pton6_digits:
  "list_all digit ds \<Longrightarrow> seen + length ds \<le> 4 \<Longrightarrow>
   \<exists>val'. inet_pton6_loop (ds @ src) cur seen val tmp tp c = inet_pton6_loop src cur (seen + length ds) val' tmp tp c"
proof (induction ds arbitrary: seen val)
  case (Cons d ds)
  obtain k where k: "k < 10" "d = xdigits_l ! k" using digit_hex [of d] Cons.prems(1) by auto
  have "inet_pton6_loop ((d # ds) @ src) cur seen val tmp tp c =
      inet_pton6_loop (ds @ src) cur (seen + 1) (push_bit 4 val OR of_nat k) tmp tp c"
    using pton6_digit [of k] k Cons.prems(2) by simp
  then show ?case using Cons.IH [of "seen + 1" "push_bit 4 val OR of_nat k"] Cons.prems by simp
qed auto

lemma no_hex: "strchr_index xdigits_l 0x3a = None" "strchr_index xdigits_u 0x3a = None"
  "strchr_index xdigits_l 0x2e = None" "strchr_index xdigits_u 0x2e = None"
  by (simp_all add: xdigits_l_def xdigits_u_def)

definition word_bytes :: "nat list \<Rightarrow> byte list" where
  "word_bytes ws = concat (map (\<lambda>w. [of_nat (w div 256), of_nat w]) ws)"

definition pad :: "byte list \<Rightarrow> byte list" where
  "pad bs = bs @ replicate (16 - length bs) 0"

definition groups :: "nat list \<Rightarrow> byte list" where
  "groups ws = concat (map (\<lambda>w. 0x3a # hexadecimal w) ws)"

lemma word_bytes_simps [simp]: "word_bytes [] = []" "word_bytes (w # ws) = of_nat (w div 256) # of_nat w # word_bytes ws"
  "word_bytes (us @ vs) = word_bytes us @ word_bytes vs" "length (word_bytes ws) = 2 * length ws"
  by (simp_all add: word_bytes_def length_concat sum_list_triv o_def)

lemma groups_simps [simp]: "groups [] = []" "groups (w # ws) = 0x3a # hexadecimal w @ groups ws" "groups (us @ vs) = groups us @ groups vs"
  by (simp_all add: groups_def)

lemma put_word_pad:
  assumes "length bs + 2 \<le> 16" and "w < 65536"
  shows "put_word (of_nat w) (length bs) (pad bs) = pad (bs @ word_bytes [w])"
proof -
  have uw: "unat (of_nat w :: u32) = w" by (rule unat_of_nat_small) (use assms(2) in simp)
  have "ucast (drop_bit 8 (of_nat w :: u32)) = (of_nat (w div 256) :: byte)"
    by (rule word_unat_eq_iff [THEN iffD2]) (use uw in \<open>simp add: unat_ucast_mod unat_drop_bit unat_of_nat\<close>)
  moreover have "ucast (of_nat w :: u32) = (of_nat w :: byte)"
    by (rule word_unat_eq_iff [THEN iffD2]) (use uw in \<open>simp add: unat_ucast_mod unat_of_nat\<close>)
  moreover have "pad bs = bs @ 0 # 0 # replicate (14 - length bs) 0"
    using assms(1) by (simp add: pad_def replicate_Suc [symmetric] numeral_eq_Suc Suc_diff_le del: replicate_Suc)
  ultimately show ?thesis
    using assms(1) by (simp add: put_word_def pad_def list_update_append)
qed

lemma pton6_colon:
  "inet_pton6_loop (0x3a # src) cur seen val tmp tp c =
    (if seen = 0 then (if c \<noteq> None then None else inet_pton6_loop src src seen val tmp tp (Some tp))
     else if src = [] then None else if tp + 2 > 16 then None
     else inet_pton6_loop src src 0 0 (put_word val tp tmp) (tp + 2) c)"
  by (subst inet_pton6_loop.simps) (simp add: no_hex)

lemma pton6_dot:
  "inet_pton6_loop (0x2e # src) cur seen val tmp tp c =
    (if tp + 4 \<le> 16 then (case inet_pton4 cur of Some quad \<Rightarrow> Some (0, val, take tp tmp @ quad @ drop (tp + 4) tmp, tp + 4, c) | None \<Rightarrow> None) else None)"
  by (subst inet_pton6_loop.simps) (simp add: no_hex)

text \<open>Groups after a group that is pending\<close>

lemma pton6_groups:
  "list_all (\<lambda>w. w < 65536) (w # ws) \<Longrightarrow> 0 < seen \<Longrightarrow> length bs + 2 * length ws \<le> 16 \<Longrightarrow>
   \<exists>cur' seen'. 0 < seen' \<and> inet_pton6_loop (groups ws @ rest) cur seen (of_nat w) (pad bs) (length bs) c =
     inet_pton6_loop rest cur' seen' (of_nat (last (w # ws))) (pad (bs @ word_bytes (butlast (w # ws)))) (length bs + 2 * length ws) c"
proof (induction ws arbitrary: w bs cur seen)
  case (Cons v ws)
  have hd: "hexadecimal v \<noteq> []" using hexadecimal_chars by blast
  have "inet_pton6_loop (groups (v # ws) @ rest) cur seen (of_nat w) (pad bs) (length bs) c =
      inet_pton6_loop (groups ws @ rest) (hexadecimal v @ groups ws @ rest) (length (hexadecimal v)) (of_nat v)
        (pad (bs @ word_bytes [w])) (length (bs @ word_bytes [w])) c"
    using Cons.prems hd put_word_pad [of bs w] by (simp add: pton6_colon pton6_hexadecimal)
  moreover have "\<exists>cur' seen'. 0 < seen' \<and>
      inet_pton6_loop (groups ws @ rest) (hexadecimal v @ groups ws @ rest) (length (hexadecimal v)) (of_nat v)
        (pad (bs @ word_bytes [w])) (length (bs @ word_bytes [w])) c =
      inet_pton6_loop rest cur' seen' (of_nat (last (v # ws))) (pad ((bs @ word_bytes [w]) @ word_bytes (butlast (v # ws))))
        (length (bs @ word_bytes [w]) + 2 * length ws) c"
    using Cons.IH [of v "length (hexadecimal v)" "bs @ word_bytes [w]"] Cons.prems hd by simp
  ultimately show ?case by simp
qed auto

lemma shift_to_end_loop:
  "m \<le> length q \<Longrightarrow> 0 < z \<Longrightarrow> length p + length q + z = 16 \<Longrightarrow>
   shift_to_end (length p) (length q) (length q + 1 - m) (p @ take m q @ replicate z 0 @ drop m q) = p @ replicate z 0 @ q"
proof (induction m)
  case 0
  then show ?case by (subst shift_to_end.simps) simp
next
  case (Suc m)
  define i where "i = length q - m"
  have i: "i \<le> length q" "length q + 1 - Suc m = i" "i + 1 = length q + 1 - m" "16 - i = length p + m + z" "length p + length q - i = length p + m"
    using Suc.prems by (auto simp: i_def)
  have split: "take (Suc m) q = take m q @ [q ! m]" "drop m q = q ! m # drop (Suc m) q"
    using Suc.prems(1) by (simp_all add: take_Suc_conv_app_nth Cons_nth_drop_Suc)
  obtain y where z: "z = Suc y" using Suc.prems(2) by (cases z) auto
  have zeros: "replicate z (0 :: byte) = replicate y 0 @ [0]" unfolding z by (metis replicate_Suc replicate_append_same)
  define t where "t = p @ take (Suc m) q @ replicate z 0 @ drop (Suc m) q"
  have "t ! (length p + m) = q ! m" using Suc.prems(1) by (simp add: t_def split nth_append)
  moreover have "t[length p + m + z := q ! m] = p @ take m q @ q ! m # replicate y 0 @ q ! m # drop (Suc m) q"
    unfolding t_def zeros split(1) using Suc.prems(1) by (simp add: list_update_append z)
  then have "t[length p + m + z := q ! m, length p + m := 0] = p @ take m q @ replicate z 0 @ drop m q"
    using Suc.prems(1) by (simp add: list_update_append z split(2))
  ultimately have "shift_to_end (length p) (length q) i t = shift_to_end (length p) (length q) (i + 1) (p @ take m q @ replicate z 0 @ drop m q)"
    using i by (subst shift_to_end.simps) simp
  then show ?case using Suc.IH Suc.prems unfolding i(2,3) t_def [symmetric] by simp
qed

lemma shift_to_end_eq:
  "0 < z \<Longrightarrow> length p + length q + z = 16 \<Longrightarrow> shift_to_end (length p) (length q) 1 (p @ q @ replicate z 0) = p @ replicate z 0 @ q"
  using shift_to_end_loop [of "length q" q z p] by simp

text \<open>What follows the loop of \<open>inet_pton6\<close>\<close>

definition pton6_finish :: "nat \<times> u32 \<times> byte list \<times> nat \<times> nat option \<Rightarrow> byte list option" where
  "pton6_finish st = (case st of (seen, val, tmp, tp, colonp) \<Rightarrow>
     if seen \<noteq> 0 \<and> tp + 2 > 16 then None
     else
       let (tmp, tp) = (if seen \<noteq> 0 then (put_word val tp tmp, tp + 2) else (tmp, tp))
       in case colonp of
            None \<Rightarrow> if tp \<noteq> 16 then None else Some tmp
          | Some c \<Rightarrow> if tp = 16 then None else Some (shift_to_end c (tp - c) 1 tmp))"

lemma pton6_finish_pending:
  assumes "0 < seen" and "length bs + 2 \<le> 16" and "w < 65536"
  shows "pton6_finish (seen, of_nat w, pad bs, length bs, c) = pton6_finish (0, v, pad (bs @ word_bytes [w]), length (bs @ word_bytes [w]), c)"
  using assms put_word_pad [OF assms(2,3)] by (auto simp: pton6_finish_def split: option.split)

lemma pton6_finish_full: "length bs = 16 \<Longrightarrow> pton6_finish (0, v, pad bs, length bs, None) = Some bs"
  by (simp add: pton6_finish_def pad_def)

lemma pton6_finish_shift:
  "length (p @ q) < 16 \<Longrightarrow> pton6_finish (0, v, pad (p @ q), length (p @ q), Some (length p)) = Some (p @ replicate (16 - length (p @ q)) 0 @ q)"
  using shift_to_end_eq [of "16 - length (p @ q)" p q] by (simp add: pton6_finish_def pad_def)

lemma pton6_unfold:
  "inet_pton6 src = (let start = (if str_at src 0 = 0x3a then if str_at src 1 \<noteq> 0x3a then None else Some (drop 1 src) else Some src)
     in case start of None \<Rightarrow> None | Some src \<Rightarrow> Option.bind (inet_pton6_loop src src 0 0 (pad []) 0 None) pton6_finish)"
  by (auto simp: inet_pton6_def pton6_finish_def pad_def Let_def split: option.split)

text \<open>A sequence of groups up to the end\<close>

lemma pton6_tail:
  assumes "list_all (\<lambda>w. w < 65536) (w # ws)" and "0 < seen" and "length bs + 2 * length (w # ws) \<le> 16"
  shows "Option.bind (inet_pton6_loop (groups ws) cur seen (of_nat w) (pad bs) (length bs) c) pton6_finish =
    pton6_finish (0, v, pad (bs @ word_bytes (w # ws)), length (bs @ word_bytes (w # ws)), c)"
proof -
  obtain cur' seen' where s: "0 < seen'" "inet_pton6_loop (groups ws @ []) cur seen (of_nat w) (pad bs) (length bs) c =
     inet_pton6_loop [] cur' seen' (of_nat (last (w # ws))) (pad (bs @ word_bytes (butlast (w # ws)))) (length bs + 2 * length ws) c"
    using pton6_groups [OF assms(1,2), of bs "[]"] assms(3) by auto
  define bs' where "bs' = bs @ word_bytes (butlast (w # ws))"
  have "last (w # ws) < 65536" using assms(1) by (simp add: list_all_iff)
  moreover have "length bs' = length bs + 2 * length ws" by (simp add: bs'_def)
  moreover have "bs' @ word_bytes [last (w # ws)] = bs @ word_bytes (w # ws)"
    unfolding bs'_def append_assoc word_bytes_simps(3) [symmetric] append_butlast_last_id [OF list.distinct(2)] ..
  ultimately have "pton6_finish (seen', of_nat (last (w # ws)), pad bs', length bs + 2 * length ws, c) =
      pton6_finish (0, v, pad (bs @ word_bytes (w # ws)), length (bs @ word_bytes (w # ws)), c)"
    using pton6_finish_pending [OF s(1), of bs' "last (w # ws)" c v] assms(3) by simp
  then show ?thesis using s(2) by (simp add: bs'_def)
qed

lemma pton6_after_colons:
  assumes "list_all (\<lambda>w. w < 65536) ws" and "length bs + 2 * length ws < 16"
  shows "Option.bind (inet_pton6_loop (0x3a # drop 1 (groups ws)) cur 0 0 (pad bs) (length bs) None) pton6_finish =
    Some (bs @ replicate (16 - length bs - 2 * length ws) 0 @ word_bytes ws)"
proof (cases ws)
  case Nil
  then show ?thesis using assms(2) pton6_finish_shift [of bs "[]"] by (simp add: pton6_colon)
next
  case (Cons w ws')
  have hd: "hexadecimal w \<noteq> []" using hexadecimal_chars by blast
  have "Option.bind (inet_pton6_loop (groups ws') (hexadecimal w @ groups ws') (length (hexadecimal w)) (of_nat w) (pad bs) (length bs) (Some (length bs))) pton6_finish =
      pton6_finish (0, 0, pad (bs @ word_bytes ws), length (bs @ word_bytes ws), Some (length bs))"
    using pton6_tail [of w ws' "length (hexadecimal w)" bs] assms hd by (simp add: Cons)
  then show ?thesis
    using assms pton6_finish_shift [of bs "word_bytes ws"] by (simp add: pton6_colon Cons pton6_hexadecimal)
qed

text \<open>Eight groups\<close>

lemma pton6_plain:
  assumes "list_all (\<lambda>w. w < 65536) (w # ws)" and "length (w # ws) = 8"
  shows "inet_pton6 (hexadecimal w @ groups ws) = Some (word_bytes (w # ws))"
proof -
  have hd: "hexadecimal w \<noteq> []" "hd (hexadecimal w) \<noteq> 0x3a" using hexadecimal_chars [of w] by (auto simp: xdigits_l_def)
  then have "str_at (hexadecimal w @ groups ws) 0 \<noteq> 0x3a" by (simp add: str_at_def nth_append hd_conv_nth)
  moreover have "Option.bind (inet_pton6_loop (groups ws) (hexadecimal w @ groups ws) (length (hexadecimal w)) (of_nat w) (pad []) (length ([] :: byte list)) None) pton6_finish =
      pton6_finish (0, 0, pad ([] @ word_bytes (w # ws)), length ([] @ word_bytes (w # ws)), None)"
    using pton6_tail [of w ws "length (hexadecimal w)" "[]"] assms hd(1) by simp
  moreover have "\<dots> = Some (word_bytes (w # ws))" using pton6_finish_full [of "word_bytes (w # ws)"] assms(2) by simp
  ultimately show ?thesis using assms(1) by (simp add: pton6_unfold pton6_hexadecimal)
qed

text \<open>\<open>::\<close> at the front or after some groups\<close>

lemma pton6_front:
  assumes "list_all (\<lambda>w. w < 65536) ws" and "length ws < 8"
  shows "inet_pton6 (0x3a # 0x3a # drop 1 (groups ws)) = Some (replicate (16 - 2 * length ws) 0 @ word_bytes ws)"
  using pton6_after_colons [OF assms(1), of "[]"] assms(2) by (simp add: pton6_unfold str_at_def)

lemma pton6_middle:
  assumes "list_all (\<lambda>w. w < 65536) (w # us)" and "list_all (\<lambda>w. w < 65536) ws" and "length (w # us) + length ws < 8"
  shows "inet_pton6 (hexadecimal w @ groups us @ 0x3a # 0x3a # drop 1 (groups ws)) =
    Some (word_bytes (w # us) @ replicate (16 - 2 * length (w # us) - 2 * length ws) 0 @ word_bytes ws)"
proof -
  have hd: "hexadecimal w \<noteq> []" "hd (hexadecimal w) \<noteq> 0x3a" using hexadecimal_chars [of w] by (auto simp: xdigits_l_def)
  define rest where "rest = 0x3a # drop 1 (groups ws)"
  have start: "str_at (hexadecimal w @ groups us @ 0x3a # rest) 0 \<noteq> 0x3a" using hd by (simp add: str_at_def nth_append hd_conv_nth)
  obtain cur' seen' where s: "0 < seen'" "inet_pton6_loop (groups us @ 0x3a # rest) (hexadecimal w @ groups us @ 0x3a # rest) (length (hexadecimal w)) (of_nat w) (pad []) (length ([] :: byte list)) None =
     inet_pton6_loop (0x3a # rest) cur' seen' (of_nat (last (w # us))) (pad ([] @ word_bytes (butlast (w # us)))) (length ([] :: byte list) + 2 * length us) None"
    using pton6_groups [OF assms(1), of "length (hexadecimal w)" "[]" "0x3a # rest" "hexadecimal w @ groups us @ 0x3a # rest" None] hd(1) assms(3) by auto
  define bs where "bs = word_bytes (butlast (w # us))"
  have bs: "length bs = 2 * length us" "bs @ word_bytes [last (w # us)] = word_bytes (w # us)"
    unfolding bs_def word_bytes_simps(3) [symmetric] append_butlast_last_id [OF list.distinct(2)] by simp_all
  have last: "last (w # us) < 65536" using assms(1) by (simp add: list_all_iff)
  have "inet_pton6_loop (0x3a # rest) cur' seen' (of_nat (last (w # us))) (pad bs) (length bs) None =
      inet_pton6_loop rest rest 0 0 (pad (word_bytes (w # us))) (length (word_bytes (w # us))) None"
    using s(1) assms(3) put_word_pad [of bs "last (w # us)"] last bs by (simp add: pton6_colon rest_def)
  moreover have "Option.bind (inet_pton6_loop rest rest 0 0 (pad (word_bytes (w # us))) (length (word_bytes (w # us))) None) pton6_finish =
      Some (word_bytes (w # us) @ replicate (16 - 2 * length (w # us) - 2 * length ws) 0 @ word_bytes ws)"
    using pton6_after_colons [OF assms(2), of "word_bytes (w # us)"] assms(3) by (simp add: rest_def)
  ultimately show ?thesis
    using start s(2) assms(1) bs(1) unfolding rest_def [symmetric] by (simp add: pton6_unfold pton6_hexadecimal bs_def)
qed

text \<open>A dotted quad at the end\<close>

lemma pton6_quad:
  assumes "length a = 4" and "length bs + 4 \<le> 16"
  shows "\<exists>v. inet_pton6_loop (quad_text a) (quad_text a) 0 0 (pad bs) (length bs) c = Some (0, v, pad (bs @ a), length (bs @ a), c)"
proof -
  define rest where "rest = decimal (unat (a ! 1)) @ 0x2e # decimal (unat (a ! 2)) @ 0x2e # decimal (unat (a ! 3))"
  have q: "quad_text a = decimal (unat (a ! 0)) @ 0x2e # rest" by (simp add: quad_text_def rest_def)
  have len: "length (decimal (unat (a ! 0))) \<le> 3" using length_decimal_byte [of "unat (a ! 0)"] by simp
  obtain v where v: "inet_pton6_loop (decimal (unat (a ! 0)) @ 0x2e # rest) (quad_text a) 0 0 (pad bs) (length bs) c =
      inet_pton6_loop (0x2e # rest) (quad_text a) (0 + length (decimal (unat (a ! 0)))) v (pad bs) (length bs) c"
    using pton6_digits [OF decimal_digits [of "unat (a ! 0)"], of 0 "0x2e # rest" "quad_text a" 0 "pad bs" "length bs" c] len by auto
  have "inet_pton4 (quad_text a) = Some a" using pton4_iff assms(1) by simp
  moreover have "take (length bs) (pad bs) @ a @ drop (length bs + 4) (pad bs) = pad (bs @ a)"
    using assms by (simp add: pad_def)
  ultimately show ?thesis using v assms unfolding q [symmetric] by (simp add: pton6_dot)
qed

lemma pton6_front_quad:
  assumes "length a = 4"
  shows "inet_pton6 (0x3a # 0x3a # quad_text a) = Some (replicate 12 0 @ a)"
proof -
  obtain v where "inet_pton6_loop (quad_text a) (quad_text a) 0 0 (pad []) (length ([] :: byte list)) (Some 0) = Some (0, v, pad ([] @ a), length ([] @ a), Some 0)"
    using pton6_quad [OF assms, of "[]" "Some 0"] by auto
  then show ?thesis
    using pton6_finish_shift [of "[]" a v] assms by (simp add: pton6_unfold str_at_def pton6_colon)
qed

lemma pton6_mapped_quad:
  assumes "length a = 4"
  shows "inet_pton6 (0x3a # 0x3a # hexadecimal 0xffff @ 0x3a # quad_text a) = Some (replicate 10 0 @ word_bytes [0xffff] @ a)"
proof -
  have hd: "hexadecimal 0xffff \<noteq> []" "quad_text a \<noteq> []" using hexadecimal_chars length_quad_text [of a] by auto
  define bs where "bs = word_bytes [0xffff]"
  have put: "put_word (of_nat 0xffff) 0 (pad []) = pad bs" using put_word_pad [of "[]" "0xffff"] by (simp add: bs_def)
  obtain v where v: "inet_pton6_loop (quad_text a) (quad_text a) 0 0 (pad bs) (length bs) (Some 0) = Some (0, v, pad (bs @ a), length (bs @ a), Some 0)"
    using pton6_quad [OF assms, of bs "Some 0"] by (auto simp: bs_def)
  have len: "length bs = 2" by (simp add: bs_def)
  have "inet_pton6_loop (hexadecimal 0xffff @ 0x3a # quad_text a) (hexadecimal 0xffff @ 0x3a # quad_text a) 0 0 (pad []) 0 (Some 0) =
      inet_pton6_loop (quad_text a) (quad_text a) 0 0 (pad bs) (length bs) (Some 0)"
    using hd put by (simp add: pton6_hexadecimal pton6_colon len numeral_2_eq_2 del: of_nat_numeral)
  then show ?thesis
    using v pton6_finish_shift [of "[]" "bs @ a" v] assms len unfolding bs_def [symmetric] by (simp add: pton6_unfold str_at_def pton6_colon)
qed


section \<open>The printed text\<close>

definition run_within :: "nat list \<Rightarrow> zero_run \<Rightarrow> nat \<Rightarrow> bool" where
  "run_within ws r i \<longleftrightarrow> (\<forall>b. run_base r = Some b \<longrightarrow> b + run_len r \<le> i \<and> (\<forall>j. b \<le> j \<and> j < b + run_len r \<longrightarrow> ws ! j = 0))"

definition run_ends :: "zero_run \<Rightarrow> nat \<Rightarrow> bool" where
  "run_ends r i \<longleftrightarrow> (\<forall>b. run_base r = Some b \<longrightarrow> b + run_len r = i)"

lemma run_within_mono: "run_within ws r i \<Longrightarrow> i \<le> k \<Longrightarrow> run_within ws r k"
  by (auto simp: run_within_def)

lemma better_run_within: "run_within ws best i \<Longrightarrow> run_within ws cur i \<Longrightarrow> run_within ws (better_run best cur) i"
  by (simp add: better_run_def)

lemma find_runs_within:
  "run_within all cur i \<Longrightarrow> run_ends cur i \<Longrightarrow> run_within all best i \<Longrightarrow> drop i all = ws \<Longrightarrow> i \<le> length all \<Longrightarrow>
   find_runs i ws best cur = (best', cur') \<Longrightarrow> run_within all cur' (length all) \<and> run_within all best' (length all)"
proof (induction ws arbitrary: i best cur)
  case Nil
  then show ?case using run_within_mono [of all] by auto
next
  case (Cons w ws)
  have "i < length all" using Cons.prems(4) by (metis drop_eq_Nil list.distinct(1) not_le)
  then have step: "all ! i = w" "drop (i + 1) all = ws" "i + 1 \<le> length all"
    using Cons.prems(4) Cons_nth_drop_Suc [of i all] by auto
  note best = run_within_mono [OF Cons.prems(3), of "i + 1"]
  show ?case
  proof (cases "w = 0")
    case True
    define cur1 where "cur1 = (if run_base cur = None then \<lparr>run_base = Some i, run_len = 1\<rparr> else cur\<lparr>run_len := run_len cur + 1\<rparr>)"
    have "run_within all cur1 (i + 1)" "run_ends cur1 (i + 1)"
      using Cons.prems(1,2) step(1) True by (auto simp: run_within_def run_ends_def cur1_def less_Suc_eq)
    then show ?thesis using Cons.IH [OF _ _ best step(2,3)] Cons.prems(6) True by (simp add: cur1_def)
  next
    case False
    have none: "run_within all (r\<lparr>run_base := None\<rparr>) k" "run_ends (r\<lparr>run_base := None\<rparr>) k" for r :: zero_run and k
      by (simp_all add: run_within_def run_ends_def)
    show ?thesis
    proof (cases "run_base cur")
      case None
      then have "run_within all cur (i + 1)" "run_ends cur (i + 1)" by (simp_all add: run_within_def run_ends_def)
      then show ?thesis using Cons.IH [OF _ _ best step(2,3)] Cons.prems(6) False None by simp
    next
      case (Some b)
      have "run_within all (better_run best cur) (i + 1)"
        using better_run_within [OF Cons.prems(3,1)] run_within_mono by fastforce
      then show ?thesis using Cons.IH [OF none _ step(2,3)] Cons.prems(6) False Some by simp
    qed
  qed
qed

lemma best_run_within:
  assumes "run_base (best_run ws) = Some b"
  shows "2 \<le> run_len (best_run ws) \<and> b + run_len (best_run ws) \<le> length ws \<and> (\<forall>j. b \<le> j \<and> j < b + run_len (best_run ws) \<longrightarrow> ws ! j = 0)"
proof -
  obtain best cur where f: "find_runs 0 ws \<lparr>run_base = None, run_len = 0\<rparr> \<lparr>run_base = None, run_len = 0\<rparr> = (best, cur)" by fastforce
  have "run_within ws (better_run best cur) (length ws)"
    using find_runs_within [OF _ _ _ _ _ f, of ws] better_run_within [of ws best "length ws" cur] by (auto simp: run_within_def run_ends_def)
  moreover have "best_run ws = better_run best cur" "2 \<le> run_len (better_run best cur)"
    using assms by (auto simp: best_run_def f Let_def split: if_splits)
  ultimately show ?thesis using assms by (simp add: run_within_def)
qed

definition embeds_quad :: "nat list \<Rightarrow> zero_run \<Rightarrow> bool" where
  "embeds_quad ws r \<longleftrightarrow> run_base r = Some 0 \<and> (run_len r = 6 \<or> (run_len r = 7 \<and> ws ! 7 \<noteq> 1) \<or> (run_len r = 5 \<and> ws ! 5 = 0xffff))"

lemma ntop6_end: "ntop6_loop src ws r 8 tp = Inr tp"
  by (subst ntop6_loop.simps) simp

lemma drop_groups: "i < length ws \<Longrightarrow> groups (drop i ws) = 0x3a # hexadecimal (ws ! i) @ groups (drop (i + 1) ws)"
  by (simp add: Cons_nth_drop_Suc [symmetric])

text \<open>A word outside the run\<close>

lemma ntop6_word:
  assumes "1 \<le> i" and "i < 8" and "\<And>b. run_base r = Some b \<Longrightarrow> i < b \<or> b + run_len r \<le> i" and "i \<noteq> 6 \<or> \<not> embeds_quad ws r"
  shows "ntop6_loop src ws r i tp = ntop6_loop src ws r (i + 1) (tp @ 0x3a # hexadecimal (ws ! i))"
proof (cases "run_base r")
  case None
  then show ?thesis using assms(1,2) by (subst ntop6_loop.simps) (simp add: Let_def)
next
  case (Some b)
  have out: "\<not> (b \<le> i \<and> i < b + run_len r)" using assms(3) [OF Some] by linarith
  have "\<not> (i = 6 \<and> b = 0 \<and> (run_len r = 6 \<or> (run_len r = 7 \<and> ws ! 7 \<noteq> 1) \<or> (run_len r = 5 \<and> ws ! 5 = 0xffff)))"
    using assms(4) Some by (auto simp: embeds_quad_def)
  then show ?thesis
    using assms(1,2) out Some by (subst ntop6_loop.simps) (simp only: Let_def option.case if_False not_le if_True append.simps append_assoc, simp)
qed

text \<open>The words from \<open>i\<close> up to \<open>k\<close>, all outside the run\<close>

lemma ntop6_words:
  assumes "length ws = 8"
  shows "1 \<le> i \<Longrightarrow> i \<le> k \<Longrightarrow> k \<le> 8 \<Longrightarrow> (\<And>b. run_base r = Some b \<Longrightarrow> k \<le> b \<or> b + run_len r \<le> i) \<Longrightarrow> k \<le> 6 \<or> 7 \<le> i \<or> \<not> embeds_quad ws r \<Longrightarrow>
    ntop6_loop src ws r i tp = ntop6_loop src ws r k (tp @ groups (take (k - i) (drop i ws)))"
proof (induction "k - i" arbitrary: i tp)
  case (Suc d)
  then have i: "i < k" "i < 8" by simp_all
  have out: "i < b \<or> b + run_len r \<le> i" if "run_base r = Some b" for b using Suc.prems(4) [OF that] i by linarith
  have "take (k - i) (drop i ws) = ws ! i # take (k - (i + 1)) (drop (i + 1) ws)"
    using i assms by (simp add: Cons_nth_drop_Suc [symmetric] take_Cons' Suc_diff_Suc)
  moreover have "ntop6_loop src ws r i tp = ntop6_loop src ws r (i + 1) (tp @ 0x3a # hexadecimal (ws ! i))"
    using ntop6_word [of i r ws src tp] Suc.prems(1,5) i out by auto
  moreover have "ntop6_loop src ws r (i + 1) (tp @ 0x3a # hexadecimal (ws ! i)) =
      ntop6_loop src ws r k ((tp @ 0x3a # hexadecimal (ws ! i)) @ groups (take (k - (i + 1)) (drop (i + 1) ws)))"
    using Suc.hyps(1) [of "i + 1"] Suc.hyps(2) Suc.prems i by fastforce
  ultimately show ?case by simp
qed simp

text \<open>The run itself\<close>

lemma ntop6_run:
  assumes "run_base r = Some b" and "b + run_len r \<le> 8"
  shows "b < i \<Longrightarrow> i \<le> b + run_len r \<Longrightarrow> ntop6_loop src ws r i tp = ntop6_loop src ws r (b + run_len r) tp"
proof (induction "b + run_len r - i" arbitrary: i)
  case (Suc d)
  then have "i < b + run_len r" by simp
  then have "ntop6_loop src ws r i tp = ntop6_loop src ws r (i + 1) tp"
    using assms Suc.prems by (subst ntop6_loop.simps) simp
  also have "\<dots> = ntop6_loop src ws r (b + run_len r) tp"
    by (rule Suc.hyps(1)) (use Suc.hyps(2) Suc.prems in simp_all)
  finally show ?case .
qed simp

lemma ntop6_enter:
  assumes "run_base r = Some b" and "b + run_len r \<le> 8" and "0 < run_len r"
  shows "ntop6_loop src ws r b tp = ntop6_loop src ws r (b + run_len r) (tp @ [0x3a])"
proof -
  have "ntop6_loop src ws r b tp = ntop6_loop src ws r (b + 1) (tp @ [0x3a])"
    using assms by (subst ntop6_loop.simps) simp
  then show ?thesis using ntop6_run [OF assms(1,2), of "b + 1"] assms(3) by simp
qed

lemma ntop6_first:
  assumes "run_base r \<noteq> Some 0"
  shows "ntop6_loop src ws r 0 [] = ntop6_loop src ws r 1 (hexadecimal (ws ! 0))"
  using assms by (subst ntop6_loop.simps) (auto simp: Let_def split: option.split)

lemma ntop6_quad:
  assumes "embeds_quad ws r" and "run_len r \<le> 6" and "length tp < 30"
  shows "ntop6_loop src ws r 6 tp = Inr (tp @ 0x3a # quad_text (drop 12 src))"
proof -
  define q where "q = quad_text (drop 12 src)"
  define room where "room = 46 - length (tp @ [0x3a])"
  have len: "length q < room" using length_quad_text [of "drop 12 src"] assms(3) unfolding q_def room_def by simp linarith
  have "inet_ntop4 (drop 12 src) (replicate room 0) room = (0, q @ 0 # drop (Suc (length q)) (replicate room 0))"
    using ntop4_eq [of room "replicate room 0" "drop 12 src"] len by (simp add: q_def)
  moreover have "c_string (q @ 0 # drop (Suc (length q)) (replicate room 0)) = q"
    by (rule c_string_copy) (simp add: q_def addr_chars_nonzero quad_text_chars)
  ultimately show ?thesis
    using assms(1,2) unfolding embeds_quad_def
    by (subst ntop6_loop.simps) (auto simp: Let_def UV__INET6_ADDRSTRLEN_def room_def q_def)
qed

lemma two_bytes: "unat (a :: byte) * 256 + unat (b :: byte) < 65536"
  using unat_lt8 [of a] unat_lt8 [of b] by linarith

lemma word_of_bytes: "unat ((push_bit 8 (ucast (a :: byte)) OR ucast (b :: byte)) :: u32) = unat a * 256 + unat b"
proof -
  have u: "unat (ucast x :: u32) = unat x" for x :: byte by (rule unat_ucast_up) simp
  have "unat (ucast b :: u32) < 2 ^ 8" using word_unat_lt [of b] unfolding u by simp
  moreover have "unat a * 2 ^ 8 + unat b < 2 ^ 32" using two_bytes [of a b] by simp
  ultimately show ?thesis using unat_push_bit_or [of "ucast b :: u32" 8 "ucast a"] unfolding u by simp
qed

lemma words_of_bytes:
  assumes "length a = 16"
  shows "length (words_of a) = 8" and "list_all (\<lambda>w. w < 65536) (words_of a)" and "word_bytes (words_of a) = a"
proof -
  show "length (words_of a) = 8" by (simp add: words_of_def)
  show "list_all (\<lambda>w. w < 65536) (words_of a)" unfolding words_of_def list_all_iff word_of_bytes using two_bytes by simp
  have two: "[of_nat ((unat x * 256 + unat y) div 256), of_nat (unat x * 256 + unat y)] = [x, y]" for x y :: byte
  proof -
    have "(unat x * 256 + unat y) div 256 = unat x" using word_unat_lt [of y] by simp
    moreover have "(of_nat (unat x * 256 + unat y) :: byte) = y"
      by (rule word_unat_eq_iff [THEN iffD2]) (simp add: unat_of_nat del: of_nat_add of_nat_mult)
    ultimately show ?thesis by simp
  qed
  have "word_bytes (words_of a) = concat (map (\<lambda>i. [a ! (2 * i), a ! (2 * i + 1)]) [0..<8])"
    unfolding word_bytes_def words_of_def map_map o_def word_of_bytes two ..
  also have "\<dots> = map ((!) a) [0..<16]" by (simp add: upt_rec_numeral numeral_eq_Suc)
  also have "\<dots> = a" using assms map_nth [of a] by simp
  finally show "word_bytes (words_of a) = a" .
qed

lemma groups_chars: "list_all addr_char (groups ws)"
  using hexadecimal_chars by (induction ws) (auto simp: addr_char_def [of "0x3a"])

lemma length_groups: "list_all (\<lambda>w. w < 65536) ws \<Longrightarrow> length (groups ws) \<le> 5 * length ws"
proof (induction ws)
  case (Cons w ws)
  then show ?case using length_hexadecimal [of w 3] by simp
qed simp

definition printed6 :: "byte list \<Rightarrow> byte list \<Rightarrow> bool" where
  "printed6 a t \<longleftrightarrow> inet_pton6 t = Some a \<and> length t \<le> 45 \<and> list_all addr_char t"

lemma word_bytes_zero: "word_bytes (replicate n 0) = replicate (2 * n) 0"
  by (induction n) simp_all

lemma drop_append_12: "drop 12 (replicate 10 (0 :: byte) @ word_bytes [w] @ xs) = xs"
  by simp

lemma split_run:
  assumes "b + l \<le> length ws" and "\<forall>j. b \<le> j \<and> j < b + l \<longrightarrow> ws ! j = (0 :: nat)"
  shows "ws = take b ws @ replicate l 0 @ drop (b + l) ws"
proof -
  have "take l (drop b ws) = replicate l 0"
  proof (rule nth_equalityI)
    have "length (take l (drop b ws)) = l" using assms(1) by simp
    then show "length (take l (drop b ws)) = length (replicate l (0 :: nat))" by simp
    fix i assume "i < length (take l (drop b ws))"
    then have "i < l" by simp
    then show "take l (drop b ws) ! i = replicate l 0 ! i" using assms by simp
  qed
  then show ?thesis by (metis append_take_drop_id drop_drop add.commute)
qed

lemma ntop6_printed:
  assumes a: "length a = 16"
  defines "r \<equiv> best_run (words_of a)"
  shows "\<exists>tp. ntop6_loop a (words_of a) r 0 [] = Inr tp \<and>
    printed6 a (if run_base r \<noteq> None \<and> the (run_base r) + run_len r = 8 then tp @ [0x3a] else tp)"
proof -
  define ws where "ws = words_of a"
  note ws = words_of_bytes [OF a, folded ws_def]
  have hex_len: "length (hexadecimal (ws ! 0)) \<le> 4"
    using ws(1,2) length_hexadecimal [of "ws ! 0" 3] by (simp add: list_all_length)
  have w0: "ws = ws ! 0 # drop 1 ws" using ws(1) Cons_nth_drop_Suc [of 0 ws] by simp
  have small_drop: "list_all (\<lambda>w. w < 65536) (drop k ws)" for k using ws(2) by (auto simp: list_all_iff dest: in_set_dropD)
  have chars0: "list_all addr_char (hexadecimal (ws ! 0))" using hexadecimal_chars by blast
  show ?thesis
  proof (cases "run_base r")
    case None
    have "ntop6_loop a ws r 0 [] = Inr (hexadecimal (ws ! 0) @ groups (drop 1 ws))"
      using ntop6_first [of r a ws] ntop6_words [OF ws(1), of 1 8 r a "hexadecimal (ws ! 0)"] None ws(1)
      by (simp add: ntop6_end embeds_quad_def)
    moreover have "printed6 a (hexadecimal (ws ! 0) @ groups (drop 1 ws))"
    proof -
      have "list_all (\<lambda>w. w < 65536) (ws ! 0 # drop 1 ws)" "length (ws ! 0 # drop 1 ws) = 8" using ws w0 by simp_all
      then have "inet_pton6 (hexadecimal (ws ! 0) @ groups (drop 1 ws)) = Some a" using pton6_plain w0 ws(3) by metis
      moreover have "length (groups (drop 1 ws)) \<le> 35"
        using length_groups [of "drop 1 ws"] ws(1) small_drop [of 1] by simp
      ultimately show ?thesis using hex_len chars0 groups_chars by (simp add: printed6_def)
    qed
    ultimately show ?thesis using None by (simp add: ws_def)
  next
    case (Some b)
    define l where "l = run_len r"
    define us where "us = take b ws"
    define vs where "vs = drop (b + l) ws"
    have run: "2 \<le> l" "b + l \<le> 8" "ws = us @ replicate l 0 @ vs"
      using best_run_within [of ws b] Some split_run [of b l ws] ws(1) by (auto simp: r_def ws_def [symmetric] l_def us_def vs_def)
    have lens: "length us = b" "length vs = 8 - b - l" using ws(1) run(2) by (simp_all add: us_def vs_def)
    have small: "list_all (\<lambda>w. w < 65536) us" "list_all (\<lambda>w. w < 65536) vs"
      using ws(2) small_drop by (auto simp: us_def vs_def list_all_iff dest: in_set_takeD)
    have a_eq: "a = word_bytes us @ replicate (2 * l) 0 @ word_bytes vs"
      using ws(3) run(3) by (metis word_bytes_simps(3) word_bytes_zero)
    have enter: "ntop6_loop a ws r b tp = ntop6_loop a ws r (b + l) (tp @ [0x3a])" for tp
      using ntop6_enter [OF Some, of a ws tp] run(1,2) by (simp add: l_def)
    have len_vs: "length (groups vs) \<le> 5 * (8 - b - l)" using length_groups [OF small(2)] lens by simp
    have colon: "addr_char 0x3a" by (simp add: addr_char_def)
    show ?thesis
    proof (cases "embeds_quad ws r \<and> l \<noteq> 7")
      case True
      then have b: "b = 0" and em: "embeds_quad ws r" using Some by (auto simp: embeds_quad_def)
      define q where "q = drop 12 a"
      have q: "length q = 4" using a by (simp add: q_def)
      have quad_len: "length (quad_text q) \<le> 15" using length_quad_text by blast
      consider "l = 6" | "l = 5" "ws ! 5 = 0xffff" using True by (auto simp: embeds_quad_def l_def)
      then show ?thesis
      proof cases
        case 1
        have "ntop6_loop a ws r 0 [] = Inr (0x3a # 0x3a # quad_text q)"
          using enter [of "[]"] ntop6_quad [OF em, of "[0x3a]" a] b 1 by (simp add: q_def l_def)
        moreover have "a = replicate 12 0 @ q" using a_eq 1 b lens(1) by (simp add: q_def)
        then have "printed6 a (0x3a # 0x3a # quad_text q)"
          using pton6_front_quad [OF q] quad_len quad_text_chars colon by (simp add: printed6_def)
        ultimately show ?thesis using Some b 1 by (simp add: ws_def l_def)
      next
        case 2
        have "ntop6_loop a ws r 5 [0x3a] = ntop6_loop a ws r 6 ([0x3a] @ 0x3a # hexadecimal 0xffff)"
          using ntop6_word [of 5 r ws a "[0x3a]"] Some b 2 by (simp add: l_def)
        moreover have "length (hexadecimal 0xffff) \<le> 4" using length_hexadecimal [of "0xffff" 3] by simp
        ultimately have "ntop6_loop a ws r 0 [] = Inr (0x3a # 0x3a # hexadecimal 0xffff @ 0x3a # quad_text q)"
          using enter [of "[]"] ntop6_quad [OF em, of "0x3a # 0x3a # hexadecimal 0xffff" a] b 2 by (simp add: q_def l_def)
        moreover have "a = replicate 10 0 @ word_bytes [0xffff] @ q"
        proof -
          have "vs = ws ! 5 # drop 6 ws" using 2 b ws(1) Cons_nth_drop_Suc [of 5 ws] by (simp add: vs_def)
          then have "a = replicate 10 0 @ word_bytes [0xffff] @ word_bytes (drop 6 ws)" using a_eq 2 b lens(1) by simp
          moreover from this have "q = word_bytes (drop 6 ws)" unfolding q_def by (metis (no_types) drop_append_12)
          ultimately show ?thesis by simp
        qed
        then have "printed6 a (0x3a # 0x3a # hexadecimal 0xffff @ 0x3a # quad_text q)"
          using pton6_mapped_quad [OF q] quad_len quad_text_chars colon hexadecimal_chars \<open>length (hexadecimal 0xffff) \<le> 4\<close> by (simp add: printed6_def)
        ultimately show ?thesis using Some b 2 by (simp add: ws_def l_def)
      qed
    next
      case False
      define tail :: "byte list" where "tail = (if vs = [] then [0x3a] else [])"
      have rest: "ntop6_loop a ws r (b + l) tp = Inr (tp @ groups vs)" for tp
        using ntop6_words [OF ws(1), of "b + l" 8 r a tp] run(1,2) Some False ws(1)
        by (auto simp: ntop6_end vs_def l_def embeds_quad_def)
      have tail: "groups vs @ tail = 0x3a # drop 1 (groups vs)" by (cases vs) (simp_all add: tail_def)
      have trail: "(run_base r \<noteq> None \<and> the (run_base r) + run_len r = 8) \<longleftrightarrow> vs = []"
        using Some lens(2) run(2) by (auto simp: l_def)
      have add_tail: "(if run_base r \<noteq> None \<and> the (run_base r) + run_len r = 8 then tp @ [0x3a] else tp) = tp @ tail" for tp
        unfolding trail tail_def by simp
      show ?thesis
      proof (cases us)
        case Nil
        then have "b = 0" using lens(1) by simp
        then have "ntop6_loop a ws r 0 [] = Inr ([0x3a] @ groups vs)" using enter [of "[]"] rest by simp
        moreover have "printed6 a (0x3a # 0x3a # drop 1 (groups vs))"
        proof -
          have "inet_pton6 (0x3a # 0x3a # drop 1 (groups vs)) = Some a"
            using pton6_front [OF small(2)] lens(2) run(1,2) \<open>b = 0\<close> a_eq Nil by simp
          moreover have "list_all addr_char (drop 1 (groups vs))" using groups_chars [of vs] by (auto simp: list_all_iff dest: in_set_dropD)
          ultimately show ?thesis using len_vs run(1) colon by (simp add: printed6_def)
        qed
        ultimately show ?thesis unfolding add_tail ws_def [symmetric] using tail by simp
      next
        case (Cons u us')
        have b: "1 \<le> b" "u = ws ! 0" "us' = take (b - 1) (drop 1 ws)"
        proof -
          show "1 \<le> b" using Cons lens(1) by auto
          then obtain c where c: "b = Suc c" by (cases b) auto
          obtain w ws' where w: "ws = w # ws'" using ws(1) by (cases ws) auto
          show "u = ws ! 0" "us' = take (b - 1) (drop 1 ws)" using Cons unfolding us_def w c by simp_all
        qed
        have "ntop6_loop a ws r 0 [] = ntop6_loop a ws r b (hexadecimal u @ groups us')"
          using ntop6_first [of r a ws] ntop6_words [OF ws(1), of 1 b r a "hexadecimal (ws ! 0)"] Some b run(2)
          by (simp add: embeds_quad_def)
        then have loop: "ntop6_loop a ws r 0 [] = Inr (hexadecimal u @ groups us' @ 0x3a # groups vs)" using enter rest by simp
        have "inet_pton6 (hexadecimal u @ groups us' @ 0x3a # 0x3a # drop 1 (groups vs)) = Some a"
          using pton6_middle [of u us' vs] small lens run(1,2) Cons a_eq by simp
        moreover have "list_all addr_char (drop 1 (groups vs))" using groups_chars [of vs] by (auto simp: list_all_iff dest: in_set_dropD)
        moreover have "length (hexadecimal u) \<le> 4" "length (groups us') \<le> 5 * (b - 1)"
          using hex_len b(2) length_groups [of us'] small(1) lens(1) Cons by simp_all
        ultimately have "printed6 a (hexadecimal u @ groups us' @ 0x3a # 0x3a # drop 1 (groups vs))"
          using colon groups_chars [of us'] chars0 b(2) len_vs run(1,2) by (simp add: printed6_def)
        then show ?thesis unfolding add_tail ws_def [symmetric] using loop tail by simp
      qed
    qed
  qed
qed

lemma ntop6_eq:
  assumes "length a = 16" and "sz \<le> length dst"
  shows "\<exists>t. printed6 a t \<and> inet_ntop6 a dst sz =
    (if length t < sz then (0, t @ 0 # drop (Suc (length t)) dst) else if sz = 0 then (0, dst)
     else (UV_ENOSPC, (take sz t @ drop sz dst)[sz - 1 := 0]))"
proof -
  obtain tp t where tp: "ntop6_loop a (words_of a) (best_run (words_of a)) 0 [] = Inr tp" and
    t: "t = (if run_base (best_run (words_of a)) \<noteq> None \<and> the (run_base (best_run (words_of a))) + run_len (best_run (words_of a)) = 8 then tp @ [0x3a] else tp)"
    and printed: "printed6 a t"
    using ntop6_printed [OF assms(1)] by blast
  have copy: "uv__strscpy dst t sz = (if length t < sz then (int (length t), t @ 0 # drop (Suc (length t)) dst)
    else if sz = 0 then (0, dst) else (UV_E2BIG, (take sz t @ drop sz dst)[sz - 1 := 0]))"
    using strscpy_eq [OF addr_chars_nonzero assms(2), of t] printed by (simp add: printed6_def)
  have "inet_ntop6 a dst sz = (let (r, dst) = uv__strscpy dst t sz in if r = UV_E2BIG then (UV_ENOSPC, dst) else (0, dst))"
    unfolding inet_ntop6_def Let_def tp sum.case t ..
  then show ?thesis using printed copy by (intro exI [of _ t]) (auto simp: UV_E2BIG_def)
qed


section \<open>Properties\<close>

text \<open>C35. An address printed by \<open>uv_inet_ntop\<close> is read back by \<open>uv_inet_pton\<close> unchanged, for both families and
  whatever the buffer holds, and a buffer of 46 bytes is always enough.\<close>

theorem inet_roundtrip:
  assumes "af = AF_INET \<and> length a = 4 \<or> af = AF_INET6 \<and> length a = 16" and "0 < sz" and "sz \<le> length dst"
  shows "(\<forall>d. uv_inet_ntop af a dst sz = (0, d) \<longrightarrow> length d = length dst \<and> uv_inet_pton af (Some (c_string d)) = Inr a) \<and>
    (UV__INET6_ADDRSTRLEN \<le> sz \<longrightarrow> fst (uv_inet_ntop af a dst sz) = 0)"
  using assms(1)
proof (elim disjE conjE)
  assume af: "af = AF_INET" and a: "length a = 4"
  have "inet_pton4 (quad_text a) = Some a" using pton4_iff a by simp
  then show ?thesis
    using ntop4_eq [OF assms(3), of a] assms(2,3) length_quad_text [of a] c_string_copy [OF addr_chars_nonzero [OF quad_text_chars]]
    by (auto simp: uv_inet_ntop_def uv_inet_pton_def af UV_ENOSPC_def UV__INET6_ADDRSTRLEN_def)
next
  assume af: "af = AF_INET6" and a: "length a = 16"
  obtain t where t: "printed6 a t" and res: "inet_ntop6 a dst sz = (if length t < sz then (0, t @ 0 # drop (Suc (length t)) dst) else if sz = 0 then (0, dst)
     else (UV_ENOSPC, (take sz t @ drop sz dst)[sz - 1 := 0]))" using ntop6_eq [OF a assms(3)] by blast
  have "strchr_index t 0x25 = None"
    using t addr_char_not by (auto simp: strchr_index_None printed6_def list_all_iff)
  then have "uv_inet_pton af (Some t) = Inr a"
    using t by (simp add: uv_inet_pton_def af AF_INET_def AF_INET6_def printed6_def)
  moreover have "c_string (t @ 0 # xs) = t" for xs
    by (rule c_string_copy) (use t in \<open>simp add: printed6_def addr_chars_nonzero\<close>)
  moreover have "length t \<le> 45" using t by (simp add: printed6_def)
  ultimately show ?thesis
    using res assms(2,3) by (auto simp: uv_inet_ntop_def af AF_INET_def AF_INET6_def UV_ENOSPC_def UV__INET6_ADDRSTRLEN_def)
qed

lemma inet_roundtrip_witness:
  "\<exists>d. uv_inet_ntop AF_INET6 (replicate 15 0 @ [1]) (replicate 46 0) 46 = (0, d) \<and> uv_inet_pton AF_INET6 (Some (c_string d)) = Inr (replicate 15 0 @ [1])"
proof -
  obtain e d where r: "uv_inet_ntop AF_INET6 (replicate 15 0 @ [1]) (replicate 46 0) 46 = (e, d)" by fastforce
  then show ?thesis
    using inet_roundtrip [of AF_INET6 "replicate 15 0 @ [1]" 46 "replicate 46 0"] by (simp add: UV__INET6_ADDRSTRLEN_def)
qed

text \<open>\<open>uv_inet_pton\<close> accepts as an IPv4 address exactly the four decimal numbers below 256 between dots,
  without leading zeros, signs or blanks.\<close>

theorem inet_pton4_exact:
  "uv_inet_pton AF_INET (Some s) = Inr r \<longleftrightarrow> length r = 4 \<and> s = decimal (unat (r ! 0)) @ 0x2e # decimal (unat (r ! 1)) @
     0x2e # decimal (unat (r ! 2)) @ 0x2e # decimal (unat (r ! 3))"
proof -
  have "uv_inet_pton AF_INET (Some s) = (case inet_pton4 s of None \<Rightarrow> Inl UV_EINVAL | Some a \<Rightarrow> Inr a)"
    by (simp add: uv_inet_pton_def)
  then have "uv_inet_pton AF_INET (Some s) = Inr r \<longleftrightarrow> inet_pton4 s = Some r" by (cases "inet_pton4 s") simp_all
  then show ?thesis using pton4_iff [of s r] unfolding quad_text_def by simp
qed

text \<open>For a buffer of no bytes the IPv4 printer reports an error and the IPv6 printer success.\<close>

lemma ntop6_accepts_no_room:
  assumes "length a = 16"
  shows "uv_inet_ntop AF_INET6 a dst 0 = (0, dst)" and "uv_inet_ntop AF_INET a dst 0 = (UV_ENOSPC, dst)"
  using ntop6_eq [OF assms, of 0 dst] ntop4_eq [of 0 dst a]
  by (auto simp: uv_inet_ntop_def AF_INET_def AF_INET6_def)

end
