(* ===== verification/Nanopb_Stream.thy ===== *)
theory Nanopb_Stream
  imports Prelude
begin

text \<open>
  The streams of nanopb and the primitive values of the protocol buffer wire format (\<open>nanopb/pb_encode.c\<close>,
  \<open>pb_decode.c\<close>), with the options of the build: 32-bit field sizes, 64-bit integers, error messages. The
  callback of a stream and its state are of any type; \<open>buf_write\<close> and \<open>buf_read\<close> are the code's own.
\<close>

section \<open>Output streams\<close>

text \<open>
  A callback gets the state and the bytes to write, and returns the result and the new state. It is \<open>None\<close>
  in a stream that only counts.
\<close>

record 's pb_ostream =
  out_callback :: "('s \<Rightarrow> byte list \<Rightarrow> bool \<times> 's) option"
  out_state :: 's
  max_size :: u64
  bytes_written :: u64
  out_errmsg :: "string option"

text \<open>\<open>PB_SET_ERROR\<close> keeps an earlier message.\<close>

definition PB_SET_ERROR :: "string option \<Rightarrow> string \<Rightarrow> string option" where
  "PB_SET_ERROR errmsg msg = (if errmsg \<noteq> None then errmsg else Some msg)"

definition out_error :: "string \<Rightarrow> ('s pb_ostream, 'a) op" where
  "out_error msg s = (None, s\<lparr>out_errmsg := PB_SET_ERROR (out_errmsg s) msg\<rparr>)"

text \<open>The state of a buffer: the bytes before the write pointer, and those from it on.\<close>

type_synonym out_buffer = "byte list \<times> byte list"

definition buf_write :: "out_buffer \<Rightarrow> byte list \<Rightarrow> bool \<times> out_buffer" where
  "buf_write st buf = (True, fst st @ buf, drop (length buf) (snd st))"

definition pb_ostream_from_buffer :: "byte list \<Rightarrow> u64 \<Rightarrow> out_buffer pb_ostream" where
  "pb_ostream_from_buffer buf bufsize =
     \<lparr>out_callback = Some buf_write, out_state = ([], buf), max_size = bufsize, bytes_written = 0, out_errmsg = None\<rparr>"

text \<open>The state of a sizing stream, NULL in the code, is never used.\<close>

definition PB_OSTREAM_SIZING :: "'s \<Rightarrow> 's pb_ostream" where
  "PB_OSTREAM_SIZING null = \<lparr>out_callback = None, out_state = null, max_size = 0, bytes_written = 0, out_errmsg = None\<rparr>"

definition pb_write :: "byte list \<Rightarrow> u64 \<Rightarrow> ('s pb_ostream, unit) op" where
  "pb_write buf count s =
     (let written = (\<lambda>s. (Some (), s\<lparr>bytes_written := bytes_written s + count\<rparr>))
      in case out_callback s of None \<Rightarrow> written s
      | Some callback \<Rightarrow>
          if count > 0 then
            if bytes_written s + count < bytes_written s \<or> bytes_written s + count > max_size s then out_error ''stream full'' s
            else (case callback (out_state s) (take (unat count) buf) of
                (True, st) \<Rightarrow> written (s\<lparr>out_state := st\<rparr>)
              | (False, st) \<Rightarrow> out_error ''io error'' (s\<lparr>out_state := st\<rparr>))
          else written s)"

section \<open>Writing values\<close>

function encode_varint_loop :: "u64 \<Rightarrow> byte list" where
  "encode_varint_loop value =
     (if value \<noteq> 0 then ucast ((value AND 0x7F) OR 0x80) # encode_varint_loop (drop_bit 7 value) else [])"
  by pat_completeness auto
termination
proof (relation "measure unat")
  fix v :: u64
  assume "v \<noteq> 0"
  then have "unat v \<noteq> 0" by (simp add: unat_eq_0)
  then show "(drop_bit 7 v, v) \<in> measure unat" by (simp add: unat_drop_bit)
qed simp

declare encode_varint_loop.simps [simp del]

definition pb_encode_varint :: "u64 \<Rightarrow> ('s pb_ostream, unit) op" where
  "pb_encode_varint value =
     (if value \<le> 0x7F then pb_write [ucast value] 1
      else let buffer = encode_varint_loop value; i = length buffer;
               buffer = buffer[i - 1 := buffer ! (i - 1) AND 0x7F]
           in pb_write buffer (of_nat i))"

text \<open>Signed values are words read as two's complement.\<close>

definition pb_encode_svarint :: "u64 \<Rightarrow> ('s pb_ostream, unit) op" where
  "pb_encode_svarint value =
     (let zigzagged = (if sint value < 0 then NOT (push_bit 1 value) else push_bit 1 value)
      in pb_encode_varint zigzagged)"

definition pb_encode_fixed32 :: "u32 \<Rightarrow> ('s pb_ostream, unit) op" where
  "pb_encode_fixed32 val = pb_write
     [ucast (val AND 0xFF), ucast (drop_bit 8 val AND 0xFF), ucast (drop_bit 16 val AND 0xFF), ucast (drop_bit 24 val AND 0xFF)] 4"

definition pb_encode_fixed64 :: "u64 \<Rightarrow> ('s pb_ostream, unit) op" where
  "pb_encode_fixed64 val = pb_write
     [ucast (val AND 0xFF), ucast (drop_bit 8 val AND 0xFF), ucast (drop_bit 16 val AND 0xFF), ucast (drop_bit 24 val AND 0xFF),
      ucast (drop_bit 32 val AND 0xFF), ucast (drop_bit 40 val AND 0xFF), ucast (drop_bit 48 val AND 0xFF), ucast (drop_bit 56 val AND 0xFF)] 8"

type_synonym pb_wire_type = u32

definition PB_WT_VARINT :: pb_wire_type where "PB_WT_VARINT = 0"
definition PB_WT_64BIT :: pb_wire_type where "PB_WT_64BIT = 1"
definition PB_WT_STRING :: pb_wire_type where "PB_WT_STRING = 2"
definition PB_WT_32BIT :: pb_wire_type where "PB_WT_32BIT = 5"

definition pb_encode_tag :: "pb_wire_type \<Rightarrow> u32 \<Rightarrow> ('s pb_ostream, unit) op" where
  "pb_encode_tag wiretype field_number = pb_encode_varint (push_bit 3 (ucast field_number) OR ucast wiretype)"

definition pb_encode_string :: "byte list \<Rightarrow> u64 \<Rightarrow> ('s pb_ostream, unit) op" where
  "pb_encode_string buffer sz = op_bind (pb_encode_varint sz) (\<lambda>_. pb_write buffer sz)"

section \<open>Input streams\<close>

text \<open>
  A callback gets the state and a number of bytes, and returns the bytes it stored, or \<open>None\<close> for false, and
  the new state. Functions cannot be compared, so \<open>is_buf_read\<close> is the code's \<open>callback == buf_read\<close>.
\<close>

record 's pb_istream =
  in_callback :: "'s \<Rightarrow> nat \<Rightarrow> byte list option \<times> 's"
  is_buf_read :: bool
  in_state :: 's
  bytes_left :: nat
  in_errmsg :: "string option"

definition in_error :: "string \<Rightarrow> ('s pb_istream, 'a) op" where
  "in_error msg s = (None, s\<lparr>in_errmsg := PB_SET_ERROR (in_errmsg s) msg\<rparr>)"

text \<open>The state of a buffer is the list of the bytes from the read pointer on.\<close>

definition buf_read :: "byte list \<Rightarrow> nat \<Rightarrow> byte list option \<times> byte list" where
  "buf_read source count = (Some (take count source), drop count source)"

definition pb_istream_from_buffer :: "byte list \<Rightarrow> nat \<Rightarrow> byte list pb_istream" where
  "pb_istream_from_buffer buf bufsize =
     \<lparr>in_callback = buf_read, is_buf_read = True, in_state = buf, bytes_left = bufsize, in_errmsg = None\<rparr>"

text \<open>\<open>pb_read\<close> with a buffer, and with NULL for it\<close>

definition pb_read :: "nat \<Rightarrow> ('s pb_istream, byte list) op" where
  "pb_read count s =
     (if count = 0 then (Some [], s)
      else if bytes_left s < count then in_error ''end-of-stream'' s
      else case in_callback s (in_state s) count of
          (Some bytes, st) \<Rightarrow> (Some bytes, s\<lparr>in_state := st, bytes_left := bytes_left s - count\<rparr>)
        | (None, st) \<Rightarrow> in_error ''io error'' (s\<lparr>in_state := st\<rparr>))"

function skip_loop :: "nat \<Rightarrow> ('s pb_istream, unit) op" where
  "skip_loop count =
     (if count > 16 then op_bind (pb_read 16) (\<lambda>_. skip_loop (count - 16)) else op_map (\<lambda>_. ()) (pb_read count))"
  by pat_completeness auto
termination by (relation "measure id") auto

declare skip_loop.simps [simp del]

definition pb_read_null :: "nat \<Rightarrow> ('s pb_istream, unit) op" where
  "pb_read_null count s =
     (if count = 0 then (Some (), s)
      else if \<not> is_buf_read s then skip_loop count s
      else op_map (\<lambda>_. ()) (pb_read count) s)"

definition pb_readbyte :: "('s pb_istream, byte) op" where
  "pb_readbyte s =
     (if bytes_left s = 0 then in_error ''end-of-stream'' s
      else case in_callback s (in_state s) 1 of
          (Some bytes, st) \<Rightarrow> (Some (hd bytes), s\<lparr>in_state := st, bytes_left := bytes_left s - 1\<rparr>)
        | (None, st) \<Rightarrow> in_error ''io error'' (s\<lparr>in_state := st\<rparr>))"

lemma pb_readbyte_left: "pb_readbyte s = (Some b, t) \<Longrightarrow> bytes_left t < bytes_left s"
  by (auto simp: pb_readbyte_def in_error_def split: if_splits option.splits prod.splits)

lemma pb_read_left: "pb_read n s = (Some b, t) \<Longrightarrow> 0 < n \<Longrightarrow> bytes_left t < bytes_left s"
  by (auto simp: pb_read_def in_error_def split: if_splits option.splits prod.splits)

section \<open>Reading values\<close>

text \<open>
  The loop of \<open>pb_decode_varint32_eof\<close>, and what follows it. \<open>uint_fast8_t\<close> has 8 bits on the platforms of the
  application, so the bit position wraps at 256.
\<close>

function varint32_loop :: "u8 \<Rightarrow> u32 \<Rightarrow> ('s pb_istream, u32) op" where
  "varint32_loop bitpos result s =
     (case pb_readbyte s of (None, s) \<Rightarrow> (None, s)
      | (Some byte, s) \<Rightarrow>
          let sign_extension = (if bitpos < 63 then 0xFF else 0x01)
          in if bitpos \<ge> 32 \<and> byte AND 0x7F \<noteq> 0 \<and> (drop_bit 31 result = 0 \<or> byte \<noteq> sign_extension) then in_error ''varint overflow'' s
             else
               let result = (if bitpos \<ge> 32 then result else result OR push_bit (unat bitpos) (ucast (byte AND 0x7F)));
                   bitpos = bitpos + 7
               in if byte AND 0x80 \<noteq> 0 then varint32_loop bitpos result s
                  else if bitpos = 35 \<and> byte AND 0x70 \<noteq> 0 then in_error ''varint overflow'' s
                  else (Some result, s))"
  by pat_completeness auto
termination by (relation "measure (\<lambda>(_, _, s). bytes_left s)") (auto dest: pb_readbyte_left [OF sym])

declare varint32_loop.simps [simp del]

text \<open>The second result is what \<open>*eof\<close> is set to.\<close>

definition pb_decode_varint32_eof :: "'s pb_istream \<Rightarrow> u32 option \<times> bool \<times> 's pb_istream" where
  "pb_decode_varint32_eof s =
     (case pb_readbyte s of (None, s) \<Rightarrow> (None, bytes_left s = 0, s)
      | (Some byte, s) \<Rightarrow>
          if byte AND 0x80 = 0 then (Some (ucast byte), False, s)
          else let (r, s) = varint32_loop 7 (ucast (byte AND 0x7F)) s in (r, False, s))"

definition pb_decode_varint32 :: "('s pb_istream, u32) op" where
  "pb_decode_varint32 s = (let (r, eof, s) = pb_decode_varint32_eof s in (r, s))"

function pb_decode_varint_loop :: "u8 \<Rightarrow> u64 \<Rightarrow> ('s pb_istream, u64) op" where
  "pb_decode_varint_loop bitpos result s =
     (if bitpos \<ge> 64 then in_error ''varint overflow'' s
      else case pb_readbyte s of (None, s) \<Rightarrow> (None, s)
      | (Some byte, s) \<Rightarrow>
          let result = result OR push_bit (unat bitpos) (ucast (byte AND 0x7F)); bitpos = bitpos + 7
          in if byte AND 0x80 \<noteq> 0 then pb_decode_varint_loop bitpos result s else (Some result, s))"
  by pat_completeness auto
termination by (relation "measure (\<lambda>(_, _, s). bytes_left s)") (auto dest: pb_readbyte_left [OF sym])

declare pb_decode_varint_loop.simps [simp del]

definition pb_decode_varint :: "('s pb_istream, u64) op" where
  "pb_decode_varint = pb_decode_varint_loop 0 0"

function pb_skip_varint :: "('s pb_istream, unit) op" where
  "pb_skip_varint s =
     (case pb_read 1 s of (None, s) \<Rightarrow> (None, s)
      | (Some bytes, s) \<Rightarrow> if hd bytes AND 0x80 \<noteq> 0 then pb_skip_varint s else (Some (), s))"
  by pat_completeness auto
termination by (relation "measure bytes_left") (auto dest: pb_read_left [OF sym])

declare pb_skip_varint.simps [simp del]

definition pb_skip_string :: "('s pb_istream, unit) op" where
  "pb_skip_string = op_bind pb_decode_varint32 (\<lambda>len. pb_read_null (unat len))"

text \<open>The results are the wire type and the tag, and \<open>*eof\<close>.\<close>

definition pb_decode_tag :: "'s pb_istream \<Rightarrow> (pb_wire_type \<times> u32) option \<times> bool \<times> 's pb_istream" where
  "pb_decode_tag s =
     (case pb_decode_varint32_eof s of (None, eof, s) \<Rightarrow> (None, eof, s)
      | (Some temp, eof, s) \<Rightarrow> if temp = 0 then (None, True, s) else (Some (temp AND 7, drop_bit 3 temp), eof, s))"

definition pb_skip_field :: "pb_wire_type \<Rightarrow> ('s pb_istream, unit) op" where
  "pb_skip_field wire_type =
     (if wire_type = PB_WT_VARINT then pb_skip_varint
      else if wire_type = PB_WT_64BIT then pb_read_null 8
      else if wire_type = PB_WT_STRING then pb_skip_string
      else if wire_type = PB_WT_32BIT then pb_read_null 4
      else in_error ''invalid wire_type'')"

text \<open>\<open>read_raw_value\<close> returns the bytes stored in the buffer, of \<open>max_sz\<close> bytes.\<close>

function read_raw_varint :: "nat \<Rightarrow> nat \<Rightarrow> ('s pb_istream, byte list) op" where
  "read_raw_varint max_sz sz s =
     (let sz = sz + 1
      in if sz > max_sz then (None, s)
         else case pb_read 1 s of (None, s) \<Rightarrow> (None, s)
         | (Some bytes, s) \<Rightarrow>
             if hd bytes AND 0x80 \<noteq> 0 then op_map (\<lambda>rest. bytes @ rest) (read_raw_varint max_sz sz) s else (Some bytes, s))"
  by pat_completeness auto
termination by (relation "measure (\<lambda>(max_sz, sz, _). max_sz - sz)") auto

declare read_raw_varint.simps [simp del]

definition read_raw_value :: "pb_wire_type \<Rightarrow> nat \<Rightarrow> ('s pb_istream, byte list) op" where
  "read_raw_value wire_type max_sz =
     (if wire_type = PB_WT_VARINT then read_raw_varint max_sz 0
      else if wire_type = PB_WT_64BIT then pb_read 8
      else if wire_type = PB_WT_32BIT then pb_read 4
      else in_error ''invalid wire_type'')"

text \<open>The substream over the next string of a stream, and closing it\<close>

definition pb_make_string_substream :: "('s pb_istream, 's pb_istream) op" where
  "pb_make_string_substream = op_bind pb_decode_varint32 (\<lambda>sz s.
     if bytes_left s < unat sz then in_error ''parent stream too short'' s
     else (Some (s\<lparr>bytes_left := unat sz\<rparr>), s\<lparr>bytes_left := bytes_left s - unat sz\<rparr>))"

definition pb_close_string_substream :: "'s pb_istream \<Rightarrow> ('s pb_istream, unit) op" where
  "pb_close_string_substream substream s =
     (let close = (\<lambda>substream. (Some (), s\<lparr>in_state := in_state substream, in_errmsg := in_errmsg substream\<rparr>))
      in if bytes_left substream \<noteq> 0 then
           (case pb_read_null (bytes_left substream) substream of
              (None, _) \<Rightarrow> (None, s)
            | (Some _, substream) \<Rightarrow> close substream)
         else close substream)"

definition pb_decode_svarint :: "('s pb_istream, u64) op" where
  "pb_decode_svarint = op_map (\<lambda>value. if value AND 1 \<noteq> 0 then NOT (drop_bit 1 value) else drop_bit 1 value) pb_decode_varint"

definition pb_decode_fixed32 :: "('s pb_istream, u32) op" where
  "pb_decode_fixed32 = op_map (\<lambda>bytes.
     push_bit 0 (ucast (bytes ! 0)) OR push_bit 8 (ucast (bytes ! 1)) OR push_bit 16 (ucast (bytes ! 2)) OR push_bit 24 (ucast (bytes ! 3))) (pb_read 4)"

definition pb_decode_fixed64 :: "('s pb_istream, u64) op" where
  "pb_decode_fixed64 = op_map (\<lambda>bytes.
     push_bit 0 (ucast (bytes ! 0)) OR push_bit 8 (ucast (bytes ! 1)) OR push_bit 16 (ucast (bytes ! 2)) OR push_bit 24 (ucast (bytes ! 3)) OR
     push_bit 32 (ucast (bytes ! 4)) OR push_bit 40 (ucast (bytes ! 5)) OR push_bit 48 (ucast (bytes ! 6)) OR push_bit 56 (ucast (bytes ! 7))) (pb_read 8)"

end
