(* ===== verification/Nanopb_Varint.thy ===== *)
theory Nanopb_Varint
  imports Nanopb_Stream
begin

text \<open>
  What the writers of nanopb do on any stream whose callback appends, and its varint readers on buffers.
  \<open>emits\<close> describes a writer by the bytes it writes on every stream, \<open>reads\<close> a reader by what it does with
  the bytes it sees.
\<close>

section \<open>Programs that may not return\<close>

type_synonym ('s, 'a) prog = "'s \<Rightarrow> ('a option \<times> 's) option"

definition prog_call :: "('s, 'a) op \<Rightarrow> ('s, 'a) prog" where
  "prog_call m s = Some (m s)"

definition prog_bind :: "('s, 'a) prog \<Rightarrow> ('a \<Rightarrow> ('s, 'b) prog) \<Rightarrow> ('s, 'b) prog" where
  "prog_bind m f s = (case m s of None \<Rightarrow> None | Some (None, s) \<Rightarrow> Some (None, s) | Some (Some a, s) \<Rightarrow> f a s)"

section \<open>Writers\<close>

text \<open>
  \<open>emits cb put f bs\<close>: on a stream that counts, \<open>f\<close> adds the length of \<open>bs\<close>; on a stream with the callback \<open>cb\<close>
  it appends \<open>bs\<close> if there is room, and else fails having written no more than there was room for. This holds on a stream
  without an error message and as long as sizes do not wrap; that nothing but \<open>bs\<close> is appended in a run that succeeds holds always.
\<close>

definition lands :: "('s \<Rightarrow> byte list \<Rightarrow> 's) \<Rightarrow> ('s pb_ostream, unit) prog \<Rightarrow> 's pb_ostream \<Rightarrow> byte list \<Rightarrow> bool" where
  "lands put f s bs \<longleftrightarrow>
     (if unat (bytes_written s) + length bs \<le> unat (max_size s)
      then f s = Some (Some (), s\<lparr>out_state := put (out_state s) bs, bytes_written := bytes_written s + of_nat (length bs)\<rparr>)
      else \<exists>t bs'. f s = Some (None, t) \<and> out_state t = put (out_state s) bs' \<and> unat (bytes_written s) + length bs' \<le> unat (max_size s))"

definition emits :: "('s \<Rightarrow> byte list \<Rightarrow> bool \<times> 's) \<Rightarrow> ('s \<Rightarrow> byte list \<Rightarrow> 's) \<Rightarrow> ('s pb_ostream, unit) prog \<Rightarrow> byte list \<Rightarrow> bool" where
  "emits cb put f bs \<longleftrightarrow> (\<forall>s.
     (out_callback s = None \<longrightarrow> f s = Some (Some (), s\<lparr>bytes_written := bytes_written s + of_nat (length bs)\<rparr>)) \<and>
     (out_callback s = Some cb \<and> out_errmsg s = None \<and> unat (bytes_written s) \<le> unat (max_size s) \<and> unat (bytes_written s) + length bs < 2 ^ 64 \<longrightarrow> lands put f s bs) \<and>
     (\<forall>t. out_callback s = Some cb \<longrightarrow> f s = Some (Some (), t) \<longrightarrow> out_callback t = Some cb \<and> out_state t = put (out_state s) bs))"

lemma emits_state: "emits cb put f bs \<Longrightarrow> out_callback s = Some cb \<Longrightarrow> f s = Some (Some (), t) \<Longrightarrow> out_callback t = Some cb \<and> out_state t = put (out_state s) bs"
  unfolding emits_def by blast

lemma emits_sizing: "emits cb put f bs \<Longrightarrow> out_callback s = None \<Longrightarrow> f s = Some (Some (), s\<lparr>bytes_written := bytes_written s + of_nat (length bs)\<rparr>)"
  unfolding emits_def by blast

lemma emits_lands: "emits cb put f bs \<Longrightarrow> out_callback s = Some cb \<Longrightarrow> out_errmsg s = None \<Longrightarrow> unat (bytes_written s) \<le> unat (max_size s) \<Longrightarrow>
    unat (bytes_written s) + length bs < 2 ^ 64 \<Longrightarrow> lands put f s bs"
  unfolding emits_def by blast

text \<open>The contract of the callback of an output stream: it takes all the bytes, in order.\<close>

locale sink =
  fixes cb :: "'s \<Rightarrow> byte list \<Rightarrow> bool \<times> 's" and put :: "'s \<Rightarrow> byte list \<Rightarrow> 's"
  assumes takes: "cb st bs = (True, put st bs)"
    and put_append: "put st (xs @ ys) = put (put st xs) ys"
    and put_nil [simp]: "put st [] = st"
begin

lemma write_emits:
  assumes "length bs < 2 ^ 64" and "n = of_nat (length bs)"
  shows "emits cb put (prog_call (pb_write bs n)) bs"
proof -
  have n: "unat n = length bs" using assms unat_of_nat_small [of "length bs", where 'a = 64] by simp
  have pos: "n > 0 \<longleftrightarrow> bs \<noteq> []" using n by (metis length_0_conv unat_eq_0 word_gt_0)
  show ?thesis
    unfolding emits_def
  proof (intro allI conjI impI)
    fix s :: "'s pb_ostream"
    assume "out_callback s = None"
    then show "prog_call (pb_write bs n) s = Some (Some (), s\<lparr>bytes_written := bytes_written s + of_nat (length bs)\<rparr>)"
      by (simp add: prog_call_def pb_write_def assms(2))
  next
    fix s :: "'s pb_ostream"
    assume a: "out_callback s = Some cb \<and> out_errmsg s = None \<and> unat (bytes_written s) \<le> unat (max_size s) \<and> unat (bytes_written s) + length bs < 2 ^ 64"
    have sum: "unat (bytes_written s + n) = unat (bytes_written s) + length bs"
      using a n by (simp add: unat_word_ariths)
    have le: "\<not> bytes_written s + n < bytes_written s" using sum by (simp add: word_less_nat_alt)
    have room: "bytes_written s + n > max_size s \<longleftrightarrow> \<not> unat (bytes_written s) + length bs \<le> unat (max_size s)"
      using sum by (simp add: word_less_nat_alt not_le)
    show "lands put (prog_call (pb_write bs n)) s bs"
    proof (cases "bs = []")
      case True
      then show ?thesis using a pos assms(2) by (simp add: lands_def prog_call_def pb_write_def)
    next
      case False
      then show ?thesis using a pos n le room assms(2)
        by (auto simp: lands_def prog_call_def pb_write_def takes out_error_def intro!: exI [of _ "[]"])
    qed
  next
    fix s t :: "'s pb_ostream"
    assume "out_callback s = Some cb" and "prog_call (pb_write bs n) s = Some (Some (), t)"
    then show "out_callback t = Some cb" "out_state t = put (out_state s) bs"
      using pos n by (auto simp: prog_call_def pb_write_def takes out_error_def split: if_splits)
  qed
qed

lemma emits_bind:
  assumes "emits cb put f xs" and "emits cb put (g ()) ys"
  shows "emits cb put (prog_bind f g) (xs @ ys)"
  unfolding emits_def
proof (intro allI conjI impI)
  fix s :: "'s pb_ostream"
  assume s: "out_callback s = None"
  then have "f s = Some (Some (), s\<lparr>bytes_written := bytes_written s + of_nat (length xs)\<rparr>)"
    using assms(1) unfolding emits_def by blast
  moreover have "g () (s\<lparr>bytes_written := bytes_written s + of_nat (length xs)\<rparr>) =
      Some (Some (), s\<lparr>bytes_written := bytes_written s + of_nat (length xs) + of_nat (length ys)\<rparr>)"
    using assms(2) s unfolding emits_def by simp
  ultimately show "prog_bind f g s = Some (Some (), s\<lparr>bytes_written := bytes_written s + of_nat (length (xs @ ys))\<rparr>)"
    by (simp add: prog_bind_def add.assoc)
next
  fix s :: "'s pb_ostream"
  assume a: "out_callback s = Some cb \<and> out_errmsg s = None \<and> unat (bytes_written s) \<le> unat (max_size s) \<and> unat (bytes_written s) + length (xs @ ys) < 2 ^ 64"
  define t where "t = s\<lparr>out_state := put (out_state s) xs, bytes_written := bytes_written s + of_nat (length xs)\<rparr>"
  have f: "lands put f s xs" using emits_lands [OF assms(1)] a by simp
  show "lands put (prog_bind f g) s (xs @ ys)"
  proof (cases "unat (bytes_written s) + length xs \<le> unat (max_size s)")
    case True
    have len: "length xs < 2 ^ 64" using a by simp
    have bw: "unat (bytes_written t) = unat (bytes_written s) + length xs"
      using a unat_of_nat_small [of "length xs", where 'a = 64] len by (simp add: t_def unat_word_ariths)
    have g: "lands put (g ()) t ys"
      by (rule emits_lands [OF assms(2)]) (use a True bw in \<open>simp_all add: t_def\<close>)
    have run: "prog_bind f g s = g () t" using f True by (simp add: lands_def prog_bind_def t_def)
    show ?thesis
    proof (cases "unat (bytes_written s) + length (xs @ ys) \<le> unat (max_size s)")
      case True
      then show ?thesis using g bw run by (simp add: lands_def t_def put_append add.assoc)
    next
      case False
      then obtain u bs' where u: "g () t = Some (None, u)" "out_state u = put (out_state t) bs'" "unat (bytes_written t) + length bs' \<le> unat (max_size t)"
        using g bw by (auto simp: lands_def t_def)
      then have "out_state u = put (out_state s) (xs @ bs')" "unat (bytes_written s) + length (xs @ bs') \<le> unat (max_size s)"
        using bw by (simp_all add: t_def put_append)
      then show ?thesis unfolding lands_def using False run u(1) by auto
    qed
  next
    case False
    then show ?thesis using f by (auto simp: lands_def prog_bind_def)
  qed
next
  fix s t :: "'s pb_ostream"
  assume s: "out_callback s = Some cb" and "prog_bind f g s = Some (Some (), t)"
  then obtain u where "f s = Some (Some (), u)" "g () u = Some (Some (), t)" by (auto simp: prog_bind_def split: option.splits)
  then show "out_callback t = Some cb" "out_state t = put (out_state s) (xs @ ys)"
    using emits_state [OF assms(1) s] emits_state [OF assms(2), of u t] by (simp_all add: put_append)
qed

end

text \<open>A buffer is such a sink.\<close>

definition buf_put :: "out_buffer \<Rightarrow> byte list \<Rightarrow> out_buffer" where
  "buf_put st bs = (fst st @ bs, drop (length bs) (snd st))"

interpretation buffer_sink: sink buf_write buf_put
  by unfold_locales (simp_all add: buf_write_def buf_put_def add.commute)


section \<open>Varints\<close>

text \<open>The shortest encoding of a number in groups of seven bits, least significant first, and the value of groups\<close>

function varint_bytes :: "nat \<Rightarrow> byte list" where
  "varint_bytes n = (if n < 128 then [of_nat n] else of_nat (128 + n mod 128) # varint_bytes (n div 128))"
  by pat_completeness auto
termination by (relation "measure id") auto

declare varint_bytes.simps [simp del]

primrec varint_val :: "byte list \<Rightarrow> nat" where
  "varint_val [] = 0"
| "varint_val (b # bs) = unat b mod 128 + 128 * varint_val bs"

lemma varint_group_byte: "unat (ucast ((v AND 0x7F) OR 0x80 :: u64) :: u8) = 128 + unat v mod 128"
proof -
  have low: "unat (v AND 0x7F) = unat v mod 128" using unat_and_mask [of v 7] by (simp add: mask_eq_exp_minus_1)
  have "(v AND 0x7F) AND 0x80 = 0" by (simp add: and.assoc)
  then have "(v AND 0x7F) OR 0x80 = (v AND 0x7F) + 0x80" using disjunctive_add_eq_or [of "v AND 0x7F" "0x80"] by simp
  moreover have "unat ((v AND 0x7F) + 0x80) = unat v mod 128 + 128"
    using low by (simp add: unat_word_ariths mod_less)
  ultimately have "unat ((v AND 0x7F) OR 0x80) = 128 + unat v mod 128" by simp
  moreover have "128 + unat v mod 128 < 256" using mod_less_divisor [of 128 "unat v"] by linarith
  ultimately show ?thesis by (simp add: unat_ucast_mod)
qed

lemma byte_of_nat: "unat b = n \<Longrightarrow> b = (of_nat n :: u8)"
  by (rule unat_eq_of_nat)

lemma encode_varint_loop_nil: "encode_varint_loop v = [] \<longleftrightarrow> v = 0"
  by (subst encode_varint_loop.simps) simp

lemma encode_varint_loop_eq:
  "v \<noteq> 0 \<Longrightarrow> (encode_varint_loop v)[length (encode_varint_loop v) - 1 := encode_varint_loop v ! (length (encode_varint_loop v) - 1) AND 0x7F] = varint_bytes (unat v)"
proof (induction v rule: encode_varint_loop.induct)
  case (1 v)
  define b where "b = (ucast ((v AND 0x7F) OR 0x80) :: byte)"
  have b: "unat b = 128 + unat v mod 128" unfolding b_def by (rule varint_group_byte)
  have loop: "encode_varint_loop v = b # encode_varint_loop (drop_bit 7 v)"
    using "1.prems" by (subst encode_varint_loop.simps) (simp add: b_def)
  have div: "unat (drop_bit 7 v) = unat v div 128" by (simp add: unat_drop_bit)
  show ?case
  proof (cases "drop_bit 7 v = 0")
    case True
    then have small: "unat v < 128" using div by (simp add: div_eq_0_iff)
    then have "unat (b AND 0x7F) = unat v" using b by (simp add: byte_and_7f)
    then have "b AND 0x7F = of_nat (unat v)" by (rule byte_of_nat)
    moreover have "encode_varint_loop (drop_bit 7 v) = []" using True by (simp add: encode_varint_loop_nil)
    ultimately show ?thesis using small loop by (subst varint_bytes.simps) simp
  next
    case False
    then have "\<not> unat v < 128" using div by (metis div_less unat_eq_0)
    moreover have "b = of_nat (128 + unat v mod 128)" using b by (rule byte_of_nat)
    moreover have "encode_varint_loop (drop_bit 7 v) \<noteq> []" using False by (simp add: encode_varint_loop_nil)
    moreover note "1.IH" [OF "1.prems" False]
    ultimately show ?thesis
      unfolding loop by (subst varint_bytes.simps) (cases "encode_varint_loop (drop_bit 7 v)"; simp add: div)
  qed
qed

lemma length_varint_bytes: "n < 2 ^ (7 * k) \<Longrightarrow> 0 < k \<Longrightarrow> length (varint_bytes n) \<le> k"
proof (induction k arbitrary: n)
  case (Suc k)
  show ?case
  proof (cases "n < 128")
    case True
    then show ?thesis by (subst varint_bytes.simps) simp
  next
    case False
    have k: "0 < k" using Suc.prems(1) False by (cases k) simp_all
    have "n div 128 < 2 ^ (7 * k)" using Suc.prems(1) by (simp add: less_mult_imp_div_less power_add mult.commute)
    then show ?thesis using Suc.IH k False by (subst varint_bytes.simps) simp
  qed
qed simp

lemma length_varint_word: "length (varint_bytes (unat (v :: u64))) \<le> 10"
  using length_varint_bytes [of "unat v" 10] word_unat_lt [of v] by simp

lemma pb_encode_varint_eq: "pb_encode_varint v = pb_write (varint_bytes (unat v)) (of_nat (length (varint_bytes (unat v))))"
proof (cases "v \<le> 0x7F")
  case True
  then have small: "unat v < 128" by (simp add: word_le_nat_alt)
  then have "(ucast v :: byte) = of_nat (unat v)" by (intro byte_of_nat) (simp add: unat_ucast_mod)
  then show ?thesis using True small unfolding pb_encode_varint_def by (subst varint_bytes.simps) (simp add: varint_bytes.simps [of "unat v"])
next
  case False
  then have "v \<noteq> 0" by auto
  moreover have "length (encode_varint_loop v) = length (varint_bytes (unat v))"
    using arg_cong [OF encode_varint_loop_eq [OF \<open>v \<noteq> 0\<close>], of length] by simp
  ultimately show ?thesis using False encode_varint_loop_eq [of v] unfolding pb_encode_varint_def Let_def by simp
qed

context sink
begin

lemma varint_emits: "emits cb put (prog_call (pb_encode_varint v)) (varint_bytes (unat v))"
  unfolding pb_encode_varint_eq using length_varint_word [of v] by (intro write_emits) simp_all

lemma call_bind: "prog_call (op_bind m f) = prog_bind (prog_call m) (\<lambda>a. prog_call (f a))"
  by (rule ext) (simp add: prog_call_def prog_bind_def op_bind_def split: option.split prod.split)

end


section \<open>Readers\<close>

text \<open>
  A stream over a buffer shows the next bytes of the buffer. \<open>reads m f\<close>: on every stream over a buffer \<open>m\<close>
  returns the value that \<open>f\<close> gives for the visible bytes and steps over the bytes \<open>f\<close> counts, or fails
  where \<open>f\<close> does.
\<close>

definition buf_stream :: "byte list pb_istream \<Rightarrow> bool" where
  "buf_stream s \<longleftrightarrow> in_callback s = buf_read \<and> is_buf_read s \<and> bytes_left s \<le> length (in_state s)"

definition visible :: "byte list pb_istream \<Rightarrow> byte list" where
  "visible s = take (bytes_left s) (in_state s)"

definition advance :: "nat \<Rightarrow> byte list pb_istream \<Rightarrow> byte list pb_istream" where
  "advance k s = s\<lparr>in_state := drop k (in_state s), bytes_left := bytes_left s - k\<rparr>"

definition reads :: "(byte list pb_istream, 'a) op \<Rightarrow> (byte list \<Rightarrow> ('a \<times> nat) option) \<Rightarrow> bool" where
  "reads m f \<longleftrightarrow> (\<forall>s. buf_stream s \<longrightarrow> (case f (visible s) of
      Some (a, k) \<Rightarrow> m s = (Some a, advance k s)
    | None \<Rightarrow> fst (m s) = None))"

lemma readsD: "reads m f \<Longrightarrow> buf_stream s \<Longrightarrow> f (visible s) = Some (a, k) \<Longrightarrow> m s = (Some a, advance k s)"
  unfolding reads_def by fastforce

lemma readsN: "reads m f \<Longrightarrow> buf_stream s \<Longrightarrow> f (visible s) = None \<Longrightarrow> fst (m s) = None"
  unfolding reads_def by fastforce

lemma visible_advance [simp]: "visible (advance k s) = drop k (visible s)"
  by (simp add: visible_def advance_def drop_take)

lemma buf_stream_advance [simp]: "buf_stream s \<Longrightarrow> buf_stream (advance k s)"
  by (auto simp: buf_stream_def advance_def)

lemma advance_advance [simp]: "advance j (advance k s) = advance (k + j) s"
  by (simp add: advance_def add.commute)

lemma advance_0 [simp]: "advance 0 s = s"
  by (simp add: advance_def)

lemma length_visible: "buf_stream s \<Longrightarrow> length (visible s) = bytes_left s"
  by (simp add: visible_def buf_stream_def)

lemma buf_stream_from_buffer: "n \<le> length buf \<Longrightarrow> buf_stream (pb_istream_from_buffer buf n)"
  by (simp add: buf_stream_def pb_istream_from_buffer_def)

lemma visible_from_buffer: "visible (pb_istream_from_buffer buf n) = take n buf"
  by (simp add: visible_def pb_istream_from_buffer_def)

lemma reads_bind:
  assumes "reads m f" and "\<And>a. reads (g a) (h a)"
  shows "reads (op_bind m g) (\<lambda>xs. case f xs of None \<Rightarrow> None | Some (a, k) \<Rightarrow> map_option (\<lambda>(b, j). (b, k + j)) (h a (drop k xs)))"
  unfolding reads_def
proof (intro allI impI)
  fix s
  assume s: "buf_stream s"
  show "case (case f (visible s) of None \<Rightarrow> None | Some (a, k) \<Rightarrow> map_option (\<lambda>(b, j). (b, k + j)) (h a (drop k (visible s)))) of
      None \<Rightarrow> fst (op_bind m g s) = None | Some (a, k) \<Rightarrow> op_bind m g s = (Some a, advance k s)"
  proof (cases "f (visible s)")
    case None
    then show ?thesis using readsN [OF assms(1) s] by (auto simp: op_bind_def split: prod.split)
  next
    case (Some ak)
    obtain a k where ak: "ak = (a, k)" by fastforce
    have m: "m s = (Some a, advance k s)" by (rule readsD [OF assms(1) s]) (simp add: Some ak)
    show ?thesis
    proof (cases "h a (drop k (visible s))")
      case None
      then have "fst (g a (advance k s)) = None" using readsN [OF assms(2), of "advance k s" a] s by simp
      then show ?thesis using m Some ak None by simp
    next
      case (Some bj)
      then obtain b j where "h a (drop k (visible s)) = Some (b, j)" by (cases bj) auto
      moreover from this have "g a (advance k s) = (Some b, advance j (advance k s))"
        using readsD [OF assms(2), of "advance k s" a b j] s by simp
      ultimately show ?thesis using m \<open>f (visible s) = Some ak\<close> ak by simp
    qed
  qed
qed

lemma reads_return: "reads (op_return a) (\<lambda>xs. Some (a, 0))"
  by (simp add: reads_def)

lemma reads_map: "reads m f \<Longrightarrow> reads (op_map g m) (\<lambda>xs. map_option (\<lambda>(a, k). (g a, k)) (f xs))"
proof -
  assume m: "reads m f"
  have "reads (op_map g m) (\<lambda>xs. case f xs of None \<Rightarrow> None | Some (a, k) \<Rightarrow> map_option (\<lambda>(b, j). (b, k + j)) (Some (g a, 0)))"
    unfolding op_map_def by (rule reads_bind [OF m reads_return])
  moreover have "(\<lambda>xs. case f xs of None \<Rightarrow> None | Some (a, k) \<Rightarrow> map_option (\<lambda>(b, j). (b, k + j)) (Some (g a, 0))) =
      (\<lambda>xs. map_option (\<lambda>(a, k). (g a, k)) (f xs))"
    by (auto split: option.split)
  ultimately show ?thesis by simp
qed

lemma readbyte_eq: "buf_stream s \<Longrightarrow> pb_readbyte s = (case visible s of [] \<Rightarrow> in_error ''end-of-stream'' s | b # _ \<Rightarrow> (Some b, advance 1 s))"
  by (cases "in_state s"; cases "bytes_left s") (auto simp: pb_readbyte_def buf_stream_def visible_def advance_def buf_read_def)

lemma reads_bytes: "reads (pb_read n) (\<lambda>xs. if n \<le> length xs then Some (take n xs, n) else None)"
  unfolding reads_def
proof (intro allI impI)
  fix s
  assume s: "buf_stream s"
  then have len: "length (visible s) = bytes_left s" by (rule length_visible)
  show "case if n \<le> length (visible s) then Some (take n (visible s), n) else None of
      None \<Rightarrow> fst (pb_read n s) = None | Some (a, k) \<Rightarrow> pb_read n s = (Some a, advance k s)"
    using s len by (auto simp: pb_read_def in_error_def buf_stream_def buf_read_def advance_def visible_def min_def)
qed

lemma reads_null: "reads (pb_read_null n) (\<lambda>xs. if n \<le> length xs then Some ((), n) else None)"
  unfolding reads_def
proof (intro allI impI)
  fix s
  assume s: "buf_stream s"
  show "case if n \<le> length (visible s) then Some ((), n) else None of
      None \<Rightarrow> fst (pb_read_null n s) = None | Some (a, k) \<Rightarrow> pb_read_null n s = (Some a, advance k s)"
  proof (cases "n = 0")
    case True
    then show ?thesis by (simp add: pb_read_null_def)
  next
    case False
    have "reads (op_map (\<lambda>_. ()) (pb_read n)) (\<lambda>xs. map_option (\<lambda>(a, k). ((), k)) (if n \<le> length xs then Some (take n xs, n) else None))"
      by (rule reads_map [OF reads_bytes])
    then have "case map_option (\<lambda>(a, k). ((), k)) (if n \<le> length (visible s) then Some (take n (visible s), n) else None) of
        None \<Rightarrow> fst (op_map (\<lambda>_. ()) (pb_read n) s) = None | Some (a, k) \<Rightarrow> op_map (\<lambda>_. ()) (pb_read n) s = (Some a, advance k s)"
      using s unfolding reads_def by blast
    moreover have "pb_read_null n s = op_map (\<lambda>_. ()) (pb_read n) s" using s False by (simp add: pb_read_null_def buf_stream_def)
    ultimately show ?thesis by (simp split: if_splits)
  qed
qed

primrec varint_len :: "byte list \<Rightarrow> nat option" where
  "varint_len [] = None"
| "varint_len (b # bs) = (if unat b < 128 then Some 1 else map_option Suc (varint_len bs))"

lemma or_group:
  assumes "acc < 2 ^ k"
  shows "(of_nat acc :: 'a::len word) OR push_bit k (of_nat g) = of_nat (acc + 2 ^ k * g)"
proof -
  have "acc OR push_bit k g = acc + push_bit k g"
  proof (rule disjunctive_add_eq_or [symmetric])
    have "\<not> bit acc n" if "k \<le> n" for n
    proof -
      have "(2 :: nat) ^ k \<le> 2 ^ n" using that by (intro power_increasing) simp_all
      then have "acc < 2 ^ n" using assms by (rule less_le_trans [rotated])
      then show ?thesis by (simp add: bit_iff_odd)
    qed
    then show "acc AND push_bit k g = 0" by (auto simp: bit_eq_iff bit_simps)
  qed
  then have "(of_nat (acc OR push_bit k g) :: 'a word) = of_nat (acc + 2 ^ k * g)" by (simp add: push_bit_eq_mult mult.commute)
  moreover have "(of_nat (acc OR push_bit k g) :: 'a word) = of_nat acc OR push_bit k (of_nat g)" by (simp add: of_nat_or_eq push_bit_of_nat)
  ultimately show ?thesis by simp
qed

lemma group_of_byte: "LENGTH('a) > 7 \<Longrightarrow> (ucast ((b :: byte) AND 0x7F) :: 'a::len word) = of_nat (unat b mod 128)"
proof (rule unat_eq_of_nat)
  assume l: "LENGTH('a) > 7"
  have "(2 :: nat) ^ 7 \<le> 2 ^ LENGTH('a)" using l by (intro power_increasing) simp_all
  then have "unat b mod 128 < 2 ^ LENGTH('a)" using mod_less_divisor [of 128 "unat b"] by simp
  then show "unat (ucast (b AND 0x7F) :: 'a word) = unat b mod 128" by (simp add: unat_ucast_mod byte_and_7f)
qed

lemma acc_bound: "acc < 2 ^ (7 * i) \<Longrightarrow> acc + 2 ^ (7 * i) * (u mod 128) < (2 :: nat) ^ (7 * Suc i)"
proof -
  assume a: "acc < 2 ^ (7 * i)"
  have "u mod 128 \<le> 127" by simp
  then have "2 ^ (7 * i) * (u mod 128) \<le> 2 ^ (7 * i) * (127 :: nat)" by (rule mult_le_mono2)
  moreover have "(2 :: nat) ^ (7 * Suc i) = 2 ^ (7 * i) * 127 + 2 ^ (7 * i)" by (simp add: power_add)
  ultimately show ?thesis using a by linarith
qed

lemma readsC: "reads m f \<Longrightarrow> buf_stream s \<Longrightarrow> (case f (visible s) of
      Some (a, k) \<Rightarrow> m s = (Some a, advance k s) | None \<Rightarrow> fst (m s) = None)"
  unfolding reads_def by blast

lemma unat_high_byte: "unat (of_nat (128 + n mod 128) :: byte) = 128 + n mod 128"
  by (rule unat_of_nat_small) (use mod_less_divisor [of 128 n] in simp)

lemma varint_loop_reads:
  assumes "i \<le> 10" and "acc < 2 ^ (7 * i)"
  shows "reads (pb_decode_varint_loop (of_nat (7 * i)) (of_nat acc)) (\<lambda>xs. case varint_len xs of None \<Rightarrow> None
    | Some k \<Rightarrow> if i + k \<le> 10 then Some (of_nat (acc + 2 ^ (7 * i) * varint_val (take k xs)), k) else None)"
  using assms
proof (induction "10 - i" arbitrary: i acc)
  case 0
  then have i: "i = 10" by simp
  have len: "k > 0" if "varint_len xs = Some k" for xs k using that by (cases xs) (auto split: if_splits)
  show ?case unfolding reads_def i by (subst pb_decode_varint_loop.simps) (auto simp: in_error_def split: option.split dest: len)
next
  case (Suc d)
  then have i: "i < 10" "d = 10 - Suc i" by simp_all
  define pos where "pos = (of_nat (7 * i) :: u8)"
  have pos: "unat pos = 7 * i" using i(1) by (simp add: pos_def unat_of_nat_small del: of_nat_mult)
  have pos': "pos + 7 = of_nat (7 * Suc i)" by (simp add: pos_def)
  have small: "\<not> 64 \<le> pos" using pos i(1) by (simp add: word_le_nat_alt)
  note IH = Suc.hyps(1) [OF i(2)]
  show ?case
    unfolding reads_def
  proof (intro allI impI)
    fix s
    assume s: "buf_stream s"
    show "case (case varint_len (visible s) of None \<Rightarrow> None
        | Some k \<Rightarrow> if i + k \<le> 10 then Some (of_nat (acc + 2 ^ (7 * i) * varint_val (take k (visible s))) :: u64, k) else None) of
        None \<Rightarrow> fst (pb_decode_varint_loop (of_nat (7 * i)) (of_nat acc) s) = None
      | Some (a, k) \<Rightarrow> pb_decode_varint_loop (of_nat (7 * i)) (of_nat acc) s = (Some a, advance k s)"
    proof (cases "visible s")
      case Nil
      then show ?thesis unfolding pos_def [symmetric] using small s
        by (subst pb_decode_varint_loop.simps) (simp add: readbyte_eq in_error_def)
    next
      case (Cons b xs)
      define acc' where "acc' = acc + 2 ^ (7 * i) * (unat b mod 128)"
      have acc': "acc' < 2 ^ (7 * Suc i)" unfolding acc'_def by (rule acc_bound [OF Suc.prems(2)])
      have step: "pb_decode_varint_loop (of_nat (7 * i)) (of_nat acc) s =
          (if b AND 0x80 \<noteq> 0 then pb_decode_varint_loop (of_nat (7 * Suc i)) (of_nat acc') (advance 1 s) else (Some (of_nat acc'), advance 1 s))"
        unfolding pos_def [symmetric] pos' [symmetric] acc'_def using small s pos
        by (subst pb_decode_varint_loop.simps)
          (simp add: readbyte_eq Cons Let_def group_of_byte or_group [OF Suc.prems(2)])
      show ?thesis
      proof (cases "unat b < 128")
        case True
        then show ?thesis using step i(1) Cons by (simp add: byte_and_80 acc'_def)
      next
        case False
        have vis: "visible (advance 1 s) = xs" using Cons by simp
        have rec: "case (case varint_len xs of None \<Rightarrow> None
            | Some k \<Rightarrow> if Suc i + k \<le> 10 then Some (of_nat (acc' + 2 ^ (7 * Suc i) * varint_val (take k xs)) :: u64, k) else None) of
            None \<Rightarrow> fst (pb_decode_varint_loop (of_nat (7 * Suc i)) (of_nat acc') (advance 1 s)) = None
          | Some (a, k) \<Rightarrow> pb_decode_varint_loop (of_nat (7 * Suc i)) (of_nat acc') (advance 1 s) = (Some a, advance k (advance 1 s))"
          using readsC [OF IH [OF Suc_leI [OF i(1)] acc'], of "advance 1 s"] s unfolding vis by simp
        have sum: "acc + 2 ^ (7 * i) * varint_val (take (Suc k) (b # xs)) = acc' + 2 ^ (7 * Suc i) * varint_val (take k xs)" for k
          by (simp add: acc'_def power_add distrib_left)
        define R where "R = pb_decode_varint_loop (of_nat (7 * Suc i)) (of_nat acc') (advance 1 s)"
        have run: "pb_decode_varint_loop (of_nat (7 * i)) (of_nat acc) s = R" using step False by (simp only: byte_and_80 R_def if_True not_False_eq_True)
        define N where "N k = (of_nat (acc' + 2 ^ (7 * Suc i) * varint_val (take k xs)) :: u64)" for k
        have sum': "of_nat (acc + 2 ^ (7 * i) * varint_val (take (Suc k) (b # xs))) = N k" for k unfolding N_def sum ..
        show ?thesis unfolding run Cons
          using rec [folded R_def N_def] False
          by (cases "varint_len xs") (simp_all add: sum' del: take_Suc_Cons varint_val.simps of_nat_add of_nat_mult split: if_splits)
      qed
    qed
  qed
qed

lemma varint_reads: "reads pb_decode_varint (\<lambda>xs. case varint_len xs of None \<Rightarrow> None
    | Some k \<Rightarrow> if k \<le> 10 then Some (of_nat (varint_val (take k xs)), k) else None)"
  unfolding pb_decode_varint_def using varint_loop_reads [of 0 0] by (simp only: mult_0_right power_0 add_0_left mult_1 of_nat_0) simp

lemma varint_len_bytes: "varint_len (varint_bytes n @ rest) = Some (length (varint_bytes n))"
proof (induction n rule: varint_bytes.induct)
  case (1 n)
  show ?case
  proof (cases "n < 128")
    case True
    then show ?thesis by (subst (1 2) varint_bytes.simps) simp
  next
    case False
    have "\<not> unat (of_nat (128 + n mod 128) :: byte) < 128" unfolding unat_high_byte by simp
    then show ?thesis using False 1 by (subst (1 2) varint_bytes.simps) (simp del: of_nat_add unat_of_nat_u8)
  qed
qed

lemma varint_val_bytes: "varint_val (varint_bytes n) = n"
proof (induction n rule: varint_bytes.induct)
  case (1 n)
  show ?case
  proof (cases "n < 128")
    case True
    then show ?thesis by (subst varint_bytes.simps) simp
  next
    case False
    have "unat (of_nat (128 + n mod 128) :: byte) mod 128 = n mod 128" unfolding unat_high_byte by simp
    then show ?thesis using False 1 by (subst varint_bytes.simps) (simp del: of_nat_add unat_of_nat_u8)
  qed
qed

text \<open>What the 32-bit reader does with the bytes of a group from index \<open>i\<close> on\<close>

fun spec32 :: "nat \<Rightarrow> u32 \<Rightarrow> byte list \<Rightarrow> u32 option" where
  "spec32 i r [] = None"
| "spec32 i r (b # bs) =
     (if 5 \<le> i \<and> unat b mod 128 \<noteq> 0 \<and> (\<not> bit r 31 \<or> b \<noteq> (if i < 9 then 0xFF else 1)) then None
      else let r = (if 5 \<le> i then r else r OR push_bit (7 * i) (of_nat (unat b mod 128)))
           in if bs = [] then (if i = 4 \<and> b AND 0x70 \<noteq> 0 then None else Some r) else spec32 (Suc i) r bs)"

declare spec32.simps [simp del]

lemma varint32_loop_eq:
  assumes "varint_len xs = Some k" and "i + k \<le> 36" and "buf_stream s" and "visible s = xs"
  shows "case spec32 i r (take k xs) of Some r' \<Rightarrow> varint32_loop (of_nat (7 * i)) r s = (Some r', advance k s)
    | None \<Rightarrow> fst (varint32_loop (of_nat (7 * i)) r s) = None"
  using assms
proof (induction xs arbitrary: k i r s)
  case (Cons b xs)
  define pos where "pos = (of_nat (7 * i) :: u8)"
  have k: "0 < k" using Cons.prems(1) by (auto split: if_splits)
  then have i: "7 * i < 256" using Cons.prems(2) by linarith
  have pos: "unat pos = 7 * i" using i by (simp add: pos_def unat_of_nat_small del: of_nat_mult)
  have pos': "pos + 7 = of_nat (7 * Suc i)" by (simp add: pos_def)
  have p32: "32 \<le> pos \<longleftrightarrow> 5 \<le> i" using pos unfolding word_le_nat_alt by simp linarith
  have p63: "pos < 63 \<longleftrightarrow> i < 9" using pos by (simp add: word_less_nat_alt)
  have p35: "pos + 7 = 35 \<longleftrightarrow> i = 4"
  proof -
    have "i < 36" using k Cons.prems(2) by linarith
    then have "unat (pos + 7) = 7 * i + 7" using pos by (simp add: unat_word_ariths)
    then show ?thesis by (simp add: word_unat_eq_iff)
  qed
  have r31: "drop_bit 31 r = 0 \<longleftrightarrow> \<not> bit r 31" for r :: u32
  proof -
    have "drop_bit 31 r = 0 \<longleftrightarrow> unat r div 2 ^ 31 = 0" using unat_drop_bit [of 31 r] by (metis unat_eq_0)
    moreover have "bit r 31 \<longleftrightarrow> odd (unat r div 2 ^ 31)" using bit_iff_odd [of "unat r" 31] by (simp add: bit_unsigned_iff)
    moreover have "unat r div 2 ^ 31 < 2" using word_unat_lt [of r] by (simp add: less_mult_imp_div_less)
    ultimately show ?thesis by (metis even_zero less_2_cases odd_one One_nat_def)
  qed
  define bad where "bad \<longleftrightarrow> 5 \<le> i \<and> unat b mod 128 \<noteq> 0 \<and> (\<not> bit r 31 \<or> b \<noteq> (if i < 9 then 0xFF else 1))"
  define r' where "r' = (if 5 \<le> i then r else r OR push_bit (7 * i) (of_nat (unat b mod 128)))"
  have and7f: "b AND 0x7F \<noteq> 0 \<longleftrightarrow> unat b mod 128 \<noteq> 0" using byte_and_7f [of b] by (simp add: word_unat_eq_iff)
  have step: "varint32_loop (of_nat (7 * i)) r s =
      (if bad then in_error ''varint overflow'' (advance 1 s)
       else if \<not> unat b < 128 then varint32_loop (of_nat (7 * Suc i)) r' (advance 1 s)
       else if i = 4 \<and> b AND 0x70 \<noteq> 0 then in_error ''varint overflow'' (advance 1 s) else (Some r', advance 1 s))"
    unfolding pos_def [symmetric] pos' [symmetric] bad_def r'_def
    using Cons.prems(3,4) pos p32 p63 p35
    by (subst varint32_loop.simps, simp add: readbyte_eq Let_def and7f r31 byte_and_80 group_of_byte) auto
  show ?case
  proof (cases "unat b < 128")
    case True
    then have "k = 1" using Cons.prems(1) by simp
    then have "take k (b # xs) = [b]" by simp
    moreover have "spec32 i r [b] = (if bad then None else if i = 4 \<and> b AND 0x70 \<noteq> 0 then None else Some r')"
      unfolding spec32.simps bad_def r'_def Let_def by simp
    ultimately show ?thesis unfolding step using True \<open>k = 1\<close> by (simp add: in_error_def)
  next
    case False
    then obtain j where j: "varint_len xs = Some j" "k = Suc j" using Cons.prems(1) by (auto split: if_splits)
    have "j > 0" "xs \<noteq> []" using j(1) by (cases xs; auto split: if_splits)+
    then have ne: "take j xs \<noteq> []" by simp
    have IH: "case spec32 (Suc i) r' (take j xs) of Some q \<Rightarrow> varint32_loop (of_nat (7 * Suc i)) r' (advance 1 s) = (Some q, advance j (advance 1 s))
      | None \<Rightarrow> fst (varint32_loop (of_nat (7 * Suc i)) r' (advance 1 s)) = None"
      by (rule Cons.IH) (use Cons.prems j in simp_all)
    have spec: "spec32 i r (take k (b # xs)) = (if bad then None else spec32 (Suc i) r' (take j xs))"
    proof -
      have "take k (b # xs) = b # take j xs" using j(2) by simp
      then show ?thesis unfolding spec32.simps bad_def r'_def Let_def using ne by (simp only: spec32.simps Let_def if_False)
    qed
    show ?thesis unfolding spec step using IH False j(2) by (cases "spec32 (Suc i) r' (take j xs)") (simp_all add: in_error_def)
  qed
qed simp


lemma varint_bytes_Cons: "\<exists>b bs. varint_bytes n = b # bs \<and> unat b mod 128 = n mod 128 \<and> (n < 128 \<longrightarrow> bs = [] \<and> unat b = n) \<and>
    (\<not> n < 128 \<longrightarrow> bs = varint_bytes (n div 128) \<and> bs \<noteq> [] \<and> unat b = 128 + n mod 128)"
proof (cases "n < 128")
  case True
  then show ?thesis by (subst varint_bytes.simps) simp
next
  case False
  have "varint_bytes (n div 128) \<noteq> []" by (subst varint_bytes.simps) simp
  then show ?thesis using False by (subst varint_bytes.simps) (simp add: unat_high_byte del: of_nat_add unat_of_nat_u8)
qed

lemma spec32_upper:
  assumes "5 \<le> i" "i \<le> 9" "0 < w" "w < 2 ^ (64 - 7 * i)"
  shows "spec32 i r (varint_bytes w) = (if bit r 31 \<and> 2 ^ (63 - 7 * i) \<le> w \<and> (\<forall>j<9 - i. w div 128 ^ j mod 128 \<in> {0, 127}) then Some r else None)"
  using assms
proof (induction "9 - i" arbitrary: i w)
  case 0
  then have i: "i = 9" by simp
  then have w: "w = 1" using "0.prems" by simp
  have "varint_bytes 1 = [1]" by (subst varint_bytes.simps) simp
  then show ?case unfolding i w by (simp add: spec32.simps)
next
  case (Suc d)
  then have i: "i < 9" "d = 9 - Suc i" by simp_all
  obtain b bs where b: "varint_bytes w = b # bs" "unat b mod 128 = w mod 128" "w < 128 \<longrightarrow> bs = [] \<and> unat b = w"
    "\<not> w < 128 \<longrightarrow> bs = varint_bytes (w div 128) \<and> bs \<noteq> [] \<and> unat b = 128 + w mod 128"
    using varint_bytes_Cons [of w] by blast
  have ff: "b = 0xFF \<longleftrightarrow> unat b = 255" by (simp add: word_unat_eq_iff)
  show ?case
  proof (cases "w < 128")
    case True
    have "2 ^ 7 \<le> (2 :: nat) ^ (63 - 7 * i)" using i(1) by (intro power_increasing) simp_all
    then have "\<not> 2 ^ (63 - 7 * i) \<le> w" using True by simp
    moreover have "b \<noteq> 0xFF" "unat b mod 128 \<noteq> 0" using True b(3) ff Suc.prems(3) by auto
    ultimately show ?thesis using b(1) Suc.prems(1) i(1) by (simp add: spec32.simps)
  next
    case False
    have e63: "63 - 7 * i = 7 + (63 - 7 * Suc i)" and e64: "64 - 7 * i = 7 + (64 - 7 * Suc i)" using i(1) by simp_all
    have lt: "w div 128 < 2 ^ (64 - 7 * Suc i)" using Suc.prems(4) unfolding e64 by (simp add: power_add less_mult_imp_div_less mult.commute)
    have le: "2 ^ (63 - 7 * i) \<le> w \<longleftrightarrow> 2 ^ (63 - 7 * Suc i) \<le> w div 128"
      unfolding e63 by (simp add: power_add less_eq_div_iff_mult_less_eq mult.commute)
    have all: "(\<forall>j<9 - i. w div 128 ^ j mod 128 \<in> {0, 127}) \<longleftrightarrow> w mod 128 \<in> {0, 127} \<and> (\<forall>j<9 - Suc i. w div 128 div 128 ^ j mod 128 \<in> {0, 127})"
    proof -
      have "9 - i = Suc (9 - Suc i)" using i(1) by simp
      then show ?thesis by (simp only: All_less_Suc2 power_0 power_Suc div_mult2_eq div_by_1)
    qed
    have IH: "spec32 (Suc i) r (varint_bytes (w div 128)) =
        (if bit r 31 \<and> 2 ^ (63 - 7 * Suc i) \<le> w div 128 \<and> (\<forall>j<9 - Suc i. w div 128 div 128 ^ j mod 128 \<in> {0, 127}) then Some r else None)"
      by (rule Suc.hyps(1) [OF i(2)]) (use Suc.prems i lt False in simp_all)
    have bs: "bs = varint_bytes (w div 128)" "bs \<noteq> []" "unat b = 128 + w mod 128" using b(4) False by blast+
    have "spec32 i r (varint_bytes w) = (if w mod 128 \<noteq> 0 \<and> (\<not> bit r 31 \<or> w mod 128 \<noteq> 127) then None else spec32 (Suc i) r bs)"
      unfolding b(1) using bs(2,3) b(2) Suc.prems(1) i(1) ff by (simp add: spec32.simps)
    note eq = this [unfolded bs(1)]
    show ?thesis unfolding eq IH le all by auto
  qed
qed

definition accepted32 :: "nat \<Rightarrow> bool" where
  "accepted32 v \<longleftrightarrow> v < 2 ^ 32 \<or> (2 ^ 63 \<le> v \<and> odd (v div 2 ^ 31) \<and> (\<forall>j<4. v div 2 ^ (35 + 7 * j) mod 128 \<in> {0, 127}))"

lemma byte_and_70: "unat b < 128 \<Longrightarrow> (b :: byte) AND 0x70 = 0 \<longleftrightarrow> unat b < 16"
proof -
  assume b: "unat b < 128"
  define m where "m = take_bit 3 (drop_bit 4 b)"
  have "b AND 0x70 = push_bit 4 m" using slice_eq_mask [of 4 3 b] by (simp add: m_def mask_eq_exp_minus_1 and.assoc)
  moreover have m: "unat m = unat b div 16" 
    using b unfolding m_def unsigned_take_bit_eq unat_drop_bit by (simp add: take_bit_eq_mod)
  moreover have "unat (push_bit 4 m) = unat m * 2 ^ 4" by (rule unat_push_bit_lt) (use m b in simp)
  ultimately have "unat (b AND 0x70) = unat b div 16 * 16" by simp
  then have "b AND 0x70 = 0 \<longleftrightarrow> unat b div 16 = 0" by (metis mult_eq_0_iff unat_eq_0 zero_neq_numeral)
  then show ?thesis by (simp add: div_eq_0_iff)
qed

lemma spec32_lower:
  assumes "i \<le> 4" "acc < 2 ^ (7 * i)" "w < 2 ^ (64 - 7 * i)"
  shows "spec32 i (of_nat acc) (varint_bytes w) = (if accepted32 (acc + 2 ^ (7 * i) * w) then Some (of_nat (acc + 2 ^ (7 * i) * w)) else None)"
  using assms
proof (induction "4 - i" arbitrary: i acc w)
  case 0
  then have i: "i = 4" by simp
  obtain b bs where b: "varint_bytes w = b # bs" "unat b mod 128 = w mod 128" "w < 128 \<longrightarrow> bs = [] \<and> unat b = w"
    "\<not> w < 128 \<longrightarrow> bs = varint_bytes (w div 128) \<and> bs \<noteq> [] \<and> unat b = 128 + w mod 128"
    using varint_bytes_Cons [of w] by blast
  define v where "v = acc + 2 ^ 28 * w"
  define r where "r = (of_nat (acc + 2 ^ 28 * (w mod 128)) :: u32)"
  have acc: "acc < 2 ^ 28" using "0.prems"(2) i by simp
  have or: "(of_nat acc OR push_bit 28 (of_nat (w mod 128)) :: u32) = r"
    unfolding r_def using or_group [OF acc] by simp
  have vdiv: "v div 2 ^ 28 = w" using acc by (simp add: v_def)
  show ?case
  proof (cases "w < 128")
    case True
    have "v < 2 ^ 35" using acc True by (simp add: v_def)
    then have "accepted32 v \<longleftrightarrow> v < 2 ^ 32" by (auto simp: accepted32_def)
    also have "\<dots> \<longleftrightarrow> unat b < 16" using acc True b(3) by (simp add: v_def) linarith
    finally have "accepted32 v \<longleftrightarrow> b AND 0x70 = 0" using True b(3) byte_and_70 [of b] by simp
    moreover have "r = of_nat v" using True by (simp add: r_def v_def)
    ultimately show ?thesis using True b(1,2,3) or unfolding i by (simp add: spec32.simps v_def)
  next
    case False
    have vr: "of_nat v = r"
    proof -
      have "w = w mod 128 + 128 * (w div 128)" by simp
      then have "2 ^ 28 * w = 2 ^ 28 * (w mod 128) + 2 ^ 28 * (128 * (w div 128))" by (metis distrib_left)
      then have "v = acc + 2 ^ 28 * (w mod 128) + 2 ^ 35 * (w div 128)" unfolding v_def by simp
      moreover have "(of_nat (2 ^ 35 * (w div 128)) :: u32) = 0" by (simp add: word_of_nat_eq_0_iff del: of_nat_mult)
      ultimately show ?thesis unfolding r_def by (simp only: of_nat_add add_0_right)
    qed
    have bit31: "bit r 31 \<longleftrightarrow> odd (v div 2 ^ 31)" 
    proof -
      have "bit (of_nat v :: u32) 31 \<longleftrightarrow> bit v 31" by (simp add: bit_of_nat_iff)
      then show ?thesis unfolding vr by (simp only: bit_iff_odd)
    qed
    have w: "w < 2 ^ 36" using "0.prems"(3) i by simp
    have bs: "bs = varint_bytes (w div 128)" "bs \<noteq> []" using b(4) False by blast+
    have "spec32 4 (of_nat acc) (varint_bytes w) = spec32 5 r bs"
      unfolding b(1) using bs(2) b(2) or by (simp add: spec32.simps)
    then have "spec32 4 (of_nat acc) (varint_bytes w) = spec32 5 r (varint_bytes (w div 128))" by (simp only: bs(1))
    also have "\<dots> = (if bit r 31 \<and> 2 ^ (63 - 7 * 5) \<le> w div 128 \<and> (\<forall>j<9 - 5. w div 128 div 128 ^ j mod 128 \<in> {0, 127}) then Some r else None)"
      by (rule spec32_upper) (use w False in simp_all)
    also have "\<dots> = (if accepted32 v then Some r else None)"
    proof -
      have "\<not> v < 2 ^ 32" using False by (simp add: v_def)
      moreover have "2 ^ (63 - 7 * 5) \<le> w div 128 \<longleftrightarrow> 2 ^ 63 \<le> v"
        unfolding vdiv [symmetric] div_mult2_eq [symmetric] by (simp add: less_eq_div_iff_mult_less_eq)
      moreover have "w div 128 div 128 ^ j = v div 2 ^ (35 + 7 * j)" for j
        unfolding vdiv [symmetric] div_mult2_eq [symmetric] by (simp add: power_add power_mult)
      ultimately show ?thesis using bit31 by (simp add: accepted32_def)
    qed
    finally show ?thesis unfolding i using vr by (simp add: v_def)
  qed
next
  case (Suc d)
  then have i: "i < 4" "d = 4 - Suc i" by simp_all
  obtain b bs where b: "varint_bytes w = b # bs" "unat b mod 128 = w mod 128" "w < 128 \<longrightarrow> bs = [] \<and> unat b = w"
    "\<not> w < 128 \<longrightarrow> bs = varint_bytes (w div 128) \<and> bs \<noteq> [] \<and> unat b = 128 + w mod 128"
    using varint_bytes_Cons [of w] by blast
  define acc' where "acc' = acc + 2 ^ (7 * i) * (w mod 128)"
  have acc': "acc' < 2 ^ (7 * Suc i)" unfolding acc'_def by (rule acc_bound [OF Suc.prems(2)])
  have or: "(of_nat acc OR push_bit (7 * i) (of_nat (w mod 128)) :: u32) = of_nat acc'"
    unfolding acc'_def by (rule or_group [OF Suc.prems(2)])
  show ?case
  proof (cases "w < 128")
    case True
    have "(2 :: nat) ^ (7 * Suc i) \<le> 2 ^ 28" using i(1) by (intro power_increasing) simp_all
    then have "acc' < 2 ^ 32" using acc' by simp
    moreover have "acc' = acc + 2 ^ (7 * i) * w" using True by (simp add: acc'_def)
    ultimately show ?thesis using True b or i(1) by (simp add: spec32.simps accepted32_def)
  next
    case False
    have sum: "acc + 2 ^ (7 * i) * w = acc' + 2 ^ (7 * Suc i) * (w div 128)"
    proof -
      have "w = w mod 128 + 128 * (w div 128)" by simp
      then have "2 ^ (7 * i) * w = 2 ^ (7 * i) * (w mod 128) + 2 ^ (7 * i) * (128 * (w div 128))" by (metis distrib_left)
      then show ?thesis unfolding acc'_def by (simp add: power_add)
    qed
    have e64: "64 - 7 * i = 7 + (64 - 7 * Suc i)" using i(1) by simp
    have lt: "w div 128 < 2 ^ (64 - 7 * Suc i)" using Suc.prems(3) unfolding e64 by (simp add: power_add less_mult_imp_div_less mult.commute)
    have bs: "bs = varint_bytes (w div 128)" "bs \<noteq> []" using b(4) False by blast+
    have "spec32 i (of_nat acc) (varint_bytes w) = spec32 (Suc i) (of_nat acc') bs"
      unfolding b(1) using bs(2) b(2) or i(1) by (simp add: spec32.simps)
    then have "spec32 i (of_nat acc) (varint_bytes w) = spec32 (Suc i) (of_nat acc') (varint_bytes (w div 128))" by (simp only: bs(1))
    also have "\<dots> = (if accepted32 (acc' + 2 ^ (7 * Suc i) * (w div 128)) then Some (of_nat (acc' + 2 ^ (7 * Suc i) * (w div 128))) else None)"
      by (rule Suc.hyps(1) [OF i(2)]) (use i acc' lt in simp_all)
    finally show ?thesis unfolding sum .
  qed
qed

lemma varint32_canonical:
  assumes "buf_stream s" and "visible s = varint_bytes v @ rest" and "v < 2 ^ 64"
  shows "if accepted32 v then pb_decode_varint32_eof s = (Some (of_nat v), False, advance (length (varint_bytes v)) s)
    else \<exists>t. pb_decode_varint32_eof s = (None, False, t)"
proof -
  obtain b bs where b: "varint_bytes v = b # bs" "unat b mod 128 = v mod 128" "v < 128 \<longrightarrow> bs = [] \<and> unat b = v"
    "\<not> v < 128 \<longrightarrow> bs = varint_bytes (v div 128) \<and> bs \<noteq> [] \<and> unat b = 128 + v mod 128"
    using varint_bytes_Cons [of v] by blast
  have byte: "pb_readbyte s = (Some b, advance 1 s)" using assms(1,2) b(1) by (simp add: readbyte_eq)
  show ?thesis
  proof (cases "v < 128")
    case True
    then have "(ucast b :: u32) = of_nat v" using b(3) by (intro unat_eq_of_nat) (simp add: unat_ucast_mod)
    then show ?thesis using True b byte by (simp add: pb_decode_varint32_eof_def accepted32_def byte_and_80)
  next
    case False
    have bs: "bs = varint_bytes (v div 128)" "unat b = 128 + v mod 128" using b(4) False by blast+
    have vis: "visible (advance 1 s) = bs @ rest" using assms(2) b(1) by simp
    have len: "varint_len (bs @ rest) = Some (length bs)" unfolding bs(1) by (rule varint_len_bytes)
    have "length (b # bs) \<le> 10" using length_varint_bytes [of v 10] assms(3) b(1) by simp
    then have "1 + length bs \<le> 36" by simp
    then have loop: "case spec32 1 (of_nat (v mod 128)) (take (length bs) (bs @ rest)) of
        Some r' \<Rightarrow> varint32_loop (of_nat (7 * 1)) (of_nat (v mod 128)) (advance 1 s) = (Some r', advance (length bs) (advance 1 s))
      | None \<Rightarrow> fst (varint32_loop (of_nat (7 * 1)) (of_nat (v mod 128)) (advance 1 s)) = None"
      by (rule varint32_loop_eq [OF len _ buf_stream_advance [OF assms(1)] vis])
    have "spec32 1 (of_nat (v mod 128)) (varint_bytes (v div 128)) =
        (if accepted32 (v mod 128 + 2 ^ (7 * 1) * (v div 128)) then Some (of_nat (v mod 128 + 2 ^ (7 * 1) * (v div 128))) else None)"
      by (rule spec32_lower) (use assms(3) in \<open>simp_all add: less_mult_imp_div_less\<close>)
    then have spec: "spec32 1 (of_nat (v mod 128)) bs = (if accepted32 v then Some (of_nat v) else None)"
      unfolding bs(1) [symmetric] by (simp del: of_nat_add of_nat_mult)
    define M where "M = varint32_loop 7 (of_nat (v mod 128)) (advance 1 s)"
    have run: "pb_decode_varint32_eof s = (fst M, False, snd M)"
      using byte bs(2) b(2) by (simp add: pb_decode_varint32_eof_def byte_and_80 group_of_byte M_def split: prod.split)
    show ?thesis unfolding run using loop spec b(1) by (cases "accepted32 v") (simp_all add: M_def)
  qed
qed

lemma varint32_loop_advance: "buf_stream s \<Longrightarrow> varint32_loop p r s = (Some a, t) \<Longrightarrow> \<exists>k. t = advance k s"
proof (induction p r s rule: varint32_loop.induct)
  case (1 p r s)
  obtain b xs where vis: "visible s = b # xs"
    using "1.prems" by (cases "visible s") (subst (asm) varint32_loop.simps, simp add: readbyte_eq in_error_def)+
  have byte: "pb_readbyte s = (Some b, advance 1 s)" using "1.prems"(1) vis by (simp add: readbyte_eq)
  note run = "1.prems"(2) [unfolded varint32_loop.simps [of p r s] byte option.case prod.case Let_def]
  show ?case
  proof (cases "b AND 0x80 = 0")
    case True
    then show ?thesis using run by (auto simp: in_error_def split: if_splits)
  next
    case False
    define r' where "r' = (if 32 \<le> p then r else r OR push_bit (unat p) (ucast (b AND 0x7F)))"
    have "varint32_loop (p + 7) r' (advance 1 s) = (Some a, t)"
      using run False by (simp add: in_error_def r'_def split: if_splits)
    then have "\<exists>k. t = advance k (advance 1 s)"
      using "1.IH" [OF byte [symmetric] refl refl _ r'_def refl False buf_stream_advance [OF "1.prems"(1)]] run
      by (auto simp: in_error_def r'_def split: if_splits)
    then show ?thesis by auto
  qed
qed

lemma varint32_advance: "buf_stream s \<Longrightarrow> pb_decode_varint32 s = (Some a, t) \<Longrightarrow> \<exists>k. t = advance k s"
proof -
  assume s: "buf_stream s" and run: "pb_decode_varint32 s = (Some a, t)"
  obtain b xs where vis: "visible s = b # xs"
    using s run by (cases "visible s") (simp_all add: pb_decode_varint32_def pb_decode_varint32_eof_def readbyte_eq in_error_def)
  then have byte: "pb_readbyte s = (Some b, advance 1 s)" using s by (simp add: readbyte_eq)
  show ?thesis
  proof (cases "b AND 0x80 = 0")
    case True
    then show ?thesis using run byte by (auto simp: pb_decode_varint32_def pb_decode_varint32_eof_def)
  next
    case False
    then have "varint32_loop 7 (ucast (b AND 0x7F)) (advance 1 s) = (Some a, t)"
      using run byte by (simp add: pb_decode_varint32_def pb_decode_varint32_eof_def split: prod.splits)
    then show ?thesis using varint32_loop_advance [OF buf_stream_advance [OF s, of 1]] by fastforce
  qed
qed

lemma skip_varint_eq: "buf_stream s \<Longrightarrow> varint_len (visible s) = Some k \<Longrightarrow> pb_skip_varint s = (Some (), advance k s)"
proof (induction s arbitrary: k rule: pb_skip_varint.induct)
  case (1 s)
  obtain b xs where vis: "visible s = b # xs" using "1.prems" by (cases "visible s") simp_all
  have rd: "pb_read 1 s = (Some [b], advance 1 s)" using readsD [OF reads_bytes "1.prems"(1), of 1] vis by simp
  show ?case
  proof (cases "unat b < 128")
    case True
    then show ?thesis using rd "1.prems"(2) vis by (subst pb_skip_varint.simps) (simp add: byte_and_80)
  next
    case False
    then obtain j where j: "varint_len xs = Some j" "k = Suc j" using "1.prems"(2) vis by (auto split: if_splits)
    have "pb_skip_varint (advance 1 s) = (Some (), advance j (advance 1 s))"
      by (rule "1.IH" [OF rd [symmetric] refl]) (use False "1.prems"(1) vis j in \<open>simp_all add: byte_and_80\<close>)
    then show ?thesis using rd False j by (subst pb_skip_varint.simps) (simp add: byte_and_80)
  qed
qed

end
