(* ===== verification/Nanopb_Wire.thy ===== *)
theory Nanopb_Wire
  imports Nanopb_Varint
begin

text \<open>
  The values of the wire format of protocol buffers written and read, field by field: what nanopb's primitives
  write is read back by its readers, on any buffer.
\<close>

section \<open>Fixed-width and signed values\<close>

definition fixed32_bytes :: "u32 \<Rightarrow> byte list" where
  "fixed32_bytes val = [ucast (val AND 0xFF), ucast (drop_bit 8 val AND 0xFF), ucast (drop_bit 16 val AND 0xFF), ucast (drop_bit 24 val AND 0xFF)]"

definition fixed64_bytes :: "u64 \<Rightarrow> byte list" where
  "fixed64_bytes val =
     [ucast (val AND 0xFF), ucast (drop_bit 8 val AND 0xFF), ucast (drop_bit 16 val AND 0xFF), ucast (drop_bit 24 val AND 0xFF),
      ucast (drop_bit 32 val AND 0xFF), ucast (drop_bit 40 val AND 0xFF), ucast (drop_bit 48 val AND 0xFF), ucast (drop_bit 56 val AND 0xFF)]"

lemma and_ff: "v AND 0xFF = take_bit 8 (v :: 'a::len word)"
  by (simp add: take_bit_eq_mask mask_eq_exp_minus_1)

lemma minus_less: "0 < b \<Longrightarrow> n - a < b \<longleftrightarrow> n < b + (a :: nat)"
  by linarith

lemma fixed64_value:
  "push_bit 0 (ucast (fixed64_bytes w ! 0)) OR push_bit 8 (ucast (fixed64_bytes w ! 1)) OR push_bit 16 (ucast (fixed64_bytes w ! 2)) OR
   push_bit 24 (ucast (fixed64_bytes w ! 3)) OR push_bit 32 (ucast (fixed64_bytes w ! 4)) OR push_bit 40 (ucast (fixed64_bytes w ! 5)) OR
   push_bit 48 (ucast (fixed64_bytes w ! 6)) OR push_bit 56 (ucast (fixed64_bytes w ! 7)) = w" (is "?v = w")
proof (rule bit_word_eqI)
  fix n
  assume "n < LENGTH(64)"
  then have "n < 64" by simp
  then consider "n < 8" | "8 \<le> n \<and> n < 16" | "16 \<le> n \<and> n < 24" | "24 \<le> n \<and> n < 32" | "32 \<le> n \<and> n < 40" | "40 \<le> n \<and> n < 48" |
    "48 \<le> n \<and> n < 56" | "56 \<le> n \<and> n < 64" by linarith
  then show "bit ?v n = bit w n"
    unfolding fixed64_bytes_def and_ff
    by cases (simp_all add: bit_or_iff bit_push_bit_iff bit_unsigned_iff bit_take_bit_iff bit_drop_bit_eq minus_less)
qed

lemma fixed32_value:
  "push_bit 0 (ucast (fixed32_bytes w ! 0)) OR push_bit 8 (ucast (fixed32_bytes w ! 1)) OR push_bit 16 (ucast (fixed32_bytes w ! 2)) OR
   push_bit 24 (ucast (fixed32_bytes w ! 3)) = w" (is "?v = w")
proof (rule bit_word_eqI)
  fix n
  assume "n < LENGTH(32)"
  then have "n < 32" by simp
  then consider "n < 8" | "8 \<le> n \<and> n < 16" | "16 \<le> n \<and> n < 24" | "24 \<le> n \<and> n < 32" by linarith
  then show "bit ?v n = bit w n"
    unfolding fixed32_bytes_def and_ff
    by cases (simp_all add: bit_or_iff bit_push_bit_iff bit_unsigned_iff bit_take_bit_iff bit_drop_bit_eq minus_less)
qed

lemma zigzag:
  "(let z = (if sint v < 0 then NOT (push_bit 1 v) else push_bit 1 v) in if z AND 1 \<noteq> 0 then NOT (drop_bit 1 z) else drop_bit 1 z) = (v :: u64)"
proof -
  have neg: "sint v < 0 \<longleftrightarrow> bit v 63" by (simp add: bit_last_iff [of v, simplified])
  have odd: "z AND 1 \<noteq> 0 \<longleftrightarrow> bit z 0" for z :: u64 by (simp add: and_one_eq odd_iff_mod_2_eq_one bit_0)
  define k :: nat where "k = 1"
  have k: "k + n < 64 \<longleftrightarrow> n < 63" "n + k < 64 \<longleftrightarrow> n < 63" for n by (auto simp: k_def)
  have k0: "0 < k" by (simp add: k_def)
  have "NOT (drop_bit k (NOT (push_bit k v))) = v" if "bit v 63"
  proof (rule bit_word_eqI)
    fix n
    assume "n < LENGTH(64)"
    then have "n < 63 \<or> n = 63" by auto
    then show "bit (NOT (drop_bit k (NOT (push_bit k v)))) n = bit v n"
      using that by (auto simp: bit_not_iff bit_drop_bit_eq bit_push_bit_iff k)
  qed
  moreover have "drop_bit k (push_bit k v) = v" if "\<not> bit v 63"
  proof (rule bit_word_eqI)
    fix n
    assume "n < LENGTH(64)"
    then have "n < 63 \<or> n = 63" by auto
    then show "bit (drop_bit k (push_bit k v)) n = bit v n"
      using that by (auto simp: bit_drop_bit_eq bit_push_bit_iff k)
  qed
  moreover have "bit (NOT (push_bit k v)) 0" "\<not> bit (push_bit k v) 0" using k0 by (simp_all add: bit_not_iff bit_push_bit_iff)
  ultimately show ?thesis unfolding neg odd k_def [symmetric] by (simp add: Let_def)
qed


section \<open>Messages\<close>

text \<open>
  A client of the primitives: the fields of a message are written one after the other, each as its tag and
  its value, and read back by the wire type in the tag. \<open>fuel\<close> bounds the number of fields read.
\<close>

datatype wire_value = Varint u64 | Signed u64 | Fixed64 u64 | Fixed32 u32 | String "byte list"

fun write_field :: "u32 \<times> wire_value \<Rightarrow> ('s pb_ostream, unit) op" where
  "write_field (tag, Varint v) = op_bind (pb_encode_tag PB_WT_VARINT tag) (\<lambda>_. pb_encode_varint v)"
| "write_field (tag, Signed v) = op_bind (pb_encode_tag PB_WT_VARINT tag) (\<lambda>_. pb_encode_svarint v)"
| "write_field (tag, Fixed64 v) = op_bind (pb_encode_tag PB_WT_64BIT tag) (\<lambda>_. pb_encode_fixed64 v)"
| "write_field (tag, Fixed32 v) = op_bind (pb_encode_tag PB_WT_32BIT tag) (\<lambda>_. pb_encode_fixed32 v)"
| "write_field (tag, String bs) = op_bind (pb_encode_tag PB_WT_STRING tag) (\<lambda>_. pb_encode_string bs (of_nat (length bs)))"

primrec write_message :: "(u32 \<times> wire_value) list \<Rightarrow> ('s pb_ostream, unit) op" where
  "write_message [] = op_return ()"
| "write_message (f # fs) = op_bind (write_field f) (\<lambda>_. write_message fs)"

definition read_string :: "('s pb_istream, byte list) op" where
  "read_string = op_bind pb_make_string_substream (\<lambda>sub.
     case pb_read (bytes_left sub) sub of (None, _) \<Rightarrow> op_fail
     | (Some bs, sub) \<Rightarrow> op_map (\<lambda>_. bs) (pb_close_string_substream sub))"

text \<open>A reader knows from its schema which varints are signed.\<close>

definition read_value :: "(u32 \<Rightarrow> bool) \<Rightarrow> u32 \<Rightarrow> pb_wire_type \<Rightarrow> ('s pb_istream, wire_value) op" where
  "read_value sgn_of tag wire_type =
     (if wire_type = PB_WT_VARINT then if sgn_of tag then op_map Signed pb_decode_svarint else op_map Varint pb_decode_varint
      else if wire_type = PB_WT_64BIT then op_map Fixed64 pb_decode_fixed64
      else if wire_type = PB_WT_STRING then op_map String read_string
      else if wire_type = PB_WT_32BIT then op_map Fixed32 pb_decode_fixed32
      else op_fail)"

primrec read_message :: "(u32 \<Rightarrow> bool) \<Rightarrow> nat \<Rightarrow> 's pb_istream \<Rightarrow> (u32 \<times> wire_value) list option" where
  "read_message sgn_of 0 s = None"
| "read_message sgn_of (Suc fuel) s =
     (case pb_decode_tag s of (None, eof, s) \<Rightarrow> if eof then Some [] else None
      | (Some (wire_type, tag), _, s) \<Rightarrow>
          (case read_value sgn_of tag wire_type s of (None, _) \<Rightarrow> None
           | (Some v, s) \<Rightarrow> map_option ((#) (tag, v)) (read_message sgn_of fuel s)))"

fun wire_type_of :: "wire_value \<Rightarrow> pb_wire_type" where
  "wire_type_of (Varint v) = PB_WT_VARINT"
| "wire_type_of (Signed v) = PB_WT_VARINT"
| "wire_type_of (Fixed64 v) = PB_WT_64BIT"
| "wire_type_of (Fixed32 v) = PB_WT_32BIT"
| "wire_type_of (String bs) = PB_WT_STRING"

fun value_bytes :: "wire_value \<Rightarrow> byte list" where
  "value_bytes (Varint v) = varint_bytes (unat v)"
| "value_bytes (Signed v) = varint_bytes (unat (if sint v < 0 then NOT (push_bit 1 v) else push_bit 1 v))"
| "value_bytes (Fixed64 v) = fixed64_bytes v"
| "value_bytes (Fixed32 v) = fixed32_bytes v"
| "value_bytes (String bs) = varint_bytes (length bs) @ bs"

definition tag_bytes :: "pb_wire_type \<Rightarrow> u32 \<Rightarrow> byte list" where
  "tag_bytes wire_type tag = varint_bytes (unat tag * 8 + unat wire_type)"

primrec message_bytes :: "(u32 \<times> wire_value) list \<Rightarrow> byte list" where
  "message_bytes [] = []"
| "message_bytes (f # fs) = tag_bytes (wire_type_of (snd f)) (fst f) @ value_bytes (snd f) @ message_bytes fs"

text \<open>Field numbers have 29 bits, and strings are shorter than 4 GiB.\<close>

fun field_ok :: "(u32 \<Rightarrow> bool) \<Rightarrow> u32 \<times> wire_value \<Rightarrow> bool" where
  "field_ok sgn_of (tag, v) \<longleftrightarrow> 0 < unat tag \<and> unat tag < 2 ^ 29 \<and>
     (case v of Varint _ \<Rightarrow> \<not> sgn_of tag | Signed _ \<Rightarrow> sgn_of tag | String bs \<Rightarrow> length bs < 2 ^ 32 | _ \<Rightarrow> True)"

lemma unat_tag: "unat (wire_type :: u32) < 8 \<Longrightarrow> unat (push_bit 3 (ucast (tag :: u32)) OR ucast wire_type :: u64) = unat tag * 8 + unat wire_type"
proof -
  assume w: "unat wire_type < 8"
  have t: "unat (ucast tag :: u64) = unat tag" "unat (ucast wire_type :: u64) = unat wire_type" by (simp_all add: unat_ucast_up)
  have "unat tag < 2 ^ 32" using word_unat_lt [of tag] by simp
  then have "unat tag * 8 + unat wire_type < 2 ^ LENGTH(64)" using w by simp
  then show ?thesis using unat_push_bit_or [of "ucast wire_type :: u64" 3 "ucast tag"] w t by simp
qed

lemma wire_types: "unat (wire_type_of v) < 8"
  by (cases v) (simp_all add: PB_WT_VARINT_def PB_WT_64BIT_def PB_WT_STRING_def PB_WT_32BIT_def)

context sink
begin

lemma tag_emits: "unat wire_type < 8 \<Longrightarrow> emits cb put (prog_call (pb_encode_tag wire_type tag)) (tag_bytes wire_type tag)"
  unfolding pb_encode_tag_def tag_bytes_def using varint_emits [of "push_bit 3 (ucast tag) OR ucast wire_type"] by (simp add: unat_tag)

lemma svarint_emits: "emits cb put (prog_call (pb_encode_svarint v)) (value_bytes (Signed v))"
  unfolding pb_encode_svarint_def Let_def value_bytes.simps by (rule varint_emits)

lemma fixed32_emits: "emits cb put (prog_call (pb_encode_fixed32 v)) (fixed32_bytes v)"
  unfolding pb_encode_fixed32_def fixed32_bytes_def by (rule write_emits) simp_all

lemma fixed64_emits: "emits cb put (prog_call (pb_encode_fixed64 v)) (fixed64_bytes v)"
  unfolding pb_encode_fixed64_def fixed64_bytes_def by (rule write_emits) simp_all

lemma string_emits:
  assumes "length bs < 2 ^ 64"
  shows "emits cb put (prog_call (pb_encode_string bs (of_nat (length bs)))) (varint_bytes (length bs) @ bs)"
proof -
  have "unat (of_nat (length bs) :: u64) = length bs" using assms by (intro unat_of_nat_small) simp
  then have "emits cb put (prog_call (pb_encode_varint (of_nat (length bs)))) (varint_bytes (length bs))"
    using varint_emits [of "of_nat (length bs)"] by simp
  then show ?thesis unfolding pb_encode_string_def call_bind by (rule emits_bind) (rule write_emits [OF assms refl])
qed

lemma field_emits: "field_ok sgn_of f \<Longrightarrow> emits cb put (prog_call (write_field f)) (tag_bytes (wire_type_of (snd f)) (fst f) @ value_bytes (snd f))"
proof -
  assume ok: "field_ok sgn_of f"
  obtain tag v where f: "f = (tag, v)" by fastforce
  note tag = tag_emits [OF wire_types [of v], of tag]
  show ?thesis
  proof (cases v)
    case (Varint w)
    then show ?thesis unfolding f using emits_bind [OF tag varint_emits] by (simp add: call_bind)
  next
    case (Signed w)
    have "emits cb put (prog_bind (prog_call (pb_encode_tag PB_WT_VARINT tag)) (\<lambda>_. prog_call (pb_encode_svarint w)))
        (tag_bytes PB_WT_VARINT tag @ value_bytes (Signed w))"
      by (rule emits_bind [OF _ svarint_emits]) (use tag Signed in simp)
    then show ?thesis using Signed unfolding f by (simp add: call_bind del: value_bytes.simps)
  next
    case (Fixed64 w)
    then show ?thesis unfolding f using emits_bind [OF tag fixed64_emits] by (simp add: call_bind)
  next
    case (Fixed32 w)
    then show ?thesis unfolding f using emits_bind [OF tag fixed32_emits] by (simp add: call_bind)
  next
    case (String bs)
    then have "length bs < 2 ^ 64" using ok f by simp
    then have "emits cb put (prog_bind (prog_call (pb_encode_tag PB_WT_STRING tag)) (\<lambda>_. prog_call (pb_encode_string bs (of_nat (length bs)))))
        (tag_bytes PB_WT_STRING tag @ varint_bytes (length bs) @ bs)"
      by (intro emits_bind string_emits) (use tag String in simp_all)
    then show ?thesis using String unfolding f by (simp add: call_bind)
  qed
qed

lemma message_emits: "\<forall>f\<in>set fs. field_ok sgn_of f \<Longrightarrow> emits cb put (prog_call (write_message fs)) (message_bytes fs)"
proof (induction fs)
  case Nil
  have "pb_write [] 0 = (op_return () :: ('s pb_ostream, unit) op)"
    by (rule ext) (simp add: pb_write_def Let_def split: option.split)
  moreover have "emits cb put (prog_call (pb_write [] 0)) []" by (rule write_emits) simp_all
  ultimately show ?case by (simp only: write_message.simps message_bytes.simps)
next
  case (Cons f fs)
  then have "emits cb put (prog_call (write_field f)) (tag_bytes (wire_type_of (snd f)) (fst f) @ value_bytes (snd f))"
    using field_emits [of sgn_of f] by simp
  then have "emits cb put (prog_bind (prog_call (write_field f)) (\<lambda>_. prog_call (write_message fs)))
      ((tag_bytes (wire_type_of (snd f)) (fst f) @ value_bytes (snd f)) @ message_bytes fs)"
    by (rule emits_bind) (use Cons in simp)
  then show ?case by (simp add: call_bind)
qed

end

lemma tag_reads:
  assumes "buf_stream s" and "visible s = tag_bytes wire_type tag @ rest" and "unat wire_type < 8" and "0 < unat tag" and "unat tag < 2 ^ 29"
  shows "pb_decode_tag s = (Some (wire_type, tag), False, advance (length (tag_bytes wire_type tag)) s)"
proof -
  define v where "v = unat tag * 8 + unat wire_type"
  have v: "v < 2 ^ 32" "v \<noteq> 0" using assms(3-5) by (simp_all add: v_def)
  have dec: "pb_decode_varint32_eof s = (Some (of_nat v), False, advance (length (varint_bytes v)) s)"
    using varint32_canonical [of s v rest] assms(1,2) v by (simp add: tag_bytes_def v_def accepted32_def)
  have un: "unat (of_nat v :: u32) = v" using v(1) by (intro unat_of_nat_small) simp
  have "(of_nat v :: u32) \<noteq> 0" using un v(2) by auto
  moreover have "(of_nat v :: u32) AND 7 = wire_type"
    using unat_and_mask [of "of_nat v :: u32" 3] un assms(3) by (simp add: word_unat_eq_iff mask_eq_exp_minus_1 v_def del: of_nat_add of_nat_mult)
  moreover have "drop_bit 3 (of_nat v :: u32) = tag"
    using unat_drop_bit [of 3 "of_nat v :: u32"] un assms(3) by (simp add: word_unat_eq_iff v_def del: of_nat_add of_nat_mult)
  ultimately show ?thesis unfolding pb_decode_tag_def dec by (simp add: tag_bytes_def v_def)
qed

lemma tag_eof: "buf_stream s \<Longrightarrow> visible s = [] \<Longrightarrow> \<exists>t. pb_decode_tag s = (None, True, t)"
proof -
  assume s: "buf_stream s" "visible s = []"
  then have "bytes_left s = 0" using length_visible [of s] by simp
  then show ?thesis using s by (simp add: pb_decode_tag_def pb_decode_varint32_eof_def readbyte_eq in_error_def)
qed

lemma varint_read_word:
  assumes "buf_stream s" and "visible s = varint_bytes (unat (v :: u64)) @ rest"
  shows "pb_decode_varint s = (Some v, advance (length (varint_bytes (unat v))) s)"
  by (rule readsD [OF varint_reads assms(1)])
    (use assms(2) length_varint_word [of v] in \<open>simp add: varint_len_bytes varint_val_bytes\<close>)

lemma svarint_read:
  assumes "buf_stream s" and "visible s = value_bytes (Signed v) @ rest"
  shows "pb_decode_svarint s = (Some v, advance (length (value_bytes (Signed v))) s)"
proof -
  define z where "z = (if sint v < 0 then NOT (push_bit 1 v) else push_bit 1 v)"
  have "pb_decode_varint s = (Some z, advance (length (varint_bytes (unat z))) s)"
    by (rule varint_read_word [OF assms(1)]) (use assms(2) in \<open>simp only: value_bytes.simps z_def\<close>)
  moreover have "(if z AND 1 \<noteq> 0 then NOT (drop_bit 1 z) else drop_bit 1 z) = v"
    using zigzag [of v] unfolding z_def Let_def .
  ultimately show ?thesis unfolding pb_decode_svarint_def op_map_def value_bytes.simps z_def [symmetric] by (simp del: drop_bit_Suc)
qed

lemma fixed32_read:
  assumes "buf_stream s" and "visible s = fixed32_bytes v @ rest"
  shows "pb_decode_fixed32 s = (Some v, advance (length (fixed32_bytes v)) s)"
proof -
  have "pb_read 4 s = (Some (fixed32_bytes v), advance 4 s)"
    by (rule readsD [OF reads_bytes assms(1)]) (use assms(2) in \<open>simp add: fixed32_bytes_def\<close>)
  moreover have "length (fixed32_bytes v) = 4" by (simp add: fixed32_bytes_def)
  ultimately show ?thesis unfolding pb_decode_fixed32_def op_map_def by (simp only: op_bind_Some op_return_apply fixed32_value)
qed

lemma fixed64_read:
  assumes "buf_stream s" and "visible s = fixed64_bytes v @ rest"
  shows "pb_decode_fixed64 s = (Some v, advance (length (fixed64_bytes v)) s)"
proof -
  have "pb_read 8 s = (Some (fixed64_bytes v), advance 8 s)"
    by (rule readsD [OF reads_bytes assms(1)]) (use assms(2) in \<open>simp add: fixed64_bytes_def\<close>)
  moreover have "length (fixed64_bytes v) = 8" by (simp add: fixed64_bytes_def)
  ultimately show ?thesis unfolding pb_decode_fixed64_def op_map_def by (simp only: op_bind_Some op_return_apply fixed64_value)
qed

text \<open>A substream covers the next bytes of the stream; reading it to its end and closing it steps over them.\<close>

lemma read_string_eq:
  assumes "buf_stream t" and "pb_decode_varint32 s = (Some n, t)"
  shows "read_string s = (if unat n \<le> length (visible t) then (Some (take (unat n) (visible t)), advance (unat n) t)
    else (None, snd (in_error ''parent stream too short'' t :: unit option \<times> byte list pb_istream)))"
proof (cases "unat n \<le> length (visible t)")
  case True
  define sub where "sub = t\<lparr>bytes_left := unat n\<rparr>"
  define u where "u = t\<lparr>bytes_left := bytes_left t - unat n\<rparr>"
  have n: "unat n \<le> bytes_left t" using True length_visible [OF assms(1)] by simp
  have make: "pb_make_string_substream s = (Some sub, u)"
    using assms(2) n by (simp add: pb_make_string_substream_def sub_def u_def)
  have sub: "buf_stream sub" "visible sub = take (unat n) (visible t)" "bytes_left sub = unat n"
    using assms(1) n by (simp_all add: buf_stream_def sub_def visible_def min_def)
  have rd: "pb_read (unat n) sub = (Some (take (unat n) (visible t)), advance (unat n) sub)"
    by (rule readsD [OF reads_bytes sub(1)]) (use True sub(2) in simp)
  have close: "pb_close_string_substream (advance (unat n) sub) u = (Some (), advance (unat n) t)"
    by (simp add: pb_close_string_substream_def advance_def sub_def u_def)
  show ?thesis unfolding read_string_def op_map_def using make sub(3) rd close True by simp
next
  case False
  then have "\<not> unat n \<le> bytes_left t" using length_visible [OF assms(1)] by simp
  then have "pb_make_string_substream s = (None, snd (in_error ''parent stream too short'' t :: unit option \<times> byte list pb_istream))"
    using assms(2) by (simp add: pb_make_string_substream_def in_error_def)
  then show ?thesis unfolding read_string_def using False by simp
qed

lemma varint32_word:
  assumes "buf_stream s" and "visible s = varint_bytes n @ rest" and "n < 2 ^ 32"
  shows "pb_decode_varint32 s = (Some (of_nat n), advance (length (varint_bytes n)) s)"
  using varint32_canonical [of s n rest] assms by (simp add: pb_decode_varint32_def accepted32_def)

lemma value_read:
  assumes "buf_stream s" and "visible s = value_bytes v @ rest" and "field_ok sgn_of (tag, v)"
  shows "read_value sgn_of tag (wire_type_of v) s = (Some v, advance (length (value_bytes v)) s)"
proof (cases v)
  case (Varint w)
  then show ?thesis using varint_read_word [OF assms(1), of w rest] assms(2,3) by (simp add: read_value_def op_map_def)
next
  case (Signed w)
  then show ?thesis using svarint_read [OF assms(1), of w rest] assms(2,3) by (simp add: read_value_def op_map_def del: value_bytes.simps)
next
  case (Fixed64 w)
  then show ?thesis using fixed64_read [OF assms(1), of w rest] assms(2)
    by (simp add: read_value_def op_map_def PB_WT_VARINT_def PB_WT_64BIT_def)
next
  case (Fixed32 w)
  then show ?thesis using fixed32_read [OF assms(1), of w rest] assms(2)
    by (simp add: read_value_def op_map_def PB_WT_VARINT_def PB_WT_64BIT_def PB_WT_STRING_def PB_WT_32BIT_def)
next
  case (String bs)
  have len: "length bs < 2 ^ 32" using assms(3) String by simp
  have "pb_decode_varint32 s = (Some (of_nat (length bs)), advance (length (varint_bytes (length bs))) s)"
    by (rule varint32_word [OF assms(1)]) (use assms(2) String len in simp_all)
  moreover have "unat (of_nat (length bs) :: u32) = length bs" using len by (intro unat_of_nat_small) simp
  ultimately have "read_string s = (Some bs, advance (length (value_bytes v)) s)"
    using read_string_eq [of "advance (length (varint_bytes (length bs))) s" s "of_nat (length bs)"] assms(1,2) String by simp
  then show ?thesis using String by (simp add: read_value_def op_map_def PB_WT_VARINT_def PB_WT_64BIT_def PB_WT_STRING_def)
qed

lemma message_read:
  "buf_stream s \<Longrightarrow> visible s = message_bytes fs \<Longrightarrow> \<forall>f\<in>set fs. field_ok sgn_of f \<Longrightarrow> length fs < fuel \<Longrightarrow> read_message sgn_of fuel s = Some fs"
proof (induction fs arbitrary: s fuel)
  case Nil
  then obtain n where "fuel = Suc n" by (cases fuel) simp_all
  then show ?case using tag_eof [of s] Nil by auto
next
  case (Cons f fs)
  obtain tag v where f: "f = (tag, v)" by fastforce
  obtain n where fuel: "fuel = Suc n" using Cons.prems(4) by (cases fuel) simp_all
  have ok: "field_ok sgn_of (tag, v)" using Cons.prems(3) f by simp
  have vis: "visible s = tag_bytes (wire_type_of v) tag @ value_bytes v @ message_bytes fs" using Cons.prems(2) f by simp
  have "0 < unat tag" "unat tag < 2 ^ 29" using ok by simp_all
  then have tag: "pb_decode_tag s = (Some (wire_type_of v, tag), False, advance (length (tag_bytes (wire_type_of v) tag)) s)"
    by (rule tag_reads [OF Cons.prems(1) vis wire_types])
  define t where "t = advance (length (tag_bytes (wire_type_of v) tag)) s"
  have t: "buf_stream t" "visible t = value_bytes v @ message_bytes fs" using Cons.prems(1) vis by (simp_all add: t_def)
  have val: "read_value sgn_of tag (wire_type_of v) t = (Some v, advance (length (value_bytes v)) t)"
    by (rule value_read [OF t ok])
  have "read_message sgn_of n (advance (length (value_bytes v)) t) = Some fs"
    by (rule Cons.IH) (use t Cons.prems fuel in simp_all)
  then show ?case using tag val f fuel by (simp add: t_def)
qed

section \<open>Properties\<close>

text \<open>C36. A message written field by field is read back field by field, tags, wire types and values the same,
  with nothing left over. The buffer holds exactly its encoding if there is room, and else writing fails.\<close>

theorem wire_roundtrip:
  assumes "\<forall>f\<in>set fs. field_ok sgn_of f" and "length (message_bytes fs) < 2 ^ 64"
  shows "if length (message_bytes fs) \<le> unat n
    then \<exists>t. write_message fs (pb_ostream_from_buffer buf n) = (Some (), t) \<and> out_state t = (message_bytes fs, drop (length (message_bytes fs)) buf) \<and>
      bytes_written t = of_nat (length (message_bytes fs)) \<and>
      read_message sgn_of (Suc (length fs)) (pb_istream_from_buffer (message_bytes fs) (length (message_bytes fs))) = Some fs
    else fst (write_message fs (pb_ostream_from_buffer buf n)) = None"
proof -
  define s where "s = pb_ostream_from_buffer buf n"
  have s: "out_callback s = Some buf_write" "bytes_written s = 0" "max_size s = n" "out_state s = ([], buf)" "out_errmsg s = None"
    by (simp_all add: s_def pb_ostream_from_buffer_def)
  have "emits buf_write buf_put (prog_call (write_message fs)) (message_bytes fs)"
    by (rule buffer_sink.message_emits [OF assms(1)])
  then have lands: "lands buf_put (prog_call (write_message fs)) s (message_bytes fs)"
    by (rule emits_lands) (use s assms(2) in simp_all)
  have "read_message sgn_of (Suc (length fs)) (pb_istream_from_buffer (message_bytes fs) (length (message_bytes fs))) = Some fs"
    by (rule message_read) (use assms(1) in \<open>simp_all add: buf_stream_from_buffer visible_from_buffer\<close>)
  then show ?thesis using lands unfolding lands_def s_def [symmetric]
    by (auto simp: s prog_call_def buf_put_def split: if_splits)
qed

lemma wire_roundtrip_witness:
  "\<exists>t. write_message [(1, Varint 300), (2, String [0x61])] (pb_ostream_from_buffer (replicate 10 0) 10) = (Some (), t) \<and>
    read_message (\<lambda>_. False) 3 (pb_istream_from_buffer [0x08, 0xAC, 0x02, 0x12, 0x01, 0x61] 6) = Some [(1, Varint 300), (2, String [0x61])]"
proof -
  have bytes: "message_bytes [(1, Varint 300), (2, String [0x61])] = [0x08, 0xAC, 0x02, 0x12, 0x01, 0x61]"
    by (simp add: tag_bytes_def varint_bytes.simps PB_WT_VARINT_def PB_WT_STRING_def)
  define fs where "fs = [(1 :: u32, Varint 300), (2, String [0x61])]"
  have ok: "\<forall>f\<in>set fs. field_ok (\<lambda>_. False) f" by (simp add: fs_def)
  have len: "length fs = 2" by (simp add: fs_def)
  define bs where "bs = message_bytes fs"
  have eq: "bs = [0x08, 0xAC, 0x02, 0x12, 0x01, 0x61]" unfolding bs_def fs_def by (rule bytes)
  then have bs: "bs = [0x08, 0xAC, 0x02, 0x12, 0x01, 0x61]" "length bs = 6" by simp_all
  have "\<exists>t. write_message fs (pb_ostream_from_buffer (replicate 10 0) 10) = (Some (), t) \<and> read_message (\<lambda>_. False) 3 (pb_istream_from_buffer bs 6) = Some fs"
    using wire_roundtrip [OF ok, of 10 "replicate 10 0", folded bs_def] bs(2) len by (auto simp: numeral_3_eq_3 simp del: read_message.simps)
  then show ?thesis unfolding bs(1) fs_def .
qed

text \<open>\<open>pb_decode_varint\<close> accepts exactly one to ten bytes of which only the last is below 128, and returns the
  groups' value modulo 2 ^ 64, stepping over them.\<close>

theorem varint_reader_exact:
  assumes "buf_stream s"
  shows "pb_decode_varint s = (Some v, t) \<longleftrightarrow>
    (\<exists>k\<le>10. varint_len (visible s) = Some k \<and> v = of_nat (varint_val (take k (visible s))) \<and> t = advance k s)"
  using readsC [OF varint_reads assms] by (auto split: option.splits if_splits)

lemma varint_reader_exact_witness:
  "fst (pb_decode_varint (pb_istream_from_buffer [0xAC, 0x02, 0xFF] 3)) = Some 300"
proof -
  define s where "s = pb_istream_from_buffer [0xAC, 0x02, 0xFF] 3"
  have s: "buf_stream s" "visible s = [0xAC, 0x02, 0xFF]"
    by (simp_all add: s_def buf_stream_from_buffer visible_from_buffer)
  have "pb_decode_varint s = (Some 300, advance 2 s)"
    unfolding varint_reader_exact [OF s(1)] s(2) by (intro exI [of _ 2]) simp
  then show ?thesis by (simp add: s_def)
qed

text \<open>Of the shortest encodings of 64-bit values the 32-bit reader accepts those of the values below 2 ^ 32, and
  those of a set of values above 2 ^ 63 that holds all the sign-extended negative 32-bit integers; it returns the low 32 bits.\<close>

theorem varint32_exact:
  assumes "buf_stream s" and "visible s = varint_bytes v @ rest" and "v < 2 ^ 64"
  shows "(pb_decode_varint32 s = (Some x, t) \<longleftrightarrow> accepted32 v \<and> x = of_nat v \<and> t = advance (length (varint_bytes v)) s) \<and>
    (2 ^ 64 - 2 ^ 31 \<le> v \<longrightarrow> accepted32 v)"
proof
  show "pb_decode_varint32 s = (Some x, t) \<longleftrightarrow> accepted32 v \<and> x = of_nat v \<and> t = advance (length (varint_bytes v)) s"
    using varint32_canonical [OF assms] by (auto simp: pb_decode_varint32_def split: if_splits)
  show "2 ^ 64 - 2 ^ 31 \<le> v \<longrightarrow> accepted32 v"
  proof
    assume v: "2 ^ 64 - 2 ^ 31 \<le> v"
    have ones: "v div 2 ^ k = 2 ^ (64 - k) - 1" if "31 \<le> k" "k \<le> 64" for k
    proof (rule div_nat_eqI)
      have p: "(2 :: nat) ^ k * 2 ^ (64 - k) = 2 ^ 64" using that(2) by (simp flip: power_add)
      have "(2 :: nat) ^ 31 \<le> 2 ^ k" using that(1) by (intro power_increasing) simp_all
      then show "2 ^ k * (2 ^ (64 - k) - 1) \<le> v" using v p by (simp add: diff_mult_distrib2)
      show "v < 2 ^ k * Suc (2 ^ (64 - k) - 1)" using p assms(3) by simp
    qed
    have "odd (v div 2 ^ 31)" using ones [of 31] by simp
    moreover have "v div 2 ^ (35 + 7 * j) mod 128 = 127" if "j < 4" for j
    proof -
      have "j = 0 \<or> j = 1 \<or> j = 2 \<or> j = 3" using that by linarith
      then show ?thesis using ones [of "35 + 7 * j"] by (elim disjE) simp_all
    qed
    ultimately show "accepted32 v" using v by (simp add: accepted32_def)
  qed
qed


lemma varint32_exact_witness:
  "fst (pb_decode_varint32 (pb_istream_from_buffer (varint_bytes (2 ^ 64 - 1)) (length (varint_bytes (2 ^ 64 - 1))))) = Some 0xFFFFFFFF"
proof -
  define s where "s = pb_istream_from_buffer (varint_bytes (2 ^ 64 - 1)) (length (varint_bytes (2 ^ 64 - 1)))"
  have s: "buf_stream s" "visible s = varint_bytes (2 ^ 64 - 1) @ []"
    by (simp_all add: s_def buf_stream_from_buffer visible_from_buffer)
  have "pb_decode_varint32 s = (Some (of_nat (2 ^ 64 - 1)), advance (length (varint_bytes (2 ^ 64 - 1))) s)"
    using varint32_exact [OF s, of "of_nat (2 ^ 64 - 1)" "advance (length (varint_bytes (2 ^ 64 - 1))) s"] by simp
  moreover have "(of_nat (2 ^ 64 - 1) :: u32) = 0xFFFFFFFF" by (simp add: word_eq_iff_unsigned)
  ultimately show ?thesis by (simp add: s_def)
qed

text \<open>The 32-bit reader misses overflows: it reads 2 ^ 32 written in six bytes as 0, 2 ^ 63 + 2 ^ 31 as 2 ^ 31, and,
  since its bit position wraps at 256, the value 1 padded to 38 bytes with a last byte of 1 as 9.\<close>

theorem varint32_misses_overflow:
  "fst (pb_decode_varint32 (pb_istream_from_buffer [0x80, 0x80, 0x80, 0x80, 0x90, 0x00] 6)) = Some 0 \<and>
   fst (pb_decode_varint (pb_istream_from_buffer [0x80, 0x80, 0x80, 0x80, 0x90, 0x00] 6)) = Some (2 ^ 32) \<and>
   fst (pb_decode_varint32 (pb_istream_from_buffer [0x80, 0x80, 0x80, 0x80, 0x88, 0x80, 0x80, 0x80, 0x80, 0x01] 10)) = Some (2 ^ 31) \<and>
   fst (pb_decode_varint (pb_istream_from_buffer [0x80, 0x80, 0x80, 0x80, 0x88, 0x80, 0x80, 0x80, 0x80, 0x01] 10)) = Some (2 ^ 63 + 2 ^ 31) \<and>
   fst (pb_decode_varint32 (pb_istream_from_buffer (0x81 # replicate 36 0x80 @ [0x01]) 38)) = Some 9"
  by code_simp

text \<open>C38. On any buffer, skipping a field leaves the stream as reading it does.\<close>

theorem skip_field_agrees:
  assumes "buf_stream s" and "read_value sgn_of tag wire_type s = (Some v, t)"
  shows "pb_skip_field wire_type s = (Some (), t)"
proof -
  consider "wire_type = PB_WT_VARINT" | "wire_type = PB_WT_64BIT" | "wire_type = PB_WT_STRING" | "wire_type = PB_WT_32BIT"
    using assms(2) by (auto simp: read_value_def split: if_splits)
  then show ?thesis
  proof cases
    case 1
    then obtain w where "pb_decode_varint s = (Some w, t)"
      using assms(2) by (auto simp: read_value_def op_map_eq_Some pb_decode_svarint_def split: if_splits)
    then obtain k where "varint_len (visible s) = Some k" "t = advance k s"
      using readsC [OF varint_reads assms(1)] by (auto split: option.splits if_splits)
    then show ?thesis using skip_varint_eq [OF assms(1)] 1 by (simp add: pb_skip_field_def)
  next
    case 2
    then obtain w where "pb_read 8 s = (Some w, t)"
      using assms(2) by (auto simp: read_value_def op_map_eq_Some pb_decode_fixed64_def PB_WT_VARINT_def PB_WT_64BIT_def)
    then have "8 \<le> length (visible s)" "t = advance 8 s" using readsC [OF reads_bytes assms(1), of 8] by (auto split: if_splits)
    then show ?thesis using readsD [OF reads_null assms(1), of 8] 2 by (simp add: pb_skip_field_def PB_WT_VARINT_def PB_WT_64BIT_def)
  next
    case 4
    then obtain w where "pb_read 4 s = (Some w, t)"
      using assms(2) by (auto simp: read_value_def op_map_eq_Some pb_decode_fixed32_def PB_WT_VARINT_def PB_WT_64BIT_def PB_WT_STRING_def PB_WT_32BIT_def)
    then have "4 \<le> length (visible s)" "t = advance 4 s" using readsC [OF reads_bytes assms(1), of 4] by (auto split: if_splits)
    then show ?thesis using readsD [OF reads_null assms(1), of 4] 4
      by (simp add: pb_skip_field_def PB_WT_VARINT_def PB_WT_64BIT_def PB_WT_STRING_def PB_WT_32BIT_def)
  next
    case 3
    then obtain bs where rs: "read_string s = (Some bs, t)"
      using assms(2) by (auto simp: read_value_def op_map_eq_Some PB_WT_VARINT_def PB_WT_64BIT_def PB_WT_STRING_def)
    then obtain n u where n: "pb_decode_varint32 s = (Some n, u)"
      by (cases "pb_decode_varint32 s"; cases "fst (pb_decode_varint32 s)")
        (auto simp: read_string_def pb_make_string_substream_def)
    then obtain k where "u = advance k s" using varint32_advance [OF assms(1)] by blast
    then have u: "buf_stream u" using assms(1) by simp
    have "unat n \<le> length (visible u)" "t = advance (unat n) u"
      using rs read_string_eq [OF u n] by (simp_all split: if_splits)
    then show ?thesis using readsD [OF reads_null u, of "unat n"] n 3
      by (simp add: pb_skip_field_def pb_skip_string_def PB_WT_VARINT_def PB_WT_64BIT_def PB_WT_STRING_def)
  qed
qed

lemma skip_field_agrees_witness:
  "fst (pb_skip_field PB_WT_STRING (pb_istream_from_buffer [0x02, 0x61, 0x62] 3)) = Some ()"
proof -
  define s where "s = pb_istream_from_buffer [0x02, 0x61, 0x62] 3"
  have s: "buf_stream s" "visible s = value_bytes (String [0x61, 0x62]) @ []"
    by (simp_all add: s_def buf_stream_from_buffer visible_from_buffer varint_bytes.simps)
  have "read_value (\<lambda>_. False) 1 PB_WT_STRING s = (Some (String [0x61, 0x62]), advance (length (value_bytes (String [0x61, 0x62]))) s)"
    using value_read [OF s, of "\<lambda>_. False" 1] by simp
  from skip_field_agrees [OF s(1) this] show ?thesis by (simp add: s_def)
qed

end
