(* ===== verification/Nanopb_Encode.thy ===== *)
theory Nanopb_Encode
  imports Nanopb_Wire
begin

text \<open>
  The message encoder of nanopb (\<open>nanopb/pb_encode.c\<close>) and the field iterator (\<open>pb_common.c\<close>). A message is a C
  struct in memory that a table of field descriptors describes: the model keeps the memory as a function from
  addresses to bytes, and the descriptor tables, read-only data of the generated code, as lists by address.
  Pointers have 8 bytes and numbers are little-endian. The functions that a message or an extension asks
  to be called are parameters. Submessages, and chains of extensions, may nest without end: the fuel \<open>n\<close>
  bounds how deep, and \<open>None\<close> is an encoder that does not return within it.
\<close>

section \<open>Field descriptors\<close>

record pb_field =
  fld_tag :: u32
  fld_type :: u8
  data_offset :: u32
  size_offset :: u32
  data_size :: u32
  array_size :: u32
  fld_ptr :: u64

definition PB_LAST_FIELD :: pb_field where
  "PB_LAST_FIELD = \<lparr>fld_tag = 0, fld_type = 0, data_offset = 0, size_offset = 0, data_size = 0, array_size = 0, fld_ptr = 0\<rparr>"

definition PB_LTYPE :: "u8 \<Rightarrow> u8" where "PB_LTYPE x = x AND 0x0F"
definition PB_HTYPE :: "u8 \<Rightarrow> u8" where "PB_HTYPE x = x AND 0x30"
definition PB_ATYPE :: "u8 \<Rightarrow> u8" where "PB_ATYPE x = x AND 0xC0"

definition PB_LTYPE_BOOL :: u8 where "PB_LTYPE_BOOL = 0x00"
definition PB_LTYPE_VARINT :: u8 where "PB_LTYPE_VARINT = 0x01"
definition PB_LTYPE_UVARINT :: u8 where "PB_LTYPE_UVARINT = 0x02"
definition PB_LTYPE_SVARINT :: u8 where "PB_LTYPE_SVARINT = 0x03"
definition PB_LTYPE_FIXED32 :: u8 where "PB_LTYPE_FIXED32 = 0x04"
definition PB_LTYPE_FIXED64 :: u8 where "PB_LTYPE_FIXED64 = 0x05"
definition PB_LTYPE_LAST_PACKABLE :: u8 where "PB_LTYPE_LAST_PACKABLE = 0x05"
definition PB_LTYPE_BYTES :: u8 where "PB_LTYPE_BYTES = 0x06"
definition PB_LTYPE_STRING :: u8 where "PB_LTYPE_STRING = 0x07"
definition PB_LTYPE_SUBMESSAGE :: u8 where "PB_LTYPE_SUBMESSAGE = 0x08"
definition PB_LTYPE_EXTENSION :: u8 where "PB_LTYPE_EXTENSION = 0x09"
definition PB_LTYPE_FIXED_LENGTH_BYTES :: u8 where "PB_LTYPE_FIXED_LENGTH_BYTES = 0x0A"

definition PB_HTYPE_REQUIRED :: u8 where "PB_HTYPE_REQUIRED = 0x00"
definition PB_HTYPE_OPTIONAL :: u8 where "PB_HTYPE_OPTIONAL = 0x10"
definition PB_HTYPE_REPEATED :: u8 where "PB_HTYPE_REPEATED = 0x20"
definition PB_HTYPE_ONEOF :: u8 where "PB_HTYPE_ONEOF = 0x30"

definition PB_ATYPE_STATIC :: u8 where "PB_ATYPE_STATIC = 0x00"
definition PB_ATYPE_POINTER :: u8 where "PB_ATYPE_POINTER = 0x80"
definition PB_ATYPE_CALLBACK :: u8 where "PB_ATYPE_CALLBACK = 0x40"

definition PB_SIZE_MAX :: u32 where "PB_SIZE_MAX = 0xFFFFFFFF"

text \<open>
  What an encoder reads: the memory, the descriptor tables, and the functions called through pointers, by
  the pointer and their arguments (the field and the address of its \<open>arg\<close>, the extension).
\<close>

record 's pb_env =
  memory :: "u64 \<Rightarrow> byte"
  descriptors :: "u64 \<Rightarrow> pb_field list"
  field_encoder :: "u64 \<Rightarrow> pb_field \<Rightarrow> u64 \<Rightarrow> ('s pb_ostream, unit) prog"
  extension_encoder :: "u64 \<Rightarrow> u64 \<Rightarrow> ('s pb_ostream, unit) prog"

definition load_bytes :: "'s pb_env \<Rightarrow> nat \<Rightarrow> u64 \<Rightarrow> byte list" where
  "load_bytes E n a = map (\<lambda>i. memory E (a + of_nat i)) [0..<n]"

primrec le_val :: "byte list \<Rightarrow> nat" where
  "le_val [] = 0"
| "le_val (b # bs) = unat b + 256 * le_val bs"

definition load :: "'s pb_env \<Rightarrow> nat \<Rightarrow> u64 \<Rightarrow> nat" where
  "load E n a = le_val (load_bytes E n a)"

definition load_ptr :: "'s pb_env \<Rightarrow> u64 \<Rightarrow> u64" where
  "load_ptr E a = of_nat (load E 8 a)"

definition load_size :: "'s pb_env \<Rightarrow> u64 \<Rightarrow> u32" where
  "load_size E a = of_nat (load E 4 a)"

definition field_at :: "'s pb_env \<Rightarrow> u64 \<Rightarrow> nat \<Rightarrow> pb_field" where
  "field_at E fds i = (if i < length (descriptors E fds) then descriptors E fds ! i else PB_LAST_FIELD)"

section \<open>The field iterator\<close>

record pb_field_iter =
  iter_start :: u64
  iter_pos :: nat
  required_field_index :: u32
  dest_struct :: u64
  pData :: u64
  pSize :: u64

definition iter_field :: "'s pb_env \<Rightarrow> pb_field_iter \<Rightarrow> pb_field" where
  "iter_field E iter = field_at E (iter_start iter) (iter_pos iter)"

definition pb_field_iter_begin :: "'s pb_env \<Rightarrow> u64 \<Rightarrow> u64 \<Rightarrow> bool \<times> pb_field_iter" where
  "pb_field_iter_begin E fds dest =
     (let pos = field_at E fds 0;
          data = (if dest = 0 then 0 else dest + ucast (data_offset pos));
          size = (if dest = 0 then 0 else data + scast (size_offset pos))
      in (fld_tag pos \<noteq> 0,
          \<lparr>iter_start = fds, iter_pos = 0, required_field_index = 0, dest_struct = dest, pData = data, pSize = size\<rparr>))"

definition pb_field_iter_next :: "'s pb_env \<Rightarrow> pb_field_iter \<Rightarrow> bool \<times> pb_field_iter" where
  "pb_field_iter_next E iter =
     (let prev_field = iter_field E iter
      in if fld_tag prev_field = 0 then (False, iter)
         else
           let iter = iter\<lparr>iter_pos := iter_pos iter + 1\<rparr>; pos = iter_field E iter
           in if fld_tag pos = 0 then (False, snd (pb_field_iter_begin E (iter_start iter) (dest_struct iter)))
              else if PB_HTYPE (fld_type prev_field) = PB_HTYPE_ONEOF \<and> PB_HTYPE (fld_type pos) = PB_HTYPE_ONEOF \<and>
                data_offset pos = PB_SIZE_MAX then (True, iter)
              else
                let prev_size = (ucast (data_size prev_field) :: u64);
                    prev_size =
                      (if PB_ATYPE (fld_type prev_field) = PB_ATYPE_STATIC \<and> PB_HTYPE (fld_type prev_field) = PB_HTYPE_REPEATED
                       then prev_size * ucast (array_size prev_field)
                       else if PB_ATYPE (fld_type prev_field) = PB_ATYPE_POINTER then 8
                       else prev_size);
                    iter = (if PB_HTYPE (fld_type prev_field) = PB_HTYPE_REQUIRED
                            then iter\<lparr>required_field_index := required_field_index iter + 1\<rparr> else iter);
                    data = pData iter + prev_size + ucast (data_offset pos)
                in (True, iter\<lparr>pData := data, pSize := data + scast (size_offset pos)\<rparr>))"

text \<open>\<open>pb_field_iter_find\<close> goes round the table until it is back at the start; \<open>n\<close> bounds the steps.\<close>

primrec iter_find_loop :: "nat \<Rightarrow> 's pb_env \<Rightarrow> u32 \<Rightarrow> nat \<Rightarrow> pb_field_iter \<Rightarrow> (bool \<times> pb_field_iter) option" where
  "iter_find_loop 0 E tag start iter = None"
| "iter_find_loop (Suc n) E tag start iter =
     (if fld_tag (iter_field E iter) = tag \<and> PB_LTYPE (fld_type (iter_field E iter)) \<noteq> PB_LTYPE_EXTENSION then Some (True, iter)
      else let (_, iter) = pb_field_iter_next E iter
           in if iter_pos iter = start then Some (False, iter) else iter_find_loop n E tag start iter)"

definition pb_field_iter_find :: "'s pb_env \<Rightarrow> u32 \<Rightarrow> pb_field_iter \<Rightarrow> (bool \<times> pb_field_iter) option" where
  "pb_field_iter_find E tag iter = iter_find_loop (Suc (length (descriptors E (iter_start iter)))) E tag (iter_pos iter) iter"

lemma iter_next_pos:
  assumes "pb_field_iter_next E iter = (True, iter')"
  shows "iter_start iter' = iter_start iter \<and> iter_pos iter' = Suc (iter_pos iter) \<and> iter_pos iter' < length (descriptors E (iter_start iter))"
  using assms
  by (auto simp: pb_field_iter_next_def iter_field_def field_at_def PB_LAST_FIELD_def Let_def split: if_splits)

section \<open>Encoding values\<close>

definition prog_return :: "'a \<Rightarrow> ('s, 'a) prog" where
  "prog_return a = prog_call (op_return a)"

definition prog_error :: "string \<Rightarrow> ('s pb_ostream, 'a) prog" where
  "prog_error msg = prog_call (out_error msg)"

definition safe_read_bool :: "'s pb_env \<Rightarrow> u64 \<Rightarrow> bool" where
  "safe_read_bool E a \<longleftrightarrow> memory E a \<noteq> 0"

definition pb_encode_tag_for_field :: "pb_field \<Rightarrow> ('s pb_ostream, unit) prog" where
  "pb_encode_tag_for_field field =
     (let ltype = PB_LTYPE (fld_type field); tag = (\<lambda>wiretype. prog_call (pb_encode_tag wiretype (fld_tag field)))
      in if ltype \<in> {PB_LTYPE_BOOL, PB_LTYPE_VARINT, PB_LTYPE_UVARINT, PB_LTYPE_SVARINT} then tag PB_WT_VARINT
         else if ltype = PB_LTYPE_FIXED32 then tag PB_WT_32BIT
         else if ltype = PB_LTYPE_FIXED64 then tag PB_WT_64BIT
         else if ltype \<in> {PB_LTYPE_BYTES, PB_LTYPE_STRING, PB_LTYPE_SUBMESSAGE, PB_LTYPE_FIXED_LENGTH_BYTES} then tag PB_WT_STRING
         else prog_error ''invalid field type'')"

definition pb_enc_bool :: "'s pb_env \<Rightarrow> pb_field \<Rightarrow> u64 \<Rightarrow> ('s pb_ostream, unit) prog" where
  "pb_enc_bool E field src = prog_call (pb_encode_varint (if safe_read_bool E src then 1 else 0))"

text \<open>The load of a signed integer of \<open>data_size\<close> bytes, and of an unsigned one\<close>

definition load_signed :: "'s pb_env \<Rightarrow> u32 \<Rightarrow> u64 \<Rightarrow> u64 option" where
  "load_signed E sz src =
     (if sz = 1 then Some (scast (of_nat (load E 1 src) :: 8 word))
      else if sz = 2 then Some (scast (of_nat (load E 2 src) :: 16 word))
      else if sz = 4 then Some (scast (of_nat (load E 4 src) :: 32 word))
      else if sz = 8 then Some (of_nat (load E 8 src))
      else None)"

definition load_unsigned :: "'s pb_env \<Rightarrow> u32 \<Rightarrow> u64 \<Rightarrow> u64 option" where
  "load_unsigned E sz src =
     (if sz = 1 then Some (ucast (of_nat (load E 1 src) :: 8 word))
      else if sz = 2 then Some (ucast (of_nat (load E 2 src) :: 16 word))
      else if sz = 4 then Some (ucast (of_nat (load E 4 src) :: 32 word))
      else if sz = 8 then Some (of_nat (load E 8 src))
      else None)"

definition pb_enc_varint :: "'s pb_env \<Rightarrow> pb_field \<Rightarrow> u64 \<Rightarrow> ('s pb_ostream, unit) prog" where
  "pb_enc_varint E field src = (case load_signed E (data_size field) src of None \<Rightarrow> prog_error ''invalid data_size''
     | Some value \<Rightarrow> prog_call (pb_encode_varint value))"

definition pb_enc_uvarint :: "'s pb_env \<Rightarrow> pb_field \<Rightarrow> u64 \<Rightarrow> ('s pb_ostream, unit) prog" where
  "pb_enc_uvarint E field src = (case load_unsigned E (data_size field) src of None \<Rightarrow> prog_error ''invalid data_size''
     | Some value \<Rightarrow> prog_call (pb_encode_varint value))"

definition pb_enc_svarint :: "'s pb_env \<Rightarrow> pb_field \<Rightarrow> u64 \<Rightarrow> ('s pb_ostream, unit) prog" where
  "pb_enc_svarint E field src = (case load_signed E (data_size field) src of None \<Rightarrow> prog_error ''invalid data_size''
     | Some value \<Rightarrow> prog_call (pb_encode_svarint value))"

definition pb_enc_fixed64 :: "'s pb_env \<Rightarrow> pb_field \<Rightarrow> u64 \<Rightarrow> ('s pb_ostream, unit) prog" where
  "pb_enc_fixed64 E field src = prog_call (pb_encode_fixed64 (of_nat (load E 8 src)))"

definition pb_enc_fixed32 :: "'s pb_env \<Rightarrow> pb_field \<Rightarrow> u64 \<Rightarrow> ('s pb_ostream, unit) prog" where
  "pb_enc_fixed32 E field src = prog_call (pb_encode_fixed32 (of_nat (load E 4 src)))"

definition pb_enc_bytes :: "'s pb_env \<Rightarrow> pb_field \<Rightarrow> u64 \<Rightarrow> ('s pb_ostream, unit) prog" where
  "pb_enc_bytes E field src =
     (if src = 0 then prog_call (pb_encode_string [] 0)
      else let sz = load_size E src
           in if PB_ATYPE (fld_type field) = PB_ATYPE_STATIC \<and> (ucast sz :: u64) > ucast (data_size field) - 4
              then prog_error ''bytes size exceeded''
              else prog_call (pb_encode_string (load_bytes E (unat sz) (src + 4)) (ucast sz)))"

text \<open>The length of a string of at most \<open>max_sz\<close> bytes\<close>

function str_size :: "'s pb_env \<Rightarrow> u64 \<Rightarrow> nat \<Rightarrow> nat \<Rightarrow> nat" where
  "str_size E p max_sz sz = (if sz < max_sz \<and> memory E (p + of_nat sz) \<noteq> 0 then str_size E p max_sz (sz + 1) else sz)"
  by pat_completeness auto
termination by (relation "measure (\<lambda>(_, _, max_sz, sz). max_sz - sz)") auto

declare str_size.simps [simp del]

definition pb_enc_string :: "'s pb_env \<Rightarrow> pb_field \<Rightarrow> u64 \<Rightarrow> ('s pb_ostream, unit) prog" where
  "pb_enc_string E field src =
     (let max_sz = (if PB_ATYPE (fld_type field) = PB_ATYPE_POINTER then SIZE_MAX else unat (data_size field));
          sz = (if src = 0 then 0 else str_size E src max_sz 0)
      in prog_call (pb_encode_string (load_bytes E sz src) (of_nat sz)))"

definition pb_enc_fixed_length_bytes :: "'s pb_env \<Rightarrow> pb_field \<Rightarrow> u64 \<Rightarrow> ('s pb_ostream, unit) prog" where
  "pb_enc_fixed_length_bytes E field src =
     prog_call (pb_encode_string (load_bytes E (unat (data_size field)) src) (ucast (data_size field)))"

section \<open>Submessages\<close>

text \<open>\<open>enc fds src\<close> is \<open>pb_encode\<close>.\<close>

definition pb_encode_submessage ::
    "(u64 \<Rightarrow> u64 \<Rightarrow> ('s pb_ostream, unit) prog) \<Rightarrow> u64 \<Rightarrow> u64 \<Rightarrow> ('s pb_ostream, unit) prog" where
  "pb_encode_submessage enc fds src s =
     (case enc fds src (PB_OSTREAM_SIZING (out_state s)) of None \<Rightarrow> None
      | Some (None, substream) \<Rightarrow> Some (None, s\<lparr>out_errmsg := out_errmsg substream\<rparr>)
      | Some (Some _, substream) \<Rightarrow>
          let sz = bytes_written substream
          in prog_bind (prog_call (pb_encode_varint sz)) (\<lambda>_ s.
            (case out_callback s of None \<Rightarrow> prog_call (pb_write [] sz) s
             | Some callback \<Rightarrow>
                 if bytes_written s + sz > max_size s then prog_error ''stream full'' s
                 else
                   (case enc fds src \<lparr>out_callback = Some callback, out_state = out_state s, max_size = sz, bytes_written = 0, out_errmsg = None\<rparr> of
                      None \<Rightarrow> None
                    | Some (status, substream) \<Rightarrow>
                        let s = s\<lparr>bytes_written := bytes_written s + bytes_written substream, out_state := out_state substream,
                                  out_errmsg := out_errmsg substream\<rparr>
                        in if bytes_written substream \<noteq> sz then prog_error ''submsg size changed'' s else Some (status, s)))) s)"

definition pb_enc_submessage ::
    "(u64 \<Rightarrow> u64 \<Rightarrow> ('s pb_ostream, unit) prog) \<Rightarrow> pb_field \<Rightarrow> u64 \<Rightarrow> ('s pb_ostream, unit) prog" where
  "pb_enc_submessage enc field src =
     (if fld_ptr field = 0 then prog_error ''invalid field descriptor'' else pb_encode_submessage enc (fld_ptr field) src)"

text \<open>
  The table \<open>PB_ENCODERS\<close>. It has no entry for extensions, and the code never uses another: it fails on the
  tag of such a field first.
\<close>

definition PB_ENCODERS ::
    "(u64 \<Rightarrow> u64 \<Rightarrow> ('s pb_ostream, unit) prog) \<Rightarrow> 's pb_env \<Rightarrow> u8 \<Rightarrow> pb_field \<Rightarrow> u64 \<Rightarrow> ('s pb_ostream, unit) prog" where
  "PB_ENCODERS enc E ltype =
     (if ltype = PB_LTYPE_BOOL then pb_enc_bool E
      else if ltype = PB_LTYPE_VARINT then pb_enc_varint E
      else if ltype = PB_LTYPE_UVARINT then pb_enc_uvarint E
      else if ltype = PB_LTYPE_SVARINT then pb_enc_svarint E
      else if ltype = PB_LTYPE_FIXED32 then pb_enc_fixed32 E
      else if ltype = PB_LTYPE_FIXED64 then pb_enc_fixed64 E
      else if ltype = PB_LTYPE_BYTES then pb_enc_bytes E
      else if ltype = PB_LTYPE_STRING then pb_enc_string E
      else if ltype = PB_LTYPE_SUBMESSAGE then pb_enc_submessage enc
      else if ltype = PB_LTYPE_FIXED_LENGTH_BYTES then pb_enc_fixed_length_bytes E
      else (\<lambda>field src. prog_error ''invalid field type''))"

section \<open>Fields\<close>

text \<open>The loops over the entries of an array: \<open>func\<close> on each of \<open>count\<close> entries of \<open>step\<close> bytes\<close>

primrec encode_items :: "(u64 \<Rightarrow> ('s pb_ostream, unit) prog) \<Rightarrow> u64 \<Rightarrow> nat \<Rightarrow> u64 \<Rightarrow> ('s pb_ostream, unit) prog" where
  "encode_items func step 0 p = prog_return ()"
| "encode_items func step (Suc count) p = prog_bind (func p) (\<lambda>_. encode_items func step count (p + step))"

definition encode_array ::
    "'s pb_env \<Rightarrow> pb_field \<Rightarrow> u64 \<Rightarrow> u32 \<Rightarrow> (pb_field \<Rightarrow> u64 \<Rightarrow> ('s pb_ostream, unit) prog) \<Rightarrow> ('s pb_ostream, unit) prog" where
  "encode_array E field data count func =
     (let ltype = PB_LTYPE (fld_type field); atype = PB_ATYPE (fld_type field); step = ucast (data_size field)
      in if count = 0 then prog_return ()
         else if atype \<noteq> PB_ATYPE_POINTER \<and> count > array_size field then prog_error ''array max size exceeded''
         else if ltype \<le> PB_LTYPE_LAST_PACKABLE then
           prog_bind (prog_call (pb_encode_tag PB_WT_STRING (fld_tag field))) (\<lambda>_ s.
             let write = (\<lambda>sz. prog_bind (prog_call (pb_encode_varint sz)) (\<lambda>_ s.
                   case out_callback s of None \<Rightarrow> prog_call (pb_write [] sz) s
                   | Some _ \<Rightarrow> encode_items (func field) step (unat count) data s) s)
             in if ltype = PB_LTYPE_FIXED32 then write (4 * ucast count)
                else if ltype = PB_LTYPE_FIXED64 then write (8 * ucast count)
                else (case encode_items (func field) step (unat count) data (PB_OSTREAM_SIZING (out_state s)) of None \<Rightarrow> None
                  | Some (None, _) \<Rightarrow> Some (None, s)
                  | Some (Some _, sizestream) \<Rightarrow> write (bytes_written sizestream)))
         else encode_items (\<lambda>p. prog_bind (pb_encode_tag_for_field field) (\<lambda>_.
             if atype = PB_ATYPE_POINTER \<and> (ltype = PB_LTYPE_STRING \<or> ltype = PB_LTYPE_BYTES) then func field (load_ptr E p)
             else func field p)) step (unat count) data)"

text \<open>The fields of a submessage all have their default value, from \<open>iter\<close> on\<close>

function all_default :: "(pb_field \<Rightarrow> u64 \<Rightarrow> bool option) \<Rightarrow> 's pb_env \<Rightarrow> pb_field_iter \<Rightarrow> bool option" where
  "all_default check E iter =
     (case check (iter_field E iter) (pData iter) of None \<Rightarrow> None
      | Some d \<Rightarrow>
          if \<not> d then Some False
          else let (more, iter') = pb_field_iter_next E iter in if more then all_default check E iter' else Some True)"
  by pat_completeness auto
termination
  by (relation "measure (\<lambda>(_, E, iter). length (descriptors E (iter_start iter)) - iter_pos iter)") (auto dest!: iter_next_pos [OF sym])

declare all_default.simps [simp del]

primrec pb_check_proto3_default_value :: "nat \<Rightarrow> 's pb_env \<Rightarrow> pb_field \<Rightarrow> u64 \<Rightarrow> bool option" where
  "pb_check_proto3_default_value 0 E field data = None"
| "pb_check_proto3_default_value (Suc n) E field data =
     (let type = fld_type field; size = data + scast (size_offset field);
          rest =
            (if PB_ATYPE type = PB_ATYPE_STATIC \<and> PB_LTYPE type = PB_LTYPE_BYTES then Some (load_size E data = 0)
             else if PB_ATYPE type = PB_ATYPE_STATIC \<and> PB_LTYPE type = PB_LTYPE_STRING then Some (memory E data = 0)
             else if PB_ATYPE type = PB_ATYPE_STATIC \<and> PB_LTYPE type = PB_LTYPE_FIXED_LENGTH_BYTES then Some (data_size field = 0)
             else if PB_ATYPE type = PB_ATYPE_STATIC \<and> PB_LTYPE type = PB_LTYPE_SUBMESSAGE then
               (let (more, iter) = pb_field_iter_begin E (fld_ptr field) data
                in if more then all_default (pb_check_proto3_default_value n E) E iter else Some True)
             else if PB_ATYPE type = PB_ATYPE_POINTER \<and> PB_LTYPE type > PB_LTYPE_LAST_PACKABLE then Some (load_ptr E data = 0)
             else Some (list_all (\<lambda>b. b = 0) (load_bytes E (unat (data_size field)) data)))
      in if PB_HTYPE type = PB_HTYPE_REQUIRED then Some False
         else if PB_HTYPE type = PB_HTYPE_REPEATED \<and> size_offset field \<noteq> 0 then Some (load_size E size = 0)
         else if PB_HTYPE type = PB_HTYPE_REPEATED \<and> PB_ATYPE type = PB_ATYPE_STATIC then Some False
         else if PB_HTYPE type = PB_HTYPE_ONEOF then Some (load_size E size = 0)
         else if PB_HTYPE type = PB_HTYPE_OPTIONAL \<and> size_offset field \<noteq> 0 then Some (\<not> safe_read_bool E size)
         else rest)"

text \<open>
  \<open>implicit_has\<close> is what \<open>pSize\<close> points to when the field has no size offset. \<open>enc\<close> is \<open>pb_encode\<close>. The
  descriptor of a oneof field always has a size offset.
\<close>

definition encode_basic_field ::
    "nat \<Rightarrow> (u64 \<Rightarrow> u64 \<Rightarrow> ('s pb_ostream, unit) prog) \<Rightarrow> 's pb_env \<Rightarrow> pb_field \<Rightarrow> u64 \<Rightarrow> ('s pb_ostream, unit) prog" where
  "encode_basic_field n enc E field data s =
     (let htype = PB_HTYPE (fld_type field); func = PB_ENCODERS enc E (PB_LTYPE (fld_type field));
          size = data + scast (size_offset field);
          has = (if size_offset field \<noteq> 0 then Some True
                 else if htype = PB_HTYPE_OPTIONAL then map_option Not (pb_check_proto3_default_value n E field data)
                 else Some True)
      in case has of None \<Rightarrow> None
      | Some has \<Rightarrow>
          let pointer = (PB_ATYPE (fld_type field) = PB_ATYPE_POINTER);
              data = (if pointer then load_ptr E data else data);
              has = (if pointer then data \<noteq> 0 else has);
              put = prog_bind (pb_encode_tag_for_field field) (\<lambda>_. func field data)
          in if htype = PB_HTYPE_REQUIRED then
               (if data = 0 then prog_error ''missing required field'' else put) s
             else if htype = PB_HTYPE_OPTIONAL then
               (if (if size_offset field \<noteq> 0 then safe_read_bool E size else has) then put else prog_return ()) s
             else if htype = PB_HTYPE_REPEATED then
               encode_array E field data (if size_offset field \<noteq> 0 then load_size E size else array_size field) func s
             else
               (if (if size_offset field \<noteq> 0 then load_size E size else of_bool has) = fld_tag field then put else prog_return ()) s)"

definition encode_callback_field :: "'s pb_env \<Rightarrow> pb_field \<Rightarrow> u64 \<Rightarrow> ('s pb_ostream, unit) prog" where
  "encode_callback_field E field data s =
     (let encode = load_ptr E data
      in if encode \<noteq> 0 then
           (case field_encoder E encode field (data + 8) s of None \<Rightarrow> None
            | Some (None, s) \<Rightarrow> prog_error ''callback error'' s
            | Some (Some _, s) \<Rightarrow> Some (Some (), s))
         else Some (Some (), s))"

definition encode_field ::
    "nat \<Rightarrow> (u64 \<Rightarrow> u64 \<Rightarrow> ('s pb_ostream, unit) prog) \<Rightarrow> 's pb_env \<Rightarrow> pb_field \<Rightarrow> u64 \<Rightarrow> ('s pb_ostream, unit) prog" where
  "encode_field n enc E field data =
     (let atype = PB_ATYPE (fld_type field)
      in if atype = PB_ATYPE_STATIC \<or> atype = PB_ATYPE_POINTER then encode_basic_field n enc E field data
         else if atype = PB_ATYPE_CALLBACK then encode_callback_field E field data
         else prog_error ''invalid field type'')"

text \<open>The members of \<open>pb_extension_t\<close> are \<open>type\<close>, \<open>dest\<close> and \<open>next\<close>; those of its type \<open>decode\<close>, \<open>encode\<close> and \<open>arg\<close>.\<close>

definition default_extension_encoder ::
    "nat \<Rightarrow> (u64 \<Rightarrow> u64 \<Rightarrow> ('s pb_ostream, unit) prog) \<Rightarrow> 's pb_env \<Rightarrow> u64 \<Rightarrow> ('s pb_ostream, unit) prog" where
  "default_extension_encoder n enc E extension =
     (let field = field_at E (load_ptr E (load_ptr E extension + 16)) 0
      in if PB_ATYPE (fld_type field) = PB_ATYPE_POINTER then encode_field n enc E field (extension + 8)
         else encode_field n enc E field (load_ptr E (extension + 8)))"

primrec encode_extensions ::
    "nat \<Rightarrow> nat \<Rightarrow> (u64 \<Rightarrow> u64 \<Rightarrow> ('s pb_ostream, unit) prog) \<Rightarrow> 's pb_env \<Rightarrow> u64 \<Rightarrow> ('s pb_ostream, unit) prog" where
  "encode_extensions 0 n enc E extension = (\<lambda>s. None)"
| "encode_extensions (Suc m) n enc E extension =
     (if extension = 0 then prog_return ()
      else let encode = load_ptr E (load_ptr E extension + 8)
           in prog_bind (if encode \<noteq> 0 then extension_encoder E encode extension else default_extension_encoder n enc E extension)
                (\<lambda>_. encode_extensions m n enc E (load_ptr E (extension + 16))))"

definition encode_extension_field ::
    "nat \<Rightarrow> (u64 \<Rightarrow> u64 \<Rightarrow> ('s pb_ostream, unit) prog) \<Rightarrow> 's pb_env \<Rightarrow> pb_field \<Rightarrow> u64 \<Rightarrow> ('s pb_ostream, unit) prog" where
  "encode_extension_field n enc E field data = encode_extensions n n enc E (load_ptr E data)"

section \<open>Messages\<close>

function encode_fields ::
    "nat \<Rightarrow> (u64 \<Rightarrow> u64 \<Rightarrow> ('s pb_ostream, unit) prog) \<Rightarrow> 's pb_env \<Rightarrow> pb_field_iter \<Rightarrow> ('s pb_ostream, unit) prog" where
  "encode_fields n enc E iter =
     (let field = iter_field E iter
      in prog_bind
           (if PB_LTYPE (fld_type field) = PB_LTYPE_EXTENSION then encode_extension_field n enc E field (pData iter)
            else encode_field n enc E field (pData iter))
           (\<lambda>_. let (more, iter') = pb_field_iter_next E iter in if more then encode_fields n enc E iter' else prog_return ()))"
  by pat_completeness auto
termination
  by (relation "measure (\<lambda>(_, _, E, iter). length (descriptors E (iter_start iter)) - iter_pos iter)") (auto dest!: iter_next_pos [OF sym])

declare encode_fields.simps [simp del]

primrec pb_encode :: "nat \<Rightarrow> 's pb_env \<Rightarrow> u64 \<Rightarrow> u64 \<Rightarrow> ('s pb_ostream, unit) prog" where
  "pb_encode 0 E fds src_struct = (\<lambda>s. None)"
| "pb_encode (Suc n) E fds src_struct =
     (let (more, iter) = pb_field_iter_begin E fds src_struct
      in if \<not> more then prog_return () else encode_fields n (pb_encode n E) E iter)"

definition pb_encode_delimited :: "nat \<Rightarrow> 's pb_env \<Rightarrow> u64 \<Rightarrow> u64 \<Rightarrow> ('s pb_ostream, unit) prog" where
  "pb_encode_delimited n E fds src_struct = pb_encode_submessage (pb_encode n E) fds src_struct"

definition pb_encode_nullterminated :: "nat \<Rightarrow> 's pb_env \<Rightarrow> u64 \<Rightarrow> u64 \<Rightarrow> ('s pb_ostream, unit) prog" where
  "pb_encode_nullterminated n E fds src_struct =
     prog_bind (pb_encode n E fds src_struct) (\<lambda>_. prog_call (pb_write [0] 1))"

text \<open>\<open>null\<close> is the state of the sizing stream.\<close>

definition pb_get_encoded_size :: "'s \<Rightarrow> nat \<Rightarrow> 's pb_env \<Rightarrow> u64 \<Rightarrow> u64 \<Rightarrow> u64 option option" where
  "pb_get_encoded_size null n E fds src_struct =
     (case pb_encode n E fds src_struct (PB_OSTREAM_SIZING null) of None \<Rightarrow> None
      | Some (None, _) \<Rightarrow> Some None
      | Some (Some _, stream) \<Rightarrow> Some (Some (bytes_written stream)))"

end
