(* ===== verification/Nanopb_Size.thy ===== *)
theory Nanopb_Size
  imports Nanopb_Encode
begin

text \<open>
  The two passes of nanopb's encoder agree: what a sizing stream counts is what is then written. An encoder is
  \<open>sized\<close> when it either emits the same bytes on every stream or fails already on a stream that counts. And
  the encoder returns: its recursion is bounded by the nesting of the descriptor tables.
\<close>

definition fails_sizing :: "('s pb_ostream, unit) prog \<Rightarrow> bool" where
  "fails_sizing f \<longleftrightarrow> (\<forall>s t. out_callback s = None \<longrightarrow> f s \<noteq> Some (Some (), t))"

definition sized :: "('s \<Rightarrow> byte list \<Rightarrow> bool \<times> 's) \<Rightarrow> ('s \<Rightarrow> byte list \<Rightarrow> 's) \<Rightarrow> ('s pb_ostream, unit) prog \<Rightarrow> bool" where
  "sized cb put f \<longleftrightarrow> (\<exists>bs. emits cb put f bs) \<or> fails_sizing f"

lemma sizedI [intro]: "emits cb put f bs \<Longrightarrow> sized cb put f"
  by (auto simp: sized_def)

lemma fails_sized [intro]: "fails_sizing f \<Longrightarrow> sized cb put f"
  by (simp add: sized_def)

lemma error_fails [simp]: "fails_sizing (prog_error msg)"
  by (simp add: fails_sizing_def prog_error_def prog_call_def out_error_def)

lemma bind_fails: "fails_sizing f \<Longrightarrow> fails_sizing (prog_bind f g)"
  by (fastforce simp: fails_sizing_def prog_bind_def split: option.splits prod.splits)

context sink
begin

lemma return_emits: "emits cb put (prog_return ()) []"
  unfolding emits_def lands_def prog_return_def by (auto simp: prog_call_def)

lemma sized_return [simp]: "sized cb put (prog_return ())"
  using return_emits by blast

lemma sized_error [simp]: "sized cb put (prog_error msg)"
  by (rule fails_sized) simp

lemma emits_then_fails: "emits cb put f bs \<Longrightarrow> fails_sizing (g ()) \<Longrightarrow> fails_sizing (prog_bind f g)"
  unfolding fails_sizing_def by (auto simp: prog_bind_def emits_sizing)

lemma sized_bind:
  assumes "sized cb put f" and "sized cb put (g ())"
  shows "sized cb put (prog_bind f g)"
  using assms unfolding sized_def by (meson emits_bind emits_then_fails bind_fails)

lemma sized_varint [simp]: "sized cb put (prog_call (pb_encode_varint v))"
  using varint_emits by blast

lemma sized_svarint [simp]: "sized cb put (prog_call (pb_encode_svarint v))"
  using svarint_emits by blast

lemma sized_fixed32 [simp]: "sized cb put (prog_call (pb_encode_fixed32 v))"
  using fixed32_emits by blast

lemma sized_fixed64 [simp]: "sized cb put (prog_call (pb_encode_fixed64 v))"
  using fixed64_emits by blast

lemma sized_string: "length bs < 2 ^ 64 \<Longrightarrow> n = of_nat (length bs) \<Longrightarrow> sized cb put (prog_call (pb_encode_string bs n))"
  using string_emits by blast

lemma sized_tag [simp]: "sized cb put (prog_call (pb_encode_tag wiretype tag))"
  unfolding pb_encode_tag_def by simp

lemma sized_tag_for_field [simp]: "sized cb put (pb_encode_tag_for_field field)"
  unfolding pb_encode_tag_for_field_def Let_def by simp

text \<open>A writer that only counts on a sizing stream, as the two-pass writers do\<close>

lemma sizing_shortcut:
  assumes "emits cb put f bs"
  shows "emits cb put (\<lambda>s. case out_callback s of None \<Rightarrow> prog_call (pb_write [] (of_nat (length bs))) s | Some c \<Rightarrow> f s) bs"
  unfolding emits_def
proof (intro allI conjI impI)
  fix s :: "'s pb_ostream"
  assume "out_callback s = None"
  then show "(case out_callback s of None \<Rightarrow> prog_call (pb_write [] (of_nat (length bs))) s | Some c \<Rightarrow> f s) =
      Some (Some (), s\<lparr>bytes_written := bytes_written s + of_nat (length bs)\<rparr>)"
    by (simp add: prog_call_def pb_write_def)
next
  fix s :: "'s pb_ostream"
  assume a: "out_callback s = Some cb \<and> out_errmsg s = None \<and> unat (bytes_written s) \<le> unat (max_size s) \<and> unat (bytes_written s) + length bs < 2 ^ 64"
  then show "lands put (\<lambda>s. case out_callback s of None \<Rightarrow> prog_call (pb_write [] (of_nat (length bs))) s | Some c \<Rightarrow> f s) s bs"
    using emits_lands [OF assms, of s] by (auto simp: lands_def)
next
  fix s t :: "'s pb_ostream"
  assume "out_callback s = Some cb" and "(case out_callback s of None \<Rightarrow> prog_call (pb_write [] (of_nat (length bs))) s | Some c \<Rightarrow> f s) = Some (Some (), t)"
  then show "out_callback t = Some cb" "out_state t = put (out_state s) bs" using emits_state [OF assms, of s t] by simp_all
qed

end

text \<open>What the first pass counts\<close>

lemma emits_count: "emits cb put f bs \<Longrightarrow> f (PB_OSTREAM_SIZING st) = Some (Some (), (PB_OSTREAM_SIZING st)\<lparr>bytes_written := of_nat (length bs)\<rparr>)"
  using emits_sizing [of cb put f bs "PB_OSTREAM_SIZING st"] by (simp add: PB_OSTREAM_SIZING_def)

section \<open>Submessages\<close>

context sink
begin

lemma submessage_emits:
  assumes "emits cb put (enc fds src) bs"
  shows "emits cb put (pb_encode_submessage enc fds src) (varint_bytes (unat (of_nat (length bs) :: u64)) @ bs)"
proof -
  define sz where "sz = (of_nat (length bs) :: u64)"
  define body where "body = (\<lambda>s. case out_callback s of None \<Rightarrow> prog_call (pb_write [] sz) s
     | Some callback \<Rightarrow>
         if bytes_written s + sz > max_size s then prog_error ''stream full'' s
         else
           (case enc fds src \<lparr>out_callback = Some callback, out_state = out_state s, max_size = sz, bytes_written = 0, out_errmsg = None\<rparr> of
              None \<Rightarrow> None
            | Some (status, substream) \<Rightarrow>
                let s = s\<lparr>bytes_written := bytes_written s + bytes_written substream, out_state := out_state substream,
                          out_errmsg := out_errmsg substream\<rparr>
                in if bytes_written substream \<noteq> sz then prog_error ''submsg size changed'' s else Some (status, s)))"
  have first: "enc fds src (PB_OSTREAM_SIZING st) = Some (Some (), (PB_OSTREAM_SIZING st)\<lparr>bytes_written := sz\<rparr>)" for st
    unfolding sz_def by (rule emits_count [OF assms])
  have run: "pb_encode_submessage enc fds src = prog_bind (prog_call (pb_encode_varint sz)) (\<lambda>_. body)"
    by (rule ext) (simp add: pb_encode_submessage_def first body_def)
  have "emits cb put body bs"
    unfolding emits_def
  proof (intro allI conjI impI)
    fix s :: "'s pb_ostream"
    assume "out_callback s = None"
    then show "body s = Some (Some (), s\<lparr>bytes_written := bytes_written s + of_nat (length bs)\<rparr>)"
      by (simp add: body_def prog_call_def pb_write_def sz_def)
  next
    fix s :: "'s pb_ostream"
    assume a: "out_callback s = Some cb \<and> out_errmsg s = None \<and> unat (bytes_written s) \<le> unat (max_size s) \<and> unat (bytes_written s) + length bs < 2 ^ 64"
    have sz: "unat sz = length bs" using a unat_of_nat_small [of "length bs", where 'a = 64] by (simp add: sz_def)
    have sum: "unat (bytes_written s + sz) = unat (bytes_written s) + length bs" using a sz by (simp add: unat_word_ariths)
    have room: "bytes_written s + sz > max_size s \<longleftrightarrow> \<not> unat (bytes_written s) + length bs \<le> unat (max_size s)"
      using sum by (simp add: word_less_nat_alt not_le)
    show "lands put body s bs"
    proof (cases "unat (bytes_written s) + length bs \<le> unat (max_size s)")
      case False
      then show ?thesis using a room by (auto simp: lands_def body_def prog_error_def prog_call_def out_error_def intro!: exI [of _ "[]"])
    next
      case True
      define sub where "sub = \<lparr>out_callback = Some cb, out_state = out_state s, max_size = sz, bytes_written = 0, out_errmsg = None\<rparr>"
      have "lands put (enc fds src) sub bs"
        by (rule emits_lands [OF assms]) (use a in \<open>simp_all add: sub_def\<close>)
      then have second: "enc fds src sub = Some (Some (), sub\<lparr>out_state := put (out_state s) bs, bytes_written := sz\<rparr>)"
        using sz by (simp add: lands_def sub_def sz_def)
      have "body s = Some (Some (), s\<lparr>bytes_written := bytes_written s + sz, out_state := put (out_state s) bs, out_errmsg := None\<rparr>)"
        using a room True second unfolding body_def sub_def [symmetric] by (simp add: sub_def)
      moreover have "s\<lparr>bytes_written := bytes_written s + sz, out_state := put (out_state s) bs, out_errmsg := None\<rparr> =
          s\<lparr>out_state := put (out_state s) bs, bytes_written := bytes_written s + sz\<rparr>"
        using a by (cases s) simp
      ultimately show ?thesis using True by (simp add: lands_def sz_def)
    qed
  next
    fix s t :: "'s pb_ostream"
    define sub where "sub = \<lparr>out_callback = Some cb, out_state = out_state s, max_size = sz, bytes_written = 0, out_errmsg = None\<rparr>"
    assume s: "out_callback s = Some cb" and run: "body s = Some (Some (), t)"
    have error: "prog_error msg u \<noteq> Some (Some (), t)" for msg and u :: "'s pb_ostream" by (simp add: prog_error_def prog_call_def out_error_def)
    obtain u where u: "enc fds src sub = Some (Some (), u)" "out_callback t = Some cb" "out_state t = out_state u"
      using run s by (auto simp: body_def sub_def Let_def error split: if_splits option.splits)
    show "out_callback t = Some cb" "out_state t = put (out_state s) bs"
      using u emits_state [OF assms _ u(1)] by (simp_all add: sub_def)
  qed
  then show ?thesis unfolding run sz_def [symmetric] by (rule emits_bind [OF varint_emits])
qed

lemma sized_submessage:
  assumes "sized cb put (enc fds src)"
  shows "sized cb put (pb_encode_submessage enc fds src)"
  using assms unfolding sized_def
proof (elim disjE exE)
  fix bs
  assume "emits cb put (enc fds src) bs"
  then show "(\<exists>bs. emits cb put (pb_encode_submessage enc fds src) bs) \<or> fails_sizing (pb_encode_submessage enc fds src)"
    using submessage_emits by blast
next
  assume f: "fails_sizing (enc fds src)"
  have none: "enc fds src (PB_OSTREAM_SIZING st) \<noteq> Some (Some (), t)" for st t
    using f unfolding fails_sizing_def by (simp add: PB_OSTREAM_SIZING_def)
  have "fails_sizing (pb_encode_submessage enc fds src)"
    unfolding fails_sizing_def
  proof (intro allI impI)
    fix s t :: "'s pb_ostream"
    have "enc fds src (PB_OSTREAM_SIZING (out_state s)) = None \<or> (\<exists>u. enc fds src (PB_OSTREAM_SIZING (out_state s)) = Some (None, u))"
      using none [of "out_state s"] by (cases "enc fds src (PB_OSTREAM_SIZING (out_state s))") (auto, metis option.exhaust unit.exhaust)
    then show "pb_encode_submessage enc fds src s \<noteq> Some (Some (), t)" by (auto simp: pb_encode_submessage_def)
  qed
  then show "(\<exists>bs. emits cb put (pb_encode_submessage enc fds src) bs) \<or> fails_sizing (pb_encode_submessage enc fds src)" ..
qed

section \<open>Values and arrays\<close>

lemma length_load [simp]: "length (load_bytes E n a) = n"
  by (simp add: load_bytes_def)

lemma str_size_le: "sz \<le> max_sz \<Longrightarrow> str_size E p max_sz sz \<le> max_sz"
proof (induction E p max_sz sz rule: str_size.induct)
  case (1 E p max_sz sz)
  show ?case
  proof (cases "sz < max_sz \<and> memory E (p + of_nat sz) \<noteq> 0")
    case True
    then have "str_size E p max_sz (sz + 1) \<le> max_sz" using 1 by simp
    then show ?thesis using True by (subst str_size.simps) simp
  next
    case False
    then show ?thesis using "1.prems" by (subst str_size.simps) auto
  qed
qed

lemma sized_encoder:
  assumes "\<And>fds src. sized cb put (enc fds src)"
  shows "sized cb put (PB_ENCODERS enc E ltype field src)"
proof -
  have bytes: "sized cb put (prog_call (pb_encode_string (load_bytes E (unat n) a) (ucast n)))" for n :: u32 and a
    by (rule sized_string) (use word_unat_lt [of n] in \<open>simp_all add: unat_ucast_up word_unat_eq_iff unat_of_nat_small\<close>)
  have string: "sized cb put (prog_call (pb_encode_string (load_bytes E n src) (of_nat n)))" if "n < 2 ^ 64" for n
    by (rule sized_string) (use that in simp_all)
  have "str_size E src (unat (data_size field)) 0 < 2 ^ 64"
    using str_size_le [of 0 "unat (data_size field)" E src] word_unat_lt [of "data_size field"] by simp
  moreover have "str_size E src SIZE_MAX 0 < 2 ^ 64" using str_size_le [of 0 SIZE_MAX E src] by simp
  ultimately have str: "sized cb put (pb_enc_string E field src)"
    unfolding pb_enc_string_def Let_def by (intro string) simp
  have empty: "sized cb put (prog_call (pb_encode_string [] 0))" by (rule sized_string) simp_all
  have "sized cb put (pb_enc_bool E field src)" unfolding pb_enc_bool_def by (rule sized_varint)
  moreover have "sized cb put (pb_enc_varint E field src)" unfolding pb_enc_varint_def by (cases "load_signed E (data_size field) src") simp_all
  moreover have "sized cb put (pb_enc_uvarint E field src)" unfolding pb_enc_uvarint_def by (cases "load_unsigned E (data_size field) src") simp_all
  moreover have "sized cb put (pb_enc_svarint E field src)" unfolding pb_enc_svarint_def by (cases "load_signed E (data_size field) src") simp_all
  moreover have "sized cb put (pb_enc_fixed32 E field src)" unfolding pb_enc_fixed32_def by (rule sized_fixed32)
  moreover have "sized cb put (pb_enc_fixed64 E field src)" unfolding pb_enc_fixed64_def by (rule sized_fixed64)
  moreover have "sized cb put (pb_enc_bytes E field src)" unfolding pb_enc_bytes_def Let_def using bytes empty by simp
  moreover note str
  moreover have "sized cb put (pb_enc_submessage enc field src)"
    unfolding pb_enc_submessage_def using sized_submessage [OF assms] by simp
  moreover have "sized cb put (pb_enc_fixed_length_bytes E field src)" unfolding pb_enc_fixed_length_bytes_def by (rule bytes)
  ultimately show ?thesis unfolding PB_ENCODERS_def by (simp only: sized_error if_True if_False split: if_split) simp
qed

lemma sized_items:
  assumes "\<And>p. sized cb put (func p)"
  shows "sized cb put (encode_items func step n p)"
  by (induction n arbitrary: p) (simp_all add: sized_bind assms)

lemma items_emits_fixed:
  assumes "\<And>p. emits cb put (func p) (g p)" and "\<And>p. length (g p) = k"
  shows "\<exists>bs. emits cb put (encode_items func step n p) bs \<and> length bs = k * n"
proof (induction n arbitrary: p)
  case 0
  show ?case using return_emits by (intro exI [of _ "[]"]) simp
next
  case (Suc n)
  then obtain bs where "emits cb put (encode_items func step n (p + step)) bs" "length bs = k * n" by blast
  then show ?case using emits_bind [OF assms(1), of "\<lambda>_. encode_items func step n (p + step)" bs p] assms(2) [of p]
    by (intro exI [of _ "g p @ bs"]) simp
qed

definition packed_array ::
    "u8 \<Rightarrow> (u64 \<Rightarrow> ('s pb_ostream, unit) prog) \<Rightarrow> u64 \<Rightarrow> u32 \<Rightarrow> u64 \<Rightarrow> ('s pb_ostream, unit) prog" where
  "packed_array ltype func step count data s =
     (let write = (\<lambda>sz. prog_bind (prog_call (pb_encode_varint sz)) (\<lambda>_ s.
            case out_callback s of None \<Rightarrow> prog_call (pb_write [] sz) s
            | Some _ \<Rightarrow> encode_items func step (unat count) data s) s)
      in if ltype = PB_LTYPE_FIXED32 then write (4 * ucast count)
         else if ltype = PB_LTYPE_FIXED64 then write (8 * ucast count)
         else (case encode_items func step (unat count) data (PB_OSTREAM_SIZING (out_state s)) of None \<Rightarrow> None
           | Some (None, _) \<Rightarrow> Some (None, s)
           | Some (Some _, sizestream) \<Rightarrow> write (bytes_written sizestream)))"

lemma packed_emits:
  assumes "emits cb put (encode_items func step (unat count) data) bs"
    and "ltype = PB_LTYPE_FIXED32 \<longrightarrow> length bs = 4 * unat count" and "ltype = PB_LTYPE_FIXED64 \<longrightarrow> length bs = 8 * unat count"
  shows "emits cb put (packed_array ltype func step count data) (varint_bytes (unat (of_nat (length bs) :: u64)) @ bs)"
proof -
  define body where "body = (\<lambda>s. case out_callback s of None \<Rightarrow> prog_call (pb_write [] (of_nat (length bs))) s
    | Some _ \<Rightarrow> encode_items func step (unat count) data s)"
  have count: "(of_nat (unat count) :: u64) = ucast count" by (simp add: of_nat_unat)
  have "packed_array ltype func step count data s = prog_bind (prog_call (pb_encode_varint (of_nat (length bs)))) (\<lambda>_. body) s" for s
  proof -
    have size32: "4 * ucast count = (of_nat (length bs) :: u64)" if "ltype = PB_LTYPE_FIXED32" using assms(2) that count by simp
    have size64: "8 * ucast count = (of_nat (length bs) :: u64)" if "ltype = PB_LTYPE_FIXED64" using assms(3) that count by simp
    have counted: "encode_items func step (unat count) data (PB_OSTREAM_SIZING (out_state s)) =
        Some (Some (), (PB_OSTREAM_SIZING (out_state s))\<lparr>bytes_written := of_nat (length bs)\<rparr>)" by (rule emits_count [OF assms(1)])
    consider "ltype = PB_LTYPE_FIXED32" | "ltype \<noteq> PB_LTYPE_FIXED32" "ltype = PB_LTYPE_FIXED64" | "ltype \<noteq> PB_LTYPE_FIXED32" "ltype \<noteq> PB_LTYPE_FIXED64" by blast
    then show ?thesis
    proof cases
      case 1
      then show ?thesis unfolding packed_array_def Let_def body_def by (simp only: size32 if_True refl)
    next
      case 2
      then show ?thesis unfolding packed_array_def Let_def body_def by (simp only: size64 if_True if_False refl)
    next
      case 3
      have bw: "bytes_written (s\<lparr>bytes_written := n\<rparr>) = n" for s :: "'s pb_ostream" and n by simp
      show ?thesis using 3 unfolding packed_array_def Let_def body_def counted option.case prod.case bw by simp
    qed
  qed
  then have "packed_array ltype func step count data = prog_bind (prog_call (pb_encode_varint (of_nat (length bs)))) (\<lambda>_. body)" by (rule ext)
  moreover have "emits cb put body bs" unfolding body_def by (rule sizing_shortcut [OF assms(1)])
  ultimately show ?thesis using emits_bind [OF varint_emits] by simp
qed

lemma sized_packed:
  assumes "sized cb put (encode_items func step (unat count) data)"
    and "ltype = PB_LTYPE_FIXED32 \<longrightarrow> (\<forall>p. emits cb put (func p) (g p) \<and> length (g p) = 4)"
    and "ltype = PB_LTYPE_FIXED64 \<longrightarrow> (\<forall>p. emits cb put (func p) (g p) \<and> length (g p) = 8)"
  shows "sized cb put (packed_array ltype func step count data)"
proof -
  consider bs where "emits cb put (encode_items func step (unat count) data) bs"
      "ltype = PB_LTYPE_FIXED32 \<longrightarrow> length bs = 4 * unat count" "ltype = PB_LTYPE_FIXED64 \<longrightarrow> length bs = 8 * unat count"
    | "fails_sizing (encode_items func step (unat count) data)" "ltype \<noteq> PB_LTYPE_FIXED32" "ltype \<noteq> PB_LTYPE_FIXED64"
  proof (cases "ltype = PB_LTYPE_FIXED32")
    case True
    then obtain bs where "emits cb put (encode_items func step (unat count) data) bs" "length bs = 4 * unat count"
      using items_emits_fixed [of func g 4 step "unat count" data] assms(2) by blast
    then show ?thesis using that(1) [of bs] True by (simp add: PB_LTYPE_FIXED32_def PB_LTYPE_FIXED64_def)
  next
    case no32: False
    show ?thesis
    proof (cases "ltype = PB_LTYPE_FIXED64")
      case True
      then obtain bs where "emits cb put (encode_items func step (unat count) data) bs" "length bs = 8 * unat count"
        using items_emits_fixed [of func g 8 step "unat count" data] assms(3) by blast
      then show ?thesis using that(1) [of bs] True by (simp add: PB_LTYPE_FIXED32_def PB_LTYPE_FIXED64_def)
    next
      case False
      then show ?thesis using no32 assms(1) that unfolding sized_def by blast
    qed
  qed
  then show ?thesis
  proof cases
    case 1
    then show ?thesis using packed_emits by blast
  next
    case 2
    have none: "encode_items func step (unat count) data (PB_OSTREAM_SIZING st) \<noteq> Some (Some (), t)" for st t
      using 2(1) unfolding fails_sizing_def by (simp add: PB_OSTREAM_SIZING_def)
    have "fails_sizing (packed_array ltype func step count data)"
      unfolding fails_sizing_def
    proof (intro allI impI)
      fix s t :: "'s pb_ostream"
      have "encode_items func step (unat count) data (PB_OSTREAM_SIZING (out_state s)) = None \<or>
          (\<exists>u. encode_items func step (unat count) data (PB_OSTREAM_SIZING (out_state s)) = Some (None, u))"
        using none [of "out_state s"]
        by (cases "encode_items func step (unat count) data (PB_OSTREAM_SIZING (out_state s))") (auto, metis option.exhaust unit.exhaust)
      then show "packed_array ltype func step count data s \<noteq> Some (Some (), t)"
        using 2(2,3) by (auto simp: packed_array_def Let_def)
    qed
    then show ?thesis by blast
  qed
qed

lemma sized_array:
  assumes "\<And>fds src. sized cb put (enc fds src)"
  shows "sized cb put (encode_array E field data count (PB_ENCODERS enc E (PB_LTYPE (fld_type field))))"
proof -
  define ltype where "ltype = PB_LTYPE (fld_type field)"
  define func where "func = PB_ENCODERS enc E ltype field"
  have func: "sized cb put (func p)" for p unfolding func_def by (rule sized_encoder [OF assms])
  define g where "g p = (if ltype = PB_LTYPE_FIXED32 then fixed32_bytes (of_nat (load E 4 p)) else fixed64_bytes (of_nat (load E 8 p)))" for p
  have "sized cb put (packed_array ltype func (ucast (data_size field)) count data)"
  proof (rule sized_packed)
    show "sized cb put (encode_items func (ucast (data_size field)) (unat count) data)" by (rule sized_items [OF func])
    show "ltype = PB_LTYPE_FIXED32 \<longrightarrow> (\<forall>p. emits cb put (func p) (g p) \<and> length (g p) = 4)"
      using fixed32_emits by (auto simp: func_def g_def PB_ENCODERS_def pb_enc_fixed32_def fixed32_bytes_def
          PB_LTYPE_BOOL_def PB_LTYPE_VARINT_def PB_LTYPE_UVARINT_def PB_LTYPE_SVARINT_def PB_LTYPE_FIXED32_def)
    show "ltype = PB_LTYPE_FIXED64 \<longrightarrow> (\<forall>p. emits cb put (func p) (g p) \<and> length (g p) = 8)"
      using fixed64_emits by (auto simp: func_def g_def PB_ENCODERS_def pb_enc_fixed64_def fixed64_bytes_def
          PB_LTYPE_BOOL_def PB_LTYPE_VARINT_def PB_LTYPE_UVARINT_def PB_LTYPE_SVARINT_def PB_LTYPE_FIXED32_def PB_LTYPE_FIXED64_def)
  qed
  then have packed: "sized cb put (prog_bind (prog_call (pb_encode_tag PB_WT_STRING (fld_tag field)))
      (\<lambda>_. packed_array ltype func (ucast (data_size field)) count data))"
    by (rule sized_bind [OF sized_tag])
  have item: "sized cb put (prog_bind (pb_encode_tag_for_field field) (\<lambda>_. if c then func (load_ptr E p) else func p))" for c p
    by (rule sized_bind [OF sized_tag_for_field]) (simp add: func)
  have "encode_array E field data count (PB_ENCODERS enc E ltype) =
     (if count = 0 then prog_return ()
      else if PB_ATYPE (fld_type field) \<noteq> PB_ATYPE_POINTER \<and> count > array_size field then prog_error ''array max size exceeded''
      else if ltype \<le> PB_LTYPE_LAST_PACKABLE then
        prog_bind (prog_call (pb_encode_tag PB_WT_STRING (fld_tag field))) (\<lambda>_. packed_array ltype func (ucast (data_size field)) count data)
      else encode_items (\<lambda>p. prog_bind (pb_encode_tag_for_field field) (\<lambda>_.
             if PB_ATYPE (fld_type field) = PB_ATYPE_POINTER \<and> (ltype = PB_LTYPE_STRING \<or> ltype = PB_LTYPE_BYTES) then func (load_ptr E p)
             else func p)) (ucast (data_size field)) (unat count) data)"
    unfolding encode_array_def Let_def ltype_def [symmetric] func_def packed_array_def ..
  then show ?thesis unfolding ltype_def [symmetric] using packed sized_items [OF item] by simp
qed

section \<open>Fields and messages\<close>

lemma diverges_sized [simp]: "sized cb put (\<lambda>s. None)"
  by (rule fails_sized) (simp add: fails_sizing_def)

lemma sized_basic_field:
  assumes "\<And>fds src. sized cb put (enc fds src)"
  shows "sized cb put (encode_basic_field n enc E field data)"
proof -
  define func where "func = PB_ENCODERS enc E (PB_LTYPE (fld_type field)) field"
  have set: "sized cb put (prog_bind (pb_encode_tag_for_field field) (\<lambda>_. func p))" for p
    by (rule sized_bind [OF sized_tag_for_field]) (simp add: func_def sized_encoder [OF assms])
  have array: "sized cb put (encode_array E field p count (PB_ENCODERS enc E (PB_LTYPE (fld_type field))))" for p count
    by (rule sized_array [OF assms])
  define has where "has = (if size_offset field \<noteq> 0 then Some True
      else if PB_HTYPE (fld_type field) = PB_HTYPE_OPTIONAL then map_option Not (pb_check_proto3_default_value n E field data) else Some True)"
  show ?thesis
  proof (cases has)
    case None
    then have "encode_basic_field n enc E field data = (\<lambda>s. None)"
      by (intro ext) (simp add: encode_basic_field_def Let_def has_def [symmetric])
    then show ?thesis by simp
  next
    case (Some h)
    define q where "q = (if PB_ATYPE (fld_type field) = PB_ATYPE_POINTER then load_ptr E data else data)"
    define h' where "h' = (if PB_ATYPE (fld_type field) = PB_ATYPE_POINTER then q \<noteq> 0 else h)"
    define sz where "sz = data + scast (size_offset field)"
    have "encode_basic_field n enc E field data =
       (if PB_HTYPE (fld_type field) = PB_HTYPE_REQUIRED then
          if q = 0 then prog_error ''missing required field'' else prog_bind (pb_encode_tag_for_field field) (\<lambda>_. func q)
        else if PB_HTYPE (fld_type field) = PB_HTYPE_OPTIONAL then
          if (if size_offset field \<noteq> 0 then safe_read_bool E sz else h') then prog_bind (pb_encode_tag_for_field field) (\<lambda>_. func q) else prog_return ()
        else if PB_HTYPE (fld_type field) = PB_HTYPE_REPEATED then
          encode_array E field q (if size_offset field \<noteq> 0 then load_size E sz else array_size field) (PB_ENCODERS enc E (PB_LTYPE (fld_type field)))
        else if (if size_offset field \<noteq> 0 then load_size E sz else of_bool h') = fld_tag field
             then prog_bind (pb_encode_tag_for_field field) (\<lambda>_. func q) else prog_return ())"
      unfolding encode_basic_field_def Let_def has_def [symmetric] Some option.case q_def [symmetric] h'_def [symmetric] sz_def [symmetric] func_def [symmetric]
      by (intro ext) (simp only: if_distribR)
    then show ?thesis using set array by simp
  qed
qed

lemma sized_callback_field:
  assumes "\<And>fn field arg. sized cb put (field_encoder E fn field arg)"
  shows "sized cb put (encode_callback_field E field data)"
proof (cases "load_ptr E data = 0")
  case True
  then have "encode_callback_field E field data = prog_return ()"
    by (intro ext) (simp add: encode_callback_field_def prog_return_def prog_call_def)
  then show ?thesis by simp
next
  case False
  define f where "f = field_encoder E (load_ptr E data) field (data + 8)"
  have run: "encode_callback_field E field data = (\<lambda>s. case f s of None \<Rightarrow> None
      | Some (None, s) \<Rightarrow> prog_error ''callback error'' s | Some (Some _, s) \<Rightarrow> Some (Some (), s))"
    using False by (intro ext) (simp add: encode_callback_field_def f_def Let_def)
  have "sized cb put f" unfolding f_def by (rule assms)
  then show ?thesis
    unfolding sized_def
  proof (elim disjE exE)
    fix bs
    assume f: "emits cb put f bs"
    have "emits cb put (encode_callback_field E field data) bs"
      unfolding emits_def
    proof (intro allI conjI impI)
      fix s :: "'s pb_ostream"
      assume "out_callback s = None"
      then show "encode_callback_field E field data s = Some (Some (), s\<lparr>bytes_written := bytes_written s + of_nat (length bs)\<rparr>)"
        unfolding run using emits_sizing [OF f, of s] by simp
    next
      fix s :: "'s pb_ostream"
      assume "out_callback s = Some cb \<and> out_errmsg s = None \<and> unat (bytes_written s) \<le> unat (max_size s) \<and> unat (bytes_written s) + length bs < 2 ^ 64"
      then have "lands put f s bs" using emits_lands [OF f] by blast
      then show "lands put (encode_callback_field E field data) s bs"
        unfolding run lands_def by (auto simp: prog_error_def prog_call_def out_error_def split: if_splits)
    next
      fix s t :: "'s pb_ostream"
      assume "out_callback s = Some cb" and "encode_callback_field E field data s = Some (Some (), t)"
      then show "out_callback t = Some cb" "out_state t = put (out_state s) bs"
        using emits_state [OF f, of s] unfolding run by (auto simp: prog_error_def prog_call_def out_error_def split: option.splits)
    qed
    then show "(\<exists>bs. emits cb put (encode_callback_field E field data) bs) \<or> fails_sizing (encode_callback_field E field data)" by blast
  next
    assume f: "fails_sizing f"
    have "fails_sizing (encode_callback_field E field data)"
      unfolding fails_sizing_def
    proof (intro allI impI)
      fix s t :: "'s pb_ostream"
      assume "out_callback s = None"
      then have "f s \<noteq> Some (Some (), u)" for u using f unfolding fails_sizing_def by blast
      then have "f s = None \<or> (\<exists>u. f s = Some (None, u))" by (cases "f s") (auto, metis option.exhaust unit.exhaust)
      then show "encode_callback_field E field data s \<noteq> Some (Some (), t)"
        unfolding run by (auto simp: prog_error_def prog_call_def out_error_def)
    qed
    then show "(\<exists>bs. emits cb put (encode_callback_field E field data) bs) \<or> fails_sizing (encode_callback_field E field data)" ..
  qed
qed

end

text \<open>The functions a message asks to be called must write the same bytes in both passes, as \<open>pb.h\<close> says.\<close>

definition steady_env :: "('s \<Rightarrow> byte list \<Rightarrow> bool \<times> 's) \<Rightarrow> ('s \<Rightarrow> byte list \<Rightarrow> 's) \<Rightarrow> 's pb_env \<Rightarrow> bool" where
  "steady_env cb put E \<longleftrightarrow> (\<forall>fn field arg. sized cb put (field_encoder E fn field arg)) \<and> (\<forall>fn ext. sized cb put (extension_encoder E fn ext))"

context sink
begin

lemma sized_field:
  assumes enc: "\<And>fds src. sized cb put (enc fds src)" and env: "steady_env cb put E"
  shows "sized cb put (encode_field n enc E field data)"
proof -
  have "sized cb put (encode_basic_field n enc E field data)" by (rule sized_basic_field) (rule enc)
  moreover have "sized cb put (encode_callback_field E field data)"
    by (rule sized_callback_field) (use env in \<open>simp add: steady_env_def\<close>)
  ultimately show ?thesis by (simp add: encode_field_def Let_def)
qed

lemma sized_extensions:
  assumes enc: "\<And>fds src. sized cb put (enc fds src)" and env: "steady_env cb put E"
  shows "sized cb put (encode_extensions m n enc E ext)"
proof (induction m arbitrary: ext)
  case (Suc m)
  have field: "sized cb put (encode_field n enc E field data)" for field data
    by (rule sized_field) (rule enc, rule env)
  have step: "sized cb put (if c then extension_encoder E fn ext else default_extension_encoder n enc E ext)" for c fn
    using env field by (simp add: steady_env_def default_extension_encoder_def Let_def)
  have "sized cb put (prog_bind (if c then extension_encoder E fn ext else default_extension_encoder n enc E ext)
      (\<lambda>_. encode_extensions m n enc E ext'))" for c fn ext'
    by (rule sized_bind [OF step Suc.IH])
  then show ?case unfolding encode_extensions.simps Let_def by simp
qed simp

lemma sized_fields:
  "\<forall>fds src. sized cb put (enc fds src) \<Longrightarrow> steady_env cb put E \<Longrightarrow> sized cb put (encode_fields n enc E iter)"
proof (induction n enc E iter rule: encode_fields.induct)
  case (1 n enc E iter)
  have enc: "sized cb put (enc fds src)" for fds src using "1.prems"(1) by blast
  define one where "one = (if PB_LTYPE (fld_type (iter_field E iter)) = PB_LTYPE_EXTENSION
      then encode_extension_field n enc E (iter_field E iter) (pData iter) else encode_field n enc E (iter_field E iter) (pData iter))"
  have "sized cb put (encode_field n enc E (iter_field E iter) (pData iter))"
    by (rule sized_field) (rule enc, rule "1.prems"(2))
  moreover have "sized cb put (encode_extension_field n enc E (iter_field E iter) (pData iter))"
    unfolding encode_extension_field_def by (rule sized_extensions) (rule enc, rule "1.prems"(2))
  ultimately have one: "sized cb put one" unfolding one_def by simp
  obtain more iter' where next': "pb_field_iter_next E iter = (more, iter')" by fastforce
  have rest: "sized cb put (if more then encode_fields n enc E iter' else prog_return ())"
    using "1.IH" [OF refl next' [symmetric] refl] "1.prems" by simp
  have "encode_fields n enc E iter = prog_bind one (\<lambda>_. if more then encode_fields n enc E iter' else prog_return ())"
    by (subst encode_fields.simps) (simp only: Let_def next' prod.case one_def)
  moreover have "sized cb put (prog_bind one (\<lambda>_. if more then encode_fields n enc E iter' else prog_return ()))"
    by (rule sized_bind [OF one]) (rule rest)
  ultimately show ?case by simp
qed

lemma sized_encode: "steady_env cb put E \<Longrightarrow> sized cb put (pb_encode n E fds src)"
proof (induction n arbitrary: fds src)
  case (Suc n)
  have "sized cb put (encode_fields n (pb_encode n E) E iter)" for iter
    by (rule sized_fields) (use Suc in auto)
  then show ?case by (simp split: prod.split)
qed simp

end

section \<open>Properties\<close>

text \<open>C37. \<open>pb_get_encoded_size\<close> is exact. Take a message that can be encoded into some buffer, as fewer than 2 ^ 64 bytes. The size
  is the number of these bytes; with a buffer of at least that many \<open>pb_encode\<close> succeeds and writes precisely these, and with a
  smaller one it fails without writing outside of it. This holds for every message in memory, nested submessages and
  extensions included, if its callbacks write the same in both passes.\<close>

theorem encoded_size_exact:
  assumes "steady_env buf_write buf_put E" and "pb_get_encoded_size null n E fds src = Some (Some sz)"
    and "pb_encode n E fds src (pb_ostream_from_buffer buf0 room0) = Some (Some (), t0)" and "length (fst (out_state t0)) < 2 ^ 64"
  shows "unat sz = length (fst (out_state t0)) \<and>
    (if unat sz \<le> unat room
     then \<exists>t. pb_encode n E fds src (pb_ostream_from_buffer buf room) = Some (Some (), t) \<and>
       out_state t = (fst (out_state t0), drop (unat sz) buf) \<and> bytes_written t = sz
     else \<exists>t. pb_encode n E fds src (pb_ostream_from_buffer buf room) = Some (None, t) \<and> length (fst (out_state t)) \<le> unat room)"
proof -
  have "\<not> fails_sizing (pb_encode n E fds src)"
  proof -
    obtain t where "pb_encode n E fds src (PB_OSTREAM_SIZING null) = Some (Some (), t)"
      using assms(2) by (auto simp: pb_get_encoded_size_def split: option.splits prod.splits)
    moreover have "out_callback (PB_OSTREAM_SIZING null) = None" by (simp add: PB_OSTREAM_SIZING_def)
    ultimately show ?thesis unfolding fails_sizing_def by blast
  qed
  then obtain bs where bs: "emits buf_write buf_put (pb_encode n E fds src) bs"
    using buffer_sink.sized_encode [OF assms(1)] unfolding sized_def by blast
  have sz: "sz = of_nat (length bs)"
    using assms(2) emits_count [OF bs] by (simp add: pb_get_encoded_size_def)
  have out: "fst (out_state t0) = bs"
    using emits_state [OF bs _ assms(3)] by (simp add: pb_ostream_from_buffer_def buf_put_def)
  then have len: "length bs < 2 ^ 64" using assms(4) by simp
  then have un: "unat sz = length bs" unfolding sz by (intro unat_of_nat_small) simp
  have "lands buf_put (pb_encode n E fds src) (pb_ostream_from_buffer buf room) bs"
    by (rule emits_lands [OF bs]) (use len in \<open>simp_all add: pb_ostream_from_buffer_def\<close>)
  then have "if unat sz \<le> unat room
      then \<exists>t. pb_encode n E fds src (pb_ostream_from_buffer buf room) = Some (Some (), t) \<and>
        out_state t = (bs, drop (unat sz) buf) \<and> bytes_written t = sz
      else \<exists>t. pb_encode n E fds src (pb_ostream_from_buffer buf room) = Some (None, t) \<and> length (fst (out_state t)) \<le> unat room"
    unfolding lands_def un by (auto simp: pb_ostream_from_buffer_def buf_put_def sz split: if_splits)
  then show ?thesis using un out by (simp only: simp_thms)
qed

definition sample_field :: "u32 \<Rightarrow> u8 \<Rightarrow> u64 \<Rightarrow> pb_field" where
  "sample_field tag type p = \<lparr>fld_tag = tag, fld_type = type, data_offset = 0, size_offset = 0, data_size = 4, array_size = 0, fld_ptr = p\<rparr>"

text \<open>A message with a number and a submessage that has a number\<close>

definition sample_env :: "out_buffer pb_env" where
  "sample_env = \<lparr>memory = (\<lambda>a. if a = 0x1000 \<or> a = 0x1004 then 150 else 0),
     descriptors = (\<lambda>a. if a = 1 then [sample_field 1 PB_LTYPE_UVARINT 0, sample_field 3 PB_LTYPE_SUBMESSAGE 2]
       else if a = 2 then [sample_field 1 PB_LTYPE_UVARINT 0] else []),
     field_encoder = (\<lambda>_ _ _. prog_return ()), extension_encoder = (\<lambda>_ _. prog_return ())\<rparr>"

lemma sample_size: "pb_get_encoded_size ([], []) 3 sample_env 1 0x1000 = Some (Some 8)"
  by code_simp

definition sample_bytes :: "byte list" where
  "sample_bytes = [0x08, 0x96, 0x01, 0x1a, 0x03, 0x08, 0x96, 0x01]"

lemma success_cases: "(case r of Some (Some _, t) \<Rightarrow> P t | _ \<Rightarrow> False) \<Longrightarrow> \<exists>t. r = Some (Some (), t) \<and> P t"
  by (cases r; cases "fst (the r)"; cases "the r") simp_all

lemma sample_encoded:
  "case pb_encode 3 sample_env 1 0x1000 (pb_ostream_from_buffer [] 9) of
     Some (Some _, t) \<Rightarrow> fst (out_state t) = [0x08, 0x96, 0x01, 0x1a, 0x03, 0x08, 0x96, 0x01] | _ \<Rightarrow> False"
  by code_simp

lemma encoded_size_exact_witness:
  "(\<exists>t. pb_encode 3 sample_env 1 0x1000 (pb_ostream_from_buffer (replicate 8 0) 8) = Some (Some (), t) \<and> out_state t = (sample_bytes, [])) \<and>
   (\<exists>t. pb_encode 3 sample_env 1 0x1000 (pb_ostream_from_buffer (replicate 7 0) 7) = Some (None, t) \<and> length (fst (out_state t)) \<le> 7)"
proof -
  have env: "steady_env buf_write buf_put sample_env"
    by (simp add: steady_env_def sample_env_def buffer_sink.sized_return)
  obtain t0 where t0: "pb_encode 3 sample_env 1 0x1000 (pb_ostream_from_buffer [] 9) = Some (Some (), t0)" "fst (out_state t0) = sample_bytes"
    using success_cases [OF sample_encoded] unfolding sample_bytes_def by blast
  have "length (fst (out_state t0)) < 2 ^ 64" by (simp add: t0(2) sample_bytes_def)
  note exact = encoded_size_exact [OF env sample_size t0(1) this, unfolded t0(2)]
  show ?thesis using exact [of 8 "replicate 8 0"] exact [of 7 "replicate 7 0"] by auto
qed

section \<open>The encoder returns\<close>

text \<open>The submessages of a table nest less than \<open>d\<close> deep, and there are no extensions.\<close>

fun nests :: "'s pb_env \<Rightarrow> nat \<Rightarrow> u64 \<Rightarrow> bool" where
  "nests E 0 fds = False"
| "nests E (Suc d) fds = list_all (\<lambda>f. PB_LTYPE (fld_type f) \<noteq> PB_LTYPE_EXTENSION \<and>
     (PB_LTYPE (fld_type f) = PB_LTYPE_SUBMESSAGE \<longrightarrow> nests E d (fld_ptr f))) (descriptors E fds)"

definition returns :: "('s, 'a) prog \<Rightarrow> bool" where
  "returns f \<longleftrightarrow> (\<forall>s. f s \<noteq> None)"

lemma returnsE:
  assumes "returns f"
  obtains r where "f = (\<lambda>s. Some (r s))"
proof
  show "f = (\<lambda>s. Some (the (f s)))" using assms by (intro ext) (simp add: returns_def)
qed

lemma returns_total [simp]: "returns (\<lambda>s. Some (r s))"
  by (simp add: returns_def)

lemma returns_call [simp]: "returns (prog_call m)"
  by (simp add: returns_def prog_call_def)

lemma returns_return [simp]: "returns (prog_return a)"
  by (simp add: prog_return_def)

lemma returns_error [simp]: "returns (prog_error msg)"
  by (simp add: prog_error_def)

lemma returns_bind: "returns f \<Longrightarrow> (\<And>a. returns (g a)) \<Longrightarrow> returns (prog_bind f g)"
  by (auto simp: returns_def prog_bind_def split: option.split)

lemma returns_tag_for_field [simp]: "returns (pb_encode_tag_for_field field)"
  by (simp add: pb_encode_tag_for_field_def Let_def)

lemma returns_submessage:
  assumes "returns (enc fds src)"
  shows "returns (pb_encode_submessage enc fds src)"
proof -
  obtain r where "enc fds src = (\<lambda>s. Some (r s))" using assms by (rule returnsE)
  then show ?thesis
    unfolding returns_def pb_encode_submessage_def prog_bind_def prog_call_def prog_error_def
    by (simp add: Let_def split: option.split prod.split)
qed

lemma returns_encoder:
  assumes "ltype = PB_LTYPE_SUBMESSAGE \<longrightarrow> (\<forall>src. returns (enc (fld_ptr field) src))"
  shows "returns (PB_ENCODERS enc E ltype field src)"
proof -
  have sub: "returns (pb_enc_submessage enc field src)" if "ltype = PB_LTYPE_SUBMESSAGE"
    unfolding pb_enc_submessage_def using assms that returns_submessage [of enc "fld_ptr field" src] by simp
  have "returns (pb_enc_varint E field src)" unfolding pb_enc_varint_def by (cases "load_signed E (data_size field) src") simp_all
  moreover have "returns (pb_enc_uvarint E field src)" unfolding pb_enc_uvarint_def by (cases "load_unsigned E (data_size field) src") simp_all
  moreover have "returns (pb_enc_svarint E field src)" unfolding pb_enc_svarint_def by (cases "load_signed E (data_size field) src") simp_all
  moreover have "returns (pb_enc_bytes E field src)" unfolding pb_enc_bytes_def Let_def by simp
  ultimately show ?thesis unfolding PB_ENCODERS_def using sub
    by (simp add: pb_enc_bool_def pb_enc_fixed32_def pb_enc_fixed64_def pb_enc_string_def pb_enc_fixed_length_bytes_def Let_def)
qed

lemma returns_items: "(\<And>p. returns (func p)) \<Longrightarrow> returns (encode_items func step n p)"
  by (induction n arbitrary: p) (simp_all add: returns_bind)

lemma returns_array:
  assumes func: "\<And>p. returns (func field p)"
  shows "returns (encode_array E field data count func)"
proof -
  have items: "returns (encode_items (func field) (ucast (data_size field)) n p)" for n p by (rule returns_items) (rule func)
  then obtain r where r: "encode_items (func field) (ucast (data_size field)) (unat count) data = (\<lambda>s. Some (r s))" by (rule returnsE)
  have wr: "returns (prog_bind (prog_call (pb_encode_varint sz)) (\<lambda>_ s. case out_callback s of None \<Rightarrow> prog_call (pb_write [] sz) s
      | Some _ \<Rightarrow> encode_items (func field) (ucast (data_size field)) (unat count) data s))" for sz
    unfolding r by (rule returns_bind) (simp_all add: returns_def prog_call_def split: option.split)
  have "\<exists>w. \<forall>sz. prog_bind (prog_call (pb_encode_varint sz)) (\<lambda>_ s. case out_callback s of None \<Rightarrow> prog_call (pb_write [] sz) s
      | Some _ \<Rightarrow> encode_items (func field) (ucast (data_size field)) (unat count) data s) = (\<lambda>s. Some (w sz s))"
    by (rule choice) (use wr in \<open>blast elim: returnsE\<close>)
  then obtain w where w: "prog_bind (prog_call (pb_encode_varint sz)) (\<lambda>_ s. case out_callback s of None \<Rightarrow> prog_call (pb_write [] sz) s
      | Some _ \<Rightarrow> encode_items (func field) (ucast (data_size field)) (unat count) data s) = (\<lambda>s. Some (w sz s))" for sz by blast
  have item: "returns (prog_bind (pb_encode_tag_for_field field) (\<lambda>_. if c then func field (load_ptr E p) else func field p))" for c p
    by (rule returns_bind) (simp_all add: func)
  have packed: "returns (prog_bind (prog_call (pb_encode_tag PB_WT_STRING (fld_tag field))) (\<lambda>_ s.
      if a then Some (w x s) else if b then Some (w y s)
      else case Some (r (PB_OSTREAM_SIZING (out_state s))) of None \<Rightarrow> None
        | Some (None, _) \<Rightarrow> Some (None, s) | Some (Some _, t) \<Rightarrow> Some (w (bytes_written t) s)))" for a b x y
    by (rule returns_bind [OF returns_call]) (simp add: returns_def split: option.split prod.split)
  show ?thesis
    unfolding encode_array_def Let_def w
    unfolding r using packed by (simp add: returns_items item)
qed

lemma all_default_returns:
  "(\<And>i src. i < length (descriptors E (iter_start iter)) \<Longrightarrow> check (descriptors E (iter_start iter) ! i) src \<noteq> None) \<Longrightarrow>
    iter_pos iter < length (descriptors E (iter_start iter)) \<Longrightarrow> all_default check E iter \<noteq> None"
proof (induction check E iter rule: all_default.induct)
  case (1 check E iter)
  have "check (iter_field E iter) (pData iter) \<noteq> None"
    using "1.prems" by (simp add: iter_field_def field_at_def)
  then obtain d where d: "check (iter_field E iter) (pData iter) = Some d" by blast
  obtain more iter' where next': "pb_field_iter_next E iter = (more, iter')" by fastforce
  have "all_default check E iter' \<noteq> None" if "d" "more"
    by (rule "1.IH" [OF d _ next' [symmetric] refl]) (use that "1.prems" iter_next_pos [of E iter iter'] next' in auto)
  then show ?case using d next' by (subst all_default.simps) (cases d; cases more; auto)
qed

lemma begin_pos:
  assumes "pb_field_iter_begin E fds src = (True, iter)"
  shows "iter_start iter = fds \<and> iter_pos iter < length (descriptors E fds)"
  using assms by (auto simp: pb_field_iter_begin_def field_at_def PB_LAST_FIELD_def Let_def split: if_splits)

lemma if_returns: "(if b then x else y) \<noteq> None \<longleftrightarrow> (b \<longrightarrow> x \<noteq> None) \<and> (\<not> b \<longrightarrow> y \<noteq> None)"
  by simp

lemma check_returns: "nests E d fds \<Longrightarrow> field \<in> set (descriptors E fds) \<Longrightarrow> d \<le> n \<Longrightarrow> pb_check_proto3_default_value n E field data \<noteq> None"
proof (induction d arbitrary: n fds field data)
  case (Suc d)
  obtain m where m: "n = Suc m" "d \<le> m" using Suc.prems(3) by (cases n) simp_all
  have nest: "PB_LTYPE (fld_type field) = PB_LTYPE_SUBMESSAGE \<Longrightarrow> nests E d (fld_ptr field)"
    using Suc.prems(1,2) by (simp add: list_all_iff)
  have sub: "(case pb_field_iter_begin E (fld_ptr field) data of (go, iter) \<Rightarrow>
      if go then all_default (pb_check_proto3_default_value m E) E iter else Some True) \<noteq> None"
    if sub: "PB_LTYPE (fld_type field) = PB_LTYPE_SUBMESSAGE"
  proof -
    obtain more iter where b: "pb_field_iter_begin E (fld_ptr field) data = (more, iter)" by fastforce
    have "all_default (pb_check_proto3_default_value m E) E iter \<noteq> None" if "more"
      by (rule all_default_returns) (use b that begin_pos [of E "fld_ptr field" data iter] Suc.IH [OF nest [OF sub] _ m(2)] in \<open>auto\<close>)
    then show ?thesis using b by (cases more) auto
  qed
  show ?case unfolding m(1) pb_check_proto3_default_value.simps Let_def
    by (simp only: if_returns option.distinct not_False_eq_True simp_thms) (use sub in blast)
qed simp

lemma returns_basic_field:
  assumes "PB_LTYPE (fld_type field) = PB_LTYPE_SUBMESSAGE \<longrightarrow> (\<forall>src. returns (enc (fld_ptr field) src))"
    and "\<And>data. pb_check_proto3_default_value n E field data \<noteq> None"
  shows "returns (encode_basic_field n enc E field data)"
proof -
  define func where "func = PB_ENCODERS enc E (PB_LTYPE (fld_type field))"
  have func: "returns (func field p)" for p unfolding func_def by (rule returns_encoder) (rule assms(1))
  have set: "returns (prog_bind (pb_encode_tag_for_field field) (\<lambda>_. func field p))" for p
    by (rule returns_bind) (simp_all add: func)
  have array: "returns (encode_array E field p count func)" for p count by (rule returns_array) (rule func)
  have put: "prog_bind (pb_encode_tag_for_field field) (\<lambda>_. func field p) s \<noteq> None" for p s
    using set [of p] unfolding returns_def by (rule spec)
  have arr: "encode_array E field p count func s \<noteq> None" for p count s
    using array [of p count] unfolding returns_def by (rule spec)
  have ret: "prog_error msg s \<noteq> None" "prog_return () s \<noteq> None" for msg s by (simp_all add: prog_error_def prog_return_def prog_call_def)
  have has: "(if size_offset field \<noteq> 0 then Some True
      else if PB_HTYPE (fld_type field) = PB_HTYPE_OPTIONAL then map_option Not (pb_check_proto3_default_value n E field data) else Some True) \<noteq> None"
    using assms(2) [of data] by auto
  then obtain h where h: "(if size_offset field \<noteq> 0 then Some True
      else if PB_HTYPE (fld_type field) = PB_HTYPE_OPTIONAL then map_option Not (pb_check_proto3_default_value n E field data) else Some True) = Some h"
    by blast
  show ?thesis
    unfolding returns_def encode_basic_field_def Let_def func_def [symmetric] h option.case if_distribR
    by (simp only: if_returns put arr ret not_False_eq_True simp_thms)
qed

lemma returns_fields:
  "\<forall>i<length (descriptors E (iter_start iter)). \<forall>data. returns (encode_field n enc E (descriptors E (iter_start iter) ! i) data) \<and>
     PB_LTYPE (fld_type (descriptors E (iter_start iter) ! i)) \<noteq> PB_LTYPE_EXTENSION \<Longrightarrow>
   iter_pos iter < length (descriptors E (iter_start iter)) \<Longrightarrow> returns (encode_fields n enc E iter)"
proof (induction n enc E iter rule: encode_fields.induct)
  case (1 n enc E iter)
  have field: "iter_field E iter = descriptors E (iter_start iter) ! iter_pos iter"
    using "1.prems"(2) by (simp add: iter_field_def field_at_def)
  have one: "returns (encode_field n enc E (iter_field E iter) (pData iter))"
    and noext: "PB_LTYPE (fld_type (iter_field E iter)) \<noteq> PB_LTYPE_EXTENSION"
    using "1.prems" unfolding field by blast+
  obtain more iter' where next': "pb_field_iter_next E iter = (more, iter')" by fastforce
  have rest: "returns (if more then encode_fields n enc E iter' else prog_return ())"
  proof (cases more)
    case True
    have "returns (encode_fields n enc E iter')"
      by (rule "1.IH" [OF refl next' [symmetric] refl True]) (use True "1.prems" iter_next_pos [of E iter iter'] next' in auto)
    then show ?thesis by simp
  qed simp
  have "encode_fields n enc E iter = prog_bind (encode_field n enc E (iter_field E iter) (pData iter))
      (\<lambda>_. if more then encode_fields n enc E iter' else prog_return ())"
    using noext by (subst encode_fields.simps) (simp only: Let_def next' prod.case if_False)
  moreover have "returns (prog_bind (encode_field n enc E (iter_field E iter) (pData iter)) (\<lambda>_. if more then encode_fields n enc E iter' else prog_return ()))"
    by (rule returns_bind [OF one rest])
  ultimately show ?case by simp
qed

text \<open>C40. The encoder returns, on every stream and whatever the memory holds, when the callbacks return and the descriptor tables have
  no extension fields and nest submessages less than \<open>d\<close> deep: the recursion is then no deeper than the tables. A chain of
  extensions in memory may be cyclic, and then the code does not return.\<close>

theorem encode_returns:
  assumes "nests E d fds" and "\<forall>fn field arg. returns (field_encoder E fn field arg)" and "d \<le> n"
  shows "pb_encode (Suc n) E fds src s \<noteq> None"
proof -
  have "returns (pb_encode (Suc n) E fds src)"
    using assms(1,3)
  proof (induction d arbitrary: n fds src)
    case (Suc d)
    obtain m where m: "n = Suc m" "d \<le> m" using Suc.prems(2) by (cases n) simp_all
    obtain more iter where b: "pb_field_iter_begin E fds src = (more, iter)" by fastforce
    have "returns (encode_fields n (pb_encode n E) E iter)" if "more"
    proof (rule returns_fields; (intro allI impI conjI)?)
      have iter: "iter_start iter = fds" "iter_pos iter < length (descriptors E fds)" using begin_pos [of E fds src iter] b that by simp_all
      show "iter_pos iter < length (descriptors E (iter_start iter))" using iter by simp
      fix i data
      assume i: "i < length (descriptors E (iter_start iter))"
      define field where "field = descriptors E (iter_start iter) ! i"
      have mem: "field \<in> set (descriptors E fds)" using i iter by (simp add: field_def)
      then show "PB_LTYPE (fld_type (descriptors E (iter_start iter) ! i)) \<noteq> PB_LTYPE_EXTENSION"
        using Suc.prems(1) unfolding field_def [symmetric] by (simp add: list_all_iff)
      have sub: "PB_LTYPE (fld_type field) = PB_LTYPE_SUBMESSAGE \<longrightarrow> (\<forall>src. returns (pb_encode n E (fld_ptr field) src))"
        using Suc.IH [of "fld_ptr field" m] m Suc.prems(1) mem by (simp add: list_all_iff del: pb_encode.simps)
      have basic: "returns (encode_basic_field n (pb_encode n E) E field data)"
        by (rule returns_basic_field) (rule sub, rule check_returns [OF Suc.prems(1) mem Suc.prems(2)])
      have cbf: "returns (encode_callback_field E field data)"
      proof -
        obtain r where "field_encoder E (load_ptr E data) field (data + 8) = (\<lambda>s. Some (r s))"
          using assms(2) returnsE by metis
        then show ?thesis
          by (simp add: returns_def encode_callback_field_def Let_def prog_error_def prog_call_def split: option.split prod.split)
      qed
      show "returns (encode_field n (pb_encode n E) E (descriptors E (iter_start iter) ! i) data)"
        unfolding field_def [symmetric] encode_field_def Let_def using basic cbf by simp
    qed
    then show ?case using b by simp
  qed simp
  then show ?thesis by (simp add: returns_def)
qed

lemma encode_returns_witness: "\<exists>r. pb_encode 3 sample_env 1 0x1000 (PB_OSTREAM_SIZING ([], [])) = Some r"
proof -
  have "nests sample_env 2 1" by code_simp
  moreover have "\<forall>fn field arg. returns (field_encoder sample_env fn field arg)" by (simp add: sample_env_def)
  ultimately have "pb_encode (Suc 2) sample_env 1 0x1000 (PB_OSTREAM_SIZING ([], [])) \<noteq> None"
    by (rule encode_returns) simp
  then show ?thesis by (simp add: numeral_3_eq_3 numeral_2_eq_2 del: pb_encode.simps)
qed

end
