(* ===== verification/Nanopb_Fields.thy ===== *)
theory Nanopb_Fields
  imports Nanopb_Size
begin

text \<open>
  The decoders of single fields of nanopb (\<open>nanopb/pb_decode.c\<close>), all but the one of submessages. A decoder returns the
  bytes or the integer it stored, an integer as the 64-bit word that the stored one converts to. What it leaves in
  the destination when it fails is not modelled. \<open>room\<close> says which requests of memory the allocator grants.
\<close>

section \<open>The code\<close>

definition allocate_field :: "(nat \<Rightarrow> bool) \<Rightarrow> nat \<Rightarrow> nat \<Rightarrow> ('s pb_istream, unit) op" where
  "allocate_field room dsize asize =
     (if dsize = 0 \<or> asize = 0 then in_error ''invalid size''
      else
        let check_limit = 2 ^ 32
        in if (dsize \<ge> check_limit \<or> asize \<ge> check_limit) \<and> SIZE_MAX div asize < dsize then in_error ''size too large''
           else if \<not> room (asize * dsize) then in_error ''realloc failed''
           else op_return ())"

definition pb_dec_bool :: "pb_field \<Rightarrow> ('s pb_istream, bool) op" where
  "pb_dec_bool field = op_map (\<lambda>value. value \<noteq> 0) pb_decode_varint32"

definition pb_dec_varint :: "pb_field \<Rightarrow> ('s pb_istream, u64) op" where
  "pb_dec_varint field = op_bind pb_decode_varint (\<lambda>value.
     let svalue = (if data_size field = 8 then value else scast (ucast value :: 32 word));
         clamped = (if data_size field = 8 then Some svalue
                    else if data_size field = 4 then Some (scast (ucast svalue :: 32 word))
                    else if data_size field = 2 then Some (scast (ucast svalue :: 16 word))
                    else if data_size field = 1 then Some (scast (ucast svalue :: 8 word))
                    else None)
     in case clamped of None \<Rightarrow> in_error ''invalid data_size''
        | Some clamped \<Rightarrow> if clamped \<noteq> svalue then in_error ''integer too large'' else op_return clamped)"

definition pb_dec_uvarint :: "pb_field \<Rightarrow> ('s pb_istream, u64) op" where
  "pb_dec_uvarint field = op_bind pb_decode_varint (\<lambda>value.
     let clamped = (if data_size field = 8 then Some value
                    else if data_size field = 4 then Some (ucast (ucast value :: 32 word))
                    else if data_size field = 2 then Some (ucast (ucast value :: 16 word))
                    else if data_size field = 1 then Some (ucast (ucast value :: 8 word))
                    else None)
     in case clamped of None \<Rightarrow> in_error ''invalid data_size''
        | Some clamped \<Rightarrow> if clamped \<noteq> value then in_error ''integer too large'' else op_return clamped)"

definition pb_dec_svarint :: "pb_field \<Rightarrow> ('s pb_istream, u64) op" where
  "pb_dec_svarint field = op_bind pb_decode_svarint (\<lambda>value.
     let clamped = (if data_size field = 8 then Some value
                    else if data_size field = 4 then Some (scast (ucast value :: 32 word))
                    else if data_size field = 2 then Some (scast (ucast value :: 16 word))
                    else if data_size field = 1 then Some (scast (ucast value :: 8 word))
                    else None)
     in case clamped of None \<Rightarrow> in_error ''invalid data_size''
        | Some clamped \<Rightarrow> if clamped \<noteq> value then in_error ''integer too large'' else op_return clamped)"

definition pb_dec_fixed32 :: "pb_field \<Rightarrow> ('s pb_istream, u32) op" where
  "pb_dec_fixed32 field = pb_decode_fixed32"

definition pb_dec_fixed64 :: "pb_field \<Rightarrow> ('s pb_istream, u64) op" where
  "pb_dec_fixed64 field = pb_decode_fixed64"

text \<open>\<open>PB_BYTES_ARRAY_T_ALLOCSIZE(size)\<close> is \<open>size + 4\<close>.\<close>

definition pb_dec_bytes :: "(nat \<Rightarrow> bool) \<Rightarrow> pb_field \<Rightarrow> ('s pb_istream, byte list) op" where
  "pb_dec_bytes room field = op_bind pb_decode_varint32 (\<lambda>sz.
     if sz > PB_SIZE_MAX then in_error ''bytes overflow''
     else
       let alloc_size = (unat sz + 4) mod 2 ^ 64
       in if unat sz > alloc_size then in_error ''size too large''
          else if PB_ATYPE (fld_type field) = PB_ATYPE_POINTER then
            (\<lambda>s. if bytes_left s < unat sz then in_error ''end-of-stream'' s
                  else op_bind (allocate_field room alloc_size 1) (\<lambda>_. pb_read (unat sz)) s)
          else if alloc_size > unat (data_size field) then in_error ''bytes overflow''
          else pb_read (unat sz))"

text \<open>The sum \<open>size + 1\<close> of a string has 32 bits. The string is stored with its terminator.\<close>

definition pb_dec_string :: "(nat \<Rightarrow> bool) \<Rightarrow> pb_field \<Rightarrow> ('s pb_istream, byte list) op" where
  "pb_dec_string room field = op_bind pb_decode_varint32 (\<lambda>sz.
     let alloc_size = unat (sz + 1)
     in if alloc_size < unat sz then in_error ''size too large''
        else op_map (\<lambda>bs. bs @ [0])
          (if PB_ATYPE (fld_type field) = PB_ATYPE_POINTER then
             (\<lambda>s. if bytes_left s < unat sz then in_error ''end-of-stream'' s
                   else op_bind (allocate_field room alloc_size 1) (\<lambda>_. pb_read (unat sz)) s)
           else if alloc_size > unat (data_size field) then in_error ''string overflow''
           else pb_read (unat sz)))"

definition pb_dec_fixed_length_bytes :: "pb_field \<Rightarrow> ('s pb_istream, byte list) op" where
  "pb_dec_fixed_length_bytes field = op_bind pb_decode_varint32 (\<lambda>sz.
     if sz > PB_SIZE_MAX then in_error ''bytes overflow''
     else if sz = 0 then op_return (replicate (unat (data_size field)) 0)
     else if sz \<noteq> data_size field then in_error ''incorrect fixed length bytes size''
     else pb_read (unat (data_size field)))"

section \<open>Integer fields\<close>

definition field_size_ok :: "u32 \<Rightarrow> bool" where
  "field_size_ok sz \<longleftrightarrow> sz = 1 \<or> sz = 2 \<or> sz = 4 \<or> sz = 8"

text \<open>The words that are sign extensions, and zero extensions, of \<open>sz\<close> bytes\<close>

definition signed_fits :: "u32 \<Rightarrow> u64 \<Rightarrow> bool" where
  "signed_fits sz v \<longleftrightarrow> - (2 ^ (8 * unat sz - 1)) \<le> sint v \<and> sint v < 2 ^ (8 * unat sz - 1)"

definition unsigned_fits :: "u32 \<Rightarrow> u64 \<Rightarrow> bool" where
  "unsigned_fits sz v \<longleftrightarrow> unat v < 2 ^ (8 * unat sz)"

lemma scast_ucast_iff:
  assumes "LENGTH('a::len) \<le> 64"
  shows "scast (ucast v :: 'a word) = (v :: u64) \<longleftrightarrow> - (2 ^ (LENGTH('a) - 1)) \<le> sint v \<and> sint v < 2 ^ (LENGTH('a) - 1)"
proof -
  define n where "n = LENGTH('a) - 1"
  have n: "n \<le> 63" using assms by (simp add: n_def)
  have "scast (ucast v :: 'a word) = v \<longleftrightarrow> sint (scast (ucast v :: 'a word) :: u64) = sint v" by (simp add: word_eq_iff_signed)
  also have "sint (scast (ucast v :: 'a word) :: u64) = sint (ucast v :: 'a word)"
    by (rule sint_up_scast) (use assms in \<open>simp add: is_up\<close>)
  also have "sint (ucast v :: 'a word) = signed_take_bit n (uint v)" by (simp add: signed_ucast_eq n_def)
  also have "signed_take_bit n (uint v) = signed_take_bit n (sint v)"
    by (rule bit_eqI) (use n in \<open>auto simp: bit_signed_take_bit_iff bit_unsigned_iff bit_signed_iff min_def\<close>)
  finally show ?thesis by (simp add: signed_take_bit_int_eq_self_iff n_def)
qed

lemma ucast_ucast_iff:
  assumes "LENGTH('a::len) \<le> 64"
  shows "ucast (ucast v :: 'a word) = (v :: u64) \<longleftrightarrow> unat v < 2 ^ LENGTH('a)"
proof -
  have "unat v mod 2 ^ LENGTH('a) < 2 ^ 64"
    using le_less_trans [OF mod_less_eq_dividend word_unat_lt [of v]] by simp
  then have "unat (ucast (ucast v :: 'a word) :: u64) = unat v mod 2 ^ LENGTH('a)" by (simp add: unat_ucast_mod)
  moreover have "unat v mod 2 ^ LENGTH('a) = unat v \<longleftrightarrow> unat v < 2 ^ LENGTH('a)"
    by (metis mod_less mod_less_divisor zero_less_numeral zero_less_power)
  ultimately show ?thesis by (simp add: word_unat_eq_iff)
qed

lemma field_sizes: "field_size_ok sz \<Longrightarrow> (unat sz = 1 \<and> sz = 1) \<or> (unat sz = 2 \<and> sz = 2) \<or> (unat sz = 4 \<and> sz = 4) \<or> (unat sz = 8 \<and> sz = 8)"
  unfolding field_size_ok_def by (elim disjE) simp_all

lemma checked_cast: "(if c \<noteq> v then in_error m else op_return c) = (if c = v then op_return v else in_error m)"
  by auto

lemma signed_casts:
  "scast (ucast v :: 8 word) = v \<longleftrightarrow> - 128 \<le> sint v \<and> sint v < 128"
  "scast (ucast v :: 16 word) = v \<longleftrightarrow> - 32768 \<le> sint v \<and> sint v < 32768"
  "scast (ucast v :: 32 word) = v \<longleftrightarrow> - 2147483648 \<le> sint v \<and> sint v < 2147483648"
  "- 9223372036854775808 \<le> sint v \<and> sint v < 9223372036854775808" for v :: u64
  using scast_ucast_iff [where 'a = 8, of v] scast_ucast_iff [where 'a = 16, of v] scast_ucast_iff [where 'a = 32, of v]
    sint_greater_eq [of v] sint_less [of v] by simp_all

lemma unsigned_casts:
  "ucast (ucast v :: 8 word) = v \<longleftrightarrow> unat v < 256"
  "ucast (ucast v :: 16 word) = v \<longleftrightarrow> unat v < 65536"
  "ucast (ucast v :: 32 word) = v \<longleftrightarrow> unat v < 4294967296"
  "unat v < 18446744073709551616" for v :: u64
  using ucast_ucast_iff [where 'a = 8, of v] ucast_ucast_iff [where 'a = 16, of v] ucast_ucast_iff [where 'a = 32, of v]
    word_unat_lt [of v] by simp_all

lemma dec_svarint_eq:
  assumes "field_size_ok (data_size field)"
  shows "pb_dec_svarint field = op_bind pb_decode_svarint (\<lambda>v. if signed_fits (data_size field) v then op_return v else in_error ''integer too large'')"
  using field_sizes [OF assms] unfolding pb_dec_svarint_def signed_fits_def Let_def
  by (elim disjE conjE; simp add: checked_cast; simp add: signed_casts)

lemma dec_uvarint_eq:
  assumes "field_size_ok (data_size field)"
  shows "pb_dec_uvarint field = op_bind pb_decode_varint (\<lambda>v. if unsigned_fits (data_size field) v then op_return v else in_error ''integer too large'')"
  using field_sizes [OF assms] unfolding pb_dec_uvarint_def unsigned_fits_def Let_def
  by (elim disjE conjE; simp add: checked_cast; simp add: unsigned_casts)

lemma dec_varint_eq:
  assumes "field_size_ok (data_size field)"
  shows "pb_dec_varint field = op_bind pb_decode_varint (\<lambda>v.
    let v = (if data_size field = 8 then v else scast (ucast v :: 32 word))
    in if signed_fits (data_size field) v then op_return v else in_error ''integer too large'')"
  using field_sizes [OF assms] unfolding pb_dec_varint_def signed_fits_def Let_def
  by (elim disjE conjE; simp add: checked_cast cong del: if_weak_cong; simp add: signed_casts cong del: if_weak_cong)


section \<open>Integers written and read back\<close>

text \<open>What \<open>enc\<close> writes into a buffer with room for 10 bytes, \<open>dec\<close> reads as \<open>v\<close>.\<close>

definition written_reads :: "(out_buffer pb_ostream, unit) prog \<Rightarrow> (byte list pb_istream, 'a) op \<Rightarrow> 'a \<Rightarrow> bool" where
  "written_reads enc dec v \<longleftrightarrow> (\<forall>buf. \<exists>t. enc (pb_ostream_from_buffer buf 10) = Some (Some (), t) \<and>
     fst (dec (pb_istream_from_buffer (fst (out_state t)) (unat (bytes_written t)))) = Some v)"

lemma written_readsI:
  assumes "emits buf_write buf_put enc bs" and "length bs \<le> 10"
    and "\<And>s. buf_stream s \<Longrightarrow> visible s = bs @ [] \<Longrightarrow> fst (dec s) = Some v"
  shows "written_reads enc dec v"
  unfolding written_reads_def
proof
  fix buf :: "byte list"
  define t where "t = (pb_ostream_from_buffer buf 10)\<lparr>out_state := buf_put ([], buf) bs, bytes_written := of_nat (length bs)\<rparr>"
  have "lands buf_put enc (pb_ostream_from_buffer buf 10) bs"
    by (rule emits_lands [OF assms(1)]) (use assms(2) in \<open>simp_all add: pb_ostream_from_buffer_def\<close>)
  then have "enc (pb_ostream_from_buffer buf 10) = Some (Some (), t)"
    using assms(2) by (simp add: lands_def t_def pb_ostream_from_buffer_def)
  moreover have "unat (bytes_written t) = length bs"
    using assms(2) unat_of_nat_small [of "length bs", where 'a = 64] by (simp add: t_def)
  moreover have "fst (out_state t) = bs" by (simp add: t_def buf_put_def)
  moreover have "fst (dec (pb_istream_from_buffer bs (length bs))) = Some v"
    by (rule assms(3)) (simp_all add: buf_stream_from_buffer visible_from_buffer)
  ultimately show "\<exists>t. enc (pb_ostream_from_buffer buf 10) = Some (Some (), t) \<and>
      fst (dec (pb_istream_from_buffer (fst (out_state t)) (unat (bytes_written t)))) = Some v"
    by auto
qed

lemma scast_fits:
  assumes "LENGTH('a::len) \<le> 64"
  shows "- (2 ^ (LENGTH('a) - 1)) \<le> sint (scast (x :: 'a word) :: u64) \<and> sint (scast x :: u64) < 2 ^ (LENGTH('a) - 1)"
  using sint_up_scast [of x, where 'b = 64] assms sint_greater_eq [of x] sint_less [of x] by (simp add: is_up)

lemma load_signed_fits: "field_size_ok sz \<Longrightarrow> \<exists>v. load_signed E sz src = Some v \<and> signed_fits sz v"
  unfolding load_signed_def signed_fits_def field_size_ok_def
  using scast_fits [where 'a = 8] scast_fits [where 'a = 16] scast_fits [where 'a = 32] signed_casts(4)
  by (elim disjE) simp_all

lemma ucast_fits: "unat (ucast (x :: 'a::len word) :: u64) < 2 ^ LENGTH('a)"
  using le_less_trans [OF mod_less_eq_dividend word_unat_lt [of x]] by (simp add: unat_ucast_mod)

lemma load_unsigned_fits: "field_size_ok sz \<Longrightarrow> \<exists>v. load_unsigned E sz src = Some v \<and> unsigned_fits sz v"
  unfolding load_unsigned_def unsigned_fits_def field_size_ok_def
  using ucast_fits [where 'a = 8] ucast_fits [where 'a = 16] ucast_fits [where 'a = 32] word_unat_lt [where 'a = 64]
  by (elim disjE) simp_all

lemma signed_fits_low: "field_size_ok sz \<Longrightarrow> signed_fits sz v \<Longrightarrow> sz \<noteq> 8 \<Longrightarrow> scast (ucast v :: 32 word) = v"
  unfolding signed_fits_def field_size_ok_def signed_casts by (elim disjE) simp_all

lemma varint_read_all: "buf_stream s \<Longrightarrow> visible s = varint_bytes (unat v) @ [] \<Longrightarrow> \<exists>t. pb_decode_varint s = (Some v, t)"
  using varint_read_word by blast

lemma svarint_read_all: "buf_stream s \<Longrightarrow> visible s = value_bytes (Signed v) @ [] \<Longrightarrow> \<exists>t. pb_decode_svarint s = (Some v, t)"
  using svarint_read by blast

lemma length_svarint: "length (value_bytes (Signed v)) \<le> 10"
  by (simp add: Let_def length_varint_word)

section \<open>Properties\<close>

text \<open>A field of a signed or unsigned integer of 1, 2, 4 or 8 bytes takes exactly the values it can hold: what the
  varint reader returns is refused if it does not fit the field, and else stored as it is. Of a plain varint
  read into fewer than 8 bytes only the low 32 bits count, sign-extended.\<close>

theorem field_integers_exact:
  assumes "field_size_ok (data_size field)"
  shows "(pb_dec_varint field s = (Some x, t) \<longleftrightarrow> (\<exists>v. pb_decode_varint s = (Some v, t) \<and>
       x = (if data_size field = 8 then v else scast (ucast v :: 32 word)) \<and> signed_fits (data_size field) x)) \<and>
    (pb_dec_svarint field s = (Some x, t) \<longleftrightarrow> pb_decode_svarint s = (Some x, t) \<and> signed_fits (data_size field) x) \<and>
    (pb_dec_uvarint field s = (Some x, t) \<longleftrightarrow> pb_decode_varint s = (Some x, t) \<and> unsigned_fits (data_size field) x)"
  unfolding dec_varint_eq [OF assms] dec_svarint_eq [OF assms] dec_uvarint_eq [OF assms] op_bind_eq_Some Let_def
  by (auto simp: in_error_def)

definition int16_field :: pb_field where
  "int16_field = \<lparr>fld_tag = 1, fld_type = PB_LTYPE_UVARINT, data_offset = 0, size_offset = 0, data_size = 2, array_size = 0, fld_ptr = 0\<rparr>"

lemma field_integers_exact_witness:
  "fst (pb_dec_uvarint int16_field (pb_istream_from_buffer [0xAC, 0x02] 2)) = Some 300"
proof -
  define s where "s = pb_istream_from_buffer [0xAC, 0x02] 2"
  have s: "buf_stream s" "visible s = varint_bytes (unat (300 :: u64)) @ []"
    by (simp_all add: s_def buf_stream_from_buffer visible_from_buffer varint_bytes.simps)
  have "pb_decode_varint s = (Some 300, advance (length (varint_bytes (unat (300 :: u64)))) s)" by (rule varint_read_word [OF s])
  moreover have "field_size_ok (data_size int16_field)" by (simp add: field_size_ok_def int16_field_def)
  moreover have "unsigned_fits (data_size int16_field) 300" by (simp add: unsigned_fits_def int16_field_def)
  ultimately have "pb_dec_uvarint int16_field s = (Some 300, advance (length (varint_bytes (unat (300 :: u64)))) s)"
    using field_integers_exact by blast
  then show ?thesis by (simp add: s_def)
qed


text \<open>The number that \<open>k\<close> bytes of memory hold, the lowest first, and the same bytes read as two's complement\<close>

definition memory_nat :: "'s pb_env \<Rightarrow> nat \<Rightarrow> u64 \<Rightarrow> nat" where
  "memory_nat E k a = (\<Sum>i<k. 256 ^ i * unat (memory E (a + of_nat i)))"

definition memory_int :: "'s pb_env \<Rightarrow> nat \<Rightarrow> u64 \<Rightarrow> int" where
  "memory_int E k a = (let n = memory_nat E k a in if n < 2 ^ (8 * k - 1) then int n else int n - 2 ^ (8 * k))"

lemma le_val_sum: "le_val (map f [0..<k]) = (\<Sum>i<k. 256 ^ i * unat (f i))"
proof (induction k arbitrary: f)
  case (Suc k)
  have "[0..<Suc k] = 0 # map Suc [0..<k]" by (simp add: map_Suc_upt upt_conv_Cons)
  then have "le_val (map f [0..<Suc k]) = unat (f 0) + 256 * (\<Sum>i<k. 256 ^ i * unat (f (Suc i)))"
    using Suc [of "\<lambda>i. f (Suc i)"] by (simp add: comp_def)
  also have "\<dots> = (\<Sum>i<Suc k. 256 ^ i * unat (f i))"
    by (simp add: sum.lessThan_Suc_shift sum_distrib_left mult.assoc del: sum.lessThan_Suc)
  finally show ?case .
qed simp

lemma load_memory: "load E k a = memory_nat E k a"
  by (simp add: load_def load_bytes_def memory_nat_def le_val_sum)

lemma memory_nat_less: "memory_nat E k a < 256 ^ k"
  unfolding memory_nat_def
proof (induction k)
  case (Suc k)
  have "unat (memory E (a + of_nat k)) \<le> 255" using word_unat_lt [of "memory E (a + of_nat k)"] by simp
  then have "256 ^ k * unat (memory E (a + of_nat k)) \<le> 256 ^ k * 255" by (rule mult_le_mono2)
  then show ?case using Suc unfolding sum.lessThan_Suc power_Suc by linarith
qed simp

lemma sint_small:
  assumes "n < 2 ^ LENGTH('a::len)"
  shows "sint (of_nat n :: 'a word) = (if n < 2 ^ (LENGTH('a) - 1) then int n else int n - 2 ^ LENGTH('a))"
proof -
  define m where "m = LENGTH('a) - 1"
  have m: "LENGTH('a) = Suc m" by (simp add: m_def)
  have div: "n div 2 ^ m < 2" using assms unfolding m by (simp add: less_mult_imp_div_less)
  have "int n div 2 ^ m = int (n div 2 ^ m)" by (simp add: of_nat_div)
  then have "bit (int n) m \<longleftrightarrow> odd (n div 2 ^ m)" unfolding bit_iff_odd by (simp only: even_of_nat)
  also have "\<dots> \<longleftrightarrow> n div 2 ^ m \<noteq> 0" using div by (cases "n div 2 ^ m") auto
  also have "\<dots> \<longleftrightarrow> \<not> n < 2 ^ m" by (simp add: div_eq_0_iff)
  finally have top: "bit (int n) m \<longleftrightarrow> \<not> n < 2 ^ m" .
  have "sint (of_nat n :: 'a word) = signed_take_bit m (int n)" by (simp add: signed_of_nat m_def)
  also have "\<dots> = take_bit (Suc m) (int n) - 2 ^ Suc m * of_bool (bit (int n) m)" by (rule signed_take_bit_eq_take_bit_minus)
  also have "take_bit (Suc m) (int n) = int n" proof (rule take_bit_int_eq_self)
    have "int n < int (2 ^ Suc m)" using assms unfolding m of_nat_less_iff .
    then show "int n < 2 ^ Suc m" by (simp only: of_nat_power of_nat_numeral)
  qed simp
  finally show ?thesis unfolding m using top by simp
qed

lemma sint_scast_up:
  assumes "LENGTH('a::len) \<le> 64"
  shows "sint (scast (x :: 'a word) :: u64) = sint x"
  by (rule sint_up_scast) (use assms in \<open>simp add: is_up\<close>)

lemma load_signed_memory:
  assumes "field_size_ok sz"
  shows "\<exists>v. load_signed E sz src = Some v \<and> sint v = memory_int E (unat sz) src"
proof -
  have "sint (scast (of_nat (load E 1 src) :: 8 word) :: u64) = memory_int E 1 src"
    using memory_nat_less [of E 1 src] sint_small [of "memory_nat E 1 src", where 'a = 8] by (simp add: sint_scast_up load_memory memory_int_def)
  moreover have "sint (scast (of_nat (load E 2 src) :: 16 word) :: u64) = memory_int E 2 src"
    using memory_nat_less [of E 2 src] sint_small [of "memory_nat E 2 src", where 'a = 16] by (simp add: sint_scast_up load_memory memory_int_def)
  moreover have "sint (scast (of_nat (load E 4 src) :: 32 word) :: u64) = memory_int E 4 src"
    using memory_nat_less [of E 4 src] sint_small [of "memory_nat E 4 src", where 'a = 32] by (simp add: sint_scast_up load_memory memory_int_def)
  moreover have "sint (of_nat (load E 8 src) :: u64) = memory_int E 8 src"
    using memory_nat_less [of E 8 src] sint_small [of "memory_nat E 8 src", where 'a = 64] by (simp add: load_memory memory_int_def)
  ultimately show ?thesis using assms unfolding field_size_ok_def load_signed_def by (elim disjE) simp_all
qed

lemma load_unsigned_memory:
  assumes "field_size_ok sz"
  shows "\<exists>w. load_unsigned E sz src = Some w \<and> unat w = memory_nat E (unat sz) src"
proof -
  have "unat (ucast (of_nat (load E 1 src) :: 8 word) :: u64) = memory_nat E 1 src"
    using memory_nat_less [of E 1 src] by (simp add: load_memory unat_ucast_mod unat_of_nat)
  moreover have "unat (ucast (of_nat (load E 2 src) :: 16 word) :: u64) = memory_nat E 2 src"
    using memory_nat_less [of E 2 src] by (simp add: load_memory unat_ucast_mod unat_of_nat)
  moreover have "unat (ucast (of_nat (load E 4 src) :: 32 word) :: u64) = memory_nat E 4 src"
    using memory_nat_less [of E 4 src] by (simp add: load_memory unat_ucast_mod unat_of_nat)
  moreover have "unat (of_nat (load E 8 src) :: u64) = memory_nat E 8 src"
    using memory_nat_less [of E 8 src] by (simp add: load_memory unat_of_nat)
  ultimately show ?thesis using assms unfolding field_size_ok_def load_unsigned_def by (elim disjE) simp_all
qed

text \<open>C39. An integer of 1, 2, 4 or 8 bytes in memory, written by the encoder of its field type and read by its decoder, is the
  same integer: the number its bytes stand for, as two's complement for plain and zigzag varints, negative values included.\<close>

theorem field_integer_roundtrip:
  assumes "field_size_ok (data_size field)"
  shows "\<exists>v w. sint v = memory_int E (unat (data_size field)) src \<and> unat w = memory_nat E (unat (data_size field)) src \<and>
    written_reads (pb_enc_varint E field src) (pb_dec_varint field) v \<and>
    written_reads (pb_enc_svarint E field src) (pb_dec_svarint field) v \<and>
    written_reads (pb_enc_uvarint E field src) (pb_dec_uvarint field) w"
proof -
  obtain v where v: "load_signed E (data_size field) src = Some v" "signed_fits (data_size field) v" "sint v = memory_int E (unat (data_size field)) src"
    using load_signed_fits [OF assms, of E src] load_signed_memory [OF assms, of E src] by auto
  obtain w where w: "load_unsigned E (data_size field) src = Some w" "unsigned_fits (data_size field) w" "unat w = memory_nat E (unat (data_size field)) src"
    using load_unsigned_fits [OF assms, of E src] load_unsigned_memory [OF assms, of E src] by auto
  have low: "data_size field \<noteq> 8 \<Longrightarrow> scast (ucast v :: 32 word) = v" by (rule signed_fits_low [OF assms v(2)])
  have "written_reads (pb_enc_varint E field src) (pb_dec_varint field) v"
    using v low unfolding pb_enc_varint_def dec_varint_eq [OF assms]
    by (auto simp: op_bind_def Let_def op_return_def intro!: written_readsI [OF buffer_sink.varint_emits length_varint_word] dest!: varint_read_all)
  moreover have "written_reads (pb_enc_svarint E field src) (pb_dec_svarint field) v"
    using v unfolding pb_enc_svarint_def dec_svarint_eq [OF assms]
    by (auto simp: op_bind_def op_return_def intro!: written_readsI [OF buffer_sink.svarint_emits length_svarint] dest!: svarint_read_all)
  moreover have "written_reads (pb_enc_uvarint E field src) (pb_dec_uvarint field) w"
    using w unfolding pb_enc_uvarint_def dec_uvarint_eq [OF assms]
    by (auto simp: op_bind_def op_return_def intro!: written_readsI [OF buffer_sink.varint_emits length_varint_word] dest!: varint_read_all)
  ultimately show ?thesis using v(3) w(3) by blast
qed

text \<open>Two bytes that stand for -400, or for 65136\<close>

definition negative_env :: "out_buffer pb_env" where
  "negative_env = \<lparr>memory = (\<lambda>a. if a = 0x1000 then 0x70 else 0xfe), descriptors = (\<lambda>_. []),
     field_encoder = (\<lambda>_ _ _. prog_return ()), extension_encoder = (\<lambda>_ _. prog_return ())\<rparr>"

lemma field_integer_roundtrip_witness:
  "written_reads (pb_enc_varint negative_env int16_field 0x1000) (pb_dec_varint int16_field) (- 400) \<and>
   written_reads (pb_enc_svarint negative_env int16_field 0x1000) (pb_dec_svarint int16_field) (- 400) \<and>
   written_reads (pb_enc_uvarint negative_env int16_field 0x1000) (pb_dec_uvarint int16_field) 65136"
proof -
  have n: "memory_nat negative_env 2 0x1000 = 65136" by (simp add: memory_nat_def negative_env_def lessThan_nat_numeral)
  then have i: "memory_int negative_env 2 0x1000 = - 400" by (simp add: memory_int_def)
  have "field_size_ok (data_size int16_field)" "unat (data_size int16_field) = 2" by (simp_all add: field_size_ok_def int16_field_def)
  then obtain v w where vw: "sint v = - 400" "unat w = 65136"
    "written_reads (pb_enc_varint negative_env int16_field 0x1000) (pb_dec_varint int16_field) v"
    "written_reads (pb_enc_svarint negative_env int16_field 0x1000) (pb_dec_svarint int16_field) v"
    "written_reads (pb_enc_uvarint negative_env int16_field 0x1000) (pb_dec_uvarint int16_field) w"
    using field_integer_roundtrip [of int16_field negative_env "0x1000"] n i by auto
  have "v = of_int (sint v)" by simp
  then have "v = - 400" unfolding vw(1) by simp
  moreover have "w = 65136" using vw(2) by (simp add: word_unat_eq_iff)
  ultimately show ?thesis using vw(3-5) by simp
qed

end
