(* ===== verification/Comparison.thy ===== *)
theory Comparison
  imports Prelude
begin

text \<open>
  The three-way comparisons of Firestore (\<open>Firestore/core/src/util/comparison.h\<close>) and what its containers rely on: that a
  comparator is a total preorder. The comparators of doubles and the hash functions are not modelled.
\<close>

section \<open>Comparison results\<close>

datatype ComparisonResult = Ascending | Same | Descending

definition ComparisonResultFromInt :: "int \<Rightarrow> ComparisonResult" where
  "ComparisonResultFromInt v = (if v < 0 then Ascending else if v > 0 then Descending else Same)"

fun ReverseOrder :: "ComparisonResult \<Rightarrow> ComparisonResult" where
  "ReverseOrder Ascending = Descending"
| "ReverseOrder Same = Same"
| "ReverseOrder Descending = Ascending"

type_synonym 'a cmp = "'a \<Rightarrow> 'a \<Rightarrow> ComparisonResult"

section \<open>Comparators\<close>

definition DefaultComparator :: "'a::linorder cmp" where
  "DefaultComparator l r = (if l < r then Ascending else if r < l then Descending else Same)"

text \<open>The comparator of \<open>int32_t\<close>, on words read as two's complement\<close>

definition Comparator_int32 :: "32 word cmp" where
  "Comparator_int32 l r = DefaultComparator (sint l) (sint r)"

text \<open>The sign of \<open>std::string::compare\<close>: bytes compare as unsigned, and a prefix is less.\<close>

fun string_compare :: "byte list \<Rightarrow> byte list \<Rightarrow> int" where
  "string_compare [] [] = 0"
| "string_compare [] (_ # _) = -1"
| "string_compare (_ # _) [] = 1"
| "string_compare (a # as) (b # bs) = (if a < b then -1 else if b < a then 1 else string_compare as bs)"

definition Comparator_string :: "byte list cmp" where
  "Comparator_string l r = ComparisonResultFromInt (string_compare l r)"

fun CompareContainer :: "'a cmp \<Rightarrow> 'a list cmp" where
  "CompareContainer cmp (l # ls) (r # rs) =
     (let c = cmp l r in if c \<noteq> Same then c else CompareContainer cmp ls rs)"
| "CompareContainer cmp ls (r # rs) = Ascending"
| "CompareContainer cmp (l # ls) [] = Descending"
| "CompareContainer cmp [] [] = Same"

section \<open>The contract of a comparator\<close>

lemma reverse_cases [simp]:
  "ReverseOrder c = Ascending \<longleftrightarrow> c = Descending" "ReverseOrder c = Descending \<longleftrightarrow> c = Ascending" "ReverseOrder c = Same \<longleftrightarrow> c = Same"
  "ReverseOrder (ReverseOrder c) = c"
  by (cases c; simp)+

lemma not_both: "c \<noteq> Ascending \<Longrightarrow> c \<noteq> Descending \<Longrightarrow> c = Same"
  by (cases c) simp_all

locale comparator =
  fixes Compare :: "'a cmp"
  assumes swap: "Compare y x = ReverseOrder (Compare x y)"
    and le_trans: "Compare x y \<noteq> Descending \<Longrightarrow> Compare y z \<noteq> Descending \<Longrightarrow> Compare x z \<noteq> Descending"
begin

lemma refl [simp]: "Compare x x = Same"
  using swap [of x x] by (cases "Compare x x") simp_all

lemma desc_iff: "Compare x y = Descending \<longleftrightarrow> Compare y x = Ascending"
  using swap [of x y] by simp

lemma same_sym: "Compare x y = Same \<longleftrightarrow> Compare y x = Same"
  using swap [of x y] by simp

lemma same_trans: "Compare x y = Same \<Longrightarrow> Compare y z = Same \<Longrightarrow> Compare x z = Same"
  using le_trans [of x y z] le_trans [of z y x] same_sym [of x y] same_sym [of y z] desc_iff [of z x] not_both [of "Compare x z"] by auto

lemma asc_le_trans:
  assumes "Compare x y = Ascending" and "Compare y z \<noteq> Descending"
  shows "Compare x z = Ascending"
proof -
  have "Compare y x = Descending" using assms(1) desc_iff by blast
  then have "Compare x z \<noteq> Same" using le_trans [of y z x] assms(2) same_sym [of x z] by auto
  then show ?thesis using le_trans [of x y z] assms by (cases "Compare x z") auto
qed

lemma le_asc_trans:
  assumes "Compare x y \<noteq> Descending" and "Compare y z = Ascending"
  shows "Compare x z = Ascending"
proof -
  have "Compare z y = Descending" using assms(2) desc_iff by blast
  then have "Compare x z \<noteq> Same" using le_trans [of z x y] assms(1) same_sym [of x z] by auto
  then show ?thesis using le_trans [of x y z] assms by (cases "Compare x z") auto
qed

lemma asc_trans: "Compare x y = Ascending \<Longrightarrow> Compare y z = Ascending \<Longrightarrow> Compare x z = Ascending"
  using asc_le_trans [of x y z] by simp

lemma same_left:
  assumes "Compare x y = Same"
  shows "Compare x z = Compare y z"
proof (cases "Compare y z")
  case Ascending
  then show ?thesis using le_asc_trans [of x y z] assms by simp
next
  case Same
  then show ?thesis using same_trans [of x y z] assms by simp
next
  case Descending
  then have "Compare z x = Ascending" using asc_le_trans [of z y x] assms desc_iff [of y z] same_sym [of x y] by simp
  then show ?thesis using Descending desc_iff [of x z] by simp
qed

lemma same_right: "Compare x y = Same \<Longrightarrow> Compare z x = Compare z y"
  using same_left [of x y z] swap [of z x] swap [of z y] by simp

end

text \<open>The contract when only equal things compare the same\<close>

locale strict_comparator = comparator +
  assumes same_eq: "Compare x y = Same \<Longrightarrow> x = y"
begin

lemma same_iff [simp]: "Compare x y = Same \<longleftrightarrow> x = y"
  using same_eq by auto

end

section \<open>The comparators keep the contract\<close>

lemma int_cases [simp]:
  "ComparisonResultFromInt i = Ascending \<longleftrightarrow> i < 0" "ComparisonResultFromInt i = Descending \<longleftrightarrow> i > 0" "ComparisonResultFromInt i = Same \<longleftrightarrow> i = 0"
  by (simp_all add: ComparisonResultFromInt_def)

lemma default_cases [simp]:
  "DefaultComparator x y = Ascending \<longleftrightarrow> x < y" "DefaultComparator x y = Descending \<longleftrightarrow> y < x" "DefaultComparator x y = Same \<longleftrightarrow> x = y"
  by (auto simp: DefaultComparator_def)

interpretation default_order: strict_comparator DefaultComparator
proof
  show "DefaultComparator y x = ReverseOrder (DefaultComparator x y)" for x y :: 'a by (auto simp: DefaultComparator_def)
qed auto

interpretation int32_order: strict_comparator Comparator_int32
proof
  show "Comparator_int32 y x = ReverseOrder (Comparator_int32 x y)" for x y
    unfolding Comparator_int32_def by (rule default_order.swap)
qed (auto simp: Comparator_int32_def intro: signed_word_eqI)

lemma string_compare_swap: "string_compare ys xs = - string_compare xs ys"
  by (induction xs ys rule: string_compare.induct) auto

lemma string_compare_trans: "string_compare xs ys \<le> 0 \<Longrightarrow> string_compare ys zs \<le> 0 \<Longrightarrow> string_compare xs zs \<le> 0"
proof (induction xs ys arbitrary: zs rule: string_compare.induct)
  case (4 a as b bs)
  then show ?case by (cases zs) (auto split: if_splits)
next
  case (1)
  then show ?case by (cases zs) simp_all
next
  case (2 y ys)
  then show ?case by (cases zs) simp_all
qed simp

lemma string_compare_zero: "string_compare xs ys = 0 \<longleftrightarrow> xs = ys"
  by (induction xs ys rule: string_compare.induct) auto

interpretation string_order: strict_comparator Comparator_string
proof
  fix x y z
  show "Comparator_string y x = ReverseOrder (Comparator_string x y)"
    unfolding Comparator_string_def by (simp add: ComparisonResultFromInt_def string_compare_swap [of y x])
  show "Comparator_string x y \<noteq> Descending \<Longrightarrow> Comparator_string y z \<noteq> Descending \<Longrightarrow> Comparator_string x z \<noteq> Descending"
    using string_compare_trans [of x y z] by (simp add: Comparator_string_def not_less)
  show "Comparator_string x y = Same \<Longrightarrow> x = y"
    by (simp add: Comparator_string_def string_compare_zero)
qed

context comparator
begin

lemma container_swap: "CompareContainer Compare ys xs = ReverseOrder (CompareContainer Compare xs ys)"
proof (induction xs ys rule: list_induct2')
  case (4 x xs y ys)
  then show ?case using swap [of y x] by (simp add: Let_def)
qed simp_all

lemma container_trans:
  "CompareContainer Compare xs ys \<noteq> Descending \<Longrightarrow> CompareContainer Compare ys zs \<noteq> Descending \<Longrightarrow> CompareContainer Compare xs zs \<noteq> Descending"
proof (induction xs arbitrary: ys zs)
  case Nil
  then show ?case by (cases zs) simp_all
next
  case (Cons x xs)
  then obtain y ys' z zs' where [simp]: "ys = y # ys'" "zs = z # zs'" by (cases ys; cases zs) simp_all
  show ?case
  proof (cases "Compare x y = Same \<and> Compare y z = Same")
    case True
    then show ?thesis using Cons same_trans [of x y z] by (simp add: Let_def)
  next
    case False
    then have "Compare x z = Ascending"
      using Cons.prems asc_le_trans [of x y z] le_asc_trans [of x y z] by (cases "Compare x y"; cases "Compare y z") (simp_all add: Let_def)
    then show ?thesis by (simp add: Let_def)
  qed
qed

lemma container_comparator: "comparator (CompareContainer Compare)"
  by unfold_locales (rule container_swap, rule container_trans)

end

context strict_comparator
begin

lemma container_same: "CompareContainer Compare xs ys = Same \<Longrightarrow> xs = ys"
  by (induction xs ys rule: list_induct2') (simp_all add: Let_def split: if_splits)

end

end
