(* ===== verification/Sorted_Entries.thy ===== *)
theory Sorted_Entries
  imports Comparison
begin

text \<open>
  The sequences that the sorted maps of Firestore stand for: lists of entries in strictly ascending order of their
  keys, and what insertion, removal and search do to them.
\<close>

definition ascending :: "'k cmp \<Rightarrow> ('k \<times> 'v) list \<Rightarrow> bool" where
  "ascending cmp = sorted_wrt (\<lambda>a b. cmp (fst a) (fst b) = Ascending)"

definition below :: "'k cmp \<Rightarrow> 'k \<Rightarrow> ('k \<times> 'v) list \<Rightarrow> ('k \<times> 'v) list" where
  "below cmp k = filter (\<lambda>e. cmp (fst e) k = Ascending)"

definition equal_to :: "'k cmp \<Rightarrow> 'k \<Rightarrow> ('k \<times> 'v) list \<Rightarrow> ('k \<times> 'v) list" where
  "equal_to cmp k = filter (\<lambda>e. cmp (fst e) k = Same)"

definition above :: "'k cmp \<Rightarrow> 'k \<Rightarrow> ('k \<times> 'v) list \<Rightarrow> ('k \<times> 'v) list" where
  "above cmp k = filter (\<lambda>e. cmp (fst e) k = Descending)"

text \<open>\<open>keep\<close> says whether an entry that is there already keeps its key.\<close>

definition put_entry :: "'k cmp \<Rightarrow> bool \<Rightarrow> 'k \<Rightarrow> 'v \<Rightarrow> ('k \<times> 'v) list \<Rightarrow> ('k \<times> 'v) list" where
  "put_entry cmp keep k v xs = below cmp k xs @ ((if keep then (case equal_to cmp k xs of [] \<Rightarrow> k | e # _ \<Rightarrow> fst e) else k), v) # above cmp k xs"

definition drop_entry :: "'k cmp \<Rightarrow> 'k \<Rightarrow> ('k \<times> 'v) list \<Rightarrow> ('k \<times> 'v) list" where
  "drop_entry cmp k = filter (\<lambda>e. cmp (fst e) k \<noteq> Same)"

definition look_up :: "'k cmp \<Rightarrow> 'k \<Rightarrow> ('k \<times> 'v) list \<Rightarrow> 'v option" where
  "look_up cmp k xs = (case equal_to cmp k xs of [] \<Rightarrow> None | e # _ \<Rightarrow> Some (snd e))"

text \<open>The entries from the first on whose key is not less\<close>

definition from_key :: "'k cmp \<Rightarrow> 'k \<Rightarrow> ('k \<times> 'v) list \<Rightarrow> ('k \<times> 'v) list" where
  "from_key cmp k = filter (\<lambda>e. cmp (fst e) k \<noteq> Ascending)"

lemma ascending_simps [simp]:
  "ascending cmp []"
  "ascending cmp (e # xs) \<longleftrightarrow> (\<forall>f\<in>set xs. cmp (fst e) (fst f) = Ascending) \<and> ascending cmp xs"
  "ascending cmp (xs @ ys) \<longleftrightarrow> ascending cmp xs \<and> ascending cmp ys \<and> (\<forall>e\<in>set xs. \<forall>f\<in>set ys. cmp (fst e) (fst f) = Ascending)"
  by (auto simp: ascending_def sorted_wrt_append)

lemmas parts = below_def equal_to_def above_def from_key_def drop_entry_def

lemma filter_all: "\<forall>x\<in>set xs. P x \<Longrightarrow> filter P xs = xs" and filter_none: "\<forall>x\<in>set xs. \<not> P x \<Longrightarrow> filter P xs = []"
  by (simp_all add: filter_id_conv filter_empty_conv)

lemma parts_append [simp]:
  "below cmp k (xs @ ys) = below cmp k xs @ below cmp k ys" "equal_to cmp k (xs @ ys) = equal_to cmp k xs @ equal_to cmp k ys"
  "above cmp k (xs @ ys) = above cmp k xs @ above cmp k ys" "from_key cmp k (xs @ ys) = from_key cmp k xs @ from_key cmp k ys"
  "drop_entry cmp k (xs @ ys) = drop_entry cmp k xs @ drop_entry cmp k ys"
  by (simp_all add: parts)

lemma parts_Nil [simp]: "below cmp k [] = []" "equal_to cmp k [] = []" "above cmp k [] = []" "from_key cmp k [] = []" "drop_entry cmp k [] = []"
  by (simp_all add: parts)

lemma parts_Cons:
  "below cmp k (e # xs) = (if cmp (fst e) k = Ascending then e # below cmp k xs else below cmp k xs)"
  "equal_to cmp k (e # xs) = (if cmp (fst e) k = Same then e # equal_to cmp k xs else equal_to cmp k xs)"
  "above cmp k (e # xs) = (if cmp (fst e) k = Descending then e # above cmp k xs else above cmp k xs)"
  "from_key cmp k (e # xs) = (if cmp (fst e) k \<noteq> Ascending then e # from_key cmp k xs else from_key cmp k xs)"
  "drop_entry cmp k (e # xs) = (if cmp (fst e) k \<noteq> Same then e # drop_entry cmp k xs else drop_entry cmp k xs)"
  by (simp_all add: parts)

lemma set_parts: "set (below cmp k xs) \<subseteq> set xs" "set (above cmp k xs) \<subseteq> set xs" "set (equal_to cmp k xs) \<subseteq> set xs"
    "set (drop_entry cmp k xs) \<subseteq> set xs" "set (from_key cmp k xs) \<subseteq> set xs"
  by (auto simp: parts)

lemma ascending_filter: "ascending cmp xs \<Longrightarrow> ascending cmp (filter P xs)"
  by (simp add: ascending_def sorted_wrt_filter)

context comparator
begin

text \<open>Everything after an entry that is not less than a key is greater, and everything before one that is not greater is less.\<close>

lemma after: "ascending Compare (e # ys) \<Longrightarrow> Compare (fst e) k \<noteq> Ascending \<Longrightarrow> f \<in> set ys \<Longrightarrow> Compare (fst f) k = Descending"
  using le_asc_trans [of k "fst e" "fst f"] desc_iff [of "fst f" k] desc_iff [of k "fst e"] by auto

lemma before: "ascending Compare (xs @ [e]) \<Longrightarrow> Compare (fst e) k \<noteq> Descending \<Longrightarrow> f \<in> set xs \<Longrightarrow> Compare (fst f) k = Ascending"
  using asc_le_trans [of "fst f" "fst e" k] by auto

lemma parts_after:
  assumes "ascending Compare (e # ys)" and "Compare (fst e) k \<noteq> Ascending"
  shows "below Compare k ys = []" "equal_to Compare k ys = []" "above Compare k ys = ys" "from_key Compare k ys = ys" "drop_entry Compare k ys = ys"
  using after [OF assms] by (auto simp: parts intro!: filter_all filter_none)

lemma parts_before:
  assumes "ascending Compare (xs @ [e])" and "Compare (fst e) k \<noteq> Descending"
  shows "below Compare k xs = xs" "equal_to Compare k xs = []" "above Compare k xs = []" "from_key Compare k xs = []" "drop_entry Compare k xs = xs"
  using before [OF assms] by (auto simp: parts intro!: filter_all filter_none)

lemma put_split:
  assumes "ascending Compare (xs @ e # ys)"
  shows "Compare (fst e) k = Descending \<Longrightarrow> put_entry Compare keep k v (xs @ e # ys) = put_entry Compare keep k v xs @ e # ys"
    and "Compare (fst e) k = Ascending \<Longrightarrow> put_entry Compare keep k v (xs @ e # ys) = xs @ e # put_entry Compare keep k v ys"
    and "Compare (fst e) k = Same \<Longrightarrow> put_entry Compare keep k v (xs @ e # ys) = xs @ ((if keep then fst e else k), v) # ys"
  using assms parts_after [of e ys k] parts_before [of xs e k] by (simp_all add: put_entry_def parts_Cons)

lemma drop_split:
  assumes "ascending Compare (xs @ e # ys)"
  shows "Compare (fst e) k = Descending \<Longrightarrow> drop_entry Compare k (xs @ e # ys) = drop_entry Compare k xs @ e # ys"
    and "Compare (fst e) k = Ascending \<Longrightarrow> drop_entry Compare k (xs @ e # ys) = xs @ e # drop_entry Compare k ys"
    and "Compare (fst e) k = Same \<Longrightarrow> drop_entry Compare k (xs @ e # ys) = xs @ ys"
  using assms parts_after [of e ys k] parts_before [of xs e k] by (simp_all add: parts_Cons)

lemma from_split:
  assumes "ascending Compare (xs @ e # ys)"
  shows "Compare (fst e) k = Descending \<Longrightarrow> from_key Compare k (xs @ e # ys) = from_key Compare k xs @ e # ys"
    and "Compare (fst e) k = Ascending \<Longrightarrow> from_key Compare k (xs @ e # ys) = from_key Compare k ys"
    and "Compare (fst e) k = Same \<Longrightarrow> from_key Compare k (xs @ e # ys) = e # ys"
  using assms parts_after [of e ys k] parts_before [of xs e k] by (simp_all add: parts_Cons)

lemma split_parts: "ascending Compare xs \<Longrightarrow> xs = below Compare k xs @ equal_to Compare k xs @ above Compare k xs"
proof (induction xs)
  case (Cons e xs)
  show ?case
  proof (cases "Compare (fst e) k = Ascending")
    case True
    then show ?thesis using Cons by (simp add: parts_Cons)
  next
    case False
    then show ?thesis using parts_after [OF Cons.prems] not_both [of "Compare (fst e) k"] by (auto simp: parts_Cons)
  qed
qed simp

lemma equal_at_most_one: "ascending Compare xs \<Longrightarrow> equal_to Compare k xs = [] \<or> (\<exists>e. equal_to Compare k xs = [e] \<and> e \<in> set xs \<and> Compare (fst e) k = Same)"
proof (induction xs)
  case (Cons e xs)
  then show ?case using parts_after [OF Cons.prems, of k] by (cases e) (auto simp: parts_Cons)
qed simp

lemma from_key_eq: "ascending Compare xs \<Longrightarrow> from_key Compare k xs = equal_to Compare k xs @ above Compare k xs"
proof (induction xs)
  case (Cons e xs)
  then show ?case using parts_after [OF Cons.prems, of k] not_both [of "Compare (fst e) k"] by (auto simp: parts_Cons)
qed simp

lemma drop_entry_eq: "ascending Compare xs \<Longrightarrow> drop_entry Compare k xs = below Compare k xs @ above Compare k xs"
proof (induction xs)
  case (Cons e xs)
  then show ?case using parts_after [OF Cons.prems, of k] not_both [of "Compare (fst e) k"] by (auto simp: parts_Cons)
qed simp

lemma put_ascending: "ascending Compare xs \<Longrightarrow> ascending Compare (put_entry Compare keep k v xs)"
proof -
  assume a: "ascending Compare xs"
  define h where "h = (if keep then case equal_to Compare k xs of [] \<Rightarrow> k | e # _ \<Rightarrow> fst e else k)"
  have h: "Compare h k = Same"
    using equal_at_most_one [OF a, of k] by (auto simp: h_def)
  have "Compare (fst e) h = Ascending" if "e \<in> set (below Compare k xs)" for e
    using that same_right [OF h, of "fst e"] by (auto simp: below_def)
  moreover have "Compare h (fst e) = Ascending" if "e \<in> set (above Compare k xs)" for e
    using that same_left [OF h, of "fst e"] desc_iff [of "fst e" k] by (auto simp: above_def)
  moreover have "Compare (fst e) (fst f) = Ascending" if "e \<in> set (below Compare k xs)" "f \<in> set (above Compare k xs)" for e f
    using that asc_trans [of "fst e" k "fst f"] desc_iff [of "fst f" k] by (auto simp: below_def above_def)
  ultimately show ?thesis using a
    unfolding put_entry_def h_def [symmetric] by (auto simp: below_def above_def ascending_filter)
qed

lemma drop_ascending: "ascending Compare xs \<Longrightarrow> ascending Compare (drop_entry Compare k xs)"
  by (simp add: drop_entry_def ascending_filter)

lemma look_up_put: "ascending Compare xs \<Longrightarrow> look_up Compare j (put_entry Compare keep k v xs) = (if Compare j k = Same then Some v else look_up Compare j xs)"
proof -
  assume a: "ascending Compare xs"
  define h where "h = (if keep then case equal_to Compare k xs of [] \<Rightarrow> k | e # _ \<Rightarrow> fst e else k)"
  have h: "Compare h k = Same" using equal_at_most_one [OF a, of k] by (auto simp: h_def)
  have parts: "equal_to Compare j xs = equal_to Compare j (below Compare k xs) @ equal_to Compare j (equal_to Compare k xs) @ equal_to Compare j (above Compare k xs)"
    using split_parts [OF a, of k] parts_append by metis
  show ?thesis
  proof (cases "Compare j k = Same")
    case True
    then have "equal_to Compare j (below Compare k xs) = []"
      using same_right [OF True] by (auto simp: equal_to_def below_def filter_empty_conv)
    moreover have "Compare h j = Same" using h same_trans [of h k j] same_sym [of j k] True by simp
    ultimately show ?thesis using True by (simp add: look_up_def put_entry_def h_def [symmetric] parts_Cons)
  next
    case False
    have "equal_to Compare j (equal_to Compare k xs) = []"
      using False same_trans [of j _ k] same_sym by (auto simp: equal_to_def filter_empty_conv)
    moreover have "Compare h j \<noteq> Same" using False h same_trans [of j h k] same_sym by blast
    ultimately show ?thesis using False parts by (simp add: look_up_def put_entry_def h_def [symmetric] parts_Cons)
  qed
qed

lemma look_up_drop: "look_up Compare j (drop_entry Compare k xs) = (if Compare j k = Same then None else look_up Compare j xs)"
proof (induction xs)
  case (Cons e xs)
  then show ?case
    using same_trans [of j "fst e" k] same_trans [of j k "fst e"] same_trans [of k j "fst e"] same_sym [of j "fst e"] same_sym [of k "fst e"] same_sym [of j k]
    by (auto simp: look_up_def parts_Cons)
qed (simp add: look_up_def)

lemma length_put: "ascending Compare xs \<Longrightarrow> length (put_entry Compare keep k v xs) = (if equal_to Compare k xs = [] then Suc (length xs) else length xs)"
  using arg_cong [OF split_parts [of xs k], of length] equal_at_most_one [of xs k] by (auto simp: put_entry_def)

end

context strict_comparator
begin

lemma put_strict: "ascending Compare xs \<Longrightarrow> put_entry Compare keep k v xs = below Compare k xs @ (k, v) # above Compare k xs"
  using equal_at_most_one [of xs k] by (auto simp: put_entry_def)

lemma look_up_map_of: "ascending Compare xs \<Longrightarrow> look_up Compare k xs = map_of xs k"
proof (induction xs)
  case (Cons e xs)
  then show ?case using parts_after(2) [OF Cons.prems, of k] by (cases e) (auto simp: look_up_def parts_Cons)
qed (simp add: look_up_def)

lemma ascending_distinct: "ascending Compare xs \<Longrightarrow> distinct (map fst xs)"
proof (induction xs)
  case (Cons e xs)
  then have "fst e \<noteq> fst f" if "f \<in> set xs" for f using that by (metis ComparisonResult.distinct(1) ascending_simps(2) refl)
  then show ?case using Cons by auto
qed simp

end

end
