(* ===== verification/Llrb.thy ===== *)
theory Llrb
  imports Sorted_Entries
begin

text \<open>
  The left-leaning red-black trees of Firestore (\<open>Firestore/core/src/immutable/llrb_node.h\<close>). Nodes are immutable
  once they are shared: the code clones a node before it changes it, so an operation is a function from trees to trees. A
  \<open>Leaf\<close> is a representation of size 0, whose children are the shared black empty node; a clone of it may
  be coloured. The size of a node has 31 bits.
\<close>

section \<open>The code\<close>

datatype Color = Black | Red

datatype ('k, 'v) llrb =
    Leaf Color
  | Node "'k \<times> 'v" Color "31 word" "('k, 'v) llrb" "('k, 'v) llrb"

fun llrb_size :: "('k, 'v) llrb \<Rightarrow> u32" where
  "llrb_size (Leaf c) = 0"
| "llrb_size (Node e c s l r) = ucast s"

fun llrb_color :: "('k, 'v) llrb \<Rightarrow> Color" where
  "llrb_color (Leaf c) = c"
| "llrb_color (Node e c s l r) = c"

fun llrb_left :: "('k, 'v) llrb \<Rightarrow> ('k, 'v) llrb" where
  "llrb_left (Leaf c) = Leaf Black"
| "llrb_left (Node e c s l r) = l"

fun llrb_right :: "('k, 'v) llrb \<Rightarrow> ('k, 'v) llrb" where
  "llrb_right (Leaf c) = Leaf Black"
| "llrb_right (Node e c s l r) = r"

text \<open>The entry of a leaf holds default values, which nothing relies on.\<close>

fun llrb_entry :: "('k, 'v) llrb \<Rightarrow> 'k \<times> 'v" where
  "llrb_entry (Node e c s l r) = e"

definition llrb_empty :: "('k, 'v) llrb \<Rightarrow> bool" where
  "llrb_empty n \<longleftrightarrow> llrb_size n = 0"

definition llrb_red :: "('k, 'v) llrb \<Rightarrow> bool" where
  "llrb_red n \<longleftrightarrow> llrb_color n = Red"

definition llrb_rep :: "'k \<times> 'v \<Rightarrow> Color \<Rightarrow> ('k, 'v) llrb \<Rightarrow> ('k, 'v) llrb \<Rightarrow> ('k, 'v) llrb" where
  "llrb_rep e c l r = Node e c (ucast (llrb_size l + 1 + llrb_size r)) l r"

fun set_color :: "Color \<Rightarrow> ('k, 'v) llrb \<Rightarrow> ('k, 'v) llrb" where
  "set_color c (Leaf _) = Leaf c"
| "set_color c (Node e _ s l r) = Node e c s l r"

text \<open>The other setters are used on nodes that are not empty only.\<close>

fun set_left :: "('k, 'v) llrb \<Rightarrow> ('k, 'v) llrb \<Rightarrow> ('k, 'v) llrb" where
  "set_left l (Node e c s _ r) = Node e c s l r"
| "set_left l (Leaf c) = Leaf c"

fun set_right :: "('k, 'v) llrb \<Rightarrow> ('k, 'v) llrb \<Rightarrow> ('k, 'v) llrb" where
  "set_right r (Node e c s l _) = Node e c s l r"
| "set_right r (Leaf c) = Leaf c"

fun set_entry :: "'k \<times> 'v \<Rightarrow> ('k, 'v) llrb \<Rightarrow> ('k, 'v) llrb" where
  "set_entry e (Node _ c s l r) = Node e c s l r"
| "set_entry e (Leaf c) = Leaf c"

fun RotateLeft :: "('k, 'v) llrb \<Rightarrow> ('k, 'v) llrb" where
  "RotateLeft (Node e c s l r) = Node (llrb_entry r) c s (llrb_rep e Red l (llrb_left r)) (llrb_right r)"
| "RotateLeft (Leaf c) = Leaf c"

fun RotateRight :: "('k, 'v) llrb \<Rightarrow> ('k, 'v) llrb" where
  "RotateRight (Node e c s l r) = Node (llrb_entry l) c s (llrb_left l) (llrb_rep e Red (llrb_right l) r)"
| "RotateRight (Leaf c) = Leaf c"

definition OppositeColor :: "('k, 'v) llrb \<Rightarrow> Color" where
  "OppositeColor n = (if llrb_color n = Red then Black else Red)"

definition flipped :: "('k, 'v) llrb \<Rightarrow> ('k, 'v) llrb" where
  "flipped n = set_color (OppositeColor n) n"

definition FlipColor :: "('k, 'v) llrb \<Rightarrow> ('k, 'v) llrb" where
  "FlipColor n = set_right (flipped (llrb_right n)) (set_left (flipped (llrb_left n)) (flipped n))"

definition FixUp :: "('k, 'v) llrb \<Rightarrow> ('k, 'v) llrb" where
  "FixUp n =
     (let n = (case n of Leaf c \<Rightarrow> Leaf c | Node e c s l r \<Rightarrow> llrb_rep e c l r);
          n = (if llrb_red (llrb_right n) \<and> \<not> llrb_red (llrb_left n) then RotateLeft n else n);
          n = (if llrb_red (llrb_left n) \<and> llrb_red (llrb_left (llrb_left n)) then RotateRight n else n)
      in if llrb_red (llrb_left n) \<and> llrb_red (llrb_right n) then FlipColor n else n)"

definition FixRootColor :: "('k, 'v) llrb \<Rightarrow> ('k, 'v) llrb" where
  "FixRootColor n = (if llrb_red n then set_color Black n else n)"

definition MoveRedLeft :: "('k, 'v) llrb \<Rightarrow> ('k, 'v) llrb" where
  "MoveRedLeft n =
     (let n = FlipColor n
      in if llrb_red (llrb_left (llrb_right n)) then FlipColor (RotateLeft (set_right (RotateRight (llrb_right n)) n)) else n)"

definition MoveRedRight :: "('k, 'v) llrb \<Rightarrow> ('k, 'v) llrb" where
  "MoveRedRight n =
     (let n = FlipColor n
      in if llrb_red (llrb_left (llrb_left n)) then FlipColor (RotateRight n) else n)"

fun llrb_min :: "('k, 'v) llrb \<Rightarrow> ('k, 'v) llrb" where
  "llrb_min (Leaf c) = Leaf c"
| "llrb_min (Node e c s l r) = (if llrb_empty l then Node e c s l r else llrb_min l)"

fun llrb_max :: "('k, 'v) llrb \<Rightarrow> ('k, 'v) llrb" where
  "llrb_max (Leaf c) = Leaf c"
| "llrb_max (Node e c s l r) = (if llrb_empty r then Node e c s l r else llrb_max r)"

fun InnerInsert :: "'k cmp \<Rightarrow> 'k \<Rightarrow> 'v \<Rightarrow> ('k, 'v) llrb \<Rightarrow> ('k, 'v) llrb" where
  "InnerInsert cmp key v (Leaf c) = llrb_rep (key, v) Red (Leaf Black) (Leaf Black)"
| "InnerInsert cmp key v (Node e c s l r) =
     (if llrb_empty (Node e c s l r) then llrb_rep (key, v) Red (Leaf Black) (Leaf Black)
      else case cmp (fst e) key of
        Descending \<Rightarrow> FixUp (Node e c s (InnerInsert cmp key v l) r)
      | Ascending \<Rightarrow> FixUp (Node e c s l (InnerInsert cmp key v r))
      | Same \<Rightarrow> Node (fst e, v) c s l r)"

definition llrb_insert :: "'k cmp \<Rightarrow> 'k \<Rightarrow> 'v \<Rightarrow> ('k, 'v) llrb \<Rightarrow> ('k, 'v) llrb" where
  "llrb_insert cmp key v n = FixRootColor (InnerInsert cmp key v n)"

text \<open>The recursions of the removal end on any tree, also on one that is out of balance.\<close>

fun llrb_weight :: "('k, 'v) llrb \<Rightarrow> nat" where
  "llrb_weight (Leaf c) = (if c = Red then 1 else 0)"
| "llrb_weight (Node e c s l r) = Suc (llrb_weight l + llrb_weight r)"

lemma not_empty: "\<not> llrb_empty n \<Longrightarrow> \<exists>e c s l r. n = Node e c s l r"
  by (cases n) (simp_all add: llrb_empty_def)

lemma weight_left [termination_simp]:
  assumes "\<not> llrb_empty (llrb_left n)"
  shows "llrb_weight (llrb_left (MoveRedLeft n)) < llrb_weight n" "llrb_weight (llrb_left n) < llrb_weight n"
proof -
  obtain e c s l r where [simp]: "n = Node e c s l r" using assms by (cases n) (simp_all add: llrb_empty_def)
  obtain le lc ls ll lr where [simp]: "l = Node le lc ls ll lr" using not_empty [OF assms] by auto
  show "llrb_weight (llrb_left n) < llrb_weight n" by simp
  show "llrb_weight (llrb_left (MoveRedLeft n)) < llrb_weight n"
    by (cases r; cases "llrb_left r")
      (simp_all add: MoveRedLeft_def FlipColor_def flipped_def OppositeColor_def llrb_red_def llrb_rep_def Let_def)
qed

lemma weight_right:
  assumes "\<not> llrb_empty n" and "m = (if llrb_red (llrb_left n) then RotateRight n else n)"
    and "m' = (if \<not> llrb_empty (llrb_right m) \<and> \<not> llrb_red (llrb_right m) \<and> \<not> llrb_red (llrb_left (llrb_right m)) then MoveRedRight m else m)"
  shows "llrb_weight (llrb_right m') < llrb_weight n"
proof -
  obtain e c s l r where [simp]: "n = Node e c s l r" using not_empty [OF assms(1)] by blast
  show ?thesis
  proof (cases "llrb_red l")
    case True
    then have "m' = m" using assms(2,3) by (simp add: llrb_rep_def llrb_red_def)
    then show ?thesis using True assms(2) by (cases l) (simp_all add: llrb_red_def llrb_rep_def)
  next
    case False
    then have m: "m = n" using assms(2) by simp
    show ?thesis
    proof (cases "m' = m")
      case True
      then show ?thesis using m by simp
    next
      case False
      then have m': "m' = MoveRedRight n" "\<not> llrb_empty r" using assms(3) m by (auto split: if_splits)
      obtain re rc rs rl rr where [simp]: "r = Node re rc rs rl rr" using not_empty [OF m'(2)] by blast
      show ?thesis unfolding m'(1)
        by (cases l) (simp_all add: MoveRedRight_def FlipColor_def flipped_def OppositeColor_def llrb_red_def llrb_rep_def Let_def)
    qed
  qed
qed

function RemoveMin :: "('k, 'v) llrb \<Rightarrow> ('k, 'v) llrb" where
  "RemoveMin n =
     (if llrb_empty (llrb_left n) then Leaf Black
      else let n = (if \<not> llrb_red (llrb_left n) \<and> \<not> llrb_red (llrb_left (llrb_left n)) then MoveRedLeft n else n)
           in FixUp (set_left (RemoveMin (llrb_left n)) n))"
  by pat_completeness auto
termination by (relation "measure llrb_weight") (simp_all add: weight_left split: if_splits)

function InnerErase :: "'k cmp \<Rightarrow> 'k \<Rightarrow> ('k, 'v) llrb \<Rightarrow> ('k, 'v) llrb" where
  "InnerErase cmp key n =
     (if llrb_empty n then Leaf Black
      else if cmp key (fst (llrb_entry n)) = Ascending then
        let n = (if \<not> llrb_empty (llrb_left n) \<and> \<not> llrb_red (llrb_left n) \<and> \<not> llrb_red (llrb_left (llrb_left n)) then MoveRedLeft n else n)
        in FixUp (set_left (InnerErase cmp key (llrb_left n)) n)
      else
        let n = (if llrb_red (llrb_left n) then RotateRight n else n);
            n = (if \<not> llrb_empty (llrb_right n) \<and> \<not> llrb_red (llrb_right n) \<and> \<not> llrb_red (llrb_left (llrb_right n)) then MoveRedRight n else n)
        in if cmp key (fst (llrb_entry n)) = Same then
             if llrb_empty (llrb_right n) then Leaf Black
             else FixUp (set_right (RemoveMin (llrb_right n)) (set_entry (llrb_entry (llrb_min (llrb_right n))) n))
           else FixUp (set_right (InnerErase cmp key (llrb_right n)) n))"
  by pat_completeness auto
termination
proof (relation "measure (\<lambda>(cmp, key, n). llrb_weight n)", goal_cases)
  case (2 cmp key n x)
  then show ?case using weight_left [of n] not_empty [of n] by (auto split: if_splits)
next
  case (3 cmp key n x xa)
  then show ?case using weight_right [of n x xa] by simp
qed simp

declare RemoveMin.simps [simp del] InnerErase.simps [simp del]

definition llrb_erase :: "'k cmp \<Rightarrow> 'k \<Rightarrow> ('k, 'v) llrb \<Rightarrow> ('k, 'v) llrb" where
  "llrb_erase cmp key n = FixRootColor (InnerErase cmp key n)"

end
