(* ===== verification/Llrb_Erase.thy ===== *)
theory Llrb_Erase
  imports Llrb_Tree
begin

text \<open>
  Removal keeps the trees balanced and removes the key's entry. On its way down the code keeps the node it goes
  to, or that node's left child, red; the lemmas on one step down, to the left and to the right, say so.
\<close>

section \<open>One step down\<close>

text \<open>A node the removal may go to\<close>

definition ready :: "('k, 'v) llrb \<Rightarrow> bool" where
  "ready n \<longleftrightarrow> n = Leaf Black \<or> llrb_color n = Red \<or> llrb_color (llrb_left n) = Red"

text \<open>A black node with a red right child, which \<open>MoveRedRight\<close> leaves for the next step\<close>

definition bent :: "nat \<Rightarrow> ('k, 'v) llrb \<Rightarrow> bool" where
  "bent b n \<longleftrightarrow> (\<exists>d e s l r. b = Suc d \<and> n = Node e Black s l r \<and> node_size s l r \<and> llrb_color l = Black \<and> llrb_color r = Red \<and> tree d l \<and> tree d r)"

text \<open>What a removal turns a tree into\<close>

definition shrunk :: "nat \<Rightarrow> ('k, 'v) llrb \<Rightarrow> ('k, 'v) llrb \<Rightarrow> bool" where
  "shrunk b n x \<longleftrightarrow> tree b x \<and> (llrb_color n = Black \<longrightarrow> llrb_color x = Black) \<and> length (llrb_entries x) \<le> length (llrb_entries n)"

text \<open>The result of a step: with \<open>strong\<close>, a tree that can stand in for \<open>n\<close>, and at the root a tree after \<open>FixRootColor\<close>.\<close>

definition stands_in :: "bool \<Rightarrow> nat \<Rightarrow> ('k, 'v) llrb \<Rightarrow> ('k, 'v) llrb \<Rightarrow> bool" where
  "stands_in strong b n x \<longleftrightarrow> (if strong then tree b x \<and> (llrb_color n = Black \<longrightarrow> llrb_color x = Black) else \<exists>d. near d x)"

lemma stands_near: "stands_in strong b n x \<Longrightarrow> \<exists>d. near d x"
  unfolding stands_in_def using tree_near [of b x] by (cases strong) auto

lemma tree_stands: "tree b x \<Longrightarrow> (strong \<Longrightarrow> llrb_color n = Black \<Longrightarrow> llrb_color x = Black) \<Longrightarrow> stands_in strong b n x"
  unfolding stands_in_def using tree_near [of b x] by (cases strong) auto

definition left_step :: "('k, 'v) llrb \<Rightarrow> ('k, 'v) llrb" where
  "left_step n = (if \<not> llrb_empty (llrb_left n) \<and> \<not> llrb_red (llrb_left n) \<and> \<not> llrb_red (llrb_left (llrb_left n)) then MoveRedLeft n else n)"

definition right_step :: "('k, 'v) llrb \<Rightarrow> ('k, 'v) llrb" where
  "right_step n =
     (let n = (if llrb_red (llrb_left n) then RotateRight n else n)
      in if \<not> llrb_empty (llrb_right n) \<and> \<not> llrb_red (llrb_right n) \<and> \<not> llrb_red (llrb_left (llrb_right n)) then MoveRedRight n else n)"

text \<open>
  What a step to the left, and one to the right, leaves: the tree to go on with, and for whatever smaller tree comes back
  from there one that \<open>FixUp\<close> makes a tree of again.
\<close>

definition left_result :: "bool \<Rightarrow> nat \<Rightarrow> ('k, 'v) llrb \<Rightarrow> nat \<Rightarrow> 'k \<times> 'v \<Rightarrow> Color \<Rightarrow> 31 word \<Rightarrow> ('k, 'v) llrb \<Rightarrow> ('k, 'v) llrb \<Rightarrow> bool" where
  "left_result strong b n b' e' c' s' l' r' \<longleftrightarrow> left_step n = Node e' c' s' l' r' \<and> tree b' l' \<and> ready l' \<and>
     llrb_entries n = llrb_entries l' @ e' # llrb_entries r' \<and> r' \<noteq> Leaf Red \<and>
     (llrb_left n \<noteq> Leaf Black \<longrightarrow> l' \<noteq> Leaf Black) \<and> (e' = llrb_entry n \<or> e' \<in> set (llrb_entries (llrb_right n))) \<and>
     (\<forall>x. shrunk b' l' x \<longrightarrow> stands_in strong b n (FixUp (Node e' c' s' x r')))"

definition right_result :: "bool \<Rightarrow> nat \<Rightarrow> ('k, 'v) llrb \<Rightarrow> nat \<Rightarrow> 'k \<times> 'v \<Rightarrow> Color \<Rightarrow> 31 word \<Rightarrow> ('k, 'v) llrb \<Rightarrow> ('k, 'v) llrb \<Rightarrow> bool" where
  "right_result strong b n b' e' c' s' l' r' \<longleftrightarrow> right_step n = Node e' c' s' l' r' \<and>
     (tree b' r' \<and> ready r' \<or> bent b' r' \<and> llrb_entry r' = llrb_entry n) \<and>
     llrb_entries n = llrb_entries l' @ e' # llrb_entries r' \<and> l' \<noteq> Leaf Red \<and>
     (e' = llrb_entry n \<or> e' \<in> set (llrb_entries (llrb_left n))) \<and>
     (r' = Leaf Black \<longrightarrow> l' = Leaf Black \<and> stands_in strong b n (Leaf Black)) \<and>
     (\<forall>x y. shrunk b' r' x \<longrightarrow> stands_in strong b n (FixUp (Node y c' s' l' x)))"

lemma flip_black: "llrb_color l = Black \<Longrightarrow> llrb_color r = Black \<Longrightarrow>
    FlipColor (Node e c s l r) = Node e (if c = Red then Black else Red) s (set_color Red l) (set_color Red r)"
  by (simp add: steps)

lemma move_red_left:
  assumes "llrb_color l = Black" and "r = Node re Black rs rl rr" and "llrb_color rr = Black"
  shows "MoveRedLeft (Node e c s l r) =
    (if llrb_color rl = Red
     then Node (llrb_entry rl) c s (Node e Black (sum_size (set_color Red l) (llrb_left rl)) (set_color Red l) (llrb_left rl))
            (Node re Black (sum_size (llrb_right rl) rr) (llrb_right rl) rr)
     else Node e (if c = Red then Black else Red) s (set_color Red l) (set_color Red r))"
  using assms by (simp add: MoveRedLeft_def steps)

lemma move_red_right:
  assumes "l = Node le Black ls ll lr" and "llrb_color r = Black"
  shows "MoveRedRight (Node e c s l r) =
    (if llrb_color ll = Red
     then Node le c s (set_color Black ll) (Node e Black (sum_size lr (set_color Red r)) lr (set_color Red r))
     else Node e (if c = Red then Black else Red) s (set_color Red l) (set_color Red r))"
  using assms by (simp add: MoveRedRight_def steps)

lemma black_node: "tree b n \<Longrightarrow> llrb_color n = Black \<Longrightarrow> n \<noteq> Leaf Black \<Longrightarrow>
    \<exists>d e s l r. b = Suc d \<and> n = Node e Black s l r \<and> node_size s l r \<and> tree d l \<and> tree d r \<and> llrb_color r = Black"
  by (cases n; cases b) auto

lemma black_leaf: "tree 0 n \<Longrightarrow> llrb_color n = Black \<Longrightarrow> n = Leaf Black"
  by (cases n) auto

lemma node_cases:
  assumes "tree b (Node e c s l r)"
  obtains (red) "c = Red" "llrb_color l = Black" "llrb_color r = Black" "tree b l" "tree b r" "node_size s l r"
    | (black) d where "c = Black" "b = Suc d" "llrb_color r = Black" "tree d l" "tree d r" "node_size s l r"
  using assms by (cases c; cases b) auto

lemma shrunk_tree: "shrunk b n x \<Longrightarrow> tree b x" and shrunk_black: "shrunk b n x \<Longrightarrow> llrb_color n = Black \<Longrightarrow> llrb_color x = Black"
  and shrunk_length: "shrunk b n x \<Longrightarrow> length (llrb_entries x) \<le> length (llrb_entries n)"
  by (simp_all add: shrunk_def)

lemma left_down:
  assumes n: "tree b (Node e c s l r)" and f: "fits (Node e c s l r)" and strong: "strong \<longleftrightarrow> c = Red \<or> llrb_color l = Red"
  shows "\<exists>b' e' c' s' l' r'. left_result strong b (Node e c s l r) b' e' c' s' l' r'"
proof -
  define n where "n = Node e c s l r"
  have len: "Suc (length (llrb_entries l) + length (llrb_entries r)) < 2 ^ 31" using f by simp
  have lt: "\<exists>d. tree d l" using n by (rule node_cases) auto
  have le: "llrb_empty l \<longleftrightarrow> l = Leaf Black" using lt tree_empty by blast
  show ?thesis
  proof (cases "llrb_color l = Black \<and> l \<noteq> Leaf Black \<and> llrb_color (llrb_left l) = Black")
    case False
    then have m: "left_step (Node e c s l r) = Node e c s l r" using le by (auto simp: left_step_def llrb_red_def)
    have rd: "ready l" using False by (auto simp: ready_def)
    show ?thesis
    proof (cases rule: node_cases [OF n])
      case 1
      have "stands_in strong b (Node e c s l r) (FixUp (Node e c s x r))" if "shrunk b l x" for x
        using that 1 fix_up_red [of b x r e s] len strong by (simp add: shrunk_def stands_in_def)
      then have "left_result strong b (Node e c s l r) b e c s l r"
        using m rd 1 tree_not_leaf by (auto simp: left_result_def)
      then show ?thesis by blast
    next
      case (2 d)
      have "stands_in strong b (Node e c s l r) (FixUp (Node e c s x r))" if "shrunk d l x" for x
        using that 2 fix_up_black [of d x r e s] len by (intro tree_stands) (auto simp: shrunk_def)
      then have "left_result strong b (Node e c s l r) d e c s l r"
        using m rd 2 tree_not_leaf by (auto simp: left_result_def)
      then show ?thesis by blast
    qed
  next
    case True
    then have m: "left_step (Node e c s l r) = MoveRedLeft (Node e c s l r)" using le by (auto simp: left_step_def llrb_red_def)
    obtain p where p: "tree p l" "tree p r" "llrb_color r = Black" "c = Red \<Longrightarrow> b = p" "c = Black \<Longrightarrow> b = Suc p" "node_size s l r"
      using n by (rule node_cases) auto
    obtain d le' ls ll lr where l: "p = Suc d" "l = Node le' Black ls ll lr" "node_size ls ll lr" "tree d ll" "tree d lr" "llrb_color lr = Black"
      using black_node [OF p(1)] True by blast
    obtain re rs rl rr where r: "r = Node re Black rs rl rr" "node_size rs rl rr" "tree d rl" "tree d rr" "llrb_color rr = Black"
      using black_node [OF p(2,3)] p(2) l(1) by (cases "r = Leaf Black") auto
    have ll: "llrb_color ll = Black" using True l(2) by simp
    have l1: "tree d (set_color Red l)" using l ll by simp
    have strong': "strong \<longleftrightarrow> c = Red" using strong True by simp
    show ?thesis
    proof (cases "llrb_color rl")
      case Red
      obtain rle rls rll rlr where rl: "rl = Node rle Red rls rll rlr" "tree d rll" "tree d rlr" "llrb_color rll = Black" "llrb_color rlr = Black"
        using r(3) Red by (cases rl) auto
      define l' where "l' = Node e Black (sum_size (set_color Red l) rll) (set_color Red l) rll"
      define r' where "r' = Node re Black (sum_size rlr rr) rlr rr"
      have m': "MoveRedLeft (Node e c s l r) = Node rle c s l' r'"
        using move_red_left [of l r re rs rl rr e c s] True r rl by (simp add: l'_def r'_def)
      have s1: "node_size (sum_size (set_color Red l) rll) (set_color Red l) rll"
        by (rule tree_total [OF l1 rl(2)]) (use len r rl in simp)
      have s2: "node_size (sum_size rlr rr) rlr rr"
        by (rule tree_total [OF rl(3) r(4)]) (use len r rl in simp)
      have l': "tree (Suc d) l'" using l1 rl s1 by (simp add: l'_def)
      have r': "tree (Suc d) r'" "llrb_color r' = Black" using r rl s2 by (simp_all add: r'_def)
      have rd: "ready l'" by (simp add: ready_def l'_def)
      have ent: "llrb_entries l @ e # llrb_entries r = llrb_entries l' @ rle # llrb_entries r'" by (simp add: l'_def r'_def r(1) rl(1))
      have "stands_in strong b (Node e c s l r) (FixUp (Node rle c s x r'))" if "shrunk (Suc d) l' x" for x
      proof -
        have len': "Suc (length (llrb_entries x) + length (llrb_entries r')) < 2 ^ 31"
          using len shrunk_length [OF that] arg_cong [OF ent, of length] by simp
        have x: "tree (Suc d) x" "llrb_color x = Black" using that by (simp_all add: shrunk_def l'_def)
        show ?thesis
          using fix_up_red [OF x r'(1) len', of rle s] fix_up_black [OF x(1) r'(1) len', of rle s] r' p l(1) strong' x(2)
          by (cases c) (auto intro: tree_stands)
      qed
      moreover have "r' \<noteq> Leaf Red" "l' \<noteq> Leaf Black" "rle \<in> set (llrb_entries r)"
        by (simp_all add: r'_def l'_def r(1) rl(1))
      ultimately have "left_result strong b (Node e c s l r) (Suc d) rle c s l' r'"
        using m m' l' rd ent by (simp add: left_result_def)
      then show ?thesis by blast
    next
      case Black
      define c' where "c' = (if c = Red then Black else Red)"
      have m': "MoveRedLeft (Node e c s l r) = Node e c' s (set_color Red l) (set_color Red r)"
        using move_red_left [of l r re rs rl rr e c s] True r Black by (simp add: c'_def)
      have r1: "tree d (set_color Red r)" using r Black by simp
      have rd: "ready (set_color Red l)" by (simp add: ready_def)
      have "stands_in strong b (Node e c s l r) (FixUp (Node e c' s x (set_color Red r)))" if "shrunk d (set_color Red l) x" for x
      proof -
        have x: "tree d x" using that by (simp add: shrunk_def)
        have len': "Suc (length (llrb_entries x) + length (llrb_entries (set_color Red r))) < 2 ^ 31" using len shrunk_length [OF that] by simp
        show ?thesis
        proof (cases c)
          case Red
          then show ?thesis using fix_up_black [OF x r1 len', of e s] p l(1) strong' by (simp add: stands_in_def c'_def)
        next
          case Black
          have "\<exists>d. near d (FixUp (Node e Red s x (set_color Red r)))"
          proof (cases "llrb_color x")
            case Red
            then have "tree (Suc (Suc d)) (FixUp (Node e Red s x (set_color Red r)))"
              using x r1 set_black [of d x] tree_total [OF x r1 len'] tree_cases_red [OF x Red] r(1) p(2) l(1)
              by (simp add: fix_up_both tree_near node_size_def)
            then show ?thesis using tree_near by blast
          next
            case Black
            then show ?thesis using fix_up_red [OF x Black r1 len'] by blast
          qed
          then show ?thesis using Black strong' by (simp add: stands_in_def c'_def)
        qed
      qed
      moreover have "set_color Red l \<noteq> Leaf Black" using l(2) by simp
      ultimately have "left_result strong b (Node e c s l r) d e c' s (set_color Red l) (set_color Red r)"
        using m m' l1 rd tree_not_leaf [OF r1] by (simp add: left_result_def)
      then show ?thesis by blast
    qed
  qed
qed

lemma right_down:
  assumes n: "tree b (Node e c s l r) \<or> bent b (Node e c s l r)" and f: "fits (Node e c s l r)"
    and strong: "strong \<longleftrightarrow> c = Red \<or> llrb_color l = Red \<or> bent b (Node e c s l r)"
  shows "\<exists>b' e' c' s' l' r'. right_result strong b (Node e c s l r) b' e' c' s' l' r'"
proof -
  have len: "Suc (length (llrb_entries l) + length (llrb_entries r)) < 2 ^ 31" using f by simp
  obtain p where p: "tree p l" "tree p r" "c = Red \<Longrightarrow> b = p \<and> llrb_color l = Black \<and> llrb_color r = Black" "c = Black \<Longrightarrow> b = Suc p" "node_size s l r"
    using n by (cases c; cases b) (auto simp: bent_def)
  have re: "llrb_empty r \<longleftrightarrow> r = Leaf Black" using p(2) tree_empty by blast
  have rb: "llrb_color r = Black \<or> llrb_color l = Black \<and> c = Black"
    using n by (cases c; cases b) (auto simp: bent_def)
  consider (red_left) "llrb_color l = Red" "llrb_color r = Black" | (bent) "llrb_color l = Black" "llrb_color r = Red" "c = Black"
    | (stay) "llrb_color l = Black" "llrb_color r = Black" "r = Leaf Black \<or> llrb_color (llrb_left r) = Red"
    | (move) "llrb_color l = Black" "llrb_color r = Black" "r \<noteq> Leaf Black" "llrb_color (llrb_left r) = Black"
    using rb by (cases "llrb_color l"; cases "llrb_color r"; cases "llrb_color (llrb_left r)") auto
  then show ?thesis
  proof cases
    case red_left
    then have c: "c = Black" "b = Suc p" using p(3,4) by (cases c; simp)+
    obtain le ls ll lr where l: "l = Node le Red ls ll lr" "tree p ll" "tree p lr" "llrb_color ll = Black" "llrb_color lr = Black"
      using p(1) red_left by (cases l) auto
    define r' where "r' = Node e Red (sum_size lr r) lr r"
    have m: "right_step (Node e c s l r) = Node le Black s ll r'"
      using c l by (simp add: right_step_def llrb_red_def rep_total r'_def)
    have "node_size (sum_size lr r) lr r" by (rule tree_total [OF l(3) p(2)]) (use len l in simp)
    then have r': "tree p r'" "ready r'" using l p red_left by (simp_all add: r'_def ready_def)
    have "stands_in strong b (Node e c s l r) (FixUp (Node y Black s ll x))" if "shrunk p r' x" for x y
      using that fix_up_black [of p ll x y s] l c len shrunk_length [OF that] by (intro tree_stands) (auto simp: shrunk_def r'_def)
    then have "right_result strong b (Node e c s l r) p le Black s ll r'"
      using m r' l by (auto simp: r'_def right_result_def)
    then show ?thesis by blast
  next
    case bent
    have m: "right_step (Node e c s l r) = Node e c s l r" using bent by (simp add: right_step_def llrb_red_def)
    have "stands_in strong b (Node e c s l r) (FixUp (Node y c s l x))" if "shrunk p r x" for x y
      using that fix_up_black [of p l x y s] bent p len shrunk_length [OF that] by (intro tree_stands) (auto simp: shrunk_def)
    moreover have "r \<noteq> Leaf Black" "l \<noteq> Leaf Red" using bent by auto
    moreover have "ready r" using bent by (simp add: ready_def)
    ultimately have "right_result strong b (Node e c s l r) p e c s l r" using m p(2) by (simp add: right_result_def)
    then show ?thesis by blast
  next
    case stay
    have m: "right_step (Node e c s l r) = Node e c s l r" using stay re by (auto simp: right_step_def llrb_red_def)
    have rd: "ready r" using stay by (auto simp: ready_def)
    have "l = Leaf Black \<and> stands_in strong b (Node e c s l r) (Leaf Black)" if "r = Leaf Black"
    proof -
      have "p = 0" using that p(2) by simp
      then have "l = Leaf Black" using black_leaf p(1) stay by blast
      then show ?thesis using that p strong stay by (cases c) (auto simp: stands_in_def bent_def near_def intro: exI [of _ 0])
    qed
    moreover have "stands_in strong b (Node e c s l r) (FixUp (Node y c s l x))" if "shrunk p r x" for x y
    proof -
      have x: "tree p x" "llrb_color x = Black" using that stay by (simp_all add: shrunk_def)
      have len': "Suc (length (llrb_entries l) + length (llrb_entries x)) < 2 ^ 31" using len shrunk_length [OF that] by simp
      show ?thesis using fix_up_red [OF p(1) stay(1) x(1) len', of y s] fix_up_black [OF p(1) x(1) len', of y s] p x
        by (cases c) (auto intro: tree_stands)
    qed
    moreover have "l \<noteq> Leaf Red" using stay by auto
    ultimately have "right_result strong b (Node e c s l r) p e c s l r" using m rd p(2) by (auto simp: right_result_def)
    then show ?thesis by blast
  next
    case move
    then have m: "right_step (Node e c s l r) = MoveRedRight (Node e c s l r)" using re by (auto simp: right_step_def llrb_red_def)
    obtain d re rs rl rr where r: "p = Suc d" "r = Node re Black rs rl rr" "node_size rs rl rr" "tree d rl" "tree d rr" "llrb_color rr = Black"
      using black_node [OF p(2) move(2,3)] by blast
    obtain le ls ll lr where l: "l = Node le Black ls ll lr" "node_size ls ll lr" "tree d ll" "tree d lr" "llrb_color lr = Black"
      using black_node [OF p(1) move(1)] p(1) r(1) by (cases "l = Leaf Black") auto
    have r1: "tree d (set_color Red r)" using r move(4) by simp
    have strong': "strong \<longleftrightarrow> c = Red" using strong move by (auto simp: bent_def)
    show ?thesis
    proof (cases "llrb_color ll")
      case Red
      define r' where "r' = Node e Black (sum_size lr (set_color Red r)) lr (set_color Red r)"
      have m': "MoveRedRight (Node e c s l r) = Node le c s (set_color Black ll) r'"
        using move_red_right [OF l(1) move(2), of e c s] Red by (simp add: r'_def)
      have "node_size (sum_size lr (set_color Red r)) lr (set_color Red r)"
        by (rule tree_total [OF l(4) r1]) (use len l in simp)
      then have r': "bent (Suc d) r'" "llrb_entry r' = e" using l r1 by (simp_all add: bent_def r'_def)
      have l1: "tree (Suc d) (set_color Black ll)" using set_black [of d ll] l Red by (simp add: tree_near)
      have ent: "llrb_entries l @ e # llrb_entries r = llrb_entries (set_color Black ll) @ le # llrb_entries r'"
        by (simp add: l(1) r'_def)
      have "stands_in strong b (Node e c s l r) (FixUp (Node y c s (set_color Black ll) x))" if "shrunk (Suc d) r' x" for x y
      proof -
        have x: "tree (Suc d) x" "llrb_color x = Black" using that by (simp_all add: shrunk_def r'_def)
        have len': "Suc (length (llrb_entries (set_color Black ll)) + length (llrb_entries x)) < 2 ^ 31"
          using len shrunk_length [OF that] arg_cong [OF ent, of length] by simp
        show ?thesis
          using fix_up_red [OF l1 _ x(1) len', of y s] fix_up_black [OF l1 x(1) len', of y s] p r(1) x(2)
          by (cases c) (auto intro: tree_stands)
      qed
      moreover have "set_color Black ll \<noteq> Leaf Red" "r' \<noteq> Leaf Black" "le \<in> set (llrb_entries l)"
        by (cases ll) (simp_all add: r'_def l(1))
      ultimately have "right_result strong b (Node e c s l r) (Suc d) le c s (set_color Black ll) r'"
        using r' ent m m' by (simp add: right_result_def)
      then show ?thesis by blast
    next
      case Black
      define c' where "c' = (if c = Red then Black else Red)"
      have m': "MoveRedRight (Node e c s l r) = Node e c' s (set_color Red l) (set_color Red r)"
        using move_red_right [OF l(1) move(2), of e c s] Black by (simp add: c'_def)
      have l1: "tree d (set_color Red l)" using l Black by simp
      have rd: "ready (set_color Red r)" by (simp add: ready_def)
      have "stands_in strong b (Node e c s l r) (FixUp (Node y c' s (set_color Red l) x))" if "shrunk d (set_color Red r) x" for x y
      proof -
        have x: "tree d x" using that by (simp add: shrunk_def)
        have len': "Suc (length (llrb_entries (set_color Red l)) + length (llrb_entries x)) < 2 ^ 31" using len shrunk_length [OF that] by simp
        show ?thesis
        proof (cases c)
          case Red
          then show ?thesis using fix_up_black [OF l1 x len', of y s] p r(1) by (intro tree_stands) (simp_all add: c'_def)
        next
          case Black
          have "\<exists>d. near d (FixUp (Node y Red s (set_color Red l) x))"
          proof (cases "llrb_color x")
            case Red
            then have "tree (Suc (Suc d)) (FixUp (Node y Red s (set_color Red l) x))"
              using x p(1) r(1) set_black [of d x] tree_total [OF l1 x len'] tree_cases_red [OF l1] l(1)
              by (simp add: fix_up_both tree_near node_size_def)
            then show ?thesis using tree_near by blast
          next
            case Black
            have "FixUp (Node y Red s (set_color Red l) x) = Node y Red (sum_size (set_color Red l) x) (set_color Red l) x"
              by (rule fix_up_none) (use Black tree_cases_red [OF l1] in simp_all)
            then show ?thesis using l1 x Black tree_total [OF l1 x len'] by (auto simp: near_def)
          qed
          then show ?thesis using Black strong' by (simp add: stands_in_def c'_def)
        qed
      qed
      moreover have "set_color Red l \<noteq> Leaf Red" "set_color Red r \<noteq> Leaf Black" using l(1) r(2) by simp_all
      moreover have "tree d (set_color Red r)" by (rule r1)
      ultimately have "right_result strong b (Node e c s l r) d e c' s (set_color Red l) (set_color Red r)"
        using m m' rd by (simp add: right_result_def)
      then show ?thesis by blast
    qed
  qed
qed

section \<open>Removal\<close>

lemma left_weight: "\<not> llrb_empty n \<Longrightarrow> llrb_weight (llrb_left (left_step n)) < llrb_weight n"
  unfolding left_step_def using weight_left [of n] not_empty [of n] by auto

lemma right_weight: "\<not> llrb_empty n \<Longrightarrow> llrb_weight (llrb_right (right_step n)) < llrb_weight n"
  unfolding right_step_def Let_def by (rule weight_right [OF _ HOL.refl HOL.refl])

lemma remove_min_step: "\<not> llrb_empty (llrb_left n) \<Longrightarrow> RemoveMin n = FixUp (set_left (RemoveMin (llrb_left (left_step n))) (left_step n))"
  by (subst RemoveMin.simps) (simp add: left_step_def Let_def)

lemma erase_step: "\<not> llrb_empty n \<Longrightarrow> InnerErase cmp key n =
    (if cmp key (fst (llrb_entry n)) = Ascending then FixUp (set_left (InnerErase cmp key (llrb_left (left_step n))) (left_step n))
     else let n = right_step n
          in if cmp key (fst (llrb_entry n)) = Same then
               if llrb_empty (llrb_right n) then Leaf Black
               else FixUp (set_right (RemoveMin (llrb_right n)) (set_entry (llrb_entry (llrb_min (llrb_right n))) n))
             else FixUp (set_right (InnerErase cmp key (llrb_right n)) n))"
  by (subst InnerErase.simps) (simp add: left_step_def right_step_def Let_def)

lemma fits_part: "fits n \<Longrightarrow> llrb_entries n = llrb_entries l @ e # llrb_entries r \<Longrightarrow> fits l \<and> fits r"
  by simp

lemma remove_min:
  assumes "tree b n" and "ready n" and "n \<noteq> Leaf Black" and "fits n"
  shows "shrunk b n (RemoveMin n) \<and> llrb_entries (RemoveMin n) = tl (llrb_entries n)"
  using assms
proof (induction "llrb_weight n" arbitrary: n b rule: less_induct)
  case less
  then obtain e c s l r where n: "n = Node e c s l r" by (cases n) auto
  have strong: "c = Red \<or> llrb_color l = Red" using less(3) n by (auto simp: ready_def)
  obtain p where p: "tree p l" "tree p r" "llrb_color r = Black" "c = Red \<Longrightarrow> b = p" using less(2) unfolding n by (rule node_cases) auto
  show ?case
  proof (cases "l = Leaf Black")
    case True
    then have "r = Leaf Black" using p black_leaf by simp
    moreover have "RemoveMin n = Leaf Black" using True n by (subst RemoveMin.simps) (simp add: llrb_empty_def)
    ultimately show ?thesis using True n strong p by (auto simp: shrunk_def)
  next
    case False
    then have ne: "\<not> llrb_empty (llrb_left n)" "\<not> llrb_empty n" using tree_empty [OF p(1)] tree_empty [OF less(2)] n by simp_all
    obtain b' e' c' s' l' r' where "left_result True b n b' e' c' s' l' r'"
      using left_down [of b e c s l r True] less(2,5) strong unfolding n by blast
    then have m: "left_step n = Node e' c' s' l' r'" "tree b' l'" "ready l'" "l' \<noteq> Leaf Black" "r' \<noteq> Leaf Red"
        "llrb_entries n = llrb_entries l' @ e' # llrb_entries r'"
      and fix_up: "\<And>x. shrunk b' l' x \<Longrightarrow> stands_in True b n (FixUp (Node e' c' s' x r'))"
      using False n by (simp_all add: left_result_def)
    have IH: "shrunk b' l' (RemoveMin l')" "llrb_entries (RemoveMin l') = tl (llrb_entries l')"
      using less(1) [OF _ m(2-4)] left_weight [OF ne(2)] m(1) fits_part [OF less(5) m(6)] by auto
    have eq: "RemoveMin n = FixUp (Node e' c' s' (RemoveMin l') r')" by (simp add: remove_min_step [OF ne(1)] m(1))
    have "llrb_entries l' \<noteq> []" using m(2,4) by (cases l') auto
    then have ent: "llrb_entries (RemoveMin n) = tl (llrb_entries n)"
      using fix_up_entries [OF tree_not_leaf [OF shrunk_tree [OF IH(1)]] m(5)] m(6) IH(2) unfolding eq by simp
    have "tree b (RemoveMin n)" "llrb_color n = Black \<longrightarrow> llrb_color (RemoveMin n) = Black"
      using fix_up [OF IH(1)] unfolding eq by (simp_all add: stands_in_def)
    then show ?thesis using ent by (simp add: shrunk_def)
  qed
qed

lemma min_entry: "tree b n \<Longrightarrow> n \<noteq> Leaf Black \<Longrightarrow> llrb_entry (llrb_min n) = hd (llrb_entries n)"
proof (induction n arbitrary: b)
  case (Node e c s l r)
  obtain p where p: "tree p l" using Node.prems(1) by (rule node_cases) auto
  show ?case
  proof (cases "l = Leaf Black")
    case False
    then have "llrb_entries l \<noteq> []" using p by (cases l) auto
    then show ?thesis using Node.IH(1) [OF p False] tree_empty [OF p] False by simp
  qed (simp add: llrb_empty_def)
qed simp

lemma shrunkI: "stands_in True b n x \<Longrightarrow> length (llrb_entries x) \<le> length (llrb_entries n) \<Longrightarrow> shrunk b n x"
  by (simp add: stands_in_def shrunk_def)

lemma node_entry: "llrb_entries n = llrb_entries (llrb_left n) @ llrb_entry n # llrb_entries (llrb_right n)" if "\<not> llrb_empty n"
  using not_empty [OF that] by auto

context comparator
begin

lemma drop_length: "length (drop_entry Compare key xs) \<le> length xs"
  by (simp add: drop_entry_def)

lemma inner_erase:
  assumes "tree b n \<or> bent b n \<and> Compare key (fst (llrb_entry n)) \<noteq> Ascending" and "ascending Compare (llrb_entries n)" and "fits n"
  shows "stands_in (ready n \<or> bent b n) b n (InnerErase Compare key n) \<and> llrb_entries (InnerErase Compare key n) = drop_entry Compare key (llrb_entries n)"
  using assms
proof (induction "llrb_weight n" arbitrary: n b rule: less_induct)
  case less
  show ?case
  proof (cases n)
    case (Leaf c)
    then have "c = Black" "b = 0" using less(2) by (auto simp: bent_def)
    moreover have "InnerErase Compare key n = Leaf Black" using Leaf by (subst InnerErase.simps) (simp add: llrb_empty_def)
    ultimately show ?thesis using Leaf by (simp add: stands_in_def ready_def)
  next
    case n: (Node e c s l r)
    have "unat s \<noteq> 0" using less(2) n by (cases c; cases b) (auto simp: bent_def node_size_def)
    then have ne: "\<not> llrb_empty n" using n ucast_size [of s] by (auto simp: llrb_empty_def simp del: ucast_size)
    have asc: "ascending Compare (llrb_entries l @ e # llrb_entries r)" using less(3) n by simp
    define strong where "strong = (ready n \<or> bent b n)"
    have en: "llrb_entry n = e" using n by simp
    show ?thesis
    proof (cases "Compare key (fst e) = Ascending")
      case True
      then have t: "tree b (Node e c s l r)" using less(2) n by simp
      have st: "strong = (c = Red \<or> llrb_color l = Red)" using t n by (cases c; cases b) (auto simp: strong_def ready_def bent_def)
      obtain b' e' c' s' l' r' where "left_result strong b n b' e' c' s' l' r'"
        using left_down [OF t _ st] less(4) unfolding n by blast
      then have m: "left_step n = Node e' c' s' l' r'" "tree b' l'" "ready l'" "r' \<noteq> Leaf Red"
          "llrb_entries n = llrb_entries l' @ e' # llrb_entries r'" "e' = e \<or> e' \<in> set (llrb_entries r)"
        and fix_up: "\<And>x. shrunk b' l' x \<Longrightarrow> stands_in strong b n (FixUp (Node e' c' s' x r'))"
        using n by (simp_all add: left_result_def)
      have parts: "ascending Compare (llrb_entries l' @ e' # llrb_entries r')" "fits l'"
        using less(3) fits_part [OF less(4) m(5)] m(5) by simp_all
      have IH: "stands_in True b' l' (InnerErase Compare key l')" "llrb_entries (InnerErase Compare key l') = drop_entry Compare key (llrb_entries l')"
        using less(1) [of l' b'] left_weight [OF ne] m(1-3) parts by auto
      have sh: "shrunk b' l' (InnerErase Compare key l')" by (rule shrunkI [OF IH(1)]) (simp add: IH(2) drop_length)
      have eq: "InnerErase Compare key n = FixUp (Node e' c' s' (InnerErase Compare key l') r')"
        using True by (simp add: erase_step [OF ne] m(1) en)
      have "Compare key (fst e') = Ascending"
        using m(6) True asc asc_trans [of key "fst e" "fst e'"] by auto
      then have "llrb_entries (InnerErase Compare key n) = drop_entry Compare key (llrb_entries n)"
        using fix_up_entries [OF tree_not_leaf [OF shrunk_tree [OF sh]] m(4)] drop_split(1) [OF parts(1), of key] desc_iff [of "fst e'" key] m(5) IH(2)
        unfolding eq by simp
      then show ?thesis using fix_up [OF sh] unfolding eq strong_def by blast
    next
      case False
      have t: "tree b (Node e c s l r) \<or> bent b (Node e c s l r)" using less(2) n by blast
      have st: "strong = (c = Red \<or> llrb_color l = Red \<or> bent b (Node e c s l r))" using n by (auto simp: strong_def ready_def)
      obtain b' e' c' s' l' r' where res: "right_result strong b n b' e' c' s' l' r'"
        using right_down [OF t _ st] less(4) unfolding n by blast
      then have m: "right_step n = Node e' c' s' l' r'" "tree b' r' \<and> ready r' \<or> bent b' r' \<and> llrb_entry r' = e" "l' \<noteq> Leaf Red"
          "llrb_entries n = llrb_entries l' @ e' # llrb_entries r'" "e' = e \<or> e' \<in> set (llrb_entries l)"
          "r' = Leaf Black \<Longrightarrow> l' = Leaf Black \<and> stands_in strong b n (Leaf Black)"
        using n by (simp_all add: right_result_def)
      have fix_up: "\<And>x y. shrunk b' r' x \<Longrightarrow> stands_in strong b n (FixUp (Node y c' s' l' x))"
        using res unfolding right_result_def by blast
      have parts: "ascending Compare (llrb_entries l' @ e' # llrb_entries r')" "fits r'"
        using less(3) fits_part [OF less(4) m(4)] m(4) by simp_all
      have e': "Compare key (fst e') \<noteq> Ascending"
        using m(5) False asc asc_trans [of key "fst e'" "fst e"] by auto
      show ?thesis
      proof (cases "Compare key (fst e') = Same")
        case True
        have "\<not> bent b' r' \<or> llrb_entry r' \<noteq> e"
        proof (rule ccontr)
          assume "\<not> ?thesis"
          then have "e \<in> set (llrb_entries r')" by (auto simp: bent_def)
          then have "Compare (fst e') (fst e) = Ascending" using parts(1) by auto
          then show False using False same_left [OF True, of "fst e"] by simp
        qed
        then have r': "tree b' r'" "ready r'" using m(2) by blast+
        have same: "Compare (fst e') key = Same" using True same_sym by blast
        show ?thesis
        proof (cases "r' = Leaf Black")
          case r: True
          then have "InnerErase Compare key n = Leaf Black" using False True by (simp add: erase_step [OF ne] m(1) en llrb_empty_def)
          moreover have "drop_entry Compare key (llrb_entries n) = []" using drop_split(3) [OF parts(1) same] m(4) m(6) [OF r] r by simp
          ultimately show ?thesis using m(6) [OF r] unfolding strong_def by simp
        next
          case r: False
          have rm: "shrunk b' r' (RemoveMin r')" "llrb_entries (RemoveMin r') = tl (llrb_entries r')" using remove_min [OF r' r parts(2)] by simp_all
          have eq: "InnerErase Compare key n = FixUp (Node (hd (llrb_entries r')) c' s' l' (RemoveMin r'))"
            using False True r tree_empty [OF r'(1)] min_entry [OF r'(1) r] by (simp add: erase_step [OF ne] m(1) en)
          have "llrb_entries r' \<noteq> []" using r r'(1) by (cases r') auto
          then have "llrb_entries (InnerErase Compare key n) = drop_entry Compare key (llrb_entries n)"
            using fix_up_entries [OF m(3) tree_not_leaf [OF shrunk_tree [OF rm(1)]]] drop_split(3) [OF parts(1) same] m(4) rm(2)
            unfolding eq by simp
          then show ?thesis using fix_up [OF rm(1)] unfolding eq strong_def by blast
        qed
      next
        case ns: False
        have IH: "stands_in True b' r' (InnerErase Compare key r')" "llrb_entries (InnerErase Compare key r') = drop_entry Compare key (llrb_entries r')"
          using less(1) [of r' b'] right_weight [OF ne] m(1,2) parts False by auto
        have sh: "shrunk b' r' (InnerErase Compare key r')" by (rule shrunkI [OF IH(1)]) (simp add: IH(2) drop_length)
        have eq: "InnerErase Compare key n = FixUp (Node e' c' s' l' (InnerErase Compare key r'))"
          using False ns by (simp add: erase_step [OF ne] m(1) en)
        have "Compare (fst e') key = Ascending" using e' ns desc_iff [of key "fst e'"] not_both by blast
        then have "llrb_entries (InnerErase Compare key n) = drop_entry Compare key (llrb_entries n)"
          using fix_up_entries [OF m(3) tree_not_leaf [OF shrunk_tree [OF sh]]] drop_split(2) [OF parts(1), of key] m(4) IH(2)
          unfolding eq by simp
        then show ?thesis using fix_up [OF sh] unfolding eq strong_def by blast
      qed
    qed
  qed
qed

end

end
