(* ===== verification/Sorted_Map.thy ===== *)
theory Sorted_Map
  imports Llrb_Erase
begin

text \<open>
  The immutable sorted maps and sets of Firestore (\<open>Firestore/core/src/immutable/\<close>): an array of up to 25 entries
  (\<open>array_sorted_map.h\<close>), a tree for more (\<open>tree_sorted_map.h\<close>, \<open>llrb_node_iterator.h\<close>), and the map that changes
  from the one to the other (\<open>sorted_map.h\<close>). A failed assertion is \<open>None\<close>. The comparator that a map holds is an
  argument of its operations.
\<close>

definition kFixedSize :: nat where "kFixedSize = 25"

definition npos :: u32 where "npos = -1"

section \<open>Arrays\<close>

definition array_append :: "'a list \<Rightarrow> 'a list \<Rightarrow> 'a list option" where
  "array_append contents src = (if length contents + length src \<le> kFixedSize then Some (contents @ src) else None)"

text \<open>A position in an array is an index. \<open>std::lower_bound\<close> finds the end of the entries that are less.\<close>

definition array_lower_bound :: "'k cmp \<Rightarrow> 'k \<Rightarrow> ('k \<times> 'v) list \<Rightarrow> nat" where
  "array_lower_bound cmp key xs = length (takeWhile (\<lambda>e. cmp (fst e) key = Ascending) xs)"

definition array_find :: "'k cmp \<Rightarrow> 'k \<Rightarrow> ('k \<times> 'v) list \<Rightarrow> nat" where
  "array_find cmp key xs = length (takeWhile (\<lambda>e. cmp key (fst e) \<noteq> Same) xs)"

definition array_insert :: "'k cmp \<Rightarrow> 'k \<Rightarrow> 'v \<Rightarrow> ('k \<times> 'v) list \<Rightarrow> ('k \<times> 'v) list option" where
  "array_insert cmp key v xs =
     (let pos = array_lower_bound cmp key xs;
          replacing_entry = (pos \<noteq> length xs \<and> cmp key (fst (xs ! pos)) = Same)
      in if replacing_entry \<and> v = snd (xs ! pos) then Some xs
         else Option.bind (array_append [] (take pos xs)) (\<lambda>copy.
              Option.bind (array_append copy [(key, v)]) (\<lambda>copy.
              array_append copy (if replacing_entry then drop (pos + 1) xs else drop pos xs))))"

definition array_erase :: "'k cmp \<Rightarrow> 'k \<Rightarrow> ('k \<times> 'v) list \<Rightarrow> ('k \<times> 'v) list option" where
  "array_erase cmp key xs =
     (let pos = array_find cmp key xs
      in if pos = length xs then Some xs
         else if length xs \<le> 1 then Some []
         else Option.bind (array_append [] (take pos xs)) (\<lambda>copy. array_append copy (drop (pos + 1) xs)))"

definition array_contains :: "'k cmp \<Rightarrow> 'k \<Rightarrow> ('k \<times> 'v) list \<Rightarrow> bool" where
  "array_contains cmp key xs \<longleftrightarrow> array_find cmp key xs \<noteq> length xs"

definition array_find_index :: "'k cmp \<Rightarrow> 'k \<Rightarrow> ('k \<times> 'v) list \<Rightarrow> u32" where
  "array_find_index cmp key xs = (let found = array_find cmp key xs in if found = length xs then npos else of_nat found)"

text \<open>\<open>std::sort\<close> is the argument \<open>std_sort\<close>.\<close>

definition SortedArray :: "(('k \<times> 'v \<Rightarrow> 'k \<times> 'v \<Rightarrow> bool) \<Rightarrow> ('k \<times> 'v) list \<Rightarrow> ('k \<times> 'v) list) \<Rightarrow> 'k cmp \<Rightarrow> ('k \<times> 'v) list \<Rightarrow> ('k \<times> 'v) list option" where
  "SortedArray std_sort cmp entries = array_append [] (std_sort (\<lambda>lhs rhs. cmp (fst lhs) (fst rhs) = Ascending) entries)"

section \<open>Iterators of trees\<close>

text \<open>A stack of nodes, the top first\<close>

type_synonym ('k, 'v) stack_type = "('k, 'v) llrb list"

fun AccumulateLeft :: "('k, 'v) llrb \<Rightarrow> ('k, 'v) stack_type \<Rightarrow> ('k, 'v) stack_type" where
  "AccumulateLeft (Leaf c) stack = stack"
| "AccumulateLeft (Node e c s l r) stack =
     (if llrb_empty (Node e c s l r) then stack else AccumulateLeft l (Node e c s l r # stack))"

fun LowerBound_loop :: "'k cmp \<Rightarrow> 'k \<Rightarrow> ('k, 'v) llrb \<Rightarrow> ('k, 'v) stack_type \<Rightarrow> ('k, 'v) stack_type" where
  "LowerBound_loop cmp key (Leaf c) stack = stack"
| "LowerBound_loop cmp key (Node e c s l r) stack =
     (if llrb_empty (Node e c s l r) then stack
      else case cmp key (fst e) of
        Same \<Rightarrow> Node e c s l r # stack
      | Ascending \<Rightarrow> LowerBound_loop cmp key l (Node e c s l r # stack)
      | Descending \<Rightarrow> LowerBound_loop cmp key r stack)"

definition tree_iter_get :: "('k, 'v) stack_type \<Rightarrow> ('k \<times> 'v) option" where
  "tree_iter_get stack = (case stack of [] \<Rightarrow> None | n # _ \<Rightarrow> Some (llrb_entry n))"

definition tree_iter_next :: "('k, 'v) stack_type \<Rightarrow> ('k, 'v) stack_type option" where
  "tree_iter_next stack = (case stack of [] \<Rightarrow> None | n # st \<Rightarrow> Some (AccumulateLeft (llrb_right n) st))"

definition tree_iter_eq :: "('k, 'v) stack_type \<Rightarrow> ('k, 'v) stack_type \<Rightarrow> bool" where
  "tree_iter_eq a b =
     (case a of [] \<Rightarrow> b = []
      | m # _ \<Rightarrow> (case b of [] \<Rightarrow> False | n # _ \<Rightarrow> fst (llrb_entry m) = fst (llrb_entry n)))"

section \<open>Trees\<close>

definition tree_create :: "'k cmp \<Rightarrow> ('k \<times> 'v) list \<Rightarrow> ('k, 'v) llrb" where
  "tree_create cmp elements = fold (\<lambda>e node. llrb_insert cmp (fst e) (snd e) node) elements (Leaf Black)"

fun tree_contains :: "'k cmp \<Rightarrow> 'k \<Rightarrow> ('k, 'v) llrb \<Rightarrow> bool" where
  "tree_contains cmp key (Leaf c) = False"
| "tree_contains cmp key (Node e c s l r) =
     (if llrb_empty (Node e c s l r) then False
      else case cmp key (fst e) of
        Same \<Rightarrow> True
      | Ascending \<Rightarrow> tree_contains cmp key l
      | Descending \<Rightarrow> tree_contains cmp key r)"

definition tree_lower_bound :: "'k cmp \<Rightarrow> 'k \<Rightarrow> ('k, 'v) llrb \<Rightarrow> ('k, 'v) stack_type" where
  "tree_lower_bound cmp key root = LowerBound_loop cmp key root []"

definition tree_find :: "'k cmp \<Rightarrow> 'k \<Rightarrow> ('k, 'v) llrb \<Rightarrow> ('k, 'v) stack_type" where
  "tree_find cmp key root =
     (case tree_lower_bound cmp key root of [] \<Rightarrow> []
      | n # st \<Rightarrow> if cmp key (fst (llrb_entry n)) = Same then n # st else [])"

fun tree_find_index :: "'k cmp \<Rightarrow> 'k \<Rightarrow> u32 \<Rightarrow> ('k, 'v) llrb \<Rightarrow> u32" where
  "tree_find_index cmp key pruned_nodes (Leaf c) = npos"
| "tree_find_index cmp key pruned_nodes (Node e c s l r) =
     (if llrb_empty (Node e c s l r) then npos
      else case cmp key (fst e) of
        Same \<Rightarrow> pruned_nodes + llrb_size l
      | Ascending \<Rightarrow> tree_find_index cmp key pruned_nodes l
      | Descending \<Rightarrow> tree_find_index cmp key (pruned_nodes + (llrb_size l + 1)) r)"

definition tree_max :: "('k, 'v) llrb \<Rightarrow> ('k, 'v) stack_type" where
  "tree_max root = (if llrb_empty root then [] else [llrb_max root])"

section \<open>The map of the two\<close>

datatype ('k, 'v) sorted_map = Array "('k \<times> 'v) list" | Tree "('k, 'v) llrb"

text \<open>Positions of array iterators are compared within one array.\<close>

datatype ('k, 'v) map_iter = Array_iter "('k \<times> 'v) list" nat | Tree_iter "('k, 'v) stack_type"

definition sm_empty :: "('k, 'v) sorted_map" where
  "sm_empty = Array []"

text \<open>The constructor from a list leaves \<open>tag_\<close> unset for more than 25 entries: \<open>tag0\<close> is what its memory holds. With any value but
  that of the enumerator \<open>Tree\<close>, later calls take the tree for an array or for nothing, which is undefined and \<open>None\<close> here.\<close>

definition Tag_Array :: int where "Tag_Array = 0"

definition Tag_Tree :: int where "Tag_Tree = 1"

definition sm_create :: "(('k \<times> 'v \<Rightarrow> 'k \<times> 'v \<Rightarrow> bool) \<Rightarrow> ('k \<times> 'v) list \<Rightarrow> ('k \<times> 'v) list) \<Rightarrow> 'k cmp \<Rightarrow> int \<Rightarrow> ('k \<times> 'v) list \<Rightarrow> ('k, 'v) sorted_map option" where
  "sm_create std_sort cmp tag0 entries =
     (if length entries \<le> kFixedSize then map_option Array (SortedArray std_sort cmp entries)
      else let tree = tree_create cmp entries in if tag0 = Tag_Tree then Some (Tree tree) else None)"

fun sm_is_empty :: "('k, 'v) sorted_map \<Rightarrow> bool" where
  "sm_is_empty (Array xs) \<longleftrightarrow> length xs = 0"
| "sm_is_empty (Tree n) \<longleftrightarrow> llrb_empty n"

fun sm_size :: "('k, 'v) sorted_map \<Rightarrow> u32" where
  "sm_size (Array xs) = of_nat (length xs)"
| "sm_size (Tree n) = llrb_size n"

fun sm_insert :: "'k cmp \<Rightarrow> 'k \<Rightarrow> 'v \<Rightarrow> ('k, 'v) sorted_map \<Rightarrow> ('k, 'v) sorted_map option" where
  "sm_insert cmp key v (Array xs) =
     (if length xs \<ge> kFixedSize then Some (Tree (llrb_insert cmp key v (tree_create cmp xs)))
      else map_option Array (array_insert cmp key v xs))"
| "sm_insert cmp key v (Tree n) = Some (Tree (llrb_insert cmp key v n))"

fun sm_erase :: "'k cmp \<Rightarrow> 'k \<Rightarrow> ('k, 'v) sorted_map \<Rightarrow> ('k, 'v) sorted_map option" where
  "sm_erase cmp key (Array xs) = map_option Array (array_erase cmp key xs)"
| "sm_erase cmp key (Tree n) = (let result = llrb_erase cmp key n in if llrb_empty result then Some sm_empty else Some (Tree result))"

fun sm_contains :: "'k cmp \<Rightarrow> 'k \<Rightarrow> ('k, 'v) sorted_map \<Rightarrow> bool" where
  "sm_contains cmp key (Array xs) = array_contains cmp key xs"
| "sm_contains cmp key (Tree n) = tree_contains cmp key n"

fun sm_find :: "'k cmp \<Rightarrow> 'k \<Rightarrow> ('k, 'v) sorted_map \<Rightarrow> ('k, 'v) map_iter" where
  "sm_find cmp key (Array xs) = Array_iter xs (array_find cmp key xs)"
| "sm_find cmp key (Tree n) = Tree_iter (tree_find cmp key n)"

fun sm_find_index :: "'k cmp \<Rightarrow> 'k \<Rightarrow> ('k, 'v) sorted_map \<Rightarrow> u32" where
  "sm_find_index cmp key (Array xs) = array_find_index cmp key xs"
| "sm_find_index cmp key (Tree n) = tree_find_index cmp key 0 n"

fun sm_lower_bound :: "'k cmp \<Rightarrow> 'k \<Rightarrow> ('k, 'v) sorted_map \<Rightarrow> ('k, 'v) map_iter" where
  "sm_lower_bound cmp key (Array xs) = Array_iter xs (array_lower_bound cmp key xs)"
| "sm_lower_bound cmp key (Tree n) = Tree_iter (tree_lower_bound cmp key n)"

fun sm_begin :: "('k, 'v) sorted_map \<Rightarrow> ('k, 'v) map_iter" where
  "sm_begin (Array xs) = Array_iter xs 0"
| "sm_begin (Tree n) = Tree_iter (AccumulateLeft n [])"

fun sm_end :: "('k, 'v) sorted_map \<Rightarrow> ('k, 'v) map_iter" where
  "sm_end (Array xs) = Array_iter xs (length xs)"
| "sm_end (Tree n) = Tree_iter []"

definition sm_min :: "('k, 'v) sorted_map \<Rightarrow> ('k, 'v) map_iter" where
  "sm_min m = sm_begin m"

fun sm_max :: "('k, 'v) sorted_map \<Rightarrow> ('k, 'v) map_iter" where
  "sm_max (Array xs) = (if length xs = 0 then Array_iter xs (length xs) else Array_iter xs (length xs - 1))"
| "sm_max (Tree n) = Tree_iter (tree_max n)"

text \<open>Reading past the end of an array is undefined in the code and \<open>None\<close> here, like the assertions of the trees.\<close>

fun iter_get :: "('k, 'v) map_iter \<Rightarrow> ('k \<times> 'v) option" where
  "iter_get (Array_iter xs i) = (if i < length xs then Some (xs ! i) else None)"
| "iter_get (Tree_iter st) = tree_iter_get st"

fun iter_next :: "('k, 'v) map_iter \<Rightarrow> ('k, 'v) map_iter option" where
  "iter_next (Array_iter xs i) = (if i < length xs then Some (Array_iter xs (i + 1)) else None)"
| "iter_next (Tree_iter st) = map_option Tree_iter (tree_iter_next st)"

fun iter_eq :: "('k, 'v) map_iter \<Rightarrow> ('k, 'v) map_iter \<Rightarrow> bool" where
  "iter_eq (Array_iter _ i) (Array_iter _ j) \<longleftrightarrow> i = j"
| "iter_eq (Tree_iter a) (Tree_iter b) \<longleftrightarrow> tree_iter_eq a b"
| "iter_eq _ _ \<longleftrightarrow> False"

definition sm_get :: "'k cmp \<Rightarrow> 'k \<Rightarrow> ('k, 'v) sorted_map \<Rightarrow> 'v option" where
  "sm_get cmp key m =
     (let found = sm_find cmp key m in if \<not> iter_eq found (sm_end m) then map_option snd (iter_get found) else None)"

text \<open>What a loop over the range between two iterators sees\<close>

fun iter_weight :: "('k, 'v) map_iter \<Rightarrow> nat" where
  "iter_weight (Array_iter xs i) = length xs - i"
| "iter_weight (Tree_iter st) = sum_list (map (\<lambda>n. Suc (llrb_weight (llrb_right n))) st)"

lemma accumulate_weight: "iter_weight (Tree_iter (AccumulateLeft n st)) \<le> llrb_weight n + iter_weight (Tree_iter st)"
proof (induction n st rule: AccumulateLeft.induct)
  case (2 e c s l r st)
  then show ?case by (cases "llrb_empty (Node e c s l r)") auto
qed simp

lemma next_weight: "iter_next it = Some it' \<Longrightarrow> iter_weight it' < iter_weight it"
proof (cases it)
  case (Tree_iter st)
  assume "iter_next it = Some it'"
  then obtain n rest where "st = n # rest" "it' = Tree_iter (AccumulateLeft (llrb_right n) rest)"
    using Tree_iter by (cases st) (auto simp: tree_iter_next_def)
  then show ?thesis using Tree_iter accumulate_weight [of "llrb_right n" rest] by simp
qed (auto split: if_splits)

function range_list :: "('k, 'v) map_iter \<Rightarrow> ('k, 'v) map_iter \<Rightarrow> ('k \<times> 'v) list option" where
  "range_list it stop =
     (if iter_eq it stop then Some []
      else case iter_get it of None \<Rightarrow> None
      | Some e \<Rightarrow> (case iter_next it of None \<Rightarrow> None | Some it' \<Rightarrow> map_option (Cons e) (range_list it' stop)))"
  by pat_completeness auto
termination by (relation "measure (\<lambda>(it, stop). iter_weight it)") (simp_all add: next_weight)

declare range_list.simps [simp del]

definition KeysViewFrom :: "'k cmp \<Rightarrow> 'k \<Rightarrow> ('k, 'v) sorted_map \<Rightarrow> ('k, 'v) map_iter \<times> ('k, 'v) map_iter" where
  "KeysViewFrom cmp key m = (sm_lower_bound cmp key m, sm_end m)"

definition KeysViewIn :: "'k cmp \<Rightarrow> 'k \<Rightarrow> 'k \<Rightarrow> ('k, 'v) sorted_map \<Rightarrow> ('k, 'v) map_iter \<times> ('k, 'v) map_iter" where
  "KeysViewIn cmp start_key end_key m =
     (if cmp start_key end_key \<noteq> Ascending then (sm_end m, sm_end m)
      else (sm_lower_bound cmp start_key m, sm_lower_bound cmp end_key m))"

definition keys_of :: "('k, 'v) map_iter \<times> ('k, 'v) map_iter \<Rightarrow> 'k list option" where
  "keys_of view = map_option (map fst) (range_list (fst view) (snd view))"

definition sm_keys :: "('k, 'v) sorted_map \<Rightarrow> 'k list option" where
  "sm_keys m = keys_of (sm_begin m, sm_end m)"

end
