(* ===== verification/Sorted_Map_Laws.thy ===== *)
theory Sorted_Map_Laws
  imports Sorted_Map
begin

text \<open>
  What the sorted maps promise: the array, the tree and the map of the two hold a sequence of entries in ascending order,
  and their operations do to it what the operations on sorted lists do. Two interfaces say so, one for any store
  of entries and one for a map with iterators, and clients rely on these alone.
\<close>

section \<open>The interfaces\<close>

locale map_store = comparator Compare for Compare :: "'k cmp" +
  fixes ok :: "'m \<Rightarrow> bool" and entries :: "'m \<Rightarrow> ('k \<times> 'v) list" and capacity :: nat
    and none :: 'm and insert :: "'k \<Rightarrow> 'v \<Rightarrow> 'm \<Rightarrow> 'm option" and erase :: "'k \<Rightarrow> 'm \<Rightarrow> 'm option"
    and contains :: "'k \<Rightarrow> 'm \<Rightarrow> bool" and find_index :: "'k \<Rightarrow> 'm \<Rightarrow> u32" and count :: "'m \<Rightarrow> u32"
  assumes in_order: "ok m \<Longrightarrow> ascending Compare (entries m)"
    and within: "ok m \<Longrightarrow> length (entries m) \<le> capacity"
    and none_ok: "ok none" and none_entries: "entries none = []"
    and insert_put: "ok m \<Longrightarrow> length (entries m) < capacity \<Longrightarrow>
      \<exists>m' keep. insert k v m = Some m' \<and> ok m' \<and> entries m' = put_entry Compare keep k v (entries m)"
    and erase_drop: "ok m \<Longrightarrow> \<exists>m'. erase k m = Some m' \<and> ok m' \<and> entries m' = drop_entry Compare k (entries m)"
    and contains_iff: "ok m \<Longrightarrow> contains k m \<longleftrightarrow> equal_to Compare k (entries m) \<noteq> []"
    and find_index_eq: "ok m \<Longrightarrow> find_index k m = (if equal_to Compare k (entries m) = [] then npos else of_nat (length (below Compare k (entries m))))"
    and count_eq: "ok m \<Longrightarrow> count m = of_nat (length (entries m))"

locale ordered_map = map_store Compare ok entries capacity none insert erase contains find_index count
  for Compare :: "'k cmp" and ok :: "'m \<Rightarrow> bool" and entries :: "'m \<Rightarrow> ('k \<times> 'v) list" and capacity none insert erase contains find_index count +
  fixes get :: "'k \<Rightarrow> 'm \<Rightarrow> 'v option" and keys :: "'m \<Rightarrow> 'k list option" and keys_from :: "'k \<Rightarrow> 'm \<Rightarrow> 'k list option"
    and keys_in :: "'k \<Rightarrow> 'k \<Rightarrow> 'm \<Rightarrow> 'k list option"
  assumes get_eq: "ok m \<Longrightarrow> get k m = look_up Compare k (entries m)"
    and keys_eq: "ok m \<Longrightarrow> keys m = Some (map fst (entries m))"
    and keys_from_eq: "ok m \<Longrightarrow> keys_from k m = Some (map fst (from_key Compare k (entries m)))"
    and keys_in_eq: "ok m \<Longrightarrow> keys_in j k m = Some (map fst (below Compare k (from_key Compare j (entries m))))"

section \<open>Trees\<close>

definition llrb_ok :: "('k, 'v) llrb \<Rightarrow> bool" where
  "llrb_ok n \<longleftrightarrow> (\<exists>b. tree b n) \<and> llrb_color n = Black \<and> fits n"

lemma fix_root: "near b n \<Longrightarrow> \<exists>d. tree d (FixRootColor n) \<and> llrb_color (FixRootColor n) = Black"
  using set_black [of b n] near_black [of n b] by (cases "llrb_color n") (auto simp: FixRootColor_def llrb_red_def)

lemma fix_root_entries [simp]: "llrb_entries (FixRootColor n) = llrb_entries n"
  by (simp add: FixRootColor_def)

lemma ok_empty: "llrb_ok n \<Longrightarrow> llrb_empty n \<longleftrightarrow> llrb_entries n = []"
  unfolding llrb_ok_def using tree_empty by (cases n) auto

context comparator
begin

lemma tree_insert:
  assumes "llrb_ok n" and "ascending Compare (llrb_entries n)" and "Suc (length (llrb_entries n)) < 2 ^ 31"
  shows "llrb_ok (llrb_insert Compare k v n) \<and> llrb_entries (llrb_insert Compare k v n) = put_entry Compare True k v (llrb_entries n)"
proof -
  obtain b where "tree b n" using assms(1) by (auto simp: llrb_ok_def)
  note ins = inner_insert [OF this assms(2,3), of k v]
  then obtain d where "tree d (llrb_insert Compare k v n)" "llrb_color (llrb_insert Compare k v n) = Black"
    unfolding llrb_insert_def using fix_root by blast
  moreover have "llrb_entries (llrb_insert Compare k v n) = put_entry Compare True k v (llrb_entries n)"
    using ins by (simp add: llrb_insert_def)
  moreover have "length (put_entry Compare True k v (llrb_entries n)) < 2 ^ 31" using length_put [OF assms(2)] assms(3) by simp
  ultimately show ?thesis by (auto simp: llrb_ok_def)
qed

lemma tree_erase:
  assumes "llrb_ok n" and "ascending Compare (llrb_entries n)"
  shows "llrb_ok (llrb_erase Compare k n) \<and> llrb_entries (llrb_erase Compare k n) = drop_entry Compare k (llrb_entries n)"
proof -
  obtain b where "tree b n" "fits n" using assms(1) by (auto simp: llrb_ok_def)
  then have del: "stands_in (ready n \<or> bent b n) b n (InnerErase Compare k n)"
      "llrb_entries (InnerErase Compare k n) = drop_entry Compare k (llrb_entries n)"
    using inner_erase assms(2) by blast+
  then obtain d where "tree d (llrb_erase Compare k n)" "llrb_color (llrb_erase Compare k n) = Black"
    unfolding llrb_erase_def using stands_near fix_root by metis
  moreover have "llrb_entries (llrb_erase Compare k n) = drop_entry Compare k (llrb_entries n)"
    using del(2) by (simp add: llrb_erase_def)
  moreover have "length (drop_entry Compare k (llrb_entries n)) < 2 ^ 31"
    using le_less_trans [OF drop_length \<open>fits n\<close>] .
  ultimately show ?thesis by (auto simp: llrb_ok_def)
qed

lemma tree_contains_iff: "tree b n \<Longrightarrow> ascending Compare (llrb_entries n) \<Longrightarrow> tree_contains Compare k n \<longleftrightarrow> equal_to Compare k (llrb_entries n) \<noteq> []"
proof (induction n arbitrary: b)
  case (Node e c s l r)
  obtain p where p: "tree p l" "tree p r" using Node.prems(1) by (rule node_cases) auto
  have ne: "\<not> llrb_empty (Node e c s l r)" using tree_empty [OF Node.prems(1)] by simp
  have IH: "tree_contains Compare k l \<longleftrightarrow> equal_to Compare k (llrb_entries l) \<noteq> []" "tree_contains Compare k r \<longleftrightarrow> equal_to Compare k (llrb_entries r) \<noteq> []"
    using Node p by simp_all
  show ?case
    using Node.prems(2) ne IH parts_after [of e "llrb_entries r" k] parts_before [of "llrb_entries l" e k] desc_iff [of k "fst e"] same_sym [of k "fst e"] desc_iff [of "fst e" k]
    by (cases "Compare k (fst e)") (auto simp: parts_Cons)
qed simp

lemma tree_find_index_eq:
  "tree b n \<Longrightarrow> ascending Compare (llrb_entries n) \<Longrightarrow>
   tree_find_index Compare k q n = (if equal_to Compare k (llrb_entries n) = [] then npos else q + of_nat (length (below Compare k (llrb_entries n))))"
proof (induction n arbitrary: b q)
  case (Node e c s l r)
  obtain p where p: "tree p l" "tree p r" using Node.prems(1) by (rule node_cases) auto
  have ne: "\<not> llrb_empty (Node e c s l r)" using tree_empty [OF Node.prems(1)] by simp
  have size: "llrb_size l = of_nat (length (llrb_entries l))" using tree_size [OF p(1)] by (metis of_nat_unat ucast_id)
  show ?case
    using Node p ne size parts_after [of e "llrb_entries r" k] parts_before [of "llrb_entries l" e k] desc_iff [of k "fst e"] same_sym [of k "fst e"] desc_iff [of "fst e" k]
    by (cases "Compare k (fst e)") (auto simp: parts_Cons add.assoc)
qed simp

lemma tree_create_eq:
  assumes "length xs < 2 ^ 31" and "ascending Compare xs"
  shows "llrb_ok (tree_create Compare xs) \<and> llrb_entries (tree_create Compare xs) = xs"
  using assms
proof (induction xs rule: rev_induct)
  case Nil
  then show ?case by (simp add: tree_create_def llrb_ok_def)
next
  case (snoc e xs)
  then have IH: "llrb_ok (tree_create Compare xs)" "llrb_entries (tree_create Compare xs) = xs" by simp_all
  have "put_entry Compare True (fst e) (snd e) xs = xs @ [e]"
    using parts_before [of xs e "fst e"] snoc.prems(2) by (simp add: put_entry_def)
  then show ?case using tree_insert [OF IH(1), of "fst e" "snd e"] IH(2) snoc.prems by (simp add: tree_create_def)
qed

end

section \<open>Arrays\<close>

definition array_ok :: "'k cmp \<Rightarrow> ('k \<times> 'v) list \<Rightarrow> bool" where
  "array_ok cmp xs \<longleftrightarrow> ascending cmp xs \<and> length xs \<le> kFixedSize"

lemma append_some: "length xs + length ys \<le> kFixedSize \<Longrightarrow> array_append xs ys = Some (xs @ ys)"
  by (simp add: array_append_def)

context comparator
begin

lemma below_eq: "ascending Compare xs \<Longrightarrow> below Compare k xs = takeWhile (\<lambda>e. Compare (fst e) k = Ascending) xs"
proof (induction xs)
  case (Cons e xs)
  then show ?case using parts_after(1) [OF Cons.prems, of k] by (auto simp: parts_Cons)
qed simp

lemma lower_bound_eq: "ascending Compare xs \<Longrightarrow> array_lower_bound Compare k xs = length (below Compare k xs)"
  by (simp add: array_lower_bound_def below_eq)

lemma array_parts:
  assumes "ascending Compare xs"
  shows "take (length (below Compare k xs)) xs = below Compare k xs" "drop (length (below Compare k xs)) xs = from_key Compare k xs"
    and "array_find Compare k xs = (if equal_to Compare k xs = [] then length xs else length (below Compare k xs))"
proof -
  show "take (length (below Compare k xs)) xs = below Compare k xs" "drop (length (below Compare k xs)) xs = from_key Compare k xs"
    using split_parts [OF assms, of k] from_key_eq [OF assms, of k] by (metis append_eq_conv_conj)+
  show "array_find Compare k xs = (if equal_to Compare k xs = [] then length xs else length (below Compare k xs))"
    using assms
  proof (induction xs)
    case (Cons e xs)
    then show ?case using parts_after [OF Cons.prems, of k] same_sym [of k "fst e"] not_both [of "Compare (fst e) k"]
      by (auto simp: array_find_def parts_Cons)
  qed (simp add: array_find_def)
qed

lemma array_insert_eq:
  assumes "array_ok Compare xs" and "length xs < kFixedSize"
  shows "\<exists>xs' keep. array_insert Compare k v xs = Some xs' \<and> array_ok Compare xs' \<and> xs' = put_entry Compare keep k v xs"
proof -
  have asc: "ascending Compare xs" using assms(1) by (simp add: array_ok_def)
  note parts = array_parts [OF asc, of k] lower_bound_eq [OF asc, of k] from_key_eq [OF asc, of k]
  have split: "xs = below Compare k xs @ equal_to Compare k xs @ above Compare k xs" by (rule split_parts [OF asc])
  have len: "length xs = length (below Compare k xs) + length (equal_to Compare k xs) + length (above Compare k xs)"
    using arg_cong [OF split, of length] by simp
  have ok: "array_ok Compare (put_entry Compare keep k v xs)" for keep
    using put_ascending [OF asc] length_put [OF asc, of keep k v] assms by (auto simp: array_ok_def)
  have bind: "Option.bind (array_append [] (below Compare k xs)) (\<lambda>copy. Option.bind (array_append copy [(k, v)]) (\<lambda>copy. array_append copy (above Compare k xs)))
      = Some (put_entry Compare False k v xs)"
    using len assms(2) by (simp add: append_some put_entry_def)
  show ?thesis
  proof (cases "equal_to Compare k xs")
    case Nil
    have "\<not> (length (below Compare k xs) \<noteq> length xs \<and> Compare k (fst (xs ! length (below Compare k xs))) = Same)" (is "\<not> ?replacing")
    proof
      assume a: "length (below Compare k xs) \<noteq> length xs \<and> Compare k (fst (xs ! length (below Compare k xs))) = Same"
      then have "xs ! length (below Compare k xs) \<in> set xs" using len by simp
      then have "xs ! length (below Compare k xs) \<in> set (equal_to Compare k xs)" using a same_sym by (auto simp: equal_to_def)
      then show False using Nil by simp
    qed
    then have "array_insert Compare k v xs = Some (put_entry Compare False k v xs)"
      using bind Nil parts(1,2,5) unfolding array_insert_def Let_def parts(4) by (simp only: if_False simp_thms append_Nil)
    then show ?thesis using ok by blast
  next
    case (Cons e es)
    then obtain e where e: "equal_to Compare k xs = [e]" "Compare (fst e) k = Same" using equal_at_most_one [OF asc, of k] by auto
    have "drop (length (below Compare k xs) + 1) xs = tl (drop (length (below Compare k xs)) xs)" by (simp add: drop_Suc tl_drop)
    then have pos: "length (below Compare k xs) \<noteq> length xs" "xs ! length (below Compare k xs) = e" "drop (length (below Compare k xs) + 1) xs = above Compare k xs"
      using e(1) len arg_cong [OF split, of "\<lambda>ys. ys ! length (below Compare k xs)"] parts(2) parts(5)
      by (simp_all add: nth_append)
    have replacing: "Compare k (fst e) = Same" using e(2) same_sym by blast
    show ?thesis
    proof (cases "v = snd e")
      case True
      have "put_entry Compare True k v xs = xs"
        using split [symmetric] e(1) True by (simp add: put_entry_def)
      moreover have "array_insert Compare k v xs = Some xs" using True pos parts replacing by (simp add: array_insert_def)
      ultimately show ?thesis using ok by metis
    next
      case False
      then have "array_insert Compare k v xs = Some (put_entry Compare False k v xs)"
        using bind pos parts replacing by (simp add: array_insert_def)
      then show ?thesis using ok by blast
    qed
  qed
qed

lemma array_erase_eq:
  assumes "array_ok Compare xs"
  shows "\<exists>xs'. array_erase Compare k xs = Some xs' \<and> array_ok Compare xs' \<and> xs' = drop_entry Compare k xs"
proof -
  have asc: "ascending Compare xs" using assms by (simp add: array_ok_def)
  have split: "xs = below Compare k xs @ equal_to Compare k xs @ above Compare k xs" by (rule split_parts [OF asc])
  have len: "length xs = length (below Compare k xs) + length (equal_to Compare k xs) + length (above Compare k xs)"
    using arg_cong [OF split, of length] by simp
  have ok: "array_ok Compare (drop_entry Compare k xs)"
    using drop_ascending [OF asc] drop_length [of k xs] assms by (auto simp: array_ok_def)
  note parts = array_parts [OF asc, of k] from_key_eq [OF asc, of k] drop_entry_eq [OF asc, of k]
  have "array_erase Compare k xs = Some (drop_entry Compare k xs)"
  proof (cases "equal_to Compare k xs")
    case Nil
    then show ?thesis using parts split by (simp add: array_erase_def)
  next
    case (Cons e es)
    then obtain e where e: "equal_to Compare k xs = [e]" using equal_at_most_one [OF asc, of k] by auto
    have "drop (length (below Compare k xs) + 1) xs = tl (drop (length (below Compare k xs)) xs)" by (simp add: drop_Suc tl_drop)
    then have "drop (length (below Compare k xs) + 1) xs = above Compare k xs" using parts(2,4) e by simp
    moreover have "length (below Compare k xs) + length (above Compare k xs) \<le> kFixedSize" using len assms by (simp add: array_ok_def)
    moreover have "length xs \<le> 1 \<Longrightarrow> below Compare k xs @ above Compare k xs = []" using len e by simp
    ultimately show ?thesis using parts(1,3,5) e len by (auto simp: array_erase_def append_some Let_def)
  qed
  then show ?thesis using ok by blast
qed

lemma array_contains_iff: "ascending Compare xs \<Longrightarrow> array_contains Compare k xs \<longleftrightarrow> equal_to Compare k xs \<noteq> []"
  using arg_cong [OF split_parts [of xs k], of length] by (auto simp: array_contains_def array_parts)

lemma array_find_index_eq: "ascending Compare xs \<Longrightarrow>
    array_find_index Compare k xs = (if equal_to Compare k xs = [] then npos else of_nat (length (below Compare k xs)))"
  using arg_cong [OF split_parts [of xs k], of length] by (auto simp: array_find_index_def array_parts)

end

section \<open>Both keep the contract of a store\<close>

sublocale comparator \<subseteq> array: map_store Compare "array_ok Compare" "\<lambda>xs. xs" kFixedSize "[]" "array_insert Compare" "array_erase Compare"
    "array_contains Compare" "array_find_index Compare" "\<lambda>xs. of_nat (length xs)"
proof
  show "ascending Compare m" "length m \<le> kFixedSize" if "array_ok Compare m" for m
    using that by (simp_all add: array_ok_def)
  show "array_ok Compare []" by (simp add: array_ok_def)
  show "\<exists>m' keep. array_insert Compare k v m = Some m' \<and> array_ok Compare m' \<and> m' = put_entry Compare keep k v m"
    if "array_ok Compare m" "length m < kFixedSize" for m k v
    by (rule array_insert_eq [OF that])
  show "\<exists>m'. array_erase Compare k m = Some m' \<and> array_ok Compare m' \<and> m' = drop_entry Compare k m" if "array_ok Compare m" for m k
    by (rule array_erase_eq [OF that])
  show "array_contains Compare k m \<longleftrightarrow> equal_to Compare k m \<noteq> []" if "array_ok Compare m" for m k
    using that by (simp add: array_ok_def array_contains_iff)
  show "array_find_index Compare k m = (if equal_to Compare k m = [] then npos else of_nat (length (below Compare k m)))" if "array_ok Compare m" for m k
    using that by (simp add: array_ok_def array_find_index_eq)
qed simp_all

definition tree_ok :: "'k cmp \<Rightarrow> ('k, 'v) llrb \<Rightarrow> bool" where
  "tree_ok cmp n \<longleftrightarrow> llrb_ok n \<and> ascending cmp (llrb_entries n)"

definition max_entries :: nat where "max_entries = 2 ^ 31 - 1"

context comparator
begin

lemma tree_ok_insert: "tree_ok Compare n \<Longrightarrow> length (llrb_entries n) < max_entries \<Longrightarrow>
    tree_ok Compare (llrb_insert Compare k v n) \<and> llrb_entries (llrb_insert Compare k v n) = put_entry Compare True k v (llrb_entries n)"
  using tree_insert [of n k v] put_ascending [of "llrb_entries n" True k v] by (auto simp: tree_ok_def max_entries_def)

lemma tree_ok_erase: "tree_ok Compare n \<Longrightarrow>
    tree_ok Compare (llrb_erase Compare k n) \<and> llrb_entries (llrb_erase Compare k n) = drop_entry Compare k (llrb_entries n)"
  using tree_erase [of n k] drop_ascending [of "llrb_entries n" k] by (auto simp: tree_ok_def)

end

sublocale comparator \<subseteq> tree: map_store Compare "tree_ok Compare" llrb_entries max_entries "Leaf Black"
    "\<lambda>k v n. Some (llrb_insert Compare k v n)" "\<lambda>k n. Some (llrb_erase Compare k n)"
    "tree_contains Compare" "\<lambda>k. tree_find_index Compare k 0" llrb_size
proof
  show "ascending Compare (llrb_entries m)" "length (llrb_entries m) \<le> max_entries" if "tree_ok Compare m" for m :: "('a, 'b) llrb"
    using that by (auto simp: tree_ok_def llrb_ok_def max_entries_def)
  show "tree_ok Compare (Leaf Black)" by (simp add: tree_ok_def llrb_ok_def)
  show "\<exists>m' keep. Some (llrb_insert Compare k v m) = Some m' \<and> tree_ok Compare m' \<and> llrb_entries m' = put_entry Compare keep k v (llrb_entries m)"
    if "tree_ok Compare m" "length (llrb_entries m) < max_entries" for m k and v :: 'b
    using tree_ok_insert [OF that, of k v] by blast
  show "\<exists>m'. Some (llrb_erase Compare k m) = Some m' \<and> tree_ok Compare m' \<and> llrb_entries m' = drop_entry Compare k (llrb_entries m)"
    if "tree_ok Compare m" for m :: "('a, 'b) llrb" and k
    using tree_ok_erase [OF that, of k] by blast
  show "tree_contains Compare k m \<longleftrightarrow> equal_to Compare k (llrb_entries m) \<noteq> []" if "tree_ok Compare m" for m :: "('a, 'b) llrb" and k
    using that tree_contains_iff by (auto simp: tree_ok_def llrb_ok_def)
  show "tree_find_index Compare k 0 m = (if equal_to Compare k (llrb_entries m) = [] then npos else of_nat (length (below Compare k (llrb_entries m))))"
    if "tree_ok Compare m" for m :: "('a, 'b) llrb" and k
    using that tree_find_index_eq [of _ m k 0] by (auto simp: tree_ok_def llrb_ok_def)
  show "llrb_size m = of_nat (length (llrb_entries m))" if "tree_ok Compare m" for m :: "('a, 'b) llrb"
    using that tree_size [of _ m] by (metis llrb_ok_def of_nat_unat tree_ok_def ucast_id)
qed simp_all

end
