(* ===== verification/Sorted_Map_Iter.thy ===== *)
theory Sorted_Map_Iter
  imports Sorted_Map_Laws
begin

text \<open>
  The iterators of sorted maps stand for positions in the sequence of entries, and the map of array and tree keeps the
  contract of an ordered map.
\<close>

section \<open>Stacks of nodes\<close>

fun sm_entries :: "('k, 'v) sorted_map \<Rightarrow> ('k \<times> 'v) list" where
  "sm_entries (Array xs) = xs"
| "sm_entries (Tree n) = llrb_entries n"

fun sm_ok :: "'k cmp \<Rightarrow> ('k, 'v) sorted_map \<Rightarrow> bool" where
  "sm_ok cmp (Array xs) \<longleftrightarrow> array_ok cmp xs"
| "sm_ok cmp (Tree n) \<longleftrightarrow> tree_ok cmp n"

definition stack_entries :: "('k, 'v) stack_type \<Rightarrow> ('k \<times> 'v) list" where
  "stack_entries st = concat (map (\<lambda>n. llrb_entry n # llrb_entries (llrb_right n)) st)"

definition good_stack :: "('k, 'v) stack_type \<Rightarrow> bool" where
  "good_stack st \<longleftrightarrow> (\<forall>n\<in>set st. \<exists>b. tree b n \<and> n \<noteq> Leaf Black)"

lemma stack_simps [simp]: "stack_entries [] = []" "stack_entries (n # st) = llrb_entry n # llrb_entries (llrb_right n) @ stack_entries st"
    "good_stack []" "good_stack (n # st) \<longleftrightarrow> (\<exists>b. tree b n \<and> n \<noteq> Leaf Black) \<and> good_stack st"
  by (auto simp: stack_entries_def good_stack_def)

lemma accumulate: "tree b n \<Longrightarrow> good_stack st \<Longrightarrow>
    good_stack (AccumulateLeft n st) \<and> stack_entries (AccumulateLeft n st) = llrb_entries n @ stack_entries st"
proof (induction n arbitrary: b st)
  case (Node e c s l r)
  obtain p where "tree p l" using Node.prems(1) by (rule node_cases) auto
  moreover have "\<not> llrb_empty (Node e c s l r)" using tree_empty [OF Node.prems(1)] by simp
  moreover have "good_stack (Node e c s l r # st)" using Node.prems by auto
  ultimately show ?case using Node.IH(1) [of p "Node e c s l r # st"] by simp
qed simp

lemma max_stack: "tree b n \<Longrightarrow> n \<noteq> Leaf Black \<Longrightarrow> good_stack [llrb_max n] \<and> stack_entries [llrb_max n] = [last (llrb_entries n)]"
proof (induction n arbitrary: b)
  case (Node e c s l r)
  obtain p where p: "tree p r" using Node.prems(1) by (rule node_cases) auto
  show ?case
  proof (cases "r = Leaf Black")
    case True
    then show ?thesis using Node.prems(1) by (auto simp: llrb_empty_def)
  next
    case False
    then have "llrb_entries r \<noteq> []" using p by (cases r) auto
    then show ?thesis using Node.IH(2) [OF p False] tree_empty [OF p] False by simp
  qed
qed simp

context comparator
begin

lemma lower_bound_stack: "tree b n \<Longrightarrow> ascending Compare (llrb_entries n) \<Longrightarrow> good_stack st \<Longrightarrow>
    good_stack (LowerBound_loop Compare k n st) \<and> stack_entries (LowerBound_loop Compare k n st) = from_key Compare k (llrb_entries n) @ stack_entries st"
proof (induction n arbitrary: b st)
  case (Node e c s l r)
  obtain p where p: "tree p l" "tree p r" using Node.prems(1) by (rule node_cases) auto
  have ne: "\<not> llrb_empty (Node e c s l r)" using tree_empty [OF Node.prems(1)] by simp
  have good: "good_stack (Node e c s l r # st)" using Node.prems by auto
  have asc: "ascending Compare (llrb_entries l @ e # llrb_entries r)" "ascending Compare (llrb_entries l)" "ascending Compare (llrb_entries r)"
    using Node.prems(2) by simp_all
  show ?case
    using Node.IH(1) [OF p(1) asc(2) good] Node.IH(2) [OF p(2) asc(3) Node.prems(3)] good ne
      from_split [OF asc(1), of k] desc_iff [of k "fst e"] desc_iff [of "fst e" k] same_sym [of k "fst e"]
    by (cases "Compare k (fst e)") simp_all
qed simp

end

section \<open>Positions\<close>

text \<open>\<open>it\<close> is the position before the \<open>i\<close>-th entry of \<open>m\<close>.\<close>

definition at_pos :: "('k, 'v) sorted_map \<Rightarrow> ('k, 'v) map_iter \<Rightarrow> nat \<Rightarrow> bool" where
  "at_pos m it i \<longleftrightarrow> i \<le> length (sm_entries m) \<and>
     (case m of Array xs \<Rightarrow> it = Array_iter xs i
      | Tree n \<Rightarrow> (\<exists>st. it = Tree_iter st \<and> good_stack st \<and> stack_entries st = drop i (llrb_entries n)))"

lemma at_get: "at_pos m it i \<Longrightarrow> iter_get it = (if i < length (sm_entries m) then Some (sm_entries m ! i) else None)"
proof (cases m)
  case (Tree n)
  assume "at_pos m it i"
  then obtain st where st: "it = Tree_iter st" "stack_entries st = drop i (llrb_entries n)" using Tree by (auto simp: at_pos_def)
  show ?thesis
  proof (cases st)
    case (Cons a as)
    then have d: "drop i (llrb_entries n) = llrb_entry a # llrb_entries (llrb_right a) @ stack_entries as" using st by simp
    then have "i < length (llrb_entries n)" by (metis drop_eq_Nil2 list.distinct(1) not_le)
    moreover from this have "llrb_entries n ! i = llrb_entry a" using d by (simp add: nth_via_drop)
    ultimately show ?thesis using Tree Cons st by (simp add: tree_iter_get_def)
  qed (use st Tree in \<open>simp add: tree_iter_get_def\<close>)
qed (simp add: at_pos_def)

lemma at_next:
  assumes "at_pos m it i" and "i < length (sm_entries m)"
  shows "\<exists>it'. iter_next it = Some it' \<and> at_pos m it' (Suc i)"
proof (cases m)
  case (Array xs)
  then show ?thesis using assms by (auto simp: at_pos_def)
next
  case (Tree n)
  then obtain st where st: "it = Tree_iter st" "good_stack st" "stack_entries st = drop i (llrb_entries n)" using assms by (auto simp: at_pos_def)
  then obtain a as where [simp]: "st = a # as" using assms(2) Tree by (cases st) auto
  obtain b where a: "tree b a" "a \<noteq> Leaf Black" "good_stack as" using st(2) by auto
  then obtain p where "tree p (llrb_right a)" by (cases a) (auto elim: node_cases)
  from accumulate [OF this a(3)] have "good_stack (AccumulateLeft (llrb_right a) as)"
      "stack_entries (AccumulateLeft (llrb_right a) as) = tl (stack_entries st)" by simp_all
  moreover have "drop (Suc i) (llrb_entries n) = tl (stack_entries st)" by (simp only: st(3) drop_Suc tl_drop)
  ultimately show ?thesis using assms(2) st(1) Tree by (auto simp: at_pos_def tree_iter_next_def)
qed

lemma at_eq:
  assumes "ascending cmp (sm_entries m)" and "\<And>k. cmp k k = Same" and "at_pos m a i" and "at_pos m b j"
  shows "iter_eq a b \<longleftrightarrow> i = j"
proof (cases m)
  case (Array xs)
  then show ?thesis using assms by (auto simp: at_pos_def)
next
  case (Tree n)
  obtain s t where st: "a = Tree_iter s" "b = Tree_iter t" "stack_entries s = drop i (llrb_entries n)" "stack_entries t = drop j (llrb_entries n)"
    and le: "i \<le> length (llrb_entries n)" "j \<le> length (llrb_entries n)"
    using assms(3,4) Tree by (auto simp: at_pos_def)
  have get: "iter_get a = (if i < length (llrb_entries n) then Some (llrb_entries n ! i) else None)"
      "iter_get b = (if j < length (llrb_entries n) then Some (llrb_entries n ! j) else None)"
    using at_get [OF assms(3)] at_get [OF assms(4)] Tree by simp_all
  have distinct: "fst (llrb_entries n ! i) = fst (llrb_entries n ! j) \<longleftrightarrow> i = j" if "i < length (llrb_entries n)" "j < length (llrb_entries n)"
  proof -
    have "cmp (fst (llrb_entries n ! x)) (fst (llrb_entries n ! y)) = Ascending" if "x < y" "y < length (llrb_entries n)" for x y
      using assms(1) Tree that sorted_wrt_nth_less [of "\<lambda>a b. cmp (fst a) (fst b) = Ascending" "llrb_entries n" x y] by (simp add: ascending_def)
    then show ?thesis using that assms(2) [of "fst (llrb_entries n ! i)"] by (cases i j rule: linorder_cases) force+
  qed
  have nil: "s = [] \<longleftrightarrow> i = length (llrb_entries n)" "t = [] \<longleftrightarrow> j = length (llrb_entries n)"
    using st le by (cases s; cases t; auto)+
  show ?thesis
  proof (cases "s = [] \<or> t = []")
    case True
    then show ?thesis using nil st by (auto simp: tree_iter_eq_def split: list.splits)
  next
    case False
    then have "i < length (llrb_entries n)" "j < length (llrb_entries n)" using nil le by auto
    then show ?thesis using distinct get st False by (auto simp: tree_iter_eq_def tree_iter_get_def split: list.splits)
  qed
qed

lemma range_positions:
  assumes "ascending cmp (sm_entries m)" and "\<And>k. cmp k k = Same" and "at_pos m b j" and "at_pos m a i" and "i \<le> j"
  shows "range_list a b = Some (take (j - i) (drop i (sm_entries m)))"
  using assms(4,5)
proof (induction "j - i" arbitrary: a i)
  case 0
  then show ?case using at_eq [OF assms(1,2) _ assms(3), of a i] by (simp add: range_list.simps [of a b])
next
  case (Suc d)
  then have i: "i < j" "i < length (sm_entries m)" using assms(3) by (auto simp: at_pos_def)
  obtain a' where a': "iter_next a = Some a'" "at_pos m a' (Suc i)" using at_next [OF Suc.prems(1) i(2)] by blast
  have "range_list a' b = Some (take (j - Suc i) (drop (Suc i) (sm_entries m)))" using Suc.hyps(1) [OF _ a'(2)] Suc.hyps(2) i(1) by simp
  moreover have "\<not> iter_eq a b" using at_eq [OF assms(1,2) Suc.prems(1) assms(3)] i(1) by simp
  moreover have "take (j - i) (drop i (sm_entries m)) = sm_entries m ! i # take (j - Suc i) (drop (Suc i) (sm_entries m))"
    using i by (simp add: Cons_nth_drop_Suc [symmetric] take_Cons' Suc_diff_Suc [symmetric] del: take_Suc_Cons)
  ultimately show ?case using a' i(2) at_get [OF Suc.prems(1)] by (simp add: range_list.simps [of a b])
qed

lemma start_pos: "sm_ok cmp m \<Longrightarrow> at_pos m (sm_begin m) 0"
  using accumulate [where st = "[]"] by (cases m) (auto simp: at_pos_def tree_ok_def llrb_ok_def)

lemma end_pos: "at_pos m (sm_end m) (length (sm_entries m))"
  by (cases m) (auto simp: at_pos_def)

lemma max_pos: "sm_ok cmp m \<Longrightarrow> at_pos m (sm_max m) (length (sm_entries m) - 1)"
proof (cases m)
  case (Tree n)
  assume "sm_ok cmp m"
  then obtain b where b: "tree b n" using Tree by (auto simp: tree_ok_def llrb_ok_def)
  show ?thesis
  proof (cases "n = Leaf Black")
    case False
    then have "llrb_entries n \<noteq> []" using b by (cases n) auto
    then have "drop (length (llrb_entries n) - 1) (llrb_entries n) = [last (llrb_entries n)]"
      by (metis append_butlast_last_id append_eq_conv_conj length_butlast)
    then show ?thesis using max_stack [OF b False] tree_empty [OF b] False Tree by (simp add: at_pos_def tree_max_def)
  qed (use Tree in \<open>simp add: at_pos_def tree_max_def llrb_empty_def\<close>)
qed (auto simp: at_pos_def)

section \<open>The map of array and tree\<close>

context comparator
begin

lemma sm_ascending: "sm_ok Compare m \<Longrightarrow> ascending Compare (sm_entries m)"
  by (cases m) (simp_all add: array_ok_def tree_ok_def)

lemma lower_bound_pos: "sm_ok Compare m \<Longrightarrow> at_pos m (sm_lower_bound Compare k m) (length (below Compare k (sm_entries m)))"
proof (cases m)
  case (Array xs)
  assume "sm_ok Compare m"
  then show ?thesis using Array lower_bound_eq [of xs k] by (simp add: at_pos_def array_ok_def below_def)
next
  case (Tree n)
  assume "sm_ok Compare m"
  then obtain b where "tree b n" "ascending Compare (llrb_entries n)" using Tree by (auto simp: tree_ok_def llrb_ok_def)
  then show ?thesis using Tree lower_bound_stack [of b n "[]" k] array_parts(2) [of "llrb_entries n" k]
    by (auto simp: at_pos_def tree_lower_bound_def below_def)
qed

lemma find_pos: "sm_ok Compare m \<Longrightarrow> at_pos m (sm_find Compare k m)
    (if equal_to Compare k (sm_entries m) = [] then length (sm_entries m) else length (below Compare k (sm_entries m)))"
proof (cases m)
  case (Array xs)
  assume "sm_ok Compare m"
  then show ?thesis using Array array_parts(3) [of xs k] by (auto simp: at_pos_def array_ok_def below_def)
next
  case (Tree n)
  assume ok: "sm_ok Compare m"
  then have asc: "ascending Compare (llrb_entries n)" using sm_ascending Tree by fastforce
  obtain st where st: "tree_lower_bound Compare k n = st" "good_stack st" "stack_entries st = from_key Compare k (llrb_entries n)"
    using lower_bound_pos [OF ok, of k] Tree array_parts(2) [OF asc, of k] by (auto simp: at_pos_def)
  note frm = from_key_eq [OF asc, of k]
  show ?thesis
  proof (cases st)
    case Nil
    then show ?thesis using Tree st frm by (simp add: at_pos_def tree_find_def)
  next
    case (Cons a as)
    then have hd: "llrb_entry a # llrb_entries (llrb_right a) @ stack_entries as = equal_to Compare k (llrb_entries n) @ above Compare k (llrb_entries n)"
      using st frm by simp
    show ?thesis
    proof (cases "equal_to Compare k (llrb_entries n)")
      case Nil
      then have "llrb_entry a \<in> set (above Compare k (llrb_entries n))" using hd by (metis append_Nil list.set_intros(1))
      then have "Compare k (fst (llrb_entry a)) \<noteq> Same" using same_sym [of k "fst (llrb_entry a)"] by (auto simp: above_def)
      then show ?thesis using Tree st Cons Nil by (simp add: at_pos_def tree_find_def)
    next
      case eq: (Cons e es)
      then have "llrb_entry a \<in> set (equal_to Compare k (llrb_entries n))" using hd by simp
      then have "Compare k (fst (llrb_entry a)) = Same" using same_sym by (auto simp: equal_to_def)
      then show ?thesis using Tree st Cons eq array_parts(2) [OF asc, of k] by (simp add: at_pos_def tree_find_def below_def)
    qed
  qed
qed

lemma get_look_up:
  assumes "sm_ok Compare m"
  shows "sm_get Compare k m = look_up Compare k (sm_entries m)"
proof -
  note asc = sm_ascending [OF assms]
  show ?thesis
  proof (cases "equal_to Compare k (sm_entries m)")
    case Nil
    then show ?thesis using at_eq [OF asc refl find_pos [OF assms, of k] end_pos] by (simp add: sm_get_def look_up_def)
  next
    case (Cons e es)
    have split: "sm_entries m = below Compare k (sm_entries m) @ equal_to Compare k (sm_entries m) @ above Compare k (sm_entries m)"
      by (rule split_parts [OF asc])
    have "length (below Compare k (sm_entries m)) < length (sm_entries m)" "sm_entries m ! length (below Compare k (sm_entries m)) = e"
      using arg_cong [OF split, of length] arg_cong [OF split, of "\<lambda>ys. ys ! length (below Compare k (sm_entries m))"] Cons
      by (simp_all add: nth_append)
    then show ?thesis using Cons at_eq [OF asc refl find_pos [OF assms, of k] end_pos] at_get [OF find_pos [OF assms, of k]]
      by (simp add: sm_get_def look_up_def Let_def)
  qed
qed

lemma below_from: "below Compare k (from_key Compare j xs) = filter (\<lambda>e. Compare (fst e) j \<noteq> Ascending \<and> Compare (fst e) k = Ascending) xs"
  by (simp add: below_def from_key_def conj_commute)

lemma keys_in:
  assumes "sm_ok Compare m"
  shows "keys_of (KeysViewIn Compare j k m) = Some (map fst (below Compare k (from_key Compare j (sm_entries m))))"
proof -
  note asc = sm_ascending [OF assms]
  show ?thesis
  proof (cases "Compare j k = Ascending")
    case False
    have "below Compare k (from_key Compare j (sm_entries m)) = []"
      unfolding below_from using False le_asc_trans [of j _ k] desc_iff by (auto simp: filter_empty_conv)
    then show ?thesis using False range_positions [OF asc refl end_pos end_pos] by (simp add: KeysViewIn_def keys_of_def)
  next
    case True
    have ys: "ascending Compare (from_key Compare j (sm_entries m))" using asc by (simp add: from_key_def ascending_filter)
    have "below Compare k (below Compare j (sm_entries m)) = below Compare j (sm_entries m)"
      using True asc_trans [of _ j k] unfolding below_def filter_filter by (intro filter_cong) auto
    moreover have "sm_entries m = below Compare j (sm_entries m) @ from_key Compare j (sm_entries m)"
      using split_parts [OF asc, of j] from_key_eq [OF asc, of j] by simp
    ultimately have sub: "below Compare k (sm_entries m) = below Compare j (sm_entries m) @ below Compare k (from_key Compare j (sm_entries m))"
      by (metis parts_append(1))
    have "range_list (sm_lower_bound Compare j m) (sm_lower_bound Compare k m) = Some (below Compare k (from_key Compare j (sm_entries m)))"
      using range_positions [OF asc refl lower_bound_pos [OF assms, of k] lower_bound_pos [OF assms, of j]] sub
        array_parts(1) [OF ys, of k] array_parts(2) [OF asc, of j] by simp
    then show ?thesis using True by (simp add: KeysViewIn_def keys_of_def)
  qed
qed

lemma keys_from:
  assumes "sm_ok Compare m"
  shows "keys_of (KeysViewFrom Compare k m) = Some (map fst (from_key Compare k (sm_entries m)))"
proof -
  note asc = sm_ascending [OF assms]
  have "length (below Compare k (sm_entries m)) \<le> length (sm_entries m)" by (simp add: below_def)
  then show ?thesis
    using range_positions [OF asc refl end_pos lower_bound_pos [OF assms, of k]] array_parts(2) [OF asc, of k]
    by (simp add: KeysViewFrom_def keys_of_def flip: length_drop)
qed

lemma keys_all: "sm_ok Compare m \<Longrightarrow> sm_keys m = Some (map fst (sm_entries m))"
  using range_positions [OF sm_ascending refl end_pos start_pos, of m] by (simp add: sm_keys_def keys_of_def)

end

sublocale comparator \<subseteq> sorted_map: ordered_map Compare "sm_ok Compare" sm_entries max_entries sm_empty "sm_insert Compare" "sm_erase Compare"
    "sm_contains Compare" "sm_find_index Compare" sm_size "sm_get Compare" sm_keys "\<lambda>k m. keys_of (KeysViewFrom Compare k m)"
    "\<lambda>j k m. keys_of (KeysViewIn Compare j k m)"
proof
  fix m :: "('a, 'b) sorted_map" and j k :: 'a and v :: 'b
  show "sm_ok Compare sm_empty" "sm_entries sm_empty = []" by (simp_all add: sm_empty_def array.none_ok)
  assume ok: "sm_ok Compare m"
  show "ascending Compare (sm_entries m)" by (rule sm_ascending [OF ok])
  show "length (sm_entries m) \<le> max_entries"
    using ok by (cases m) (auto simp: array_ok_def kFixedSize_def max_entries_def dest: tree.within)
  show "\<exists>m' keep. sm_insert Compare k v m = Some m' \<and> sm_ok Compare m' \<and> sm_entries m' = put_entry Compare keep k v (sm_entries m)"
    if "length (sm_entries m) < max_entries"
  proof (cases m)
    case (Array xs)
    show ?thesis
    proof (cases "length xs < kFixedSize")
      case True
      then show ?thesis using array.insert_put [of xs k v] ok Array by auto
    next
      case False
      have xs: "ascending Compare xs" "length xs < 2 ^ 31" "length xs < max_entries"
        using ok Array by (auto simp: array_ok_def kFixedSize_def max_entries_def)
      then have "tree_ok Compare (tree_create Compare xs)" "llrb_entries (tree_create Compare xs) = xs"
        using tree_create_eq [OF xs(2,1)] by (simp_all add: tree_ok_def)
      then show ?thesis using tree_ok_insert [of "tree_create Compare xs" k v] xs False Array by auto
    qed
  next
    case (Tree n)
    then show ?thesis using tree_ok_insert [of n k v] ok that by auto
  qed
  show "\<exists>m'. sm_erase Compare k m = Some m' \<and> sm_ok Compare m' \<and> sm_entries m' = drop_entry Compare k (sm_entries m)"
  proof (cases m)
    case (Array xs)
    then show ?thesis using array.erase_drop [of xs k] ok by auto
  next
    case (Tree n)
    have "sm_entries sm_empty = drop_entry Compare k (sm_entries m)" if "llrb_empty (llrb_erase Compare k n)"
      using that tree_ok_erase [of n k] ok Tree ok_empty [of "llrb_erase Compare k n"] by (simp add: tree_ok_def sm_empty_def)
    then show ?thesis using tree_ok_erase [of n k] ok Tree array.none_ok by (auto simp: sm_empty_def Let_def)
  qed
  show "sm_contains Compare k m \<longleftrightarrow> equal_to Compare k (sm_entries m) \<noteq> []"
    using ok by (cases m) (simp_all add: array.contains_iff tree.contains_iff)
  show "sm_find_index Compare k m = (if equal_to Compare k (sm_entries m) = [] then npos else of_nat (length (below Compare k (sm_entries m))))"
    using ok by (cases m) (simp_all add: array.find_index_eq tree.find_index_eq)
  show "sm_size m = of_nat (length (sm_entries m))"
    using ok by (cases m) (simp_all add: tree.count_eq)
  show "sm_get Compare k m = look_up Compare k (sm_entries m)" by (rule get_look_up [OF ok])
  show "sm_keys m = Some (map fst (sm_entries m))" by (rule keys_all [OF ok])
  show "keys_of (KeysViewFrom Compare k m) = Some (map fst (from_key Compare k (sm_entries m)))" by (rule keys_from [OF ok])
  show "keys_of (KeysViewIn Compare j k m) = Some (map fst (below Compare k (from_key Compare j (sm_entries m))))" by (rule keys_in [OF ok])
qed

end
