(* ===== verification/Sorted_Map_Properties.thy ===== *)
theory Sorted_Map_Properties
  imports Sorted_Map_Iter "HOL-Library.Multiset"
begin

text \<open>
  The properties of the sorted maps: they refine finite maps, their views are exact, their trees are balanced, and
  the constructor from a list is exact.
\<close>

section \<open>Sequences of calls\<close>

datatype ('k, 'v) map_call = Insert 'k 'v | Erase 'k

fun map_step :: "('k \<Rightarrow> 'v \<Rightarrow> 'm \<Rightarrow> 'm option) \<Rightarrow> ('k \<Rightarrow> 'm \<Rightarrow> 'm option) \<Rightarrow> ('k, 'v) map_call \<Rightarrow> 'm \<Rightarrow> 'm option" where
  "map_step ins del (Insert k v) m = ins k v m"
| "map_step ins del (Erase k) m = del k m"

fun map_run :: "('k \<Rightarrow> 'v \<Rightarrow> 'm \<Rightarrow> 'm option) \<Rightarrow> ('k \<Rightarrow> 'm \<Rightarrow> 'm option) \<Rightarrow> ('k, 'v) map_call list \<Rightarrow> 'm \<Rightarrow> 'm option" where
  "map_run ins del [] m = Some m"
| "map_run ins del (c # cs) m = Option.bind (map_step ins del c m) (map_run ins del cs)"

text \<open>The same on finite maps\<close>

fun abs_step :: "('k, 'v) map_call \<Rightarrow> ('k \<rightharpoonup> 'v) \<Rightarrow> ('k \<rightharpoonup> 'v)" where
  "abs_step (Insert k v) f = f(k \<mapsto> v)"
| "abs_step (Erase k) f = f(k := None)"

definition abs_run :: "('k, 'v) map_call list \<Rightarrow> ('k \<rightharpoonup> 'v) \<Rightarrow> ('k \<rightharpoonup> 'v)" where
  "abs_run cs f = fold abs_step cs f"

context map_store
begin

lemma step_ok:
  assumes "ok m" and "length (entries m) < capacity"
  shows "\<exists>m'. map_step insert erase c m = Some m' \<and> ok m' \<and> length (entries m') \<le> Suc (length (entries m)) \<and>
    (\<forall>k. look_up Compare k (entries m') = (case c of Insert j v \<Rightarrow> if Compare k j = Same then Some v else look_up Compare k (entries m)
       | Erase j \<Rightarrow> if Compare k j = Same then None else look_up Compare k (entries m)))"
proof (cases c)
  case (Insert j v)
  obtain m' keep where "insert j v m = Some m'" "ok m'" "entries m' = put_entry Compare keep j v (entries m)"
    using insert_put [OF assms] by blast
  then show ?thesis using Insert look_up_put [OF in_order [OF assms(1)]] length_put [OF in_order [OF assms(1)]] by simp
next
  case (Erase j)
  obtain m' where "erase j m = Some m'" "ok m'" "entries m' = drop_entry Compare j (entries m)"
    using erase_drop [OF assms(1)] by blast
  then show ?thesis using Erase drop_length [of j "entries m"] by (simp add: look_up_drop)
qed

lemma run_inv: "ok m \<Longrightarrow> length (entries m) + length cs \<le> capacity \<Longrightarrow> \<exists>m'. map_run insert erase cs m = Some m' \<and> ok m'"
proof (induction cs arbitrary: m)
  case (Cons c cs)
  then have "length (entries m) < capacity" by simp
  from step_ok [OF Cons.prems(1) this, of c] obtain m' where "map_step insert erase c m = Some m'" "ok m'" "length (entries m') \<le> Suc (length (entries m))"
    by blast
  then show ?case using Cons.IH [of m'] Cons.prems(2) by simp
qed simp

lemma run_ok:
  assumes "\<And>x y. Compare x y = Same \<Longrightarrow> x = y"
  shows "ok m \<Longrightarrow> length (entries m) + length cs \<le> capacity \<Longrightarrow> (\<And>k. look_up Compare k (entries m) = f k) \<Longrightarrow>
    \<exists>m'. map_run insert erase cs m = Some m' \<and> ok m' \<and> (\<forall>k. look_up Compare k (entries m') = abs_run cs f k)"
proof (induction cs arbitrary: m f)
  case Nil
  then show ?case by (simp add: abs_run_def)
next
  case (Cons c cs)
  have same: "Compare x y = Same \<longleftrightarrow> x = y" for x y using assms by auto
  have "length (entries m) < capacity" using Cons.prems(2) by simp
  from step_ok [OF Cons.prems(1) this, of c] obtain m' where m': "map_step insert erase c m = Some m'" "ok m'" "length (entries m') \<le> Suc (length (entries m))"
    and look: "\<And>k. look_up Compare k (entries m') = (case c of Insert j v \<Rightarrow> if Compare k j = Same then Some v else look_up Compare k (entries m)
       | Erase j \<Rightarrow> if Compare k j = Same then None else look_up Compare k (entries m))" by blast
  have "look_up Compare k (entries m') = abs_step c f k" for k
    using look [of k] Cons.prems(3) by (cases c) (auto simp: same)
  from Cons.IH [OF m'(2) _ this] m' Cons.prems(2) show ?case by (auto simp: abs_run_def)
qed

end

lemma filter_keys: "map fst (filter (\<lambda>e. P (fst e)) xs) = filter P (map fst xs)"
  by (simp add: filter_map comp_def)

lemma found_iff: "equal_to cmp k xs \<noteq> [] \<longleftrightarrow> look_up cmp k xs \<noteq> None"
  by (simp add: look_up_def split: list.splits)

lemma sm_none [simp]: "sm_entries sm_empty = []"
  by (simp add: sm_empty_def)

context comparator
begin

lemmas sm_contains_iff = sorted_map.contains_iff and sm_count_eq = sorted_map.count_eq and sm_find_index_eq = sorted_map.find_index_eq
  and sm_insert_put = sorted_map.insert_put and sm_erase_drop = sorted_map.erase_drop

end

context comparator
begin

lemma run_trees: "length cs \<le> max_entries \<Longrightarrow>
    \<exists>n. map_run (\<lambda>k v n. Some (llrb_insert Compare k v n)) (\<lambda>k n. Some (llrb_erase Compare k n)) cs (Leaf Black) = Some n \<and> tree_ok Compare n"
  by (rule tree.run_inv [OF tree.none_ok]) simp

end

context strict_comparator
begin

lemma look_up_dom:
  assumes "ascending Compare xs" and "\<And>k. look_up Compare k xs = f k"
  shows "set (map fst xs) = dom f" "length xs = card (dom f)" "f = map_of xs"
proof -
  show f: "f = map_of xs" using look_up_map_of [OF assms(1)] assms(2) by auto
  show d: "set (map fst xs) = dom f" by (simp add: f dom_map_of_conv_image_fst)
  show "length xs = card (dom f)"
    using distinct_card [OF ascending_distinct [OF assms(1)]] d by simp
qed

lemma key_list: "ascending Compare xs \<Longrightarrow> sorted_wrt (\<lambda>a b. Compare a b = Ascending) (map fst xs)"
  by (simp add: ascending_def sorted_wrt_map)

lemma run_sorted_map:
  assumes "length cs \<le> max_entries"
  shows "\<exists>m. map_run (sm_insert Compare) (sm_erase Compare) cs sm_empty = Some m \<and> sm_ok Compare m \<and>
    (\<forall>k. look_up Compare k (sm_entries m) = abs_run cs Map.empty k)"
proof (rule sorted_map.run_ok)
  show "length (sm_entries sm_empty) + length cs \<le> max_entries" using assms by simp
  show "look_up Compare k (sm_entries sm_empty) = None" for k by (simp add: look_up_def)
qed (simp_all add: sorted_map.none_ok)

end

section \<open>Properties\<close>

text \<open>C7. A sorted map refines a finite map: after any calls of insert and erase, no assertion fails, a lookup finds what the
  finite map has, the size is the number of keys, and a loop over the map sees the keys in ascending order, each once.\<close>

theorem sorted_map_refines:
  assumes "strict_comparator cmp" and "length cs < 2 ^ 31"
  shows "\<exists>m. map_run (sm_insert cmp) (sm_erase cmp) cs sm_empty = Some m \<and>
    (\<forall>k. sm_get cmp k m = abs_run cs Map.empty k \<and> (sm_contains cmp k m \<longleftrightarrow> abs_run cs Map.empty k \<noteq> None)) \<and>
    sm_size m = of_nat (card (dom (abs_run cs Map.empty))) \<and>
    (\<exists>ks. sm_keys m = Some ks \<and> set ks = dom (abs_run cs Map.empty) \<and> sorted_wrt (\<lambda>a b. cmp a b = Ascending) ks)"
proof -
  have "length cs \<le> max_entries" using assms(2) by (simp add: max_entries_def)
  from strict_comparator.run_sorted_map [OF assms(1) this] obtain m where m: "map_run (sm_insert cmp) (sm_erase cmp) cs sm_empty = Some m" "sm_ok cmp m"
    and look: "\<And>k. look_up cmp k (sm_entries m) = abs_run cs Map.empty k" by blast
  have c: "comparator cmp" using assms(1) strict_comparator.axioms(1) by blast
  note asc = comparator.sm_ascending [OF c m(2)]
  note dom = strict_comparator.look_up_dom [OF assms(1) asc look]
  have "sm_get cmp k m = abs_run cs Map.empty k \<and> (sm_contains cmp k m \<longleftrightarrow> abs_run cs Map.empty k \<noteq> None)" for k
    using comparator.get_look_up [OF c m(2), of k] look [of k] comparator.sm_contains_iff [OF c m(2), of k] by (simp add: found_iff)
  moreover have "sm_size m = of_nat (card (dom (abs_run cs Map.empty)))"
    using comparator.sm_count_eq [OF c m(2)] dom(2) by simp
  moreover have "sm_keys m = Some (map fst (sm_entries m))" by (rule comparator.keys_all [OF c m(2)])
  moreover have "sorted_wrt (\<lambda>a b. cmp a b = Ascending) (map fst (sm_entries m))" by (rule strict_comparator.key_list [OF assms(1) asc])
  ultimately show ?thesis using m(1) dom(1) by auto
qed

lemma sorted_map_refines_witness:
  "\<exists>m. map_run (sm_insert Comparator_int32) (sm_erase Comparator_int32) [Insert 5 True, Insert (-1) False, Erase 5] sm_empty = Some m \<and>
    sm_get Comparator_int32 (-1) m = Some False \<and> \<not> sm_contains Comparator_int32 5 m \<and> sm_size m = 1"
proof -
  have "abs_run [Insert 5 True, Insert (-1) False, Erase 5] Map.empty = [- 1 :: 32 word \<mapsto> False]"
    by (auto simp: abs_run_def)
  then show ?thesis
    using sorted_map_refines [OF int32_order.strict_comparator_axioms, of "[Insert 5 True, Insert (-1) False, Erase 5]"] by auto
qed

text \<open>C11. The views of a sorted map are exact: a range of keys from \<open>j\<close> on, or from \<open>j\<close> up to but without \<open>k\<close>, is the keys of
  the map in that range, in order, and the index of a key is the number of keys that are less.\<close>

theorem sorted_map_views_exact:
  assumes "strict_comparator cmp" and "length cs < 2 ^ 31" and "map_run (sm_insert cmp) (sm_erase cmp) cs sm_empty = Some m"
  shows "\<exists>ks. sm_keys m = Some ks \<and>
    keys_of (KeysViewFrom cmp j m) = Some (filter (\<lambda>x. cmp x j \<noteq> Ascending) ks) \<and>
    keys_of (KeysViewIn cmp j k m) = Some (filter (\<lambda>x. cmp x j \<noteq> Ascending \<and> cmp x k = Ascending) ks) \<and>
    sm_find_index cmp k m = (if k \<in> set ks then of_nat (length (filter (\<lambda>x. cmp x k = Ascending) ks)) else npos) \<and>
    iter_get (sm_min m) = (if ks = [] then None else Some (hd ks, the (sm_get cmp (hd ks) m))) \<and>
    iter_get (sm_max m) = (if ks = [] then None else Some (last ks, the (sm_get cmp (last ks) m)))"
proof -
  have "length cs \<le> max_entries" using assms(2) by (simp add: max_entries_def)
  from strict_comparator.run_sorted_map [OF assms(1) this] have ok: "sm_ok cmp m" using assms(3) by auto
  have c: "comparator cmp" using assms(1) strict_comparator.axioms(1) by blast
  note asc = comparator.sm_ascending [OF c ok]
  define ks where "ks = map fst (sm_entries m)"
  have "keys_of (KeysViewFrom cmp j m) = Some (filter (\<lambda>x. cmp x j \<noteq> Ascending) ks)"
    unfolding comparator.keys_from [OF c ok] ks_def from_key_def filter_keys [symmetric] ..
  moreover have "keys_of (KeysViewIn cmp j k m) = Some (filter (\<lambda>x. cmp x j \<noteq> Ascending \<and> cmp x k = Ascending) ks)"
    unfolding comparator.keys_in [OF c ok] ks_def comparator.below_from [OF c] by (simp add: filter_map comp_def)
  moreover have "sm_find_index cmp k m = (if k \<in> set ks then of_nat (length (filter (\<lambda>x. cmp x k = Ascending) ks)) else npos)"
    unfolding comparator.sm_find_index_eq [OF c ok] ks_def
    by (auto simp: equal_to_def below_def filter_empty_conv strict_comparator.same_iff [OF assms(1)] filter_map comp_def)
  moreover have get: "sm_get cmp (fst e) m = Some (snd e)" if "e \<in> set (sm_entries m)" for e
    using that strict_comparator.look_up_map_of [OF assms(1) asc, of "fst e"] strict_comparator.ascending_distinct [OF assms(1) asc]
    by (simp add: comparator.get_look_up [OF c ok])
  moreover have "iter_get (sm_min m) = (if ks = [] then None else Some (hd ks, the (sm_get cmp (hd ks) m)))"
    using at_get [OF start_pos [OF ok]] get [of "sm_entries m ! 0"] by (simp add: sm_min_def ks_def hd_map hd_conv_nth prod_eq_iff)
  moreover have "iter_get (sm_max m) = (if ks = [] then None else Some (last ks, the (sm_get cmp (last ks) m)))"
    using at_get [OF max_pos [OF ok]] get [of "sm_entries m ! (length (sm_entries m) - 1)"] by (simp add: ks_def last_map last_conv_nth prod_eq_iff)
  ultimately show ?thesis using comparator.keys_all [OF c ok] unfolding ks_def by blast
qed

lemma sorted_map_views_exact_witness:
  "\<exists>m. map_run (sm_insert Comparator_int32) (sm_erase Comparator_int32) [Insert 5 True, Insert (-1) False] sm_empty = Some m \<and>
    keys_of (KeysViewIn Comparator_int32 0 7 m) = Some [5] \<and> sm_find_index Comparator_int32 5 m = 1"
proof -
  define cs where "cs = [Insert 5 True, Insert (-1 :: 32 word) False]"
  have len: "length cs < 2 ^ 31" by (simp add: cs_def)
  have "map_run (sm_insert Comparator_int32) (sm_erase Comparator_int32) cs sm_empty = Some (Array [(-1, False), (5, True)])"
    unfolding cs_def by code_simp
  note run = this
  have keys: "sm_keys (Array [(-1 :: 32 word, False), (5, True)]) = Some [-1, 5]" by code_simp
  from sorted_map_views_exact [OF int32_order.strict_comparator_axioms len run, of 0 7]
    sorted_map_views_exact [OF int32_order.strict_comparator_axioms len run, of 0 5]
  show ?thesis using run keys unfolding cs_def
    by (auto simp: Comparator_int32_def DefaultComparator_def)
qed

fun llrb_height :: "('k, 'v) llrb \<Rightarrow> nat" where
  "llrb_height (Leaf c) = 0"
| "llrb_height (Node e c s l r) = Suc (max (llrb_height l) (llrb_height r))"

lemma tree_height: "tree b n \<Longrightarrow> llrb_height n \<le> 2 * b + (if llrb_color n = Red then 1 else 0)"
proof (induction b n rule: tree.induct)
  case (2 b e s l r)
  then show ?case by auto
next
  case (3 b e s l r)
  then have "llrb_height l \<le> Suc (2 * b)" "llrb_height r \<le> Suc (2 * b)" by (auto split: if_splits)
  then show ?case by simp
qed simp_all

lemma tree_entries: "tree b n \<Longrightarrow> 2 ^ b \<le> Suc (length (llrb_entries n))"
proof (induction b n rule: tree.induct)
  case (3 b e s l r)
  then have "2 ^ b \<le> Suc (length (llrb_entries l))" "2 ^ b \<le> Suc (length (llrb_entries r))" by simp_all
  then show ?case by simp
qed simp_all

text \<open>C8. Every tree that insertions and removals make is a left-leaning red-black tree with equally many black nodes on every
  path and right sizes, so a tree of \<open>n\<close> entries has a height of at most \<open>2 log (n + 1)\<close>.\<close>

theorem trees_stay_balanced:
  assumes "comparator cmp" and "length cs < 2 ^ 31"
  shows "\<exists>n b. map_run (\<lambda>k v n. Some (llrb_insert cmp k v n)) (\<lambda>k n. Some (llrb_erase cmp k n)) cs (Leaf Black) = Some n \<and>
    tree b n \<and> llrb_color n = Black \<and> ascending cmp (llrb_entries n) \<and> 2 ^ llrb_height n \<le> (length (llrb_entries n) + 1) ^ 2"
proof -
  obtain n where n: "map_run (\<lambda>k v n. Some (llrb_insert cmp k v n)) (\<lambda>k n. Some (llrb_erase cmp k n)) cs (Leaf Black) = Some n" "tree_ok cmp n"
    using comparator.run_trees [OF assms(1), of cs] assms(2) by (auto simp: max_entries_def)
  then obtain b where b: "tree b n" "llrb_color n = Black" by (auto simp: tree_ok_def llrb_ok_def)
  have "(2 :: nat) ^ llrb_height n \<le> 2 ^ (2 * b)" using tree_height [OF b(1)] b(2) by (intro power_increasing) simp_all
  also have "\<dots> = (2 ^ b) ^ 2" by (simp add: power_mult mult.commute)
  also have "\<dots> \<le> (length (llrb_entries n) + 1) ^ 2" using tree_entries [OF b(1)] by (intro power_mono) simp_all
  finally show ?thesis using n b by (auto simp: tree_ok_def)
qed

lemma trees_stay_balanced_witness:
  "\<exists>n b. map_run (\<lambda>k v n. Some (llrb_insert Comparator_string k v n)) (\<lambda>k n. Some (llrb_erase Comparator_string k n))
      [Insert [1] (), Insert [2] (), Insert [3] (), Erase [2]] (Leaf Black) = Some n \<and> tree b n \<and> llrb_height n \<le> 3"
proof -
  have run: "map_run (\<lambda>k v n. Some (llrb_insert Comparator_string k v n)) (\<lambda>k n. Some (llrb_erase Comparator_string k n))
      [Insert [1] (), Insert [2] (), Insert [3] (), Erase [2]] (Leaf Black)
    = Some (Node ([3], ()) Black 2 (Node ([1], ()) Red 1 (Leaf Black) (Leaf Black)) (Leaf Black))"
    by code_simp
  then show ?thesis
    using trees_stay_balanced [OF string_order.comparator_axioms, of "[Insert [1] (), Insert [2] (), Insert [3] (), Erase [2]]"] by auto
qed

text \<open>A sorting function that \<open>std::sort\<close> may be\<close>

fun insert_by :: "('a \<Rightarrow> 'a \<Rightarrow> bool) \<Rightarrow> 'a \<Rightarrow> 'a list \<Rightarrow> 'a list" where
  "insert_by lt x [] = [x]"
| "insert_by lt x (y # ys) = (if lt y x then y # insert_by lt x ys else x # y # ys)"

definition sort_by :: "('a \<Rightarrow> 'a \<Rightarrow> bool) \<Rightarrow> 'a list \<Rightarrow> 'a list" where
  "sort_by lt xs = foldr (insert_by lt) xs []"

lemma sort_by_mset: "mset (sort_by lt xs) = mset xs"
proof -
  have "mset (insert_by lt x ys) = add_mset x (mset ys)" for x ys by (induction ys) simp_all
  then show ?thesis unfolding sort_by_def by (induction xs) simp_all
qed

lemma sort_by_sorted:
  fixes cmp :: "'a cmp" and xs :: "('a \<times> 'c) list"
  assumes "comparator cmp"
  shows "sorted_wrt (\<lambda>l r. cmp (fst r) (fst l) \<noteq> Ascending) (sort_by (\<lambda>l r. cmp (fst l) (fst r) = Ascending) xs)"
proof -
  define lt where "lt = (\<lambda>(l :: 'a \<times> 'c) (r :: 'a \<times> 'c). cmp (fst l) (fst r) = Ascending)"
  have set: "set (insert_by lt x ys) = insert x (set ys)" for x ys by (induction ys) auto
  have ins: "sorted_wrt (\<lambda>l r. \<not> lt r l) (insert_by lt x ys)" if "sorted_wrt (\<lambda>l r. \<not> lt r l) ys" for x ys
    using that
  proof (induction ys)
    case (Cons y ys)
    show ?case
    proof (cases "lt y x")
      case True
      then have "\<not> lt x y" using comparator.desc_iff [OF assms, of "fst y" "fst x"] by (auto simp: lt_def)
      then show ?thesis using Cons True by (auto simp: set)
    next
      case False
      have "\<not> lt z x" if "z \<in> set ys" for z
        using that False Cons.prems comparator.asc_le_trans [OF assms, of "fst z" "fst x" "fst y"]
          comparator.desc_iff [OF assms, of "fst y" "fst x"] comparator.desc_iff [OF assms, of "fst x" "fst y"]
        by (auto simp: lt_def)
      then show ?thesis using Cons False by auto
    qed
  qed simp
  have "sorted_wrt (\<lambda>l r. \<not> lt r l) (sort_by lt xs)" unfolding sort_by_def by (induction xs) (simp_all add: ins)
  then show ?thesis by (simp add: lt_def)
qed

lemma ascending_of_sorted:
  assumes "strict_comparator cmp" and "sorted_wrt (\<lambda>l r. cmp (fst r) (fst l) \<noteq> Ascending) xs" and "distinct (map fst xs)"
  shows "ascending cmp xs"
  using assms(2,3)
proof (induction xs)
  case (Cons e xs)
  have c: "comparator cmp" using assms(1) strict_comparator.axioms(1) by blast
  have "cmp (fst e) (fst f) = Ascending" if "f \<in> set xs" for f
  proof -
    have "cmp (fst f) (fst e) \<noteq> Ascending" "fst e \<noteq> fst f" using Cons.prems that by auto
    then have "cmp (fst f) (fst e) = Descending"
      using strict_comparator.same_iff [OF assms(1), of "fst f" "fst e"] by (cases "cmp (fst f) (fst e)") auto
    then show ?thesis using comparator.desc_iff [OF c] by blast
  qed
  then show ?case using Cons by simp
qed simp

lemma find_less: "array_find cmp k xs < length xs \<longleftrightarrow> (\<exists>e\<in>set xs. cmp k (fst e) = Same)"
  by (induction xs) (auto simp: array_find_def)

lemma contains_some: "array_contains cmp k xs \<longleftrightarrow> (\<exists>e\<in>set xs. cmp k (fst e) = Same)"
  unfolding find_less [symmetric] array_contains_def array_find_def by (metis length_takeWhile_le le_neq_implies_less less_irrefl)

lemma erase_keeps_one:
  assumes "\<And>j. cmp k j = Same \<longleftrightarrow> j = k" and "2 \<le> count (mset (map fst xs)) k" and "length xs \<le> kFixedSize"
  shows "\<exists>ys. array_erase cmp k xs = Some ys \<and> array_contains cmp k ys"
proof -
  define pos where "pos = array_find cmp k xs"
  define ys where "ys = take pos xs @ drop (Suc pos) xs"
  have "k \<in> set (map fst xs)" using assms(2) by (metis count_eq_zero_iff not_numeral_le_zero set_mset_mset)
  then obtain e where "e \<in> set xs" "cmp k (fst e) = Same" using assms(1) by auto
  then have pos: "pos < length xs" unfolding pos_def find_less by blast
  then have at: "fst (xs ! pos) = k" using nth_length_takeWhile [of "\<lambda>e. cmp k (fst e) \<noteq> Same" xs] assms(1) by (simp add: pos_def array_find_def)
  have xs: "xs = take pos xs @ xs ! pos # drop (Suc pos) xs" by (rule id_take_nth_drop [OF pos])
  have "mset (map fst xs) = add_mset k (mset (map fst ys))"
    using arg_cong [OF xs, of "\<lambda>zs. mset (map fst zs)"] at by (simp add: ys_def)
  then have count: "1 \<le> count (mset (map fst ys)) k" using assms(2) by simp
  have "k \<in> set (map fst ys)" using count by (metis count_eq_zero_iff not_one_le_zero set_mset_mset)
  then obtain f where "f \<in> set ys" "cmp k (fst f) = Same" using assms(1) by auto
  then have "array_contains cmp k ys" unfolding contains_some by blast
  moreover have "length ys = length xs - 1" using pos by (simp add: ys_def)
  moreover have "ys \<noteq> []" using count by auto
  moreover have "1 < length xs" using calculation(2,3) by (cases ys) simp_all
  then have "array_erase cmp k xs = Some ys"
    using pos assms(3) by (simp add: array_erase_def pos_def [symmetric] append_some ys_def)
  ultimately show ?thesis by blast
qed

lemma tree_create_run:
  "map_run (\<lambda>k v n. Some (llrb_insert cmp k v n)) (\<lambda>k n. Some (llrb_erase cmp k n)) (map (\<lambda>e. Insert (fst e) (snd e)) xs) n
    = Some (fold (\<lambda>e node. llrb_insert cmp (fst e) (snd e) node) xs n)"
  by (induction xs arbitrary: n) simp_all

lemma abs_run_inserts: "abs_run (map (\<lambda>e. Insert (fst e) (snd e)) xs) f = f ++ map_of (rev xs)"
  by (induction xs arbitrary: f) (simp_all add: abs_run_def map_add_upd_left map_add_def fun_eq_iff split: option.splits)

context strict_comparator
begin

lemma large_create:
  assumes "length xs \<le> max_entries"
  shows "tree_ok Compare (tree_create Compare xs) \<and> (\<forall>k. look_up Compare k (llrb_entries (tree_create Compare xs)) = map_of (rev xs) k)"
proof -
  define cs where "cs = map (\<lambda>e. Insert (fst e) (snd e)) xs"
  have "\<exists>n. map_run (\<lambda>k v n. Some (llrb_insert Compare k v n)) (\<lambda>k n. Some (llrb_erase Compare k n)) cs (Leaf Black) = Some n \<and>
      tree_ok Compare n \<and> (\<forall>k. look_up Compare k (llrb_entries n) = abs_run cs Map.empty k)"
  proof (rule tree.run_ok)
    show "length (llrb_entries (Leaf Black)) + length cs \<le> max_entries" using assms by (simp add: cs_def)
    show "look_up Compare k (llrb_entries (Leaf Black)) = None" for k by (simp add: look_up_def)
  qed (simp_all add: tree.none_ok)
  then show ?thesis using tree_create_run [of Compare xs "Leaf Black"] by (auto simp: cs_def abs_run_inserts tree_create_def)
qed

end

text \<open>C12. The constructor of a sorted map from a list. Up to 25 entries are sorted and all kept: with distinct keys the map finds
  exactly what the list has, but a key that the list has twice is still there after it has been erased. For more entries the
  constructor builds the tree, in which the last entry of a key wins, but does not set the tag: the map is that tree when the
  memory of the tag happens to hold \<open>Tree\<close>, and not usable otherwise.\<close>

theorem create_exact:
  assumes "strict_comparator cmp"
    and "\<And>xs. mset (std_sort (\<lambda>l r. cmp (fst l) (fst r) = Ascending) xs) = mset xs"
    and "\<And>xs. sorted_wrt (\<lambda>l r. cmp (fst r) (fst l) \<noteq> Ascending) (std_sort (\<lambda>l r. cmp (fst l) (fst r) = Ascending) xs)"
  shows "(length entries \<le> 25 \<longrightarrow> (\<exists>m. sm_create std_sort cmp tag0 entries = Some m \<and> sm_size m = of_nat (length entries) \<and>
      (distinct (map fst entries) \<longrightarrow> sm_ok cmp m \<and> (\<forall>k. sm_get cmp k m = map_of entries k)) \<and>
      (\<forall>k. 2 \<le> count (mset (map fst entries)) k \<longrightarrow> (\<exists>m'. sm_erase cmp k m = Some m' \<and> sm_contains cmp k m')))) \<and>
    (25 < length entries \<longrightarrow> length entries < 2 ^ 31 \<longrightarrow>
      (if tag0 = Tag_Tree
       then \<exists>m. sm_create std_sort cmp tag0 entries = Some m \<and> sm_ok cmp m \<and> sm_size m = of_nat (card (set (map fst entries))) \<and>
         (\<forall>k. sm_get cmp k m = map_of (rev entries) k)
       else sm_create std_sort cmp tag0 entries = None))"
proof -
  have c: "comparator cmp" using assms(1) strict_comparator.axioms(1) by blast
  have small: "\<exists>m. sm_create std_sort cmp tag0 entries = Some m \<and> sm_size m = of_nat (length entries) \<and>
      (distinct (map fst entries) \<longrightarrow> sm_ok cmp m \<and> (\<forall>k. sm_get cmp k m = map_of entries k)) \<and>
      (\<forall>k. 2 \<le> count (mset (map fst entries)) k \<longrightarrow> (\<exists>m'. sm_erase cmp k m = Some m' \<and> sm_contains cmp k m'))" if le: "length entries \<le> 25"
  proof -
    define xs where "xs = std_sort (\<lambda>l r. cmp (fst l) (fst r) = Ascending) entries"
    have m: "mset xs = mset entries" and s: "sorted_wrt (\<lambda>l r. cmp (fst r) (fst l) \<noteq> Ascending) xs" unfolding xs_def by (rule assms(2,3))+
    have len: "length xs = length entries" using m by (rule mset_eq_length)
    have keys: "mset (map fst xs) = mset (map fst entries)" using m by simp
    have run: "sm_create std_sort cmp tag0 entries = Some (Array xs)"
      using le len by (simp add: sm_create_def SortedArray_def array_append_def kFixedSize_def xs_def)
    have "sm_ok cmp (Array xs) \<and> (\<forall>k. sm_get cmp k (Array xs) = map_of entries k)" if d: "distinct (map fst entries)"
    proof -
      have dx: "distinct (map fst xs)" using d mset_eq_imp_distinct_iff [OF keys] by simp
      have asc: "ascending cmp xs" by (rule ascending_of_sorted [OF assms(1) s dx])
      have ok: "sm_ok cmp (Array xs)" using asc le len by (simp add: array_ok_def kFixedSize_def)
      have "map_of xs = map_of entries" using map_of_inject_set [OF dx d] mset_eq_setD [OF m] by simp
      then show ?thesis using ok comparator.get_look_up [OF c ok] strict_comparator.look_up_map_of [OF assms(1) asc] by simp
    qed
    moreover have "\<exists>m'. sm_erase cmp k (Array xs) = Some m' \<and> sm_contains cmp k m'" if "2 \<le> count (mset (map fst entries)) k" for k
    proof -
      have "cmp k j = Same \<longleftrightarrow> j = k" for j using strict_comparator.same_iff [OF assms(1), of k j] by auto
      moreover have "2 \<le> count (mset (map fst xs)) k" using that keys by simp
      moreover have "length xs \<le> kFixedSize" using le len by (simp add: kFixedSize_def)
      ultimately obtain ys where "array_erase cmp k xs = Some ys" "array_contains cmp k ys" using erase_keeps_one [of cmp k xs] by blast
      then show ?thesis by simp
    qed
    ultimately show ?thesis using run len by auto
  qed
  have large: "sm_ok cmp (Tree (tree_create cmp entries)) \<and> sm_size (Tree (tree_create cmp entries)) = of_nat (card (set (map fst entries))) \<and>
      (\<forall>k. sm_get cmp k (Tree (tree_create cmp entries)) = map_of (rev entries) k)" if "length entries < 2 ^ 31"
  proof -
    have "length entries \<le> max_entries" using that by (simp add: max_entries_def)
    note t = strict_comparator.large_create [OF assms(1) this]
    then have ok: "sm_ok cmp (Tree (tree_create cmp entries))" by simp
    note asc = comparator.sm_ascending [OF c ok]
    have "length (sm_entries (Tree (tree_create cmp entries))) = card (dom (map_of (rev entries)))"
      by (rule strict_comparator.look_up_dom(2) [OF assms(1) asc]) (use t in simp)
    then show ?thesis using ok t comparator.sm_count_eq [OF c ok] comparator.get_look_up [OF c ok]
      by (simp add: dom_map_of_conv_image_fst)
  qed
  show ?thesis using small large by (simp add: sm_create_def kFixedSize_def Let_def)
qed

lemma create_exact_witness:
  "(\<exists>m m'. sm_create sort_by Comparator_int32 Tag_Array [(7, True), (7, True)] = Some m \<and> sm_size m = 2 \<and>
     sm_erase Comparator_int32 7 m = Some m' \<and> sm_contains Comparator_int32 7 m') \<and>
   sm_create sort_by Comparator_int32 Tag_Array (replicate 26 (7, True)) = None \<and>
   (\<exists>m. sm_create sort_by Comparator_int32 Tag_Tree (replicate 26 (7, True)) = Some m \<and> sm_size m = 1)"
proof -
  have ordered: "sorted_wrt (\<lambda>l r. Comparator_int32 (fst r) (fst l) \<noteq> Ascending) (sort_by (\<lambda>l r. Comparator_int32 (fst l) (fst r) = Ascending) xs)"
    for xs :: "(32 word \<times> bool) list" by (rule sort_by_sorted [OF int32_order.comparator_axioms])
  note exact = create_exact [of Comparator_int32 sort_by, OF int32_order.strict_comparator_axioms sort_by_mset ordered]
  have "\<exists>m. sm_create sort_by Comparator_int32 Tag_Array [(7, True), (7, True)] = Some m \<and> sm_size m = 2 \<and>
      (\<exists>m'. sm_erase Comparator_int32 7 m = Some m' \<and> sm_contains Comparator_int32 7 m')"
    using conjunct1 [OF exact, of "[(7, True), (7, True)]" Tag_Array] by force
  moreover have "sm_create sort_by Comparator_int32 Tag_Array (replicate 26 (7, True)) = None"
    using conjunct2 [OF exact, of "replicate 26 (7, True)" Tag_Array] by (simp add: Tag_Array_def Tag_Tree_def)
  moreover have "\<exists>m. sm_create sort_by Comparator_int32 Tag_Tree (replicate 26 (7, True)) = Some m \<and> sm_size m = 1"
    using conjunct2 [OF exact, of "replicate 26 (7, True)" Tag_Tree] by auto
  ultimately show ?thesis by blast
qed

end
