(* ===== verification/Absl_Strings.thy ===== *)
theory Absl_Strings
  imports Prelude
begin

text \<open>
  The string functions of abseil that Firestore's paths use (\<open>absl/strings\<close>): the search in a \<open>string_view\<close> and
  \<open>StrContains\<close>, the iterator and the conversion behind \<open>StrSplit\<close> at a character, and \<open>StrJoin\<close> of strings. A view into a
  text is a position and a length; the data pointer of a text is not null, and sizes do not overflow since their texts are in
  memory. \<open>None\<close> is the exception of \<open>substr\<close> past the end.
\<close>

section \<open>Search\<close>

fun memchr :: "byte \<Rightarrow> byte list \<Rightarrow> nat option" where
  "memchr c [] = None"
| "memchr c (x # xs) = (if x = c then Some 0 else map_option Suc (memchr c xs))"

lemma memchr_less: "memchr c xs = Some d \<Longrightarrow> d < length xs"
  by (induction xs arbitrary: d) (auto split: if_splits)

function memmatch_loop :: "byte list \<Rightarrow> byte list \<Rightarrow> nat \<Rightarrow> nat \<Rightarrow> nat option" where
  "memmatch_loop haystack needle p hayend =
     (case memchr (needle ! 0) (take (hayend - p) (drop p haystack)) of
        None \<Rightarrow> None
      | Some d \<Rightarrow>
          let match = p + d
          in if take (length needle) (drop match haystack) = needle then Some match
             else memmatch_loop haystack needle (match + 1) hayend)"
  by pat_completeness auto
termination
proof (relation "measure (\<lambda>(haystack, needle, p, hayend). hayend - p)")
  fix haystack needle :: "byte list" and p hayend d match
  assume "memchr (needle ! 0) (take (hayend - p) (drop p haystack)) = Some d" "match = p + d"
  then have "d < hayend - p" "match = p + d" by (auto dest: memchr_less)
  then show "((haystack, needle, match + 1, hayend), (haystack, needle, p, hayend)) \<in> measure (\<lambda>(haystack, needle, p, hayend). hayend - p)"
    by simp
qed simp

declare memmatch_loop.simps [simp del]

definition memmatch :: "byte list \<Rightarrow> byte list \<Rightarrow> nat option" where
  "memmatch haystack needle =
     (if length needle = 0 then Some 0
      else if length haystack < length needle then None
      else memmatch_loop haystack needle 0 (length haystack - length needle + 1))"

definition string_view_find :: "byte list \<Rightarrow> byte list \<Rightarrow> nat \<Rightarrow> nat option" where
  "string_view_find sp_text s pos =
     (if sp_text = [] \<or> pos > length sp_text then (if sp_text = [] \<and> pos = 0 \<and> s = [] then Some 0 else None)
      else map_option (\<lambda>r. pos + r) (memmatch (drop pos sp_text) s))"

definition string_view_find_char :: "byte list \<Rightarrow> byte \<Rightarrow> nat \<Rightarrow> nat option" where
  "string_view_find_char sp_text c pos =
     (if sp_text = [] \<or> pos \<ge> length sp_text then None else map_option (\<lambda>r. pos + r) (memchr c (drop pos sp_text)))"

definition StrContains :: "byte list \<Rightarrow> byte list \<Rightarrow> bool" where
  "StrContains haystack needle \<longleftrightarrow> string_view_find haystack needle 0 \<noteq> None"

section \<open>Splitting\<close>

definition ByChar_Find :: "byte \<Rightarrow> byte list \<Rightarrow> nat \<Rightarrow> nat \<times> nat" where
  "ByChar_Find c sp_text pos =
     (case string_view_find_char sp_text c pos of None \<Rightarrow> (length sp_text, 0) | Some found_pos \<Rightarrow> (found_pos, min 1 (length sp_text - found_pos)))"

definition SkipEmpty :: "byte list \<Rightarrow> bool" where
  "SkipEmpty sp \<longleftrightarrow> sp \<noteq> []"

datatype split_state = kInitState | kLastState | kEndState

record split_iterator =
  it_pos :: nat
  it_state :: split_state
  it_curr :: "byte list"

lemma find_char_bounds: "string_view_find_char sp_text c pos = Some f \<Longrightarrow> pos \<le> f \<and> f < length sp_text"
  by (auto simp: string_view_find_char_def split: if_splits dest!: memchr_less)

lemma by_char_bounds: "ByChar_Find c sp_text pos = (d, n) \<Longrightarrow> d \<le> length sp_text \<and> (pos \<le> length sp_text \<longrightarrow> pos \<le> d) \<and> (d < length sp_text \<longrightarrow> n = 1)"
  by (auto simp: ByChar_Find_def split: option.splits dest!: find_char_bounds)

text \<open>The increment of the iterator: the loop goes on to the it2 piece that the predicate keeps.\<close>

function split_next :: "byte list \<Rightarrow> byte \<Rightarrow> (byte list \<Rightarrow> bool) \<Rightarrow> split_iterator \<Rightarrow> split_iterator option" where
  "split_next sp_text c predicate it =
     (if it_state it = kLastState then Some (it\<lparr>it_state := kEndState\<rparr>)
      else if it_pos it > length sp_text then None
      else let (d, n) = ByChar_Find c sp_text (it_pos it);
               curr = take (d - it_pos it) (drop (it_pos it) sp_text);
               it = \<lparr>it_pos = it_pos it + length curr + n, it_state = (if d = length sp_text then kLastState else it_state it), it_curr = curr\<rparr>
           in if predicate curr then Some it else split_next sp_text c predicate it)"
  by pat_completeness auto
termination
proof (relation "measure (\<lambda>(sp_text, c, predicate, it). 2 * (length sp_text - it_pos it) + (if it_state it = kLastState then 0 else 1))")
  fix sp_text :: "byte list" and c and predicate :: "byte list \<Rightarrow> bool" and it :: split_iterator and x d n curr it'
  assume *: "it_state it \<noteq> kLastState" "\<not> length sp_text < it_pos it" "x = ByChar_Find c sp_text (it_pos it)" "(d, n) = x"
    "curr = take (d - it_pos it) (drop (it_pos it) sp_text)"
    "it' = \<lparr>it_pos = it_pos it + length curr + n, it_state = (if d = length sp_text then kLastState else it_state it), it_curr = curr\<rparr>"
  have b: "d \<le> length sp_text" "it_pos it \<le> d" "d < length sp_text \<longrightarrow> n = 1" using by_char_bounds [of c sp_text "it_pos it" d n] *(2-4) by auto
  then have "length curr = d - it_pos it" using * by simp
  then show "((sp_text, c, predicate, it'), (sp_text, c, predicate, it)) \<in> measure (\<lambda>(sp_text, c, predicate, it). 2 * (length sp_text - it_pos it) + (if it_state it = kLastState then 0 else 1))"
    using * b by (cases "d = length sp_text") auto
qed simp

declare split_next.simps [simp del]

definition split_begin :: "byte list \<Rightarrow> byte \<Rightarrow> (byte list \<Rightarrow> bool) \<Rightarrow> split_iterator option" where
  "split_begin sp_text c predicate = split_next sp_text c predicate \<lparr>it_pos = 0, it_state = kInitState, it_curr = []\<rparr>"

text \<open>The inner loop of the conversion to a vector fills an array of 16 views; \<open>n\<close> more fit after this one.\<close>

fun fill_views :: "byte list \<Rightarrow> byte \<Rightarrow> (byte list \<Rightarrow> bool) \<Rightarrow> nat \<Rightarrow> split_iterator \<Rightarrow> (byte list list \<times> split_iterator) option" where
  "fill_views sp_text c predicate n it =
     Option.bind (split_next sp_text c predicate it) (\<lambda>it2.
       if n \<noteq> 0 \<and> it_state it2 \<noteq> kEndState
       then map_option (\<lambda>(views, it'). (it_curr it # views, it')) (fill_views sp_text c predicate (n - 1) it2)
       else Some ([it_curr it], it2))"

declare fill_views.simps [simp del]

definition it_measure :: "byte list \<Rightarrow> split_iterator \<Rightarrow> nat" where
  "it_measure sp_text it = 3 * (length sp_text - it_pos it) + (case it_state it of kInitState \<Rightarrow> 2 | kLastState \<Rightarrow> 1 | kEndState \<Rightarrow> 0)"

lemma split_next_decreases:
  "split_next sp_text c predicate it = Some it2 \<Longrightarrow> it_state it \<noteq> kEndState \<Longrightarrow> it_measure sp_text it2 < it_measure sp_text it"
proof (induction sp_text c predicate it rule: split_next.induct)
  case (1 sp_text c predicate it)
  show ?case
  proof (cases "it_state it = kLastState")
    case True
    then show ?thesis using 1(2) by (subst (asm) split_next.simps) (auto simp: it_measure_def)
  next
    case False
    then have init: "it_state it = kInitState" using 1(3) by (cases "it_state it") simp_all
    have pos: "it_pos it \<le> length sp_text" using 1(2) False by (subst (asm) split_next.simps) (auto split: if_splits)
    obtain d n where dn: "ByChar_Find c sp_text (it_pos it) = (d, n)" by (cases "ByChar_Find c sp_text (it_pos it)")
    define curr where "curr = take (d - it_pos it) (drop (it_pos it) sp_text)"
    define it' where "it' = \<lparr>it_pos = it_pos it + length curr + n, it_state = (if d = length sp_text then kLastState else it_state it), it_curr = curr\<rparr>"
    have b: "d \<le> length sp_text" "it_pos it \<le> d" "d < length sp_text \<longrightarrow> n = 1" using by_char_bounds [OF dn] pos by auto
    then have "length curr = d - it_pos it" by (simp add: curr_def)
    then have less: "it_measure sp_text it' < it_measure sp_text it"
      using b init by (cases "d = length sp_text") (auto simp: it_measure_def it'_def)
    have run: "split_next sp_text c predicate it = (if predicate curr then Some it' else split_next sp_text c predicate it')"
      using False pos dn by (subst split_next.simps) (simp add: curr_def it'_def Let_def)
    show ?thesis
    proof (cases "predicate curr")
      case True
      then show ?thesis using 1(2) run less by simp
    next
      case no: False
      have "it_state it' \<noteq> kEndState" using init by (simp add: it'_def)
      then have "it_measure sp_text it2 < it_measure sp_text it'"
        using 1(1) [OF False _ refl dn [symmetric] curr_def it'_def no] pos 1(2) run no by simp
      then show ?thesis using less by simp
    qed
  qed
qed

lemma fill_views_decreases:
  "fill_views sp_text c predicate n it = Some (views, it2) \<Longrightarrow> it_state it \<noteq> kEndState \<Longrightarrow> it_measure sp_text it2 < it_measure sp_text it"
proof (induction n arbitrary: it views)
  case 0
  then show ?case by (subst (asm) fill_views.simps) (auto simp: bind_eq_Some_conv dest: split_next_decreases)
next
  case (Suc n)
  obtain it' where it': "split_next sp_text c predicate it = Some it'"
    using Suc.prems(1) by (subst (asm) fill_views.simps) (auto simp: bind_eq_Some_conv)
  have less: "it_measure sp_text it' < it_measure sp_text it" by (rule split_next_decreases [OF it' Suc.prems(2)])
  show ?case
  proof (cases "it_state it' = kEndState")
    case True
    then show ?thesis using Suc.prems(1) it' less by (subst (asm) fill_views.simps) auto
  next
    case False
    then obtain vs where "fill_views sp_text c predicate n it' = Some (vs, it2)"
      using Suc.prems(1) it' by (subst (asm) fill_views.simps) auto
    from Suc.IH [OF this False] show ?thesis using less by simp
  qed
qed

function split_vector :: "byte list \<Rightarrow> byte \<Rightarrow> (byte list \<Rightarrow> bool) \<Rightarrow> split_iterator \<Rightarrow> byte list list option" where
  "split_vector sp_text c predicate it =
     (if it_state it = kEndState then Some []
      else case fill_views sp_text c predicate 15 it of None \<Rightarrow> None
           | Some (views, it') \<Rightarrow> map_option (\<lambda>v. views @ v) (split_vector sp_text c predicate it'))"
  by pat_completeness auto
termination by (relation "measure (\<lambda>(sp_text, c, predicate, it). it_measure sp_text it)") (auto dest: fill_views_decreases)

declare split_vector.simps [simp del]

definition StrSplit :: "byte list \<Rightarrow> byte \<Rightarrow> (byte list \<Rightarrow> bool) \<Rightarrow> byte list list option" where
  "StrSplit sp_text c predicate = Option.bind (split_begin sp_text c predicate) (split_vector sp_text c predicate)"

section \<open>Joining\<close>

definition memcpy_at :: "nat \<Rightarrow> byte list \<Rightarrow> byte list \<Rightarrow> byte list" where
  "memcpy_at p src buf = take p buf @ src @ drop (p + length src) buf"

text \<open>The bytes of the result that are not yet written are zeros here.\<close>

fun join_copy :: "byte list \<Rightarrow> nat \<Rightarrow> byte list \<Rightarrow> byte list list \<Rightarrow> byte list" where
  "join_copy s p buf [] = buf"
| "join_copy s p buf (t # ts) =
     (let buf = memcpy_at p s buf; p = p + length s; buf = memcpy_at p t buf in join_copy s (p + length t) buf ts)"

definition JoinAlgorithm :: "byte list list \<Rightarrow> byte list \<Rightarrow> byte list" where
  "JoinAlgorithm ss s =
     (case ss of [] \<Rightarrow> []
      | t # ts \<Rightarrow>
          let result_size = foldl (\<lambda>n u. n + length s + length u) (length t) ts
          in if result_size > 0 then join_copy s (length t) (memcpy_at 0 t (replicate result_size 0)) ts else [])"

section \<open>What they compute\<close>

fun str_split :: "byte \<Rightarrow> byte list \<Rightarrow> byte list \<Rightarrow> byte list list" where
  "str_split sep piece [] = [piece]"
| "str_split sep piece (c # cs) = (if c = sep then piece # str_split sep [] cs else str_split sep (piece @ [c]) cs)"

fun str_join :: "byte list \<Rightarrow> byte list list \<Rightarrow> byte list" where
  "str_join sep [] = []"
| "str_join sep [s] = s"
| "str_join sep (s # t # ts) = s @ sep @ str_join sep (t # ts)"

lemma str_join_Cons: "str_join sep (t # ts) = t @ concat (map (\<lambda>u. sep @ u) ts)"
  by (induction ts arbitrary: t) simp_all

lemma join_copy_eq:
  "join_copy s (length acc) (acc @ replicate (length (concat (map (\<lambda>u. s @ u) ts))) 0) ts = acc @ concat (map (\<lambda>u. s @ u) ts)"
proof (induction ts arbitrary: acc)
  case (Cons t ts)
  have "memcpy_at (length acc + length s) t (memcpy_at (length acc) s (acc @ replicate (length (concat (map (\<lambda>u. s @ u) (t # ts)))) 0))
    = (acc @ s @ t) @ replicate (length (concat (map (\<lambda>u. s @ u) ts))) 0"
    by (simp add: memcpy_at_def)
  then show ?case using Cons [of "acc @ s @ t"] by (simp add: Let_def add.assoc)
qed simp

lemma join_size: "foldl (\<lambda>n u. n + length s + length u) k ts = k + length (concat (map (\<lambda>u. s @ u) ts))"
  by (induction ts arbitrary: k) simp_all

lemma JoinAlgorithm_eq: "JoinAlgorithm ss s = str_join s ss"
proof (cases ss)
  case (Cons t ts)
  have "memcpy_at 0 t (replicate (length t + n) 0) = t @ replicate n 0" for n by (simp add: memcpy_at_def)
  then show ?thesis using join_copy_eq [of s t ts]
    by (auto simp: JoinAlgorithm_def Cons str_join_Cons join_size Let_def)
qed (simp add: JoinAlgorithm_def)

lemma memchr_eq: "memchr c xs = (if c \<in> set xs then Some (length (takeWhile (\<lambda>x. x \<noteq> c) xs)) else None)"
  by (induction xs) auto

lemma memmatch_loop_Some: "memmatch_loop haystack needle p hayend = Some m \<Longrightarrow> take (length needle) (drop m haystack) = needle"
proof (induction haystack needle p hayend rule: memmatch_loop.induct)
  case (1 haystack needle p hayend)
  obtain d where d: "memchr (needle ! 0) (take (hayend - p) (drop p haystack)) = Some d"
    using 1(2) by (subst (asm) memmatch_loop.simps) (auto split: option.splits)
  show ?case
  proof (cases "take (length needle) (drop (p + d) haystack) = needle")
    case True
    then show ?thesis using 1(2) d by (subst (asm) memmatch_loop.simps) simp
  next
    case False
    then have "memmatch_loop haystack needle (p + d + 1) hayend = Some m"
      using 1(2) d by (subst (asm) memmatch_loop.simps) simp
    then show ?thesis using 1(1) [OF d refl] False by simp
  qed
qed

lemma memmatch_loop_None:
  "memmatch_loop haystack needle p hayend = None \<Longrightarrow> needle \<noteq> [] \<Longrightarrow> hayend + length needle = Suc (length haystack) \<Longrightarrow>
    p \<le> m \<Longrightarrow> m < hayend \<Longrightarrow> take (length needle) (drop m haystack) \<noteq> needle"
proof (induction haystack needle p hayend rule: memmatch_loop.induct)
  case (1 haystack needle p hayend)
  have first: "needle ! 0 = haystack ! m" if "take (length needle) (drop m haystack) = needle"
  proof -
    have "needle ! 0 = take (length needle) (drop m haystack) ! 0" using that by simp
    also have "\<dots> = haystack ! m" using 1(3-6) by (cases needle) simp_all
    finally show ?thesis .
  qed
  have nth: "take (hayend - p) (drop p haystack) ! (m - p) = haystack ! m" "m - p < length (take (hayend - p) (drop p haystack))"
    using 1(3-6) by (cases needle; simp)+
  show ?case
  proof (cases "memchr (needle ! 0) (take (hayend - p) (drop p haystack))")
    case None
    then have "needle ! 0 \<notin> set (take (hayend - p) (drop p haystack))" by (simp add: memchr_eq split: if_splits)
    then have "needle ! 0 \<noteq> haystack ! m" using nth by (metis nth_mem)
    then show ?thesis using first by metis
  next
    case (Some d)
    then have no: "take (length needle) (drop (p + d) haystack) \<noteq> needle"
      using 1(2) by (subst (asm) memmatch_loop.simps) (auto simp: Let_def)
    then have rest: "memmatch_loop haystack needle (p + d + 1) hayend = None"
      using 1(2) Some by (subst (asm) memmatch_loop.simps) simp
    have d: "d = length (takeWhile (\<lambda>x. x \<noteq> needle ! 0) (take (hayend - p) (drop p haystack)))"
      using Some by (simp add: memchr_eq split: if_splits)
    consider "m < p + d" | "m = p + d" | "p + d < m" by linarith
    then show ?thesis
    proof cases
      case 1
      then have "take (hayend - p) (drop p haystack) ! (m - p) \<noteq> needle ! 0"
        using \<open>p \<le> m\<close> d takeWhile_nth [of "m - p" "\<lambda>x. x \<noteq> needle ! 0" "take (hayend - p) (drop p haystack)"]
          nth_mem [of "m - p" "takeWhile (\<lambda>x. x \<noteq> needle ! 0) (take (hayend - p) (drop p haystack))"] set_takeWhileD by fastforce
      then show ?thesis using first nth by metis
    next
      case 2
      then show ?thesis using no by simp
    next
      case 3
      then show ?thesis using "1.IH" [OF Some refl no rest "1.prems"(2,3)] "1.prems"(5) by simp
    qed
  qed
qed

text \<open>The pieces that are still to come at an iterator, as the current one and those after it\<close>

definition rest_of :: "byte list \<Rightarrow> byte \<Rightarrow> (byte list \<Rightarrow> bool) \<Rightarrow> split_iterator \<Rightarrow> byte list list" where
  "rest_of sp_text c predicate it = (if it_state it = kInitState then filter predicate (str_split c [] (drop (it_pos it) sp_text)) else [])"

definition all_of :: "byte list \<Rightarrow> byte \<Rightarrow> (byte list \<Rightarrow> bool) \<Rightarrow> split_iterator \<Rightarrow> byte list list" where
  "all_of sp_text c predicate it = (if it_state it = kEndState then [] else it_curr it # rest_of sp_text c predicate it)"

definition it_ok :: "byte list \<Rightarrow> split_iterator \<Rightarrow> bool" where
  "it_ok sp_text it \<longleftrightarrow> (it_state it = kInitState \<longrightarrow> it_pos it \<le> length sp_text)"

lemma str_split_piece: "str_split c piece cs = (piece @ hd (str_split c [] cs)) # tl (str_split c [] cs)"
proof (induction cs arbitrary: piece)
  case (Cons x cs)
  show ?case by (simp add: Cons [of "[x]"] Cons [of "piece @ [x]"])
qed simp

lemma str_split_find:
  "str_split c [] cs = (case memchr c cs of None \<Rightarrow> [cs] | Some d \<Rightarrow> take d cs # str_split c [] (drop (Suc d) cs))"
proof (induction cs)
  case (Cons x cs)
  show ?case by (auto simp: str_split_piece [of c "[x]"] Cons split: option.splits)
qed simp

lemma split_next_exact:
  "it_ok sp_text it \<Longrightarrow> it_state it \<noteq> kEndState \<Longrightarrow>
    \<exists>it2. split_next sp_text c predicate it = Some it2 \<and> it_ok sp_text it2 \<and> all_of sp_text c predicate it2 = rest_of sp_text c predicate it"
proof (induction "it_measure sp_text it" arbitrary: it rule: less_induct)
  case less
  show ?case
  proof (cases "it_state it = kLastState")
    case True
    then show ?thesis by (subst split_next.simps) (simp add: it_ok_def all_of_def rest_of_def)
  next
    case False
    then have init: "it_state it = kInitState" using less(3) by (cases "it_state it") simp_all
    have pos: "it_pos it \<le> length sp_text" using less(2) init by (simp add: it_ok_def)
    show ?thesis
    proof (cases "memchr c (drop (it_pos it) sp_text)")
      case None
      define it' where "it' = \<lparr>it_pos = length sp_text, it_state = kLastState, it_curr = drop (it_pos it) sp_text\<rparr>"
      have find: "ByChar_Find c sp_text (it_pos it) = (length sp_text, 0)" using None by (simp add: ByChar_Find_def string_view_find_char_def)
      have run: "split_next sp_text c predicate it = (if predicate (it_curr it') then Some it' else split_next sp_text c predicate it')"
        using False pos find by (subst split_next.simps) (simp add: it'_def Let_def)
      have rest: "rest_of sp_text c predicate it = (if predicate (it_curr it') then [it_curr it'] else [])"
        using None by (simp add: rest_of_def init str_split_find it'_def)
      have last: "split_next sp_text c predicate it' = Some (it'\<lparr>it_state := kEndState\<rparr>)" by (subst split_next.simps) (simp add: it'_def)
      show ?thesis using run rest last by (auto simp: it_ok_def all_of_def rest_of_def it'_def)
    next
      case (Some d)
      define it' where "it' = \<lparr>it_pos = it_pos it + d + 1, it_state = kInitState, it_curr = take d (drop (it_pos it) sp_text)\<rparr>"
      have d: "it_pos it + d < length sp_text" "d < length sp_text - it_pos it" using memchr_less [OF Some] by simp_all
      have find: "ByChar_Find c sp_text (it_pos it) = (it_pos it + d, 1)" using Some d by (auto simp: ByChar_Find_def string_view_find_char_def)
      have run: "split_next sp_text c predicate it = (if predicate (it_curr it') then Some it' else split_next sp_text c predicate it')"
        using False pos find d init by (subst split_next.simps) (simp add: it'_def Let_def min_def)
      have rest: "rest_of sp_text c predicate it = (if predicate (it_curr it') then [it_curr it'] else []) @ rest_of sp_text c predicate it'"
        using Some by (simp add: rest_of_def init str_split_find [of c "drop (it_pos it) sp_text"] it'_def add.commute)
      have ok: "it_ok sp_text it'" "it_state it' \<noteq> kEndState" "it_measure sp_text it' < it_measure sp_text it"
        using d init by (simp_all add: it_ok_def it'_def it_measure_def)
      show ?thesis using run rest less(1) [OF ok(3,1,2)] ok by (cases "predicate (it_curr it')") (simp_all add: all_of_def)
    qed
  qed
qed

lemma fill_views_exact:
  "it_ok sp_text it \<Longrightarrow> it_state it \<noteq> kEndState \<Longrightarrow>
    \<exists>views it2. fill_views sp_text c predicate n it = Some (views, it2) \<and> it_ok sp_text it2 \<and>
      all_of sp_text c predicate it = views @ all_of sp_text c predicate it2"
proof (induction n arbitrary: it)
  case 0
  obtain it2 where "split_next sp_text c predicate it = Some it2" "it_ok sp_text it2" "all_of sp_text c predicate it2 = rest_of sp_text c predicate it"
    using split_next_exact [OF 0] by blast
  then show ?case using 0(2) by (subst fill_views.simps) (simp add: all_of_def)
next
  case (Suc n)
  obtain it2 where it2: "split_next sp_text c predicate it = Some it2" "it_ok sp_text it2" "all_of sp_text c predicate it2 = rest_of sp_text c predicate it"
    using split_next_exact [OF Suc.prems] by blast
  have all: "all_of sp_text c predicate it = it_curr it # all_of sp_text c predicate it2" using it2 Suc.prems(2) by (simp add: all_of_def)
  show ?case
  proof (cases "it_state it2 = kEndState")
    case True
    then show ?thesis using it2 all by (subst fill_views.simps) simp
  next
    case False
    obtain views it3 where "fill_views sp_text c predicate n it2 = Some (views, it3)" "it_ok sp_text it3"
      "all_of sp_text c predicate it2 = views @ all_of sp_text c predicate it3"
      using Suc.IH [OF it2(2) False] by blast
    then show ?thesis using it2(1) False all by (subst fill_views.simps) simp
  qed
qed

lemma split_vector_exact:
  "it_ok sp_text it \<Longrightarrow> split_vector sp_text c predicate it = Some (all_of sp_text c predicate it)"
proof (induction "it_measure sp_text it" arbitrary: it rule: less_induct)
  case less
  show ?case
  proof (cases "it_state it = kEndState")
    case True
    then show ?thesis by (subst split_vector.simps) (simp add: all_of_def)
  next
    case False
    obtain views it2 where *: "fill_views sp_text c predicate 15 it = Some (views, it2)" "it_ok sp_text it2"
      "all_of sp_text c predicate it = views @ all_of sp_text c predicate it2"
      using fill_views_exact [OF less(2) False] by blast
    have "split_vector sp_text c predicate it2 = Some (all_of sp_text c predicate it2)"
      using less(1) [OF fill_views_decreases [OF *(1) False] *(2)] .
    then show ?thesis using * False by (subst split_vector.simps) simp
  qed
qed

lemma StrSplit_eq: "StrSplit sp_text c predicate = Some (filter predicate (str_split c [] sp_text))"
proof -
  define it where "it = \<lparr>it_pos = 0, it_state = kInitState, it_curr = ([] :: byte list)\<rparr>"
  have "it_ok sp_text it" "it_state it \<noteq> kEndState" by (simp_all add: it_def it_ok_def)
  then obtain it2 where "split_next sp_text c predicate it = Some it2" "it_ok sp_text it2" "all_of sp_text c predicate it2 = rest_of sp_text c predicate it"
    using split_next_exact by blast
  then show ?thesis by (simp add: StrSplit_def split_begin_def it_def [symmetric] split_vector_exact) (simp add: rest_of_def it_def)
qed

lemma StrContains_iff: "needle \<noteq> [] \<Longrightarrow> StrContains haystack needle \<longleftrightarrow> (\<exists>u v. haystack = u @ needle @ v)"
proof -
  assume ne: "needle \<noteq> []"
  have "StrContains haystack needle \<longleftrightarrow> memmatch haystack needle \<noteq> None"
    using ne by (simp add: StrContains_def string_view_find_def) (auto simp: memmatch_def)
  also have "\<dots> \<longleftrightarrow> (\<exists>u v. haystack = u @ needle @ v)"
  proof (cases "length haystack < length needle")
    case True
    then show ?thesis using ne by (auto simp: memmatch_def)
  next
    case False
    define e where "e = length haystack - length needle + 1"
    have run: "memmatch haystack needle = memmatch_loop haystack needle 0 e" using False ne by (simp add: memmatch_def e_def)
    show ?thesis
    proof
      assume "memmatch haystack needle \<noteq> None"
      then obtain m where "memmatch_loop haystack needle 0 e = Some m" using run by auto
      then have "take (length needle) (drop m haystack) = needle" by (rule memmatch_loop_Some)
      then have "haystack = take m haystack @ needle @ drop (length needle) (drop m haystack)" by (metis append_take_drop_id)
      then show "\<exists>u v. haystack = u @ needle @ v" by blast
    next
      assume "\<exists>u v. haystack = u @ needle @ v"
      then obtain u v where uv: "haystack = u @ needle @ v" by blast
      then have "take (length needle) (drop (length u) haystack) = needle" "length u < e" by (simp_all add: e_def)
      moreover have "e + length needle = Suc (length haystack)" using False by (simp add: e_def)
      ultimately show "memmatch haystack needle \<noteq> None"
        using memmatch_loop_None [of haystack needle 0 e "length u"] ne run by auto
    qed
  qed
  finally show ?thesis .
qed

end
