(* ===== verification/Document_Key.thy ===== *)
theory Document_Key
  imports Sorted_Map_Properties Absl_Strings
begin

text \<open>
  Paths and document keys of Firestore (\<open>Firestore/core/src/model/base_path.h\<close>, \<open>resource_path.cc\<close>,
  \<open>document_key.cc\<close>). A path is the list of its segments, and a document key the path it points to; a failed assertion
  and an exception are \<open>None\<close>. The hash functions and the formatting of error messages are not modelled.
\<close>

section \<open>Paths\<close>

type_synonym path = "byte list list"

definition path_at :: "path \<Rightarrow> nat \<Rightarrow> byte list option" where
  "path_at p i = (if i < length p then Some (p ! i) else None)"

definition first_segment :: "path \<Rightarrow> byte list option" where
  "first_segment p = (if length p \<noteq> 0 then Some (p ! 0) else None)"

definition last_segment :: "path \<Rightarrow> byte list option" where
  "last_segment p = (if length p \<noteq> 0 then Some (p ! (length p - 1)) else None)"

definition Append_segment :: "path \<Rightarrow> byte list \<Rightarrow> path" where
  "Append_segment p segment = p @ [segment]"

definition Append_path :: "path \<Rightarrow> path \<Rightarrow> path" where
  "Append_path p q = p @ q"

definition PopFirst :: "nat \<Rightarrow> path \<Rightarrow> path option" where
  "PopFirst n p = (if n \<le> length p then Some (drop n p) else None)"

definition PopLast :: "path \<Rightarrow> path option" where
  "PopLast p = (if length p \<noteq> 0 then Some (take (length p - 1) p) else None)"

definition IsPrefixOf :: "path \<Rightarrow> path \<Rightarrow> bool" where
  "IsPrefixOf p rhs \<longleftrightarrow> length p \<le> length rhs \<and> list_all2 (=) p (take (length p) rhs)"

definition IsImmediateParentOf :: "path \<Rightarrow> path \<Rightarrow> bool" where
  "IsImmediateParentOf p potential_child \<longleftrightarrow> length p + 1 = length potential_child \<and> list_all2 (=) p (take (length p) potential_child)"

definition path_CompareTo :: "path cmp" where
  "path_CompareTo = CompareContainer Comparator_string"

text \<open>\<open>None\<close> is the exception \<open>InvalidArgument\<close>.\<close>

definition FromStringView :: "byte list \<Rightarrow> path option" where
  "FromStringView s = (if StrContains s [0x2F, 0x2F] then None else StrSplit s 0x2F SkipEmpty)"

definition CanonicalString :: "path \<Rightarrow> byte list" where
  "CanonicalString p = JoinAlgorithm p [0x2F]"

section \<open>Document keys\<close>

type_synonym document_key = path

definition key_Empty :: document_key where
  "key_Empty = []"

definition IsDocumentKey :: "path \<Rightarrow> bool" where
  "IsDocumentKey p \<longleftrightarrow> length p mod 2 = 0"

text \<open>The constructor from a path asserts that the path is valid.\<close>

definition make_DocumentKey :: "path \<Rightarrow> document_key option" where
  "make_DocumentKey p = (if IsDocumentKey p then Some p else None)"

definition FromPathString :: "byte list \<Rightarrow> document_key option" where
  "FromPathString s = Option.bind (FromStringView s) make_DocumentKey"

definition bytes_of :: "string \<Rightarrow> byte list" where
  "bytes_of s = map of_char s"

definition FromName :: "byte list \<Rightarrow> document_key option" where
  "FromName name = Option.bind (FromStringView name) (\<lambda>p.
     if length p > 4 \<and> path_at p 0 = Some (bytes_of ''projects'') \<and> path_at p 2 = Some (bytes_of ''databases'') \<and> path_at p 4 = Some (bytes_of ''documents'')
     then Option.bind (PopFirst 5 p) make_DocumentKey
     else None)"

definition key_CompareTo :: "document_key cmp" where
  "key_CompareTo l r = path_CompareTo l r"

definition GetCollectionGroup :: "document_key \<Rightarrow> byte list option" where
  "GetCollectionGroup k = (let sz = length k in if sz < 2 then None else path_at k (sz - 2))"

definition HasCollectionGroup :: "byte list \<Rightarrow> document_key \<Rightarrow> bool" where
  "HasCollectionGroup collection_group k = (case GetCollectionGroup k of None \<Rightarrow> False | Some g \<Rightarrow> g = collection_group)"

section \<open>Paths are ordered and printed faithfully\<close>

interpretation path_order: strict_comparator path_CompareTo
  unfolding path_CompareTo_def
proof (rule strict_comparator.intro)
  show "comparator (CompareContainer Comparator_string)" by (rule string_order.container_comparator)
  show "strict_comparator_axioms (CompareContainer Comparator_string)"
    by unfold_locales (rule string_order.container_same)
qed

lemma key_order_eq: "key_CompareTo = path_CompareTo"
  by (simp add: key_CompareTo_def fun_eq_iff)

interpretation key_order: strict_comparator key_CompareTo
  unfolding key_order_eq by (rule path_order.strict_comparator_axioms)

definition segment_ok :: "byte list \<Rightarrow> bool" where
  "segment_ok s \<longleftrightarrow> s \<noteq> [] \<and> 0x2F \<notin> set s"

fun has_sub :: "byte list \<Rightarrow> byte list \<Rightarrow> bool" where
  "has_sub [] needle \<longleftrightarrow> needle = []"
| "has_sub (c # cs) needle \<longleftrightarrow> take (length needle) (c # cs) = needle \<or> has_sub cs needle"

lemma has_sub_iff: "has_sub s needle \<longleftrightarrow> (\<exists>u v. s = u @ needle @ v)"
proof (induction s)
  case (Cons c cs)
  have "(\<exists>u v. c # cs = u @ needle @ v) \<longleftrightarrow> (\<exists>v. c # cs = needle @ v) \<or> (\<exists>u v. cs = u @ needle @ v)"
    by (metis append_Cons append_Nil append_eq_Cons_conv)
  moreover have "(\<exists>v. c # cs = needle @ v) \<longleftrightarrow> take (length needle) (c # cs) = needle"
    by (metis append_eq_conv_conj)
  ultimately show ?case using Cons by simp
qed simp

lemma contains_double: "StrContains s [0x2F, 0x2F] \<longleftrightarrow> has_sub s [0x2F, 0x2F]"
  by (simp add: StrContains_iff has_sub_iff)

lemma from_string: "FromStringView s = (if has_sub s [0x2F, 0x2F] then None else Some (filter (\<lambda>p. p \<noteq> []) (str_split 0x2F [] s)))"
proof -
  have "SkipEmpty = (\<lambda>p. p \<noteq> [])" by (simp add: fun_eq_iff SkipEmpty_def)
  then show ?thesis by (simp add: FromStringView_def contains_double StrSplit_eq)
qed

lemma canonical_eq: "CanonicalString p = str_join [0x2F] p"
  by (simp add: CanonicalString_def JoinAlgorithm_eq)

lemma split_plain: "sep \<notin> set s \<Longrightarrow> str_split sep piece (s @ rest) = str_split sep (piece @ s) rest"
  by (induction s arbitrary: piece) auto

lemma split_join: "\<forall>s\<in>set p. segment_ok s \<Longrightarrow> filter (\<lambda>s. s \<noteq> []) (str_split 0x2F [] (str_join [0x2F] p)) = p"
proof (induction "[0x2F] :: byte list" p rule: str_join.induct)
  case (2 s)
  then show ?case using split_plain [of "0x2F" s "[]" "[]"] by (simp add: segment_ok_def)
next
  case (3 s t ts)
  then show ?case using split_plain [of "0x2F" s "[]" "0x2F # str_join [0x2F] (t # ts)"] by (simp add: segment_ok_def)
qed simp

lemma contains_append: "0x2F \<notin> set s \<Longrightarrow> s \<noteq> [] \<Longrightarrow> has_sub (s @ 0x2F # rest) [0x2F, 0x2F] \<longleftrightarrow> (rest \<noteq> [] \<and> hd rest = (0x2F :: byte)) \<or> has_sub rest [0x2F, 0x2F]"
proof (induction s)
  case (Cons c s)
  then show ?case by (cases s; cases rest) auto
qed simp

lemma contains_plain: "0x2F \<notin> set s \<Longrightarrow> \<not> has_sub s [0x2F, 0x2F :: byte]"
  by (induction s) (auto simp: take_Cons')

lemma join_head: "\<forall>s\<in>set p. segment_ok s \<Longrightarrow> p \<noteq> [] \<Longrightarrow> str_join [0x2F] p \<noteq> [] \<and> hd (str_join [0x2F] p) \<noteq> 0x2F"
proof (cases p)
  case (Cons s ts)
  assume "\<forall>s\<in>set p. segment_ok s"
  then have "s \<noteq> []" "hd s \<noteq> 0x2F" using Cons by (cases s; auto simp: segment_ok_def)+
  then show ?thesis using Cons by (cases ts) simp_all
qed simp

lemma join_no_double: "\<forall>s\<in>set p. segment_ok s \<Longrightarrow> \<not> has_sub (str_join [0x2F] p) [0x2F, 0x2F]"
proof (induction "[0x2F] :: byte list" p rule: str_join.induct)
  case (2 s)
  then show ?case by (simp add: segment_ok_def contains_plain)
next
  case (3 s t ts)
  then show ?case using join_head [of "t # ts"] by (simp add: segment_ok_def contains_append)
qed simp

lemma split_pieces: "s \<in> set (str_split sep piece cs) \<Longrightarrow> sep \<notin> set piece \<Longrightarrow> sep \<notin> set s"
  by (induction sep piece cs rule: str_split.induct) (auto split: if_splits)

lemma split_reads:
  "\<not> has_sub s [0x2F, 0x2F] \<Longrightarrow> s = [] \<or> hd s \<noteq> 0x2F \<Longrightarrow> q = filter (\<lambda>p. p \<noteq> []) (str_split 0x2F [] s) \<Longrightarrow>
    \<exists>b\<in>{[], [0x2F]}. s = str_join [0x2F] q @ b \<and> (q = [] \<longrightarrow> s = [])"
proof (induction "length s" arbitrary: s q rule: less_induct)
  case less
  show ?case
  proof (cases "memchr 0x2F s")
    case None
    then show ?thesis using less(4) by (cases "s = []") (simp_all add: str_split_find)
  next
    case (Some d)
    define p rest where "p = take d s" and "rest = drop (Suc d) s"
    define q' where "q' = filter (\<lambda>p. p \<noteq> []) (str_split 0x2F [] rest)"
    have d: "d < length s" "s ! d = 0x2F" using memchr_less [OF Some] Some nth_length_takeWhile [of "\<lambda>x. x \<noteq> 0x2F" s]
      by (auto simp: memchr_eq split: if_splits)
    have s: "s = p @ 0x2F # rest" using d(2) id_take_nth_drop [OF d(1)] by (simp add: p_def rest_def)
    have p: "p \<noteq> []" using s less(3) by auto
    have q: "q = p # q'" using less(4) Some p by (simp add: str_split_find [of _ s] q'_def p_def rest_def)
    have sub: "\<not> (\<exists>u v. s = u @ [0x2F, 0x2F] @ v)" using less(2) by (simp add: has_sub_iff)
    have "\<not> has_sub rest [0x2F, 0x2F]"
    proof
      assume "has_sub rest [0x2F, 0x2F]"
      then obtain u v where "rest = u @ [0x2F, 0x2F] @ v" by (auto simp: has_sub_iff)
      then have "s = (p @ 0x2F # u) @ [0x2F, 0x2F] @ v" using s by simp
      then show False using sub by blast
    qed
    moreover have hd: "rest = [] \<or> hd rest \<noteq> 0x2F"
    proof (rule ccontr)
      assume "\<not> (rest = [] \<or> hd rest \<noteq> 0x2F)"
      then have "s = p @ [0x2F, 0x2F] @ tl rest" using s by (cases rest) simp_all
      then show False using sub by blast
    qed
    moreover have "length rest < length s" using s by simp
    ultimately have "\<exists>b\<in>{[], [0x2F]}. rest = str_join [0x2F] q' @ b \<and> (q' = [] \<longrightarrow> rest = [])"
      using less(1) q'_def by blast
    then obtain b where b: "b \<in> {[], [0x2F]}" "rest = str_join [0x2F] q' @ b" "q' = [] \<longrightarrow> rest = []" by blast
    show ?thesis
    proof (cases q')
      case Nil
      then show ?thesis using s q b(3) by simp
    next
      case (Cons t ts)
      then show ?thesis using s q b(1,2) by auto
    qed
  qed
qed

lemma split_text:
  assumes "\<not> has_sub s [0x2F, 0x2F]"
  shows "\<exists>a\<in>{[], [0x2F]}. \<exists>b\<in>{[], [0x2F]}. s = a @ str_join [0x2F] (filter (\<lambda>p. p \<noteq> []) (str_split 0x2F [] s)) @ b"
proof (cases "s = [] \<or> hd s \<noteq> 0x2F")
  case True
  then show ?thesis using split_reads [OF assms True refl] by auto
next
  case False
  then obtain t where s: "s = 0x2F # t" by (cases s) simp_all
  have "\<not> has_sub t [0x2F, 0x2F]" using assms s by simp
  moreover have "t = [] \<or> hd t \<noteq> 0x2F" using assms s by (cases t) auto
  ultimately obtain b where "b \<in> {[], [0x2F]}" "t = str_join [0x2F] (filter (\<lambda>p. p \<noteq> []) (str_split 0x2F [] t)) @ b"
    using split_reads [OF _ _ refl, of t] by blast
  then show ?thesis using s by auto
qed

text \<open>C13. A path of proper segments is read back from its canonical string. A string is refused exactly when it has two slashes
  in a row; every other string is the canonical string of the path read, up to one slash before it and one after it, so reading,
  printing and reading again changes nothing.\<close>

theorem path_roundtrip:
  "(FromStringView (CanonicalString p) = Some p \<longleftrightarrow> (\<forall>s\<in>set p. segment_ok s)) \<and>
   (FromStringView s = None \<longleftrightarrow> (\<exists>u v. s = u @ [0x2F, 0x2F] @ v)) \<and>
   (\<forall>q. FromStringView s = Some q \<longrightarrow> FromStringView (CanonicalString q) = Some q \<and>
     (\<exists>a\<in>{[], [0x2F]}. \<exists>b\<in>{[], [0x2F]}. s = a @ CanonicalString q @ b))"
proof -
  have ok: "\<forall>s\<in>set q. segment_ok s" if "FromStringView str = Some q" for str q
    using that split_pieces [of _ "0x2F" "[]" str] by (auto simp: from_string segment_ok_def split: if_splits)
  have again: "FromStringView (CanonicalString q) = Some q" if "\<forall>s\<in>set q. segment_ok s" for q
    using split_join [OF that] join_no_double [OF that] by (simp add: from_string canonical_eq)
  have none: "FromStringView s = None \<longleftrightarrow> (\<exists>u v. s = u @ [0x2F, 0x2F] @ v)" by (simp add: from_string has_sub_iff)
  have reads: "\<exists>a\<in>{[], [0x2F]}. \<exists>b\<in>{[], [0x2F]}. s = a @ CanonicalString q @ b" if "FromStringView s = Some q" for q
  proof -
    have "\<not> has_sub s [0x2F, 0x2F]" "q = filter (\<lambda>p. p \<noteq> []) (str_split 0x2F [] s)"
      using that by (auto simp: from_string split: if_splits)
    then show ?thesis using split_text by (simp only: canonical_eq simp_thms)
  qed
  show ?thesis using ok again none reads by blast
qed

lemma path_roundtrip_witness:
  "FromStringView (CanonicalString [[0x61], [0x62, 0x63]]) = Some [[0x61], [0x62, 0x63]] \<and>
   FromStringView [0x61, 0x2F, 0x2F] = None"
proof -
  have "[0x61, 0x2F, 0x2F] = [0x61] @ [0x2F, 0x2F :: byte] @ []" by simp
  then have "\<exists>u v. [0x61, 0x2F, 0x2F] = u @ [0x2F, 0x2F :: byte] @ v" by blast
  then show ?thesis using path_roundtrip [of "[[0x61], [0x62, 0x63]]" "[0x61, 0x2F, 0x2F]"] by (simp add: segment_ok_def)
qed

end
