(* ===== verification/Reference_Set.thy ===== *)
theory Reference_Set
  imports Document_Key
begin

text \<open>
  The sorted sets of Firestore (\<open>immutable/sorted_set.h\<close>) and their client that tracks which documents are referenced by
  which target or batch (\<open>local/reference_set.cc\<close>, \<open>document_key_reference.cc\<close>).
\<close>

section \<open>Sorted sets\<close>

text \<open>A set is a map to the empty type, here \<open>unit\<close>.\<close>

type_synonym 'k sorted_set = "('k, unit) sorted_map"

definition ss_insert :: "'k cmp \<Rightarrow> 'k \<Rightarrow> 'k sorted_set \<Rightarrow> 'k sorted_set option" where
  "ss_insert cmp k s = sm_insert cmp k () s"

definition ss_erase :: "'k cmp \<Rightarrow> 'k \<Rightarrow> 'k sorted_set \<Rightarrow> 'k sorted_set option" where
  "ss_erase cmp k s = sm_erase cmp k s"

definition ss_contains :: "'k cmp \<Rightarrow> 'k \<Rightarrow> 'k sorted_set \<Rightarrow> bool" where
  "ss_contains cmp k s = sm_contains cmp k s"

definition ss_find_index :: "'k cmp \<Rightarrow> 'k \<Rightarrow> 'k sorted_set \<Rightarrow> u32" where
  "ss_find_index cmp k s = sm_find_index cmp k s"

definition ss_size :: "'k sorted_set \<Rightarrow> u32" where
  "ss_size s = sm_size s"

definition ss_values :: "'k sorted_set \<Rightarrow> 'k list option" where
  "ss_values s = sm_keys s"

definition ss_values_from :: "'k cmp \<Rightarrow> 'k \<Rightarrow> 'k sorted_set \<Rightarrow> ('k, unit) map_iter \<times> ('k, unit) map_iter" where
  "ss_values_from cmp k s = KeysViewFrom cmp k s"

definition ss_values_in :: "'k cmp \<Rightarrow> 'k \<Rightarrow> 'k \<Rightarrow> 'k sorted_set \<Rightarrow> ('k, unit) map_iter \<times> ('k, unit) map_iter" where
  "ss_values_in cmp j k s = KeysViewIn cmp j k s"

text \<open>A loop whose body may fail\<close>

fun fold_option :: "('a \<Rightarrow> 's \<Rightarrow> 's option) \<Rightarrow> 'a list \<Rightarrow> 's \<Rightarrow> 's option" where
  "fold_option f [] s = Some s"
| "fold_option f (x # xs) s = Option.bind (f x s) (fold_option f xs)"

definition ss_create :: "'k cmp \<Rightarrow> 'k list \<Rightarrow> 'k sorted_set option" where
  "ss_create cmp entries = fold_option (ss_insert cmp) entries sm_empty"

definition union_with :: "'k cmp \<Rightarrow> 'k sorted_set \<Rightarrow> 'k sorted_set \<Rightarrow> 'k sorted_set option" where
  "union_with cmp s other =
     (let (result, other) = (if ss_size s < ss_size other then (other, s) else (s, other))
      in Option.bind (ss_values other) (\<lambda>ks. fold_option (ss_insert cmp) ks result))"

text \<open>A set of the keys of a map, which are given in the order a loop sees them\<close>

definition FromKeysOf :: "'k cmp \<Rightarrow> ('k, 'v) sorted_map \<Rightarrow> 'k sorted_set option" where
  "FromKeysOf cmp m = Option.bind (sm_keys m) (\<lambda>ks. fold_option (ss_insert cmp) ks sm_empty)"

definition ss_eq :: "'k sorted_set \<Rightarrow> 'k sorted_set \<Rightarrow> bool" where
  "ss_eq lhs rhs \<longleftrightarrow> ss_size lhs = ss_size rhs \<and> ss_values lhs = ss_values rhs"

section \<open>References\<close>

record DocumentKeyReference =
  ref_key :: document_key
  ref_id :: "32 word"

definition ByKey :: "DocumentKeyReference cmp" where
  "ByKey lhs rhs =
     (let result = key_CompareTo (ref_key lhs) (ref_key rhs)
      in if result \<noteq> Same then result else Comparator_int32 (ref_id lhs) (ref_id rhs))"

definition ById :: "DocumentKeyReference cmp" where
  "ById lhs rhs =
     (let result = Comparator_int32 (ref_id lhs) (ref_id rhs)
      in if result \<noteq> Same then result else key_CompareTo (ref_key lhs) (ref_key rhs))"

definition make_reference :: "document_key \<Rightarrow> 32 word \<Rightarrow> DocumentKeyReference" where
  "make_reference key i = \<lparr>ref_key = key, ref_id = i\<rparr>"

record reference_set =
  by_key :: "DocumentKeyReference sorted_set"
  by_id :: "DocumentKeyReference sorted_set"

definition rs_new :: reference_set where
  "rs_new = \<lparr>by_key = sm_empty, by_id = sm_empty\<rparr>"

definition rs_size :: "reference_set \<Rightarrow> u64" where
  "rs_size R = ucast (ss_size (by_key R))"

definition rs_empty :: "reference_set \<Rightarrow> bool" where
  "rs_empty R \<longleftrightarrow> sm_is_empty (by_key R)"

definition AddReference :: "document_key \<Rightarrow> 32 word \<Rightarrow> reference_set \<Rightarrow> reference_set option" where
  "AddReference key i R =
     (let reference = make_reference key i
      in Option.bind (ss_insert ByKey reference (by_key R)) (\<lambda>k.
         Option.bind (ss_insert ById reference (by_id R)) (\<lambda>d. Some (R\<lparr>by_key := k, by_id := d\<rparr>))))"

definition AddReferences :: "document_key sorted_set \<Rightarrow> 32 word \<Rightarrow> reference_set \<Rightarrow> reference_set option" where
  "AddReferences keys i R = Option.bind (ss_values keys) (\<lambda>ks. fold_option (\<lambda>key. AddReference key i) ks R)"

definition remove_reference :: "DocumentKeyReference \<Rightarrow> reference_set \<Rightarrow> reference_set option" where
  "remove_reference reference R =
     Option.bind (ss_erase ByKey reference (by_key R)) (\<lambda>k.
     Option.bind (ss_erase ById reference (by_id R)) (\<lambda>d. Some (R\<lparr>by_key := k, by_id := d\<rparr>)))"

definition RemoveReference :: "document_key \<Rightarrow> 32 word \<Rightarrow> reference_set \<Rightarrow> reference_set option" where
  "RemoveReference key i R = remove_reference (make_reference key i) R"

definition RemoveReferences_of_keys :: "document_key sorted_set \<Rightarrow> 32 word \<Rightarrow> reference_set \<Rightarrow> reference_set option" where
  "RemoveReferences_of_keys keys i R = Option.bind (ss_values keys) (\<lambda>ks. fold_option (\<lambda>key. RemoveReference key i) ks R)"

text \<open>The sum \<open>id + 1\<close> wraps here; in the code its overflow is undefined.\<close>

definition references_of :: "32 word \<Rightarrow> reference_set \<Rightarrow> DocumentKeyReference list option" where
  "references_of i R =
     (let start = make_reference key_Empty i; stop = make_reference key_Empty (i + 1)
      in keys_of (ss_values_in ById start stop (by_id R)))"

definition RemoveReferences :: "32 word \<Rightarrow> reference_set \<Rightarrow> (document_key sorted_set \<times> reference_set) option" where
  "RemoveReferences i R =
     Option.bind (references_of i R) (\<lambda>refs.
     fold_option (\<lambda>reference (removed, R).
         Option.bind (remove_reference reference R) (\<lambda>R.
         Option.bind (ss_insert key_CompareTo (ref_key reference) removed) (\<lambda>removed. Some (removed, R))))
       refs (sm_empty, R))"

definition RemoveAllReferences :: "reference_set \<Rightarrow> reference_set option" where
  "RemoveAllReferences R = Option.bind (ss_values (by_key R)) (\<lambda>refs. fold_option remove_reference refs R)"

definition ReferencedKeys :: "32 word \<Rightarrow> reference_set \<Rightarrow> document_key sorted_set option" where
  "ReferencedKeys i R =
     Option.bind (references_of i R) (\<lambda>refs. fold_option (\<lambda>reference. ss_insert key_CompareTo (ref_key reference)) refs sm_empty)"

text \<open>The element at the beginning of the range is looked at only if there is one.\<close>

definition ContainsKey :: "document_key \<Rightarrow> reference_set \<Rightarrow> bool" where
  "ContainsKey key R =
     (let (first, stop) = ss_values_from ByKey (make_reference key 0) (by_key R)
      in \<not> iter_eq first stop \<and> (case iter_get first of None \<Rightarrow> False | Some e \<Rightarrow> ref_key (fst e) = key))"

section \<open>Sorted sets refine sets\<close>

definition elems :: "'k sorted_set \<Rightarrow> 'k set" where
  "elems s = set (map fst (sm_entries s))"

lemma elems_empty [simp]: "elems sm_empty = {}"
  by (simp add: elems_def)

context strict_comparator
begin

lemma put_set: "ascending Compare xs \<Longrightarrow> fst ` set (put_entry Compare keep k v xs) = insert k (fst ` set xs)"
proof -
  assume a: "ascending Compare xs"
  have "fst ` set xs = fst ` set (below Compare k xs @ equal_to Compare k xs @ above Compare k xs)"
    using split_parts [OF a, of k] by simp
  moreover have "fst ` set (equal_to Compare k xs) \<subseteq> {k}" by (auto simp: equal_to_def)
  ultimately show ?thesis unfolding put_strict [OF a] by auto
qed

lemma elems_card: "sm_ok Compare s \<Longrightarrow> length (sm_entries s) = card (elems s)"
  using distinct_card [OF ascending_distinct [OF sm_ascending]] by (metis elems_def length_map)

lemma ss_insert_ok:
  assumes "sm_ok Compare s" and "card (elems s) < max_entries"
  shows "\<exists>s'. ss_insert Compare k s = Some s' \<and> sm_ok Compare s' \<and> elems s' = insert k (elems s)"
proof -
  have "length (sm_entries s) < max_entries" using assms elems_card by simp
  from sm_insert_put [OF assms(1) this, of k "()"] obtain s' keep where "sm_insert Compare k () s = Some s'" "sm_ok Compare s'"
      "sm_entries s' = put_entry Compare keep k () (sm_entries s)" by blast
  then show ?thesis using put_set [OF sm_ascending [OF assms(1)]] by (simp add: ss_insert_def elems_def)
qed

lemma ss_erase_ok:
  assumes "sm_ok Compare s"
  shows "\<exists>s'. ss_erase Compare k s = Some s' \<and> sm_ok Compare s' \<and> elems s' = elems s - {k}"
proof -
  from sm_erase_drop [OF assms, of k] obtain s' where "sm_erase Compare k s = Some s'" "sm_ok Compare s'"
      "sm_entries s' = drop_entry Compare k (sm_entries s)" by blast
  then show ?thesis by (auto simp: ss_erase_def elems_def drop_entry_def)
qed

lemma ss_values_ok: "sm_ok Compare s \<Longrightarrow> \<exists>ks. ss_values s = Some ks \<and> set ks = elems s \<and> distinct ks \<and> sorted_wrt (\<lambda>a b. Compare a b = Ascending) ks"
  by (simp add: keys_all ascending_distinct key_list sm_ascending ss_values_def elems_def)

lemma ss_values_in_ok: "sm_ok Compare s \<Longrightarrow> \<exists>ks. keys_of (ss_values_in Compare j k s) = Some ks \<and> distinct ks \<and>
    set ks = {x \<in> elems s. Compare x j \<noteq> Ascending \<and> Compare x k = Ascending}"
proof -
  assume ok: "sm_ok Compare s"
  have "distinct (map fst (filter (\<lambda>e. Compare (fst e) j \<noteq> Ascending \<and> Compare (fst e) k = Ascending) (sm_entries s)))"
    using ascending_distinct [OF sm_ascending [OF ok]] by (rule distinct_map_filter)
  then show ?thesis unfolding ss_values_in_def keys_in [OF ok] below_from by (auto simp: elems_def)
qed

lemma ss_first_from:
  assumes "sm_ok Compare s"
  shows "(\<exists>x. iter_get (sm_lower_bound Compare k s) = Some (x, ()) \<and> \<not> iter_eq (sm_lower_bound Compare k s) (sm_end s) \<and>
      x \<in> elems s \<and> Compare x k \<noteq> Ascending \<and> (\<forall>y\<in>elems s. Compare y k \<noteq> Ascending \<longrightarrow> Compare y x \<noteq> Ascending)) \<or>
    iter_eq (sm_lower_bound Compare k s) (sm_end s) \<and> (\<forall>y\<in>elems s. Compare y k = Ascending)"
proof -
  define i where "i = length (below Compare k (sm_entries s))"
  have asc: "ascending Compare (sm_entries s)" by (rule sm_ascending [OF assms])
  have pos: "at_pos s (sm_lower_bound Compare k s) i" unfolding i_def by (rule lower_bound_pos [OF assms])
  have rest: "drop i (sm_entries s) = from_key Compare k (sm_entries s)" unfolding i_def by (rule array_parts(2) [OF asc])
  note eq = at_eq [OF asc refl pos end_pos]
  show ?thesis
  proof (cases "from_key Compare k (sm_entries s)")
    case Nil
    then have "i = length (sm_entries s)" using rest pos by (simp add: at_pos_def)
    moreover have "\<forall>y\<in>elems s. Compare y k = Ascending" using Nil by (auto simp: from_key_def filter_empty_conv elems_def)
    ultimately show ?thesis using eq by blast
  next
    case (Cons e es)
    then have i: "i < length (sm_entries s)" "sm_entries s ! i = e" using rest by (metis drop_eq_Nil2 list.distinct(1) not_le, simp add: nth_via_drop)
    have "e \<in> set (from_key Compare k (sm_entries s))" using Cons by simp
    then have e: "e \<in> set (sm_entries s)" "Compare (fst e) k \<noteq> Ascending" by (simp_all add: from_key_def)
    have "ascending Compare (e # es)" using asc unfolding Cons [symmetric] from_key_def by (rule ascending_filter)
    then have "Compare y (fst e) \<noteq> Ascending" if y: "y \<in> elems s" "Compare y k \<noteq> Ascending" for y
    proof -
      obtain f where "f \<in> set (sm_entries s)" "fst f = y" using y(1) unfolding elems_def set_map by blast
      then have "f \<in> set (e # es)" using y(2) unfolding Cons [symmetric] by (simp add: from_key_def)
      then show ?thesis using \<open>ascending Compare (e # es)\<close> \<open>fst f = y\<close> desc_iff [of y "fst e"] by auto
    qed
    then show ?thesis using i e at_get [OF pos] eq by (cases e) (force simp: elems_def)
  qed
qed

end

section \<open>Reference sets refine relations\<close>

lemma lexicographic:
  assumes "strict_comparator A" and "strict_comparator B" and "\<And>x y. f x = f y \<Longrightarrow> g x = g y \<Longrightarrow> x = y"
  shows "strict_comparator (\<lambda>x y. let c = A (f x) (f y) in if c \<noteq> Same then c else B (g x) (g y))"
proof -
  note A = strict_comparator.axioms(1) [OF assms(1)] and B = strict_comparator.axioms(1) [OF assms(2)]
  show ?thesis
  proof
    fix x y z
    show "(let c = A (f y) (f x) in if c \<noteq> Same then c else B (g y) (g x)) = ReverseOrder (let c = A (f x) (f y) in if c \<noteq> Same then c else B (g x) (g y))"
      using comparator.swap [OF A, of "f y" "f x"] comparator.swap [OF B, of "g y" "g x"] by (simp add: Let_def)
    show "x = y" if "(let c = A (f x) (f y) in if c \<noteq> Same then c else B (g x) (g y)) = Same"
      using that strict_comparator.same_eq [OF assms(1)] strict_comparator.same_eq [OF assms(2)] assms(3) by (simp add: Let_def split: if_splits)
    show "(let c = A (f x) (f z) in if c \<noteq> Same then c else B (g x) (g z)) \<noteq> Descending"
      if "(let c = A (f x) (f y) in if c \<noteq> Same then c else B (g x) (g y)) \<noteq> Descending"
        "(let c = A (f y) (f z) in if c \<noteq> Same then c else B (g y) (g z)) \<noteq> Descending"
    proof (cases "A (f x) (f y) = Same \<and> A (f y) (f z) = Same")
      case True
      then show ?thesis using that comparator.same_trans [OF A, of "f x" "f y" "f z"] comparator.le_trans [OF B, of "g x" "g y" "g z"] by (simp add: Let_def)
    next
      case False
      then have "A (f x) (f z) = Ascending"
        using that comparator.asc_le_trans [OF A, of "f x" "f y" "f z"] comparator.le_asc_trans [OF A, of "f x" "f y" "f z"]
        by (cases "A (f x) (f y)"; cases "A (f y) (f z)") (simp_all add: Let_def)
      then show ?thesis by (simp add: Let_def)
    qed
  qed
qed

interpretation by_key_order: strict_comparator ByKey
  unfolding ByKey_def by (rule lexicographic [OF key_order.strict_comparator_axioms int32_order.strict_comparator_axioms]) simp

interpretation by_id_order: strict_comparator ById
  unfolding ById_def by (rule lexicographic [OF int32_order.strict_comparator_axioms key_order.strict_comparator_axioms]) simp

definition rs_ok :: "reference_set \<Rightarrow> bool" where
  "rs_ok R \<longleftrightarrow> sm_ok ByKey (by_key R) \<and> sm_ok ById (by_id R) \<and> elems (by_key R) = elems (by_id R)"

text \<open>The relation between documents and ids that a reference set stands for\<close>

definition rs_refs :: "reference_set \<Rightarrow> (document_key \<times> 32 word) set" where
  "rs_refs R = (\<lambda>r. (ref_key r, ref_id r)) ` elems (by_key R)"

lemma ref_eq: "(ref_key r, ref_id r) = (k, i) \<longleftrightarrow> r = make_reference k i"
  by (cases r) (auto simp: make_reference_def)

lemma ref_inj: "inj_on (\<lambda>r. (ref_key r, ref_id r)) (A :: DocumentKeyReference set)"
  by (auto intro!: inj_onI DocumentKeyReference.equality)

lemma refs_card: "card (rs_refs R) = card (elems (by_key R))"
  unfolding rs_refs_def by (rule card_image [OF ref_inj])

lemma refs_iff: "(k, i) \<in> rs_refs R \<longleftrightarrow> make_reference k i \<in> elems (by_key R)"
  unfolding rs_refs_def image_iff eq_commute [of "(k, i)"] ref_eq by simp

lemma add_ok:
  assumes "rs_ok R" and "card (rs_refs R) < max_entries"
  shows "\<exists>R'. AddReference k i R = Some R' \<and> rs_ok R' \<and> rs_refs R' = insert (k, i) (rs_refs R)"
proof -
  have c: "card (elems (by_key R)) < max_entries" "card (elems (by_id R)) < max_entries" using assms refs_card by (simp_all add: rs_ok_def)
  obtain a where "ss_insert ByKey (make_reference k i) (by_key R) = Some a" "sm_ok ByKey a" "elems a = insert (make_reference k i) (elems (by_key R))"
    using by_key_order.ss_insert_ok [OF _ c(1)] assms(1) unfolding rs_ok_def by blast
  moreover obtain b where "ss_insert ById (make_reference k i) (by_id R) = Some b" "sm_ok ById b" "elems b = insert (make_reference k i) (elems (by_id R))"
    using by_id_order.ss_insert_ok [OF _ c(2)] assms(1) unfolding rs_ok_def by blast
  ultimately show ?thesis using assms(1) by (auto simp: AddReference_def rs_ok_def rs_refs_def make_reference_def)
qed

lemma remove_ok:
  assumes "rs_ok R"
  shows "\<exists>R'. remove_reference r R = Some R' \<and> rs_ok R' \<and> rs_refs R' = rs_refs R - {(ref_key r, ref_id r)}"
proof -
  obtain a where "ss_erase ByKey r (by_key R) = Some a" "sm_ok ByKey a" "elems a = elems (by_key R) - {r}"
    using by_key_order.ss_erase_ok assms unfolding rs_ok_def by blast
  moreover obtain b where "ss_erase ById r (by_id R) = Some b" "sm_ok ById b" "elems b = elems (by_id R) - {r}"
    using by_id_order.ss_erase_ok assms unfolding rs_ok_def by blast
  ultimately show ?thesis using assms ref_inj [of UNIV]
    by (auto simp: remove_reference_def rs_ok_def rs_refs_def image_set_diff inj_on_def)
qed

lemma container_empty: "CompareContainer cmp xs [] \<noteq> Ascending"
  by (cases xs) simp_all

lemma in_range:
  assumes "i \<noteq> 0x7FFFFFFF"
  shows "ById r (make_reference key_Empty i) \<noteq> Ascending \<and> ById r (make_reference key_Empty (i + 1)) = Ascending \<longleftrightarrow> ref_id r = i"
proof -
  have "sint i \<noteq> sint (0x7FFFFFFF :: 32 word)" using assms signed_word_eqI [of i "0x7FFFFFFF"] by blast
  moreover have "sint (0x7FFFFFFF :: 32 word) = 2147483647" by code_simp
  ultimately have "sint i \<noteq> 2147483647" by simp
  then have next_id: "sint (i + 1) = sint i + 1" using sint_less [of i] sint_greater_eq [of i] by (simp add: sint_word_ariths signed_take_bit_int_eq_self)
  have empty: "key_CompareTo (ref_key r) [] \<noteq> Ascending" by (simp add: key_CompareTo_def path_CompareTo_def container_empty)
  have "ref_id r = i \<longleftrightarrow> sint (ref_id r) = sint i" by (simp add: word_eq_iff_signed)
  then show ?thesis using empty next_id
    by (auto simp: ById_def make_reference_def key_Empty_def Let_def Comparator_int32_def)
qed

lemma references_of_ok:
  assumes "rs_ok R" and "i \<noteq> 0x7FFFFFFF"
  shows "\<exists>refs. references_of i R = Some refs \<and> distinct refs \<and> set refs = {r \<in> elems (by_key R). ref_id r = i}"
proof -
  have "sm_ok ById (by_id R)" "elems (by_id R) = elems (by_key R)" using assms(1) by (simp_all add: rs_ok_def)
  from by_id_order.ss_values_in_ok [OF this(1), of "make_reference key_Empty i" "make_reference key_Empty (i + 1)"] this(2)
  show ?thesis by (simp add: references_of_def in_range [OF assms(2)])
qed

lemma card_insert_Suc: "card (insert x A) \<le> Suc (card A)"
  by (cases "finite A") (auto simp: card_insert_if)

lemma add_all_ok:
  "rs_ok R \<Longrightarrow> card (rs_refs R) + length ks \<le> max_entries \<Longrightarrow>
   \<exists>R'. fold_option (\<lambda>key. AddReference key i) ks R = Some R' \<and> rs_ok R' \<and> rs_refs R' = (\<lambda>k. (k, i)) ` set ks \<union> rs_refs R"
proof (induction ks arbitrary: R)
  case (Cons k ks)
  from add_ok [OF Cons.prems(1), of k i] Cons.prems(2) obtain R' where R': "AddReference k i R = Some R'" "rs_ok R'" "rs_refs R' = insert (k, i) (rs_refs R)" by auto
  have "card (rs_refs R') \<le> Suc (card (rs_refs R))" unfolding R'(3) by (rule card_insert_Suc) 
  then show ?case using Cons.IH [OF R'(2)] R' Cons.prems(2) by auto
qed simp

lemma remove_all_ok:
  "rs_ok R \<Longrightarrow> \<exists>R'. fold_option remove_reference rs R = Some R' \<and> rs_ok R' \<and> rs_refs R' = rs_refs R - (\<lambda>r. (ref_key r, ref_id r)) ` set rs"
proof (induction rs arbitrary: R)
  case (Cons r rs)
  from remove_ok [OF Cons.prems, of r] obtain R' where R': "remove_reference r R = Some R'" "rs_ok R'" "rs_refs R' = rs_refs R - {(ref_key r, ref_id r)}" by blast
  then show ?case using Cons.IH [OF R'(2)] by auto
qed simp

lemma remove_refs_ok:
  "rs_ok R \<Longrightarrow> sm_ok key_CompareTo s \<Longrightarrow> card (elems s) + length rs \<le> max_entries \<Longrightarrow>
   \<exists>s' R'. fold_option (\<lambda>reference (removed, R). Option.bind (remove_reference reference R) (\<lambda>R.
         Option.bind (ss_insert key_CompareTo (ref_key reference) removed) (\<lambda>removed. Some (removed, R)))) rs (s, R) = Some (s', R') \<and>
     sm_ok key_CompareTo s' \<and> elems s' = elems s \<union> ref_key ` set rs \<and> rs_ok R' \<and> rs_refs R' = rs_refs R - (\<lambda>r. (ref_key r, ref_id r)) ` set rs"
proof (induction rs arbitrary: R s)
  case (Cons r rs)
  from remove_ok [OF Cons.prems(1), of r] obtain R' where R': "remove_reference r R = Some R'" "rs_ok R'" "rs_refs R' = rs_refs R - {(ref_key r, ref_id r)}" by blast
  have "card (elems s) < max_entries" using Cons.prems(3) by simp
  from key_order.ss_insert_ok [OF Cons.prems(2) this] obtain s' where s': "ss_insert key_CompareTo (ref_key r) s = Some s'" "sm_ok key_CompareTo s'" "elems s' = insert (ref_key r) (elems s)" by blast
  have "card (elems s') \<le> Suc (card (elems s))" unfolding s'(3) by (rule card_insert_Suc)
  then show ?case using Cons.IH [OF R'(2) s'(2)] R' s' Cons.prems(3) by auto
qed simp

lemma collect_ok:
  "sm_ok key_CompareTo s \<Longrightarrow> card (elems s) + length rs \<le> max_entries \<Longrightarrow>
   \<exists>s'. fold_option (\<lambda>reference. ss_insert key_CompareTo (ref_key reference)) rs s = Some s' \<and> sm_ok key_CompareTo s' \<and> elems s' = elems s \<union> ref_key ` set rs"
proof (induction rs arbitrary: s)
  case (Cons r rs)
  have "card (elems s) < max_entries" using Cons.prems(2) by simp
  from key_order.ss_insert_ok [OF Cons.prems(1) this] obtain s' where s': "ss_insert key_CompareTo (ref_key r) s = Some s'" "sm_ok key_CompareTo s'" "elems s' = insert (ref_key r) (elems s)" by blast
  have "card (elems s') \<le> Suc (card (elems s))" unfolding s'(3) by (rule card_insert_Suc)
  then show ?case using Cons.IH [OF s'(2)] s' Cons.prems(2) by auto
qed simp

lemma contains_key_iff:
  assumes "rs_ok R"
  shows "ContainsKey k R \<longleftrightarrow> (\<exists>i. sint i \<ge> 0 \<and> (k, i) \<in> rs_refs R)"
proof -
  define at where "at = make_reference k 0"
  have ok: "sm_ok ByKey (by_key R)" using assms by (simp add: rs_ok_def)
  have le: "ByKey r at \<noteq> Ascending \<longleftrightarrow> key_CompareTo (ref_key r) k = Descending \<or> ref_key r = k \<and> sint (ref_id r) \<ge> 0" for r
    by (cases "key_CompareTo (ref_key r) k") (auto simp: at_def ByKey_def make_reference_def Let_def Comparator_int32_def)
  have member: "(k, i) \<in> rs_refs R \<longleftrightarrow> (\<exists>r\<in>elems (by_key R). ref_key r = k \<and> ref_id r = i)" for i
    by (auto simp: rs_refs_def)
  have some: "\<exists>r\<in>elems (by_key R). ref_key r = k \<and> sint (ref_id r) \<ge> 0" if stored: "\<exists>i. sint i \<ge> 0 \<and> (k, i) \<in> rs_refs R"
  proof -
    from stored obtain i where i: "sint i \<ge> 0" "(k, i) \<in> rs_refs R" by blast
    then obtain r where "r \<in> elems (by_key R)" "ref_key r = k" "ref_id r = i" using member [of i] by blast
    then show ?thesis using i(1) by blast
  qed
  from by_key_order.ss_first_from [OF ok, of at] show ?thesis
  proof (elim disjE exE conjE)
    fix x
    assume x: "iter_get (sm_lower_bound ByKey at (by_key R)) = Some (x, ())" "\<not> iter_eq (sm_lower_bound ByKey at (by_key R)) (sm_end (by_key R))"
      "x \<in> elems (by_key R)" "ByKey x at \<noteq> Ascending" "\<forall>y\<in>elems (by_key R). ByKey y at \<noteq> Ascending \<longrightarrow> ByKey y x \<noteq> Ascending"
    have "ContainsKey k R \<longleftrightarrow> ref_key x = k" using x(1,2) unfolding ContainsKey_def ss_values_from_def KeysViewFrom_def at_def Let_def by simp
    moreover have "ref_key x = k \<longleftrightarrow> (\<exists>i. sint i \<ge> 0 \<and> (k, i) \<in> rs_refs R)"
    proof
      assume "ref_key x = k"
      then have "sint (ref_id x) \<ge> 0" using x(4) le by simp
      then show "\<exists>i. sint i \<ge> 0 \<and> (k, i) \<in> rs_refs R" using x(3) \<open>ref_key x = k\<close> member [of "ref_id x"] by blast
    next
      assume "\<exists>i. sint i \<ge> 0 \<and> (k, i) \<in> rs_refs R"
      then obtain r where r: "r \<in> elems (by_key R)" "ref_key r = k" "sint (ref_id r) \<ge> 0" using some by blast
      then have "ByKey r at \<noteq> Ascending" unfolding le by simp
      then have "ByKey r x \<noteq> Ascending" using x(5) r(1) by simp
      then have "key_CompareTo k (ref_key x) \<noteq> Ascending" unfolding ByKey_def Let_def r(2) by (rule contrapos_nn) simp
      then have "key_CompareTo (ref_key x) k \<noteq> Descending" unfolding key_order.desc_iff [of "ref_key x" k] .
      then show "ref_key x = k" using x(4) unfolding le by simp
    qed
    ultimately show ?thesis by blast
  next
    assume none: "iter_eq (sm_lower_bound ByKey at (by_key R)) (sm_end (by_key R))" "\<forall>y\<in>elems (by_key R). ByKey y at = Ascending"
    have "\<not> (\<exists>r\<in>elems (by_key R). ref_key r = k \<and> sint (ref_id r) \<ge> 0)" using none(2) le by (metis (no_types))
    moreover from none(1) have "\<not> ContainsKey k R"
      unfolding ContainsKey_def ss_values_from_def KeysViewFrom_def at_def Let_def by simp
    ultimately show ?thesis using some by blast
  qed
qed

section \<open>Sequences of calls\<close>

text \<open>The calls of a client. The sets of keys it passes are made from lists.\<close>

datatype ref_call =
    Add document_key "32 word"
  | AddMany "document_key list" "32 word"
  | Remove document_key "32 word"
  | RemoveMany "document_key list" "32 word"
  | RemoveId "32 word"
  | RemoveAll

fun ref_step :: "ref_call \<Rightarrow> reference_set \<Rightarrow> reference_set option" where
  "ref_step (Add k i) R = AddReference k i R"
| "ref_step (AddMany ks i) R = Option.bind (ss_create key_CompareTo ks) (\<lambda>s. AddReferences s i R)"
| "ref_step (Remove k i) R = RemoveReference k i R"
| "ref_step (RemoveMany ks i) R = Option.bind (ss_create key_CompareTo ks) (\<lambda>s. RemoveReferences_of_keys s i R)"
| "ref_step (RemoveId i) R = map_option snd (RemoveReferences i R)"
| "ref_step RemoveAll R = RemoveAllReferences R"

fun ref_abs :: "ref_call \<Rightarrow> (document_key \<times> 32 word) set \<Rightarrow> (document_key \<times> 32 word) set" where
  "ref_abs (Add k i) S = insert (k, i) S"
| "ref_abs (AddMany ks i) S = (\<lambda>k. (k, i)) ` set ks \<union> S"
| "ref_abs (Remove k i) S = S - {(k, i)}"
| "ref_abs (RemoveMany ks i) S = S - (\<lambda>k. (k, i)) ` set ks"
| "ref_abs (RemoveId i) S = {p \<in> S. snd p \<noteq> i}"
| "ref_abs RemoveAll S = {}"

text \<open>How many references a call may add, and the calls that do not overflow the id\<close>

fun ref_cost :: "ref_call \<Rightarrow> nat" where
  "ref_cost (Add k i) = 1"
| "ref_cost (AddMany ks i) = length ks"
| "ref_cost (RemoveMany ks i) = length ks"
| "ref_cost _ = 0"

fun call_ok :: "ref_call \<Rightarrow> bool" where
  "call_ok (RemoveId i) \<longleftrightarrow> i \<noteq> 0x7FFFFFFF"
| "call_ok _ \<longleftrightarrow> True"

lemma create_ok: "length ks \<le> max_entries \<Longrightarrow> \<exists>s. ss_create key_CompareTo ks = Some s \<and> sm_ok key_CompareTo s \<and> elems s = set ks"
proof -
  have "\<exists>s'. fold_option (ss_insert key_CompareTo) ks s = Some s' \<and> sm_ok key_CompareTo s' \<and> elems s' = elems s \<union> set ks"
    if "sm_ok key_CompareTo s" "card (elems s) + length ks \<le> max_entries" for s
    using that
  proof (induction ks arbitrary: s)
    case (Cons k ks)
    have "card (elems s) < max_entries" using Cons.prems(2) by simp
    from key_order.ss_insert_ok [OF Cons.prems(1) this, of k] obtain s' where s': "ss_insert key_CompareTo k s = Some s'" "sm_ok key_CompareTo s'" "elems s' = insert k (elems s)" by blast
    have "card (elems s') \<le> Suc (card (elems s))" unfolding s'(3) by (rule card_insert_Suc)
    then show ?case using Cons.IH [OF s'(2)] s' Cons.prems(2) by auto
  qed simp
  from this [of sm_empty] key_order.sorted_map.none_ok show "length ks \<le> max_entries \<Longrightarrow> ?thesis" by (simp add: ss_create_def)
qed

lemma fold_option_map: "fold_option f (map g xs) s = fold_option (f \<circ> g) xs s"
  by (induction xs arbitrary: s) (auto split: bind_split)

lemma elems_finite [simp]: "finite (elems s)"
  by (simp add: elems_def)

lemma references_card: "rs_ok R \<Longrightarrow> distinct refs \<Longrightarrow> set refs = {r \<in> elems (by_key R). ref_id r = i} \<Longrightarrow> length refs \<le> card (rs_refs R)"
  using card_mono [of "elems (by_key R)" "set refs"] by (simp add: refs_card flip: distinct_card)

lemma removed_set: "set refs = {r \<in> elems (by_key R). ref_id r = i} \<Longrightarrow>
    rs_refs R - (\<lambda>r. (ref_key r, ref_id r)) ` set refs = {p \<in> rs_refs R. snd p \<noteq> i} \<and> ref_key ` set refs = {k. (k, i) \<in> rs_refs R}"
  by (auto simp: rs_refs_def)

lemma remove_references_ok:
  assumes "rs_ok R" and "card (rs_refs R) \<le> max_entries" and "i \<noteq> 0x7FFFFFFF"
  shows "\<exists>s R'. RemoveReferences i R = Some (s, R') \<and> elems s = {k. (k, i) \<in> rs_refs R} \<and> rs_ok R' \<and> rs_refs R' = {p \<in> rs_refs R. snd p \<noteq> i}"
    and "\<exists>s. ReferencedKeys i R = Some s \<and> elems s = {k. (k, i) \<in> rs_refs R}"
proof -
  obtain refs where refs: "references_of i R = Some refs" "distinct refs" "set refs = {r \<in> elems (by_key R). ref_id r = i}"
    using references_of_ok [OF assms(1,3)] by blast
  have "card (elems (sm_empty :: document_key sorted_set)) + length refs \<le> max_entries"
    using references_card [OF assms(1) refs(2,3)] assms(2) by simp
  note bound = key_order.sorted_map.none_ok this
  show "\<exists>s R'. RemoveReferences i R = Some (s, R') \<and> elems s = {k. (k, i) \<in> rs_refs R} \<and> rs_ok R' \<and> rs_refs R' = {p \<in> rs_refs R. snd p \<noteq> i}"
    using remove_refs_ok [OF assms(1) bound] refs(1) removed_set [OF refs(3)] by (auto simp: RemoveReferences_def)
  show "\<exists>s. ReferencedKeys i R = Some s \<and> elems s = {k. (k, i) \<in> rs_refs R}"
    using collect_ok [OF bound] refs(1) removed_set [OF refs(3)] by (auto simp: ReferencedKeys_def)
qed

lemma ref_step_ok:
  assumes "rs_ok R" and "card (rs_refs R) + ref_cost c \<le> max_entries" and "call_ok c"
  shows "\<exists>R'. ref_step c R = Some R' \<and> rs_ok R' \<and> rs_refs R' = ref_abs c (rs_refs R) \<and> card (rs_refs R') \<le> card (rs_refs R) + ref_cost c"
proof -
  have fin: "finite (rs_refs R)" by (simp add: rs_refs_def)
  have keys: "\<exists>s ks'. ss_create key_CompareTo ks = Some s \<and> ss_values s = Some ks' \<and> set ks' = set ks \<and> length ks' \<le> length ks"
    if "length ks \<le> max_entries" for ks
  proof -
    obtain s where s: "ss_create key_CompareTo ks = Some s" "sm_ok key_CompareTo s" "elems s = set ks" using create_ok [OF \<open>length ks \<le> max_entries\<close>] by blast
    obtain ks' where ks': "ss_values s = Some ks'" "set ks' = elems s" "distinct ks'" using key_order.ss_values_ok [OF s(2)] by blast
    then have "length ks' = card (set ks)" using s(3) distinct_card by metis
    then show ?thesis using s ks' card_length [of ks] by auto
  qed
  show ?thesis
  proof (cases c)
    case (Add k i)
    then show ?thesis using add_ok [OF assms(1), of k i] assms(2) card_insert_Suc [of "(k, i)" "rs_refs R"] by auto
  next
    case (AddMany ks i)
    then have "length ks \<le> max_entries" using assms(2) by simp
    then obtain s ks' where ks': "ss_create key_CompareTo ks = Some s" "ss_values s = Some ks'" "set ks' = set ks" "length ks' \<le> length ks" using keys by blast
    have "card (rs_refs R) + length ks' \<le> max_entries" using ks'(4) assms(2) AddMany by simp
    from add_all_ok [OF assms(1) this, of i] obtain R' where R': "fold_option (\<lambda>key. AddReference key i) ks' R = Some R'" "rs_ok R'" "rs_refs R' = (\<lambda>k. (k, i)) ` set ks' \<union> rs_refs R" by blast
    have "card ((\<lambda>k. (k, i)) ` set ks) \<le> length ks" using card_image_le [of "set ks" "\<lambda>k. (k, i)"] card_length [of ks] by simp
    then have "card (rs_refs R') \<le> card (rs_refs R) + length ks" using card_Un_le [of "(\<lambda>k. (k, i)) ` set ks" "rs_refs R"] R'(3) ks'(3) by simp
    then show ?thesis using AddMany ks' R' by (simp add: AddReferences_def)
  next
    case (Remove k i)
    then show ?thesis using remove_ok [OF assms(1), of "make_reference k i"] card_Diff1_le [of "rs_refs R" "(k, i)"]
      by (auto simp: RemoveReference_def make_reference_def)
  next
    case (RemoveMany ks i)
    then have "length ks \<le> max_entries" using assms(2) by simp
    then obtain s ks' where ks': "ss_create key_CompareTo ks = Some s" "ss_values s = Some ks'" "set ks' = set ks" using keys by blast
    have "\<exists>R'. fold_option (\<lambda>key. RemoveReference key i) ks' R = Some R' \<and> rs_ok R' \<and> rs_refs R' = rs_refs R - (\<lambda>k. (k, i)) ` set ks"
    proof -
      have step: "remove_reference \<circ> (\<lambda>k. make_reference k i) = (\<lambda>key. RemoveReference key i)"
        by (simp add: fun_eq_iff RemoveReference_def)
      have pairs: "(\<lambda>r. (ref_key r, ref_id r)) ` set (map (\<lambda>k. make_reference k i) ks') = (\<lambda>k. (k, i)) ` set ks"
        by (simp add: ks'(3) image_image make_reference_def)
      show ?thesis
        using remove_all_ok [OF assms(1), of "map (\<lambda>k. make_reference k i) ks'"] unfolding fold_option_map step pairs .
    qed
    moreover have "card (rs_refs R - (\<lambda>k. (k, i)) ` set ks) \<le> card (rs_refs R)" using fin by (intro card_mono) auto
    ultimately show ?thesis using RemoveMany ks' by (auto simp: RemoveReferences_of_keys_def)
  next
    case (RemoveId i)
    have "card {p \<in> rs_refs R. snd p \<noteq> i} \<le> card (rs_refs R)" using fin by (intro card_mono) auto
    then show ?thesis using RemoveId remove_references_ok(1) [OF assms(1)] assms(2,3) by fastforce
  next
    case RemoveAll
    obtain rs where rs: "ss_values (by_key R) = Some rs" "set rs = elems (by_key R)" using by_key_order.ss_values_ok assms(1) unfolding rs_ok_def by blast
    then show ?thesis using RemoveAll remove_all_ok [OF assms(1), of rs] by (auto simp: RemoveAllReferences_def rs_refs_def)
  qed
qed

lemma ref_run_ok:
  "rs_ok R \<Longrightarrow> card (rs_refs R) + sum_list (map ref_cost cs) \<le> max_entries \<Longrightarrow> \<forall>c\<in>set cs. call_ok c \<Longrightarrow>
   \<exists>R'. fold_option ref_step cs R = Some R' \<and> rs_ok R' \<and> rs_refs R' = fold ref_abs cs (rs_refs R) \<and> card (rs_refs R') \<le> max_entries"
proof (induction cs arbitrary: R)
  case (Cons c cs)
  from ref_step_ok [OF Cons.prems(1), of c] Cons.prems(2,3) obtain R' where "ref_step c R = Some R'" "rs_ok R'" "rs_refs R' = ref_abs c (rs_refs R)"
    "card (rs_refs R') \<le> card (rs_refs R) + ref_cost c" by auto
  then show ?case using Cons.IH [of R'] Cons.prems(2,3) by simp
qed simp

text \<open>C10. A reference set refines a relation between documents and ids. After any calls, its two indices hold the same references,
  its size is their number, the documents of an id are those related to it, whether they are asked for or removed, and
  \<open>ContainsKey\<close> finds a document related to an id that is not negative. A document with negative ids alone is missed.\<close>

theorem reference_set_refines:
  assumes "sum_list (map ref_cost cs) < 2 ^ 31" and "\<forall>c\<in>set cs. call_ok c"
  defines "S \<equiv> fold ref_abs cs {}"
  shows "\<exists>R. fold_option ref_step cs rs_new = Some R \<and> elems (by_key R) = elems (by_id R) \<and> rs_refs R = S \<and> rs_size R = of_nat (card S) \<and>
    (\<forall>k. ContainsKey k R \<longleftrightarrow> (\<exists>i. sint i \<ge> 0 \<and> (k, i) \<in> S)) \<and>
    (\<forall>i. i \<noteq> 0x7FFFFFFF \<longrightarrow> (\<exists>s. ReferencedKeys i R = Some s \<and> elems s = {k. (k, i) \<in> S}) \<and>
      (\<exists>s R'. RemoveReferences i R = Some (s, R') \<and> elems s = {k. (k, i) \<in> S} \<and> rs_refs R' = {p \<in> S. snd p \<noteq> i}))"
proof -
  have new: "rs_ok rs_new" "rs_refs rs_new = {}"
    by (simp_all add: rs_ok_def rs_new_def rs_refs_def by_key_order.sorted_map.none_ok by_id_order.sorted_map.none_ok)
  then obtain R where R: "fold_option ref_step cs rs_new = Some R" "rs_ok R" "rs_refs R = S" "card (rs_refs R) \<le> max_entries"
    using ref_run_ok [OF new(1), of cs] assms(1,2) unfolding S_def by (auto simp: max_entries_def)
  have ok: "sm_ok ByKey (by_key R)" using R(2) by (simp add: rs_ok_def)
  have card: "card S = card (elems (by_key R))" using refs_card [of R] R(3) by simp
  then have "card S < 2 ^ 32" using R(3,4) by (simp add: max_entries_def)
  then have "rs_size R = of_nat (card S)"
    using by_key_order.sm_count_eq [OF ok] by_key_order.elems_card [OF ok] card
    by (simp add: rs_size_def ss_size_def word_unat_eq_iff unat_ucast_mod unat_of_nat)
  then show ?thesis
    using R contains_key_iff [OF R(2)] remove_references_ok [OF R(2,4)] by (fastforce simp: rs_ok_def)
qed

lemma reference_set_refines_witness:
  "\<exists>R. fold_option ref_step [Add [[1], [2]] 3, Add [[1], [4]] (-1), AddMany [[[1], [2]], [[5], [6]]] 7, RemoveId 3] rs_new = Some R \<and>
    ContainsKey [[1], [2]] R \<and> \<not> ContainsKey [[1], [4]] R \<and> rs_size R = 3"
proof -
  define S :: "(document_key \<times> 32 word) set" where
    "S = fold ref_abs [Add [[1], [2]] 3, Add [[1], [4]] (-1), AddMany [[[1], [2]], [[5], [6]]] 7, RemoveId 3] {}"
  have S: "S = {([[1], [2]], 7), ([[5], [6]], 7), ([[1], [4]], -1)}"
    by (auto simp: S_def)
  have "\<exists>R. fold_option ref_step [Add [[1], [2]] 3, Add [[1], [4]] (-1), AddMany [[[1], [2]], [[5], [6]]] 7, RemoveId 3] rs_new = Some R \<and>
      rs_size R = of_nat (card S) \<and> (\<forall>k. ContainsKey k R \<longleftrightarrow> (\<exists>i. sint i \<ge> 0 \<and> (k, i) \<in> S))"
    using reference_set_refines [of "[Add [[1], [2]] 3, Add [[1], [4]] (-1), AddMany [[[1], [2]], [[5], [6]]] 7, RemoveId 3]"] unfolding S_def by auto
  then show ?thesis unfolding S by auto
qed

end
