(* ===== verification/Document_Set.thy ===== *)
theory Document_Set
  imports Reference_Set
begin

text \<open>
  Sets of documents in the order of a query (\<open>Firestore/core/src/model/document_set.cc\<close>): an index from keys to documents
  and a sorted set of the same documents.
\<close>

section \<open>The code\<close>

text \<open>A document has a key and contents, which the set does not look into.\<close>

record 'a document =
  doc_key :: document_key
  doc_contents :: 'a

definition DocumentComparator_ByKey :: "'a document cmp" where
  "DocumentComparator_ByKey lhs rhs = key_CompareTo (doc_key lhs) (doc_key rhs)"

record 'a document_set =
  ds_index :: "(document_key, 'a document) sorted_map"
  ds_sorted :: "'a document sorted_set"

definition ds_new :: "'a document_set" where
  "ds_new = \<lparr>ds_index = sm_empty, ds_sorted = sm_empty\<rparr>"

definition ds_size :: "'a document_set \<Rightarrow> u64" where
  "ds_size S = ucast (sm_size (ds_index S))"

definition ds_empty :: "'a document_set \<Rightarrow> bool" where
  "ds_empty S \<longleftrightarrow> sm_is_empty (ds_index S)"

definition ds_ContainsKey :: "document_key \<Rightarrow> 'a document_set \<Rightarrow> bool" where
  "ds_ContainsKey key S \<longleftrightarrow> \<not> iter_eq (sm_find key_CompareTo key (ds_index S)) (sm_end (ds_index S))"

definition GetDocument :: "document_key \<Rightarrow> 'a document_set \<Rightarrow> 'a document option" where
  "GetDocument key S =
     (let found = sm_find key_CompareTo key (ds_index S)
      in if \<not> iter_eq found (sm_end (ds_index S)) then map_option snd (iter_get found) else None)"

definition GetFirstDocument :: "'a document_set \<Rightarrow> 'a document option" where
  "GetFirstDocument S =
     (let result = sm_min (ds_sorted S) in if \<not> iter_eq result (sm_end (ds_sorted S)) then map_option fst (iter_get result) else None)"

definition GetLastDocument :: "'a document_set \<Rightarrow> 'a document option" where
  "GetLastDocument S =
     (let result = sm_max (ds_sorted S) in if \<not> iter_eq result (sm_end (ds_sorted S)) then map_option fst (iter_get result) else None)"

definition IndexOf :: "'a document cmp \<Rightarrow> document_key \<Rightarrow> 'a document_set \<Rightarrow> u64" where
  "IndexOf cmp key S = (case GetDocument key S of Some doc \<Rightarrow> ucast (ss_find_index cmp doc (ds_sorted S)) | None \<Rightarrow> ucast npos)"

definition ds_erase :: "'a document cmp \<Rightarrow> document_key \<Rightarrow> 'a document_set \<Rightarrow> 'a document_set option" where
  "ds_erase cmp key S =
     (case GetDocument key S of
        None \<Rightarrow> Some S
      | Some doc \<Rightarrow>
          Option.bind (sm_erase key_CompareTo key (ds_index S)) (\<lambda>index.
          Option.bind (ss_erase cmp doc (ds_sorted S)) (\<lambda>s. Some \<lparr>ds_index = index, ds_sorted = s\<rparr>)))"

definition ds_insert :: "'a document cmp \<Rightarrow> 'a document option \<Rightarrow> 'a document_set \<Rightarrow> 'a document_set option" where
  "ds_insert cmp document S =
     (case document of
        None \<Rightarrow> Some S
      | Some doc \<Rightarrow>
          Option.bind (ds_erase cmp (doc_key doc) S) (\<lambda>removed.
          Option.bind (sm_insert key_CompareTo (doc_key doc) doc (ds_index removed)) (\<lambda>index.
          Option.bind (ss_insert cmp doc (ds_sorted removed)) (\<lambda>s. Some \<lparr>ds_index = index, ds_sorted = s\<rparr>))))"

text \<open>Two sets are equal if loops over them see equal documents.\<close>

definition ds_eq :: "'a document_set \<Rightarrow> 'a document_set \<Rightarrow> bool" where
  "ds_eq lhs rhs \<longleftrightarrow> ss_values (ds_sorted lhs) = ss_values (ds_sorted rhs)"

section \<open>The contract of the comparator\<close>

text \<open>Documents that compare the same have the same key: the comparators of queries end with the key.\<close>

locale document_comparator = comparator Compare for Compare :: "'a document cmp" +
  assumes same_key: "Compare x y = Same \<Longrightarrow> doc_key x = doc_key y"

interpretation by_document_key: document_comparator DocumentComparator_ByKey
proof
  fix x y z :: "'a document"
  show "DocumentComparator_ByKey y x = ReverseOrder (DocumentComparator_ByKey x y)"
    unfolding DocumentComparator_ByKey_def by (rule key_order.swap)
  show "DocumentComparator_ByKey x y \<noteq> Descending \<Longrightarrow> DocumentComparator_ByKey y z \<noteq> Descending \<Longrightarrow> DocumentComparator_ByKey x z \<noteq> Descending"
    unfolding DocumentComparator_ByKey_def by (rule key_order.le_trans)
  show "DocumentComparator_ByKey x y = Same \<Longrightarrow> doc_key x = doc_key y"
    by (simp add: DocumentComparator_ByKey_def)
qed

text \<open>The index and the sorted set hold the same documents, and the index has each under its key.\<close>

definition ds_ok :: "'a document cmp \<Rightarrow> 'a document_set \<Rightarrow> bool" where
  "ds_ok cmp S \<longleftrightarrow> sm_ok key_CompareTo (ds_index S) \<and> sm_ok cmp (ds_sorted S) \<and>
     set (sm_entries (ds_index S)) = (\<lambda>d. (doc_key d, d)) ` elems (ds_sorted S)"

definition ds_map :: "'a document_set \<Rightarrow> document_key \<rightharpoonup> 'a document" where
  "ds_map S = map_of (sm_entries (ds_index S))"

lemma get_document: "ds_ok cmp S \<Longrightarrow> GetDocument k S = ds_map S k"
proof -
  assume ok: "ds_ok cmp S"
  have "GetDocument k S = sm_get key_CompareTo k (ds_index S)" by (simp add: GetDocument_def sm_get_def)
  then show ?thesis using ok by (simp add: ds_ok_def ds_map_def key_order.get_look_up key_order.look_up_map_of key_order.sm_ascending)
qed

lemma contains_document: "ds_ok cmp S \<Longrightarrow> ds_ContainsKey k S \<longleftrightarrow> GetDocument k S \<noteq> None"
proof -
  assume "ds_ok cmp S"
  then have m: "sm_ok key_CompareTo (ds_index S)" by (simp add: ds_ok_def)
  define found where "found = sm_find key_CompareTo k (ds_index S)"
  obtain i where i: "at_pos (ds_index S) found i" unfolding found_def using key_order.find_pos [OF m] by blast
  then have "i \<le> length (sm_entries (ds_index S))" by (simp add: at_pos_def)
  then have "iter_get found \<noteq> None" if "\<not> iter_eq found (sm_end (ds_index S))"
    using that at_get [OF i] at_eq [OF key_order.sm_ascending [OF m] key_order.refl i end_pos] by simp
  then show ?thesis by (cases "iter_get found") (auto simp: ds_ContainsKey_def GetDocument_def Let_def simp flip: found_def)
qed

lemma ds_map_iff: "ds_ok cmp S \<Longrightarrow> ds_map S k = Some d \<longleftrightarrow> d \<in> elems (ds_sorted S) \<and> doc_key d = k"
proof -
  assume ok: "ds_ok cmp S"
  then have "distinct (map fst (sm_entries (ds_index S)))" by (simp add: ds_ok_def key_order.ascending_distinct key_order.sm_ascending)
  then have "ds_map S k = Some d \<longleftrightarrow> (k, d) \<in> set (sm_entries (ds_index S))" by (simp add: ds_map_def)
  then show ?thesis using ok by (auto simp: ds_ok_def)
qed

lemma ds_keys_inj: "ds_ok cmp S \<Longrightarrow> inj_on doc_key (elems (ds_sorted S))"
proof (rule inj_onI)
  fix x y
  assume "ds_ok cmp S" "x \<in> elems (ds_sorted S)" "y \<in> elems (ds_sorted S)" "doc_key x = doc_key y"
  then show "x = y" using ds_map_iff [of cmp S "doc_key y" x] ds_map_iff [of cmp S "doc_key y" y] by simp
qed

lemma ds_count: "ds_ok cmp S \<Longrightarrow> length (sm_entries (ds_index S)) = card (elems (ds_sorted S))"
proof -
  assume ok: "ds_ok cmp S"
  then have "distinct (map fst (sm_entries (ds_index S)))" by (simp add: ds_ok_def key_order.ascending_distinct key_order.sm_ascending)
  then have "length (sm_entries (ds_index S)) = card (set (sm_entries (ds_index S)))" 
    using distinct_card [of "sm_entries (ds_index S)"] by (simp add: distinct_map)
  also have "\<dots> = card (elems (ds_sorted S))"
    using ok by (simp add: ds_ok_def card_image inj_on_def)
  finally show ?thesis .
qed

lemma map_eqI: "(\<And>k d. f k = Some d \<longleftrightarrow> g k = Some d) \<Longrightarrow> f = g"
  by (rule ext) (metis option.exhaust)

lemma ds_new_simps [simp]: "ds_map ds_new = Map.empty" "elems (ds_sorted ds_new) = {}"
  by (simp_all add: ds_new_def ds_map_def)

lemma key_image: "{e \<in> (\<lambda>d. (doc_key d, d)) ` A. fst e \<noteq> k} = (\<lambda>d. (doc_key d, d)) ` {d \<in> A. doc_key d \<noteq> k}"
proof -
  have "{e \<in> g ` A. fst e \<noteq> k} = g ` {d \<in> A. fst (g d) \<noteq> k}" for g :: "('a, 'b) document_scheme \<Rightarrow> document_key \<times> ('a, 'b) document_scheme" by blast
  from this [of "\<lambda>d. (doc_key d, d)"] show ?thesis by simp
qed

context document_comparator
begin

lemma ascending_elems: "ascending Compare xs \<Longrightarrow> distinct (map fst xs)"
proof (induction xs)
  case (Cons e xs)
  have "fst e \<noteq> fst f" if "f \<in> set xs" for f using that Cons.prems refl [of "fst e"] by force
  then show ?case using Cons by auto
qed simp

lemma erase_ok:
  assumes "ds_ok Compare S"
  shows "\<exists>S'. ds_erase Compare k S = Some S' \<and> ds_ok Compare S' \<and> elems (ds_sorted S') = {d \<in> elems (ds_sorted S). doc_key d \<noteq> k}"
proof (cases "ds_map S k")
  case None
  then have "doc_key d \<noteq> k" if "d \<in> elems (ds_sorted S)" for d using that ds_map_iff [OF assms, of k d] by auto
  then show ?thesis using None assms get_document [OF assms] by (auto simp: ds_erase_def)
next
  case (Some doc)
  have ok: "sm_ok key_CompareTo (ds_index S)" "sm_ok Compare (ds_sorted S)"
    and same: "set (sm_entries (ds_index S)) = (\<lambda>d. (doc_key d, d)) ` elems (ds_sorted S)" using assms by (simp_all add: ds_ok_def)
  have doc: "doc \<in> elems (ds_sorted S)" "doc_key doc = k" using Some ds_map_iff [OF assms] by auto
  obtain index where index: "sm_erase key_CompareTo k (ds_index S) = Some index" "sm_ok key_CompareTo index"
      "sm_entries index = drop_entry key_CompareTo k (sm_entries (ds_index S))" using key_order.sm_erase_drop [OF ok(1)] by blast
  obtain s where s: "sm_erase Compare doc (ds_sorted S) = Some s" "sm_ok Compare s" "sm_entries s = drop_entry Compare doc (sm_entries (ds_sorted S))"
    using sm_erase_drop [OF ok(2)] by blast
  have "Compare d doc = Same \<longleftrightarrow> doc_key d = k" if "d \<in> elems (ds_sorted S)" for d
    using same_key [of d doc] doc inj_onD [OF ds_keys_inj [OF assms], of d doc] that by auto
  then have el: "elems s = {d \<in> elems (ds_sorted S). doc_key d \<noteq> k}"
    using s(3) unfolding elems_def drop_entry_def by auto
  have "set (sm_entries index) = {e \<in> (\<lambda>d. (doc_key d, d)) ` elems (ds_sorted S). fst e \<noteq> k}"
    by (simp only: index(3) drop_entry_def set_filter same key_order.same_iff)
  then have "set (sm_entries index) = (\<lambda>d. (doc_key d, d)) ` elems s" unfolding el key_image .
  then have "ds_ok Compare \<lparr>ds_index = index, ds_sorted = s\<rparr>" using index(2) s(2) by (simp add: ds_ok_def)
  moreover have "GetDocument k S = Some doc" using Some get_document [OF assms] by simp
  then have "ds_erase Compare k S = Some \<lparr>ds_index = index, ds_sorted = s\<rparr>"
    using index(1) s(1) by (simp add: ds_erase_def ss_erase_def)
  ultimately show ?thesis using el by simp
qed

lemma insert_ok:
  assumes "ds_ok Compare S" and "card (elems (ds_sorted S)) < max_entries"
  shows "\<exists>S'. ds_insert Compare (Some doc) S = Some S' \<and> ds_ok Compare S' \<and>
    elems (ds_sorted S') = insert doc {d \<in> elems (ds_sorted S). doc_key d \<noteq> doc_key doc}"
proof -
  obtain R where R: "ds_erase Compare (doc_key doc) S = Some R" "ds_ok Compare R" "elems (ds_sorted R) = {d \<in> elems (ds_sorted S). doc_key d \<noteq> doc_key doc}"
    using erase_ok [OF assms(1)] by blast
  have ok: "sm_ok key_CompareTo (ds_index R)" "sm_ok Compare (ds_sorted R)"
    and same: "set (sm_entries (ds_index R)) = (\<lambda>d. (doc_key d, d)) ` elems (ds_sorted R)" using R(2) by (simp_all add: ds_ok_def)
  have "card (elems (ds_sorted R)) \<le> card (elems (ds_sorted S))" unfolding R(3) by (intro card_mono) auto
  then have room: "card (elems (ds_sorted R)) < max_entries" using assms(2) by simp
  have "length (sm_entries (ds_index R)) < max_entries" using ds_count [OF R(2)] room by simp
  from key_order.sm_insert_put [OF ok(1) this, of "doc_key doc" doc] obtain index keep where
    index: "sm_insert key_CompareTo (doc_key doc) doc (ds_index R) = Some index" "sm_ok key_CompareTo index"
      "sm_entries index = put_entry key_CompareTo keep (doc_key doc) doc (sm_entries (ds_index R))" by blast
  have "length (sm_entries (ds_sorted R)) = card (elems (ds_sorted R))"
    using ascending_elems [OF sm_ascending [OF ok(2)]] unfolding elems_def by (metis distinct_card length_map)
  then have "length (sm_entries (ds_sorted R)) < max_entries" using room by simp
  from sm_insert_put [OF ok(2) this, of doc "()"] obtain s keep' where
    s: "sm_insert Compare doc () (ds_sorted R) = Some s" "sm_ok Compare s" "sm_entries s = put_entry Compare keep' doc () (sm_entries (ds_sorted R))" by blast
  have other: "doc_key (fst e) \<noteq> doc_key doc" if "e \<in> set (sm_entries (ds_sorted R))" for e
    using that R(3) unfolding elems_def by auto
  then have none: "equal_to Compare doc (sm_entries (ds_sorted R)) = []"
    using same_key by (auto simp: equal_to_def filter_empty_conv)
  have "set (sm_entries (ds_sorted R)) = set (below Compare doc (sm_entries (ds_sorted R))) \<union> set (above Compare doc (sm_entries (ds_sorted R)))"
    using split_parts [OF sm_ascending [OF ok(2)], of doc] none by (metis append_Nil set_append)
  then have el: "elems s = insert doc (elems (ds_sorted R))"
    unfolding elems_def s(3) put_entry_def none by auto
  have "equal_to key_CompareTo (doc_key doc) (sm_entries (ds_index R)) = []"
    using same R(3) by (auto simp: equal_to_def filter_empty_conv)
  then have "set (sm_entries (ds_index R)) = set (below key_CompareTo (doc_key doc) (sm_entries (ds_index R))) \<union> set (above key_CompareTo (doc_key doc) (sm_entries (ds_index R)))"
    using key_order.split_parts [OF key_order.sm_ascending [OF ok(1)], of "doc_key doc"] by (metis append_Nil set_append)
  then have "set (sm_entries index) = insert (doc_key doc, doc) (set (sm_entries (ds_index R)))"
    unfolding index(3) key_order.put_strict [OF key_order.sm_ascending [OF ok(1)]] by auto
  then have "set (sm_entries index) = (\<lambda>d. (doc_key d, d)) ` elems s" unfolding el same image_insert .
  then have "ds_ok Compare \<lparr>ds_index = index, ds_sorted = s\<rparr>" using index(2) s(2) by (simp add: ds_ok_def)
  moreover have "ds_insert Compare (Some doc) S = Some \<lparr>ds_index = index, ds_sorted = s\<rparr>"
    using R(1) index(1) s(1) by (simp add: ds_insert_def ss_insert_def)
  ultimately show ?thesis using el R(3) by simp
qed

lemma documents:
  assumes "ds_ok Compare S"
  shows "ss_values (ds_sorted S) = Some (map fst (sm_entries (ds_sorted S)))"
    and "sorted_wrt (\<lambda>x y. Compare x y = Ascending) (map fst (sm_entries (ds_sorted S)))"
    and "ds_map S (doc_key d) = Some d \<longleftrightarrow> d \<in> set (map fst (sm_entries (ds_sorted S)))"
proof -
  have ok: "sm_ok Compare (ds_sorted S)" using assms by (simp add: ds_ok_def)
  show "ss_values (ds_sorted S) = Some (map fst (sm_entries (ds_sorted S)))" unfolding ss_values_def by (rule keys_all [OF ok])
  show "sorted_wrt (\<lambda>x y. Compare x y = Ascending) (map fst (sm_entries (ds_sorted S)))"
    using sm_ascending [OF ok] by (simp add: ascending_def sorted_wrt_map)
  show "ds_map S (doc_key d) = Some d \<longleftrightarrow> d \<in> set (map fst (sm_entries (ds_sorted S)))"
    using ds_map_iff [OF assms, of "doc_key d" d] unfolding elems_def by simp
qed

lemma ends:
  assumes "sm_ok Compare s"
  shows "(if \<not> iter_eq (sm_min s) (sm_end s) then map_option fst (iter_get (sm_min s)) else None)
      = (if sm_entries s = [] then None else Some (hd (map fst (sm_entries s))))"
    and "(if \<not> iter_eq (sm_max s) (sm_end s) then map_option fst (iter_get (sm_max s)) else None)
      = (if sm_entries s = [] then None else Some (last (map fst (sm_entries s))))"
proof -
  note asc = sm_ascending [OF assms]
  note first = start_pos [OF assms] and latest = max_pos [OF assms]
  show "(if \<not> iter_eq (sm_min s) (sm_end s) then map_option fst (iter_get (sm_min s)) else None)
      = (if sm_entries s = [] then None else Some (hd (map fst (sm_entries s))))"
    unfolding sm_min_def at_eq [OF asc refl first end_pos] at_get [OF first] by (simp add: hd_map hd_conv_nth)
  show "(if \<not> iter_eq (sm_max s) (sm_end s) then map_option fst (iter_get (sm_max s)) else None)
      = (if sm_entries s = [] then None else Some (last (map fst (sm_entries s))))"
    unfolding at_eq [OF asc refl latest end_pos] at_get [OF latest] by (cases "sm_entries s") (auto simp: last_map last_conv_nth)
qed

lemma first_last:
  assumes "ds_ok Compare S"
  shows "GetFirstDocument S = (if sm_entries (ds_sorted S) = [] then None else Some (hd (map fst (sm_entries (ds_sorted S)))))"
    and "GetLastDocument S = (if sm_entries (ds_sorted S) = [] then None else Some (last (map fst (sm_entries (ds_sorted S)))))"
proof -
  have ok: "sm_ok Compare (ds_sorted S)" using assms by (simp add: ds_ok_def)
  show "GetFirstDocument S = (if sm_entries (ds_sorted S) = [] then None else Some (hd (map fst (sm_entries (ds_sorted S)))))"
    unfolding GetFirstDocument_def Let_def by (rule ends(1) [OF ok])
  show "GetLastDocument S = (if sm_entries (ds_sorted S) = [] then None else Some (last (map fst (sm_entries (ds_sorted S)))))"
    unfolding GetLastDocument_def Let_def by (rule ends(2) [OF ok])
qed

lemma index_of:
  assumes "ds_ok Compare S"
  shows "ds_map S k = None \<Longrightarrow> IndexOf Compare k S = ucast npos"
    and "i < length (sm_entries (ds_sorted S)) \<Longrightarrow> IndexOf Compare (doc_key (fst (sm_entries (ds_sorted S) ! i))) S = of_nat i"
proof -
  show "ds_map S k = None \<Longrightarrow> IndexOf Compare k S = ucast npos"
    using get_document [OF assms] by (simp add: IndexOf_def)
  assume i: "i < length (sm_entries (ds_sorted S))"
  define xs where "xs = sm_entries (ds_sorted S)"
  define d where "d = fst (xs ! i)"
  have ok: "sm_ok Compare (ds_sorted S)" using assms by (simp add: ds_ok_def)
  have asc: "ascending Compare xs" unfolding xs_def by (rule sm_ascending [OF ok])
  have small: "length (sm_entries (ds_sorted S)) < 2 ^ 32" using sorted_map.within [OF ok] by (simp add: max_entries_def)
  have "d \<in> set (map fst xs)" using i by (simp add: d_def xs_def)
  then have "GetDocument (doc_key d) S = Some d" using documents(3) [OF assms, of d] get_document [OF assms] by (simp add: xs_def)
  then have idx: "IndexOf Compare (doc_key d) S = ucast (sm_find_index Compare d (ds_sorted S))" by (simp add: IndexOf_def ss_find_index_def)
  have split: "xs = take i xs @ xs ! i # drop (Suc i) xs" using i by (simp add: xs_def id_take_nth_drop)
  have "ascending Compare (take i xs @ xs ! i # drop (Suc i) xs)" using asc split by simp
  then have "below Compare d (take i xs) = take i xs" "below Compare d (drop (Suc i) xs) = []"
    using parts_before(1) [of "take i xs" "xs ! i" d] parts_after(1) [of "xs ! i" "drop (Suc i) xs" d] by (simp_all add: d_def)
  then have "below Compare d xs = take i xs" using arg_cong [OF split, of "below Compare d"] by (simp add: parts_Cons d_def)
  moreover have "xs ! i \<in> set xs" using i by (simp add: xs_def)
  then have "equal_to Compare d xs \<noteq> []" unfolding equal_to_def filter_empty_conv d_def using refl by blast
  ultimately show "IndexOf Compare (doc_key (fst (sm_entries (ds_sorted S) ! i))) S = of_nat i"
    using sm_find_index_eq [OF ok, of d] idx i small
    by (simp add: xs_def [symmetric] d_def [symmetric] word_unat_eq_iff unat_ucast_mod unat_of_nat)
qed

end

section \<open>Sequences of calls\<close>

datatype 'a doc_call = InsertDocument "'a document option" | EraseDocument document_key

fun doc_step :: "'a document cmp \<Rightarrow> 'a doc_call \<Rightarrow> 'a document_set \<Rightarrow> 'a document_set option" where
  "doc_step cmp (InsertDocument d) S = ds_insert cmp d S"
| "doc_step cmp (EraseDocument k) S = ds_erase cmp k S"

fun doc_abs :: "'a doc_call \<Rightarrow> (document_key \<rightharpoonup> 'a document) \<Rightarrow> (document_key \<rightharpoonup> 'a document)" where
  "doc_abs (InsertDocument None) f = f"
| "doc_abs (InsertDocument (Some d)) f = f(doc_key d \<mapsto> d)"
| "doc_abs (EraseDocument k) f = f(k := None)"

context document_comparator
begin

lemma doc_step_ok:
  assumes "ds_ok Compare S" and "card (elems (ds_sorted S)) < max_entries"
  shows "\<exists>S'. doc_step Compare c S = Some S' \<and> ds_ok Compare S' \<and> ds_map S' = doc_abs c (ds_map S) \<and> card (elems (ds_sorted S')) \<le> Suc (card (elems (ds_sorted S)))"
proof -
  have smaller: "card {d \<in> elems (ds_sorted S). doc_key d \<noteq> k} \<le> card (elems (ds_sorted S))" for k by (intro card_mono) auto
  show ?thesis
  proof (cases c)
    case (InsertDocument document)
    show ?thesis
    proof (cases document)
      case None
      then show ?thesis using InsertDocument assms by (simp add: ds_insert_def)
    next
      case (Some doc)
      obtain S' where S': "ds_insert Compare (Some doc) S = Some S'" "ds_ok Compare S'"
          "elems (ds_sorted S') = insert doc {d \<in> elems (ds_sorted S). doc_key d \<noteq> doc_key doc}"
        using insert_ok [OF assms] by blast
      have "ds_map S' k = Some d \<longleftrightarrow> ((ds_map S)(doc_key doc \<mapsto> doc)) k = Some d" for k d
        unfolding ds_map_iff [OF S'(2)] S'(3) using ds_map_iff [OF assms(1), of k d] by auto
      then have "ds_map S' = (ds_map S)(doc_key doc \<mapsto> doc)" by (rule map_eqI)
      moreover have "card (elems (ds_sorted S')) \<le> Suc (card {d \<in> elems (ds_sorted S). doc_key d \<noteq> doc_key doc})"
        unfolding S'(3) by (rule card_insert_Suc)
      ultimately show ?thesis using InsertDocument Some S'(1,2) smaller [of "doc_key doc"] by (simp add: le_trans)
    qed
  next
    case (EraseDocument k)
    obtain S' where S': "ds_erase Compare k S = Some S'" "ds_ok Compare S'" "elems (ds_sorted S') = {d \<in> elems (ds_sorted S). doc_key d \<noteq> k}"
      using erase_ok [OF assms(1)] by blast
    have "ds_map S' j = Some d \<longleftrightarrow> ((ds_map S)(k := None)) j = Some d" for j d
      unfolding ds_map_iff [OF S'(2)] S'(3) using ds_map_iff [OF assms(1), of j d] by auto
    then have "ds_map S' = (ds_map S)(k := None)" by (rule map_eqI)
    then show ?thesis using EraseDocument S' smaller [of k] by (simp add: le_SucI)
  qed
qed

lemma doc_run_ok:
  "ds_ok Compare S \<Longrightarrow> card (elems (ds_sorted S)) + length cs \<le> max_entries \<Longrightarrow>
   \<exists>S'. fold_option (doc_step Compare) cs S = Some S' \<and> ds_ok Compare S' \<and> ds_map S' = fold doc_abs cs (ds_map S)"
proof (induction cs arbitrary: S)
  case (Cons c cs)
  have "card (elems (ds_sorted S)) < max_entries" using Cons.prems(2) by simp
  from doc_step_ok [OF Cons.prems(1) this, of c] obtain S' where "doc_step Compare c S = Some S'" "ds_ok Compare S'" "ds_map S' = doc_abs c (ds_map S)"
    "card (elems (ds_sorted S')) \<le> Suc (card (elems (ds_sorted S)))" by blast
  then show ?case using Cons.IH [of S'] Cons.prems(2) by simp
qed simp

lemma new_ok: "ds_ok Compare ds_new"
  by (simp add: ds_ok_def ds_new_def sorted_map.none_ok key_order.sorted_map.none_ok)

lemma count_ok: "ds_ok Compare S \<Longrightarrow> ds_size S = of_nat (card (dom (ds_map S)))"
proof -
  assume ok: "ds_ok Compare S"
  then have m: "sm_ok key_CompareTo (ds_index S)" by (simp add: ds_ok_def)
  have "card (dom (ds_map S)) = length (sm_entries (ds_index S))"
    using distinct_card [OF key_order.ascending_distinct [OF key_order.sm_ascending [OF m]]] unfolding ds_map_def dom_map_of_conv_image_fst by simp
  moreover have "length (sm_entries (ds_index S)) < 2 ^ 32"
    using key_order.sorted_map.within [OF m] by (simp add: max_entries_def)
  ultimately show ?thesis
    using key_order.sm_count_eq [OF m] by (simp add: ds_size_def word_unat_eq_iff unat_ucast_mod unat_of_nat)
qed

end

text \<open>C9. A document set refines a map from keys to documents. After any calls, it finds the last document inserted under a key,
  a loop over it sees these documents in ascending order, each once, the index of a key is its document's position in this
  order, or \<open>npos\<close>, and the first and the last document are the ends of the order.\<close>

theorem document_set_refines:
  assumes "document_comparator cmp" and "length cs < 2 ^ 31"
  defines "f \<equiv> fold doc_abs cs Map.empty"
  shows "\<exists>S ds. fold_option (doc_step cmp) cs ds_new = Some S \<and> ds_size S = of_nat (card (dom f)) \<and>
    (\<forall>k. GetDocument k S = f k \<and> (ds_ContainsKey k S \<longleftrightarrow> f k \<noteq> None) \<and> (f k = None \<longrightarrow> IndexOf cmp k S = ucast npos)) \<and>
    ss_values (ds_sorted S) = Some ds \<and> sorted_wrt (\<lambda>x y. cmp x y = Ascending) ds \<and> (\<forall>d. d \<in> set ds \<longleftrightarrow> f (doc_key d) = Some d) \<and>
    (\<forall>i<length ds. IndexOf cmp (doc_key (ds ! i)) S = of_nat i) \<and>
    GetFirstDocument S = (if ds = [] then None else Some (hd ds)) \<and> GetLastDocument S = (if ds = [] then None else Some (last ds))"
proof -
  obtain S where S: "fold_option (doc_step cmp) cs ds_new = Some S" "ds_ok cmp S" "ds_map S = f"
    using document_comparator.doc_run_ok [OF assms(1) document_comparator.new_ok [OF assms(1)], of cs] assms(2)
    unfolding f_def by (auto simp: max_entries_def)
  define xs where "xs = sm_entries (ds_sorted S)"
  note docs = document_comparator.documents [OF assms(1) S(2), folded xs_def]
  show ?thesis
    using S(1) document_comparator.count_ok [OF assms(1) S(2)] get_document [OF S(2)] S(3) contains_document [OF S(2)] docs
      document_comparator.index_of [OF assms(1) S(2)] document_comparator.first_last [OF assms(1) S(2)]
    by (intro exI [of _ S] exI [of _ "map fst xs"]) (simp add: xs_def)
qed

lemma document_set_refines_witness:
  "\<exists>S. fold_option (doc_step DocumentComparator_ByKey)
      [InsertDocument (Some \<lparr>doc_key = [[2], [1]], doc_contents = True\<rparr>), InsertDocument (Some \<lparr>doc_key = [[1], [1]], doc_contents = False\<rparr>),
       InsertDocument None, InsertDocument (Some \<lparr>doc_key = [[2], [1]], doc_contents = False\<rparr>)] ds_new = Some S \<and>
    GetDocument [[2], [1]] S = Some \<lparr>doc_key = [[2], [1]], doc_contents = False\<rparr> \<and> ds_size S = 2 \<and> IndexOf DocumentComparator_ByKey [[3], [1]] S = ucast npos"
  (is "\<exists>S. fold_option (doc_step DocumentComparator_ByKey) ?cs ds_new = Some S \<and> _")
proof -
  have "fold doc_abs ?cs Map.empty = [[[2], [1]] \<mapsto> \<lparr>doc_key = [[2], [1]], doc_contents = False\<rparr>, [[1], [1]] \<mapsto> \<lparr>doc_key = [[1], [1]], doc_contents = False\<rparr>]"
    by (auto simp: fun_eq_iff)
  then show ?thesis
    using document_set_refines [OF by_document_key.document_comparator_axioms, of ?cs] by auto
qed

end
