(* ===== verification/Firestore_Bits.thy ===== *)
theory Firestore_Bits
  imports Prelude
begin

text \<open>
  The logarithms of Firestore's \<open>util/bits.h\<close> and \<open>bits.cc\<close>: the builtin of the compiler that counts leading zeros,
  and the portable loop.
\<close>

section \<open>The code\<close>

definition builtin_clz :: "'a::len word \<Rightarrow> nat" where
  "builtin_clz n = length (takeWhile (\<lambda>i. \<not> bit n i) (rev [0..<LENGTH('a)]))"

definition Log2FloorNonZero :: "u32 \<Rightarrow> int" where
  "Log2FloorNonZero n = 31 XOR int (builtin_clz n)"

definition Log2Floor :: "u32 \<Rightarrow> int" where
  "Log2Floor n = (if n = 0 then -1 else 31 XOR int (builtin_clz n))"

definition Log2FloorNonZero64 :: "u64 \<Rightarrow> int" where
  "Log2FloorNonZero64 n = 63 XOR int (builtin_clz n)"

definition Log2Floor64 :: "u64 \<Rightarrow> int" where
  "Log2Floor64 n = (if n = 0 then -1 else 63 XOR int (builtin_clz n))"

text \<open>The loop over the shifts 16, 8, 4, 2, 1. The assertion at its end is the option.\<close>

fun Log2Floor_loop :: "nat \<Rightarrow> u32 \<Rightarrow> int \<Rightarrow> u32 \<times> int" where
  "Log2Floor_loop 0 v log = (v, log)"
| "Log2Floor_loop (Suc i) v log =
     (let shift = 2 ^ i; x = drop_bit shift v
      in if x \<noteq> 0 then Log2Floor_loop i x (log + int shift) else Log2Floor_loop i v log)"

definition Log2Floor_Portable :: "u32 \<Rightarrow> int option" where
  "Log2Floor_Portable n =
     (if n = 0 then Some (-1)
      else let (v, log) = Log2Floor_loop 5 n 0 in if v = 1 then Some log else None)"

definition Log2FloorNonZero_Portable :: "u32 \<Rightarrow> int" where
  "Log2FloorNonZero_Portable n = Log2Floor n"

definition Log2Floor64_Portable :: "u64 \<Rightarrow> int" where
  "Log2Floor64_Portable n =
     (let top_bits = ucast (drop_bit 32 n)
      in if top_bits = 0 then Log2Floor (ucast n) else 32 + Log2FloorNonZero top_bits)"

definition Log2FloorNonZero64_Portable :: "u64 \<Rightarrow> int" where
  "Log2FloorNonZero64_Portable n =
     (let top_bits = ucast (drop_bit 32 n)
      in if top_bits = 0 then Log2FloorNonZero (ucast n) else 32 + Log2FloorNonZero top_bits)"

section \<open>They are the logarithm\<close>

lemma takeWhile_rev_upt: "(\<forall>j. k < j \<and> j < n \<longrightarrow> P j) \<Longrightarrow> \<not> P k \<Longrightarrow> k < n \<Longrightarrow> length (takeWhile P (rev [0..<n])) = n - 1 - k"
proof (induction n)
  case (Suc n)
  then show ?case by (cases "k = n") auto
qed simp

lemma top_bit:
  fixes w :: "'a::len word"
  assumes "2 ^ k \<le> unat w" and "unat w < 2 ^ Suc k"
  shows "builtin_clz w = LENGTH('a) - 1 - k" and "k < LENGTH('a)"
proof -
  show k: "k < LENGTH('a)"
    using assms(1) word_unat_lt [of w] power_less_imp_less_exp [of "2 :: nat" k "LENGTH('a)"] by linarith
  have "bit w k"
  proof -
    have "unat w div 2 ^ k = 1" using assms by (intro div_nat_eqI) simp_all
    then have "bit (unat w) k" by (simp add: bit_iff_odd)
    then show ?thesis by (simp add: bit_unsigned_iff)
  qed
  moreover have "\<not> bit w j" if "k < j" for j
  proof -
    have "unat w < 2 ^ j" using assms(2) that by (meson Suc_leI less_le_trans one_le_numeral power_increasing)
    then have "drop_bit j w = 0" by (simp add: word_unat_eq_iff unat_drop_bit)
    then show ?thesis by (simp add: bit_iff_odd_drop_bit)
  qed
  ultimately show "builtin_clz w = LENGTH('a) - 1 - k"
    unfolding builtin_clz_def using k by (intro takeWhile_rev_upt) auto
qed

lemma xor_31: "k < 32 \<Longrightarrow> 31 XOR int (31 - k) = int k"
proof -
  have "list_all (\<lambda>k. 31 XOR int (31 - k) = int k) [0..<32]" by code_simp
  then show "k < 32 \<Longrightarrow> 31 XOR int (31 - k) = int k" by (simp add: list_all_iff)
qed

lemma xor_63: "k < 64 \<Longrightarrow> 63 XOR int (63 - k) = int k"
proof -
  have "list_all (\<lambda>k. 63 XOR int (63 - k) = int k) [0..<64]" by code_simp
  then show "k < 64 \<Longrightarrow> 63 XOR int (63 - k) = int k" by (simp add: list_all_iff)
qed

lemma log2_eq:
  assumes "2 ^ k \<le> unat n" and "unat n < 2 ^ Suc k"
  shows "Log2FloorNonZero n = int k" "Log2Floor n = int k"
  using top_bit [OF assms] xor_31 [of k] assms by (auto simp: Log2FloorNonZero_def Log2Floor_def)

lemma log2_64_eq:
  assumes "2 ^ k \<le> unat n" and "unat n < 2 ^ Suc k"
  shows "Log2FloorNonZero64 n = int k" "Log2Floor64 n = int k"
  using top_bit [OF assms] xor_63 [of k] assms by (auto simp: Log2FloorNonZero64_def Log2Floor64_def)

lemma log2_exists: "0 < m \<Longrightarrow> \<exists>k. 2 ^ k \<le> m \<and> m < 2 ^ Suc k" for m :: nat
proof (induction m rule: less_induct)
  case (less m)
  show ?case
  proof (cases "m = 1")
    case False
    then obtain k where "2 ^ k \<le> m div 2" "m div 2 < 2 ^ Suc k" using less.IH [of "m div 2"] less.prems by auto
    then show ?thesis by (intro exI [of _ "Suc k"]) auto
  qed (auto intro: exI [of _ 0])
qed

lemma portable_loop: "0 < unat v \<Longrightarrow> unat v < 2 ^ 2 ^ i \<Longrightarrow>
    \<exists>k. Log2Floor_loop i v log = (1, log + int k) \<and> 2 ^ k \<le> unat v \<and> unat v < 2 ^ Suc k"
proof (induction i arbitrary: v log)
  case 0
  then have "unat v = 1" by simp
  then show ?case by (intro exI [of _ 0]) (simp add: word_unat_eq_iff)
next
  case (Suc i)
  define x where "x = drop_bit (2 ^ i) v"
  have x: "unat x = unat v div 2 ^ 2 ^ i" by (simp add: x_def unat_drop_bit)
  show ?case
  proof (cases "x = 0")
    case True
    then have "unat v < 2 ^ 2 ^ i" using x by (simp add: div_eq_0_iff)
    then show ?thesis using Suc.IH [OF Suc.prems(1), of log] True x_def by (simp add: Let_def)
  next
    case False
    then have "0 < unat x" by (simp add: unat_gt_0)
    moreover have "unat x < 2 ^ 2 ^ i"
      unfolding x using Suc.prems(2) by (intro less_mult_imp_div_less) (simp flip: power_add mult_2)
    ultimately obtain k where k: "Log2Floor_loop i x (log + int (2 ^ i)) = (1, log + int (2 ^ i) + int k)" "2 ^ k \<le> unat x" "unat x < 2 ^ Suc k"
      using Suc.IH by blast
    have "2 ^ k * 2 ^ 2 ^ i \<le> unat v" using k(2) unfolding x by (metis div_times_less_eq_dividend le_trans mult_le_mono1)
    moreover have "unat v < 2 ^ Suc k * 2 ^ 2 ^ i" using k(3) unfolding x by (simp add: div_less_iff_less_mult)
    ultimately show ?thesis using k(1) False x_def
      by (intro exI [of _ "2 ^ i + k"]) (simp add: Let_def power_add algebra_simps)
  qed
qed

lemma portable_eq: "Log2Floor_Portable n = Some (Log2Floor n)"
proof (cases "n = 0")
  case False
  then have "0 < unat n" by (simp add: unat_gt_0)
  moreover have "unat n < 2 ^ 2 ^ 5" using word_unat_lt [of n] by simp
  ultimately obtain k where "Log2Floor_loop 5 n 0 = (1, int k)" "2 ^ k \<le> unat n" "unat n < 2 ^ Suc k"
    using portable_loop [of n 5 0] by auto
  then show ?thesis using log2_eq [of k n] False by (simp add: Log2Floor_Portable_def)
qed (simp add: Log2Floor_Portable_def Log2Floor_def)

lemma portable64_eq: "Log2Floor64_Portable n = Log2Floor64 n"
proof (cases "unat n < 2 ^ 32")
  case True
  then have top: "drop_bit 32 n = 0" by (simp add: word_unat_eq_iff unat_drop_bit)
  have low: "unat (ucast n :: u32) = unat n" using True by (simp add: unat_ucast_mod)
  have "Log2Floor (ucast n) = Log2Floor64 n"
  proof (cases "n = 0")
    case False
    then obtain k where "2 ^ k \<le> unat n" "unat n < 2 ^ Suc k" using log2_exists [of "unat n"] by (auto simp: unat_gt_0)
    then show ?thesis using log2_eq(2) [of k "ucast n"] log2_64_eq(2) [of k n] low by simp
  qed (simp add: Log2Floor_def Log2Floor64_def)
  then show ?thesis using top by (simp add: Log2Floor64_Portable_def)
next
  case False
  define t where "t = (ucast (drop_bit 32 n) :: u32)"
  have t: "unat t = unat n div 2 ^ 32"
    using word_unat_lt [of n] by (simp add: t_def unat_ucast_mod unat_drop_bit div_less_iff_less_mult)
  then have "0 < unat t" using False by (simp add: div_greater_zero_iff)
  then obtain k where k: "2 ^ k \<le> unat t" "unat t < 2 ^ Suc k" using log2_exists by blast
  have "2 ^ k * 2 ^ 32 \<le> unat n" using k(1) unfolding t by (metis div_times_less_eq_dividend le_trans mult_le_mono1)
  moreover have "unat n < 2 ^ Suc k * 2 ^ 32" using k(2) unfolding t by (simp add: div_less_iff_less_mult)
  ultimately have "Log2Floor64 n = int (32 + k)" using log2_64_eq(2) [of "32 + k" n] by (simp add: power_add)
  then show ?thesis using log2_eq(1) [OF k] \<open>0 < unat t\<close>
    by (simp add: Log2Floor64_Portable_def t_def [symmetric] unat_gt_0)
qed

lemma portable_nonzero_eq:
  "n \<noteq> 0 \<Longrightarrow> Log2FloorNonZero_Portable n = Log2FloorNonZero n"
  "m \<noteq> 0 \<Longrightarrow> Log2FloorNonZero64_Portable m = Log2FloorNonZero64 m"
proof -
  show "n \<noteq> 0 \<Longrightarrow> Log2FloorNonZero_Portable n = Log2FloorNonZero n"
    by (simp add: Log2FloorNonZero_Portable_def Log2Floor_def Log2FloorNonZero_def)
  assume m: "m \<noteq> 0"
  have "ucast m \<noteq> (0 :: u32)" if "(ucast (drop_bit 32 m) :: u32) = 0"
  proof
    assume "ucast m = (0 :: u32)"
    then have "unat m mod 2 ^ 32 = 0" by (simp add: word_unat_eq_iff unat_ucast_mod)
    moreover have "unat m div 2 ^ 32 = 0"
      using that word_unat_lt [of m] by (simp add: word_unat_eq_iff unat_ucast_mod unat_drop_bit div_less_iff_less_mult)
    ultimately have "unat m = 0" using div_mult_mod_eq [of "unat m" "2 ^ 32"] by simp
    then show False using m by (simp add: unat_eq_0)
  qed
  then have "Log2FloorNonZero64_Portable m = Log2Floor64_Portable m"
    unfolding Log2FloorNonZero64_Portable_def Log2Floor64_Portable_def Let_def by (simp add: Log2Floor_def Log2FloorNonZero_def)
  then show "Log2FloorNonZero64_Portable m = Log2FloorNonZero64 m"
    using m by (simp add: portable64_eq Log2Floor64_def Log2FloorNonZero64_def)
qed

text \<open>
  The portable logarithms and the ones by the builtin agree, the assertion of the loop holds, and they are the position of
  the highest bit.
\<close>

theorem log2_exact:
  "Log2Floor_Portable n = Some (Log2Floor n) \<and> Log2Floor64_Portable m = Log2Floor64 m \<and>
   (n = 0 \<or> (2 ^ nat (Log2Floor n) \<le> unat n \<and> unat n < 2 ^ Suc (nat (Log2Floor n)) \<and> Log2FloorNonZero n = Log2Floor n)) \<and>
   (m = 0 \<or> (2 ^ nat (Log2Floor64 m) \<le> unat m \<and> unat m < 2 ^ Suc (nat (Log2Floor64 m)) \<and> Log2FloorNonZero64 m = Log2Floor64 m))"
proof (intro conjI)
  show "n = 0 \<or> (2 ^ nat (Log2Floor n) \<le> unat n \<and> unat n < 2 ^ Suc (nat (Log2Floor n)) \<and> Log2FloorNonZero n = Log2Floor n)"
  proof (cases "n = 0")
    case False
    then obtain k where "2 ^ k \<le> unat n" "unat n < 2 ^ Suc k" using log2_exists [of "unat n"] by (auto simp: unat_gt_0)
    then show ?thesis using log2_eq [of k n] by simp
  qed simp
  show "m = 0 \<or> (2 ^ nat (Log2Floor64 m) \<le> unat m \<and> unat m < 2 ^ Suc (nat (Log2Floor64 m)) \<and> Log2FloorNonZero64 m = Log2Floor64 m)"
  proof (cases "m = 0")
    case False
    then obtain k where "2 ^ k \<le> unat m" "unat m < 2 ^ Suc k" using log2_exists [of "unat m"] by (auto simp: unat_gt_0)
    then show ?thesis using log2_64_eq [of k m] by simp
  qed simp
qed (simp_all add: portable_eq portable64_eq)

end
