(* ===== verification/Ordered_Bytes.thy ===== *)
theory Ordered_Bytes
  imports Firestore_Bits Comparison
begin

text \<open>
  The byte work of Firestore's ordered codes (\<open>util/ordered_code.cc\<close>): copying with inversion in blocks, the search for a
  byte to be escaped with tests of several bytes at once, and the reading and writing of strings with escapes. The
  machine is little-endian, like the platforms the application ships for. A failed assertion is \<open>None\<close>.
\<close>

section \<open>Loads and stores\<close>

fun le_word :: "byte list \<Rightarrow> 'a::len word" where
  "le_word [] = 0"
| "le_word (b # bs) = ucast b OR push_bit 8 (le_word bs)"

definition le_bytes :: "nat \<Rightarrow> 'a::len word \<Rightarrow> byte list" where
  "le_bytes n w = map (\<lambda>i. ucast (drop_bit (8 * i) w)) [0..<n]"

definition UNALIGNED_LOAD :: "nat \<Rightarrow> byte list \<Rightarrow> 'a::len word" where
  "UNALIGNED_LOAD p src = le_word (take (LENGTH('a) div 8) (drop p src))"

definition UNALIGNED_STORE :: "nat \<Rightarrow> 'a::len word \<Rightarrow> byte list \<Rightarrow> byte list" where
  "UNALIGNED_STORE p w dst = take p dst @ le_bytes (LENGTH('a) div 8) w @ drop (p + LENGTH('a) div 8) dst"

section \<open>Inversion\<close>

definition Convert :: "bool \<Rightarrow> 'a::len word \<Rightarrow> 'a word" where
  "Convert INVERT x = (if INVERT then NOT x else x)"

definition Convert_pair :: "bool \<Rightarrow> byte \<Rightarrow> byte \<Rightarrow> u16" where
  "Convert_pair INVERT a b = (let x = ucast a OR push_bit 8 (ucast b) in if INVERT then NOT x else x)"

definition copy16 :: "bool \<Rightarrow> byte list \<Rightarrow> nat \<Rightarrow> byte list \<Rightarrow> byte list" where
  "copy16 INVERT src p dst = UNALIGNED_STORE p (Convert INVERT (UNALIGNED_LOAD p src :: u16)) dst"

definition copy32 :: "bool \<Rightarrow> byte list \<Rightarrow> nat \<Rightarrow> byte list \<Rightarrow> byte list" where
  "copy32 INVERT src p dst = UNALIGNED_STORE p (Convert INVERT (UNALIGNED_LOAD p src :: u32)) dst"

definition copy64 :: "bool \<Rightarrow> byte list \<Rightarrow> nat \<Rightarrow> byte list \<Rightarrow> byte list" where
  "copy64 INVERT src p dst = UNALIGNED_STORE p (Convert INVERT (UNALIGNED_LOAD p src :: u64)) dst"

function copy_words :: "bool \<Rightarrow> byte list \<Rightarrow> nat \<Rightarrow> nat \<Rightarrow> byte list \<Rightarrow> byte list" where
  "copy_words INVERT src len pos dst = (if pos < len - 8 then copy_words INVERT src len (pos + 8) (copy64 INVERT src pos dst) else dst)"
  by pat_completeness auto
termination by (relation "measure (\<lambda>(INVERT, src, len, pos, dst). len - pos)") auto

declare copy_words.simps [simp del]

definition CopyInvertedBytes :: "bool \<Rightarrow> byte list \<Rightarrow> byte list \<Rightarrow> nat \<Rightarrow> byte list" where
  "CopyInvertedBytes INVERT dst src len =
     (if len = 0 then dst
      else if len = 1 then dst[0 := Convert INVERT (src ! 0)]
      else if len = 3 then copy16 INVERT src 0 (dst[2 := Convert INVERT (src ! 2)])
      else if len = 2 then copy16 INVERT src 0 dst
      else if len = 5 \<or> len = 6 \<or> len = 7 then copy32 INVERT src 0 (copy32 INVERT src (len - 4) dst)
      else if len = 4 then copy32 INVERT src 0 dst
      else copy64 INVERT src (len - 8) (copy_words INVERT src len 0 dst))"

text \<open>The bytes that the string grows by are not initialized in the code and zeros here, until they are overwritten.\<close>

definition AppendBytes :: "bool \<Rightarrow> byte list \<Rightarrow> byte list \<Rightarrow> nat \<Rightarrow> byte list" where
  "AppendBytes INVERT dest src len = dest @ CopyInvertedBytes INVERT (replicate len 0) src len"

section \<open>The search for special bytes\<close>

definition IsSpecialByte :: "byte \<Rightarrow> bool" where
  "IsSpecialByte c \<longleftrightarrow> c + 1 < 2"

definition AdvanceIfNoSpecialBytes :: "u32 \<Rightarrow> byte list \<Rightarrow> nat \<Rightarrow> nat option" where
  "AdvanceIfNoSpecialBytes v_32 s p =
     (if UNALIGNED_LOAD p s \<noteq> v_32 then None
      else if (v_32 - 0x01010101) AND NOT (v_32 + 0x01010101) AND 0x80808080 \<noteq> 0 then
        (if IsSpecialByte (s ! p) \<or> IsSpecialByte (s ! (p + 1)) \<or> IsSpecialByte (s ! (p + 2)) \<or> IsSpecialByte (s ! (p + 3)) then Some 0 else None)
      else
        (if \<not> IsSpecialByte (s ! p) \<and> \<not> IsSpecialByte (s ! (p + 1)) \<and> \<not> IsSpecialByte (s ! (p + 2)) \<and> \<not> IsSpecialByte (s ! (p + 3)) then Some 4 else None))"

function skip_bytes :: "byte list \<Rightarrow> nat \<Rightarrow> nat \<Rightarrow> nat" where
  "skip_bytes s p limit = (if p < limit \<and> \<not> IsSpecialByte (s ! p) then skip_bytes s (p + 1) limit else p)"
  by pat_completeness auto
termination by (relation "measure (\<lambda>(s, p, limit). limit - p)") auto

declare skip_bytes.simps [simp del]

function SkipToNextSpecialByte :: "byte list \<Rightarrow> nat \<Rightarrow> nat \<Rightarrow> nat option" where
  "SkipToNextSpecialByte s p limit =
     (if p + 8 \<le> limit then
        (let v = UNALIGNED_LOAD p s :: u64
         in if (v - 0x0101010101010101) AND NOT (v + 0x0101010101010101) AND 0x8080808080808080 = 0
            then SkipToNextSpecialByte s (p + 8) limit
            else Option.bind (AdvanceIfNoSpecialBytes (ucast v) s p) (\<lambda>d.
              let p = p + d
              in if IsSpecialByte (s ! p) then Some p
                 else if IsSpecialByte (s ! (p + 1)) then Some (p + 1)
                 else if IsSpecialByte (s ! (p + 2)) then Some (p + 2)
                 else if IsSpecialByte (s ! (p + 3)) then Some (p + 3) else None))
      else
        Option.bind (if p + 4 \<le> limit then AdvanceIfNoSpecialBytes (UNALIGNED_LOAD p s) s p else Some 0) (\<lambda>d.
          Some (skip_bytes s (p + d) limit)))"
  by pat_completeness auto
termination by (relation "measure (\<lambda>(s, p, limit). limit - p)") auto

declare SkipToNextSpecialByte.simps [simp del]

section \<open>Loads, stores and inversion byte by byte\<close>

lemma bit_le_word: "bit (le_word bs :: 'a::len word) i \<longleftrightarrow> i < LENGTH('a) \<and> i div 8 < length bs \<and> bit (bs ! (i div 8)) (i mod 8)"
proof (induction bs arbitrary: i)
  case (Cons b bs)
  show ?case
  proof (cases "i < 8")
    case True
    then show ?thesis by (simp add: bit_simps)
  next
    case False
    then have i: "i div 8 = Suc ((i - 8) div 8)" "i mod 8 = (i - 8) mod 8" by (simp_all add: le_div_geq le_mod_geq)
    have "\<not> bit b i" using False by (auto dest: bit_imp_le_length)
    then show ?thesis using False Cons [of "i - 8"] by (auto simp: bit_simps i)
  qed
qed simp

lemma length_le_bytes [simp]: "length (le_bytes n w) = n"
  by (simp add: le_bytes_def)

lemma nth_le_bytes: "i < n \<Longrightarrow> 8 * n \<le> LENGTH('a::len) \<Longrightarrow> k < 8 \<Longrightarrow> bit (le_bytes n (w :: 'a word) ! i) k \<longleftrightarrow> bit w (8 * i + k)"
  by (simp add: le_bytes_def bit_simps add.commute)

lemma le_bytes_le_word:
  assumes "length bs = n" and "8 * n \<le> LENGTH('a::len)"
  shows "le_bytes n (le_word bs :: 'a word) = bs" and "le_bytes n (NOT (le_word bs) :: 'a word) = map NOT bs"
proof -
  have pos: "(8 * i + k) div 8 = i" "(8 * i + k) mod 8 = k" if "k < 8" for i k :: nat using that by simp_all
  show "le_bytes n (le_word bs :: 'a word) = bs"
  proof (rule nth_equalityI)
    show "le_bytes n (le_word bs :: 'a word) ! i = bs ! i" if "i < length (le_bytes n (le_word bs :: 'a word))" for i
      using that assms by (intro bit_word_eqI) (simp add: nth_le_bytes bit_le_word pos)
  qed (simp add: assms)
  show "le_bytes n (NOT (le_word bs) :: 'a word) = map NOT bs"
  proof (rule nth_equalityI)
    show "le_bytes n (NOT (le_word bs) :: 'a word) ! i = map NOT bs ! i" if "i < length (le_bytes n (NOT (le_word bs) :: 'a word))" for i
      using that assms by (intro bit_word_eqI) (simp add: nth_le_bytes bit_le_word pos bit_not_iff)
  qed (simp add: assms)
qed

lemma le_word_le_bytes:
  assumes "LENGTH('a) = 8 * n"
  shows "le_word (le_bytes n w) = (w :: 'a::len word)"
proof (rule bit_word_eqI)
  fix i
  assume "i < LENGTH('a)"
  then have "i div 8 < n" using assms by (simp add: less_mult_imp_div_less)
  then show "bit (le_word (le_bytes n w) :: 'a word) i = bit w i"
    using \<open>i < LENGTH('a)\<close> assms by (simp add: bit_le_word nth_le_bytes)
qed

lemma store_block:
  assumes "LENGTH('a::len) = 8 * n" and "p + n \<le> length src"
  shows "UNALIGNED_STORE p (Convert INVERT (UNALIGNED_LOAD p src :: 'a word)) dst
    = take p dst @ map (Convert INVERT) (take n (drop p src)) @ drop (p + n) dst"
  using le_bytes_le_word [of "take n (drop p src)" n, where 'a = 'a] assms
  by (simp add: UNALIGNED_STORE_def UNALIGNED_LOAD_def Convert_def cong: map_cong)

lemma copy_blocks:
  "p + 2 \<le> length src \<Longrightarrow> copy16 INVERT src p dst = take p dst @ map (Convert INVERT) (take 2 (drop p src)) @ drop (p + 2) dst"
  "p + 4 \<le> length src \<Longrightarrow> copy32 INVERT src p dst = take p dst @ map (Convert INVERT) (take 4 (drop p src)) @ drop (p + 4) dst"
  "p + 8 \<le> length src \<Longrightarrow> copy64 INVERT src p dst = take p dst @ map (Convert INVERT) (take 8 (drop p src)) @ drop (p + 8) dst"
  unfolding copy16_def copy32_def copy64_def by (rule store_block; simp)+

lemma copy_words_eq:
  assumes "len \<le> length src" and "length dst = len" and "8 \<le> len"
  shows "pos \<le> len \<Longrightarrow> take pos dst = map (Convert INVERT) (take pos src) \<Longrightarrow>
    \<exists>q. len - 8 \<le> q \<and> length (copy_words INVERT src len pos dst) = len \<and>
      take q (copy_words INVERT src len pos dst) = map (Convert INVERT) (take q src)"
  using assms(2)
proof (induction "len - pos" arbitrary: pos dst rule: less_induct)
  case less
  show ?case
  proof (cases "pos < len - 8")
    case False
    then show ?thesis using less.prems by (intro exI [of _ pos]) (simp add: copy_words.simps [of _ _ _ pos])
  next
    case True
    then have room: "pos + 8 \<le> length src" using assms(1) by simp
    have "take (pos + 8) (copy64 INVERT src pos dst) = map (Convert INVERT) (take (pos + 8) src)"
      using less.prems(2,3) room True by (simp add: copy_blocks(3) take_add)
    moreover have "length (copy64 INVERT src pos dst) = len" using less.prems(3) room True by (simp add: copy_blocks(3))
    ultimately show ?thesis using less.hyps [of "pos + 8" "copy64 INVERT src pos dst"] True
      by (simp add: copy_words.simps [of _ _ _ pos])
  qed
qed

lemma CopyInvertedBytes_eq:
  assumes "len \<le> length src" and "length dst = len"
  shows "CopyInvertedBytes INVERT dst src len = map (Convert INVERT) (take len src)"
proof (cases "8 \<le> len")
  case True
  obtain q where q: "len - 8 \<le> q" "length (copy_words INVERT src len 0 dst) = len"
      "take q (copy_words INVERT src len 0 dst) = map (Convert INVERT) (take q src)"
    using copy_words_eq [OF assms True, of 0] by auto
  then have "take (len - 8) (copy_words INVERT src len 0 dst) = map (Convert INVERT) (take (len - 8) src)"
    by (metis min.absorb1 take_map take_take)
  then show ?thesis using True q(2) assms(1) take_add [of "len - 8" 8 src]
    by (simp add: CopyInvertedBytes_def copy_blocks(3))
next
  case False
  then have "len \<in> {0, 1, 2, 3, 4, 5, 6, 7}" by auto
  then show ?thesis using assms
    by (auto simp: CopyInvertedBytes_def copy_blocks list_eq_iff_nth_eq nth_append less_Suc_eq numeral_eq_Suc nth_list_update)
qed

lemma AppendBytes_eq: "len \<le> length src \<Longrightarrow> AppendBytes INVERT dest src len = dest @ map (Convert INVERT) (take len src)"
  by (simp add: AppendBytes_def CopyInvertedBytes_eq)

section \<open>The tests of several bytes at once\<close>

text \<open>The value of a little-endian byte string, and a one in each of \<open>n\<close> bytes\<close>

primrec le_int :: "byte list \<Rightarrow> int" where
  "le_int [] = 0"
| "le_int (b # bs) = uint b + 256 * le_int bs"

primrec ones :: "nat \<Rightarrow> int" where
  "ones 0 = 0"
| "ones (Suc n) = 1 + 256 * ones n"

lemma special_iff: "IsSpecialByte b \<longleftrightarrow> b = 0 \<or> b = 255"
  unfolding IsSpecialByte_def by (rule byte_check [where P = "\<lambda>b. b + 1 < 2 \<longleftrightarrow> b = 0 \<or> b = 255"]) code_simp

lemma bit_low_high:
  fixes x y :: int
  assumes "0 \<le> x" and "x < 256"
  shows "bit (x + 256 * y) i \<longleftrightarrow> (if i < 8 then bit x i else bit y (i - 8))"
proof (cases "i < 8")
  case True
  have "take_bit 8 (x + 256 * y) = take_bit 8 x" by (simp add: take_bit_eq_mod)
  then have "bit (take_bit 8 (x + 256 * y)) i = bit (take_bit 8 x) i" by simp
  then show ?thesis using True by (simp add: bit_take_bit_iff)
next
  case False
  have "drop_bit 8 (x + 256 * y) = y" using assms by (simp add: drop_bit_eq_div)
  then have "bit (drop_bit 8 (x + 256 * y)) (i - 8) = bit y (i - 8)" by simp
  then show ?thesis using False by (simp add: bit_drop_bit_eq)
qed

lemma bit_7: "0 \<le> x \<Longrightarrow> x < 256 \<Longrightarrow> bit x 7 \<longleftrightarrow> 128 \<le> x" for x :: int
proof -
  assume "0 \<le> x" "x < 256"
  moreover from this have "x div 128 = (if 128 \<le> x then 1 else 0)" by (auto simp: div_pos_pos_trivial intro!: div_pos_geq [THEN trans])
  ultimately show ?thesis by (simp add: bit_iff_odd)
qed

lemma bit_128: "bit (128 :: int) i \<longleftrightarrow> i = 7"
  using bit_exp_iff [of 7 i, where 'a = int] by simp

lemma bit_marks: "bit (128 * ones (Suc n)) i \<longleftrightarrow> (if i < 8 then i = 7 else bit (128 * ones n) (i - 8))"
  using bit_low_high [of 128 "128 * ones n" i] by (simp add: bit_128 algebra_simps)

text \<open>A byte of the test is marked at the lowest special byte, and nowhere if there is none.\<close>

lemma special_test:
  "(le_int bs - ones (length bs)) AND NOT (le_int bs + ones (length bs)) AND (128 * ones (length bs)) = 0 \<longleftrightarrow> (\<forall>b\<in>set bs. \<not> IsSpecialByte b)"
proof (induction bs)
  case (Cons b bs)
  define T where "T = (le_int bs - ones (length bs)) AND NOT (le_int bs + ones (length bs)) AND (128 * ones (length bs))"
  define U where "U = (le_int (b # bs) - ones (length (b # bs))) AND NOT (le_int (b # bs) + ones (length (b # bs))) AND (128 * ones (length (b # bs)))"
  have b: "0 \<le> uint b" "uint b < 256" using uint_lt2p [of b] by simp_all
  have U: "bit U i \<longleftrightarrow> bit (uint b - 1 + 256 * (le_int bs - ones (length bs))) i \<and> \<not> bit (uint b + 1 + 256 * (le_int bs + ones (length bs))) i
      \<and> bit (128 * ones (Suc (length bs))) i" for i
    unfolding U_def by (simp add: bit_and_iff bit_not_iff algebra_simps del: ones.simps(2)) (simp add: algebra_simps)
  show ?case
  proof (cases "IsSpecialByte b")
    case False
    then have "uint b \<noteq> 0" "uint b \<noteq> 255" by (auto simp: special_iff word_uint_eq_iff)
    then have lo: "0 \<le> uint b - 1" "uint b + 1 < 256" using b by linarith+
    have x: "uint b - 1 < 256" "0 \<le> uint b + 1" using lo by simp_all
    have "bit (uint b - 1) 7 \<longrightarrow> bit (uint b + 1) 7" using bit_7 [OF lo(1) x(1)] bit_7 [OF x(2) lo(2)] by simp
    then have "bit U i \<longleftrightarrow> 8 \<le> i \<and> bit T (i - 8)" for i
      unfolding U T_def bit_low_high [OF lo(1) x(1)] bit_low_high [OF x(2) lo(2)] bit_marks by (auto simp: bit_and_iff bit_not_iff)
    then have "U = 0 \<longleftrightarrow> T = 0" by (auto simp: bit_eq_iff) (metis add_diff_cancel_right' le_add2)
    then show ?thesis using Cons.IH False unfolding U_def T_def by simp
  next
    case True
    have "bit U 7"
    proof (cases "b = 0")
      case True
      have e: "uint b - 1 + 256 * a = 255 + 256 * (a - 1)" "uint b + 1 + 256 * a = 1 + 256 * a" for a using True by simp_all
      have bits: "bit (255 + 256 * a) 7" "\<not> bit (1 + 256 * a) 7" for a :: int
        using bit_low_high [of 255 a 7] bit_low_high [of 1 a 7] bit_7 [of 255] bit_7 [of 1] by simp_all
      then show ?thesis unfolding U e bit_marks by (intro conjI bits) simp
    next
      case False
      then have "b = 255" using \<open>IsSpecialByte b\<close> by (simp add: special_iff)
      then have e: "uint b - 1 + 256 * a = 254 + 256 * a" "uint b + 1 + 256 * a = 0 + 256 * (a + 1)" for a by simp_all
      have bits: "bit (254 + 256 * a) 7" "\<not> bit (0 + 256 * a) 7" for a :: int
        using bit_low_high [of 254 a 7] bit_low_high [of 0 a 7] bit_7 [of 254] by simp_all
      then show ?thesis unfolding U e bit_marks by (intro conjI bits) simp
    qed
    then have "U \<noteq> 0" by auto
    then show ?thesis using True unfolding U_def by auto
  qed
qed simp

lemma uint_le_word: "8 * length bs \<le> LENGTH('a) \<Longrightarrow> uint (le_word bs :: 'a::len word) = le_int bs"
proof (induction bs)
  case (Cons b bs)
  have b: "uint b < 2 ^ 8" using uint_lt2p [of b] by simp
  have nonneg: "0 \<le> le_int bs" and less: "le_int bs < 2 ^ (8 * length bs)"
  proof -
    show "0 \<le> le_int bs" by (induction bs) simp_all
    show "le_int bs < 2 ^ (8 * length bs)"
    proof (induction bs)
      case (Cons c cs)
      then show ?case using uint_lt2p [of c] by (simp add: power_add)
    qed simp
  qed
  have "uint (push_bit 8 (le_word bs :: 'a word)) = take_bit LENGTH('a) (push_bit 8 (le_int bs))"
    using Cons by (simp add: unsigned_push_bit_eq)
  also have "\<dots> = 256 * le_int bs"
  proof -
    have "256 * le_int bs < 2 ^ (8 + 8 * length bs)" using less by (simp add: power_add)
    also have "\<dots> \<le> 2 ^ LENGTH('a)" using Cons.prems by (intro power_increasing) simp_all
    finally show ?thesis using nonneg by (simp add: push_bit_eq_mult take_bit_int_eq_self mult.commute)
  qed
  finally have high: "uint (push_bit 8 (le_word bs :: 'a word)) = 256 * le_int bs" .
  have "8 \<le> LENGTH('a)" using Cons.prems by simp
  then have "uint (ucast b :: 'a word) = uint b" by (simp add: unsigned_ucast_eq take_bit_int_eq_self_iff) (meson b less_le_trans one_le_numeral power_increasing)
  then have "uint (le_word (b # bs) :: 'a word) = uint b OR 256 * le_int bs" by (simp add: unsigned_or_eq high)
  also have "\<dots> = uint b + 256 * le_int bs"
    using b by (intro disjunctive_add_eq_or [symmetric]) (auto simp: bit_eq_iff bit_and_iff bit_uint_iff bit_low_high [of 0, simplified])
  finally show ?case by simp
qed simp

lemma word_test:
  fixes r m :: "'a::len word"
  assumes "LENGTH('a) = 8 * length bs" and "uint r = ones (length bs)" and "uint m = 128 * ones (length bs)"
  shows "(le_word bs - r) AND NOT (le_word bs + r) AND m = 0 \<longleftrightarrow> (\<forall>b\<in>set bs. \<not> IsSpecialByte b)"
proof -
  define T where "T = (le_int bs - ones (length bs)) AND NOT (le_int bs + ones (length bs)) AND (128 * ones (length bs))"
  have v: "uint (le_word bs :: 'a word) = le_int bs" using assms(1) by (intro uint_le_word) simp
  have bit_of: "bit w i \<longleftrightarrow> bit (uint w) i" for w :: "'a word" and i
    using bit_imp_le_length [of w i] by (auto simp: bit_uint_iff)
  have bits: "bit (le_word bs - r) i \<longleftrightarrow> i < LENGTH('a) \<and> bit (le_int bs - ones (length bs)) i"
    "bit (le_word bs + r) i \<longleftrightarrow> i < LENGTH('a) \<and> bit (le_int bs + ones (length bs)) i" for i
    unfolding bit_of uint_word_ariths v assms(2) by (simp_all add: bit_take_bit_iff flip: take_bit_eq_mod)
  have "bit m i \<longleftrightarrow> i < LENGTH('a) \<and> bit (128 * ones (length bs)) i" for i
    using bit_uint_iff [of m i] assms(3) bit_imp_le_length [of m i] by auto
  then have "uint ((le_word bs - r) AND NOT (le_word bs + r) AND m) = take_bit LENGTH('a) T"
    unfolding T_def by (intro bit_eqI) (auto simp: bit_uint_iff bit_and_iff bit_not_iff bit_take_bit_iff bits)
  also have "\<dots> = T"
  proof -
    have "0 \<le> 128 * ones (length bs)" "128 * ones (length bs) < 2 ^ LENGTH('a)"
      using uint_lt2p [of m] assms(3) by (metis uint_ge_0, simp)
    then have "T = T AND mask LENGTH('a)"
      unfolding T_def by (metis and.assoc take_bit_eq_mask take_bit_int_eq_self)
    then show ?thesis by (simp add: take_bit_eq_mask)
  qed
  finally show ?thesis using special_test [of bs] unfolding T_def by (simp add: word_uint_eq_iff)
qed

section \<open>The search finds the first special byte\<close>

definition first_special :: "byte list \<Rightarrow> nat \<Rightarrow> nat \<Rightarrow> nat" where
  "first_special s p limit = p + length (takeWhile (\<lambda>b. \<not> IsSpecialByte b) (take (limit - p) (drop p s)))"

lemma first_specialI:
  assumes "p \<le> q" and "q < limit" and "limit \<le> length s" and "IsSpecialByte (s ! q)" and "\<And>i. p \<le> i \<Longrightarrow> i < q \<Longrightarrow> \<not> IsSpecialByte (s ! i)"
  shows "first_special s p limit = q"
proof -
  have "takeWhile (\<lambda>b. \<not> IsSpecialByte b) (take (limit - p) (drop p s)) = take (q - p) (take (limit - p) (drop p s))"
    using assms by (intro takeWhile_eq_take_P_nth) simp_all
  then show ?thesis using assms(1-3) by (simp add: first_special_def)
qed

lemma first_special_skip:
  assumes "p + n \<le> limit" and "limit \<le> length s" and "\<forall>b\<in>set (take n (drop p s)). \<not> IsSpecialByte b"
  shows "first_special s p limit = first_special s (p + n) limit"
proof -
  have "take (limit - p) (drop p s) = take n (drop p s) @ take (limit - (p + n)) (drop (p + n) s)"
    using take_add [of n "limit - (p + n)" "drop p s"] assms(1) by (simp add: add.commute)
  then show ?thesis using assms by (simp add: first_special_def)
qed

lemma skip_bytes_eq: "limit \<le> length s \<Longrightarrow> skip_bytes s p limit = first_special s p limit"
proof (induction s p limit rule: skip_bytes.induct)
  case (1 s p limit)
  show ?case
  proof (cases "p < limit")
    case True
    then have "take (limit - p) (drop p s) = s ! p # take (limit - (p + 1)) (drop (p + 1) s)"
      using 1(2) by (simp add: take_Suc_conv_app_nth Cons_nth_drop_Suc [symmetric] take_Cons' del: drop_Suc)
    then show ?thesis using 1 True by (simp add: skip_bytes.simps [of s p] first_special_def)
  qed (simp add: skip_bytes.simps [of s p] first_special_def)
qed

lemma load_length: "p + n \<le> length s \<Longrightarrow> length (take n (drop p s)) = n"
  by simp

lemma set_take_drop: "p + n \<le> length s \<Longrightarrow> (\<forall>b\<in>set (take n (drop p s)). P b) \<longleftrightarrow> (\<forall>i<n. P (s ! (p + i)))"
  by (auto simp: all_set_conv_all_nth)

lemma all_less_four: "(\<forall>i<4. P i) \<longleftrightarrow> P 0 \<and> P 1 \<and> P 2 \<and> P (3 :: nat)"
  by (auto simp: less_Suc_eq numeral_eq_Suc)

lemma test32:
  assumes "p + 4 \<le> length s"
  shows "((UNALIGNED_LOAD p s :: u32) - 0x01010101) AND NOT (UNALIGNED_LOAD p s + 0x01010101) AND 0x80808080 = 0 \<longleftrightarrow>
    (\<forall>i<4. \<not> IsSpecialByte (s ! (p + i)))"
proof -
  have "ones 4 = 0x01010101" by (simp add: numeral_eq_Suc)
  then show ?thesis
    using word_test [of "take 4 (drop p s)" "0x01010101 :: u32" "0x80808080"] assms set_take_drop [of p 4 s "\<lambda>b. \<not> IsSpecialByte b"]
    by (simp add: UNALIGNED_LOAD_def)
qed

lemma test64:
  assumes "p + 8 \<le> length s"
  shows "((UNALIGNED_LOAD p s :: u64) - 0x0101010101010101) AND NOT (UNALIGNED_LOAD p s + 0x0101010101010101) AND 0x8080808080808080 = 0 \<longleftrightarrow>
    (\<forall>i<8. \<not> IsSpecialByte (s ! (p + i)))"
proof -
  have "ones 8 = 0x0101010101010101" by (simp add: numeral_eq_Suc)
  then show ?thesis
    using word_test [of "take 8 (drop p s)" "0x0101010101010101 :: u64" "0x8080808080808080"] assms set_take_drop [of p 8 s "\<lambda>b. \<not> IsSpecialByte b"]
    by (simp add: UNALIGNED_LOAD_def)
qed

lemma low_half: "p + 8 \<le> length s \<Longrightarrow> (ucast (UNALIGNED_LOAD p s :: u64) :: u32) = UNALIGNED_LOAD p s"
  by (rule bit_word_eqI) (simp add: UNALIGNED_LOAD_def bit_ucast_iff bit_le_word less_mult_imp_div_less)

lemma advance_eq: "p + 4 \<le> length s \<Longrightarrow>
    AdvanceIfNoSpecialBytes (UNALIGNED_LOAD p s) s p = Some (if \<forall>i<4. \<not> IsSpecialByte (s ! (p + i)) then 4 else 0)"
  unfolding AdvanceIfNoSpecialBytes_def using test32 [of p s] all_less_four [of "\<lambda>i. \<not> IsSpecialByte (s ! (p + i))"] by auto

lemma find_special:
  assumes "p + 4 \<le> limit" and "limit \<le> length s" and "\<exists>i<4. IsSpecialByte (s ! (p + i))"
  shows "(if IsSpecialByte (s ! p) then Some p else if IsSpecialByte (s ! (p + 1)) then Some (p + 1)
      else if IsSpecialByte (s ! (p + 2)) then Some (p + 2) else if IsSpecialByte (s ! (p + 3)) then Some (p + 3) else None)
    = Some (first_special s p limit)"
proof -
  obtain i where i: "i < 4" "IsSpecialByte (s ! (p + i))" "\<And>j. j < i \<Longrightarrow> \<not> IsSpecialByte (s ! (p + j))"
    using exists_least_iff [of "\<lambda>i. i < 4 \<and> IsSpecialByte (s ! (p + i))"] assms(3) by (metis less_trans)
  have "first_special s p limit = p + i"
  proof (rule first_specialI)
    show "\<not> IsSpecialByte (s ! j)" if "p \<le> j" "j < p + i" for j using i(3) [of "j - p"] that by simp
  qed (use i assms in simp_all)
  moreover have "i = 0 \<or> i = 1 \<or> i = 2 \<or> i = 3" using i(1) by linarith
  ultimately show ?thesis using i(2) i(3) [of 0] i(3) [of 1] i(3) [of 2] by auto
qed

lemma skip_eq: "limit \<le> length s \<Longrightarrow> SkipToNextSpecialByte s p limit = Some (first_special s p limit)"
proof (induction s p limit rule: SkipToNextSpecialByte.induct)
  case (1 s p limit)
  show ?case
  proof (cases "p + 8 \<le> limit")
    case False
    show ?thesis
    proof (cases "p + 4 \<le> limit \<and> (\<forall>i<4. \<not> IsSpecialByte (s ! (p + i)))")
      case True
      then have "\<forall>b\<in>set (take 4 (drop p s)). \<not> IsSpecialByte b" using 1(2) set_take_drop [of p 4 s "\<lambda>b. \<not> IsSpecialByte b"] by simp
      then have "first_special s p limit = first_special s (p + 4) limit" using first_special_skip [of p 4 limit s] True 1(2) by simp
      then show ?thesis using False True 1(2) advance_eq [of p s] by (simp add: SkipToNextSpecialByte.simps [of s p] skip_bytes_eq)
    next
      case no: False
      show ?thesis
      proof (cases "p + 4 \<le> limit")
        case True
        then have "AdvanceIfNoSpecialBytes (UNALIGNED_LOAD p s) s p = Some 0" using no 1(2) advance_eq [of p s] by auto
        then show ?thesis using False True 1(2) by (simp add: SkipToNextSpecialByte.simps [of s p] skip_bytes_eq)
      next
        case short: False
        then show ?thesis using False 1(2) by (simp add: SkipToNextSpecialByte.simps [of s p] skip_bytes_eq)
      qed
    qed
  next
    case room: True
    then have p8: "p + 8 \<le> length s" using 1(2) by simp
    show ?thesis
    proof (cases "\<forall>i<8. \<not> IsSpecialByte (s ! (p + i))")
      case True
      then have "\<forall>b\<in>set (take 8 (drop p s)). \<not> IsSpecialByte b" using p8 set_take_drop [of p 8 s "\<lambda>b. \<not> IsSpecialByte b"] by simp
      then have "first_special s p limit = first_special s (p + 8) limit" using first_special_skip [of p 8 limit s] room 1(2) by simp
      moreover have "SkipToNextSpecialByte s p limit = SkipToNextSpecialByte s (p + 8) limit"
        unfolding SkipToNextSpecialByte.simps [of s p] Let_def using room test64 [OF p8] True by simp
      ultimately show ?thesis using 1(1) [OF room refl] test64 [OF p8] True 1(2) by simp
    next
      case False
      define d where "d = (if \<forall>i<4. \<not> IsSpecialByte (s ! (p + i)) then 4 else 0 :: nat)"
      have d: "AdvanceIfNoSpecialBytes (ucast (UNALIGNED_LOAD p s :: u64)) s p = Some d"
        unfolding low_half [OF p8] d_def using p8 by (intro advance_eq) simp
      have "\<exists>i<4. IsSpecialByte (s ! (p + d + i))"
      proof (cases "d = 4")
        case True
        obtain i where i: "i < 8" "IsSpecialByte (s ! (p + i))" using False by blast
        then have "\<not> i < 4" using True by (auto simp: d_def split: if_splits)
        then show ?thesis using i True by (intro exI [of _ "i - 4"]) simp
      qed (auto simp: d_def split: if_splits)
      moreover have "p + d + 4 \<le> limit" using room by (simp add: d_def)
      ultimately have found: "(if IsSpecialByte (s ! (p + d)) then Some (p + d) else if IsSpecialByte (s ! (p + d + 1)) then Some (p + d + 1)
          else if IsSpecialByte (s ! (p + d + 2)) then Some (p + d + 2) else if IsSpecialByte (s ! (p + d + 3)) then Some (p + d + 3) else None)
        = Some (first_special s (p + d) limit)"
        using find_special 1(2) by blast
      have "first_special s p limit = first_special s (p + d) limit"
      proof (cases "d = 4")
        case True
        then have "\<forall>b\<in>set (take 4 (drop p s)). \<not> IsSpecialByte b"
          using p8 set_take_drop [of p 4 s "\<lambda>b. \<not> IsSpecialByte b"] by (auto simp: d_def split: if_splits)
        then show ?thesis using first_special_skip [of p 4 limit s] room 1(2) True by simp
      qed (auto simp: d_def split: if_splits)
      then have "SkipToNextSpecialByte s p limit = Some (first_special s p limit)"
        unfolding SkipToNextSpecialByte.simps [of s p] Let_def d using room test64 [OF p8] False found by simp
      then show ?thesis .
    qed
  qed
qed

end
