(* ===== verification/Ordered_Strings.thy ===== *)
theory Ordered_Strings
  imports Ordered_Bytes
begin

text \<open>
  Strings in Firestore's ordered codes (\<open>util/ordered_code.cc\<close>), in increasing and, inverted, in decreasing order: special
  bytes are escaped, and a separator ends a string. The reader accepts exactly what the writer writes.
\<close>

section \<open>The code\<close>

definition kEscape1 :: byte where "kEscape1 = 0"
definition kNullCharacter :: byte where "kNullCharacter = 0xff"
definition kSeparator :: byte where "kSeparator = 1"
definition kEscape2 :: byte where "kEscape2 = 0xff"
definition kInfinity :: byte where "kInfinity = 0xff"
definition kFFCharacter :: byte where "kFFCharacter = 0"

definition kEscape1_Separator :: "byte list" where
  "kEscape1_Separator = [kEscape1, kSeparator]"

text \<open>A reader runs into an assertion, returns false, or returns true with the item and the rest of the text.\<close>

datatype 'a outcome = Aborts | Fails | Reads 'a "byte list"

lemma skip_ge: "p \<le> first_special s p limit"
  by (simp add: first_special_def)

lemma skip_shrinks: "first_special s p (length s - Suc 0) < length s - Suc 0 \<Longrightarrow>
    length s - Suc (Suc (first_special s p (length s - Suc 0))) < length s - p"
  using skip_ge [of p s "length s - Suc 0"] by linarith

function encode_loop :: "bool \<Rightarrow> byte list \<Rightarrow> byte list \<Rightarrow> nat \<Rightarrow> nat \<Rightarrow> byte list option" where
  "encode_loop INVERT s dest p copy_start =
     (case SkipToNextSpecialByte s p (length s) of
        None \<Rightarrow> None
      | Some p \<Rightarrow>
          if p \<ge> length s then Some (if p > copy_start then AppendBytes INVERT dest (drop copy_start s) (p - copy_start) else dest)
          else if \<not> IsSpecialByte (s ! p) then None
          else encode_loop INVERT s
            (AppendBytes INVERT dest (drop copy_start s) (p - copy_start) @ [Convert INVERT (s ! p), Convert (\<not> INVERT) (s ! p)]) (p + 1) (p + 1))"
  by pat_completeness auto
termination
proof (relation "measure (\<lambda>(INVERT, s, dest, p, copy_start). length s - p)")
  fix INVERT s dest p copy_start q
  assume "SkipToNextSpecialByte s p (length s) = Some q" "\<not> length s \<le> q"
  then show "((INVERT, s, AppendBytes INVERT dest (drop copy_start s) (q - copy_start) @ [Convert INVERT (s ! q), Convert (\<not> INVERT) (s ! q)], q + 1, q + 1),
      INVERT, s, dest, p, copy_start) \<in> measure (\<lambda>(INVERT, s, dest, p, copy_start). length s - p)"
    using skip_ge [of p s "length s"] by (simp add: skip_eq)
qed simp

declare encode_loop.simps [simp del]

definition EncodeStringFragment :: "bool \<Rightarrow> byte list \<Rightarrow> byte list \<Rightarrow> byte list option" where
  "EncodeStringFragment INVERT dest s = (if s = [] then Some dest else encode_loop INVERT s dest 0 0)"

definition WriteString :: "byte list \<Rightarrow> byte list \<Rightarrow> byte list option" where
  "WriteString dest s = map_option (\<lambda>dest. AppendBytes False dest kEscape1_Separator 2) (EncodeStringFragment False dest s)"

definition WriteStringDecreasing :: "byte list \<Rightarrow> byte list \<Rightarrow> byte list option" where
  "WriteStringDecreasing dest s = map_option (\<lambda>dest. AppendBytes True dest kEscape1_Separator 2) (EncodeStringFragment True dest s)"

definition WriteInfinityInternal :: "bool \<Rightarrow> byte list \<Rightarrow> byte list" where
  "WriteInfinityInternal INVERT dest = dest @ [Convert INVERT kEscape2, Convert INVERT kInfinity]"

definition WriteTrailingString :: "byte list \<Rightarrow> byte list \<Rightarrow> byte list" where
  "WriteTrailingString dest str = dest @ str"

text \<open>The position before the end is 0 in an empty text here; nothing is read in it either way.\<close>

function read_loop :: "bool \<Rightarrow> byte list \<Rightarrow> nat \<Rightarrow> nat \<Rightarrow> byte list \<Rightarrow> byte list outcome" where
  "read_loop INVERT src p copy_start result =
     (let stop = length src - 1
      in case SkipToNextSpecialByte src p stop of
           None \<Rightarrow> Aborts
         | Some p \<Rightarrow>
             if p \<ge> stop then Fails
             else if \<not> IsSpecialByte (src ! p) then Aborts
             else (let result = AppendBytes INVERT result (drop copy_start src) (p - copy_start); seq = UNALIGNED_LOAD p src
               in if seq = Convert_pair INVERT kEscape1 kSeparator then Reads result (drop (p + 2) src)
                  else if seq = Convert_pair INVERT kEscape1 kNullCharacter then read_loop INVERT src (p + 2) (p + 2) (result @ [0])
                  else if seq = Convert_pair INVERT kEscape2 kFFCharacter then read_loop INVERT src (p + 2) (p + 2) (result @ [0xff])
                  else Fails))"
  by pat_completeness auto
termination
  by (relation "measure (\<lambda>(INVERT, src, p, copy_start, result). length src - p)")
    (auto simp: skip_eq not_le intro: skip_shrinks)

declare read_loop.simps [simp del]

definition ReadStringInternal :: "bool \<Rightarrow> byte list \<Rightarrow> byte list \<Rightarrow> byte list outcome" where
  "ReadStringInternal INVERT src result = read_loop INVERT src 0 0 result"

definition ReadString :: "byte list \<Rightarrow> byte list \<Rightarrow> byte list outcome" where
  "ReadString src result = ReadStringInternal False src result"

definition ReadStringDecreasing :: "byte list \<Rightarrow> byte list \<Rightarrow> byte list outcome" where
  "ReadStringDecreasing src result = ReadStringInternal True src result"

definition ReadInfinityInternal :: "bool \<Rightarrow> byte list \<Rightarrow> unit outcome" where
  "ReadInfinityInternal INVERT src =
     (if length src \<ge> 2 \<and> src ! 0 = Convert INVERT kEscape2 \<and> src ! 1 = Convert INVERT kInfinity then Reads () (drop 2 src) else Fails)"

text \<open>The result is the string, or that it is infinite.\<close>

definition ReadStringOrInfinityInternal :: "bool \<Rightarrow> byte list \<Rightarrow> byte list \<Rightarrow> (byte list \<times> bool) outcome" where
  "ReadStringOrInfinityInternal INVERT src result =
     (case ReadInfinityInternal INVERT src of
        Reads _ rest \<Rightarrow> Reads (result, True) rest
      | _ \<Rightarrow> (case (if INVERT then ReadStringDecreasing src result else ReadString src result) of
           Aborts \<Rightarrow> Aborts
         | Fails \<Rightarrow> Fails
         | Reads s rest \<Rightarrow> Reads (s, False) rest))"

definition ReadTrailingString :: "byte list \<Rightarrow> byte list outcome" where
  "ReadTrailingString src = Reads src []"

section \<open>The code of a string\<close>

definition escape :: "byte \<Rightarrow> byte list" where
  "escape b = (if b = 0 then [0, 0xff] else if b = 0xff then [0xff, 0] else [b])"

definition string_code :: "byte list \<Rightarrow> byte list" where
  "string_code s = concat (map escape s) @ [0, 1]"

lemmas escape_constants = kEscape1_def kNullCharacter_def kSeparator_def kEscape2_def kInfinity_def kFFCharacter_def kEscape1_Separator_def

lemma escape_plain: "\<not> IsSpecialByte b \<Longrightarrow> escape b = [b]"
  by (simp add: escape_def special_iff)

lemma escape_special: "IsSpecialByte b \<Longrightarrow> escape b = [b, NOT b]"
  by (auto simp: escape_def special_iff)

lemma concat_plain: "\<forall>b\<in>set u. \<not> IsSpecialByte b \<Longrightarrow> concat (map escape u) = u"
  by (induction u) (simp_all add: escape_plain)

lemma convert_not [simp]: "Convert INVERT (NOT x) = Convert (\<not> INVERT) x" "Convert INVERT (Convert INVERT x) = x" "Convert False x = x"
  by (simp_all add: Convert_def)

lemma convert_eq [simp]: "Convert INVERT x = Convert INVERT y \<longleftrightarrow> x = y"
  by (auto simp: Convert_def)

lemma convert_special [simp]: "IsSpecialByte (Convert INVERT b) \<longleftrightarrow> IsSpecialByte b"
proof -
  have "IsSpecialByte (NOT b) \<longleftrightarrow> IsSpecialByte b"
    by (rule byte_check [where P = "\<lambda>b. IsSpecialByte (NOT b) \<longleftrightarrow> IsSpecialByte b"]) code_simp
  then show ?thesis by (simp add: Convert_def)
qed

lemma special_split:
  assumes "p \<le> length s"
  obtains u v where "drop p s = u @ v" "\<forall>b\<in>set u. \<not> IsSpecialByte b" "first_special s p (length s) = p + length u"
    "v = [] \<or> IsSpecialByte (hd v)"
proof
  show "drop p s = takeWhile (\<lambda>b. \<not> IsSpecialByte b) (drop p s) @ dropWhile (\<lambda>b. \<not> IsSpecialByte b) (drop p s)" by simp
  show "\<forall>b\<in>set (takeWhile (\<lambda>b. \<not> IsSpecialByte b) (drop p s)). \<not> IsSpecialByte b" by (auto dest: set_takeWhileD)
  show "first_special s p (length s) = p + length (takeWhile (\<lambda>b. \<not> IsSpecialByte b) (drop p s))" by (simp add: first_special_def)
  show "dropWhile (\<lambda>b. \<not> IsSpecialByte b) (drop p s) = [] \<or> IsSpecialByte (hd (dropWhile (\<lambda>b. \<not> IsSpecialByte b) (drop p s)))"
    using hd_dropWhile [of "\<lambda>b. \<not> IsSpecialByte b" "drop p s"] by blast
qed

lemma encode_loop_eq: "p \<le> length s \<Longrightarrow> encode_loop INVERT s dest p p = Some (dest @ map (Convert INVERT) (concat (map escape (drop p s))))"
proof (induction "length s - p" arbitrary: p dest rule: less_induct)
  case less
  obtain u v where uv: "drop p s = u @ v" "\<forall>b\<in>set u. \<not> IsSpecialByte b" "first_special s p (length s) = p + length u" "v = [] \<or> IsSpecialByte (hd v)"
    using special_split [OF less.prems] by blast
  have len: "length s = p + length u + length v" using arg_cong [OF uv(1), of length] less.prems by simp
  note app = AppendBytes_eq [of "length u" "drop p s" INVERT dest]
  show ?case
  proof (cases v)
    case Nil
    then show ?thesis using uv len app by (simp add: encode_loop.simps [of _ _ _ p] skip_eq concat_plain)
  next
    case (Cons c w)
    then have c: "s ! (p + length u) = c" "IsSpecialByte c" "drop (p + length u + 1) s = w"
      using uv(1,4) len by (metis nth_append_length nth_drop add_leD1 less.prems, simp, metis (no_types) add.assoc drop_drop drop_append append_eq_conv_conj Suc_eq_plus1 add.commute drop_Suc_Cons drop0)
    then show ?thesis
      using less.hyps [of "p + length u + 1" "dest @ map (Convert INVERT) u @ [Convert INVERT c, Convert (\<not> INVERT) c]"] uv len app Cons
      by (simp add: encode_loop.simps [of _ _ _ p] skip_eq concat_plain escape_special)
  qed
qed

lemma fragment_eq: "EncodeStringFragment INVERT dest s = Some (dest @ map (Convert INVERT) (concat (map escape s)))"
  using encode_loop_eq [of 0 s] by (simp add: EncodeStringFragment_def)

lemma write_string_eq: "WriteString dest s = Some (dest @ string_code s)" "WriteStringDecreasing dest s = Some (dest @ map NOT (string_code s))"
  by (simp_all add: WriteString_def WriteStringDecreasing_def fragment_eq AppendBytes_eq escape_constants string_code_def Convert_def cong: map_cong)

section \<open>The reader\<close>

text \<open>The reader, byte by byte\<close>

fun read_text :: "bool \<Rightarrow> byte list \<Rightarrow> byte list \<Rightarrow> byte list outcome" where
  "read_text INVERT (a # b # t) result =
     (if \<not> IsSpecialByte a then read_text INVERT (b # t) (result @ [Convert INVERT a])
      else if a = Convert INVERT 0 \<and> b = Convert INVERT 1 then Reads result t
      else if a = Convert INVERT 0 \<and> b = Convert INVERT 0xff then read_text INVERT t (result @ [0])
      else if a = Convert INVERT 0xff \<and> b = Convert INVERT 0 then read_text INVERT t (result @ [0xff])
      else Fails)"
| "read_text INVERT [a] result = Fails"
| "read_text INVERT [] result = Fails"

lemma read_text_plain: "\<forall>b\<in>set u. \<not> IsSpecialByte b \<Longrightarrow> v \<noteq> [] \<Longrightarrow> read_text INVERT (u @ v) result = read_text INVERT v (result @ map (Convert INVERT) u)"
proof (induction u arbitrary: result)
  case (Cons a u)
  obtain b t where "u @ v = b # t" using Cons.prems(2) by (cases "u @ v") auto
  then show ?case using Cons by simp
qed simp

lemma read_text_none: "\<forall>b\<in>set u. \<not> IsSpecialByte b \<Longrightarrow> read_text INVERT (u @ [c]) result = Fails"
  using read_text_plain [of u "[c]"] by simp

lemma pair_iff: "p + 2 \<le> length src \<Longrightarrow> UNALIGNED_LOAD p src = Convert_pair INVERT a b \<longleftrightarrow> src ! p = Convert INVERT a \<and> src ! (p + 1) = Convert INVERT b"
proof -
  assume p: "p + 2 \<le> length src"
  then have "take 2 (drop p src) = [src ! p, src ! (p + 1)]"
    by (simp add: list_eq_iff_nth_eq less_Suc_eq numeral_eq_Suc)
  then have load: "UNALIGNED_LOAD p src = (le_word [src ! p, src ! (p + 1)] :: u16)" by (simp add: UNALIGNED_LOAD_def)
  have pair: "Convert_pair INVERT a b = le_word (map (Convert INVERT) [a, b])"
    using le_word_le_bytes [of 2 "NOT (le_word [a, b]) :: u16"] le_bytes_le_word(2) [of "[a, b]" 2, where 'a = 16]
    by (simp add: Convert_pair_def Convert_def)
  have "xs = ys" if "le_word xs = (le_word ys :: u16)" "length xs = 2" "length ys = 2" for xs ys
  proof -
    have "le_bytes 2 (le_word xs :: u16) = le_bytes 2 (le_word ys :: u16)" using that(1) by simp
    then show ?thesis using le_bytes_le_word(1) [of xs 2, where 'a = 16] le_bytes_le_word(1) [of ys 2, where 'a = 16] that(2,3) by simp
  qed
  from this [of "[src ! p, src ! (p + 1)]" "map (Convert INVERT) [a, b]"] show ?thesis unfolding load pair by auto
qed

lemma read_loop_eq: "p \<le> length src \<Longrightarrow> read_loop INVERT src p p result = read_text INVERT (drop p src) result"
proof (induction "length src - p" arbitrary: p result rule: less_induct)
  case less
  define u where "u = takeWhile (\<lambda>b. \<not> IsSpecialByte b) (take (length src - 1 - p) (drop p src))"
  have u: "\<forall>b\<in>set u. \<not> IsSpecialByte b" "first_special src p (length src - 1) = p + length u"
    by (auto simp: u_def first_special_def dest: set_takeWhileD)
  have skip: "SkipToNextSpecialByte src p (length src - 1) = Some (p + length u)" using u(2) by (simp add: skip_eq)
  have short: "length u \<le> length src - 1 - p" unfolding u_def by (rule le_trans [OF length_takeWhile_le]) simp
  have pre: "take (length u) (drop p src) = u"
  proof -
    have "u = take (length u) (take (length src - 1 - p) (drop p src))" unfolding u_def by (rule takeWhile_eq_take)
    then show ?thesis using short by (simp add: min_absorb1)
  qed
  show ?case
  proof (cases "p + length u < length src - 1")
    case False
    have "read_text INVERT (drop p src) result = Fails"
    proof (cases "drop p src = []")
      case no: False
      then have "p + length u = length src - 1" using short False less.prems by simp
      moreover have "drop (length src - 1) src = [last src]"
        using no by (metis append_butlast_last_id append_eq_conv_conj drop_Nil length_butlast)
      ultimately have "drop p src = u @ [last src]"
        using pre append_take_drop_id [of "length u" "drop p src"] by (simp add: add.commute)
      then show ?thesis using read_text_none [OF u(1)] by simp
    qed simp
    then show ?thesis using False unfolding read_loop.simps [of _ _ p] skip Let_def by simp
  next
    case True
    define a where "a = src ! (p + length u)"
    define b where "b = src ! (p + length u + 1)"
    define t where "t = drop (p + length u + 2) src"
    have rest: "drop (p + length u) src = a # b # t"
      using True Cons_nth_drop_Suc [of "p + length u" src] Cons_nth_drop_Suc [of "p + length u + 1" src] by (simp add: a_def b_def t_def)
    then have split: "drop p src = u @ a # b # t" using pre append_take_drop_id [of "length u" "drop p src"] by (simp add: add.commute)
    have a: "IsSpecialByte a"
    proof (rule ccontr)
      assume "\<not> IsSpecialByte a"
      obtain n where "length src - 1 - p - length u = Suc n" using True by (metis Suc_diff_Suc diff_diff_left)
      then have "take (length src - 1 - p) (drop p src) = u @ a # take n (b # t)" unfolding split by simp
      then have "takeWhile (\<lambda>b. \<not> IsSpecialByte b) (take (length src - 1 - p) (drop p src)) = u @ a # takeWhile (\<lambda>b. \<not> IsSpecialByte b) (take n (b # t))"
        using u(1) \<open>\<not> IsSpecialByte a\<close> by (simp add: takeWhile_append2)
      then show False unfolding u_def [symmetric] by simp
    qed
    have app: "AppendBytes INVERT result (drop p src) (length u) = result @ map (Convert INVERT) u"
      using pre AppendBytes_eq [of "length u" "drop p src"] split by simp
    have two: "p + length u + 2 \<le> length src" using True by simp
    have loads: "UNALIGNED_LOAD (p + length u) src = Convert_pair INVERT x y \<longleftrightarrow> a = Convert INVERT x \<and> b = Convert INVERT y" for x y
      unfolding a_def b_def by (rule pair_iff [OF two])
    define r where "r = result @ map (Convert INVERT) u"
    have "read_loop INVERT src p p result =
        (if a = Convert INVERT 0 \<and> b = Convert INVERT 1 then Reads r t
         else if a = Convert INVERT 0 \<and> b = Convert INVERT 0xff then read_loop INVERT src (p + length u + 2) (p + length u + 2) (r @ [0])
         else if a = Convert INVERT 0xff \<and> b = Convert INVERT 0 then read_loop INVERT src (p + length u + 2) (p + length u + 2) (r @ [0xff])
         else Fails)"
      unfolding read_loop.simps [of _ _ p p] skip Let_def option.case escape_constants loads a_def [symmetric] using True a app
      by (simp add: t_def r_def)
    moreover have "read_text INVERT (drop p src) result = read_text INVERT (a # b # t) r"
      unfolding split r_def using u(1) by (intro read_text_plain) simp_all
    moreover have "read_loop INVERT src (p + length u + 2) (p + length u + 2) r' = read_text INVERT t r'" for r'
      unfolding t_def using less.hyps [of "p + length u + 2"] two by simp
    ultimately show ?thesis using a by simp
  qed
qed

lemma read_text_exact: "read_text INVERT t result = Reads r rest \<longleftrightarrow> (\<exists>s. r = result @ s \<and> t = map (Convert INVERT) (string_code s) @ rest)"
proof
  show "\<exists>s. r = result @ s \<and> t = map (Convert INVERT) (string_code s) @ rest" if "read_text INVERT t result = Reads r rest"
    using that
  proof (induction INVERT t result rule: read_text.induct)
    case (1 INVERT a b t result)
    consider "\<not> IsSpecialByte a" | "IsSpecialByte a" "a = Convert INVERT 0" "b = Convert INVERT 1"
      | "IsSpecialByte a" "a = Convert INVERT 0" "b = Convert INVERT 0xff" | "IsSpecialByte a" "a = Convert INVERT 0xff" "b = Convert INVERT 0"
      using 1(4) by (auto split: if_splits)
    then show ?case
    proof cases
      case 1
      then obtain s where s: "r = result @ Convert INVERT a # s" "b # t = map (Convert INVERT) (string_code s) @ rest"
        using "1.IH"(1) "1.prems" by auto
      have "\<not> IsSpecialByte (Convert INVERT a)" using 1 by simp
      then show ?thesis using s by (intro exI [of _ "Convert INVERT a # s"]) (simp add: string_code_def escape_plain)
    next
      case 2
      then show ?thesis using "1.prems" by (intro exI [of _ "[]"]) (simp add: string_code_def)
    next
      case 3
      then obtain s where s: "r = result @ 0 # s" "t = map (Convert INVERT) (string_code s) @ rest"
        using "1.IH"(2) "1.prems" by auto
      then show ?thesis using 3 by (intro exI [of _ "0 # s"]) (simp add: string_code_def escape_def)
    next
      case 4
      then obtain s where s: "r = result @ 0xff # s" "t = map (Convert INVERT) (string_code s) @ rest"
        using "1.IH"(3) "1.prems" by auto
      then show ?thesis using 4 by (intro exI [of _ "0xff # s"]) (simp add: string_code_def escape_def)
    qed
  qed simp_all
next
  have "read_text INVERT (map (Convert INVERT) (string_code s) @ rest) result = Reads (result @ s) rest" for s
  proof (induction s arbitrary: result)
    case Nil
    then show ?case by (simp add: string_code_def special_iff [of 0])
  next
    case (Cons c s)
    define t where "t = map (Convert INVERT) (string_code s) @ rest"
    obtain d e where de: "t = d # e" by (cases t) (auto simp: t_def string_code_def)
    have code: "map (Convert INVERT) (string_code (c # s)) @ rest = map (Convert INVERT) (escape c) @ t" by (simp add: t_def string_code_def)
    have IH: "read_text INVERT t (result @ [c]) = Reads (result @ c # s) rest" using Cons [of "result @ [c]"] by (simp add: t_def)
    consider "c = 0" | "c = 0xff" | "\<not> IsSpecialByte c" by (auto simp: special_iff)
    then show ?case
    proof cases
      case 1
      then show ?thesis unfolding code using IH by (simp add: escape_def special_iff [of 0])
    next
      case 2
      then show ?thesis unfolding code using IH by (simp add: escape_def special_iff [of "0xff"])
    next
      case 3
      then show ?thesis unfolding code using IH by (simp add: escape_plain de)
    qed
  qed
  then show "\<exists>s. r = result @ s \<and> t = map (Convert INVERT) (string_code s) @ rest \<Longrightarrow> read_text INVERT t result = Reads r rest" by blast
qed

lemma read_text_no_abort: "read_text INVERT t result \<noteq> Aborts"
  by (induction INVERT t result rule: read_text.induct) simp_all

lemma read_string_exact:
  "ReadString src result = Reads r rest \<longleftrightarrow> (\<exists>s. r = result @ s \<and> src = string_code s @ rest)"
  "ReadStringDecreasing src result = Reads r rest \<longleftrightarrow> (\<exists>s. r = result @ s \<and> src = map NOT (string_code s) @ rest)"
  using read_text_exact [of False src result r rest] read_text_exact [of True src result r rest]
  by (simp_all add: ReadString_def ReadStringDecreasing_def ReadStringInternal_def read_loop_eq Convert_def cong: map_cong)

end
