(* ===== verification/Ordered_Numbers.thy ===== *)
theory Ordered_Numbers
  imports Ordered_Strings
begin

text \<open>
  Unsigned numbers in Firestore's ordered codes (\<open>util/ordered_code.cc\<close>): a length byte and the number in network order.
  Characters are signed where the code widens them, as on the platforms the application ships for.
\<close>

section \<open>Unsigned numbers\<close>

definition OrderedNumLength :: "u64 \<Rightarrow> nat" where
  "OrderedNumLength val = (let lg = Log2Floor64 val in nat (lg + 1 + 7) div 8)"

text \<open>Host order to network order, and back, on a little-endian machine\<close>

definition ghtonll :: "u64 \<Rightarrow> u64" where
  "ghtonll x = le_word (rev (le_bytes 8 x))"

definition AppendUpto9 :: "byte list \<Rightarrow> byte list \<Rightarrow> nat \<Rightarrow> byte list" where
  "AppendUpto9 dst src n = take (length dst + n) (dst @ take 9 src)"

definition WriteNumIncreasing :: "byte list \<Rightarrow> u64 \<Rightarrow> byte list" where
  "WriteNumIncreasing dest num =
     (let buf = UNALIGNED_STORE 1 (ghtonll num) (replicate 17 0);
          length = OrderedNumLength num;
          start = 9 - length - 1;
          buf = buf[start := of_nat length]
      in AppendUpto9 dest (drop start buf) (length + 1))"

definition WriteNumDecreasing :: "byte list \<Rightarrow> u64 \<Rightarrow> byte list" where
  "WriteNumDecreasing dest num =
     (let buf = UNALIGNED_STORE 1 (ghtonll (NOT num)) (replicate 17 0);
          length = OrderedNumLength num;
          start = 9 - length - 1;
          buf = buf[start := NOT (of_nat length)]
      in AppendUpto9 dest (drop start buf) (length + 1))"

text \<open>The loop that shifts bytes into a number\<close>

definition shift_in :: "u64 \<Rightarrow> byte list \<Rightarrow> u64" where
  "shift_in v bs = foldl (\<lambda>tmp b. push_bit 8 tmp OR ucast b) v bs"

definition ReadNumIncreasing :: "byte list \<Rightarrow> u64 outcome" where
  "ReadNumIncreasing src =
     (if src = [] then Fails
      else let len = (scast (src ! 0) :: u64)
        in if \<not> (len = 0 \<or> length src = 1 \<or> src ! 1 \<noteq> 0) then Aborts
           else if unat (len + 1) > length src \<or> len > 8 then Fails
           else Reads (shift_in 0 (take (unat len) (drop 1 src))) (drop (unat len + 1) src))"

definition ReadNumDecreasing :: "byte list \<Rightarrow> u64 outcome" where
  "ReadNumDecreasing src =
     (if src = [] then Fails
      else let len = NOT (scast (src ! 0) :: u64)
        in if \<not> (len = 0 \<or> length src = 1 \<or> src ! 1 \<noteq> 0xff) then Aborts
           else if unat (len + 1) > length src \<or> len > 8 then Fails
           else Reads (if len \<noteq> 0 then NOT (shift_in (-1) (take (unat len) (drop 1 src))) else 0) (drop (unat len + 1) src))"

section \<open>Bytes in network order\<close>

lemma le_bytes_Suc: "le_bytes (Suc n) w = ucast w # le_bytes n (drop_bit 8 w)"
  by (simp add: le_bytes_def upt_conv_Cons map_Suc_upt [symmetric] comp_def drop_bit_drop_bit add.commute del: upt_Suc)

lemma rev_le_bytes: "rev (le_bytes n w) = be_bytes n (unat w)"
proof (induction n arbitrary: w)
  case (Suc n)
  have "unat (drop_bit 8 w) = unat w div 256" by (simp add: unat_drop_bit)
  moreover have "(ucast w :: byte) = of_nat (unat w)" by (simp add: word_unat_eq_iff unat_ucast_mod)
  ultimately show ?case using Suc by (simp add: le_bytes_Suc)
qed (simp add: le_bytes_def)

lemma network_bytes: "le_bytes 8 (ghtonll w) = be_bytes 8 (unat w)"
  by (simp add: ghtonll_def le_bytes_le_word rev_le_bytes)

lemma ghtonll_load: "length bs = 8 \<Longrightarrow> ghtonll (le_word bs) = of_nat (be_val bs)"
proof -
  assume len: "length bs = 8"
  have "rev (le_bytes 8 (of_nat (be_val bs) :: u64)) = be_bytes 8 (unat (of_nat (be_val bs) :: u64))" by (rule rev_le_bytes)
  also have "\<dots> = bs" using be_bytes_be_val [of bs] be_val_less [of bs] len by (simp add: unat_of_nat)
  finally have "le_bytes 8 (of_nat (be_val bs) :: u64) = rev bs" by (metis rev_rev_ident)
  then have "le_word (rev bs) = (of_nat (be_val bs) :: u64)" using le_word_le_bytes [of 8 "of_nat (be_val bs) :: u64"] by simp
  then show ?thesis using len by (simp add: ghtonll_def le_bytes_le_word)
qed

lemma drop_be_bytes: "drop m (be_bytes (m + n) v) = be_bytes n v"
proof (induction n arbitrary: v)
  case (Suc n)
  then show ?case by (simp add: drop_append)
qed simp

lemma drop_be_bytes_le: "n \<le> k \<Longrightarrow> drop (k - n) (be_bytes k v) = be_bytes n v"
  using drop_be_bytes [of "k - n" n v] by simp

lemma shift_in_eq: "shift_in (of_nat v) bs = of_nat (be_val_acc v bs)"
  unfolding shift_in_def
proof (induction bs arbitrary: v)
  case (Cons b bs)
  have "push_bit 8 (of_nat v :: u64) OR ucast b = push_bit 8 (of_nat v) + ucast b"
    by (rule push_bit_or_eq_add) (simp add: unat_ucast_up)
  also have "\<dots> = of_nat (v * 256 + unat b)" by (simp add: push_bit_eq_mult)
  finally show ?case using Cons [of "v * 256 + unat b"] by simp
qed simp

lemma shift_in_not: "shift_in (NOT v) (map NOT bs) = NOT (shift_in v bs)"
  unfolding shift_in_def
proof (induction bs arbitrary: v)
  case (Cons b bs)
  have "push_bit 8 (NOT v) OR ucast (NOT b) = NOT (push_bit 8 v OR ucast b)"
    by (rule bit_word_eqI) (auto simp: bit_simps dest: bit_imp_le_length)
  then show ?case using Cons [of "push_bit 8 v OR ucast b"] by simp
qed simp

lemma le_bytes_not: "8 * n \<le> LENGTH('a) \<Longrightarrow> le_bytes n (NOT w :: 'a::len word) = map NOT (le_bytes n w)"
  by (rule nth_equalityI) (simp, intro bit_word_eqI, simp add: nth_le_bytes bit_not_iff)

lemma be_bytes_not: "be_bytes 8 (unat (NOT w :: u64)) = map NOT (be_bytes 8 (unat w))"
  using le_bytes_not [of 8 w] by (simp add: rev_map flip: rev_le_bytes)

section \<open>The code of an unsigned number\<close>

fun num_length :: "nat \<Rightarrow> nat" where
  "num_length v = (if v = 0 then 0 else Suc (num_length (v div 256)))"

declare num_length.simps [simp del]

definition num_code :: "nat \<Rightarrow> byte list" where
  "num_code v = of_nat (num_length v) # be_bytes (num_length v) v"

lemma num_length_bounds: "v < 256 ^ num_length v" "0 < v \<Longrightarrow> 256 ^ (num_length v - 1) \<le> v"
proof -
  show "v < 256 ^ num_length v"
  proof (induction v rule: num_length.induct)
    case (1 v)
    then show ?case by (cases "v = 0") (auto simp: num_length.simps [of v] div_less_iff_less_mult)
  qed
  show "0 < v \<Longrightarrow> 256 ^ (num_length v - 1) \<le> v"
  proof (induction v rule: num_length.induct)
    case (1 v)
    show ?case
    proof (cases "v div 256 = 0")
      case True
      then show ?thesis using 1(2) by (simp add: num_length.simps [of v] num_length.simps [of 0])
    next
      case False
      then obtain k where k: "num_length (v div 256) = Suc k" by (metis num_length.simps)
      then have "256 ^ k \<le> v div 256" using 1 False by simp
      then show ?thesis using 1(2) k by (simp add: num_length.simps [of v] less_eq_div_iff_mult_less_eq mult.commute)
    qed
  qed
qed

lemma num_length_unique:
  assumes "v < 256 ^ n" and "n = 0 \<or> 256 ^ (n - 1) \<le> v"
  shows "num_length v = n"
proof (rule ccontr)
  assume "num_length v \<noteq> n"
  then consider "num_length v < n" | "n < num_length v" by linarith
  then show False
  proof cases
    case 1
    then have "(256 :: nat) ^ num_length v \<le> 256 ^ (n - 1)" by (intro power_increasing) simp_all
    then have "v < 256 ^ (n - 1)" using num_length_bounds(1) [of v] by (rule less_le_trans [rotated])
    then show False using assms(2) 1 by simp
  next
    case 2
    have "v \<noteq> 0" using 2 by (cases "v = 0") (simp_all add: num_length.simps [of 0])
    have "(256 :: nat) ^ n \<le> 256 ^ (num_length v - 1)" using 2 by (intro power_increasing) simp_all
    then have "256 ^ n \<le> v" using num_length_bounds(2) [of v] \<open>v \<noteq> 0\<close> by (meson bot_nat_0.not_eq_extremum le_trans)
    then show False using assms(1) by simp
  qed
qed

lemma num_length_le: "unat (w :: u64) < 256 ^ 8 \<and> num_length (unat w) \<le> 8"
proof -
  have w: "unat w < 256 ^ 8" using word_unat_lt [of w] by simp
  show ?thesis
  proof (rule ccontr)
    assume "\<not> ?thesis"
    then have n: "8 \<le> num_length (unat w) - 1" "0 < unat w" using w by (auto simp: num_length.simps [of 0] intro: Suc_leI gr0I)
    then have "(256 :: nat) ^ 8 \<le> 256 ^ (num_length (unat w) - 1)" by (intro power_increasing) simp_all
    then show False using num_length_bounds(2) [of "unat w"] n w by simp
  qed
qed

lemma ordered_num_length: "OrderedNumLength w = num_length (unat w)"
proof (cases "w = 0")
  case False
  then obtain k where k: "2 ^ k \<le> unat w" "unat w < 2 ^ Suc k" using log2_exists [of "unat w"] by (auto simp: unat_gt_0)
  have "num_length (unat w) = Suc (k div 8)"
  proof (rule num_length_unique)
    have "unat w < 2 ^ Suc k" by (rule k(2))
    also have "\<dots> \<le> 2 ^ (8 * Suc (k div 8))" by (intro power_increasing) simp_all
    finally show "unat w < 256 ^ Suc (k div 8)" by (simp add: power_add power_mult)
    have "(2 :: nat) ^ (8 * (k div 8)) \<le> 2 ^ k" by (intro power_increasing) simp_all
    then show "Suc (k div 8) = 0 \<or> 256 ^ (Suc (k div 8) - 1) \<le> unat w" using k(1) by (simp add: power_mult)
  qed
  moreover have "nat (int k + 1 + 7) div 8 = Suc (k div 8)" by (simp add: nat_add_distrib div_add_self2)
  ultimately show ?thesis using log2_64_eq(2) [OF k] by (simp add: OrderedNumLength_def)
qed (simp add: OrderedNumLength_def Log2Floor64_def num_length.simps)

lemma append_upto9:
  assumes "length bs = 8" and "n \<le> 8"
  shows "AppendUpto9 dest (drop (8 - n) ((0 # bs @ replicate 8 0)[8 - n := c])) (n + 1) = dest @ c # drop (8 - n) bs"
proof -
  have "drop (8 - n) ((0 # bs @ replicate 8 0)[8 - n := c]) = c # drop (8 - n) bs @ replicate 8 0"
  proof -
    have "drop (8 - n) (0 # bs @ replicate 8 0) = (0 # bs @ replicate 8 0) ! (8 - n) # drop (Suc (8 - n)) (0 # bs @ replicate 8 0)"
      using assms by (intro Cons_nth_drop_Suc [symmetric]) simp
    moreover have "drop (8 - n) ((0 # bs @ replicate 8 0)[8 - n := c]) = (drop (8 - n) (0 # bs @ replicate 8 0))[0 := c]"
      using drop_update_swap [of "8 - n" "8 - n"] by (simp del: list_update.simps)
    ultimately show ?thesis using assms by simp
  qed
  then show ?thesis using assms by (simp add: AppendUpto9_def)
qed

lemma write_num_eq: "WriteNumIncreasing dest num = dest @ num_code (unat num)" "WriteNumDecreasing dest num = dest @ map NOT (num_code (unat num))"
proof -
  note n = num_length_le [of num]
  have store: "UNALIGNED_STORE 1 (ghtonll w) (replicate 17 0) = 0 # be_bytes 8 (unat w) @ replicate 8 0" for w
    by (simp add: UNALIGNED_STORE_def network_bytes)
  have start: "9 - num_length (unat num) - 1 = 8 - num_length (unat num)" using n by simp
  show "WriteNumIncreasing dest num = dest @ num_code (unat num)"
    unfolding WriteNumIncreasing_def Let_def ordered_num_length store start num_code_def
    using n append_upto9 [of "be_bytes 8 (unat num)"] drop_be_bytes_le [of "num_length (unat num)" 8 "unat num"] by simp
  show "WriteNumDecreasing dest num = dest @ map NOT (num_code (unat num))"
    unfolding WriteNumDecreasing_def Let_def ordered_num_length store start num_code_def
    using n append_upto9 [of "be_bytes 8 (unat (NOT num))"] drop_be_bytes_le [of "num_length (unat num)" 8 "unat num"]
    by (simp add: be_bytes_not drop_map)
qed

section \<open>The readers of unsigned numbers\<close>

lemma of_nat_be_val: "unat (of_nat (be_val bs) :: u64) = be_val bs" if "length bs \<le> 8"
proof -
  have "be_val bs < 256 ^ length bs" by (rule be_val_less)
  also have "\<dots> \<le> 256 ^ 8" using that by (intro power_increasing) simp_all
  finally show ?thesis by (simp add: unat_of_nat)
qed

lemma num_length_payload:
  assumes "bs = [] \<or> hd bs \<noteq> 0"
  shows "num_length (be_val bs) = length bs"
proof (cases bs)
  case (Cons b cs)
  then have "1 \<le> unat b" using assms by (simp add: Suc_leI unat_gt_0)
  then have "1 * 256 ^ length cs \<le> unat b * 256 ^ length cs" by (rule mult_le_mono1)
  then have "256 ^ length cs \<le> be_val bs" using Cons by (simp add: be_val_Cons trans_le_add1 del: be_val_acc.simps)
  then show ?thesis using Cons be_val_less [of bs] by (intro num_length_unique) simp_all
qed (simp add: num_length.simps)

lemma payload_nonzero: "0 < num_length v \<Longrightarrow> hd (be_bytes (num_length v) v) \<noteq> 0"
proof -
  assume n: "0 < num_length v"
  then obtain k where k: "num_length v = Suc k" by (cases "num_length v") simp_all
  obtain b bs where bs: "be_bytes (num_length v) v = b # bs" "length bs = k"
    using k by (metis length_Suc_conv length_be_bytes)
  have "be_val (b # bs) = v" using num_length_bounds(1) [of v] by (simp add: be_val_be_bytes flip: bs(1))
  moreover have "256 ^ k \<le> v" using num_length_bounds(2) [of v] k n by (cases "v = 0") (simp_all add: num_length.simps [of 0])
  ultimately have "b \<noteq> 0" using be_val_less [of bs] bs(2) by (auto simp: be_val_Cons simp del: be_val_acc.simps)
  then show ?thesis using bs by simp
qed

lemma length_byte: "unat (scast (of_nat n :: byte) :: u64) = n" if "n \<le> 8"
proof -
  have "list_all (\<lambda>n. unat (scast (of_nat n :: byte) :: u64) = n) [0..<9]" by code_simp
  then show ?thesis using that by (simp add: list_all_iff)
qed

lemma small_byte: "of_nat (unat (scast b :: u64)) = b" for b :: byte
proof -
  have "of_nat (unat (scast b :: u64)) = (ucast (scast b :: u64) :: byte)" by (simp add: word_unat_eq_iff unat_ucast_mod)
  also have "\<dots> = b" by (rule bit_word_eqI) (simp add: bit_simps)
  finally show ?thesis .
qed

lemma map_not_flip: "map NOT xs = ys \<longleftrightarrow> xs = map NOT (ys :: byte list)"
  by (auto simp: comp_def)

lemma read_num_exact: "ReadNumIncreasing src = Reads n rest \<longleftrightarrow> src = num_code (unat n) @ rest"
proof
  assume "ReadNumIncreasing src = Reads n rest"
  then obtain b t where src: "src = b # t" by (cases src) (simp_all add: ReadNumIncreasing_def)
  define len where "len = unat (scast b :: u64)"
  have "\<not> unat ((scast b :: u64) + 1) > length src" "\<not> (scast b :: u64) > 8" and head: "(scast b :: u64) = 0 \<or> t = [] \<or> hd t \<noteq> 0"
    and n: "n = shift_in 0 (take len t)" "rest = drop len t"
    using \<open>ReadNumIncreasing src = Reads n rest\<close> unfolding len_def
    by (auto simp: ReadNumIncreasing_def src Let_def hd_conv_nth unat_eq_0 split: if_splits)
  then have len: "len \<le> 8" by (simp add: len_def word_le_nat_alt not_less)
  moreover have "unat ((scast b :: u64) + 1) = len + 1" using len by (simp add: len_def unat_word_ariths)
  ultimately have short: "len \<le> length t" using \<open>\<not> unat ((scast b :: u64) + 1) > length src\<close> src by simp
  have val: "unat n = be_val (take len t)" using n(1) shift_in_eq [of 0 "take len t"] of_nat_be_val [of "take len t"] len by simp
  have "take len t = [] \<or> hd (take len t) \<noteq> 0"
    using head short by (cases t; cases len) (auto simp: len_def unat_eq_0)
  then have "num_length (unat n) = len" unfolding val using num_length_payload [of "take len t"] short by simp
  moreover have "be_bytes len (unat n) = take len t" using be_bytes_be_val [of "take len t"] short val by simp
  ultimately show "src = num_code (unat n) @ rest"
    using small_byte [of b] len n(2) src by (simp add: num_code_def len_def)
next
  assume src: "src = num_code (unat n) @ rest"
  define len where "len = num_length (unat n)"
  have len: "len \<le> 8" "be_val (be_bytes len (unat n)) = unat n"
    using num_length_le [of n] num_length_bounds(1) [of "unat n"] by (simp_all add: len_def be_val_be_bytes)
  have b: "unat (scast (of_nat len :: byte) :: u64) = len" by (rule length_byte [OF len(1)])
  then have b1: "unat ((scast (of_nat len :: byte) :: u64) + 1) = len + 1" using len(1) by (simp add: unat_word_ariths)
  have cmp: "\<not> (scast (of_nat len :: byte) :: u64) > 8" using b len(1) by (simp add: word_less_nat_alt)
  have zero: "(scast (of_nat len :: byte) :: u64) = 0 \<longleftrightarrow> len = 0" using b by (metis unat_eq_0)
  have head: "len = 0 \<or> (be_bytes len (unat n) @ rest) ! 0 \<noteq> 0"
  proof (cases "be_bytes len (unat n)")
    case Nil
    then show ?thesis using length_be_bytes [of len "unat n"] by simp
  next
    case (Cons c cs)
    then show ?thesis using payload_nonzero [of "unat n"] by (auto simp: len_def)
  qed
  have "shift_in 0 (be_bytes len (unat n)) = n" using shift_in_eq [of 0 "be_bytes len (unat n)"] len(2) by simp
  then show "ReadNumIncreasing src = Reads n rest"
    using b b1 cmp zero head by (auto simp add: ReadNumIncreasing_def src num_code_def Let_def simp flip: len_def)
qed

lemma read_num_decreasing: "ReadNumDecreasing (map NOT src) = (case ReadNumIncreasing src of Aborts \<Rightarrow> Aborts | Fails \<Rightarrow> Fails | Reads n rest \<Rightarrow> Reads n (map NOT rest))"
proof (cases src)
  case (Cons b t)
  have len: "NOT (scast (NOT b) :: u64) = scast b"
    by (rule bit_word_eqI) (auto simp: bit_simps)
  have neg: "NOT (shift_in (-1) (map NOT bs)) = shift_in 0 bs" for bs using shift_in_not [of 0 bs] by simp
  have byte: "NOT c = 0xff \<longleftrightarrow> c = 0" for c :: byte
    by (rule byte_check [where P = "\<lambda>c. NOT c = 0xff \<longleftrightarrow> c = 0"]) code_simp
  have none: "shift_in 0 [] = 0" by (simp add: shift_in_def)
  show ?thesis
  proof (cases "(scast b :: u64) = 0")
    case True
    then show ?thesis unfolding ReadNumDecreasing_def ReadNumIncreasing_def Cons by (simp add: Let_def len none)
  next
    case False
    moreover have "map NOT (b # t) ! 1 \<noteq> 0xff \<longleftrightarrow> (b # t) ! 1 \<noteq> 0" if "t \<noteq> []" using that byte by (cases t) simp_all
    moreover have "NOT (shift_in (-1) (take k (map NOT t))) = shift_in 0 (take k t)" for k by (simp only: take_map neg)
    ultimately show ?thesis unfolding ReadNumDecreasing_def ReadNumIncreasing_def Cons
      by (cases "t = []") (simp_all add: Let_def len drop_map)
  qed
qed (simp add: ReadNumDecreasing_def ReadNumIncreasing_def)

lemma read_num_decreasing_exact: "ReadNumDecreasing src = Reads n rest \<longleftrightarrow> src = map NOT (num_code (unat n)) @ rest"
proof -
  define s where "s = map NOT src"
  have src: "src = map NOT s" by (simp add: s_def comp_def)
  have "ReadNumDecreasing src = Reads n rest \<longleftrightarrow> ReadNumIncreasing s = Reads n (map NOT rest)"
    unfolding src read_num_decreasing using map_not_flip [of _ rest] by (cases "ReadNumIncreasing s") simp_all
  also have "\<dots> \<longleftrightarrow> src = map NOT (num_code (unat n)) @ rest"
    unfolding read_num_exact src map_not_flip by (simp add: comp_def)
  finally show ?thesis .
qed

end
