(* ===== verification/Ordered_Signed.thy ===== *)
theory Ordered_Signed
  imports Ordered_Numbers
begin

text \<open>
  Signed numbers in Firestore's ordered codes (\<open>util/ordered_code.cc\<close>), with the length in the bits that equal the sign, and
  doubles, which are coded as the signed numbers of their bits.
\<close>

section \<open>Signed numbers\<close>

definition kMaxSigned64Length :: nat where "kMaxSigned64Length = 10"

definition kLengthToHeaderBits :: "(byte \<times> byte) list" where
  "kLengthToHeaderBits = [(0, 0), (0x80, 0), (0xc0, 0), (0xe0, 0), (0xf0, 0), (0xf8, 0), (0xfc, 0), (0xfe, 0), (0xff, 0), (0xff, 0x80), (0xff, 0xc0)]"

definition kLengthToMask :: "u64 list" where
  "kLengthToMask =
     [0, 0x80, 0xc000, 0xe00000, 0xf0000000, 0xf800000000, 0xfc0000000000, 0xfe000000000000, 0xff00000000000000, 0x8000000000000000, 0]"

definition kBitsToLength :: "nat list" where
  "kBitsToLength =
     [1, 1, 1, 1, 1, 1, 1, 2, 2, 2, 2, 2, 2, 2, 3, 3, 3, 3, 3, 3, 3, 4,
      4, 4, 4, 4, 4, 4, 5, 5, 5, 5, 5, 5, 5, 6, 6, 6, 6, 6, 6, 6, 7, 7,
      7, 7, 7, 7, 7, 8, 8, 8, 8, 8, 8, 8, 9, 9, 9, 9, 9, 9, 9, 10]"

definition SignedEncodingLength :: "u64 \<Rightarrow> nat" where
  "SignedEncodingLength n = kBitsToLength ! nat (Log2Floor64 (if n <s 0 then NOT n else n) + 1)"

definition SignedEncodingLengthPositive :: "u64 \<Rightarrow> nat" where
  "SignedEncodingLengthPositive n = kBitsToLength ! nat (Log2FloorNonZero64 n + 1)"

definition WriteSignedNumIncreasing :: "byte list \<Rightarrow> u64 \<Rightarrow> byte list option" where
  "WriteSignedNumIncreasing dest num =
     (let x = (if num <s 0 then NOT num else num)
      in if x < 64 then Some (dest @ [ucast (scast (fst (kLengthToHeaderBits ! 1)) XOR num)])
         else let sign_byte = (if num <s 0 then 0xff else 0);
                  buf = UNALIGNED_STORE 2 (ghtonll num) ([sign_byte, sign_byte] @ replicate 8 0);
                  len = SignedEncodingLengthPositive x
              in if \<not> len \<ge> 2 then None
                 else let start = drop (10 - len) buf;
                          start = start[0 := start ! 0 XOR fst (kLengthToHeaderBits ! len)];
                          start = start[1 := start ! 1 XOR snd (kLengthToHeaderBits ! len)]
                      in Some (dest @ take len start))"

definition WriteSignedNumDecreasing :: "byte list \<Rightarrow> u64 \<Rightarrow> byte list option" where
  "WriteSignedNumDecreasing dest num = WriteSignedNumIncreasing dest (NOT num)"

text \<open>The length that the first bytes announce, \<open>None\<close> if the text is too short or the length too great\<close>

definition read_signed_length :: "u64 \<Rightarrow> byte list \<Rightarrow> nat option" where
  "read_signed_length xor_mask src =
     (let first_byte = src ! 0 XOR ucast (xor_mask AND 0xff)
      in if first_byte \<noteq> 0xff then
           (let len = nat (7 - Log2FloorNonZero (ucast (first_byte XOR 0xff)))
            in if length src < len then None else Some len)
         else if length src < 8 then None
         else let second_byte = src ! 1 XOR ucast (xor_mask AND 0xff)
           in if second_byte \<ge> 0x80 then
                (if second_byte < 0xc0 then (if length src < 9 then None else Some 9)
                 else let third_byte = src ! 2 XOR ucast (xor_mask AND 0xff)
                   in if second_byte = 0xc0 \<and> third_byte < 0x80 then (if length src < 10 then None else Some 10)
                      else None)
              else Some 8)"

definition ReadSignedNumIncreasing :: "byte list \<Rightarrow> u64 outcome" where
  "ReadSignedNumIncreasing src =
     (if src = [] then Fails
      else let xor_mask = (if src ! 0 AND 0x80 = 0 then NOT 0 else 0)
        in case read_signed_length xor_mask src of
             None \<Rightarrow> Fails
           | Some len \<Rightarrow>
               let x = (if src ! 0 XOR ucast (xor_mask AND 0xff) \<noteq> 0xff then shift_in xor_mask (take len src)
                        else ghtonll (UNALIGNED_LOAD (len - 8) src));
                   x = x XOR kLengthToMask ! len
               in if len = SignedEncodingLength x then Reads x (drop len src) else Aborts)"

fun map_outcome :: "('a \<Rightarrow> 'b) \<Rightarrow> 'a outcome \<Rightarrow> 'b outcome" where
  "map_outcome f Aborts = Aborts"
| "map_outcome f Fails = Fails"
| "map_outcome f (Reads a rest) = Reads (f a) rest"

definition ReadSignedNumDecreasing :: "byte list \<Rightarrow> u64 outcome" where
  "ReadSignedNumDecreasing src = map_outcome NOT (ReadSignedNumIncreasing src)"

section \<open>Doubles\<close>

text \<open>A double is given by its 64 bits.\<close>

definition EncodeDoubleAsInt64 :: "u64 \<Rightarrow> u64" where
  "EncodeDoubleAsInt64 num = (let enc = num in if enc <s 0 then 0x8000000000000000 - enc else enc)"

definition DecodeDoubleFromInt64 :: "u64 \<Rightarrow> u64" where
  "DecodeDoubleFromInt64 enc = (if enc <s 0 then 0x8000000000000000 - enc else enc)"

definition WriteDoubleIncreasing :: "byte list \<Rightarrow> u64 \<Rightarrow> byte list option" where
  "WriteDoubleIncreasing dest num = WriteSignedNumIncreasing dest (EncodeDoubleAsInt64 num)"

definition WriteDoubleDecreasing :: "byte list \<Rightarrow> u64 \<Rightarrow> byte list option" where
  "WriteDoubleDecreasing dest num = WriteSignedNumDecreasing dest (EncodeDoubleAsInt64 num)"

definition ReadDoubleIncreasing :: "byte list \<Rightarrow> u64 outcome" where
  "ReadDoubleIncreasing src = map_outcome DecodeDoubleFromInt64 (ReadSignedNumIncreasing src)"

definition ReadDoubleDecreasing :: "byte list \<Rightarrow> u64 outcome" where
  "ReadDoubleDecreasing src = map_outcome DecodeDoubleFromInt64 (ReadSignedNumDecreasing src)"


section \<open>The code of a signed number\<close>

lemma negative_iff: "w <s 0 \<longleftrightarrow> 2 ^ 63 \<le> unat w" for w :: u64
proof -
  have "w <s 0 \<longleftrightarrow> bit w 63" using bit_last_iff [of w] by (simp add: word_sless_alt)
  also have "\<dots> \<longleftrightarrow> bit (unat w) 63" by (simp only: bit_unsigned_iff) simp
  also have "\<dots> \<longleftrightarrow> odd (unat w div 2 ^ 63)" by (simp only: bit_iff_odd)
  also have "\<dots> \<longleftrightarrow> 2 ^ 63 \<le> unat w"
  proof -
    have "unat w div 2 ^ 63 < 2" using word_unat_lt [of w] by (simp add: div_less_iff_less_mult)
    then have "odd (unat w div 2 ^ 63) \<longleftrightarrow> 1 \<le> unat w div 2 ^ 63" by (auto simp: less_2_cases_iff)
    also have "\<dots> \<longleftrightarrow> 2 ^ 63 \<le> unat w" by (simp add: less_eq_div_iff_mult_less_eq)
    finally show ?thesis .
  qed
  finally show ?thesis .
qed

lemma negative_not: "NOT w <s 0 \<longleftrightarrow> \<not> w <s 0" for w :: u64
  using bit_last_iff [of w] bit_last_iff [of "NOT w"] by (simp add: word_sless_alt bit_not_iff)

fun signed_length :: "nat \<Rightarrow> nat" where
  "signed_length n = (if n < 64 then 1 else Suc (signed_length (n div 128)))"

declare signed_length.simps [simp del]

text \<open>The bits that announce the length \<open>k\<close>, above a payload of \<open>7 * k\<close> bits\<close>

definition signed_header :: "nat \<Rightarrow> nat" where
  "signed_header k = (2 ^ k - 1) * 2 ^ (7 * k)"

definition signed_code :: "nat \<Rightarrow> byte list" where
  "signed_code n = be_bytes (signed_length n) (signed_header (signed_length n) + n)"

lemma signed_length_pos: "0 < signed_length n"
  by (simp add: signed_length.simps [of n])

lemma signed_length_bounds: "n < 2 ^ (7 * signed_length n - 1)" "signed_length n = 1 \<or> 2 ^ (7 * (signed_length n - 1) - 1) \<le> n"
proof -
  show "n < 2 ^ (7 * signed_length n - 1)"
  proof (induction n rule: signed_length.induct)
    case (1 n)
    show ?case
    proof (cases "n < 64")
      case False
      obtain k where k: "signed_length (n div 128) = Suc k" using signed_length_pos [of "n div 128"] by (cases "signed_length (n div 128)") simp_all
      have "n div 128 < 2 ^ (7 * Suc k - 1)" using 1 False k by simp
      then have "n < 2 ^ (7 * Suc k - 1) * 128" by (simp add: div_less_iff_less_mult)
      also have "\<dots> = 2 ^ (7 * Suc k - 1 + 7)" by (simp add: power_add)
      finally show ?thesis using False k by (simp add: signed_length.simps [of n])
    qed (simp add: signed_length.simps [of n])
  qed
  show "signed_length n = 1 \<or> 2 ^ (7 * (signed_length n - 1) - 1) \<le> n"
  proof (induction n rule: signed_length.induct)
    case (1 n)
    show ?case
    proof (cases "n < 64")
      case False
      obtain k where k: "signed_length (n div 128) = Suc k" using signed_length_pos [of "n div 128"] by (cases "signed_length (n div 128)") simp_all
      show ?thesis
      proof (cases k)
        case 0
        then show ?thesis using False k by (simp add: signed_length.simps [of n])
      next
        case (Suc j)
        then have "2 ^ (7 * k - 1) \<le> n div 128" using 1 False k by simp
        then have "2 ^ (7 * k - 1) * 128 \<le> n" by (simp add: less_eq_div_iff_mult_less_eq)
        moreover have "2 ^ (7 * k - 1) * 128 = (2 :: nat) ^ (7 * k - 1 + 7)" by (simp add: power_add)
        moreover have "7 * k - 1 + 7 = 7 * Suc k - 1" using Suc by simp
        ultimately show ?thesis using False k by (simp add: signed_length.simps [of n])
      qed
    qed (simp add: signed_length.simps [of n])
  qed
qed

lemma signed_length_unique:
  assumes "0 < k" and "n < 2 ^ (7 * k - 1)" and "k = 1 \<or> 2 ^ (7 * (k - 1) - 1) \<le> n"
  shows "signed_length n = k"
proof (rule ccontr)
  assume "signed_length n \<noteq> k"
  then consider "signed_length n < k" | "k < signed_length n" by linarith
  then show False
  proof cases
    case 1
    then have "(2 :: nat) ^ (7 * signed_length n - 1) \<le> 2 ^ (7 * (k - 1) - 1)" by (intro power_increasing) simp_all
    then have "n < 2 ^ (7 * (k - 1) - 1)" using signed_length_bounds(1) [of n] by (rule less_le_trans [rotated])
    then show False using assms(3) 1 signed_length_pos [of n] by simp
  next
    case 2
    then have "(2 :: nat) ^ (7 * k - 1) \<le> 2 ^ (7 * (signed_length n - 1) - 1)" by (intro power_increasing) simp_all
    moreover have "2 ^ (7 * (signed_length n - 1) - 1) \<le> n" using signed_length_bounds(2) [of n] 2 assms(1) by simp
    ultimately show False using assms(2) by linarith
  qed
qed

lemma signed_length_le: "n < 2 ^ 63 \<Longrightarrow> signed_length n \<le> 10"
proof (rule ccontr)
  assume n: "n < 2 ^ 63" "\<not> signed_length n \<le> 10"
  then have "(2 :: nat) ^ 63 \<le> 2 ^ (7 * (signed_length n - 1) - 1)" by (intro power_increasing) simp_all
  then show False using signed_length_bounds(2) [of n] n by simp
qed

lemma bits_to_length: "k < 63 \<Longrightarrow> kBitsToLength ! Suc k = Suc (Suc k div 7)"
proof -
  have "list_all (\<lambda>k. kBitsToLength ! Suc k = Suc (Suc k div 7)) [0..<63]" by code_simp
  then show "k < 63 \<Longrightarrow> kBitsToLength ! Suc k = Suc (Suc k div 7)" by (simp add: list_all_iff)
qed

lemma signed_encoding_length_positive:
  assumes "w \<noteq> 0" and "unat w < 2 ^ 63"
  shows "SignedEncodingLengthPositive w = signed_length (unat w)" and "SignedEncodingLength w = signed_length (unat w)"
proof -
  obtain k where k: "2 ^ k \<le> unat w" "unat w < 2 ^ Suc k" using log2_exists [of "unat w"] assms by (auto simp: unat_gt_0)
  have "(2 :: nat) ^ k < 2 ^ 63" using k(1) assms(2) by linarith
  then have k63: "k < 63" by (rule power_less_imp_less_exp [rotated]) simp
  have pos: "\<not> w <s 0" using assms(2) by (simp add: negative_iff)
  have "signed_length (unat w) = Suc (Suc k div 7)"
  proof (rule signed_length_unique)
    have "Suc k \<le> 7 * Suc (Suc k div 7) - 1" by presburger
    then have "(2 :: nat) ^ Suc k \<le> 2 ^ (7 * Suc (Suc k div 7) - 1)" by (intro power_increasing) simp_all
    then show "unat w < 2 ^ (7 * Suc (Suc k div 7) - 1)" using k(2) by linarith
    have "(2 :: nat) ^ (7 * (Suc k div 7) - 1) \<le> 2 ^ k" by (intro power_increasing) simp_all
    then show "Suc (Suc k div 7) = 1 \<or> 2 ^ (7 * (Suc (Suc k div 7) - 1) - 1) \<le> unat w" using k(1) unfolding diff_Suc_1 by (blast intro: le_trans)
  qed simp
  then show "SignedEncodingLengthPositive w = signed_length (unat w)" "SignedEncodingLength w = signed_length (unat w)"
    using log2_64_eq [OF k] bits_to_length [OF k63] pos
    by (simp_all add: SignedEncodingLengthPositive_def SignedEncodingLength_def nat_add_distrib)
qed

section \<open>The writers of signed numbers\<close>

lemma upt_check: "list_all P [a..<b] \<Longrightarrow> a \<le> k \<Longrightarrow> k < b \<Longrightarrow> P k"
  by (simp add: list_all_iff)

lemma be_bytes_xor: "map2 (XOR) (be_bytes k a) (be_bytes k b) = be_bytes k (a XOR b)"
proof (induction k arbitrary: a b)
  case (Suc k)
  have "(a XOR b) div 256 = (a div 256) XOR (b div 256)"
    using drop_bit_xor [of 8 a b] by (simp add: drop_bit_eq_div)
  moreover have "(of_nat (a XOR b) :: byte) = of_nat a XOR of_nat b"
    by (rule bit_word_eqI) (simp add: bit_simps)
  ultimately show ?case using Suc by simp
qed simp

lemma be_bytes_append: "be_bytes (m + k) v = be_bytes m (v div 256 ^ k) @ be_bytes k v"
proof (induction k arbitrary: v)
  case (Suc k)
  then show ?case by (simp add: div_mult2_eq)
qed simp

lemma xor_disjoint: "a < 2 ^ k \<Longrightarrow> a XOR (b * 2 ^ k) = b * 2 ^ k + a" for a b :: nat
proof -
  assume a: "a < 2 ^ k"
  have *: "b * 2 ^ k = push_bit k b" by (simp add: push_bit_eq_mult)
  have zero: "a AND push_bit k b = 0"
  proof (rule bit_eqI)
    fix i
    have "bit a i \<Longrightarrow> i < k"
    proof (rule ccontr)
      assume "bit a i" "\<not> i < k"
      then have "(2 :: nat) ^ k \<le> 2 ^ i" "2 ^ i \<le> a" by (auto intro!: power_increasing simp: bit_iff_odd not_less elim: odd_pos dest!: odd_pos simp: div_greater_zero_iff)
      then show False using a by linarith
    qed
    then show "bit (a AND push_bit k b) i = bit 0 i" by (auto simp: bit_simps)
  qed
  then have "a XOR push_bit k b = a + push_bit k b" by (rule disjunctive_add_eq_xor [symmetric])
  then show ?thesis by (simp add: * add.commute)
qed

lemma be_bytes_low: "be_bytes k (h * 256 ^ k + n) = be_bytes k n"
  by (rule be_val_inj) (simp_all add: be_val_be_bytes)

lemma be_bytes_2: "be_bytes 2 v = [of_nat (v div 256), of_nat v]"
  by (simp add: numeral_2_eq_2)

lemma be_bytes_high:
  assumes "n < 2 ^ (7 * k - 1)" and "2 \<le> k" and "k \<le> 10"
  shows "be_bytes k (signed_header k + n) = map2 (XOR) (be_bytes 2 (n div 256 ^ (k - 2))) [fst (kLengthToHeaderBits ! k), snd (kLengthToHeaderBits ! k)] @ be_bytes (k - 2) n"
proof -
  define h where "h = (2 ^ k - 1 :: nat)"
  define t where "t = n div 256 ^ (k - 2)"
  have bits: "7 * k - 1 = (15 - k) + 8 * (k - 2)" "7 * k = (16 - k) + 8 * (k - 2)" using assms by simp_all
  have "n < 2 ^ (15 - k) * 256 ^ (k - 2)" using assms(1) unfolding bits(1) by (simp add: power_add power_mult)
  then have "t < 2 ^ (15 - k)" by (simp add: t_def div_less_iff_less_mult)
  also have "(2 :: nat) ^ (15 - k) \<le> 2 ^ (16 - k)" by (intro power_increasing) simp_all
  finally have t: "t XOR (h * 2 ^ (16 - k)) = h * 2 ^ (16 - k) + t" by (rule xor_disjoint)
  have header: "signed_header k = h * 2 ^ (16 - k) * 256 ^ (k - 2)"
    unfolding signed_header_def bits(2) h_def by (simp add: power_add power_mult)
  have "list_all (\<lambda>k. be_bytes 2 ((2 ^ k - 1) * 2 ^ (16 - k)) = [fst (kLengthToHeaderBits ! k), snd (kLengthToHeaderBits ! k)]) [2..<11]"
    by (simp add: be_bytes_2 upt_rec kLengthToHeaderBits_def)
  then have table: "be_bytes 2 (h * 2 ^ (16 - k)) = [fst (kLengthToHeaderBits ! k), snd (kLengthToHeaderBits ! k)]"
    unfolding h_def by (rule upt_check) (use assms in simp_all)
  have "be_bytes (2 + (k - 2)) (signed_header k + n) = be_bytes 2 (h * 2 ^ (16 - k) + t) @ be_bytes (k - 2) n"
    unfolding be_bytes_append header be_bytes_low by (simp add: t_def)
  also have "be_bytes 2 (h * 2 ^ (16 - k) + t) = map2 (XOR) (be_bytes 2 t) (be_bytes 2 (h * 2 ^ (16 - k)))"
    unfolding be_bytes_xor t ..
  moreover have "2 + (k - 2) = k" using assms by simp
  ultimately show ?thesis by (simp only: t_def table)
qed

lemma low_byte_not: "(ucast (NOT w :: u64) :: byte) = NOT (ucast w)"
  by (rule bit_word_eqI) (simp add: bit_simps)

lemma byte_xor_not: "NOT b XOR c = NOT (b XOR c)" for b c :: byte
  by (rule bit_word_eqI) (auto simp: bit_simps)

lemma write_signed_positive:
  assumes "\<not> num <s 0"
  shows "WriteSignedNumIncreasing dest num = Some (dest @ signed_code (unat num))"
    and "WriteSignedNumIncreasing dest (NOT num) = Some (dest @ map NOT (signed_code (unat num)))"
proof -
  define n where "n = unat num"
  have n: "n < 2 ^ 63" using assms by (simp add: negative_iff n_def)
  have "WriteSignedNumIncreasing dest num = Some (dest @ signed_code n) \<and> WriteSignedNumIncreasing dest (NOT num) = Some (dest @ map NOT (signed_code n))"
  proof (cases "n < 64")
    case True
    have "list_all (\<lambda>n. ucast (scast (fst (kLengthToHeaderBits ! 1)) XOR of_nat n :: u64) = (of_nat (128 + n) :: byte)) [0..<64]" by code_simp
    then have "ucast (scast (fst (kLengthToHeaderBits ! 1)) XOR of_nat n :: u64) = (of_nat (128 + n) :: byte)"
      by (rule upt_check) (use True in simp_all)
    moreover have "of_nat n = num" by (simp add: n_def)
    ultimately have "ucast (scast (fst (kLengthToHeaderBits ! 1)) XOR num) = (of_nat (128 + n) :: byte)" by (simp only:)
    moreover have "signed_code n = [of_nat (128 + n)]"
      using True by (simp add: signed_code_def signed_header_def signed_length.simps [of n])
    moreover have "num < 64" using True by (simp add: word_less_nat_alt n_def)
    ultimately show ?thesis using assms by (simp add: WriteSignedNumIncreasing_def negative_not low_byte_not)
  next
    case False
    define k where "k = signed_length n"
    have k: "2 \<le> k" "k \<le> 10" "n < 2 ^ (7 * k - 1)"
      using signed_length_pos [of "n div 128"] False signed_length_le [OF n] signed_length_bounds(1) [of n]
      by (auto simp: k_def signed_length.simps [of n])
    have big: "\<not> num < 64" "num \<noteq> 0" using False by (auto simp: word_less_nat_alt n_def)
    have len: "SignedEncodingLengthPositive num = k" using signed_encoding_length_positive(1) [OF big(2)] n by (simp add: n_def k_def)
    have "be_bytes (2 + 8) n = [0, 0] @ be_bytes 8 n"
      using n unfolding be_bytes_append be_bytes_2 by simp
    then have top: "be_bytes 10 n = [0, 0] @ be_bytes 8 n" by simp
    have buf: "drop (10 - k) ([0, 0] @ be_bytes 8 n) = be_bytes 2 (n div 256 ^ (k - 2)) @ be_bytes (k - 2) n"
    proof -
      have "2 + (k - 2) = k" using k(1) by simp
      then have "be_bytes k n = be_bytes 2 (n div 256 ^ (k - 2)) @ be_bytes (k - 2) n" using be_bytes_append [of 2 "k - 2" n] by (simp only:)
      then show ?thesis using drop_be_bytes_le [of k 10 n] k(2) unfolding top by simp
    qed
    have neg: "drop (10 - k) ([0xff, 0xff] @ map NOT (be_bytes 8 n)) = map NOT (drop (10 - k) ([0, 0] @ be_bytes 8 n))"
    proof -
      have ff: "(0xff :: byte) = NOT 0" by code_simp
      have "[0xff, 0xff] @ map NOT (be_bytes 8 n) = map NOT ([0, 0] @ be_bytes 8 n)" unfolding ff by simp
      then show ?thesis by (simp only: drop_map)
    qed
    have store: "UNALIGNED_STORE 2 (ghtonll w) ([a, b] @ replicate 8 0) = [a, b] @ be_bytes 8 (unat w)" for w a b
      by (simp add: UNALIGNED_STORE_def network_bytes)
    have code: "signed_code n = map2 (XOR) (be_bytes 2 (n div 256 ^ (k - 2))) [fst (kLengthToHeaderBits ! k), snd (kLengthToHeaderBits ! k)] @ be_bytes (k - 2) n"
      unfolding signed_code_def k_def [symmetric] by (rule be_bytes_high [OF k(3,1,2)])
    obtain b c where bc: "be_bytes 2 (n div 256 ^ (k - 2)) = [b, c]" by (simp add: numeral_2_eq_2)
    have shape: "drop (10 - k) (UNALIGNED_STORE 2 (ghtonll num) ([0, 0] @ replicate 8 0)) = [b, c] @ be_bytes (k - 2) n"
      "drop (10 - k) (UNALIGNED_STORE 2 (ghtonll (NOT num)) ([0xff, 0xff] @ replicate 8 0)) = map NOT ([b, c] @ be_bytes (k - 2) n)"
      unfolding store be_bytes_not n_def [symmetric] neg buf bc by (rule refl)+
    have "take k (x # y # be_bytes (k - 2) n) = x # y # be_bytes (k - 2) n" "take k (x # y # map NOT (be_bytes (k - 2) n)) = x # y # map NOT (be_bytes (k - 2) n)" for x y
      using k(1) by simp_all
    then show ?thesis
      by (simp only: WriteSignedNumIncreasing_def Let_def negative_not assms if_True if_False not_True_eq_False not_False_eq_True bit.double_compl big len shape k(1))
        (simp add: code bc byte_xor_not)
  qed
  then show "WriteSignedNumIncreasing dest num = Some (dest @ signed_code (unat num))"
    "WriteSignedNumIncreasing dest (NOT num) = Some (dest @ map NOT (signed_code (unat num)))"
    by (simp_all add: n_def)
qed

section \<open>The reader of signed numbers\<close>

definition mask_byte :: "u64 \<Rightarrow> byte \<Rightarrow> byte" where
  "mask_byte m b = b XOR ucast (m AND 0xff)"

lemma mask_byte_not: "mask_byte (NOT m) (NOT b) = mask_byte m b"
proof -
  have "(0xff :: u64) = mask 8" by (simp add: mask_eq_exp_minus_1)
  then show ?thesis unfolding mask_byte_def \<open>0xff = mask 8\<close> by (intro bit_word_eqI) (auto simp: bit_simps)
qed

lemma read_signed_length_not: "src \<noteq> [] \<Longrightarrow> read_signed_length (NOT m) (map NOT src) = read_signed_length m src"
  unfolding read_signed_length_def mask_byte_def [symmetric]
  by (cases "8 \<le> length src") (simp_all add: mask_byte_not Let_def cong: if_cong)

lemma le_word_not: "LENGTH('a::len) = 8 * length bs \<Longrightarrow> le_word (map NOT bs) = (NOT (le_word bs) :: 'a word)"
proof -
  assume len: "LENGTH('a) = 8 * length bs"
  have "le_word (le_bytes (length bs) (NOT (le_word bs) :: 'a word)) = (NOT (le_word bs) :: 'a word)"
    by (rule le_word_le_bytes [OF len])
  then show ?thesis using le_bytes_le_word(2) [of bs "length bs", where 'a = 'a] len by simp
qed

lemma signed_length_not: "SignedEncodingLength (NOT x) = SignedEncodingLength x"
  by (auto simp: SignedEncodingLength_def negative_not)

lemma xor_not: "NOT x XOR y = NOT (x XOR y)" for x y :: "'a::len word"
  by (rule bit_word_eqI) (auto simp: bit_simps)

lemma sign_bit_not: "NOT b AND 0x80 = 0 \<longleftrightarrow> b AND 0x80 \<noteq> (0 :: byte)"
  by (rule byte_check [where P = "\<lambda>b. NOT b AND 0x80 = 0 \<longleftrightarrow> b AND 0x80 \<noteq> 0"]) code_simp

lemma read_signed_length_bound:
  assumes "read_signed_length m src = Some k"
  shows "k \<le> length src" and "src ! 0 XOR ucast (m AND 0xff) = 0xff \<longrightarrow> 8 \<le> k \<and> k \<le> 10"
  using assms by (auto simp: read_signed_length_def Let_def split: if_splits)

fun map_read :: "('a \<Rightarrow> 'b) \<Rightarrow> (byte list \<Rightarrow> byte list) \<Rightarrow> 'a outcome \<Rightarrow> 'b outcome" where
  "map_read f g Aborts = Aborts"
| "map_read f g Fails = Fails"
| "map_read f g (Reads a rest) = Reads (f a) (g rest)"

lemma read_signed_not: "ReadSignedNumIncreasing (map NOT src) = map_read NOT (map NOT) (ReadSignedNumIncreasing src)"
proof (cases "src = []")
  case False
  define m :: u64 where "m = (if src ! 0 AND 0x80 = 0 then NOT 0 else 0)"
  have m': "(if map NOT src ! 0 AND 0x80 = 0 then NOT 0 else 0) = NOT m"
    using False sign_bit_not [of "src ! 0"] by (cases src) (auto simp: m_def)
  have first: "mask_byte (NOT m) (map NOT src ! 0) = mask_byte m (src ! 0)" using False by (simp add: mask_byte_not)
  show ?thesis
  proof (cases "read_signed_length m src")
    case None
    then show ?thesis using False read_signed_length_not [OF False, of m]
      unfolding ReadSignedNumIncreasing_def Let_def m' m_def [symmetric] by simp
  next
    case (Some k)
    define x where "x = (if mask_byte m (src ! 0) \<noteq> 0xff then shift_in m (take k src) else ghtonll (UNALIGNED_LOAD (k - 8) src)) XOR kLengthToMask ! k"
    have short: "k \<le> length src" "mask_byte m (src ! 0) = 0xff \<longrightarrow> 8 \<le> k"
      using read_signed_length_bound [OF Some] by (simp_all add: mask_byte_def)
    have load: "8 \<le> k \<Longrightarrow> ghtonll (UNALIGNED_LOAD (k - 8) (map NOT src)) = NOT (ghtonll (UNALIGNED_LOAD (k - 8) src))"
      using short le_word_not [of "take 8 (drop (k - 8) src)", where 'a = 64]
      by (simp add: UNALIGNED_LOAD_def take_map drop_map ghtonll_def le_bytes_not rev_map le_word_not)
    have x': "(if mask_byte (NOT m) (map NOT src ! 0) \<noteq> 0xff then shift_in (NOT m) (take k (map NOT src)) else ghtonll (UNALIGNED_LOAD (k - 8) (map NOT src))) XOR kLengthToMask ! k = NOT x"
      unfolding first x_def take_map shift_in_not using load short(2) by (simp add: xor_not)
    have "ReadSignedNumIncreasing src = (if k = SignedEncodingLength x then Reads x (drop k src) else Aborts)"
      using False Some unfolding ReadSignedNumIncreasing_def Let_def m_def [symmetric] mask_byte_def [symmetric] x_def by simp
    moreover have "ReadSignedNumIncreasing (map NOT src) = (if k = SignedEncodingLength (NOT x) then Reads (NOT x) (drop k (map NOT src)) else Aborts)"
      using False Some read_signed_length_not [OF False, of m]
      unfolding ReadSignedNumIncreasing_def Let_def m' mask_byte_def [symmetric] x'[symmetric] by simp
    ultimately show ?thesis by (simp add: signed_length_not drop_map)
  qed
qed (simp add: ReadSignedNumIncreasing_def)

text \<open>The lengths that the first bytes of a number that is not negative announce\<close>

definition announces :: "byte list \<Rightarrow> nat \<Rightarrow> bool" where
  "announces src k \<longleftrightarrow> 1 \<le> k \<and> k \<le> 10 \<and> k \<le> length src \<and> signed_header k \<le> be_val (take k src)
     \<and> be_val (take k src) < signed_header k + (if k = 10 then 2 ^ 63 else 2 ^ (7 * k - 1))"

lemma leading_ones:
  assumes "unat (b :: byte) \<noteq> 255"
  shows "\<exists>j\<le>7. Log2FloorNonZero (ucast (b XOR 0xff)) = int j \<and> 256 - 2 ^ Suc j \<le> unat b \<and> unat b < 256 - 2 ^ j"
proof -
  have "unat (b XOR 0xff) = 255 - unat b"
    by (rule byte_check [where P = "\<lambda>b. unat (b XOR 0xff) = 255 - unat b"]) code_simp
  then have u: "unat (ucast (b XOR 0xff) :: 32 word) = 255 - unat b" by (simp add: unat_ucast_up)
  moreover have "unat b < 255" using assms unat_le8 [of b] by linarith
  ultimately obtain j where j: "2 ^ j \<le> unat (ucast (b XOR 0xff) :: 32 word)" "unat (ucast (b XOR 0xff) :: 32 word) < 2 ^ Suc j"
    using log2_exists [of "255 - unat b"] by auto
  have "2 ^ j \<le> 255 - unat b" using j(1) unfolding u .
  then have "(2 :: nat) ^ j < 2 ^ 8" by simp
  then have "j < 8" by (rule power_less_imp_less_exp [rotated]) simp
  then show ?thesis using log2_eq(1) [OF j] j u \<open>unat b < 255\<close> by (intro exI [of _ j]) auto
qed

lemma header_sum: "signed_header k + 2 ^ (7 * k) = 2 ^ (8 * k)"
proof -
  have "signed_header k + 2 ^ (7 * k) = 2 ^ k * 2 ^ (7 * k)"
    unfolding signed_header_def by (simp add: diff_mult_distrib)
  then show ?thesis by (simp flip: power_add)
qed

lemma be_val_take_Suc: "src = b # t \<Longrightarrow> be_val (take (Suc k) src) = unat b * 256 ^ min (length t) k + be_val (take k t)"
  by (simp add: be_val_Cons del: be_val_acc.simps)

lemma announces_small:
  assumes src: "src = b # t" and k: "1 \<le> k" "k \<le> 7" "k \<le> length src"
    and b: "256 - 2 ^ (8 - k) \<le> unat b" "unat b < 256 - 2 ^ (7 - k)"
  shows "announces src k"
proof -
  obtain j where j: "k = Suc j" using k(1) by (cases k) simp_all
  then have v: "be_val (take k src) = unat b * 256 ^ j + be_val (take j t)" using be_val_take_Suc [OF src] k(3) src by simp
  have r: "be_val (take j t) < 256 ^ j" using be_val_less [of "take j t"] k(3) src j by simp
  have pow: "256 * (256 :: nat) ^ j = 2 ^ (8 * k)" "2 ^ (8 - k) * (256 :: nat) ^ j = 2 ^ (7 * k)" "2 ^ (7 - k) * (256 :: nat) ^ j = 2 ^ (7 * k - 1)"
  proof -
    have p: "(256 :: nat) ^ j = 2 ^ (8 * j)" by (simp add: power_mult)
    have "8 * k = 8 + 8 * j" "7 * k = 8 - k + 8 * j" "7 * k - 1 = 7 - k + 8 * j" using k j by simp_all
    then show "256 * (256 :: nat) ^ j = 2 ^ (8 * k)" "2 ^ (8 - k) * (256 :: nat) ^ j = 2 ^ (7 * k)" "2 ^ (7 - k) * (256 :: nat) ^ j = 2 ^ (7 * k - 1)"
      unfolding p by (simp_all only: power_add) simp
  qed
  have "256 * 256 ^ j \<le> (unat b + 2 ^ (8 - k)) * (256 :: nat) ^ j" using b(1) by (intro mult_le_mono1) simp
  then have "2 ^ (8 * k) \<le> unat b * 256 ^ j + 2 ^ (7 * k)" unfolding add_mult_distrib pow .
  then have lo: "signed_header k \<le> be_val (take k src)" using header_sum [of k] v by linarith
  have "(unat b + 1 + 2 ^ (7 - k)) * 256 ^ j \<le> 256 * (256 :: nat) ^ j" using b(2) by (intro mult_le_mono1) simp
  then have "unat b * 256 ^ j + 256 ^ j + 2 ^ (7 * k - 1) \<le> 2 ^ (8 * k)" unfolding add_mult_distrib pow by simp
  moreover have "(2 :: nat) ^ (7 * k) = 2 * 2 ^ (7 * k - 1)" using k(1) power_Suc [of "2 :: nat" "7 * k - 1"] by simp
  ultimately have "be_val (take k src) < signed_header k + 2 ^ (7 * k - 1)" using header_sum [of k] v r by linarith
  then show ?thesis using lo k by (simp add: announces_def)
qed

lemma announces_large:
  assumes src: "src = b # c # d # t" and k: "8 \<le> k" "k \<le> 10" "k \<le> length src" and b: "unat b = 255"
  shows "announces src k \<longleftrightarrow> (if k = 8 then unat c < 128 else if k = 9 then 128 \<le> unat c \<and> unat c < 192 else unat c = 192 \<and> unat d < 128)"
proof -
  obtain j where j: "k = Suc (Suc (Suc j))" using k(1) by (intro that [of "k - 3"]) simp
  have r: "be_val (take j t) < 256 ^ j" using be_val_less [of "take j t"] k src j by simp
  have v: "be_val (take k src) = 255 * 256 ^ Suc (Suc j) + unat c * 256 ^ Suc j + unat d * 256 ^ j + be_val (take j t)"
    using k(3) src b unfolding j by (simp add: be_val_Cons del: be_val_acc.simps power_Suc)
  consider "k = 8" | "k = 9" | "k = 10" using k by linarith
  then show ?thesis
  proof cases
    case 1
    then show ?thesis using j v r unat_le8 [of d] k(3) unfolding announces_def signed_header_def by (simp, intro iffI conjI; (elim conjE)?; linarith)
  next
    case 2
    then show ?thesis using j v r unat_le8 [of d] k(3) unfolding announces_def signed_header_def by (simp, intro iffI conjI; (elim conjE)?; linarith)
  next
    case 3
    have "be_val (take k src) = 255 * 256 ^ 9 + unat c * 256 ^ 8 + unat d * 256 ^ 7 + be_val (take j t)" "be_val (take j t) < 256 ^ 7"
      using v r j 3 by simp_all
    note v10 = this
    have iff: "announces src k \<longleftrightarrow> 1023 * 2 ^ 70 \<le> be_val (take k src) \<and> be_val (take k src) < 1023 * 2 ^ 70 + 2 ^ 63"
      using 3 k(3) by (simp add: announces_def signed_header_def)
    have "unat c = 192 \<and> unat d < 128" if "announces src k"
    proof -
      have bounds: "1023 * 2 ^ 70 \<le> be_val (take k src)" "be_val (take k src) < 1023 * 2 ^ 70 + 2 ^ 63" using that iff by simp_all
      have "\<not> unat c \<le> 191" using bounds v10 unat_le8 [of d] by (intro notI) simp
      moreover have "unat c < 193" using bounds v10 by simp
      ultimately have "unat c = 192" by linarith
      then show ?thesis using bounds v10 by simp
    qed
    moreover have "announces src k" if "unat c = 192" "unat d < 128" unfolding iff using v10 that by simp
    ultimately show ?thesis using 3 by auto
  qed
qed

lemma first_positive: "b AND 0x80 \<noteq> 0 \<longleftrightarrow> 128 \<le> unat b" for b :: byte
  by (rule byte_check [where P = "\<lambda>b. b AND 0x80 \<noteq> 0 \<longleftrightarrow> 128 \<le> unat b"]) code_simp

lemma announces_unique:
  assumes "announces src k" and "announces src l"
  shows "k = l"
proof -
  have *: "k \<le> l" if "announces src k" "announces src l" for k l
  proof (rule ccontr)
    assume "\<not> k \<le> l"
    define d where "d = k - l - 1"
    have k: "k = l + Suc d" "1 \<le> l" "k \<le> length src" using that \<open>\<not> k \<le> l\<close> by (simp_all add: d_def announces_def)
    let ?v = "be_val (take l src)" and ?w = "be_val (take k src)"
    have "take k src = take l src @ take (Suc d) (drop l src)" unfolding k(1) by (rule take_add)
    then have w: "?w = ?v * 256 ^ Suc d + be_val (take (Suc d) (drop l src))"
      using k by (simp add: be_val_acc_append be_val_acc_eq [of ?v] del: power_Suc)
    have "be_val (take (Suc d) (drop l src)) < 256 ^ Suc d" using be_val_less [of "take (Suc d) (drop l src)"] k by simp
    then have less: "?w < (?v + 1) * 256 ^ Suc d" using w by simp
    have "?v < signed_header l + 2 ^ (7 * l - 1)" using that \<open>\<not> k \<le> l\<close> by (auto simp: announces_def)
    moreover have "(2 :: nat) ^ (7 * l) = 2 * 2 ^ (7 * l - 1)" using k(2) power_Suc [of "2 :: nat" "7 * l - 1"] by simp
    ultimately have "(?v + 1) + 2 ^ (7 * l - 1) \<le> 2 ^ (8 * l)" using header_sum [of l] by linarith
    then have "((?v + 1) + 2 ^ (7 * l - 1)) * 256 ^ Suc d \<le> 2 ^ (8 * l) * 256 ^ Suc d" by (rule mult_le_mono1)
    moreover have p: "(256 :: nat) ^ Suc d = 2 ^ (8 * Suc d)" unfolding power_mult by simp
    ultimately have "(?v + 1) * 256 ^ Suc d + 2 ^ (7 * l - 1 + 8 * Suc d) \<le> 2 ^ (8 * k)"
      by (simp only: add_mult_distrib power_add [symmetric] k(1) add_mult_distrib2)
    moreover have "(2 :: nat) ^ (7 * k) \<le> 2 ^ (7 * l - 1 + 8 * Suc d)" using k by (intro power_increasing) simp_all
    ultimately have "?w < signed_header k" using less header_sum [of k] by linarith
    then show False using that by (simp add: announces_def)
  qed
  show ?thesis using * [OF assms] * [OF assms(2,1)] by simp
qed

lemma read_signed_length_announces:
  assumes "src \<noteq> []" and "src ! 0 AND 0x80 \<noteq> 0"
  shows "read_signed_length 0 src = Some k \<longleftrightarrow> announces src k"
proof -
  obtain b t where src: "src = b # t" using assms(1) by (cases src) simp_all
  have b: "128 \<le> unat b" using assms(2) first_positive src by simp
  have ff: "b = 0xff \<longleftrightarrow> unat b = 255" by (simp add: word_unat_eq_iff)
  have le8: "announces src k \<Longrightarrow> 8 \<le> k" if "unat b = 255" for k
  proof (rule ccontr)
    assume a: "announces src k" "\<not> 8 \<le> k"
    then obtain j where j: "k = Suc j" by (cases k) (simp_all add: announces_def)
    have v: "be_val (take k src) = 255 * 256 ^ j + be_val (take j t)" using be_val_take_Suc [OF src] a j src that by (simp add: announces_def)
    have "be_val (take k src) < signed_header k + 2 ^ (7 * k - 1)" using a by (auto simp: announces_def)
    moreover have "(2 :: nat) ^ (7 * k) = 2 * 2 ^ (7 * k - 1)" using j power_Suc [of "2 :: nat" "7 * k - 1"] by simp
    moreover have "(256 :: nat) ^ j \<le> 2 ^ (7 * k - 1)" using a(2) j power_increasing [of "8 * j" "7 * k - 1" "2 :: nat"] by (simp add: power_mult)
    moreover have "256 * (256 :: nat) ^ j = 2 ^ (8 * k)" unfolding j power_mult by simp
    ultimately show False using v header_sum [of k] by linarith
  qed
  have some: "announces src k" if r: "read_signed_length 0 src = Some k" for k
  proof (cases "unat b = 255")
    case False
    obtain j where j: "j \<le> 7" "Log2FloorNonZero (ucast (b XOR 0xff)) = int j" "256 - 2 ^ Suc j \<le> unat b" "unat b < 256 - 2 ^ j"
      using leading_ones [OF False] by blast
    have "j < 7" using j(1,4) b by (cases "j = 7") simp_all
    moreover from this have "k = 7 - j" "k \<le> length src"
      using r False ff j(2) src by (auto simp: read_signed_length_def Let_def nat_diff_distrib split: if_splits)
    ultimately show ?thesis using j(3,4) announces_small [OF src, of k] by simp
  next
    case True
    then have "8 \<le> length src" using r ff src by (auto simp: read_signed_length_def Let_def split: if_splits)
    then obtain c d u where cd: "src = b # c # d # u" using src by (auto simp: numeral_eq_Suc Suc_le_length_iff)
    then show ?thesis using r True ff announces_large [OF cd _ _ _ True, of k]
      by (auto simp: read_signed_length_def Let_def word_le_nat_alt word_less_nat_alt word_unat_eq_iff split: if_splits)
  qed
  have "\<exists>k. read_signed_length 0 src = Some k" if a: "announces src k" for k
  proof (cases "unat b = 255")
    case False
    obtain j where j: "j \<le> 7" "Log2FloorNonZero (ucast (b XOR 0xff)) = int j" "256 - 2 ^ Suc j \<le> unat b" "unat b < 256 - 2 ^ j"
      using leading_ones [OF False] by blast
    have j7: "j < 7" using j(1,4) b by (cases "j = 7") simp_all
    have "announces (src @ replicate 10 0) (7 - j)" using j(3,4) j7 src by (intro announces_small [of _ b "t @ replicate 10 0"]) simp_all
    moreover have "announces (src @ replicate 10 0) k" using a by (simp add: announces_def)
    ultimately have "k = 7 - j" by (rule announces_unique [symmetric])
    then have "7 - j \<le> length src" using a by (simp add: announces_def)
    then show ?thesis using False ff j(2) j7 src by (auto simp: read_signed_length_def Let_def nat_diff_distrib)
  next
    case True
    have k: "8 \<le> k" "k \<le> 10" "k \<le> length src" using le8 [OF True a] a by (simp_all add: announces_def)
    then have "8 \<le> length src" by simp
    then obtain c d u where cd: "src = b # c # d # u" using src by (auto simp: numeral_eq_Suc Suc_le_length_iff)
    then show ?thesis using True ff k announces_large [OF cd k True] a
      by (auto simp: read_signed_length_def Let_def word_le_nat_alt word_less_nat_alt word_unat_eq_iff split: if_splits)
  qed
  then show ?thesis using some announces_unique by metis
qed

lemma mask_header: "1 \<le> k \<Longrightarrow> k \<le> 10 \<Longrightarrow> kLengthToMask ! k = of_nat (signed_header k)"
proof -
  have "list_all (\<lambda>k. kLengthToMask ! k = of_nat (signed_header k)) [1..<11]"
    by (simp add: upt_rec kLengthToMask_def signed_header_def)
  then show "1 \<le> k \<Longrightarrow> k \<le> 10 \<Longrightarrow> kLengthToMask ! k = of_nat (signed_header k)"
    by (rule upt_check) simp_all
qed

lemma of_nat_xor: "(of_nat a :: u64) XOR of_nat b = of_nat (a XOR b)"
  by (rule bit_word_eqI) (simp add: bit_simps)

lemma signed_code_take:
  assumes "announces src k" and "n = be_val (take k src) - signed_header k"
  shows "n < 2 ^ 63" and "signed_length n = k \<longleftrightarrow> k = 1 \<or> 2 ^ (7 * (k - 1) - 1) \<le> n"
    and "be_bytes k (signed_header k + n) = take k src"
    and "(of_nat (be_val (take k src)) :: u64) XOR kLengthToMask ! k = of_nat n"
proof -
  have k: "1 \<le> k" "k \<le> 10" "k \<le> length src" "signed_header k \<le> be_val (take k src)"
    and n: "n < (if k = 10 then 2 ^ 63 else 2 ^ (7 * k - 1))" using assms by (auto simp: announces_def)
  have "(2 :: nat) ^ (7 * k - 1) \<le> 2 ^ 63" if "k \<noteq> 10" using k that by (intro power_increasing) simp_all
  then show n63: "n < 2 ^ 63" using n by (auto split: if_splits intro: less_le_trans)
  have "(if k = 10 then 2 ^ 63 else 2 ^ (7 * k - 1)) \<le> (2 :: nat) ^ (7 * k - 1)" using k by simp
  then have up: "n < 2 ^ (7 * k - 1)" using n by (rule less_le_trans [rotated])
  show "signed_length n = k \<longleftrightarrow> k = 1 \<or> 2 ^ (7 * (k - 1) - 1) \<le> n"
    using signed_length_unique [of k n] up k signed_length_bounds(2) [of n] by auto
  show "be_bytes k (signed_header k + n) = take k src"
    using be_bytes_be_val [of "take k src"] k assms(2) by simp
  have "(2 :: nat) ^ (7 * k - 1) \<le> 2 ^ (7 * k)" by (intro power_increasing) simp_all
  then have "n < 2 ^ (7 * k)" using up by linarith
  then have x: "n XOR signed_header k = signed_header k + n" unfolding signed_header_def by (rule xor_disjoint)
  have "be_val (take k src) = n XOR signed_header k" unfolding x using k assms(2) by simp
  then have "be_val (take k src) XOR signed_header k = n" by (simp add: xor.assoc)
  then show "(of_nat (be_val (take k src)) :: u64) XOR kLengthToMask ! k = of_nat n"
    using mask_header [OF k(1,2)] by (simp add: of_nat_xor)
qed

lemma signed_encoding_length_0: "SignedEncodingLength 0 = signed_length 0"
  by (simp add: SignedEncodingLength_def Log2Floor64_def kBitsToLength_def signed_length.simps)

lemma low_word: "(of_nat (be_val bs) :: u64) = of_nat (be_val (drop (length bs - 8) bs))"
proof -
  define k where "k = length bs - 8"
  have bs: "bs = take k bs @ drop k bs" by simp
  have "be_val bs = be_val (take k bs) * 256 ^ length (drop k bs) + be_val (drop k bs)"
    by (subst bs, simp only: be_val_acc_append be_val_acc_eq [of "be_val (take k bs)"])
  moreover have "(of_nat (be_val (take k bs) * 256 ^ length (drop k bs)) :: u64) = 0" if "8 \<le> length bs"
  proof -
    have "length (drop k bs) = 8" using that by (simp add: k_def)
    then show ?thesis unfolding word_of_nat_eq_0_iff by simp
  qed
  ultimately show ?thesis by (cases "8 \<le> length bs") (simp_all add: k_def)
qed

lemma read_signed_positive:
  assumes pos: "src \<noteq> []" "src ! 0 AND 0x80 \<noteq> 0"
  shows "ReadSignedNumIncreasing src = Reads m rest \<longleftrightarrow> \<not> m <s 0 \<and> src = signed_code (unat m) @ rest"
    and "ReadSignedNumIncreasing src = Aborts \<longleftrightarrow> (\<exists>k>1. announces src k \<and> be_val (take k src) < signed_header k + 2 ^ (7 * (k - 1) - 1))"
proof -
  have run: "ReadSignedNumIncreasing src = (if signed_length (be_val (take k src) - signed_header k) = k
      then Reads (of_nat (be_val (take k src) - signed_header k)) (drop k src) else Aborts)" if a: "announces src k" for k
  proof -
    define n where "n = be_val (take k src) - signed_header k"
    have k: "k \<le> length src" "1 \<le> k" "k \<le> 10" using a by (simp_all add: announces_def)
    have some: "read_signed_length 0 src = Some k" using read_signed_length_announces [OF pos] a by simp
    have mask: "src ! 0 XOR ucast (0 AND 0xff :: u64) = src ! 0" by simp
    have big: "src ! 0 = 0xff \<Longrightarrow> 8 \<le> k" using read_signed_length_bound(2) [OF some] by simp
    have load: "8 \<le> k \<Longrightarrow> ghtonll (UNALIGNED_LOAD (k - 8) src) = of_nat (be_val (take k src))"
    proof -
      assume "8 \<le> k"
      then have "drop (length (take k src) - 8) (take k src) = take 8 (drop (k - 8) src)" "length (take 8 (drop (k - 8) src)) = 8"
        using k by (simp_all add: drop_take)
      then show ?thesis using low_word [of "take k src"] ghtonll_load [of "take 8 (drop (k - 8) src)"] by (simp add: UNALIGNED_LOAD_def)
    qed
    have "(if src ! 0 \<noteq> 0xff then shift_in 0 (take k src) else ghtonll (UNALIGNED_LOAD (k - 8) src)) = of_nat (be_val (take k src))"
      using shift_in_eq [of 0 "take k src"] load big by simp
    moreover have "SignedEncodingLength (of_nat n) = signed_length n"
      using signed_encoding_length_positive(2) [of "of_nat n :: u64"] signed_code_take(1) [OF a n_def] signed_encoding_length_0
      by (cases "n = 0") (simp_all add: unat_of_nat_small word_unat_eq_iff)
    ultimately show ?thesis unfolding ReadSignedNumIncreasing_def Let_def
      using pos some signed_code_take(4) [OF a n_def] by (auto simp: mask n_def [symmetric])
  qed
  have none: "ReadSignedNumIncreasing src = Fails" if "\<forall>k. \<not> announces src k"
  proof -
    have "read_signed_length 0 src = None" using read_signed_length_announces [OF pos] that by (cases "read_signed_length 0 src") auto
    then show ?thesis using pos by (simp add: ReadSignedNumIncreasing_def Let_def)
  qed
  show "ReadSignedNumIncreasing src = Aborts \<longleftrightarrow> (\<exists>k>1. announces src k \<and> be_val (take k src) < signed_header k + 2 ^ (7 * (k - 1) - 1))"
  proof (cases "\<exists>k. announces src k")
    case True
    then obtain k where a: "announces src k" by blast
    have "1 \<le> k" "signed_header k \<le> be_val (take k src)" using a by (simp_all add: announces_def)
    then have "signed_length (be_val (take k src) - signed_header k) \<noteq> k \<longleftrightarrow> 1 < k \<and> be_val (take k src) < signed_header k + 2 ^ (7 * (k - 1) - 1)"
      unfolding signed_code_take(2) [OF a refl] by linarith
    moreover have "(\<exists>k>1. announces src k \<and> P k) \<longleftrightarrow> 1 < k \<and> P k" for P using a announces_unique [OF a] by blast
    ultimately show ?thesis using run [OF a] by (auto split: if_splits)
  qed (use none in auto)
  show "ReadSignedNumIncreasing src = Reads m rest \<longleftrightarrow> \<not> m <s 0 \<and> src = signed_code (unat m) @ rest"
  proof
    assume r: "ReadSignedNumIncreasing src = Reads m rest"
    then obtain k where a: "announces src k" using none by fastforce
    define n where "n = be_val (take k src) - signed_header k"
    have n: "m = of_nat n" "rest = drop k src" "signed_length n = k" using r run [OF a] unfolding n_def by (simp_all split: if_splits)
    then have "unat m = n" using signed_code_take(1) [OF a n_def] by (simp add: unat_of_nat_small)
    then show "\<not> m <s 0 \<and> src = signed_code (unat m) @ rest"
      using n signed_code_take(1,3) [OF a n_def] by (simp add: negative_iff signed_code_def)
  next
    assume s: "\<not> m <s 0 \<and> src = signed_code (unat m) @ rest"
    define k where "k = signed_length (unat m)"
    have m: "unat m < 2 ^ 63" using s by (simp add: negative_iff)
    have k: "0 < k" "k \<le> 10" "unat m < 2 ^ (7 * k - 1)"
      using signed_length_pos signed_length_le [OF m] signed_length_bounds(1) by (simp_all add: k_def)
    have "(2 :: nat) ^ (7 * k - 1) \<le> 2 ^ (7 * k)" by (intro power_increasing) simp_all
    then have "signed_header k + unat m < 2 ^ (8 * k)" using header_sum [of k] k(3) by linarith
    then have v: "be_val (take k src) = signed_header k + unat m" using s
      by (simp add: signed_code_def be_val_be_bytes k_def [symmetric] power_mult)
    then have "announces src k" using k m s by (simp add: announces_def signed_code_def k_def [symmetric])
    then show "ReadSignedNumIncreasing src = Reads m rest" using run v s
      by (simp add: k_def [symmetric]) (simp add: signed_code_def k_def)
  qed
qed

section \<open>What the readers of signed numbers accept\<close>

lemma not_not_map [simp]: "map (NOT \<circ> NOT) xs = (xs :: byte list)"
  by (simp add: comp_def)

definition signed_text :: "u64 \<Rightarrow> byte list" where
  "signed_text m = (if m <s 0 then map NOT (signed_code (unat (NOT m))) else signed_code (unat m))"

lemma signed_text_not: "signed_text (NOT m) = map NOT (signed_text m)"
  by (simp add: signed_text_def negative_not)

lemma write_signed_eq: "WriteSignedNumIncreasing dest num = Some (dest @ signed_text num)" "WriteSignedNumDecreasing dest num = Some (dest @ map NOT (signed_text num))"
proof -
  have *: "WriteSignedNumIncreasing dest num = Some (dest @ signed_text num)" for num
    using write_signed_positive(1) [of num dest] write_signed_positive(2) [of "NOT num" dest]
    by (cases "num <s 0") (simp_all add: signed_text_def negative_not)
  show "WriteSignedNumIncreasing dest num = Some (dest @ signed_text num)" by (rule *)
  show "WriteSignedNumDecreasing dest num = Some (dest @ map NOT (signed_text num))"
    unfolding WriteSignedNumDecreasing_def * signed_text_not ..
qed

lemma signed_code_first: "n < 2 ^ 63 \<Longrightarrow> \<exists>b t. signed_code n = b # t \<and> 128 \<le> unat b"
proof -
  assume "n < 2 ^ 63"
  obtain k where k: "signed_length n = Suc k" using signed_length_pos [of n] by (cases "signed_length n") simp_all
  then obtain b t where bt: "signed_code n = b # t" "length t = k" by (metis length_Suc_conv length_be_bytes signed_code_def)
  have "n < 2 ^ (7 * Suc k - 1)" using signed_length_bounds(1) [of n] k by simp
  also have "(2 :: nat) ^ (7 * Suc k - 1) \<le> 2 ^ (7 * Suc k)" by (intro power_increasing) simp_all
  finally have "signed_header (Suc k) + n < 2 ^ (8 * Suc k)" using header_sum [of "Suc k"] by linarith
  moreover have "(256 :: nat) ^ Suc k = 2 ^ (8 * Suc k)" unfolding power_mult by simp
  ultimately have "(signed_header (Suc k) + n) mod 256 ^ Suc k = signed_header (Suc k) + n" by (simp only: mod_less)
  then have v: "be_val (b # t) = signed_header (Suc k) + n" unfolding bt(1) [symmetric] signed_code_def be_val_be_bytes k .
  have "128 \<le> unat b"
  proof (rule ccontr)
    assume "\<not> 128 \<le> unat b"
    then have "(unat b + 1) * 256 ^ k \<le> 128 * 256 ^ k" by (intro mult_le_mono1) simp
    then have "unat b * 256 ^ k + 256 ^ k \<le> 128 * 256 ^ k" by (simp only: add_mult_distrib mult_1)
    then have "be_val (b # t) < 128 * 256 ^ k" using be_val_less [of t] unfolding be_val_Cons bt(2) by linarith
    moreover have "128 * (256 :: nat) ^ k = 2 ^ (8 * k + 7)" unfolding power_add power_mult by simp
    moreover have "(2 :: nat) ^ (7 * Suc k) \<le> 2 ^ (8 * k + 7)" by (intro power_increasing) simp_all
    moreover have "(2 :: nat) ^ (8 * Suc k) = 2 * 2 ^ (8 * k + 7)" unfolding power_add power_mult by simp
    ultimately show False using v header_sum [of "Suc k"] by linarith
  qed
  then show ?thesis using bt by blast
qed

lemma map_read_eq:
  "map_read f g x = Reads m rest \<longleftrightarrow> (\<exists>m' rest'. x = Reads m' rest' \<and> m = f m' \<and> rest = g rest')"
  "map_read f g x = Aborts \<longleftrightarrow> x = Aborts"
  by (cases x; auto)+

lemma read_signed_exact: "ReadSignedNumIncreasing src = Reads m rest \<longleftrightarrow> src = signed_text m @ rest"
proof (cases "src = []")
  case True
  have "signed_text m \<noteq> []"
    using signed_code_first [of "unat m"] signed_code_first [of "unat (NOT m)"] negative_iff [of m] negative_iff [of "NOT m"] negative_not [of m]
    by (auto simp: signed_text_def)
  then show ?thesis using True by (simp add: ReadSignedNumIncreasing_def)
next
  case False
  have first: "signed_code (unat w) ! 0 AND 0x80 \<noteq> 0 \<and> signed_code (unat w) \<noteq> []" if "\<not> w <s 0" for w :: u64
    using signed_code_first [of "unat w"] that by (auto simp: negative_iff first_positive)
  show ?thesis
  proof (cases "src ! 0 AND 0x80 = 0")
    case pos: False
    have "src = signed_text m @ rest \<Longrightarrow> \<not> m <s 0"
    proof
      assume "src = signed_text m @ rest" "m <s 0"
      then show False using first [of "NOT m"] pos sign_bit_not [of "signed_code (unat (NOT m)) ! 0"]
        by (simp add: signed_text_def negative_not nth_append)
    qed
    then show ?thesis using read_signed_positive(1) [OF False pos, of m rest] by (auto simp: signed_text_def)
  next
    case True
    define s where "s = map NOT src"
    have s: "src = map NOT s" by (simp add: s_def)
    have pos: "s \<noteq> []" "s ! 0 AND 0x80 \<noteq> 0" using False True sign_bit_not [of "src ! 0"] by (simp_all add: s_def)
    have "src = signed_text m @ rest \<Longrightarrow> m <s 0"
      using first [of m] True by (cases "m <s 0") (simp_all add: signed_text_def nth_append)
    moreover have "src = signed_text m @ rest \<longleftrightarrow> s = signed_text (NOT m) @ map NOT rest"
      unfolding s signed_text_not by (auto simp: map_not_flip)
    moreover have "ReadSignedNumIncreasing src = Reads m rest \<longleftrightarrow> ReadSignedNumIncreasing s = Reads (NOT m) (map NOT rest)"
      unfolding s read_signed_not map_read_eq by (metis bit.double_compl map_not_flip)
    ultimately show ?thesis using read_signed_positive(1) [OF pos, of "NOT m" "map NOT rest"]
      by (auto simp: signed_text_def negative_not)
  qed
qed

lemma map_outcome_eq:
  "map_outcome f x = Reads m rest \<longleftrightarrow> (\<exists>m'. x = Reads m' rest \<and> m = f m')"
  "map_outcome f x = Aborts \<longleftrightarrow> x = Aborts"
  by (cases x; auto)+

lemma read_signed_decreasing_exact: "ReadSignedNumDecreasing src = Reads m rest \<longleftrightarrow> src = map NOT (signed_text m) @ rest"
  unfolding ReadSignedNumDecreasing_def map_outcome_eq read_signed_exact signed_text_not [symmetric] by (metis bit.double_compl)

section \<open>Doubles and their codes\<close>

lemma sint_of_int: "- (2 ^ 63) \<le> z \<Longrightarrow> z < 2 ^ 63 \<Longrightarrow> sint (of_int z :: u64) = z"
  by (simp add: sint_sbintrunc' signed_take_bit_int_eq_self)

lemma sint_unat: "sint w = (if w <s 0 then int (unat w) - 2 ^ 64 else int (unat w))" for w :: u64
proof -
  define n where "n = unat w"
  have w: "of_int (int n) = w" "n < 2 ^ 64" using word_unat_lt [of w] by (simp_all add: n_def)
  have zero: "(of_int (2 ^ 64) :: u64) = 0" unfolding word_of_int_eq_0_iff by simp
  have "of_int (int n - 2 ^ 64) = w" unfolding of_int_diff w(1) zero by simp
  then show ?thesis using sint_of_int [of "int n - 2 ^ 64"] sint_of_int [of "int n"] w
    unfolding negative_iff n_def [symmetric] by auto
qed

text \<open>The bits of a double as the sign and magnitude that they are\<close>

definition double_key :: "u64 \<Rightarrow> int" where
  "double_key d = (if d <s 0 then 2 ^ 63 - int (unat d) else int (unat d))"

lemma encode_double: "EncodeDoubleAsInt64 d = of_int (double_key d)" "sint (EncodeDoubleAsInt64 d) = double_key d"
proof -
  define n where "n = unat d"
  have d: "of_int (int n) = d" "n < 2 ^ 64" using word_unat_lt [of d] by (simp_all add: n_def)
  have "(of_int (2 ^ 63) :: u64) = 0x8000000000000000" by simp
  then have "of_int (2 ^ 63 - int n) = 0x8000000000000000 - d" unfolding of_int_diff d(1) by simp
  then show *: "EncodeDoubleAsInt64 d = of_int (double_key d)" using d(1) by (simp add: EncodeDoubleAsInt64_def double_key_def n_def)
  show "sint (EncodeDoubleAsInt64 d) = double_key d" unfolding *
  proof (rule sint_of_int)
    show "- (2 ^ 63) \<le> double_key d" "double_key d < 2 ^ 63"
      using d(2) unfolding double_key_def negative_iff n_def [symmetric] by auto
  qed
qed

lemma decode_encode: "DecodeDoubleFromInt64 (EncodeDoubleAsInt64 d) = (if d = 0x8000000000000000 then 0 else d)"
proof -
  define n where "n = unat d"
  have d: "d = 0x8000000000000000 \<longleftrightarrow> n = 2 ^ 63" by (simp add: word_unat_eq_iff n_def)
  have "EncodeDoubleAsInt64 d <s 0 \<longleftrightarrow> double_key d < 0" using encode_double(2) [of d] by (simp add: word_sless_alt)
  also have "\<dots> \<longleftrightarrow> 2 ^ 63 < n" unfolding double_key_def negative_iff n_def [symmetric] by auto
  finally have neg: "EncodeDoubleAsInt64 d <s 0 \<longleftrightarrow> 2 ^ 63 < n" .
  show ?thesis unfolding DecodeDoubleFromInt64_def neg d
    using d by (auto simp: EncodeDoubleAsInt64_def negative_iff n_def [symmetric])
qed

lemma double_key_zero: "double_key 0x8000000000000000 = double_key 0"
  by (simp add: double_key_def negative_iff)

end
