(* ===== verification/Ordered_Code.thy ===== *)
theory Ordered_Code
  imports Ordered_Signed
begin

text \<open>
  Keys of several items in Firestore's ordered codes (\<open>util/ordered_code.h\<close> and \<open>.cc\<close>): the items that its routines write one after
  the other, what the bytes of two keys compare to, and what the readers make of a key.
\<close>

section \<open>Keys\<close>

text \<open>What one routine writes: a string or infinity, an unsigned number, a signed one, a double by its bits\<close>

datatype plain_item = Text "byte list option" | Number u64 | Signed u64 | Double u64

text \<open>An item, and whether the routine is the decreasing one\<close>

type_synonym key_item = "bool \<times> plain_item"

fun write_item :: "byte list \<Rightarrow> key_item \<Rightarrow> byte list option" where
  "write_item dest (decreasing, Text (Some s)) = (if decreasing then WriteStringDecreasing dest s else WriteString dest s)"
| "write_item dest (decreasing, Text None) = Some (WriteInfinityInternal decreasing dest)"
| "write_item dest (decreasing, Number n) = Some (if decreasing then WriteNumDecreasing dest n else WriteNumIncreasing dest n)"
| "write_item dest (decreasing, Signed n) = (if decreasing then WriteSignedNumDecreasing dest n else WriteSignedNumIncreasing dest n)"
| "write_item dest (decreasing, Double d) = (if decreasing then WriteDoubleDecreasing dest d else WriteDoubleIncreasing dest d)"

fun write_items :: "byte list \<Rightarrow> key_item list \<Rightarrow> byte list option" where
  "write_items dest [] = Some dest"
| "write_items dest (i # is) = (case write_item dest i of None \<Rightarrow> None | Some dest \<Rightarrow> write_items dest is)"

text \<open>The readers, by the routine that wrote the item\<close>

datatype routine = Texts | Numbers | Signeds | Doubles

fun routine_of :: "plain_item \<Rightarrow> routine" where
  "routine_of (Text _) = Texts"
| "routine_of (Number _) = Numbers"
| "routine_of (Signed _) = Signeds"
| "routine_of (Double _) = Doubles"

fun read_item :: "bool \<times> routine \<Rightarrow> byte list \<Rightarrow> plain_item outcome" where
  "read_item (decreasing, Texts) src = map_outcome (\<lambda>(s, inf). Text (if inf then None else Some s)) (ReadStringOrInfinityInternal decreasing src [])"
| "read_item (decreasing, Numbers) src = map_outcome Number (if decreasing then ReadNumDecreasing src else ReadNumIncreasing src)"
| "read_item (decreasing, Signeds) src = map_outcome Signed (if decreasing then ReadSignedNumDecreasing src else ReadSignedNumIncreasing src)"
| "read_item (decreasing, Doubles) src = map_outcome Double (if decreasing then ReadDoubleDecreasing src else ReadDoubleIncreasing src)"

fun read_items :: "(bool \<times> routine) list \<Rightarrow> byte list \<Rightarrow> plain_item list outcome" where
  "read_items [] src = Reads [] src"
| "read_items (r # rs) src =
     (case read_item r src of
        Aborts \<Rightarrow> Aborts
      | Fails \<Rightarrow> Fails
      | Reads i src \<Rightarrow> map_outcome (\<lambda>is. i # is) (read_items rs src))"

section \<open>The order of keys\<close>

text \<open>Infinity is after every string.\<close>

fun text_compare :: "byte list option cmp" where
  "text_compare None None = Same"
| "text_compare None (Some _) = Descending"
| "text_compare (Some _) None = Ascending"
| "text_compare (Some s) (Some t) = Comparator_string s t"

fun plain_compare :: "plain_item cmp" where
  "plain_compare (Text s) (Text t) = text_compare s t"
| "plain_compare (Number m) (Number n) = DefaultComparator (unat m) (unat n)"
| "plain_compare (Signed m) (Signed n) = DefaultComparator (sint m) (sint n)"
| "plain_compare (Double c) (Double d) = DefaultComparator (double_key c) (double_key d)"
| "plain_compare _ _ = Same"

fun item_compare :: "key_item cmp" where
  "item_compare (decreasing, i) (_, j) = (if decreasing then ReverseOrder (plain_compare i j) else plain_compare i j)"

fun same_routine :: "key_item \<Rightarrow> key_item \<Rightarrow> bool" where
  "same_routine (c, i) (d, j) \<longleftrightarrow> c = d \<and> routine_of i = routine_of j"

section \<open>The code of a key\<close>

fun plain_code :: "plain_item \<Rightarrow> byte list" where
  "plain_code (Text (Some s)) = string_code s"
| "plain_code (Text None) = [0xff, 0xff]"
| "plain_code (Number n) = num_code (unat n)"
| "plain_code (Signed n) = signed_text n"
| "plain_code (Double d) = signed_text (EncodeDoubleAsInt64 d)"

definition item_code :: "key_item \<Rightarrow> byte list" where
  "item_code i = map (Convert (fst i)) (plain_code (snd i))"

lemma map_convert [simp]: "map (Convert True) = map NOT" "map (Convert False) bs = bs"
  by (simp_all add: Convert_def fun_eq_iff cong: map_cong)

lemma write_item_eq: "write_item dest i = Some (dest @ item_code i)"
proof -
  obtain d p where i: "i = (d, p)" by (cases i)
  have inf: "kEscape2 = 0xff" "kInfinity = 0xff" by (simp_all add: escape_constants)
  show ?thesis
  proof (cases p)
    case (Text t)
    then show ?thesis unfolding i
      by (cases t; cases d) (simp_all add: item_code_def write_string_eq WriteInfinityInternal_def inf Convert_def)
  qed (cases d; simp add: i item_code_def write_num_eq write_signed_eq WriteDoubleIncreasing_def WriteDoubleDecreasing_def)+
qed

lemma write_items_eq: "write_items dest is = Some (dest @ concat (map item_code is))"
  by (induction "is" arbitrary: dest) (simp_all add: write_item_eq)

section \<open>One code before another\<close>

definition before :: "byte list \<Rightarrow> byte list \<Rightarrow> bool" where
  "before xs ys \<longleftrightarrow> (\<exists>u a b v w. xs = u @ a # v \<and> ys = u @ b # w \<and> a < b)"

lemma string_compare_prefix: "string_compare (u @ xs) (u @ ys) = string_compare xs ys"
  by (induction u) simp_all

lemma before_compare: "before xs ys \<Longrightarrow> Comparator_string (xs @ s) (ys @ t) = Ascending"
  by (auto simp: before_def Comparator_string_def string_compare_prefix)

lemma beforeI: "a < b \<Longrightarrow> before (u @ a # v) (u @ b # w)"
  unfolding before_def by blast

lemma before_head: "a < b \<Longrightarrow> before (a # v) (b # w)"
  using beforeI [of a b "[]"] by simp

lemma before_prefix: "before xs ys \<Longrightarrow> before (p @ xs) (p @ ys)"
  unfolding before_def by (metis append.assoc)

lemma before_Cons: "before xs ys \<Longrightarrow> before (p # xs) (p # ys)"
  using before_prefix [of xs ys "[p]"] by simp

lemma before_append: "before xs ys \<Longrightarrow> before (xs @ v) (ys @ w)"
  unfolding before_def by (metis append.assoc append_Cons)

lemma unat_not: "unat w + unat (NOT w) = 2 ^ LENGTH('a) - 1" for w :: "'a::len word"
proof -
  define m :: nat where "m = 2 ^ LENGTH('a)"
  have "unat (w + NOT w) = m - 1"
    by (simp add: not_eq_complement unsigned_minus_1_eq_mask mask_eq_exp_minus_1 m_def)
  then have sum: "(unat w + unat (NOT w)) mod m = m - 1" unfolding unat_word_ariths m_def .
  have "unat w < m" "unat (NOT w) < m" using word_unat_lt [of w] word_unat_lt [of "NOT w"] by (simp_all add: m_def)
  then have "unat w + unat (NOT w) = m - 1"
    using sum by (cases "unat w + unat (NOT w) < m") (simp_all add: le_mod_geq)
  then show ?thesis by (simp add: m_def)
qed

lemma unat_not_byte: "unat (NOT b) = 255 - unat b" for b :: byte
  using unat_not [of b] by simp

lemma not_less_not: "NOT a < NOT b \<longleftrightarrow> b < a" for a b :: byte
  using unat_le8 [of a] unat_le8 [of b] unfolding word_less_nat_alt unat_not_byte by (intro iffI) linarith+

lemma before_not: "before xs ys \<Longrightarrow> before (map NOT ys) (map NOT xs)"
proof -
  assume "before xs ys"
  then obtain u a b v w where "xs = u @ a # v" "ys = u @ b # w" "a < b" unfolding before_def by blast
  then show ?thesis using beforeI [of "NOT b" "NOT a" "map NOT u"] by (simp add: not_less_not)
qed

lemma before_be_val:
  assumes "length xs = length ys" and "be_val xs < be_val ys"
  shows "before xs ys"
  using assms
proof (induction xs ys rule: list_induct2)
  case (Cons a xs b ys)
  have "a \<le> b"
  proof (rule ccontr)
    assume "\<not> a \<le> b"
    then have "unat b + 1 \<le> unat a" by (simp add: word_le_nat_alt)
    then have "(unat b + 1) * 256 ^ length ys \<le> unat a * 256 ^ length ys" by (rule mult_le_mono1)
    then have "unat b * 256 ^ length ys + 256 ^ length ys \<le> unat a * 256 ^ length ys" by (simp only: add_mult_distrib mult_1)
    then show False using Cons.prems be_val_less [of ys] Cons.hyps unfolding be_val_Cons by simp
  qed
  then show ?case
  proof (cases "a = b")
    case True
    then show ?thesis using Cons by (auto simp: be_val_Cons simp del: be_val_acc.simps intro: before_Cons)
  qed (simp add: before_head)
qed simp

lemma before_short:
  assumes "length ys = length xs + d" and "(be_val xs + 1) * 256 ^ d \<le> be_val ys"
  shows "before xs ys"
proof -
  define k where "k = length xs"
  have ys: "ys = take k ys @ drop k ys" "length (drop k ys) = d" using assms(1) by (simp_all add: k_def)
  have "be_val ys = be_val (take k ys) * 256 ^ d + be_val (drop k ys)"
    using be_val_acc_append [of 0 "take k ys" "drop k ys"] be_val_acc_eq [of "be_val (take k ys)" "drop k ys"] ys(2) by simp
  also have "\<dots> < (be_val (take k ys) + 1) * 256 ^ d" using be_val_less [of "drop k ys"] ys(2) by simp
  finally have "(be_val xs + 1) * 256 ^ d < (be_val (take k ys) + 1) * 256 ^ d" using assms(2) by (rule le_less_trans [rotated])
  then have "be_val xs < be_val (take k ys)" by (simp only: mult_less_cancel2) simp
  then have "before xs (take k ys)" using assms(1) by (intro before_be_val) (simp_all add: k_def)
  then have "before (xs @ []) (take k ys @ drop k ys)" by (rule before_append)
  then show ?thesis by simp
qed

section \<open>The codes keep the order\<close>

lemma string_code_Cons: "string_code (b # s) = escape b @ string_code s"
  by (simp add: string_code_def)

lemma escape_first: "\<exists>t. escape b = b # t"
  by (simp add: escape_def)

lemma string_code_before:
  assumes "string_compare s t < 0"
  shows "before (string_code s) (string_code t)"
  using assms
proof (induction s t rule: string_compare.induct)
  case (2 b bs)
  show ?case
  proof (cases "b = 0")
    case True
    have "before ([0] @ 1 # []) ([0] @ 0xff # string_code bs)" by (rule beforeI) simp
    then show ?thesis by (simp add: True string_code_Cons) (simp add: string_code_def escape_def)
  next
    case False
    then have "0 < b" by (simp add: word_gt_0)
    then show ?thesis using escape_first [of b] by (auto simp: string_code_Cons string_code_def [of "[]"] intro: before_head)
  qed
next
  case (4 a as b bs)
  show ?case
  proof (cases "a = b")
    case True
    then show ?thesis using 4 by (simp add: string_code_Cons before_prefix)
  next
    case False
    then have "a < b" using 4(2) by (auto split: if_splits)
    then show ?thesis using escape_first [of a] escape_first [of b] by (auto simp: string_code_Cons intro: before_head)
  qed
qed simp_all

lemma string_code_infinity: "before (string_code s) [0xff, 0xff]"
proof (cases s)
  case (Cons b t)
  have "before [0xff, 0] [0xff, 0xff]" using before_Cons [OF before_head [of 0 "0xff" "[]" "[]"]] by simp
  show ?thesis
  proof (cases "b = 0xff")
    case True
    have "before ([0xff] @ 0 # string_code t) ([0xff] @ 0xff # [])" by (rule beforeI) simp
    then show ?thesis by (simp add: Cons string_code_Cons True escape_def)
  next
    case False
    then have "b < 0xff" using unat_le8 [of b] by (simp add: word_less_nat_alt word_unat_eq_iff nat_less_le)
    then show ?thesis using escape_first [of b] by (auto simp: Cons string_code_Cons intro: before_head)
  qed
qed (simp add: string_code_def before_head)

lemma num_length_mono: "m < n \<Longrightarrow> num_length m \<le> num_length n"
proof (rule ccontr)
  assume "m < n" "\<not> num_length m \<le> num_length n"
  then have "(256 :: nat) ^ num_length n \<le> 256 ^ (num_length m - 1)" by (intro power_increasing) simp_all
  moreover have "0 < m" using \<open>\<not> num_length m \<le> num_length n\<close> by (cases m) (simp_all add: num_length.simps)
  ultimately show False using num_length_bounds(1) [of n] num_length_bounds(2) [of m] \<open>m < n\<close> by linarith
qed

lemma num_code_before:
  assumes "unat (m :: u64) < unat (n :: u64)"
  shows "before (num_code (unat m)) (num_code (unat n))"
proof (cases "num_length (unat m) = num_length (unat n)")
  case True
  have "before (be_bytes (num_length (unat m)) (unat m)) (be_bytes (num_length (unat m)) (unat n))"
    using assms num_length_bounds(1) [of "unat m"] num_length_bounds(1) [of "unat n"]
    by (intro before_be_val) (simp_all add: be_val_be_bytes True)
  then show ?thesis by (simp add: num_code_def True before_Cons)
next
  case False
  then have "num_length (unat m) < num_length (unat n)" using num_length_mono [OF assms] by simp
  then have "(of_nat (num_length (unat m)) :: byte) < of_nat (num_length (unat n))"
    using num_length_le [of n] num_length_le [of m] by (simp add: word_less_nat_alt)
  then show ?thesis unfolding num_code_def by (rule before_head)
qed

lemma signed_length_mono: "m \<le> n \<Longrightarrow> signed_length m \<le> signed_length n"
proof (rule ccontr)
  assume "m \<le> n" "\<not> signed_length m \<le> signed_length n"
  then have "(2 :: nat) ^ (7 * signed_length n - 1) \<le> 2 ^ (7 * (signed_length m - 1) - 1)" by (intro power_increasing) simp_all
  moreover have "2 ^ (7 * (signed_length m - 1) - 1) \<le> m"
    using signed_length_bounds(2) [of m] signed_length_pos [of n] \<open>\<not> signed_length m \<le> signed_length n\<close> by auto
  ultimately show False using signed_length_bounds(1) [of n] \<open>m \<le> n\<close> by linarith
qed

lemma be_val_signed_code: "be_val (signed_code n) = signed_header (signed_length n) + n"
proof -
  have "(2 :: nat) ^ (7 * signed_length n - 1) \<le> 2 ^ (7 * signed_length n)" by (intro power_increasing) simp_all
  then have "signed_header (signed_length n) + n < 2 ^ (8 * signed_length n)"
    using header_sum [of "signed_length n"] signed_length_bounds(1) [of n] by linarith
  then show ?thesis by (simp add: signed_code_def be_val_be_bytes power_mult)
qed

lemma signed_code_before:
  assumes "m < n"
  shows "before (signed_code m) (signed_code n)"
proof -
  define l where "l = signed_length m"
  define d where "d = signed_length n - l"
  have k: "signed_length n = l + d" using signed_length_mono [of m n] assms by (simp add: l_def d_def)
  have len: "length (signed_code n) = length (signed_code m) + d" by (simp add: signed_code_def k l_def)
  show ?thesis
  proof (cases d)
    case 0
    then show ?thesis using assms k len by (intro before_be_val) (simp_all add: be_val_signed_code l_def)
  next
    case (Suc e)
    have p: "(256 :: nat) ^ d = 2 ^ (8 * d)" by (simp add: power_mult)
    have l: "0 < l" using signed_length_pos [of m] by (simp add: l_def)
    then have "(2 :: nat) ^ (7 * l) = 2 * 2 ^ (7 * l - 1)" using power_Suc [of "2 :: nat" "7 * l - 1"] by simp
    then have "(be_val (signed_code m) + 1) + 2 ^ (7 * l - 1) \<le> 2 ^ (8 * l)"
      using header_sum [of l] signed_length_bounds(1) [of m] unfolding be_val_signed_code l_def [symmetric] by linarith
    then have "((be_val (signed_code m) + 1) + 2 ^ (7 * l - 1)) * 256 ^ d \<le> 2 ^ (8 * l) * 256 ^ d" by (rule mult_le_mono1)
    then have "(be_val (signed_code m) + 1) * 256 ^ d + 2 ^ (7 * l - 1 + 8 * d) \<le> 2 ^ (8 * (l + d))"
      unfolding p by (simp only: add_mult_distrib power_add [symmetric] add_mult_distrib2)
    moreover have "(2 :: nat) ^ (7 * (l + d)) \<le> 2 ^ (7 * l - 1 + 8 * d)" using l Suc by (intro power_increasing) simp_all
    ultimately have "(be_val (signed_code m) + 1) * 256 ^ d \<le> be_val (signed_code n)"
      using header_sum [of "l + d"] unfolding be_val_signed_code k by linarith
    then show ?thesis using len by (rule before_short [rotated])
  qed
qed

lemma signed_text_before:
  assumes "sint m < sint n"
  shows "before (signed_text m) (signed_text n)"
proof -
  have code: "\<exists>b t. signed_code (unat w) = b # t \<and> 128 \<le> unat b" if "\<not> w <s 0" for w :: u64
    using signed_code_first [of "unat w"] that by (simp add: negative_iff)
  have key: "int (unat (NOT w)) = - sint w - 1" if "w <s 0" for w :: u64
  proof -
    have "int (unat w + unat (NOT w)) = 2 ^ 64 - 1" unfolding unat_not by simp
    moreover have "sint w = int (unat w) - 2 ^ 64" using that unfolding sint_unat by (simp only: if_True)
    ultimately show ?thesis unfolding of_nat_add by linarith
  qed
  consider "m <s 0" "n <s 0" | "\<not> m <s 0" "\<not> n <s 0" | "m <s 0" "\<not> n <s 0" | "\<not> m <s 0" "n <s 0" by blast
  then show ?thesis
  proof cases
    case 1
    then have "unat (NOT n) < unat (NOT m)" using key [of m] key [of n] assms by linarith
    then show ?thesis using 1 before_not [OF signed_code_before] by (simp add: signed_text_def)
  next
    case 2
    then have "unat m < unat n" using assms unfolding sint_unat by (simp only: if_False of_nat_less_iff)
    then show ?thesis using 2 signed_code_before by (simp add: signed_text_def)
  next
    case 3
    then obtain a s b t where "signed_code (unat (NOT m)) = a # s" "128 \<le> unat a" "signed_code (unat n) = b # t" "128 \<le> unat b"
      using code [of n] code [of "NOT m"] by (auto simp: negative_not)
    moreover from this have "NOT a < b" by (simp add: word_less_nat_alt unat_not_byte)
    ultimately show ?thesis using 3 by (simp add: signed_text_def before_head)
  next
    case 4
    then show ?thesis using assms by (simp add: word_sless_alt)
  qed
qed

lemma plain_code_before:
  assumes "plain_compare i j = Ascending"
  shows "before (plain_code i) (plain_code j)"
proof (cases "(i, j)" rule: plain_compare.cases)
  case (1 s t)
  then show ?thesis using assms
    by (cases "(s, t)" rule: text_compare.cases) (auto simp: Comparator_string_def string_code_before string_code_infinity)
qed (use assms in \<open>auto simp: num_code_before signed_text_before encode_double(2)\<close>)

lemma same_code:
  assumes "plain_compare i j = Same" and "routine_of i = routine_of j"
  shows "plain_code i = plain_code j"
proof (cases "(i, j)" rule: plain_compare.cases)
  case (1 s t)
  then show ?thesis using assms
    by (cases "(s, t)" rule: text_compare.cases) (auto simp: Comparator_string_def string_compare_zero)
qed (use assms in \<open>auto simp: word_unat_eq_iff encode_double(1) dest: signed_word_eqI\<close>)

lemma plain_compare_swap: "plain_compare j i = ReverseOrder (plain_compare i j)"
proof (cases "(i, j)" rule: plain_compare.cases)
  case (1 s t)
  then show ?thesis by (cases "(s, t)" rule: text_compare.cases) (auto intro: string_order.swap)
qed (auto simp: DefaultComparator_def)

lemma item_code_before:
  assumes "same_routine i j" and "item_compare i j = Ascending"
  shows "before (item_code i) (item_code j)"
proof -
  obtain d p q where [simp]: "i = (d, p)" "j = (d, q)" using assms(1) by (cases i; cases j) auto
  show ?thesis
  proof (cases d)
    case True
    then have "plain_compare q p = Ascending" using assms(2) plain_compare_swap [of q p] by simp
    then show ?thesis using True before_not [OF plain_code_before] by (simp add: item_code_def)
  next
    case False
    then show ?thesis using assms(2) plain_code_before by (simp add: item_code_def)
  qed
qed

lemma item_same_code: "same_routine i j \<Longrightarrow> item_compare i j = Same \<Longrightarrow> item_code i = item_code j"
  using same_code [of "snd i" "snd j"] by (cases i; cases j) (auto simp: item_code_def split: if_splits)

lemma item_compare_swap: "same_routine i j \<Longrightarrow> item_compare j i = ReverseOrder (item_compare i j)"
  using plain_compare_swap [of "snd j" "snd i"] by (cases i; cases j) auto

lemma same_routine_sym: "same_routine i j \<Longrightarrow> same_routine j i"
  by (cases i; cases j) auto

text \<open>
  What the routines for items owe a key: codes that differ are decided before either ends, in the order of the items. Two keys
  then compare as their items do, one after the other, and last as their trailing strings.
\<close>

locale ordered_codec =
  fixes code :: "'a \<Rightarrow> byte list" and cmp :: "'a cmp" and same :: "'a \<Rightarrow> 'a \<Rightarrow> bool"
  assumes code_before: "same i j \<Longrightarrow> cmp i j = Ascending \<Longrightarrow> before (code i) (code j)"
    and code_same: "same i j \<Longrightarrow> cmp i j = Same \<Longrightarrow> code i = code j"
    and cmp_swap: "same i j \<Longrightarrow> cmp j i = ReverseOrder (cmp i j)"
    and same_sym: "same i j \<Longrightarrow> same j i"
begin

lemma code_order:
  assumes "list_all2 same is js"
  shows "Comparator_string (concat (map code is) @ s) (concat (map code js) @ t) =
    (case CompareContainer cmp is js of Same \<Rightarrow> Comparator_string s t | c \<Rightarrow> c)"
  using assms
proof (induction rule: list_all2_induct)
  case (Cons i "is" j js)
  show ?case
  proof (cases "cmp i j")
    case Ascending
    then show ?thesis using before_compare [OF code_before [OF Cons.hyps(1)]] by (simp add: Let_def)
  next
    case Same
    then show ?thesis using code_same [OF Cons.hyps(1) Same] Cons.IH
      by (simp add: Let_def Comparator_string_def string_compare_prefix)
  next
    case Descending
    then have "cmp j i = Ascending" using cmp_swap [OF Cons.hyps(1)] by simp
    then have "Comparator_string (code j @ concat (map code js) @ t) (code i @ concat (map code is) @ s) = Ascending"
      using before_compare [OF code_before [OF same_sym [OF Cons.hyps(1)]]] by blast
    then show ?thesis using Descending string_order.desc_iff by (simp add: Let_def)
  qed
qed simp

end

interpretation item_codec: ordered_codec item_code item_compare same_routine
  by unfold_locales (fact item_code_before item_same_code item_compare_swap same_routine_sym)+

section \<open>Reading a key\<close>

text \<open>What is read for an item: the same, but for the double -0, which is read as 0\<close>

fun read_back :: "plain_item \<Rightarrow> plain_item" where
  "read_back (Double d) = Double (if d = 0x8000000000000000 then 0 else d)"
| "read_back i = i"

lemma read_infinity:
  "ReadInfinityInternal d (map (Convert d) [0xff, 0xff] @ rest) = Reads () rest"
  "ReadInfinityInternal d (map (Convert d) (string_code s) @ rest) = Fails"
proof -
  have inf: "kEscape2 = 0xff" "kInfinity = 0xff" by (simp_all add: escape_constants)
  show "ReadInfinityInternal d (map (Convert d) [0xff, 0xff] @ rest) = Reads () rest"
    by (simp add: ReadInfinityInternal_def inf)
  show "ReadInfinityInternal d (map (Convert d) (string_code s) @ rest) = Fails"
    by (cases s) (auto simp: ReadInfinityInternal_def inf string_code_def escape_def)
qed

lemma read_item_code: "read_item (fst i, routine_of (snd i)) (item_code i @ rest) = Reads (read_back (snd i)) rest"
proof -
  obtain d p where i: "i = (d, p)" by (cases i)
  show ?thesis
  proof (cases p)
    case (Text t)
    show ?thesis
    proof (cases t)
      case None
      then show ?thesis using read_infinity(1) [of d rest]
        by (simp add: i Text item_code_def ReadStringOrInfinityInternal_def)
    next
      case (Some s)
      have "(if d then ReadStringDecreasing (item_code i @ rest) [] else ReadString (item_code i @ rest) []) = Reads s rest"
        unfolding i Text Some item_code_def using read_string_exact [of _ "[]" s rest] by (cases d) simp_all
      then show ?thesis using read_infinity(2) [of d s rest]
        unfolding i Text Some by (simp add: item_code_def ReadStringOrInfinityInternal_def del: map_convert split: if_splits)
    qed
  next
    case (Number n)
    then show ?thesis using read_num_exact [THEN iffD2, OF refl, of n rest] read_num_decreasing_exact [THEN iffD2, OF refl, of n rest]
      by (cases d) (simp_all add: i item_code_def)
  next
    case (Signed n)
    then show ?thesis using read_signed_exact [THEN iffD2, OF refl, of n rest] read_signed_decreasing_exact [THEN iffD2, OF refl, of n rest]
      by (cases d) (simp_all add: i item_code_def)
  next
    case (Double x)
    then show ?thesis
      using read_signed_exact [THEN iffD2, OF refl, of "EncodeDoubleAsInt64 x" rest]
        read_signed_decreasing_exact [THEN iffD2, OF refl, of "EncodeDoubleAsInt64 x" rest]
      by (cases d) (simp_all add: i item_code_def ReadDoubleIncreasing_def ReadDoubleDecreasing_def decode_encode)
  qed
qed

lemma read_items_code: "read_items (map (\<lambda>i. (fst i, routine_of (snd i))) is) (concat (map item_code is) @ rest) = Reads (map (\<lambda>i. read_back (snd i)) is) rest"
  by (induction "is") (simp_all add: read_item_code)

section \<open>What keys promise\<close>

lemma read_num_aborts: "ReadNumIncreasing src = Aborts \<longleftrightarrow> (\<exists>b t. src = b # 0 # t \<and> b \<noteq> 0)"
proof (cases src)
  case (Cons b t)
  have "(scast b :: u64) = 0 \<longleftrightarrow> b = 0" by (metis scast_0 small_byte unat_0 of_nat_0)
  then show ?thesis by (cases t) (auto simp: Cons ReadNumIncreasing_def Let_def)
qed (simp add: ReadNumIncreasing_def)

lemma read_num_decreasing_aborts: "ReadNumDecreasing src = Aborts \<longleftrightarrow> ReadNumIncreasing (map NOT src) = Aborts"
proof -
  have "ReadNumDecreasing src = ReadNumDecreasing (map NOT (map NOT src))" by simp
  then show ?thesis unfolding read_num_decreasing by (cases "ReadNumIncreasing (map NOT src)") simp_all
qed

lemma not_image: "\<exists>u. t = map NOT u" for t :: "byte list"
  by (rule exI [of _ "map NOT t"]) simp

text \<open>A text whose first bytes announce a length of \<open>k\<close> bytes for a number that fits in fewer\<close>

definition too_long :: "byte list \<Rightarrow> bool" where
  "too_long src \<longleftrightarrow> (\<exists>k>1. announces src k \<and> be_val (take k src) < signed_header k + 2 ^ (7 * (k - 1) - 1))"

lemma too_long_first: "too_long src \<Longrightarrow> src \<noteq> [] \<and> src ! 0 AND 0x80 \<noteq> 0"
proof -
  assume "too_long src"
  then obtain k where a: "announces src k" by (auto simp: too_long_def)
  then obtain j where j: "k = Suc j" by (cases k) (simp_all add: announces_def)
  obtain b t where src: "src = b # t" using a j by (cases src) (simp_all add: announces_def)
  have len: "length (take j t) = j" using a j src by (simp add: announces_def)
  have v: "be_val (take k src) = unat b * 256 ^ j + be_val (take j t)" using be_val_take_Suc [OF src, of j] a j src by (simp add: announces_def)
  have "128 \<le> unat b"
  proof (rule ccontr)
    assume "\<not> 128 \<le> unat b"
    then have "(unat b + 1) * 256 ^ j \<le> 128 * 256 ^ j" by (intro mult_le_mono1) simp
    then have "unat b * 256 ^ j + 256 ^ j \<le> 128 * 256 ^ j" by (simp only: add_mult_distrib mult_1)
    then have "be_val (take k src) < 128 * 256 ^ j" using v be_val_less [of "take j t"] unfolding len by linarith
    moreover have "128 * (256 :: nat) ^ j = 2 ^ (8 * j + 7)" unfolding power_add power_mult by simp
    moreover have "(2 :: nat) ^ (7 * k) \<le> 2 ^ (8 * j + 7)" unfolding j by (intro power_increasing) simp_all
    moreover have "(2 :: nat) ^ (8 * k) = 2 * 2 ^ (8 * j + 7)" unfolding j power_add power_mult by simp
    moreover have "signed_header k \<le> be_val (take k src)" using a by (simp add: announces_def)
    ultimately show False using header_sum [of k] by linarith
  qed
  then show ?thesis using src first_positive by simp
qed

lemma read_signed_aborts: "ReadSignedNumIncreasing src = Aborts \<longleftrightarrow> too_long src \<or> too_long (map NOT src)"
proof (cases "src = []")
  case True
  then show ?thesis using too_long_first [of "[]"] by (auto simp: ReadSignedNumIncreasing_def)
next
  case False
  show ?thesis
  proof (cases "src ! 0 AND 0x80 = 0")
    case pos: False
    have "\<not> too_long (map NOT src)" using too_long_first [of "map NOT src"] False pos sign_bit_not [of "src ! 0"] by auto
    then show ?thesis using read_signed_positive(2) [OF False pos] unfolding too_long_def [symmetric] by simp
  next
    case True
    define s where "s = map NOT src"
    have s: "src = map NOT s" by (simp add: s_def)
    have pos: "s \<noteq> []" "s ! 0 AND 0x80 \<noteq> 0" using False True sign_bit_not [of "src ! 0"] by (simp_all add: s_def)
    have "\<not> too_long src" using too_long_first [of src] True by auto
    moreover have "ReadSignedNumIncreasing src = Aborts \<longleftrightarrow> too_long s"
      unfolding s read_signed_not map_read_eq too_long_def by (rule read_signed_positive(2) [OF pos])
    ultimately show ?thesis by (simp add: s_def)
  qed
qed

lemma read_signed_decreasing_aborts: "ReadSignedNumDecreasing src = Aborts \<longleftrightarrow> ReadSignedNumIncreasing src = Aborts"
  by (simp add: ReadSignedNumDecreasing_def map_outcome_eq)

text \<open>C14. Keys written with the same routines compare, byte by byte, as their items do one by one.\<close>

theorem ordered_code_order:
  assumes "list_all2 same_routine is js"
  shows "\<exists>a b. write_items [] is = Some a \<and> write_items [] js = Some b \<and>
    Comparator_string (WriteTrailingString a s) (WriteTrailingString b t) =
      (case CompareContainer item_compare is js of Same \<Rightarrow> Comparator_string s t | c \<Rightarrow> c)"
  using item_codec.code_order [OF assms, of s t] by (simp add: write_items_eq WriteTrailingString_def)

lemma ordered_code_order_witness:
  "\<exists>a b. write_items [] [(False, Text (Some [0])), (True, Signed 5)] = Some a \<and> write_items [] [(False, Text (Some [0])), (True, Signed (- 70))] = Some b \<and>
    Comparator_string (WriteTrailingString a []) (WriteTrailingString b [7]) = Ascending"
proof -
  have "list_all2 same_routine [(False, Text (Some [0])), (True, Signed 5)] [(False, Text (Some [0])), (True, Signed (- 70))]" by simp
  from ordered_code_order [OF this, of "[]" "[7]"] show ?thesis
    by (simp add: Comparator_string_def DefaultComparator_def ComparisonResultFromInt_def Let_def)
qed

text \<open>C15. A key is read back item by item, whatever follows it; only the double -0 is read as 0.\<close>

theorem ordered_code_roundtrip:
  "\<exists>a. write_items dest is = Some (dest @ a) \<and>
    read_items (map (\<lambda>i. (fst i, routine_of (snd i))) is) (a @ rest) = Reads (map (\<lambda>i. read_back (snd i)) is) rest"
  by (intro exI [of _ "concat (map item_code is)"] conjI) (simp_all add: write_items_eq read_items_code)

text \<open>C16. The readers of strings and numbers accept exactly what the writers write, with any text after it.\<close>

theorem ordered_readers_exact:
  "(ReadString src [] = Reads s rest \<longleftrightarrow> (\<exists>w. WriteString [] s = Some w \<and> src = w @ rest)) \<and>
   (ReadStringDecreasing src [] = Reads s rest \<longleftrightarrow> (\<exists>w. WriteStringDecreasing [] s = Some w \<and> src = w @ rest)) \<and>
   (ReadNumIncreasing src = Reads n rest \<longleftrightarrow> src = WriteNumIncreasing [] n @ rest) \<and>
   (ReadNumDecreasing src = Reads n rest \<longleftrightarrow> src = WriteNumDecreasing [] n @ rest) \<and>
   (ReadSignedNumIncreasing src = Reads n rest \<longleftrightarrow> (\<exists>w. WriteSignedNumIncreasing [] n = Some w \<and> src = w @ rest)) \<and>
   (ReadSignedNumDecreasing src = Reads n rest \<longleftrightarrow> (\<exists>w. WriteSignedNumDecreasing [] n = Some w \<and> src = w @ rest))"
  by (simp add: read_string_exact write_string_eq read_num_exact read_num_decreasing_exact write_num_eq
      read_signed_exact read_signed_decreasing_exact write_signed_eq)

text \<open>C17. A reader of numbers runs into an assertion exactly on codes that are longer than the number needs: a length byte before a
  zero byte, or first bytes that announce more bytes than the payload fills. The readers of strings never do.
\<close>

theorem ordered_readers_abort:
  "ReadString src r \<noteq> Aborts \<and> ReadStringDecreasing src r \<noteq> Aborts \<and>
   (ReadNumIncreasing src = Aborts \<longleftrightarrow> (\<exists>b t. src = b # 0 # t \<and> b \<noteq> 0)) \<and>
   (ReadNumDecreasing src = Aborts \<longleftrightarrow> (\<exists>b t. src = NOT b # NOT 0 # t \<and> b \<noteq> 0)) \<and>
   (ReadSignedNumIncreasing src = Aborts \<longleftrightarrow> too_long src \<or> too_long (map NOT src)) \<and>
   (ReadSignedNumDecreasing src = Aborts \<longleftrightarrow> too_long src \<or> too_long (map NOT src))"
proof (intro conjI)
  show "ReadString src r \<noteq> Aborts" "ReadStringDecreasing src r \<noteq> Aborts"
    by (simp_all add: ReadString_def ReadStringDecreasing_def ReadStringInternal_def read_loop_eq read_text_no_abort)
  show "ReadNumDecreasing src = Aborts \<longleftrightarrow> (\<exists>b t. src = NOT b # NOT 0 # t \<and> b \<noteq> 0)"
    unfolding read_num_decreasing_aborts read_num_aborts map_not_flip using not_image by auto
qed (fact read_num_aborts read_signed_aborts read_signed_decreasing_aborts [unfolded read_signed_aborts])+

text \<open>C18. The scan for special bytes, eight at a time, returns the first special byte or the limit; its assertions hold.
\<close>

theorem skip_special_exact:
  assumes "p \<le> limit" and "limit \<le> length s"
  shows "\<exists>q. SkipToNextSpecialByte s p limit = Some q \<and> p \<le> q \<and> q \<le> limit \<and>
    (\<forall>b\<in>set (take (q - p) (drop p s)). \<not> IsSpecialByte b) \<and> (q = limit \<or> IsSpecialByte (s ! q))"
proof (intro exI conjI)
  define u where "u = take (limit - p) (drop p s)"
  define k where "k = length (takeWhile (\<lambda>b. \<not> IsSpecialByte b) u)"
  have q: "first_special s p limit = p + k" by (simp add: first_special_def u_def k_def)
  have len: "length u = limit - p" "k \<le> length u" using assms by (simp_all only: k_def length_takeWhile_le) (simp add: u_def)
  show "SkipToNextSpecialByte s p limit = Some (p + k)" using skip_eq [OF assms(2)] q by simp
  show "p \<le> p + k" "p + k \<le> limit" using len assms by simp_all
  have "take (p + k - p) (drop p s) = takeWhile (\<lambda>b. \<not> IsSpecialByte b) u"
  proof -
    have "takeWhile (\<lambda>b. \<not> IsSpecialByte b) u = take k u" unfolding k_def by (rule takeWhile_eq_take)
    also have "\<dots> = take k (drop p s)" using len by (simp add: u_def)
    finally show ?thesis by simp
  qed
  then show "\<forall>b\<in>set (take (p + k - p) (drop p s)). \<not> IsSpecialByte b" by (auto dest: set_takeWhileD)
  show "p + k = limit \<or> IsSpecialByte (s ! (p + k))"
  proof (cases "k < length u")
    case True
    then have "IsSpecialByte (u ! k)" using nth_length_takeWhile [of "\<lambda>b. \<not> IsSpecialByte b" u] by (simp add: k_def)
    then show ?thesis using True len assms by (simp add: u_def)
  qed (use len assms in simp)
qed

lemma skip_special_exact_witness:
  "\<exists>q. SkipToNextSpecialByte ([1, 2, 3, 4, 5, 6, 7, 8, 9, 0xff, 10]) 1 11 = Some q \<and> 1 \<le> q \<and> q \<le> 11 \<and>
    (\<forall>b\<in>set (take (q - 1) (drop 1 [1, 2, 3, 4, 5, 6, 7, 8, 9, 0xff, 10])). \<not> IsSpecialByte b) \<and> (q = 11 \<or> IsSpecialByte ([1, 2, 3, 4, 5, 6, 7, 8, 9, 0xff, 10] ! q))"
  by (rule skip_special_exact) simp_all

end
