(* ===== verification/Spec2Isabelle.thy ===== *)
theory Spec2Isabelle
  imports Bytestring_Properties Ber Base64 Stack UV_Close UV_Inet Nanopb_Size Nanopb_Fields Document_Set Ordered_Code
begin

text \<open>
  Verification library for the C and C++ code that the Foresome application ships.

  Foresome is an iOS application. Its own code is Swift; the C and C++ code of the repository is the libraries vendored under
  \<open>src/Foresome/Pods\<close>, through which the application talks to Firebase: Firestore keeps documents in sorted containers and
  encodes its keys and messages, gRPC carries the messages, and under gRPC are BoringSSL and libuv. This library models the
  parts of them that are plain computation on data, from the bottom up. Paths below are relative to \<open>src/Foresome/Pods\<close>.

  \<^bold>\<open>Conventions.\<close> Machine integers are words of their width (\<open>u8\<close> to \<open>u64\<close>), or \<open>nat\<close> with the wrap-around written out where a
  size is added. An array of bytes is a list. \<open>Prelude\<close> defines the operations \<open>('s, 'a) op\<close>: functions from a state to a result,
  \<open>None\<close> for the failure the code reports, and the state left behind. Where the code has an assertion, an exception or an access
  that is undefined, the model has a \<open>None\<close> of its own, and the properties show when it is not reached. Calls of code that is not in
  the repository (the allocator, \<open>qsort\<close>, \<open>std::sort\<close>, callbacks, close callbacks) are parameters; what is asked of them is a
  hypothesis by name (\<open>qsort_ok\<close>, \<open>comparator\<close>, \<open>strict_comparator\<close>, \<open>steady_env\<close>, \<open>sink\<close>).

  \<^bold>\<open>Byte strings of BoringSSL\<close> (\<open>BoringSSL-GRPC/src/crypto\<close>).
  \<^item> \<open>Mem\<close>, \<open>Constant_Time\<close>: \<open>mem.c\<close> and the \<open>constant_time_*\<close> functions of \<open>internal.h\<close>.
  \<^item> \<open>Bytestring_CBS\<close>: the reader \<open>bytestring/cbs.c\<close>. A \<open>CBS\<close> is the list of the bytes it spans, the state of every reading operation.
  \<^item> \<open>Bytestring_CBB\<close>, \<open>Bytestring_SetOf\<close>, \<open>Bytestring_OID\<close>: the builder \<open>bytestring/cbb.c\<close>. A record \<open>CBB\<close> holds the buffer
    (contents, capacity, growth, error flag) and the chain of open children; the number of an operation's handle says which of
    them it is called on. \<open>CBB_Refine\<close> and \<open>CBB_Ops\<close> relate it to an abstract builder, a stack of open frames, by \<open>cbb_rep\<close>, and
    state the contract of one operation as the locale \<open>cbb_op\<close>, interpreted for every operation of the code.
  \<^item> \<open>DER\<close>, \<open>DER_Integer\<close>: the encodings themselves, as functions of values, and that the parsers accept exactly these.
  \<^item> \<open>CBB_Safe\<close>, \<open>Bytestring_Roundtrip\<close>, \<open>Bytestring_Properties\<close>: what holds over sequences of calls (bounds of fixed buffers, the
    error flag), writers and readers as inverses, and the properties.
  \<^item> \<open>Unicode\<close>, \<open>Ber\<close>, \<open>Base64\<close>, \<open>Stack\<close>: \<open>bytestring/unicode.c\<close>, \<open>bytestring/ber.c\<close>, \<open>base64/base64.c\<close>, \<open>stack/stack.c\<close>. \<open>Ber\<close>
    uses the builder through its contract; the conversion is shown to write the bytes of a pure function of its input.

  \<^bold>\<open>libuv\<close> (\<open>Libuv-gRPC\<close>).
  \<^item> \<open>UV_Heap\<close>, \<open>UV_Heap_Order\<close>: \<open>src/heap-inl.h\<close> on the pointers between the nodes, a map from addresses to records. The shape
    invariant says that the pointers form the complete tree of the first \<open>n\<close> positions.
  \<^item> \<open>UV_Timer\<close>: \<open>src/timer.c\<close> and the handle macros of \<open>src/uv-common.h\<close>, on a record \<open>uv_loop\<close> with the fields that timers touch.
  \<^item> \<open>UV_Close\<close>: closing a timer, from \<open>src/unix/core.c\<close>; of its switches over the type of a handle only the case \<open>UV_TIMER\<close>. Its
    \<open>loop_inv\<close> is the invariant of the whole loop.
  \<^item> \<open>UV_Inet\<close>: \<open>src/inet.c\<close> and \<open>src/strscpy.c\<close>.

  \<^bold>\<open>nanopb\<close> (\<open>nanopb\<close>).
  \<^item> \<open>Nanopb_Stream\<close>, \<open>Nanopb_Varint\<close>, \<open>Nanopb_Wire\<close>: the streams and the wire values of \<open>pb_encode.c\<close> and \<open>pb_decode.c\<close>. \<open>emits\<close>
    says in one place what a writer does on every stream: what it counts, what it writes, and when it fails.
  \<^item> \<open>Nanopb_Encode\<close>: the message encoder with \<open>pb_common.c\<close>, over a memory of bytes and descriptor tables. It may recurse without
    end through tables and extension chains, so it is a program that may not return, with fuel for its depth.
  \<^item> \<open>Nanopb_Size\<close>: the sizing pass and the writing pass agree, and the encoder returns. \<open>Nanopb_Fields\<close>: the decoders of single fields.

  \<^bold>\<open>Firestore\<close> (\<open>FirebaseFirestore/Firestore/core/src\<close>) and the strings of abseil it uses (\<open>abseil/absl/strings\<close>).
  \<^item> \<open>Comparison\<close>, \<open>Sorted_Entries\<close>: \<open>util/comparison.h\<close>, the contract of a comparator as the locales \<open>comparator\<close> and
    \<open>strict_comparator\<close>, and the ordered lists that sorted maps stand for.
  \<^item> \<open>Llrb\<close>, \<open>Llrb_Tree\<close>, \<open>Llrb_Erase\<close>: \<open>immutable/llrb_node.h\<close> and its balance.
  \<^item> \<open>Sorted_Map\<close>, \<open>Sorted_Map_Laws\<close>, \<open>Sorted_Map_Iter\<close>, \<open>Sorted_Map_Properties\<close>: the array map, the tree map, the map of the two
    and their iterators. The locale \<open>map_store\<close> is what all three promise, and \<open>ordered_map\<close> adds iteration and ranges for their clients.
  \<^item> \<open>Absl_Strings\<close>, \<open>Document_Key\<close>: search, split and join of abseil, and the paths and keys of \<open>model\<close> made with them.
  \<^item> \<open>Reference_Set\<close>, \<open>Document_Set\<close>: \<open>local/reference_set.cc\<close>, \<open>immutable/sorted_set.h\<close> and \<open>model/document_set.cc\<close>, clients of the sorted maps.
  \<^item> \<open>Firestore_Bits\<close>, \<open>Ordered_Bytes\<close>, \<open>Ordered_Strings\<close>, \<open>Ordered_Numbers\<close>, \<open>Ordered_Signed\<close>, \<open>Ordered_Code\<close>: \<open>util/bits.h\<close> and
    \<open>util/ordered_code.cc\<close>, the keys of the indices: their order, that they are read back, and exactly what the readers accept.

  \<^bold>\<open>Bounds and fuel.\<close> \<open>cbs_convert_ber\<close> runs with one step more than its input has bytes; \<open>convert_ber_terminates\<close> shows that it
  never runs out. \<open>pb_encode\<close> has fuel for the nesting of messages and returns \<open>None\<close> only without it; \<open>encode_returns\<close> says how much is
  enough when there are no extensions. \<open>heap_up\<close>, \<open>heap_down\<close> and \<open>uv__run_timers\<close> are partial functions, \<open>None\<close> when they do
  not return; the invariants show that the first two do, and \<open>run_timers_fires_all_due\<close> when the last one does. The other loops
  are total by a measure. Sizes of sorted maps stay below 2 ^ 31 (\<open>max_entries\<close>), since the code counts in 32 bits; an array
  holds 25 entries (\<open>kFixedSize\<close>). Nesting of BER is bounded by 2048 (\<open>kMaxDepth\<close>) as in the code.

  \<^bold>\<open>Not modelled.\<close> Memory management and sharing of nodes, locks and timing; the loop of the message decoder of nanopb; the rest of
  libuv, BoringSSL, gRPC, LevelDB, abseil and Firestore, which is input and output, cryptography, generated tables or
  asynchronous code over the parts modelled here; and the Swift code of the application.
\<close>

end
